(* ===== verification/Kernel_Prelude.thy ===== *)
theory Kernel_Prelude
  imports Main "HOL-Library.Word"
begin

text \<open>
  Shared vocabulary of the development: the machine types of the i386 kernel, the error
  numbers of \<^verbatim>\<open>sys/errno.h\<close> that the modelled code returns, the wrap-around of a C
  \<^verbatim>\<open>short\<close>, and the generic lemmas on words, lists and linked chains that the component
  theories rely on.
\<close>

unbundle bit_operations_syntax

section \<open>Machine types\<close>

text \<open>On the i386 \<^verbatim>\<open>int\<close>, \<^verbatim>\<open>long\<close> and pointers have 32 bits, \<^verbatim>\<open>short\<close> 16 and \<^verbatim>\<open>char\<close> 8.\<close>

type_synonym u8 = "8 word"
type_synonym u16 = "16 word"
type_synonym u32 = "32 word"

named_theorems word_to_nat \<open>moving word arithmetic to natural numbers\<close>

section \<open>Error numbers\<close>

text \<open>The members of \<^verbatim>\<open>sys/errno.h\<close> that the modelled functions return.\<close>

datatype errno =
    EPERM | ENOENT | EINTR | E2BIG | EBADF | EAGAIN | EACCES | EFAULT | EEXIST
  | EINVAL | EFBIG | ENOSPC | ERANGE | ENOMSG | EIDRM | EDEADLK | ENOLCK | EOVERFLOW | ENOMEM

section \<open>Signed sixteen-bit values\<close>

text \<open>
  A C \<^verbatim>\<open>short\<close> is kept as the integer it denotes; storing a value into it wraps to
  the range from \<open>-32768\<close> to \<open>32767\<close>.
\<close>

definition to_short :: "int \<Rightarrow> int" where
  "to_short v = (v + 32768) mod 65536 - 32768"

lemma to_short_id: "\<lbrakk>- 32768 \<le> v; v \<le> 32767\<rbrakk> \<Longrightarrow> to_short v = v"
  by (simp add: to_short_def)

lemma to_short_bounds: "- 32768 \<le> to_short v \<and> to_short v \<le> 32767"
proof -
  have "0 \<le> (v + 32768) mod 65536" and "(v + 32768) mod 65536 < 65536" by simp_all
  then show ?thesis by (simp add: to_short_def)
qed

lemma to_short_cong: "to_short v mod 65536 = v mod 65536"
  by (simp add: to_short_def mod_diff_left_eq)

lemma to_short_add: "to_short (to_short v + w) = to_short (v + w)"
proof -
  have "(to_short v + w + 32768) mod 65536 = (v + w + 32768) mod 65536"
    by (metis add.assoc mod_add_left_eq to_short_cong)
  then show ?thesis by (simp add: to_short_def)
qed

lemma to_short_diff_add: "to_short (to_short (v - w) + w) = to_short v"
  by (simp add: to_short_add)

text \<open>Adding two values of magnitude at most \<open>m \<le> 16384\<close>: an overflow is seen as out of range.\<close>

lemma to_short_sum:
  assumes "\<bar>v\<bar> \<le> m" and "\<bar>w\<bar> \<le> m" and "m \<le> 16384"
  shows "to_short (v + w) > m \<or> to_short (v + w) < - m \<longleftrightarrow> \<bar>v + w\<bar> > m"
    and "\<bar>v + w\<bar> \<le> m \<Longrightarrow> to_short (v + w) = v + w"
proof -
  have small: "to_short (v + w) = v + w" if "v + w \<noteq> 32768"
    using assms that by (intro to_short_id) auto
  have big: "to_short (v + w) = - 32768" if "v + w = 32768"
    using that by (simp add: to_short_def)
  show "to_short (v + w) > m \<or> to_short (v + w) < - m \<longleftrightarrow> \<bar>v + w\<bar> > m"
    using small big assms by (cases "v + w = 32768") auto
  show "\<bar>v + w\<bar> \<le> m \<Longrightarrow> to_short (v + w) = v + w"
    using small assms by auto
qed

section \<open>Words\<close>

lemma unat_plus_nowrap [word_to_nat]:
  fixes x y :: "'a :: len word"
  assumes "unat x + unat y < 2 ^ LENGTH('a)"
  shows "unat (x + y) = unat x + unat y"
  using assms by (simp add: unat_add_lem)

lemma unat_minus_nowrap [word_to_nat]:
  fixes x y :: "'a :: len word"
  assumes "y \<le> x"
  shows "unat (x - y) = unat x - unat y"
  using assms by (simp add: unat_sub)

lemma word_sum_eqI:
  fixes x y z :: "'a :: len word"
  assumes "unat x + unat y = unat z"
  shows "x + y = z"
proof -
  have "unat z < 2 ^ LENGTH('a)" by (rule unsigned_less)
  with assms show ?thesis by (simp add: word_unat_eq_iff unat_plus_nowrap)
qed

lemma word_neq_zero_unat [word_to_nat]: "x \<noteq> 0 \<longleftrightarrow> 0 < unat (x :: 'a :: len word)"
  by (simp add: unat_gt_0)

section \<open>Lists\<close>

lemma takeWhile_append_stop:
  "\<lbrakk>\<forall>x \<in> set xs. P x; \<not> P y\<rbrakk> \<Longrightarrow> takeWhile P (xs @ y # ys) = xs"
  by (induction xs) auto

lemma nth_update: "j < length xs \<Longrightarrow> xs[i := x] ! j = (if i = j then x else xs ! j)"
  by auto

lemma sorted_wrt_appendD:
  assumes "sorted_wrt R (xs @ ys)"
  shows "sorted_wrt R xs" and "sorted_wrt R ys" and "\<And>x y. \<lbrakk>x \<in> set xs; y \<in> set ys\<rbrakk> \<Longrightarrow> R x y"
  using assms by (auto simp: sorted_wrt_append)

lemma find_split:
  assumes "\<exists>x \<in> set xs. P x"
  obtains ys x zs where "xs = ys @ x # zs" and "P x" and "\<forall>y \<in> set ys. \<not> P y"
  using assms by (metis split_list_first_prop)

text \<open>The position of the first element with a property.\<close>

fun find_pos :: "('a \<Rightarrow> bool) \<Rightarrow> 'a list \<Rightarrow> nat option" where
  "find_pos P [] = None"
| "find_pos P (x # xs) = (if P x then Some 0 else map_option Suc (find_pos P xs))"

lemma find_pos_Some: "find_pos P xs = Some k \<Longrightarrow> k < length xs \<and> P (xs ! k)"
  by (induction xs arbitrary: k) (auto split: if_splits)

lemma find_pos_None: "find_pos P xs = None \<longleftrightarrow> (\<forall>x \<in> set xs. \<not> P x)"
  by (induction xs) auto

section \<open>Linked chains\<close>

text \<open>The path from a pointer over a list of addresses to another pointer, \<open>lk\<close> being the link field.\<close>

fun lpath :: "('a \<Rightarrow> 'a option) \<Rightarrow> 'a option \<Rightarrow> 'a list \<Rightarrow> 'a option \<Rightarrow> bool" where
  "lpath lk p [] q \<longleftrightarrow> p = q"
| "lpath lk p (x # xs) q \<longleftrightarrow> p = Some x \<and> lpath lk (lk x) xs q"

definition last_opt :: "'a list \<Rightarrow> 'a option" where
  "last_opt xs = (if xs = [] then None else Some (last xs))"

lemma last_opt_simps [simp]:
  "last_opt [] = None" "last_opt (xs @ [x]) = Some x" "last_opt (x # xs) = (if xs = [] then Some x else last_opt xs)"
  "last_opt xs = None \<longleftrightarrow> xs = []"
  by (simp_all add: last_opt_def)

lemma last_opt_append: "last_opt (xs @ ys) = (if ys = [] then last_opt xs else last_opt ys)"
  by (simp add: last_opt_def)

lemma last_optD: "last_opt xs = Some x \<Longrightarrow> \<exists>us. xs = us @ [x]"
  by (cases xs rule: rev_cases) auto

lemma lpath_append: "lpath lk p (xs @ ys) q \<longleftrightarrow> (\<exists>r. lpath lk p xs r \<and> lpath lk r ys q)"
  by (induction xs arbitrary: p) auto

lemma lpath_cong: "\<forall>x \<in> set xs. lk' x = lk x \<Longrightarrow> lpath lk' p xs q = lpath lk p xs q"
  by (induction xs arbitrary: p) auto

lemma lpath_upd [simp]: "x \<notin> set xs \<Longrightarrow> lpath (lk(x := y)) p xs q = lpath lk p xs q"
  by (rule lpath_cong) auto

lemma lpath_hd: "lpath lk p xs None \<Longrightarrow> p = (case xs of [] \<Rightarrow> None | x # _ \<Rightarrow> Some x)"
  by (cases xs) auto

lemma lpath_unique: "\<lbrakk>lpath lk p xs None; lpath lk p ys None\<rbrakk> \<Longrightarrow> xs = ys"
proof (induction xs arbitrary: p ys)
  case Nil
  then show ?case by (cases ys) auto
next
  case (Cons x xs)
  then show ?case by (cases ys) auto
qed

lemma lpath_distinct: "lpath lk p xs None \<Longrightarrow> distinct xs"
proof (induction xs arbitrary: p)
  case (Cons x xs)
  have "x \<notin> set xs"
  proof
    assume "x \<in> set xs"
    then obtain us vs where s: "xs = us @ x # vs" by (meson split_list)
    then have "lpath lk (lk x) vs None" using Cons.prems by (auto simp: lpath_append)
    with Cons.prems have "xs = vs" by (auto intro: lpath_unique)
    with s show False by simp
  qed
  with Cons show ?case by auto
qed simp

text \<open>A new element behind the last one.\<close>

lemma lpath_snoc:
  assumes "lpath lk p (us @ [x]) None" and "y \<notin> set (us @ [x])"
  shows "lpath (lk(x := Some y, y := None)) p (us @ [x, y]) None"
  using assms lpath_distinct [OF assms(1)] by (auto simp: lpath_append)

section \<open>Signed thirty-two-bit values\<close>

text \<open>A C \<^verbatim>\<open>long\<close> holds values modulo \<open>2^32\<close>.\<close>

definition to_long :: "int \<Rightarrow> int" where
  "to_long v = (v + 2147483648) mod 4294967296 - 2147483648"

lemma to_long_id: "\<lbrakk>- 2147483648 \<le> v; v \<le> 2147483647\<rbrakk> \<Longrightarrow> to_long v = v"
  by (simp add: to_long_def)

end
