(* ===== verification/Rmap.thy ===== *)
theory Rmap
  imports Kernel_Prelude
begin

text \<open>
  Resource maps: \<^verbatim>\<open>uts/i386/os/malloc.c\<close> and \<^verbatim>\<open>sys/map.h\<close>. A map is an array of
  \<^verbatim>\<open>(m_size, m_addr)\<close> slots; slot 0 is a header whose fields are read through the macros
  \<^verbatim>\<open>mapsize\<close> and \<^verbatim>\<open>mapwant\<close>, the slots from \<^verbatim>\<open>mapstart\<close> on list the free runs in
  increasing order and end with a slot of size 0. The record below keeps the two header fields
  and the list of the other slots of the array. A pointer walking up the array is recursion on
  the remaining slots; walking off the array is the explicit outcome \<open>None\<close> (or
  \<open>RmFault\<close>), so that its absence is a theorem.

  The first part translates the code. The second gives the meaning of a map as the set of its
  free units, the well-formedness invariant, and the contract of \<^verbatim>\<open>rmalloc\<close> and \<^verbatim>\<open>rmfree\<close>
  against that set, packaged as the locale \<open>unit_pool\<close> that the semaphore and message
  components build on.
\<close>

section \<open>The code\<close>

record slot =
  m_size :: u32
  m_addr :: u32

record rmap =
  mapsize :: u32
  mapwant :: u32
  slots :: "slot list"

text \<open>The slots of a static array beyond the used ones are zero.\<close>

definition zslot :: slot where
  "zslot = \<lparr>m_size = 0, m_addr = 0\<rparr>"

text \<open>\<^verbatim>\<open>struct map X[n]\<close> in zeroed storage, after \<^verbatim>\<open>mapinit(X, n)\<close>.\<close>

definition mapinit :: "nat \<Rightarrow> rmap" where
  "mapinit n = \<lparr>mapsize = of_nat n - 2, mapwant = 0, slots = replicate (n - 1) zslot\<rparr>"

text \<open>
  The loop \<^verbatim>\<open>do { bp++; (bp-1)->m_addr = bp->m_addr; } while ((bp-1)->m_size = bp->m_size);\<close>
  of \<^verbatim>\<open>rmalloc\<close>, started at the head of the list.
\<close>

fun shift_down :: "slot list \<Rightarrow> slot list option" where
  "shift_down (b # c # bs) =
     (if m_size c \<noteq> 0 then map_option ((#) c) (shift_down (c # bs)) else Some (c # c # bs))"
| "shift_down _ = None"

text \<open>
  \<^verbatim>\<open>rmalloc\<close>'s search: the outcome is the address (0 when no slot fits) and the slots, with a
  flag saying whether \<^verbatim>\<open>mapsize(mp)++\<close> was executed.
\<close>

fun rmalloc_scan :: "u32 \<Rightarrow> slot list \<Rightarrow> (u32 \<times> slot list \<times> bool) option" where
  "rmalloc_scan sz [] = None"
| "rmalloc_scan sz (b # bs) =
     (if m_size b = 0 then Some (0, b # bs, False)
      else if sz \<le> m_size b then
        (let a = m_addr b;
             b' = \<lparr>m_size = m_size b - sz, m_addr = m_addr b + sz\<rparr>
         in if m_size b' = 0
            then map_option (\<lambda>bs'. (a, bs', True)) (shift_down (b' # bs))
            else Some (a, b' # bs, False))
      else map_option (\<lambda>(a, bs', f). (a, b # bs', f)) (rmalloc_scan sz bs))"

definition rmalloc :: "rmap \<Rightarrow> u32 \<Rightarrow> (u32 \<times> rmap) option" where
  "rmalloc mp sz =
     (if sz = 0 then Some (0, mp)
      else map_option
        (\<lambda>(a, bs, f). (a, mp\<lparr>slots := bs, mapsize := (if f then mapsize mp + 1 else mapsize mp)\<rparr>))
        (rmalloc_scan sz (slots mp)))"

text \<open>\<^verbatim>\<open>malloc\<close> and \<^verbatim>\<open>mfree\<close> are the old names of the two routines.\<close>

definition malloc :: "rmap \<Rightarrow> u32 \<Rightarrow> (u32 \<times> rmap) option" where
  "malloc mp sz = rmalloc mp sz"

text \<open>\<^verbatim>\<open>for (; bp->m_addr<=a && bp->m_size!=0; bp++);\<close>: how many slots the loop passes.\<close>

fun rmfree_scan :: "u32 \<Rightarrow> slot list \<Rightarrow> nat" where
  "rmfree_scan a [] = 0"
| "rmfree_scan a (b # bs) =
     (if m_addr b \<le> a \<and> m_size b \<noteq> 0 then Suc (rmfree_scan a bs) else 0)"

text \<open>\<^verbatim>\<open>while (bp->m_size) { bp++; (bp-1)->m_addr = bp->m_addr; (bp-1)->m_size = bp->m_size; }\<close>\<close>

fun rm_compress :: "slot list \<Rightarrow> slot list option" where
  "rm_compress [] = None"
| "rm_compress (b # bs) =
     (if m_size b = 0 then Some (b # bs)
      else case bs of [] \<Rightarrow> None | c # _ \<Rightarrow> map_option ((#) c) (rm_compress bs))"

text \<open>
  \<^verbatim>\<open>do { t = bp->m_addr; bp->m_addr = a; a = t; t = bp->m_size; bp->m_size = size; bp++; }
  while (size = t);\<close>
\<close>

fun rm_insert :: "u32 \<Rightarrow> u32 \<Rightarrow> slot list \<Rightarrow> slot list option" where
  "rm_insert sz a [] = None"
| "rm_insert sz a (b # bs) =
     (if m_size b = 0 then Some (\<lparr>m_size = sz, m_addr = a\<rparr> # bs)
      else map_option ((#) \<lparr>m_size = sz, m_addr = a\<rparr>) (rm_insert (m_size b) (m_addr b) bs))"

text \<open>
  The outcomes of \<^verbatim>\<open>rmfree\<close>: done, with the flag of the final \<^verbatim>\<open>wakeprocs\<close> call; the units
  lost with the ``map overflow'' warning; an access beyond the array.
\<close>

datatype 'm rm_result = RmDone 'm bool | RmLost 'm | RmFault

definition rm_wakeup :: "rmap \<Rightarrow> rmap rm_result" where
  "rm_wakeup mp =
     (if mapwant mp \<noteq> 0 then RmDone (mp\<lparr>mapwant := 0\<rparr>) True else RmDone mp False)"

definition rmfree :: "rmap \<Rightarrow> u32 \<Rightarrow> u32 \<Rightarrow> rmap rm_result" where
  "rmfree mp sz a =
     (if sz = 0 then RmDone mp False
      else
        (let bs = slots mp; i = rmfree_scan a bs in
         if length bs \<le> i then RmFault
         else
           (let bp = bs ! i; pre = bs ! (i - 1) in
            if 0 < i \<and> m_addr pre + m_size pre = a then
              (let pre1 = pre\<lparr>m_size := m_size pre + sz\<rparr> in
               if m_addr bp \<noteq> 0 \<and> a + sz = m_addr bp then
                 (case rm_compress (drop i bs) of
                    None \<Rightarrow> RmFault
                  | Some ys \<Rightarrow>
                      rm_wakeup (mp\<lparr>slots := take (i - 1) bs
                                   @ pre1\<lparr>m_size := m_size pre1 + m_size bp\<rparr> # ys,
                                   mapsize := mapsize mp + 1\<rparr>))
               else rm_wakeup (mp\<lparr>slots := bs[i - 1 := pre1]\<rparr>))
            else if a + sz = m_addr bp \<and> m_size bp \<noteq> 0 then
              rm_wakeup (mp\<lparr>slots := bs[i := \<lparr>m_size = m_size bp + sz, m_addr = m_addr bp - sz\<rparr>]\<rparr>)
            else if mapsize mp = 0 then RmLost mp
            else
              (case rm_insert sz a (drop i bs) of
                 None \<Rightarrow> RmFault
               | Some ys \<Rightarrow>
                   rm_wakeup (mp\<lparr>slots := take i bs @ ys, mapsize := mapsize mp - 1\<rparr>)))))"

definition mfree :: "rmap \<Rightarrow> u32 \<Rightarrow> u32 \<Rightarrow> rmap rm_result" where
  "mfree mp sz a = rmfree mp sz a"

section \<open>Meaning of a map\<close>

text \<open>The runs in use: the slots up to the terminator.\<close>

definition live :: "slot list \<Rightarrow> slot list" where
  "live bs = takeWhile (\<lambda>b. m_size b \<noteq> 0) bs"

definition slot_end :: "slot \<Rightarrow> nat" where
  "slot_end b = unat (m_addr b) + unat (m_size b)"

definition span :: "slot \<Rightarrow> nat set" where
  "span b = {unat (m_addr b)..<slot_end b}"

text \<open>The free units of a map.\<close>

definition units :: "rmap \<Rightarrow> nat set" where
  "units mp = (\<Union>b \<in> set (live (slots mp)). span b)"

text \<open>
  A list of runs as the routines keep it: non-empty runs at non-zero addresses that do not
  reach the end of the address range, in increasing order and separated by gaps.
\<close>

definition runs_ok :: "slot list \<Rightarrow> bool" where
  "runs_ok bs \<longleftrightarrow>
     (\<forall>b \<in> set bs. m_size b \<noteq> 0 \<and> m_addr b \<noteq> 0 \<and> slot_end b < 2 ^ 32)
     \<and> sorted_wrt (\<lambda>b c. slot_end b < unat (m_addr c)) bs"

text \<open>
  The invariant: the runs, then the terminator and exactly \<^verbatim>\<open>mapsize\<close> further zero slots.
\<close>

definition rm_wf :: "rmap \<Rightarrow> bool" where
  "rm_wf mp \<longleftrightarrow>
     runs_ok (live (slots mp)) \<and> length (slots mp) < 2 ^ 32
     \<and> slots mp = live (slots mp) @ zslot # replicate (unat (mapsize mp)) zslot"

subsection \<open>Runs\<close>

lemma zslot_simps [simp]: "m_size zslot = 0" "m_addr zslot = 0"
  by (simp_all add: zslot_def)

lemma slot_eqI: "\<lbrakk>m_size b = m_size c; m_addr b = m_addr c\<rbrakk> \<Longrightarrow> b = (c :: slot)"
  by (cases b, cases c) simp

lemma live_append_zslots [simp]:
  assumes "\<forall>b \<in> set L. m_size b \<noteq> 0"
  shows "live (L @ zslot # R) = L"
  using assms by (auto simp: live_def takeWhile_append_stop)

lemma runs_ok_Nil [simp]: "runs_ok []"
  by (simp add: runs_ok_def)

lemma runs_ok_Cons [simp]:
  "runs_ok (b # bs) \<longleftrightarrow>
     m_size b \<noteq> 0 \<and> m_addr b \<noteq> 0 \<and> slot_end b < 2 ^ 32
     \<and> (\<forall>c \<in> set bs. slot_end b < unat (m_addr c)) \<and> runs_ok bs"
  by (auto simp: runs_ok_def)

lemma runs_ok_append [simp]:
  "runs_ok (xs @ ys) \<longleftrightarrow>
     runs_ok xs \<and> runs_ok ys \<and> (\<forall>b \<in> set xs. \<forall>c \<in> set ys. slot_end b < unat (m_addr c))"
  by (auto simp: runs_ok_def sorted_wrt_append)

lemma runs_ok_sizes: "runs_ok bs \<Longrightarrow> \<forall>b \<in> set bs. m_size b \<noteq> 0"
  by (simp add: runs_ok_def)

lemma slot_end_gt: "m_size b \<noteq> 0 \<Longrightarrow> unat (m_addr b) < slot_end b"
  by (simp add: slot_end_def unat_gt_0)

text \<open>A well-formed map, given by its runs and the number of spare slots.\<close>

lemma rm_wfI:
  assumes "runs_ok L" and "slots mp = L @ zslot # replicate (unat (mapsize mp)) zslot"
    and "length (slots mp) < 2 ^ 32"
  shows "rm_wf mp" and "live (slots mp) = L"
  using assms by (simp_all add: rm_wf_def live_append_zslots [OF runs_ok_sizes])

lemma rm_wfE:
  assumes "rm_wf mp"
  obtains L k where "runs_ok L" and "slots mp = L @ zslot # replicate k zslot"
    and "k = unat (mapsize mp)" and "live (slots mp) = L" and "length L + k + 1 < 2 ^ 32"
proof
  show "runs_ok (live (slots mp))" and "slots mp = live (slots mp) @ zslot # replicate (unat (mapsize mp)) zslot"
    using assms by (simp_all add: rm_wf_def)
  then have "length (slots mp) = length (live (slots mp)) + Suc (unat (mapsize mp))"
    by (metis length_Cons length_append length_replicate)
  then show "length (live (slots mp)) + unat (mapsize mp) + 1 < 2 ^ 32"
    using assms by (simp add: rm_wf_def)
qed simp_all

text \<open>
  The runs are maximal: an interval of free units lies inside one of them.
\<close>

lemma runs_interval:
  assumes "runs_ok L" and "0 < n" and "{s..<s + n} \<subseteq> (\<Union>b \<in> set L. span b)"
  shows "\<exists>b \<in> set L. {s..<s + n} \<subseteq> span b"
  using assms(2,3)
proof (induction n)
  case 0
  then show ?case by simp
next
  case (Suc n)
  show ?case
  proof (cases "n = 0")
    case True
    with Suc.prems show ?thesis by auto
  next
    case False
    have "{s..<s + n} \<subseteq> (\<Union>b \<in> set L. span b)" using Suc.prems by auto
    with False Suc.IH obtain b where b: "b \<in> set L" "{s..<s + n} \<subseteq> span b" by auto
    have "s + n \<in> (\<Union>b \<in> set L. span b)" using subsetD [OF Suc.prems(2), of "s + n"] by simp
    then obtain c where c: "c \<in> set L" "s + n \<in> span c" by blast
    have in_b: "s + n - 1 \<in> span b" using b False by auto
    have "b = c"
    proof (rule ccontr)
      assume ne: "b \<noteq> c"
      from b(1) obtain xs ys where L: "L = xs @ b # ys" by (meson split_list)
      from c(1) ne L have "c \<in> set xs \<or> c \<in> set ys" by auto
      with assms(1) L have "slot_end c < unat (m_addr b) \<or> slot_end b < unat (m_addr c)" by auto
      with in_b c(2) show False by (auto simp: span_def)
    qed
    with b c have "{s..<s + Suc n} \<subseteq> span b"
      by (auto simp: less_Suc_eq)
    with b(1) show ?thesis by blast
  qed
qed

subsection \<open>The loops\<close>

lemma shift_down_runs:
  assumes "\<forall>c \<in> set L. m_size c \<noteq> 0"
  shows "shift_down (b # L @ zslot # R) = Some (L @ zslot # zslot # R)"
  using assms by (induction L arbitrary: b) auto

lemma rm_compress_runs:
  assumes "\<forall>c \<in> set L. m_size c \<noteq> 0" and "m_size b \<noteq> 0"
  shows "rm_compress (b # L @ zslot # R) = Some (L @ zslot # zslot # R)"
  using assms
proof (induction L arbitrary: b)
  case Nil
  then show ?case by simp
next
  case (Cons c L)
  then have "rm_compress (c # L @ zslot # R) = Some (L @ zslot # zslot # R)" by simp
  with Cons.prems show ?case by simp
qed

lemma rm_insert_runs:
  assumes "\<forall>c \<in> set L. m_size c \<noteq> 0"
  shows "rm_insert sz a (L @ zslot # R) = Some (\<lparr>m_size = sz, m_addr = a\<rparr> # L @ R)"
  using assms
proof (induction L arbitrary: sz a)
  case Nil
  then show ?case by simp
next
  case (Cons c L)
  have c: "\<lparr>m_size = m_size c, m_addr = m_addr c\<rparr> = c" by simp
  from Cons show ?case by (simp add: c)
qed

lemma rmalloc_scan_none:
  assumes "\<forall>b \<in> set L. m_size b \<noteq> 0 \<and> m_size b < sz"
  shows "rmalloc_scan sz (L @ zslot # R) = Some (0, L @ zslot # R, False)"
  using assms by (induction L) (auto simp: not_le)

lemma rmalloc_scan_first:
  assumes "\<forall>b \<in> set xs. m_size b \<noteq> 0 \<and> m_size b < sz" and "m_size b \<noteq> 0" and "sz \<le> m_size b"
    and "\<forall>c \<in> set ys. m_size c \<noteq> 0"
  shows "rmalloc_scan sz (xs @ b # ys @ zslot # R) =
    (if m_size b = sz then Some (m_addr b, xs @ ys @ zslot # zslot # R, True)
     else Some (m_addr b, xs @ \<lparr>m_size = m_size b - sz, m_addr = m_addr b + sz\<rparr> # ys @ zslot # R, False))"
  using assms(1)
proof (induction xs)
  case Nil
  with assms show ?case by (auto simp: shift_down_runs Let_def)
next
  case (Cons x xs)
  then show ?case by (auto simp: not_le)
qed

text \<open>Where the scan of \<^verbatim>\<open>rmfree\<close> stops.\<close>

lemma rmfree_scan_append:
  assumes "\<forall>b \<in> set xs. m_size b \<noteq> 0 \<and> m_addr b \<le> a"
  shows "rmfree_scan a (xs @ ys) = length xs + rmfree_scan a ys"
  using assms by (induction xs) auto

lemma rmfree_scan_runs:
  assumes "\<forall>b \<in> set xs. m_size b \<noteq> 0 \<and> m_addr b \<le> a" and "\<forall>b \<in> set ys. a < m_addr b"
  shows "rmfree_scan a (xs @ ys @ zslot # R) = length xs"
  using assms by (cases ys) (auto simp: rmfree_scan_append not_le)

subsection \<open>Allocation\<close>

lemma word_end_eq:
  fixes b :: slot
  assumes "slot_end b < 2 ^ 32"
  shows "unat (m_addr b + m_size b) = slot_end b" and "m_addr b + m_size b = a \<longleftrightarrow> slot_end b = unat a"
proof -
  show e: "unat (m_addr b + m_size b) = slot_end b"
    using assms by (simp add: slot_end_def unat_plus_nowrap)
  then show "m_addr b + m_size b = a \<longleftrightarrow> slot_end b = unat a"
    by (simp add: word_unat_eq_iff)
qed

text \<open>Cutting \<open>sz\<close> units off the front of a run.\<close>

definition cut_front :: "slot \<Rightarrow> u32 \<Rightarrow> slot" where
  "cut_front b sz = \<lparr>m_size = m_size b - sz, m_addr = m_addr b + sz\<rparr>"

lemma cut_front_simps:
  assumes "sz < m_size b" and "slot_end b < 2 ^ 32"
  shows "m_size (cut_front b sz) \<noteq> 0" and "unat (m_addr (cut_front b sz)) = unat (m_addr b) + unat sz"
    and "slot_end (cut_front b sz) = slot_end b"
proof -
  have lt: "unat sz < unat (m_size b)" using assms(1) by (simp add: word_less_nat_alt)
  have addr: "unat (m_addr b + sz) = unat (m_addr b) + unat sz"
    using assms(2) lt by (intro unat_plus_nowrap) (simp add: slot_end_def)
  have sz: "unat (m_size b - sz) = unat (m_size b) - unat sz"
    using assms(1) by (simp add: unat_minus_nowrap)
  show "m_size (cut_front b sz) \<noteq> 0" using assms(1) by (auto simp: cut_front_def)
  show "unat (m_addr (cut_front b sz)) = unat (m_addr b) + unat sz" by (simp add: cut_front_def addr)
  show "slot_end (cut_front b sz) = slot_end b" using lt by (simp add: cut_front_def slot_end_def addr sz)
qed

lemma span_cut_front:
  assumes "sz < m_size b" and "slot_end b < 2 ^ 32"
  shows "span (cut_front b sz) = span b - {unat (m_addr b)..<unat (m_addr b) + unat sz}"
  using cut_front_simps [OF assms] by (auto simp: span_def)

lemma span_other_runs:
  assumes "runs_ok (xs @ b # ys)" and "c \<in> set xs \<union> set ys"
  shows "span c \<inter> span b = {}"
  using assms by (auto simp: span_def)

text \<open>The map \<open>mp\<close> with the runs \<open>L\<close> and \<open>k\<close> spare slots.\<close>

definition with_runs :: "rmap \<Rightarrow> slot list \<Rightarrow> u32 \<Rightarrow> rmap" where
  "with_runs mp L k = mp\<lparr>slots := L @ zslot # replicate (unat k) zslot, mapsize := k\<rparr>"

lemma with_runs_simps [simp]:
  "slots (with_runs mp L k) = L @ zslot # replicate (unat k) zslot"
  "mapsize (with_runs mp L k) = k" "mapwant (with_runs mp L k) = mapwant mp"
  "with_runs (with_runs mp K j) L k = with_runs mp L k"
  by (simp_all add: with_runs_def)

lemma rm_wf_with_runs:
  assumes "runs_ok L" and "length L + unat k + 1 < 2 ^ 32"
  shows "rm_wf (with_runs mp L k)" and "live (slots (with_runs mp L k)) = L"
  using rm_wfI [of L "with_runs mp L k"] assms by (simp_all del: rm_wf_def)

lemma rm_wf_is_with_runs:
  assumes "rm_wf mp"
  shows "mp = with_runs mp (live (slots mp)) (mapsize mp)" and "runs_ok (live (slots mp))"
    and "length (live (slots mp)) + unat (mapsize mp) + 1 < 2 ^ 32"
proof -
  obtain L k where L: "runs_ok L" "slots mp = L @ zslot # replicate k zslot"
    "k = unat (mapsize mp)" "live (slots mp) = L" "length L + k + 1 < 2 ^ 32"
    using assms by (rule rm_wfE)
  show "mp = with_runs mp (live (slots mp)) (mapsize mp)"
    unfolding with_runs_def L(4) L(3) [symmetric] L(2) [symmetric] by simp
  show "runs_ok (live (slots mp))" using L by simp
  show "length (live (slots mp)) + unat (mapsize mp) + 1 < 2 ^ 32" using L by simp
qed

text \<open>What one call of \<^verbatim>\<open>rmalloc\<close> does to a well-formed map, as a case distinction.\<close>

lemma rmalloc_cases:
  assumes wf: "rm_wf mp" and sz: "sz \<noteq> 0"
  obtains (none) "rmalloc mp sz = Some (0, mp)" "\<forall>b \<in> set (live (slots mp)). m_size b < sz"
  | (exact) xs b ys mp' where "live (slots mp) = xs @ b # ys" "m_size b = sz"
      "\<forall>c \<in> set xs. m_size c < sz" "rmalloc mp sz = Some (m_addr b, mp')"
      "mp' = with_runs mp (xs @ ys) (mapsize mp + 1)" "rm_wf mp'" "live (slots mp') = xs @ ys"
  | (part) xs b ys mp' where "live (slots mp) = xs @ b # ys" "sz < m_size b"
      "\<forall>c \<in> set xs. m_size c < sz" "rmalloc mp sz = Some (m_addr b, mp')"
      "mp' = with_runs mp (xs @ cut_front b sz # ys) (mapsize mp)" "rm_wf mp'"
      "live (slots mp') = xs @ cut_front b sz # ys"
proof -
  define L where "L = live (slots mp)"
  note w = rm_wf_is_with_runs [OF wf, folded L_def]
  have s: "slots mp = L @ zslot # replicate (unat (mapsize mp)) zslot"
    using w(1) by (metis with_runs_simps(1))
  show thesis
  proof (cases "\<exists>b \<in> set L. sz \<le> m_size b")
    case False
    then have "\<forall>b \<in> set L. m_size b \<noteq> 0 \<and> m_size b < sz"
      using runs_ok_sizes [OF w(2)] by (auto simp: not_le)
    then show thesis
      using sz s by (intro none) (auto simp: rmalloc_def rmalloc_scan_none L_def [symmetric])
  next
    case True
    then obtain xs b ys where split: "L = xs @ b # ys" "sz \<le> m_size b" "\<forall>c \<in> set xs. \<not> sz \<le> m_size c"
      by (rule find_split)
    have small: "\<forall>c \<in> set xs. m_size c \<noteq> 0 \<and> m_size c < sz"
      using split runs_ok_sizes [OF w(2)] by (auto simp: not_le)
    have b: "m_size b \<noteq> 0" "slot_end b < 2 ^ 32" "m_addr b \<noteq> 0" using w(2) split(1) by auto
    have ys: "\<forall>c \<in> set ys. m_size c \<noteq> 0" using runs_ok_sizes [OF w(2)] split(1) by auto
    note scan = rmalloc_scan_first [OF small b(1) split(2) ys, of "replicate (unat (mapsize mp)) zslot"]
    show thesis
    proof (cases "m_size b = sz")
      case True
      have ms: "unat (mapsize mp + 1) = Suc (unat (mapsize mp))"
        using w(3) by (simp add: unat_plus_nowrap)
      have "rmalloc mp sz = Some (m_addr b, with_runs mp (xs @ ys) (mapsize mp + 1))"
        using sz s split(1) scan True by (simp add: rmalloc_def with_runs_def ms)
      moreover have "runs_ok (xs @ ys)" "length (xs @ ys) + unat (mapsize mp + 1) + 1 < 2 ^ 32"
        using w(2,3) split(1) ms by auto
      ultimately show thesis
        using rm_wf_with_runs [of "xs @ ys" "mapsize mp + 1" mp] True small split(1) L_def
        by (intro exact [of xs b ys]) auto
    next
      case False
      with split(2) have lt: "sz < m_size b" by simp
      have "rmalloc mp sz = Some (m_addr b, with_runs mp (xs @ cut_front b sz # ys) (mapsize mp))"
        using sz s split(1) scan False by (simp add: rmalloc_def with_runs_def cut_front_def)
      moreover have "m_addr (cut_front b sz) \<noteq> 0"
        using cut_front_simps(2) [OF lt b(2)] b(3) by (metis add_is_0 unat_eq_zero)
      then have "runs_ok (xs @ cut_front b sz # ys)"
        using w(2) split(1) cut_front_simps [OF lt b(2)] b(2) by auto
      ultimately show thesis
        using rm_wf_with_runs [of "xs @ cut_front b sz # ys" "mapsize mp" mp] lt small split(1) w(3) L_def
        by (intro part [of xs b ys]) auto
    qed
  qed
qed

text \<open>The units a block of \<open>n\<close> units at address \<open>a\<close> covers.\<close>

definition block :: "u32 \<Rightarrow> u32 \<Rightarrow> nat set" where
  "block a n = {unat a..<unat a + unat n}"

definition has_run :: "nat set \<Rightarrow> nat \<Rightarrow> bool" where
  "has_run F n \<longleftrightarrow> (\<exists>s. {s..<s + n} \<subseteq> F)"

lemma run_in_span:
  assumes "{s..<s + n} \<subseteq> span b" and "0 < n"
  shows "n \<le> unat (m_size b)" and "unat (m_addr b) \<le> s"
proof -
  have "s \<in> span b" and "s + n - 1 \<in> span b" using assms by auto
  then show "n \<le> unat (m_size b)" and "unat (m_addr b) \<le> s"
    by (auto simp: span_def slot_end_def)
qed

lemma no_run_below:
  assumes "runs_ok (xs @ b # ys)" and "\<forall>c \<in> set xs. m_size c < sz" and "sz \<noteq> 0"
    and "s < unat (m_addr b)"
  shows "\<not> {s..<s + unat sz} \<subseteq> (\<Union>c \<in> set (xs @ b # ys). span c)"
proof
  assume sub: "{s..<s + unat sz} \<subseteq> (\<Union>c \<in> set (xs @ b # ys). span c)"
  have pos: "0 < unat sz" using assms(3) by (simp add: unat_gt_0)
  from runs_interval [OF assms(1) pos sub]
  obtain c where c: "c \<in> set (xs @ b # ys)" "{s..<s + unat sz} \<subseteq> span c" by blast
  note run = run_in_span [OF c(2) pos]
  have "c \<notin> set xs" using assms(2) run(1) by (auto simp: word_less_nat_alt)
  then have "c = b \<or> c \<in> set ys" using c(1) by simp
  then have "unat (m_addr b) \<le> unat (m_addr c)"
    using assms(1) slot_end_gt [of b] by auto
  with run(2) assms(4) show False by simp
qed

lemma rmalloc_total:
  assumes "rm_wf mp"
  shows "\<exists>a mp'. rmalloc mp sz = Some (a, mp') \<and> rm_wf mp' \<and> mapwant mp' = mapwant mp"
proof (cases "sz = 0")
  case True
  with assms show ?thesis by (simp add: rmalloc_def)
next
  case False
  show ?thesis by (rule rmalloc_cases [OF assms False]) (use assms in auto)
qed

lemma rmalloc_fails:
  assumes wf: "rm_wf mp" and sz: "sz \<noteq> 0" and r: "rmalloc mp sz = Some (0, mp')"
  shows "mp' = mp" and "\<not> has_run (units mp) (unat sz)"
proof -
  have L: "runs_ok (live (slots mp))" using wf by (simp add: rm_wf_def)
  have nz: "m_addr b \<noteq> 0" if "b \<in> set (live (slots mp))" for b
    using L that by (simp add: runs_ok_def)
  have "mp' = mp \<and> (\<forall>b \<in> set (live (slots mp)). m_size b < sz)"
    using wf sz
  proof (cases rule: rmalloc_cases)
    case none
    with r show ?thesis by simp
  qed (use r nz in auto)
  then show "mp' = mp" and small: "\<not> has_run (units mp) (unat sz)"
  proof (blast, intro notI)
    assume "mp' = mp \<and> (\<forall>b \<in> set (live (slots mp)). m_size b < sz)" and "has_run (units mp) (unat sz)"
    then obtain s where s: "{s..<s + unat sz} \<subseteq> (\<Union>b \<in> set (live (slots mp)). span b)"
      and small: "\<And>b. b \<in> set (live (slots mp)) \<Longrightarrow> unat (m_size b) < unat sz"
      by (auto simp: has_run_def units_def word_less_nat_alt)
    have pos: "0 < unat sz" using sz by (simp add: unat_gt_0)
    from runs_interval [OF L pos s] obtain b where "b \<in> set (live (slots mp))" "{s..<s + unat sz} \<subseteq> span b"
      by blast
    with small run_in_span(1) [OF _ pos] show False by (meson not_le)
  qed
qed

lemma rmalloc_succeeds:
  assumes wf: "rm_wf mp" and sz: "sz \<noteq> 0" and r: "rmalloc mp sz = Some (a, mp')" and a: "a \<noteq> 0"
  shows "block a sz \<subseteq> units mp" and "units mp' = units mp - block a sz"
    and "\<And>s. s < unat a \<Longrightarrow> \<not> {s..<s + unat sz} \<subseteq> units mp"
proof -
  have L: "runs_ok (live (slots mp))" using wf by (simp add: rm_wf_def)
  have "block a sz \<subseteq> units mp \<and> units mp' = units mp - block a sz
    \<and> (\<forall>s < unat a. \<not> {s..<s + unat sz} \<subseteq> units mp)"
    using wf sz
  proof (cases rule: rmalloc_cases)
    case none
    with r a show ?thesis by simp
  next
    case (exact xs b ys m)
    have blk: "block a sz = span b" using exact r by (simp add: block_def span_def slot_end_def)
    have "\<forall>c \<in> set xs \<union> set ys. span c \<inter> span b = {}"
      using span_other_runs [of xs b ys] L exact by auto
    then have "units mp' = units mp - span b" using exact r by (auto simp: units_def)
    then show ?thesis
      using blk exact r no_run_below [of xs b ys sz] L sz by (auto simp: units_def)
  next
    case (part xs b ys m)
    have e: "slot_end b < 2 ^ 32" using L part by simp
    have blk: "block a sz \<subseteq> span b" and cut: "span (cut_front b sz) = span b - block a sz"
      using part r span_cut_front [OF part(2) e]
      by (auto simp: block_def span_def slot_end_def word_less_nat_alt)
    have "\<forall>c \<in> set xs \<union> set ys. span c \<inter> span b = {}"
      using span_other_runs [of xs b ys] L part by auto
    then have "\<forall>c \<in> set xs \<union> set ys. span c \<inter> block a sz = {}" using blk by blast
    then have "units mp' = units mp - block a sz" using part r cut by (auto simp: units_def)
    then show ?thesis
      using blk part r no_run_below [of xs b ys sz] L sz by (auto simp: units_def)
  qed
  then show "block a sz \<subseteq> units mp" and "units mp' = units mp - block a sz"
    and "\<And>s. s < unat a \<Longrightarrow> \<not> {s..<s + unat sz} \<subseteq> units mp" by blast+
qed

subsection \<open>Release\<close>

text \<open>
  The runs of a map split at the address \<open>a\<close> being freed: \<open>xs\<close> start at or below it,
  \<open>ys\<close> above it.
\<close>

definition split_at :: "rmap \<Rightarrow> u32 \<Rightarrow> slot list \<Rightarrow> slot list \<Rightarrow> bool" where
  "split_at mp a xs ys \<longleftrightarrow>
     slots mp = xs @ ys @ zslot # replicate (unat (mapsize mp)) zslot
     \<and> (\<forall>b \<in> set xs. m_size b \<noteq> 0 \<and> m_addr b \<le> a)
     \<and> (\<forall>b \<in> set ys. m_size b \<noteq> 0 \<and> a < m_addr b)"

lemma split_at_exists:
  assumes "rm_wf mp"
  obtains xs ys where "split_at mp a xs ys" and "live (slots mp) = xs @ ys"
proof -
  obtain L k where L: "runs_ok L" "slots mp = L @ zslot # replicate k zslot"
    "k = unat (mapsize mp)" "live (slots mp) = L" "length L + k + 1 < 2 ^ 32"
    using assms by (rule rm_wfE)
  let ?P = "\<lambda>b. m_addr b \<le> a"
  have up: "\<forall>b \<in> set (dropWhile ?P L). a < m_addr b" if "runs_ok L" for L
    using that
  proof (induction L)
    case (Cons b L)
    have "\<forall>c \<in> set L. m_addr b \<le> m_addr c"
      using Cons.prems slot_end_gt [of b] by (fastforce simp: word_le_nat_alt)
    with Cons show ?case by (auto simp: not_le)
  qed simp
  have "split_at mp a (takeWhile ?P L) (dropWhile ?P L)"
    unfolding split_at_def using L up [OF L(1)] runs_ok_sizes [OF L(1)]
    by (auto dest: set_takeWhileD set_dropWhileD)
  with L(4) show thesis by (intro that) auto
qed

lemma split_at_with_runs:
  assumes "\<forall>b \<in> set (xs @ ys). m_size b \<noteq> 0" and "\<And>b. b \<in> set xs \<Longrightarrow> slot_end b < unat a"
    and "\<And>c. c \<in> set ys \<Longrightarrow> unat a < unat (m_addr c)"
  shows "split_at (with_runs mp (xs @ ys) k) a xs ys"
proof -
  have "m_addr b \<le> a" if "b \<in> set xs" for b
    using assms(1) assms(2) [OF that] slot_end_gt [of b] that by (simp add: word_le_nat_alt)
  then show ?thesis using assms(1,3) by (simp add: split_at_def word_less_nat_alt)
qed

lemma rmfree_scan_split: "split_at mp a xs ys \<Longrightarrow> rmfree_scan a (slots mp) = length xs"
  using rmfree_scan_runs [of xs a ys] by (auto simp: split_at_def)

lemma rmfree_both:
  assumes "split_at mp a (xs @ [p]) (q # ys)" and "sz \<noteq> 0"
    and "m_addr p + m_size p = a" and "a + sz = m_addr q"
  shows "rmfree mp sz a =
    rm_wakeup (mp\<lparr>slots := xs @ p\<lparr>m_size := m_size p + sz + m_size q\<rparr> # ys @ zslot # zslot
                           # replicate (unat (mapsize mp)) zslot, mapsize := mapsize mp + 1\<rparr>)"
proof -
  have q: "m_size q \<noteq> 0" "m_addr q \<noteq> 0" "\<forall>c \<in> set ys. m_size c \<noteq> 0"
    using assms(1) by (auto simp: split_at_def)
  have s: "slots mp = (xs @ [p]) @ q # ys @ zslot # replicate (unat (mapsize mp)) zslot"
    using assms(1) by (simp add: split_at_def)
  have c: "rm_compress (q # ys @ zslot # R) = Some (ys @ zslot # zslot # R)" for R
    using q by (intro rm_compress_runs) auto
  show ?thesis
    unfolding rmfree_def Let_def rmfree_scan_split [OF assms(1)]
    using assms(2-) q c by (simp add: s nth_append del: rm_compress.simps)
qed

lemma rmfree_below:
  assumes "split_at mp a (xs @ [p]) ys" and "sz \<noteq> 0"
    and "m_addr p + m_size p = a" and "\<And>q zs. ys = q # zs \<Longrightarrow> a + sz \<noteq> m_addr q"
  shows "rmfree mp sz a =
    rm_wakeup (mp\<lparr>slots := xs @ p\<lparr>m_size := m_size p + sz\<rparr> # ys @ zslot
                           # replicate (unat (mapsize mp)) zslot\<rparr>)"
proof -
  have s: "slots mp = (xs @ [p]) @ ys @ zslot # replicate (unat (mapsize mp)) zslot"
    using assms(1) by (simp add: split_at_def)
  show ?thesis
    unfolding rmfree_def Let_def rmfree_scan_split [OF assms(1)]
    using assms(2-) by (cases ys) (simp_all add: s nth_append list_update_append)
qed

lemma rmfree_above:
  assumes "split_at mp a xs (q # ys)" and "sz \<noteq> 0" and "a + sz = m_addr q"
    and "\<And>zs p. xs = zs @ [p] \<Longrightarrow> m_addr p + m_size p \<noteq> a"
  shows "rmfree mp sz a =
    rm_wakeup (mp\<lparr>slots := xs @ \<lparr>m_size = m_size q + sz, m_addr = m_addr q - sz\<rparr> # ys @ zslot
                           # replicate (unat (mapsize mp)) zslot\<rparr>)"
proof -
  have s: "slots mp = xs @ q # ys @ zslot # replicate (unat (mapsize mp)) zslot" and q: "m_size q \<noteq> 0"
    using assms(1) by (auto simp: split_at_def)
  show ?thesis
    unfolding rmfree_def Let_def rmfree_scan_split [OF assms(1)]
    using assms(2-) q by (cases xs rule: rev_cases) (simp_all add: s nth_append list_update_append)
qed

lemma rmfree_apart:
  assumes "split_at mp a xs ys" and "sz \<noteq> 0" and "\<And>q zs. ys = q # zs \<Longrightarrow> a + sz \<noteq> m_addr q"
    and "\<And>zs p. xs = zs @ [p] \<Longrightarrow> m_addr p + m_size p \<noteq> a"
  shows "rmfree mp sz a =
    (if mapsize mp = 0 then RmLost mp
     else rm_wakeup (mp\<lparr>slots := xs @ \<lparr>m_size = sz, m_addr = a\<rparr> # ys
                                @ replicate (unat (mapsize mp)) zslot, mapsize := mapsize mp - 1\<rparr>))"
proof -
  have s: "slots mp = xs @ ys @ zslot # replicate (unat (mapsize mp)) zslot"
    and ys: "\<forall>c \<in> set ys. m_size c \<noteq> 0"
    using assms(1) by (auto simp: split_at_def)
  have ins: "rm_insert sz a (ys @ zslot # R) = Some (\<lparr>m_size = sz, m_addr = a\<rparr> # ys @ R)" for R
    using ys by (rule rm_insert_runs)
  have at: "\<not> (a + sz = m_addr (slots mp ! length xs) \<and> m_size (slots mp ! length xs) \<noteq> 0)"
    using assms(3) by (cases ys) (auto simp: s nth_append)
  have pre: "\<not> (0 < length xs \<and> m_addr (slots mp ! (length xs - 1)) + m_size (slots mp ! (length xs - 1)) = a)"
    using assms(4) by (cases xs rule: rev_cases) (auto simp: s nth_append)
  have parts: "drop (length xs) (slots mp) = ys @ zslot # replicate (unat (mapsize mp)) zslot"
    "take (length xs) (slots mp) = xs" "length xs < length (slots mp)"
    by (simp_all add: s)
  show ?thesis
    unfolding rmfree_def Let_def rmfree_scan_split [OF assms(1)] if_not_P [OF at] if_not_P [OF pre] parts ins
    using assms(2) parts(3) by simp
qed

lemma rm_wakeup_done:
  assumes "runs_ok L" and "slots mp = L @ zslot # replicate (unat (mapsize mp)) zslot"
    and "length (slots mp) < 2 ^ 32"
  shows "\<exists>mp'. rm_wakeup mp = RmDone mp' (mapwant mp \<noteq> 0) \<and> rm_wf mp'
           \<and> units mp' = (\<Union>b \<in> set L. span b) \<and> mapwant mp' = 0"
proof -
  have "rm_wf (mp\<lparr>mapwant := 0\<rparr>)" "live (slots (mp\<lparr>mapwant := 0\<rparr>)) = L"
    using rm_wfI [of L "mp\<lparr>mapwant := 0\<rparr>"] assms by simp_all
  moreover have "rm_wakeup mp = RmDone (mp\<lparr>mapwant := 0\<rparr>) (mapwant mp \<noteq> 0)"
    by (simp add: rm_wakeup_def)
  ultimately show ?thesis by (auto simp: units_def)
qed

text \<open>The block being freed lies between the runs below and above it.\<close>

lemma split_at_gaps:
  assumes "split_at mp a xs ys" and "live (slots mp) = xs @ ys" and "sz \<noteq> 0"
    and "block a sz \<inter> units mp = {}"
  shows "\<And>b. b \<in> set xs \<Longrightarrow> slot_end b \<le> unat a"
    and "\<And>c. c \<in> set ys \<Longrightarrow> unat a + unat sz \<le> unat (m_addr c)"
proof -
  fix b assume b: "b \<in> set xs"
  then have "m_size b \<noteq> 0" and le: "unat (m_addr b) \<le> unat a"
    using assms(1) by (auto simp: split_at_def word_le_nat_alt)
  show "slot_end b \<le> unat a"
  proof (rule ccontr)
    assume "\<not> slot_end b \<le> unat a"
    then have "unat a \<in> span b" using le by (simp add: span_def)
    moreover have "unat a \<in> block a sz" using assms(3) by (simp add: block_def unat_gt_0)
    ultimately show False using assms(2,4) b by (auto simp: units_def)
  qed
next
  fix c assume c: "c \<in> set ys"
  then have "m_size c \<noteq> 0" and lt: "unat a < unat (m_addr c)"
    using assms(1) by (auto simp: split_at_def word_less_nat_alt)
  then have "unat (m_addr c) \<in> span c" using slot_end_gt by (simp add: span_def)
  then have "unat (m_addr c) \<in> units mp" using assms(2) c by (auto simp: units_def)
  then have "unat (m_addr c) \<notin> block a sz" using assms(4) by auto
  with lt show "unat a + unat sz \<le> unat (m_addr c)" by (auto simp: block_def)
qed

text \<open>Replacing the runs around \<open>a\<close> by one that covers them and the freed block.\<close>

lemma runs_ok_replace:
  assumes "runs_ok (xs @ ms @ ys)" and "m_size b \<noteq> 0" and "m_addr b \<noteq> 0" and "slot_end b < 2 ^ 32"
    and "\<And>c. c \<in> set xs \<Longrightarrow> slot_end c < unat (m_addr b)"
    and "\<And>c. c \<in> set ys \<Longrightarrow> slot_end b < unat (m_addr c)"
  shows "runs_ok (xs @ b # ys)"
  using assms by auto

lemma slot_grow:
  fixes b :: slot
  assumes "slot_end b + unat sz < 2 ^ 32"
  shows "unat (m_size b + sz) = unat (m_size b) + unat sz"
    and "slot_end (b\<lparr>m_size := m_size b + sz\<rparr>) = slot_end b + unat sz"
proof -
  show "unat (m_size b + sz) = unat (m_size b) + unat sz"
    using assms by (intro unat_plus_nowrap) (simp add: slot_end_def)
  then show "slot_end (b\<lparr>m_size := m_size b + sz\<rparr>) = slot_end b + unat sz"
    by (simp add: slot_end_def)
qed

text \<open>Which runs the block touches.\<close>

lemma runs_touch:
  assumes ok: "runs_ok (xs @ ys)" and xs: "\<And>b. b \<in> set xs \<Longrightarrow> slot_end b \<le> n"
    and ys: "\<And>c. c \<in> set ys \<Longrightarrow> m \<le> unat (m_addr c)"
  shows "(\<exists>zs p. xs = zs @ [p] \<and> slot_end p = n) \<or> (\<forall>c \<in> set xs. slot_end c < n)"
    and "(\<exists>q ws. ys = q # ws \<and> m = unat (m_addr q)) \<or> (\<forall>c \<in> set ys. m < unat (m_addr c))"
proof -
  show "(\<exists>zs p. xs = zs @ [p] \<and> slot_end p = n) \<or> (\<forall>c \<in> set xs. slot_end c < n)"
  proof (cases xs rule: rev_cases)
    case (snoc zs p)
    then have "slot_end c < slot_end p" if "c \<in> set zs" for c
      using ok slot_end_gt [of p] that by fastforce
    with snoc xs show ?thesis by (fastforce simp: le_less)
  qed simp
  show "(\<exists>q ws. ys = q # ws \<and> m = unat (m_addr q)) \<or> (\<forall>c \<in> set ys. m < unat (m_addr c))"
  proof (cases ys)
    case (Cons q ws)
    then have "unat (m_addr q) < unat (m_addr c)" if "c \<in> set ws" for c
      using ok slot_end_gt [of q] that by fastforce
    with Cons ys show ?thesis by (fastforce simp: le_less)
  qed simp
qed

definition freed :: "rmap \<Rightarrow> u32 \<Rightarrow> u32 \<Rightarrow> rmap rm_result \<Rightarrow> bool" where
  "freed mp sz a r \<longleftrightarrow>
     (\<exists>mp'. r = RmDone mp' (mapwant mp \<noteq> 0) \<and> rm_wf mp'
        \<and> units mp' = units mp \<union> block a sz \<and> mapwant mp' = 0)"

lemma rmfree_both_freed:
  assumes sp: "split_at mp a (xs @ [p]) (q # ys)" and L: "live (slots mp) = xs @ p # q # ys"
    and wf: "rm_wf mp" and sz: "sz \<noteq> 0" and p: "slot_end p = unat a" and q: "unat a + unat sz = unat (m_addr q)"
  shows "freed mp sz a (rmfree mp sz a)"
proof -
  have ok: "runs_ok (xs @ [p, q] @ ys)" using wf L by (simp add: rm_wf_def)
  have ends: "slot_end p < 2 ^ 32" "slot_end q < 2 ^ 32" "m_addr p \<noteq> 0" "m_size p \<noteq> 0"
    using ok by auto
  have len: "length (slots mp) < 2 ^ 32" using wf unfolding rm_wf_def by blast
  have s: "slots mp = xs @ p # q # ys @ zslot # replicate (unat (mapsize mp)) zslot"
    using sp by (simp add: split_at_def)
  have wa: "a + sz = m_addr q"
    using q by (rule word_sum_eqI)
  define b where "b = p\<lparr>m_size := m_size p + sz + m_size q\<rparr>"
  have e1: "slot_end q = unat (m_addr q) + unat (m_size q)" by (simp add: slot_end_def)
  have g1: "unat (m_size p + sz) = unat (m_size p) + unat sz"
    using ends q p e1 by (intro slot_grow) simp
  have "unat (m_size p + sz + m_size q) = unat (m_size p) + unat sz + unat (m_size q)"
    using ends q p e1 g1 by (simp add: unat_plus_nowrap slot_end_def)
  then have b: "slot_end b = slot_end q" "m_size b \<noteq> 0" "m_addr b = m_addr p"
    using p q e1 ends(4) by (auto simp: b_def slot_end_def word_neq_zero_unat)
  have "runs_ok (xs @ b # ys)"
    by (rule runs_ok_replace [OF ok]) (use b ends ok in auto)
  moreover have ms: "unat (mapsize mp + 1) = Suc (unat (mapsize mp))"
    using len by (simp add: s unat_plus_nowrap)
  ultimately obtain mp' where "rmfree mp sz a = RmDone mp' (mapwant mp \<noteq> 0)" "rm_wf mp'" "mapwant mp' = 0"
    "units mp' = (\<Union>c \<in> set (xs @ b # ys). span c)"
    using rm_wakeup_done [of "xs @ b # ys" "mp\<lparr>slots := xs @ b # ys @ zslot # zslot
       # replicate (unat (mapsize mp)) zslot, mapsize := mapsize mp + 1\<rparr>"] len
      rmfree_both [OF sp sz _ wa] word_end_eq(2) [OF ends(1)] p
    by (auto simp: s b_def)
  moreover have "span b = span p \<union> block a sz \<union> span q"
    using b p q e1 slot_end_gt [OF ends(4)] by (auto simp: span_def block_def)
  then have "(\<Union>c \<in> set (xs @ b # ys). span c) = units mp \<union> block a sz"
    using L by (auto simp: units_def)
  ultimately show ?thesis by (simp add: freed_def)
qed

lemma rmfree_below_freed:
  assumes sp: "split_at mp a (xs @ [p]) ys" and L: "live (slots mp) = xs @ p # ys"
    and wf: "rm_wf mp" and sz: "sz \<noteq> 0" and p: "slot_end p = unat a"
    and bound: "unat a + unat sz < 2 ^ 32" and ys: "\<And>c. c \<in> set ys \<Longrightarrow> unat a + unat sz < unat (m_addr c)"
  shows "freed mp sz a (rmfree mp sz a)"
proof -
  have ok: "runs_ok (xs @ [p] @ ys)" using wf L by (simp add: rm_wf_def)
  have ends: "slot_end p < 2 ^ 32" "m_addr p \<noteq> 0" "m_size p \<noteq> 0" using ok by auto
  have len: "length (slots mp) < 2 ^ 32" using wf unfolding rm_wf_def by blast
  have s: "slots mp = xs @ p # ys @ zslot # replicate (unat (mapsize mp)) zslot"
    using sp by (simp add: split_at_def)
  define b where "b = p\<lparr>m_size := m_size p + sz\<rparr>"
  have b: "slot_end b = unat a + unat sz" "m_addr b = m_addr p" "m_size b \<noteq> 0"
    using slot_grow [of p sz] bound p ends(3) by (auto simp: b_def word_neq_zero_unat)
  have "runs_ok (xs @ b # ys)"
    by (rule runs_ok_replace [OF ok]) (use b ends ok bound ys in auto)
  moreover have "unat (a + sz) = unat a + unat sz" using bound by (simp add: unat_plus_nowrap)
  then have "\<And>q zs. ys = q # zs \<Longrightarrow> a + sz \<noteq> m_addr q" using ys by fastforce
  ultimately obtain mp' where "rmfree mp sz a = RmDone mp' (mapwant mp \<noteq> 0)" "rm_wf mp'" "mapwant mp' = 0"
    "units mp' = (\<Union>c \<in> set (xs @ b # ys). span c)"
    using rm_wakeup_done [of "xs @ b # ys" "mp\<lparr>slots := xs @ b # ys @ zslot
       # replicate (unat (mapsize mp)) zslot\<rparr>"] len
      rmfree_below [OF sp sz] word_end_eq(2) [OF ends(1)] p
    by (auto simp: s b_def)
  moreover have "span b = span p \<union> block a sz"
    using b p slot_end_gt [OF ends(3)] by (auto simp: span_def block_def)
  then have "(\<Union>c \<in> set (xs @ b # ys). span c) = units mp \<union> block a sz"
    using L by (auto simp: units_def)
  ultimately show ?thesis by (simp add: freed_def)
qed

lemma rmfree_above_freed:
  assumes sp: "split_at mp a xs (q # ys)" and L: "live (slots mp) = xs @ q # ys"
    and wf: "rm_wf mp" and sz: "sz \<noteq> 0" and a: "a \<noteq> 0" and q: "unat a + unat sz = unat (m_addr q)"
    and xs: "\<And>c. c \<in> set xs \<Longrightarrow> slot_end c < unat a"
  shows "freed mp sz a (rmfree mp sz a)"
proof -
  have ok: "runs_ok (xs @ [q] @ ys)" using wf L by (simp add: rm_wf_def)
  have ends: "slot_end q < 2 ^ 32" "m_size q \<noteq> 0" using ok by auto
  have len: "length (slots mp) < 2 ^ 32" using wf unfolding rm_wf_def by blast
  have s: "slots mp = xs @ q # ys @ zslot # replicate (unat (mapsize mp)) zslot"
    using sp by (simp add: split_at_def)
  have wa: "a + sz = m_addr q"
    using q by (rule word_sum_eqI)
  define b where "b = \<lparr>m_size = m_size q + sz, m_addr = m_addr q - sz\<rparr>"
  have "unat (m_size q + sz) = unat (m_size q) + unat sz"
    using ends q by (intro unat_plus_nowrap) (simp add: slot_end_def)
  moreover have ba: "m_addr b = a" by (simp add: b_def flip: wa)
  ultimately have b: "slot_end b = slot_end q" "m_addr b = a" "m_size b \<noteq> 0"
    using q ends(2) by (auto simp: slot_end_def b_def word_neq_zero_unat)
  have "runs_ok (xs @ b # ys)"
    by (rule runs_ok_replace [OF ok]) (use b ends ok a xs in auto)
  moreover have "m_addr p + m_size p \<noteq> a" if "xs = zs @ [p]" for zs p
    using xs [of p] word_end_eq(2) [of p a] ok that by auto
  ultimately obtain mp' where "rmfree mp sz a = RmDone mp' (mapwant mp \<noteq> 0)" "rm_wf mp'" "mapwant mp' = 0"
    "units mp' = (\<Union>c \<in> set (xs @ b # ys). span c)"
    using rm_wakeup_done [of "xs @ b # ys" "mp\<lparr>slots := xs @ b # ys @ zslot
       # replicate (unat (mapsize mp)) zslot\<rparr>"] len rmfree_above [OF sp sz wa]
    by (auto simp: s b_def)
  moreover have "span b = block a sz \<union> span q"
    using b q slot_end_gt [OF ends(2)] by (auto simp: span_def block_def)
  then have "(\<Union>c \<in> set (xs @ b # ys). span c) = units mp \<union> block a sz"
    using L by (auto simp: units_def)
  ultimately show ?thesis by (simp add: freed_def)
qed

lemma rmfree_apart_freed:
  assumes sp: "split_at mp a xs ys" and L: "live (slots mp) = xs @ ys" and wf: "rm_wf mp"
    and sz: "sz \<noteq> 0" and a: "a \<noteq> 0" and bound: "unat a + unat sz < 2 ^ 32"
    and xs: "\<And>c. c \<in> set xs \<Longrightarrow> slot_end c < unat a"
    and ys: "\<And>c. c \<in> set ys \<Longrightarrow> unat a + unat sz < unat (m_addr c)"
  shows "if mapsize mp = 0 then rmfree mp sz a = RmLost mp else freed mp sz a (rmfree mp sz a)"
proof -
  have ok: "runs_ok (xs @ [] @ ys)" using wf L by (simp add: rm_wf_def)
  have len: "length (slots mp) < 2 ^ 32" using wf unfolding rm_wf_def by blast
  have s: "slots mp = xs @ ys @ zslot # replicate (unat (mapsize mp)) zslot"
    using sp by (simp add: split_at_def)
  have "unat (a + sz) = unat a + unat sz" using bound by (simp add: unat_plus_nowrap)
  then have "\<And>q zs. ys = q # zs \<Longrightarrow> a + sz \<noteq> m_addr q" using ys by fastforce
  moreover have "m_addr p + m_size p \<noteq> a" if "xs = zs @ [p]" for zs p
    using xs [of p] word_end_eq(2) [of p a] ok that by auto
  ultimately have free: "rmfree mp sz a =
    (if mapsize mp = 0 then RmLost mp
     else rm_wakeup (mp\<lparr>slots := xs @ \<lparr>m_size = sz, m_addr = a\<rparr> # ys
                                @ replicate (unat (mapsize mp)) zslot, mapsize := mapsize mp - 1\<rparr>))"
    using sp sz by (intro rmfree_apart) auto
  show ?thesis
  proof (cases "mapsize mp = 0")
    case True
    with free show ?thesis by simp
  next
    case False
    define b where "b = \<lparr>m_size = sz, m_addr = a\<rparr>"
    have b: "slot_end b = unat a + unat sz" "span b = block a sz"
      by (simp_all add: b_def slot_end_def span_def block_def)
    have "runs_ok (xs @ b # ys)"
      by (rule runs_ok_replace [OF ok]) (use b sz a xs ys bound in \<open>auto simp: b_def\<close>)
    moreover have "unat (mapsize mp - 1) = unat (mapsize mp) - 1" and pos: "0 < unat (mapsize mp)"
      using False by (simp_all add: unat_minus_nowrap unat_gt_0 word_le_nat_alt Suc_leI)
    then have "replicate (unat (mapsize mp)) zslot = zslot # replicate (unat (mapsize mp - 1)) zslot"
      by (metis Suc_diff_1 replicate_Suc)
    ultimately obtain mp' where "rmfree mp sz a = RmDone mp' (mapwant mp \<noteq> 0)" "rm_wf mp'" "mapwant mp' = 0"
      "units mp' = (\<Union>c \<in> set (xs @ b # ys). span c)"
      using rm_wakeup_done [of "xs @ b # ys" "mp\<lparr>slots := xs @ b # ys @ replicate (unat (mapsize mp)) zslot,
         mapsize := mapsize mp - 1\<rparr>"] len free False
      by (auto simp: s b_def)
    moreover have "(\<Union>c \<in> set (xs @ b # ys). span c) = units mp \<union> block a sz"
      using L b by (auto simp: units_def)
    ultimately show ?thesis using False by (simp add: freed_def)
  qed
qed

text \<open>
  The contract of \<^verbatim>\<open>rmfree\<close>: freeing a block that is in nobody's free list either adds
  its units to the free ones, or finds the map full and the block adjacent to no run.
\<close>

lemma rmfree_contract:
  assumes wf: "rm_wf mp" and sz: "sz \<noteq> 0" and a: "a \<noteq> 0" and bound: "unat a + unat sz < 2 ^ 32"
    and disj: "block a sz \<inter> units mp = {}"
  shows "freed mp sz a (rmfree mp sz a)
    \<or> (rmfree mp sz a = RmLost mp \<and> mapsize mp = 0
        \<and> unat a - 1 \<notin> units mp \<and> unat a + unat sz \<notin> units mp)"
proof -
  obtain xs ys where sp: "split_at mp a xs ys" and L: "live (slots mp) = xs @ ys"
    using wf by (rule split_at_exists)
  note gaps = split_at_gaps [OF sp L sz disj]
  have ok: "runs_ok (xs @ ys)" using wf L by (simp add: rm_wf_def)
  consider (both) zs p q ws where "xs = zs @ [p]" "slot_end p = unat a" "ys = q # ws" "unat a + unat sz = unat (m_addr q)"
    | (below) zs p where "xs = zs @ [p]" "slot_end p = unat a" "\<And>c. c \<in> set ys \<Longrightarrow> unat a + unat sz < unat (m_addr c)"
    | (above) q ws where "\<And>c. c \<in> set xs \<Longrightarrow> slot_end c < unat a" "ys = q # ws" "unat a + unat sz = unat (m_addr q)"
    | (apart) "\<And>c. c \<in> set xs \<Longrightarrow> slot_end c < unat a" "\<And>c. c \<in> set ys \<Longrightarrow> unat a + unat sz < unat (m_addr c)"
    using runs_touch [OF ok gaps] by metis
  then show ?thesis
  proof cases
    case both
    then show ?thesis using rmfree_both_freed [of mp a zs p q ws sz] sp L wf sz by simp
  next
    case below
    then show ?thesis using rmfree_below_freed [of mp a zs p ys sz] sp L wf sz bound by simp
  next
    case above
    then show ?thesis using rmfree_above_freed [of mp a xs q ws sz] sp L wf sz a by simp
  next
    case apart
    have "unat a - 1 \<notin> units mp" "unat a + unat sz \<notin> units mp"
      using apart L a by (fastforce simp: units_def span_def word_neq_zero_unat)+
    then show ?thesis using rmfree_apart_freed [OF sp L wf sz a bound] apart by (auto split: if_splits)
  qed
qed

text \<open>Freeing what was just allocated gives back the same map, with the sleepers woken.\<close>

lemma rmalloc_rmfree_eq:
  assumes wf: "rm_wf mp" and sz: "sz \<noteq> 0" and r: "rmalloc mp sz = Some (a, mp1)" and a: "a \<noteq> 0"
  shows "rmfree mp1 sz a = RmDone (mp\<lparr>mapwant := 0\<rparr>) (mapwant mp \<noteq> 0)"
proof -
  note w = rm_wf_is_with_runs [OF wf]
  have mp: "mp = with_runs mp L (mapsize mp)" if "live (slots mp) = L" for L using w(1) that by simp
  have ms: "unat (mapsize mp + 1) = Suc (unat (mapsize mp))"
    using w(3) by (simp add: unat_plus_nowrap)
  have wake: "rm_wakeup (with_runs mp L (mapsize mp)) = RmDone (mp\<lparr>mapwant := 0\<rparr>) (mapwant mp \<noteq> 0)"
    if "live (slots mp) = L" for L
    using mp [OF that] by (simp add: rm_wakeup_def)
  show ?thesis
    using wf sz
  proof (cases rule: rmalloc_cases)
    case none
    with r a show ?thesis by simp
  next
    case (exact xs b ys m)
    then have m: "mp1 = with_runs mp (xs @ ys) (mapsize mp + 1)" "a = m_addr b" using r by auto
    have ok: "runs_ok (xs @ b # ys)" using w(2) exact by simp
    then have ends: "\<And>c. c \<in> set xs \<Longrightarrow> slot_end c < unat a" "\<And>c. c \<in> set ys \<Longrightarrow> slot_end b < unat (m_addr c)"
      "slot_end b = unat a + unat sz"
      using exact(2) by (auto simp: m slot_end_def)
    have sp: "split_at mp1 a xs ys"
      unfolding m(1)
    proof (rule split_at_with_runs)
      show "\<forall>d \<in> set (xs @ ys). m_size d \<noteq> 0" using runs_ok_sizes [OF ok] by auto
      show "unat a < unat (m_addr c)" if "c \<in> set ys" for c using ends(2) [OF that] ends(3) by simp
    qed (rule ends(1))
    have nz: "mapsize mp + 1 \<noteq> 0" using ms by (metis nat.distinct(1) unat_0)
    have "unat (a + sz) = unat a + unat sz"
      using ok ends(3) by (intro unat_plus_nowrap) auto
    then have hi: "\<And>q zs. ys = q # zs \<Longrightarrow> a + sz \<noteq> m_addr q" using ends by fastforce
    have lo: "m_addr p + m_size p \<noteq> a" if "xs = zs @ [p]" for zs p
      using ends(1) [of p] word_end_eq(2) [of p a] ok that by auto
    have "\<lparr>m_size = sz, m_addr = a\<rparr> = b" using exact(2) m(2) by simp
    then have "rmfree mp1 sz a = rm_wakeup (with_runs mp (xs @ b # ys) (mapsize mp))"
      using rmfree_apart [OF sp sz hi lo] nz ms by (simp add: m(1) with_runs_def)
    with wake exact(1) show ?thesis by simp
  next
    case (part xs b ys m)
    let ?c = "cut_front b sz"
    have eta: "\<lparr>m_size = m_size b, m_addr = m_addr b\<rparr> = b" by simp
    have m: "mp1 = with_runs mp (xs @ ?c # ys) (mapsize mp)" "a = m_addr b" using r part by auto
    have ok: "runs_ok (xs @ b # ys)" using w(2) part by simp
    have c: "unat (m_addr ?c) = unat a + unat sz" "m_size ?c \<noteq> 0"
      using cut_front_simps [OF part(2)] ok m(2) by auto
    have pos: "0 < unat sz" using sz by (simp add: unat_gt_0)
    have "slot_end b < unat (m_addr d)" if "d \<in> set ys" for d using ok that by simp
    then have "unat a < unat (m_addr d)" if "d \<in> set ys" for d
      using slot_end_gt [of b] ok m(2) that by fastforce
    then have sp: "split_at mp1 a xs (?c # ys)"
      unfolding m(1)
    proof (intro split_at_with_runs)
      show "\<forall>d \<in> set (xs @ ?c # ys). m_size d \<noteq> 0" using runs_ok_sizes [OF ok] c(2) by auto
      show "slot_end d < unat a" if "d \<in> set xs" for d using ok that m(2) by simp
    qed (use c(1) pos in auto)
    have lo: "m_addr p + m_size p \<noteq> a" if "xs = zs @ [p]" for zs p
      using word_end_eq(2) [of p a] ok that m(2) by auto
    have "rmfree mp1 sz a = rm_wakeup (with_runs mp (xs @ b # ys) (mapsize mp))"
      using rmfree_above [OF sp sz _ lo] m(2) by (simp add: m(1) with_runs_def cut_front_def eta)
    with wake part(1) show ?thesis by simp
  qed
qed

lemma mapinit_wf:
  assumes "2 \<le> n" and "n < 2 ^ 32"
  shows "rm_wf (mapinit n)" and "units (mapinit n) = {}"
proof -
  have m: "unat (mapsize (mapinit n)) = n - 2"
    using assms by (simp add: mapinit_def unat_sub_if_size word_size take_bit_nat_eq_self unat_of_nat)
  have "n - 1 = Suc (n - 2)" using assms(1) by simp
  then have s: "slots (mapinit n) = [] @ zslot # replicate (unat (mapsize (mapinit n))) zslot"
    unfolding m by (simp add: mapinit_def)
  have "length (slots (mapinit n)) < 2 ^ 32" using assms by (simp add: mapinit_def)
  with s have "rm_wf (mapinit n)" "live (slots (mapinit n)) = []"
    using rm_wfI [of "[]" "mapinit n"] by auto
  then show "rm_wf (mapinit n)" and "units (mapinit n) = {}" by (simp_all add: units_def)
qed

lemma units_bounds:
  assumes "rm_wf mp" and "x \<in> units mp"
  shows "0 < x" and "x + 1 < 2 ^ 32"
proof -
  from assms obtain b where b: "b \<in> set (live (slots mp))" "x \<in> span b" by (auto simp: units_def)
  then have "m_addr b \<noteq> 0" "slot_end b < 2 ^ 32"
    using rm_wf_is_with_runs(2) [OF assms(1)] by (auto simp: runs_ok_def)
  with b(2) show "0 < x" and "x + 1 < 2 ^ 32" by (auto simp: span_def word_neq_zero_unat)
qed

section \<open>The interface\<close>

text \<open>
  The blocks that clients of a map hold: non-empty, outside the free units \<open>F\<close> and pairwise
  disjoint.
\<close>

definition blocks_ok :: "nat set \<Rightarrow> (u32 \<times> u32) list \<Rightarrow> bool" where
  "blocks_ok F bs \<longleftrightarrow>
     (\<forall>(a, n) \<in> set bs. a \<noteq> 0 \<and> n \<noteq> 0 \<and> unat a + unat n < 2 ^ 32 \<and> block a n \<inter> F = {})
     \<and> sorted_wrt (\<lambda>(a, n) (b, m). block a n \<inter> block b m = {}) bs"

definition blocks_units :: "(u32 \<times> u32) list \<Rightarrow> nat set" where
  "blocks_units bs = (\<Union>(a, n) \<in> set bs. block a n)"

lemma blocks_ok_antimono: "\<lbrakk>blocks_ok F bs; G \<subseteq> F\<rbrakk> \<Longrightarrow> blocks_ok G bs"
  unfolding blocks_ok_def by blast

lemma sorted_wrt_sym_insert:
  "(\<And>x y. P x y \<Longrightarrow> P y x) \<Longrightarrow> sorted_wrt P (b # xs @ ys) \<Longrightarrow> sorted_wrt P (xs @ b # ys)"
  by (simp add: sorted_wrt_append)

lemma blocks_ok_perm:
  assumes "blocks_ok F (b # xs @ ys)"
  shows "blocks_ok F (xs @ b # ys)"
proof -
  have eq: "set (b # xs @ ys) = set (xs @ b # ys)" by auto
  have srt: "sorted_wrt (\<lambda>(a, n) (b, m). block a n \<inter> block b m = {}) (xs @ b # ys)"
  proof (rule sorted_wrt_sym_insert)
    show "sorted_wrt (\<lambda>(a, n) (b, m). block a n \<inter> block b m = {}) (b # xs @ ys)"
      using assms unfolding blocks_ok_def by (rule conjunct2)
  qed (simp add: split_beta Int_commute)
  show ?thesis unfolding blocks_ok_def eq [symmetric]
    using assms [unfolded blocks_ok_def, THEN conjunct1] srt by (rule conjI)
qed

lemma blocks_ok_drop:
  assumes "blocks_ok F (xs @ (a, n) # ys)"
  shows "blocks_ok (F \<union> block a n) (xs @ ys)"
proof -
  have "sorted_wrt (\<lambda>(a, n) (b, m). block a n \<inter> block b m = {}) (xs @ ys)"
    using assms by (auto simp: blocks_ok_def sorted_wrt_append)
  moreover have "block b k \<inter> block a n = {}" if bk: "(b, k) \<in> set (xs @ ys)" for b k
  proof -
    have s: "sorted_wrt (\<lambda>(a, n) (b, m). block a n \<inter> block b m = {}) (xs @ (a, n) # ys)"
      using assms by (simp add: blocks_ok_def)
    show ?thesis
    proof (cases "(b, k) \<in> set xs")
      case True
      then show ?thesis using sorted_wrt_appendD(3) [OF s True, of "(a, n)"] by simp
    next
      case False
      with bk have "(b, k) \<in> set ys" by simp
      then show ?thesis using sorted_wrt_appendD(2) [OF s] by auto
    qed
  qed
  moreover have "b \<noteq> 0 \<and> k \<noteq> 0 \<and> unat b + unat k < 2 ^ 32 \<and> block b k \<inter> F = {}"
    if "(b, k) \<in> set (xs @ ys)" for b k
  proof -
    have "(b, k) \<in> set (xs @ (a, n) # ys)" using that by auto
    with assms show ?thesis unfolding blocks_ok_def by blast
  qed
  ultimately show ?thesis unfolding blocks_ok_def by blast
qed

text \<open>
  What the semaphore and message code relies on: \<^verbatim>\<open>alloc\<close> hands out free units or says that
  there is no such run, \<^verbatim>\<open>release\<close> takes a block back unless the map overflows.
\<close>

locale unit_pool =
  fixes alloc :: "'m \<Rightarrow> u32 \<Rightarrow> (u32 \<times> 'm) option"
    and release :: "'m \<Rightarrow> u32 \<Rightarrow> u32 \<Rightarrow> 'm rm_result"
    and free :: "'m \<Rightarrow> nat set"
    and inv :: "'m \<Rightarrow> bool"
  assumes free_bounds: "\<lbrakk>inv m; x \<in> free m\<rbrakk> \<Longrightarrow> 0 < x \<and> x + 1 < 2 ^ 32"
    and alloc_total: "inv m \<Longrightarrow> \<exists>a m'. alloc m n = Some (a, m') \<and> inv m'"
    and alloc_none: "\<lbrakk>inv m; n \<noteq> 0; alloc m n = Some (0, m')\<rbrakk> \<Longrightarrow> m' = m \<and> \<not> has_run (free m) (unat n)"
    and alloc_some: "\<lbrakk>inv m; n \<noteq> 0; alloc m n = Some (a, m'); a \<noteq> 0\<rbrakk>
      \<Longrightarrow> block a n \<subseteq> free m \<and> free m' = free m - block a n"
    and release_ok: "\<lbrakk>inv m; n \<noteq> 0; a \<noteq> 0; unat a + unat n < 2 ^ 32; block a n \<inter> free m = {}\<rbrakk>
      \<Longrightarrow> (\<exists>m' w. release m n a = RmDone m' w \<and> inv m' \<and> free m' = free m \<union> block a n)
        \<or> release m n a = RmLost m"
begin

lemma alloc_inv: "\<lbrakk>inv m; alloc m n = Some (a, m')\<rbrakk> \<Longrightarrow> inv m'"
  using alloc_total [of m n] by auto

text \<open>An allocated block is disjoint from every block already held.\<close>

lemma alloc_held:
  assumes "inv m" and "blocks_ok (free m) bs" and "n \<noteq> 0" and "alloc m n = Some (a, m')" and "a \<noteq> 0"
  shows "blocks_ok (free m') ((a, n) # bs)"
    and "free m' \<union> blocks_units ((a, n) # bs) = free m \<union> blocks_units bs"
proof -
  have sub: "block a n \<subseteq> free m" and fr: "free m' = free m - block a n"
    using alloc_some assms by blast+
  have "unat a + unat n - 1 \<in> block a n" using assms(3) by (auto simp: block_def word_neq_zero_unat)
  then have bd: "unat a + unat n < 2 ^ 32"
    using free_bounds [OF assms(1)] sub assms(3) by (fastforce simp: word_neq_zero_unat)
  have "block a n \<inter> block b k = {}" if "(b, k) \<in> set bs" for b k
    using assms(2) sub that by (fastforce simp: blocks_ok_def)
  then show "blocks_ok (free m') ((a, n) # bs)"
    using assms fr bd by (auto simp: blocks_ok_def)
  show "free m' \<union> blocks_units ((a, n) # bs) = free m \<union> blocks_units bs"
    using sub fr by (auto simp: blocks_units_def)
qed

text \<open>A held block can be given back; the other holders are not affected.\<close>

lemma release_held:
  assumes "inv m" and "blocks_ok (free m) (xs @ (a, n) # ys)"
  shows "(\<exists>m' w. release m n a = RmDone m' w \<and> inv m' \<and> blocks_ok (free m') (xs @ ys)
            \<and> free m' \<union> blocks_units (xs @ ys) = free m \<union> blocks_units (xs @ (a, n) # ys))
    \<or> (release m n a = RmLost m \<and> blocks_ok (free m) (xs @ ys))"
proof -
  have an: "a \<noteq> 0" "n \<noteq> 0" "unat a + unat n < 2 ^ 32" "block a n \<inter> free m = {}"
    using assms(2) by (auto simp: blocks_ok_def)
  have keep: "blocks_ok F (xs @ ys)" if "F \<subseteq> free m \<union> block a n" for F
    using blocks_ok_drop [OF assms(2)] that by (rule blocks_ok_antimono)
  from release_ok [OF assms(1) an(2,1,3,4)] show ?thesis
    using keep by (auto simp: blocks_units_def)
qed

end

interpretation rm: unit_pool rmalloc rmfree units rm_wf
proof
  show "0 < x \<and> x + 1 < 2 ^ 32" if "rm_wf m" "x \<in> units m" for m x
    using units_bounds that by blast
  show "\<exists>a m'. rmalloc m n = Some (a, m') \<and> rm_wf m'" if "rm_wf m" for m n
    using rmalloc_total that by blast
  show "m' = m \<and> \<not> has_run (units m) (unat n)"
    if "rm_wf m" "n \<noteq> 0" "rmalloc m n = Some (0, m')" for m n m'
    using rmalloc_fails that by blast
  show "block a n \<subseteq> units m \<and> units m' = units m - block a n"
    if "rm_wf m" "n \<noteq> 0" "rmalloc m n = Some (a, m')" "a \<noteq> 0" for m n a m'
    using rmalloc_succeeds that by blast
  show "(\<exists>m' w. rmfree m n a = RmDone m' w \<and> rm_wf m' \<and> units m' = units m \<union> block a n)
      \<or> rmfree m n a = RmLost m"
    if "rm_wf m" "n \<noteq> 0" "a \<noteq> 0" "unat a + unat n < 2 ^ 32" "block a n \<inter> units m = {}" for m n a
    using rmfree_contract [OF that] by (auto simp: freed_def)
qed

section \<open>Properties\<close>

text \<open>C25: \<^verbatim>\<open>rmalloc\<close> on a well-formed map never runs off the array, keeps the map well-formed,
  and is a first fit: it returns the lowest address at which the requested number of contiguous
  units is free and takes exactly those units out of the free set; it returns 0, leaving the map
  alone, only when the free units hold no run of that length.\<close>

theorem rmalloc_first_fit:
  assumes "rm_wf mp" and "sz \<noteq> 0"
  shows "\<exists>a mp'. rmalloc mp sz = Some (a, mp') \<and> rm_wf mp'
     \<and> (if a = 0 then mp' = mp \<and> \<not> has_run (units mp) (unat sz)
        else block a sz \<subseteq> units mp \<and> units mp' = units mp - block a sz
          \<and> (\<forall>s < unat a. \<not> {s..<s + unat sz} \<subseteq> units mp))"
proof -
  from rmalloc_total [OF assms(1), of sz] obtain a mp' where r: "rmalloc mp sz = Some (a, mp')" "rm_wf mp'"
    by blast
  show ?thesis
  proof (cases "a = 0")
    case True
    with r rmalloc_fails [OF assms] show ?thesis by auto
  next
    case False
    with r rmalloc_succeeds [OF assms r(1) False] show ?thesis by auto
  qed
qed

text \<open>The map that \<^verbatim>\<open>seminit\<close> builds: 60 units from 1 on, in an array of 10.\<close>

definition example_map :: rmap where
  "example_map = \<lparr>mapsize = 7, mapwant = 1, slots = \<lparr>m_size = 60, m_addr = 1\<rparr> # replicate 8 zslot\<rparr>"

lemma replicate_examples:
  "replicate 7 x = [x, x, x, x, x, x, x]" "replicate 8 x = [x, x, x, x, x, x, x, x]"
  "replicate 9 x = [x, x, x, x, x, x, x, x, x]"
  by (simp_all add: numeral_eq_Suc)

lemma example_map_wf: "rm_wf example_map"
  by (simp add: example_map_def rm_wf_def live_def slot_end_def replicate_examples)

theorem rmalloc_first_fit_witness:
  "rm_wf example_map \<and> (5 :: u32) \<noteq> 0
   \<and> (\<exists>a mp'. rmalloc example_map 5 = Some (a, mp') \<and> rm_wf mp'
     \<and> (if a = 0 then mp' = example_map \<and> \<not> has_run (units example_map) (unat (5 :: u32))
        else block a 5 \<subseteq> units example_map \<and> units mp' = units example_map - block a 5
          \<and> (\<forall>s < unat a. \<not> {s..<s + unat (5 :: u32)} \<subseteq> units example_map)))"
proof -
  have five: "(5 :: u32) \<noteq> 0" by simp
  show ?thesis using example_map_wf five rmalloc_first_fit [OF example_map_wf five] by blast
qed

text \<open>C26: \<^verbatim>\<open>rmfree\<close> of a block that is not free returns its units to the free set, coalescing
  so that the map stays well-formed, and wakes the sleepers exactly when somebody wanted space;
  the only other outcome is the ``map overflow'' warning, which happens only when no slot is left
  and the block touches no free run. It never touches a slot outside the array.\<close>

theorem rmfree_returns_units:
  assumes "rm_wf mp" and "sz \<noteq> 0" and "a \<noteq> 0" and "unat a + unat sz < 2 ^ 32"
    and "block a sz \<inter> units mp = {}"
  shows "(\<exists>mp'. rmfree mp sz a = RmDone mp' (mapwant mp \<noteq> 0) \<and> rm_wf mp'
        \<and> units mp' = units mp \<union> block a sz \<and> mapwant mp' = 0)
    \<or> (rmfree mp sz a = RmLost mp \<and> mapsize mp = 0
        \<and> unat a - 1 \<notin> units mp \<and> unat a + unat sz \<notin> units mp)"
  using rmfree_contract [OF assms] by (simp add: freed_def)

lemma example_map_units: "units example_map = {1..<61}"
  by (simp add: example_map_def units_def live_def span_def slot_end_def)

theorem rmfree_returns_units_witness:
  "(\<exists>mp'. rmfree example_map 4 70 = RmDone mp' (mapwant example_map \<noteq> 0) \<and> rm_wf mp'
        \<and> units mp' = units example_map \<union> block 70 4 \<and> mapwant mp' = 0)
    \<or> (rmfree example_map 4 70 = RmLost example_map \<and> mapsize example_map = 0
        \<and> unat (70 :: u32) - 1 \<notin> units example_map
        \<and> unat (70 :: u32) + unat (4 :: u32) \<notin> units example_map)"
  by (rule rmfree_returns_units [OF example_map_wf]) (simp_all add: example_map_units block_def)

text \<open>\<^verbatim>\<open>rmfree\<close> undoes \<^verbatim>\<open>rmalloc\<close>: giving back a block just obtained restores the
  very slots of the map, with no overflow, and clears and serves the wanted flag.\<close>

theorem rmalloc_rmfree_roundtrip:
  assumes "rm_wf mp" and "sz \<noteq> 0" and "rmalloc mp sz = Some (a, mp1)" and "a \<noteq> 0"
  shows "rmfree mp1 sz a = RmDone (mp\<lparr>mapwant := 0\<rparr>) (mapwant mp \<noteq> 0)"
  using assms by (rule rmalloc_rmfree_eq)

lemma example_map_alloc:
  "rmalloc example_map 60 = Some (1, \<lparr>mapsize = 8, mapwant = 1, slots = replicate 9 zslot\<rparr>)"
  by (simp add: example_map_def rmalloc_def replicate_examples Let_def zslot_def)

theorem rmalloc_rmfree_roundtrip_witness:
  "rmfree \<lparr>mapsize = 8, mapwant = 1, slots = replicate 9 zslot\<rparr> 60 1
     = RmDone (example_map\<lparr>mapwant := 0\<rparr>) (mapwant example_map \<noteq> 0)"
  by (rule rmalloc_rmfree_roundtrip [OF example_map_wf _ example_map_alloc]) simp_all

end
