(* ===== verification/Ipc.thy ===== *)
theory Ipc
  imports Kernel_Prelude
begin

text \<open>
  The common part of System V IPC: \<^verbatim>\<open>uts/i386/os/ipc.c\<close> and the credential tests of
  \<^verbatim>\<open>uts/i386/os/cred.c\<close> it uses. The three facilities keep arrays of structures that begin
  with a \<^verbatim>\<open>struct ipc_perm\<close>; \<^verbatim>\<open>ipcget\<close> walks such an array through the permission
  structures only, so the model takes the list of permission structures of the facility and
  returns the index of the entry (the pointer \<^verbatim>\<open>*ipcpp\<close>), the status word and the updated list.
\<close>

unbundle bit_operations_syntax

section \<open>Credentials\<close>

text \<open>\<^verbatim>\<open>struct cred\<close>; \<^verbatim>\<open>cr_groups\<close> lists the first \<^verbatim>\<open>cr_ngroups\<close> members of the C array.\<close>

record cred =
  cr_ref :: u16
  cr_uid :: u32
  cr_gid :: u32
  cr_ruid :: u32
  cr_rgid :: u32
  cr_suid :: u32
  cr_sgid :: u32
  cr_groups :: "u32 list"

text \<open>The accounting flag \<^verbatim>\<open>ASU\<close> that \<^verbatim>\<open>suser\<close> sets in the u-block is not kept.\<close>

definition suser :: "cred \<Rightarrow> bool" where
  "suser cr \<longleftrightarrow> cr_uid cr = 0"

fun group_loop :: "u32 \<Rightarrow> u32 list \<Rightarrow> bool" where
  "group_loop gid [] = False"
| "group_loop gid (g # gs) = (if g = gid then True else group_loop gid gs)"

definition groupmember :: "u32 \<Rightarrow> cred \<Rightarrow> bool" where
  "groupmember gid cr = (if gid = cr_gid cr then True else group_loop gid (cr_groups cr))"

definition hasprocperm :: "cred \<Rightarrow> cred \<Rightarrow> bool" where
  "hasprocperm tcr scr \<longleftrightarrow>
     cr_uid scr = 0 \<or> cr_uid scr = cr_ruid tcr \<or> cr_ruid scr = cr_ruid tcr
     \<or> cr_uid scr = cr_suid tcr \<or> cr_ruid scr = cr_suid tcr"

section \<open>Permissions\<close>

record ipc_perm =
  ip_uid :: u32
  ip_gid :: u32
  ip_cuid :: u32
  ip_cgid :: u32
  ip_mode :: u32
  ip_seq :: u32
  ip_key :: u32
  ip_pad :: "u32 list"

text \<open>The constants of \<^verbatim>\<open>sys/ipc.h\<close>; the octal literals of the source in decimal.\<close>

definition IPC_ALLOC :: u32 where "IPC_ALLOC = 32768"      \<comment> \<open>0100000\<close>
definition IPC_CREAT :: u32 where "IPC_CREAT = 512"        \<comment> \<open>0001000\<close>
definition IPC_EXCL :: u32 where "IPC_EXCL = 1024"         \<comment> \<open>0002000\<close>
definition IPC_NOWAIT :: u32 where "IPC_NOWAIT = 2048"     \<comment> \<open>0004000\<close>
definition IPC_PRIVATE :: u32 where "IPC_PRIVATE = 0"
definition PERM_BITS :: u32 where "PERM_BITS = 511"        \<comment> \<open>0777\<close>

lemmas ipc_consts = IPC_ALLOC_def IPC_CREAT_def IPC_EXCL_def IPC_NOWAIT_def IPC_PRIVATE_def PERM_BITS_def

text \<open>\<^verbatim>\<open>base->mode & IPC_ALLOC\<close>: the entry is in use.\<close>

definition allocated :: "ipc_perm \<Rightarrow> bool" where
  "allocated p \<longleftrightarrow> ip_mode p AND IPC_ALLOC \<noteq> 0"

text \<open>
  \<^verbatim>\<open>ipcaccess\<close>. The argument \<^verbatim>\<open>mode\<close> holds the requested bits in the owner position and is
  shifted down for the group and for everyone else; \<^verbatim>\<open>mode\<close> is a non-negative \<^verbatim>\<open>int\<close> at every
  call, so the shift is the logical one.
\<close>

definition ipcaccess :: "ipc_perm \<Rightarrow> u32 \<Rightarrow> cred \<Rightarrow> errno option" where
  "ipcaccess p mode cr =
     (if cr_uid cr = 0 then None
      else
        (let mode' =
           (if cr_uid cr \<noteq> ip_uid p \<and> cr_uid cr \<noteq> ip_cuid p then
              (let m3 = drop_bit 3 mode in
               if \<not> groupmember (ip_gid p) cr \<and> \<not> groupmember (ip_cgid p) cr
               then drop_bit 3 m3 else m3)
            else mode)
         in if mode' AND ip_mode p \<noteq> 0 then None else Some EACCES))"

section \<open>Looking up and creating entries\<close>

text \<open>The label \<^verbatim>\<open>init\<close> of \<^verbatim>\<open>ipcget\<close>: claim the entry for the caller.\<close>

definition ipc_init :: "u32 \<Rightarrow> u32 \<Rightarrow> cred \<Rightarrow> ipc_perm \<Rightarrow> ipc_perm" where
  "ipc_init key flag cr p =
     p\<lparr>ip_mode := IPC_ALLOC OR (flag AND PERM_BITS), ip_key := key,
       ip_cuid := cr_uid cr, ip_uid := cr_uid cr, ip_cgid := cr_gid cr, ip_gid := cr_gid cr\<rparr>"

text \<open>The first loop: the first entry that is not in use.\<close>

fun ipc_first_free :: "nat \<Rightarrow> ipc_perm list \<Rightarrow> nat option" where
  "ipc_first_free i [] = None"
| "ipc_first_free i (p # ps) = (if allocated p then ipc_first_free (Suc i) ps else Some i)"

text \<open>
  The second loop: stop with the index of a matching entry or an error, or run to the end
  remembering in \<open>a\<close> the first entry that is not in use.
\<close>

datatype ipc_scan = ScanHit nat | ScanErr errno | ScanEnd "nat option"

fun ipc_scan_key :: "u32 \<Rightarrow> u32 \<Rightarrow> nat \<Rightarrow> nat option \<Rightarrow> ipc_perm list \<Rightarrow> ipc_scan" where
  "ipc_scan_key key flag i a [] = ScanEnd a"
| "ipc_scan_key key flag i a (p # ps) =
     (if allocated p then
        (if ip_key p = key then
           (if flag AND (IPC_CREAT OR IPC_EXCL) = IPC_CREAT OR IPC_EXCL then ScanErr EEXIST
            else if (flag AND PERM_BITS) AND NOT (ip_mode p) \<noteq> 0 then ScanErr EACCES
            else ScanHit i)
         else ipc_scan_key key flag (Suc i) a ps)
      else ipc_scan_key key flag (Suc i) (case a of None \<Rightarrow> Some i | Some _ \<Rightarrow> a) ps)"

text \<open>The result: an error, or the index of the entry, the status word and the new array.\<close>

definition ipcget :: "u32 \<Rightarrow> u32 \<Rightarrow> cred \<Rightarrow> ipc_perm list \<Rightarrow> errno + (nat \<times> bool \<times> ipc_perm list)" where
  "ipcget key flag cr ps =
     (if key = IPC_PRIVATE then
        (case ipc_first_free 0 ps of
           None \<Rightarrow> Inl ENOSPC
         | Some i \<Rightarrow> Inr (i, True, ps[i := ipc_init key flag cr (ps ! i)]))
      else
        (case ipc_scan_key key flag 0 None ps of
           ScanErr e \<Rightarrow> Inl e
         | ScanHit i \<Rightarrow> Inr (i, False, ps)
         | ScanEnd a \<Rightarrow>
             (if flag AND IPC_CREAT = 0 then Inl ENOENT
              else case a of
                     None \<Rightarrow> Inl ENOSPC
                   | Some i \<Rightarrow> Inr (i, True, ps[i := ipc_init key flag cr (ps ! i)]))))"

section \<open>Shared by semaphores and messages\<close>

definition to_ushort :: "int \<Rightarrow> int" where
  "to_ushort v = v mod 65536"

definition MAXUID :: int where "MAXUID = 60002"

definition INT16_MAX :: int where "INT16_MAX = 32767"

text \<open>What the code reads of the current process: \<^verbatim>\<open>u.u_procp\<close> and \<^verbatim>\<open>u.u_cred\<close>.\<close>

record uproc =
  p_slot :: nat
  p_pid :: int
  u_cred :: cred

text \<open>The SVR3 permission structure that \<^verbatim>\<open>IPC_O_STAT\<close> fills in.\<close>

record o_ipc_perm =
  o_uid :: u16
  o_gid :: u16
  o_cuid :: u16
  o_cgid :: u16
  o_mode :: u16
  o_seq :: u16
  o_key :: u32

text \<open>\<^verbatim>\<open>cr_uid != uid && cr_uid != cuid && !suser(cr)\<close>\<close>

definition not_owner :: "cred \<Rightarrow> ipc_perm \<Rightarrow> bool" where
  "not_owner cr p \<longleftrightarrow> cr_uid cr \<noteq> ip_uid p \<and> cr_uid cr \<noteq> ip_cuid p \<and> \<not> suser cr"

section \<open>Correctness\<close>

lemma allocated_bit: "allocated p \<longleftrightarrow> bit (ip_mode p) 15"
proof -
  have "(IPC_ALLOC :: u32) = push_bit 15 1" by (simp add: IPC_ALLOC_def)
  then show ?thesis by (simp only: allocated_def bit_iff_and_push_bit_not_eq_0)
qed

lemma ipc_init_simps [simp]:
  "allocated (ipc_init key flag cr p)" "ip_key (ipc_init key flag cr p) = key"
  "ip_uid (ipc_init key flag cr p) = cr_uid cr" "ip_cuid (ipc_init key flag cr p) = cr_uid cr"
  "ip_gid (ipc_init key flag cr p) = cr_gid cr" "ip_cgid (ipc_init key flag cr p) = cr_gid cr"
  "ip_seq (ipc_init key flag cr p) = ip_seq p"
  by (simp_all add: ipc_init_def allocated_bit ipc_consts bit_simps)

lemma group_loop_iff [simp]: "group_loop gid gs \<longleftrightarrow> gid \<in> set gs"
  by (induction gs) auto

lemma groupmember_iff: "groupmember gid cr \<longleftrightarrow> gid = cr_gid cr \<or> gid \<in> set (cr_groups cr)"
  by (simp add: groupmember_def)

text \<open>Which entries the two loops find.\<close>

definition matches :: "u32 \<Rightarrow> ipc_perm \<Rightarrow> bool" where
  "matches key p \<longleftrightarrow> allocated p \<and> ip_key p = key"

text \<open>The first index at which \<open>P\<close> holds.\<close>

definition first_at :: "(ipc_perm \<Rightarrow> bool) \<Rightarrow> ipc_perm list \<Rightarrow> nat \<Rightarrow> bool" where
  "first_at P ps i \<longleftrightarrow> i < length ps \<and> P (ps ! i) \<and> (\<forall>j < i. \<not> P (ps ! j))"

lemma first_at_Cons:
  "first_at P (p # ps) i \<longleftrightarrow> (if P p then i = 0 else \<exists>j. i = Suc j \<and> first_at P ps j)"
  by (cases i) (auto simp: first_at_def less_Suc_eq_0_disj)

lemma first_at_exists: "\<exists>p \<in> set ps. P p \<Longrightarrow> \<exists>i. first_at P ps i"
proof (induction ps)
  case (Cons p ps)
  then show ?case by (cases "P p") (auto simp: first_at_Cons)
qed simp

lemma first_at_unique: "\<lbrakk>first_at P ps i; first_at P ps j\<rbrakk> \<Longrightarrow> i = j"
  unfolding first_at_def by (metis linorder_neqE_nat)

lemma ipc_first_free_iff:
  "ipc_first_free n ps = Some k \<longleftrightarrow> (\<exists>i. k = n + i \<and> first_at (\<lambda>p. \<not> allocated p) ps i)"
  by (induction ps arbitrary: n) (auto simp: first_at_Cons first_at_def [of _ "[]"])

lemma ipc_first_free_None: "ipc_first_free n ps = None \<longleftrightarrow> (\<forall>p \<in> set ps. allocated p)"
  by (induction ps arbitrary: n) auto

text \<open>What the key scan reports on an entry with the key.\<close>

definition on_match :: "u32 \<Rightarrow> ipc_perm \<Rightarrow> nat \<Rightarrow> ipc_scan" where
  "on_match flag p i =
     (if flag AND (IPC_CREAT OR IPC_EXCL) = IPC_CREAT OR IPC_EXCL then ScanErr EEXIST
      else if (flag AND PERM_BITS) AND NOT (ip_mode p) \<noteq> 0 then ScanErr EACCES else ScanHit i)"

lemma ipc_scan_key_match:
  "first_at (matches key) ps i \<Longrightarrow> ipc_scan_key key flag n a ps = on_match flag (ps ! i) (n + i)"
proof (induction ps arbitrary: n a i)
  case Nil
  then show ?case by (simp add: first_at_def)
next
  case (Cons p ps)
  then show ?case by (auto simp: first_at_Cons matches_def on_match_def split: if_splits)
qed

lemma ipc_scan_key_nomatch:
  "\<forall>p \<in> set ps. \<not> matches key p \<Longrightarrow>
   ipc_scan_key key flag n a ps = ScanEnd (case a of None \<Rightarrow> ipc_first_free n ps | Some _ \<Rightarrow> a)"
  by (induction ps arbitrary: n a) (auto simp: matches_def split: option.splits)

lemma ipcget_match:
  assumes "first_at (matches key) ps i" and "key \<noteq> IPC_PRIVATE"
  shows "ipcget key flag cr ps =
    (if flag AND (IPC_CREAT OR IPC_EXCL) = IPC_CREAT OR IPC_EXCL then Inl EEXIST
     else if (flag AND PERM_BITS) AND NOT (ip_mode (ps ! i)) \<noteq> 0 then Inl EACCES
     else Inr (i, False, ps))"
  using assms by (simp add: ipcget_def ipc_scan_key_match on_match_def)

lemma ipcget_nomatch:
  assumes "key = IPC_PRIVATE \<or> (\<forall>p \<in> set ps. \<not> matches key p)"
  shows "ipcget key flag cr ps =
    (if key \<noteq> IPC_PRIVATE \<and> flag AND IPC_CREAT = 0 then Inl ENOENT
     else case ipc_first_free 0 ps of
            None \<Rightarrow> Inl ENOSPC
          | Some i \<Rightarrow> Inr (i, True, ps[i := ipc_init key flag cr (ps ! i)]))"
proof (cases "key = IPC_PRIVATE")
  case True
  then show ?thesis unfolding ipcget_def by auto
next
  case False
  with assms show ?thesis by (simp add: ipcget_def ipc_scan_key_nomatch)
qed

text \<open>No two entries in use share a key other than \<^verbatim>\<open>IPC_PRIVATE\<close>.\<close>

definition keys_unique :: "ipc_perm list \<Rightarrow> bool" where
  "keys_unique ps \<longleftrightarrow>
     (\<forall>i < length ps. \<forall>j < length ps. i \<noteq> j \<longrightarrow> allocated (ps ! i) \<longrightarrow> allocated (ps ! j) \<longrightarrow>
        ip_key (ps ! i) = ip_key (ps ! j) \<longrightarrow> ip_key (ps ! i) = IPC_PRIVATE)"

lemma keys_uniqueD:
  "\<lbrakk>keys_unique ps; i < length ps; j < length ps; matches key (ps ! i); matches key (ps ! j);
    key \<noteq> IPC_PRIVATE\<rbrakk> \<Longrightarrow> i = j"
  unfolding keys_unique_def matches_def by metis

lemma first_match:
  assumes "keys_unique ps" and "i < length ps" and "matches key (ps ! i)" and "key \<noteq> IPC_PRIVATE"
  shows "first_at (matches key) ps i"
  unfolding first_at_def using assms keys_uniqueD [OF assms(1)] by (metis less_trans nat_neq_iff)

lemma keys_unique_claim:
  assumes "keys_unique ps" and "key = IPC_PRIVATE \<or> (\<forall>p \<in> set ps. \<not> matches key p)"
  shows "keys_unique (ps[i := ipc_init key flag cr (ps ! i)])"
proof -
  have "ip_key (ps ! j) \<noteq> key \<or> \<not> allocated (ps ! j) \<or> key = IPC_PRIVATE" if "j < length ps" for j
    using assms(2) that by (auto simp: matches_def)
  then show ?thesis
    using assms(1) unfolding keys_unique_def by (auto simp: nth_update)
qed

text \<open>Releasing an entry keeps the keys unique.\<close>

lemma keys_unique_release:
  "keys_unique ps \<Longrightarrow> \<not> allocated p \<Longrightarrow> keys_unique (ps[i := p])"
  unfolding keys_unique_def by (auto simp: nth_update)

lemma keys_unique_update:
  assumes "keys_unique ps" and "allocated (ps ! i)" and "ip_key p = ip_key (ps ! i)"
  shows "keys_unique (ps[i := p])"
  using assms unfolding keys_unique_def by (auto simp: nth_update)

text \<open>Everything a successful \<^verbatim>\<open>ipcget\<close> guarantees its callers.\<close>

lemma ipcget_Inr:
  assumes "ipcget key flag cr ps = Inr (i, created, qs)"
  shows "i < length ps" and "length qs = length ps" and "allocated (qs ! i)" and "ip_key (qs ! i) = key"
    and "ip_seq (qs ! i) = ip_seq (ps ! i)"
    and "\<And>j. j \<noteq> i \<Longrightarrow> qs ! j = ps ! j"
    and "created \<Longrightarrow> \<not> allocated (ps ! i) \<and> qs = ps[i := ipc_init key flag cr (ps ! i)]"
    and "\<not> created \<Longrightarrow> qs = ps"
    and "keys_unique ps \<Longrightarrow> keys_unique qs"
proof -
  consider (hit) "first_at (matches key) ps i" "\<not> created" "qs = ps"
    | (new) "first_at (\<lambda>p. \<not> allocated p) ps i" "created" "qs = ps[i := ipc_init key flag cr (ps ! i)]"
      "key = IPC_PRIVATE \<or> (\<forall>p \<in> set ps. \<not> matches key p)"
  proof (cases "key = IPC_PRIVATE \<or> (\<forall>p \<in> set ps. \<not> matches key p)")
    case True
    from assms have "ipc_first_free 0 ps = Some i" "created" "qs = ps[i := ipc_init key flag cr (ps ! i)]"
      unfolding ipcget_nomatch [OF True] by (auto split: if_splits option.splits)
    with True show ?thesis by (intro new) (auto simp: ipc_first_free_iff)
  next
    case False
    then obtain k where k: "first_at (matches key) ps k" "key \<noteq> IPC_PRIVATE"
      using first_at_exists [of ps "matches key"] by blast
    from assms have "k = i" "\<not> created" "qs = ps"
      unfolding ipcget_match [OF k] by (auto split: if_splits)
    with k show ?thesis by (intro hit) auto
  qed
  note cases = this
  show "i < length ps" using cases by cases (auto simp: first_at_def)
  show "length qs = length ps" using cases by cases auto
  show "allocated (qs ! i)" and "ip_key (qs ! i) = key" and "ip_seq (qs ! i) = ip_seq (ps ! i)"
    using cases by (cases; auto simp: first_at_def matches_def)+
  show "\<And>j. j \<noteq> i \<Longrightarrow> qs ! j = ps ! j" using cases by cases auto
  show "created \<Longrightarrow> \<not> allocated (ps ! i) \<and> qs = ps[i := ipc_init key flag cr (ps ! i)]"
    using cases by cases (auto simp: first_at_def)
  show "\<not> created \<Longrightarrow> qs = ps" using cases by cases auto
  show "keys_unique ps \<Longrightarrow> keys_unique qs" using cases by cases (auto intro: keys_unique_claim)
qed

section \<open>Properties\<close>

lemma exp_and_word: "2 ^ k AND mode = 0 \<longleftrightarrow> \<not> bit mode k" for mode :: u32
  by (simp add: bit_iff_and_push_bit_not_eq_0 push_bit_eq_mult and.commute)

text \<open>\<^verbatim>\<open>ipcaccess\<close> for one requested permission bit \<open>k\<close> of the owner class: the super-user is
  always let in; the owner and the creator are judged by the owner bit alone, members of either
  group by the group bit alone, everybody else by the last class; and the only error is
  \<^verbatim>\<open>EACCES\<close>.\<close>

theorem ipcaccess_classes:
  assumes "6 \<le> k" and "k \<le> 8"
  shows "ipcaccess p (2 ^ k) cr =
    (if cr_uid cr = 0
        \<or> bit (ip_mode p)
            (if cr_uid cr = ip_uid p \<or> cr_uid cr = ip_cuid p then k
             else if groupmember (ip_gid p) cr \<or> groupmember (ip_cgid p) cr then k - 3
             else k - 6)
     then None else Some EACCES)"
proof -
  have "drop_bit 3 (2 ^ k :: u32) = 2 ^ (k - 3)" "drop_bit 3 (2 ^ (k - 3) :: u32) = 2 ^ (k - 6)"
  proof -
    from assms consider "k = 6" | "k = 7" | "k = 8" by linarith
    then show "drop_bit 3 (2 ^ k :: u32) = 2 ^ (k - 3)" "drop_bit 3 (2 ^ (k - 3) :: u32) = 2 ^ (k - 6)"
      by (cases; simp)+
  qed
  then show ?thesis by (simp add: ipcaccess_def exp_and_word Let_def)
qed

definition example_cred :: cred where
  "example_cred = \<lparr>cr_ref = 1, cr_uid = 100, cr_gid = 10, cr_ruid = 100, cr_rgid = 10,
     cr_suid = 100, cr_sgid = 10, cr_groups = [10, 11]\<rparr>"

definition example_perm :: ipc_perm where
  "example_perm = \<lparr>ip_uid = 7, ip_gid = 11, ip_cuid = 7, ip_cgid = 12, ip_mode = 33184,
     ip_seq = 0, ip_key = 5, ip_pad = [0, 0, 0, 0]\<rparr>"

text \<open>A group member may not write an entry of mode 0640.\<close>

theorem ipcaccess_classes_witness:
  "ipcaccess example_perm (2 ^ 7) example_cred = Some EACCES"
proof -
  have "6 \<le> (7 :: nat)" and "(7 :: nat) \<le> 8" by simp_all
  note eq = ipcaccess_classes [OF this, of example_perm example_cred]
  show ?thesis unfolding eq
    by (simp add: example_perm_def example_cred_def groupmember_iff)
qed

text \<open>C28: \<^verbatim>\<open>ipcget\<close>, completely. When an entry in use has the key, it is found wherever it is in
  the array: the call fails with \<^verbatim>\<open>EEXIST\<close> if exclusive creation was asked for, with
  \<^verbatim>\<open>EACCES\<close> if a requested permission is missing from the entry, and otherwise returns it
  unchanged with status 0. When no entry has the key (or the key is private) the call fails with
  \<^verbatim>\<open>ENOENT\<close> without \<^verbatim>\<open>IPC_CREAT\<close>, with \<^verbatim>\<open>ENOSPC\<close> when every entry is in use, and otherwise
  claims the first free entry, with status 1.\<close>

theorem ipcget_complete:
  assumes "keys_unique ps"
  shows "(\<forall>i < length ps. matches key (ps ! i) \<longrightarrow> key \<noteq> IPC_PRIVATE \<longrightarrow>
      ipcget key flag cr ps =
        (if flag AND (IPC_CREAT OR IPC_EXCL) = IPC_CREAT OR IPC_EXCL then Inl EEXIST
         else if (flag AND PERM_BITS) AND NOT (ip_mode (ps ! i)) \<noteq> 0 then Inl EACCES
         else Inr (i, False, ps)))
    \<and> (key = IPC_PRIVATE \<or> (\<forall>p \<in> set ps. \<not> matches key p) \<longrightarrow>
      (if key \<noteq> IPC_PRIVATE \<and> flag AND IPC_CREAT = 0 then ipcget key flag cr ps = Inl ENOENT
       else if \<forall>p \<in> set ps. allocated p then ipcget key flag cr ps = Inl ENOSPC
       else \<exists>i. first_at (\<lambda>p. \<not> allocated p) ps i
              \<and> ipcget key flag cr ps = Inr (i, True, ps[i := ipc_init key flag cr (ps ! i)])))"
proof (intro conjI allI impI)
  fix i assume "i < length ps" "matches key (ps ! i)" "key \<noteq> IPC_PRIVATE"
  with assms show "ipcget key flag cr ps =
        (if flag AND (IPC_CREAT OR IPC_EXCL) = IPC_CREAT OR IPC_EXCL then Inl EEXIST
         else if (flag AND PERM_BITS) AND NOT (ip_mode (ps ! i)) \<noteq> 0 then Inl EACCES
         else Inr (i, False, ps))"
    by (intro ipcget_match first_match)
next
  assume no: "key = IPC_PRIVATE \<or> (\<forall>p \<in> set ps. \<not> matches key p)"
  show "if key \<noteq> IPC_PRIVATE \<and> flag AND IPC_CREAT = 0 then ipcget key flag cr ps = Inl ENOENT
       else if \<forall>p \<in> set ps. allocated p then ipcget key flag cr ps = Inl ENOSPC
       else \<exists>i. first_at (\<lambda>p. \<not> allocated p) ps i
              \<and> ipcget key flag cr ps = Inr (i, True, ps[i := ipc_init key flag cr (ps ! i)])"
  proof (cases "ipc_first_free 0 ps")
    case None
    then have "\<forall>p \<in> set ps. allocated p" by (simp add: ipc_first_free_None)
    with None show ?thesis unfolding ipcget_nomatch [OF no] by simp
  next
    case (Some i)
    then have "\<not> (\<forall>p \<in> set ps. allocated p)" by (metis ipc_first_free_None option.distinct(1))
    moreover have "first_at (\<lambda>p. \<not> allocated p) ps i" using Some by (simp add: ipc_first_free_iff)
    ultimately show ?thesis using Some unfolding ipcget_nomatch [OF no] by auto
  qed
qed

lemma example_keys: "keys_unique [example_perm, example_perm\<lparr>ip_mode := 0\<rparr>]"
  by (auto simp: keys_unique_def less_Suc_eq example_perm_def allocated_bit bit_simps)

theorem ipcget_complete_witness:
  "keys_unique [example_perm, example_perm\<lparr>ip_mode := 0\<rparr>]
   \<and> ipcget 5 256 example_cred [example_perm, example_perm\<lparr>ip_mode := 0\<rparr>]
      = Inr (0, False, [example_perm, example_perm\<lparr>ip_mode := 0\<rparr>])"
proof -
  let ?ps = "[example_perm, example_perm\<lparr>ip_mode := 0\<rparr>]"
  have m: "matches 5 (?ps ! 0)" and k: "(5 :: u32) \<noteq> IPC_PRIVATE"
    by (simp_all add: matches_def allocated_def example_perm_def ipc_consts)
  have "ipcget 5 256 example_cred ?ps =
        (if 256 AND (IPC_CREAT OR IPC_EXCL) = IPC_CREAT OR IPC_EXCL then Inl EEXIST
         else if (256 AND PERM_BITS) AND NOT (ip_mode (?ps ! 0)) \<noteq> 0 then Inl EACCES
         else Inr (0, False, ?ps))"
    using ipcget_complete [OF example_keys, of 5 256 example_cred] m k by auto
  also have "\<dots> = Inr (0, False, ?ps)" by (simp add: ipc_consts example_perm_def)
  finally show ?thesis using example_keys by blast
qed

text \<open>What every successful \<^verbatim>\<open>ipcget\<close> leaves behind: an index inside the array whose entry is
  in use and carries the key, every other entry untouched, an entry claimed only if it was free
  (so no facility is ever taken from another owner), the sequence number kept, and still at most
  one entry in use per public key.\<close>

theorem ipcget_safe:
  assumes "keys_unique ps" and "ipcget key flag cr ps = Inr (i, created, qs)"
  shows "i < length ps \<and> length qs = length ps \<and> matches key (qs ! i)
    \<and> ip_seq (qs ! i) = ip_seq (ps ! i) \<and> (\<forall>j. j \<noteq> i \<longrightarrow> qs ! j = ps ! j)
    \<and> (if created then \<not> allocated (ps ! i) else qs = ps) \<and> keys_unique qs"
  using ipcget_Inr [OF assms(2)] assms(1) by (simp add: matches_def)

theorem ipcget_safe_witness:
  "\<exists>i created qs. ipcget 9 (IPC_CREAT OR 384) example_cred [example_perm, example_perm\<lparr>ip_mode := 0\<rparr>]
      = Inr (i, created, qs) \<and> i = 1 \<and> created \<and> keys_unique qs"
proof -
  have "ipcget 9 (IPC_CREAT OR 384) example_cred [example_perm, example_perm\<lparr>ip_mode := 0\<rparr>]
      = Inr (1, True, [example_perm, ipc_init 9 (IPC_CREAT OR 384) example_cred (example_perm\<lparr>ip_mode := 0\<rparr>)])"
    by (simp add: ipcget_def allocated_def example_perm_def ipc_consts)
  with ipcget_safe [OF example_keys this] show ?thesis by blast
qed

end
