(* ===== verification/Sem.thy ===== *)
theory Sem
  imports Rmap Ipc
begin

text \<open>
  The semaphore facility: \<^verbatim>\<open>uts/i386/os/sem.c\<close> and \<^verbatim>\<open>sys/sem.h\<close>.

  The state record holds the static objects of the file. A pointer into \<^verbatim>\<open>sema[]\<close> or
  \<^verbatim>\<open>sem[]\<close> is an index; the undo structures of \<^verbatim>\<open>semu\<close> are numbered and each is the list of its
  \<^verbatim>\<open>un_cnt\<close> active entries; the chains through \<^verbatim>\<open>un_np\<close> from \<^verbatim>\<open>semunp\<close> and
  \<^verbatim>\<open>semfup\<close> are lists of such numbers (a structure is linked on at most one of them).
  \<^verbatim>\<open>wakeprocs\<close> is recorded in the field \<open>woken\<close>. \<^verbatim>\<open>ushort\<close> counters are integers with
  the wrap-around of a store written out. A call of \<^verbatim>\<open>sleep\<close> ends a step: \<open>semop_pass\<close> runs
  from the label \<^verbatim>\<open>check\<close> up to the next sleep or return and \<open>semop_resume\<close> continues after
  it, so that other processes' steps can come between. User memory is reached only through
  \<^verbatim>\<open>copyin\<close> and \<^verbatim>\<open>copyout\<close>, whose outcomes are arguments.
\<close>

unbundle bit_operations_syntax

section \<open>Data\<close>

record sem =
  semval :: int
  sempid :: int
  semncnt :: int
  semzcnt :: int

record semid_ds =
  sem_perm :: ipc_perm
  sem_base :: nat
  sem_nsems :: nat
  sem_otime :: int
  sem_ctime :: int
  sem_pad1 :: int
  sem_pad2 :: int
  sem_pad3 :: "int list"

record undo =
  un_aoe :: int
  un_num :: nat
  un_id :: int

record seminfo =
  si_semmap :: int
  semmni :: int
  semmns :: int
  semmnu :: int
  semmsl :: int
  semopm :: int
  semume :: int
  semvmx :: int
  semaem :: int

record sembuf =
  sem_num :: nat
  sem_op :: int
  sem_flg :: u32

definition SEM_UNDO :: u32 where "SEM_UNDO = 4096"   \<comment> \<open>010000\<close>
definition SEM_A :: u32 where "SEM_A = 128"          \<comment> \<open>0200\<close>
definition SEM_R :: u32 where "SEM_R = 256"          \<comment> \<open>0400\<close>

text \<open>The channels the facility sleeps on: \<^verbatim>\<open>&semp->semncnt\<close>, \<^verbatim>\<open>&semp->semzcnt\<close> and \<^verbatim>\<open>semmap\<close>.\<close>

datatype sem_chan = NCnt nat | ZCnt nat | SemMap

record semstate =
  sema :: "semid_ds list"
  sems :: "sem list"
  semmap :: rmap
  sem_undo :: "nat \<Rightarrow> nat option"
  semu :: "nat \<Rightarrow> undo list"
  semunp :: "nat list"
  semfup :: "nat list"
  woken :: "sem_chan list"

definition wake_sem :: "sem_chan \<Rightarrow> semstate \<Rightarrow> semstate" where
  "wake_sem c st = st\<lparr>woken := woken st @ [c]\<rparr>"

definition set_sem :: "nat \<Rightarrow> (sem \<Rightarrow> sem) \<Rightarrow> semstate \<Rightarrow> semstate" where
  "set_sem k f st = st\<lparr>sems := (sems st)[k := f (sems st ! k)]\<rparr>"

section \<open>Adjust-on-exit entries\<close>

text \<open>The search loop of \<^verbatim>\<open>semaoe\<close>: how many entries are before \<open>(sid, num)\<close>.\<close>

fun undo_pos :: "int \<Rightarrow> nat \<Rightarrow> undo list \<Rightarrow> nat" where
  "undo_pos sid num [] = 0"
| "undo_pos sid num (u # us) =
     (if un_id u < sid \<or> (un_id u = sid \<and> un_num u < num) then Suc (undo_pos sid num us) else 0)"

text \<open>The body of \<^verbatim>\<open>semaoe\<close> once the process has an undo structure \<open>up\<close>.\<close>

definition semaoe_entry ::
  "seminfo \<Rightarrow> nat \<Rightarrow> int \<Rightarrow> int \<Rightarrow> nat \<Rightarrow> semstate \<Rightarrow> errno option \<times> semstate" where
  "semaoe_entry info up val sid num st =
     (let us = semu st up; i = undo_pos sid num us in
      if \<not> (i < length us \<and> un_id (us ! i) = sid \<and> un_num (us ! i) = num) then
        (if int (length us) \<ge> semume info then (Some EINVAL, st)
         else
           (None, st\<lparr>semunp := (if us = [] then up # semunp st else semunp st),
                     semu := (semu st)(up := take i us
                        @ \<lparr>un_aoe = to_short (- val), un_num = num, un_id = sid\<rparr> # drop i us)\<rparr>))
      else
        (let aoe = to_short (un_aoe (us ! i) - val) in
         if aoe > semaem info \<or> aoe < - semaem info then
           (Some ERANGE, st\<lparr>semu := (semu st)(up := us[i := (us ! i)\<lparr>un_aoe := to_short (aoe + val)\<rparr>])\<rparr>)
         else if aoe = 0 then
           (let us' = take i us @ drop (Suc i) us in
            (None, st\<lparr>semu := (semu st)(up := us'),
                      semunp := (if us' = [] then remove1 up (semunp st) else semunp st)\<rparr>))
         else (None, st\<lparr>semu := (semu st)(up := us[i := (us ! i)\<lparr>un_aoe := aoe\<rparr>])\<rparr>)))"

definition semaoe ::
  "seminfo \<Rightarrow> nat \<Rightarrow> int \<Rightarrow> int \<Rightarrow> nat \<Rightarrow> semstate \<Rightarrow> errno option \<times> semstate" where
  "semaoe info slot val sid num st =
     (if val = 0 then (None, st)
      else if val > semaem info \<or> val < - semaem info then (Some ERANGE, st)
      else
        (case sem_undo st slot of
           Some up \<Rightarrow> semaoe_entry info up val sid num st
         | None \<Rightarrow>
             (case semfup st of
                [] \<Rightarrow> (Some ENOSPC, st)
              | up # rest \<Rightarrow>
                  semaoe_entry info up val sid num
                    (st\<lparr>semfup := rest, sem_undo := (sem_undo st)(slot := Some up)\<rparr>))))"

text \<open>The inner loop of \<^verbatim>\<open>semunrm\<close> over one structure.\<close>

fun semunrm_ents :: "int \<Rightarrow> nat \<Rightarrow> nat \<Rightarrow> undo list \<Rightarrow> undo list" where
  "semunrm_ents sid low high [] = []"
| "semunrm_ents sid low high (u # us) =
     (if sid < un_id u then u # us
      else if sid > un_id u \<or> low > un_num u then u # semunrm_ents sid low high us
      else if high < un_num u then u # us
      else semunrm_ents sid low high us)"

text \<open>The outer loop: along the chain, unlinking the structures that became empty.\<close>

fun semunrm_chain :: "(undo list \<Rightarrow> undo list) \<Rightarrow> nat list \<Rightarrow> (nat \<Rightarrow> undo list) \<Rightarrow> nat list \<times> (nat \<Rightarrow> undo list)" where
  "semunrm_chain f [] m = ([], m)"
| "semunrm_chain f (p # ps) m =
     (let us = f (m p); (ps', m') = semunrm_chain f ps (m(p := us))
      in (if us = [] then ps' else p # ps', m'))"

definition semunrm :: "int \<Rightarrow> nat \<Rightarrow> nat \<Rightarrow> semstate \<Rightarrow> semstate" where
  "semunrm sid low high st =
     (let (ps, m) = semunrm_chain (semunrm_ents sid low high) (semunp st) (semu st)
      in st\<lparr>semunp := ps, semu := m\<rparr>)"

text \<open>\<^verbatim>\<open>semundo\<close>; the operations are given in the order it visits them, the last one first.\<close>

fun semundo :: "seminfo \<Rightarrow> nat \<Rightarrow> int \<Rightarrow> nat \<Rightarrow> sembuf list \<Rightarrow> semstate \<Rightarrow> semstate" where
  "semundo info slot sid base [] st = st"
| "semundo info slot sid base (op # ops) st =
     (if sem_op op = 0 then semundo info slot sid base ops st
      else
        (let st1 = set_sem (base + sem_num op) (\<lambda>s. s\<lparr>semval := to_ushort (semval s - sem_op op)\<rparr>) st;
             st2 = (if sem_flg op AND SEM_UNDO \<noteq> 0
                    then snd (semaoe info slot (to_short (- sem_op op)) sid (sem_num op) st1) else st1)
         in semundo info slot sid base ops st2))"

section \<open>Identifiers\<close>

definition semconv :: "seminfo \<Rightarrow> int \<Rightarrow> semstate \<Rightarrow> errno + nat" where
  "semconv info s st =
     (if s < 0 then Inl EINVAL
      else
        (let i = nat (s mod semmni info); perm = sem_perm (sema st ! i) in
         if \<not> allocated perm \<or> of_int (s div semmni info) \<noteq> ip_seq perm then Inl EINVAL else Inr i))"

section \<open>\<^verbatim>\<open>semop\<close>\<close>

text \<open>
  The outcomes of a step of \<^verbatim>\<open>semop\<close>: an error, success, asleep on \<^verbatim>\<open>semncnt\<close> or \<^verbatim>\<open>semzcnt\<close> of
  a semaphore, or an access outside \<^verbatim>\<open>sem[]\<close>.
\<close>

datatype semop_res = SemErr errno | SemDone | SemSleepN nat | SemSleepZ nat | SemFault

text \<open>\<^verbatim>\<open>if (semp->semncnt) { semp->semncnt = 0; wakeprocs(...); }\<close> and its twin for \<^verbatim>\<open>semzcnt\<close>.\<close>

definition wake_ncnt :: "nat \<Rightarrow> semstate \<Rightarrow> semstate" where
  "wake_ncnt k st =
     (if semncnt (sems st ! k) \<noteq> 0
      then wake_sem (NCnt k) (set_sem k (\<lambda>s. s\<lparr>semncnt := 0\<rparr>) st) else st)"

definition wake_zcnt :: "nat \<Rightarrow> semstate \<Rightarrow> semstate" where
  "wake_zcnt k st =
     (if semzcnt (sems st ! k) \<noteq> 0 \<and> semval (sems st ! k) = 0
      then wake_sem (ZCnt k) (set_sem k (\<lambda>s. s\<lparr>semzcnt := 0\<rparr>) st) else st)"

definition add_semval :: "nat \<Rightarrow> int \<Rightarrow> semstate \<Rightarrow> semstate" where
  "add_semval k v st = set_sem k (\<lambda>s. s\<lparr>semval := to_ushort (semval s + v)\<rparr>) st"

text \<open>The undo bookkeeping of one operation: nothing without \<^verbatim>\<open>SEM_UNDO\<close>.\<close>

definition semop_aoe ::
  "seminfo \<Rightarrow> nat \<Rightarrow> int \<Rightarrow> sembuf \<Rightarrow> semstate \<Rightarrow> errno option \<times> semstate" where
  "semop_aoe info slot sid op st =
     (if sem_flg op AND SEM_UNDO \<noteq> 0 then semaoe info slot (sem_op op) sid (sem_num op) st
      else (None, st))"

text \<open>
  The loop from the label \<^verbatim>\<open>check\<close> on; \<open>dn\<close> holds the operations already performed, the
  last one first, which is what \<^verbatim>\<open>semundo\<close> has to take back.
\<close>

fun semop_loop ::
  "seminfo \<Rightarrow> nat \<Rightarrow> int \<Rightarrow> nat \<Rightarrow> sembuf list \<Rightarrow> sembuf list \<Rightarrow> semstate \<Rightarrow> semop_res \<times> semstate" where
  "semop_loop info slot sid base dn [] st = (SemDone, st)"
| "semop_loop info slot sid base dn (op # ops) st =
     (let k = base + sem_num op; v = semval (sems st ! k) in
      if length (sems st) \<le> k then (SemFault, st)
      else if sem_op op > 0 then
        (if sem_op op + v > semvmx info then (SemErr ERANGE, semundo info slot sid base dn st)
         else
           (case semop_aoe info slot sid op st of
              (Some e, st1) \<Rightarrow> (SemErr e, semundo info slot sid base dn st1)
            | (None, st1) \<Rightarrow>
                semop_loop info slot sid base (op # dn) ops
                  (wake_zcnt k (wake_ncnt k (add_semval k (sem_op op) st1)))))
      else if sem_op op < 0 then
        (if v \<ge> - sem_op op then
           (case semop_aoe info slot sid op st of
              (Some e, st1) \<Rightarrow> (SemErr e, semundo info slot sid base dn st1)
            | (None, st1) \<Rightarrow>
                semop_loop info slot sid base (op # dn) ops
                  (wake_zcnt k (add_semval k (sem_op op) st1)))
         else
           (let st1 = semundo info slot sid base dn st in
            if sem_flg op AND IPC_NOWAIT \<noteq> 0 then (SemErr EAGAIN, st1)
            else (SemSleepN k, set_sem k (\<lambda>s. s\<lparr>semncnt := to_ushort (semncnt s + 1)\<rparr>) st1)))
      else if v \<noteq> 0 then
        (let st1 = semundo info slot sid base dn st in
         if sem_flg op AND IPC_NOWAIT \<noteq> 0 then (SemErr EAGAIN, st1)
         else (SemSleepZ k, set_sem k (\<lambda>s. s\<lparr>semzcnt := to_ushort (semzcnt s + 1)\<rparr>) st1))
      else semop_loop info slot sid base (op # dn) ops st)"

text \<open>The final loop: record the process in every semaphore operated on.\<close>

fun semop_setpid :: "int \<Rightarrow> nat \<Rightarrow> sembuf list \<Rightarrow> semstate \<Rightarrow> semstate" where
  "semop_setpid pid base [] st = st"
| "semop_setpid pid base (op # ops) st =
     semop_setpid pid base ops (set_sem (base + sem_num op) (\<lambda>s. s\<lparr>sempid := pid\<rparr>) st)"

definition set_sema :: "nat \<Rightarrow> (semid_ds \<Rightarrow> semid_ds) \<Rightarrow> semstate \<Rightarrow> semstate" where
  "set_sema i f st = st\<lparr>sema := (sema st)[i := f (sema st ! i)]\<rparr>"

definition semop_pass ::
  "seminfo \<Rightarrow> uproc \<Rightarrow> int \<Rightarrow> int \<Rightarrow> nat \<Rightarrow> sembuf list \<Rightarrow> semstate \<Rightarrow> semop_res \<times> semstate" where
  "semop_pass info u now sid i ops st =
     (let base = sem_base (sema st ! i) in
      case semop_loop info (p_slot u) sid base [] ops st of
        (SemDone, st1) \<Rightarrow>
          (SemDone, set_sema i (\<lambda>sp. sp\<lparr>sem_otime := now\<rparr>) (semop_setpid (p_pid u) base ops st1))
      | (r, st1) \<Rightarrow> (r, st1))"

text \<open>The checks on the operation list: \<^verbatim>\<open>ipcaccess\<close> and the semaphore numbers.\<close>

fun semop_verify :: "ipc_perm \<Rightarrow> nat \<Rightarrow> cred \<Rightarrow> sembuf list \<Rightarrow> errno option" where
  "semop_verify perm nsems cr [] = None"
| "semop_verify perm nsems cr (op # ops) =
     (case ipcaccess perm (if sem_op op \<noteq> 0 then SEM_A else SEM_R) cr of
        Some e \<Rightarrow> Some e
      | None \<Rightarrow> if sem_num op \<ge> nsems then Some EFBIG else semop_verify perm nsems cr ops)"

text \<open>
  \<^verbatim>\<open>semop\<close> from its entry to the first sleep or return. \<open>uops\<close> is what \<^verbatim>\<open>copyin\<close> delivers of
  the operation list, \<open>None\<close> for a fault. The result also gives the index of the set.
\<close>

definition semop ::
  "seminfo \<Rightarrow> uproc \<Rightarrow> int \<Rightarrow> int \<Rightarrow> nat \<Rightarrow> sembuf list option \<Rightarrow> semstate \<Rightarrow> semop_res \<times> semstate" where
  "semop info u now sid nsops uops st =
     (case semconv info sid st of
        Inl e \<Rightarrow> (SemErr e, st)
      | Inr i \<Rightarrow>
          if int nsops > semopm info then (SemErr E2BIG, st)
          else
            (case uops of
               None \<Rightarrow> (SemErr EFAULT, st)
             | Some ops \<Rightarrow>
                 (case semop_verify (sem_perm (sema st ! i)) (sem_nsems (sema st ! i)) (u_cred u) ops of
                    Some e \<Rightarrow> (SemErr e, st)
                  | None \<Rightarrow> semop_pass info u now sid i ops st)))"

text \<open>
  After the sleep of a process that waited in set \<open>i\<close>: either it was interrupted and gives up its
  place in the count, or it starts again with a freshly copied operation list.
\<close>

definition semop_intr_n :: "nat \<Rightarrow> semstate \<Rightarrow> semop_res \<times> semstate" where
  "semop_intr_n k st =
     (let c = semncnt (sems st ! k) in
      if c \<le> 1 then (SemErr EINTR, wake_sem (NCnt k) (set_sem k (\<lambda>s. s\<lparr>semncnt := 0\<rparr>) st))
      else (SemErr EINTR, set_sem k (\<lambda>s. s\<lparr>semncnt := to_ushort (c - 1)\<rparr>) st))"

definition semop_intr_z :: "nat \<Rightarrow> semstate \<Rightarrow> semop_res \<times> semstate" where
  "semop_intr_z k st =
     (let c = semzcnt (sems st ! k) in
      if c \<le> 1 then (SemErr EINTR, wake_sem (ZCnt k) (set_sem k (\<lambda>s. s\<lparr>semzcnt := 0\<rparr>) st))
      else (SemErr EINTR, set_sem k (\<lambda>s. s\<lparr>semzcnt := to_ushort (c - 1)\<rparr>) st))"

definition semop_resume ::
  "seminfo \<Rightarrow> uproc \<Rightarrow> int \<Rightarrow> int \<Rightarrow> nat \<Rightarrow> sembuf list option \<Rightarrow> semstate \<Rightarrow> semop_res \<times> semstate" where
  "semop_resume info u now sid i uops st =
     (case semconv info sid st of
        Inl e \<Rightarrow> (SemErr EIDRM, st)
      | Inr j \<Rightarrow>
          (case uops of
             None \<Rightarrow> (SemErr EFAULT, st)
           | Some ops \<Rightarrow> semop_pass info u now sid i ops st))"

section \<open>\<^verbatim>\<open>semctl\<close>\<close>

datatype semcmd =
    CRmid | COSet | CSet | COStat | CStat | CGetncnt | CGetpid | CGetval | CGetall
  | CGetzcnt | CSetval | CSetall | CBad

text \<open>The command numbers of \<^verbatim>\<open>sys/ipc.h\<close> and \<^verbatim>\<open>sys/sem.h\<close>.\<close>

definition sem_cmd :: "int \<Rightarrow> semcmd" where
  "sem_cmd c =
     (if c = 0 \<or> c = 10 then CRmid else if c = 1 then COSet else if c = 11 then CSet
      else if c = 2 then COStat else if c = 12 then CStat else if c = 3 then CGetncnt
      else if c = 4 then CGetpid else if c = 5 then CGetval else if c = 6 then CGetall
      else if c = 7 then CGetzcnt else if c = 8 then CSetval else if c = 9 then CSetall else CBad)"

text \<open>The SVR3 structure that \<^verbatim>\<open>IPC_O_STAT\<close> fills in.\<close>

record o_semid_ds =
  os_perm :: o_ipc_perm
  os_nsems :: nat
  os_otime :: int
  os_ctime :: int

text \<open>What a successful \<^verbatim>\<open>semctl\<close> gives back: \<^verbatim>\<open>r_val1\<close>, or the object copied out.\<close>

datatype semctl_val = SVal int | SStat semid_ds | SOStat o_semid_ds | SVals "int list"

text \<open>
  The user's side of the argument: the permission part of the structure copied in, the values
  copied in for \<^verbatim>\<open>SETALL\<close>, the argument taken as a number, and which copies out succeed.
\<close>

record semctl_arg =
  a_perm :: "ipc_perm option"
  a_vals :: "int list option"
  a_int :: int
  a_out :: "nat \<Rightarrow> bool"

text \<open>The loop of \<^verbatim>\<open>IPC_RMID\<close> over the semaphores of the set.\<close>

definition sem_clear :: "nat \<Rightarrow> semstate \<Rightarrow> semstate" where
  "sem_clear k st =
     (let st1 = set_sem k (\<lambda>s. s\<lparr>semval := 0, sempid := 0\<rparr>) st;
          st2 = (if semncnt (sems st1 ! k) \<noteq> 0
                 then set_sem k (\<lambda>s. s\<lparr>semncnt := 0\<rparr>) (wake_sem (NCnt k) st1) else st1)
      in if semzcnt (sems st2 ! k) \<noteq> 0
         then set_sem k (\<lambda>s. s\<lparr>semzcnt := 0\<rparr>) (wake_sem (ZCnt k) st2) else st2)"

fun sem_clear_all :: "nat \<Rightarrow> nat \<Rightarrow> semstate \<Rightarrow> semstate" where
  "sem_clear_all k 0 st = st"
| "sem_clear_all k (Suc n) st = sem_clear_all (Suc k) n (sem_clear k st)"

text \<open>The result is \<open>None\<close> when \<^verbatim>\<open>rmfree\<close> would leave its array.\<close>

definition sem_rmid :: "seminfo \<Rightarrow> uproc \<Rightarrow> int \<Rightarrow> nat \<Rightarrow> semstate \<Rightarrow> ((errno + semctl_val) \<times> semstate) option" where
  "sem_rmid info u sid i st =
     (let sp = sema st ! i in
      if not_owner (u_cred u) (sem_perm sp) then Some (Inl EPERM, st)
      else
        (let st1 = sem_clear_all (sem_base sp) (sem_nsems sp) (semunrm sid 0 (sem_nsems sp) st);
             finish = set_sema i (\<lambda>sp. sp\<lparr>sem_perm := (sem_perm sp)
               \<lparr>ip_seq := (if sid + semmni info < 0 \<or> sid + semmni info > INT16_MAX then 0
                          else ip_seq (sem_perm sp) + 1), ip_mode := 0\<rparr>\<rparr>)
         in case rmfree (semmap st1) (of_nat (sem_nsems sp)) (of_nat (sem_base sp) + 1) of
              RmFault \<Rightarrow> None
            | RmLost mp \<Rightarrow> Some (Inr (SVal 0), finish (st1\<lparr>semmap := mp\<rparr>))
            | RmDone mp w \<Rightarrow>
                Some (Inr (SVal 0), finish
                  ((if w then wake_sem SemMap st1 else st1)\<lparr>semmap := mp\<rparr>))))"

text \<open>The assignments shared by \<^verbatim>\<open>IPC_O_SET\<close> and \<^verbatim>\<open>IPC_SET\<close>.\<close>

definition sem_setperm :: "int \<Rightarrow> ipc_perm \<Rightarrow> semid_ds \<Rightarrow> semid_ds" where
  "sem_setperm now new sp =
     sp\<lparr>sem_perm := (sem_perm sp)\<lparr>ip_uid := ip_uid new, ip_gid := ip_gid new,
          ip_mode := (ip_mode new AND PERM_BITS) OR IPC_ALLOC\<rparr>, sem_ctime := now\<rparr>"

definition sem_oset :: "uproc \<Rightarrow> int \<Rightarrow> nat \<Rightarrow> ipc_perm option \<Rightarrow> semstate \<Rightarrow> (errno + semctl_val) \<times> semstate" where
  "sem_oset u now i arg st =
     (if not_owner (u_cred u) (sem_perm (sema st ! i)) then (Inl EPERM, st)
      else case arg of
             None \<Rightarrow> (Inl EFAULT, st)
           | Some new \<Rightarrow>
               if uint (ip_uid new) > MAXUID \<or> uint (ip_gid new) > MAXUID then (Inl EINVAL, st)
               else (Inr (SVal 0), set_sema i (sem_setperm now new) st))"

definition sem_set :: "uproc \<Rightarrow> int \<Rightarrow> nat \<Rightarrow> ipc_perm option \<Rightarrow> semstate \<Rightarrow> (errno + semctl_val) \<times> semstate" where
  "sem_set u now i arg st =
     (if not_owner (u_cred u) (sem_perm (sema st ! i)) then (Inl EPERM, st)
      else case arg of
             None \<Rightarrow> (Inl EFAULT, st)
           | Some new \<Rightarrow>
               if sint (ip_uid new) < 0 \<or> sint (ip_uid new) > MAXUID
                  \<or> sint (ip_gid new) < 0 \<or> sint (ip_gid new) > MAXUID then (Inl EINVAL, st)
               else (Inr (SVal 0), set_sema i (sem_setperm now new) st))"

definition sem_ostat :: "uproc \<Rightarrow> nat \<Rightarrow> bool \<Rightarrow> semstate \<Rightarrow> (errno + semctl_val) \<times> semstate" where
  "sem_ostat u i out st =
     (let sp = sema st ! i; p = sem_perm sp in
      case ipcaccess p SEM_R (u_cred u) of
        Some e \<Rightarrow> (Inl e, st)
      | None \<Rightarrow>
          if sint (ip_uid p) > 65535 \<or> sint (ip_gid p) > 65535 \<or> sint (ip_cuid p) > 65535
             \<or> sint (ip_cgid p) > 65535 \<or> uint (ip_seq p) > 65535 then (Inl EOVERFLOW, st)
          else if \<not> out then (Inl EFAULT, st)
          else
            (Inr (SOStat \<lparr>os_perm = \<lparr>o_uid = ucast (ip_uid p), o_gid = ucast (ip_gid p),
                 o_cuid = ucast (ip_cuid p), o_cgid = ucast (ip_cgid p), o_mode = ucast (ip_mode p),
                 o_seq = ucast (ip_seq p), o_key = ip_key p\<rparr>,
               os_nsems = sem_nsems sp, os_otime = sem_otime sp, os_ctime = sem_ctime sp\<rparr>), st))"

definition sem_stat :: "uproc \<Rightarrow> nat \<Rightarrow> bool \<Rightarrow> semstate \<Rightarrow> (errno + semctl_val) \<times> semstate" where
  "sem_stat u i out st =
     (case ipcaccess (sem_perm (sema st ! i)) SEM_R (u_cred u) of
        Some e \<Rightarrow> (Inl e, st)
      | None \<Rightarrow> if \<not> out then (Inl EFAULT, st) else (Inr (SStat (sema st ! i)), st))"

text \<open>\<^verbatim>\<open>GETNCNT\<close>, \<^verbatim>\<open>GETPID\<close>, \<^verbatim>\<open>GETVAL\<close> and \<^verbatim>\<open>GETZCNT\<close> differ in the field they read.\<close>

definition sem_get1 :: "(sem \<Rightarrow> int) \<Rightarrow> uproc \<Rightarrow> nat \<Rightarrow> nat \<Rightarrow> semstate \<Rightarrow> (errno + semctl_val) \<times> semstate" where
  "sem_get1 field u i num st =
     (let sp = sema st ! i in
      case ipcaccess (sem_perm sp) SEM_R (u_cred u) of
        Some e \<Rightarrow> (Inl e, st)
      | None \<Rightarrow> if num \<ge> sem_nsems sp then (Inl EINVAL, st)
                else (Inr (SVal (field (sems st ! (sem_base sp + num)))), st))"

text \<open>\<^verbatim>\<open>GETALL\<close>: one copy out per semaphore.\<close>

definition sem_getall :: "uproc \<Rightarrow> nat \<Rightarrow> (nat \<Rightarrow> bool) \<Rightarrow> semstate \<Rightarrow> (errno + semctl_val) \<times> semstate" where
  "sem_getall u i out st =
     (let sp = sema st ! i in
      case ipcaccess (sem_perm sp) SEM_R (u_cred u) of
        Some e \<Rightarrow> (Inl e, st)
      | None \<Rightarrow>
          if \<exists>j < sem_nsems sp. \<not> out j then (Inl EFAULT, st)
          else (Inr (SVals (map (\<lambda>j. semval (sems st ! (sem_base sp + j))) [0..<sem_nsems sp])), st))"

text \<open>Storing a value and waking those it may let go on, as in \<^verbatim>\<open>SETVAL\<close> and \<^verbatim>\<open>SETALL\<close>.\<close>

definition sem_store :: "int \<Rightarrow> nat \<Rightarrow> int \<Rightarrow> semstate \<Rightarrow> semstate" where
  "sem_store pid k v st =
     (let st1 = set_sem k (\<lambda>s. s\<lparr>semval := to_ushort v\<rparr>) st;
          st2 = (if semval (sems st1 ! k) \<noteq> 0 then wake_ncnt k st1 else wake_zcnt k st1)
      in set_sem k (\<lambda>s. s\<lparr>sempid := pid\<rparr>) st2)"

definition sem_setval :: "seminfo \<Rightarrow> uproc \<Rightarrow> int \<Rightarrow> nat \<Rightarrow> nat \<Rightarrow> int \<Rightarrow> semstate \<Rightarrow> (errno + semctl_val) \<times> semstate" where
  "sem_setval info u sid i num v st =
     (let sp = sema st ! i in
      case ipcaccess (sem_perm sp) SEM_A (u_cred u) of
        Some e \<Rightarrow> (Inl e, st)
      | None \<Rightarrow>
          if num \<ge> sem_nsems sp then (Inl EINVAL, st)
          else if v < 0 \<or> v > semvmx info then (Inl ERANGE, st)
          else (Inr (SVal 0), semunrm sid num num (sem_store (p_pid u) (sem_base sp + num) v st)))"

fun sem_store_all :: "int \<Rightarrow> nat \<Rightarrow> int list \<Rightarrow> semstate \<Rightarrow> semstate" where
  "sem_store_all pid k [] st = st"
| "sem_store_all pid k (v # vs) st = sem_store_all pid (Suc k) vs (sem_store pid k v st)"

definition sem_setall :: "seminfo \<Rightarrow> uproc \<Rightarrow> int \<Rightarrow> nat \<Rightarrow> int list option \<Rightarrow> semstate \<Rightarrow> (errno + semctl_val) \<times> semstate" where
  "sem_setall info u sid i arg st =
     (let sp = sema st ! i in
      case ipcaccess (sem_perm sp) SEM_A (u_cred u) of
        Some e \<Rightarrow> (Inl e, st)
      | None \<Rightarrow>
          (case arg of
             None \<Rightarrow> (Inl EFAULT, st)
           | Some vs \<Rightarrow>
               if \<exists>v \<in> set vs. v > semvmx info then (Inl ERANGE, st)
               else (Inr (SVal 0),
                     sem_store_all (p_pid u) (sem_base sp) vs (semunrm sid 0 (sem_nsems sp) st))))"

definition semctl ::
  "seminfo \<Rightarrow> uproc \<Rightarrow> int \<Rightarrow> int \<Rightarrow> nat \<Rightarrow> int \<Rightarrow> semctl_arg \<Rightarrow> semstate \<Rightarrow> ((errno + semctl_val) \<times> semstate) option" where
  "semctl info u now sid num cmd arg st =
     (case semconv info sid st of
        Inl e \<Rightarrow> Some (Inl e, st)
      | Inr i \<Rightarrow>
          (case sem_cmd cmd of
             CRmid \<Rightarrow> sem_rmid info u sid i st
           | COSet \<Rightarrow> Some (sem_oset u now i (a_perm arg) st)
           | CSet \<Rightarrow> Some (sem_set u now i (a_perm arg) st)
           | COStat \<Rightarrow> Some (sem_ostat u i (a_out arg 0) st)
           | CStat \<Rightarrow> Some (sem_stat u i (a_out arg 0) st)
           | CGetncnt \<Rightarrow> Some (sem_get1 semncnt u i num st)
           | CGetpid \<Rightarrow> Some (sem_get1 sempid u i num st)
           | CGetval \<Rightarrow> Some (sem_get1 semval u i num st)
           | CGetall \<Rightarrow> Some (sem_getall u i (a_out arg) st)
           | CGetzcnt \<Rightarrow> Some (sem_get1 semzcnt u i num st)
           | CSetval \<Rightarrow> Some (sem_setval info u sid i num (a_int arg) st)
           | CSetall \<Rightarrow> Some (sem_setall info u sid i (a_vals arg) st)
           | CBad \<Rightarrow> Some (Inl EINVAL, st)))"

section \<open>\<^verbatim>\<open>semexit\<close>, \<^verbatim>\<open>semget\<close>, \<^verbatim>\<open>seminit\<close>\<close>

text \<open>One round of the loop of \<^verbatim>\<open>semexit\<close>.\<close>

definition semexit_ent :: "seminfo \<Rightarrow> undo \<Rightarrow> semstate \<Rightarrow> semstate" where
  "semexit_ent info e st =
     (case semconv info (un_id e) st of
        Inl _ \<Rightarrow> st
      | Inr i \<Rightarrow>
          (let k = sem_base (sema st ! i) + un_num e; v = semval (sems st ! k) + un_aoe e in
           if v < 0 \<or> v > semvmx info then st
           else
             (let st1 = set_sem k (\<lambda>s. s\<lparr>semval := to_ushort v\<rparr>) st;
                  st2 = (if v = 0 \<and> semzcnt (sems st1 ! k) \<noteq> 0
                         then wake_sem (ZCnt k) (set_sem k (\<lambda>s. s\<lparr>semzcnt := 0\<rparr>) st1) else st1)
              in if un_aoe e > 0 then wake_ncnt k st2 else st2)))"

text \<open>The entries are visited from the last to the first.\<close>

definition semexit :: "seminfo \<Rightarrow> nat \<Rightarrow> semstate \<Rightarrow> semstate" where
  "semexit info slot st =
     (case sem_undo st slot of
        None \<Rightarrow> st
      | Some up \<Rightarrow>
          (let st1 = (if semu st up = [] then st
                      else (foldr (semexit_ent info) (semu st up) st)
                             \<lparr>semu := (semu st)(up := []), semunp := remove1 up (semunp st)\<rparr>)
           in st1\<lparr>semfup := up # semfup st1, sem_undo := (sem_undo st1)(slot := None)\<rparr>))"

text \<open>\<^verbatim>\<open>(struct ipc_perm *)sema\<close>: the permission structures seen by \<^verbatim>\<open>ipcget\<close>.\<close>

definition set_perms :: "ipc_perm list \<Rightarrow> semid_ds list \<Rightarrow> semid_ds list" where
  "set_perms ps sp = map2 (\<lambda>p s. s\<lparr>sem_perm := p\<rparr>) ps sp"

text \<open>\<^verbatim>\<open>sem_nsems\<close> is an \<^verbatim>\<open>ushort\<close>: the assignment keeps 16 bits of the number asked for.\<close>

definition semget ::
  "seminfo \<Rightarrow> uproc \<Rightarrow> int \<Rightarrow> u32 \<Rightarrow> int \<Rightarrow> u32 \<Rightarrow> semstate \<Rightarrow> ((errno + u32) \<times> semstate) option" where
  "semget info u now key nsems flg st =
     (case ipcget key flg (u_cred u) (map sem_perm (sema st)) of
        Inl e \<Rightarrow> Some (Inl e, st)
      | Inr (i, created, ps) \<Rightarrow>
          (let st1 = st\<lparr>sema := set_perms ps (sema st)\<rparr>;
               fail = set_sema i (\<lambda>sp. sp\<lparr>sem_perm := (sem_perm sp)\<lparr>ip_mode := 0\<rparr>\<rparr>);
               semid = (\<lambda>st. ip_seq (sem_perm (sema st ! i)) * of_int (semmni info) + of_nat i) in
           if created then
             (if nsems \<le> 0 \<or> nsems > semmsl info then Some (Inl EINVAL, fail st1)
              else
                (case rmalloc (semmap st1) (of_int nsems) of
                   None \<Rightarrow> None
                 | Some (a, mp) \<Rightarrow>
                     if a = 0 then Some (Inl ENOSPC, fail (st1\<lparr>semmap := mp\<rparr>))
                     else
                       (let st2 = set_sema i (\<lambda>sp. sp\<lparr>sem_base := unat (a - 1), sem_nsems := nat (nsems mod 65536),
                                   sem_ctime := now, sem_otime := 0,
                                   sem_perm := (sem_perm sp)\<lparr>ip_pad := [0, 0, 0, 0]\<rparr>,
                                   sem_pad1 := 0, sem_pad2 := 0, sem_pad3 := [0, 0, 0, 0]\<rparr>)
                                   (st1\<lparr>semmap := mp\<rparr>)
                        in Some (Inr (semid st2), st2))))
           else if nsems \<noteq> 0 \<and> int (sem_nsems (sema st1 ! i)) < nsems mod 2 ^ 32 then Some (Inl EINVAL, st1)
           else Some (Inr (semid st1), st1)))"

text \<open>\<^verbatim>\<open>seminit\<close>: the map of free semaphores and the chain of free undo structures.\<close>

definition seminit :: "seminfo \<Rightarrow> semstate \<Rightarrow> semstate option" where
  "seminit info st =
     (case rmfree (mapinit (nat (si_semmap info))) (of_int (semmns info)) 1 of
        RmFault \<Rightarrow> None
      | RmLost mp \<Rightarrow> Some (st\<lparr>semmap := mp, semfup := [0..<max 1 (nat (semmnu info))]\<rparr>)
      | RmDone mp w \<Rightarrow> Some (st\<lparr>semmap := mp, semfup := [0..<max 1 (nat (semmnu info))]\<rparr>))"

end
