(* ===== verification/Sem_Atomic.thy ===== *)
theory Sem_Atomic
  imports Sem
begin

text \<open>
  Correctness of the semaphore operations: the adjust-on-exit entries as a pure function on one
  process's entry list, the invariant of the undo structures, the fact that \<^verbatim>\<open>semundo\<close> inverts
  what \<^verbatim>\<open>semop\<close> did, and from these the all-or-nothing behaviour of \<^verbatim>\<open>semop\<close> and the effect
  of \<^verbatim>\<open>semexit\<close>.
\<close>

section \<open>Entry lists\<close>

definition before :: "undo \<Rightarrow> undo \<Rightarrow> bool" where
  "before u v \<longleftrightarrow> un_id u < un_id v \<or> (un_id u = un_id v \<and> un_num u < un_num v)"

definition us_ok :: "seminfo \<Rightarrow> undo list \<Rightarrow> bool" where
  "us_ok info us \<longleftrightarrow>
     sorted_wrt before us \<and> int (length us) \<le> semume info
     \<and> (\<forall>u \<in> set us. un_aoe u \<noteq> 0 \<and> \<bar>un_aoe u\<bar> \<le> semaem info)"

text \<open>The limits of the configuration the proofs rely on: \<^verbatim>\<open>SEMAEM\<close> is 16384, \<^verbatim>\<open>SEMVMX\<close> 32767.\<close>

definition info_ok :: "seminfo \<Rightarrow> bool" where
  "info_ok info \<longleftrightarrow>
     0 < semmni info \<and> 0 \<le> semume info \<and> 0 \<le> semaem info \<and> semaem info \<le> 16384
     \<and> 0 \<le> semvmx info \<and> semvmx info \<le> 32767"

text \<open>\<^verbatim>\<open>semaoe\<close> on the entries of one process.\<close>

definition aoe_upd :: "seminfo \<Rightarrow> int \<Rightarrow> int \<Rightarrow> nat \<Rightarrow> undo list \<Rightarrow> errno + undo list" where
  "aoe_upd info val sid num us =
     (if val = 0 then Inr us
      else if val > semaem info \<or> val < - semaem info then Inl ERANGE
      else
        (let i = undo_pos sid num us in
         if \<not> (i < length us \<and> un_id (us ! i) = sid \<and> un_num (us ! i) = num) then
           (if int (length us) \<ge> semume info then Inl EINVAL
            else Inr (take i us @ \<lparr>un_aoe = - val, un_num = num, un_id = sid\<rparr> # drop i us))
         else
           (let aoe = un_aoe (us ! i) - val in
            if \<bar>aoe\<bar> > semaem info then Inl ERANGE
            else if aoe = 0 then Inr (take i us @ drop (Suc i) us)
            else Inr (us[i := (us ! i)\<lparr>un_aoe := aoe\<rparr>]))))"

text \<open>A sorted entry list splits at the position the search stops.\<close>

lemma undo_pos_append:
  "\<forall>u \<in> set xs. un_id u < sid \<or> (un_id u = sid \<and> un_num u < num) \<Longrightarrow>
   undo_pos sid num (xs @ ys) = length xs + undo_pos sid num ys"
  by (induction xs) auto

lemma undo_pos_all:
  "\<forall>u \<in> set xs. un_id u < sid \<or> (un_id u = sid \<and> un_num u < num) \<Longrightarrow> undo_pos sid num xs = length xs"
  using undo_pos_append [of xs sid num "[]"] by simp

lemma undo_split:
  assumes "sorted_wrt before us"
  obtains (found) xs u ys where "us = xs @ u # ys" "un_id u = sid" "un_num u = num" "undo_pos sid num us = length xs"
      "\<forall>x \<in> set xs. un_id x < sid \<or> (un_id x = sid \<and> un_num x < num)"
  | (missing) xs ys where "us = xs @ ys" "undo_pos sid num us = length xs"
      "\<forall>x \<in> set xs. un_id x < sid \<or> (un_id x = sid \<and> un_num x < num)"
      "\<forall>y \<in> set ys. sid < un_id y \<or> (sid = un_id y \<and> num < un_num y)"
proof -
  let ?P = "\<lambda>u. un_id u < sid \<or> (un_id u = sid \<and> un_num u < num)"
  define xs where "xs = takeWhile ?P us"
  define ys where "ys = dropWhile ?P us"
  have us: "us = xs @ ys" by (simp add: xs_def ys_def)
  have px: "\<forall>x \<in> set xs. ?P x" unfolding xs_def by (auto dest: set_takeWhileD)
  show thesis
  proof (cases ys)
    case Nil
    then have nil: "us = xs @ []" using us by simp
    have "undo_pos sid num us = length xs" unfolding nil append_Nil2 by (rule undo_pos_all [OF px])
    then show thesis using px by (rule missing [OF nil]) simp
  next
    case (Cons y zs)
    have "ys \<noteq> []" using Cons by simp
    then have "\<not> ?P (hd ys)" unfolding ys_def by (rule hd_dropWhile)
    then have ny: "\<not> ?P y" unfolding Cons list.sel .
    have pos: "undo_pos sid num us = length xs" using us Cons px ny by (simp add: undo_pos_append)
    have after: "\<forall>z \<in> set zs. before y z" using assms us Cons by (simp add: sorted_wrt_append)
    show thesis
    proof (cases "un_id y = sid \<and> un_num y = num")
      case True
      with us Cons px pos show thesis by (intro found [of xs y zs]) auto
    next
      case False
      with ny have "sid < un_id y \<or> (sid = un_id y \<and> num < un_num y)" by linarith
      with after Cons have "\<forall>z \<in> set ys. sid < un_id z \<or> (sid = un_id z \<and> num < un_num z)"
        by (auto simp: before_def)
      with us px pos show thesis by (intro missing [of xs ys]) auto
    qed
  qed
qed

lemmas undo_split_cases = undo_split [case_names found missing]

text \<open>The two shapes of a successful update, with the split made explicit.\<close>

lemma aoe_upd_found:
  assumes "us = xs @ u # ys" "un_id u = sid" "un_num u = num" "undo_pos sid num us = length xs"
    and "val \<noteq> 0" "\<bar>val\<bar> \<le> semaem info"
  shows "aoe_upd info val sid num us =
    (if \<bar>un_aoe u - val\<bar> > semaem info then Inl ERANGE
     else if un_aoe u = val then Inr (xs @ ys) else Inr (xs @ u\<lparr>un_aoe := un_aoe u - val\<rparr> # ys))"
  using assms by (auto simp: aoe_upd_def Let_def)

lemma aoe_upd_missing:
  assumes "us = xs @ ys" "undo_pos sid num us = length xs"
    and "\<forall>y \<in> set ys. sid < un_id y \<or> (sid = un_id y \<and> num < un_num y)"
    and "val \<noteq> 0" "\<bar>val\<bar> \<le> semaem info"
  shows "aoe_upd info val sid num us =
    (if int (length us) \<ge> semume info then Inl EINVAL
     else Inr (xs @ \<lparr>un_aoe = - val, un_num = num, un_id = sid\<rparr> # ys))"
proof -
  have "\<not> (length xs < length us \<and> un_id (us ! length xs) = sid \<and> un_num (us ! length xs) = num)"
    using assms(1,3) by (cases ys) (auto simp: nth_append)
  then show ?thesis using assms(1,2,4,5) by (auto simp: aoe_upd_def Let_def)
qed

text \<open>The adjustment recorded for a semaphore.\<close>

fun aoe_of :: "undo list \<Rightarrow> int \<Rightarrow> nat \<Rightarrow> int" where
  "aoe_of [] sid num = 0"
| "aoe_of (u # us) sid num = (if un_id u = sid \<and> un_num u = num then un_aoe u else aoe_of us sid num)"

lemma aoe_of_skip:
  "\<forall>x \<in> set xs. \<not> (un_id x = sid \<and> un_num x = num) \<Longrightarrow> aoe_of (xs @ ys) sid num = aoe_of ys sid num"
  by (induction xs) auto

lemma aoe_of_none: "\<forall>x \<in> set xs. \<not> (un_id x = sid \<and> un_num x = num) \<Longrightarrow> aoe_of xs sid num = 0"
  using aoe_of_skip [of xs sid num "[]"] by simp

lemma aoe_of_other:
  "\<not> (un_id u = sid \<and> un_num u = num) \<Longrightarrow> aoe_of (xs @ u # ys) sid num = aoe_of (xs @ ys) sid num"
  by (induction xs) auto

text \<open>
  What a successful update guarantees: the list stays well-formed, exactly the one adjustment
  changes by \<open>val\<close>, and the opposite update restores the very same list.
\<close>

definition aoe_step :: "seminfo \<Rightarrow> int \<Rightarrow> int \<Rightarrow> nat \<Rightarrow> undo list \<Rightarrow> undo list \<Rightarrow> bool" where
  "aoe_step info val sid num us us' \<longleftrightarrow>
     us_ok info us'
     \<and> (\<forall>i n. aoe_of us' i n = (if i = sid \<and> n = num then aoe_of us sid num - val else aoe_of us i n))
     \<and> aoe_upd info (- val) sid num us' = Inr us"

lemma aoe_step_removed:
  assumes ok: "us_ok info us" and us: "us = xs @ u # ys" and u: "un_id u = sid" "un_num u = num" "un_aoe u = val"
    and below: "\<forall>x \<in> set xs. un_id x < sid \<or> (un_id x = sid \<and> un_num x < num)"
    and above: "\<forall>y \<in> set ys. sid < un_id y \<or> (sid = un_id y \<and> num < un_num y)"
    and val: "val \<noteq> 0" "\<bar>val\<bar> \<le> semaem info"
  shows "aoe_step info val sid num us (xs @ ys)"
proof -
  have pos: "undo_pos sid num (xs @ ys) = length xs"
    using below above by (cases ys) (auto simp: undo_pos_append undo_pos_all)
  have "\<lparr>un_aoe = val, un_num = num, un_id = sid\<rparr> = u" using u by simp
  moreover have "int (length (xs @ ys)) < semume info" using ok us by (simp add: us_ok_def)
  ultimately have "aoe_upd info (- val) sid num (xs @ ys) = Inr us"
    using aoe_upd_missing [OF refl pos above, of "- val" info] val us by simp
  moreover have "us_ok info (xs @ ys)" using ok us by (auto simp: us_ok_def sorted_wrt_append)
  moreover have nx: "\<forall>x \<in> set (xs @ ys). \<not> (un_id x = sid \<and> un_num x = num)" using below above by fastforce
  then have "aoe_of (xs @ ys) sid num = 0" and "aoe_of us sid num = val"
    using us u by (auto intro!: aoe_of_none simp: aoe_of_skip)
  ultimately show ?thesis
    using us u aoe_of_other [of u _ _ xs ys] by (auto simp: aoe_step_def)
qed

lemma aoe_step_changed:
  assumes ok: "us_ok info us" and us: "us = xs @ u # ys" and u: "un_id u = sid" "un_num u = num" "un_aoe u \<noteq> val"
    and below: "\<forall>x \<in> set xs. un_id x < sid \<or> (un_id x = sid \<and> un_num x < num)"
    and val: "val \<noteq> 0" "\<bar>val\<bar> \<le> semaem info" "\<bar>un_aoe u - val\<bar> \<le> semaem info"
  shows "aoe_step info val sid num us (xs @ u\<lparr>un_aoe := un_aoe u - val\<rparr> # ys)"
proof -
  define w where "w = u\<lparr>un_aoe := un_aoe u - val\<rparr>"
  have w: "un_id w = sid" "un_num w = num" "un_aoe w = un_aoe u - val" using u by (simp_all add: w_def)
  have uo: "un_aoe u \<noteq> 0" "\<bar>un_aoe u\<bar> \<le> semaem info" using ok us by (auto simp: us_ok_def)
  have pos: "undo_pos sid num (xs @ w # ys) = length xs" using below w by (auto simp: undo_pos_append)
  have "w\<lparr>un_aoe := un_aoe w - - val\<rparr> = u" using w by (simp add: w_def)
  then have "aoe_upd info (- val) sid num (xs @ w # ys) = Inr us"
    using aoe_upd_found [OF refl w(1,2) pos, of "- val" info] val uo w us by auto
  moreover have "us_ok info (xs @ w # ys)"
    using ok us u w val by (auto simp: us_ok_def sorted_wrt_append before_def)
  moreover have nx: "\<forall>x \<in> set xs. \<not> (un_id x = sid \<and> un_num x = num)" using below by fastforce
  then have "aoe_of (xs @ w # ys) sid num = un_aoe u - val" and "aoe_of us sid num = un_aoe u"
    using us u w by (auto simp: aoe_of_skip)
  ultimately show ?thesis
    using us u w aoe_of_other [of u _ _ xs ys] aoe_of_other [of w _ _ xs ys]
    by (auto simp: aoe_step_def w_def [symmetric])
qed

lemma aoe_step_inserted:
  assumes ok: "us_ok info us" and us: "us = xs @ ys" and len: "int (length us) < semume info"
    and below: "\<forall>x \<in> set xs. un_id x < sid \<or> (un_id x = sid \<and> un_num x < num)"
    and above: "\<forall>y \<in> set ys. sid < un_id y \<or> (sid = un_id y \<and> num < un_num y)"
    and val: "val \<noteq> 0" "\<bar>val\<bar> \<le> semaem info"
  shows "aoe_step info val sid num us (xs @ \<lparr>un_aoe = - val, un_num = num, un_id = sid\<rparr> # ys)"
proof -
  define w where "w = \<lparr>un_aoe = - val, un_num = num, un_id = sid\<rparr>"
  have w: "un_id w = sid" "un_num w = num" "un_aoe w = - val" by (simp_all add: w_def)
  have pos: "undo_pos sid num (xs @ w # ys) = length xs" using below w by (auto simp: undo_pos_append)
  have "aoe_upd info (- val) sid num (xs @ w # ys) = Inr us"
    using aoe_upd_found [OF refl w(1,2) pos, of "- val" info] val w us by auto
  moreover have "us_ok info (xs @ w # ys)"
    using ok us below above w val len by (auto simp: us_ok_def sorted_wrt_append before_def)
  moreover have "\<forall>x \<in> set us. \<not> (un_id x = sid \<and> un_num x = num)" using us below above by fastforce
  then have "aoe_of us sid num = 0" and "aoe_of (xs @ w # ys) sid num = - val"
    using us w by (auto intro!: aoe_of_none simp: aoe_of_skip)
  ultimately show ?thesis
    using us w aoe_of_other [of w _ _ xs ys] by (auto simp: aoe_step_def w_def [symmetric])
qed

lemma aoe_upd_ok:
  assumes ok: "us_ok info us" and r: "aoe_upd info val sid num us = Inr us'"
  shows "aoe_step info val sid num us us'"
proof (cases "val = 0")
  case True
  with ok r show ?thesis by (auto simp: aoe_upd_def aoe_step_def)
next
  case nz: False
  with r have range: "\<bar>val\<bar> \<le> semaem info" by (auto simp: aoe_upd_def split: if_splits)
  have s: "sorted_wrt before us" using ok by (simp add: us_ok_def)
  then show ?thesis
  proof (cases rule: undo_split_cases [where sid = sid and num = num])
    case (found xs u ys)
    then have "\<forall>y \<in> set ys. sid < un_id y \<or> (sid = un_id y \<and> num < un_num y)"
      using s by (auto simp: sorted_wrt_append before_def)
    with found ok nz range r aoe_upd_found [OF found(1-4) nz range] show ?thesis
      by (auto split: if_splits intro!: aoe_step_removed aoe_step_changed)
  next
    case (missing xs ys)
    with ok nz range r aoe_upd_missing [OF missing(1,2,4) nz range] show ?thesis
      by (auto split: if_splits intro!: aoe_step_inserted)
  qed
qed

section \<open>The undo structures\<close>

text \<open>The entries of the process in a slot of the process table.\<close>

definition ents :: "semstate \<Rightarrow> nat \<Rightarrow> undo list" where
  "ents st slot = (case sem_undo st slot of None \<Rightarrow> [] | Some up \<Rightarrow> semu st up)"

text \<open>
  The invariant of the undo structures: well-formed entry lists, no structure shared by two
  processes, free structures empty and unassigned, and the active chain holding exactly the
  structures with entries.
\<close>

definition undo_ok :: "seminfo \<Rightarrow> semstate \<Rightarrow> bool" where
  "undo_ok info st \<longleftrightarrow>
     (\<forall>up. us_ok info (semu st up))
     \<and> (\<forall>s s' up. sem_undo st s = Some up \<longrightarrow> sem_undo st s' = Some up \<longrightarrow> s = s')
     \<and> distinct (semfup st) \<and> (\<forall>up \<in> set (semfup st). semu st up = [] \<and> up \<notin> ran (sem_undo st))
     \<and> distinct (semunp st) \<and> (\<forall>up. up \<in> set (semunp st) \<longleftrightarrow> semu st up \<noteq> [])"

lemma undo_okD:
  assumes "undo_ok info st"
  shows "us_ok info (semu st up)" and "us_ok info (ents st slot)"
    and "\<lbrakk>sem_undo st s = Some up; sem_undo st s' = Some up\<rbrakk> \<Longrightarrow> s = s'"
proof -
  show *: "us_ok info (semu st up)" for up using assms by (simp add: undo_ok_def)
  from *[of "the (sem_undo st slot)"] show "us_ok info (ents st slot)"
    by (cases "sem_undo st slot") (auto simp: ents_def us_ok_def)
  show "\<lbrakk>sem_undo st s = Some up; sem_undo st s' = Some up\<rbrakk> \<Longrightarrow> s = s'"
    using assms unfolding undo_ok_def by blast
qed

definition put_ents :: "nat \<Rightarrow> undo list \<Rightarrow> semstate \<Rightarrow> semstate" where
  "put_ents up us' st =
     st\<lparr>semu := (semu st)(up := us'),
        semunp := (if semu st up = [] then (if us' = [] then semunp st else up # semunp st)
                   else if us' = [] then remove1 up (semunp st) else semunp st)\<rparr>"

lemma put_ents_same: "put_ents up (semu st up) st = st"
  by (simp add: put_ents_def)

lemma put_ents_frame [simp]:
  "sems (put_ents up us st) = sems st" "sema (put_ents up us st) = sema st"
  "semmap (put_ents up us st) = semmap st" "woken (put_ents up us st) = woken st"
  "sem_undo (put_ents up us st) = sem_undo st" "semfup (put_ents up us st) = semfup st"
  "semu (put_ents up us st) = (semu st)(up := us)"
  by (simp_all add: put_ents_def)

lemma put_ents_ok:
  assumes "undo_ok info st" and "us_ok info us" and "up \<notin> set (semfup st)"
  shows "undo_ok info (put_ents up us st)"
  using assms unfolding undo_ok_def put_ents_def
  by (auto simp: fun_upd_apply)

lemma semaoe_entry_eq:
  assumes info: "info_ok info" and us: "us_ok info (semu st up)" and val: "val \<noteq> 0" "\<bar>val\<bar> \<le> semaem info"
  shows "semaoe_entry info up val sid num st =
    (case aoe_upd info val sid num (semu st up) of
       Inl e \<Rightarrow> (Some e, st) | Inr us' \<Rightarrow> (None, put_ents up us' st))"
proof -
  have M: "semaem info \<le> 16384" using info by (simp add: info_ok_def)
  have neg: "to_short (- val) = - val" using val M by (intro to_short_id) auto
  have s: "sorted_wrt before (semu st up)" using us by (simp add: us_ok_def)
  then show ?thesis
  proof (cases rule: undo_split_cases [where sid = sid and num = num])
    case (found xs u ys)
    have u: "\<bar>un_aoe u\<bar> \<le> semaem info" using us found(1) by (auto simp: us_ok_def)
    have restore: "to_short (to_short (un_aoe u - val) + val) = un_aoe u"
      unfolding to_short_diff_add using u M by (intro to_short_id) auto
    have range: "to_short (un_aoe u - val) > semaem info \<or> to_short (un_aoe u - val) < - semaem info
        \<longleftrightarrow> \<bar>un_aoe u - val\<bar> > semaem info"
      and small: "\<bar>un_aoe u - val\<bar> \<le> semaem info \<Longrightarrow> to_short (un_aoe u - val) = un_aoe u - val"
      using to_short_sum [OF u, of "- val"] val M by simp_all
    have st: "st\<lparr>semu := (semu st)(up := xs @ u # ys)\<rparr> = st" using found(1) by (simp flip: found(1))
    show ?thesis
      using aoe_upd_found [OF found(1-4) val] found(1-4) restore range small st
      by (auto simp: semaoe_entry_def Let_def put_ents_def)
  next
    case (missing xs ys)
    then have "\<not> (length xs < length (semu st up) \<and> un_id (semu st up ! length xs) = sid
        \<and> un_num (semu st up ! length xs) = num)"
      by (cases ys) (auto simp: nth_append)
    with aoe_upd_missing [OF missing(1,2,4) val] missing(1,2) neg show ?thesis
      by (auto simp: semaoe_entry_def Let_def put_ents_def)
  qed
qed

text \<open>Taking a free undo structure for a process that has none changes no entries.\<close>

definition grab :: "nat \<Rightarrow> nat \<Rightarrow> nat list \<Rightarrow> semstate \<Rightarrow> semstate" where
  "grab slot up rest st = st\<lparr>semfup := rest, sem_undo := (sem_undo st)(slot := Some up)\<rparr>"

lemma grab_ok:
  assumes ok: "undo_ok info st" and none: "sem_undo st slot = None" and fup: "semfup st = up # rest"
  shows "undo_ok info (grab slot up rest st)" and "ents (grab slot up rest st) s = ents st s"
    and "up \<notin> set (semfup (grab slot up rest st))" and "semu st up = []"
proof -
  have up: "semu st up = []" "up \<notin> ran (sem_undo st)" "up \<notin> set rest"
    using ok fup by (auto simp: undo_ok_def)
  then show "up \<notin> set (semfup (grab slot up rest st))" and "semu st up = []" by (simp_all add: grab_def)
  show "ents (grab slot up rest st) s = ents st s" using none up by (simp add: grab_def ents_def split: option.split)
  have other: "sem_undo st s \<noteq> Some up" for s using up(2) by (auto simp: ran_def)
  show "undo_ok info (grab slot up rest st)"
    using ok fup up other unfolding undo_ok_def grab_def
    by (auto simp: fun_upd_apply ran_def)
qed

text \<open>The entries of all processes after one process's structure was rewritten.\<close>

lemma ents_put_ents:
  assumes "undo_ok info st" and "sem_undo st slot = Some up"
  shows "ents (put_ents up us st) s = (if s = slot then us else ents st s)"
proof (cases "sem_undo st s")
  case (Some up')
  then have "up' = up \<longleftrightarrow> s = slot" using undo_okD(3) [OF assms(1)] assms(2) by auto
  with Some show ?thesis by (simp add: ents_def)
next
  case None
  with assms(2) show ?thesis by (auto simp: ents_def)
qed

lemma semaoe_entry_contract:
  assumes info: "info_ok info" and ok: "undo_ok info st" and mine: "sem_undo st slot = Some up"
    and val: "val \<noteq> 0" "\<bar>val\<bar> \<le> semaem info"
  shows "semaoe_entry info up val sid num st =
    (case aoe_upd info val sid num (ents st slot) of
       Inl e \<Rightarrow> (Some e, st) | Inr us' \<Rightarrow> (None, put_ents up us' st))"
    and "aoe_upd info val sid num (ents st slot) = Inr us' \<Longrightarrow> undo_ok info (put_ents up us' st)"
proof -
  have e: "ents st slot = semu st up" using mine by (simp add: ents_def)
  show "semaoe_entry info up val sid num st =
    (case aoe_upd info val sid num (ents st slot) of
       Inl e \<Rightarrow> (Some e, st) | Inr us' \<Rightarrow> (None, put_ents up us' st))"
    unfolding e by (rule semaoe_entry_eq [OF info undo_okD(1) [OF ok] val])
  assume "aoe_upd info val sid num (ents st slot) = Inr us'"
  with e have "us_ok info us'"
    using aoe_upd_ok [OF undo_okD(1) [OF ok]] by (simp add: aoe_step_def)
  moreover have "up \<notin> set (semfup st)" using ok mine by (auto simp: undo_ok_def ran_def)
  ultimately show "undo_ok info (put_ents up us' st)" using ok by (intro put_ents_ok)
qed

text \<open>
  The contract of \<^verbatim>\<open>semaoe\<close>: only the entries of the calling process change, as the pure
  update says; a failure changes no entries; and it can fail for want of a structure only if the
  process has none.
\<close>

definition semaoe_effect ::
  "seminfo \<Rightarrow> nat \<Rightarrow> int \<Rightarrow> int \<Rightarrow> nat \<Rightarrow> semstate \<Rightarrow> errno option \<Rightarrow> semstate \<Rightarrow> bool" where
  "semaoe_effect info slot val sid num st r st' \<longleftrightarrow>
     undo_ok info st' \<and> sems st' = sems st \<and> sema st' = sema st \<and> semmap st' = semmap st \<and> woken st' = woken st
     \<and> (\<forall>s. s \<noteq> slot \<longrightarrow> ents st' s = ents st s)
     \<and> (case r of None \<Rightarrow> aoe_upd info val sid num (ents st slot) = Inr (ents st' slot)
        | Some e \<Rightarrow> ents st' slot = ents st slot)
     \<and> (sem_undo st slot \<noteq> None \<longrightarrow>
          sem_undo st' slot \<noteq> None \<and> (r \<noteq> None \<longrightarrow> (\<exists>e. aoe_upd info val sid num (ents st slot) = Inl e)))
     \<and> (r = None \<longrightarrow> val \<noteq> 0 \<longrightarrow> sem_undo st' slot \<noteq> None)"

lemma semaoe_contract:
  assumes info: "info_ok info" and ok: "undo_ok info st" and r: "semaoe info slot val sid num st = (r, st')"
  shows "semaoe_effect info slot val sid num st r st'"
proof -
  consider (zero) "val = 0" | (range) "val \<noteq> 0" "\<bar>val\<bar> > semaem info" | (ok) "val \<noteq> 0" "\<bar>val\<bar> \<le> semaem info"
    by linarith
  then show ?thesis
  proof cases
    case zero
    with r ok show ?thesis by (auto simp: semaoe_def semaoe_effect_def aoe_upd_def)
  next
    case range
    then have "val > semaem info \<or> val < - semaem info" by linarith
    with range r ok show ?thesis by (auto simp: semaoe_def semaoe_effect_def aoe_upd_def)
  next
    case val: ok
    then have "\<not> (val > semaem info \<or> val < - semaem info)" by linarith
    with val have eq: "semaoe info slot val sid num st =
        (case sem_undo st slot of
           Some up \<Rightarrow> semaoe_entry info up val sid num st
         | None \<Rightarrow> (case semfup st of [] \<Rightarrow> (Some ENOSPC, st)
              | up # rest \<Rightarrow> semaoe_entry info up val sid num (grab slot up rest st)))"
      by (simp add: semaoe_def grab_def split: option.split list.split)
    show ?thesis
    proof (cases "sem_undo st slot")
      case (Some up)
      note c = semaoe_entry_contract [OF info ok Some val]
      have r': "semaoe_entry info up val sid num st = (r, st')" using r Some unfolding eq by simp
      show ?thesis
      proof (cases "aoe_upd info val sid num (ents st slot)")
        case (Inl e)
        with r' c(1) have "r = Some e" "st' = st" by simp_all
        with Inl ok Some show ?thesis by (simp add: semaoe_effect_def)
      next
        case (Inr us')
        with r' c(1) have "r = None" "st' = put_ents up us' st" by simp_all
        with Inr c(2) Some show ?thesis by (simp add: semaoe_effect_def ents_put_ents [OF ok Some])
      qed
    next
      case None
      show ?thesis
      proof (cases "semfup st")
        case Nil
        with None r ok show ?thesis unfolding eq by (auto simp: semaoe_effect_def)
      next
        case (Cons up rest)
        let ?g = "grab slot up rest st"
        note g = grab_ok [OF ok None Cons]
        have mine: "sem_undo ?g slot = Some up" by (simp add: grab_def)
        have frame: "sems ?g = sems st" "sema ?g = sema st" "semmap ?g = semmap st" "woken ?g = woken st"
          by (simp_all add: grab_def)
        note c = semaoe_entry_contract [OF info g(1) mine val]
        have r': "semaoe_entry info up val sid num ?g = (r, st')" using r None Cons unfolding eq by simp
        show ?thesis
        proof (cases "aoe_upd info val sid num (ents ?g slot)")
          case (Inl e)
          with r' c(1) have "r = Some e" "st' = ?g" by simp_all
          with g None show ?thesis by (simp add: semaoe_effect_def frame)
        next
          case (Inr us')
          with r' c(1) have "r = None" "st' = put_ents up us' ?g" by simp_all
          with Inr c(2) g None show ?thesis
            by (simp add: semaoe_effect_def ents_put_ents [OF g(1) mine] frame mine)
        qed
      qed
    qed
  qed
qed

section \<open>Taking operations back\<close>

abbreviation vals :: "semstate \<Rightarrow> int list" where
  "vals st \<equiv> map semval (sems st)"

abbreviation undo_op :: "sembuf \<Rightarrow> bool" where
  "undo_op op \<equiv> sem_flg op AND SEM_UNDO \<noteq> 0"

text \<open>\<^verbatim>\<open>semundo\<close> on the values and the entries of the calling process only.\<close>

fun pundo :: "seminfo \<Rightarrow> int \<Rightarrow> nat \<Rightarrow> sembuf list \<Rightarrow> int list \<Rightarrow> undo list \<Rightarrow> int list \<times> undo list" where
  "pundo info sid base [] V us = (V, us)"
| "pundo info sid base (op # ops) V us =
     (if sem_op op = 0 then pundo info sid base ops V us
      else
        pundo info sid base ops (V[base + sem_num op := to_ushort (V ! (base + sem_num op) - sem_op op)])
          (if undo_op op
           then (case aoe_upd info (to_short (- sem_op op)) sid (sem_num op) us of Inl e \<Rightarrow> us | Inr us' \<Rightarrow> us')
           else us))"

text \<open>What a state shares with another one apart from the semaphores and one process's entries.\<close>

definition same_rest :: "nat \<Rightarrow> semstate \<Rightarrow> semstate \<Rightarrow> bool" where
  "same_rest slot st st' \<longleftrightarrow>
     sema st' = sema st \<and> semmap st' = semmap st \<and> length (sems st') = length (sems st)
     \<and> (\<forall>s. s \<noteq> slot \<longrightarrow> ents st' s = ents st s)
     \<and> (sem_undo st slot \<noteq> None \<longrightarrow> sem_undo st' slot \<noteq> None)"

lemma same_rest_refl: "same_rest slot st st"
  by (simp add: same_rest_def)

lemma same_rest_trans: "same_rest slot st st' \<Longrightarrow> same_rest slot st' st'' \<Longrightarrow> same_rest slot st st''"
  by (auto simp: same_rest_def)

lemma undo_ok_sems:
  assumes "semu st' = semu st" "sem_undo st' = sem_undo st" "semunp st' = semunp st" "semfup st' = semfup st"
  shows "undo_ok info st' = undo_ok info st" and "ents st' s = ents st s"
  using assms by (simp_all add: undo_ok_def ents_def split: option.split)

lemma set_sem_frame [simp]:
  "semu (set_sem k f st) = semu st" "sem_undo (set_sem k f st) = sem_undo st"
  "semunp (set_sem k f st) = semunp st" "semfup (set_sem k f st) = semfup st"
  "sema (set_sem k f st) = sema st" "semmap (set_sem k f st) = semmap st" "woken (set_sem k f st) = woken st"
  "sems (set_sem k f st) = (sems st)[k := f (sems st ! k)]"
  by (simp_all add: set_sem_def)

lemma wake_sem_frame [simp]:
  "semu (wake_sem c st) = semu st" "sem_undo (wake_sem c st) = sem_undo st"
  "semunp (wake_sem c st) = semunp st" "semfup (wake_sem c st) = semfup st"
  "sema (wake_sem c st) = sema st" "semmap (wake_sem c st) = semmap st" "sems (wake_sem c st) = sems st"
  by (simp_all add: wake_sem_def)

lemma set_sem_ok [simp]:
  "undo_ok info (set_sem k f st) = undo_ok info st" "ents (set_sem k f st) s = ents st s"
  by (intro undo_ok_sems; simp)+

lemma wake_sem_ok [simp]:
  "undo_ok info (wake_sem c st) = undo_ok info st" "ents (wake_sem c st) s = ents st s"
  by (intro undo_ok_sems; simp)+

lemma same_rest_set_sem: "same_rest slot st (set_sem k f st)"
  by (simp add: same_rest_def)

text \<open>An update that does not touch \<open>semval\<close>.\<close>

lemma vals_same: "(\<And>s. semval (f s) = semval s) \<Longrightarrow> vals (set_sem k f st) = vals st"
  by (cases "k < length (sems st)") (simp_all add: map_update list_update_same_conv list_update_beyond)

lemma vals_set_sem: "vals (set_sem k (\<lambda>s. s\<lparr>semval := g (semval s)\<rparr>) st) = (vals st)[k := g (vals st ! k)]"
  by (cases "k < length (sems st)") (simp_all add: map_update list_update_beyond)

lemma wake_ncnt_keeps [simp]:
  "vals (wake_ncnt k st) = vals st" "undo_ok info (wake_ncnt k st) = undo_ok info st"
  "ents (wake_ncnt k st) s = ents st s" "same_rest slot st (wake_ncnt k st)"
  using vals_same [of "\<lambda>s. s\<lparr>semncnt := 0\<rparr>" k st] by (auto simp: wake_ncnt_def same_rest_def)

lemma wake_zcnt_keeps [simp]:
  "vals (wake_zcnt k st) = vals st" "undo_ok info (wake_zcnt k st) = undo_ok info st"
  "ents (wake_zcnt k st) s = ents st s" "same_rest slot st (wake_zcnt k st)"
  using vals_same [of "\<lambda>s. s\<lparr>semzcnt := 0\<rparr>" k st] by (auto simp: wake_zcnt_def same_rest_def)

lemma semaoe_effect_rest:
  assumes "semaoe_effect info slot val sid num st r st'"
  shows "undo_ok info st'" "vals st' = vals st" "same_rest slot st st'"
  using assms by (auto simp: semaoe_effect_def same_rest_def)

text \<open>The code's \<^verbatim>\<open>semundo\<close> is the pure one, provided the process has its structure.\<close>

lemma semundo_refines:
  assumes info: "info_ok info"
  shows "\<lbrakk>undo_ok info st; \<forall>op \<in> set dn. undo_op op \<and> sem_op op \<noteq> 0 \<longrightarrow> sem_undo st slot \<noteq> None;
          pundo info sid base dn (vals st) (ents st slot) = (V, us)\<rbrakk> \<Longrightarrow>
     undo_ok info (semundo info slot sid base dn st) \<and> same_rest slot st (semundo info slot sid base dn st)
     \<and> vals (semundo info slot sid base dn st) = V \<and> ents (semundo info slot sid base dn st) slot = us"
proof (induction dn arbitrary: st)
  case Nil
  then show ?case by (simp add: same_rest_refl)
next
  case (Cons op dn)
  show ?case
  proof (cases "sem_op op = 0")
    case True
    with Cons show ?thesis by simp
  next
    case nz: False
    define st1 where "st1 = set_sem (base + sem_num op) (\<lambda>s. s\<lparr>semval := to_ushort (semval s - sem_op op)\<rparr>) st"
    define st2 where "st2 = (if undo_op op
       then snd (semaoe info slot (to_short (- sem_op op)) sid (sem_num op) st1) else st1)"
    have v1: "vals st1 = (vals st)[base + sem_num op := to_ushort (vals st ! (base + sem_num op) - sem_op op)]"
      unfolding st1_def by (rule vals_set_sem)
    have s1: "undo_ok info st1" "ents st1 s = ents st s" "same_rest slot st st1" for s
      using Cons.prems(1) by (simp_all add: st1_def same_rest_set_sem)
    have s2: "undo_ok info st2 \<and> same_rest slot st1 st2 \<and> vals st2 = vals st1 \<and> ents st2 slot =
       (if undo_op op then (case aoe_upd info (to_short (- sem_op op)) sid (sem_num op) (ents st slot) of
          Inl e \<Rightarrow> ents st slot | Inr us' \<Rightarrow> us') else ents st slot)"
    proof (cases "undo_op op")
      case False
      with s1 show ?thesis by (simp add: st2_def same_rest_refl)
    next
      case True
      obtain r st' where r: "semaoe info slot (to_short (- sem_op op)) sid (sem_num op) st1 = (r, st')" by force
      note e = semaoe_contract [OF info s1(1) r]
      have "sem_undo st1 slot \<noteq> None" using Cons.prems(2) True nz by (auto simp: st1_def)
      with e True r s1(2) semaoe_effect_rest [OF e] show ?thesis
        by (cases r) (auto simp: semaoe_effect_def st2_def)
    qed
    have eq: "semundo info slot sid base (op # dn) st = semundo info slot sid base dn st2"
      using nz by (simp add: st1_def st2_def Let_def)
    have "undo_ok info (semundo info slot sid base dn st2) \<and> same_rest slot st2 (semundo info slot sid base dn st2)
      \<and> vals (semundo info slot sid base dn st2) = V \<and> ents (semundo info slot sid base dn st2) slot = us"
    proof (rule Cons.IH)
      show "undo_ok info st2" using s2 by simp
      show "\<forall>op \<in> set dn. undo_op op \<and> sem_op op \<noteq> 0 \<longrightarrow> sem_undo st2 slot \<noteq> None"
        using Cons.prems(2) s1(3) s2 by (auto simp: same_rest_def)
      show "pundo info sid base dn (vals st2) (ents st2 slot) = (V, us)"
        using Cons.prems(3) nz s2 v1 by simp
    qed
    then show ?thesis unfolding eq using s1(3) s2 same_rest_trans by blast
  qed
qed

section \<open>All or nothing\<close>

abbreviation val_ok :: "seminfo \<Rightarrow> int list \<Rightarrow> bool" where
  "val_ok info V \<equiv> \<forall>v \<in> set V. 0 \<le> v \<and> v \<le> semvmx info"

text \<open>What a list of operations adds to a semaphore, and to the adjustment of one for \<^verbatim>\<open>SEM_UNDO\<close>.\<close>

definition ops_sum :: "nat \<Rightarrow> sembuf list \<Rightarrow> nat \<Rightarrow> int" where
  "ops_sum base ops k = (\<Sum>op \<leftarrow> ops. if base + sem_num op = k then sem_op op else 0)"

definition undo_sum :: "sembuf list \<Rightarrow> nat \<Rightarrow> int" where
  "undo_sum ops n = (\<Sum>op \<leftarrow> ops. if undo_op op \<and> sem_num op = n then sem_op op else 0)"

definition tally :: "int \<Rightarrow> nat \<Rightarrow> sembuf list \<Rightarrow> int list \<Rightarrow> undo list \<Rightarrow> int list \<Rightarrow> undo list \<Rightarrow> bool" where
  "tally sid base ops V us V' us' \<longleftrightarrow>
     length V' = length V \<and> (\<forall>k < length V. V' ! k = V ! k + ops_sum base ops k)
     \<and> (\<forall>i n. aoe_of us' i n = aoe_of us i n - (if i = sid then undo_sum ops n else 0))"

lemma ops_sum_simps [simp]:
  "ops_sum base [] k = 0"
  "ops_sum base (op # ops) k = (if base + sem_num op = k then sem_op op else 0) + ops_sum base ops k"
  "ops_sum base (rev ops) k = ops_sum base ops k"
  "undo_sum [] n = 0"
  "undo_sum (op # ops) n = (if undo_op op \<and> sem_num op = n then sem_op op else 0) + undo_sum ops n"
  "undo_sum (rev ops) n = undo_sum ops n"
  by (simp_all add: ops_sum_def undo_sum_def flip: rev_map)

lemma tally_step:
  assumes "tally sid base dn V us V1 us1" and "k = base + sem_num op" "k < length V1"
    and "\<And>i n. aoe_of us2 i n
          = (if undo_op op \<and> i = sid \<and> n = sem_num op then aoe_of us1 i n - sem_op op else aoe_of us1 i n)"
  shows "tally sid base (op # dn) V us (V1[k := V1 ! k + sem_op op]) us2"
  using assms by (auto simp: tally_def nth_list_update)

lemma tally_nop: "sem_op op = 0 \<Longrightarrow> tally sid base (op # dn) V us V' us' = tally sid base dn V us V' us'"
  by (auto simp: tally_def)

lemma tally_rev: "tally sid base (rev ops @ []) V us V' us' = tally sid base ops V us V' us'"
  by (simp add: tally_def)

text \<open>
  The loop invariant: taking back the operations in \<open>dn\<close> gives the values and entries of the
  state \<open>st0\<close> the loop started from, the values are in range, and whatever \<^verbatim>\<open>semundo\<close> may
  need the process has.
\<close>

definition loop_inv ::
  "seminfo \<Rightarrow> nat \<Rightarrow> int \<Rightarrow> nat \<Rightarrow> semstate \<Rightarrow> sembuf list \<Rightarrow> semstate \<Rightarrow> bool" where
  "loop_inv info slot sid base st0 dn st \<longleftrightarrow>
     undo_ok info st \<and> val_ok info (vals st) \<and> same_rest slot st0 st
     \<and> (\<forall>op \<in> set dn. undo_op op \<and> sem_op op \<noteq> 0 \<longrightarrow> sem_undo st slot \<noteq> None)
     \<and> pundo info sid base dn (vals st) (ents st slot) = (vals st0, ents st0 slot)
     \<and> tally sid base dn (vals st0) (ents st0 slot) (vals st) (ents st slot)"

text \<open>States that agree on values, entries and the rest agree on the invariant.\<close>

lemma loop_inv_cong:
  assumes "loop_inv info slot sid base st0 dn st"
    and "undo_ok info st'" "vals st' = vals st" "ents st' slot = ents st slot" "same_rest slot st st'"
  shows "loop_inv info slot sid base st0 dn st'"
  using assms same_rest_trans [of slot st0 st st'] by (auto simp: loop_inv_def same_rest_def)

text \<open>The state is as it was for everybody: values and the entries of every process.\<close>

definition unchanged :: "semstate \<Rightarrow> semstate \<Rightarrow> bool" where
  "unchanged st st' \<longleftrightarrow>
     vals st' = vals st \<and> (\<forall>s. ents st' s = ents st s) \<and> sema st' = sema st \<and> semmap st' = semmap st"

lemma loop_inv_undo:
  assumes info: "info_ok info" and inv: "loop_inv info slot sid base st0 dn st"
  shows "unchanged st0 (semundo info slot sid base dn st)" and "undo_ok info (semundo info slot sid base dn st)"
proof -
  have 1: "undo_ok info st" and 2: "\<forall>op \<in> set dn. undo_op op \<and> sem_op op \<noteq> 0 \<longrightarrow> sem_undo st slot \<noteq> None"
    and 3: "pundo info sid base dn (vals st) (ents st slot) = (vals st0, ents st0 slot)"
    and 4: "same_rest slot st0 st"
    using inv by (simp_all add: loop_inv_def)
  from semundo_refines [OF info 1 2 3] 4 show "unchanged st0 (semundo info slot sid base dn st)"
    and "undo_ok info (semundo info slot sid base dn st)"
    by (auto simp: unchanged_def same_rest_def)
qed

lemma semop_aoe_effect:
  assumes info: "info_ok info" and ok: "undo_ok info st" and r: "semop_aoe info slot sid op st = (r, st1)"
  shows "undo_ok info st1" "vals st1 = vals st" "same_rest slot st st1"
    and "r \<noteq> None \<Longrightarrow> ents st1 slot = ents st slot"
    and "r = None \<Longrightarrow> ents st1 slot = ents st slot \<and> \<not> undo_op op
           \<or> undo_op op \<and> aoe_upd info (sem_op op) sid (sem_num op) (ents st slot) = Inr (ents st1 slot)"
    and "\<lbrakk>r = None; undo_op op; sem_op op \<noteq> 0\<rbrakk> \<Longrightarrow> sem_undo st1 slot \<noteq> None"
proof -
  have "(\<not> undo_op op \<and> r = None \<and> st1 = st)
      \<or> (undo_op op \<and> semaoe_effect info slot (sem_op op) sid (sem_num op) st r st1)"
    using r semaoe_contract [OF info ok] by (auto simp: semop_aoe_def split: if_splits)
  then show "undo_ok info st1" "vals st1 = vals st" "same_rest slot st st1"
    "r \<noteq> None \<Longrightarrow> ents st1 slot = ents st slot"
    "r = None \<Longrightarrow> ents st1 slot = ents st slot \<and> \<not> undo_op op
           \<or> undo_op op \<and> aoe_upd info (sem_op op) sid (sem_num op) (ents st slot) = Inr (ents st1 slot)"
    "\<lbrakk>r = None; undo_op op; sem_op op \<noteq> 0\<rbrakk> \<Longrightarrow> sem_undo st1 slot \<noteq> None"
    using ok semaoe_effect_rest [of info slot "sem_op op" sid "sem_num op" st r st1] same_rest_refl [of slot st]
    by (auto simp: semaoe_effect_def)
qed

lemma to_ushort_id: "0 \<le> v \<Longrightarrow> v < 65536 \<Longrightarrow> to_ushort v = v"
  by (simp add: to_ushort_def)

text \<open>One operation performed: the new value, and the invariant with the operation in \<open>dn\<close>.\<close>

lemma loop_inv_step:
  assumes info: "info_ok info" and inv: "loop_inv info slot sid base st0 dn st"
    and k: "k = base + sem_num op" "k < length (sems st)"
    and v: "0 \<le> vals st ! k + sem_op op" "vals st ! k + sem_op op \<le> semvmx info" and nz: "sem_op op \<noteq> 0"
    and r: "semop_aoe info slot sid op st = (None, st1)"
  shows "loop_inv info slot sid base st0 (op # dn) (add_semval k (sem_op op) st1)"
    and "vals (add_semval k (sem_op op) st1) = (vals st)[k := vals st ! k + sem_op op]"
proof -
  have ok: "undo_ok info st" using inv by (simp add: loop_inv_def)
  note a = semop_aoe_effect [OF info ok r]
  let ?n = "add_semval k (sem_op op) st1"
  have M: "semvmx info \<le> 32767" "semaem info \<le> 16384" using info by (simp_all add: info_ok_def)
  have len: "k < length (vals st)" using k by simp
  have old: "0 \<le> vals st ! k" "vals st ! k \<le> semvmx info"
    using inv nth_mem [OF len] unfolding loop_inv_def by blast+
  show n: "vals ?n = (vals st)[k := vals st ! k + sem_op op]"
    unfolding add_semval_def using vals_set_sem [of k "\<lambda>x. to_ushort (x + sem_op op)" st1] a(2) v M
    by (simp add: to_ushort_id)
  have range: "val_ok info (vals ?n)"
    using inv v set_update_subset_insert [of "vals st" k "vals st ! k + sem_op op"]
    unfolding n loop_inv_def by blast
  have step: "same_rest slot st ?n" "undo_ok info ?n" "ents ?n slot = ents st1 slot" "sem_undo ?n = sem_undo st1"
    using a(1,3) by (auto simp: add_semval_def same_rest_def)
  have back_v: "(vals ?n)[k := to_ushort (vals ?n ! k - sem_op op)] = vals st"
    unfolding n using len old M by (simp add: to_ushort_id list_update_same_conv)
  have back_e: "(if undo_op op then (case aoe_upd info (to_short (- sem_op op)) sid (sem_num op) (ents ?n slot) of
      Inl e \<Rightarrow> ents ?n slot | Inr us' \<Rightarrow> us') else ents ?n slot) = ents st slot"
  proof (cases "undo_op op")
    case False
    with a(5) step(3) show ?thesis by auto
  next
    case True
    with a(5) have u: "aoe_upd info (sem_op op) sid (sem_num op) (ents st slot) = Inr (ents st1 slot)" by simp
    with nz have "\<bar>sem_op op\<bar> \<le> semaem info" by (auto simp: aoe_upd_def split: if_splits)
    with M have "to_short (- sem_op op) = - sem_op op" by (intro to_short_id) auto
    moreover have "aoe_upd info (- sem_op op) sid (sem_num op) (ents st1 slot) = Inr (ents st slot)"
      using aoe_upd_ok [OF undo_okD(2) [OF ok] u] by (simp add: aoe_step_def)
    ultimately show ?thesis using True step(3) by simp
  qed
  have "pundo info sid base (op # dn) (vals ?n) (ents ?n slot) = (vals st0, ents st0 slot)"
    using inv nz unfolding pundo.simps k(1) [symmetric] back_v back_e by (simp add: loop_inv_def)
  moreover have "tally sid base (op # dn) (vals st0) (ents st0 slot) (vals ?n) (ents ?n slot)"
    unfolding n step(3)
  proof (rule tally_step [OF _ k(1) len])
    show "tally sid base dn (vals st0) (ents st0 slot) (vals st) (ents st slot)" using inv by (simp add: loop_inv_def)
    show "aoe_of (ents st1 slot) i n = (if undo_op op \<and> i = sid \<and> n = sem_num op
        then aoe_of (ents st slot) i n - sem_op op else aoe_of (ents st slot) i n)" for i n
      using a(5) aoe_upd_ok [OF undo_okD(2) [OF ok]] by (auto simp: aoe_step_def)
  qed
  moreover have "\<forall>o' \<in> set (op # dn). undo_op o' \<and> sem_op o' \<noteq> 0 \<longrightarrow> sem_undo ?n slot \<noteq> None"
    using inv a(3,6) step(4) by (auto simp: loop_inv_def same_rest_def)
  moreover have "same_rest slot st0 ?n" using inv step(1) same_rest_trans by (auto simp: loop_inv_def)
  ultimately show "loop_inv info slot sid base st0 (op # dn) ?n"
    using range step(2) by (simp add: loop_inv_def)
qed

text \<open>The loop keeps the invariant until it ends, and every other exit takes everything back.\<close>

definition loop_result ::
  "seminfo \<Rightarrow> nat \<Rightarrow> int \<Rightarrow> nat \<Rightarrow> semstate \<Rightarrow> sembuf list \<Rightarrow> semop_res \<Rightarrow> semstate \<Rightarrow> bool" where
  "loop_result info slot sid base st0 all r st' \<longleftrightarrow>
     r \<noteq> SemFault \<and> (if r = SemDone then loop_inv info slot sid base st0 all st'
                        else unchanged st0 st' \<and> undo_ok info st')"

lemma loop_result_failed:
  assumes "info_ok info" and "loop_inv info slot sid base st0 dn st" and "r \<noteq> SemDone" "r \<noteq> SemFault"
    and "\<And>s. semval (f s) = semval s"
  shows "loop_result info slot sid base st0 all r (semundo info slot sid base dn st)"
    and "loop_result info slot sid base st0 all r (set_sem k f (semundo info slot sid base dn st))"
  using loop_inv_undo [OF assms(1,2)] assms(3,4) vals_same [OF assms(5), where k = k]
  by (simp_all add: loop_result_def unchanged_def)

lemma loop_result_aoe_failed:
  assumes info: "info_ok info" and inv: "loop_inv info slot sid base st0 dn st"
    and r: "semop_aoe info slot sid op st = (Some e, st1)"
  shows "loop_result info slot sid base st0 all (SemErr e') (semundo info slot sid base dn st1)"
proof -
  have "undo_ok info st" using inv by (simp add: loop_inv_def)
  note a = semop_aoe_effect [OF info this r]
  have "loop_inv info slot sid base st0 dn st1"
    using a by (intro loop_inv_cong [OF inv]) simp_all
  from loop_result_failed(1) [OF info this, where f = "\<lambda>s. s"] show ?thesis by simp
qed

lemma loop_inv_wake:
  assumes "loop_inv info slot sid base st0 dn st"
  shows "loop_inv info slot sid base st0 dn (wake_zcnt k st)"
    and "loop_inv info slot sid base st0 dn (wake_ncnt k st)"
proof -
  have "undo_ok info st" using assms by (simp add: loop_inv_def)
  then show "loop_inv info slot sid base st0 dn (wake_zcnt k st)"
    and "loop_inv info slot sid base st0 dn (wake_ncnt k st)"
    by (auto intro!: loop_inv_cong [OF assms] simp del: map_map)
qed

lemma loop_inv_nop: "sem_op op = 0 \<Longrightarrow> loop_inv info slot sid base st0 dn st \<Longrightarrow> loop_inv info slot sid base st0 (op # dn) st"
  using tally_nop [of op] by (simp add: loop_inv_def)

text \<open>The ways one round of the loop can go.\<close>

lemma semop_loop_round:
  assumes r: "semop_loop info slot sid base dn (op # ops) st = (r, st')"
    and k: "k = base + sem_num op" "k < length (sems st)"
  obtains
    (failed) e where "r = SemErr e" "st' = semundo info slot sid base dn st"
  | (asleep) f where "r \<noteq> SemDone" "r \<noteq> SemFault" "\<And>s. semval (f s) = semval s"
      "st' = set_sem k f (semundo info slot sid base dn st)"
  | (no_undo) e st1 where "semop_aoe info slot sid op st = (Some e, st1)" "r = SemErr e"
      "st' = semundo info slot sid base dn st1"
  | (nop) "sem_op op = 0" "vals st ! k = 0" "semop_loop info slot sid base (op # dn) ops st = (r, st')"
  | (performed) st1 st2 where "sem_op op \<noteq> 0" "semop_aoe info slot sid op st = (None, st1)"
      "sem_op op > 0 \<Longrightarrow> sem_op op + vals st ! k \<le> semvmx info" "sem_op op < 0 \<Longrightarrow> vals st ! k \<ge> - sem_op op"
      "st2 = add_semval k (sem_op op) st1 \<or> st2 = wake_ncnt k (add_semval k (sem_op op) st1)"
      "semop_loop info slot sid base (op # dn) ops (wake_zcnt k st2) = (r, st')"
proof -
  obtain q st1 where q: "semop_aoe info slot sid op st = (q, st1)" by force
  have vk: "semval (sems st ! k) = vals st ! k" using k(2) by simp
  let ?sn = "\<lambda>s. s\<lparr>semncnt := to_ushort (semncnt s + 1)\<rparr>" and ?sz = "\<lambda>s. s\<lparr>semzcnt := to_ushort (semzcnt s + 1)\<rparr>"
  note r' = r [unfolded semop_loop.simps Let_def k(1) [symmetric] q vk]
  consider (pos) "sem_op op > 0" | (neg) "sem_op op < 0" | (zero) "sem_op op = 0" by linarith
  then show thesis
  proof cases
    case pos
    then show thesis using r' k(2) q
      by (cases q)
        (auto split: if_splits
          intro: failed no_undo performed [of st1 "wake_ncnt k (add_semval k (sem_op op) st1)"])
  next
    case neg
    then show thesis using r' k(2) q asleep [of ?sn]
      by (cases q) (auto split: if_splits intro: failed no_undo performed [of st1 "add_semval k (sem_op op) st1"])
  next
    case zero
    then show thesis using r' k(2) asleep [of ?sz] by (auto split: if_splits intro: failed nop)
  qed
qed

lemma semop_loop_result:
  assumes info: "info_ok info"
  shows "\<lbrakk>loop_inv info slot sid base st0 dn st; r \<noteq> SemFault \<or> (\<forall>op \<in> set ops. base + sem_num op < length (sems st0));
    semop_loop info slot sid base dn ops st = (r, st')\<rbrakk> \<Longrightarrow>
    loop_result info slot sid base st0 (rev ops @ dn) r st'"
proof (induction ops arbitrary: dn st)
  case Nil
  then show ?case by (auto simp: loop_result_def)
next
  case (Cons op ops)
  define k where "k = base + sem_num op"
  note inv = Cons.prems(1)
  have kl: "k < length (sems st)"
  proof (rule ccontr)
    assume out: "\<not> k < length (sems st)"
    then have "r = SemFault" using Cons.prems(3) by (simp add: k_def)
    then have "k < length (sems st0)" using Cons.prems(2) by (simp add: k_def)
    then show False using out inv by (simp add: loop_inv_def same_rest_def)
  qed
  have range: "0 \<le> vals st ! k" "vals st ! k \<le> semvmx info"
    using inv nth_mem [of k "vals st"] kl unfolding loop_inv_def by simp_all
  have again: "loop_inv info slot sid base st0 (op # dn) st2 \<Longrightarrow>
      semop_loop info slot sid base (op # dn) ops st2 = (r, st') \<Longrightarrow> ?case" for st2
    using Cons.IH [of "op # dn" st2] Cons.prems(2) by auto
  from Cons.prems(3) k_def kl show ?case
  proof (cases rule: semop_loop_round)
    case (failed e)
    then show ?thesis using loop_result_failed(1) [OF info inv, of "SemErr e" "\<lambda>s. s"] by simp
  next
    case (asleep f)
    then show ?thesis using loop_result_failed(2) [OF info inv, of r f] by simp
  next
    case (no_undo e st1)
    then show ?thesis using loop_result_aoe_failed [OF info inv] by simp
  next
    case nop
    then show ?thesis using loop_inv_nop [OF nop(1) inv] by (intro again)
  next
    case (performed st1 st2)
    then have "loop_inv info slot sid base st0 (op # dn) (add_semval k (sem_op op) st1)"
      using range by (intro loop_inv_step(1) [OF info inv k_def kl]) linarith+
    then have "loop_inv info slot sid base st0 (op # dn) (wake_zcnt k st2)"
      using performed(5) by (auto intro: loop_inv_wake)
    then show ?thesis using performed(6) by (rule again)
  qed
qed

section \<open>The invariant of the facility and the system call\<close>

definition sets_ok :: "seminfo \<Rightarrow> semstate \<Rightarrow> bool" where
  "sets_ok info st \<longleftrightarrow>
     int (length (sema st)) = semmni info
     \<and> (\<forall>sp \<in> set (sema st). allocated (sem_perm sp) \<longrightarrow> sem_base sp + sem_nsems sp \<le> length (sems st))"

definition sem_wf :: "seminfo \<Rightarrow> semstate \<Rightarrow> bool" where
  "sem_wf info st \<longleftrightarrow> undo_ok info st \<and> val_ok info (vals st) \<and> sets_ok info st"

lemma semconv_Inr:
  assumes "info_ok info" "sets_ok info st" "semconv info sid st = Inr i"
  shows "i < length (sema st)" "allocated (sem_perm (sema st ! i))" "i = nat (sid mod semmni info)"
    "sem_base (sema st ! i) + sem_nsems (sema st ! i) \<le> length (sems st)"
proof -
  have m: "0 < semmni info" "int (length (sema st)) = semmni info" using assms by (simp_all add: info_ok_def sets_ok_def)
  show i: "i = nat (sid mod semmni info)" and a: "allocated (sem_perm (sema st ! i))"
    using assms(3) by (auto simp: semconv_def Let_def split: if_splits)
  show l: "i < length (sema st)" unfolding i using m pos_mod_bound [of "semmni info" sid] by linarith
  show "sem_base (sema st ! i) + sem_nsems (sema st ! i) \<le> length (sems st)"
    using assms(2) a nth_mem [OF l] unfolding sets_ok_def by blast
qed

lemma semop_verify_nums: "semop_verify perm n cr ops = None \<Longrightarrow> op \<in> set ops \<Longrightarrow> sem_num op < n"
  by (induction ops) (auto split: option.splits if_splits)

lemma semop_setpid_keeps [simp]:
  "vals (semop_setpid pid base ops st) = vals st" "ents (semop_setpid pid base ops st) s = ents st s"
  "undo_ok info (semop_setpid pid base ops st) = undo_ok info st"
  "sema (semop_setpid pid base ops st) = sema st" "semmap (semop_setpid pid base ops st) = semmap st"
  by (induction ops arbitrary: st) (simp_all del: set_sem_frame(8) add: vals_same set_sem_frame(1-7))

lemma set_sema_keeps [simp]:
  "sems (set_sema i f st) = sems st" "ents (set_sema i f st) s = ents st s"
  "undo_ok info (set_sema i f st) = undo_ok info st" "semmap (set_sema i f st) = semmap st"
  "sema (set_sema i f st) = (sema st)[i := f (sema st ! i)]"
  by (simp_all add: set_sema_def ents_def undo_ok_def split: option.split)

lemma sets_ok_update:
  assumes "sets_ok info st" "i < length (sema st)" "sema st' = (sema st)[i := f (sema st ! i)]"
    and "length (sems st') = length (sems st)" "f (sema st ! i) = (sema st ! i)\<lparr>sem_otime := t\<rparr>"
  shows "sets_ok info st'"
  using assms unfolding sets_ok_def
  by (auto dest!: subsetD [OF set_update_subset_insert])

text \<open>What one pass of \<^verbatim>\<open>semop\<close> does, from the check of the list to a sleep or the return.\<close>

definition pass_result ::
  "seminfo \<Rightarrow> nat \<Rightarrow> int \<Rightarrow> int \<Rightarrow> nat \<Rightarrow> sembuf list \<Rightarrow> semstate \<Rightarrow> semop_res \<Rightarrow> semstate \<Rightarrow> bool" where
  "pass_result info slot now sid i ops st r st' \<longleftrightarrow>
     sem_wf info st' \<and> r \<noteq> SemFault \<and> (r \<noteq> SemDone \<longrightarrow> unchanged st st')
     \<and> (r = SemDone \<longrightarrow>
          tally sid (sem_base (sema st ! i)) ops (vals st) (ents st slot) (vals st') (ents st' slot)
          \<and> (\<forall>s. s \<noteq> slot \<longrightarrow> ents st' s = ents st s)
          \<and> sema st' = (sema st)[i := (sema st ! i)\<lparr>sem_otime := now\<rparr>] \<and> semmap st' = semmap st)"

lemma semop_pass_result:
  assumes info: "info_ok info" and wf: "sem_wf info st" and i: "i < length (sema st)"
    and nums: "r \<noteq> SemFault \<or> (\<forall>op \<in> set ops. sem_base (sema st ! i) + sem_num op < length (sems st))"
    and r: "semop_pass info u now sid i ops st = (r, st')"
  shows "pass_result info (p_slot u) now sid i ops st r st'"
proof -
  define base slot where "base = sem_base (sema st ! i)" and "slot = p_slot u"
  obtain q st1 where q: "semop_loop info slot sid base [] ops st = (q, st1)" by force
  have "loop_inv info slot sid base st [] st"
    using wf by (simp add: loop_inv_def sem_wf_def same_rest_refl tally_def)
  moreover have "q = SemFault \<longrightarrow> r = SemFault" using r q by (auto simp: semop_pass_def base_def slot_def Let_def)
  ultimately have res: "loop_result info slot sid base st (rev ops @ []) q st1"
    using nums by (intro semop_loop_result [OF info _ _ q]) (auto simp: base_def)
  show ?thesis
  proof (cases "q = SemDone")
    case False
    with r q have "r = q" "st' = st1"
      by (auto simp: semop_pass_def base_def slot_def Let_def split: semop_res.splits)
    moreover have "length (sems st1) = length (sems st)"
      using res False map_eq_imp_length_eq unfolding loop_result_def unchanged_def by metis
    ultimately show ?thesis
      using False res wf by (auto simp: loop_result_def pass_result_def unchanged_def sem_wf_def sets_ok_def)
  next
    case True
    with r q have r: "r = SemDone"
      and st': "st' = set_sema i (\<lambda>sp. sp\<lparr>sem_otime := now\<rparr>) (semop_setpid (p_pid u) base ops st1)"
      by (auto simp: semop_pass_def base_def slot_def Let_def)
    have inv: "loop_inv info slot sid base st (rev ops @ []) st1" using res True by (simp add: loop_result_def)
    then have sema: "sema st1 = sema st" and len: "length (sems st1) = length (sems st)"
      by (simp_all add: loop_inv_def same_rest_def)
    have v: "vals st' = vals st1" unfolding st' set_sema_keeps(1) semop_setpid_keeps(1) by simp
    then have len': "length (sems st') = length (sems st)" using len by (metis map_eq_imp_length_eq)
    have otime: "sema st' = (sema st)[i := (\<lambda>sp. sp\<lparr>sem_otime := now\<rparr>) (sema st ! i)]" by (simp add: st' sema)
    have "sets_ok info st" using wf by (simp add: sem_wf_def)
    then have "sets_ok info st'" using i otime len' by (rule sets_ok_update) simp
    moreover have e: "ents st' s = ents st1 s" for s by (simp add: st')
    moreover have "undo_ok info st'" using inv by (simp add: st' loop_inv_def)
    moreover have "val_ok info (vals st')" unfolding v using inv by (simp add: loop_inv_def)
    moreover have "tally sid base ops (vals st) (ents st slot) (vals st') (ents st' slot)"
      unfolding v e using inv unfolding loop_inv_def tally_rev by (elim conjE)
    moreover have "semmap st' = semmap st" using inv by (simp add: st' loop_inv_def same_rest_def)
    moreover have "s \<noteq> slot \<longrightarrow> ents st' s = ents st s" for s
      unfolding e using inv by (simp add: loop_inv_def same_rest_def)
    ultimately show ?thesis
      unfolding pass_result_def sem_wf_def base_def [symmetric] slot_def [symmetric] using r otime by blast
  qed
qed

lemma semop_contract:
  assumes "info_ok info" and "sem_wf info st" and "semop info u now sid nsops uops st = (r, st')"
  shows "sem_wf info st' \<and> r \<noteq> SemFault
     \<and> (r \<noteq> SemDone \<longrightarrow> unchanged st st')
     \<and> (r = SemDone \<longrightarrow>
          (\<exists>i ops. semconv info sid st = Inr i \<and> uops = Some ops
             \<and> tally sid (sem_base (sema st ! i)) ops (vals st) (ents st (p_slot u)) (vals st') (ents st' (p_slot u))
             \<and> (\<forall>s. s \<noteq> p_slot u \<longrightarrow> ents st' s = ents st s)
             \<and> sema st' = (sema st)[i := (sema st ! i)\<lparr>sem_otime := now\<rparr>] \<and> semmap st' = semmap st))"
proof -
  have same: "unchanged st st" by (simp add: unchanged_def)
  have sets: "sets_ok info st" using assms(2) by (simp add: sem_wf_def)
  show ?thesis
  proof (cases "\<exists>i ops. semconv info sid st = Inr i \<and> uops = Some ops \<and> int nsops \<le> semopm info
      \<and> semop_verify (sem_perm (sema st ! i)) (sem_nsems (sema st ! i)) (u_cred u) ops = None")
    case False
    with assms(3) have "\<exists>e. r = SemErr e" "st' = st"
      by (auto simp: semop_def split: sum.splits option.splits if_splits)
    with assms(2) same show ?thesis by auto
  next
    case True
    then obtain i ops where i: "semconv info sid st = Inr i" and ops: "uops = Some ops"
      and n: "int nsops \<le> semopm info"
      and ver: "semop_verify (sem_perm (sema st ! i)) (sem_nsems (sema st ! i)) (u_cred u) ops = None" by blast
    note c = semconv_Inr [OF assms(1) sets i]
    have pass: "semop_pass info u now sid i ops st = (r, st')"
      using assms(3) i ops n ver by (simp add: semop_def)
    have "\<forall>op \<in> set ops. sem_base (sema st ! i) + sem_num op < length (sems st)"
      using semop_verify_nums [OF ver] c(4) by fastforce
    from semop_pass_result [OF assms(1,2) c(1) disjI2 [OF this] pass] i ops show ?thesis
      unfolding pass_result_def by blast
  qed
qed

text \<open>
  C1: \<^verbatim>\<open>semop\<close> is all or nothing. From a well-formed state it never leaves \<^verbatim>\<open>sem[]\<close>, keeps the
  facility well-formed, and when it fails or goes to sleep every semaphore value and every
  process's adjust-on-exit entries are what they were before the call. When it succeeds, each
  semaphore changed by exactly the sum of the operations on it, within \<open>0..SEMVMX\<close>, and the caller's
  adjustments by minus the sum of those with \<^verbatim>\<open>SEM_UNDO\<close>, nobody else's entries changing.
\<close>

theorem semop_all_or_nothing:
  assumes "info_ok info" and "sem_wf info st" and "semop info u now sid nsops uops st = (r, st')"
  shows "sem_wf info st' \<and> r \<noteq> SemFault
     \<and> (r \<noteq> SemDone \<longrightarrow> unchanged st st')
     \<and> (r = SemDone \<longrightarrow>
          (\<exists>i ops. semconv info sid st = Inr i \<and> uops = Some ops
             \<and> tally sid (sem_base (sema st ! i)) ops (vals st) (ents st (p_slot u)) (vals st') (ents st' (p_slot u))
             \<and> (\<forall>s. s \<noteq> p_slot u \<longrightarrow> ents st' s = ents st s)
             \<and> sema st' = (sema st)[i := (sema st ! i)\<lparr>sem_otime := now\<rparr>] \<and> semmap st' = semmap st))"
  using assms by (rule semop_contract)

text \<open>
  An example: a set of two semaphores with values 1 and 0; taking the first with \<^verbatim>\<open>SEM_UNDO\<close> and
  then the second blocks on the second.
\<close>

definition example_info :: seminfo where
  "example_info = \<lparr>si_semmap = 10, semmni = 1, semmns = 60, semmnu = 30, semmsl = 25, semopm = 10,
     semume = 10, semvmx = 32767, semaem = 16384\<rparr>"

definition example_set :: semid_ds where
  "example_set = \<lparr>sem_perm = example_perm, sem_base = 0, sem_nsems = 2, sem_otime = 0, sem_ctime = 0,
     sem_pad1 = 0, sem_pad2 = 0, sem_pad3 = [0, 0, 0, 0]\<rparr>"

definition example_sem :: "int \<Rightarrow> sem" where
  "example_sem v = \<lparr>semval = v, sempid = 0, semncnt = 0, semzcnt = 0\<rparr>"

definition example_state :: semstate where
  "example_state = \<lparr>sema = [example_set], sems = [example_sem 1, example_sem 0], semmap = mapinit 10,
     sem_undo = (\<lambda>_. None), semu = (\<lambda>_. []), semunp = [], semfup = [0, 1], woken = []\<rparr>"

definition example_proc :: uproc where
  "example_proc = \<lparr>p_slot = 3, p_pid = 42, u_cred = example_cred\<lparr>cr_uid := 0\<rparr>\<rparr>"

definition take_op :: "nat \<Rightarrow> sembuf" where
  "take_op n = \<lparr>sem_num = n, sem_op = - 1, sem_flg = SEM_UNDO\<rparr>"

lemmas example_sem_defs = example_info_def example_set_def example_sem_def example_state_def example_proc_def
  take_op_def example_perm_def example_cred_def ipc_consts SEM_UNDO_def SEM_A_def SEM_R_def

lemma example_wf: "info_ok example_info" "sem_wf example_info example_state"
  by (simp_all add: info_ok_def sem_wf_def undo_ok_def us_ok_def sets_ok_def example_sem_defs)

lemma example_blocks:
  "fst (semop example_info example_proc 7 0 2 (Some [take_op 0, take_op 1]) example_state) = SemSleepN 1"
  by (simp add: semop_def semconv_def allocated_def semop_pass_def semop_aoe_def semaoe_def semaoe_entry_def
      add_semval_def set_sem_def wake_zcnt_def ipcaccess_def to_short_def to_ushort_def Let_def example_sem_defs)

theorem semop_all_or_nothing_witness:
  "fst (semop example_info example_proc 7 0 2 (Some [take_op 0, take_op 1]) example_state) = SemSleepN 1
   \<and> unchanged example_state (snd (semop example_info example_proc 7 0 2 (Some [take_op 0, take_op 1]) example_state))"
  using semop_all_or_nothing [OF example_wf prod.collapse [symmetric],
      of example_proc 7 0 2 "Some [take_op 0, take_op 1]"] example_blocks
  by simp

end
