(* ===== verification/Sem_Exit.thy ===== *)
theory Sem_Exit
  imports Sem_Atomic
begin

text \<open>
  Removing and applying adjust-on-exit entries: \<^verbatim>\<open>semunrm\<close> deletes exactly the entries it names,
  \<^verbatim>\<open>semexit\<close> releases the undo structure of an exiting process, and together with \<^verbatim>\<open>semop\<close> it
  gives back what the process took with \<^verbatim>\<open>SEM_UNDO\<close>.
\<close>

section \<open>\<^verbatim>\<open>semunrm\<close>\<close>

text \<open>The entries \<^verbatim>\<open>semunrm\<close> has to delete.\<close>

definition doomed :: "int \<Rightarrow> nat \<Rightarrow> nat \<Rightarrow> undo \<Rightarrow> bool" where
  "doomed sid low high u \<longleftrightarrow> un_id u = sid \<and> low \<le> un_num u \<and> un_num u \<le> high"

lemma semunrm_ents_filter:
  "sorted_wrt before us \<Longrightarrow> semunrm_ents sid low high us = filter (\<lambda>u. \<not> doomed sid low high u) us"
proof (induction us)
  case (Cons u us)
  then have after: "\<forall>w \<in> set us. before u w" and IH: "semunrm_ents sid low high us = filter (\<lambda>u. \<not> doomed sid low high u) us"
    by simp_all
  have stop: "filter (\<lambda>u. \<not> doomed sid low high u) us = us"
    if "sid < un_id u \<or> (sid = un_id u \<and> high < un_num u)"
  proof (rule filter_True, rule ballI)
    fix w assume "w \<in> set us"
    with after have "before u w" by blast
    with that show "\<not> doomed sid low high w" unfolding before_def doomed_def by linarith
  qed
  consider (past) "sid < un_id u \<or> (sid = un_id u \<and> high < un_num u \<and> low \<le> un_num u)"
    | (keep) "sid > un_id u \<or> (sid = un_id u \<and> un_num u < low)" | (drop) "doomed sid low high u"
    unfolding doomed_def by linarith
  then show ?case
  proof cases
    case past
    then have "filter (\<lambda>u. \<not> doomed sid low high u) us = us" by (intro stop) auto
    with past show ?thesis by (auto simp: doomed_def)
  next
    case keep
    with IH show ?thesis by (auto simp: doomed_def)
  next
    case drop
    with IH show ?thesis by (simp add: doomed_def)
  qed
qed simp

lemma semunrm_chain_eq:
  "distinct ps \<Longrightarrow> semunrm_chain f ps m =
     (filter (\<lambda>p. f (m p) \<noteq> []) ps, \<lambda>p. if p \<in> set ps then f (m p) else m p)"
proof (induction ps arbitrary: m)
  case (Cons p ps)
  then show ?case
    by (auto simp: Let_def fun_eq_iff intro: filter_cong)
qed simp

lemma us_ok_filter: "us_ok info us \<Longrightarrow> us_ok info (filter P us)"
proof -
  assume "us_ok info us"
  moreover have "int (length (filter P us)) \<le> int (length us)" by simp
  ultimately have "int (length (filter P us)) \<le> semume info" unfolding us_ok_def by linarith
  with \<open>us_ok info us\<close> show ?thesis unfolding us_ok_def by (auto intro: sorted_wrt_filter)
qed

lemma semunrm_entries:
  assumes ok: "undo_ok info st"
  shows "semu (semunrm sid low high st) = (\<lambda>up. filter (\<lambda>u. \<not> doomed sid low high u) (semu st up))"
    and "semunp (semunrm sid low high st) =
      filter (\<lambda>up. filter (\<lambda>u. \<not> doomed sid low high u) (semu st up) \<noteq> []) (semunp st)"
proof -
  have d: "distinct (semunp st)" and mem: "up \<in> set (semunp st) \<longleftrightarrow> semu st up \<noteq> []"
    and s: "sorted_wrt before (semu st up)" for up
    using ok by (simp_all add: undo_ok_def us_ok_def)
  show "semu (semunrm sid low high st) = (\<lambda>up. filter (\<lambda>u. \<not> doomed sid low high u) (semu st up))"
    using mem s by (auto simp: semunrm_def semunrm_chain_eq [OF d] semunrm_ents_filter fun_eq_iff)
  show "semunp (semunrm sid low high st) =
      filter (\<lambda>up. filter (\<lambda>u. \<not> doomed sid low high u) (semu st up) \<noteq> []) (semunp st)"
    using s by (simp add: semunrm_def semunrm_chain_eq [OF d] semunrm_ents_filter)
qed

lemma semunrm_frame [simp]:
  "sems (semunrm sid low high st) = sems st" "sema (semunrm sid low high st) = sema st"
  "semmap (semunrm sid low high st) = semmap st" "woken (semunrm sid low high st) = woken st"
  "sem_undo (semunrm sid low high st) = sem_undo st" "semfup (semunrm sid low high st) = semfup st"
  by (simp_all add: semunrm_def split_beta)

lemma semunrm_ok:
  assumes ok: "undo_ok info st"
  shows "undo_ok info (semunrm sid low high st)"
    and "ents (semunrm sid low high st) s = filter (\<lambda>u. \<not> doomed sid low high u) (ents st s)"
proof -
  note e = semunrm_entries [OF ok, of sid low high]
  show "ents (semunrm sid low high st) s = filter (\<lambda>u. \<not> doomed sid low high u) (ents st s)"
    by (simp add: ents_def e split: option.split)
  have "us_ok info (semu (semunrm sid low high st) up)" for up
    using undo_okD(1) [OF ok] by (simp add: e us_ok_filter)
  then show "undo_ok info (semunrm sid low high st)"
    using ok unfolding undo_ok_def e semunrm_frame by auto
qed

text \<open>
  \<^verbatim>\<open>semunrm\<close> deletes, for every process, exactly the adjust-on-exit entries of the given set
  whose semaphore number lies in the given range, keeps all others in place and the undo
  structures well-formed (an emptied structure leaves the chain), and touches no semaphore.
\<close>

theorem semunrm_exact:
  assumes "undo_ok info st"
  shows "undo_ok info (semunrm sid low high st)
    \<and> (\<forall>s. ents (semunrm sid low high st) s = filter (\<lambda>u. \<not> doomed sid low high u) (ents st s))
    \<and> sems (semunrm sid low high st) = sems st \<and> sema (semunrm sid low high st) = sema st"
  using semunrm_ok [OF assms] by simp

theorem semunrm_exact_witness:
  "undo_ok example_info (example_state\<lparr>semu := (\<lambda>_. [])(1 := [\<lparr>un_aoe = 1, un_num = 0, un_id = 0\<rparr>]),
      semunp := [1], semfup := [0], sem_undo := (\<lambda>_. None)(3 := Some 1)\<rparr>)
   \<and> ents (semunrm 0 0 0 (example_state\<lparr>semu := (\<lambda>_. [])(1 := [\<lparr>un_aoe = 1, un_num = 0, un_id = 0\<rparr>]),
      semunp := [1], semfup := [0], sem_undo := (\<lambda>_. None)(3 := Some 1)\<rparr>)) 3 = []"
proof -
  let ?st = "example_state\<lparr>semu := (\<lambda>_. [])(1 := [\<lparr>un_aoe = 1, un_num = 0, un_id = 0\<rparr>]),
      semunp := [1], semfup := [0], sem_undo := (\<lambda>_. None)(3 := Some 1)\<rparr>"
  have ok: "undo_ok example_info ?st"
    by (auto simp: undo_ok_def us_ok_def example_sem_defs ran_def split: if_splits)
  have "ents ?st 3 = [\<lparr>un_aoe = 1, un_num = 0, un_id = 0\<rparr>]" by (simp add: ents_def)
  with semunrm_exact [OF ok, of 0 0 0] ok show ?thesis by (simp add: doomed_def)
qed

section \<open>\<^verbatim>\<open>semexit\<close>\<close>

text \<open>One entry applied to the values.\<close>

definition pexit :: "seminfo \<Rightarrow> semstate \<Rightarrow> undo \<Rightarrow> int list \<Rightarrow> int list" where
  "pexit info st e V =
     (case semconv info (un_id e) st of
        Inl _ \<Rightarrow> V
      | Inr i \<Rightarrow>
          (let k = sem_base (sema st ! i) + un_num e in
           if k < length V \<and> 0 \<le> V ! k + un_aoe e \<and> V ! k + un_aoe e \<le> semvmx info
           then V[k := V ! k + un_aoe e] else V))"

lemma semexit_ent_frame [simp]:
  "sema (semexit_ent info e st) = sema st" "semmap (semexit_ent info e st) = semmap st"
  "semu (semexit_ent info e st) = semu st" "sem_undo (semexit_ent info e st) = sem_undo st"
  "semunp (semexit_ent info e st) = semunp st" "semfup (semexit_ent info e st) = semfup st"
  by (simp_all add: semexit_ent_def Let_def wake_ncnt_def split: sum.split)

lemma semexit_ent_vals:
  assumes "info_ok info"
  shows "vals (semexit_ent info e st) = pexit info st e (vals st)"
proof (cases "semconv info (un_id e) st")
  case (Inl a)
  then show ?thesis by (simp add: semexit_ent_def pexit_def)
next
  case (Inr i)
  define k v where "k = sem_base (sema st ! i) + un_num e" and "v = semval (sems st ! k) + un_aoe e"
  have M: "semvmx info \<le> 32767" using assms by (simp add: info_ok_def)
  have eq: "vals (semexit_ent info e st) =
    (if v < 0 \<or> v > semvmx info then vals st else (vals st)[k := to_ushort v])"
  proof -
    let ?s1 = "set_sem k (\<lambda>s. s\<lparr>semval := to_ushort v\<rparr>) st"
    have s1: "vals ?s1 = (vals st)[k := to_ushort v]" by (simp add: map_update)
    have "vals (set_sem k (\<lambda>s. s\<lparr>semzcnt := 0\<rparr>) ?s1) = vals ?s1" by (rule vals_same) simp
    with s1 show ?thesis
      unfolding semexit_ent_def Inr sum.case Let_def k_def [symmetric] v_def [symmetric]
      by (cases "v = 0") (simp_all del: set_sem_frame(8))
  qed
  show ?thesis
  proof (cases "k < length (sems st)")
    case True
    then show ?thesis unfolding eq pexit_def Inr sum.case Let_def k_def [symmetric]
      using M by (auto simp: v_def to_ushort_id)
  next
    case False
    then show ?thesis unfolding eq pexit_def Inr sum.case Let_def k_def [symmetric]
      by (simp add: list_update_beyond)
  qed
qed

lemma pexit_sema: "sema st' = sema st \<Longrightarrow> pexit info st' e V = pexit info st e V"
proof -
  assume "sema st' = sema st"
  moreover from this have "semconv info s st' = semconv info s st" for s by (simp add: semconv_def)
  ultimately show ?thesis by (simp add: pexit_def split: sum.split)
qed

lemma semexit_fold:
  assumes "info_ok info"
  shows "vals (foldr (semexit_ent info) us st) = foldr (pexit info st) us (vals st)
    \<and> sema (foldr (semexit_ent info) us st) = sema st
    \<and> semmap (foldr (semexit_ent info) us st) = semmap st \<and> semu (foldr (semexit_ent info) us st) = semu st
    \<and> sem_undo (foldr (semexit_ent info) us st) = sem_undo st
    \<and> semunp (foldr (semexit_ent info) us st) = semunp st \<and> semfup (foldr (semexit_ent info) us st) = semfup st"
proof (induction us)
  case (Cons e us)
  then show ?case
    using semexit_ent_vals [OF assms, of e "foldr (semexit_ent info) us st"] pexit_sema [of "foldr (semexit_ent info) us st" st]
    by simp
qed simp

lemma pexit_cases:
  obtains "pexit info st e V = V"
  | k where "pexit info st e V = V[k := V ! k + un_aoe e]" "0 \<le> V ! k + un_aoe e" "V ! k + un_aoe e \<le> semvmx info"
proof (cases "semconv info (un_id e) st")
  case (Inl a)
  then show thesis by (intro that(1)) (simp add: pexit_def)
next
  case (Inr i)
  let ?k = "sem_base (sema st ! i) + un_num e"
  show thesis
  proof (cases "?k < length V \<and> 0 \<le> V ! ?k + un_aoe e \<and> V ! ?k + un_aoe e \<le> semvmx info")
    case True
    with Inr show thesis by (intro that(2) [of ?k]) (simp_all add: pexit_def Let_def)
  next
    case False
    with Inr show thesis by (intro that(1)) (auto simp: pexit_def Let_def)
  qed
qed

lemma pexit_ok: "val_ok info V \<Longrightarrow> val_ok info (pexit info st e V)"
proof (cases rule: pexit_cases [of info st e V])
  case (2 k)
  assume "val_ok info V"
  with 2 set_update_subset_insert [of V k "V ! k + un_aoe e"] show ?thesis by auto
qed simp

lemma pexit_fold_ok: "val_ok info V \<Longrightarrow> val_ok info (foldr (pexit info st) us V)"
proof (induction us)
  case (Cons e us)
  then show ?case unfolding foldr.simps comp_apply by (intro pexit_ok) blast
qed simp

lemma pexit_length [simp]: "length (pexit info st e V) = length V"
  by (simp add: pexit_def Let_def split: sum.split)


text \<open>Every exit keeps the facility well-formed and releases the structure.\<close>

lemma semexit_state:
  assumes info: "info_ok info" and wf: "sem_wf info st"
  shows "vals (semexit info slot st) = foldr (pexit info st) (ents st slot) (vals st)"
    and "sema (semexit info slot st) = sema st" and "semmap (semexit info slot st) = semmap st"
    and "ents (semexit info slot st) s = (if s = slot then [] else ents st s)"
    and "sem_undo (semexit info slot st) slot = None" and "undo_ok info (semexit info slot st)"
proof -
  have ok: "undo_ok info st" using wf by (simp add: sem_wf_def)
  note f = semexit_fold [OF info]
  show "vals (semexit info slot st) = foldr (pexit info st) (ents st slot) (vals st)"
    "sema (semexit info slot st) = sema st" "semmap (semexit info slot st) = semmap st"
    "sem_undo (semexit info slot st) slot = None"
    using f by (auto simp: semexit_def ents_def Let_def split: option.split)
  have "ents (semexit info slot st) s = (if s = slot then [] else ents st s) \<and> undo_ok info (semexit info slot st)"
  proof (cases "sem_undo st slot")
    case (Some up)
    have eq: "semu (semexit info slot st) = (semu st)(up := [])"
      "sem_undo (semexit info slot st) = (sem_undo st)(slot := None)"
      "semfup (semexit info slot st) = up # semfup st"
      "semunp (semexit info slot st) = remove1 up (semunp st)"
      using Some f ok by (auto simp: semexit_def Let_def remove1_idem undo_ok_def)
    have only: "sem_undo st s' = Some up \<Longrightarrow> s' = slot" for s' using undo_okD(3) [OF ok] Some by blast
    have new: "ents (semexit info slot st) s = (if s = slot then [] else ents st s)"
    proof (cases "s = slot")
      case False
      with only [of s] have "sem_undo st s \<noteq> Some up" by blast
      with False show ?thesis by (simp add: ents_def eq split: option.split)
    qed (simp add: ents_def eq)
    have fresh: "up \<notin> ran ((sem_undo st)(slot := None))" using only by (auto simp: ran_def)
    have sub: "ran ((sem_undo st)(slot := None)) \<subseteq> ran (sem_undo st)" by (auto simp: ran_def split: if_splits)
    have "us_ok info []" using info by (simp add: us_ok_def info_ok_def)
    moreover have "up \<notin> set (semfup st)" using ok Some by (auto simp: undo_ok_def ran_def)
    ultimately have "undo_ok info (semexit info slot st)"
      using ok fresh sub unfolding undo_ok_def eq by (auto split: if_splits)
    with new show ?thesis by blast
  qed (use ok in \<open>auto simp: semexit_def ents_def split: option.split\<close>)
  then show "ents (semexit info slot st) s = (if s = slot then [] else ents st s)"
    and "undo_ok info (semexit info slot st)" by blast+
qed

lemma semexit_wf:
  assumes info: "info_ok info" and wf: "sem_wf info st"
  shows "sem_wf info (semexit info slot st)"
proof -
  note e = semexit_state [OF info wf]
  have len: "length (foldr (pexit info st) us V) = length V" for us V by (induction us) simp_all
  have "length (sems (semexit info slot st)) = length (sems st)"
    using arg_cong [OF e(1), of length] len by simp
  moreover have "val_ok info (vals (semexit info slot st))"
    unfolding e(1) using wf by (intro pexit_fold_ok) (simp add: sem_wf_def)
  ultimately show ?thesis using wf e(2,6) by (simp add: sem_wf_def sets_ok_def)
qed

section \<open>Taking with \<^verbatim>\<open>SEM_UNDO\<close> and exiting\<close>

lemma aoe_of_mem:
  "sorted_wrt before us \<Longrightarrow> e \<in> set us \<Longrightarrow> aoe_of us (un_id e) (un_num e) = un_aoe e"
  by (induction us) (auto simp: before_def)

lemma aoe_of_nonzero: "aoe_of us i n \<noteq> 0 \<Longrightarrow> \<exists>e \<in> set us. un_id e = i \<and> un_num e = n"
  by (induction us) (auto split: if_splits)

text \<open>Applying the entries of one set, all of them applicable, adds the adjustments.\<close>

lemma pexit_fold_adds:
  assumes conv: "semconv info sid st = Inr i"
  shows "\<lbrakk>sorted_wrt before us; \<forall>e \<in> set us. un_id e = sid;
      \<forall>e \<in> set us. sem_base (sema st ! i) + un_num e < length V
         \<and> 0 \<le> V ! (sem_base (sema st ! i) + un_num e) + un_aoe e
         \<and> V ! (sem_base (sema st ! i) + un_num e) + un_aoe e \<le> semvmx info\<rbrakk> \<Longrightarrow>
    length (foldr (pexit info st) us V) = length V
    \<and> (\<forall>k < length V. foldr (pexit info st) us V ! k =
         V ! k + (if k < sem_base (sema st ! i) then 0 else aoe_of us sid (k - sem_base (sema st ! i))))"
proof (induction us)
  case (Cons e us)
  define b W where "b = sem_base (sema st ! i)" and "W = foldr (pexit info st) us V"
  have later: "un_num w \<noteq> un_num e" if "w \<in> set us" for w
  proof -
    have "before e w" "un_id w = un_id e" using Cons.prems(1,2) that by simp_all
    then show ?thesis unfolding before_def by linarith
  qed
  then have zero: "aoe_of us sid (un_num e) = 0" by (intro aoe_of_none) blast
  have IH: "length W = length V" "k < length V \<Longrightarrow> W ! k = V ! k + (if k < b then 0 else aoe_of us sid (k - b))" for k
    using Cons by (auto simp: b_def W_def)
  have e: "un_id e = sid" "b + un_num e < length V" "0 \<le> V ! (b + un_num e) + un_aoe e"
    "V ! (b + un_num e) + un_aoe e \<le> semvmx info"
    using Cons.prems(2,3) by (auto simp: b_def)
  have "W ! (b + un_num e) = V ! (b + un_num e)" using IH(2) [OF e(2)] zero by simp
  with e IH(1) have step: "foldr (pexit info st) (e # us) V = W[b + un_num e := V ! (b + un_num e) + un_aoe e]"
    by (simp add: pexit_def conv Let_def W_def b_def)
  have "W[b + un_num e := V ! (b + un_num e) + un_aoe e] ! k =
      V ! k + (if k < b then 0 else aoe_of (e # us) sid (k - b))" if "k < length V" for k
    using IH(1) IH(2) [OF that] e that by (auto simp: nth_list_update)
  then show ?case unfolding step using IH(1) by (simp add: b_def)
qed simp

lemma sums_agree: "\<forall>op \<in> set ops. undo_op op \<Longrightarrow> b \<le> k \<Longrightarrow> undo_sum ops (k - b) = ops_sum b ops k"
  by (induction ops) auto

lemma ops_sum_below: "k < b \<Longrightarrow> ops_sum b ops k = 0"
  by (induction ops) auto

lemma ops_sum_outside: "\<forall>op \<in> set ops. b + sem_num op < n \<Longrightarrow> \<not> k < n \<Longrightarrow> ops_sum b ops k = 0"
  by (induction ops) auto

lemma semconv_otime:
  "i < length (sema st) \<Longrightarrow> sema st' = (sema st)[i := (sema st ! i)\<lparr>sem_otime := t\<rparr>] \<Longrightarrow>
   semconv info sid st' = semconv info sid st"
  by (cases "nat (sid mod semmni info) = i") (simp_all add: semconv_def)

lemma exit_undoes:
  assumes info: "info_ok info" and wf: "sem_wf info st" "sem_wf info st'" and i: "semconv info sid st = Inr i"
    and sema: "sema st' = (sema st)[i := (sema st ! i)\<lparr>sem_otime := now\<rparr>]" and none: "ents st slot = []"
    and tally: "tally sid (sem_base (sema st ! i)) ops (vals st) (ents st slot) (vals st') (ents st' slot)"
    and undo: "\<forall>op \<in> set ops. undo_op op" and nums: "\<forall>op \<in> set ops. sem_base (sema st ! i) + sem_num op < length (sems st)"
  shows "vals (semexit info slot st') = vals st"
proof -
  define b us where "b = sem_base (sema st ! i)" and "us = ents st' slot"
  have sets: "sets_ok info st" using wf by (simp add: sem_wf_def)
  note il = semconv_Inr(1) [OF info sets i]
  have i': "semconv info sid st' = Inr i" using semconv_otime [OF il sema] i by simp
  have b': "sem_base (sema st' ! i) = b" using sema il by (simp add: b_def)
  have ok: "us_ok info us" using wf(2) undo_okD(2) by (simp add: sem_wf_def us_def)
  have srt: "sorted_wrt before us" using ok by (simp add: us_ok_def)
  have len: "length (vals st') = length (vals st)" using tally by (simp add: tally_def)
  have val: "vals st' ! k = vals st ! k + ops_sum b ops k" if "k < length (vals st)" for k
    using tally that unfolding tally_def b_def by blast
  have aoe: "aoe_of us j n = (if j = sid then - undo_sum ops n else 0)" for j n
    using tally none by (simp add: tally_def us_def)
  have ent: "un_id e = sid \<and> un_aoe e = - undo_sum ops (un_num e)" if "e \<in> set us" for e
    using aoe_of_mem [OF srt that] aoe [of "un_id e" "un_num e"] ok that by (auto simp: us_ok_def split: if_splits)
  have adj: "un_aoe e = - ops_sum b ops (b + un_num e)" "b + un_num e < length (vals st)" if "e \<in> set us" for e
  proof -
    show eq: "un_aoe e = - ops_sum b ops (b + un_num e)"
      using ent [OF that] sums_agree [OF undo, of b "b + un_num e"] by simp
    show "b + un_num e < length (vals st)"
    proof (rule ccontr)
      assume "\<not> ?thesis"
      then have "ops_sum b ops (b + un_num e) = 0"
        using nums by (intro ops_sum_outside [of _ _ "length (sems st)"]) (simp_all add: b_def)
      then show False using eq ok that by (auto simp: us_ok_def)
    qed
  qed
  have rng: "0 \<le> vals st ! k \<and> vals st ! k \<le> semvmx info" if "k < length (vals st)" for k
    using wf(1) nth_mem [OF that] unfolding sem_wf_def by blast
  have fold: "length (foldr (pexit info st') us (vals st')) = length (vals st')
    \<and> (\<forall>k < length (vals st'). foldr (pexit info st') us (vals st') ! k =
         vals st' ! k + (if k < b then 0 else aoe_of us sid (k - b)))"
  proof (rule pexit_fold_adds [OF i' srt, unfolded b']; intro ballI)
    fix e assume e: "e \<in> set us"
    show "un_id e = sid" using ent [OF e] by simp
    show "b + un_num e < length (vals st') \<and> 0 \<le> vals st' ! (b + un_num e) + un_aoe e
        \<and> vals st' ! (b + un_num e) + un_aoe e \<le> semvmx info"
      unfolding val [OF adj(2) [OF e]] adj(1) [OF e] len using rng [OF adj(2) [OF e]] adj(2) [OF e] by simp
  qed
  have "vals (semexit info slot st') = foldr (pexit info st') us (vals st')"
    using semexit_state(1) [OF info wf(2)] by (simp add: us_def)
  also have "\<dots> = vals st"
  proof (rule nth_equalityI)
    show "length (foldr (pexit info st') us (vals st')) = length (vals st)" using fold len by simp
    fix k assume "k < length (foldr (pexit info st') us (vals st'))"
    then have k: "k < length (vals st)" using fold len by simp
    show "foldr (pexit info st') us (vals st') ! k = vals st ! k"
      using fold k len val [OF k] aoe [of sid "k - b"] sums_agree [OF undo, of b k] ops_sum_below [of k b ops]
      by (cases "k < b") simp_all
  qed
  finally show ?thesis .
qed



end
