(* ===== verification/Sem_Sets.thy ===== *)
theory Sem_Sets
  imports Sem_Exit
begin

text \<open>
  The semaphore sets as clients of the resource map: \<^verbatim>\<open>semget\<close> and \<^verbatim>\<open>IPC_RMID\<close> keep the ranges of
  \<^verbatim>\<open>sem[]\<close> that belong to different sets, and the free ranges, apart from each other. With the
  results on \<^verbatim>\<open>semop\<close> and \<^verbatim>\<open>semexit\<close> this gives the invariant of every reachable state.
\<close>

section \<open>The invariant\<close>

definition sem_block :: "semid_ds \<Rightarrow> u32 \<times> u32" where
  "sem_block sp = (of_nat (sem_base sp) + 1, of_nat (sem_nsems sp))"

definition held :: "semid_ds list \<Rightarrow> (u32 \<times> u32) list" where
  "held sps = map sem_block (filter (\<lambda>sp. allocated (sem_perm sp)) sps)"

definition map_ok :: "semstate \<Rightarrow> bool" where
  "map_ok st \<longleftrightarrow>
     rm_wf (semmap st) \<and> blocks_ok (units (semmap st)) (held (sema st))
     \<and> units (semmap st) \<union> blocks_units (held (sema st)) \<subseteq> {1..length (sems st)}"

definition sem_inv :: "seminfo \<Rightarrow> semstate \<Rightarrow> bool" where
  "sem_inv info st \<longleftrightarrow> sem_wf info st \<and> map_ok st \<and> keys_unique (map sem_perm (sema st))"

lemma held_append [simp]: "held (xs @ ys) = held xs @ held ys"
  by (simp add: held_def)

lemma held_Cons: "held (sp # sps) = (if allocated (sem_perm sp) then [sem_block sp] else []) @ held sps"
  by (simp add: held_def)

lemma held_update:
  assumes "i < length sps"
  shows "held (sps[i := sp]) =
    held (take i sps) @ (if allocated (sem_perm sp) then [sem_block sp] else []) @ held (drop (Suc i) sps)"
  using assms by (simp add: upd_conv_take_nth_drop held_Cons)

lemma held_nth:
  assumes "i < length sps"
  shows "held sps =
    held (take i sps) @ (if allocated (sem_perm (sps ! i)) then [sem_block (sps ! i)] else []) @ held (drop (Suc i) sps)"
  using held_update [OF assms, of "sps ! i"] by simp

lemma held_same:
  assumes "i < length sps" "allocated (sem_perm sp) = allocated (sem_perm (sps ! i))"
    and "sem_base sp = sem_base (sps ! i)" "sem_nsems sp = sem_nsems (sps ! i)"
  shows "held (sps[i := sp]) = held sps"
  using assms by (simp add: held_update held_nth [OF assms(1)] sem_block_def)

text \<open>Steps that keep the ranges of the sets and the map keep this part of the invariant.\<close>

lemma map_ok_cong:
  assumes "map_ok st" "semmap st' = semmap st" "held (sema st') = held (sema st)" "length (sems st') = length (sems st)"
  shows "map_ok st'"
  using assms by (simp add: map_ok_def)

lemma sets_ok_perm:
  assumes "sets_ok info st" "i < length (sema st)" "sema st' = (sema st)[i := sp]" "length (sems st') = length (sems st)"
    and "allocated (sem_perm sp) \<Longrightarrow> sem_base sp + sem_nsems sp \<le> length (sems st)"
  shows "sets_ok info st'"
  using assms unfolding sets_ok_def by (auto dest!: subsetD [OF set_update_subset_insert])

section \<open>Steps that only write semaphores\<close>

definition sems_only :: "semstate \<Rightarrow> semstate \<Rightarrow> bool" where
  "sems_only st st' \<longleftrightarrow>
     sema st' = sema st \<and> semmap st' = semmap st \<and> semu st' = semu st \<and> sem_undo st' = sem_undo st
     \<and> semunp st' = semunp st \<and> semfup st' = semfup st \<and> length (sems st') = length (sems st)"

lemma sems_only_refl [simp]: "sems_only st st"
  by (simp add: sems_only_def)

lemma sems_only_trans: "sems_only st st' \<Longrightarrow> sems_only st' st'' \<Longrightarrow> sems_only st st''"
  by (simp add: sems_only_def)

lemma sems_only_steps [simp]:
  "sems_only st (set_sem k f st') = sems_only st st'" "sems_only st (wake_sem c st') = sems_only st st'"
  "sems_only st (wake_ncnt k st') = sems_only st st'" "sems_only st (wake_zcnt k st') = sems_only st st'"
  by (simp_all add: sems_only_def wake_ncnt_def wake_zcnt_def)

lemma sem_inv_sems:
  assumes "sem_inv info st" "sems_only st st'" "val_ok info (vals st')"
  shows "sem_inv info st'"
proof -
  have "undo_ok info st' = undo_ok info st" using assms(2) by (intro undo_ok_sems) (simp_all add: sems_only_def)
  with assms show ?thesis
    unfolding sem_inv_def sem_wf_def sems_only_def sets_ok_def map_ok_def by presburger
qed

lemma sem_inv_vals: "sem_inv info st \<Longrightarrow> val_ok info (vals st)"
  unfolding sem_inv_def sem_wf_def by blast

lemma val_ok_update: "val_ok info V \<Longrightarrow> 0 \<le> v \<Longrightarrow> v \<le> semvmx info \<Longrightarrow> val_ok info (V[k := v])"
  using set_update_subset_insert [of V k v] by blast

lemma sem_inv_set_sem:
  assumes "sem_inv info st" and "\<And>s. semval (f s) = semval s"
  shows "sem_inv info (set_sem k f st)"
proof -
  have "vals (set_sem k f st) = vals st" using assms(2) by (rule vals_same)
  with sem_inv_vals [OF assms(1)] have "val_ok info (vals (set_sem k f st))" by argo
  then show ?thesis by (rule sem_inv_sems [OF assms(1), rotated]) simp
qed

lemma sem_inv_wake:
  assumes "sem_inv info st"
  shows "sem_inv info (wake_sem c st)" "sem_inv info (wake_ncnt k st)" "sem_inv info (wake_zcnt k st)"
proof -
  have w: "sem_inv info (wake_sem c st)" if "sem_inv info st" for c st
    by (rule sem_inv_sems [OF that]) (use sem_inv_vals [OF that] in simp_all)
  then show "sem_inv info (wake_sem c st)" using assms by blast
  show "sem_inv info (wake_ncnt k st)" "sem_inv info (wake_zcnt k st)"
    unfolding wake_ncnt_def wake_zcnt_def using assms by (auto intro!: w sem_inv_set_sem)
qed

lemma sem_inv_put:
  assumes "sem_inv info st" and "0 \<le> v" "v \<le> semvmx info" and "\<And>s. semval (f s) = v"
  shows "sem_inv info (set_sem k f st)"
proof -
  have "vals (set_sem k f st) = (vals st)[k := v]" using assms(4) by (simp add: map_update)
  with val_ok_update [OF sem_inv_vals [OF assms(1)] assms(2,3), of k]
  have "val_ok info (vals (set_sem k f st))" by argo
  then show ?thesis by (rule sem_inv_sems [OF assms(1), rotated]) simp
qed

lemma sem_inv_clear:
  assumes "info_ok info" "sem_inv info st"
  shows "sem_inv info (sem_clear k st)"
proof -
  have "sem_inv info (set_sem k (\<lambda>s. s\<lparr>semval := 0, sempid := 0\<rparr>) st)"
    by (rule sem_inv_put [OF assms(2), of 0]) (use assms(1) in \<open>simp_all add: info_ok_def\<close>)
  then show ?thesis unfolding sem_clear_def Let_def by (auto intro!: sem_inv_set_sem sem_inv_wake)
qed

lemma sem_clear_all_keeps:
  assumes "info_ok info"
  shows "sem_inv info st \<Longrightarrow> sem_inv info (sem_clear_all k n st) \<and> sems_only st (sem_clear_all k n st)"
proof (induction n arbitrary: k st)
  case (Suc n)
  have "sems_only st (sem_clear k st)" by (simp add: sem_clear_def Let_def)
  then show ?case using Suc.IH [OF sem_inv_clear [OF assms Suc.prems], of "Suc k" k] sems_only_trans by auto
qed simp

lemma sem_inv_store:
  assumes "info_ok info" "sem_inv info st" "0 \<le> v" "v \<le> semvmx info"
  shows "sem_inv info (sem_store pid k v st)"
proof -
  have "to_ushort v = v" using assms(1,3,4) by (intro to_ushort_id) (simp_all add: info_ok_def)
  then have "sem_inv info (set_sem k (\<lambda>s. s\<lparr>semval := to_ushort v\<rparr>) st)"
    using assms by (intro sem_inv_put [of info st v]) simp_all
  then show ?thesis unfolding sem_store_def Let_def by (auto intro!: sem_inv_set_sem sem_inv_wake)
qed

lemma sem_inv_store_all:
  "\<lbrakk>info_ok info; sem_inv info st; \<forall>v \<in> set vs. 0 \<le> v \<and> v \<le> semvmx info\<rbrakk> \<Longrightarrow>
   sem_inv info (sem_store_all pid k vs st)"
  by (induction vs arbitrary: k st) (simp_all add: sem_inv_store)

lemma sem_inv_unrm: "sem_inv info st \<Longrightarrow> sem_inv info (semunrm sid low high st)"
  using semunrm_ok(1) unfolding sem_inv_def sem_wf_def sets_ok_def map_ok_def semunrm_frame by blast

lemma sem_inv_exit:
  assumes "info_ok info" "sem_inv info st"
  shows "sem_inv info (semexit info slot st)"
proof -
  have wf: "sem_wf info st" using assms(2) by (simp add: sem_inv_def)
  note e = semexit_state [OF assms(1) wf, of slot]
  have "length (foldr (pexit info st) us V) = length V" for us V by (induction us) simp_all
  then have "length (sems (semexit info slot st)) = length (sems st)"
    using arg_cong [OF e(1), of length] by simp
  with assms(2) semexit_wf [OF assms(1) wf] show ?thesis unfolding sem_inv_def map_ok_def e(2,3) by simp
qed

section \<open>Operations on sets\<close>

lemma sem_inv_sema:
  assumes inv: "sem_inv info st" and i: "i < length (sema st)" and sema: "sema st' = (sema st)[i := sp]"
    and same: "allocated (sem_perm sp) = allocated (sem_perm (sema st ! i))" "allocated (sem_perm (sema st ! i))"
      "sem_base sp = sem_base (sema st ! i)" "sem_nsems sp = sem_nsems (sema st ! i)"
      "ip_key (sem_perm sp) = ip_key (sem_perm (sema st ! i))"
    and rest: "semmap st' = semmap st" "length (sems st') = length (sems st)" "undo_ok info st'" "val_ok info (vals st')"
  shows "sem_inv info st'"
proof -
  have sets: "sets_ok info st" using inv by (simp add: sem_inv_def sem_wf_def)
  have "sem_base (sema st ! i) + sem_nsems (sema st ! i) \<le> length (sems st)"
    using sets same(2) nth_mem [OF i] unfolding sets_ok_def by blast
  then have 1: "sets_ok info st'" using sets_ok_perm [OF sets i sema rest(2)] same(3,4) by simp
  have "held (sema st') = held (sema st)" unfolding sema by (rule held_same [OF i same(1,3,4)])
  moreover have "map_ok st" using inv by (simp add: sem_inv_def)
  ultimately have 2: "map_ok st'" using rest(1,2) map_ok_cong by blast
  have k: "keys_unique (map sem_perm (sema st))" using inv by (simp add: sem_inv_def)
  have 3: "keys_unique (map sem_perm (sema st'))" unfolding sema map_update
    by (rule keys_unique_update [OF k]) (simp_all add: i same(2,5))
  show ?thesis using 1 2 3 rest(3,4) unfolding sem_inv_def sem_wf_def by blast
qed

lemma sem_inv_pass:
  assumes info: "info_ok info" and inv: "sem_inv info st" and i: "semconv info sid st = Inr i"
    and r: "pass_result info slot now sid i ops st r st'"
  shows "sem_inv info st'"
proof -
  have wf: "sem_wf info st" "sem_wf info st'" and sets: "sets_ok info st"
    using inv r by (simp_all add: sem_inv_def sem_wf_def pass_result_def)
  note c = semconv_Inr [OF info sets i]
  show ?thesis
  proof (cases "r = SemDone")
    case True
    then have sema: "sema st' = (sema st)[i := (sema st ! i)\<lparr>sem_otime := now\<rparr>]" and mp: "semmap st' = semmap st"
      and t: "tally sid (sem_base (sema st ! i)) ops (vals st) (ents st slot) (vals st') (ents st' slot)"
      using r unfolding pass_result_def by blast+
    have len: "length (sems st') = length (sems st)" using t by (simp add: tally_def)
    show ?thesis
      by (rule sem_inv_sema [OF inv c(1) sema]) (use c(2) mp len wf(2) in \<open>simp_all add: sem_wf_def\<close>)
  next
    case False
    then have u: "unchanged st st'" using r by (simp add: pass_result_def)
    then have "length (sems st') = length (sems st)" unfolding unchanged_def by (metis map_eq_imp_length_eq)
    with u inv wf(2) show ?thesis unfolding sem_inv_def map_ok_def unchanged_def by simp
  qed
qed

lemma sem_inv_op:
  assumes info: "info_ok info" and inv: "sem_inv info st" and r: "semop info u now sid nsops uops st = (r, st')"
  shows "sem_inv info st'"
proof -
  have wf: "sem_wf info st" using inv by (simp add: sem_inv_def)
  note c = semop_contract [OF info wf r]
  show ?thesis
  proof (cases "\<exists>i. semconv info sid st = Inr i")
    case True
    then obtain i where i: "semconv info sid st = Inr i" by blast
    with c have "pass_result info (p_slot u) now sid i (the uops) st r st'"
      unfolding pass_result_def by auto
    then show ?thesis by (rule sem_inv_pass [OF info inv i])
  next
    case False
    with r have "st' = st" by (auto simp: semop_def split: sum.splits)
    with inv show ?thesis by simp
  qed
qed

lemma allocated_setperm: "allocated (sem_perm (sem_setperm now new sp))"
  by (simp add: sem_setperm_def allocated_bit ipc_consts bit_simps)

lemma sem_inv_setperm:
  assumes "info_ok info" "sem_inv info st" "semconv info sid st = Inr i"
  shows "sem_inv info (set_sema i (sem_setperm now new) st)"
proof -
  have sets: "sets_ok info st" and ok: "undo_ok info st" "val_ok info (vals st)"
    using assms(2) by (simp_all add: sem_inv_def sem_wf_def)
  note c = semconv_Inr [OF assms(1) sets assms(3)]
  show ?thesis
    by (rule sem_inv_sema [OF assms(2) c(1) set_sema_keeps(5)])
       (use c(2) allocated_setperm ok in \<open>simp_all add: sem_setperm_def\<close>)
qed

text \<open>\<^verbatim>\<open>IPC_RMID\<close> gives the range back; the map never overflows its array.\<close>

lemma sem_block_range:
  assumes "sem_inv info st" "i < length (sema st)" "allocated (sem_perm (sema st ! i))"
  shows "blocks_ok (units (semmap st))
      (held (take i (sema st)) @ sem_block (sema st ! i) # held (drop (Suc i) (sema st)))"
    and "held (sema st) = held (take i (sema st)) @ sem_block (sema st ! i) # held (drop (Suc i) (sema st))"
  using assms held_nth [OF assms(2)] by (simp_all add: sem_inv_def map_ok_def)

lemma sem_inv_drop:
  assumes inv: "sem_inv info st" and i: "i < length (sema st)" and sema: "sema st' = (sema st)[i := sp]"
    and gone: "\<not> allocated (sem_perm sp)"
    and rest: "length (sems st') = length (sems st)" "undo_ok info st'" "val_ok info (vals st')"
    and mp: "rm_wf (semmap st')" "blocks_ok (units (semmap st')) (held (take i (sema st)) @ held (drop (Suc i) (sema st)))"
      "units (semmap st') \<subseteq> {1..length (sems st)}"
  shows "sem_inv info st'"
proof -
  have sets: "sets_ok info st" using inv by (simp add: sem_inv_def sem_wf_def)
  have 1: "sets_ok info st'" using sets_ok_perm [OF sets i sema rest(1)] gone by simp
  have h: "held (sema st') = held (take i (sema st)) @ held (drop (Suc i) (sema st))"
    unfolding sema using gone by (simp add: held_update [OF i])
  have "set (held (take i (sema st)) @ held (drop (Suc i) (sema st))) \<subseteq> set (held (sema st))"
    using held_nth [OF i] by auto
  then have "blocks_units (held (sema st')) \<subseteq> {1..length (sems st)}"
    using inv unfolding h sem_inv_def map_ok_def blocks_units_def by blast
  then have 2: "map_ok st'" unfolding map_ok_def using mp rest(1) h by simp
  have 3: "keys_unique (map sem_perm (sema st'))" unfolding sema map_update
    by (rule keys_unique_release) (use inv gone in \<open>simp_all add: sem_inv_def\<close>)
  show ?thesis using 1 2 3 rest(2,3) unfolding sem_inv_def sem_wf_def by blast
qed

text \<open>The two ways a range can be given back.\<close>

lemma sem_release:
  assumes inv: "sem_inv info st" and i: "i < length (sema st)" "allocated (sem_perm (sema st ! i))"
  obtains mp w where "rmfree (semmap st) (of_nat (sem_nsems (sema st ! i))) (of_nat (sem_base (sema st ! i)) + 1) = RmDone mp w"
      "rm_wf mp" "blocks_ok (units mp) (held (take i (sema st)) @ held (drop (Suc i) (sema st)))"
      "units mp \<subseteq> {1..length (sems st)}"
  | "rmfree (semmap st) (of_nat (sem_nsems (sema st ! i))) (of_nat (sem_base (sema st ! i)) + 1) = RmLost (semmap st)"
      "rm_wf (semmap st)" "blocks_ok (units (semmap st)) (held (take i (sema st)) @ held (drop (Suc i) (sema st)))"
      "units (semmap st) \<subseteq> {1..length (sems st)}"
proof -
  have wf: "rm_wf (semmap st)" and all: "units (semmap st) \<union> blocks_units (held (sema st)) \<subseteq> {1..length (sems st)}"
    using inv by (simp_all add: sem_inv_def map_ok_def)
  note b = sem_block_range [OF inv i]
  note rel = rm.release_held [OF wf b(1) [unfolded sem_block_def]]
  show thesis
    using rel that all wf unfolding b(2) sem_block_def by blast
qed

lemma sem_inv_rmid:
  assumes info: "info_ok info" and inv: "sem_inv info st" and i: "semconv info sid st = Inr i"
  shows "\<exists>r st'. sem_rmid info u sid i st = Some (r, st') \<and> sem_inv info st'"
proof (cases "not_owner (u_cred u) (sem_perm (sema st ! i))")
  case True
  with inv show ?thesis by (simp add: sem_rmid_def)
next
  case owner: False
  define sp where "sp = sema st ! i"
  define st1 where "st1 = sem_clear_all (sem_base sp) (sem_nsems sp) (semunrm sid 0 (sem_nsems sp) st)"
  have s: "sem_inv info st1 \<and> sems_only (semunrm sid 0 (sem_nsems sp) st) st1"
    unfolding st1_def by (rule sem_clear_all_keeps [OF info sem_inv_unrm [OF inv]])
  then have inv1: "sem_inv info st1" and sema: "sema st1 = sema st" and mp: "semmap st1 = semmap st"
    and len: "length (sems st1) = length (sems st)"
    by (simp_all add: sems_only_def)
  have sets: "sets_ok info st" using inv by (simp add: sem_inv_def sem_wf_def)
  note c = semconv_Inr [OF info sets i]
  have i1: "i < length (sema st1)" "allocated (sem_perm (sema st1 ! i))" using c sema by simp_all
  define finish where "finish = set_sema i (\<lambda>sp. sp\<lparr>sem_perm := (sem_perm sp)
               \<lparr>ip_seq := (if sid + semmni info < 0 \<or> sid + semmni info > INT16_MAX then 0
                          else ip_seq (sem_perm sp) + 1), ip_mode := 0\<rparr>\<rparr>)"
  have fin: "sem_inv info (finish (st2\<lparr>semmap := m\<rparr>))"
    if "st2 = st1 \<or> st2 = wake_sem SemMap st1" "rm_wf m" "units m \<subseteq> {1..length (sems st1)}"
      "blocks_ok (units m) (held (take i (sema st1)) @ held (drop (Suc i) (sema st1)))" for st2 m
  proof (rule sem_inv_drop [OF inv1 i1(1)])
    show "sema (finish (st2\<lparr>semmap := m\<rparr>)) = (sema st1)[i := (sema st1 ! i)\<lparr>sem_perm := (sem_perm (sema st1 ! i))
       \<lparr>ip_seq := (if sid + semmni info < 0 \<or> sid + semmni info > INT16_MAX then 0
                  else ip_seq (sem_perm (sema st1 ! i)) + 1), ip_mode := 0\<rparr>\<rparr>]"
      using that(1) by (auto simp: finish_def)
    have "undo_ok info (st2\<lparr>semmap := m\<rparr>) = undo_ok info st1"
      by (rule undo_ok_sems) (use that(1) in auto)
    then show "undo_ok info (finish (st2\<lparr>semmap := m\<rparr>))"
      using inv1 by (simp add: finish_def sem_inv_def sem_wf_def)
    show "val_ok info (vals (finish (st2\<lparr>semmap := m\<rparr>)))" "length (sems (finish (st2\<lparr>semmap := m\<rparr>))) = length (sems st1)"
      using that(1) sem_inv_vals [OF inv1] by (auto simp: finish_def)
  qed (use that in \<open>auto simp: finish_def allocated_def\<close>)
  have eq: "sem_rmid info u sid i st =
     (case rmfree (semmap st1) (of_nat (sem_nsems (sema st1 ! i))) (of_nat (sem_base (sema st1 ! i)) + 1) of
              RmFault \<Rightarrow> None
            | RmLost mp \<Rightarrow> Some (Inr (SVal 0), finish (st1\<lparr>semmap := mp\<rparr>))
            | RmDone mp w \<Rightarrow>
                Some (Inr (SVal 0), finish ((if w then wake_sem SemMap st1 else st1)\<lparr>semmap := mp\<rparr>)))"
    using owner unfolding sem_rmid_def Let_def sp_def [symmetric] st1_def [symmetric] finish_def [symmetric] sema
    by simp
  from inv1 i1 show ?thesis
  proof (cases rule: sem_release)
    case (1 m w)
    then show ?thesis unfolding eq using fin [of _ m] by simp
  next
    case 2
    then show ?thesis unfolding eq using fin [of st1 "semmap st1"] by simp
  qed
qed

lemma sem_inv_ctl:
  assumes info: "info_ok info" and inv: "sem_inv info st"
    and vals: "\<And>vs. a_vals arg = Some vs \<Longrightarrow> \<forall>v \<in> set vs. 0 \<le> v"
  shows "\<exists>r st'. semctl info u now sid num cmd arg st = Some (r, st') \<and> sem_inv info st'"
proof (cases "semconv info sid st")
  case (Inr i)
  have set: "sem_inv info (snd (sem_oset u now i (a_perm arg) st))" "sem_inv info (snd (sem_set u now i (a_perm arg) st))"
    using sem_inv_setperm [OF info inv Inr] inv by (auto simp: sem_oset_def sem_set_def split: option.split)
  have stat: "snd (sem_ostat u i out st) = st" "snd (sem_stat u i out st) = st" "snd (sem_get1 g u i num st) = st"
    "snd (sem_getall u i out' st) = st" for out out' g
    by (simp_all add: sem_ostat_def sem_stat_def sem_get1_def sem_getall_def Let_def split: option.split)
  have setval: "sem_inv info (snd (sem_setval info u sid i num v st))" for v
    using sem_inv_store [OF info inv] inv
    by (auto simp: sem_setval_def Let_def intro!: sem_inv_unrm split: option.split)
  have setall: "sem_inv info (snd (sem_setall info u sid i (a_vals arg) st))"
    using sem_inv_store_all [OF info sem_inv_unrm [OF inv]] inv vals
    by (fastforce simp: sem_setall_def Let_def split: option.split)
  have "\<exists>r st'. Some x = Some (r, st') \<and> sem_inv info st'" if "sem_inv info (snd x)" for x :: "(errno + semctl_val) \<times> semstate"
    using that by (cases x) simp
  then show ?thesis
    unfolding semctl_def Inr sum.case
    using sem_inv_rmid [OF info inv Inr] set stat setval setall inv by (simp split: semcmd.split)
qed (use inv in \<open>simp add: semctl_def\<close>)

section \<open>\<^verbatim>\<open>semget\<close>\<close>

lemma set_perms_nth:
  assumes "length ps = length sps"
  shows "length (set_perms ps sps) = length sps"
    and "j < length sps \<Longrightarrow> set_perms ps sps ! j = (sps ! j)\<lparr>sem_perm := ps ! j\<rparr>"
    and "map sem_perm (set_perms ps sps) = ps"
  using assms by (auto simp: set_perms_def intro: nth_equalityI)

lemma set_perms_same: "set_perms (map sem_perm sps) sps = sps"
  by (induction sps) (simp_all add: set_perms_def)

lemma set_perms_update:
  assumes "i < length sps"
  shows "set_perms ((map sem_perm sps)[i := p]) sps = sps[i := (sps ! i)\<lparr>sem_perm := p\<rparr>]"
proof (rule nth_equalityI)
  show "length (set_perms ((map sem_perm sps)[i := p]) sps) = length (sps[i := (sps ! i)\<lparr>sem_perm := p\<rparr>])"
    by (simp add: set_perms_def)
  fix j assume "j < length (set_perms ((map sem_perm sps)[i := p]) sps)"
  then show "set_perms ((map sem_perm sps)[i := p]) sps ! j = sps[i := (sps ! i)\<lparr>sem_perm := p\<rparr>] ! j"
    by (cases "j = i") (simp_all add: set_perms_def nth_list_update)
qed

text \<open>A free entry that stays free: the failed creation.\<close>

lemma sem_inv_unclaimed:
  assumes inv: "sem_inv info st" and i: "i < length (sema st)" "\<not> allocated (sem_perm (sema st ! i))"
    and sema: "sema st' = (sema st)[i := sp]" and gone: "\<not> allocated (sem_perm sp)"
    and rest: "semmap st' = semmap st" "sems st' = sems st" "undo_ok info st' = undo_ok info st"
  shows "sem_inv info st'"
proof (rule sem_inv_drop [OF inv i(1) sema gone])
  show "blocks_ok (units (semmap st')) (held (take i (sema st)) @ held (drop (Suc i) (sema st)))"
    and "rm_wf (semmap st')" and "units (semmap st') \<subseteq> {1..length (sems st)}"
    using inv held_nth [OF i(1)] i(2) rest(1) by (simp_all add: sem_inv_def map_ok_def)
qed (use inv rest in \<open>simp_all add: sem_inv_def sem_wf_def\<close>)

text \<open>A new set: its range comes out of the free units and nobody else has it.\<close>

lemma sem_inv_created:
  assumes info: "info_ok info" and inv: "sem_inv info st" and i: "i < length (sema st)" "\<not> allocated (sem_perm (sema st ! i))"
    and a: "rmalloc (semmap st) (of_nat n) = Some (a, mp)" "a \<noteq> 0" "0 < n" "n < 2 ^ 32"
    and sema: "sema st' = (sema st)[i := sp]" "sem_base sp = unat (a - 1)" "sem_nsems sp = n" "allocated (sem_perm sp)"
    and rest: "semmap st' = mp" "sems st' = sems st" "undo_ok info st' = undo_ok info st"
    and keys: "keys_unique (map sem_perm (sema st'))"
  shows "sem_inv info st'"
proof -
  let ?xs = "held (take i (sema st))" and ?ys = "held (drop (Suc i) (sema st))"
  have mo: "rm_wf (semmap st)" "blocks_ok (units (semmap st)) (?xs @ ?ys)"
    "units (semmap st) \<union> blocks_units (?xs @ ?ys) \<subseteq> {1..length (sems st)}"
    using inv held_nth [OF i(1)] i(2) by (simp_all add: sem_inv_def map_ok_def)
  have un: "unat (of_nat n :: u32) = n" using a(4) by (simp add: unat_of_nat take_bit_nat_eq_self)
  have nz: "of_nat n \<noteq> (0 :: u32)" using un a(3) by (metis less_irrefl unat_0)
  note h = rm.alloc_held [OF mo(1,2) nz a(1,2)]
  have blk: "sem_block sp = (a, of_nat n)" using sema(2,3) by (simp add: sem_block_def)
  have "unat a + n - 1 \<in> block a (of_nat n)" using a(3) un by (auto simp: block_def)
  moreover have "block a (of_nat n) \<subseteq> blocks_units ((a, of_nat n) # ?xs @ ?ys)" by (auto simp: blocks_units_def)
  ultimately have "unat a + n - 1 \<in> {1..length (sems st)}" using h(2) mo(3) by blast
  then have "unat a + n - 1 \<le> length (sems st)" by simp
  moreover have "unat (a - 1) = unat a - 1" "0 < unat a"
    using a(2) by (simp_all add: unat_minus_one unat_gt_0)
  ultimately have "sem_base sp + sem_nsems sp \<le> length (sems st)" using sema(2,3) by simp
  moreover have sets: "sets_ok info st" using inv by (simp add: sem_inv_def sem_wf_def)
  ultimately have 1: "sets_ok info st'" using sets_ok_perm [OF sets i(1) sema(1)] rest(2) by simp
  have hd: "held (sema st') = ?xs @ (a, of_nat n) # ?ys"
    unfolding sema(1) using sema(4) by (simp add: held_update [OF i(1)] blk)
  have "blocks_units (held (sema st')) = blocks_units ((a, of_nat n) # ?xs @ ?ys)"
    unfolding hd blocks_units_def by auto
  with h mo(3) rm.alloc_inv [OF mo(1) a(1)] blocks_ok_perm [OF h(1)] hd rest have "map_ok st'"
    by (simp add: map_ok_def)
  with 1 keys inv rest show ?thesis by (simp add: sem_inv_def sem_wf_def)
qed

lemma sem_inv_get:
  assumes info: "info_ok info" and inv: "sem_inv info st" and msl: "semmsl info \<le> 65535"
  shows "\<exists>r st'. semget info u now key nsems flg st = Some (r, st') \<and> sem_inv info st'"
proof (cases "ipcget key flg (u_cred u) (map sem_perm (sema st))")
  case (Inr x)
  obtain i created ps where x: "x = (i, created, ps)" by (cases x)
  note g = ipcget_Inr [OF Inr [unfolded x]]
  have i: "i < length (sema st)" using g(1) by simp
  show ?thesis
  proof (cases created)
    case False
    then have "ps = map sem_perm (sema st)" using g(8) by blast
    then have "sema st = set_perms ps (sema st)" by (simp add: set_perms_same)
    then have "st\<lparr>sema := set_perms ps (sema st)\<rparr> = st" by simp
    with inv False show ?thesis unfolding semget_def Inr x by (simp add: Let_def)
  next
    case True
    define p where "p = ipc_init key flg (u_cred u) (sem_perm (sema st ! i))"
    have na: "\<not> allocated (sem_perm (sema st ! i))" and ps: "ps = (map sem_perm (sema st))[i := p]"
      using g(7) [OF True] i by (simp_all add: p_def)
    have keys: "keys_unique ps" using g(9) inv by (simp add: sem_inv_def)
    define st1 where "st1 = st\<lparr>sema := (sema st)[i := (sema st ! i)\<lparr>sem_perm := p\<rparr>]\<rparr>"
    have st1: "st\<lparr>sema := set_perms ps (sema st)\<rparr> = st1" unfolding st1_def ps set_perms_update [OF i] ..
    have u: "undo_ok info (st\<lparr>sema := z, semmap := m\<rparr>) = undo_ok info st" for z m by (rule undo_ok_sems) simp_all
    have u1: "undo_ok info st1 = undo_ok info st" unfolding st1_def by (rule undo_ok_sems) simp_all
    have fail: "sem_inv info (set_sema i (\<lambda>sp. sp\<lparr>sem_perm := (sem_perm sp)\<lparr>ip_mode := 0\<rparr>\<rparr>) st1)"
      by (rule sem_inv_unclaimed [OF inv i na, where sp = "(sema st ! i)\<lparr>sem_perm := p\<lparr>ip_mode := 0\<rparr>\<rparr>"])
         (use i u1 in \<open>simp_all add: st1_def allocated_def\<close>)
    have mp: "semmap st1 = semmap st" by (simp add: st1_def)
    show ?thesis
    proof (cases "nsems \<le> 0 \<or> nsems > semmsl info")
      case True
      with \<open>created\<close> fail show ?thesis unfolding semget_def Inr x by (simp add: Let_def st1)
    next
      case ns: False
      have wf: "rm_wf (semmap st)" using inv by (simp add: sem_inv_def map_ok_def)
      obtain a m where a: "rmalloc (semmap st) (of_int nsems) = Some (a, m)" using rmalloc_total [OF wf] by blast
      have small: "nat nsems < 2 ^ 32" using ns msl by (auto simp: nat_less_iff)
      have short: "nsems mod 65536 = nsems" using ns msl by (intro mod_pos_pos_trivial) linarith+
      have of: "of_int nsems = (of_nat (nat nsems) :: u32)" using ns by simp
      show ?thesis
      proof (cases "a = 0")
        case True
        have nz: "of_int nsems \<noteq> (0 :: u32)"
        proof -
          have "unat (of_nat (nat nsems) :: u32) = nat nsems" using small by (simp add: unat_of_nat take_bit_nat_eq_self)
          then show ?thesis unfolding of using ns by (metis nat_0_iff unat_0)
        qed
        have "m = semmap st" using rm.alloc_none [OF wf nz] a True by blast
        then have "st1\<lparr>semmap := m\<rparr> = st1" by (simp add: st1_def)
        with \<open>created\<close> ns a fail True mp show ?thesis unfolding semget_def Inr x by (simp add: Let_def st1)
      next
        case nz: False
        let ?f = "\<lambda>sp. sp\<lparr>sem_base := unat (a - 1), sem_nsems := nat (nsems mod 65536),
                                   sem_ctime := now, sem_otime := 0,
                                   sem_perm := (sem_perm sp)\<lparr>ip_pad := [0, 0, 0, 0]\<rparr>,
                                   sem_pad1 := 0, sem_pad2 := 0, sem_pad3 := [0, 0, 0, 0]\<rparr>"
        let ?new = "set_sema i ?f (st1\<lparr>semmap := m\<rparr>)"
        have all: "allocated (p\<lparr>ip_pad := [0, 0, 0, 0]\<rparr>)" using g(3) i by (simp add: ps allocated_def)
        have "keys_unique (ps[i := p\<lparr>ip_pad := [0, 0, 0, 0]\<rparr>])"
          by (rule keys_unique_update [OF keys]) (use i g(3) in \<open>simp_all add: ps\<close>)
        moreover have "map sem_perm (sema ?new) = ps[i := p\<lparr>ip_pad := [0, 0, 0, 0]\<rparr>]"
          using i by (simp add: st1_def ps map_update)
        ultimately have keys': "keys_unique (map sem_perm (sema ?new))" by simp
        have "sem_inv info ?new"
        proof (rule sem_inv_created [OF info inv i na _ nz, of "nat nsems" m])
          show "rmalloc (semmap st) (of_nat (nat nsems)) = Some (a, m)" using a of by simp
          show "0 < nat nsems" "nat nsems < 2 ^ 32" using ns small by simp_all
          show "sema ?new = (sema st)[i := ?f ((sema st ! i)\<lparr>sem_perm := p\<rparr>)]" using i by (simp add: st1_def)
        qed (use keys' all u short in \<open>simp_all add: st1_def\<close>)
        with \<open>created\<close> ns a nz mp show ?thesis unfolding semget_def Inr x by (simp add: Let_def st1)
      qed
    qed
  qed
qed (use inv in \<open>simp add: semget_def\<close>)

section \<open>Reachable states\<close>

text \<open>
  The configuration: sizes the tables were declared with. \<^verbatim>\<open>SEMMSL\<close> fits the \<^verbatim>\<open>ushort\<close> that holds the size of a set; of a larger set
  only the remainder would be given back.
\<close>

definition conf_ok :: "seminfo \<Rightarrow> bool" where
  "conf_ok info \<longleftrightarrow>
     info_ok info \<and> 2 \<le> si_semmap info \<and> si_semmap info < 2 ^ 31 \<and> 0 < semmns info \<and> semmns info < 2 ^ 31
     \<and> semmsl info \<le> 65535"

text \<open>The state at boot: the arrays declared and zero, before \<^verbatim>\<open>seminit\<close>.\<close>

definition sem_boot :: "seminfo \<Rightarrow> semstate \<Rightarrow> bool" where
  "sem_boot info st \<longleftrightarrow>
     int (length (sema st)) = semmni info \<and> int (length (sems st)) = semmns info
     \<and> (\<forall>sp \<in> set (sema st). ip_mode (sem_perm sp) = 0) \<and> (\<forall>s \<in> set (sems st). semval s = 0)
     \<and> sem_undo st = (\<lambda>_. None) \<and> semu st = (\<lambda>_. []) \<and> semunp st = []"

lemma seminit_inv:
  assumes conf: "conf_ok info" and boot: "sem_boot info st"
  shows "\<exists>st'. seminit info st = Some st' \<and> sem_inv info st'"
proof -
  let ?m = "mapinit (nat (si_semmap info))" and ?n = "of_int (semmns info) :: u32"
  have n: "?n = of_nat (nat (semmns info))" "nat (semmns info) < 2 ^ 32" using conf by (auto simp: conf_ok_def)
  have "nat (semmns info) = length (sems st)" using boot unfolding sem_boot_def by linarith
  then have un: "unat ?n = length (sems st)" using n(2) unfolding n(1) by (simp add: unat_of_nat take_bit_nat_eq_self)
  have m: "rm_wf ?m" "units ?m = {}" using conf by (auto intro!: mapinit_wf simp: conf_ok_def)
  have len: "0 < length (sems st)" "length (sems st) + 1 < 2 ^ 32" using conf boot by (auto simp: conf_ok_def sem_boot_def)
  have nz: "?n \<noteq> 0" using un len by (metis less_irrefl unat_0)
  have one: "unat (1 :: u32) + unat ?n < 2 ^ 32" using un len by simp
  have none: "\<not> allocated (sem_perm sp)" if "sp \<in> set (sema st)" for sp using boot that by (simp add: sem_boot_def allocated_def)
  then have h: "held (sema st) = []" by (simp add: held_def filter_empty_conv)
  have keys: "keys_unique (map sem_perm (sema st))" using none by (auto simp: keys_unique_def)
  have blk: "block 1 ?n = {1..length (sems st)}" unfolding block_def un by auto
  have "sem_inv info (st\<lparr>semmap := mp, semfup := [0..<k]\<rparr>)" if "rm_wf mp" "units mp \<subseteq> {1..length (sems st)}" for mp k
    using that boot conf none keys h
    by (auto simp: sem_inv_def sem_wf_def undo_ok_def us_ok_def sets_ok_def map_ok_def blocks_ok_def blocks_units_def
        sem_boot_def conf_ok_def info_ok_def)
  then show ?thesis
    using rm.release_ok [OF m(1) nz _ one] m blk by (auto simp: seminit_def)
qed

text \<open>
  The steps of the facility: the system calls up to a sleep or their return, the continuations
  after a sleep, and the exit of a process. The list a sleeper copies in again is any list, with semaphores
  outside of its set too (it is not checked, see \<open>semop_resume_unchecked\<close>), as long as the loop does not leave
  the array \<^verbatim>\<open>sem[]\<close>, where it would run over other memory; the copied values of \<^verbatim>\<open>SETALL\<close> are unsigned.
\<close>

inductive sem_step :: "seminfo \<Rightarrow> semstate \<Rightarrow> semstate \<Rightarrow> bool" for info where
  ctl: "\<lbrakk>semctl info u now sid num cmd arg st = Some (r, st'); \<And>vs. a_vals arg = Some vs \<Longrightarrow> \<forall>v \<in> set vs. 0 \<le> v\<rbrakk>
     \<Longrightarrow> sem_step info st st'"
| get: "semget info u now key nsems flg st = Some (r, st') \<Longrightarrow> sem_step info st st'"
| operate: "semop info u now sid nsops uops st = (r, st') \<Longrightarrow> sem_step info st st'"
| resume: "\<lbrakk>semop_resume info u now sid i uops st = (r, st'); i = nat (sid mod semmni info); r \<noteq> SemFault\<rbrakk> \<Longrightarrow> sem_step info st st'"
| intr_n: "semop_intr_n k st = (r, st') \<Longrightarrow> sem_step info st st'"
| intr_z: "semop_intr_z k st = (r, st') \<Longrightarrow> sem_step info st st'"
| exit: "sem_step info st (semexit info slot st)"

inductive sem_reach :: "seminfo \<Rightarrow> semstate \<Rightarrow> bool" for info where
  init: "\<lbrakk>sem_boot info st; seminit info st = Some st'\<rbrakk> \<Longrightarrow> sem_reach info st'"
| step: "\<lbrakk>sem_reach info st; sem_step info st st'\<rbrakk> \<Longrightarrow> sem_reach info st'"

lemma sem_inv_resume:
  assumes info: "info_ok info" and inv: "sem_inv info st"
    and r: "semop_resume info u now sid i uops st = (r, st')" "i = nat (sid mod semmni info)" "r \<noteq> SemFault"
  shows "sem_inv info st'"
proof (cases "\<exists>j ops. semconv info sid st = Inr j \<and> uops = Some ops")
  case False
  then have "st' = st" using r(1) by (auto simp: semop_resume_def split: sum.splits option.splits)
  with inv show ?thesis by simp
next
  case True
  then obtain j ops where Inr: "semconv info sid st = Inr j" and ops: "uops = Some ops" by blast
  have wf: "sem_wf info st" and sets: "sets_ok info st" using inv by (simp_all add: sem_inv_def sem_wf_def)
  note c = semconv_Inr [OF info sets Inr]
  have i: "i = j" using c(3) r(2) by simp
  have "semop_pass info u now sid j ops st = (r, st')" using r(1) Inr ops i by (simp add: semop_resume_def)
  then have "pass_result info (p_slot u) now sid j ops st r st'" by (rule semop_pass_result [OF info wf c(1) disjI1 [OF r(3)]])
  then show ?thesis by (rule sem_inv_pass [OF info inv Inr])
qed

lemma sem_step_inv:
  assumes "sem_step info st st'" and "conf_ok info" and inv: "sem_inv info st"
  shows "sem_inv info st'"
proof -
  have info: "info_ok info" and msl: "semmsl info \<le> 65535" using assms(2) by (simp_all add: conf_ok_def)
  from assms(1) show ?thesis
  proof cases
    case (ctl u now sid num cmd arg r)
    then show ?thesis using sem_inv_ctl [OF info inv, of arg u now sid num cmd] by auto
  next
    case (get u now key nsems flg r)
    then show ?thesis using sem_inv_get [OF info inv msl, of u now key nsems flg] by auto
  next
    case (operate u now sid nsops uops r)
    then show ?thesis using sem_inv_op [OF info inv] by blast
  next
    case (resume u now sid i uops r)
    then show ?thesis using sem_inv_resume [OF info inv] by blast
  next
    case (intr_n k r)
    then show ?thesis using inv
      by (auto simp: semop_intr_n_def Let_def intro!: sem_inv_wake sem_inv_set_sem split: if_splits)
  next
    case (intr_z k r)
    then show ?thesis using inv
      by (auto simp: semop_intr_z_def Let_def intro!: sem_inv_wake sem_inv_set_sem split: if_splits)
  next
    case (exit slot)
    then show ?thesis using sem_inv_exit [OF info inv] by simp
  qed
qed

lemma sem_reach_inv: "\<lbrakk>sem_reach info st; conf_ok info\<rbrakk> \<Longrightarrow> sem_inv info st"
proof (induction rule: sem_reach.induct)
  case (init st st')
  then show ?case using seminit_inv [of info st] by auto
next
  case (step st st')
  then show ?case using sem_step_inv by blast
qed

section \<open>Properties\<close>


definition boot_state :: semstate where
  "boot_state = \<lparr>sema = [example_set\<lparr>sem_perm := example_perm\<lparr>ip_mode := 0\<rparr>\<rparr>], sems = replicate 60 (example_sem 0),
     semmap = mapinit 10, sem_undo = (\<lambda>_. None), semu = (\<lambda>_. []), semunp = [], semfup = [], woken = []\<rparr>"

lemma example_conf: "conf_ok example_info"
  using example_wf(1) by (simp add: conf_ok_def example_info_def)

lemma example_boot: "sem_boot example_info boot_state"
  by (simp add: sem_boot_def boot_state_def example_sem_defs)


text \<open>
  In every reachable state \<^verbatim>\<open>semctl\<close> and \<^verbatim>\<open>semget\<close> complete: neither the allocation nor the
  release of a range of semaphores ever runs off the array of the resource map.
\<close>

theorem semctl_semget_complete:
  assumes "conf_ok info" and "sem_reach info st"
  shows "(\<exists>r st'. semget info u now key nsems flg st = Some (r, st'))
    \<and> (\<exists>r st'. semctl info u now sid num cmd (arg\<lparr>a_vals := None\<rparr>) st = Some (r, st'))"
proof -
  have inv: "sem_inv info st" using sem_reach_inv assms by blast
  have info: "info_ok info" and msl: "semmsl info \<le> 65535" using assms(1) by (simp_all add: conf_ok_def)
  show ?thesis
    using sem_inv_get [OF info inv msl, of u now key nsems flg]
      sem_inv_ctl [OF info inv, of "arg\<lparr>a_vals := None\<rparr>" u now sid num cmd] by auto
qed

theorem semctl_semget_complete_witness:
  "\<exists>st r st'. seminit example_info boot_state = Some st \<and> semget example_info example_proc 5 77 3 (IPC_CREAT OR 384) st = Some (r, st')"
proof -
  obtain st where st: "seminit example_info boot_state = Some st" using seminit_inv [OF example_conf example_boot] by blast
  have r: "sem_reach example_info st" using example_boot st by (rule sem_reach.init)
  from semctl_semget_complete [OF example_conf r, of example_proc 5 77 3 "IPC_CREAT OR 384"] st show ?thesis by blast
qed


text \<open>A process that may only read a set of two semaphores waits for zero in it, and then raises the third semaphore of the table.\<close>

definition two_sets :: semstate where
  "two_sets = example_state\<lparr>sems := [example_sem 1, example_sem 0, example_sem 5]\<rparr>"

definition reader :: uproc where
  "reader = \<lparr>p_slot = 3, p_pid = 42, u_cred = example_cred\<rparr>"

definition asleep :: semstate where
  "asleep = two_sets\<lparr>sems := [(example_sem 1)\<lparr>semzcnt := 1\<rparr>, example_sem 0, example_sem 5]\<rparr>"


end
