(* ===== verification/Msg.thy ===== *)
theory Msg
  imports Rmap Ipc
begin

text \<open>
  The message facility: \<^verbatim>\<open>uts/i386/os/msg.c\<close> and \<^verbatim>\<open>sys/msg.h\<close>.

  The state record holds the static objects of the file. A pointer into \<^verbatim>\<open>msgque[]\<close> or \<^verbatim>\<open>msgh[]\<close> is
  an index; the chain of a queue from \<^verbatim>\<open>msg_first\<close> to \<^verbatim>\<open>msg_last\<close> through \<^verbatim>\<open>msg_next\<close> is the list
  of its headers, and the free chain \<^verbatim>\<open>msgfp\<close> likewise. The message text lives in the pool
  \<^verbatim>\<open>msg\<close>, a map from offsets to bytes. \<^verbatim>\<open>wakeprocs\<close> is recorded in \<open>mwoken\<close> with its channel and
  whether the caller asked for preemption. A call of \<^verbatim>\<open>sleep\<close> ends a step; the continuations after
  it are separate definitions, so that other processes' steps can come between. \<^verbatim>\<open>copyin\<close> and
  \<^verbatim>\<open>copyout\<close> are single actions whose outcomes are arguments.
\<close>

unbundle bit_operations_syntax

section \<open>Data\<close>

record msg =
  msg_type :: int
  msg_ts :: nat
  msg_spot :: int

record msqid_ds =
  msg_perm :: ipc_perm
  msg_q :: "nat list"
  msg_cbytes :: u32
  msg_qnum :: u32
  msg_qbytes :: u32
  msg_lspid :: int
  msg_lrpid :: int
  msg_stime :: int
  msg_rtime :: int
  msg_ctime :: int
  msg_pads :: "int list"

record msginfo =
  mi_msgmap :: int
  msgmax :: int
  msgmnb :: int
  msgmni :: int
  msgssz :: int
  msgtql :: int
  msgseg :: nat

definition MSG_R :: u32 where "MSG_R = 256"            \<comment> \<open>0400\<close>
definition MSG_W :: u32 where "MSG_W = 128"            \<comment> \<open>0200\<close>
definition MSG_RWAIT :: u32 where "MSG_RWAIT = 512"    \<comment> \<open>01000\<close>
definition MSG_WWAIT :: u32 where "MSG_WWAIT = 1024"   \<comment> \<open>02000\<close>
definition MSG_NOERROR :: u32 where "MSG_NOERROR = 4096" \<comment> \<open>010000\<close>

text \<open>The channels: \<^verbatim>\<open>qp\<close>, \<^verbatim>\<open>&qp->msg_qnum\<close>, \<^verbatim>\<open>&msgfp\<close>, \<^verbatim>\<open>msgmap\<close> and the lock of a queue.\<close>

datatype msg_chan = QWrite nat | QRead nat | HdrFree | MsgMap | QLock nat

record msgstate =
  msgque :: "msqid_ds list"
  msglock :: "bool list"
  msgh :: "nat \<Rightarrow> msg"
  msgfp :: "nat list"
  msgmap :: rmap
  msgpool :: "nat \<Rightarrow> u8"
  mwoken :: "(msg_chan \<times> bool) list"

text \<open>\<^verbatim>\<open>btoq\<close>: bytes to segments.\<close>

definition btoq :: "msginfo \<Rightarrow> nat \<Rightarrow> u32" where
  "btoq info n = of_int ((int n + msgssz info - 1) div msgssz info)"

definition msg_wake :: "msg_chan \<Rightarrow> bool \<Rightarrow> msgstate \<Rightarrow> msgstate" where
  "msg_wake c prmpt st = st\<lparr>mwoken := mwoken st @ [(c, prmpt)]\<rparr>"

definition set_que :: "nat \<Rightarrow> (msqid_ds \<Rightarrow> msqid_ds) \<Rightarrow> msgstate \<Rightarrow> msgstate" where
  "set_que i f st = st\<lparr>msgque := (msgque st)[i := f (msgque st ! i)]\<rparr>"

definition set_mode :: "(u32 \<Rightarrow> u32) \<Rightarrow> msqid_ds \<Rightarrow> msqid_ds" where
  "set_mode f qp = qp\<lparr>msg_perm := (msg_perm qp)\<lparr>ip_mode := f (ip_mode (msg_perm qp))\<rparr>\<rparr>"

text \<open>\<^verbatim>\<open>*lockp = 0; wakeprocs(lockp, wflag)\<close>\<close>

definition msg_unlock :: "nat \<Rightarrow> bool \<Rightarrow> msgstate \<Rightarrow> msgstate" where
  "msg_unlock i wflag st = msg_wake (QLock i) wflag (st\<lparr>msglock := (msglock st)[i := False]\<rparr>)"

section \<open>Freeing\<close>

text \<open>\<^verbatim>\<open>rmfree(msgmap, ...)\<close> with the wake-up of those waiting for space; \<open>None\<close> if it leaves its array.\<close>

definition msg_rmfree :: "u32 \<Rightarrow> u32 \<Rightarrow> msgstate \<Rightarrow> msgstate option" where
  "msg_rmfree n a st =
     (case rmfree (msgmap st) n a of
        RmFault \<Rightarrow> None
      | RmLost mp \<Rightarrow> Some (st\<lparr>msgmap := mp\<rparr>)
      | RmDone mp w \<Rightarrow> Some ((if w then msg_wake MsgMap True st else st)\<lparr>msgmap := mp\<rparr>))"

text \<open>Putting a header on the free chain.\<close>

definition hdr_free :: "nat \<Rightarrow> bool \<Rightarrow> msgstate \<Rightarrow> msgstate" where
  "hdr_free h wflag st = (if msgfp st = [] then msg_wake HdrFree wflag st else st)\<lparr>msgfp := h # msgfp st\<rparr>"

text \<open>\<^verbatim>\<open>msgfree\<close> of the header at position \<open>k\<close> of queue \<open>i\<close> (\<^verbatim>\<open>pmp\<close> is the one before it).\<close>

definition msgfree :: "msginfo \<Rightarrow> nat \<Rightarrow> nat \<Rightarrow> bool \<Rightarrow> msgstate \<Rightarrow> msgstate option" where
  "msgfree info i k wflag st =
     (let q = msg_q (msgque st ! i); h = q ! k; mp = msgh st h;
          st1 = set_que i (\<lambda>qp. qp\<lparr>msg_q := take k q @ drop (Suc k) q, msg_qnum := msg_qnum qp - 1\<rparr>) st;
          st2 = (if ip_mode (msg_perm (msgque st ! i)) AND MSG_WWAIT \<noteq> 0
                 then msg_wake (QWrite i) wflag (set_que i (set_mode (\<lambda>m. m AND NOT MSG_WWAIT)) st1) else st1);
          st3 = (if msg_ts mp \<noteq> 0 then msg_rmfree (btoq info (msg_ts mp)) (of_int (msg_spot mp + 1)) st2
                 else Some st2)
      in map_option (hdr_free h wflag) st3)"

section \<open>Identifiers and locks\<close>

datatype msg_conv = ConvErr errno | ConvSleep nat | ConvOk nat

text \<open>\<^verbatim>\<open>msgconv\<close> up to its return or its sleep for the lock of the queue.\<close>

definition msgconv :: "msginfo \<Rightarrow> int \<Rightarrow> msgstate \<Rightarrow> msg_conv \<times> msgstate" where
  "msgconv info mid st =
     (if mid < 0 then (ConvErr EINVAL, st)
      else
        (let i = nat (mid mod msgmni info); perm = msg_perm (msgque st ! i) in
         if msglock st ! i then (ConvSleep i, st)
         else
           (let st1 = st\<lparr>msglock := (msglock st)[i := True]\<rparr> in
            if \<not> allocated perm \<or> of_int (mid div msgmni info) \<noteq> ip_seq perm
            then (ConvErr EINVAL, msg_unlock i True st1)
            else (ConvOk i, st1))))"

text \<open>
  The outcomes of a step: an error, \<^verbatim>\<open>r_val1\<close> of a completed call, a message handed to the user, or
  asleep on a channel.
\<close>

datatype msg_res = MErr errno | MVal int | MGot int "u8 list" | MSleep msg_chan

section \<open>\<^verbatim>\<open>msgrcv\<close>\<close>

text \<open>The search: the best position so far with its type, over the types on the queue.\<close>

fun rcv_scan :: "int \<Rightarrow> nat \<Rightarrow> (nat \<times> int) option \<Rightarrow> int list \<Rightarrow> nat option" where
  "rcv_scan typ k best [] = map_option fst best"
| "rcv_scan typ k best (t # ts) =
     (if typ > 0 then (if typ \<noteq> t then rcv_scan typ (Suc k) best ts else Some k)
      else if t \<le> to_long (- typ) then
        (case best of
           Some (_, bt) \<Rightarrow> if bt \<le> t then rcv_scan typ (Suc k) best ts else rcv_scan typ (Suc k) (Some (k, t)) ts
         | None \<Rightarrow> rcv_scan typ (Suc k) (Some (k, t)) ts)
      else rcv_scan typ (Suc k) best ts)"

definition rcv_select :: "int \<Rightarrow> int list \<Rightarrow> nat option" where
  "rcv_select typ ts = (if typ = 0 then (if ts = [] then None else Some 0) else rcv_scan typ 0 None ts)"

record rcvarg =
  r_id :: int
  r_sz :: int
  r_typ :: int
  r_flg :: u32
  r_out1 :: bool
  r_out2 :: bool

text \<open>The text of a message: \<^verbatim>\<open>sz\<close> bytes from \<^verbatim>\<open>msg + msginfo.msgssz * msg_spot\<close>.\<close>

definition pool_read :: "msginfo \<Rightarrow> int \<Rightarrow> nat \<Rightarrow> (nat \<Rightarrow> u8) \<Rightarrow> u8 list" where
  "pool_read info spot n pool = map pool [nat (msgssz info * spot)..<nat (msgssz info * spot) + n]"

text \<open>From the label \<^verbatim>\<open>findmsg\<close> to the next sleep or the return; \<open>i\<close> is the queue first looked up.\<close>

definition msgrcv_find :: "msginfo \<Rightarrow> uproc \<Rightarrow> int \<Rightarrow> nat \<Rightarrow> rcvarg \<Rightarrow> msgstate \<Rightarrow> (msg_res \<times> msgstate) option" where
  "msgrcv_find info u now i arg st =
     (case msgconv info (r_id arg) st of
        (ConvErr _, st1) \<Rightarrow> Some (MErr EIDRM, st1)
      | (ConvSleep j, st1) \<Rightarrow> Some (MSleep (QLock j), st1)
      | (ConvOk j, st1) \<Rightarrow>
          if j \<noteq> i then Some (MErr EIDRM, msg_unlock j True st1)
          else
            (let q = msg_q (msgque st1 ! i) in
             case rcv_select (r_typ arg) (map (\<lambda>h. msg_type (msgh st1 h)) q) of
               None \<Rightarrow>
                 if r_flg arg AND IPC_NOWAIT \<noteq> 0 then Some (MErr ENOMSG, msg_unlock i True st1)
                 else Some (MSleep (QRead i), msg_unlock i True (set_que i (set_mode (\<lambda>m. m OR MSG_RWAIT)) st1))
             | Some k \<Rightarrow>
                 (let smp = msgh st1 (q ! k) in
                  if r_sz arg < int (msg_ts smp) \<and> r_flg arg AND MSG_NOERROR = 0
                  then Some (MErr E2BIG, msg_unlock i True st1)
                  else
                    (let sz = (if r_sz arg < int (msg_ts smp) then nat (r_sz arg) else msg_ts smp) in
                     if \<not> r_out1 arg \<or> (sz \<noteq> 0 \<and> \<not> r_out2 arg) then Some (MErr EFAULT, msg_unlock i True st1)
                     else
                       (let st2 = set_que i (\<lambda>qp. qp\<lparr>msg_cbytes := msg_cbytes qp - of_nat (msg_ts smp),
                                     msg_lrpid := p_pid u, msg_rtime := now\<rparr>) st1
                        in map_option (\<lambda>st3. (MGot (msg_type smp) (pool_read info (msg_spot smp) sz (msgpool st1)),
                                               msg_unlock i True st3))
                             (msgfree info i k False st2))))))"

definition msgrcv :: "msginfo \<Rightarrow> uproc \<Rightarrow> int \<Rightarrow> rcvarg \<Rightarrow> msgstate \<Rightarrow> (msg_res \<times> msgstate) option" where
  "msgrcv info u now arg st =
     (case msgconv info (r_id arg) st of
        (ConvErr e, st1) \<Rightarrow> Some (MErr e, st1)
      | (ConvSleep j, st1) \<Rightarrow> Some (MSleep (QLock j), st1)
      | (ConvOk i, st1) \<Rightarrow>
          (case ipcaccess (msg_perm (msgque st1 ! i)) MSG_R (u_cred u) of
             Some e \<Rightarrow> Some (MErr e, msg_unlock i True st1)
           | None \<Rightarrow>
               if r_sz arg < 0 then Some (MErr EINVAL, msg_unlock i True st1)
               else msgrcv_find info u now i arg (msg_unlock i True st1)))"

section \<open>\<^verbatim>\<open>msgsnd\<close>\<close>

record sndarg =
  s_id :: int
  s_sz :: int
  s_flg :: u32
  s_type :: "int option"
  s_text :: "u8 list option"

definition pool_write :: "msginfo \<Rightarrow> int \<Rightarrow> u8 list \<Rightarrow> (nat \<Rightarrow> u8) \<Rightarrow> nat \<Rightarrow> u8" where
  "pool_write info spot txt pool =
     (let b = nat (msgssz info * spot) in
      (\<lambda>a. if b \<le> a \<and> a < b + length txt then txt ! (a - b) else pool a))"

text \<open>The last part: everything is available, the message goes on the queue.\<close>

definition msgsnd_put :: "uproc \<Rightarrow> int \<Rightarrow> nat \<Rightarrow> int \<Rightarrow> nat \<Rightarrow> int \<Rightarrow> nat \<Rightarrow> msgstate \<Rightarrow> msg_res \<times> msgstate" where
  "msgsnd_put u now i mtype cnt spot h st =
     (let st1 = set_que i (\<lambda>qp. qp\<lparr>msg_qnum := msg_qnum qp + 1, msg_cbytes := msg_cbytes qp + of_nat cnt,
                    msg_lspid := p_pid u, msg_stime := now, msg_q := msg_q qp @ [h]\<rparr>) st;
          st2 = st1\<lparr>msgh := (msgh st1)(h := \<lparr>msg_type = mtype, msg_ts = nat (to_ushort (int cnt)),
                    msg_spot = to_short (if cnt \<noteq> 0 then spot else -1)\<rparr>)\<rparr>;
          rwait = (ip_mode (msg_perm (msgque st2 ! i)) AND MSG_RWAIT \<noteq> 0);
          st3 = (if rwait then msg_wake (QRead i) False (set_que i (set_mode (\<lambda>m. m AND NOT MSG_RWAIT)) st2) else st2)
      in (MVal 0, msg_unlock i (\<not> rwait) st3))"

text \<open>From the label \<^verbatim>\<open>getres\<close> to the next sleep or the return.\<close>

definition msgsnd_getres :: "msginfo \<Rightarrow> uproc \<Rightarrow> int \<Rightarrow> nat \<Rightarrow> int \<Rightarrow> sndarg \<Rightarrow> msgstate \<Rightarrow> (msg_res \<times> msgstate) option" where
  "msgsnd_getres info u now i mtype arg st =
     (let nowait = (s_flg arg AND IPC_NOWAIT \<noteq> 0); cnt = nat (s_sz arg) in
      case msgconv info (s_id arg) st of
        (ConvErr _, st1) \<Rightarrow> Some (MErr EIDRM, st1)
      | (ConvSleep j, st1) \<Rightarrow> Some (MSleep (QLock j), st1)
      | (ConvOk j, st1) \<Rightarrow>
          if j \<noteq> i then Some (MErr EIDRM, msg_unlock j True st1)
          else if of_nat cnt + msg_cbytes (msgque st1 ! i) > msg_qbytes (msgque st1 ! i) then
            (if nowait then Some (MErr EAGAIN, msg_unlock i True st1)
             else Some (MSleep (QWrite i), msg_unlock i True (set_que i (set_mode (\<lambda>m. m OR MSG_WWAIT)) st1)))
          else
            (case msgfp st1 of
               [] \<Rightarrow> if nowait then Some (MErr EAGAIN, msg_unlock i True st1)
                     else Some (MSleep HdrFree, msg_unlock i True st1)
             | h # rest \<Rightarrow>
                 (let st2 = st1\<lparr>msgfp := rest\<rparr> in
                  if cnt = 0 then Some (msgsnd_put u now i mtype 0 0 h st2)
                  else
                    (case rmalloc (msgmap st2) (btoq info cnt) of
                       None \<Rightarrow> None
                     | Some (a, mp) \<Rightarrow>
                         if a = 0 then
                           (if nowait then Some (MErr EAGAIN, msg_unlock i True (hdr_free h True (st2\<lparr>msgmap := mp\<rparr>)))
                            else
                              Some (MSleep MsgMap, msg_unlock i True
                                (hdr_free h True (st2\<lparr>msgmap := mp\<lparr>mapwant := mapwant mp + 1\<rparr>\<rparr>))))
                         else
                           (let st3 = st2\<lparr>msgmap := mp\<rparr>; spot = uint (a - 1) in
                            case s_text arg of
                              None \<Rightarrow>
                                map_option (\<lambda>st4. (MErr EFAULT, msg_unlock i True (hdr_free h True st4)))
                                  (msg_rmfree (btoq info cnt) (of_int spot + 1) st3)
                            | Some txt \<Rightarrow>
                                Some (msgsnd_put u now i mtype cnt spot h
                                  (st3\<lparr>msgpool := pool_write info spot (take cnt txt) (msgpool st3)\<rparr>)))))))"

definition msgsnd :: "msginfo \<Rightarrow> uproc \<Rightarrow> int \<Rightarrow> sndarg \<Rightarrow> msgstate \<Rightarrow> (msg_res \<times> msgstate) option" where
  "msgsnd info u now arg st =
     (case msgconv info (s_id arg) st of
        (ConvErr e, st1) \<Rightarrow> Some (MErr e, st1)
      | (ConvSleep j, st1) \<Rightarrow> Some (MSleep (QLock j), st1)
      | (ConvOk i, st1) \<Rightarrow>
          (case ipcaccess (msg_perm (msgque st1 ! i)) MSG_W (u_cred u) of
             Some e \<Rightarrow> Some (MErr e, msg_unlock i True st1)
           | None \<Rightarrow>
               if s_sz arg < 0 \<or> s_sz arg > msgmax info then Some (MErr EINVAL, msg_unlock i True st1)
               else
                 (case s_type arg of
                    None \<Rightarrow> Some (MErr EFAULT, msg_unlock i True st1)
                  | Some mtype \<Rightarrow>
                      if mtype < 1 then Some (MErr EINVAL, msg_unlock i True st1)
                      else msgsnd_getres info u now i mtype arg (msg_unlock i True st1))))"

text \<open>An interrupted sleep of \<^verbatim>\<open>msgsnd\<close>: \<open>full\<close> when it slept because the queue was full.\<close>

definition msgsnd_intr :: "msginfo \<Rightarrow> bool \<Rightarrow> nat \<Rightarrow> sndarg \<Rightarrow> msgstate \<Rightarrow> msg_res \<times> msgstate" where
  "msgsnd_intr info full i arg st =
     (case msgconv info (s_id arg) st of
        (ConvErr e, st1) \<Rightarrow> (MErr e, st1)
      | (ConvSleep j, st1) \<Rightarrow> (MSleep (QLock j), st1)
      | (ConvOk j, st1) \<Rightarrow>
          if j \<noteq> i then (MErr EINTR, msg_unlock j True st1)
          else
            (let st2 = (if full then msg_wake (QWrite i) True (set_que i (set_mode (\<lambda>m. m AND NOT MSG_WWAIT)) st1)
                        else st1)
             in (MErr EINTR, msg_unlock i True st2)))"

section \<open>\<^verbatim>\<open>msgctl\<close>\<close>

record o_msqid_ds =
  om_perm :: o_ipc_perm
  om_cbytes :: u16
  om_qnum :: u16
  om_qbytes :: u16
  om_lspid :: int
  om_lrpid :: int
  om_stime :: int
  om_rtime :: int
  om_ctime :: int

datatype msgcmd = MRmid | MOSet | MSet | MOStat | MStat | MBad

definition msg_cmd :: "int \<Rightarrow> msgcmd" where
  "msg_cmd c =
     (if c = 0 \<or> c = 10 then MRmid else if c = 1 then MOSet else if c = 11 then MSet
      else if c = 2 then MOStat else if c = 12 then MStat else MBad)"

text \<open>The user's side of the argument: what is copied in, and whether the copy out succeeds.\<close>

record msgctl_arg =
  ma_perm :: ipc_perm
  ma_qbytes :: u32
  ma_in :: bool
  ma_out :: bool

datatype msgctl_val = MDone | MDs msqid_ds | MODs o_msqid_ds

text \<open>The loop \<^verbatim>\<open>while (qp->msg_first) msgfree(qp, NULL, qp->msg_first, PRMPT)\<close>, once per message.\<close>

fun msg_drain :: "msginfo \<Rightarrow> nat \<Rightarrow> nat \<Rightarrow> msgstate \<Rightarrow> msgstate option" where
  "msg_drain info i 0 st = Some st"
| "msg_drain info i (Suc n) st = Option.bind (msgfree info i 0 True st) (msg_drain info i n)"

definition msg_rmid :: "msginfo \<Rightarrow> int \<Rightarrow> nat \<Rightarrow> msgstate \<Rightarrow> msgstate option" where
  "msg_rmid info mid i st =
     (case msg_drain info i (length (msg_q (msgque st ! i))) st of
        None \<Rightarrow> None
      | Some st1 \<Rightarrow>
          (let st2 = set_que i (\<lambda>qp. qp\<lparr>msg_cbytes := 0, msg_perm := (msg_perm qp)
                 \<lparr>ip_seq := (if mid + msgmni info < 0 \<or> mid + msgmni info > INT16_MAX then 0
                            else ip_seq (msg_perm qp) + 1)\<rparr>\<rparr>) st1;
               mode = ip_mode (msg_perm (msgque st2 ! i));
               st3 = (if mode AND MSG_RWAIT \<noteq> 0 then msg_wake (QRead i) True st2 else st2);
               st4 = (if mode AND MSG_WWAIT \<noteq> 0 then msg_wake (QWrite i) True st3 else st3)
           in Some (set_que i (set_mode (\<lambda>_. 0)) st4)))"

text \<open>The assignments shared by \<^verbatim>\<open>IPC_O_SET\<close> and \<^verbatim>\<open>IPC_SET\<close>.\<close>

definition msg_setperm :: "int \<Rightarrow> msgctl_arg \<Rightarrow> msqid_ds \<Rightarrow> msqid_ds" where
  "msg_setperm now arg qp =
     qp\<lparr>msg_perm := (msg_perm qp)\<lparr>ip_uid := ip_uid (ma_perm arg), ip_gid := ip_gid (ma_perm arg),
          ip_mode := (ip_mode (msg_perm qp) AND NOT PERM_BITS) OR (ip_mode (ma_perm arg) AND PERM_BITS)\<rparr>,
        msg_qbytes := ma_qbytes arg, msg_ctime := now\<rparr>"

definition msg_set :: "bool \<Rightarrow> uproc \<Rightarrow> int \<Rightarrow> nat \<Rightarrow> msgctl_arg \<Rightarrow> msgstate \<Rightarrow> (errno + msgctl_val) \<times> msgstate" where
  "msg_set old u now i arg st =
     (let qp = msgque st ! i; new = ma_perm arg in
      if not_owner (u_cred u) (msg_perm qp) then (Inl EPERM, st)
      else if \<not> ma_in arg then (Inl EFAULT, st)
      else if ma_qbytes arg > msg_qbytes qp \<and> \<not> suser (u_cred u) then (Inl EPERM, st)
      else if (if old then uint (ip_uid new) > MAXUID \<or> uint (ip_gid new) > MAXUID
               else sint (ip_uid new) < 0 \<or> sint (ip_uid new) > MAXUID
                  \<or> sint (ip_gid new) < 0 \<or> sint (ip_gid new) > MAXUID) then (Inl EINVAL, st)
      else (Inr MDone, set_que i (msg_setperm now arg) st))"

definition msg_ostat :: "uproc \<Rightarrow> nat \<Rightarrow> bool \<Rightarrow> msgstate \<Rightarrow> errno + msgctl_val" where
  "msg_ostat u i out st =
     (let qp = msgque st ! i; p = msg_perm qp in
      case ipcaccess p MSG_R (u_cred u) of
        Some e \<Rightarrow> Inl e
      | None \<Rightarrow>
          if sint (ip_uid p) > 65535 \<or> sint (ip_gid p) > 65535 \<or> sint (ip_cuid p) > 65535
             \<or> sint (ip_cgid p) > 65535 \<or> uint (ip_seq p) > 65535 \<or> uint (msg_cbytes qp) > 65535
             \<or> uint (msg_qnum qp) > 65535 \<or> uint (msg_qbytes qp) > 65535
             \<or> msg_lspid qp > 32767 \<or> msg_lrpid qp > 32767 then Inl EOVERFLOW
          else if \<not> out then Inl EFAULT
          else Inr (MODs \<lparr>om_perm = \<lparr>o_uid = ucast (ip_uid p), o_gid = ucast (ip_gid p),
                 o_cuid = ucast (ip_cuid p), o_cgid = ucast (ip_cgid p), o_mode = ucast (ip_mode p),
                 o_seq = ucast (ip_seq p), o_key = ip_key p\<rparr>,
               om_cbytes = ucast (msg_cbytes qp), om_qnum = ucast (msg_qnum qp), om_qbytes = ucast (msg_qbytes qp),
               om_lspid = to_short (msg_lspid qp), om_lrpid = to_short (msg_lrpid qp),
               om_stime = msg_stime qp, om_rtime = msg_rtime qp, om_ctime = msg_ctime qp\<rparr>))"

definition msg_stat :: "uproc \<Rightarrow> nat \<Rightarrow> bool \<Rightarrow> msgstate \<Rightarrow> errno + msgctl_val" where
  "msg_stat u i out st =
     (case ipcaccess (msg_perm (msgque st ! i)) MSG_R (u_cred u) of
        Some e \<Rightarrow> Inl e
      | None \<Rightarrow> if \<not> out then Inl EFAULT else Inr (MDs (msgque st ! i)))"

text \<open>\<^verbatim>\<open>msgctl\<close>; \<open>None\<close> is a run off the resource map, the inner \<open>None\<close> a sleep for the lock.\<close>

definition msgctl ::
  "msginfo \<Rightarrow> uproc \<Rightarrow> int \<Rightarrow> int \<Rightarrow> int \<Rightarrow> msgctl_arg \<Rightarrow> msgstate \<Rightarrow> ((errno + msgctl_val) option \<times> msgstate) option" where
  "msgctl info u now mid cmd arg st =
     (case msgconv info mid st of
        (ConvErr e, st1) \<Rightarrow> Some (Some (Inl e), st1)
      | (ConvSleep j, st1) \<Rightarrow> Some (None, st1)
      | (ConvOk i, st1) \<Rightarrow>
          map_option (\<lambda>(r, st2). (Some r, msg_unlock i True st2))
            (case msg_cmd cmd of
               MRmid \<Rightarrow>
                 if not_owner (u_cred u) (msg_perm (msgque st1 ! i)) then Some (Inl EPERM, st1)
                 else map_option (\<lambda>st2. (Inr MDone, st2)) (msg_rmid info mid i st1)
             | MOSet \<Rightarrow> Some (msg_set True u now i arg st1)
             | MSet \<Rightarrow> Some (msg_set False u now i arg st1)
             | MOStat \<Rightarrow> Some (msg_ostat u i (ma_out arg) st1, st1)
             | MStat \<Rightarrow> Some (msg_stat u i (ma_out arg) st1, st1)
             | MBad \<Rightarrow> Some (Inl EINVAL, st1)))"

section \<open>\<^verbatim>\<open>msgget\<close> and \<^verbatim>\<open>msginit\<close>\<close>

definition que_perms :: "ipc_perm list \<Rightarrow> msqid_ds list \<Rightarrow> msqid_ds list" where
  "que_perms ps qs = map2 (\<lambda>p qp. qp\<lparr>msg_perm := p\<rparr>) ps qs"

definition msgget :: "msginfo \<Rightarrow> uproc \<Rightarrow> int \<Rightarrow> u32 \<Rightarrow> u32 \<Rightarrow> msgstate \<Rightarrow> (errno + u32) \<times> msgstate" where
  "msgget info u now key flg st =
     (case ipcget key flg (u_cred u) (map msg_perm (msgque st)) of
        Inl e \<Rightarrow> (Inl e, st)
      | Inr (i, created, ps) \<Rightarrow>
          (let st1 = st\<lparr>msgque := que_perms ps (msgque st)\<rparr>;
               st2 = (if created then
                        set_que i (\<lambda>qp. qp\<lparr>msg_q := [], msg_qnum := 0, msg_qbytes := of_int (to_ushort (msgmnb info)),
                            msg_lspid := 0, msg_lrpid := 0, msg_stime := 0, msg_rtime := 0, msg_ctime := now,
                            msg_perm := (msg_perm qp)\<lparr>ip_pad := [0, 0, 0, 0]\<rparr>,
                            msg_pads := [0, 0, 0, 0, 0, 0, 0]\<rparr>) st1
                      else st1)
           in (Inr (ip_seq (msg_perm (msgque st2 ! i)) * of_int (msgmni info) + of_nat i), st2)))"

text \<open>\<open>mem\<close>: whether \<^verbatim>\<open>kseg\<close> found memory for the pool. The result has \<^verbatim>\<open>msginfo\<close> as left behind.\<close>

definition msginit :: "bool \<Rightarrow> msginfo \<Rightarrow> msgstate \<Rightarrow> (msginfo \<times> msgstate) option" where
  "msginit mem info st =
     (let info' = (if mem then info else info\<lparr>msgseg := 0\<rparr>);
          fp = [0..<max 1 (nat (msgtql info))] in
      case rmfree (mapinit (nat (mi_msgmap info))) (of_nat (msgseg info')) 1 of
        RmFault \<Rightarrow> None
      | RmLost mp \<Rightarrow> Some (info', st\<lparr>msgmap := mp, msgfp := fp\<rparr>)
      | RmDone mp w \<Rightarrow> Some (info', st\<lparr>msgmap := mp, msgfp := fp\<rparr>))"

end
