(* ===== verification/Msg_Queue.thy ===== *)
theory Msg_Queue
  imports Msg
begin

text \<open>
  Correctness of the message facility. The abstract view of the state is one list of messages
  (type and text) per queue; \<^verbatim>\<open>msgsnd\<close> appends to it, \<^verbatim>\<open>msgrcv\<close> takes the selected message out,
  \<^verbatim>\<open>IPC_RMID\<close> empties it and nothing else changes it. The invariant ties headers, byte counts and the
  blocks of the text pool together.
\<close>

section \<open>Segments\<close>

definition msg_conf :: "msginfo \<Rightarrow> bool" where
  "msg_conf info \<longleftrightarrow>
     0 < msgssz info \<and> msgssz info < 2 ^ 16 \<and> 0 < msgmni info \<and> 0 \<le> msgmax info \<and> msgmax info \<le> 65535
     \<and> msgseg info < 32768"

lemma btoq_unat:
  assumes "msg_conf info" "n \<le> 65535"
  shows "unat (btoq info n) = nat ((int n + msgssz info - 1) div msgssz info)"
    and "n \<noteq> 0 \<Longrightarrow> btoq info n \<noteq> 0"
    and "int n \<le> msgssz info * int (unat (btoq info n))"
proof -
  let ?s = "msgssz info" and ?q = "(int n + msgssz info - 1) div msgssz info"
  have s: "0 < ?s" "?s < 2 ^ 16" using assms(1) by (simp_all add: msg_conf_def)
  have q0: "0 \<le> ?q" using s by (simp add: pos_imp_zdiv_nonneg_iff)
  have "?q \<le> (int n + ?s - 1) div 1" using s by (intro zdiv_mono2) simp_all
  then have q1: "?q < 2 ^ 32" using s assms(2) by simp
  show u: "unat (btoq info n) = nat ?q"
    unfolding btoq_def using q0 q1 by (simp add: unat_eq_nat_uint uint_word_of_int take_bit_int_eq_self)
  have ge: "int n \<le> ?s * ?q"
  proof -
    have "int n + ?s - 1 = ?s * ?q + (int n + ?s - 1) mod ?s" by simp
    moreover have "(int n + ?s - 1) mod ?s \<le> ?s - 1" using s pos_mod_bound [of ?s] by (simp add: zle_diff1_eq)
    ultimately show ?thesis by linarith
  qed
  then show "int n \<le> ?s * int (unat (btoq info n))" using u q0 by simp
  show "n \<noteq> 0 \<Longrightarrow> btoq info n \<noteq> 0"
  proof
    assume "n \<noteq> 0" "btoq info n = 0"
    then have "nat ?q = 0" using u by simp
    then have "?q = 0" using q0 by linarith
    with ge \<open>n \<noteq> 0\<close> show False by simp
  qed
qed

section \<open>The invariant\<close>

definition queued :: "msqid_ds list \<Rightarrow> nat list" where
  "queued qs = concat (map msg_q qs)"

definition hblock :: "msginfo \<Rightarrow> msg \<Rightarrow> u32 \<times> u32" where
  "hblock info mp = (of_int (msg_spot mp + 1), btoq info (msg_ts mp))"

definition hblocks :: "msginfo \<Rightarrow> (nat \<Rightarrow> msg) \<Rightarrow> nat list \<Rightarrow> (u32 \<times> u32) list" where
  "hblocks info H hs = map (\<lambda>h. hblock info (H h)) (filter (\<lambda>h. msg_ts (H h) \<noteq> 0) hs)"

definition hdr_ok :: "msg \<Rightarrow> bool" where
  "hdr_ok mp \<longleftrightarrow> msg_ts mp \<le> 65535 \<and> (msg_ts mp \<noteq> 0 \<longrightarrow> 0 \<le> msg_spot mp \<and> msg_spot mp \<le> 32767)"

definition que_ok :: "(nat \<Rightarrow> msg) \<Rightarrow> msqid_ds \<Rightarrow> bool" where
  "que_ok H qp \<longleftrightarrow>
     msg_cbytes qp = of_nat (\<Sum>h \<leftarrow> msg_q qp. msg_ts (H h)) \<and> msg_qnum qp = of_nat (length (msg_q qp))
     \<and> (\<not> allocated (msg_perm qp) \<longrightarrow> msg_q qp = [])"

definition pool_ok :: "msginfo \<Rightarrow> (nat \<Rightarrow> msg) \<Rightarrow> rmap \<Rightarrow> nat list \<Rightarrow> bool" where
  "pool_ok info H mp hs \<longleftrightarrow>
     rm_wf mp \<and> blocks_ok (units mp) (hblocks info H hs)
     \<and> units mp \<union> blocks_units (hblocks info H hs) \<subseteq> {1..msgseg info} \<and> (\<forall>h \<in> set hs. hdr_ok (H h))"

definition msg_inv :: "msginfo \<Rightarrow> msgstate \<Rightarrow> bool" where
  "msg_inv info st \<longleftrightarrow>
     int (length (msgque st)) = msgmni info \<and> length (msglock st) = length (msgque st)
     \<and> distinct (msgfp st @ queued (msgque st)) \<and> pool_ok info (msgh st) (msgmap st) (queued (msgque st))
     \<and> (\<forall>qp \<in> set (msgque st). que_ok (msgh st) qp)"

lemma hblocks_append [simp]: "hblocks info H (xs @ ys) = hblocks info H xs @ hblocks info H ys"
  by (simp add: hblocks_def)

lemma hblocks_Cons:
  "hblocks info H (h # hs) = (if msg_ts (H h) \<noteq> 0 then [hblock info (H h)] else []) @ hblocks info H hs"
  by (simp add: hblocks_def)

lemma hblocks_cong: "(\<And>h. h \<in> set hs \<Longrightarrow> H h = H' h) \<Longrightarrow> hblocks info H hs = hblocks info H' hs"
  by (auto simp: hblocks_def intro!: map_cong filter_cong)

text \<open>The headers before and after a position of a queue.\<close>

lemma queued_split:
  assumes "i < length qs"
  shows "queued qs = queued (take i qs) @ msg_q (qs ! i) @ queued (drop (Suc i) qs)"
  unfolding queued_def using arg_cong [OF id_take_nth_drop [OF assms], of "\<lambda>l. concat (map msg_q l)"] by simp

lemma queued_update:
  assumes "i < length qs"
  shows "queued (qs[i := qp]) = queued (take i qs) @ msg_q qp @ queued (drop (Suc i) qs)"
  using assms by (simp add: upd_conv_take_nth_drop queued_def)

text \<open>The abstract view.\<close>

definition amsg :: "msginfo \<Rightarrow> msgstate \<Rightarrow> nat \<Rightarrow> int \<times> u8 list" where
  "amsg info st h = (msg_type (msgh st h), pool_read info (msg_spot (msgh st h)) (msg_ts (msgh st h)) (msgpool st))"

definition aqueues :: "msginfo \<Rightarrow> msgstate \<Rightarrow> (int \<times> u8 list) list list" where
  "aqueues info st = map (\<lambda>qp. map (amsg info st) (msg_q qp)) (msgque st)"

text \<open>Steps that touch neither the headers nor the queues.\<close>

definition core :: "msqid_ds \<Rightarrow> bool \<times> nat list \<times> u32 \<times> u32" where
  "core qp = (allocated (msg_perm qp), msg_q qp, msg_cbytes qp, msg_qnum qp)"

definition same_core :: "msgstate \<Rightarrow> msgstate \<Rightarrow> bool" where
  "same_core st st' \<longleftrightarrow>
     map core (msgque st') = map core (msgque st) \<and> length (msglock st') = length (msglock st)
     \<and> msgh st' = msgh st \<and> msgfp st' = msgfp st \<and> msgmap st' = msgmap st \<and> msgpool st' = msgpool st"

lemma same_core_refl [simp]: "same_core st st"
  by (simp add: same_core_def)

lemma same_core_trans [trans]: "same_core st st' \<Longrightarrow> same_core st' st'' \<Longrightarrow> same_core st st''"
  by (simp add: same_core_def)

lemma core_queues:
  assumes "map core qs' = map core qs"
  shows "length qs' = length qs" "map msg_q qs' = map msg_q qs" "(\<forall>qp \<in> set qs'. que_ok H qp) = (\<forall>qp \<in> set qs. que_ok H qp)"
proof -
  show len: "length qs' = length qs" using assms by (rule map_eq_imp_length_eq)
  have c: "core (qs' ! i) = core (qs ! i)" if "i < length qs" for i using assms that len by (metis nth_map)
  show "map msg_q qs' = map msg_q qs" by (rule nth_equalityI) (use c len in \<open>auto simp: core_def\<close>)
  have "que_ok H (qs' ! i) = que_ok H (qs ! i)" if "i < length qs" for i
    using c [OF that] by (simp add: core_def que_ok_def)
  then show "(\<forall>qp \<in> set qs'. que_ok H qp) = (\<forall>qp \<in> set qs. que_ok H qp)"
    using len by (simp add: all_set_conv_all_nth)
qed

lemma same_core_inv:
  assumes "same_core st st'"
  shows "msg_inv info st' = msg_inv info st" and "aqueues info st' = aqueues info st"
proof -
  have s: "map core (msgque st') = map core (msgque st)" using assms by (simp add: same_core_def)
  note c = core_queues [OF s]
  have "queued (msgque st') = queued (msgque st)" unfolding queued_def c(2) ..
  then show "msg_inv info st' = msg_inv info st"
    using assms c unfolding msg_inv_def same_core_def by presburger
  have a: "amsg info st' = amsg info st" using assms unfolding same_core_def by (intro ext) (simp add: amsg_def)
  have "map (map (amsg info st)) (map msg_q (msgque st')) = map (map (amsg info st)) (map msg_q (msgque st))"
    unfolding c(2) ..
  then show "aqueues info st' = aqueues info st" unfolding aqueues_def a by (simp add: comp_def)
qed

section \<open>Locks\<close>

lemma same_core_wake [simp]: "same_core st (msg_wake c p st')  = same_core st st'"
  by (simp add: same_core_def msg_wake_def)

lemma same_core_unlock [simp]: "same_core st (msg_unlock i p st') = same_core st st'"
  by (simp add: same_core_def msg_unlock_def msg_wake_def)

lemma same_core_set_que:
  assumes "\<And>qp. core (f qp) = core qp"
  shows "same_core st (set_que i f st)"
  using assms by (cases "i < length (msgque st)") (simp_all add: same_core_def set_que_def map_update list_update_same_conv list_update_beyond)

lemma core_set_mode:
  "core (set_mode (\<lambda>m. m OR MSG_RWAIT) qp) = core qp" "core (set_mode (\<lambda>m. m OR MSG_WWAIT) qp) = core qp"
  "core (set_mode (\<lambda>m. m AND NOT MSG_RWAIT) qp) = core qp" "core (set_mode (\<lambda>m. m AND NOT MSG_WWAIT) qp) = core qp"
  by (simp_all add: core_def set_mode_def allocated_bit bit_simps MSG_RWAIT_def MSG_WWAIT_def)

lemma msglock_steps [simp]:
  "msglock (msg_wake c p st) = msglock st" "msglock (set_que i f st) = msglock st"
  "msglock (msg_unlock i p st) = (msglock st)[i := False]"
  by (simp_all add: msg_wake_def set_que_def msg_unlock_def)

lemma unlock_locked:
  "i < length L \<Longrightarrow> \<not> L ! i \<Longrightarrow> L[i := True, i := False] = L"
  by (simp add: list_update_same_conv)

lemma msgconv_cases:
  assumes conf: "msg_conf info" and inv: "msg_inv info st" and r: "msgconv info mid st = (c, st1)"
  obtains (err) e where "c = ConvErr e" "same_core st st1" "msglock st1 = msglock st"
  | (sleep) j where "c = ConvSleep j" "st1 = st"
  | (ok) i where "c = ConvOk i" "i < length (msgque st)" "allocated (msg_perm (msgque st ! i))" "\<not> msglock st ! i"
      "st1 = st\<lparr>msglock := (msglock st)[i := True]\<rparr>" "i = nat (mid mod msgmni info)"
proof -
  define i where "i = nat (mid mod msgmni info)"
  have m: "0 < msgmni info" "int (length (msgque st)) = msgmni info" "length (msglock st) = length (msgque st)"
    using conf inv by (simp_all add: msg_conf_def msg_inv_def)
  have il: "i < length (msgque st)" unfolding i_def using m pos_mod_bound [of "msgmni info" mid] by linarith
  show thesis
  proof (cases "mid < 0")
    case True
    with r show thesis by (intro err [of EINVAL]) (auto simp: msgconv_def)
  next
    case pos: False
    note r' = r [unfolded msgconv_def Let_def i_def [symmetric]]
    show thesis
    proof (cases "msglock st ! i")
      case True
      with r' pos show thesis by (intro sleep [of i]) auto
    next
      case free: False
      show thesis
      proof (cases "\<not> allocated (msg_perm (msgque st ! i)) \<or> of_int (mid div msgmni info) \<noteq> ip_seq (msg_perm (msgque st ! i))")
        case True
        with r' pos free have c: "c = ConvErr EINVAL"
          "st1 = msg_unlock i True (st\<lparr>msglock := (msglock st)[i := True]\<rparr>)" by auto
        show thesis
          by (rule err [OF c(1)]) (use c(2) il m(3) free in \<open>simp_all add: same_core_def msg_unlock_def msg_wake_def list_update_same_conv\<close>)
      next
        case False
        with r' pos free il show thesis by (intro ok [of i]) (auto simp: i_def)
      qed
    qed
  qed
qed

lemma lock_core: "same_core st (st\<lparr>msglock := (msglock st)[i := b]\<rparr>)"
  by (simp add: same_core_def)

section \<open>Taking a message off a queue\<close>

text \<open>The pool with one header dropped from the list.\<close>

lemma pool_drop:
  assumes ok: "pool_ok info H mp (xs @ h # ys)" and ts: "msg_ts (H h) \<noteq> 0"
  obtains mp' w where "rmfree mp (btoq info (msg_ts (H h))) (of_int (msg_spot (H h) + 1)) = RmDone mp' w"
      "pool_ok info H mp' (xs @ ys)"
  | "rmfree mp (btoq info (msg_ts (H h))) (of_int (msg_spot (H h) + 1)) = RmLost mp"
      "pool_ok info H mp (xs @ ys)"
proof -
  have b: "hblocks info H (xs @ h # ys) = hblocks info H xs @ (of_int (msg_spot (H h) + 1), btoq info (msg_ts (H h))) # hblocks info H ys"
    using ts by (simp add: hblocks_Cons hblock_def)
  have wf: "rm_wf mp" and bo: "blocks_ok (units mp) (hblocks info H xs @ (of_int (msg_spot (H h) + 1), btoq info (msg_ts (H h))) # hblocks info H ys)"
    and all: "units mp \<union> blocks_units (hblocks info H xs @ (of_int (msg_spot (H h) + 1), btoq info (msg_ts (H h))) # hblocks info H ys) \<subseteq> {1..msgseg info}"
    and hd: "\<forall>h \<in> set (xs @ ys). hdr_ok (H h)"
    using ok unfolding pool_ok_def b by auto
  have sub: "blocks_units (hblocks info H (xs @ ys)) \<subseteq> {1..msgseg info}" using all by (auto simp: blocks_units_def)
  from rm.release_held [OF wf bo] show thesis
  proof (elim disjE exE conjE)
    fix m' w
    assume m': "rmfree mp (btoq info (msg_ts (H h))) (of_int (msg_spot (H h) + 1)) = RmDone m' w" "rm_wf m'"
      "blocks_ok (units m') (hblocks info H xs @ hblocks info H ys)"
      "units m' \<union> blocks_units (hblocks info H xs @ hblocks info H ys) =
        units mp \<union> blocks_units (hblocks info H xs @ (of_int (msg_spot (H h) + 1), btoq info (msg_ts (H h))) # hblocks info H ys)"
    show thesis by (rule that(1) [OF m'(1)]) (use m'(2,3,4) all hd in \<open>simp add: pool_ok_def\<close>)
  next
    assume l: "rmfree mp (btoq info (msg_ts (H h))) (of_int (msg_spot (H h) + 1)) = RmLost mp"
      "blocks_ok (units mp) (hblocks info H xs @ hblocks info H ys)"
    show thesis by (rule that(2) [OF l(1)]) (use l(2) wf sub all hd in \<open>simp add: pool_ok_def\<close>)
  qed
qed

lemma pool_drop_empty:
  assumes "pool_ok info H mp (xs @ h # ys)" "msg_ts (H h) = 0"
  shows "pool_ok info H mp (xs @ ys)"
  using assms by (auto simp: pool_ok_def hblocks_Cons)

definition unlinked :: "nat \<Rightarrow> nat \<Rightarrow> msgstate \<Rightarrow> msgstate \<Rightarrow> bool" where
  "unlinked i k st st' \<longleftrightarrow>
     (\<exists>qp. msgque st' = (msgque st)[i := qp] \<and> msg_q qp = take k (msg_q (msgque st ! i)) @ drop (Suc k) (msg_q (msgque st ! i))
        \<and> msg_qnum qp = msg_qnum (msgque st ! i) - 1 \<and> msg_cbytes qp = msg_cbytes (msgque st ! i)
        \<and> allocated (msg_perm qp) = allocated (msg_perm (msgque st ! i)))
     \<and> msgh st' = msgh st \<and> msgpool st' = msgpool st \<and> msglock st' = msglock st
     \<and> msgfp st' = msg_q (msgque st ! i) ! k # msgfp st"

lemma msg_frames [simp]:
  "msgque (msg_wake c p st) = msgque st" "msgh (msg_wake c p st) = msgh st" "msgfp (msg_wake c p st) = msgfp st"
  "msgmap (msg_wake c p st) = msgmap st" "msgpool (msg_wake c p st) = msgpool st"
  "msgque (set_que i f st) = (msgque st)[i := f (msgque st ! i)]" "msgh (set_que i f st) = msgh st"
  "msgfp (set_que i f st) = msgfp st" "msgmap (set_que i f st) = msgmap st" "msgpool (set_que i f st) = msgpool st"
  "msgque (msg_unlock i p st) = msgque st" "msgh (msg_unlock i p st) = msgh st" "msgfp (msg_unlock i p st) = msgfp st"
  "msgmap (msg_unlock i p st) = msgmap st" "msgpool (msg_unlock i p st) = msgpool st"
  "msgque (hdr_free h p st) = msgque st" "msgh (hdr_free h p st) = msgh st" "msgfp (hdr_free h p st) = h # msgfp st"
  "msgmap (hdr_free h p st) = msgmap st" "msgpool (hdr_free h p st) = msgpool st" "msglock (hdr_free h p st) = msglock st"
  by (simp_all add: msg_wake_def set_que_def msg_unlock_def hdr_free_def)

lemma msgfree_ok:
  assumes i: "i < length (msgque st)" and k: "k < length (msg_q (msgque st ! i))"
    and ok: "pool_ok info (msgh st) (msgmap st) (queued (msgque st))"
  shows "\<exists>st'. msgfree info i k wflag st = Some st' \<and> unlinked i k st st'
    \<and> pool_ok info (msgh st') (msgmap st') (queued (msgque st'))"
proof -
  define q h where "q = msg_q (msgque st ! i)" and "h = q ! k"
  define xs ys where "xs = queued (take i (msgque st)) @ take k q" and "ys = drop (Suc k) q @ queued (drop (Suc i) (msgque st))"
  have "q = take k q @ h # drop (Suc k) q" using k by (simp add: q_def h_def id_take_nth_drop)
  then have split: "queued (msgque st) = xs @ h # ys"
    using queued_split [OF i] unfolding xs_def ys_def q_def [symmetric] by (metis append.assoc append_Cons)
  define st1 where "st1 = set_que i (\<lambda>qp. qp\<lparr>msg_q := take k q @ drop (Suc k) q, msg_qnum := msg_qnum qp - 1\<rparr>) st"
  define st2 where "st2 = (if ip_mode (msg_perm (msgque st ! i)) AND MSG_WWAIT \<noteq> 0
                 then msg_wake (QWrite i) wflag (set_que i (set_mode (\<lambda>m. m AND NOT MSG_WWAIT)) st1) else st1)"
  have aw: "allocated (p\<lparr>ip_mode := ip_mode p AND NOT MSG_WWAIT\<rparr>) = allocated p" for p
    by (simp add: allocated_bit bit_simps MSG_WWAIT_def)
  define qp where "qp = msgque st2 ! i"
  have qp: "msgque st2 = (msgque st)[i := qp]" "msg_q qp = take k q @ drop (Suc k) q"
    "msg_qnum qp = msg_qnum (msgque st ! i) - 1" "msg_cbytes qp = msg_cbytes (msgque st ! i)"
    "allocated (msg_perm qp) = allocated (msg_perm (msgque st ! i))"
    using i aw by (simp_all add: qp_def st2_def st1_def set_mode_def)
  have un2: "unlinked i k st (st2'\<lparr>msgfp := fp\<rparr>)"
    if "fp = h # msgfp st" "msgque st2' = msgque st2" "msgh st2' = msgh st" "msgpool st2' = msgpool st" "msglock st2' = msglock st" for st2' fp
    unfolding unlinked_def using that qp by (intro conjI exI [of _ qp]) (simp_all add: h_def q_def)
  have fr: "msgmap st2 = msgmap st" "msgh st2 = msgh st" "msgpool st2 = msgpool st" "msglock st2 = msglock st" "msgfp st2 = msgfp st"
    by (simp_all add: st2_def st1_def)
  have "queued (msgque st2) = xs @ ys"
    using i by (simp add: st2_def st1_def queued_update set_mode_def xs_def ys_def)
  note fr = fr this
  have eq: "msgfree info i k wflag st = map_option (hdr_free h wflag)
      (if msg_ts (msgh st h) \<noteq> 0 then msg_rmfree (btoq info (msg_ts (msgh st h))) (of_int (msg_spot (msgh st h) + 1)) st2 else Some st2)"
    unfolding msgfree_def Let_def q_def [symmetric] h_def [symmetric] st1_def [symmetric] st2_def [symmetric] by simp
  have free: "hdr_free h wflag s = (if msgfp s = [] then msg_wake HdrFree wflag s else s)\<lparr>msgfp := h # msgfp s\<rparr>" for s
    by (simp add: hdr_free_def)
  show ?thesis
  proof (cases "msg_ts (msgh st h) = 0")
    case True
    then have "pool_ok info (msgh st) (msgmap st) (xs @ ys)" using pool_drop_empty ok split by simp
    then show ?thesis using True unfolding eq free by (simp add: fr un2)
  next
    case False
    have ok': "pool_ok info (msgh st) (msgmap st) (xs @ h # ys)" using ok split by simp
    from this False show ?thesis
    proof (cases rule: pool_drop)
      case (1 mp' w)
      then show ?thesis using False unfolding eq free by (simp add: msg_rmfree_def fr un2)
    next
      case 2
      then show ?thesis using False unfolding eq free by (simp add: msg_rmfree_def fr un2)
    qed
  qed
qed

text \<open>Both counts adjusted, the invariant is back and the abstract queue has lost one message.\<close>

lemma unlinked_distinct:
  assumes i: "i < length qs" and k: "k < length (msg_q (qs ! i))" and q: "msg_q qp = take k (msg_q (qs ! i)) @ drop (Suc k) (msg_q (qs ! i))"
    and d: "distinct (fp @ queued qs)"
  shows "distinct ((msg_q (qs ! i) ! k # fp) @ queued (qs[i := qp]))"
proof -
  let ?q = "msg_q (qs ! i)"
  have "?q = take k ?q @ ?q ! k # drop (Suc k) ?q" using k by (simp add: id_take_nth_drop)
  then have "distinct (fp @ queued (take i qs) @ (take k ?q @ ?q ! k # drop (Suc k) ?q) @ queued (drop (Suc i) qs))"
    using d queued_split [OF i] by simp
  then show ?thesis using queued_update [OF i, of qp] q by auto
qed

lemma sum_drop_nth:
  "k < length xs \<Longrightarrow> (\<Sum>x \<leftarrow> xs. f x) = (\<Sum>x \<leftarrow> take k xs @ drop (Suc k) xs. f x) + f (xs ! k)" for f :: "'a \<Rightarrow> nat"
  using arg_cong [OF id_take_nth_drop [of k xs], of "\<lambda>l. \<Sum>x \<leftarrow> l. f x"] by simp

definition drop_nth :: "nat \<Rightarrow> 'a list \<Rightarrow> 'a list" where
  "drop_nth k xs = take k xs @ drop (Suc k) xs"

lemma unlinked_inv:
  assumes inv: "msg_inv info st" and i: "i < length (msgque st)" and k: "k < length (msg_q (msgque st ! i))"
    and un: "unlinked i k st1 st2" and st1: "msgque st1 = (msgque st)[i := qp1]" "msg_q qp1 = msg_q (msgque st ! i)"
      "msg_qnum qp1 = msg_qnum (msgque st ! i)" "allocated (msg_perm qp1) = allocated (msg_perm (msgque st ! i))"
      "msg_cbytes qp1 = msg_cbytes (msgque st ! i) - of_nat (msg_ts (msgh st (msg_q (msgque st ! i) ! k)))"
      "msgh st1 = msgh st" "msgpool st1 = msgpool st" "length (msglock st1) = length (msglock st)" "msgfp st1 = msgfp st"
    and ok: "pool_ok info (msgh st2) (msgmap st2) (queued (msgque st2))"
  shows "msg_inv info st2" and "aqueues info st2 = (aqueues info st)[i := drop_nth k (aqueues info st ! i)]"
proof -
  let ?q = "msg_q (msgque st ! i)"
  obtain qp where qp: "msgque st2 = (msgque st)[i := qp]" "msg_q qp = take k ?q @ drop (Suc k) ?q"
    "msg_qnum qp = msg_qnum (msgque st ! i) - 1" "msg_cbytes qp = msg_cbytes qp1"
    "allocated (msg_perm qp) = allocated (msg_perm (msgque st ! i))"
    using un st1 i unfolding unlinked_def by auto
  have fr: "msgh st2 = msgh st" "msgpool st2 = msgpool st" "length (msglock st2) = length (msglock st)"
    "msgfp st2 = ?q ! k # msgfp st"
    using un st1 i unfolding unlinked_def by auto
  have qok: "que_ok (msgh st) (msgque st ! i)" using inv i by (simp add: msg_inv_def)
  have s: "(\<Sum>h \<leftarrow> ?q. msg_ts (msgh st h)) = (\<Sum>h \<leftarrow> msg_q qp. msg_ts (msgh st h)) + msg_ts (msgh st (?q ! k))"
    unfolding qp(2) by (rule sum_drop_nth [OF k])
  have l: "length ?q = length (msg_q qp) + 1" using k qp(2) by simp
  have "que_ok (msgh st) qp"
    using qok unfolding que_ok_def qp(3-5) st1(5) s l by (auto simp: qp(2))
  then have 1: "\<forall>p \<in> set (msgque st2). que_ok (msgh st2) p"
    using inv set_update_subset_insert [of "msgque st" i qp] unfolding qp(1) fr(1) msg_inv_def by blast
  have 2: "distinct (msgfp st2 @ queued (msgque st2))"
    unfolding fr(4) qp(1) by (rule unlinked_distinct [OF i k qp(2)]) (use inv in \<open>simp add: msg_inv_def\<close>)
  have "length (msgque st2) = length (msgque st)" by (simp add: qp(1))
  then show "msg_inv info st2" using 1 2 ok inv fr(3) unfolding msg_inv_def by presburger
  have a: "amsg info st2 = amsg info st" using fr(1,2) by (intro ext) (simp add: amsg_def)
  show "aqueues info st2 = (aqueues info st)[i := drop_nth k (aqueues info st ! i)]"
    unfolding aqueues_def a qp(1) map_update using i by (simp add: qp(2) drop_nth_def take_map drop_map)
qed

section \<open>Selecting\<close>

lemma rcv_scan_pos:
  "typ > 0 \<Longrightarrow> rcv_scan typ k None ts =
     (if typ \<in> set ts then Some (k + length (takeWhile (\<lambda>t. t \<noteq> typ) ts)) else None)"
  by (induction ts arbitrary: k) auto

lemma takeWhile_stops: "x \<in> set ts \<Longrightarrow> length (takeWhile (\<lambda>t. t \<noteq> x) ts) < length ts"
  by (induction ts) auto

text \<open>The first minimal element below a bound.\<close>

definition first_min :: "int \<Rightarrow> int list \<Rightarrow> nat \<Rightarrow> bool" where
  "first_min b ts k \<longleftrightarrow>
     k < length ts \<and> ts ! k \<le> b \<and> (\<forall>j < length ts. ts ! j \<le> b \<longrightarrow> ts ! k \<le> ts ! j)
     \<and> (\<forall>j < k. ts ! j \<le> b \<longrightarrow> ts ! k < ts ! j)"

lemma first_min_unique: "first_min b ts k \<Longrightarrow> first_min b ts k' \<Longrightarrow> k = k'"
  unfolding first_min_def by (metis linorder_neqE_nat not_less)

text \<open>What the search has found in the part \<open>pre\<close> already seen.\<close>

definition best_of :: "int \<Rightarrow> int list \<Rightarrow> (nat \<times> int) option \<Rightarrow> bool" where
  "best_of b pre best \<longleftrightarrow>
     (case best of None \<Rightarrow> \<forall>t \<in> set pre. \<not> t \<le> b | Some (k, t) \<Rightarrow> first_min b pre k \<and> t = pre ! k)"

lemma best_of_keep_none: "best_of b pre None \<Longrightarrow> \<not> t \<le> b \<Longrightarrow> best_of b (pre @ [t]) None"
  by (simp add: best_of_def)

lemma best_of_keep: "best_of b pre (Some (k, t')) \<Longrightarrow> \<not> t \<le> b \<or> t' \<le> t \<Longrightarrow> best_of b (pre @ [t]) (Some (k, t'))"
  by (auto simp: best_of_def first_min_def nth_append less_Suc_eq)

lemma best_of_first: "best_of b pre None \<Longrightarrow> t \<le> b \<Longrightarrow> best_of b (pre @ [t]) (Some (length pre, t))"
  by (auto simp: best_of_def first_min_def nth_append less_Suc_eq)

lemma best_of_better:
  assumes "best_of b pre (Some (k, t'))" "t \<le> b" "t < t'"
  shows "best_of b (pre @ [t]) (Some (length pre, t))"
proof -
  have "t < pre ! j" if "j < length pre" "pre ! j \<le> b" for j
    using assms that unfolding best_of_def first_min_def by fastforce
  then show ?thesis using assms(2) unfolding best_of_def first_min_def by (auto simp: nth_append less_Suc_eq less_imp_le)
qed

lemma rcv_scan_neg:
  assumes "typ \<le> 0"
  shows "best_of (to_long (- typ)) pre best \<Longrightarrow>
    best_of (to_long (- typ)) (pre @ ts) (map_option (\<lambda>k. (k, (pre @ ts) ! k)) (rcv_scan typ (length pre) best ts))"
proof (induction ts arbitrary: pre best)
  case Nil
  then show ?case by (cases best) (auto simp: best_of_def)
next
  case (Cons t ts)
  let ?b = "to_long (- typ)"
  have step: "best_of ?b (pre @ [t]) new \<Longrightarrow> rcv_scan typ (length pre) best (t # ts) = rcv_scan typ (length (pre @ [t])) new ts \<Longrightarrow>
    best_of ?b (pre @ t # ts) (map_option (\<lambda>k. (k, (pre @ t # ts) ! k)) (rcv_scan typ (length pre) best (t # ts)))" for new
    using Cons.IH [of "pre @ [t]" new] by simp
  show ?case
  proof (cases best)
    case None
    then show ?thesis using Cons.prems assms best_of_keep_none best_of_first
      by (cases "t \<le> ?b") (intro step [of "Some (length pre, t)"] step [of None]; auto)+
  next
    case (Some kt)
    then obtain k t' where b: "best = Some (k, t')" by (cases kt) simp
    show ?thesis
    proof (cases "t \<le> ?b \<and> t < t'")
      case True
      then show ?thesis using Cons.prems assms b best_of_better by (intro step [of "Some (length pre, t)"]) auto
    next
      case False
      then show ?thesis using Cons.prems assms b best_of_keep by (intro step [of best]) auto
    qed
  qed
qed

lemma rcv_select_neg:
  assumes "typ < 0" "typ > -2147483648"
  shows "case rcv_select typ ts of None \<Rightarrow> \<forall>t \<in> set ts. \<not> t \<le> - typ | Some k \<Rightarrow> first_min (- typ) ts k"
proof -
  have "to_long (- typ) = - typ" using assms by (simp add: to_long_def)
  then show ?thesis
    using rcv_scan_neg [of "typ" "[]" None ts] assms
    by (cases "rcv_scan typ 0 None ts") (auto simp: rcv_select_def best_of_def)
qed

lemma rcv_select_bound: "rcv_select typ ts = Some k \<Longrightarrow> k < length ts"
proof -
  assume s: "rcv_select typ ts = Some k"
  consider "typ = 0" | "typ > 0" | "typ < 0" by linarith
  then show ?thesis
  proof cases
    case 2
    then have "typ \<in> set ts" "k = length (takeWhile (\<lambda>t. t \<noteq> typ) ts)"
      using s by (auto simp: rcv_select_def rcv_scan_pos split: if_splits)
    then show ?thesis using takeWhile_stops [of "typ" ts] by auto
  next
    case 3
    then show ?thesis using rcv_scan_neg [of "typ" "[]" None ts] s
      by (auto simp: rcv_select_def best_of_def first_min_def)
  qed (use s in \<open>auto simp: rcv_select_def split: if_splits\<close>)
qed

text \<open>
  Which message \<^verbatim>\<open>msgrcv\<close> takes: with type 0 the first one on the queue, with a positive type the
  first of that type, with a negative type the first one of the lowest type not above its absolute
  value; and it finds none only when no message qualifies.
\<close>

theorem rcv_select_correct:
  assumes "-2147483648 < typ"
  shows "case rcv_select typ ts of
      None \<Rightarrow> (if typ = 0 then ts = [] else if typ > 0 then typ \<notin> set ts else \<forall>t \<in> set ts. - typ < t)
    | Some k \<Rightarrow> k < length ts
        \<and> (if typ = 0 then k = 0
           else if typ > 0 then ts ! k = typ \<and> (\<forall>j < k. ts ! j \<noteq> typ)
           else first_min (- typ) ts k)"
proof -
  consider (zero) "typ = 0" | (pos) "typ > 0" | (neg) "typ < 0" by linarith
  then show ?thesis
  proof cases
    case zero
    then show ?thesis by (simp add: rcv_select_def)
  next
    case pos
    then have eq: "rcv_select typ ts = (if typ \<in> set ts then Some (length (takeWhile (\<lambda>t. t \<noteq> typ) ts)) else None)"
      by (simp add: rcv_select_def rcv_scan_pos)
    show ?thesis
    proof (cases "typ \<in> set ts")
      case True
      let ?k = "length (takeWhile (\<lambda>t. t \<noteq> typ) ts)"
      have k: "?k < length ts" using True by (rule takeWhile_stops)
      then have "ts ! ?k = typ" using nth_length_takeWhile [of "\<lambda>t. t \<noteq> typ" ts] by blast
      moreover have "ts ! j \<noteq> typ" if "j < ?k" for j
        using that nth_mem [of j "takeWhile (\<lambda>t. t \<noteq> typ) ts"] by (auto simp: takeWhile_nth dest: set_takeWhileD)
      ultimately show ?thesis using pos k True unfolding eq by simp
    qed (use pos eq in simp)
  next
    case neg
    then show ?thesis using rcv_select_neg [OF neg assms, of ts] by (auto simp: first_min_def not_le split: option.splits)
  qed
qed

theorem rcv_select_correct_witness:
  "rcv_select (-3) [5, 3, 2, 2] = Some 2 \<and> first_min 3 [5, 3, 2, 2] 2"
proof -
  have s: "rcv_select (-3) [5, 3, 2, 2] = Some 2" by (simp add: rcv_select_def to_long_def)
  have "first_min (- (-3)) [5, 3, 2, 2] 2" using rcv_select_correct [of "-3" "[5, 3, 2, 2]"] unfolding s by simp
  with s show ?thesis by simp
qed

section \<open>\<^verbatim>\<open>msgrcv\<close>\<close>

lemma aqueues_nth:
  assumes "i < length (msgque st)"
  shows "aqueues info st ! i = map (amsg info st) (msg_q (msgque st ! i))"
  using assms by (simp add: aqueues_def)

lemma pool_read_take: "n \<le> m \<Longrightarrow> pool_read info spot n pool = take n (pool_read info spot m pool)"
  by (simp add: pool_read_def take_map)

lemma pool_read_length [simp]: "length (pool_read info spot n pool) = n"
  by (simp add: pool_read_def)

text \<open>What a step of a receive on queue \<open>i\<close> may do: hand over a selected message, or change no queue.\<close>

definition rcv_result :: "msginfo \<Rightarrow> nat \<Rightarrow> rcvarg \<Rightarrow> msgstate \<Rightarrow> msg_res \<Rightarrow> msgstate \<Rightarrow> bool" where
  "rcv_result info i arg st r st' \<longleftrightarrow>
     msg_inv info st' \<and> msglock st' = msglock st
     \<and> (case r of
          MGot t txt \<Rightarrow>
            (\<exists>k full. rcv_select (r_typ arg) (map fst (aqueues info st ! i)) = Some k
               \<and> k < length (aqueues info st ! i) \<and> aqueues info st ! i ! k = (t, full) \<and> txt = take (nat (r_sz arg)) full
               \<and> (r_sz arg < int (length full) \<longrightarrow> r_flg arg AND MSG_NOERROR \<noteq> 0)
               \<and> aqueues info st' = (aqueues info st)[i := drop_nth k (aqueues info st ! i)])
        | MVal _ \<Rightarrow> False
        | _ \<Rightarrow> aqueues info st' = aqueues info st)"

text \<open>Leaving with an error or going to sleep, the lock given back.\<close>

lemma rcv_result_quiet:
  assumes "msg_inv info st" "same_core st st1" "msglock st1 = msglock st" "(\<exists>e. r = MErr e) \<or> (\<exists>c. r = MSleep c)"
  shows "rcv_result info i arg st r st1"
  using assms same_core_inv [OF assms(2)] by (auto simp: rcv_result_def)

lemma quiet_unlock:
  assumes "msg_inv info st" "i < length (msgque st)" "\<not> msglock st ! i" "same_core (st\<lparr>msglock := (msglock st)[i := True]\<rparr>) st1"
    and "msglock st1 = (msglock st)[i := True]"
  shows "same_core st (msg_unlock i p st1)" "msglock (msg_unlock i p st1) = msglock st"
proof -
  show "same_core st (msg_unlock i p st1)" using same_core_trans [OF lock_core assms(4)] by simp
  show "msglock (msg_unlock i p st1) = msglock st"
    using assms by (simp add: msg_inv_def list_update_same_conv)
qed

abbreviation locked :: "nat \<Rightarrow> msgstate \<Rightarrow> msgstate" where
  "locked i st \<equiv> st\<lparr>msglock := (msglock st)[i := True]\<rparr>"

text \<open>The message at position \<open>k\<close> is handed over.\<close>

lemma msgrcv_deliver:
  assumes inv: "msg_inv info st" and i: "i < length (msgque st)" "\<not> msglock st ! i"
    and k: "k < length (msg_q (msgque st ! i))" "rcv_select (r_typ arg) (map fst (aqueues info st ! i)) = Some k"
    and smp: "smp = msgh st (msg_q (msgque st ! i) ! k)" and sz: "0 \<le> r_sz arg"
    and big: "r_sz arg < int (msg_ts smp) \<Longrightarrow> r_flg arg AND MSG_NOERROR \<noteq> 0"
  shows "\<exists>st3. msgfree info i k False (set_que i (\<lambda>qp. qp\<lparr>msg_cbytes := msg_cbytes qp - of_nat (msg_ts smp),
              msg_lrpid := pid, msg_rtime := now\<rparr>) (locked i st)) = Some st3
    \<and> rcv_result info i arg st (MGot (msg_type smp) (pool_read info (msg_spot smp)
         (if r_sz arg < int (msg_ts smp) then nat (r_sz arg) else msg_ts smp) (msgpool st))) (msg_unlock i True st3)"
proof -
  define qp1 where "qp1 = (msgque st ! i)\<lparr>msg_cbytes := msg_cbytes (msgque st ! i) - of_nat (msg_ts smp),
      msg_lrpid := pid, msg_rtime := now\<rparr>"
  define st2 where "st2 = (locked i st)\<lparr>msgque := (msgque st)[i := qp1]\<rparr>"
  have st2: "set_que i (\<lambda>qp. qp\<lparr>msg_cbytes := msg_cbytes qp - of_nat (msg_ts smp),
      msg_lrpid := pid, msg_rtime := now\<rparr>) (locked i st) = st2" by (simp add: set_que_def st2_def qp1_def)
  have qd: "queued (msgque st2) = queued (msgque st)"
    using i queued_split [OF i(1)] by (simp add: st2_def queued_update qp1_def)
  have "pool_ok info (msgh st2) (msgmap st2) (queued (msgque st2))"
    unfolding qd using inv by (simp add: st2_def msg_inv_def)
  then obtain st3 where st3: "msgfree info i k False st2 = Some st3" "unlinked i k st2 st3"
    "pool_ok info (msgh st3) (msgmap st3) (queued (msgque st3))"
    using msgfree_ok [of i st2 k info False] i k(1) by (auto simp: st2_def qp1_def)
  have u: "msg_inv info st3 \<and> aqueues info st3 = (aqueues info st)[i := drop_nth k (aqueues info st ! i)]"
    using unlinked_inv [OF inv i(1) k(1) st3(2), of qp1, OF _ _ _ _ _ _ _ _ _ st3(3)] i
    by (simp add: st2_def qp1_def smp)
  have "msglock st3 = (msglock st)[i := True]" using st3(2) by (simp add: unlinked_def st2_def)
  then have lock: "msglock (msg_unlock i True st3) = msglock st"
    using i inv by (simp add: msg_inv_def list_update_same_conv)
  have "same_core st3 (msg_unlock i True st3)" by simp
  note sc = same_core_inv [OF this]
  let ?full = "pool_read info (msg_spot smp) (msg_ts smp) (msgpool st)"
  have full: "pool_read info (msg_spot smp) (if r_sz arg < int (msg_ts smp) then nat (r_sz arg) else msg_ts smp) (msgpool st)
      = take (nat (r_sz arg)) ?full"
    using sz by (auto intro: pool_read_take)
  have elem: "aqueues info st ! i ! k = (msg_type smp, ?full)" "k < length (aqueues info st ! i)"
    using i k(1) by (simp_all add: aqueues_nth amsg_def smp)
  have "rcv_result info i arg st (MGot (msg_type smp) (take (nat (r_sz arg)) ?full)) (msg_unlock i True st3)"
    unfolding rcv_result_def using u lock sc elem k(2) big
    by (auto intro!: exI [of _ k] exI [of _ ?full])
  then show ?thesis unfolding st2 full using st3(1) by blast
qed

lemma msgrcv_find_locked:
  assumes "msgconv info (r_id arg) st = (ConvOk i, locked i st)" and q: "q = msg_q (msgque st ! i)"
  shows "msgrcv_find info u now i arg st =
    (case rcv_select (r_typ arg) (map (\<lambda>h. msg_type (msgh st h)) q) of
       None \<Rightarrow> if r_flg arg AND IPC_NOWAIT \<noteq> 0 then Some (MErr ENOMSG, msg_unlock i True (locked i st))
               else Some (MSleep (QRead i), msg_unlock i True (set_que i (set_mode (\<lambda>m. m OR MSG_RWAIT)) (locked i st)))
     | Some k \<Rightarrow>
         (let smp = msgh st (q ! k); sz = (if r_sz arg < int (msg_ts smp) then nat (r_sz arg) else msg_ts smp) in
          if r_sz arg < int (msg_ts smp) \<and> r_flg arg AND MSG_NOERROR = 0 then Some (MErr E2BIG, msg_unlock i True (locked i st))
          else if \<not> r_out1 arg \<or> (sz \<noteq> 0 \<and> \<not> r_out2 arg) then Some (MErr EFAULT, msg_unlock i True (locked i st))
          else map_option (\<lambda>st3. (MGot (msg_type smp) (pool_read info (msg_spot smp) sz (msgpool st)), msg_unlock i True st3))
            (msgfree info i k False (set_que i (\<lambda>qp. qp\<lparr>msg_cbytes := msg_cbytes qp - of_nat (msg_ts smp),
                msg_lrpid := p_pid u, msg_rtime := now\<rparr>) (locked i st)))))"
  unfolding msgrcv_find_def assms(1) q prod.case msg_conv.case Let_def by (simp split: option.split)

lemma msgrcv_find_ok:
  assumes conf: "msg_conf info" and inv: "msg_inv info st" and i: "i < length (msgque st)" and sz: "0 \<le> r_sz arg"
  shows "\<exists>r st'. msgrcv_find info u now i arg st = Some (r, st') \<and> rcv_result info i arg st r st'"
proof -
  obtain c st1 where c: "msgconv info (r_id arg) st = (c, st1)" by force
  from conf inv c show ?thesis
  proof (cases rule: msgconv_cases)
    case (err e)
    with c inv show ?thesis by (simp add: msgrcv_find_def rcv_result_quiet)
  next
    case (sleep j)
    with c inv show ?thesis by (simp add: msgrcv_find_def rcv_result_quiet)
  next
    case (ok j)
    have quiet: "rcv_result info i arg st r (msg_unlock j p st2)"
      if "same_core (locked j st) st2" "msglock st2 = (msglock st)[j := True]" "(\<exists>e. r = MErr e) \<or> (\<exists>c. r = MSleep c)" for st2 p r
      using rcv_result_quiet [OF inv quiet_unlock [OF inv ok(2,4)] that(3)] that(1,2) by blast
    have c': "msgconv info (r_id arg) st = (ConvOk j, locked j st)" using c ok(1,5) by simp
    show ?thesis
    proof (cases "j = i")
      case False
      then show ?thesis using quiet [of "locked j st"] by (simp add: msgrcv_find_def c')
    next
      case True
      define q where "q = msg_q (msgque st ! i)"
      have types: "map (\<lambda>h. msg_type (msgh st h)) q = map fst (aqueues info st ! i)"
        using i by (simp add: aqueues_nth amsg_def q_def)
      note eq = msgrcv_find_locked [OF c' [unfolded True] q_def, of u now]
      show ?thesis
      proof (cases "rcv_select (r_typ arg) (map (\<lambda>h. msg_type (msgh st h)) q)")
        case None
        have "same_core (locked i st) (set_que i (set_mode (\<lambda>m. m OR MSG_RWAIT)) (locked i st))"
          by (rule same_core_set_que) (rule core_set_mode)
        then show ?thesis unfolding eq None using True quiet [of "locked i st"] quiet by simp
      next
        case (Some k)
        have k: "k < length q" using rcv_select_bound [OF Some] by simp
        show ?thesis
          unfolding eq Some Let_def option.case
          using True quiet [of "locked i st"]
            msgrcv_deliver [OF inv i _ k [unfolded q_def] Some [unfolded types] refl sz, where pid = "p_pid u" and now = now] ok(4)
          by (auto simp: q_def [symmetric])
      qed
    qed
  qed
qed

lemma msgrcv_ok:
  assumes conf: "msg_conf info" and inv: "msg_inv info st"
  shows "\<exists>r st'. msgrcv info u now arg st = Some (r, st')
    \<and> rcv_result info (nat (r_id arg mod msgmni info)) arg st r st'"
proof -
  obtain c st1 where c: "msgconv info (r_id arg) st = (c, st1)" by force
  from conf inv c show ?thesis
  proof (cases rule: msgconv_cases)
    case (err e)
    with c inv show ?thesis by (simp add: msgrcv_def rcv_result_quiet)
  next
    case (sleep j)
    with c inv show ?thesis by (simp add: msgrcv_def rcv_result_quiet)
  next
    case (ok j)
    have ul: "same_core st (msg_unlock j True (locked j st))" "msglock (msg_unlock j True (locked j st)) = msglock st"
      using quiet_unlock [OF inv ok(2,4), of "locked j st"] by simp_all
    note sc = same_core_inv [OF ul(1)]
    have c': "msgconv info (r_id arg) st = (ConvOk j, locked j st)" using c ok(1,5) by simp
    have quiet: "rcv_result info j arg st (MErr e) (msg_unlock j True (locked j st))" for e
      by (rule rcv_result_quiet [OF inv ul]) simp
    have "0 \<le> r_sz arg \<Longrightarrow> \<exists>r st'. msgrcv_find info u now j arg (msg_unlock j True (locked j st)) = Some (r, st')
        \<and> rcv_result info j arg (msg_unlock j True (locked j st)) r st'"
      using ok(2) inv sc by (intro msgrcv_find_ok [OF conf]) simp_all
    then have "0 \<le> r_sz arg \<Longrightarrow> \<exists>r st'. msgrcv_find info u now j arg (msg_unlock j True (locked j st)) = Some (r, st')
        \<and> rcv_result info j arg st r st'"
      unfolding rcv_result_def sc(2) ul(2) .
    then show ?thesis using quiet unfolding ok(6) [symmetric] msgrcv_def c' by (auto split: option.split)
  qed
qed

section \<open>\<^verbatim>\<open>msgsnd\<close>\<close>

text \<open>The bytes of different blocks are different bytes.\<close>

lemma text_in_block:
  assumes conf: "msg_conf info" and n: "n \<le> 65535" and sp: "0 \<le> spot" "spot \<le> 32767"
    and x: "nat (msgssz info * spot) \<le> x" "x < nat (msgssz info * spot) + n"
  shows "x div nat (msgssz info) + 1 \<in> block (of_int (spot + 1)) (btoq info n)"
proof -
  let ?s = "nat (msgssz info)"
  have s: "0 < msgssz info" using conf by (simp add: msg_conf_def)
  have a: "unat (of_int (spot + 1) :: u32) = nat spot + 1"
    using sp by (simp add: unat_eq_nat_uint uint_word_of_int take_bit_int_eq_self nat_add_distrib del: of_int_add)
  have b: "nat (msgssz info * spot) = ?s * nat spot" using s sp by (simp add: nat_mult_distrib)
  have "int n \<le> msgssz info * int (unat (btoq info n))" using btoq_unat(3) [OF conf n] .
  then have "nat (int n) \<le> nat (msgssz info * int (unat (btoq info n)))" by (rule nat_mono)
  then have le: "n \<le> ?s * unat (btoq info n)" using s by (simp add: nat_mult_distrib)
  have "nat spot \<le> x div ?s" using x(1) s unfolding b by (metis div_le_mono nonzero_mult_div_cancel_left zero_less_nat_eq less_not_refl)
  moreover have "x < ?s * (nat spot + unat (btoq info n))" using x(2) le unfolding b by (simp add: distrib_left)
  then have "x div ?s < nat spot + unat (btoq info n)" using s by (simp add: less_mult_imp_div_less mult.commute)
  ultimately show ?thesis unfolding block_def a by simp
qed

lemma pool_write_other:
  assumes conf: "msg_conf info"
    and a: "length txt \<le> 65535" "0 \<le> spot" "spot \<le> 32767" and b: "n \<le> 65535" "0 \<le> spot'" "spot' \<le> 32767"
    and dis: "block (of_int (spot + 1)) (btoq info (length txt)) \<inter> block (of_int (spot' + 1)) (btoq info n) = {}"
  shows "pool_read info spot' n (pool_write info spot txt pool) = pool_read info spot' n pool"
proof -
  have "pool_write info spot txt pool x = pool x"
    if x: "nat (msgssz info * spot') \<le> x" "x < nat (msgssz info * spot') + n" for x
  proof -
    have "\<not> (nat (msgssz info * spot) \<le> x \<and> x < nat (msgssz info * spot) + length txt)"
      using text_in_block [OF conf a] text_in_block [OF conf b x] dis by blast
    then show ?thesis unfolding pool_write_def Let_def by (rule if_not_P)
  qed
  then show ?thesis by (simp add: pool_read_def)
qed

lemma pool_write_read: "pool_read info spot (length txt) (pool_write info spot txt pool) = txt"
  by (rule nth_equalityI) (simp_all add: pool_read_def pool_write_def Let_def)

definition new_hdr :: "int \<Rightarrow> nat \<Rightarrow> int \<Rightarrow> msg" where
  "new_hdr mtype cnt spot = \<lparr>msg_type = mtype, msg_ts = cnt, msg_spot = (if cnt \<noteq> 0 then spot else -1)\<rparr>"

text \<open>The state in which \<^verbatim>\<open>msgsnd\<close> puts the message on the queue.\<close>

definition ready :: "msginfo \<Rightarrow> nat \<Rightarrow> nat \<Rightarrow> int \<Rightarrow> u8 list \<Rightarrow> int \<Rightarrow> msgstate \<Rightarrow> msgstate \<Rightarrow> bool" where
  "ready info i h mtype txt spot st st2 \<longleftrightarrow>
     msgque st2 = msgque st \<and> msglock st2 = (msglock st)[i := True] \<and> msgh st2 = msgh st \<and> msgfp st = h # msgfp st2
     \<and> length txt \<le> 65535 \<and> 0 \<le> spot \<and> spot \<le> 32767
     \<and> pool_read info (if length txt \<noteq> 0 then spot else -1) (length txt) (msgpool st2) = txt
     \<and> (\<forall>h' \<in> set (queued (msgque st)). pool_read info (msg_spot (msgh st h')) (msg_ts (msgh st h')) (msgpool st2)
          = pool_read info (msg_spot (msgh st h')) (msg_ts (msgh st h')) (msgpool st))
     \<and> (\<forall>xs ys. queued (msgque st) = xs @ ys \<longrightarrow>
          pool_ok info ((msgh st)(h := new_hdr mtype (length txt) spot)) (msgmap st2) (xs @ h # ys))"

lemma aqueue_put:
  assumes i: "i < length (msgque st)" and h: "h \<notin> set (queued (msgque st))"
    and q: "msgque st' = (msgque st)[i := qp]" "msg_q qp = msg_q (msgque st ! i) @ [h]"
    and old: "\<And>h'. h' \<in> set (queued (msgque st)) \<Longrightarrow> amsg info st' h' = amsg info st h'"
  shows "aqueues info st' = (aqueues info st)[i := aqueues info st ! i @ [amsg info st' h]]"
proof (rule nth_equalityI)
  show "length (aqueues info st') = length ((aqueues info st)[i := aqueues info st ! i @ [amsg info st' h]])"
    by (simp add: aqueues_def q)
  fix j assume "j < length (aqueues info st')"
  then have j: "j < length (msgque st)" by (simp add: aqueues_def q)
  have "h' \<in> set (queued (msgque st))" if "h' \<in> set (msg_q (msgque st ! j))" for h'
    using that queued_split [OF j] by auto
  then have "map (amsg info st') (msg_q (msgque st ! j)) = map (amsg info st) (msg_q (msgque st ! j))"
    using old by (intro map_cong) auto
  then show "aqueues info st' ! j = (aqueues info st)[i := aqueues info st ! i @ [amsg info st' h]] ! j"
    using i j by (cases "j = i") (simp_all add: aqueues_def q)
qed

lemma msgsnd_put_ok:
  assumes inv: "msg_inv info st" and i: "i < length (msgque st)" "\<not> msglock st ! i" "allocated (msg_perm (msgque st ! i))"
    and rd: "ready info i h mtype txt' spot st st2"
    and r: "msgsnd_put u now i mtype (length txt') spot h st2 = (r, st')"
  shows "r = MVal 0" "msg_inv info st'" "msglock st' = msglock st"
    and "aqueues info st' = (aqueues info st)[i := aqueues info st ! i @ [(mtype, txt')]]"
proof -
  let ?N = "new_hdr mtype (length txt') spot"
  have rd': "msgque st2 = msgque st" "msglock st2 = (msglock st)[i := True]" "msgh st2 = msgh st" "msgfp st = h # msgfp st2"
    "length txt' \<le> 65535" "0 \<le> spot" "spot \<le> 32767"
    using rd by (simp_all add: ready_def)
  have tu: "nat (to_ushort (int (length txt'))) = length txt'" using rd'(5) by (simp add: to_ushort_def)
  have ts: "to_short (if length txt' \<noteq> 0 then spot else -1) = (if length txt' \<noteq> 0 then spot else -1)"
    using rd'(6,7) by (intro to_short_id) auto
  have d: "distinct (h # msgfp st2 @ queued (msgque st))" using inv rd'(4) by (simp add: msg_inv_def)
  then have hq: "h \<notin> set (queued (msgque st))" by simp
  define qp where "qp = msgque st' ! i"
  have st': "r = MVal 0" "msgque st' = (msgque st)[i := qp]" "msg_q qp = msg_q (msgque st ! i) @ [h]"
    "msg_cbytes qp = msg_cbytes (msgque st ! i) + of_nat (length txt')" "msg_qnum qp = msg_qnum (msgque st ! i) + 1"
    "allocated (msg_perm qp)" "msgh st' = (msgh st)(h := ?N)" "msgfp st' = msgfp st2" "msgmap st' = msgmap st2"
    "msgpool st' = msgpool st2" "msglock st' = (msglock st)[i := True, i := False]"
    using r i rd'(1-3) tu ts
    by (auto simp: msgsnd_put_def Let_def qp_def set_mode_def new_hdr_def allocated_bit bit_simps MSG_RWAIT_def)
  show "r = MVal 0" by (rule st'(1))
  show lock: "msglock st' = msglock st" using st'(11) i inv by (simp add: msg_inv_def list_update_same_conv)
  let ?xs = "queued (take i (msgque st)) @ msg_q (msgque st ! i)" and ?ys = "queued (drop (Suc i) (msgque st))"
  have q: "queued (msgque st) = ?xs @ ?ys" "queued (msgque st') = ?xs @ h # ?ys"
    using queued_split [OF i(1)] queued_update [OF i(1), of qp] st'(2,3) by simp_all
  have "pool_ok info (msgh st') (msgmap st') (queued (msgque st'))"
    using rd q(1) unfolding ready_def st'(7,9) q(2) by blast
  moreover have "distinct (msgfp st' @ queued (msgque st'))" using d unfolding q st'(8) by auto
  moreover have old: "que_ok (msgh st') p = que_ok (msgh st) p" if "p \<in> set (msgque st)" for p
  proof -
    have "set (msg_q p) \<subseteq> set (queued (msgque st))" using that by (auto simp: queued_def)
    then have "map (\<lambda>h'. msg_ts (msgh st' h')) (msg_q p) = map (\<lambda>h'. msg_ts (msgh st h')) (msg_q p)"
      using hq unfolding st'(7) by (intro map_cong) auto
    then show ?thesis unfolding que_ok_def by (simp only:)
  qed
  have new: "que_ok (msgh st') qp"
    using old [OF nth_mem [OF i(1)]] inv i st'(3-6) by (simp add: que_ok_def msg_inv_def st'(7) new_hdr_def)
  have "\<forall>p \<in> set (msgque st'). que_ok (msgh st') p"
    using set_update_subset_insert [of "msgque st" i qp] old new inv unfolding st'(2) msg_inv_def by blast
  ultimately show "msg_inv info st'" using inv st'(2) lock by (simp add: msg_inv_def)
  have am: "amsg info st' h' = amsg info st h'" if "h' \<in> set (queued (msgque st))" for h'
  proof -
    have "h' \<noteq> h" using that hq by blast
    then show ?thesis using rd that st'(7,10) by (simp add: amsg_def ready_def)
  qed
  have "amsg info st' h = (mtype, txt')" using rd st'(7,10) by (simp add: amsg_def ready_def new_hdr_def)
  with aqueue_put [OF i(1) hq st'(2,3) am] show "aqueues info st' = (aqueues info st)[i := aqueues info st ! i @ [(mtype, txt')]]"
    by simp
qed

text \<open>The two ways to get there: an empty message needs no space, any other one its block.\<close>

lemma pool_ok_fresh:
  assumes "h \<notin> set hs"
  shows "pool_ok info (H(h := N)) mp hs = pool_ok info H mp hs"
proof -
  have "hblocks info (H(h := N)) hs = hblocks info H hs" using assms by (intro hblocks_cong) auto
  moreover have "(\<forall>h' \<in> set hs. hdr_ok ((H(h := N)) h')) = (\<forall>h' \<in> set hs. hdr_ok (H h'))" using assms by auto
  ultimately show ?thesis by (simp only: pool_ok_def)
qed

lemma ready_empty:
  assumes inv: "msg_inv info st" and fp: "msgfp st = h # rest"
  shows "ready info i h mtype [] 0 st ((locked i st)\<lparr>msgfp := rest\<rparr>)"
proof -
  have hq: "h \<notin> set (queued (msgque st))" and ok: "pool_ok info (msgh st) (msgmap st) (queued (msgque st))"
    using inv fp by (auto simp: msg_inv_def)
  have "pool_ok info ((msgh st)(h := new_hdr mtype 0 0)) (msgmap st) (xs @ h # ys)" if "queued (msgque st) = xs @ ys" for xs ys
  proof -
    have "pool_ok info ((msgh st)(h := new_hdr mtype 0 0)) (msgmap st) (xs @ ys)"
      using pool_ok_fresh [OF hq] ok that by metis
    moreover have "hdr_ok (new_hdr mtype 0 0)" by (simp add: hdr_ok_def new_hdr_def)
    ultimately show ?thesis by (auto simp: pool_ok_def hblocks_Cons new_hdr_def)
  qed
  then show ?thesis using fp by (simp add: ready_def pool_read_def)
qed

lemma ready_block:
  assumes conf: "msg_conf info" and inv: "msg_inv info st" and fp: "msgfp st = h # rest"
    and n: "0 < length txt'" "length txt' \<le> 65535"
    and a: "rmalloc (msgmap st) (btoq info (length txt')) = Some (a, mp)" "a \<noteq> 0"
  shows "ready info i h mtype txt' (uint (a - 1)) st
    ((locked i st)\<lparr>msgfp := rest, msgmap := mp, msgpool := pool_write info (uint (a - 1)) txt' (msgpool st)\<rparr>)"
proof -
  let ?hs = "queued (msgque st)" and ?n = "btoq info (length txt')" and ?spot = "uint (a - 1)" and ?H = "msgh st"
  let ?N = "new_hdr mtype (length txt') ?spot"
  have hq: "h \<notin> set ?hs" and ok: "pool_ok info ?H (msgmap st) ?hs" using inv fp by (auto simp: msg_inv_def)
  have po: "rm_wf (msgmap st)" "blocks_ok (units (msgmap st)) (hblocks info ?H ?hs)"
    "units (msgmap st) \<union> blocks_units (hblocks info ?H ?hs) \<subseteq> {1..msgseg info}" "\<forall>h \<in> set ?hs. hdr_ok (?H h)"
    using ok by (simp_all add: pool_ok_def)
  have nz: "?n \<noteq> 0" using btoq_unat(2) [OF conf n(2)] n(1) by simp
  note al = rm.alloc_some [OF po(1) nz a] rm.alloc_inv [OF po(1) a(1)] rm.alloc_held [OF po(1,2) nz a]
  have "unat a \<in> block a ?n" using nz by (simp add: block_def word_neq_zero_unat)
  then have "unat a \<in> units (msgmap st)" using al(1) by blast
  then have "unat a \<le> msgseg info" using po(3) by auto
  then have ua: "unat a \<le> 32767" "unat a \<noteq> 0" using conf a(2) by (auto simp: msg_conf_def word_neq_zero_unat)
  have "unat (a - 1) = unat a - 1" using a(2) by (simp add: unat_minus_one)
  then have "?spot = int (unat a - 1)" unfolding uint_nat by simp
  then have sp: "0 \<le> ?spot" "?spot \<le> 32767" using ua by linarith+
  have blk: "of_int (?spot + 1) = a" by simp
  have hb: "hblock info ?N = (a, ?n)" using n(1) by (simp add: hblock_def new_hdr_def)
  have new: "pool_ok info (?H(h := ?N)) mp (xs @ h # ys)" if q: "?hs = xs @ ys" for xs ys
  proof -
    have eq: "hblocks info (?H(h := ?N)) xs = hblocks info ?H xs" "hblocks info (?H(h := ?N)) ys = hblocks info ?H ys"
      using hq q by (auto intro!: hblocks_cong)
    have hbs: "hblocks info (?H(h := ?N)) (xs @ h # ys) = hblocks info ?H xs @ (a, ?n) # hblocks info ?H ys"
      using n(1) by (simp add: hblocks_Cons eq hb) (simp add: new_hdr_def)
    have bu: "blocks_units (hblocks info ?H xs @ (a, ?n) # hblocks info ?H ys) = blocks_units ((a, ?n) # hblocks info ?H ?hs)"
      unfolding q by (auto simp: blocks_units_def)
    have "blocks_ok (units mp) (hblocks info ?H xs @ (a, ?n) # hblocks info ?H ys)"
      using al(3) unfolding q hblocks_append by (rule blocks_ok_perm)
    moreover have "units mp \<union> blocks_units ((a, ?n) # hblocks info ?H ?hs) \<subseteq> {1..msgseg info}"
      unfolding al(4) by (rule po(3))
    moreover have "\<forall>h' \<in> set (xs @ h # ys). hdr_ok ((?H(h := ?N)) h')"
      using po(4) q n sp by (auto simp: hdr_ok_def new_hdr_def)
    ultimately show ?thesis unfolding pool_ok_def hbs bu using al(2) by blast
  qed
  have keep: "pool_read info (msg_spot (?H h')) (msg_ts (?H h')) (pool_write info ?spot txt' (msgpool st))
      = pool_read info (msg_spot (?H h')) (msg_ts (?H h')) (msgpool st)" if h': "h' \<in> set ?hs" for h'
  proof (cases "msg_ts (?H h') = 0")
    case False
    have hd: "hdr_ok (?H h')" using po(4) h' by blast
    have mem: "(of_int (msg_spot (?H h') + 1), btoq info (msg_ts (?H h'))) \<in> set (hblocks info ?H ?hs)"
      using h' False unfolding hblocks_def hblock_def by auto
    then have "block a ?n \<inter> block (of_int (msg_spot (?H h') + 1)) (btoq info (msg_ts (?H h'))) = {}"
      using al(3) unfolding blocks_ok_def by auto
    then show ?thesis
      using pool_write_other [OF conf n(2) sp, of "msg_ts (?H h')" "msg_spot (?H h')"] hd False unfolding blk hdr_ok_def by blast
  qed (simp add: pool_read_def)
  show ?thesis using fp n sp new keep pool_write_read [of info ?spot txt'] unfolding ready_def by auto
qed

definition snd_result :: "msginfo \<Rightarrow> nat \<Rightarrow> int \<Rightarrow> sndarg \<Rightarrow> msgstate \<Rightarrow> msg_res \<Rightarrow> msgstate \<Rightarrow> bool" where
  "snd_result info i mtype arg st r st' \<longleftrightarrow>
     msg_inv info st' \<and> msglock st' = msglock st
     \<and> (case r of
          MVal v \<Rightarrow> v = 0 \<and> (\<exists>full. (s_sz arg = 0 \<or> s_text arg = Some full)
             \<and> aqueues info st' = (aqueues info st)[i := aqueues info st ! i @ [(mtype, take (nat (s_sz arg)) full)]])
        | MGot _ _ \<Rightarrow> False
        | _ \<Rightarrow> aqueues info st' = aqueues info st)"

lemma snd_result_quiet:
  assumes "msg_inv info st" "same_core st st1" "msglock st1 = msglock st" "(\<exists>e. r = MErr e) \<or> (\<exists>c. r = MSleep c)"
  shows "snd_result info i mtype arg st r st1"
  using assms same_core_inv [OF assms(2)] by (auto simp: snd_result_def)

lemma snd_result_put:
  assumes inv: "msg_inv info st" and i: "i < length (msgque st)" "\<not> msglock st ! i" "allocated (msg_perm (msgque st ! i))"
    and rd: "ready info i h mtype txt' spot st st2"
    and t: "txt' = take (nat (s_sz arg)) full" "s_sz arg = 0 \<or> s_text arg = Some full"
  shows "case msgsnd_put u now i mtype (length txt') spot h st2 of (r, st') \<Rightarrow> snd_result info i mtype arg st r st'"
proof -
  obtain r st' where r: "msgsnd_put u now i mtype (length txt') spot h st2 = (r, st')" by force
  from msgsnd_put_ok [OF inv i rd r] t r show ?thesis by (auto simp: snd_result_def)
qed

text \<open>Giving the header, and the block where there is one, back leaves the pool as it was.\<close>

lemma hdr_free_core:
  assumes "msgfp st = h # rest" "msgque st2 = msgque st" "msgh st2 = msgh st" "msgpool st2 = msgpool st"
    and "length (msglock st2) = length (msglock st)" "msgfp st2 = rest"
    and "pool_ok info (msgh st) (msgmap st2) (queued (msgque st))" and "msg_inv info st"
  shows "msg_inv info (hdr_free h p st2)" "aqueues info (hdr_free h p st2) = aqueues info st"
proof -
  show "msg_inv info (hdr_free h p st2)" using assms by (simp add: msg_inv_def)
  have "amsg info (hdr_free h p st2) = amsg info st" using assms by (intro ext) (simp add: amsg_def)
  then show "aqueues info (hdr_free h p st2) = aqueues info st" using assms by (simp add: aqueues_def)
qed

lemma pool_ok_want: "pool_ok info H (mp\<lparr>mapwant := w\<rparr>) hs = pool_ok info H mp hs"
  by (simp add: pool_ok_def rm_wf_def units_def)

text \<open>A block that was allocated and then not used is given back.\<close>

lemma pool_ok_undo:
  assumes conf: "msg_conf info" and ok: "pool_ok info H mp hs" and n: "0 < n" "n \<le> 65535"
    and a: "rmalloc mp (btoq info n) = Some (a, mp1)" "a \<noteq> 0"
  obtains mp2 w where "rmfree mp1 (btoq info n) a = RmDone mp2 w" "pool_ok info H mp2 hs"
  | "rmfree mp1 (btoq info n) a = RmLost mp1" "pool_ok info H mp1 hs"
proof -
  let ?bs = "hblocks info H hs"
  have po: "rm_wf mp" "blocks_ok (units mp) ?bs" "units mp \<union> blocks_units ?bs \<subseteq> {1..msgseg info}"
    "\<forall>h \<in> set hs. hdr_ok (H h)" using ok by (simp_all add: pool_ok_def)
  have nz: "btoq info n \<noteq> 0" using btoq_unat(2) [OF conf n(2)] n(1) by simp
  have wf1: "rm_wf mp1" by (rule rm.alloc_inv [OF po(1) a(1)])
  note al = rm.alloc_held [OF po(1,2) nz a]
  have sub: "units mp1 \<union> blocks_units ?bs \<subseteq> {1..msgseg info}"
    using al(2) po(3) by (auto simp: blocks_units_def)
  have all: "units mp1 \<union> blocks_units ((a, btoq info n) # ?bs) \<subseteq> {1..msgseg info}" unfolding al(2) by (rule po(3))
  from rm.release_held [OF wf1, of "[]" a "btoq info n" ?bs] al(1) show thesis
  proof (simp, elim disjE exE conjE)
    fix m' w
    assume m': "rmfree mp1 (btoq info n) a = RmDone m' w" "rm_wf m'" "blocks_ok (units m') ?bs"
      "units m' \<union> blocks_units ?bs = units mp1 \<union> blocks_units ((a, btoq info n) # ?bs)"
    have "pool_ok info H m' hs" unfolding pool_ok_def using m'(2,3) all po(4) unfolding m'(4) by blast
    then show thesis by (rule that(1) [OF m'(1)])
  next
    assume l: "rmfree mp1 (btoq info n) a = RmLost mp1" "blocks_ok (units mp1) ?bs"
    have "pool_ok info H mp1 hs" unfolding pool_ok_def using l(2) wf1 sub po(4) by blast
    then show thesis by (rule that(2) [OF l(1)])
  qed
qed

lemma snd_result_freed:
  assumes inv: "msg_inv info st" and i: "i < length (msgque st)" "\<not> msglock st ! i" and fp: "msgfp st = h # rest"
    and st2: "msgque st2 = msgque st" "msgh st2 = msgh st" "msgpool st2 = msgpool st" "msglock st2 = (msglock st)[i := True]"
      "msgfp st2 = rest" "pool_ok info (msgh st) (msgmap st2) (queued (msgque st))"
    and r: "(\<exists>e. r = MErr e) \<or> (\<exists>c. r = MSleep c)"
  shows "snd_result info i mtype arg st r (msg_unlock i p (hdr_free h p' st2))"
proof -
  have "length (msglock st2) = length (msglock st)" using st2(4) by simp
  note hf = hdr_free_core [OF fp st2(1,2,3) this st2(5,6) inv, of p']
  have "same_core (hdr_free h p' st2) (msg_unlock i p (hdr_free h p' st2))" by simp
  note sc = same_core_inv [OF this]
  have "msglock (msg_unlock i p (hdr_free h p' st2)) = msglock st"
    using st2(4) i inv by (simp add: msg_inv_def list_update_same_conv)
  then show ?thesis using hf sc r by (auto simp: snd_result_def)
qed

text \<open>The part of \<^verbatim>\<open>msgsnd\<close> that has a header and needs a block.\<close>

lemma msgsnd_block_ok:
  assumes conf: "msg_conf info" and inv: "msg_inv info st" and i: "i < length (msgque st)" "\<not> msglock st ! i" "allocated (msg_perm (msgque st ! i))"
    and fp: "msgfp st = h # rest" and n: "0 < cnt" "cnt \<le> 65535" "cnt = nat (s_sz arg)"
    and len: "\<And>full. s_text arg = Some full \<Longrightarrow> length full = cnt"
    and a: "rmalloc (msgmap st) (btoq info cnt) = Some (a, mp)" "a \<noteq> 0" and st3: "st3 = (locked i st)\<lparr>msgfp := rest, msgmap := mp\<rparr>"
  shows "\<exists>r st'. (case s_text arg of
       None \<Rightarrow> map_option (\<lambda>st4. (MErr EFAULT, msg_unlock i True (hdr_free h True st4)))
                 (msg_rmfree (btoq info cnt) (of_int (uint (a - 1)) + 1) st3)
     | Some full \<Rightarrow> Some (msgsnd_put u now i mtype cnt (uint (a - 1)) h
           (st3\<lparr>msgpool := pool_write info (uint (a - 1)) (take cnt full) (msgpool st3)\<rparr>))) = Some (r, st')
     \<and> snd_result info i mtype arg st r st'"
proof (cases "s_text arg")
  case None
  have ok: "pool_ok info (msgh st) (msgmap st) (queued (msgque st))" using inv by (simp add: msg_inv_def)
  have addr: "of_int (uint (a - 1)) + 1 = a" by simp
  have freed: "snd_result info i mtype arg st (MErr EFAULT) (msg_unlock i True (hdr_free h True st4))"
    if "st4 = st3\<lparr>msgmap := m\<rparr> \<or> st4 = (msg_wake MsgMap True st3)\<lparr>msgmap := m\<rparr>" "pool_ok info (msgh st) m (queued (msgque st))" for st4 m
    by (rule snd_result_freed [OF inv i(1,2) fp]) (use that st3 in auto)
  from conf ok n(1,2) a show ?thesis
  proof (cases rule: pool_ok_undo)
    case (1 mp2 w)
    then show ?thesis using None freed [of _ mp2] unfolding addr by (simp add: msg_rmfree_def st3)
  next
    case 2
    then show ?thesis using None freed [of "st3\<lparr>msgmap := mp\<rparr>" mp] unfolding addr by (simp add: msg_rmfree_def st3)
  qed
next
  case (Some full)
  have l: "length full = cnt" by (rule len [OF Some])
  have rd: "ready info i h mtype full (uint (a - 1)) st
      ((locked i st)\<lparr>msgfp := rest, msgmap := mp, msgpool := pool_write info (uint (a - 1)) full (msgpool st)\<rparr>)"
    by (rule ready_block [OF conf inv fp]) (use n a l in auto)
  have t: "full = take (nat (s_sz arg)) full" using l n(3) by simp
  show ?thesis using snd_result_put [OF inv i rd t, of u now] Some l st3 by (auto split: prod.splits)
qed

lemma msgsnd_getres_locked:
  assumes "msgconv info (s_id arg) st = (ConvOk i, locked i st)"
  shows "msgsnd_getres info u now i mtype arg st =
    (let nowait = (s_flg arg AND IPC_NOWAIT \<noteq> 0); cnt = nat (s_sz arg) in
     if of_nat cnt + msg_cbytes (msgque st ! i) > msg_qbytes (msgque st ! i) then
       (if nowait then Some (MErr EAGAIN, msg_unlock i True (locked i st))
        else Some (MSleep (QWrite i), msg_unlock i True (set_que i (set_mode (\<lambda>m. m OR MSG_WWAIT)) (locked i st))))
     else
       (case msgfp st of
          [] \<Rightarrow> if nowait then Some (MErr EAGAIN, msg_unlock i True (locked i st))
                else Some (MSleep HdrFree, msg_unlock i True (locked i st))
        | h # rest \<Rightarrow>
            if cnt = 0 then Some (msgsnd_put u now i mtype 0 0 h ((locked i st)\<lparr>msgfp := rest\<rparr>))
            else
              (case rmalloc (msgmap st) (btoq info cnt) of
                 None \<Rightarrow> None
               | Some (a, mp) \<Rightarrow>
                   if a = 0 then
                     (if nowait then Some (MErr EAGAIN, msg_unlock i True (hdr_free h True ((locked i st)\<lparr>msgfp := rest, msgmap := mp\<rparr>)))
                      else Some (MSleep MsgMap, msg_unlock i True (hdr_free h True
                             ((locked i st)\<lparr>msgfp := rest, msgmap := mp\<lparr>mapwant := mapwant mp + 1\<rparr>\<rparr>))))
                   else
                     (case s_text arg of
                        None \<Rightarrow> map_option (\<lambda>st4. (MErr EFAULT, msg_unlock i True (hdr_free h True st4)))
                          (msg_rmfree (btoq info cnt) (of_int (uint (a - 1)) + 1) ((locked i st)\<lparr>msgfp := rest, msgmap := mp\<rparr>))
                      | Some full \<Rightarrow> Some (msgsnd_put u now i mtype cnt (uint (a - 1)) h
                          ((locked i st)\<lparr>msgfp := rest, msgmap := mp, msgpool := pool_write info (uint (a - 1)) (take cnt full) (msgpool st)\<rparr>))))))"
  unfolding msgsnd_getres_def assms prod.case msg_conv.case Let_def by (simp split: list.split option.split)

text \<open>The part of \<^verbatim>\<open>msgsnd\<close> from taking a header on.\<close>

lemma msgsnd_take_ok:
  assumes conf: "msg_conf info" and inv: "msg_inv info st" and i: "i < length (msgque st)"
    and lk: "\<not> msglock st ! i" "allocated (msg_perm (msgque st ! i))" and fp: "msgfp st = h # rest"
    and sz: "0 \<le> s_sz arg" "s_sz arg \<le> msgmax info"
    and len: "\<And>full. s_text arg = Some full \<Longrightarrow> length full = nat (s_sz arg)"
  shows "\<exists>r st'. (let cnt = nat (s_sz arg) in
      if cnt = 0 then Some (msgsnd_put u now i mtype 0 0 h ((locked i st)\<lparr>msgfp := rest\<rparr>))
            else
              (case rmalloc (msgmap st) (btoq info cnt) of
                 None \<Rightarrow> None
               | Some (a, mp) \<Rightarrow>
                   if a = 0 then
                     (if s_flg arg AND IPC_NOWAIT \<noteq> 0 then Some (MErr EAGAIN, msg_unlock i True (hdr_free h True ((locked i st)\<lparr>msgfp := rest, msgmap := mp\<rparr>)))
                      else Some (MSleep MsgMap, msg_unlock i True (hdr_free h True
                             ((locked i st)\<lparr>msgfp := rest, msgmap := mp\<lparr>mapwant := mapwant mp + 1\<rparr>\<rparr>))))
                   else
                     (case s_text arg of
                        None \<Rightarrow> map_option (\<lambda>st4. (MErr EFAULT, msg_unlock i True (hdr_free h True st4)))
                          (msg_rmfree (btoq info cnt) (of_int (uint (a - 1)) + 1) ((locked i st)\<lparr>msgfp := rest, msgmap := mp\<rparr>))
                      | Some full \<Rightarrow> Some (msgsnd_put u now i mtype cnt (uint (a - 1)) h
                          ((locked i st)\<lparr>msgfp := rest, msgmap := mp, msgpool := pool_write info (uint (a - 1)) (take cnt full) (msgpool st)\<rparr>)))))
      = Some (r, st') \<and> snd_result info i mtype arg st r st'"
proof -
  have n: "nat (s_sz arg) \<le> 65535" using sz conf unfolding msg_conf_def by linarith
  show ?thesis
  proof (cases "nat (s_sz arg) = 0")
    case True
    then have "s_sz arg = 0" using sz by simp
    then show ?thesis
      unfolding Let_def using snd_result_put [OF inv i lk ready_empty [OF inv fp], of arg "[]" mtype u now] by (auto split: prod.splits)
  next
    case pos: False
    have pok: "pool_ok info (msgh st) (msgmap st) (queued (msgque st))" using inv by (simp add: msg_inv_def)
    then have wf: "rm_wf (msgmap st)" by (simp add: pool_ok_def)
    obtain a mp where a: "rmalloc (msgmap st) (btoq info (nat (s_sz arg))) = Some (a, mp)" using rmalloc_total [OF wf] by blast
    show ?thesis
    proof (cases "a = 0")
      case True
      have "mp = msgmap st" using rm.alloc_none [OF wf btoq_unat(2) [OF conf n pos]] a True by blast
      then have "snd_result info i mtype arg st r (msg_unlock i True (hdr_free h True ((locked i st)\<lparr>msgfp := rest, msgmap := m\<rparr>)))"
        if "m = mp \<or> m = mp\<lparr>mapwant := mapwant mp + 1\<rparr>" "(\<exists>e. r = MErr e) \<or> (\<exists>c. r = MSleep c)" for r m
        using that pok by (intro snd_result_freed [OF inv i lk(1) fp]) (auto simp: pool_ok_want)
      then show ?thesis unfolding Let_def using pos a True by simp
    next
      case False
      show ?thesis
        using msgsnd_block_ok [OF conf inv i lk fp _ n refl len a False refl, of u now mtype] pos a False
        unfolding Let_def by (simp cong: option.case_cong)
    qed
  qed
qed

lemma msgsnd_getres_ok:
  assumes conf: "msg_conf info" and inv: "msg_inv info st" and i: "i < length (msgque st)" and sz: "0 \<le> s_sz arg" "s_sz arg \<le> msgmax info"
    and len: "\<And>full. s_text arg = Some full \<Longrightarrow> length full = nat (s_sz arg)"
  shows "\<exists>r st'. msgsnd_getres info u now i mtype arg st = Some (r, st') \<and> snd_result info i mtype arg st r st'"
proof -
  obtain c st1 where c: "msgconv info (s_id arg) st = (c, st1)" by force
  from conf inv c show ?thesis
  proof (cases rule: msgconv_cases)
    case (err e)
    with c inv show ?thesis by (simp add: msgsnd_getres_def snd_result_quiet)
  next
    case (sleep j)
    with c inv show ?thesis by (simp add: msgsnd_getres_def snd_result_quiet)
  next
    case (ok j)
    have quiet: "snd_result info i mtype arg st r (msg_unlock j p st2)"
      if "same_core (locked j st) st2" "msglock st2 = (msglock st)[j := True]" "(\<exists>e. r = MErr e) \<or> (\<exists>c. r = MSleep c)" for st2 p r
      using snd_result_quiet [OF inv quiet_unlock [OF inv ok(2,4)] that(3)] that(1,2) by blast
    have c': "msgconv info (s_id arg) st = (ConvOk j, locked j st)" using c ok(1,5) by simp
    show ?thesis
    proof (cases "j = i")
      case False
      then show ?thesis using quiet [of "locked j st"] by (simp add: msgsnd_getres_def c')
    next
      case ji: True
      note eq = msgsnd_getres_locked [OF c' [unfolded ji], of u now mtype]
      have q: "snd_result info i mtype arg st r (msg_unlock i p (locked i st))"
        if "(\<exists>e. r = MErr e) \<or> (\<exists>c. r = MSleep c)" for r p using quiet [of "locked i st"] ji that by simp
      have qw: "snd_result info i mtype arg st (MSleep c) (msg_unlock i p (set_que i (set_mode (\<lambda>m. m OR MSG_WWAIT)) (locked i st)))" for c p
        using quiet [OF same_core_set_que, of "set_mode (\<lambda>m. m OR MSG_WWAIT)" i "MSleep c" p] core_set_mode ji by simp
      show ?thesis
      proof (cases "of_nat (nat (s_sz arg)) + msg_cbytes (msgque st ! i) > msg_qbytes (msgque st ! i)")
        case True
        then show ?thesis unfolding eq Let_def using q qw by simp
      next
        case fits: False
        show ?thesis
        proof (cases "msgfp st")
          case Nil
          then show ?thesis unfolding eq Let_def using fits q by simp
        next
          case (Cons h rest)
          have lk: "\<not> msglock st ! i" "allocated (msg_perm (msgque st ! i))" using ok(3,4) ji by simp_all
          show ?thesis using msgsnd_take_ok [OF conf inv i lk Cons sz len, of u now mtype]
            unfolding eq Let_def using fits Cons by simp
        qed
      qed
    qed
  qed
qed

lemma msgsnd_ok:
  assumes conf: "msg_conf info" and inv: "msg_inv info st"
    and len: "\<And>full. s_text arg = Some full \<Longrightarrow> length full = nat (s_sz arg)"
  shows "\<exists>r st'. msgsnd info u now arg st = Some (r, st')
    \<and> snd_result info (nat (s_id arg mod msgmni info)) (case s_type arg of None \<Rightarrow> 0 | Some t \<Rightarrow> t) arg st r st'
    \<and> (\<forall>v. r = MVal v \<longrightarrow> (\<exists>t. s_type arg = Some t \<and> t \<ge> 1 \<and> 0 \<le> s_sz arg \<and> s_sz arg \<le> msgmax info))"
proof -
  let ?t = "case s_type arg of None \<Rightarrow> 0 | Some t \<Rightarrow> t"
  obtain c st1 where c: "msgconv info (s_id arg) st = (c, st1)" by force
  from conf inv c show ?thesis
  proof (cases rule: msgconv_cases)
    case (err e)
    with c inv show ?thesis by (simp add: msgsnd_def snd_result_quiet)
  next
    case (sleep j)
    with c inv show ?thesis by (simp add: msgsnd_def snd_result_quiet)
  next
    case (ok j)
    have ul: "same_core st (msg_unlock j True (locked j st))" "msglock (msg_unlock j True (locked j st)) = msglock st"
      using quiet_unlock [OF inv ok(2,4), of "locked j st"] by simp_all
    note sc = same_core_inv [OF ul(1)]
    have c': "msgconv info (s_id arg) st = (ConvOk j, locked j st)" using c ok(1,5) by simp
    have quiet: "snd_result info j ?t arg st (MErr e) (msg_unlock j True (locked j st))" for e
      by (rule snd_result_quiet [OF inv ul]) simp
    have "0 \<le> s_sz arg \<Longrightarrow> s_sz arg \<le> msgmax info \<Longrightarrow> s_type arg = Some t \<Longrightarrow>
       \<exists>r st'. msgsnd_getres info u now j t arg (msg_unlock j True (locked j st)) = Some (r, st')
        \<and> snd_result info j ?t arg (msg_unlock j True (locked j st)) r st'" for t
      using msgsnd_getres_ok [OF conf _ _ _ _ len, of "msg_unlock j True (locked j st)" j u now t] ok(2) inv sc by simp
    then have "0 \<le> s_sz arg \<Longrightarrow> s_sz arg \<le> msgmax info \<Longrightarrow> s_type arg = Some t \<Longrightarrow>
       \<exists>r st'. msgsnd_getres info u now j t arg (msg_unlock j True (locked j st)) = Some (r, st')
        \<and> snd_result info j ?t arg st r st'" for t
      unfolding snd_result_def sc(2) ul(2) .
    then show ?thesis using quiet unfolding ok(6) [symmetric] msgsnd_def c' by (auto split: option.split)
  qed
qed

section \<open>The other operations\<close>

text \<open>The loop of \<^verbatim>\<open>IPC_RMID\<close> empties the queue and gives back everything it held.\<close>

definition drained :: "nat \<Rightarrow> msgstate \<Rightarrow> msgstate \<Rightarrow> bool" where
  "drained i st st' \<longleftrightarrow>
     (\<exists>qp. msgque st' = (msgque st)[i := qp] \<and> msg_q qp = []
        \<and> msg_qnum qp = msg_qnum (msgque st ! i) - of_nat (length (msg_q (msgque st ! i))))
     \<and> msgh st' = msgh st \<and> msgpool st' = msgpool st \<and> msglock st' = msglock st
     \<and> distinct (msgfp st' @ queued (msgque st'))"

lemma msg_drain_ok:
  "\<lbrakk>i < length (msgque st); length (msg_q (msgque st ! i)) = n; distinct (msgfp st @ queued (msgque st));
    pool_ok info (msgh st) (msgmap st) (queued (msgque st))\<rbrakk> \<Longrightarrow>
   \<exists>st'. msg_drain info i n st = Some st' \<and> drained i st st' \<and> pool_ok info (msgh st') (msgmap st') (queued (msgque st'))"
proof (induction n arbitrary: st)
  case 0
  then show ?case by (simp add: drained_def list_update_same_conv) (metis list_update_id)
next
  case (Suc n)
  have k: "0 < length (msg_q (msgque st ! i))" using Suc.prems(2) by simp
  obtain st1 where st1: "msgfree info i 0 True st = Some st1" "unlinked i 0 st st1"
    "pool_ok info (msgh st1) (msgmap st1) (queued (msgque st1))"
    using msgfree_ok [OF Suc.prems(1) k Suc.prems(4)] by blast
  then obtain qp where qp: "msgque st1 = (msgque st)[i := qp]" "msg_q qp = drop 1 (msg_q (msgque st ! i))"
    "msg_qnum qp = msg_qnum (msgque st ! i) - 1" by (auto simp: unlinked_def)
  have fp: "msgfp st1 = msg_q (msgque st ! i) ! 0 # msgfp st" using st1(2) by (simp add: unlinked_def)
  have "distinct (msgfp st1 @ queued (msgque st1))"
    unfolding fp qp(1) using qp(2) by (intro unlinked_distinct [OF Suc.prems(1) k _ Suc.prems(3)]) simp
  moreover have "i < length (msgque st1)" "length (msg_q (msgque st1 ! i)) = n" using Suc.prems(1,2) qp by simp_all
  ultimately obtain st2 where st2: "msg_drain info i n st1 = Some st2" "drained i st1 st2"
    "pool_ok info (msgh st2) (msgmap st2) (queued (msgque st2))"
    using Suc.IH st1(3) by blast
  have "drained i st st2"
    using st2(2) st1(2) qp Suc.prems(1,2) by (auto simp: drained_def unlinked_def)
  with st1(1) st2 show ?case by auto
qed

lemma msg_rmid_ok:
  assumes inv: "msg_inv info st" and i: "i < length (msgque st)"
  shows "\<exists>st'. msg_rmid info mid i st = Some st' \<and> msg_inv info st' \<and> msglock st' = msglock st
    \<and> aqueues info st' = (aqueues info st)[i := []] \<and> \<not> allocated (msg_perm (msgque st' ! i))"
proof -
  obtain st1 where st1: "msg_drain info i (length (msg_q (msgque st ! i))) st = Some st1" "drained i st st1"
    "pool_ok info (msgh st1) (msgmap st1) (queued (msgque st1))"
    using msg_drain_ok [OF i refl, of info] inv unfolding msg_inv_def by blast
  then obtain qp where qp: "msgque st1 = (msgque st)[i := qp]" "msg_q qp = []" "msg_qnum qp = 0"
    using inv i by (auto simp: drained_def msg_inv_def que_ok_def)
  have fr: "msgh st1 = msgh st" "msgpool st1 = msgpool st" "msglock st1 = msglock st" "distinct (msgfp st1 @ queued (msgque st1))"
    using st1(2) by (simp_all add: drained_def)
  define seq where "seq = (if mid + msgmni info < 0 \<or> mid + msgmni info > INT16_MAX then 0 else ip_seq (msg_perm qp) + 1)"
  define qp' where "qp' = qp\<lparr>msg_cbytes := 0, msg_perm := (msg_perm qp)\<lparr>ip_seq := seq, ip_mode := 0\<rparr>\<rparr>"
  obtain st' where st': "msg_rmid info mid i st = Some st'" "msgque st' = (msgque st)[i := qp']" "msgh st' = msgh st1"
    "msgpool st' = msgpool st1" "msglock st' = msglock st1" "msgfp st' = msgfp st1" "msgmap st' = msgmap st1"
    using i by (simp add: msg_rmid_def st1(1) qp(1) Let_def set_mode_def qp'_def seq_def)
  have qd: "queued (msgque st') = queued (msgque st1)"
    using i qp(2) by (simp add: st'(2) qp(1) queued_update qp'_def)
  have new: "que_ok (msgh st) qp'" using qp(2,3) by (simp add: que_ok_def qp'_def)
  have "\<forall>p \<in> set (msgque st'). que_ok (msgh st') p"
    using set_update_subset_insert [of "msgque st" i qp'] new inv unfolding st'(2,3) fr(1) msg_inv_def by blast
  then have "msg_inv info st'"
    using inv fr st1(3) qd st' unfolding msg_inv_def by simp
  moreover have "amsg info st' = amsg info st" using st'(3,4) fr(1,2) by (intro ext) (simp add: amsg_def)
  then have "aqueues info st' = (aqueues info st)[i := []]"
    using i qp(2) by (simp add: aqueues_def st'(2) map_update qp'_def)
  moreover have "\<not> allocated (msg_perm (msgque st' ! i))" using i by (simp add: st'(2) qp'_def allocated_def)
  ultimately show ?thesis using st'(1,5) fr(3) by auto
qed

lemma core_setperm: "core (msg_setperm now arg qp) = core qp"
  by (auto simp: core_def msg_setperm_def allocated_bit bit_simps PERM_BITS_def)

lemma msg_set_ok: "same_core st (snd (msg_set old u now i arg st))"
  by (simp add: msg_set_def Let_def same_core_set_que core_setperm)

lemma msg_set_lock: "msglock (snd (msg_set old u now i arg st)) = msglock st"
  by (simp add: msg_set_def Let_def)

text \<open>\<^verbatim>\<open>msgctl\<close>: only \<^verbatim>\<open>IPC_RMID\<close> touches messages, and only those of its queue.\<close>

lemma msgctl_ok:
  assumes conf: "msg_conf info" and inv: "msg_inv info st"
  shows "\<exists>r st'. msgctl info u now mid cmd arg st = Some (r, st') \<and> msg_inv info st' \<and> msglock st' = msglock st
    \<and> (aqueues info st' = aqueues info st
       \<or> (msg_cmd cmd = MRmid \<and> r = Some (Inr MDone) \<and> aqueues info st' = (aqueues info st)[nat (mid mod msgmni info) := []]))"
proof -
  obtain c st1 where c: "msgconv info mid st = (c, st1)" by force
  from conf inv c show ?thesis
  proof (cases rule: msgconv_cases)
    case (err e)
    with c inv same_core_inv [OF err(2)] show ?thesis by (simp add: msgctl_def)
  next
    case (sleep j)
    with c inv show ?thesis by (simp add: msgctl_def)
  next
    case (ok j)
    have c': "msgconv info mid st = (ConvOk j, locked j st)" using c ok(1,5) by simp
    have quiet: "msg_inv info (msg_unlock j True st2) \<and> msglock (msg_unlock j True st2) = msglock st \<and> aqueues info (msg_unlock j True st2) = aqueues info st"
      if "same_core (locked j st) st2" "msglock st2 = (msglock st)[j := True]" for st2
      using quiet_unlock [OF inv ok(2,4) that, of True] same_core_inv inv by blast
    have inv1: "msg_inv info (locked j st)" "aqueues info (locked j st) = aqueues info st"
      using same_core_inv [OF lock_core] inv by simp_all
    obtain st2 where st2: "msg_rmid info mid j (locked j st) = Some st2" "msg_inv info st2" "msglock st2 = (msglock st)[j := True]"
      "aqueues info st2 = (aqueues info st)[j := []]"
      using msg_rmid_ok [OF inv1(1), of j mid] ok(2) inv1(2) by auto
    have rm: "msg_inv info (msg_unlock j True st2) \<and> msglock (msg_unlock j True st2) = msglock st
        \<and> aqueues info (msg_unlock j True st2) = (aqueues info st)[j := []]"
      using same_core_inv [of st2 "msg_unlock j True st2"] st2 ok(2,4) inv by (simp add: msg_inv_def list_update_same_conv)
    have sets: "\<exists>a b. msg_set old u now j arg (locked j st) = (a, b) \<and> msg_inv info (msg_unlock j True b)
        \<and> msglock (msg_unlock j True b) = msglock st \<and> aqueues info (msg_unlock j True b) = aqueues info st" for old
      using quiet [OF msg_set_ok, of old u now j arg] msg_set_lock [of old u now j arg "locked j st"]
      by (cases "msg_set old u now j arg (locked j st)") simp
    obtain a b a' b' where ab: "msg_set True u now j arg (locked j st) = (a, b)" "msg_inv info (msg_unlock j True b)"
        "msglock (msg_unlock j True b) = msglock st" "aqueues info (msg_unlock j True b) = aqueues info st"
      "msg_set False u now j arg (locked j st) = (a', b')" "msg_inv info (msg_unlock j True b')"
        "msglock (msg_unlock j True b') = msglock st" "aqueues info (msg_unlock j True b') = aqueues info st"
      using sets by blast
    show ?thesis
      unfolding msgctl_def c' prod.case msg_conv.case ok(6) [symmetric]
      using st2(1) rm quiet [of "locked j st"] ab by (auto split: msgcmd.split)
  qed
qed

lemma msgget_ok:
  assumes inv: "msg_inv info st"
  shows "msg_inv info (snd (msgget info u now key flg st)) \<and> aqueues info (snd (msgget info u now key flg st)) = aqueues info st
    \<and> msglock (snd (msgget info u now key flg st)) = msglock st"
proof (cases "ipcget key flg (u_cred u) (map msg_perm (msgque st))")
  case (Inl e)
  with inv show ?thesis by (simp add: msgget_def)
next
  case (Inr x)
  obtain i created ps where x: "x = (i, created, ps)" by (cases x)
  note g = ipcget_Inr [OF Inr [unfolded x]]
  have nth: "que_perms ps (msgque st) ! j = (msgque st ! j)\<lparr>msg_perm := ps ! j\<rparr>" if "j < length (msgque st)" for j
    using that g(2) by (simp add: que_perms_def)
  have len: "length (que_perms ps (msgque st)) = length (msgque st)" using g(2) by (simp add: que_perms_def)
  define st' where "st' = snd (msgget info u now key flg st)"
  have same: "msglock st' = msglock st" "msgh st' = msgh st" "msgfp st' = msgfp st" "msgmap st' = msgmap st" "msgpool st' = msgpool st"
    by (simp_all add: st'_def msgget_def Inr x Let_def)
  have empty: "msg_q (msgque st ! i) = [] \<and> msg_qnum (msgque st ! i) = 0 \<and> msg_cbytes (msgque st ! i) = 0" if created
    using g(1,7) that inv by (auto simp: msg_inv_def que_ok_def)
  have el: "msg_q (msgque st' ! j) = msg_q (msgque st ! j)" "que_ok (msgh st) (msgque st' ! j)" if j: "j < length (msgque st)" for j
  proof -
    have pj: "j \<noteq> i \<Longrightarrow> ps ! j = msg_perm (msgque st ! j)" using g(6) j by simp
    have "que_ok (msgh st) (msgque st ! j)" using inv j by (simp add: msg_inv_def)
    then show "msg_q (msgque st' ! j) = msg_q (msgque st ! j)" "que_ok (msgh st) (msgque st' ! j)"
      using j g(1,3) empty pj len nth [OF j]
      by (cases "j = i"; cases created; auto simp: st'_def msgget_def Inr x Let_def que_ok_def allocated_def)+
  qed
  have l: "length (msgque st') = length (msgque st)" using len by (simp add: st'_def msgget_def Inr x Let_def)
  have mq: "map msg_q (msgque st') = map msg_q (msgque st)" by (rule nth_equalityI) (simp_all add: l el(1))
  then have q: "queued (msgque st') = queued (msgque st)" by (simp add: queued_def)
  have "\<forall>qp \<in> set (msgque st'). que_ok (msgh st') qp" unfolding same(2) using el(2) l by (simp add: all_set_conv_all_nth)
  then have "msg_inv info st'" using inv q l same by (simp add: msg_inv_def)
  moreover have "amsg info st' = amsg info st" using same by (intro ext) (simp add: amsg_def)
  then have "aqueues info st' = aqueues info st"
    using arg_cong [OF mq, of "map (map (amsg info st))"] by (simp add: aqueues_def comp_def)
  ultimately show ?thesis using same(1) by (simp add: st'_def)
qed

end
