(* ===== verification/Msg_Props.thy ===== *)
theory Msg_Props
  imports Msg_Queue
begin

text \<open>
  The message facility as a whole: the steps processes can take, the states they can reach, and
  the properties of the system calls over the abstract queues.
\<close>

section \<open>Reachable states\<close>

text \<open>The state at boot, before \<^verbatim>\<open>msginit\<close>.\<close>

definition msg_boot :: "msginfo \<Rightarrow> msgstate \<Rightarrow> bool" where
  "msg_boot info st \<longleftrightarrow>
     int (length (msgque st)) = msgmni info \<and> msglock st = replicate (length (msgque st)) False
     \<and> (\<forall>qp \<in> set (msgque st). ip_mode (msg_perm qp) = 0 \<and> msg_q qp = [] \<and> msg_cbytes qp = 0 \<and> msg_qnum qp = 0)"

definition msg_conf0 :: "msginfo \<Rightarrow> bool" where
  "msg_conf0 info \<longleftrightarrow> msg_conf info \<and> 2 \<le> mi_msgmap info \<and> mi_msgmap info < 2 ^ 31 \<and> 0 < msgseg info"

lemma msginit_inv:
  assumes conf: "msg_conf0 info" and boot: "msg_boot info st"
  shows "\<exists>st'. msginit True info st = Some (info, st') \<and> msg_inv info st' \<and> aqueues info st' = map (\<lambda>_. []) (msgque st)
    \<and> \<not> (\<exists>l \<in> set (msglock st'). l)"
proof -
  let ?m = "mapinit (nat (mi_msgmap info))" and ?n = "of_nat (msgseg info) :: u32"
  have seg: "msgseg info < 32768" "0 < msgseg info" using conf by (simp_all add: msg_conf0_def msg_conf_def)
  then have un: "unat ?n = msgseg info" by (simp add: unat_of_nat take_bit_nat_eq_self)
  have m: "rm_wf ?m" "units ?m = {}" using conf by (auto intro!: mapinit_wf simp: msg_conf0_def)
  have nz: "?n \<noteq> 0" using un seg by (metis less_irrefl unat_0)
  have one: "unat (1 :: u32) + unat ?n < 2 ^ 32" using un seg by simp
  have blk: "block 1 ?n = {1..msgseg info}" unfolding block_def un by auto
  have q: "queued (msgque st) = []" using boot by (auto simp: msg_boot_def queued_def)
  have ok: "\<forall>qp \<in> set (msgque st). que_ok H qp" for H using boot by (simp add: msg_boot_def que_ok_def)
  have "msg_inv info (st\<lparr>msgmap := mp, msgfp := [0..<k]\<rparr>)" if "rm_wf mp" "units mp \<subseteq> {1..msgseg info}" for mp k
    using that boot ok q
    by (simp add: msg_inv_def pool_ok_def hblocks_def blocks_ok_def blocks_units_def msg_boot_def)
  moreover have "aqueues info (st\<lparr>msgmap := mp, msgfp := fp\<rparr>) = map (\<lambda>_. []) (msgque st)" for mp fp
    using boot by (simp add: aqueues_def msg_boot_def)
  ultimately show ?thesis
    using rm.release_ok [OF m(1) nz _ one] m blk boot by (auto simp: msginit_def msg_boot_def)
qed

text \<open>
  The steps: the calls up to a sleep or their return, and what a process does after a sleep.
  \<^verbatim>\<open>copyin\<close> delivers as many bytes as were asked for.
\<close>

definition snd_fits :: "sndarg \<Rightarrow> bool" where
  "snd_fits arg \<longleftrightarrow> (case s_text arg of None \<Rightarrow> True | Some full \<Rightarrow> length full = nat (s_sz arg))"

lemma snd_fitsD: "snd_fits arg \<Longrightarrow> s_text arg = Some full \<Longrightarrow> length full = nat (s_sz arg)"
  by (simp add: snd_fits_def)

inductive msg_step :: "msginfo \<Rightarrow> msgstate \<Rightarrow> msgstate \<Rightarrow> bool" for info where
  ctl: "msgctl info u now mid cmd arg st = Some (r, st') \<Longrightarrow> msg_step info st st'"
| get: "msg_step info st (snd (msgget info u now key flg st))"
| send: "\<lbrakk>msgsnd info u now arg st = Some (r, st'); snd_fits arg\<rbrakk> \<Longrightarrow> msg_step info st st'"
| send_again: "\<lbrakk>msgsnd_getres info u now i mtype arg st = Some (r, st'); snd_fits arg; i < length (msgque st);
     0 \<le> s_sz arg; s_sz arg \<le> msgmax info\<rbrakk> \<Longrightarrow> msg_step info st st'"
| send_intr: "msgsnd_intr info full i arg st = (r, st') \<Longrightarrow> msg_step info st st'"
| receive: "msgrcv info u now rarg st = Some (r, st') \<Longrightarrow> msg_step info st st'"
| receive_again: "\<lbrakk>msgrcv_find info u now i rarg st = Some (r, st'); i < length (msgque st); 0 \<le> r_sz rarg\<rbrakk>
     \<Longrightarrow> msg_step info st st'"

inductive msg_reach :: "msginfo \<Rightarrow> msgstate \<Rightarrow> bool" for info where
  init: "\<lbrakk>msg_boot info st; msginit True info st = Some (info, st')\<rbrakk> \<Longrightarrow> msg_reach info st'"
| step: "\<lbrakk>msg_reach info st; msg_step info st st'\<rbrakk> \<Longrightarrow> msg_reach info st'"

lemma msgsnd_intr_ok:
  assumes conf: "msg_conf info" and inv: "msg_inv info st" and r: "msgsnd_intr info full i arg st = (r, st')"
  shows "msg_inv info st' \<and> msglock st' = msglock st \<and> aqueues info st' = aqueues info st"
proof -
  obtain c st1 where c: "msgconv info (s_id arg) st = (c, st1)" by force
  from conf inv c show ?thesis
  proof (cases rule: msgconv_cases)
    case (err e)
    with c r inv same_core_inv [OF err(2)] show ?thesis by (simp add: msgsnd_intr_def)
  next
    case (sleep j)
    with c r inv show ?thesis by (simp add: msgsnd_intr_def)
  next
    case (ok j)
    have c': "msgconv info (s_id arg) st = (ConvOk j, locked j st)" using c ok(1,5) by simp
    have quiet: "msg_inv info (msg_unlock j True st2) \<and> msglock (msg_unlock j True st2) = msglock st
        \<and> aqueues info (msg_unlock j True st2) = aqueues info st"
      if "same_core (locked j st) st2" "msglock st2 = (msglock st)[j := True]" for st2
      using quiet_unlock [OF inv ok(2,4) that, of True] same_core_inv inv by blast
    have "same_core (locked j st) (set_que i (set_mode (\<lambda>m. m AND NOT MSG_WWAIT)) (locked j st))"
      by (rule same_core_set_que) (rule core_set_mode)
    then show ?thesis
      using r quiet [of "locked j st"] quiet [of "msg_wake (QWrite i) True (set_que i (set_mode (\<lambda>m. m AND NOT MSG_WWAIT)) (locked j st))"]
      by (auto simp: msgsnd_intr_def c' Let_def split: if_splits)
  qed
qed

lemma msg_step_inv:
  assumes "msg_step info st st'" and conf: "msg_conf info" and inv: "msg_inv info st"
  shows "msg_inv info st' \<and> msglock st' = msglock st"
  using assms(1)
proof cases
  case (ctl u now mid cmd arg r)
  then show ?thesis using msgctl_ok [OF conf inv, of u now mid cmd arg] by auto
next
  case (get u now key flg)
  then show ?thesis using msgget_ok [OF inv] by simp
next
  case (send u now arg r)
  then show ?thesis using msgsnd_ok [OF conf inv snd_fitsD, of arg u now] by (auto simp: snd_result_def)
next
  case (send_again u now i mtype arg r)
  then show ?thesis using msgsnd_getres_ok [OF conf inv _ _ _ snd_fitsD, of i arg u now mtype] by (auto simp: snd_result_def)
next
  case (send_intr full i arg r)
  then show ?thesis using msgsnd_intr_ok [OF conf inv] by blast
next
  case (receive u now rarg r)
  then show ?thesis using msgrcv_ok [OF conf inv, of u now rarg] by (auto simp: rcv_result_def)
next
  case (receive_again u now i rarg r)
  then show ?thesis using msgrcv_find_ok [OF conf inv, of i rarg u now] by (auto simp: rcv_result_def)
qed

lemma msg_reach_inv:
  "\<lbrakk>msg_reach info st; msg_conf0 info\<rbrakk> \<Longrightarrow> msg_inv info st \<and> \<not> (\<exists>l \<in> set (msglock st). l)"
proof (induction rule: msg_reach.induct)
  case (init st st')
  then show ?case using msginit_inv [of info st] by auto
next
  case (step st st')
  moreover have "msg_conf info" using step.prems by (simp add: msg_conf0_def)
  ultimately show ?case using msg_step_inv by metis
qed

section \<open>Properties\<close>

text \<open>
  C17: In every state the facility can reach from boot, by any interleaving of calls, continued and
  interrupted sleeps, no queue lock is left held, no header is on two chains, the byte and message
  counts of each queue agree with what is on it, and the text blocks of queued messages are
  disjoint from each other and from the free space of \<^verbatim>\<open>msgmap\<close>.
\<close>

theorem msg_reachable_invariant:
  assumes "msg_conf0 info" and "msg_reach info st"
  shows "\<not> (\<exists>l \<in> set (msglock st). l) \<and> distinct (msgfp st @ queued (msgque st))
    \<and> (\<forall>qp \<in> set (msgque st). que_ok (msgh st) qp)
    \<and> blocks_ok (units (msgmap st)) (hblocks info (msgh st) (queued (msgque st)))"
  using msg_reach_inv [OF assms(2,1)] unfolding msg_inv_def pool_ok_def by blast

text \<open>
  C8: \<^verbatim>\<open>msgsnd\<close> implements an append. From a well-formed state it always completes its step,
  keeps the invariant and gives the queue lock back; if it reports success, the message, with the
  type and exactly the bytes copied in, has been added at the end of its queue and every other
  queued message, of this and all other queues, is unchanged; if it fails or goes to sleep, no
  queue has changed. It succeeds only for a positive type and an admissible size.
\<close>

theorem msgsnd_appends:
  assumes "msg_conf info" and "msg_inv info st" and "snd_fits arg"
  shows "\<exists>r st'. msgsnd info u now arg st = Some (r, st') \<and> msg_inv info st' \<and> msglock st' = msglock st
    \<and> (case r of
         MVal _ \<Rightarrow> (\<exists>mtype full. s_type arg = Some mtype \<and> 1 \<le> mtype \<and> 0 \<le> s_sz arg \<and> s_sz arg \<le> msgmax info
            \<and> (s_sz arg = 0 \<or> s_text arg = Some full)
            \<and> aqueues info st' = (aqueues info st)[nat (s_id arg mod msgmni info) :=
                 aqueues info st ! nat (s_id arg mod msgmni info) @ [(mtype, take (nat (s_sz arg)) full)]])
       | MGot _ _ \<Rightarrow> False
       | _ \<Rightarrow> aqueues info st' = aqueues info st)"
proof -
  from msgsnd_ok [OF assms(1,2) snd_fitsD [OF assms(3)], of u now] obtain r st' where
    r: "msgsnd info u now arg st = Some (r, st')"
    and s: "snd_result info (nat (s_id arg mod msgmni info)) (case s_type arg of None \<Rightarrow> 0 | Some t \<Rightarrow> t) arg st r st'"
    and v: "\<forall>v. r = MVal v \<longrightarrow> (\<exists>t. s_type arg = Some t \<and> t \<ge> 1 \<and> 0 \<le> s_sz arg \<and> s_sz arg \<le> msgmax info)"
    by auto
  show ?thesis
  proof (cases r)
    case (MVal x)
    with v obtain t where t: "s_type arg = Some t" "t \<ge> 1" "0 \<le> s_sz arg" "s_sz arg \<le> msgmax info" by blast
    with s r MVal show ?thesis by (auto simp: snd_result_def)
  qed (use s r in \<open>auto simp: snd_result_def\<close>)
qed

text \<open>
  C15: \<^verbatim>\<open>msgrcv\<close> implements a selective removal. From a well-formed state it always completes its
  step, keeps the invariant and gives the queue lock back; if it hands over a message, that is the
  one \<^verbatim>\<open>rcv_select\<close> chooses among the types on the queue, its bytes up to the size asked for
  (cut short only with \<^verbatim>\<open>MSG_NOERROR\<close>), and exactly this message has left its queue; otherwise no
  queue has changed.
\<close>

theorem msgrcv_takes:
  assumes "msg_conf info" and "msg_inv info st"
  shows "\<exists>r st'. msgrcv info u now arg st = Some (r, st') \<and> msg_inv info st' \<and> msglock st' = msglock st
    \<and> (let i = nat (r_id arg mod msgmni info) in
       case r of
         MGot t txt' \<Rightarrow> (\<exists>k full. rcv_select (r_typ arg) (map fst (aqueues info st ! i)) = Some k
            \<and> k < length (aqueues info st ! i) \<and> aqueues info st ! i ! k = (t, full)
            \<and> txt' = take (nat (r_sz arg)) full
            \<and> (r_sz arg < int (length full) \<longrightarrow> r_flg arg AND MSG_NOERROR \<noteq> 0)
            \<and> aqueues info st' = (aqueues info st)[i := drop_nth k (aqueues info st ! i)])
       | MVal _ \<Rightarrow> False
       | _ \<Rightarrow> aqueues info st' = aqueues info st)"
  using msgrcv_ok [OF assms, of u now arg] unfolding rcv_result_def Let_def by blast

text \<open>
  \<^verbatim>\<open>msgctl\<close> and \<^verbatim>\<open>msgget\<close> never lose or invent a message: the only call that changes a queue is a
  successful \<^verbatim>\<open>IPC_RMID\<close>, which empties the queue it names and no other; the invariant is kept and
  the lock given back on every path, and the release of the text blocks never runs off the map.
\<close>

theorem msgctl_msgget_frame:
  assumes "msg_conf info" and "msg_inv info st"
  shows "(\<exists>r st'. msgctl info u now mid cmd arg st = Some (r, st') \<and> msg_inv info st' \<and> msglock st' = msglock st
      \<and> (aqueues info st' = aqueues info st
         \<or> (msg_cmd cmd = MRmid \<and> r = Some (Inr MDone) \<and> aqueues info st' = (aqueues info st)[nat (mid mod msgmni info) := []])))
    \<and> msg_inv info (snd (msgget info u now key flg st))
    \<and> aqueues info (snd (msgget info u now key flg st)) = aqueues info st"
  using msgctl_ok [OF assms] msgget_ok [OF assms(2)] by blast

section \<open>Examples\<close>

definition example_minfo :: msginfo where
  "example_minfo = \<lparr>mi_msgmap = 10, msgmax = 2048, msgmnb = 4096, msgmni = 1, msgssz = 8, msgtql = 2, msgseg = 4\<rparr>"

definition example_que :: msqid_ds where
  "example_que = \<lparr>msg_perm = example_perm\<lparr>ip_mode := 0\<rparr>, msg_q = [], msg_cbytes = 0, msg_qnum = 0, msg_qbytes = 0,
     msg_lspid = 0, msg_lrpid = 0, msg_stime = 0, msg_rtime = 0, msg_ctime = 0, msg_pads = []\<rparr>"

definition example_mstate :: msgstate where
  "example_mstate = \<lparr>msgque = [example_que], msglock = [False], msgh = (\<lambda>_. \<lparr>msg_type = 0, msg_ts = 0, msg_spot = 0\<rparr>),
     msgfp = [], msgmap = mapinit 10, msgpool = (\<lambda>_. 0), mwoken = []\<rparr>"

definition example_root :: uproc where
  "example_root = \<lparr>p_slot = 1, p_pid = 42, u_cred = example_cred\<lparr>cr_uid := 0\<rparr>\<rparr>"

lemma example_mconf: "msg_conf0 example_minfo" "msg_conf example_minfo"
  by (simp_all add: msg_conf0_def msg_conf_def example_minfo_def)

lemma example_mboot: "msg_boot example_minfo example_mstate"
  by (simp add: msg_boot_def example_minfo_def example_mstate_def example_que_def)

lemma example_minit:
  "\<exists>st. msginit True example_minfo example_mstate = Some (example_minfo, st) \<and> msg_inv example_minfo st
     \<and> msg_reach example_minfo st"
  using msginit_inv [OF example_mconf(1) example_mboot] example_mboot msg_reach.init by blast

theorem msg_reachable_invariant_witness:
  "\<exists>st. msginit True example_minfo example_mstate = Some (example_minfo, st) \<and> \<not> (\<exists>l \<in> set (msglock st). l)"
  using example_minit msg_reachable_invariant [OF example_mconf(1)] by blast

text \<open>A queue open to everybody, with the 60 free units of the example map as its text pool.\<close>

definition example_minfo2 :: msginfo where
  "example_minfo2 = example_minfo\<lparr>msgseg := 60\<rparr>"

definition example_open :: msgstate where
  "example_open = example_mstate\<lparr>msgque := [example_que\<lparr>msg_perm := example_perm, msg_qbytes := 4096\<rparr>], msgfp := [0, 1],
     msgmap := example_map\<rparr>"

lemmas example_msg_defs = example_minfo2_def example_minfo_def example_open_def example_mstate_def example_que_def
  example_root_def example_perm_def example_cred_def ipc_consts

lemma example_open_inv: "msg_conf example_minfo2" "msg_inv example_minfo2 example_open"
proof -
  show "msg_conf example_minfo2" by (simp add: msg_conf_def example_msg_defs)
  have "pool_ok example_minfo2 H example_map []" for H
    using example_map_wf example_map_units
    by (auto simp: pool_ok_def hblocks_def blocks_ok_def blocks_units_def example_minfo2_def)
  then show "msg_inv example_minfo2 example_open"
    by (simp add: msg_inv_def queued_def que_ok_def allocated_def example_open_def example_mstate_def example_que_def
        example_minfo2_def example_minfo_def example_perm_def ipc_consts)
qed

definition example_snd :: sndarg where
  "example_snd = \<lparr>s_id = 0, s_sz = 2, s_flg = 0, s_type = Some 1, s_text = Some [7, 8]\<rparr>"

lemma example_alloc1:
  "rmalloc example_map 1 = Some (1, example_map\<lparr>slots := \<lparr>m_size = 59, m_addr = 2\<rparr> # replicate 8 zslot\<rparr>)"
  by (simp add: example_map_def rmalloc_def replicate_examples Let_def)

lemma example_sent: "fst (the (msgsnd example_minfo2 example_root 5 example_snd example_open)) = MVal 0"
  by (simp add: example_alloc1 msgsnd_def msgconv_def msgsnd_getres_def msgsnd_put_def msg_unlock_def msg_wake_def set_que_def allocated_def
      ipcaccess_def btoq_def example_snd_def Let_def example_msg_defs)

theorem msgsnd_appends_witness:
  "\<exists>st'. msgsnd example_minfo2 example_root 5 example_snd example_open = Some (MVal 0, st')
     \<and> msg_inv example_minfo2 st' \<and> aqueues example_minfo2 st' = [[(1, [7, 8])]]"
proof -
  have fits: "snd_fits example_snd" by (simp add: snd_fits_def example_snd_def)
  have q: "aqueues example_minfo2 example_open = [[]]" by (simp add: aqueues_def example_msg_defs)
  from msgsnd_appends [OF example_open_inv fits, of example_root 5] example_sent show ?thesis
    by (auto simp: q example_snd_def)
qed

theorem msgrcv_takes_witness:
  "\<exists>st r st'. aqueues example_minfo2 st = [[(1, [7, 8])]]
     \<and> msgrcv example_minfo2 example_root 5 \<lparr>r_id = 0, r_sz = 2, r_typ = 0, r_flg = 0, r_out1 = True, r_out2 = True\<rparr> st = Some (r, st')
     \<and> msg_inv example_minfo2 st'"
proof -
  have fits: "snd_fits example_snd" by (simp add: snd_fits_def example_snd_def)
  have q: "aqueues example_minfo2 example_open = [[]]" by (simp add: aqueues_def example_msg_defs)
  obtain r st where "msgsnd example_minfo2 example_root 5 example_snd example_open = Some (r, st)"
    "snd_result example_minfo2 0 1 example_snd example_open r st"
    using msgsnd_ok [OF example_open_inv snd_fitsD [OF fits], of example_root 5] by (auto simp: example_snd_def)
  with example_sent have "msg_inv example_minfo2 st" "aqueues example_minfo2 st = [[(1, [7, 8])]]"
    by (auto simp: snd_result_def q example_snd_def)
  with msgrcv_takes [OF example_open_inv(1)] show ?thesis by blast
qed

theorem msgctl_msgget_frame_witness:
  "\<exists>st. msg_inv example_minfo st \<and> msg_inv example_minfo (snd (msgget example_minfo example_root 5 77 512 st))"
  using msgctl_msgget_frame [OF example_mconf(2)] example_minit by blast

end
