(* ===== verification/Flock.thy ===== *)
theory Flock
  imports Kernel_Prelude
begin

text \<open>
  Record locks: \<^verbatim>\<open>uts/i386/os/flock.c\<close>, \<^verbatim>\<open>sys/flock.h\<close> and the structure of \<^verbatim>\<open>sys/fcntl.h\<close>.

  A chain of \<^verbatim>\<open>struct filock\<close> is a list; a pointer into the chain that is being edited is a position
  in it, \<^verbatim>\<open>fl->prev\<close> the position before. Each lock also carries the number it was allocated with, by
  which a process that sleeps finds its own entry again. \<^verbatim>\<open>l_end\<close> is a macro for \<^verbatim>\<open>l_len\<close>, and is
  the same field here. \<^verbatim>\<open>wakeprocs\<close> is recorded in \<open>fl_woken\<close>. Whether the allocator finds memory is the
  argument \<open>mem\<close>, what \<^verbatim>\<open>VOP_GETATTR\<close> reports is \<open>attr\<close>, and the XENIX flags of the process are a record.
\<close>

unbundle bit_operations_syntax

section \<open>Data\<close>

record flock =
  l_type :: int
  l_whence :: int
  l_start :: int
  l_len :: int
  l_sysid :: int
  l_pid :: int

abbreviation l_end :: "flock \<Rightarrow> int" where "l_end \<equiv> l_len"

definition F_RDLCK :: int where "F_RDLCK = 1"
definition F_WRLCK :: int where "F_WRLCK = 2"
definition F_UNLCK :: int where "F_UNLCK = 3"
definition MAXEND :: int where "MAXEND = 2147483647"   \<comment> \<open>017777777777\<close>

text \<open>The union \<^verbatim>\<open>stat\<close>; \<^verbatim>\<open>wakeflg\<close> lies over \<^verbatim>\<open>blk.sysid\<close>.\<close>

datatype lstat = WakeFlg int | Blk int int   \<comment> \<open>\<^verbatim>\<open>sysid\<close>, \<^verbatim>\<open>pid\<close>\<close>

fun wakeflg :: "lstat \<Rightarrow> int" where
  "wakeflg (WakeFlg n) = n"
| "wakeflg (Blk sysid pid) = sysid"

record filock =
  f_set :: flock
  f_stat :: lstat
  f_addr :: int

text \<open>\<^verbatim>\<open>flckinfo\<close> and the wake-ups so far.\<close>

record flckinfo =
  reccnt :: int
  rectot :: int
  fl_woken :: "int list"

type_synonym chain = "filock list \<times> flckinfo"

definition SAMEOWNER :: "flock \<Rightarrow> flock \<Rightarrow> bool" where
  "SAMEOWNER a b \<longleftrightarrow> l_pid a = l_pid b \<and> l_sysid a = l_sysid b"

section \<open>Editing a chain\<close>

definition wake_lock :: "filock \<Rightarrow> flckinfo \<Rightarrow> flckinfo" where
  "wake_lock f c = (if wakeflg (f_stat f) \<noteq> 0 then c\<lparr>fl_woken := fl_woken c @ [f_addr f]\<rparr> else c)"

text \<open>\<^verbatim>\<open>insflck\<close>: after position \<open>pos\<close>, or at the head of the chain.\<close>

definition insflck :: "int \<Rightarrow> (int \<Rightarrow> bool) \<Rightarrow> nat option \<Rightarrow> flock \<Rightarrow> chain \<Rightarrow> chain option" where
  "insflck t_flckrec mem pos d = (\<lambda>(L, c).
     if reccnt c \<ge> t_flckrec \<or> \<not> mem (rectot c) then None
     else
       (let new = \<lparr>f_set = d, f_stat = WakeFlg 0, f_addr = rectot c\<rparr>;
            i = (case pos of None \<Rightarrow> 0 | Some j \<Rightarrow> Suc j)
        in Some (take i L @ new # drop i L, c\<lparr>reccnt := reccnt c + 1, rectot := rectot c + 1\<rparr>)))"

definition delflck :: "nat \<Rightarrow> chain \<Rightarrow> chain" where
  "delflck k = (\<lambda>(L, c). (take k L @ drop (Suc k) L, (wake_lock (L ! k) c)\<lparr>reccnt := reccnt c - 1\<rparr>))"

text \<open>\<^verbatim>\<open>flp->set.l_end = e; WAKEUP(flp)\<close>\<close>

definition cutflck :: "nat \<Rightarrow> int \<Rightarrow> chain \<Rightarrow> chain" where
  "cutflck k e = (\<lambda>(L, c).
     (L[k := (L ! k)\<lparr>f_set := (f_set (L ! k))\<lparr>l_len := e\<rparr>,
               f_stat := (if wakeflg (f_stat (L ! k)) \<noteq> 0 then WakeFlg 0 else f_stat (L ! k))\<rparr>],
      wake_lock (L ! k) c))"

section \<open>Regions\<close>

datatype srel = SBefore | SStart | SMiddle | SEnd | SAfter
datatype erel = EBefore | EStart | EMiddle | EEnd | EAfter

definition regflck :: "flock \<Rightarrow> flock \<Rightarrow> srel \<times> erel" where
  "regflck ld f =
     (if l_start ld > l_start f \<and> l_start ld - 1 = l_end f then (SEnd, EAfter)
      else if l_start ld > l_start f \<and> l_start ld > l_end f then (SAfter, EAfter)
      else
        (if l_start ld > l_start f then SMiddle else if l_start ld = l_start f then SStart else SBefore,
         if l_end ld < l_end f then
           (if l_end ld = l_start f - 1 then EStart else if l_end ld < l_start f then EBefore else EMiddle)
         else if l_end ld = l_end f then EEnd else EAfter))"

section \<open>\<^verbatim>\<open>flckadj\<close>\<close>

text \<open>The loops that step forward from a lock over those that start below \<open>s\<close>.\<close>

definition settle :: "int \<Rightarrow> nat \<Rightarrow> filock list \<Rightarrow> nat" where
  "settle s i L = i + (length (takeWhile (\<lambda>f. l_start (f_set f) < s) (drop i L)) - 1)"

definition prev_of :: "nat \<Rightarrow> nat option" where
  "prev_of k = (if k = 0 then None else Some (k - 1))"

text \<open>
  How the scan ends: with the return 0 for a region that is already set, with \<^verbatim>\<open>ENOLCK\<close>, or at the end
  of the list with the place to insert the lock at; always with the lock as it has grown, for \<^verbatim>\<open>ld\<close> is changed in place.
\<close>

datatype adj = AdjSet flock | AdjFull flock | AdjEnd flock "nat option"

text \<open>The piece after the end of the (un)lock.\<close>

definition td_piece :: "int \<Rightarrow> (int \<Rightarrow> bool) \<Rightarrow> flock \<Rightarrow> nat \<Rightarrow> chain \<Rightarrow> chain option" where
  "td_piece t_flckrec mem ld k = (\<lambda>(L, c).
     (let td = (f_set (L ! k))\<lparr>l_start := l_end ld + 1\<rparr>
      in insflck t_flckrec mem (Some (settle (l_start td) k L)) td (L, c)))"

text \<open>One round of the scan, at position \<open>k\<close>: the end, or where to go on.\<close>

datatype adj_round = Stop adj | Next flock "nat option" nat

definition adj_own ::
  "int \<Rightarrow> (int \<Rightarrow> bool) \<Rightarrow> flock \<Rightarrow> nat option \<Rightarrow> nat \<Rightarrow> chain \<Rightarrow> adj_round \<times> chain" where
  "adj_own t_flckrec mem ld insrtp k ch =
     (let f = f_set (fst ch ! k); same = (l_type ld = l_type f) in
      case regflck ld f of
        (SBefore, EBefore) \<Rightarrow> (Stop (AdjEnd ld insrtp), ch)
      | (SBefore, EStart) \<Rightarrow>
          if same then (Stop (AdjEnd (ld\<lparr>l_len := l_end f\<rparr>) insrtp), delflck k ch)
          else (Stop (AdjEnd ld insrtp), ch)
      | (SStart, EEnd) \<Rightarrow> if same then (Stop (AdjSet ld), ch) else (Next ld (prev_of k) k, delflck k ch)
      | (SStart, EAfter) \<Rightarrow> (Next ld (prev_of k) k, delflck k ch)
      | (SBefore, EEnd) \<Rightarrow>
          (if same then Stop (AdjEnd ld insrtp) else Next ld insrtp k, delflck k ch)
      | (SBefore, EAfter) \<Rightarrow> (Next ld insrtp k, delflck k ch)
      | (SStart, EMiddle) \<Rightarrow>
          if same then (Stop (AdjSet ld), ch)
          else (case td_piece t_flckrec mem ld k ch of
                  None \<Rightarrow> (Stop (AdjFull ld), ch)
                | Some ch1 \<Rightarrow> (Stop (AdjEnd ld (prev_of k)), delflck k ch1))
      | (SMiddle, EMiddle) \<Rightarrow>
          if same then (Stop (AdjSet ld), ch)
          else (case td_piece t_flckrec mem ld k ch of
                  None \<Rightarrow> (Stop (AdjFull ld), ch)
                | Some ch1 \<Rightarrow> (Stop (AdjEnd ld (Some k)), cutflck k (l_start ld - 1) ch1))
      | (SBefore, EMiddle) \<Rightarrow>
          if same then (Stop (AdjEnd (ld\<lparr>l_len := l_end f\<rparr>) insrtp), delflck k ch)
          else (case td_piece t_flckrec mem ld k ch of
                  None \<Rightarrow> (Stop (AdjFull ld), ch)
                | Some ch1 \<Rightarrow> (Stop (AdjEnd ld insrtp), delflck k ch1))
      | (SMiddle, EEnd) \<Rightarrow>
          if same then (Stop (AdjSet ld), ch) else (Next ld (Some k) (Suc k), cutflck k (l_start ld - 1) ch)
      | (SMiddle, EAfter) \<Rightarrow>
          if same then (Next (ld\<lparr>l_start := l_start f\<rparr>) (prev_of k) k, delflck k ch)
          else (Next ld (Some k) (Suc k), cutflck k (l_start ld - 1) ch)
      | (SEnd, EAfter) \<Rightarrow>
          if same then (Next (ld\<lparr>l_start := l_start f\<rparr>) (prev_of k) k, delflck k ch)
          else (Next ld insrtp (Suc k), ch)
      | (SAfter, EAfter) \<Rightarrow> (Next ld (Some k) (Suc k), ch)
      | _ \<Rightarrow> (Next ld insrtp (Suc k), ch))"

lemma adj_own_progress:
  assumes "adj_own t mem ld insrtp k ch = (Next ld' ins' k', ch')" and "k < length (fst ch)"
  shows "length (fst ch') - k' < length (fst ch) - k"
  using assms
  by (auto simp: adj_own_def Let_def delflck_def cutflck_def split: prod.splits srel.splits erel.splits if_splits option.splits)

function flckadj_loop ::
  "int \<Rightarrow> (int \<Rightarrow> bool) \<Rightarrow> flock \<Rightarrow> nat option \<Rightarrow> nat \<Rightarrow> chain \<Rightarrow> adj \<times> chain" where
  "flckadj_loop t mem ld insrtp k ch =
     (if length (fst ch) \<le> k then (AdjEnd ld insrtp, ch)
      else if SAMEOWNER (f_set (fst ch ! k)) ld then
        (case adj_own t mem ld insrtp k ch of
           (Stop r, ch1) \<Rightarrow> (r, ch1)
         | (Next ld1 ins1 k1, ch1) \<Rightarrow> flckadj_loop t mem ld1 ins1 k1 ch1)
      else flckadj_loop t mem ld insrtp (Suc k) ch)"
  by pat_completeness auto

termination
proof (relation "measure (\<lambda>(t, mem, ld, ins, k, ch). length (fst ch) - k)", goal_cases)
  case (2 t mem ld insrtp k ch x y ld' ins' k')
  then have "adj_own t mem ld insrtp k ch = (Next ld' ins' k', y)" and "k < length (fst ch)" by simp_all
  from adj_own_progress [OF this] show ?case by simp
qed simp_all

declare flckadj_loop.simps [simp del]

definition flckadj ::
  "int \<Rightarrow> (int \<Rightarrow> bool) \<Rightarrow> nat option \<Rightarrow> flock \<Rightarrow> chain \<Rightarrow> errno option \<times> flock \<times> chain" where
  "flckadj t mem insrtp ld ch =
     (case flckadj_loop t mem ld insrtp (case insrtp of None \<Rightarrow> 0 | Some i \<Rightarrow> i) ch of
        (AdjSet ld1, ch1) \<Rightarrow> (None, ld1, ch1)
      | (AdjFull ld1, ch1) \<Rightarrow> (Some ENOLCK, ld1, ch1)
      | (AdjEnd ld1 ins1, ch1) \<Rightarrow>
          if l_type ld1 \<noteq> F_UNLCK then
            (case insflck t mem (map_option (\<lambda>i. settle (l_start ld1) i (fst ch1)) ins1) ld1 ch1 of
               None \<Rightarrow> (Some ENOLCK, ld1, ch1)
             | Some ch2 \<Rightarrow> (None, ld1, ch2))
          else (None, ld1, ch1))"

section \<open>\<^verbatim>\<open>blocked\<close>\<close>

text \<open>The conflict of a lock with a request; \<open>xen\<close> stands for \<^verbatim>\<open>xenix_compat && ISLOCKING\<close>.\<close>

definition conflict :: "bool \<Rightarrow> flock \<Rightarrow> flock \<Rightarrow> bool" where
  "conflict xen f ld \<longleftrightarrow> l_type f = F_WRLCK \<or> xen \<or> (l_type f = F_RDLCK \<and> l_type ld = F_WRLCK)"

fun blocked2 :: "bool \<Rightarrow> flock \<Rightarrow> nat \<Rightarrow> filock list \<Rightarrow> nat option" where
  "blocked2 xen ld k [] = None"
| "blocked2 xen ld k (f # fs) =
     (if l_end ld < l_start (f_set f) then None
      else if l_start ld \<le> l_end (f_set f) \<and> \<not> SAMEOWNER (f_set f) ld \<and> conflict xen (f_set f) ld then Some k
      else blocked2 xen ld (Suc k) fs)"

fun blocked1 :: "bool \<Rightarrow> flock \<Rightarrow> nat \<Rightarrow> nat option \<Rightarrow> filock list \<Rightarrow> nat option \<times> nat option" where
  "blocked1 xen ld k insrt [] = (None, insrt)"
| "blocked1 xen ld k insrt (f # fs) =
     (if l_start (f_set f) < l_start ld then
        (if SAMEOWNER (f_set f) ld then
           (if l_start ld - 1 \<le> l_end (f_set f) then (blocked2 xen ld k (f # fs), Some k)
            else blocked1 xen ld (Suc k) (Some k) fs)
         else if l_start ld \<le> l_end (f_set f) \<and> conflict xen (f_set f) ld then (Some k, Some k)
         else blocked1 xen ld (Suc k) (Some k) fs)
      else (blocked2 xen ld k (f # fs), insrt))"

text \<open>\<^verbatim>\<open>blocked\<close>: the position of a blocking lock, if any, and \<^verbatim>\<open>*insrt\<close>.\<close>

definition blocked :: "bool \<Rightarrow> filock list \<Rightarrow> flock \<Rightarrow> nat option \<times> nat option" where
  "blocked xen L ld = blocked1 xen ld 0 None L"

section \<open>Waiting\<close>

text \<open>
  \<^verbatim>\<open>deadflck\<close>: from the owner of a blocking lock along the sleeping requests. The loop does not have
  to end, so the result is an option.
\<close>

definition sleeper :: "int \<Rightarrow> int \<Rightarrow> filock \<Rightarrow> bool" where
  "sleeper pid sysid sf \<longleftrightarrow> pid = l_pid (f_set sf) \<and> sysid = l_sysid (f_set sf)"

fun blk_sysid :: "lstat \<Rightarrow> int" where
  "blk_sysid (Blk sysid pid) = sysid"
| "blk_sysid (WakeFlg n) = n"

fun blk_pid :: "lstat \<Rightarrow> int" where
  "blk_pid (Blk sysid pid) = pid"
| "blk_pid (WakeFlg n) = 0"

partial_function (option) deadflck_loop :: "filock list \<Rightarrow> flock \<Rightarrow> int \<Rightarrow> int \<Rightarrow> bool option" where
  "deadflck_loop sleeplcks ld blckpid blcksysid =
     (if blckpid = l_pid ld \<and> blcksysid = l_sysid ld then Some True
      else case find (sleeper blckpid blcksysid) sleeplcks of
             None \<Rightarrow> Some False
           | Some sf \<Rightarrow> deadflck_loop sleeplcks ld (blk_pid (f_stat sf)) (blk_sysid (f_stat sf)))"

definition deadflck :: "filock list \<Rightarrow> flock \<Rightarrow> flock \<Rightarrow> bool option" where
  "deadflck sleeplcks f ld = deadflck_loop sleeplcks ld (l_pid f) (l_sysid f)"

text \<open>\<^verbatim>\<open>cleanlocks\<close>: delete the locks of a process, or of a system when the process is \<^verbatim>\<open>IGN_PID\<close>.\<close>

function cleanlocks_loop :: "int \<Rightarrow> int \<Rightarrow> nat \<Rightarrow> chain \<Rightarrow> chain" where
  "cleanlocks_loop pid sysid k ch =
     (if length (fst ch) \<le> k then ch
      else if (l_pid (f_set (fst ch ! k)) = pid \<or> pid = -1) \<and> l_sysid (f_set (fst ch ! k)) = sysid
      then cleanlocks_loop pid sysid k (delflck k ch)
      else cleanlocks_loop pid sysid (Suc k) ch)"
  by pat_completeness auto

termination
  by (relation "measure (\<lambda>(pid, sysid, k, ch). length (fst ch) - k)") (auto simp: delflck_def split: prod.splits)

declare cleanlocks_loop.simps [simp del]

definition cleanlocks :: "int \<Rightarrow> int \<Rightarrow> chain \<Rightarrow> chain" where
  "cleanlocks pid sysid ch = cleanlocks_loop pid sysid 0 ch"

section \<open>\<^verbatim>\<open>reclock\<close>\<close>

definition INOFLCK :: u32 where "INOFLCK = 1"
definition SETFLCK :: u32 where "SETFLCK = 2"
definition SLPFLCK :: u32 where "SLPFLCK = 4"
definition RCMDLCK :: u32 where "RCMDLCK = 8"
definition FREAD :: u32 where "FREAD = 1"
definition FWRITE :: u32 where "FWRITE = 2"

text \<open>\<^verbatim>\<open>convoff\<close>; \<open>attr\<close> is the outcome of \<^verbatim>\<open>VOP_GETATTR\<close>.\<close>

definition convoff :: "errno + int \<Rightarrow> int \<Rightarrow> int \<Rightarrow> flock \<Rightarrow> errno option \<times> flock" where
  "convoff attr whence offset ld =
     (case attr of
        Inl e \<Rightarrow> (Some e, ld)
      | Inr va_size \<Rightarrow>
          if l_whence ld \<noteq> 0 \<and> l_whence ld \<noteq> 1 \<and> l_whence ld \<noteq> 2 then (Some EINVAL, ld)
          else
            (let s = (if l_whence ld = 1 then to_long (l_start ld + offset)
                      else if l_whence ld = 2 then to_long (l_start ld + va_size) else l_start ld);
                 ld1 = ld\<lparr>l_start := s\<rparr> in
             if s < 0 then (Some EINVAL, ld1)
             else if whence \<noteq> 0 \<and> whence \<noteq> 1 \<and> whence \<noteq> 2 then (Some EINVAL, ld1)
             else
               (None, ld1\<lparr>l_start := (if whence = 1 then to_long (s - offset)
                            else if whence = 2 then to_long (s - va_size) else s), l_whence := whence\<rparr>)))"

text \<open>The XENIX flags: \<^verbatim>\<open>BADVISE_PRE_SV\<close>, \<^verbatim>\<open>VIRTUAL_XOUT\<close>, \<^verbatim>\<open>ISFCNTL\<close>, \<^verbatim>\<open>ISLOCKING\<close>.\<close>

record xenix =
  x_pre_sv :: bool
  x_xout :: bool
  x_fcntl :: bool
  x_locking :: bool

definition xenix_block :: "xenix \<Rightarrow> flock \<Rightarrow> bool" where
  "xenix_block x ld \<longleftrightarrow> ((x_xout x \<and> x_fcntl x \<and> l_type ld = F_UNLCK) \<or> x_pre_sv x) \<and> x_locking x"

record rlstate =
  v_filocks :: "filock list"
  sleeplcks :: "filock list"
  flckinfo :: flckinfo

definition stale_request :: "flock \<Rightarrow> filock \<Rightarrow> bool" where
  "stale_request ld sf \<longleftrightarrow>
     l_whence (f_set sf) = l_whence ld \<and> l_start (f_set sf) \<ge> l_start ld \<and> l_len (f_set sf) \<le> l_len ld
     \<and> l_sysid (f_set sf) = l_sysid ld \<and> l_pid (f_set sf) = l_pid ld"

text \<open>The loops at \<^verbatim>\<open>cleanslp\<close> and \<^verbatim>\<open>cleanslp2\<close>: delete the first stale request and start again.\<close>

function cleanslp :: "flock \<Rightarrow> chain \<Rightarrow> chain" where
  "cleanslp ld ch =
     (case find_pos (stale_request ld) (fst ch) of
        None \<Rightarrow> ch
      | Some k \<Rightarrow> cleanslp ld (delflck k ch))"
  by pat_completeness auto

termination
  by (relation "measure (\<lambda>(ld, ch). length (fst ch))")
     (auto simp: delflck_def dest: find_pos_Some split: prod.splits)

declare cleanslp.simps [simp del]

definition clean_sleepers :: "flock \<Rightarrow> rlstate \<Rightarrow> rlstate" where
  "clean_sleepers ld st =
     (let (sl, c) = cleanslp ld (sleeplcks st, flckinfo st) in st\<lparr>sleeplcks := sl, flckinfo := c\<rparr>)"

text \<open>
  The outcome of a pass through the loop: a return value, or asleep on a lock of the file with the
  number of one's entry in \<^verbatim>\<open>sleeplcks\<close>; no outcome at all when the deadlock search does not end.
\<close>

datatype rl_out = RlRet "errno option" | RlSleep int int

definition adjust :: "int \<Rightarrow> (int \<Rightarrow> bool) \<Rightarrow> nat option \<Rightarrow> flock \<Rightarrow> rlstate \<Rightarrow> errno option \<times> flock \<times> rlstate" where
  "adjust t mem insrt ld st =
     (case flckadj t mem insrt ld (v_filocks st, flckinfo st) of
        (e, ld1, L, c) \<Rightarrow> (e, ld1, st\<lparr>v_filocks := L, flckinfo := c\<rparr>))"

text \<open>Putting the request on \<^verbatim>\<open>sleeplcks\<close> with who blocks it.\<close>

definition put_sleep :: "int \<Rightarrow> (int \<Rightarrow> bool) \<Rightarrow> flock \<Rightarrow> filock \<Rightarrow> rlstate \<Rightarrow> (int \<times> rlstate) option" where
  "put_sleep t mem ld found st =
     (case insflck t mem None ld (sleeplcks st, flckinfo st) of
        None \<Rightarrow> None
      | Some (sl, c) \<Rightarrow>
          Some (f_addr (sl ! 0),
            st\<lparr>sleeplcks := sl[0 := (sl ! 0)\<lparr>f_stat := Blk (l_sysid (f_set found)) (l_pid (f_set found))\<rparr>],
               flckinfo := c\<rparr>))"

definition same_request :: "flock \<Rightarrow> filock \<Rightarrow> filock \<Rightarrow> bool" where
  "same_request ld found sf \<longleftrightarrow>
     l_type (f_set sf) = l_type ld \<and> l_whence (f_set sf) = l_whence ld \<and> l_start (f_set sf) = l_start ld
     \<and> l_len (f_set sf) = l_len ld \<and> l_sysid (f_set sf) = l_sysid ld \<and> l_pid (f_set sf) = l_pid ld
     \<and> blk_sysid (f_stat sf) = l_sysid (f_set found) \<and> blk_pid (f_stat sf) = l_pid (f_set found)"

text \<open>The blocked request that is allowed to wait.\<close>

definition reclock_wait ::
  "int \<Rightarrow> (int \<Rightarrow> bool) \<Rightarrow> u32 \<Rightarrow> flock \<Rightarrow> nat \<Rightarrow> rlstate \<Rightarrow> (rl_out \<times> flock \<times> rlstate) option" where
  "reclock_wait t mem cmd ld k st =
     (let found = v_filocks st ! k in
      case deadflck (sleeplcks st) (f_set found) ld of
        None \<Rightarrow> None
      | Some True \<Rightarrow> Some (RlRet (Some EDEADLK), ld, st)
      | Some False \<Rightarrow>
          if cmd AND RCMDLCK \<noteq> 0 then
            (if \<exists>sf \<in> set (sleeplcks st). same_request ld found sf then Some (RlRet (Some EINTR), ld, st)
             else case put_sleep t mem ld found st of
                    None \<Rightarrow> Some (RlRet (Some ENOLCK), ld, st)
                  | Some (_, st1) \<Rightarrow> Some (RlRet (Some EINTR), ld, st1))
          else
            (case put_sleep t mem ld found st of
               None \<Rightarrow> Some (RlRet (Some ENOLCK), ld, st)
             | Some (a, st1) \<Rightarrow>
                 Some (RlSleep (f_addr found) a, ld,
                   st1\<lparr>v_filocks := (v_filocks st1)[k := found\<lparr>f_stat := WakeFlg (wakeflg (f_stat found) + 1)\<rparr>]\<rparr>)))"

text \<open>One pass of the loop of \<^verbatim>\<open>reclock\<close>.\<close>

definition reclock_pass ::
  "int \<Rightarrow> (int \<Rightarrow> bool) \<Rightarrow> xenix \<Rightarrow> u32 \<Rightarrow> flock \<Rightarrow> rlstate \<Rightarrow> (rl_out \<times> flock \<times> rlstate) option" where
  "reclock_pass t mem x cmd ld st =
     (if l_type ld = F_RDLCK \<or> l_type ld = F_WRLCK then
        (case blocked (xenix_block x ld) (v_filocks st) ld of
           (None, insrt) \<Rightarrow>
             (let (e, ld1, st1) = (if cmd AND SETFLCK \<noteq> 0 then adjust t mem insrt ld st
                                   else (None, ld\<lparr>l_type := F_UNLCK\<rparr>, st));
                  st2 = (if cmd AND (RCMDLCK OR SLPFLCK) = RCMDLCK OR SLPFLCK then clean_sleepers ld1 st1 else st1)
              in Some (RlRet e, ld1, st2))
         | (Some k, insrt) \<Rightarrow>
             if cmd AND SLPFLCK \<noteq> 0 then reclock_wait t mem cmd ld k st
             else if cmd AND SETFLCK \<noteq> 0 then Some (RlRet (Some EAGAIN), ld, st)
             else Some (RlRet None, f_set (v_filocks st ! k), st))
      else if l_type ld = F_UNLCK then
        (let (e, ld1, st1) =
           (if cmd AND SETFLCK \<noteq> 0 then adjust t mem (if v_filocks st = [] then None else Some 0) ld st
            else if x_xout x \<and> x_fcntl x then
              (case blocked (xenix_block x ld) (v_filocks st) ld of
                 (Some k, _) \<Rightarrow> (None, f_set (v_filocks st ! k), st)
               | (None, _) \<Rightarrow> (None, ld, st))
            else (None, ld, st));
             st2 = (if cmd AND RCMDLCK \<noteq> 0 then clean_sleepers ld1 st1 else st1)
         in Some (RlRet e, ld1, st2))
      else Some (RlRet (Some EINVAL), ld, st))"

text \<open>Before the loop: the access check and the conversion of the range.\<close>

definition no_access :: "xenix \<Rightarrow> u32 \<Rightarrow> u32 \<Rightarrow> flock \<Rightarrow> bool" where
  "no_access x cmd flag ld \<longleftrightarrow>
     \<not> x_pre_sv x \<and> (cmd AND SETFLCK \<noteq> 0 \<or> (x_xout x \<and> x_fcntl x) \<or> x_locking x)
     \<and> ((l_type ld = F_RDLCK \<and> flag AND FREAD = 0) \<or> (l_type ld = F_WRLCK \<and> flag AND FWRITE = 0))"

definition reclock_enter ::
  "xenix \<Rightarrow> errno + int \<Rightarrow> u32 \<Rightarrow> u32 \<Rightarrow> int \<Rightarrow> flock \<Rightarrow> errno option \<times> flock" where
  "reclock_enter x attr cmd flag offset ld =
     (if no_access x cmd flag ld
      then (Some (if x_xout x \<or> x_locking x then EINVAL else EBADF), ld)
      else
        (case convoff attr 0 offset ld of
           (Some e, ld1) \<Rightarrow> (Some e, ld1)
         | (None, ld1) \<Rightarrow>
             if l_len ld1 < 0 then (Some EINVAL, ld1)
             else
               (let e = (if l_len ld1 = 0 then MAXEND else to_long (l_len ld1 + (l_start ld1 - 1)));
                    ld2 = ld1\<lparr>l_len := e\<rparr> in
                if l_start ld2 > l_end ld2 then (Some EINVAL, ld2) else (None, ld2))))"

text \<open>After it: the length again instead of the end, and the caller's \<^verbatim>\<open>whence\<close>.\<close>

definition reclock_leave :: "errno + int \<Rightarrow> int \<Rightarrow> int \<Rightarrow> flock \<Rightarrow> flock" where
  "reclock_leave attr whence offset ld =
     (let ld1 = ld\<lparr>l_len := (if l_end ld = MAXEND then 0 else to_long (l_len ld - (l_start ld - 1)))\<rparr>
      in snd (convoff attr whence offset ld1))"

text \<open>\<^verbatim>\<open>reclock\<close> up to its return or its first sleep.\<close>

definition reclock ::
  "int \<Rightarrow> (int \<Rightarrow> bool) \<Rightarrow> xenix \<Rightarrow> errno + int \<Rightarrow> u32 \<Rightarrow> u32 \<Rightarrow> int \<Rightarrow> flock \<Rightarrow> rlstate \<Rightarrow> (rl_out \<times> flock \<times> rlstate) option" where
  "reclock t mem x attr cmd flag offset ld st =
     (case reclock_enter x attr cmd flag offset ld of
        (Some e, ld1) \<Rightarrow> Some (RlRet (Some e), ld1, st)
      | (None, ld1) \<Rightarrow>
          (case reclock_pass t mem x cmd ld1 st of
             None \<Rightarrow> None
           | Some (RlRet e, ld2, st1) \<Rightarrow> Some (RlRet e, reclock_leave attr (l_whence ld) offset ld2, st1)
           | Some (RlSleep f a, ld2, st1) \<Rightarrow> Some (RlSleep f a, ld2, st1)))"

text \<open>
  After the sleep, interrupted or not: the entry \<open>a\<close> leaves \<^verbatim>\<open>sleeplcks\<close>, and the loop goes on or ends. The process holds a
  pointer to its entry; when somebody else has deleted it meanwhile there is no result.
\<close>

definition end_sleep :: "int \<Rightarrow> rlstate \<Rightarrow> rlstate option" where
  "end_sleep a st =
     (case find_pos (\<lambda>sf. f_addr sf = a) (sleeplcks st) of
        None \<Rightarrow> None
      | Some k \<Rightarrow> Some
          (let sl = (sleeplcks st)[k := (sleeplcks st ! k)\<lparr>f_stat := Blk 0 0\<rparr>];
               (sl1, c) = delflck k (sl, flckinfo st)
           in st\<lparr>sleeplcks := sl1, flckinfo := c\<rparr>))"

definition reclock_resume ::
  "int \<Rightarrow> (int \<Rightarrow> bool) \<Rightarrow> xenix \<Rightarrow> errno + int \<Rightarrow> u32 \<Rightarrow> int \<Rightarrow> int \<Rightarrow> bool \<Rightarrow> int \<Rightarrow> flock \<Rightarrow> rlstate
    \<Rightarrow> (rl_out \<times> flock \<times> rlstate) option" where
  "reclock_resume t mem x attr cmd whence offset intr a ld st =
     (case end_sleep a st of
        None \<Rightarrow> None
      | Some st1 \<Rightarrow>
          if intr then Some (RlRet (Some EINTR), reclock_leave attr whence offset ld, st1)
          else
            (case reclock_pass t mem x cmd ld st1 of
               None \<Rightarrow> None
             | Some (RlRet e, ld2, st2) \<Rightarrow> Some (RlRet e, reclock_leave attr whence offset ld2, st2)
             | Some (RlSleep f b, ld2, st2) \<Rightarrow> Some (RlSleep f b, ld2, st2)))"

text \<open>
  \<^verbatim>\<open>chklock\<close>: the request it makes of \<^verbatim>\<open>reclock\<close> and how it judges the answer.
\<close>

definition chk_request :: "xenix \<Rightarrow> int \<Rightarrow> int \<Rightarrow> u32 \<Rightarrow> int \<Rightarrow> int \<Rightarrow> flock" where
  "chk_request x epid sysid iomode offset len =
     \<lparr>l_type = (if iomode AND FWRITE \<noteq> 0 then F_WRLCK else F_RDLCK), l_whence = 0, l_start = offset,
      l_len = (if len = 0 \<and> (x_xout x \<or> x_locking x) then 1 else len), l_sysid = sysid, l_pid = epid\<rparr>"

definition chk_error :: "xenix \<Rightarrow> errno option \<Rightarrow> flock \<Rightarrow> errno option" where
  "chk_error x e bf =
     (if e \<noteq> None \<or> l_type bf \<noteq> F_UNLCK then
        (let err = (case e of Some v \<Rightarrow> v | None \<Rightarrow> EAGAIN) in
         if x_pre_sv x \<and> err = EAGAIN then Some EACCES else Some err)
      else None)"

definition chklock ::
  "int \<Rightarrow> (int \<Rightarrow> bool) \<Rightarrow> xenix \<Rightarrow> errno + int \<Rightarrow> int \<Rightarrow> int \<Rightarrow> u32 \<Rightarrow> int \<Rightarrow> int \<Rightarrow> bool \<Rightarrow> rlstate
    \<Rightarrow> ((errno option + int \<times> int) \<times> rlstate) option" where
  "chklock t mem x attr epid sysid iomode offset len ndelay st =
     (case reclock t mem x attr (if ndelay then INOFLCK else INOFLCK OR SLPFLCK) 0 offset
             (chk_request x epid sysid iomode offset len) st of
        None \<Rightarrow> None
      | Some (RlRet e, bf, st1) \<Rightarrow> Some (Inl (chk_error x e bf), st1)
      | Some (RlSleep f a, bf, st1) \<Rightarrow> Some (Inr (f, a), st1))"

end
