(* ===== verification/Flock_Adjust.thy ===== *)
theory Flock_Adjust
  imports Flock
begin

text \<open>
  Correctness of the record locks of one file. What an owner holds is a set of bytes with a lock type
  each; \<^verbatim>\<open>flckadj\<close> updates exactly the bytes of the request, splitting and joining locks as needed and
  keeping the chain ordered, and \<^verbatim>\<open>blocked\<close> finds a conflicting lock of another owner if there is one.
\<close>

section \<open>What an owner holds\<close>

abbreviation own :: "flock \<Rightarrow> filock \<Rightarrow> bool" where
  "own ld f \<equiv> SAMEOWNER (f_set f) ld"

definition piece :: "flock \<Rightarrow> (int \<times> int) set" where
  "piece d = {(x, t). l_start d \<le> x \<and> x \<le> l_end d \<and> t = l_type d}"

definition cover :: "flock \<Rightarrow> filock list \<Rightarrow> (int \<times> int) set" where
  "cover o1 L = (\<Union>f \<in> {f \<in> set L. own o1 f}. piece (f_set f))"

text \<open>The effect of the request on the bytes: the range gets the new type, or none for an unlock.\<close>

definition upd :: "flock \<Rightarrow> (int \<times> int) set \<Rightarrow> (int \<times> int) set" where
  "upd ld C = {(x, t) \<in> C. x < l_start ld \<or> l_end ld < x} \<union> (if l_type ld = F_UNLCK then {} else piece ld)"

text \<open>Chains are ordered by start, and the locks of one owner do not overlap.\<close>

definition by_start :: "filock list \<Rightarrow> bool" where
  "by_start L \<longleftrightarrow> sorted_wrt (\<lambda>f g. l_start (f_set f) \<le> l_start (f_set g)) L"

definition apart :: "flock \<Rightarrow> filock list \<Rightarrow> bool" where
  "apart o1 L \<longleftrightarrow>
     (\<forall>f \<in> set L. own o1 f \<longrightarrow> l_start (f_set f) \<le> l_end (f_set f) \<and> l_type (f_set f) \<noteq> F_UNLCK)
     \<and> sorted_wrt (\<lambda>f g. own o1 f \<longrightarrow> own o1 g \<longrightarrow> l_end (f_set f) < l_start (f_set g)) L"

lemma cover_simps [simp]:
  "cover o1 [] = {}" "cover o1 (L @ M) = cover o1 L \<union> cover o1 M"
  "cover o1 (f # L) = (if own o1 f then piece (f_set f) else {}) \<union> cover o1 L"
  by (auto simp: cover_def)

lemma own_cong: "l_pid a = l_pid b \<Longrightarrow> l_sysid a = l_sysid b \<Longrightarrow> own a = own b"
  by (simp add: SAMEOWNER_def fun_eq_iff)

lemma coverD: "(x, t) \<in> cover o1 L \<Longrightarrow> \<exists>f \<in> set L. own o1 f \<and> l_start (f_set f) \<le> x \<and> x \<le> l_end (f_set f) \<and> t = l_type (f_set f)"
  by (auto simp: cover_def piece_def)

lemma by_start_simps [simp]:
  "by_start []"
  "by_start (f # L) \<longleftrightarrow> (\<forall>g \<in> set L. l_start (f_set f) \<le> l_start (f_set g)) \<and> by_start L"
  "by_start (L @ M) \<longleftrightarrow> by_start L \<and> by_start M \<and> (\<forall>f \<in> set L. \<forall>g \<in> set M. l_start (f_set f) \<le> l_start (f_set g))"
  by (auto simp: by_start_def sorted_wrt_append)

lemma apart_simps [simp]:
  "apart o1 []"
  "apart o1 (f # L) \<longleftrightarrow> (own o1 f \<longrightarrow> l_start (f_set f) \<le> l_end (f_set f) \<and> l_type (f_set f) \<noteq> F_UNLCK
     \<and> (\<forall>g \<in> set L. own o1 g \<longrightarrow> l_end (f_set f) < l_start (f_set g))) \<and> apart o1 L"
  "apart o1 (L @ M) \<longleftrightarrow> apart o1 L \<and> apart o1 M
     \<and> (\<forall>f \<in> set L. \<forall>g \<in> set M. own o1 f \<longrightarrow> own o1 g \<longrightarrow> l_end (f_set f) < l_start (f_set g))"
  by (auto simp: apart_def sorted_wrt_append)

text \<open>The chain with the lock at position \<open>k\<close> in evidence.\<close>

lemma chain_at:
  assumes "k < length L"
  obtains A f B where "L = A @ f # B" "length A = k" "L ! k = f"
  using id_take_nth_drop [OF assms] assms by (intro that [of "take k L" "L ! k" "drop (Suc k) L"]) auto

lemma delflck_at: "fst (delflck (length A) (A @ f # B, c)) = A @ B"
  by (simp add: delflck_def)

lemma cutflck_at:
  "\<exists>g. fst (cutflck (length A) e (A @ f # B, c)) = A @ g # B \<and> f_set g = (f_set f)\<lparr>l_len := e\<rparr>"
  by (simp add: cutflck_def)

lemma not_own_upd [simp]:
  "SAMEOWNER a (ld\<lparr>l_len := e\<rparr>) = SAMEOWNER a ld" "SAMEOWNER a (ld\<lparr>l_start := e\<rparr>) = SAMEOWNER a ld"
  "SAMEOWNER (a\<lparr>l_len := e\<rparr>) ld = SAMEOWNER a ld" "SAMEOWNER (a\<lparr>l_start := e\<rparr>) ld = SAMEOWNER a ld"
  by (simp_all add: SAMEOWNER_def)

text \<open>Where the forward step stops: what it passed starts below \<open>s\<close>, what follows does not.\<close>

lemma by_start_dropWhile:
  "by_start B \<Longrightarrow> g \<in> set (dropWhile (\<lambda>f. l_start (f_set f) < s) B) \<Longrightarrow> s \<le> l_start (f_set g)"
  by (induction B) (auto split: if_splits)

lemma insflck_settle:
  assumes "insflck t mem (Some (settle (l_start d) (length A) (A @ f # B))) d (A @ f # B, c) = Some ch"
    and "by_start B" and "l_start (f_set f) \<le> l_start d" and "\<forall>g \<in> set B. l_start (f_set f) \<le> l_start (f_set g)"
  obtains new U V where "fst ch = A @ f # U @ new # V" "B = U @ V" "f_set new = d"
    "\<forall>g \<in> set U. l_start (f_set g) < l_start d" "\<forall>g \<in> set V. l_start d \<le> l_start (f_set g)"
proof -
  let ?P = "\<lambda>f. l_start (f_set f) < l_start d"
  let ?n = "if ?P f then length (takeWhile ?P B) else 0"
  have n: "settle (l_start d) (length A) (A @ f # B) = length A + ?n" by (simp add: settle_def)
  let ?new = "\<lparr>f_set = d, f_stat = WakeFlg 0, f_addr = rectot c\<rparr>"
  have new: "fst ch = A @ f # take ?n B @ ?new # drop ?n B"
    using assms(1) unfolding n by (auto simp: insflck_def Let_def split: if_splits)
  have V: "\<forall>g \<in> set (drop ?n B). l_start d \<le> l_start (f_set g)"
  proof (cases "?P f")
    case True
    then show ?thesis using by_start_dropWhile [OF assms(2)] by (auto simp: dropWhile_eq_drop)
  next
    case False
    then show ?thesis using assms(4) by fastforce
  qed
  have U: "\<forall>g \<in> set (take ?n B). l_start (f_set g) < l_start d"
    by (auto simp flip: takeWhile_eq_take dest: set_takeWhileD)
  show thesis by (rule that [OF new _ _ U V]) simp_all
qed

section \<open>The scan of \<^verbatim>\<open>flckadj\<close>\<close>

text \<open>The lock of the owner at the position of the scan, with what is known of the chain around it.\<close>

definition ins_ok :: "flock \<Rightarrow> nat option \<Rightarrow> nat \<Rightarrow> filock list \<Rightarrow> bool" where
  "ins_ok ld ins k L \<longleftrightarrow> l_type ld \<noteq> F_UNLCK \<longrightarrow>
     (case ins of None \<Rightarrow> \<forall>f \<in> set L. l_start ld \<le> l_start (f_set f)
      | Some i \<Rightarrow> i \<le> k \<and> i < length L \<and> l_start (f_set (L ! i)) \<le> l_start ld)"

text \<open>
  The chain \<open>L\<close> scanned up to position \<open>k\<close> with the request grown to \<open>ld\<close>: setting \<open>ld\<close> on what the owner
  holds now gives \<open>T\<close>, and the locks of the others are \<open>others\<close>.
\<close>

definition kept :: "flock \<Rightarrow> filock list \<Rightarrow> filock list \<Rightarrow> bool" where
  "kept ld others L \<longleftrightarrow> by_start L \<and> apart ld L \<and> filter (\<lambda>g. \<not> own ld g) L = others"

definition adj_inv :: "(int \<times> int) set \<Rightarrow> filock list \<Rightarrow> flock \<Rightarrow> nat option \<Rightarrow> nat \<Rightarrow> filock list \<Rightarrow> bool" where
  "adj_inv T others ld ins k L \<longleftrightarrow>
     kept ld others L \<and> l_start ld \<le> l_end ld \<and> (\<forall>f \<in> set (take k L). own ld f \<longrightarrow> l_end (f_set f) < l_start ld)
     \<and> upd ld (cover ld L) = T \<and> ins_ok ld ins k L"

text \<open>The end of the scan: the owner holds nothing on the range of \<open>ld\<close>.\<close>

definition adj_done :: "(int \<times> int) set \<Rightarrow> filock list \<Rightarrow> flock \<Rightarrow> nat option \<Rightarrow> filock list \<Rightarrow> bool" where
  "adj_done T others ld ins L \<longleftrightarrow>
     kept ld others L \<and> l_start ld \<le> l_end ld
     \<and> (\<forall>f \<in> set L. own ld f \<longrightarrow> l_end (f_set f) < l_start ld \<or> l_end ld < l_start (f_set f))
     \<and> upd ld (cover ld L) = T \<and> ins_ok ld ins (length L) L"

lemma cover_upd [simp]: "cover (ld\<lparr>l_len := e\<rparr>) L = cover ld L" "cover (ld\<lparr>l_start := e\<rparr>) L = cover ld L"
  by (simp_all add: cover_def)

lemma kept_upd [simp]: "kept (ld\<lparr>l_len := e\<rparr>) X L = kept ld X L" "kept (ld\<lparr>l_start := e\<rparr>) X L = kept ld X L"
  by (simp_all add: kept_def apart_def)

lemma cover_before: "\<forall>f \<in> set A. own ld f \<longrightarrow> l_end (f_set f) < s \<Longrightarrow> (x, t) \<in> cover ld A \<Longrightarrow> x < s"
  by (fastforce dest!: coverD)

lemma cover_after: "\<forall>f \<in> set B. own ld f \<longrightarrow> e < l_start (f_set f) \<Longrightarrow> (x, t) \<in> cover ld B \<Longrightarrow> e < x"
  by (fastforce dest!: coverD)

text \<open>The scan at an own lock \<open>f\<close>: the facts all the cases use.\<close>

definition at_own :: "(int \<times> int) set \<Rightarrow> filock list \<Rightarrow> flock \<Rightarrow> nat option \<Rightarrow> filock list \<Rightarrow> filock \<Rightarrow> filock list \<Rightarrow> bool" where
  "at_own T others ld ins A f B \<longleftrightarrow> own ld f \<and> adj_inv T others ld ins (length A) (A @ f # B)"

lemma at_ownD:
  assumes "at_own T others ld ins A f B"
  shows "own ld f" "l_start ld \<le> l_end ld" "l_start (f_set f) \<le> l_end (f_set f)" "l_type (f_set f) \<noteq> F_UNLCK"
    "by_start A" "by_start B" "apart ld A" "apart ld B"
    "filter (\<lambda>g. \<not> own ld g) A @ filter (\<lambda>g. \<not> own ld g) B = others"
    "\<forall>g \<in> set A. own ld g \<longrightarrow> l_end (f_set g) < l_start ld"
    "\<forall>g \<in> set A. own ld g \<longrightarrow> l_end (f_set g) < l_start (f_set f)"
    "\<forall>g \<in> set B. own ld g \<longrightarrow> l_end (f_set f) < l_start (f_set g)"
    "\<forall>g \<in> set A. \<forall>h \<in> set B. own ld g \<longrightarrow> own ld h \<longrightarrow> l_end (f_set g) < l_start (f_set h)"
    "\<forall>g \<in> set A. l_start (f_set g) \<le> l_start (f_set f)" "\<forall>g \<in> set B. l_start (f_set f) \<le> l_start (f_set g)"
    "\<forall>g \<in> set A. \<forall>h \<in> set B. l_start (f_set g) \<le> l_start (f_set h)"
    "upd ld (cover ld A \<union> piece (f_set f) \<union> cover ld B) = T" "ins_ok ld ins (length A) (A @ f # B)"
  using assms by (auto simp: at_own_def adj_inv_def kept_def Un_assoc)

text \<open>Deleting the lock, with the request changed to \<open>ld'\<close>.\<close>

lemma ins_ok_del:
  assumes "ins_ok ld ins (length A) (A @ f # B)" and "l_start ld < l_start (f_set f)"
  shows "ins_ok ld ins (length A) (A @ B)"
proof (cases ins)
  case (Some i)
  then have "l_type ld \<noteq> F_UNLCK \<Longrightarrow> i < length A"
    using assms by (auto simp: ins_ok_def le_less)
  then show ?thesis using assms Some by (auto simp: ins_ok_def nth_append)
qed (use assms in \<open>auto simp: ins_ok_def\<close>)

lemma ins_ok_prev:
  assumes "by_start (A @ B)" "\<forall>g \<in> set A. l_start (f_set g) \<le> l_start ld" "\<forall>g \<in> set B. l_start ld \<le> l_start (f_set g)"
  shows "ins_ok ld (prev_of (length A)) (length A) (A @ B)"
  using assms by (cases A rule: rev_cases) (auto simp: ins_ok_def prev_of_def)

lemma kept_del: "at_own T others ld ins A f B \<Longrightarrow> kept ld others (A @ B)"
  using at_ownD [of T others ld ins A f B] by (auto simp: kept_def)

lemma bytes_del:
  assumes "at_own T others ld ins A f B" and "l_start ld \<le> l_start (f_set f)" and "l_end (f_set f) \<le> l_end ld"
  shows "upd ld (cover ld (A @ B)) = T"
proof -
  have "\<And>x t. (x, t) \<in> piece (f_set f) \<Longrightarrow> l_start ld \<le> x \<and> x \<le> l_end ld" using assms(2,3) by (auto simp: piece_def)
  then have "upd ld (cover ld (A @ B)) = upd ld (cover ld A \<union> piece (f_set f) \<union> cover ld B)"
    by (fastforce simp: upd_def)
  then show ?thesis using at_ownD(17) [OF assms(1)] by simp
qed

lemma round_del:
  assumes "at_own T others ld ins A f B" and "l_start ld \<le> l_start (f_set f)" and "l_end (f_set f) \<le> l_end ld"
    and "ins_ok ld ins' (length A) (A @ B)"
  shows "adj_inv T others ld ins' (length A) (A @ B)"
  using kept_del [OF assms(1)] bytes_del [OF assms(1-3)] assms(4) at_ownD [OF assms(1)] by (simp add: adj_inv_def)

lemma done_del:
  assumes "at_own T others ld ins A f B" and "l_start ld \<le> l_start (f_set f)" and "l_end (f_set f) = l_end ld"
    and "ins_ok ld ins' (length A) (A @ B)"
  shows "adj_done T others ld ins' (A @ B)"
proof -
  have "ins_ok ld ins' (length (A @ B)) (A @ B)" using assms(4) by (auto simp: ins_ok_def split: option.splits)
  then show ?thesis
    using kept_del [OF assms(1)] bytes_del [OF assms(1,2)] at_ownD [OF assms(1)] assms(3) by (auto simp: adj_done_def)
qed

lemma round_left:
  assumes "at_own T others ld ins A f B" and "l_start (f_set f) < l_start ld" and "l_start ld - 1 \<le> l_end (f_set f)"
    and "l_end (f_set f) \<le> l_end ld" and "l_type ld = l_type (f_set f)"
  shows "adj_inv T others (ld\<lparr>l_start := l_start (f_set f)\<rparr>) (prev_of (length A)) (length A) (A @ B)"
proof -
  note f = at_ownD [OF assms(1)]
  have "upd (ld\<lparr>l_start := l_start (f_set f)\<rparr>) (cover ld (A @ B)) = upd ld (cover ld A \<union> piece (f_set f) \<union> cover ld B)"
    using assms(2-5) f(4) cover_before [OF f(11)] cover_after [OF f(12)]
    by (fastforce simp: upd_def piece_def)
  moreover have "ins_ok (ld\<lparr>l_start := l_start (f_set f)\<rparr>) (prev_of (length A)) (length A) (A @ B)"
    by (rule ins_ok_prev) (use f in auto)
  ultimately show ?thesis using kept_del [OF assms(1)] f assms(2) by (simp add: adj_inv_def)
qed

lemma done_right:
  assumes "at_own T others ld ins A f B" and "l_start ld < l_start (f_set f)" and "l_start (f_set f) - 1 \<le> l_end ld"
    and "l_end ld < l_end (f_set f)" and "l_type ld = l_type (f_set f)"
  shows "adj_done T others (ld\<lparr>l_len := l_end (f_set f)\<rparr>) ins (A @ B)"
proof -
  note f = at_ownD [OF assms(1)]
  have "upd (ld\<lparr>l_len := l_end (f_set f)\<rparr>) (cover ld (A @ B)) = upd ld (cover ld A \<union> piece (f_set f) \<union> cover ld B)"
    using assms(2-5) f(4) cover_before [OF f(10)] cover_after [OF f(12)]
    by (fastforce simp: upd_def piece_def)
  moreover have "ins_ok (ld\<lparr>l_len := l_end (f_set f)\<rparr>) ins (length (A @ B)) (A @ B)"
    using ins_ok_del [OF f(18) assms(2)] by (auto simp: ins_ok_def split: option.splits)
  ultimately show ?thesis using kept_del [OF assms(1)] f assms(2,4) by (auto simp: adj_done_def)
qed

text \<open>Cutting the lock short at the start of the request.\<close>

lemma round_cut:
  assumes "at_own T others ld ins A f B" and "l_start (f_set f) < l_start ld" and "l_start ld \<le> l_end (f_set f)"
    and "l_end (f_set f) \<le> l_end ld" and g: "f_set g = (f_set f)\<lparr>l_len := l_start ld - 1\<rparr>"
  shows "adj_inv T others ld (Some (length A)) (Suc (length A)) (A @ g # B)"
proof -
  note f = at_ownD [OF assms(1)]
  have "upd ld (cover ld (A @ g # B)) = upd ld (cover ld A \<union> piece (f_set f) \<union> cover ld B)"
    using assms(2-4) f(1,4) g by (fastforce simp: upd_def piece_def)
  moreover have "kept ld others (A @ g # B)" using f assms(2,3) g by (fastforce simp: kept_def)
  ultimately show ?thesis using f assms(2) g by (auto simp: adj_inv_def ins_ok_def)
qed

text \<open>Passing the lock by.\<close>

lemma round_skip:
  assumes "at_own T others ld ins A f B" and "l_end (f_set f) < l_start ld"
    and "ins_ok ld ins' (Suc (length A)) (A @ f # B)"
  shows "adj_inv T others ld ins' (Suc (length A)) (A @ f # B)"
  using assms by (auto simp: adj_inv_def at_own_def)

lemma done_before:
  assumes "at_own T others ld ins A f B" and "l_end ld < l_start (f_set f)"
  shows "adj_done T others ld ins (A @ f # B)"
  using assms at_ownD [OF assms(1)]
  by (fastforce simp: adj_inv_def at_own_def adj_done_def ins_ok_def split: option.splits)

lemma done_within:
  assumes "at_own T others ld ins A f B" and "l_start (f_set f) \<le> l_start ld" and "l_end ld \<le> l_end (f_set f)"
    and "l_type ld = l_type (f_set f)"
  shows "cover ld (A @ f # B) = T"
proof -
  note f = at_ownD [OF assms(1)]
  have "upd ld (cover ld A \<union> piece (f_set f) \<union> cover ld B) = cover ld (A @ f # B)"
    using assms(2-4) f(1,4) cover_before [OF f(10)] cover_after [OF f(12)]
    by (fastforce simp: upd_def piece_def)
  then show ?thesis using f(17) by simp
qed

text \<open>Splitting the lock: the piece after the request is a lock of its own.\<close>

lemma split_own:
  assumes "at_own T others ld ins A f B" and "l_start (f_set f) \<le> l_end ld" and "l_end ld < l_end (f_set f)"
    and "td_piece t mem ld (length A) (A @ f # B, c) = Some ch"
  obtains new U V where "fst ch = A @ f # U @ new # V" "B = U @ V" "f_set new = (f_set f)\<lparr>l_start := l_end ld + 1\<rparr>"
    "\<forall>g \<in> set U. l_start (f_set g) \<le> l_end ld \<and> \<not> own ld g" "\<forall>g \<in> set V. l_end ld < l_start (f_set g)"
proof -
  note f = at_ownD [OF assms(1)]
  let ?d = "(f_set f)\<lparr>l_start := l_end ld + 1\<rparr>"
  have le: "l_start (f_set f) \<le> l_start ?d" using assms(2) by simp
  have "insflck t mem (Some (settle (l_start ?d) (length A) (A @ f # B))) ?d (A @ f # B, c) = Some ch"
    using assms(4) by (simp add: td_piece_def)
  then obtain new U V where L: "fst ch = A @ f # U @ new # V" "B = U @ V" "f_set new = ?d"
    "\<forall>g \<in> set U. l_start (f_set g) < l_start ?d" "\<forall>g \<in> set V. l_start ?d \<le> l_start (f_set g)"
    by (rule insflck_settle [OF _ f(6) le f(15)])
  then have "\<forall>g \<in> set U. l_start (f_set g) \<le> l_end ld \<and> \<not> own ld g" "\<forall>g \<in> set V. l_end ld < l_start (f_set g)"
    using f(12) assms(3) by fastforce+
  then show thesis by (rule that [OF L(1-3)])
qed

lemma done_split_del:
  assumes "at_own T others ld ins A f (U @ V)" and "l_start ld \<le> l_start (f_set f)" "l_start (f_set f) \<le> l_end ld"
    and "l_end ld < l_end (f_set f)" and new: "f_set new = (f_set f)\<lparr>l_start := l_end ld + 1\<rparr>"
    and U: "\<forall>g \<in> set U. l_start (f_set g) \<le> l_end ld \<and> \<not> own ld g" and V: "\<forall>g \<in> set V. l_end ld < l_start (f_set g)"
    and ins: "ins_ok ld ins' (length A) (A @ U @ V)"
  shows "adj_done T others ld ins' (A @ U @ new # V)"
proof -
  note f = at_ownD [OF assms(1)]
  have "upd ld (cover ld (A @ U @ new # V)) = upd ld (cover ld A \<union> piece (f_set f) \<union> cover ld (U @ V))"
    using assms(2-4) f(1,4) new by (fastforce simp: upd_def piece_def)
  moreover have "kept ld others (A @ U @ new # V)" using f assms(2-4) new U V by (fastforce simp: kept_def)
  moreover have "ins_ok ld ins' (length (A @ U @ new # V)) (A @ U @ new # V)"
  proof (cases ins')
    case (Some i)
    have "\<not> l_start (f_set (V ! 0)) \<le> l_start ld" if "V \<noteq> []" using V f(2) that by (cases V) auto
    then show ?thesis using Some ins new f(2) by (auto simp: ins_ok_def nth_append split: if_splits)
  qed (use ins new f(2) in \<open>auto simp: ins_ok_def\<close>)
  ultimately show ?thesis using f U V new by (auto simp: adj_done_def)
qed

lemma done_split_cut:
  assumes "at_own T others ld ins A f (U @ V)" and "l_start (f_set f) < l_start ld"
    and "l_end ld < l_end (f_set f)" and new: "f_set new = (f_set f)\<lparr>l_start := l_end ld + 1\<rparr>"
    and U: "\<forall>g \<in> set U. l_start (f_set g) \<le> l_end ld \<and> \<not> own ld g" and V: "\<forall>g \<in> set V. l_end ld < l_start (f_set g)"
    and g: "f_set g = (f_set f)\<lparr>l_len := l_start ld - 1\<rparr>"
  shows "adj_done T others ld (Some (length A)) (A @ g # U @ new # V)"
proof -
  note f = at_ownD [OF assms(1)]
  have "upd ld (cover ld (A @ g # U @ new # V)) = upd ld (cover ld A \<union> piece (f_set f) \<union> cover ld (U @ V))"
    using assms(2,3) f(1,2,4) new g by (fastforce simp: upd_def piece_def)
  moreover have "kept ld others (A @ g # U @ new # V)"
  proof -
    have "by_start (A @ g # U @ new # V)" using f assms(2,3) new U V g by (fastforce simp: )
    moreover have "apart ld (A @ g # U @ new # V)" using f assms(2,3) new U V g by (fastforce simp: )
    ultimately show ?thesis using f(1,9) new g by (simp add: kept_def)
  qed
  ultimately show ?thesis using f U V new g assms(2) by (auto simp: adj_done_def ins_ok_def)
qed

text \<open>What a round, and then the scan, may end with.\<close>

definition adj_end :: "(int \<times> int) set \<Rightarrow> filock list \<Rightarrow> flock \<Rightarrow> adj \<Rightarrow> filock list \<Rightarrow> bool" where
  "adj_end T others ld r L \<longleftrightarrow>
     (case r of
        AdjSet ld' \<Rightarrow> kept ld others L \<and> cover ld L = T
      | AdjFull ld' \<Rightarrow> kept ld others L
      | AdjEnd ld' ins \<Rightarrow> adj_done T others ld' ins L \<and> (\<forall>a. SAMEOWNER a ld' = SAMEOWNER a ld) \<and> l_type ld' = l_type ld)"

definition round_ok :: "(int \<times> int) set \<Rightarrow> filock list \<Rightarrow> flock \<Rightarrow> adj_round \<Rightarrow> filock list \<Rightarrow> bool" where
  "round_ok T others ld r L \<longleftrightarrow>
     (case r of
        Stop a \<Rightarrow> adj_end T others ld a L
      | Next ld' ins k \<Rightarrow> adj_inv T others ld' ins k L \<and> (\<forall>a. SAMEOWNER a ld' = SAMEOWNER a ld) \<and> l_type ld' = l_type ld)"

lemma round_ok_simps [simp]:
  "round_ok T others ld (Next ld' ins k) L \<longleftrightarrow>
     adj_inv T others ld' ins k L \<and> (\<forall>a. SAMEOWNER a ld' = SAMEOWNER a ld) \<and> l_type ld' = l_type ld"
  "round_ok T others ld (Stop (AdjSet ld')) L \<longleftrightarrow> kept ld others L \<and> cover ld L = T"
  "round_ok T others ld (Stop (AdjFull ld')) L \<longleftrightarrow> kept ld others L"
  "round_ok T others ld (Stop (AdjEnd ld' ins)) L \<longleftrightarrow>
     adj_done T others ld' ins L \<and> (\<forall>a. SAMEOWNER a ld' = SAMEOWNER a ld) \<and> l_type ld' = l_type ld"
  by (simp_all add: round_ok_def adj_end_def)

text \<open>The regions in terms of the ranges, for locks that are not empty.\<close>

lemma regflck_cases:
  assumes "l_start ld \<le> l_end ld" and "l_start f \<le> l_end f"
  shows "regflck ld f = (SBefore, EBefore) \<and> l_end ld < l_start f - 1
    \<or> regflck ld f = (SBefore, EStart) \<and> l_end ld = l_start f - 1
    \<or> regflck ld f = (SBefore, EMiddle) \<and> l_start ld < l_start f \<and> l_start f \<le> l_end ld \<and> l_end ld < l_end f
    \<or> regflck ld f = (SBefore, EEnd) \<and> l_start ld < l_start f \<and> l_end ld = l_end f
    \<or> regflck ld f = (SBefore, EAfter) \<and> l_start ld < l_start f \<and> l_end f < l_end ld
    \<or> regflck ld f = (SStart, EMiddle) \<and> l_start ld = l_start f \<and> l_end ld < l_end f
    \<or> regflck ld f = (SStart, EEnd) \<and> l_start ld = l_start f \<and> l_end ld = l_end f
    \<or> regflck ld f = (SStart, EAfter) \<and> l_start ld = l_start f \<and> l_end f < l_end ld
    \<or> regflck ld f = (SMiddle, EMiddle) \<and> l_start f < l_start ld \<and> l_end ld < l_end f
    \<or> regflck ld f = (SMiddle, EEnd) \<and> l_start f < l_start ld \<and> l_end ld = l_end f
    \<or> regflck ld f = (SMiddle, EAfter) \<and> l_start f < l_start ld \<and> l_start ld \<le> l_end f \<and> l_end f < l_end ld
    \<or> regflck ld f = (SEnd, EAfter) \<and> l_start f < l_start ld \<and> l_start ld - 1 = l_end f
    \<or> regflck ld f = (SAfter, EAfter) \<and> l_start f < l_start ld \<and> l_end f < l_start ld - 1"
  using assms unfolding regflck_def by (simp; linarith)

lemma kept_at: "at_own T others ld ins A f B \<Longrightarrow> kept ld others (A @ f # B)"
  by (simp add: at_own_def adj_inv_def)

lemma ins_prev_start:
  "at_own T others ld ins A f B \<Longrightarrow> l_start ld = l_start (f_set f) \<Longrightarrow> ins_ok ld (prev_of (length A)) (length A) (A @ B)"
  using at_ownD [of T others ld ins A f B] by (intro ins_ok_prev) auto

lemma ins_ok_Suc: "ins_ok ld ins k L \<Longrightarrow> ins_ok ld ins (Suc k) L"
  by (auto simp: ins_ok_def split: option.splits)

text \<open>The three regions that may need the piece after the request.\<close>

lemma adj_own_split:
  assumes "at_own T others ld ins A f B" and "adj_own t mem ld ins (length A) (A @ f # B, c) = (r, ch)"
    and "regflck ld (f_set f) \<in> {(SStart, EMiddle), (SMiddle, EMiddle), (SBefore, EMiddle)}"
    and "l_type ld \<noteq> l_type (f_set f)"
  shows "round_ok T others ld r (fst ch)"
proof (cases "td_piece t mem ld (length A) (A @ f # B, c)")
  case None
  then show ?thesis using assms kept_at [OF assms(1)] by (auto simp: adj_own_def)
next
  case (Some ch1)
  note f = at_ownD [OF assms(1)]
  have e: "l_start (f_set f) \<le> l_end ld" "l_end ld < l_end (f_set f)"
    using regflck_cases [OF f(2,3)] assms(3) f(2) by auto
  obtain new U V where L: "fst ch1 = A @ f # U @ new # V" "B = U @ V" "f_set new = (f_set f)\<lparr>l_start := l_end ld + 1\<rparr>"
    "\<forall>g \<in> set U. l_start (f_set g) \<le> l_end ld \<and> \<not> own ld g" "\<forall>g \<in> set V. l_end ld < l_start (f_set g)"
    by (rule split_own [OF assms(1) e Some])
  have [simp]: "fst (delflck (length A) ch1) = A @ U @ new # V"
    using L(1) delflck_at [of A f "U @ new # V"] by (cases ch1) simp
  note at1 = assms(1) [unfolded L(2)]
  consider (start) "regflck ld (f_set f) = (SStart, EMiddle)" "l_start ld = l_start (f_set f)"
    | (before) "regflck ld (f_set f) = (SBefore, EMiddle)" "l_start ld < l_start (f_set f)"
    | (mid) "regflck ld (f_set f) = (SMiddle, EMiddle)" "l_start (f_set f) < l_start ld"
    using assms(3) regflck_cases [OF f(2,3)] by auto
  then show ?thesis
  proof cases
    case start
    have "ins_ok ld (prev_of (length A)) (length A) (A @ U @ V)" using ins_prev_start [OF at1] start by simp
    from done_split_del [OF at1 _ e L(3-5) this] start show ?thesis
      using assms(2,4) Some by (auto simp: adj_own_def)
  next
    case before
    have "ins_ok ld ins (length A) (A @ U @ V)" using ins_ok_del [OF at_ownD(18) [OF at1]] before by simp
    from done_split_del [OF at1 _ e L(3-5) this] before show ?thesis
      using assms(2,4) Some by (auto simp: adj_own_def)
  next
    case mid
    obtain g where g: "fst (cutflck (length A) (l_start ld - 1) ch1) = A @ g # U @ new # V"
      "f_set g = (f_set f)\<lparr>l_len := l_start ld - 1\<rparr>"
      using cutflck_at [of A "l_start ld - 1" f "U @ new # V" "snd ch1"] by (auto simp flip: L(1))
    from done_split_cut [OF at1 mid(2) e(2) L(3-5) g(2)] show ?thesis
      using assms(2,4) Some mid g(1) by (auto simp: adj_own_def)
  qed
qed

lemma adj_own_same:
  assumes "at_own T others ld ins A f B" and "adj_own t mem ld ins (length A) (A @ f # B, c) = (r, ch)"
    and "l_type ld = l_type (f_set f)"
  shows "round_ok T others ld r (fst ch)"
proof -
  note f = at_ownD [OF assms(1)]
  note r = assms(2,3)
  note [simp] = delflck_at
  from regflck_cases [OF f(2,3)] show ?thesis
  proof (elim disjE conjE, goal_cases)
    case 1 then show ?case using r done_before [OF assms(1)] by (auto simp: adj_own_def)
  next
    case 2 then show ?case using r f(2,3) done_right [OF assms(1)] by (auto simp: adj_own_def)
  next
    case 3 then show ?case using r done_right [OF assms(1)] by (auto simp: adj_own_def)
  next
    case 4 then show ?case using r done_del [OF assms(1)] ins_ok_del [OF f(18)] by (auto simp: adj_own_def)
  next
    case 5 then show ?case using r round_del [OF assms(1)] ins_ok_del [OF f(18)] by (auto simp: adj_own_def)
  next
    case 6 then show ?case using r kept_at [OF assms(1)] done_within [OF assms(1)] by (auto simp: adj_own_def)
  next
    case 7 then show ?case using r kept_at [OF assms(1)] done_within [OF assms(1)] by (auto simp: adj_own_def)
  next
    case 8 then show ?case using r round_del [OF assms(1)] ins_prev_start [OF assms(1)] by (auto simp: adj_own_def)
  next
    case 9 then show ?case using r kept_at [OF assms(1)] done_within [OF assms(1)] by (auto simp: adj_own_def)
  next
    case 10 then show ?case using r kept_at [OF assms(1)] done_within [OF assms(1)] by (auto simp: adj_own_def)
  next
    case 11 then show ?case using r round_left [OF assms(1)] by (auto simp: adj_own_def)
  next
    case 12 then show ?case using r f(2) round_left [OF assms(1)] by (auto simp: adj_own_def)
  next
    case 13
    then have "ins_ok ld (Some (length A)) (Suc (length A)) (A @ f # B)" by (simp add: ins_ok_def)
    with 13 show ?case using r round_skip [OF assms(1)] by (auto simp: adj_own_def)
  qed
qed

lemma adj_own_other:
  assumes "at_own T others ld ins A f B" and "adj_own t mem ld ins (length A) (A @ f # B, c) = (r, ch)"
    and "l_type ld \<noteq> l_type (f_set f)"
  shows "round_ok T others ld r (fst ch)"
proof -
  note f = at_ownD [OF assms(1)]
  note r = assms(2,3)
  note [simp] = delflck_at
  obtain g where g: "fst (cutflck (length A) (l_start ld - 1) (A @ f # B, c)) = A @ g # B"
    "f_set g = (f_set f)\<lparr>l_len := l_start ld - 1\<rparr>" using cutflck_at by blast
  from regflck_cases [OF f(2,3)] show ?thesis
  proof (elim disjE conjE, goal_cases)
    case 1 then show ?case using r done_before [OF assms(1)] by (auto simp: adj_own_def)
  next
    case 2 then show ?case using r done_before [OF assms(1)] by (auto simp: adj_own_def)
  next
    case 3 then show ?case using adj_own_split [OF assms(1,2) _ assms(3)] by simp
  next
    case 4 then show ?case using r round_del [OF assms(1)] ins_ok_del [OF f(18)] by (auto simp: adj_own_def)
  next
    case 5 then show ?case using r round_del [OF assms(1)] ins_ok_del [OF f(18)] by (auto simp: adj_own_def)
  next
    case 6 then show ?case using adj_own_split [OF assms(1,2) _ assms(3)] by simp
  next
    case 7 then show ?case using r round_del [OF assms(1)] ins_prev_start [OF assms(1)] by (auto simp: adj_own_def)
  next
    case 8 then show ?case using r round_del [OF assms(1)] ins_prev_start [OF assms(1)] by (auto simp: adj_own_def)
  next
    case 9 then show ?case using adj_own_split [OF assms(1,2) _ assms(3)] by simp
  next
    case 10 then show ?case using r f(2) round_cut [OF assms(1) _ _ _ g(2)] g(1) by (auto simp: adj_own_def)
  next
    case 11 then show ?case using r round_cut [OF assms(1) _ _ _ g(2)] g(1) by (auto simp: adj_own_def)
  next
    case 12 then show ?case using r round_skip [OF assms(1)] ins_ok_Suc [OF f(18)] by (auto simp: adj_own_def)
  next
    case 13
    then have "ins_ok ld (Some (length A)) (Suc (length A)) (A @ f # B)" by (simp add: ins_ok_def)
    with 13 show ?case using r round_skip [OF assms(1)] by (auto simp: adj_own_def)
  qed
qed

lemma adj_own_round:
  assumes "adj_inv T others ld ins k L" and "k < length L" and "own ld (L ! k)" and "adj_own t mem ld ins k (L, c) = (r, ch)"
  shows "round_ok T others ld r (fst ch)"
proof -
  obtain A f B where L: "L = A @ f # B" "length A = k" "L ! k = f" using chain_at [OF assms(2)] .
  then have "at_own T others ld ins A f B" using assms(1,3) by (simp add: at_own_def)
  then show ?thesis using adj_own_same [of T others ld ins A f B t mem c r ch] adj_own_other [of T others ld ins A f B t mem c r ch]
      assms(4) L by blast
qed

lemma adj_inv_skip:
  assumes "adj_inv T others ld ins k L" and "k < length L" and "\<not> own ld (L ! k)"
  shows "adj_inv T others ld ins (Suc k) L"
  using assms ins_ok_Suc by (auto simp: adj_inv_def take_Suc_conv_app_nth)

lemma adj_inv_end:
  assumes "adj_inv T others ld ins k L" and "length L \<le> k"
  shows "adj_done T others ld ins L"
  using assms by (auto simp: adj_inv_def adj_done_def ins_ok_def split: option.splits)

lemma adj_end_cong: "(\<And>a. SAMEOWNER a ld' = SAMEOWNER a ld) \<Longrightarrow> l_type ld' = l_type ld \<Longrightarrow> adj_end T others ld' = adj_end T others ld"
  by (auto simp: adj_end_def fun_eq_iff kept_def apart_def cover_def split: adj.splits)

lemma flckadj_loop_ok:
  "adj_inv T others ld ins k (fst ch) \<Longrightarrow> flckadj_loop t mem ld ins k ch = (r, ch') \<Longrightarrow> adj_end T others ld r (fst ch')"
proof (induction t mem ld ins k ch arbitrary: r ch' rule: flckadj_loop.induct)
  case (1 t mem ld ins k ch)
  consider (fin) "length (fst ch) \<le> k" | (skip) "k < length (fst ch)" "\<not> own ld (fst ch ! k)"
    | (own1) "k < length (fst ch)" "own ld (fst ch ! k)" by linarith
  then show ?case
  proof cases
    case fin
    then show ?thesis using "1.prems" adj_inv_end by (subst (asm) flckadj_loop.simps) (auto simp: adj_end_def)
  next
    case skip
    then have "flckadj_loop t mem ld ins (Suc k) ch = (r, ch')" using "1.prems"(2) by (subst (asm) flckadj_loop.simps) simp
    then show ?thesis using "1.IH"(2) adj_inv_skip [OF "1.prems"(1) skip] skip by simp
  next
    case own1
    obtain q ch1 where q: "adj_own t mem ld ins k ch = (q, ch1)" by (metis surj_pair)
    then have ok: "round_ok T others ld q (fst ch1)"
      using adj_own_round [OF "1.prems"(1) own1, of t mem "snd ch"] by simp
    show ?thesis
    proof (cases q)
      case (Stop a)
      then show ?thesis using "1.prems"(2) own1 q ok by (subst (asm) flckadj_loop.simps) (auto simp: round_ok_def)
    next
      case (Next ld1 ins1 k1)
      then have "flckadj_loop t mem ld1 ins1 k1 ch1 = (r, ch')"
        using "1.prems"(2) own1 q by (subst (asm) flckadj_loop.simps) simp
      then have "adj_end T others ld1 r (fst ch')" using "1.IH"(1) own1 q Next ok by simp
      then show ?thesis using adj_end_cong [of ld1 ld] ok Next by simp
    qed
  qed
qed

end
