(* ===== verification/Flock_Props.thy ===== *)
theory Flock_Props
  imports Flock_Adjust
begin

text \<open>
  The properties of record locking: \<^verbatim>\<open>flckadj\<close> changes exactly the bytes of the request, \<^verbatim>\<open>blocked\<close> finds
  a conflict iff there is one, and no sequence of calls lets two owners hold conflicting locks on a byte.
\<close>

section \<open>\<^verbatim>\<open>flckadj\<close>\<close>

lemma upd_clear:
  assumes "\<forall>f \<in> set L. own ld f \<longrightarrow> l_end (f_set f) < l_start ld \<or> l_end ld < l_start (f_set f)"
  shows "upd ld (cover ld L) = cover ld L \<union> (if l_type ld = F_UNLCK then {} else piece ld)"
proof -
  have "x < l_start ld \<or> l_end ld < x" if "(x, t) \<in> cover ld L" for x t
    using coverD [OF that] assms by fastforce
  then show ?thesis by (auto simp: upd_def)
qed

lemma adj_done_insert:
  assumes "adj_done T others ld ins L" and "l_type ld \<noteq> F_UNLCK"
    and "insflck t mem (map_option (\<lambda>i. settle (l_start ld) i L) ins) ld (L, c) = Some ch"
  shows "kept ld others (fst ch) \<and> cover ld (fst ch) = T"
proof -
  have K: "by_start L" "apart ld L" "filter (\<lambda>g. \<not> own ld g) L = others" "l_start ld \<le> l_end ld"
    "\<forall>f \<in> set L. own ld f \<longrightarrow> l_end (f_set f) < l_start ld \<or> l_end ld < l_start (f_set f)"
    "upd ld (cover ld L) = T" "ins_ok ld ins (length L) L" using assms(1) by (auto simp: adj_done_def kept_def)
  have C: "cover ld L \<union> piece ld = T"
    using upd_clear [OF K(5)] K(6) assms(2) by simp
  have own1: "own ld g" if "f_set g = ld" for g using that by (simp add: SAMEOWNER_def)
  show ?thesis
  proof (cases ins)
    case None
    then obtain g where g: "fst ch = g # L" "f_set g = ld"
      using assms(3) by (auto simp: insflck_def Let_def split: if_splits)
    moreover have "\<forall>f \<in> set L. l_start ld \<le> l_start (f_set f)" using K(7) None assms(2) by (simp add: ins_ok_def)
    moreover have "l_end ld < l_start (f_set f)" if "f \<in> set L" "own ld f" for f
    proof -
      have "l_start (f_set f) \<le> l_end (f_set f)" using K(2) that by (simp add: apart_def)
      then show ?thesis using that K(5) calculation by fastforce
    qed
    ultimately show ?thesis using K(1-4) C assms(2) own1 [OF g(2)] by (auto simp: kept_def)
  next
    case (Some i)
    then have i: "i < length L" "l_start (f_set (L ! i)) \<le> l_start ld" using K(7) assms(2) by (auto simp: ins_ok_def)
    obtain A f B where L: "L = A @ f # B" "length A = i" "L ! i = f" using chain_at [OF i(1)] .
    have "insflck t mem (Some (settle (l_start ld) (length A) (A @ f # B))) ld (A @ f # B, c) = Some ch"
      using assms(3) Some L by simp
    then obtain g U V where g: "fst ch = A @ f # U @ g # V" "B = U @ V" "f_set g = ld"
      "\<forall>g \<in> set U. l_start (f_set g) < l_start ld" "\<forall>g \<in> set V. l_start ld \<le> l_start (f_set g)"
      by (rule insflck_settle) (use K(1) L i in auto)
    have s: "l_start (f_set h) \<le> l_start ld" if "h \<in> set A \<or> h = f \<or> h \<in> set U" for h
      using that K(1) L i g(4) by fastforce
    have e: "l_end (f_set h) < l_start ld" if "h \<in> set A \<or> h = f \<or> h \<in> set U" "own ld h" for h
      using that K(4,5) s [OF that(1)] L(1) g(2) by fastforce
    have e2: "l_end ld < l_start (f_set h)" if "h \<in> set V" "own ld h" for h
    proof -
      have "l_start (f_set h) \<le> l_end (f_set h)" using K(2) that unfolding L(1) g(2) apart_def by simp
      then show ?thesis using that K(5) g(5) unfolding L(1) g(2) by fastforce
    qed
    have "by_start (A @ f # U @ g # V)" using K(1) s g(2-5) unfolding L(1) g(2) by fastforce
    moreover have "apart ld (A @ f # U @ g # V)"
      using K(2,4) e e2 g(3) own1 [OF g(3)] assms(2) unfolding L(1) g(2) by auto
    moreover have "filter (\<lambda>g. \<not> own ld g) (A @ f # U @ g # V) = others"
      using K(3) own1 [OF g(3)] unfolding L(1) g(2) by auto
    moreover have "cover ld (A @ f # U @ g # V) = T" using C own1 [OF g(3)] g(3) unfolding L(1) g(2) by auto
    ultimately show ?thesis using g(1) by (simp add: kept_def)
  qed
qed

text \<open>What \<^verbatim>\<open>flckadj\<close> expects of its caller.\<close>

definition adj_pre :: "nat option \<Rightarrow> flock \<Rightarrow> filock list \<Rightarrow> bool" where
  "adj_pre insrtp ld L \<longleftrightarrow>
     by_start L \<and> apart ld L \<and> l_start ld \<le> l_end ld
     \<and> (case insrtp of
          None \<Rightarrow> l_type ld \<noteq> F_UNLCK \<longrightarrow> (\<forall>f \<in> set L. l_start ld \<le> l_start (f_set f))
        | Some i \<Rightarrow> (\<forall>f \<in> set (take i L). own ld f \<longrightarrow> l_end (f_set f) < l_start ld)
            \<and> (l_type ld \<noteq> F_UNLCK \<longrightarrow> i < length L \<and> l_start (f_set (L ! i)) \<le> l_start ld))"

lemma adj_pre_inv:
  assumes "adj_pre insrtp ld L"
  shows "adj_inv (upd ld (cover ld L)) (filter (\<lambda>g. \<not> own ld g) L) ld insrtp (case insrtp of None \<Rightarrow> 0 | Some i \<Rightarrow> i) L"
  using assms by (auto simp: adj_pre_def adj_inv_def kept_def ins_ok_def split: option.splits)

lemma kept_cong: "(\<And>a. SAMEOWNER a ld' = SAMEOWNER a ld) \<Longrightarrow> kept ld' = kept ld \<and> cover ld' = cover ld"
  by (auto simp: fun_eq_iff kept_def apart_def cover_def)

lemma flckadj_ok:
  assumes "adj_pre insrtp ld L" and "flckadj t mem insrtp ld (L, c) = (e, ld', L', c')"
  shows "kept ld (filter (\<lambda>g. \<not> own ld g) L) L' \<and> (e = None \<longrightarrow> cover ld L' = upd ld (cover ld L))"
proof -
  let ?k = "case insrtp of None \<Rightarrow> 0 | Some i \<Rightarrow> i"
  let ?T = "upd ld (cover ld L)" and ?O = "filter (\<lambda>g. \<not> own ld g) L"
  obtain r ch1 where r: "flckadj_loop t mem ld insrtp ?k (L, c) = (r, ch1)" by (metis surj_pair)
  have ok: "adj_end ?T ?O ld r (fst ch1)"
    using flckadj_loop_ok [OF _ r, of ?T ?O] adj_pre_inv [OF assms(1)] by simp
  show ?thesis
  proof (cases r)
    case (AdjEnd ld1 ins1)
    then have d: "adj_done ?T ?O ld1 ins1 (fst ch1)" and cg: "\<And>a. SAMEOWNER a ld1 = SAMEOWNER a ld" and ty: "l_type ld1 = l_type ld"
      using ok by (auto simp: adj_end_def)
    note kc = kept_cong [OF cg]
    show ?thesis
    proof (cases "l_type ld1 = F_UNLCK")
      case True
      have "upd ld1 (cover ld1 (fst ch1)) = cover ld1 (fst ch1)"
        using upd_clear [of "fst ch1" ld1] d True by (simp add: adj_done_def)
      then show ?thesis using assms(2) r AdjEnd True d kc by (auto simp: flckadj_def adj_done_def)
    next
      case False
      then show ?thesis
        using assms(2) r AdjEnd d kc adj_done_insert [OF d False, of t mem "snd ch1"]
        by (auto simp: flckadj_def adj_done_def split: option.splits)
    qed
  qed (use assms(2) r ok in \<open>auto simp: flckadj_def adj_end_def\<close>)
qed

section \<open>\<^verbatim>\<open>blocked\<close>\<close>

text \<open>A lock that the request has to wait for.\<close>

definition blocks :: "bool \<Rightarrow> flock \<Rightarrow> filock \<Rightarrow> bool" where
  "blocks xen ld f \<longleftrightarrow>
     \<not> own ld f \<and> l_start (f_set f) \<le> l_end ld \<and> l_start ld \<le> l_end (f_set f) \<and> conflict xen (f_set f) ld"

lemma blocked2_None: "by_start L \<Longrightarrow> blocked2 xen ld k L = None \<longleftrightarrow> (\<forall>f \<in> set L. \<not> blocks xen ld f)"
proof (induction L arbitrary: k)
  case (Cons f L)
  show ?case
  proof (cases "l_end ld < l_start (f_set f)")
    case True
    then have "\<not> blocks xen ld g" if "g \<in> set (f # L)" for g using Cons.prems that by (fastforce simp: blocks_def)
    then show ?thesis using True by simp
  next
    case False
    then show ?thesis using Cons by (auto simp: blocks_def)
  qed
qed simp

lemma blocked2_Some: "blocked2 xen ld k L = Some j \<Longrightarrow> k \<le> j \<and> j - k < length L \<and> blocks xen ld (L ! (j - k))"
proof (induction L arbitrary: k)
  case (Cons f L)
  show ?case
  proof (cases "j = k")
    case False
    then have "blocked2 xen ld (Suc k) L = Some j" using Cons.prems by (auto split: if_splits)
    from Cons.IH [OF this] show ?thesis by (auto simp: nth_Cons' Suc_diff_le)
  next
    case True
    have "\<not> (blocked2 xen ld (Suc k) L = Some j)" using Cons.IH [of "Suc k"] True by auto
    then show ?thesis using Cons.prems True by (auto simp: blocks_def split: if_splits)
  qed
qed simp

lemma blocked1_None:
  "by_start L \<Longrightarrow> l_start ld \<le> l_end ld \<Longrightarrow> fst (blocked1 xen ld k ins L) = None \<longleftrightarrow> (\<forall>f \<in> set L. \<not> blocks xen ld f)"
proof (induction L arbitrary: k ins)
  case (Cons f L)
  then show ?case
    using blocked2_None [of "f # L" xen ld k] by (auto simp del: blocked2.simps simp: blocks_def)
qed simp

lemma blocked1_Some:
  "l_start ld \<le> l_end ld \<Longrightarrow> fst (blocked1 xen ld k ins L) = Some j
    \<Longrightarrow> k \<le> j \<and> j - k < length L \<and> blocks xen ld (L ! (j - k))"
proof (induction L arbitrary: k ins)
  case (Cons f L)
  note b2 = blocked2_Some [of xen ld k "f # L" j]
  consider (two) "fst (blocked1 xen ld k ins (f # L)) = blocked2 xen ld k (f # L)"
    | (here) "j = k" "blocks xen ld f"
    | (on) "fst (blocked1 xen ld (Suc k) (Some k) L) = Some j"
    using Cons.prems by (auto simp del: blocked2.simps simp: blocks_def split: if_splits)
  then show ?case
  proof cases
    case two
    then show ?thesis using b2 Cons.prems by simp
  next
    case here
    then show ?thesis by simp
  next
    case on
    from Cons.IH [OF Cons.prems(1) on] show ?thesis by (auto simp: nth_Cons' Suc_diff_le)
  qed
qed simp

text \<open>Where \<^verbatim>\<open>flckadj\<close> is told to begin.\<close>

lemma blocked1_insrt:
  assumes "by_start L" and "snd (blocked1 xen ld k ins L) = r"
  shows "r = ins \<and> (\<forall>f \<in> set L. l_start ld \<le> l_start (f_set f))
    \<or> (\<exists>i < length L. r = Some (k + i) \<and> l_start (f_set (L ! i)) < l_start ld
        \<and> (\<forall>f \<in> set (take i L). own ld f \<longrightarrow> l_end (f_set f) < l_start ld - 1))"
  using assms
proof (induction L arbitrary: k ins)
  case (Cons f L)
  consider (stop) "l_start ld \<le> l_start (f_set f)" | (here) "l_start (f_set f) < l_start ld" "r = Some k"
    | (on) "l_start (f_set f) < l_start ld" "snd (blocked1 xen ld (Suc k) (Some k) L) = r"
        "own ld f \<longrightarrow> l_end (f_set f) < l_start ld - 1"
    using Cons.prems(2) by (fastforce split: if_splits)
  then show ?case
  proof cases
    case stop
    then show ?thesis using Cons.prems by fastforce
  next
    case here
    then show ?thesis by (intro disjI2 exI [of _ 0]) simp
  next
    case on
    have "by_start L" using Cons.prems(1) by simp
    from Cons.IH [OF this on(2)] show ?thesis
    proof (elim disjE exE conjE)
      assume "r = Some k"
      then show ?thesis using on by (intro disjI2 exI [of _ 0]) simp
    next
      fix i assume "i < length L" "r = Some (Suc k + i)" "l_start (f_set (L ! i)) < l_start ld"
        "\<forall>f\<in>set (take i L). own ld f \<longrightarrow> l_end (f_set f) < l_start ld - 1"
      then show ?thesis using on by (intro disjI2 exI [of _ "Suc i"]) simp
    qed
  qed
qed simp

lemma blocked_pre:
  assumes "by_start L" "apart ld L" "l_start ld \<le> l_end ld" "blocked xen L ld = (b, insrt)"
  shows "adj_pre insrt ld L"
  using blocked1_insrt [OF assms(1), of xen ld 0 None insrt] assms
  by (auto simp: adj_pre_def blocked_def split: option.splits)

section \<open>The scan only gives up bytes\<close>

text \<open>Until the final insertion no step of \<^verbatim>\<open>flckadj\<close> adds a byte to what the owner holds.\<close>

lemma cover_parts: "cover o1 (take k L) \<subseteq> cover o1 L" "cover o1 (drop k L) \<subseteq> cover o1 L"
  by (auto simp: cover_def intro: in_set_takeD in_set_dropD)

lemmas cover_partsD = subsetD [OF cover_parts(1)] subsetD [OF cover_parts(2)]

lemma cover_delflck: "cover o1 (fst (delflck k ch)) \<subseteq> cover o1 (fst ch)"
  by (auto simp: delflck_def split: prod.splits dest: cover_partsD)

lemma cover_cutflck: "e \<le> l_end (f_set (fst ch ! k)) \<Longrightarrow> cover o1 (fst (cutflck k e ch)) \<subseteq> cover o1 (fst ch)"
proof (cases "k < length (fst ch)")
  case True
  assume "e \<le> l_end (f_set (fst ch ! k))"
  moreover obtain A f B where "fst ch = A @ f # B" "length A = k" "fst ch ! k = f" using chain_at [OF True] .
  moreover obtain g where "fst (cutflck (length A) e (A @ f # B, snd ch)) = A @ g # B" "f_set g = (f_set f)\<lparr>l_len := e\<rparr>"
    using cutflck_at by blast
  ultimately show ?thesis by (cases ch) (auto simp: piece_def)
qed (auto simp: cutflck_def list_update_beyond split: prod.splits)

lemma cover_insflck:
  "insflck t mem pos d ch = Some ch' \<Longrightarrow> cover o1 (fst ch') \<subseteq> cover o1 (fst ch) \<union> (if SAMEOWNER d o1 then piece d else {})"
  by (auto simp: insflck_def Let_def split: if_splits prod.splits dest: cover_partsD)

lemma cover_td_piece:
  assumes "td_piece t mem ld k ch = Some ch'" and "l_start (f_set (fst ch ! k)) \<le> l_end ld" and "k < length (fst ch)"
  shows "cover o1 (fst ch') \<subseteq> cover o1 (fst ch)"
proof -
  let ?td = "(f_set (fst ch ! k))\<lparr>l_start := l_end ld + 1\<rparr>"
  have "(if SAMEOWNER ?td o1 then piece ?td else {}) \<subseteq> cover o1 (fst ch)"
    using assms(2) nth_mem [OF assms(3)] by (auto simp: piece_def cover_def intro!: bexI [of _ "fst ch ! k"])
  then show ?thesis
    using cover_insflck [of t mem "Some (settle (l_start ?td) k (fst ch))" ?td ch ch' o1] assms(1)
    by (cases ch) (auto simp: td_piece_def Let_def)
qed

lemma td_piece_nth:
  assumes "td_piece t mem ld k ch = Some ch'" and "k < length (fst ch)"
  shows "fst ch' ! k = fst ch ! k \<and> k < length (fst ch')"
  using assms by (auto simp: td_piece_def insflck_def Let_def settle_def nth_append split: prod.splits if_splits)

lemma regflck_mid:
  "regflck ld f = (SMiddle, e) \<Longrightarrow> l_start ld - 1 \<le> l_end f" "regflck ld f = (b, EMiddle) \<Longrightarrow> l_start f \<le> l_end ld"
  by (auto simp: regflck_def split: if_splits)

lemma cover_adj_own:
  assumes "adj_own t mem ld ins k ch = (r, ch')" and "k < length (fst ch)"
  shows "cover o1 (fst ch') \<subseteq> cover o1 (fst ch)"
proof -
  let ?f = "f_set (fst ch ! k)"
  have del: "cover o1 (fst (delflck k ch)) \<subseteq> cover o1 (fst ch)" by (rule cover_delflck)
  have td: "cover o1 (fst (delflck k ch1)) \<subseteq> cover o1 (fst ch)"
    and cut2: "b = SMiddle \<Longrightarrow> cover o1 (fst (cutflck k (l_start ld - 1) ch1)) \<subseteq> cover o1 (fst ch)"
    if "td_piece t mem ld k ch = Some ch1" "regflck ld ?f = (b, EMiddle)" for ch1 b
    using cover_td_piece [OF that(1) regflck_mid(2) [OF that(2)] assms(2), of o1] td_piece_nth [OF that(1) assms(2)]
      cover_delflck [of o1 k ch1] cover_cutflck [of "l_start ld - 1" ch1 k o1] regflck_mid(1) [of ld ?f EMiddle] that(2)
    by auto
  have cut: "cover o1 (fst (cutflck k (l_start ld - 1) ch)) \<subseteq> cover o1 (fst ch)" if "regflck ld ?f = (SMiddle, e)" for e
    by (rule cover_cutflck) (use regflck_mid(1) [OF that] in simp)
  obtain b e where be: "regflck ld ?f = (b, e)" by fastforce
  show ?thesis
    using assms(1) be del td cut cut2
    by (cases b; cases e) (simp_all add: adj_own_def Let_def split: if_splits option.splits, (blast | fastforce)+)
qed

lemma cover_flckadj_loop: "flckadj_loop t mem ld ins k ch = (r, ch') \<Longrightarrow> cover o1 (fst ch') \<subseteq> cover o1 (fst ch)"
proof (induction t mem ld ins k ch arbitrary: r ch' rule: flckadj_loop.induct)
  case (1 t mem ld ins k ch)
  obtain q ch1 where q: "adj_own t mem ld ins k ch = (q, ch1)" by (metis surj_pair)
  show ?case
  proof (cases "length (fst ch) \<le> k \<or> \<not> own ld (fst ch ! k)")
    case True
    then show ?thesis using "1.prems" "1.IH"(2) by (subst (asm) flckadj_loop.simps) (auto split: if_splits)
  next
    case False
    then have le: "cover o1 (fst ch1) \<subseteq> cover o1 (fst ch)" using cover_adj_own [OF q] by simp
    show ?thesis
    proof (cases q)
      case (Stop a)
      then show ?thesis using "1.prems" False q le by (subst (asm) flckadj_loop.simps) simp
    next
      case (Next ld1 ins1 k1)
      then have "flckadj_loop t mem ld1 ins1 k1 ch1 = (r, ch')" using "1.prems" False q by (subst (asm) flckadj_loop.simps) simp
      then have "cover o1 (fst ch') \<subseteq> cover o1 (fst ch1)" using "1.IH"(1) False q Next by simp
      with le show ?thesis by simp
    qed
  qed
qed

lemma flckadj_error_shrinks:
  assumes "flckadj t mem ins ld ch = (Some e, ld', ch')"
  shows "cover o1 (fst ch') \<subseteq> cover o1 (fst ch) \<and> e = ENOLCK"
proof -
  obtain r ch1 where r: "flckadj_loop t mem ld ins (case ins of None \<Rightarrow> 0 | Some i \<Rightarrow> i) ch = (r, ch1)" by (metis surj_pair)
  from cover_flckadj_loop [OF this, of o1] show ?thesis
    using assms r by (auto simp: flckadj_def split: adj.splits option.splits if_splits)
qed

section \<open>Chains without conflicts\<close>

definition locks_apart :: "filock list \<Rightarrow> bool" where
  "locks_apart L \<longleftrightarrow> sorted_wrt (\<lambda>f g. SAMEOWNER (f_set f) (f_set g) \<longrightarrow> l_end (f_set f) < l_start (f_set g)) L"

definition overlap :: "flock \<Rightarrow> flock \<Rightarrow> bool" where
  "overlap a b \<longleftrightarrow> l_start a \<le> l_end b \<and> l_start b \<le> l_end a"

definition compatible :: "flock \<Rightarrow> flock \<Rightarrow> bool" where
  "compatible a b \<longleftrightarrow> SAMEOWNER a b \<or> \<not> overlap a b \<or> (l_type a = F_RDLCK \<and> l_type b = F_RDLCK)"

definition lock_ok :: "filock \<Rightarrow> bool" where
  "lock_ok f \<longleftrightarrow> l_start (f_set f) \<le> l_end (f_set f) \<and> (l_type (f_set f) = F_RDLCK \<or> l_type (f_set f) = F_WRLCK)"

definition chain_ok :: "filock list \<Rightarrow> bool" where
  "chain_ok L \<longleftrightarrow> by_start L \<and> locks_apart L \<and> (\<forall>f \<in> set L. lock_ok f)
     \<and> (\<forall>f \<in> set L. \<forall>g \<in> set L. compatible (f_set f) (f_set g))"

lemma lock_types: "F_RDLCK \<noteq> F_UNLCK" "F_WRLCK \<noteq> F_UNLCK" "F_RDLCK \<noteq> F_WRLCK"
  by (simp_all add: F_RDLCK_def F_WRLCK_def F_UNLCK_def)

lemma SAMEOWNER_refl [simp]: "SAMEOWNER a a"
  by (simp add: SAMEOWNER_def)

lemma SAMEOWNER_sym: "SAMEOWNER a b \<Longrightarrow> SAMEOWNER b a"
  by (simp add: SAMEOWNER_def)

lemma SAMEOWNER_trans: "SAMEOWNER a b \<Longrightarrow> SAMEOWNER b d \<Longrightarrow> SAMEOWNER a d"
  by (simp add: SAMEOWNER_def)

lemma chain_ok_apart:
  assumes "chain_ok L"
  shows "apart o1 L"
proof -
  have "sorted_wrt (\<lambda>f g. own o1 f \<longrightarrow> own o1 g \<longrightarrow> l_end (f_set f) < l_start (f_set g)) L"
    using assms unfolding chain_ok_def locks_apart_def
    by (elim conjE sorted_wrt_mono_rel [rotated]) (auto simp: SAMEOWNER_def)
  then show ?thesis using assms lock_types by (auto simp: apart_def chain_ok_def lock_ok_def)
qed

lemma sorted_wrt_filter_iff: "sorted_wrt P (filter q L) \<longleftrightarrow> sorted_wrt (\<lambda>a b. q a \<longrightarrow> q b \<longrightarrow> P a b) L"
  by (induction L) auto

text \<open>The locks of one owner replaced, the others as they were.\<close>

lemma locks_apart_kept:
  assumes "locks_apart L" and "kept ld (filter (\<lambda>g. \<not> own ld g) L) L'"
  shows "locks_apart L'"
proof -
  let ?P = "\<lambda>f g. SAMEOWNER (f_set f) (f_set g) \<longrightarrow> l_end (f_set f) < l_start (f_set g)"
  have "sorted_wrt ?P (filter (\<lambda>g. \<not> own ld g) L)" using assms(1) by (simp add: locks_apart_def sorted_wrt_filter)
  then have "sorted_wrt (\<lambda>f g. \<not> own ld f \<longrightarrow> \<not> own ld g \<longrightarrow> ?P f g) L'"
    using assms(2) by (simp add: kept_def flip: sorted_wrt_filter_iff)
  moreover have "sorted_wrt (\<lambda>f g. own ld f \<longrightarrow> own ld g \<longrightarrow> l_end (f_set f) < l_start (f_set g)) L'"
    using assms(2) by (simp add: kept_def apart_def)
  ultimately have "sorted_wrt (\<lambda>f g. (\<not> own ld f \<longrightarrow> \<not> own ld g \<longrightarrow> ?P f g)
      \<and> (own ld f \<longrightarrow> own ld g \<longrightarrow> l_end (f_set f) < l_start (f_set g))) L'"
    by (induction L') auto
  then show ?thesis unfolding locks_apart_def
    by (rule sorted_wrt_mono_rel [rotated]) (metis SAMEOWNER_sym SAMEOWNER_trans)
qed

text \<open>Bytes of compatible locks, and back.\<close>

lemma chain_ok_bytes:
  assumes "chain_ok L" and "(x, t) \<in> cover ld L" and "g \<in> set L" "\<not> own ld g" "l_start (f_set g) \<le> x" "x \<le> l_end (f_set g)"
  shows "t = F_RDLCK \<and> l_type (f_set g) = F_RDLCK"
proof -
  obtain f where f: "f \<in> set L" "own ld f" "l_start (f_set f) \<le> x" "x \<le> l_end (f_set f)" "t = l_type (f_set f)"
    using coverD [OF assms(2)] by auto
  then have "overlap (f_set f) (f_set g)" using assms(5,6) by (simp add: overlap_def)
  moreover have "\<not> SAMEOWNER (f_set f) (f_set g)" using f(2) assms(4) by (metis SAMEOWNER_sym SAMEOWNER_trans)
  ultimately show ?thesis using assms(1,3) f by (auto simp: chain_ok_def compatible_def)
qed

definition grantable :: "flock \<Rightarrow> filock list \<Rightarrow> bool" where
  "grantable ld L \<longleftrightarrow> l_type ld = F_UNLCK
     \<or> ((l_type ld = F_RDLCK \<or> l_type ld = F_WRLCK) \<and> (\<forall>g \<in> set L. \<not> blocks False ld g))"

lemma chain_ok_kept:
  assumes "chain_ok L" and K: "kept ld (filter (\<lambda>g. \<not> own ld g) L) L'" and G: "grantable ld L"
    and C: "cover ld L' \<subseteq> cover ld L \<union> (if l_type ld = F_UNLCK then {} else piece ld)"
  shows "chain_ok L'"
proof -
  have old: "g \<in> set L" if "g \<in> set L'" "\<not> own ld g" for g
    using that K by (auto simp: kept_def filter_eq_Cons_iff dest!: arg_cong [where f = set])
  have byte: "(x, l_type (f_set f)) \<in> cover ld L'"
    if "f \<in> set L'" "own ld f" "l_start (f_set f) \<le> x" "x \<le> l_end (f_set f)" for f x
    using that by (auto simp: cover_def piece_def intro!: bexI [of _ f])
  have ne: "l_start (f_set f) \<le> l_end (f_set f)" if "f \<in> set L'" "own ld f" for f
    using that K by (auto simp: kept_def apart_def)
  have lock: "lock_ok f" if "f \<in> set L'" for f
  proof (cases "own ld f")
    case True
    have "(l_start (f_set f), l_type (f_set f)) \<in> cover ld L'" using byte ne that True by simp
    then have "(l_start (f_set f), l_type (f_set f)) \<in> cover ld L \<or> l_type ld \<noteq> F_UNLCK \<and> l_type (f_set f) = l_type ld"
      using C by (auto simp: piece_def split: if_splits)
    then show ?thesis
      using ne that True G assms(1) by (auto simp: lock_ok_def grantable_def chain_ok_def dest!: coverD)
  qed (use assms(1) old that in \<open>auto simp: chain_ok_def\<close>)
  have cross: "l_type (f_set f) = F_RDLCK \<and> l_type (f_set g) = F_RDLCK"
    if fg: "f \<in> set L'" "own ld f" "g \<in> set L'" "\<not> own ld g" "overlap (f_set f) (f_set g)" for f g
  proof -
    obtain x where x: "l_start (f_set f) \<le> x" "x \<le> l_end (f_set f)" "l_start (f_set g) \<le> x" "x \<le> l_end (f_set g)"
      using fg(5) ne [OF fg(1,2)] lock [OF fg(3)] that [of "max (l_start (f_set f)) (l_start (f_set g))"]
      by (auto simp: overlap_def lock_ok_def)
    have "(x, l_type (f_set f)) \<in> cover ld L \<or> l_type ld \<noteq> F_UNLCK \<and> (x, l_type (f_set f)) \<in> piece ld"
      using byte [OF fg(1,2) x(1,2)] C by (auto split: if_splits)
    then show ?thesis
    proof (elim disjE conjE)
      assume "(x, l_type (f_set f)) \<in> cover ld L"
      then show ?thesis using chain_ok_bytes [OF assms(1) _ old [OF fg(3,4)] fg(4) x(3,4)] by simp
    next
      assume "l_type ld \<noteq> F_UNLCK" "(x, l_type (f_set f)) \<in> piece ld"
      then show ?thesis using G old [OF fg(3,4)] fg(4) x(3,4) lock [OF fg(3)]
        by (fastforce simp: grantable_def blocks_def conflict_def piece_def lock_ok_def)
    qed
  qed
  have "compatible (f_set f) (f_set g)" if "f \<in> set L'" "g \<in> set L'" for f g
  proof (cases "own ld f = own ld g")
    case True
    then show ?thesis
      using assms(1) old [of f] old [of g] that SAMEOWNER_trans SAMEOWNER_sym
      by (cases "own ld f") (auto simp: chain_ok_def compatible_def SAMEOWNER_def)
  next
    case False
    then show ?thesis using cross [of f g] cross [of g f] that by (auto simp: compatible_def overlap_def)
  qed
  then show ?thesis using lock locks_apart_kept [OF _ K] assms(1) K by (simp add: chain_ok_def kept_def)
qed

lemma flckadj_chain_ok:
  assumes "chain_ok L" and "adj_pre ins ld L" and "grantable ld L" and "flckadj t mem ins ld (L, c) = (e, ld', L', c')"
  shows "chain_ok L'"
proof (rule chain_ok_kept [OF assms(1) _ assms(3)])
  show "kept ld (filter (\<lambda>g. \<not> own ld g) L) L'" using flckadj_ok [OF assms(2,4)] by simp
  show "cover ld L' \<subseteq> cover ld L \<union> (if l_type ld = F_UNLCK then {} else piece ld)"
  proof (cases e)
    case None
    then show ?thesis using flckadj_ok [OF assms(2,4)] by (auto simp: upd_def)
  next
    case (Some x)
    then show ?thesis using flckadj_error_shrinks [of t mem ins ld "(L, c)" x ld' "(L', c')"] assms(4) by auto
  qed
qed

end
