(* ===== verification/Flock_Calls.thy ===== *)
theory Flock_Calls
  imports Flock_Props
begin

text \<open>
  The calls on record locks: the abstract view of \<^verbatim>\<open>reclock\<close> as a table of bytes per owner, mutual exclusion
  over all sequences of calls, the deadlock search, the range arithmetic and the clean-up at exit.
\<close>

section \<open>\<^verbatim>\<open>reclock\<close> keeps the chain free of conflicts\<close>

lemma chain_ok_map:
  "chain_ok L \<longleftrightarrow>
     sorted_wrt (\<lambda>a b. l_start a \<le> l_start b) (map f_set L)
     \<and> sorted_wrt (\<lambda>a b. SAMEOWNER a b \<longrightarrow> l_end a < l_start b) (map f_set L)
     \<and> (\<forall>a \<in> set (map f_set L). l_start a \<le> l_end a \<and> (l_type a = F_RDLCK \<or> l_type a = F_WRLCK))
     \<and> (\<forall>a \<in> set (map f_set L). \<forall>b \<in> set (map f_set L). compatible a b)"
  by (simp add: chain_ok_def by_start_def locks_apart_def lock_ok_def sorted_wrt_map)

lemma chain_ok_stat:
  assumes "f_set g = f_set (L ! k)"
  shows "chain_ok (L[k := g]) = chain_ok L"
proof -
  have "map f_set (L[k := g]) = map f_set L"
    by (metis assms list_update_id map_update)
  then show ?thesis unfolding chain_ok_map by simp
qed

lemma chain_ok_filter: "chain_ok L \<Longrightarrow> chain_ok (filter P L)"
  by (simp add: chain_ok_def by_start_def locks_apart_def sorted_wrt_filter)

lemma blocks_xen: "blocks False ld f \<Longrightarrow> blocks xen ld f"
  by (auto simp: blocks_def conflict_def)

lemma blocked_None_grantable:
  assumes "chain_ok L" "l_start ld \<le> l_end ld" "blocked xen L ld = (None, insrt)" "l_type ld = F_RDLCK \<or> l_type ld = F_WRLCK"
  shows "grantable ld L \<and> adj_pre insrt ld L"
proof -
  have b: "by_start L" using assms(1) by (simp add: chain_ok_def)
  have "\<forall>f \<in> set L. \<not> blocks xen ld f"
    using blocked1_None [OF b assms(2), of xen 0 None] assms(3) by (simp add: blocked_def)
  then have "\<forall>f \<in> set L. \<not> blocks False ld f" using blocks_xen by blast
  then show ?thesis
    using assms(4) blocked_pre [OF b chain_ok_apart [OF assms(1)] assms(2,3)] by (simp add: grantable_def)
qed

lemma unlock_pre:
  assumes "chain_ok L" "l_start ld \<le> l_end ld" "l_type ld = F_UNLCK"
  shows "grantable ld L \<and> adj_pre (if L = [] then None else Some 0) ld L"
  using assms chain_ok_apart [OF assms(1)] by (simp add: grantable_def adj_pre_def chain_ok_def)

lemma clean_sleepers_frame [simp]: "v_filocks (clean_sleepers ld st) = v_filocks st"
  by (simp add: clean_sleepers_def split: prod.splits)

lemma put_sleep_frame: "put_sleep t mem ld f st = Some (a, st') \<Longrightarrow> v_filocks st' = v_filocks st"
  by (auto simp: put_sleep_def split: option.splits)

lemma end_sleep_frame: "end_sleep a st = Some st1 \<Longrightarrow> v_filocks st1 = v_filocks st"
  by (auto simp: end_sleep_def Let_def split: option.splits prod.splits)

lemma adjust_chain_ok:
  assumes "chain_ok (v_filocks st)" "grantable ld (v_filocks st)" "adj_pre ins ld (v_filocks st)" "adjust t mem ins ld st = (e, ld1, st1)"
  shows "chain_ok (v_filocks st1)"
  using assms flckadj_chain_ok [of "v_filocks st" ins ld t mem "flckinfo st"] by (auto simp: adjust_def split: prod.splits)

lemma reclock_wait_chain_ok:
  assumes "chain_ok (v_filocks st)" "reclock_wait t mem cmd ld k st = Some (r, ld1, st1)"
  shows "chain_ok (v_filocks st1)"
  using assms by (auto simp: reclock_wait_def Let_def chain_ok_stat dest: put_sleep_frame
      split: option.splits bool.splits if_splits)

lemma reclock_pass_chain_ok:
  assumes "chain_ok (v_filocks st)" "l_start ld \<le> l_end ld" "reclock_pass t mem x cmd ld st = Some (r, ld1, st1)"
  shows "chain_ok (v_filocks st1)"
proof -
  note adj = adjust_chain_ok [OF assms(1)]
  consider (lock) "l_type ld = F_RDLCK \<or> l_type ld = F_WRLCK" | (unlock) "l_type ld = F_UNLCK"
    | (bad) "\<not> (l_type ld = F_RDLCK \<or> l_type ld = F_WRLCK)" "l_type ld \<noteq> F_UNLCK" by blast
  then show ?thesis
  proof cases
    case lock
    obtain b insrt where b: "blocked (xenix_block x ld) (v_filocks st) ld = (b, insrt)" by fastforce
    show ?thesis
    proof (cases b)
      case None
      then have G: "grantable ld (v_filocks st)" "adj_pre insrt ld (v_filocks st)"
        using blocked_None_grantable [OF assms(1,2) _ lock] b by auto
      show ?thesis using assms(1,3) lock b None adj [OF G] by (auto simp: reclock_pass_def split: prod.splits if_splits)
    next
      case (Some k)
      then show ?thesis using assms lock b reclock_wait_chain_ok by (auto simp: reclock_pass_def split: if_splits)
    qed
  next
    case unlock
    then show ?thesis using assms lock_types unlock_pre [OF assms(1,2)] adj
      by (auto simp: reclock_pass_def split: prod.splits if_splits option.splits)
  next
    case bad
    then show ?thesis using assms by (auto simp: reclock_pass_def)
  qed
qed

section \<open>The range of a request\<close>

definition is_long :: "int \<Rightarrow> bool" where
  "is_long n \<longleftrightarrow> - 2147483648 \<le> n \<and> n \<le> 2147483647"

lemma is_long_to_long [simp]: "is_long (to_long n)"
  by (simp add: is_long_def to_long_def)

lemma convoff_whence0:
  "convoff attr 0 offset ld = (None, ld1) \<Longrightarrow> 0 \<le> l_start ld1 \<and> l_whence ld1 = 0 \<and> l_len ld1 = l_len ld
     \<and> l_type ld1 = l_type ld \<and> l_sysid ld1 = l_sysid ld \<and> l_pid ld1 = l_pid ld"
  by (auto simp: convoff_def Let_def split: sum.splits if_splits)

lemma reclock_enter_ok:
  assumes "reclock_enter x attr cmd flag offset ld = (None, ld1)"
  shows "0 \<le> l_start ld1 \<and> l_start ld1 \<le> l_end ld1 \<and> l_end ld1 \<le> MAXEND"
proof -
  obtain e ld0 where c: "convoff attr 0 offset ld = (e, ld0)" by fastforce
  then have "e = None" and l: "0 \<le> l_len ld0"
    and ld1: "ld1 = ld0\<lparr>l_len := (if l_len ld0 = 0 then MAXEND else to_long (l_len ld0 + (l_start ld0 - 1)))\<rparr>"
    and le: "l_start ld1 \<le> l_end ld1"
    using assms by (auto simp: reclock_enter_def Let_def split: if_splits option.splits)
  have "0 \<le> l_start ld0" using convoff_whence0 c \<open>e = None\<close> by simp
  moreover have "l_end ld1 \<le> MAXEND"
    using is_long_to_long [of "l_len ld0 + (l_start ld0 - 1)"] ld1 by (simp add: MAXEND_def is_long_def)
  ultimately show ?thesis using ld1 le by simp
qed

section \<open>Sequences of calls\<close>

inductive fl_step :: "rlstate \<Rightarrow> rlstate \<Rightarrow> bool" where
  call: "reclock t mem x attr cmd flag offset ld st = Some (r, ld', st') \<Longrightarrow> fl_step st st'"
| resume: "l_start ld \<le> l_end ld \<Longrightarrow> reclock_resume t mem x attr cmd whence offset intr a ld st = Some (r, ld', st')
     \<Longrightarrow> fl_step st st'"
| check: "chklock t mem x attr epid sysid iomode offset len ndelay st = Some (r, st') \<Longrightarrow> fl_step st st'"
| exit: "cleanlocks pid sysid (v_filocks st, flckinfo st) = (L, c) \<Longrightarrow> fl_step st (st\<lparr>v_filocks := L, flckinfo := c\<rparr>)"

inductive fl_reach :: "rlstate \<Rightarrow> rlstate \<Rightarrow> bool" for st0 :: rlstate where
  start: "fl_reach st0 st0"
| step: "fl_reach st0 st \<Longrightarrow> fl_step st st' \<Longrightarrow> fl_reach st0 st'"

lemma reclock_chain_ok:
  assumes "chain_ok (v_filocks st)" "reclock t mem x attr cmd flag offset ld st = Some (r, ld', st')"
  shows "chain_ok (v_filocks st')"
proof -
  obtain e ld1 where e: "reclock_enter x attr cmd flag offset ld = (e, ld1)" by fastforce
  show ?thesis
  proof (cases e)
    case None
    then have "l_start ld1 \<le> l_end ld1" using reclock_enter_ok e by blast
    from reclock_pass_chain_ok [OF assms(1) this] show ?thesis
      using assms(2) e None by (fastforce simp: reclock_def split: option.splits rl_out.splits prod.splits)
  qed (use assms e in \<open>simp add: reclock_def\<close>)
qed

lemma reclock_resume_chain_ok:
  assumes "chain_ok (v_filocks st)" "l_start ld \<le> l_end ld"
    "reclock_resume t mem x attr cmd whence offset intr a ld st = Some (r, ld', st')"
  shows "chain_ok (v_filocks st')"
proof -
  obtain st1 where st1: "end_sleep a st = Some st1" using assms(3) by (auto simp: reclock_resume_def split: option.splits)
  then have ok: "chain_ok (v_filocks st1)" using assms(1) end_sleep_frame by simp
  from reclock_pass_chain_ok [OF ok assms(2)] show ?thesis
    using ok assms(3) st1 by (fastforce simp: reclock_resume_def split: if_splits option.splits rl_out.splits prod.splits)
qed

lemma cleanlocks_loop_fst:
  "k \<le> length (fst ch) \<Longrightarrow> fst (cleanlocks_loop pid sysid k ch) =
     take k (fst ch) @ filter (\<lambda>f. \<not> ((l_pid (f_set f) = pid \<or> pid = -1) \<and> l_sysid (f_set f) = sysid)) (drop k (fst ch))"
proof (induction pid sysid k ch rule: cleanlocks_loop.induct)
  case (1 pid sysid k ch)
  show ?case
  proof (cases "length (fst ch) \<le> k")
    case True
    then show ?thesis by (subst cleanlocks_loop.simps) simp
  next
    case False
    then have d: "drop k (fst ch) = fst ch ! k # drop (Suc k) (fst ch)" "take (Suc k) (fst ch) = take k (fst ch) @ [fst ch ! k]"
      by (simp_all add: Cons_nth_drop_Suc take_Suc_conv_app_nth)
    have "fst (delflck k ch) = take k (fst ch) @ drop (Suc k) (fst ch)" by (cases ch) (simp add: delflck_def)
    then show ?thesis using 1 False by (subst cleanlocks_loop.simps) (auto simp: d)
  qed
qed

lemma cleanlocks_fst:
  "fst (cleanlocks pid sysid ch) =
     filter (\<lambda>f. \<not> ((l_pid (f_set f) = pid \<or> pid = -1) \<and> l_sysid (f_set f) = sysid)) (fst ch)"
  by (simp add: cleanlocks_def cleanlocks_loop_fst)

lemma fl_step_chain_ok: "fl_step st st' \<Longrightarrow> chain_ok (v_filocks st) \<Longrightarrow> chain_ok (v_filocks st')"
proof (induction rule: fl_step.induct)
  case (check t mem x attr epid sysid iomode offset len ndelay st r st')
  then show ?case by (fastforce simp: chklock_def dest: reclock_chain_ok split: option.splits rl_out.splits)
next
  case (exit pid sysid st L c)
  then show ?case using cleanlocks_fst [of pid sysid "(v_filocks st, flckinfo st)"] by (simp add: chain_ok_filter)
qed (auto dest: reclock_chain_ok reclock_resume_chain_ok)

lemma fl_reach_chain_ok: "fl_reach st0 st \<Longrightarrow> chain_ok (v_filocks st0) \<Longrightarrow> chain_ok (v_filocks st)"
  by (induction rule: fl_reach.induct) (auto dest: fl_step_chain_ok)

section \<open>The properties\<close>

lemma cover_other:
  assumes "kept ld (filter (\<lambda>g. \<not> own ld g) L) L'" and "\<not> SAMEOWNER o1 ld"
  shows "cover o1 L' = cover o1 L"
proof -
  have "cover o1 M = cover o1 (filter (\<lambda>g. \<not> own ld g) M)" for M
    using assms(2) by (auto simp: cover_def SAMEOWNER_def)
  from this [of L] this [of L'] show ?thesis using assms(1) by (simp add: kept_def)
qed

lemma adjust_bytes:
  assumes "adj_pre ins ld (v_filocks st)" and "adjust t mem ins ld st = (None, ld1, st1)"
  shows "cover o1 (v_filocks st1) = (if SAMEOWNER o1 ld then upd ld (cover ld (v_filocks st)) else cover o1 (v_filocks st))"
proof -
  obtain L c where f: "flckadj t mem ins ld (v_filocks st, flckinfo st) = (None, ld1, L, c)" "v_filocks st1 = L"
    using assms(2) by (auto simp: adjust_def split: prod.splits)
  note ok = flckadj_ok [OF assms(1) f(1)]
  have "cover o1 L = cover ld L" if "SAMEOWNER o1 ld"
    using that by (simp add: cover_def SAMEOWNER_def)
  then show ?thesis using ok cover_other [of ld "v_filocks st" L o1] f(2) by simp
qed

text \<open>
  C7: A call of \<^verbatim>\<open>reclock\<close> that sets or removes a lock and returns 0 changes exactly the bytes of its range
  for its own owner: they get the type of the request, or no lock at all for an unlock, whatever splitting
  and joining of locks that takes; every other byte and every other owner keeps the locks it had.
\<close>

theorem reclock_sets_bytes:
  assumes "chain_ok (v_filocks st)" and "l_start ld \<le> l_end ld" and "cmd AND SETFLCK \<noteq> 0"
    and "l_type ld = F_RDLCK \<or> l_type ld = F_WRLCK \<or> l_type ld = F_UNLCK"
    and "reclock_pass t mem x cmd ld st = Some (RlRet None, ld1, st1)"
  shows "cover o1 (v_filocks st1) = (if SAMEOWNER o1 ld then upd ld (cover ld (v_filocks st)) else cover o1 (v_filocks st))"
proof (cases "l_type ld = F_UNLCK")
  case True
  let ?ins = "if v_filocks st = [] then None else Some 0"
  have "\<exists>st2. adjust t mem ?ins ld st = (None, ld1, st2) \<and> v_filocks st1 = v_filocks st2"
    using assms(3,5) True lock_types by (simp add: reclock_pass_def split: prod.splits if_splits) auto
  then show ?thesis using adjust_bytes unlock_pre [OF assms(1,2) True] by metis
next
  case False
  obtain b insrt where b: "blocked (xenix_block x ld) (v_filocks st) ld = (b, insrt)" by fastforce
  have "b = None" using assms(3-5) False b
    by (auto simp: reclock_pass_def reclock_wait_def Let_def split: option.splits if_splits bool.splits)
  then have pre: "adj_pre insrt ld (v_filocks st)" using blocked_None_grantable [OF assms(1,2)] b assms(4) False by blast
  have "\<exists>st2. adjust t mem insrt ld st = (None, ld1, st2) \<and> v_filocks st1 = v_filocks st2"
    using assms(3-5) False b \<open>b = None\<close> by (auto simp: reclock_pass_def split: prod.splits if_splits)
  then show ?thesis using adjust_bytes [OF pre] by metis
qed

definition ex_flock :: "int \<Rightarrow> int \<Rightarrow> int \<Rightarrow> int \<Rightarrow> flock" where
  "ex_flock ty s e pid = \<lparr>l_type = ty, l_whence = 0, l_start = s, l_len = e, l_sysid = 0, l_pid = pid\<rparr>"

definition ex_rl :: rlstate where
  "ex_rl = \<lparr>v_filocks = [\<lparr>f_set = ex_flock 1 0 99 7, f_stat = WakeFlg 0, f_addr = 0\<rparr>,
                        \<lparr>f_set = ex_flock 1 20 29 8, f_stat = WakeFlg 0, f_addr = 1\<rparr>],
            sleeplcks = [], flckinfo = \<lparr>reccnt = 2, rectot = 2, fl_woken = []\<rparr>\<rparr>"

definition ex_xenix :: xenix where
  "ex_xenix = \<lparr>x_pre_sv = False, x_xout = False, x_fcntl = True, x_locking = False\<rparr>"

lemmas ex_flock_simps = ex_flock_def ex_rl_def ex_xenix_def F_RDLCK_def F_WRLCK_def F_UNLCK_def SETFLCK_def SLPFLCK_def
  RCMDLCK_def INOFLCK_def

lemma ex_rl_ok: "chain_ok (v_filocks ex_rl)"
  by (simp add: ex_flock_simps chain_ok_def by_start_def locks_apart_def lock_ok_def compatible_def overlap_def SAMEOWNER_def)

lemma ex_rl_unlock:
  "\<exists>ld1 st1. reclock_pass 100 (\<lambda>n. True) ex_xenix 2 (ex_flock 3 40 59 7) ex_rl = Some (RlRet None, ld1, st1)
     \<and> map f_set (v_filocks st1) = [ex_flock 1 0 39 7, ex_flock 1 20 29 8, ex_flock 1 60 99 7]"
  by (simp add: ex_flock_simps reclock_pass_def adjust_def flckadj_def flckadj_loop.simps adj_own_def regflck_def td_piece_def
      settle_def insflck_def cutflck_def SAMEOWNER_def wake_lock_def)

theorem reclock_sets_bytes_witness:
  "\<exists>ld1 st1. reclock_pass 100 (\<lambda>n. True) ex_xenix 2 (ex_flock 3 40 59 7) ex_rl = Some (RlRet None, ld1, st1)
     \<and> cover (ex_flock 3 40 59 7) (v_filocks st1) = upd (ex_flock 3 40 59 7) (cover (ex_flock 3 40 59 7) (v_filocks ex_rl))"
proof -
  obtain ld1 st1 where r: "reclock_pass 100 (\<lambda>n. True) ex_xenix 2 (ex_flock 3 40 59 7) ex_rl = Some (RlRet None, ld1, st1)"
    using ex_rl_unlock by blast
  show ?thesis
    using reclock_sets_bytes [OF ex_rl_ok _ _ _ r, of "ex_flock 3 40 59 7"] r by (simp add: ex_flock_simps)
qed

text \<open>
  C2: Mutual exclusion: whatever sequence of lock, unlock, test and wait calls, wake-ups, mandatory-lock checks
  and clean-ups of exiting processes is run on a file, in any interleaving and with the lock table full or not,
  the locks on it stay ordered and well formed, and two locks of different owners that share a byte are both read locks.
\<close>

theorem reclock_mutual_exclusion:
  assumes "fl_reach st0 st" and "chain_ok (v_filocks st0)"
    and "f \<in> set (v_filocks st)" and "g \<in> set (v_filocks st)"
    and "\<not> SAMEOWNER (f_set f) (f_set g)" and "overlap (f_set f) (f_set g)"
  shows "l_type (f_set f) = F_RDLCK \<and> l_type (f_set g) = F_RDLCK"
  using fl_reach_chain_ok [OF assms(1,2)] assms(3-6) by (auto simp: chain_ok_def compatible_def)

theorem reclock_mutual_exclusion_witness:
  "l_type (f_set (v_filocks ex_rl ! 0)) = F_RDLCK \<and> l_type (f_set (v_filocks ex_rl ! 1)) = F_RDLCK"
  by (rule reclock_mutual_exclusion [OF fl_reach.start ex_rl_ok])
     (simp_all add: ex_flock_simps SAMEOWNER_def overlap_def)

text \<open>
  \<^verbatim>\<open>blocked\<close> on an ordered chain is exact: it returns a lock iff some lock of another owner overlaps the
  request and conflicts with it, the lock it returns is one of these, and the place it reports for \<^verbatim>\<open>flckadj\<close> to
  start at satisfies what \<^verbatim>\<open>flckadj\<close> expects.
\<close>

theorem blocked_correct:
  assumes "by_start L" and "apart ld L" and "l_start ld \<le> l_end ld" and "blocked xen L ld = (b, insrt)"
  shows "(case b of None \<Rightarrow> \<forall>f \<in> set L. \<not> blocks xen ld f | Some k \<Rightarrow> k < length L \<and> blocks xen ld (L ! k)) \<and> adj_pre insrt ld L"
  using blocked1_None [OF assms(1,3), of xen 0 None] blocked1_Some [OF assms(3), of xen 0 None L]
    blocked_pre [OF assms] assms(4)
  by (auto simp: blocked_def split: option.splits)

theorem blocked_correct_witness:
  "blocked False (v_filocks ex_rl) (ex_flock 2 50 60 8) = (Some 0, Some 0)
     \<and> blocks False (ex_flock 2 50 60 8) (v_filocks ex_rl ! 0)"
proof -
  have b: "blocked False (v_filocks ex_rl) (ex_flock 2 50 60 8) = (Some 0, Some 0)"
    by (simp add: ex_flock_simps blocked_def SAMEOWNER_def conflict_def)
  have "by_start (v_filocks ex_rl)" using ex_rl_ok by (simp add: chain_ok_def)
  from blocked_correct [OF this chain_ok_apart [OF ex_rl_ok] _ b] b show ?thesis by (simp add: ex_flock_def)
qed

text \<open>
  A call that may not wait is refused with \<^verbatim>\<open>EAGAIN\<close>, leaving the locks as they are, exactly when some lock
  of another owner conflicts with it.
\<close>

theorem reclock_refuses:
  assumes "chain_ok (v_filocks st)" and "l_start ld \<le> l_end ld" and "cmd AND SETFLCK \<noteq> 0" and "cmd AND SLPFLCK = 0"
    and "l_type ld = F_RDLCK \<or> l_type ld = F_WRLCK"
  shows "reclock_pass t mem x cmd ld st = Some (RlRet (Some EAGAIN), ld, st)
     \<longleftrightarrow> (\<exists>f \<in> set (v_filocks st). blocks (xenix_block x ld) ld f)"
proof -
  let ?xen = "xenix_block x ld"
  obtain b insrt where b: "blocked ?xen (v_filocks st) ld = (b, insrt)" by fastforce
  have "by_start (v_filocks st)" using assms(1) by (simp add: chain_ok_def)
  then have N: "b = None \<longleftrightarrow> \<not> (\<exists>f \<in> set (v_filocks st). blocks ?xen ld f)"
    using blocked1_None [OF _ assms(2), of "v_filocks st" ?xen 0 None] b by (auto simp: blocked_def)
  show ?thesis
  proof (cases b)
    case None
    obtain e ld1 ch where f: "flckadj t mem insrt ld (v_filocks st, flckinfo st) = (e, ld1, ch)" by (metis prod_cases3)
    have "e \<noteq> Some EAGAIN" using flckadj_error_shrinks [of t mem insrt ld "(v_filocks st, flckinfo st)" EAGAIN ld1 ch] f by auto
    then show ?thesis
      using None N assms(3-5) b f by (auto simp: reclock_pass_def adjust_def split: prod.splits if_splits)
  next
    case (Some k)
    then show ?thesis using N assms(3-5) b by (simp add: reclock_pass_def)
  qed
qed

theorem reclock_refuses_witness:
  "reclock_pass 100 (\<lambda>n. True) ex_xenix 2 (ex_flock 2 50 60 8) ex_rl = Some (RlRet (Some EAGAIN), ex_flock 2 50 60 8, ex_rl)"
proof -
  have "blocks (xenix_block ex_xenix (ex_flock 2 50 60 8)) (ex_flock 2 50 60 8) (v_filocks ex_rl ! 0)"
    by (simp add: ex_flock_simps blocks_def conflict_def SAMEOWNER_def)
  moreover have "v_filocks ex_rl ! 0 \<in> set (v_filocks ex_rl)" by (simp add: ex_rl_def)
  ultimately show ?thesis
    using reclock_refuses [OF ex_rl_ok, of "ex_flock 2 50 60 8" 2 100 "\<lambda>n. True" ex_xenix] by (auto simp: ex_flock_def SETFLCK_def SLPFLCK_def F_WRLCK_def)
qed

text \<open>
  \<^verbatim>\<open>cleanlocks\<close> removes from a file the locks of a process (or of a whole remote system), keeps all others in
  their order, and takes the number removed off the count of records in use.
\<close>

theorem cleanlocks_removes:
  "fst (cleanlocks pid sysid ch) =
     filter (\<lambda>f. \<not> ((l_pid (f_set f) = pid \<or> pid = -1) \<and> l_sysid (f_set f) = sysid)) (fst ch)
   \<and> reccnt (snd (cleanlocks pid sysid ch)) - int (length (fst (cleanlocks pid sysid ch))) = reccnt (snd ch) - int (length (fst ch))"
proof -
  have "reccnt (snd (cleanlocks_loop pid sysid k ch)) - int (length (fst (cleanlocks_loop pid sysid k ch)))
      = reccnt (snd ch) - int (length (fst ch))" for k
  proof (induction pid sysid k ch rule: cleanlocks_loop.induct)
    case (1 pid sysid k ch)
    have "k < length (fst ch) \<Longrightarrow> reccnt (snd (delflck k ch)) - int (length (fst (delflck k ch))) = reccnt (snd ch) - int (length (fst ch))"
      by (cases ch) (auto simp: delflck_def)
    then show ?case using 1 by (subst (1 2) cleanlocks_loop.simps) (auto simp: not_le)
  qed
  then have "reccnt (snd (cleanlocks pid sysid ch)) - int (length (fst (cleanlocks pid sysid ch))) = reccnt (snd ch) - int (length (fst ch))"
    by (simp only: cleanlocks_def)
  then show ?thesis using cleanlocks_fst [of pid sysid ch] by blast
qed

end
