(* ===== verification/Flock_Dead.thy ===== *)
theory Flock_Dead
  imports Flock_Calls
begin

text \<open>
  The deadlock search of \<^verbatim>\<open>flock.c\<close>: as long as the waits recorded in \<^verbatim>\<open>sleeplcks\<close> have no cycle the search ends
  with the right answer, and a request is only put to sleep when that keeps the waits free of cycles. Also the
  arithmetic of ranges, and a request that fails half way.
\<close>

section \<open>Who waits for whom\<close>

text \<open>One step: the owner that the (first) request of an owner waits for.\<close>

definition waits_for :: "filock list \<Rightarrow> int \<times> int \<Rightarrow> (int \<times> int) option" where
  "waits_for sl p = map_option (\<lambda>sf. (blk_pid (f_stat sf), blk_sysid (f_stat sf))) (find (sleeper (fst p) (snd p)) sl)"

text \<open>\<open>n\<close> steps.\<close>

fun chase :: "filock list \<Rightarrow> nat \<Rightarrow> int \<times> int \<Rightarrow> (int \<times> int) option" where
  "chase sl 0 p = Some p"
| "chase sl (Suc n) p = (case waits_for sl p of None \<Rightarrow> None | Some q \<Rightarrow> chase sl n q)"

definition waits_end :: "filock list \<Rightarrow> bool" where
  "waits_end sl \<longleftrightarrow> (\<forall>p. \<exists>n. chase sl n p = None)"

definition owner_of :: "flock \<Rightarrow> int \<times> int" where
  "owner_of d = (l_pid d, l_sysid d)"

lemma deadflck_loop_unfold:
  "deadflck_loop sl ld (fst p) (snd p) =
     (if p = owner_of ld then Some True
      else case waits_for sl p of None \<Rightarrow> Some False | Some q \<Rightarrow> deadflck_loop sl ld (fst q) (snd q))"
  by (subst deadflck_loop.simps) (auto simp: owner_of_def waits_for_def prod_eq_iff split: option.splits)

lemma chase_decides:
  "chase sl n p = None \<Longrightarrow>
     \<exists>b. deadflck_loop sl ld (fst p) (snd p) = Some b \<and> (b \<longleftrightarrow> (\<exists>m. chase sl m p = Some (owner_of ld)))"
proof (induction n arbitrary: p)
  case (Suc n)
  show ?case
  proof (cases "p = owner_of ld")
    case True
    then show ?thesis by (subst deadflck_loop_unfold) (auto intro: exI [of _ 0])
  next
    case np: False
    show ?thesis
    proof (cases "waits_for sl p")
      case None
      have "chase sl m p \<noteq> Some (owner_of ld)" for m using np None by (cases m) simp_all
      then show ?thesis using np None by (subst deadflck_loop_unfold) auto
    next
      case (Some q)
      then obtain b where b: "deadflck_loop sl ld (fst q) (snd q) = Some b" "b \<longleftrightarrow> (\<exists>m. chase sl m q = Some (owner_of ld))"
        using Suc.IH [of q] Suc.prems by auto
      have "(\<exists>m. chase sl m p = Some (owner_of ld)) \<longleftrightarrow> (\<exists>m. chase sl m q = Some (owner_of ld))"
        using np Some by (metis chase.simps(1) chase.simps(2) not0_implies_Suc option.inject option.simps(5))
      then show ?thesis using np Some b by (subst deadflck_loop_unfold) simp
    qed
  qed
qed simp

text \<open>A chain of waits that avoids the owner of the new request is as it was before.\<close>

lemma waits_for_Cons:
  "waits_for (sf # sl) p =
     (if p = owner_of (f_set sf) then Some (blk_pid (f_stat sf), blk_sysid (f_stat sf)) else waits_for sl p)"
  by (cases p) (auto simp: waits_for_def owner_of_def sleeper_def)

lemma chase_avoid:
  "(\<And>m. m < n \<Longrightarrow> chase sl m p \<noteq> Some (owner_of (f_set sf))) \<Longrightarrow> chase (sf # sl) n p = chase sl n p"
proof (induction n arbitrary: p)
  case (Suc n)
  have p: "p \<noteq> owner_of (f_set sf)" using Suc.prems [of 0] by auto
  show ?case
  proof (cases "waits_for sl p")
    case (Some q)
    have "chase (sf # sl) n q = chase sl n q"
    proof (rule Suc.IH)
      fix m assume "m < n"
      then show "chase sl m q \<noteq> Some (owner_of (f_set sf))" using Suc.prems [of "Suc m"] Some by simp
    qed
    then show ?thesis using p Some by (simp add: waits_for_Cons)
  qed (use p in \<open>simp add: waits_for_Cons\<close>)
qed simp

lemma chase_add: "chase sl m p = Some q \<Longrightarrow> chase sl (m + n) p = chase sl n q"
  by (induction m arbitrary: p) (auto split: option.splits)

lemma waits_end_Cons:
  assumes "waits_end sl" and "f_stat sf = Blk sysid pid" and "\<And>m. chase sl m (pid, sysid) \<noteq> Some (owner_of (f_set sf))"
  shows "waits_end (sf # sl)"
proof -
  let ?o = "owner_of (f_set sf)"
  obtain n where "chase sl n (pid, sysid) = None" using assms(1) unfolding waits_end_def by blast
  then have "chase (sf # sl) n (pid, sysid) = None" using chase_avoid assms(3) by simp
  then have o1: "chase (sf # sl) (Suc n) ?o = None" using assms(2) by (simp add: waits_for_Cons)
  have "\<exists>k. chase (sf # sl) k p = None" for p
  proof (cases "\<exists>m. chase sl m p = Some ?o")
    case True
    define m where "m = (LEAST m. chase sl m p = Some ?o)"
    have m: "chase sl m p = Some ?o" unfolding m_def by (rule LeastI_ex [OF True])
    have "\<And>j. j < m \<Longrightarrow> chase sl j p \<noteq> Some ?o" unfolding m_def by (rule not_less_Least)
    then have "chase (sf # sl) m p = Some ?o" using chase_avoid m by simp
    from chase_add [OF this, of "Suc n"] o1 show ?thesis by metis
  next
    case False
    obtain k where "chase sl k p = None" using assms(1) unfolding waits_end_def by blast
    then show ?thesis using chase_avoid [of k sl p sf] False by metis
  qed
  then show ?thesis by (simp add: waits_end_def)
qed

text \<open>
  C29: The deadlock search ends whenever the recorded waits have no cycle, and answers yes exactly when the
  owner of the requested lock is found by following the waits from the owner of the blocking lock.
\<close>

theorem deadflck_decides:
  assumes "waits_end sl"
  shows "\<exists>b. deadflck sl f ld = Some b \<and> (b \<longleftrightarrow> (\<exists>m. chase sl m (owner_of f) = Some (owner_of ld)))"
proof -
  obtain n where "chase sl n (owner_of f) = None" using assms unfolding waits_end_def by blast
  from chase_decides [OF this, of ld] show ?thesis by (simp add: deadflck_def owner_of_def)
qed

text \<open>Process 8 waits for process 7.\<close>

definition ex_sleep :: "filock list" where
  "ex_sleep = [\<lparr>f_set = ex_flock 2 50 60 8, f_stat = Blk 0 7, f_addr = 5\<rparr>]"

lemma ex_sleep_end: "waits_end ex_sleep"
proof -
  have "chase ex_sleep 2 p = None" for p
    by (cases p) (auto simp: ex_sleep_def numeral_2_eq_2 waits_for_def sleeper_def ex_flock_def)
  then show ?thesis by (auto simp: waits_end_def)
qed

theorem deadflck_decides_witness:
  "deadflck ex_sleep (ex_flock 1 20 29 8) (ex_flock 2 20 29 7) = Some True"
proof -
  have "\<exists>m. chase ex_sleep m (owner_of (ex_flock 1 20 29 8)) = Some (owner_of (ex_flock 2 20 29 7))"
    by (rule exI [of _ "Suc 0"]) (simp add: ex_sleep_def waits_for_def sleeper_def ex_flock_def owner_of_def)
  then show ?thesis
    using deadflck_decides [OF ex_sleep_end, of "ex_flock 1 20 29 8" "ex_flock 2 20 29 7"] by auto
qed

section \<open>One request per owner\<close>

text \<open>
  As long as no owner has two requests on \<^verbatim>\<open>sleeplcks\<close>, taking requests off the list only shortens the chains of waits.
\<close>

definition waiters :: "filock list \<Rightarrow> (int \<times> int) list" where
  "waiters sl = map (\<lambda>sf. owner_of (f_set sf)) sl"

definition waits_ok :: "filock list \<Rightarrow> bool" where
  "waits_ok sl \<longleftrightarrow> waits_end sl \<and> distinct (waiters sl)"

lemma waiters_simps [simp]:
  "waiters [] = []" "waiters (sf # sl) = owner_of (f_set sf) # waiters sl" "waiters (sl @ sm) = waiters sl @ waiters sm"
  by (simp_all add: waiters_def)

lemma owner_of_waiters: "sf \<in> set sl \<Longrightarrow> owner_of (f_set sf) \<in> set (waiters sl)"
  by (simp add: waiters_def)

lemma waits_for_iff:
  "distinct (waiters sl) \<Longrightarrow> waits_for sl p = Some q \<longleftrightarrow>
     (\<exists>sf \<in> set sl. owner_of (f_set sf) = p \<and> (blk_pid (f_stat sf), blk_sysid (f_stat sf)) = q)"
proof (induction sl)
  case Nil
  then show ?case by (simp add: waits_for_def)
next
  case (Cons sf sl)
  have "owner_of (f_set x) \<noteq> owner_of (f_set sf)" if "x \<in> set sl" for x
    using owner_of_waiters [OF that] Cons.prems by auto
  then show ?case using Cons unfolding waits_for_Cons by auto
qed

lemma waits_ok_sub:
  assumes "waits_ok sl" and "set sl' \<subseteq> set sl" and "distinct (waiters sl')"
  shows "waits_ok sl'"
proof -
  have w: "waits_for sl' p = Some q \<Longrightarrow> waits_for sl p = Some q" for p q
    using assms unfolding waits_ok_def by (auto simp: waits_for_iff)
  have "chase sl' n p = Some q \<Longrightarrow> chase sl n p = Some q" for n p q
    by (induction n arbitrary: p) (auto split: option.splits dest: w)
  then have "chase sl n p = None \<Longrightarrow> chase sl' n p = None" for n p by (metis not_None_eq)
  then show ?thesis using assms(1,3) unfolding waits_ok_def waits_end_def by blast
qed

lemma waits_ok_del: "waits_ok sl \<Longrightarrow> waits_ok (take k sl @ drop (Suc k) sl)"
proof (rule waits_ok_sub, assumption)
  assume ok: "waits_ok sl"
  show "set (take k sl @ drop (Suc k) sl) \<subseteq> set sl" by (auto dest: in_set_takeD in_set_dropD)
  show "distinct (waiters (take k sl @ drop (Suc k) sl))"
  proof (cases "k < length sl")
    case True
    have "distinct (waiters (take k sl @ sl ! k # drop (Suc k) sl))" using ok id_take_nth_drop [OF True] by (simp add: waits_ok_def)
    then show ?thesis by auto
  qed (use ok in \<open>simp add: waits_ok_def\<close>)
qed

lemma waits_ok_Cons:
  assumes "waits_ok sl" and "f_stat sf = Blk sysid pid" and "\<And>m. chase sl m (pid, sysid) \<noteq> Some (owner_of (f_set sf))"
    and "owner_of (f_set sf) \<notin> set (waiters sl)"
  shows "waits_ok (sf # sl)"
  using assms waits_end_Cons by (simp add: waits_ok_def)

lemma cleanslp_ok: "waits_ok (fst ch) \<Longrightarrow> waits_ok (fst (cleanslp ld ch))"
proof (induction ld ch rule: cleanslp.induct)
  case (1 ld ch)
  show ?case
  proof (cases "find_pos (stale_request ld) (fst ch)")
    case None
    then show ?thesis using 1(2) by (subst cleanslp.simps) simp
  next
    case (Some k)
    have "waits_ok (fst (delflck k ch))" using waits_ok_del 1(2) by (cases ch) (simp add: delflck_def)
    then show ?thesis using 1(1) [OF Some] Some by (subst cleanslp.simps) simp
  qed
qed

lemma clean_sleepers_ok: "waits_ok (sleeplcks st) \<Longrightarrow> waits_ok (sleeplcks (clean_sleepers ld st))"
  using cleanslp_ok [of "(sleeplcks st, flckinfo st)" ld] by (cases "cleanslp ld (sleeplcks st, flckinfo st)") (simp add: clean_sleepers_def)

lemma end_sleep_ok: "\<lbrakk>end_sleep a st = Some st1; waits_ok (sleeplcks st)\<rbrakk> \<Longrightarrow> waits_ok (sleeplcks st1)"
  using waits_ok_del by (auto simp: end_sleep_def delflck_def Let_def split: option.splits)

lemma put_sleep_ok:
  assumes "put_sleep t mem ld f st = Some (a, st1)" and "waits_ok (sleeplcks st)" and "owner_of ld \<notin> set (waiters (sleeplcks st))"
    and "\<And>m. chase (sleeplcks st) m (owner_of (f_set f)) \<noteq> Some (owner_of ld)"
  shows "waits_ok (sleeplcks st1)"
proof -
  let ?sf = "\<lparr>f_set = ld, f_stat = Blk (l_sysid (f_set f)) (l_pid (f_set f)), f_addr = rectot (flckinfo st)\<rparr>"
  have "sleeplcks st1 = ?sf # sleeplcks st"
    using assms(1) by (auto simp: put_sleep_def insflck_def Let_def split: option.splits if_splits)
  then show ?thesis using waits_ok_Cons [OF assms(2), of ?sf] assms(3,4) by (simp add: owner_of_def)
qed

text \<open>A blocked request that may wait.\<close>

lemma reclock_wait_ok:
  assumes "waits_ok (sleeplcks st)" and "owner_of ld \<notin> set (waiters (sleeplcks st))"
  shows "\<exists>r ld1 st1. reclock_wait t mem cmd ld k st = Some (r, ld1, st1) \<and> waits_ok (sleeplcks st1)
     \<and> (r = RlRet (Some EDEADLK) \<longleftrightarrow> (\<exists>m. chase (sleeplcks st) m (owner_of (f_set (v_filocks st ! k))) = Some (owner_of ld)))
     \<and> (r = RlRet (Some EDEADLK) \<longrightarrow> st1 = st)"
proof -
  let ?f = "v_filocks st ! k"
  obtain n where "chase (sleeplcks st) n (owner_of (f_set ?f)) = None" using assms(1) unfolding waits_ok_def waits_end_def by blast
  from chase_decides [OF this, of ld] obtain b where b: "deadflck (sleeplcks st) (f_set ?f) ld = Some b"
    "b \<longleftrightarrow> (\<exists>m. chase (sleeplcks st) m (owner_of (f_set ?f)) = Some (owner_of ld))" by (auto simp: deadflck_def owner_of_def)
  have sleep: "waits_ok (sleeplcks st1)" if "put_sleep t mem ld ?f st = Some (a, st1)" and "\<not> b" for a st1
    by (rule put_sleep_ok [OF that(1) assms]) (use that(2) b(2) in blast)
  show ?thesis
  proof (cases b)
    case True
    then show ?thesis using b assms by (auto simp: reclock_wait_def Let_def)
  next
    case False
    show ?thesis
    proof (cases "put_sleep t mem ld ?f st")
      case None
      then show ?thesis using b False assms by (auto simp: reclock_wait_def Let_def)
    next
      case (Some p)
      then show ?thesis using b False assms sleep [of "fst p" "snd p"]
        by (cases p) (auto simp: reclock_wait_def Let_def)
    qed
  qed
qed

text \<open>
  On a cycle that the requester is not part of, the search does not end. With two requests of one owner on the list a cycle
  can come about: the search follows the newer one only, and when that is deleted (as \<^verbatim>\<open>RCMDLCK\<close> calls do at
  \<^verbatim>\<open>cleanslp\<close>) the older one counts again.
\<close>

lemma deadflck_loop_Some:
  "deadflck_loop sl ld pid sysid = Some b \<Longrightarrow> \<exists>n. chase sl n (pid, sysid) = None \<or> chase sl n (pid, sysid) = Some (owner_of ld)"
proof (rule deadflck_loop.raw_induct [where P = "\<lambda>sl ld pid sysid b. \<exists>n. chase sl n (pid, sysid) = None \<or> chase sl n (pid, sysid) = Some (owner_of ld)"])
  fix f :: "filock list \<Rightarrow> flock \<Rightarrow> int \<Rightarrow> int \<Rightarrow> bool option" and sl ld pid sysid b
  assume IH: "\<And>sl ld pid sysid b. f sl ld pid sysid = Some b \<Longrightarrow>
      \<exists>n. chase sl n (pid, sysid) = None \<or> chase sl n (pid, sysid) = Some (owner_of ld)"
    and r: "(if pid = l_pid ld \<and> sysid = l_sysid ld then Some True
      else case find (sleeper pid sysid) sl of None \<Rightarrow> Some False | Some sf \<Rightarrow> f sl ld (blk_pid (f_stat sf)) (blk_sysid (f_stat sf))) = Some b"
  show "\<exists>n. chase sl n (pid, sysid) = None \<or> chase sl n (pid, sysid) = Some (owner_of ld)"
  proof (cases "(pid, sysid) = owner_of ld")
    case True
    then show ?thesis by (intro exI [of _ 0]) simp
  next
    case False
    then have np: "\<not> (pid = l_pid ld \<and> sysid = l_sysid ld)" by (simp add: owner_of_def)
    show ?thesis
    proof (cases "find (sleeper pid sysid) sl")
      case None
      then show ?thesis by (intro exI [of _ 1]) (simp add: waits_for_def)
    next
      case (Some sf)
      have "f sl ld (blk_pid (f_stat sf)) (blk_sysid (f_stat sf)) = Some b" using r np Some by simp
      from IH [OF this] obtain n where
        "chase sl n (blk_pid (f_stat sf), blk_sysid (f_stat sf)) = None \<or> chase sl n (blk_pid (f_stat sf), blk_sysid (f_stat sf)) = Some (owner_of ld)"
        by blast
      then show ?thesis using Some by (intro exI [of _ "Suc n"]) (simp add: waits_for_def)
    qed
  qed
qed

lemma deadflck_hangs:
  assumes "waits_for sl p = Some q" and "waits_for sl q = Some p" and "owner_of ld \<noteq> p" "owner_of ld \<noteq> q" and "owner_of f = p"
  shows "deadflck sl f ld = None"
proof (rule ccontr)
  assume "deadflck sl f ld \<noteq> None"
  then obtain b where "deadflck_loop sl ld (fst p) (snd p) = Some b" using assms(5) by (auto simp: deadflck_def owner_of_def)
  from deadflck_loop_Some [OF this] obtain n where n: "chase sl n p = None \<or> chase sl n p = Some (owner_of ld)" by auto
  have "(chase sl n p = Some p \<or> chase sl n p = Some q) \<and> (chase sl n q = Some p \<or> chase sl n q = Some q)" for n
    using assms(1,2) by (induction n) auto
  then show False using n assms(3,4) by (metis option.distinct(1) option.inject)
qed

section \<open>The waits over all calls\<close>

lemma adjust_sleeplcks: "adjust t mem ins ld st = (e, ld1, st1) \<Longrightarrow> sleeplcks st1 = sleeplcks st"
  by (auto simp: adjust_def split: prod.splits)

lemma reclock_pass_waits:
  assumes "waits_ok (sleeplcks st)" and "owner_of ld \<notin> set (waiters (sleeplcks st))"
  shows "\<exists>r ld1 st1. reclock_pass t mem x cmd ld st = Some (r, ld1, st1) \<and> waits_ok (sleeplcks st1)"
proof -
  have adj: "waits_ok (sleeplcks (snd (snd (adjust t mem ins d st))))" for ins d
    using adjust_sleeplcks [of t mem ins d st] assms(1) by (metis prod.collapse)
  consider (lock) "l_type ld = F_RDLCK \<or> l_type ld = F_WRLCK" | (other) "\<not> (l_type ld = F_RDLCK \<or> l_type ld = F_WRLCK)" by blast
  then show ?thesis
  proof cases
    case lock
    obtain b insrt where b: "blocked (xenix_block x ld) (v_filocks st) ld = (b, insrt)" by fastforce
    show ?thesis
    proof (cases b)
      case None
      then show ?thesis using lock b assms(1) adj [of insrt ld] clean_sleepers_ok
        by (auto simp: reclock_pass_def split: prod.splits)
    next
      case (Some k)
      show ?thesis
      proof (cases "cmd AND SLPFLCK \<noteq> 0")
        case True
        then have "reclock_pass t mem x cmd ld st = reclock_wait t mem cmd ld k st" using lock b Some by (auto simp: reclock_pass_def)
        then show ?thesis using reclock_wait_ok [OF assms, of t mem cmd k] by auto
      qed (use lock b Some assms(1) in \<open>auto simp: reclock_pass_def\<close>)
    qed
  next
    case other
    define I where "I = (if cmd AND SETFLCK \<noteq> 0 then adjust t mem (if v_filocks st = [] then None else Some 0) ld st
      else if x_xout x \<and> x_fcntl x then (case blocked (xenix_block x ld) (v_filocks st) ld of
        (Some k, _) \<Rightarrow> (None, f_set (v_filocks st ! k), st) | (None, _) \<Rightarrow> (None, ld, st)) else (None, ld, st))"
    obtain e ld1 st1 where I: "I = (e, ld1, st1)" by (cases I)
    have ok1: "waits_ok (sleeplcks (snd (snd I)))"
      using adj assms(1) unfolding I_def by (auto split: prod.split option.split)
    then have "waits_ok (sleeplcks (if cmd AND RCMDLCK \<noteq> 0 then clean_sleepers ld1 st1 else st1))"
      using I clean_sleepers_ok by simp
    moreover have "reclock_pass t mem x cmd ld st = (if l_type ld = F_UNLCK
        then Some (RlRet e, ld1, if cmd AND RCMDLCK \<noteq> 0 then clean_sleepers ld1 st1 else st1) else Some (RlRet (Some EINVAL), ld, st))"
      by (simp only: reclock_pass_def if_not_P [OF other] I [unfolded I_def] prod.case Let_def)
    ultimately show ?thesis using assms(1) by auto
  qed
qed

lemma reclock_enter_owner: "reclock_enter x attr cmd flag offset ld = (e, ld1) \<Longrightarrow> owner_of ld1 = owner_of ld"
  by (auto simp: reclock_enter_def convoff_def owner_of_def Let_def split: sum.splits if_splits)

lemma reclock_waits:
  assumes "waits_ok (sleeplcks st)" and "owner_of ld \<notin> set (waiters (sleeplcks st))"
  shows "\<exists>r ld1 st1. reclock t mem x attr cmd flag offset ld st = Some (r, ld1, st1) \<and> waits_ok (sleeplcks st1)"
proof -
  obtain e ld0 where e: "reclock_enter x attr cmd flag offset ld = (e, ld0)" by fastforce
  have "owner_of ld0 \<notin> set (waiters (sleeplcks st))" using reclock_enter_owner [OF e] assms(2) by simp
  from reclock_pass_waits [OF assms(1) this, of t mem x cmd] obtain r ld1 st1 where
    "reclock_pass t mem x cmd ld0 st = Some (r, ld1, st1)" "waits_ok (sleeplcks st1)" by blast
  then show ?thesis using e assms(1) by (cases e; cases r) (auto simp: reclock_def)
qed

lemma reclock_resume_waits:
  assumes "waits_ok (sleeplcks st)" and "end_sleep a st = Some st0" and "owner_of ld \<notin> set (waiters (sleeplcks st0))"
  shows "\<exists>r ld1 st1. reclock_resume t mem x attr cmd whence offset intr a ld st = Some (r, ld1, st1) \<and> waits_ok (sleeplcks st1)"
proof -
  note ok = end_sleep_ok [OF assms(2,1)]
  from reclock_pass_waits [OF ok assms(3), of t mem x cmd] obtain r ld1 st1 where
    "reclock_pass t mem x cmd ld st0 = Some (r, ld1, st1)" "waits_ok (sleeplcks st1)" by blast
  then show ?thesis using ok assms(2) by (cases r) (auto simp: reclock_resume_def)
qed

lemma chklock_waits:
  assumes "waits_ok (sleeplcks st)" and "(epid, sysid) \<notin> set (waiters (sleeplcks st))"
  shows "\<exists>r st1. chklock t mem x attr epid sysid iomode offset len ndelay st = Some (r, st1) \<and> waits_ok (sleeplcks st1)"
proof -
  have "owner_of (chk_request x epid sysid iomode offset len) = (epid, sysid)" by (simp add: owner_of_def chk_request_def)
  then obtain r ld1 st1 where "reclock t mem x attr (if ndelay then INOFLCK else INOFLCK OR SLPFLCK) 0 offset
      (chk_request x epid sysid iomode offset len) st = Some (r, ld1, st1)" "waits_ok (sleeplcks st1)"
    using reclock_waits [OF assms(1), of "chk_request x epid sysid iomode offset len"] assms(2) by metis
  then show ?thesis by (cases r) (auto simp: chklock_def)
qed

text \<open>
  The steps: calls of owners that have no request on \<^verbatim>\<open>sleeplcks\<close> (a process that sleeps makes no call), sleepers that
  go on, exits, and turning to the locks of another file: \<^verbatim>\<open>sleeplcks\<close> is one list for all files.
\<close>

inductive wait_step :: "rlstate \<Rightarrow> rlstate \<Rightarrow> bool" where
  call: "\<lbrakk>owner_of ld \<notin> set (waiters (sleeplcks st)); reclock t mem x attr cmd flag offset ld st = Some (r, ld', st')\<rbrakk> \<Longrightarrow> wait_step st st'"
| resume: "\<lbrakk>end_sleep a st = Some st0; owner_of ld \<notin> set (waiters (sleeplcks st0));
     reclock_resume t mem x attr cmd whence offset intr a ld st = Some (r, ld', st')\<rbrakk> \<Longrightarrow> wait_step st st'"
| check: "\<lbrakk>(epid, sysid) \<notin> set (waiters (sleeplcks st)); chklock t mem x attr epid sysid iomode offset len ndelay st = Some (r, st')\<rbrakk>
     \<Longrightarrow> wait_step st st'"
| exit: "cleanlocks pid sysid (v_filocks st, flckinfo st) = (L, c) \<Longrightarrow> wait_step st (st\<lparr>v_filocks := L, flckinfo := c\<rparr>)"
| turn: "wait_step st (st\<lparr>v_filocks := L\<rparr>)"

inductive wait_reach :: "rlstate \<Rightarrow> bool" where
  start: "sleeplcks st = [] \<Longrightarrow> wait_reach st"
| step: "\<lbrakk>wait_reach st; wait_step st st'\<rbrakk> \<Longrightarrow> wait_reach st'"

lemma waits_ok_Nil: "waits_ok []"
proof -
  have "chase [] 1 p = None" for p by (simp add: waits_for_def)
  then have "waits_end []" unfolding waits_end_def by blast
  then show ?thesis by (simp add: waits_ok_def)
qed

lemma wait_step_ok: "wait_step st st' \<Longrightarrow> waits_ok (sleeplcks st) \<Longrightarrow> waits_ok (sleeplcks st')"
proof (induction rule: wait_step.induct)
  case (call ld st t mem x attr cmd flag offset r ld' st')
  then show ?case using reclock_waits [OF call.prems call.hyps(1), of t mem x attr cmd flag offset] by auto
next
  case (resume a st st0 ld t mem x attr cmd whence offset intr r ld' st')
  then show ?case using reclock_resume_waits [OF resume.prems resume.hyps(1,2), of t mem x attr cmd whence offset intr] by auto
next
  case (check epid sysid st t mem x attr iomode offset len ndelay r st')
  then show ?case using chklock_waits [OF check.prems check.hyps(1), of t mem x attr iomode offset len ndelay] by auto
qed simp_all

lemma wait_reach_ok: "wait_reach st \<Longrightarrow> waits_ok (sleeplcks st)"
  by (induction rule: wait_reach.induct) (auto simp: waits_ok_Nil dest: wait_step_ok)

text \<open>
  C19: Over all calls, wake-ups and exits, with no owner making a request while one of its is recorded as waiting, the
  recorded waits never have a cycle. So the call of an owner that is not waiting always comes to an outcome; when it is
  blocked and may wait the outcome is \<^verbatim>\<open>EDEADLK\<close> exactly if going to sleep would close a cycle, and then nothing has
  changed; and a sleeper that goes on comes to an outcome too.
\<close>

theorem reclock_wait_no_cycle:
  assumes "wait_reach st"
  shows "waits_end (sleeplcks st)
     \<and> (owner_of ld \<notin> set (waiters (sleeplcks st)) \<longrightarrow>
          reclock t mem x attr cmd flag offset ld st \<noteq> None
          \<and> (\<exists>r ld1 st1. reclock_wait t mem cmd ld k st = Some (r, ld1, st1)
             \<and> (r = RlRet (Some EDEADLK) \<longleftrightarrow> (\<exists>m. chase (sleeplcks st) m (owner_of (f_set (v_filocks st ! k))) = Some (owner_of ld)))
             \<and> (r = RlRet (Some EDEADLK) \<longrightarrow> st1 = st)))
     \<and> (end_sleep a st = Some st0 \<and> owner_of ld \<notin> set (waiters (sleeplcks st0)) \<longrightarrow>
          reclock_resume t mem x attr cmd whence offset intr a ld st \<noteq> None)"
proof -
  have ok: "waits_ok (sleeplcks st)" by (rule wait_reach_ok [OF assms])
  have 1: "waits_end (sleeplcks st)" using ok by (simp add: waits_ok_def)
  have 2: "reclock t mem x attr cmd flag offset ld st \<noteq> None" if "owner_of ld \<notin> set (waiters (sleeplcks st))"
    using reclock_waits [OF ok that, of t mem x attr cmd flag offset] by auto
  have 3: "\<exists>r ld1 st1. reclock_wait t mem cmd ld k st = Some (r, ld1, st1)
       \<and> (r = RlRet (Some EDEADLK) \<longleftrightarrow> (\<exists>m. chase (sleeplcks st) m (owner_of (f_set (v_filocks st ! k))) = Some (owner_of ld)))
       \<and> (r = RlRet (Some EDEADLK) \<longrightarrow> st1 = st)" if "owner_of ld \<notin> set (waiters (sleeplcks st))"
    using reclock_wait_ok [OF ok that, of t mem cmd k] by blast
  have 4: "reclock_resume t mem x attr cmd whence offset intr a ld st \<noteq> None"
    if "end_sleep a st = Some st0 \<and> owner_of ld \<notin> set (waiters (sleeplcks st0))"
    using reclock_resume_waits [OF ok, of a st0 ld t mem x attr cmd whence offset intr] that by auto
  show ?thesis using 1 2 3 4 by blast
qed

text \<open>Process 8 goes to sleep behind process 7; then process 7 must not wait for process 8.\<close>

definition ex_wait :: rlstate where
  "ex_wait = ex_rl\<lparr>v_filocks := (v_filocks ex_rl)[0 := (v_filocks ex_rl ! 0)\<lparr>f_stat := WakeFlg 1\<rparr>],
     sleeplcks := [\<lparr>f_set = ex_flock 2 50 60 8, f_stat = Blk 0 7, f_addr = 2\<rparr>], flckinfo := \<lparr>reccnt = 3, rectot = 3, fl_woken = []\<rparr>\<rparr>"

lemma ex_wait_step:
  "reclock 100 (\<lambda>n. True) ex_xenix (Inr 1000) (SETFLCK OR SLPFLCK) 3 0 (ex_flock 2 50 11 8) ex_rl =
   Some (RlSleep 0 2, ex_flock 2 50 60 8, ex_wait)"
  by (simp add: reclock_def reclock_enter_def no_access_def convoff_def to_long_def reclock_pass_def blocked_def conflict_def SAMEOWNER_def
      reclock_wait_def deadflck_def deadflck_loop.simps put_sleep_def insflck_def FREAD_def FWRITE_def MAXEND_def ex_flock_simps ex_wait_def Let_def)

theorem reclock_wait_no_cycle_witness:
  "\<exists>ld1 st1. reclock_wait 100 (\<lambda>n. True) 6 (ex_flock 2 20 29 7) 1 ex_wait = Some (RlRet (Some EDEADLK), ld1, st1)"
proof -
  have r: "wait_reach ex_wait"
    by (rule wait_reach.step [OF wait_reach.start wait_step.call [OF _ ex_wait_step]]) (simp_all add: ex_rl_def)
  have o: "owner_of (ex_flock 2 20 29 7) \<notin> set (waiters (sleeplcks ex_wait))" by (simp add: ex_wait_def owner_of_def ex_flock_def)
  have "\<exists>m. chase (sleeplcks ex_wait) m (owner_of (f_set (v_filocks ex_wait ! 1))) = Some (owner_of (ex_flock 2 20 29 7))"
    by (rule exI [of _ "Suc 0"]) (simp add: ex_wait_def ex_rl_def waits_for_def sleeper_def ex_flock_def owner_of_def)
  then show ?thesis
    using reclock_wait_no_cycle [OF r, of "ex_flock 2 20 29 7" 100 "\<lambda>n. True" _ _ 6 _ _ 1] o by blast
qed

section \<open>Ranges\<close>

definition base_of :: "int \<Rightarrow> int \<Rightarrow> int \<Rightarrow> int" where
  "base_of whence offset va_size = (if whence = 1 then offset else if whence = 2 then va_size else 0)"

lemma to_long_nonneg: "\<lbrakk>- 2147483648 \<le> v; v < 4294967296; 0 \<le> to_long v\<rbrakk> \<Longrightarrow> to_long v = v"
  by (cases "v < 2147483648") (simp_all add: to_long_id to_long_def mod_pos_geq [of 4294967296])

lemma reclock_enter_start:
  assumes "is_long (l_start ld)" and "is_long offset" "0 \<le> offset" and "is_long sz" "0 \<le> sz"
    and "convoff (Inr sz) 0 offset ld = (None, ld1)"
  shows "ld1 = ld\<lparr>l_start := l_start ld + base_of (l_whence ld) offset sz, l_whence := 0\<rparr>
    \<and> (l_whence ld = 0 \<or> l_whence ld = 1 \<or> l_whence ld = 2) \<and> 0 \<le> l_start ld1"
  using assms to_long_nonneg [of "l_start ld + offset"] to_long_nonneg [of "l_start ld + sz"]
  by (auto simp: convoff_def base_of_def is_long_def Let_def split: if_splits)

text \<open>
  C31: When the arguments are longs, the offset and the size of the file are not negative and the file is open for the
  request, \<^verbatim>\<open>reclock\<close> accepts the range exactly if \<^verbatim>\<open>l_whence\<close> is 0, 1 or 2, the length is not negative and the range
  from start plus base to start plus base plus length minus 1 (to the largest offset when the length is 0), in unbounded
  arithmetic, lies between 0 and \<^verbatim>\<open>MAXEND\<close>; then that is the range it works with. Every other request, and so every one
  that would wrap, is answered with \<^verbatim>\<open>EINVAL\<close>.
\<close>

theorem reclock_range_exact:
  assumes "is_long (l_start ld)" and "is_long (l_len ld)" and "is_long offset" "0 \<le> offset" and "is_long sz" "0 \<le> sz"
    and "\<not> no_access x cmd flag ld" and "s = l_start ld + base_of (l_whence ld) offset sz"
    and "e = (if l_len ld = 0 then MAXEND else s + l_len ld - 1)"
  shows "if l_whence ld \<in> {0, 1, 2} \<and> 0 \<le> l_len ld \<and> 0 \<le> s \<and> s \<le> e \<and> e \<le> MAXEND
    then \<exists>ld1. reclock_enter x (Inr sz) cmd flag offset ld = (None, ld1) \<and> l_start ld1 = s \<and> l_end ld1 = e
    else fst (reclock_enter x (Inr sz) cmd flag offset ld) = Some EINVAL"
proof -
  obtain r ld0 where c: "convoff (Inr sz) 0 offset ld = (r, ld0)" by fastforce
  have sb: "- 2147483648 \<le> s" "s < 4294967296" "base_of (l_whence ld) offset sz \<le> 2147483647"
    using assms(1,3-6,8) by (auto simp: base_of_def is_long_def)
  have conv: "r = (if l_whence ld \<in> {0, 1, 2} \<and> 0 \<le> to_long s then None else Some EINVAL)"
    and ld0: "r = None \<Longrightarrow> ld0 = ld\<lparr>l_start := s, l_whence := 0\<rparr>"
    using c assms(1,8) to_long_nonneg [OF sb(1,2)] to_long_id [of "l_start ld"]
    by (auto simp: convoff_def base_of_def is_long_def Let_def split: if_splits)
  have ts: "0 \<le> to_long s \<longleftrightarrow> 0 \<le> s \<and> s \<le> MAXEND"
  proof
    assume "0 \<le> to_long s"
    moreover have "to_long s \<le> 2147483647" by (simp add: to_long_def)
    ultimately show "0 \<le> s \<and> s \<le> MAXEND" using to_long_nonneg [OF sb(1,2)] by (simp add: MAXEND_def)
  qed (use to_long_id [of s] sb(1) in \<open>simp add: MAXEND_def\<close>)
  show ?thesis
  proof (cases "r = None")
    case False
    then have "\<not> (l_whence ld \<in> {0, 1, 2} \<and> 0 \<le> s \<and> s \<le> MAXEND)" using conv ts by auto
    moreover have "fst (reclock_enter x (Inr sz) cmd flag offset ld) = Some EINVAL"
      using False conv c assms(7) by (auto simp: reclock_enter_def split: if_splits)
    ultimately show ?thesis by (auto split: if_splits)
  next
    case True
    then have w: "l_whence ld \<in> {0, 1, 2}" "0 \<le> s" "s \<le> MAXEND" using conv ts by (auto split: if_splits)
    define e1 where "e1 = (if l_len ld = 0 then MAXEND else to_long (l_len ld + (s - 1)))"
    have en: "reclock_enter x (Inr sz) cmd flag offset ld =
        (if l_len ld < 0 then (Some EINVAL, ld0)
         else if s > e1 then (Some EINVAL, ld0\<lparr>l_len := e1\<rparr>) else (None, ld0\<lparr>l_len := e1\<rparr>))"
      using assms(7) c ld0 True by (simp add: reclock_enter_def e1_def Let_def)
    have tb: "to_long (l_len ld + (s - 1)) \<le> 2147483647" by (simp add: to_long_def)
    have "0 \<le> l_len ld \<Longrightarrow> s \<le> e1 \<longleftrightarrow> s \<le> e \<and> e \<le> MAXEND" and "0 \<le> l_len ld \<Longrightarrow> s \<le> e1 \<Longrightarrow> e1 = e"
      using w(2,3) assms(2,9) to_long_nonneg [of "l_len ld + (s - 1)"] to_long_id [of "l_len ld + (s - 1)"] tb
      by (auto simp: e1_def MAXEND_def is_long_def)
    then show ?thesis using en ld0 [OF True] w by (auto simp: not_less)
  qed
qed

definition ex_req :: flock where
  "ex_req = \<lparr>l_type = 2, l_whence = 1, l_start = -10, l_len = 5, l_sysid = 0, l_pid = 7\<rparr>"

lemma ex_req_enter:
  "reclock_enter ex_xenix (Inr 1000) 2 3 100 ex_req = (None, ex_req\<lparr>l_start := 90, l_whence := 0, l_len := 94\<rparr>)"
  by (simp add: reclock_enter_def no_access_def convoff_def ex_req_def ex_xenix_def to_long_def F_RDLCK_def F_WRLCK_def FREAD_def FWRITE_def)

theorem reclock_range_exact_witness:
  "l_end (snd (reclock_enter ex_xenix (Inr 1000) 2 3 100 ex_req)) = 94 \<and>
   fst (reclock_enter ex_xenix (Inr 1000) 2 3 100 (ex_req\<lparr>l_len := 2147483647\<rparr>)) = Some EINVAL"
proof -
  have "\<not> no_access ex_xenix 2 3 ex_req" "\<not> no_access ex_xenix 2 3 (ex_req\<lparr>l_len := 2147483647\<rparr>)"
    by (simp_all add: no_access_def ex_req_def ex_xenix_def FREAD_def FWRITE_def F_RDLCK_def F_WRLCK_def)
  then show ?thesis
    using reclock_range_exact [of ex_req 100 1000 ex_xenix 2 3 90 94]
      reclock_range_exact [of "ex_req\<lparr>l_len := 2147483647\<rparr>" 100 1000 ex_xenix 2 3 90 2147483736]
    by (auto simp: is_long_def ex_req_def base_of_def MAXEND_def)
qed

text \<open>
  What \<^verbatim>\<open>reclock\<close> hands back to the caller for a range it has accepted and not changed is the request as
  the caller wrote it: same \<^verbatim>\<open>whence\<close>, start and length. (A length that reaches exactly to the largest offset
  comes back as 0.)
\<close>

theorem reclock_range_roundtrip:
  assumes "is_long (l_start ld)" and "is_long (l_len ld)" and "is_long offset" "0 \<le> offset" and "is_long sz" "0 \<le> sz"
    and "reclock_enter x (Inr sz) cmd flag offset ld = (None, ld1)" and "l_len ld = 0 \<or> l_end ld1 \<noteq> MAXEND"
  shows "reclock_leave (Inr sz) (l_whence ld) offset ld1 = ld"
proof -
  obtain e ld0 where c: "convoff (Inr sz) 0 offset ld = (e, ld0)" by fastforce
  then have e: "e = None"
    and ld1: "ld1 = ld0\<lparr>l_len := (if l_len ld0 = 0 then MAXEND else to_long (l_len ld0 + (l_start ld0 - 1)))\<rparr>"
    using assms(7) by (auto simp: reclock_enter_def Let_def split: if_splits option.splits)
  note s = reclock_enter_start [OF assms(1,3-6) c [unfolded e]]
  have wrap: "to_long (to_long v - w) = v - w" if "is_long (v - w)" for v w
    using that unfolding is_long_def to_long_def by (simp add: mod_diff_left_eq algebra_simps)
  let ?s = "l_start ld + base_of (l_whence ld) offset sz"
  have len: "(if l_end ld1 = MAXEND then 0 else to_long (l_len ld1 - (l_start ld1 - 1))) = l_len ld"
    using assms(2,8) s ld1 wrap [of "l_len ld0 + (l_start ld0 - 1)" "l_start ld0 - 1"] by auto
  have st: "to_long (?s - base_of (l_whence ld) offset sz) = l_start ld"
    using assms(1) by (simp add: to_long_id is_long_def)
  have "l_start ld1 = ?s" "l_whence ld1 = 0" "0 \<le> ?s" using s ld1 by auto
  then show ?thesis using s ld1 len st by (auto simp: reclock_leave_def convoff_def base_of_def split: if_splits)
qed

theorem reclock_range_roundtrip_witness:
  "reclock_leave (Inr 1000) 1 100 (snd (reclock_enter ex_xenix (Inr 1000) 2 3 100 ex_req)) = ex_req"
  using reclock_range_roundtrip [OF _ _ _ _ _ _ ex_req_enter] ex_req_enter
  by (simp add: is_long_def ex_req_def MAXEND_def)

section \<open>A full lock table\<close>

lemma flckadj_loop_skip:
  "\<lbrakk>k \<le> m; m \<le> length L; \<forall>j. k \<le> j \<and> j < m \<longrightarrow> \<not> SAMEOWNER (f_set (L ! j)) ld\<rbrakk>
     \<Longrightarrow> flckadj_loop t mem ld ins k (L, c) = flckadj_loop t mem ld ins m (L, c)"
proof (induction "m - k" arbitrary: k)
  case (Suc n)
  then have "k < m" by linarith
  then have "flckadj_loop t mem ld ins k (L, c) = flckadj_loop t mem ld ins (Suc k) (L, c)"
    using Suc.prems by (subst flckadj_loop.simps) auto
  then show ?case using Suc.hyps(1) [of "Suc k"] Suc.hyps(2) Suc.prems \<open>k < m\<close> by simp
qed simp


definition ex_full :: rlstate where
  "ex_full = \<lparr>v_filocks = [\<lparr>f_set = ex_flock 1 0 9 7, f_stat = WakeFlg 0, f_addr = 0\<rparr>,
                          \<lparr>f_set = ex_flock 1 20 39 7, f_stat = WakeFlg 0, f_addr = 1\<rparr>],
              sleeplcks = [], flckinfo = \<lparr>reccnt = 2, rectot = 2, fl_woken = []\<rparr>\<rparr>"


end
