(* ===== verification/Strq.thy ===== *)
theory Strq
  imports Kernel_Prelude
begin

text \<open>
  STREAMS message queues: \<^verbatim>\<open>uts/i386/io/stream.c\<close> from \<^verbatim>\<open>getq\<close> to \<^verbatim>\<open>strqget\<close>, with \<^verbatim>\<open>allocband\<close> and
  \<^verbatim>\<open>setqback\<close> of \<^verbatim>\<open>os/strsubr.c\<close> and the structures of \<^verbatim>\<open>sys/stream.h\<close> (the large definition).

  The chain from \<^verbatim>\<open>q_first\<close> to \<^verbatim>\<open>q_last\<close> is a list of messages, each with its address; \<^verbatim>\<open>qb_first\<close> and
  \<^verbatim>\<open>qb_last\<close> are such addresses, and may be stale. A message is its first block with the sizes
  \<^verbatim>\<open>b_wptr - b_rptr\<close> of all its blocks. The chain of \<^verbatim>\<open>qband\<close>s is a list and \<^verbatim>\<open>q_nband\<close> its length. Queues
  live at addresses, so that \<^verbatim>\<open>OTHERQ\<close> is the address before or after. Whether \<^verbatim>\<open>kmem_zalloc\<close> finds memory for
  the next band is the argument \<open>mem\<close>, applied to the number of bands allocated so far. An operation is
  \<open>None\<close> when it follows a pointer that leads to no message or band of the queue, or a walk that does not end.
\<close>

unbundle bit_operations_syntax

section \<open>Data\<close>

record strmsg =
  m_addr :: nat
  db_type :: nat
  b_band :: nat
  b_flag :: u32
  m_sizes :: "u32 list"

record qband =
  qb_count :: u32
  qb_first :: "nat option"
  qb_last :: "nat option"
  qb_hiwat :: u32
  qb_lowat :: u32
  qb_flag :: u32

record queue =
  q_msgs :: "strmsg list"
  q_next :: "nat option"
  q_srvp :: bool   \<comment> \<open>\<^verbatim>\<open>q_qinfo->qi_srvp\<close> is not \<^verbatim>\<open>NULL\<close>\<close>
  q_count :: u32
  q_flag :: u32
  q_minpsz :: int
  q_maxpsz :: int
  q_hiwat :: u32
  q_lowat :: u32
  q_bandp :: "qband list"

abbreviation q_nband :: "queue \<Rightarrow> nat" where "q_nband q \<equiv> length (q_bandp q)"

text \<open>The queues, the run list from \<^verbatim>\<open>qhead\<close>, the number of bands allocated, and the messages freed.\<close>

record strstate =
  queues :: "nat \<Rightarrow> queue"
  qrun :: "nat list"
  qrunflag :: bool
  sd_cnt :: nat
  freed :: "strmsg list"

definition QENAB :: u32 where "QENAB = 0x001"
definition QWANTR :: u32 where "QWANTR = 0x002"
definition QWANTW :: u32 where "QWANTW = 0x004"
definition QFULL :: u32 where "QFULL = 0x008"
definition QREADR :: u32 where "QREADR = 0x010"
definition QNOENB :: u32 where "QNOENB = 0x040"
definition QBACK :: u32 where "QBACK = 0x100"
definition QB_FULL :: u32 where "QB_FULL = 0x01"
definition QB_WANTW :: u32 where "QB_WANTW = 0x02"
definition QB_BACK :: u32 where "QB_BACK = 0x04"
definition MSGNOGET :: u32 where "MSGNOGET = 0x08"
definition QNORM :: nat where "QNORM = 0x00"
definition QPCTL :: nat where "QPCTL = 0x80"

lemmas q_flag_defs = QENAB_def QWANTR_def QWANTW_def QFULL_def QREADR_def QNOENB_def QBACK_def QB_FULL_def QB_WANTW_def
  QB_BACK_def MSGNOGET_def QNORM_def QPCTL_def

definition queclass :: "strmsg \<Rightarrow> nat" where
  "queclass bp = (if db_type bp \<ge> QPCTL then QPCTL else QNORM)"

text \<open>\<^verbatim>\<open>M_DATA\<close>, \<^verbatim>\<open>M_PROTO\<close>, \<^verbatim>\<open>M_PCPROTO\<close> and \<^verbatim>\<open>M_DELAY\<close>\<close>

definition datamsg :: "nat \<Rightarrow> bool" where
  "datamsg ty \<longleftrightarrow> ty = 0 \<or> ty = 1 \<or> ty = 0x83 \<or> ty = 0x0c"

definition msize :: "strmsg \<Rightarrow> u32" where
  "msize m = sum_list (m_sizes m)"

text \<open>Counting a message into and out of a band, or the normal band of the queue itself.\<close>

definition band_add :: "strmsg \<Rightarrow> qband \<Rightarrow> qband" where
  "band_add m b =
     (let c = qb_count b + msize m
      in b\<lparr>qb_count := c, qb_flag := (if c \<ge> qb_hiwat b then qb_flag b OR QB_FULL else qb_flag b)\<rparr>)"

definition norm_add :: "strmsg \<Rightarrow> queue \<Rightarrow> queue" where
  "norm_add m q =
     (let c = q_count q + msize m
      in q\<lparr>q_count := c, q_flag := (if c \<ge> q_hiwat q then q_flag q OR QFULL else q_flag q)\<rparr>)"

definition band_sub :: "strmsg \<Rightarrow> qband \<Rightarrow> qband" where
  "band_sub m b =
     (let c = qb_count b - msize m
      in b\<lparr>qb_count := c, qb_flag := (if c < qb_hiwat b then qb_flag b AND NOT QB_FULL else qb_flag b)\<rparr>)"

definition norm_sub :: "strmsg \<Rightarrow> queue \<Rightarrow> queue" where
  "norm_sub m q =
     (let c = q_count q - msize m
      in q\<lparr>q_count := c, q_flag := (if c < q_hiwat q then q_flag q AND NOT QFULL else q_flag q)\<rparr>)"

text \<open>The band of a priority \<open>pri > 0\<close>: \<^verbatim>\<open>i = pri; while (--i > 0) qbp = qbp->qb_next\<close>.\<close>

abbreviation band_of :: "queue \<Rightarrow> nat \<Rightarrow> qband" where "band_of q pri \<equiv> q_bandp q ! (pri - 1)"

definition set_band :: "nat \<Rightarrow> qband \<Rightarrow> queue \<Rightarrow> queue" where
  "set_band pri b q = q\<lparr>q_bandp := (q_bandp q)[pri - 1 := b]\<rparr>"

section \<open>Bands on demand\<close>

text \<open>\<^verbatim>\<open>while (pri > q->q_nband) ... allocband() ...\<close>: whether it succeeds, the queue and the number of bands.\<close>

function grow_bands :: "(nat \<Rightarrow> bool) \<Rightarrow> nat \<Rightarrow> queue \<Rightarrow> nat \<Rightarrow> bool \<times> queue \<times> nat" where
  "grow_bands mem pri q n =
     (if pri \<le> q_nband q then (True, q, n)
      else if \<not> mem n then (False, q, n)
      else grow_bands mem pri
             (q\<lparr>q_bandp := q_bandp q @ [\<lparr>qb_count = 0, qb_first = None, qb_last = None,
                                       qb_hiwat = q_hiwat q, qb_lowat = q_lowat q, qb_flag = 0\<rparr>]\<rparr>) (n + 1))"
  by pat_completeness auto

termination by (relation "measure (\<lambda>(mem, pri, q, n). pri - q_nband q)") auto

declare grow_bands.simps [simp del]

section \<open>Scheduling and the queue behind\<close>

definition upd_queue :: "nat \<Rightarrow> queue \<Rightarrow> strstate \<Rightarrow> strstate" where
  "upd_queue a q st = st\<lparr>queues := (queues st)(a := q)\<rparr>"

definition qenable :: "nat \<Rightarrow> strstate \<Rightarrow> strstate" where
  "qenable a st =
     (let q = queues st a in
      if \<not> q_srvp q \<or> q_flag q AND QENAB \<noteq> 0 then st
      else (upd_queue a (q\<lparr>q_flag := q_flag q OR QENAB\<rparr>) st)\<lparr>qrun := qrun st @ [a], qrunflag := True\<rparr>)"

definition OTHERQ :: "strstate \<Rightarrow> nat \<Rightarrow> nat" where
  "OTHERQ st a = (if q_flag (queues st a) AND QREADR \<noteq> 0 then a + 1 else a - 1)"

definition backq :: "strstate \<Rightarrow> nat \<Rightarrow> nat option" where
  "backq st a = map_option (OTHERQ st) (q_next (queues st (OTHERQ st a)))"

text \<open>\<^verbatim>\<open>for (q = backq(q); q && !q->q_qinfo->qi_srvp; q = backq(q))\<close>\<close>

partial_function (option) back_srv :: "strstate \<Rightarrow> nat option \<Rightarrow> nat option option" where
  "back_srv st qo =
     (case qo of
        None \<Rightarrow> Some None
      | Some a \<Rightarrow> if q_srvp (queues st a) then Some (Some a) else back_srv st (backq st a))"

definition setqback :: "(nat \<Rightarrow> bool) \<Rightarrow> nat \<Rightarrow> nat \<Rightarrow> strstate \<Rightarrow> strstate" where
  "setqback mem a pri st =
     (let q = queues st a in
      if pri \<noteq> 0 then
        (case grow_bands mem pri q (sd_cnt st) of
           (ok, q1, n) \<Rightarrow>
             (let st1 = (upd_queue a q1 st)\<lparr>sd_cnt := n\<rparr> in
              if \<not> ok then st1
              else upd_queue a (set_band pri ((band_of q1 pri)\<lparr>qb_flag := qb_flag (band_of q1 pri) OR QB_BACK\<rparr>) q1) st1))
      else upd_queue a (q\<lparr>q_flag := q_flag q OR QBACK\<rparr>) st)"

text \<open>The end of \<^verbatim>\<open>getq\<close> and \<^verbatim>\<open>rmvq\<close>.\<close>

definition backenable :: "(nat \<Rightarrow> bool) \<Rightarrow> nat \<Rightarrow> nat \<Rightarrow> strstate \<Rightarrow> strstate option" where
  "backenable mem a pri st =
     (case back_srv st (backq st a) of
        None \<Rightarrow> None
      | Some None \<Rightarrow> Some st
      | Some (Some b) \<Rightarrow> Some (setqback mem b pri (qenable b st)))"

section \<open>\<^verbatim>\<open>rmvq\<close> and \<^verbatim>\<open>getq\<close>\<close>

text \<open>The accounting both end with, and whether the queue behind is to be enabled for band \<open>pri\<close>.\<close>

definition account :: "strmsg \<Rightarrow> queue \<Rightarrow> queue \<times> bool" where
  "account m q =
     (if b_band m = 0 then
        (let wantw = q_flag q AND QWANTW \<noteq> 0; q1 = norm_sub m q in
         if wantw \<and> q_count q1 \<le> q_lowat q1 then (q1\<lparr>q_flag := q_flag q1 AND NOT QWANTW\<rparr>, True) else (q1, False))
      else
        (let b = band_of q (b_band m); wantw = qb_flag b AND QB_WANTW \<noteq> 0; b1 = band_sub m b in
         if wantw \<and> qb_count b1 \<le> qb_lowat b1
         then (set_band (b_band m) (b1\<lparr>qb_flag := qb_flag b1 AND NOT QB_WANTW\<rparr>) q, True)
         else (set_band (b_band m) b1 q, False)))"

text \<open>\<^verbatim>\<open>rmvq\<close> on the queue alone, for the message at position \<open>k\<close>.\<close>

definition rm_first :: "nat \<Rightarrow> strmsg list \<Rightarrow> nat option" where
  "rm_first k L = (if Suc k < length L \<and> b_band (L ! k) = b_band (L ! Suc k) then Some (m_addr (L ! Suc k)) else None)"

definition rm_last :: "nat \<Rightarrow> strmsg list \<Rightarrow> nat option" where
  "rm_last k L = (if 0 < k \<and> b_band (L ! k) = b_band (L ! (k - 1)) then Some (m_addr (L ! (k - 1))) else None)"

definition rmvq_queue :: "nat \<Rightarrow> queue \<Rightarrow> (queue \<times> bool) option" where
  "rmvq_queue k q =
     (let L = q_msgs q; mp = L ! k in
      if q_nband q < b_band mp then None
      else
        (let q1 = (if b_band mp \<noteq> 0 then
                     (let b = band_of q (b_band mp);
                          b1 = (if Some (m_addr mp) = qb_first b then b\<lparr>qb_first := rm_first k L\<rparr> else b);
                          b2 = (if Some (m_addr mp) = qb_last b1 then b1\<lparr>qb_last := rm_last k L\<rparr> else b1)
                      in set_band (b_band mp) b2 q)
                   else q)
         in Some (account mp (q1\<lparr>q_msgs := take k L @ drop (Suc k) L\<rparr>))))"

definition rmvq :: "(nat \<Rightarrow> bool) \<Rightarrow> nat \<Rightarrow> nat \<Rightarrow> strstate \<Rightarrow> strstate option" where
  "rmvq mem a k st =
     (case rmvq_queue k (queues st a) of
        None \<Rightarrow> None
      | Some (q1, enab) \<Rightarrow>
          (let st1 = upd_queue a q1 st in
           if enab then backenable mem a (b_band (q_msgs (queues st a) ! k)) st1 else Some st1))"

text \<open>\<^verbatim>\<open>getq\<close> on the queue alone: taking the first message \<open>bp\<close>.\<close>

definition getq_take :: "queue \<Rightarrow> (queue \<times> bool) option" where
  "getq_take q =
     (let bp = hd (q_msgs q); rest = tl (q_msgs q) in
      if q_nband q < b_band bp then None
      else
        (let q1 = q\<lparr>q_msgs := rest\<rparr>;
             q2 = (if b_band bp \<noteq> 0 then
                     (let b = band_of q (b_band bp) in
                      set_band (b_band bp)
                        (if qb_first b = qb_last b then b\<lparr>qb_first := None, qb_last := None\<rparr>
                         else b\<lparr>qb_first := (case rest of [] \<Rightarrow> None | m # _ \<Rightarrow> Some (m_addr m))\<rparr>) q1)
                   else q1);
             (q3, enab) = account bp q2
         in Some (q3\<lparr>q_flag := q_flag q3 AND NOT QWANTR\<rparr>, enab)))"

definition getq :: "(nat \<Rightarrow> bool) \<Rightarrow> nat \<Rightarrow> strstate \<Rightarrow> (strmsg option \<times> strstate) option" where
  "getq mem a st =
     (let q = queues st a in
      case q_msgs q of
        [] \<Rightarrow>
          (let q1 = q\<lparr>q_flag := q_flag q OR QWANTR\<rparr> in
           if q_flag q AND QWANTW \<noteq> 0
           then map_option (Pair None) (backenable mem a 0 (upd_queue a (q1\<lparr>q_flag := q_flag q1 AND NOT QWANTW\<rparr>) st))
           else Some (None, upd_queue a q1 st))
      | bp # rest \<Rightarrow>
          if b_flag bp AND MSGNOGET \<noteq> 0 then
            (case find_pos (\<lambda>m. b_flag m AND MSGNOGET = 0) (bp # rest) of
               None \<Rightarrow> Some (None, st)
             | Some k \<Rightarrow> map_option (Pair (Some ((bp # rest) ! k))) (rmvq mem a k st))
          else
            (case getq_take q of
               None \<Rightarrow> None
             | Some (q1, enab) \<Rightarrow>
                 map_option (Pair (Some bp))
                   (if enab then backenable mem a (b_band bp) (upd_queue a q1 st) else Some (upd_queue a q1 st))))"

section \<open>\<^verbatim>\<open>putq\<close>, \<^verbatim>\<open>putbq\<close> and \<^verbatim>\<open>insq\<close>\<close>

text \<open>A message of high priority is forced into band 0.\<close>

definition norm_band :: "strmsg \<Rightarrow> strmsg" where
  "norm_band bp = (if queclass bp = QPCTL then bp\<lparr>b_band := 0\<rparr> else bp)"

definition insert_at :: "nat \<Rightarrow> 'a \<Rightarrow> 'a list \<Rightarrow> 'a list" where
  "insert_at k x L = take k L @ x # drop k L"

text \<open>
  Where \<^verbatim>\<open>putq\<close> puts the message, given the band's structure if it has one: at the end, before the first message
  of a lower class or band, or after the last message of its band. A loop for the place stops at the end of the chain
  only by following a null pointer, which the test of \<^verbatim>\<open>q_last\<close> before it rules out.
\<close>

definition before_place :: "(strmsg \<Rightarrow> bool) \<Rightarrow> strmsg list \<Rightarrow> nat option" where
  "before_place P L = (let k = length (takeWhile P L) in if k < length L then Some k else None)"

definition skip_hi :: "(nat \<Rightarrow> bool) \<Rightarrow> strmsg list \<Rightarrow> nat option" where
  "skip_hi P L =
     (let h = length (takeWhile (\<lambda>m. db_type m \<ge> QPCTL) L) in
      map_option (\<lambda>k. h + k) (before_place (\<lambda>m. P (b_band m)) (drop h L)))"

definition putq_place :: "qband option \<Rightarrow> strmsg \<Rightarrow> strmsg list \<Rightarrow> nat option" where
  "putq_place qbp bp L =
     (if L = [] then Some 0
      else
        (case qbp of
           None \<Rightarrow>
             if queclass bp \<le> queclass (last L) then Some (length L)
             else before_place (\<lambda>m. queclass m \<ge> queclass bp) L
         | Some b \<Rightarrow>
             if qb_first b \<noteq> None then map_option Suc (find_pos (\<lambda>m. Some (m_addr m) = qb_last b) L)
             else if queclass bp < queclass (last L) \<or> b_band bp \<le> b_band (last L) then Some (length L)
             else skip_hi (\<lambda>band. band \<ge> b_band bp) L))"

definition putbq_place :: "qband option \<Rightarrow> strmsg \<Rightarrow> strmsg list \<Rightarrow> nat option" where
  "putbq_place qbp bp L =
     (if L = [] \<or> queclass bp = QPCTL then Some 0
      else
        (case qbp of
           Some b \<Rightarrow>
             if qb_first b \<noteq> None then find_pos (\<lambda>m. Some (m_addr m) = qb_first b) L
             else if queclass bp < queclass (last L) \<or> b_band bp < b_band (last L) then Some (length L)
             else skip_hi (\<lambda>band. band > b_band bp) L
         | None \<Rightarrow>
             if queclass bp < queclass (last L) \<or> b_band bp < b_band (last L) then Some (length L)
             else skip_hi (\<lambda>band. band > b_band bp) L))"

text \<open>How the pointers of the band change.\<close>

definition putq_ends :: "strmsg \<Rightarrow> qband \<Rightarrow> qband" where
  "putq_ends bp b =
     (if qb_first b = None then b\<lparr>qb_first := Some (m_addr bp), qb_last := Some (m_addr bp)\<rparr>
      else b\<lparr>qb_last := Some (m_addr bp)\<rparr>)"

definition putbq_ends :: "strmsg \<Rightarrow> qband \<Rightarrow> qband" where
  "putbq_ends bp b =
     (if qb_first b = None then b\<lparr>qb_first := Some (m_addr bp), qb_last := Some (m_addr bp)\<rparr>
      else b\<lparr>qb_first := Some (m_addr bp)\<rparr>)"

text \<open>The queue once the place and the pointers are known.\<close>

definition put_at :: "nat \<Rightarrow> (strmsg \<Rightarrow> qband \<Rightarrow> qband) \<Rightarrow> strmsg \<Rightarrow> queue \<Rightarrow> queue" where
  "put_at k ends bp q =
     (let q1 = q\<lparr>q_msgs := insert_at k bp (q_msgs q)\<rparr> in
      if b_band bp \<noteq> 0 then set_band (b_band bp) (band_add bp (ends bp (band_of q (b_band bp)))) q1
      else norm_add bp q1)"

text \<open>On an empty queue both \<^verbatim>\<open>qb_first\<close> and \<^verbatim>\<open>qb_last\<close> are set.\<close>

definition empty_ends :: "strmsg \<Rightarrow> qband \<Rightarrow> qband" where
  "empty_ends bp b = b\<lparr>qb_first := Some (m_addr bp), qb_last := Some (m_addr bp)\<rparr>"

definition enables :: "strmsg \<Rightarrow> queue \<Rightarrow> bool" where
  "enables bp q \<longleftrightarrow> queclass bp > QNORM \<or> (q_flag q AND QNOENB = 0 \<and> q_flag q AND QWANTR \<noteq> 0)"

text \<open>\<^verbatim>\<open>putq\<close> and \<^verbatim>\<open>putbq\<close>: the return value and the state.\<close>

definition put_gen ::
  "(qband option \<Rightarrow> strmsg \<Rightarrow> strmsg list \<Rightarrow> nat option) \<Rightarrow> (strmsg \<Rightarrow> qband \<Rightarrow> qband)
    \<Rightarrow> (nat \<Rightarrow> bool) \<Rightarrow> nat \<Rightarrow> strmsg \<Rightarrow> strstate \<Rightarrow> (bool \<times> strstate) option" where
  "put_gen place ends mem a bp0 st =
     (let bp = norm_band bp0 in
      case grow_bands mem (b_band bp) (queues st a) (sd_cnt st) of
        (ok, q, n) \<Rightarrow>
          (let st1 = (upd_queue a q st)\<lparr>sd_cnt := n\<rparr>;
               qbp = (if b_band bp \<noteq> 0 then Some (band_of q (b_band bp)) else None) in
           if \<not> ok then Some (False, st1)
           else
             (case place qbp bp (q_msgs q) of
                None \<Rightarrow> None
              | Some k \<Rightarrow>
                  (let q1 = put_at k (if q_msgs q = [] then empty_ends else ends) bp q;
                       st2 = upd_queue a q1 st1 in
                   Some (True, if enables bp q1 then qenable a st2 else st2)))))"

definition putq :: "(nat \<Rightarrow> bool) \<Rightarrow> nat \<Rightarrow> strmsg \<Rightarrow> strstate \<Rightarrow> (bool \<times> strstate) option" where
  "putq = put_gen putq_place putq_ends"

definition putbq :: "(nat \<Rightarrow> bool) \<Rightarrow> nat \<Rightarrow> strmsg \<Rightarrow> strstate \<Rightarrow> (bool \<times> strstate) option" where
  "putbq = put_gen putbq_place putbq_ends"

text \<open>\<^verbatim>\<open>insq\<close> before the message at position \<open>k\<close>, or at the end when \<open>k\<close> is the length of the queue (\<^verbatim>\<open>emp == NULL\<close>).\<close>

definition insq_badord :: "nat \<Rightarrow> strmsg \<Rightarrow> strmsg list \<Rightarrow> bool" where
  "insq_badord k mp L \<longleftrightarrow>
     (if k < length L then
        (queclass mp = QPCTL \<and> 0 < k \<and> db_type (L ! (k - 1)) < QPCTL)
        \<or> (queclass mp = QNORM \<and> b_band mp < b_band (L ! k))
        \<or> (0 < k \<and> db_type (L ! (k - 1)) < QPCTL \<and> b_band (L ! (k - 1)) < b_band mp)
      else L \<noteq> [] \<and> queclass mp = QNORM \<and> b_band mp > b_band (last L))"

definition insq_ends :: "nat \<Rightarrow> strmsg list \<Rightarrow> strmsg \<Rightarrow> qband \<Rightarrow> qband" where
  "insq_ends k L mp b =
     (if qb_first b = None then b\<lparr>qb_first := Some (m_addr mp), qb_last := Some (m_addr mp)\<rparr>
      else if k < length L \<and> qb_first b = Some (m_addr (L ! k)) then b\<lparr>qb_first := Some (m_addr mp)\<rparr>
      else if k < length L \<and> b_band (L ! k) \<noteq> b_band mp then b\<lparr>qb_last := Some (m_addr mp)\<rparr>
      else b)"

definition insq :: "(nat \<Rightarrow> bool) \<Rightarrow> nat \<Rightarrow> nat \<Rightarrow> strmsg \<Rightarrow> strstate \<Rightarrow> bool \<times> strstate" where
  "insq mem a k mp0 st =
     (let mp = norm_band mp0; L = q_msgs (queues st a) in
      if insq_badord k mp L then (False, st)
      else
        (case grow_bands mem (b_band mp) (queues st a) (sd_cnt st) of
           (ok, q, n) \<Rightarrow>
             (let st1 = (upd_queue a q st)\<lparr>sd_cnt := n\<rparr> in
              if \<not> ok then (False, st1)
              else
                (let q1 = put_at k (insq_ends k L) mp q; st2 = upd_queue a q1 st1 in
                 (True, if q_flag q1 AND QNOENB = 0 \<and> q_flag q1 AND QWANTR \<noteq> 0 then qenable a st2 else st2)))))"

section \<open>\<^verbatim>\<open>flushq\<close> and \<^verbatim>\<open>flushband\<close>\<close>

text \<open>Emptying the queue before the messages that stay are put back.\<close>

definition reset_band :: "qband \<Rightarrow> qband" where
  "reset_band b = b\<lparr>qb_first := None, qb_last := None, qb_count := 0, qb_flag := qb_flag b AND NOT QB_FULL\<rparr>"

definition reset_queue :: "queue \<Rightarrow> queue" where
  "reset_queue q = q\<lparr>q_msgs := [], q_count := 0, q_bandp := map reset_band (q_bandp q), q_flag := q_flag q AND NOT QFULL\<rparr>"

text \<open>The loop over the old messages: free the message or put it back.\<close>

fun flush_loop :: "(nat \<Rightarrow> bool) \<Rightarrow> nat \<Rightarrow> (strmsg \<Rightarrow> bool) \<Rightarrow> strmsg list \<Rightarrow> strstate \<Rightarrow> strstate option" where
  "flush_loop mem a gone [] st = Some st"
| "flush_loop mem a gone (mp # ms) st =
     (if gone mp then flush_loop mem a gone ms (st\<lparr>freed := freed st @ [mp]\<rparr>)
      else
        (case putq mem a mp st of
           None \<Rightarrow> None
         | Some (_, st1) \<Rightarrow> flush_loop mem a gone ms st1))"

text \<open>The bands somebody waits to write to and may now; \<open>qbf\<close> in the source.\<close>

definition want_band :: "qband \<Rightarrow> bool" where
  "want_band b \<longleftrightarrow> qb_flag b AND QB_WANTW \<noteq> 0 \<and> qb_count b \<le> qb_lowat b"

definition want_norm :: "queue \<Rightarrow> bool" where
  "want_norm q \<longleftrightarrow> q_flag q AND QWANTW \<noteq> 0 \<and> q_count q \<le> q_lowat q"

definition clear_wants :: "queue \<Rightarrow> queue" where
  "clear_wants q =
     q\<lparr>q_bandp := map (\<lambda>b. if want_band b then b\<lparr>qb_flag := qb_flag b AND NOT QB_WANTW\<rparr> else b) (q_bandp q),
       q_flag := (if want_norm q then q_flag q AND NOT QWANTW else q_flag q)\<rparr>"

definition qbf_of :: "queue \<Rightarrow> nat \<Rightarrow> bool" where
  "qbf_of q pri \<longleftrightarrow> (if pri = 0 then want_norm q else pri \<le> q_nband q \<and> want_band (band_of q pri))"

text \<open>\<^verbatim>\<open>for (bpri = q->q_nband; bpri; bpri--) if (qbf[bpri]) setqback(q, bpri)\<close> on the queue behind, then band 0.\<close>

fun setqbacks :: "(nat \<Rightarrow> bool) \<Rightarrow> nat \<Rightarrow> (nat \<Rightarrow> bool) \<Rightarrow> nat \<Rightarrow> strstate \<Rightarrow> strstate" where
  "setqbacks mem b qbf 0 st = (if qbf 0 then setqback mem b 0 st else st)"
| "setqbacks mem b qbf (Suc n) st = setqbacks mem b qbf n (if qbf (Suc n) then setqback mem b (Suc n) st else st)"

definition flushq :: "(nat \<Rightarrow> bool) \<Rightarrow> nat \<Rightarrow> bool \<Rightarrow> strstate \<Rightarrow> strstate option" where
  "flushq mem a flag st =
     (case flush_loop mem a (\<lambda>m. flag \<or> datamsg (db_type m)) (q_msgs (queues st a)) (upd_queue a (reset_queue (queues st a)) st) of
        None \<Rightarrow> None
      | Some st1 \<Rightarrow>
          (let q = queues st1 a; qbf = qbf_of q; st2 = upd_queue a (clear_wants q) st1 in
           if \<exists>pri \<in> {0..q_nband q}. qbf pri then
             (case back_srv st2 (backq st2 a) of
                None \<Rightarrow> None
              | Some None \<Rightarrow> Some st2
              | Some (Some b) \<Rightarrow>
                  (let st3 = qenable b st2 in Some (setqbacks mem b qbf (q_nband (queues st3 b)) st3)))
           else Some st2))"

text \<open>The loop of \<^verbatim>\<open>flushband\<close> from \<^verbatim>\<open>qb_first\<close> up to \<^verbatim>\<open>last\<close>, and the message it stops at.\<close>

definition flush_one :: "(nat \<Rightarrow> bool) \<Rightarrow> nat \<Rightarrow> nat \<Rightarrow> bool \<Rightarrow> strmsg \<Rightarrow> strstate \<Rightarrow> strstate option" where
  "flush_one mem a pri flag mp st =
     (if b_band mp = pri \<and> (flag \<or> datamsg (db_type mp)) then
        (case find_pos (\<lambda>m. m_addr m = m_addr mp) (q_msgs (queues st a)) of
           None \<Rightarrow> None
         | Some k \<Rightarrow> map_option (\<lambda>st1. st1\<lparr>freed := freed st1 @ [mp]\<rparr>) (rmvq mem a k st))
      else Some st)"

fun flushband_loop :: "(nat \<Rightarrow> bool) \<Rightarrow> nat \<Rightarrow> nat \<Rightarrow> bool \<Rightarrow> nat option \<Rightarrow> strmsg list \<Rightarrow> strstate \<Rightarrow> strstate option" where
  "flushband_loop mem a pri flag lst [] st = (if lst = None then Some st else None)"
| "flushband_loop mem a pri flag lst (mp # ms) st =
     (if Some (m_addr mp) = lst then flush_one mem a pri flag mp st
      else
        (case flush_one mem a pri flag mp st of
           None \<Rightarrow> None
         | Some st1 \<Rightarrow> flushband_loop mem a pri flag lst ms st1))"

definition flushband :: "(nat \<Rightarrow> bool) \<Rightarrow> nat \<Rightarrow> nat \<Rightarrow> bool \<Rightarrow> strstate \<Rightarrow> strstate option" where
  "flushband mem a pri flag st =
     (let q = queues st a in
      if pri > q_nband q then Some st
      else if pri = 0 then
        (case flush_loop mem a (\<lambda>m. b_band m = 0 \<and> db_type m < QPCTL \<and> (flag \<or> datamsg (db_type m))) (q_msgs q)
                (upd_queue a (reset_queue q) st) of
           None \<Rightarrow> None
         | Some st1 \<Rightarrow>
             if want_norm (queues st1 a)
             then backenable mem a 0 (upd_queue a ((queues st1 a)\<lparr>q_flag := q_flag (queues st1 a) AND NOT QWANTW\<rparr>) st1)
             else Some st1)
      else
        (let b = band_of q pri in
         case qb_first b of
           None \<Rightarrow> Some st
         | Some f \<Rightarrow>
             (case find_pos (\<lambda>m. m_addr m = f) (q_msgs q) of
                None \<Rightarrow> None
              | Some k \<Rightarrow>
                  (let lst = (if qb_last b = Some f
                              then (if Suc k < length (q_msgs q) then Some (m_addr (q_msgs q ! Suc k)) else None)
                              else qb_last b)
                   in flushband_loop mem a pri flag lst (drop k (q_msgs q)) st))))"

section \<open>Flow control and the other operations\<close>

text \<open>\<^verbatim>\<open>while (q->q_next && !q->q_qinfo->qi_srvp) q = q->q_next\<close>\<close>

partial_function (option) next_srv :: "strstate \<Rightarrow> nat \<Rightarrow> nat option" where
  "next_srv st a =
     (if q_srvp (queues st a) then Some a
      else case q_next (queues st a) of None \<Rightarrow> Some a | Some b \<Rightarrow> next_srv st b)"

definition canput :: "nat \<Rightarrow> strstate \<Rightarrow> (bool \<times> strstate) option" where
  "canput a st =
     (case next_srv st a of
        None \<Rightarrow> None
      | Some b \<Rightarrow>
          (let q = queues st b in
           if q_flag q AND QFULL \<noteq> 0 then Some (False, upd_queue b (q\<lparr>q_flag := q_flag q OR QWANTW\<rparr>) st)
           else Some (True, st)))"

definition bcanput :: "nat \<Rightarrow> nat \<Rightarrow> strstate \<Rightarrow> (bool \<times> strstate) option" where
  "bcanput a pri st =
     (case next_srv st a of
        None \<Rightarrow> None
      | Some b \<Rightarrow>
          (let q = queues st b in
           if pri = 0 then
             (if q_flag q AND QFULL \<noteq> 0 then Some (False, upd_queue b (q\<lparr>q_flag := q_flag q OR QWANTW\<rparr>) st)
              else Some (True, st))
           else if pri > q_nband q then Some (True, st)
           else if qb_flag (band_of q pri) AND QB_FULL \<noteq> 0 then
             Some (False, upd_queue b (set_band pri ((band_of q pri)\<lparr>qb_flag := qb_flag (band_of q pri) OR QB_WANTW\<rparr>) q) st)
           else Some (True, st)))"

definition qsize :: "nat \<Rightarrow> strstate \<Rightarrow> nat" where
  "qsize a st = length (q_msgs (queues st a))"

definition noenable :: "nat \<Rightarrow> strstate \<Rightarrow> strstate" where
  "noenable a st = upd_queue a ((queues st a)\<lparr>q_flag := q_flag (queues st a) OR QNOENB\<rparr>) st"

definition enableok :: "nat \<Rightarrow> strstate \<Rightarrow> strstate" where
  "enableok a st = upd_queue a ((queues st a)\<lparr>q_flag := q_flag (queues st a) AND NOT QNOENB\<rparr>) st"

datatype qfields = QHIWAT | QLOWAT | QMAXPSZ | QMINPSZ | QCOUNT | QFIRST | QLAST | QFLAG | QBAD

text \<open>\<^verbatim>\<open>strqset\<close>; \<open>val\<close> is a \<^verbatim>\<open>long\<close>.\<close>

definition strqset_norm :: "qfields \<Rightarrow> int \<Rightarrow> queue \<Rightarrow> errno option \<times> queue" where
  "strqset_norm what val q =
     (case what of
        QHIWAT \<Rightarrow> (None, q\<lparr>q_hiwat := of_int val\<rparr>)
      | QLOWAT \<Rightarrow> (None, q\<lparr>q_lowat := of_int val\<rparr>)
      | QMAXPSZ \<Rightarrow> (None, q\<lparr>q_maxpsz := val\<rparr>)
      | QMINPSZ \<Rightarrow> (None, q\<lparr>q_minpsz := val\<rparr>)
      | QBAD \<Rightarrow> (Some EINVAL, q)
      | _ \<Rightarrow> (Some EPERM, q))"

definition strqset_band :: "qfields \<Rightarrow> int \<Rightarrow> qband \<Rightarrow> errno option \<times> qband" where
  "strqset_band what val b =
     (case what of
        QHIWAT \<Rightarrow> (None, b\<lparr>qb_hiwat := of_int val\<rparr>)
      | QLOWAT \<Rightarrow> (None, b\<lparr>qb_lowat := of_int val\<rparr>)
      | QMAXPSZ \<Rightarrow> (Some EINVAL, b)
      | QMINPSZ \<Rightarrow> (Some EINVAL, b)
      | QBAD \<Rightarrow> (Some EINVAL, b)
      | _ \<Rightarrow> (Some EPERM, b))"

definition strqset :: "(nat \<Rightarrow> bool) \<Rightarrow> nat \<Rightarrow> qfields \<Rightarrow> nat \<Rightarrow> int \<Rightarrow> strstate \<Rightarrow> errno option \<times> strstate" where
  "strqset mem a what pri val st =
     (if what = QBAD then (Some EINVAL, st)
      else
        (case grow_bands mem pri (queues st a) (sd_cnt st) of
           (ok, q, n) \<Rightarrow>
             (let st1 = (upd_queue a q st)\<lparr>sd_cnt := n\<rparr> in
              if \<not> ok then (Some EAGAIN, st1)
              else if pri \<noteq> 0 then
                (case strqset_band what val (band_of q pri) of (e, b) \<Rightarrow> (e, upd_queue a (set_band pri b q) st1))
              else (case strqset_norm what val q of (e, q1) \<Rightarrow> (e, upd_queue a q1 st1)))))"

text \<open>What \<^verbatim>\<open>strqget\<close> stores: a number, or the address of a message.\<close>

datatype qval = UVal u32 | SVal int | PVal "nat option"

definition strqget_norm :: "qfields \<Rightarrow> queue \<Rightarrow> errno + qval" where
  "strqget_norm what q =
     (case what of
        QHIWAT \<Rightarrow> Inr (UVal (q_hiwat q))
      | QLOWAT \<Rightarrow> Inr (UVal (q_lowat q))
      | QMAXPSZ \<Rightarrow> Inr (SVal (q_maxpsz q))
      | QMINPSZ \<Rightarrow> Inr (SVal (q_minpsz q))
      | QCOUNT \<Rightarrow> Inr (UVal (q_count q))
      | QFIRST \<Rightarrow> Inr (PVal (if q_msgs q = [] then None else Some (m_addr (hd (q_msgs q)))))
      | QLAST \<Rightarrow> Inr (PVal (if q_msgs q = [] then None else Some (m_addr (last (q_msgs q)))))
      | QFLAG \<Rightarrow> Inr (UVal (q_flag q))
      | QBAD \<Rightarrow> Inl EINVAL)"

definition strqget_band :: "qfields \<Rightarrow> qband \<Rightarrow> errno + qval" where
  "strqget_band what b =
     (case what of
        QHIWAT \<Rightarrow> Inr (UVal (qb_hiwat b))
      | QLOWAT \<Rightarrow> Inr (UVal (qb_lowat b))
      | QCOUNT \<Rightarrow> Inr (UVal (qb_count b))
      | QFIRST \<Rightarrow> Inr (PVal (qb_first b))
      | QLAST \<Rightarrow> Inr (PVal (qb_last b))
      | QFLAG \<Rightarrow> Inr (UVal (qb_flag b))
      | _ \<Rightarrow> Inl EINVAL)"

definition strqget :: "(nat \<Rightarrow> bool) \<Rightarrow> nat \<Rightarrow> qfields \<Rightarrow> nat \<Rightarrow> strstate \<Rightarrow> (errno + qval) \<times> strstate" where
  "strqget mem a what pri st =
     (if what = QBAD then (Inl EINVAL, st)
      else
        (case grow_bands mem pri (queues st a) (sd_cnt st) of
           (ok, q, n) \<Rightarrow>
             (let st1 = (upd_queue a q st)\<lparr>sd_cnt := n\<rparr> in
              if \<not> ok then (Inl EAGAIN, st1)
              else if pri \<noteq> 0 then (strqget_band what (band_of q pri), st1)
              else (strqget_norm what q, st1))))"

end
