(* ===== verification/Strq_Order.thy ===== *)
theory Strq_Order
  imports Strq
begin

text \<open>
  The order of a STREAMS queue. A message has a priority: its band, or one above all bands for a message of high
  priority. A queue in good order holds its messages by falling priority, every band structure counts and delimits
  its messages. Against this invariant the places found by \<^verbatim>\<open>putq\<close> and \<^verbatim>\<open>putbq\<close> are the reference ones: behind all
  messages of the same or a higher priority, or in front of all of the same or a lower priority.
\<close>

section \<open>The invariant\<close>

definition prio :: "strmsg \<Rightarrow> nat" where
  "prio m = (if db_type m \<ge> QPCTL then 256 else b_band m)"

definition msg_ok :: "nat \<Rightarrow> strmsg \<Rightarrow> bool" where
  "msg_ok n m \<longleftrightarrow> (db_type m \<ge> QPCTL \<longrightarrow> b_band m = 0) \<and> b_band m \<le> n"

definition in_band :: "nat \<Rightarrow> strmsg list \<Rightarrow> strmsg list" where
  "in_band i L = filter (\<lambda>m. b_band m = i) L"

definition bytes :: "strmsg list \<Rightarrow> u32" where
  "bytes L = sum_list (map msize L)"

definition first_addr :: "strmsg list \<Rightarrow> nat option" where
  "first_addr F = (if F = [] then None else Some (m_addr (hd F)))"

definition last_addr :: "strmsg list \<Rightarrow> nat option" where
  "last_addr F = (if F = [] then None else Some (m_addr (last F)))"

definition band_ok :: "strmsg list \<Rightarrow> qband \<Rightarrow> bool" where
  "band_ok F b \<longleftrightarrow> qb_count b = bytes F \<and> qb_first b = first_addr F \<and> qb_last b = last_addr F"

definition in_order :: "strmsg list \<Rightarrow> bool" where
  "in_order L \<longleftrightarrow> sorted_wrt (\<lambda>a b. prio b \<le> prio a) L"

definition msgs_ok :: "nat \<Rightarrow> strmsg list \<Rightarrow> bool" where
  "msgs_ok n L \<longleftrightarrow> n \<le> 255 \<and> in_order L \<and> distinct (map m_addr L) \<and> (\<forall>m \<in> set L. msg_ok n m)"

definition q_ok :: "queue \<Rightarrow> bool" where
  "q_ok q \<longleftrightarrow> msgs_ok (q_nband q) (q_msgs q) \<and> q_count q = bytes (in_band 0 (q_msgs q))
     \<and> (\<forall>i < q_nband q. band_ok (in_band (Suc i) (q_msgs q)) (q_bandp q ! i))"

lemma in_band_simps [simp]:
  "in_band i [] = []" "in_band i (L @ M) = in_band i L @ in_band i M"
  "in_band i (m # L) = (if b_band m = i then m # in_band i L else in_band i L)"
  by (simp_all add: in_band_def)

lemma bytes_simps [simp]: "bytes [] = 0" "bytes (L @ M) = bytes L + bytes M" "bytes (m # L) = msize m + bytes L"
  by (simp_all add: bytes_def)

lemma in_order_simps [simp]:
  "in_order []" "in_order (m # L) \<longleftrightarrow> (\<forall>x \<in> set L. prio x \<le> prio m) \<and> in_order L"
  "in_order (L @ M) \<longleftrightarrow> in_order L \<and> in_order M \<and> (\<forall>a \<in> set L. \<forall>b \<in> set M. prio b \<le> prio a)"
  by (auto simp: in_order_def sorted_wrt_append)

lemma msgs_ok_Cons [simp]:
  "msgs_ok n (m # L) \<longleftrightarrow> msgs_ok n L \<and> msg_ok n m \<and> m_addr m \<notin> m_addr ` set L \<and> (\<forall>x \<in> set L. prio x \<le> prio m)"
  by (auto simp: msgs_ok_def)

lemma msgs_ok_append:
  "msgs_ok n (L @ M) \<longleftrightarrow> msgs_ok n L \<and> msgs_ok n M \<and> m_addr ` set L \<inter> m_addr ` set M = {}
     \<and> (\<forall>a \<in> set L. \<forall>b \<in> set M. prio b \<le> prio a)"
  by (auto simp: msgs_ok_def)

lemma prio_band:
  assumes "msg_ok n m" "n \<le> 255" "0 < i" "i \<le> n"
  shows "prio m = i \<longleftrightarrow> b_band m = i"
  using assms by (auto simp: prio_def msg_ok_def)

lemma prio_le: "msg_ok n m \<Longrightarrow> n \<le> 255 \<Longrightarrow> prio m \<le> 256 \<and> b_band m \<le> prio m"
  by (auto simp: prio_def msg_ok_def)

lemma hi_prio: "msg_ok n m \<Longrightarrow> n \<le> 255 \<Longrightarrow> db_type m \<ge> QPCTL \<longleftrightarrow> prio m = 256"
  by (auto simp: prio_def msg_ok_def)

lemma queclass_cases: "queclass m = (if db_type m \<ge> QPCTL then 128 else 0)"
  by (simp add: queclass_def QPCTL_def QNORM_def)

lemma QPCTL_num: "QPCTL = 128"
  by (simp add: QPCTL_def)

lemma in_band_empty: "in_band i L = [] \<longleftrightarrow> (\<forall>m \<in> set L. b_band m \<noteq> i)"
  by (auto simp: in_band_def filter_empty_conv)

section \<open>The places\<close>

definition behind :: "strmsg \<Rightarrow> strmsg list \<Rightarrow> nat" where
  "behind bp L = length (takeWhile (\<lambda>m. prio m \<ge> prio bp) L)"

definition in_front :: "strmsg \<Rightarrow> strmsg list \<Rightarrow> nat" where
  "in_front bp L = length (takeWhile (\<lambda>m. prio m > prio bp) L)"

lemma takeWhile_split: "\<forall>x \<in> set A. P x \<Longrightarrow> \<forall>x \<in> set B. \<not> P x \<Longrightarrow> takeWhile P (A @ B) = A"
  by (induction A) (auto simp: takeWhile_eq_Nil_iff hd_in_set)

lemma takeWhile_all: "\<forall>x \<in> set A. P x \<Longrightarrow> takeWhile P A = A"
  by (induction A) auto

lemma in_order_last: "in_order L \<Longrightarrow> m \<in> set L \<Longrightarrow> prio (last L) \<le> prio m"
  by (induction L) auto

text \<open>The first loop passes the messages of high priority; behind them there are none.\<close>

lemma skip_hi_place:
  assumes "msgs_ok n L" and "\<exists>m \<in> set L. \<not> (db_type m \<ge> QPCTL \<or> P (b_band m))"
  shows "skip_hi P L = Some (length (takeWhile (\<lambda>m. db_type m \<ge> QPCTL \<or> P (b_band m)) L))"
proof -
  let ?hi = "\<lambda>m. db_type m \<ge> QPCTL" and ?Q = "\<lambda>m. db_type m \<ge> QPCTL \<or> P (b_band m)"
  let ?H = "takeWhile ?hi L" and ?N = "dropWhile ?hi L"
  have L: "L = ?H @ ?N" by simp
  have n: "n \<le> 255" and okm: "\<forall>m \<in> set L. msg_ok n m" and ord: "in_order (?H @ ?N)" using assms(1) by (auto simp: msgs_ok_def)
  have N: "\<not> ?hi m" if mem: "m \<in> set ?N" for m
  proof -
    have "?N \<noteq> []" using mem by (intro notI) (simp only: list.set empty_iff)
    then obtain h M where h: "?N = h # M" by (simp only: neq_Nil_conv) blast
    have "\<not> ?hi h" using h by (metis hd_dropWhile list.sel(1) list.distinct(1))
    moreover have "prio m \<le> prio h" using mem h ord by auto
    moreover have "m \<in> set L" "h \<in> set L" using mem h by (metis list.set_intros(1) set_dropWhileD)+
    ultimately show ?thesis using hi_prio [OF _ n] prio_le [OF _ n] okm by fastforce
  qed
  have tw: "takeWhile ?Q L = ?H @ takeWhile (\<lambda>m. P (b_band m)) ?N"
  proof -
    have "takeWhile ?Q (?H @ ?N) = ?H @ takeWhile ?Q ?N" by (rule takeWhile_append2) (auto dest: set_takeWhileD)
    also have "takeWhile ?Q ?N = takeWhile (\<lambda>m. P (b_band m)) ?N" by (rule takeWhile_cong [OF refl]) (blast dest: N)
    finally show ?thesis by simp
  qed
  have "length (takeWhile ?Q L) < length L"
  proof (rule ccontr)
    assume "\<not> length (takeWhile ?Q L) < length L"
    then have "takeWhile ?Q L = L" by (metis length_takeWhile_le nat_less_le takeWhile_eq_take take_all)
    then show False using assms(2) by (metis set_takeWhileD)
  qed
  then show ?thesis unfolding tw
    by (simp add: skip_hi_def before_place_def Let_def flip: dropWhile_eq_drop)
qed

lemma behind_eq:
  assumes "in_order (A @ B)" and "\<forall>m \<in> set A. prio bp \<le> prio m" and "\<forall>m \<in> set B. prio m < prio bp"
  shows "behind bp (A @ B) = length A"
  unfolding behind_def by (subst takeWhile_split) (use assms in auto)

lemma in_front_eq:
  assumes "in_order (A @ B)" and "\<forall>m \<in> set A. prio bp < prio m" and "\<forall>m \<in> set B. prio m \<le> prio bp"
  shows "in_front bp (A @ B) = length A"
  unfolding in_front_def by (subst takeWhile_split) (use assms in auto)

lemma find_addr:
  assumes "distinct (map m_addr (A @ x # B))"
  shows "find_pos (\<lambda>m. Some (m_addr m) = Some (m_addr x)) (A @ x # B) = Some (length A)"
  using assms by (induction A) auto

text \<open>The last, or first, message of a band has all lower, or higher, priorities behind, or before, it.\<close>

lemma band_last_split:
  assumes "msgs_ok n L" "0 < i" "i \<le> n" "in_band i L \<noteq> []"
  obtains A x B where "L = A @ x # B" "x = last (in_band i L)" "\<forall>m \<in> set A. i \<le> prio m" "prio x = i" "\<forall>m \<in> set B. prio m < i"
proof -
  have ex: "\<exists>m \<in> set L. b_band m = i" using assms(4) by (simp add: in_band_empty)
  obtain A x B where L: "L = A @ x # B" "b_band x = i" "\<forall>m \<in> set B. b_band m \<noteq> i"
    using split_list_last_prop [OF ex] by blast
  have n: "n \<le> 255" "\<forall>m \<in> set L. msg_ok n m" using assms(1) by (auto simp: msgs_ok_def)
  have px: "prio x = i" using prio_band [of n x i] n L assms(2,3) by simp
  have "prio m < i" if "m \<in> set B" for m
  proof -
    have "prio m \<le> prio x" using assms(1) L(1) that by (simp add: msgs_ok_append)
    moreover have "prio m \<noteq> i" using prio_band [of n m i] n L that assms(2,3) by auto
    ultimately show ?thesis using px by simp
  qed
  moreover have "x = last (in_band i L)" using L by (simp add: in_band_empty [THEN iffD2])
  moreover have "\<forall>m \<in> set A. i \<le> prio m" using assms(1) L(1) px by (auto simp: msgs_ok_append)
  ultimately show thesis using that L(1) px by blast
qed

lemma band_first_split:
  assumes "msgs_ok n L" "0 < i" "i \<le> n" "in_band i L \<noteq> []"
  obtains A x B where "L = A @ x # B" "x = hd (in_band i L)" "\<forall>m \<in> set A. i < prio m" "prio x = i" "\<forall>m \<in> set B. prio m \<le> i"
proof -
  have ex: "\<exists>m \<in> set L. b_band m = i" using assms(4) by (simp add: in_band_empty)
  obtain A x B where L: "L = A @ x # B" "b_band x = i" "\<forall>m \<in> set A. b_band m \<noteq> i"
    using split_list_first_prop [OF ex] by blast
  have n: "n \<le> 255" "\<forall>m \<in> set L. msg_ok n m" using assms(1) by (auto simp: msgs_ok_def)
  have px: "prio x = i" using prio_band [of n x i] n L assms(2,3) by simp
  have "i < prio m" if "m \<in> set A" for m
  proof -
    have "prio x \<le> prio m" using assms(1) L(1) that by (simp add: msgs_ok_append)
    moreover have "prio m \<noteq> i" using prio_band [of n m i] n L that assms(2,3) by auto
    ultimately show ?thesis using px by simp
  qed
  moreover have "x = hd (in_band i L)" using L by (simp add: in_band_empty [THEN iffD2])
  moreover have "\<forall>m \<in> set B. prio m \<le> i" using assms(1) L(1) px by (auto simp: msgs_ok_append)
  ultimately show thesis using that L(1) px by blast
qed

definition place_ok :: "qband option \<Rightarrow> nat \<Rightarrow> strmsg \<Rightarrow> strmsg list \<Rightarrow> bool" where
  "place_ok qbp n bp L \<longleftrightarrow> msgs_ok n L \<and> msg_ok n bp
     \<and> (case qbp of None \<Rightarrow> b_band bp = 0 | Some b \<Rightarrow> 0 < b_band bp \<and> db_type bp < QPCTL \<and> band_ok (in_band (b_band bp) L) b)"

lemma behind_all: "in_order L \<Longrightarrow> L \<noteq> [] \<Longrightarrow> prio bp \<le> prio (last L) \<Longrightarrow> behind bp L = length L"
  unfolding behind_def by (subst takeWhile_all) (auto dest: in_order_last)

lemma in_front_all: "in_order L \<Longrightarrow> L \<noteq> [] \<Longrightarrow> prio bp < prio (last L) \<Longrightarrow> in_front bp L = length L"
  unfolding in_front_def by (subst takeWhile_all) (auto dest: in_order_last)

lemma skip_hi_prio:
  assumes "msgs_ok n L" "L \<noteq> []" "db_type (last L) < QPCTL" "\<not> P (b_band (last L))" "P 256" "\<And>m. m \<in> set L \<Longrightarrow> msg_ok n m"
    and "\<And>a b. P a \<Longrightarrow> a \<le> b \<Longrightarrow> P b"
  shows "skip_hi P L = Some (length (takeWhile (\<lambda>m. P (prio m)) L))"
proof -
  have "(\<lambda>m. db_type m \<ge> QPCTL \<or> P (b_band m)) = (\<lambda>m. P (prio m))"
    using assms(5) by (auto simp: prio_def fun_eq_iff)
  moreover have "\<exists>m \<in> set L. \<not> (db_type m \<ge> QPCTL \<or> P (b_band m))"
    using assms(2-4) last_in_set by force
  ultimately show ?thesis using skip_hi_place [OF assms(1), of P] by simp
qed

lemma prio_last:
  assumes "msgs_ok n L" "L \<noteq> []"
  shows "prio (last L) = (if db_type (last L) \<ge> QPCTL then 256 else b_band (last L)) \<and> b_band (last L) \<le> 255
    \<and> (db_type (last L) \<ge> QPCTL \<longrightarrow> b_band (last L) = 0)"
proof -
  have "msg_ok n (last L)" "n \<le> 255" using assms by (auto simp: msgs_ok_def)
  then show ?thesis by (auto simp: prio_def msg_ok_def)
qed

lemma putq_place_band:
  assumes "place_ok (Some b) n bp L" "L \<noteq> []"
  shows "putq_place (Some b) bp L = Some (behind bp L)"
proof -
  let ?i = "b_band bp" and ?F = "in_band (b_band bp) L"
  have ok: "msgs_ok n L" "0 < ?i" "?i \<le> n" "n \<le> 255" "in_order L" and lo: "db_type bp < QPCTL" and b: "band_ok ?F b"
    and dist: "distinct (map m_addr L)" using assms(1) by (auto simp: place_ok_def msg_ok_def msgs_ok_def)
  have p: "prio bp = ?i" "queclass bp = 0" using lo by (simp_all add: prio_def queclass_cases)
  show ?thesis
  proof (cases "?F = []")
    case False
    obtain A x B where L: "L = A @ x # B" "x = last ?F" "\<forall>m \<in> set A. ?i \<le> prio m" "prio x = ?i" "\<forall>m \<in> set B. prio m < ?i"
      using band_last_split [OF ok(1-3) False] .
    have q: "qb_last b = Some (m_addr x)" "qb_first b \<noteq> None" using b False L(2) by (simp_all add: band_ok_def last_addr_def first_addr_def)
    have "find_pos (\<lambda>m. Some (m_addr m) = qb_last b) L = Some (length A)"
      unfolding q(1) L(1) by (rule find_addr) (use dist L(1) in simp)
    moreover have "behind bp ((A @ [x]) @ B) = length (A @ [x])"
      by (rule behind_eq) (use ok(5) [unfolded L(1)] L(3-5) p in auto)
    ultimately show ?thesis using assms(2) q(2) by (simp add: putq_place_def flip: L(1))
  next
    case True
    note pl = prio_last [OF ok(1) assms(2)]
    show ?thesis
    proof (cases "queclass bp < queclass (last L) \<or> ?i \<le> b_band (last L)")
      case end1: True
      then have "prio bp \<le> prio (last L)" using pl p ok(3,4) by (auto simp: queclass_cases split: if_splits)
      then show ?thesis using behind_all [OF ok(5) assms(2)] end1 True b assms(2) by (simp add: putq_place_def band_ok_def first_addr_def)
    next
      case False
      then have "db_type (last L) < QPCTL" "\<not> ?i \<le> b_band (last L)" using p by (auto simp: queclass_cases split: if_splits)
      then have "skip_hi (\<lambda>band. band \<ge> ?i) L = Some (length (takeWhile (\<lambda>m. prio m \<ge> ?i) L))"
        using ok by (intro skip_hi_prio [OF ok(1) assms(2)]) (auto simp: msgs_ok_def)
      then show ?thesis using False True b assms(2) p by (simp add: putq_place_def band_ok_def first_addr_def behind_def)
    qed
  qed
qed

lemma putq_place_norm:
  assumes "place_ok None n bp L" "L \<noteq> []"
  shows "putq_place None bp L = Some (behind bp L)"
proof -
  have ok: "msgs_ok n L" "n \<le> 255" "in_order L" and z: "b_band bp = 0" and okm: "\<forall>m \<in> set L. msg_ok n m"
    using assms(1) by (auto simp: place_ok_def msgs_ok_def)
  note pl = prio_last [OF ok(1) assms(2)]
  have p: "prio bp = (if db_type bp \<ge> QPCTL then 256 else 0)" using z by (simp add: prio_def)
  show ?thesis
  proof (cases "queclass bp \<le> queclass (last L)")
    case True
    then have "prio bp \<le> prio (last L)" using pl p by (auto simp: queclass_cases split: if_splits)
    then show ?thesis using behind_all [OF ok(3) assms(2)] True assms(2) by (simp add: putq_place_def)
  next
    case False
    then have hi: "db_type bp \<ge> QPCTL" "\<not> db_type (last L) \<ge> QPCTL" by (auto simp: queclass_cases split: if_splits)
    have "queclass m \<ge> queclass bp \<longleftrightarrow> prio m \<ge> prio bp" if "m \<in> set L" for m
      using okm that hi p ok(2) by (auto simp: queclass_cases prio_def msg_ok_def)
    then have tw: "takeWhile (\<lambda>m. queclass m \<ge> queclass bp) L = takeWhile (\<lambda>m. prio m \<ge> prio bp) L"
      by (intro takeWhile_cong) auto
    have "takeWhile (\<lambda>m. queclass m \<ge> queclass bp) L \<noteq> L"
      using False last_in_set [OF assms(2)] by (metis set_takeWhileD)
    then have "behind bp L < length L" unfolding tw behind_def
      by (metis length_takeWhile_le nat_less_le takeWhile_eq_take take_all)
    then show ?thesis using False assms(2) by (simp add: putq_place_def before_place_def tw behind_def)
  qed
qed

lemma putq_place_eq:
  assumes "place_ok qbp n bp L"
  shows "putq_place qbp bp L = Some (behind bp L)"
proof (cases "L = []")
  case False
  then show ?thesis using assms putq_place_band putq_place_norm by (cases qbp) auto
qed (simp add: putq_place_def behind_def)

text \<open>And the places of \<^verbatim>\<open>putbq\<close>.\<close>

lemma putbq_place_low:
  assumes "msgs_ok n L" "L \<noteq> []" "msg_ok n bp" "db_type bp < QPCTL"
  shows "(if queclass bp < queclass (last L) \<or> b_band bp < b_band (last L) then Some (length L)
          else skip_hi (\<lambda>band. band > b_band bp) L) = Some (in_front bp L)"
proof -
  have ok: "n \<le> 255" "in_order L" "b_band bp \<le> n" using assms(1,3) by (auto simp: msgs_ok_def msg_ok_def)
  have p: "prio bp = b_band bp" "queclass bp = 0" using assms(4) by (simp_all add: prio_def queclass_cases)
  note pl = prio_last [OF assms(1,2)]
  show ?thesis
  proof (cases "queclass bp < queclass (last L) \<or> b_band bp < b_band (last L)")
    case True
    then have "prio bp < prio (last L)" using pl p ok by (auto simp: queclass_cases split: if_splits)
    then show ?thesis using in_front_all [OF ok(2) assms(2)] True by simp
  next
    case False
    then have "db_type (last L) < QPCTL" "\<not> b_band bp < b_band (last L)" using p by (auto simp: queclass_cases split: if_splits)
    then have "skip_hi (\<lambda>band. band > b_band bp) L = Some (length (takeWhile (\<lambda>m. prio m > b_band bp) L))"
      using ok assms(1) by (intro skip_hi_prio [OF assms(1,2)]) (auto simp: msgs_ok_def)
    then show ?thesis using False p by (simp add: in_front_def)
  qed
qed

lemma putbq_place_eq:
  assumes "place_ok qbp n bp L"
  shows "putbq_place qbp bp L = Some (in_front bp L)"
proof -
  have ok: "msgs_ok n L" "msg_ok n bp" "n \<le> 255" "in_order L" and dist: "distinct (map m_addr L)"
    using assms by (auto simp: place_ok_def msgs_ok_def)
  consider (hi) "db_type bp \<ge> QPCTL" | (empty) "db_type bp < QPCTL" "L = []" | (norm) "db_type bp < QPCTL" "L \<noteq> []" "qbp = None"
    | (new) b where "db_type bp < QPCTL" "L \<noteq> []" "qbp = Some b" "in_band (b_band bp) L = []"
    | (old) b where "db_type bp < QPCTL" "L \<noteq> []" "qbp = Some b" "in_band (b_band bp) L \<noteq> []"
    by (metis leI option.exhaust)
  then show ?thesis
  proof cases
    case hi
    have "\<not> prio m > prio bp" if "m \<in> set L" for m using that hi prio_le [of n m] ok by (auto simp: msgs_ok_def prio_def)
    then have "in_front bp L = 0" by (cases L) (auto simp: in_front_def)
    then show ?thesis using hi by (simp add: putbq_place_def queclass_def)
  next
    case empty
    then show ?thesis by (simp add: putbq_place_def in_front_def)
  next
    case norm
    then show ?thesis using putbq_place_low [OF ok(1) norm(2) ok(2) norm(1)] by (simp add: putbq_place_def queclass_cases QPCTL_num)
  next
    case new
    then have "qb_first b = None" using assms by (simp add: place_ok_def band_ok_def first_addr_def)
    then show ?thesis using new putbq_place_low [OF ok(1) new(2) ok(2) new(1)] by (simp add: putbq_place_def queclass_cases QPCTL_num)
  next
    case old
    have i: "0 < b_band bp" "b_band bp \<le> n" "band_ok (in_band (b_band bp) L) b"
      using assms old by (auto simp: place_ok_def msg_ok_def)
    obtain A x B where L: "L = A @ x # B" "x = hd (in_band (b_band bp) L)" "\<forall>m \<in> set A. b_band bp < prio m" "prio x = b_band bp"
      "\<forall>m \<in> set B. prio m \<le> b_band bp" using band_first_split [OF ok(1) i(1,2) old(4)] .
    have q: "qb_first b = Some (m_addr x)" using i(3) old(4) L(2) by (simp add: band_ok_def first_addr_def)
    have "find_pos (\<lambda>m. Some (m_addr m) = qb_first b) L = Some (length A)"
      unfolding q L(1) by (rule find_addr) (use dist L(1) in simp)
    moreover have "in_front bp (A @ x # B) = length A"
      by (rule in_front_eq) (use ok(4) [unfolded L(1)] L(3-5) old(1) in \<open>auto simp: prio_def\<close>)
    ultimately show ?thesis using old(1-3) q by (simp add: putbq_place_def queclass_cases QPCTL_num flip: L(1))
  qed
qed

end
