(* ===== verification/Strq_Ops.thy ===== *)
theory Strq_Ops
  imports Strq_Order
begin

text \<open>
  Every queue operation keeps the invariant, and acts on the messages of each priority as on a first-in first-out list.
\<close>

section \<open>Flags do not matter to the order\<close>

lemma q_ok_flag [simp]: "q_ok (q\<lparr>q_flag := f\<rparr>) = q_ok q"
  by (simp add: q_ok_def)

lemma band_ok_flag [simp]: "band_ok F (b\<lparr>qb_flag := f\<rparr>) = band_ok F b"
  by (simp add: band_ok_def)

lemma set_band_simps [simp]:
  "q_msgs (set_band i b q) = q_msgs q" "q_count (set_band i b q) = q_count q" "q_flag (set_band i b q) = q_flag q"
  "length (q_bandp (set_band i b q)) = length (q_bandp q)" "q_next (set_band i b q) = q_next q"
  "q_srvp (set_band i b q) = q_srvp q" "q_hiwat (set_band i b q) = q_hiwat q" "q_lowat (set_band i b q) = q_lowat q"
  by (simp_all add: set_band_def)

lemma q_ok_set_flag:
  assumes "q_ok q" "0 < i" "i \<le> q_nband q"
  shows "q_ok (set_band i ((band_of q i)\<lparr>qb_flag := f\<rparr>) q)"
  using assms by (auto simp: q_ok_def set_band_def nth_list_update)

lemma q_okD:
  assumes "q_ok q"
  shows "msgs_ok (q_nband q) (q_msgs q)" "q_count q = bytes (in_band 0 (q_msgs q))"
    "\<And>i. 0 < i \<Longrightarrow> i \<le> q_nband q \<Longrightarrow> band_ok (in_band i (q_msgs q)) (band_of q i)"
proof -
  show "msgs_ok (q_nband q) (q_msgs q)" "q_count q = bytes (in_band 0 (q_msgs q))" using assms by (auto simp: q_ok_def)
  fix i :: nat assume "0 < i" "i \<le> q_nband q"
  then show "band_ok (in_band i (q_msgs q)) (band_of q i)" using assms by (cases i) (auto simp: q_ok_def)
qed

text \<open>The band structures of a queue whose messages and one band have changed.\<close>

lemma q_ok_change:
  assumes "q_ok q" and "msgs_ok (q_nband q) L" and "q_bandp q' = (q_bandp q)[i - 1 := b]" and "q_msgs q' = L"
    and "q_count q' = bytes (in_band 0 L)" and "0 < i" and "band_ok (in_band i L) b"
    and "\<And>j. j \<noteq> i \<Longrightarrow> 0 < j \<Longrightarrow> in_band j L = in_band j (q_msgs q)"
  shows "q_ok q'"
proof -
  have "band_ok (in_band (Suc j) L) (q_bandp q' ! j)" if "j < q_nband q" for j
  proof (cases "Suc j = i")
    case True
    then show ?thesis using assms(3,7) that by auto
  next
    case False
    then have "q_bandp q' ! j = q_bandp q ! j" using assms(3) that by (metis Suc_pred' assms(6) nth_list_update_neq)
    then show ?thesis using assms(1,8) False that by (simp add: q_ok_def)
  qed
  then show ?thesis using assms(2-5) by (simp add: q_ok_def)
qed

section \<open>Putting\<close>

definition ends_ok :: "(strmsg \<Rightarrow> qband \<Rightarrow> qband) \<Rightarrow> strmsg \<Rightarrow> strmsg list \<Rightarrow> strmsg list \<Rightarrow> bool" where
  "ends_ok ends bp FA FB \<longleftrightarrow>
     (\<forall>b. band_ok (FA @ FB) b \<longrightarrow> qb_count (ends bp b) = qb_count b
        \<and> qb_first (ends bp b) = first_addr (FA @ bp # FB) \<and> qb_last (ends bp b) = last_addr (FA @ bp # FB))"

lemma putq_ends_ok: "ends_ok putq_ends bp FA []"
  by (cases FA) (auto simp: ends_ok_def putq_ends_def band_ok_def first_addr_def last_addr_def)

lemma putbq_ends_ok: "ends_ok putbq_ends bp [] FB"
  by (cases FB) (auto simp: ends_ok_def putbq_ends_def band_ok_def first_addr_def last_addr_def)

lemma empty_ends_ok: "ends_ok empty_ends bp [] []"
  by (auto simp: ends_ok_def empty_ends_def first_addr_def last_addr_def)

lemma band_add_ok:
  assumes "band_ok (FA @ FB) b" and "ends_ok ends bp FA FB"
  shows "band_ok (FA @ bp # FB) (band_add bp (ends bp b))"
  using assms by (simp add: ends_ok_def band_ok_def band_add_def Let_def algebra_simps)

lemma put_at_ok:
  assumes "q_ok q" and "msg_ok (q_nband q) bp" and "m_addr bp \<notin> m_addr ` set (q_msgs q)" and L: "q_msgs q = A @ B"
    and "\<forall>a \<in> set A. prio bp \<le> prio a" and "\<forall>b \<in> set B. prio b \<le> prio bp"
    and "b_band bp \<noteq> 0 \<Longrightarrow> ends_ok ends bp (in_band (b_band bp) A) (in_band (b_band bp) B)"
  shows "q_ok (put_at (length A) ends bp q)" and "q_msgs (put_at (length A) ends bp q) = A @ bp # B"
proof -
  have M: "msgs_ok (q_nband q) (A @ bp # B)"
    using q_okD(1) [OF assms(1)] assms(2,3,5,6) L by (auto simp: msgs_ok_append)
  show m: "q_msgs (put_at (length A) ends bp q) = A @ bp # B"
    using L by (simp add: put_at_def insert_at_def norm_add_def Let_def)
  show "q_ok (put_at (length A) ends bp q)"
  proof (cases "b_band bp = 0")
    case True
    then show ?thesis
      using assms(1) L M by (auto simp: put_at_def insert_at_def norm_add_def q_ok_def Let_def algebra_simps)
  next
    case False
    let ?i = "b_band bp"
    have "band_ok (in_band ?i A @ in_band ?i B) (band_of q ?i)"
      using q_okD(3) [OF assms(1), of ?i] assms(2) False L by (simp add: msg_ok_def)
    then have "band_ok (in_band ?i (A @ bp # B)) (band_add bp (ends bp (band_of q ?i)))"
      using band_add_ok assms(7) False by simp
    then show ?thesis
      using False q_okD(2) [OF assms(1)] L m M
      by (intro q_ok_change [OF assms(1), of "A @ bp # B" _ ?i]) (auto simp: put_at_def set_band_def Let_def)
  qed
qed

text \<open>Growing the bands.\<close>

lemma grow_bands_ok:
  "q_ok q \<Longrightarrow> pri \<le> 255 \<Longrightarrow> grow_bands mem pri q n = (ok, q1, n1) \<Longrightarrow>
     q_ok q1 \<and> q_msgs q1 = q_msgs q \<and> q_flag q1 = q_flag q \<and> q_count q1 = q_count q \<and> q_next q1 = q_next q \<and> q_srvp q1 = q_srvp q
     \<and> q_nband q \<le> q_nband q1 \<and> (\<forall>j < q_nband q. q_bandp q1 ! j = q_bandp q ! j) \<and> (ok \<longleftrightarrow> pri \<le> q_nband q1) \<and> (\<not> ok \<longrightarrow> \<not> mem n1)"
proof (induction mem pri q n rule: grow_bands.induct)
  case (1 mem pri q n)
  show ?case
  proof (cases "pri \<le> q_nband q \<or> \<not> mem n")
    case True
    then show ?thesis using "1.prems" by (subst (asm) grow_bands.simps) (auto split: if_splits)
  next
    case False
    let ?nb = "\<lparr>qb_count = 0, qb_first = None, qb_last = None, qb_hiwat = q_hiwat q, qb_lowat = q_lowat q, qb_flag = 0\<rparr>"
    let ?q = "q\<lparr>q_bandp := q_bandp q @ [?nb]\<rparr>"
    have g: "grow_bands mem pri ?q (n + 1) = (ok, q1, n1)"
      using "1.prems"(3) False by (subst (asm) grow_bands.simps) simp
    have "in_band (Suc (q_nband q)) (q_msgs q) = []"
      using q_okD(1) [OF "1.prems"(1)] by (auto simp: in_band_empty msgs_ok_def msg_ok_def)
    then have "q_ok ?q" using "1.prems"(1,2) False
      by (auto simp: q_ok_def msgs_ok_def msg_ok_def nth_append less_Suc_eq band_ok_def first_addr_def last_addr_def)
    from "1.IH" [OF _ _ this "1.prems"(2) g] False show ?thesis by (auto simp: nth_append)
  qed
qed

section \<open>The state\<close>

definition st_ok :: "strstate \<Rightarrow> bool" where
  "st_ok st \<longleftrightarrow> (\<forall>a. q_ok (queues st a))"

lemma st_okD: "st_ok st \<Longrightarrow> q_ok (queues st a)"
  by (simp add: st_ok_def)

abbreviation msgs_at :: "strstate \<Rightarrow> nat \<Rightarrow> strmsg list" where
  "msgs_at st a \<equiv> q_msgs (queues st a)"

lemma upd_queue_simps [simp]:
  "queues (upd_queue a q st) b = (if b = a then q else queues st b)" "sd_cnt (upd_queue a q st) = sd_cnt st"
  "qrun (upd_queue a q st) = qrun st" "freed (upd_queue a q st) = freed st"
  by (simp_all add: upd_queue_def)

lemma st_ok_upd: "st_ok st \<Longrightarrow> q_ok q \<Longrightarrow> st_ok (upd_queue a q st)"
  by (simp add: st_ok_def)

lemma st_ok_fields [simp]: "st_ok (st\<lparr>sd_cnt := n\<rparr>) = st_ok st" "st_ok (st\<lparr>freed := f\<rparr>) = st_ok st"
  by (simp_all add: st_ok_def)

lemma qenable_ok: "st_ok st \<Longrightarrow> st_ok (qenable a st)"
  by (simp add: qenable_def Let_def st_ok_def)

lemma qenable_frame [simp]: "msgs_at (qenable a st) b = msgs_at st b" "freed (qenable a st) = freed st"
  by (simp_all add: qenable_def Let_def)

lemma norm_band_ok: "b_band bp \<le> 255 \<Longrightarrow> b_band (norm_band bp) \<le> n \<Longrightarrow> msg_ok n (norm_band bp)"
  by (auto simp: norm_band_def msg_ok_def queclass_cases QPCTL_num split: if_splits)

lemma norm_band_simps [simp]:
  "m_addr (norm_band bp) = m_addr bp" "db_type (norm_band bp) = db_type bp" "b_band bp \<le> 255 \<Longrightarrow> b_band (norm_band bp) \<le> 255"
  by (auto simp: norm_band_def)

text \<open>
  What \<^verbatim>\<open>putq\<close> and \<^verbatim>\<open>putbq\<close> have in common: a place that fits the order and is found whenever the queue is in order,
  and the pointers of the band set to match.
\<close>

locale put_op =
  fixes place :: "qband option \<Rightarrow> strmsg \<Rightarrow> strmsg list \<Rightarrow> nat option"
    and ends :: "strmsg \<Rightarrow> qband \<Rightarrow> qband"
    and pos :: "strmsg \<Rightarrow> strmsg list \<Rightarrow> nat"
  assumes place_pos: "place_ok qbp n bp L \<Longrightarrow> place qbp bp L = Some (pos bp L)"
    and pos_before: "in_order L \<Longrightarrow> a \<in> set (take (pos bp L) L) \<Longrightarrow> prio bp \<le> prio a"
    and pos_after: "in_order L \<Longrightarrow> b \<in> set (drop (pos bp L) L) \<Longrightarrow> prio b \<le> prio bp"
    and pos_ends: "msgs_ok n L \<Longrightarrow> msg_ok n bp \<Longrightarrow> b_band bp \<noteq> 0 \<Longrightarrow>
      ends_ok (if L = [] then empty_ends else ends) bp (in_band (b_band bp) (take (pos bp L) L)) (in_band (b_band bp) (drop (pos bp L) L))"
    and pos_le: "pos bp L \<le> length L"
begin

lemma put_at_pos:
  assumes "q_ok q" "msg_ok (q_nband q) bp" "m_addr bp \<notin> m_addr ` set (q_msgs q)"
  shows "q_ok (put_at (pos bp (q_msgs q)) (if q_msgs q = [] then empty_ends else ends) bp q)
    \<and> q_msgs (put_at (pos bp (q_msgs q)) (if q_msgs q = [] then empty_ends else ends) bp q) = insert_at (pos bp (q_msgs q)) bp (q_msgs q)"
proof -
  let ?L = "q_msgs q" and ?k = "pos bp (q_msgs q)"
  have o1: "in_order ?L" using q_okD(1) [OF assms(1)] by (simp add: msgs_ok_def)
  have len: "length (take ?k ?L) = ?k" using pos_le by simp
  note put = put_at_ok [OF assms, of "take ?k ?L" "drop ?k ?L", unfolded len]
  show ?thesis
    using put [of "if ?L = [] then empty_ends else ends"] pos_before [OF o1] pos_after [OF o1] pos_ends [OF q_okD(1) [OF assms(1)] assms(2)]
    by (auto simp: insert_at_def)
qed

lemma put_ok:
  assumes "st_ok st" and "b_band bp \<le> 255" and "m_addr bp \<notin> m_addr ` set (msgs_at st a)"
  shows "\<exists>r st'. put_gen place ends mem a bp st = Some (r, st') \<and> st_ok st' \<and> freed st' = freed st
     \<and> (\<forall>b. b \<noteq> a \<longrightarrow> msgs_at st' b = msgs_at st b)
     \<and> msgs_at st' a = (if r then insert_at (pos (norm_band bp) (msgs_at st a)) (norm_band bp) (msgs_at st a) else msgs_at st a)
     \<and> (b_band (norm_band bp) \<le> q_nband (queues st a) \<longrightarrow> r) \<and> (\<not> r \<longrightarrow> \<not> mem (sd_cnt st'))"
proof -
  let ?bp = "norm_band bp"
  obtain ok q n where g: "grow_bands mem (b_band ?bp) (queues st a) (sd_cnt st) = (ok, q, n)" by (metis prod_cases3)
  note G = grow_bands_ok [OF st_okD [OF assms(1)] _ g]
  have q: "q_ok q" "q_msgs q = msgs_at st a" and okq: "ok \<longleftrightarrow> b_band ?bp \<le> q_nband q" and le: "q_nband (queues st a) \<le> q_nband q"
    and fail: "\<not> ok \<longrightarrow> \<not> mem n" using G assms(2) by auto
  show ?thesis
  proof (cases ok)
    case False
    then show ?thesis using g assms(1) q okq le fail by (auto simp: put_gen_def Let_def st_ok_upd)
  next
    case True
    then have m: "msg_ok (q_nband q) ?bp" using norm_band_ok assms(2) okq by blast
    let ?qbp = "if b_band ?bp \<noteq> 0 then Some (band_of q (b_band ?bp)) else None"
    have "place_ok ?qbp (q_nband q) ?bp (q_msgs q)"
      using q_okD(1,3) [OF q(1)] m by (auto simp: place_ok_def msg_ok_def)
    then have pl: "place ?qbp ?bp (q_msgs q) = Some (pos ?bp (q_msgs q))" by (rule place_pos)
    let ?q1 = "put_at (pos ?bp (q_msgs q)) (if q_msgs q = [] then empty_ends else ends) ?bp q"
    let ?st2 = "upd_queue a ?q1 ((upd_queue a q st)\<lparr>sd_cnt := n\<rparr>)"
    let ?st3 = "if enables ?bp ?q1 then qenable a ?st2 else ?st2"
    have r: "put_gen place ends mem a bp st = Some (True, ?st3)" using g True pl unfolding put_gen_def Let_def by simp
    have "m_addr ?bp \<notin> m_addr ` set (q_msgs q)" using assms(3) q(2) by simp
    note put = put_at_pos [OF q(1) m this]
    have s2: "st_ok ?st2" "msgs_at ?st2 a = insert_at (pos ?bp (msgs_at st a)) ?bp (msgs_at st a)"
      using put assms(1) q by (simp_all add: st_ok_upd)
    then have s3: "st_ok ?st3" "msgs_at ?st3 a = insert_at (pos ?bp (msgs_at st a)) ?bp (msgs_at st a)"
      "\<forall>b. b \<noteq> a \<longrightarrow> msgs_at ?st3 b = msgs_at st b" "freed ?st3 = freed st"
      using qenable_ok by simp_all
    show ?thesis using r s3 by (intro exI [of _ True] exI [of _ ?st3]) simp
  qed
qed

end

lemma take_behind: "in_order L \<Longrightarrow> b \<in> set (drop (behind bp L) L) \<Longrightarrow> prio b < prio bp"
  by (induction L) (auto simp: behind_def split: if_splits)

lemma take_in_front: "in_order L \<Longrightarrow> b \<in> set (drop (in_front bp L) L) \<Longrightarrow> prio b \<le> prio bp"
  by (induction L) (auto simp: in_front_def split: if_splits)

lemma in_band_none:
  assumes "msgs_ok n L" "set M \<subseteq> set L" "0 < i" "i \<le> n" "\<forall>m \<in> set M. prio m \<noteq> i"
  shows "in_band i M = []"
proof -
  have "b_band m \<noteq> i" if "m \<in> set M" for m
    using prio_band [of n m i] assms that by (auto simp: msgs_ok_def)
  then show ?thesis by (simp add: in_band_empty)
qed

interpretation putq_op: put_op putq_place putq_ends behind
proof (unfold_locales, goal_cases)
  case (4 n L bp)
  have p: "prio bp = b_band bp" "b_band bp \<le> n" using 4 by (auto simp: msg_ok_def prio_def)
  have "\<forall>m \<in> set (drop (behind bp L) L). prio m \<noteq> b_band bp"
    using take_behind [of L _ bp] 4(1) p by (fastforce simp: msgs_ok_def)
  then have "in_band (b_band bp) (drop (behind bp L) L) = []"
    by (intro in_band_none [OF 4(1)]) (use 4 p in \<open>auto dest: in_set_dropD\<close>)
  then show ?case using putq_ends_ok empty_ends_ok by auto
qed (auto simp: putq_place_eq behind_def length_takeWhile_le dest: take_behind [unfolded behind_def] set_takeWhileD simp flip: takeWhile_eq_take)

interpretation putbq_op: put_op putbq_place putbq_ends in_front
proof (unfold_locales, goal_cases)
  case (4 n L bp)
  have p: "prio bp = b_band bp" "b_band bp \<le> n" using 4 by (auto simp: msg_ok_def prio_def)
  have "\<forall>m \<in> set (take (in_front bp L) L). prio m \<noteq> b_band bp"
    using p by (auto simp: in_front_def simp flip: takeWhile_eq_take dest: set_takeWhileD)
  then have "in_band (b_band bp) (take (in_front bp L) L) = []"
    by (intro in_band_none [OF 4(1)]) (use 4 p in \<open>auto dest: in_set_takeD\<close>)
  then show ?case using putbq_ends_ok empty_ends_ok by auto
qed (auto simp: putbq_place_eq in_front_def length_takeWhile_le dest: take_in_front [unfolded in_front_def] set_takeWhileD simp flip: takeWhile_eq_take)

section \<open>Taking\<close>

lemma account_msgs [simp]: "q_msgs (fst (account mp q)) = q_msgs q"
  by (simp add: account_def Let_def norm_sub_def)

lemma msgs_ok_remove: "msgs_ok n (A @ mp # B) \<Longrightarrow> msgs_ok n (A @ B)"
  by (auto simp: msgs_ok_append)

lemma account_norm:
  assumes "q_ok q0" "q_msgs q0 = A @ mp # B" "b_band mp = 0"
  shows "q_ok (fst (account mp (q0\<lparr>q_msgs := A @ B\<rparr>)))"
proof -
  have "q_count q0 = bytes (in_band 0 A) + (msize mp + bytes (in_band 0 B))" using assms by (simp add: q_ok_def)
  then have "q_ok (norm_sub mp (q0\<lparr>q_msgs := A @ B\<rparr>))"
    using assms msgs_ok_remove [of "q_nband q0" A mp B] by (simp add: q_ok_def norm_sub_def Let_def)
  then show ?thesis using assms(3) by (simp add: account_def Let_def)
qed

lemma account_band:
  assumes "q_ok q0" "q_msgs q0 = A @ mp # B" "b_band mp = i" "0 < i"
    and "qb_count b = qb_count (band_of q0 i)" "qb_first b = first_addr (in_band i (A @ B))" "qb_last b = last_addr (in_band i (A @ B))"
  shows "q_ok (fst (account mp (set_band i b (q0\<lparr>q_msgs := A @ B\<rparr>))))"
proof -
  have M: "msgs_ok (q_nband q0) (A @ mp # B)" using q_okD(1) [OF assms(1)] assms(2) by simp
  then have i: "i \<le> q_nband q0" using assms(3) by (auto simp: msgs_ok_append msg_ok_def)
  let ?q = "set_band i b (q0\<lparr>q_msgs := A @ B\<rparr>)"
  have bq: "band_of ?q i = b" using i assms(4) by (simp add: set_band_def)
  have "qb_count (band_of q0 i) = bytes (in_band i A) + (msize mp + bytes (in_band i B))"
    using q_okD(3) [OF assms(1) assms(4) i] assms(2,3) by (simp add: band_ok_def)
  then have b: "band_ok (in_band i (A @ B)) (band_sub mp b)" using assms(5-7) by (simp add: band_ok_def band_sub_def Let_def)
  have ok: "q_ok (set_band i b2 ?q)" if "band_ok (in_band i (A @ B)) b2" for b2
    using q_okD(2) [OF assms(1)] assms(2-4) that msgs_ok_remove [OF M]
    by (intro q_ok_change [OF assms(1), of "A @ B" _ i b2]) (auto simp: set_band_def)
  then show ?thesis using b assms(3,4) bq by (auto simp: account_def Let_def)
qed

text \<open>Messages of one band are next to each other.\<close>

lemma next_in_band:
  assumes "msgs_ok n (A @ mp # B)" "b_band mp = i" "0 < i"
  shows "first_addr (in_band i B) = (if B \<noteq> [] \<and> b_band (hd B) = i then Some (m_addr (hd B)) else None)"
proof (cases B)
  case (Cons x C)
  have ok: "n \<le> 255" "msg_ok n mp" "msg_ok n x" "\<forall>m \<in> set C. msg_ok n m" "i \<le> n" "prio x \<le> prio mp" "\<forall>m \<in> set C. prio m \<le> prio x"
    using assms Cons by (auto simp: msgs_ok_append msgs_ok_def msg_ok_def)
  have p: "prio mp = i" using prio_band [OF ok(2,1) assms(3) ok(5)] assms(2) by simp
  have "in_band i C = []" if "b_band x \<noteq> i"
  proof -
    have "prio x < i" using ok(6) p prio_band [OF ok(3,1) assms(3) ok(5)] that by auto
    then have "b_band m \<noteq> i" if "m \<in> set C" for m using that ok prio_le [of n m] by fastforce
    then show ?thesis by (simp add: in_band_empty)
  qed
  then show ?thesis using Cons by (simp add: first_addr_def)
qed (simp add: first_addr_def)

lemma prev_in_band:
  assumes "msgs_ok n (A @ mp # B)" "b_band mp = i" "0 < i"
  shows "last_addr (in_band i A) = (if A \<noteq> [] \<and> b_band (last A) = i then Some (m_addr (last A)) else None)"
proof (cases A rule: rev_cases)
  case (snoc C x)
  have ok: "n \<le> 255" "msg_ok n mp" "msg_ok n x" "\<forall>m \<in> set C. msg_ok n m" "i \<le> n" "prio mp \<le> prio x" "\<forall>m \<in> set C. prio x \<le> prio m"
    using assms snoc by (auto simp: msgs_ok_append msgs_ok_def msg_ok_def)
  have p: "prio mp = i" using prio_band [OF ok(2,1) assms(3) ok(5)] assms(2) by simp
  have "in_band i C = []" if "b_band x \<noteq> i"
  proof -
    have "i < prio x" using ok(6) p prio_band [OF ok(3,1) assms(3) ok(5)] that by auto
    then have "b_band m \<noteq> i" if "m \<in> set C" for m
      using that ok prio_band [OF _ ok(1) assms(3) ok(5), of m] by fastforce
    then show ?thesis by (simp add: in_band_empty)
  qed
  then show ?thesis using snoc by (simp add: last_addr_def)
qed (simp add: last_addr_def)

lemma addr_first: "distinct (map m_addr (A @ mp # B)) \<Longrightarrow> b_band mp = i \<Longrightarrow>
    Some (m_addr mp) = first_addr (in_band i (A @ mp # B)) \<longleftrightarrow> in_band i A = []"
  by (cases "in_band i A") (auto simp: first_addr_def in_band_def filter_eq_Cons_iff)

lemma addr_last: "distinct (map m_addr (A @ mp # B)) \<Longrightarrow> b_band mp = i \<Longrightarrow>
    Some (m_addr mp) = last_addr (in_band i (A @ mp # B)) \<longleftrightarrow> in_band i B = []"
proof -
  assume d: "distinct (map m_addr (A @ mp # B))" and i: "b_band mp = i"
  have "m_addr (last (in_band i B)) \<noteq> m_addr mp" if "in_band i B \<noteq> []"
  proof -
    have "last (in_band i B) \<in> set B" using last_in_set [OF that] by (simp add: in_band_def)
    moreover have "m_addr mp \<notin> m_addr ` set B" using d by simp
    ultimately show ?thesis by (metis imageI)
  qed
  then show ?thesis using i by (auto simp: last_addr_def)
qed

lemma rmv_ends:
  assumes "band_ok (in_band i (A @ mp # B)) b" "b_band mp = i" "distinct (map m_addr (A @ mp # B))"
  shows "first_addr (in_band i (A @ B)) = (if Some (m_addr mp) = qb_first b then first_addr (in_band i B) else qb_first b)"
    and "last_addr (in_band i (A @ B)) = (if Some (m_addr mp) = qb_last b then last_addr (in_band i A) else qb_last b)"
  using assms(1,2) addr_first [OF assms(3,2)] addr_last [OF assms(3,2)]
  by (auto simp: band_ok_def first_addr_def last_addr_def)

lemma rm_first_split:
  assumes "msgs_ok n (A @ mp # B)" "0 < b_band mp"
  shows "rm_first (length A) (A @ mp # B) = first_addr (in_band (b_band mp) B)"
  using next_in_band [OF assms(1) refl assms(2)] by (cases B) (auto simp: rm_first_def nth_append)

lemma rm_last_split:
  assumes "msgs_ok n (A @ mp # B)" "0 < b_band mp"
  shows "rm_last (length A) (A @ mp # B) = last_addr (in_band (b_band mp) A)"
  using prev_in_band [OF assms(1) refl assms(2)] by (cases A rule: rev_cases) (auto simp: rm_last_def nth_append)

lemma set_band_msgs: "(set_band i b q)\<lparr>q_msgs := L\<rparr> = set_band i b (q\<lparr>q_msgs := L\<rparr>)"
  by (simp add: set_band_def)

lemma rmvq_queue_split:
  assumes "q_ok q" and L: "q_msgs q = A @ mp # B"
  shows "\<exists>q1 enab. rmvq_queue (length A) q = Some (q1, enab) \<and> q_ok q1 \<and> q_msgs q1 = A @ B"
proof -
  have M: "msgs_ok (q_nband q) (A @ mp # B)" using q_okD(1) [OF assms(1)] L by simp
  then have nb: "b_band mp \<le> q_nband q" and d: "distinct (map m_addr (A @ mp # B))"
    by (auto simp: msgs_ok_append msg_ok_def) (auto simp: msgs_ok_def)
  show ?thesis
  proof (cases "b_band mp = 0")
    case True
    let ?a = "account mp (q\<lparr>q_msgs := A @ B\<rparr>)"
    have "q_ok (fst ?a)" using account_norm [OF assms True] .
    then show ?thesis using True nb L by (intro exI [of _ "fst ?a"] exI [of _ "snd ?a"]) (simp add: rmvq_queue_def Let_def)
  next
    case False
    then have i: "0 < b_band mp" by simp
    let ?i = "b_band mp" and ?b = "band_of q (b_band mp)"
    have bok: "band_ok (in_band ?i (A @ mp # B)) ?b" using q_okD(3) [OF assms(1) i nb] L by simp
    define b1 where "b1 = (if Some (m_addr mp) = qb_first ?b then ?b\<lparr>qb_first := first_addr (in_band ?i B)\<rparr> else ?b)"
    define b2 where "b2 = (if Some (m_addr mp) = qb_last b1 then b1\<lparr>qb_last := last_addr (in_band ?i A)\<rparr> else b1)"
    have f: "qb_first b2 = first_addr (in_band ?i (A @ B))" "qb_last b2 = last_addr (in_band ?i (A @ B))" "qb_count b2 = qb_count ?b"
      unfolding rmv_ends [OF bok refl d] by (simp_all add: b1_def b2_def)
    define a where "a = account mp (set_band ?i b2 (q\<lparr>q_msgs := A @ B\<rparr>))"
    have "q_ok (fst a)" unfolding a_def by (rule account_band [OF assms refl i f(3,1,2)])
    moreover have "rmvq_queue (length A) q = Some a"
      using False nb L rm_first_split [OF M i] rm_last_split [OF M i]
      by (simp add: rmvq_queue_def Let_def a_def b1_def b2_def set_band_msgs)
    moreover have "q_msgs (fst a) = A @ B" by (simp add: a_def)
    ultimately show ?thesis by (metis surj_pair fst_conv)
  qed
qed

lemma getq_take_ok:
  assumes "q_ok q" and "q_msgs q = bp # rest"
  obtains q1 enab where "getq_take q = Some (q1, enab)" "q_ok q1" "q_msgs q1 = rest"
proof -
  have M: "msgs_ok (q_nband q) ([] @ bp # rest)" using q_okD(1) [OF assms(1)] assms(2) by simp
  have nb: "b_band bp \<le> q_nband q" using M by (simp add: msg_ok_def)
  have d: "distinct (map m_addr ([] @ bp # rest))" using M unfolding msgs_ok_def by blast
  have L: "q_msgs q = [] @ bp # rest" using assms(2) by simp
  show thesis
  proof (cases "b_band bp = 0")
    case True
    have "q_ok (fst (account bp (q\<lparr>q_msgs := rest\<rparr>)))" using account_norm [OF assms(1) L True] by simp
    moreover obtain q3 en where a: "account bp (q\<lparr>q_msgs := rest\<rparr>) = (q3, en)" by fastforce
    moreover have "q_msgs q3 = rest" using account_msgs [of bp "q\<lparr>q_msgs := rest\<rparr>"] a by simp
    ultimately show thesis
      using that [of "q3\<lparr>q_flag := q_flag q3 AND NOT QWANTR\<rparr>" en] True assms(2) by (simp add: getq_take_def Let_def)
  next
    case False
    let ?i = "b_band bp" and ?b = "band_of q (b_band bp)"
    have i: "0 < ?i" using False by simp
    have bok: "band_ok (in_band ?i ([] @ bp # rest)) ?b" using q_okD(3) [OF assms(1) i nb] assms(2) by simp
    let ?b1 = "if qb_first ?b = qb_last ?b then ?b\<lparr>qb_first := None, qb_last := None\<rparr>
               else ?b\<lparr>qb_first := (case rest of [] \<Rightarrow> None | m # _ \<Rightarrow> Some (m_addr m))\<rparr>"
    have one: "qb_first ?b = qb_last ?b \<longleftrightarrow> in_band ?i rest = []"
      using bok addr_last [OF d refl] by (simp add: band_ok_def first_addr_def)
    have nx: "first_addr (in_band ?i rest) = (if rest \<noteq> [] \<and> b_band (hd rest) = ?i then Some (m_addr (hd rest)) else None)"
      using next_in_band [OF M refl i] .
    have f: "qb_first ?b1 = first_addr (in_band ?i ([] @ rest))"
      using one nx by (cases rest) (auto simp: first_addr_def split: if_splits)
    have l: "qb_last ?b1 = last_addr (in_band ?i ([] @ rest))"
      using one bok by (auto simp: last_addr_def band_ok_def)
    define q2 where "q2 = set_band ?i ?b1 (q\<lparr>q_msgs := rest\<rparr>)"
    have "q_ok (fst (account bp q2))" using account_band [OF assms(1) L refl i _ f l] unfolding q2_def by simp
    moreover obtain q3 en where a: "account bp q2 = (q3, en)" by fastforce
    moreover have "q_msgs q2 = rest" by (simp add: q2_def)
    then have "q_msgs q3 = rest" using account_msgs [of bp q2] a by simp
    moreover have "getq_take q = Some (q3\<lparr>q_flag := q_flag q3 AND NOT QWANTR\<rparr>, en)"
      using False nb assms(2) a unfolding q2_def by (auto simp: getq_take_def Let_def split: if_splits)
    ultimately show thesis using that [of "q3\<lparr>q_flag := q_flag q3 AND NOT QWANTR\<rparr>" en] by simp
  qed
qed

end
