(* ===== verification/Strq_State.thy ===== *)
theory Strq_State
  imports Strq_Ops
begin

text \<open>
  The queue operations on the whole state: back-enabling and scheduling change no message, the walks along a stream
  end, and each operation is described by what it does to the list of messages of its queue.
\<close>

section \<open>What no operation changes\<close>

definition shape :: "strstate \<Rightarrow> nat \<Rightarrow> nat option \<times> u32 \<times> bool" where
  "shape st a = (q_next (queues st a), q_flag (queues st a) AND QREADR, q_srvp (queues st a))"

definition qshape :: "queue \<Rightarrow> nat option \<times> u32 \<times> bool" where
  "qshape q = (q_next q, q_flag q AND QREADR, q_srvp q)"

lemma shape_q: "shape st a = qshape (queues st a)"
  by (simp add: shape_def qshape_def)

lemma QREADR_keep [simp]:
  "(f OR QENAB) AND QREADR = f AND QREADR" "(f OR QWANTR) AND QREADR = f AND QREADR" "(f OR QWANTW) AND QREADR = f AND QREADR"
  "(f OR QFULL) AND QREADR = f AND QREADR" "(f OR QNOENB) AND QREADR = f AND QREADR" "(f OR QBACK) AND QREADR = f AND QREADR"
  "(f AND NOT QWANTR) AND QREADR = f AND QREADR" "(f AND NOT QWANTW) AND QREADR = f AND QREADR"
  "(f AND NOT QFULL) AND QREADR = f AND QREADR" "(f AND NOT QNOENB) AND QREADR = f AND QREADR"
  by (simp_all add: q_flag_defs bit.conj_disj_distrib2 and.assoc)

lemma qshape_simps [simp]:
  "qshape (q\<lparr>q_msgs := L\<rparr>) = qshape q" "qshape (q\<lparr>q_count := c\<rparr>) = qshape q" "qshape (q\<lparr>q_bandp := bs\<rparr>) = qshape q"
  "qshape (set_band i b q) = qshape q" "qshape (norm_add m q) = qshape q" "qshape (norm_sub m q) = qshape q"
  by (simp_all add: qshape_def set_band_def norm_add_def norm_sub_def Let_def)

lemma qshape_flag: "f AND QREADR = q_flag q AND QREADR \<Longrightarrow> qshape (q\<lparr>q_flag := f\<rparr>) = qshape q"
  by (simp add: qshape_def)

lemma qshape_account [simp]: "qshape (fst (account m q)) = qshape q"
proof -
  have "qshape ((norm_sub m q)\<lparr>q_flag := q_flag (norm_sub m q) AND NOT QWANTW\<rparr>) = qshape q"
    by (subst qshape_flag) simp_all
  then show ?thesis by (simp add: account_def Let_def)
qed

lemma qshape_put_at [simp]: "qshape (put_at k ends bp q) = qshape q"
  by (simp add: put_at_def Let_def)

lemma qshape_grow: "q_ok q \<Longrightarrow> pri \<le> 255 \<Longrightarrow> grow_bands mem pri q n = (ok, q1, n1) \<Longrightarrow> qshape q1 = qshape q"
  using grow_bands_ok by (fastforce simp: qshape_def)

lemma qshape_rmvq: "rmvq_queue k q = Some (q1, e) \<Longrightarrow> qshape q1 = qshape q"
  using qshape_account [of "q_msgs q ! k"]
  by (auto simp: rmvq_queue_def Let_def set_band_msgs split: if_splits) (metis fst_conv qshape_account qshape_simps(1,4))+

lemma qshape_getq:
  assumes "getq_take q = Some (q1, e)"
  shows "qshape q1 = qshape q"
proof -
  obtain q2 q3 where a: "account (hd (q_msgs q)) q2 = (q3, e)" "qshape q2 = qshape q" "q1 = q3\<lparr>q_flag := q_flag q3 AND NOT QWANTR\<rparr>"
    using assms by (auto simp: getq_take_def Let_def split: if_splits prod.splits)
  then have "qshape q3 = qshape q" using qshape_account [of "hd (q_msgs q)" q2] by simp
  then show ?thesis using a(3) by (simp add: qshape_flag)
qed

lemma shape_upd: "qshape q = qshape (queues st a) \<Longrightarrow> shape (upd_queue a q st) = shape st"
  by (auto simp: shape_q fun_eq_iff)

lemma shape_fields [simp]: "shape (st\<lparr>sd_cnt := n\<rparr>) = shape st" "shape (st\<lparr>freed := f\<rparr>) = shape st"
  by (simp_all add: shape_def fun_eq_iff)

lemma shape_qenable [simp]: "shape (qenable a st) = shape st"
proof -
  have "shape ((upd_queue a q st)\<lparr>qrun := r, qrunflag := t\<rparr>) = shape (upd_queue a q st)" for q r t
    by (simp add: shape_def fun_eq_iff)
  then show ?thesis by (simp add: qenable_def Let_def shape_upd qshape_flag)
qed

section \<open>Walks end\<close>

definition walks_end :: "strstate \<Rightarrow> bool" where
  "walks_end st \<longleftrightarrow> (\<exists>rank :: nat \<Rightarrow> nat. \<forall>a b. backq st a = Some b \<longrightarrow> rank b < rank a)
     \<and> (\<exists>rank :: nat \<Rightarrow> nat. \<forall>a b. q_next (queues st a) = Some b \<longrightarrow> rank b < rank a)"

lemma OTHERQ_shape: "shape st = shape st' \<Longrightarrow> OTHERQ st = OTHERQ st'"
  by (auto simp: OTHERQ_def shape_def fun_eq_iff)

lemma backq_shape: "shape st = shape st' \<Longrightarrow> backq st = backq st'"
proof (rule ext)
  fix a assume s: "shape st = shape st'"
  then have "q_next (queues st b) = q_next (queues st' b)" for b by (simp add: shape_def fun_eq_iff)
  then show "backq st a = backq st' a" using OTHERQ_shape [OF s] by (simp add: backq_def)
qed

lemma walks_end_shape: "shape st = shape st' \<Longrightarrow> walks_end st \<longleftrightarrow> walks_end st'"
proof -
  assume s: "shape st = shape st'"
  then have "q_next (queues st a) = q_next (queues st' a)" for a by (simp add: shape_def fun_eq_iff)
  then show ?thesis using backq_shape [OF s] by (simp add: walks_end_def)
qed

lemma back_srv_ends:
  assumes "walks_end st"
  shows "\<exists>r. back_srv st qo = Some r \<and> (case r of None \<Rightarrow> True | Some b \<Rightarrow> q_srvp (queues st b))"
proof -
  obtain rank :: "nat \<Rightarrow> nat" where r: "\<And>a b. backq st a = Some b \<Longrightarrow> rank b < rank a" using assms by (auto simp: walks_end_def)
  have step: "\<exists>r. back_srv st (Some a) = Some r \<and> (case r of None \<Rightarrow> True | Some b \<Rightarrow> q_srvp (queues st b))" for a
  proof (induction "rank a" arbitrary: a rule: less_induct)
    case less
    show ?case
    proof (cases "q_srvp (queues st a)")
      case True
      then show ?thesis by (subst back_srv.simps) simp
    next
      case False
      then show ?thesis using less r by (subst back_srv.simps) (cases "backq st a"; simp add: back_srv.simps [of st None])
    qed
  qed
  then show ?thesis by (cases qo) (simp_all add: back_srv.simps [of st None])
qed

lemma next_srv_ends:
  assumes "walks_end st"
  shows "\<exists>b. next_srv st a = Some b"
proof -
  obtain rank :: "nat \<Rightarrow> nat" where r: "\<And>a b. q_next (queues st a) = Some b \<Longrightarrow> rank b < rank a" using assms by (auto simp: walks_end_def)
  show ?thesis
  proof (induction "rank a" arbitrary: a rule: less_induct)
    case less
    then show ?case using r by (subst next_srv.simps) (auto split: option.splits)
  qed
qed

section \<open>What an operation does to the messages\<close>

text \<open>The state \<open>st'\<close> is well formed, and differs from \<open>st\<close> in its messages only by the queue at \<open>a\<close> now holding \<open>L\<close>.\<close>

definition now_holds :: "nat \<Rightarrow> strmsg list \<Rightarrow> strstate \<Rightarrow> strstate \<Rightarrow> bool" where
  "now_holds a L st st' \<longleftrightarrow> st_ok st' \<and> shape st' = shape st \<and> (\<forall>b. msgs_at st' b = (if b = a then L else msgs_at st b))"

lemma now_holdsI: "st_ok st \<Longrightarrow> q_ok q \<Longrightarrow> qshape q = qshape (queues st a) \<Longrightarrow> now_holds a (q_msgs q) st (upd_queue a q st)"
  by (simp add: now_holds_def st_ok_upd shape_upd)

lemma now_holds_trans: "now_holds a L st st1 \<Longrightarrow> now_holds a M st1 st2 \<Longrightarrow> now_holds a M st st2"
  by (simp add: now_holds_def)

lemma now_holds_same: "st_ok st \<Longrightarrow> now_holds a (msgs_at st a) st st"
  by (simp add: now_holds_def)

lemma now_holds_keep:
  "now_holds a L st st1 \<Longrightarrow> st_ok st2 \<Longrightarrow> shape st2 = shape st1 \<Longrightarrow> (\<And>b. msgs_at st2 b = msgs_at st1 b) \<Longrightarrow> now_holds a L st st2"
  by (simp add: now_holds_def)

lemma setqback_ok:
  assumes "st_ok st" "pri \<le> 255"
  shows "st_ok (setqback mem a pri st) \<and> shape (setqback mem a pri st) = shape st \<and> (\<forall>b. msgs_at (setqback mem a pri st) b = msgs_at st b)
    \<and> freed (setqback mem a pri st) = freed st"
proof (cases "pri = 0")
  case True
  have "qshape ((queues st a)\<lparr>q_flag := q_flag (queues st a) OR QBACK\<rparr>) = qshape (queues st a)" by (simp add: qshape_flag)
  then show ?thesis using True assms st_okD [OF assms(1), of a] by (simp add: setqback_def Let_def st_ok_upd shape_upd)
next
  case False
  obtain ok q n where g: "grow_bands mem pri (queues st a) (sd_cnt st) = (ok, q, n)" by (metis prod_cases3)
  note G = grow_bands_ok [OF st_okD [OF assms(1)] assms(2) g]
  have sh: "qshape q = qshape (queues st a)" by (rule qshape_grow [OF st_okD [OF assms(1)] assms(2) g])
  have "ok \<Longrightarrow> q_ok (set_band pri ((band_of q pri)\<lparr>qb_flag := qb_flag (band_of q pri) OR QB_BACK\<rparr>) q)"
    using G False by (intro q_ok_set_flag) auto
  then show ?thesis using False g G assms(1) sh by (simp add: setqback_def Let_def st_ok_upd shape_upd)
qed

lemma backenable_ok:
  assumes "st_ok st" "walks_end st" "pri \<le> 255"
  shows "\<exists>st'. backenable mem a pri st = Some st' \<and> st_ok st' \<and> shape st' = shape st \<and> (\<forall>b. msgs_at st' b = msgs_at st b) \<and> freed st' = freed st"
proof -
  obtain r where r: "back_srv st (backq st a) = Some r" using back_srv_ends [OF assms(2)] by blast
  show ?thesis
  proof (cases r)
    case None
    then show ?thesis using r assms(1) by (simp add: backenable_def)
  next
    case (Some b)
    then show ?thesis using r setqback_ok [OF qenable_ok [OF assms(1)] assms(3), of mem b b] by (simp add: backenable_def)
  qed
qed

lemma band_255: "q_ok q \<Longrightarrow> m \<in> set (q_msgs q) \<Longrightarrow> b_band m \<le> 255"
  by (fastforce simp: q_ok_def msgs_ok_def msg_ok_def)

lemma walks_end_upd: "walks_end st \<Longrightarrow> qshape q = qshape (queues st a) \<Longrightarrow> walks_end (upd_queue a q st)"
  using walks_end_shape shape_upd by metis

text \<open>A queue operation followed by back-enabling.\<close>

lemma then_backenable:
  assumes "st_ok st" "walks_end st" "q_ok q" "qshape q = qshape (queues st a)" "pri \<le> 255"
  shows "\<exists>st'. (if enab then backenable mem a pri (upd_queue a q st) else Some (upd_queue a q st)) = Some st'
    \<and> now_holds a (q_msgs q) st st' \<and> freed st' = freed st"
proof -
  have u: "now_holds a (q_msgs q) st (upd_queue a q st)" by (rule now_holdsI [OF assms(1,3,4)])
  obtain st' where "backenable mem a pri (upd_queue a q st) = Some st'" "st_ok st'" "shape st' = shape (upd_queue a q st)"
    "\<forall>b. msgs_at st' b = msgs_at (upd_queue a q st) b" "freed st' = freed (upd_queue a q st)"
    using backenable_ok [OF st_ok_upd [OF assms(1,3)] walks_end_upd [OF assms(2,4)] assms(5)] by blast
  then show ?thesis using u now_holds_keep by (cases enab) auto
qed

lemma rmvq_ok:
  assumes "st_ok st" "walks_end st" "k < length (msgs_at st a)"
  shows "\<exists>st'. rmvq mem a k st = Some st' \<and> now_holds a (take k (msgs_at st a) @ drop (Suc k) (msgs_at st a)) st st' \<and> freed st' = freed st"
proof -
  let ?L = "msgs_at st a"
  have L: "?L = take k ?L @ ?L ! k # drop (Suc k) ?L" by (rule id_take_nth_drop [OF assms(3)])
  have len: "length (take k ?L) = k" using assms(3) by simp
  obtain q1 e where r: "rmvq_queue k (queues st a) = Some (q1, e)" "q_ok q1" "q_msgs q1 = take k ?L @ drop (Suc k) ?L"
    using rmvq_queue_split [OF st_okD [OF assms(1)] L] unfolding len by blast
  have b: "b_band (?L ! k) \<le> 255" using band_255 [OF st_okD [OF assms(1)] nth_mem [OF assms(3)]] .
  from then_backenable [OF assms(1,2) r(2) qshape_rmvq [OF r(1)] b, of e mem] r show ?thesis by (simp add: rmvq_def Let_def)
qed

lemma getq_ok:
  assumes "st_ok st" "walks_end st"
  shows "\<exists>st'. getq mem a st = Some (map_option (nth (msgs_at st a)) (find_pos (\<lambda>m. b_flag m AND MSGNOGET = 0) (msgs_at st a)), st')
    \<and> now_holds a (case find_pos (\<lambda>m. b_flag m AND MSGNOGET = 0) (msgs_at st a) of
         None \<Rightarrow> msgs_at st a | Some k \<Rightarrow> take k (msgs_at st a) @ drop (Suc k) (msgs_at st a)) st st' \<and> freed st' = freed st"
proof -
  let ?q = "queues st a" and ?P = "\<lambda>m. b_flag m AND MSGNOGET = 0"
  note q = st_okD [OF assms(1), of a]
  consider (empty) "msgs_at st a = []" | (hold) bp rest where "msgs_at st a = bp # rest" "\<not> ?P bp"
    | (take) bp rest where "msgs_at st a = bp # rest" "?P bp" by (metis neq_Nil_conv)
  then show ?thesis
  proof cases
    case empty
    let ?e = "q_flag ?q AND QWANTW \<noteq> 0"
    let ?q1 = "?q\<lparr>q_flag := (if ?e then (q_flag ?q OR QWANTR) AND NOT QWANTW else q_flag ?q OR QWANTR)\<rparr>"
    have "qshape ?q1 = qshape ?q" by (simp add: qshape_flag)
    from then_backenable [OF assms _ this, of 0 ?e mem] q empty show ?thesis
      by (auto simp: getq_def Let_def split: if_splits)
  next
    case hold
    show ?thesis
    proof (cases "find_pos ?P (bp # rest)")
      case None
      then show ?thesis using hold now_holds_same [OF assms(1), of a] by (simp add: getq_def)
    next
      case (Some k)
      have "k < length (msgs_at st a)" using find_pos_Some [OF Some] hold(1) by simp
      from rmvq_ok [OF assms this, of mem] Some hold show ?thesis by (auto simp: getq_def)
    qed
  next
    case take
    obtain q1 e where g: "getq_take ?q = Some (q1, e)" "q_ok q1" "q_msgs q1 = rest" by (rule getq_take_ok [OF q take(1)])
    have "b_band bp \<le> 255" using band_255 [OF q, of bp] take(1) by simp
    from then_backenable [OF assms g(2) qshape_getq [OF g(1)] this, of e mem] g take show ?thesis by (auto simp: getq_def)
  qed
qed

section \<open>Putting and flushing\<close>

lemma qenable_nband [simp]: "q_nband (queues (qenable a st) b) = q_nband (queues st b)"
  by (simp add: qenable_def Let_def)

lemma put_at_nband [simp]: "q_nband (put_at k ends bp q) = q_nband q"
  by (simp add: put_at_def norm_add_def Let_def)

lemma put_gen_frame:
  assumes "put_gen place ends mem a bp st = Some (r, st')" "st_ok st" "b_band bp \<le> 255"
  shows "shape st' = shape st \<and> q_nband (queues st a) \<le> q_nband (queues st' a)"
proof -
  let ?bp = "norm_band bp"
  obtain ok q n where g: "grow_bands mem (b_band ?bp) (queues st a) (sd_cnt st) = (ok, q, n)" by (metis prod_cases3)
  have b: "b_band ?bp \<le> 255" using assms(3) by simp
  note G = grow_bands_ok [OF st_okD [OF assms(2)] b g]
  have sh: "qshape q = qshape (queues st a)" by (rule qshape_grow [OF st_okD [OF assms(2)] b g])
  have "shape (upd_queue a q1 ((upd_queue a q st)\<lparr>sd_cnt := n\<rparr>)) = shape st" if "qshape q1 = qshape q" for q1
    using that sh by (simp add: shape_upd)
  then show ?thesis
    using assms(1) g G sh unfolding put_gen_def Let_def
    by (auto simp: shape_upd split: if_splits option.splits)
qed

lemma putq_ok:
  assumes "st_ok st" "b_band bp \<le> 255" "m_addr bp \<notin> m_addr ` set (msgs_at st a)"
  shows "\<exists>r st'. putq mem a bp st = Some (r, st') \<and> freed st' = freed st \<and> q_nband (queues st a) \<le> q_nband (queues st' a)
    \<and> now_holds a (if r then insert_at (behind (norm_band bp) (msgs_at st a)) (norm_band bp) (msgs_at st a) else msgs_at st a) st st'
    \<and> (b_band (norm_band bp) \<le> q_nband (queues st a) \<longrightarrow> r) \<and> (\<not> r \<longrightarrow> \<not> mem (sd_cnt st'))"
proof -
  obtain r st' where p: "put_gen putq_place putq_ends mem a bp st = Some (r, st')" and h: "st_ok st' \<and> freed st' = freed st
     \<and> (\<forall>b. b \<noteq> a \<longrightarrow> msgs_at st' b = msgs_at st b)
     \<and> msgs_at st' a = (if r then insert_at (behind (norm_band bp) (msgs_at st a)) (norm_band bp) (msgs_at st a) else msgs_at st a)
     \<and> (b_band (norm_band bp) \<le> q_nband (queues st a) \<longrightarrow> r) \<and> (\<not> r \<longrightarrow> \<not> mem (sd_cnt st'))"
    using putq_op.put_ok [OF assms, of mem] by blast
  show ?thesis
    unfolding putq_def now_holds_def using p h put_gen_frame [OF p assms(1,2)] by (intro exI [of _ r] exI [of _ st']) simp
qed

lemma putbq_ok:
  assumes "st_ok st" "b_band bp \<le> 255" "m_addr bp \<notin> m_addr ` set (msgs_at st a)"
  shows "\<exists>r st'. putbq mem a bp st = Some (r, st') \<and> freed st' = freed st \<and> q_nband (queues st a) \<le> q_nband (queues st' a)
    \<and> now_holds a (if r then insert_at (in_front (norm_band bp) (msgs_at st a)) (norm_band bp) (msgs_at st a) else msgs_at st a) st st'
    \<and> (b_band (norm_band bp) \<le> q_nband (queues st a) \<longrightarrow> r) \<and> (\<not> r \<longrightarrow> \<not> mem (sd_cnt st'))"
proof -
  obtain r st' where p: "put_gen putbq_place putbq_ends mem a bp st = Some (r, st')" and h: "st_ok st' \<and> freed st' = freed st
     \<and> (\<forall>b. b \<noteq> a \<longrightarrow> msgs_at st' b = msgs_at st b)
     \<and> msgs_at st' a = (if r then insert_at (in_front (norm_band bp) (msgs_at st a)) (norm_band bp) (msgs_at st a) else msgs_at st a)
     \<and> (b_band (norm_band bp) \<le> q_nband (queues st a) \<longrightarrow> r) \<and> (\<not> r \<longrightarrow> \<not> mem (sd_cnt st'))"
    using putbq_op.put_ok [OF assms, of mem] by blast
  show ?thesis
    unfolding putbq_def now_holds_def using p h put_gen_frame [OF p assms(1,2)] by (intro exI [of _ r] exI [of _ st']) simp
qed

lemma reset_queue_ok:
  assumes "q_ok q"
  shows "q_ok (reset_queue q) \<and> qshape (reset_queue q) = qshape q \<and> q_nband (reset_queue q) = q_nband q \<and> q_msgs (reset_queue q) = []"
proof -
  have "n \<le> 255" if "msgs_ok n L" for n L using that by (simp add: msgs_ok_def)
  then show ?thesis using assms
    by (auto simp: q_ok_def reset_queue_def reset_band_def band_ok_def first_addr_def last_addr_def msgs_ok_def qshape_def)
qed

text \<open>Messages put back in order end up in the same order.\<close>

lemma flush_loop_ok:
  assumes "st_ok st" "msgs_ok n (msgs_at st a @ ms)" "n \<le> q_nband (queues st a)"
  shows "\<exists>st'. flush_loop mem a gone ms st = Some st' \<and> now_holds a (msgs_at st a @ filter (\<lambda>m. \<not> gone m) ms) st st'
    \<and> freed st' = freed st @ filter gone ms"
  using assms
proof (induction ms arbitrary: st)
  case Nil
  then show ?case by (simp add: now_holds_same)
next
  case (Cons mp ms)
  show ?case
  proof (cases "gone mp")
    case True
    have "msgs_ok n (msgs_at st a @ ms)" using msgs_ok_remove [OF Cons.prems(2)] .
    then show ?thesis using Cons.IH [of "st\<lparr>freed := freed st @ [mp]\<rparr>"] Cons.prems True by (fastforce simp: now_holds_def)
  next
    case False
    have m: "msg_ok n mp" "n \<le> 255" "m_addr mp \<notin> m_addr ` set (msgs_at st a)" "\<forall>x \<in> set (msgs_at st a). prio mp \<le> prio x"
      using Cons.prems(2) by (auto simp: msgs_ok_append) (auto simp: msgs_ok_def)
    have nb: "norm_band mp = mp" using m(1) by (auto simp: norm_band_def msg_ok_def queclass_cases QPCTL_num split: if_splits)
    have b: "b_band mp \<le> 255" "b_band mp \<le> q_nband (queues st a)" using m(1,2) Cons.prems(3) by (auto simp: msg_ok_def)
    have "behind mp (msgs_at st a) = length (msgs_at st a)" unfolding behind_def by (subst takeWhile_all) (use m(4) in auto)
    then obtain st1 where p: "putq mem a mp st = Some (True, st1)" "freed st1 = freed st" "q_nband (queues st a) \<le> q_nband (queues st1 a)"
      "now_holds a (msgs_at st a @ [mp]) st st1"
      using putq_ok [OF Cons.prems(1) b(1) m(3), of mem] b(2) nb by (auto simp: insert_at_def)
    have s1: "st_ok st1" "msgs_at st1 a = msgs_at st a @ [mp]" using p(4) by (simp_all add: now_holds_def)
    then obtain st' where "flush_loop mem a gone ms st1 = Some st'" "now_holds a (msgs_at st1 a @ filter (\<lambda>m. \<not> gone m) ms) st1 st'"
      "freed st' = freed st1 @ filter gone ms" using Cons.IH [of st1] Cons.prems p(3) by auto
    then show ?thesis using False p s1 now_holds_trans [OF p(4)] by simp
  qed
qed

lemma clear_wants_ok:
  assumes "q_ok q"
  shows "q_ok (clear_wants q) \<and> qshape (clear_wants q) = qshape q \<and> q_msgs (clear_wants q) = q_msgs q \<and> q_nband (clear_wants q) = q_nband q"
  using assms by (auto simp: q_ok_def clear_wants_def qshape_def)

lemma setqbacks_ok:
  assumes "st_ok st" "n \<le> 255"
  shows "st_ok (setqbacks mem b qbf n st) \<and> shape (setqbacks mem b qbf n st) = shape st
    \<and> (\<forall>c. msgs_at (setqbacks mem b qbf n st) c = msgs_at st c) \<and> freed (setqbacks mem b qbf n st) = freed st"
  using assms
proof (induction n arbitrary: st)
  case 0
  then show ?case using setqback_ok [of st 0] by simp
next
  case (Suc n)
  then show ?case using setqback_ok [of st "Suc n" mem b] Suc.IH [of "if qbf (Suc n) then setqback mem b (Suc n) st else st"] by simp
qed

lemma flush_start:
  assumes "st_ok st"
  shows "\<exists>st1. flush_loop mem a gone (msgs_at st a) (upd_queue a (reset_queue (queues st a)) st) = Some st1
    \<and> now_holds a (filter (\<lambda>m. \<not> gone m) (msgs_at st a)) st st1 \<and> freed st1 = freed st @ filter gone (msgs_at st a)"
proof -
  let ?q = "reset_queue (queues st a)" and ?st = "upd_queue a (reset_queue (queues st a)) st"
  note r = reset_queue_ok [OF st_okD [OF assms(1)], of a]
  have u: "now_holds a [] st ?st" using now_holdsI [OF assms(1), of ?q a] r by simp
  have "st_ok ?st" "msgs_ok (q_nband (queues st a)) (msgs_at ?st a @ msgs_at st a)" "q_nband (queues st a) \<le> q_nband (queues ?st a)"
    using u r q_okD(1) [OF st_okD [OF assms(1)], of a] by (simp_all add: now_holds_def)
  from flush_loop_ok [OF this, of mem gone] obtain st1 where
    s1: "flush_loop mem a gone (msgs_at st a) ?st = Some st1" "now_holds a (filter (\<lambda>m. \<not> gone m) (msgs_at st a)) ?st st1"
    "freed st1 = freed st @ filter gone (msgs_at st a)" using r by auto
  then show ?thesis using now_holds_trans [OF u] by blast
qed

lemma flushq_ok:
  assumes "st_ok st" "walks_end st"
  shows "\<exists>st'. flushq mem a flag st = Some st' \<and> now_holds a (filter (\<lambda>m. \<not> (flag \<or> datamsg (db_type m))) (msgs_at st a)) st st'
    \<and> freed st' = freed st @ filter (\<lambda>m. flag \<or> datamsg (db_type m)) (msgs_at st a)"
proof -
  obtain st1 where s1: "flush_loop mem a (\<lambda>m. flag \<or> datamsg (db_type m)) (msgs_at st a) (upd_queue a (reset_queue (queues st a)) st) = Some st1"
    "now_holds a (filter (\<lambda>m. \<not> (flag \<or> datamsg (db_type m))) (msgs_at st a)) st st1"
    "freed st1 = freed st @ filter (\<lambda>m. flag \<or> datamsg (db_type m)) (msgs_at st a)"
    using flush_start [OF assms(1)] by blast
  have ok1: "st_ok st1" "shape st1 = shape st" using s1(2) by (simp_all add: now_holds_def)
  let ?q = "queues st1 a" and ?st2 = "upd_queue a (clear_wants (queues st1 a)) st1"
  note c = clear_wants_ok [OF st_okD [OF ok1(1)], of a]
  have u: "now_holds a (msgs_at st1 a) st1 ?st2" using now_holdsI [OF ok1(1), of "clear_wants ?q" a] c by simp
  have ok2: "st_ok ?st2" "walks_end ?st2" using u assms(2) ok1(2) walks_end_shape [of ?st2 st] by (auto simp: now_holds_def)
  have h2: "now_holds a (filter (\<lambda>m. \<not> (flag \<or> datamsg (db_type m))) (msgs_at st a)) st ?st2" using s1(2) u by (simp add: now_holds_def)
  obtain r where r: "back_srv ?st2 (backq ?st2 a) = Some r" using back_srv_ends [OF ok2(2)] by blast
  show ?thesis
  proof (cases r)
    case None
    then show ?thesis using s1 r h2 by (simp add: flushq_def Let_def)
  next
    case (Some b)
    let ?st3 = "qenable b ?st2"
    have ok3: "st_ok ?st3" by (rule qenable_ok [OF ok2(1)])
    have "q_nband (queues ?st3 b) \<le> 255" using q_okD(1) [OF st_okD [OF ok3], of b] by (simp add: msgs_ok_def)
    note sb = setqbacks_ok [OF ok3 this, of mem b "qbf_of ?q"]
    have "now_holds a (filter (\<lambda>m. \<not> (flag \<or> datamsg (db_type m))) (msgs_at st a)) st (setqbacks mem b (qbf_of ?q) (q_nband (queues ?st3 b)) ?st3)"
      by (rule now_holds_keep [OF h2]) (use sb in simp_all)
    then show ?thesis using s1 r Some h2 sb by (simp add: flushq_def Let_def)
  qed
qed

section \<open>\<^verbatim>\<open>flushband\<close>\<close>

lemma filter_no_addr: "m_addr m \<notin> m_addr ` set X \<Longrightarrow> filter (\<lambda>x. m_addr x \<noteq> m_addr m) X = X"
  by (auto simp: filter_id_conv image_iff)

lemma take_drop_filter:
  assumes "distinct (map m_addr L)" "k < length L" "L ! k = m"
  shows "take k L @ drop (Suc k) L = filter (\<lambda>x. m_addr x \<noteq> m_addr m) L"
proof -
  have L: "L = take k L @ m # drop (Suc k) L" using id_take_nth_drop [OF assms(2)] assms(3) by simp
  have d: "distinct (map m_addr (take k L @ m # drop (Suc k) L))" using assms(1) L by simp
  have "filter (\<lambda>x. m_addr x \<noteq> m_addr m) (take k L @ m # drop (Suc k) L) = take k L @ drop (Suc k) L"
    using d by (simp add: filter_no_addr)
  then show ?thesis using L by simp
qed

definition goes :: "nat \<Rightarrow> bool \<Rightarrow> strmsg \<Rightarrow> bool" where
  "goes pri flag m \<longleftrightarrow> b_band m = pri \<and> (flag \<or> datamsg (db_type m))"

lemma flush_one_ok:
  assumes "st_ok st" "walks_end st" "mp \<in> set (msgs_at st a)"
  shows "\<exists>st'. flush_one mem a pri flag mp st = Some st' \<and> walks_end st'
    \<and> now_holds a (filter (\<lambda>x. \<not> (goes pri flag mp \<and> m_addr x = m_addr mp)) (msgs_at st a)) st st'
    \<and> freed st' = freed st @ filter (goes pri flag) [mp]"
proof (cases "goes pri flag mp")
  case True
  let ?L = "msgs_at st a"
  have d: "distinct (map m_addr ?L)" using q_okD(1) [OF st_okD [OF assms(1)], of a] by (simp add: msgs_ok_def)
  have "find_pos (\<lambda>m. m_addr m = m_addr mp) ?L \<noteq> None" using assms(3) by (auto simp: find_pos_None)
  then obtain k where k1: "find_pos (\<lambda>m. m_addr m = m_addr mp) ?L = Some k" by blast
  note k = k1 conjunct1 [OF find_pos_Some [OF k1]] conjunct2 [OF find_pos_Some [OF k1]]
  have "inj_on m_addr (set ?L)" using d by (simp add: distinct_map)
  then have "?L ! k = mp" using k(2,3) assms(3) by (auto dest: inj_onD)
  then have f: "take k ?L @ drop (Suc k) ?L = filter (\<lambda>x. m_addr x \<noteq> m_addr mp) ?L" by (rule take_drop_filter [OF d k(2)])
  obtain st1 where s1: "rmvq mem a k st = Some st1" "now_holds a (filter (\<lambda>x. m_addr x \<noteq> m_addr mp) ?L) st st1"
      "freed st1 = freed st"
    using rmvq_ok [OF assms(1,2) k(2), of mem] unfolding f by blast
  have "now_holds a (filter (\<lambda>x. m_addr x \<noteq> m_addr mp) ?L) st (st1\<lparr>freed := freed st1 @ [mp]\<rparr>)"
    by (rule now_holds_keep [OF s1(2)]) (use s1(2) in \<open>simp_all add: now_holds_def\<close>)
  moreover have "walks_end (st1\<lparr>freed := freed st1 @ [mp]\<rparr>)"
    using assms(2) s1(2) walks_end_shape [of "st1\<lparr>freed := freed st1 @ [mp]\<rparr>" st] by (simp add: now_holds_def)
  ultimately show ?thesis using True s1(1,3) k(1) by (simp add: flush_one_def goes_def)
next
  case False
  then show ?thesis using assms now_holds_same [OF assms(1), of a] by (auto simp: flush_one_def goes_def)
qed

definition swept :: "nat \<Rightarrow> bool \<Rightarrow> strmsg list \<Rightarrow> strmsg \<Rightarrow> bool" where
  "swept pri flag D x \<longleftrightarrow> (\<exists>m \<in> set D. goes pri flag m \<and> m_addr x = m_addr m)"

lemma swept_simps [simp]:
  "\<not> swept pri flag [] x" "swept pri flag (m # D) x \<longleftrightarrow> (goes pri flag m \<and> m_addr x = m_addr m) \<or> swept pri flag D x"
  by (auto simp: swept_def)

lemma flushband_loop_ok:
  assumes "st_ok st" "walks_end st" "set (X @ take 1 Y) \<subseteq> set (msgs_at st a)" "distinct (map m_addr (X @ take 1 Y))"
    and "lst = (case Y of [] \<Rightarrow> None | y # _ \<Rightarrow> Some (m_addr y))"
  shows "\<exists>st'. flushband_loop mem a pri flag lst (X @ Y) st = Some st'
    \<and> now_holds a (filter (\<lambda>x. \<not> swept pri flag (X @ take 1 Y) x) (msgs_at st a)) st st'
    \<and> freed st' = freed st @ filter (goes pri flag) (X @ take 1 Y)"
  using assms
proof (induction X arbitrary: st)
  case Nil
  show ?case
  proof (cases Y)
    case Nil
    then show ?thesis using Nil.prems now_holds_same [OF Nil.prems(1), of a] by simp
  next
    case (Cons y Z)
    then show ?thesis using Nil.prems flush_one_ok [OF Nil.prems(1,2), of y a mem pri flag] by fastforce
  qed
next
  case (Cons x X)
  have ne: "Some (m_addr x) \<noteq> lst" using Cons.prems(4,5) by (auto split: list.splits)
  have "x \<in> set (msgs_at st a)" using Cons.prems(3) by simp
  from flush_one_ok [OF Cons.prems(1,2) this, of mem pri flag] obtain st1 where
    s1: "flush_one mem a pri flag x st = Some st1" "walks_end st1"
    "now_holds a (filter (\<lambda>y. \<not> (goes pri flag x \<and> m_addr y = m_addr x)) (msgs_at st a)) st st1"
    "freed st1 = freed st @ filter (goes pri flag) [x]" by blast
  have m1: "st_ok st1" "msgs_at st1 a = filter (\<lambda>y. \<not> (goes pri flag x \<and> m_addr y = m_addr x)) (msgs_at st a)"
    using s1(3) by (simp_all add: now_holds_def)
  have "set (X @ take 1 Y) \<subseteq> set (msgs_at st1 a)"
  proof
    fix z assume z: "z \<in> set (X @ take 1 Y)"
    then have "m_addr z \<noteq> m_addr x" using Cons.prems(4) by (metis append_Cons distinct.simps(2) image_eqI list.simps(9) set_map)
    moreover have "z \<in> set (msgs_at st a)" using z Cons.prems(3) by auto
    ultimately show "z \<in> set (msgs_at st1 a)" using m1(2) by simp
  qed
  from Cons.IH [OF m1(1) s1(2) this _ Cons.prems(5)] Cons.prems(4) obtain st2 where
    s2: "flushband_loop mem a pri flag lst (X @ Y) st1 = Some st2"
    "now_holds a (filter (\<lambda>x. \<not> swept pri flag (X @ take 1 Y) x) (msgs_at st1 a)) st1 st2"
    "freed st2 = freed st1 @ filter (goes pri flag) (X @ take 1 Y)" by auto
  have "filter (\<lambda>z. \<not> swept pri flag (X @ take 1 Y) z) (msgs_at st1 a) = filter (\<lambda>z. \<not> swept pri flag ((x # X) @ take 1 Y) z) (msgs_at st a)"
    unfolding m1(2) filter_filter by (rule filter_cong) auto
  then show ?case using ne s1(1,4) s2 now_holds_trans [OF s1(3)] by simp
qed

text \<open>The messages of one band form a segment of the queue.\<close>

lemma band_segment:
  assumes "msgs_ok n L" "0 < i" "i \<le> n" "in_band i L \<noteq> []"
  obtains A C where "L = A @ in_band i L @ C" "in_band i A = []" "in_band i C = []"
proof -
  obtain A x B where L: "L = A @ x # B" "x = hd (in_band i L)" "\<forall>m \<in> set A. i < prio m" "prio x = i" "\<forall>m \<in> set B. prio m \<le> i"
    using band_first_split [OF assms] .
  have ok: "n \<le> 255" "\<forall>m \<in> set L. msg_ok n m" using assms(1) by (auto simp: msgs_ok_def)
  have pb: "prio m = i \<longleftrightarrow> b_band m = i" if "m \<in> set L" for m using prio_band [OF _ ok(1) assms(2,3)] ok(2) that by blast
  have A: "in_band i A = []" using L(3) pb L(1) by (fastforce simp: in_band_empty)
  let ?P = "\<lambda>m. b_band m = i"
  have C: "in_band i (dropWhile ?P B) = []"
  proof (cases "dropWhile ?P B")
    case Nil
    then show ?thesis by (simp only: in_band_simps)
  next
    case (Cons h C)
    then have B: "B = takeWhile ?P B @ h # C" and h: "b_band h \<noteq> i" by (simp_all add: dropWhile_eq_Cons_conv)
    have sub: "set (h # C) \<subseteq> set B" by (subst B) auto
    then have hL: "h \<in> set L" "h \<in> set B" and CL: "\<And>m. m \<in> set C \<Longrightarrow> m \<in> set L" using L(1) by auto
    have "prio h < i" using L(5) hL(2) pb [OF hL(1)] h by fastforce
    moreover have "in_order (takeWhile ?P B @ h # C)" using assms(1) L(1) B by (simp add: msgs_ok_def)
    ultimately have lt: "\<forall>m \<in> set C. prio m < i" by fastforce
    have "b_band m \<noteq> i" if "m \<in> set C" for m using lt pb [OF CL [OF that]] that by auto
    then show ?thesis using Cons h by (simp add: in_band_empty)
  qed
  have "in_band i (takeWhile ?P B) = takeWhile ?P B" by (auto simp: in_band_def filter_id_conv dest: set_takeWhileD)
  then have "in_band i B = takeWhile ?P B" using C by (metis append_Nil2 in_band_simps(2) takeWhile_dropWhile_id)
  moreover have "b_band x = i" using pb [of x] L(1,4) by simp
  ultimately have "in_band i L = x # takeWhile ?P B" using A L(1) by simp
  then have "L = A @ in_band i L @ dropWhile ?P B" using L(1) by simp
  then show thesis using that A C by blast
qed

lemma find_hd_band:
  assumes "distinct (map m_addr (A @ f # B))"
  shows "find_pos (\<lambda>m. m_addr m = m_addr f) (A @ f # B) = Some (length A)"
  using find_addr [OF assms] by simp

lemma flushband_pri_ok:
  assumes "st_ok st" "walks_end st" "0 < pri" "pri \<le> q_nband (queues st a)"
  shows "\<exists>st'. flushband mem a pri flag st = Some st' \<and> now_holds a (filter (\<lambda>m. \<not> goes pri flag m) (msgs_at st a)) st st'
    \<and> freed st' = freed st @ filter (goes pri flag) (msgs_at st a)"
proof -
  let ?q = "queues st a" and ?L = "msgs_at st a" and ?F = "in_band pri (msgs_at st a)" and ?b = "band_of (queues st a) pri"
  note q = st_okD [OF assms(1), of a]
  have b: "band_ok ?F ?b" using q_okD(3) [OF q assms(3,4)] .
  have M: "msgs_ok (q_nband ?q) ?L" and d: "distinct (map m_addr ?L)" using q_okD(1) [OF q] by (auto simp: msgs_ok_def)
  show ?thesis
  proof (cases ?F)
    case Nil
    then have "filter (\<lambda>m. \<not> goes pri flag m) ?L = ?L" "filter (goes pri flag) ?L = []"
      by (auto simp: in_band_empty goes_def filter_id_conv filter_empty_conv)
    then show ?thesis using Nil b assms(3,4) now_holds_same [OF assms(1), of a] by (simp add: flushband_def band_ok_def first_addr_def)
  next
    case (Cons f G)
    have "?F \<noteq> []" using Cons by simp
    from band_segment [OF M assms(3,4) this] obtain A C where
      S: "?L = A @ ?F @ C" "in_band pri A = []" "in_band pri C = []" by blast
    have L: "?L = A @ f # G @ C" using S(1) Cons by simp
    have dd: "distinct (map m_addr (A @ f # G @ C))" using d L by simp
    define lst where "lst = (if G = [] then (case C of [] \<Rightarrow> None | c # _ \<Rightarrow> Some (m_addr c)) else Some (m_addr (last G)))"
    have qb: "qb_first ?b = Some (m_addr f)" "qb_last ?b = Some (m_addr (last (f # G)))"
      using b Cons by (simp_all add: band_ok_def first_addr_def last_addr_def)
    have one: "qb_last ?b = Some (m_addr f) \<longleftrightarrow> G = []"
      using qb(2) dd by (cases G rule: rev_cases) auto
    have fp: "find_pos (\<lambda>m. m_addr m = m_addr f) ?L = Some (length A)" unfolding L by (rule find_hd_band [OF dd])
    let ?lst = "if qb_last ?b = Some (m_addr f) then (if Suc (length A) < length ?L then Some (m_addr (?L ! Suc (length A))) else None) else qb_last ?b"
    have r0: "flushband mem a pri flag st = flushband_loop mem a pri flag ?lst (drop (length A) ?L) st"
      using assms(3,4) qb(1) fp by (simp add: flushband_def Let_def del: flushband_loop.simps)
    have "(if qb_last ?b = Some (m_addr f) then (if Suc (length A) < length ?L then Some (m_addr (?L ! Suc (length A))) else None)
        else qb_last ?b) = lst"
      using one qb(2) L by (cases C) (auto simp: lst_def nth_append)
    then have r: "flushband mem a pri flag st = flushband_loop mem a pri flag lst (f # G @ C) st"
      using r0 L by simp
    obtain X Y where XY: "f # G @ C = X @ Y" "lst = (case Y of [] \<Rightarrow> None | y # _ \<Rightarrow> Some (m_addr y))" "set (f # G) \<subseteq> set (X @ take 1 Y)"
      "set (X @ take 1 Y) \<subseteq> set (f # G @ C)"
      "filter (goes pri flag) (X @ take 1 Y) = filter (goes pri flag) ?L"
    proof -
      have none: "filter (goes pri flag) Z = []" if "in_band pri Z = []" for Z using that by (auto simp: in_band_empty goes_def filter_empty_conv)
      have "in_band pri (take 1 C) = []" using S(3) by (auto simp: in_band_empty dest: in_set_takeD)
      then have none: "filter (goes pri flag) A = []" "filter (goes pri flag) C = []" "filter (goes pri flag) (take 1 C) = []"
        using none S(2,3) by simp_all
      show thesis
      proof (cases G rule: rev_cases)
        case Nil
        then show thesis using none L by (intro that [of "[f]" C]) (auto simp: lst_def dest: in_set_takeD split: list.splits)
      next
        case (snoc G' g)
        then show thesis using none L by (intro that [of "f # G'" "g # C"]) (auto simp: lst_def)
      qed
    qed
    have "distinct (map m_addr (X @ take 1 Y))"
    proof -
      have "distinct (map m_addr (X @ Y))" using dd unfolding XY(1) [symmetric] by simp
      then show ?thesis by (cases Y) auto
    qed
    moreover have "set (X @ take 1 Y) \<subseteq> set ?L" using XY(4) L by auto
    ultimately obtain st' where s: "flushband mem a pri flag st = Some st'"
      "now_holds a (filter (\<lambda>x. \<not> swept pri flag (X @ take 1 Y) x) ?L) st st'" "freed st' = freed st @ filter (goes pri flag) ?L"
      using flushband_loop_ok [OF assms(1,2) _ _ XY(2), of X a mem pri flag] r unfolding XY(1,5) by auto
    have "swept pri flag (X @ take 1 Y) x \<longleftrightarrow> goes pri flag x" if "x \<in> set ?L" for x
    proof
      assume "swept pri flag (X @ take 1 Y) x"
      then obtain m where "m \<in> set ?L" "goes pri flag m" "m_addr x = m_addr m" using XY(4) L by (auto simp: swept_def)
      then show "goes pri flag x" using d that by (auto simp: distinct_map dest: inj_onD)
    next
      assume g: "goes pri flag x"
      then have "x \<in> set ?F" using that by (auto simp: in_band_def goes_def)
      then show "swept pri flag (X @ take 1 Y) x" using g XY(3) Cons by (auto simp: swept_def)
    qed
    then have "filter (\<lambda>x. \<not> swept pri flag (X @ take 1 Y) x) ?L = filter (\<lambda>x. \<not> goes pri flag x) ?L" by (intro filter_cong) auto
    then show ?thesis using s by auto
  qed
qed

lemma flushband_zero_ok:
  assumes "st_ok st" "walks_end st"
  shows "\<exists>st'. flushband mem a 0 flag st = Some st' \<and> now_holds a (filter (\<lambda>m. \<not> (goes 0 flag m \<and> db_type m < QPCTL)) (msgs_at st a)) st st'
    \<and> freed st' = freed st @ filter (\<lambda>m. goes 0 flag m \<and> db_type m < QPCTL) (msgs_at st a)"
proof -
  let ?gone = "\<lambda>m. b_band m = 0 \<and> db_type m < QPCTL \<and> (flag \<or> datamsg (db_type m))"
  obtain st1 where s1: "flush_loop mem a ?gone (msgs_at st a) (upd_queue a (reset_queue (queues st a)) st) = Some st1"
    "now_holds a (filter (\<lambda>m. \<not> ?gone m) (msgs_at st a)) st st1" "freed st1 = freed st @ filter ?gone (msgs_at st a)"
    using flush_start [OF assms(1)] by blast
  have eq: "filter (\<lambda>m. \<not> ?gone m) (msgs_at st a) = filter (\<lambda>m. \<not> (goes 0 flag m \<and> db_type m < QPCTL)) (msgs_at st a)"
    "filter ?gone (msgs_at st a) = filter (\<lambda>m. goes 0 flag m \<and> db_type m < QPCTL) (msgs_at st a)"
    by (intro filter_cong refl, auto simp: goes_def)+
  have ok1: "st_ok st1" "walks_end st1" using s1(2) assms(2) walks_end_shape [of st1 st] by (auto simp: now_holds_def)
  let ?q = "(queues st1 a)\<lparr>q_flag := q_flag (queues st1 a) AND NOT QWANTW\<rparr>"
  have "qshape ?q = qshape (queues st1 a)" by (simp add: qshape_flag)
  then obtain st2 where "backenable mem a 0 (upd_queue a ?q st1) = Some st2" "now_holds a (msgs_at st1 a) st1 st2" "freed st2 = freed st1"
    using then_backenable [OF ok1 _ _, of ?q a 0 True mem] st_okD [OF ok1(1), of a] by auto
  then show ?thesis using s1 eq by (auto simp: flushband_def now_holds_def)
qed

end
