(* ===== verification/Strq_Props.thy ===== *)
theory Strq_Props
  imports Strq_State
begin

text \<open>
  The properties of STREAMS queues: first-in first-out by priority, an invariant over all operations, flushing, flow
  control, the fields read and set by \<^verbatim>\<open>strqget\<close> and \<^verbatim>\<open>strqset\<close>, and what \<^verbatim>\<open>insq\<close> does at the end of a queue.
\<close>

section \<open>\<^verbatim>\<open>insq\<close>\<close>

lemma in_order_hd: "in_order (x # L) \<Longrightarrow> m \<in> set (x # L) \<Longrightarrow> prio m \<le> prio x"
  by auto

lemma insq_order:
  assumes "msgs_ok n L" "L = A @ emp # B" "msg_ok n mp" "\<not> insq_badord (length A) mp L" "db_type mp \<ge> QPCTL \<or> db_type emp < QPCTL"
  shows "(\<forall>x \<in> set A. prio mp \<le> prio x) \<and> (\<forall>x \<in> set (emp # B). prio x \<le> prio mp)"
proof -
  have ok: "n \<le> 255" "in_order (A @ emp # B)" "\<forall>m \<in> set (A @ emp # B). msg_ok n m" using assms(1,2) by (auto simp: msgs_ok_def)
  have e: "prio emp \<le> prio mp"
    using assms(2-5) ok(1,3) by (auto simp: insq_badord_def prio_def queclass_cases msg_ok_def QPCTL_num QNORM_def split: if_splits)
  have "prio mp \<le> prio (last A)" if "A \<noteq> []"
  proof -
    have "L ! (length A - 1) = last A" "0 < length A" using assms(2) that by (simp_all add: nth_append last_conv_nth)
    then show ?thesis
      using assms(2-4) ok(1,3) that by (auto simp: insq_badord_def prio_def queclass_cases msg_ok_def QPCTL_num QNORM_def split: if_splits)
  qed
  then have "\<forall>x \<in> set A. prio mp \<le> prio x" using in_order_last [of A] ok(2) by fastforce
  moreover have "\<forall>x \<in> set (emp # B). prio x \<le> prio mp" using e ok(2) by fastforce
  ultimately show ?thesis by blast
qed

lemma insq_ends_ok:
  assumes "msgs_ok n (A @ emp # B)" "msg_ok n mp" "b_band mp = i" "0 < i" "prio emp \<le> prio mp"
  shows "ends_ok (insq_ends (length A) (A @ emp # B)) mp (in_band i A) (in_band i (emp # B))"
proof -
  have ok: "n \<le> 255" "i \<le> n" "msg_ok n emp" "\<forall>m \<in> set B. msg_ok n m" "\<forall>m \<in> set B. prio m \<le> prio emp"
    and d: "distinct (map m_addr (A @ emp # B))" using assms(1-3) by (auto simp: msgs_ok_append msgs_ok_def msg_ok_def)
  have p: "prio mp = i" using prio_band [OF assms(2) ok(1) assms(4) ok(2)] assms(3) by simp
  have hd1: "b_band emp = i \<or> in_band i (emp # B) = []"
  proof (rule disjCI)
    assume ne: "in_band i (emp # B) \<noteq> []"
    show "b_band emp = i"
    proof (rule ccontr)
      assume nb: "b_band emp \<noteq> i"
      then have "prio emp < i" using prio_band [OF ok(3,1) assms(4) ok(2)] assms(5) p by auto
      then have "b_band m \<noteq> i" if "m \<in> set B" for m using that ok prio_le [of n m] by fastforce
      then show False using ne nb by (simp add: in_band_empty)
    qed
  qed
  have a: "m_addr (hd (in_band i A)) \<noteq> m_addr emp" if "in_band i A \<noteq> []"
  proof -
    have "hd (in_band i A) \<in> set A" using hd_in_set [OF that] by (simp add: in_band_def)
    moreover have "m_addr emp \<notin> m_addr ` set A" using d by simp
    ultimately show ?thesis by (metis imageI)
  qed
  show ?thesis using hd1 a assms(3) by (cases "in_band i A") (auto simp: ends_ok_def insq_ends_def band_ok_def first_addr_def last_addr_def)
qed

text \<open>
  Where \<^verbatim>\<open>insq\<close> keeps a queue in order: before a message, when that is not of higher class, and at the end, when the last message is
  not of lower class and the queue has no message of the new one's band above 0.
\<close>

definition insq_fits :: "nat \<Rightarrow> strmsg \<Rightarrow> strmsg list \<Rightarrow> bool" where
  "insq_fits k mp L \<longleftrightarrow>
     (if k < length L then db_type mp \<ge> QPCTL \<or> db_type (L ! k) < QPCTL
      else k = length L \<and> (L \<noteq> [] \<and> db_type mp \<ge> QPCTL \<longrightarrow> db_type (last L) \<ge> QPCTL) \<and>
           (b_band (norm_band mp) \<noteq> 0 \<longrightarrow> in_band (b_band (norm_band mp)) L = []))"

lemma insq_order_end:
  assumes "msgs_ok n L" "msg_ok n mp" "\<not> insq_badord (length L) mp L" "L \<noteq> [] \<and> db_type mp \<ge> QPCTL \<longrightarrow> db_type (last L) \<ge> QPCTL"
  shows "\<forall>x \<in> set L. prio mp \<le> prio x"
proof (cases "L = []")
  case False
  have n: "n \<le> 255" using assms(1) by (simp add: msgs_ok_def)
  from False have "prio mp \<le> prio (last L)"
    using assms(2-4) n by (auto simp: insq_badord_def prio_def queclass_cases msg_ok_def QPCTL_num QNORM_def split: if_splits)
  then show ?thesis using in_order_last [of L] assms(1) False by (fastforce simp: msgs_ok_def)
qed simp

lemma insq_ends_end: "ends_ok (insq_ends (length L) L) mp [] []"
  by (auto simp: ends_ok_def insq_ends_def band_ok_def first_addr_def last_addr_def)

lemma insq_ok:
  assumes "st_ok st" "b_band mp \<le> 255" "m_addr mp \<notin> m_addr ` set (msgs_at st a)" "insq_fits k mp (msgs_at st a)"
    "insq mem a k mp st = (r, st')"
  shows "now_holds a (if r then insert_at k (norm_band mp) (msgs_at st a) else msgs_at st a) st st'"
proof (cases "insq_badord k (norm_band mp) (msgs_at st a)")
  case True
  then show ?thesis using assms(1,5) now_holds_same by (simp add: insq_def)
next
  case False
  let ?mp = "norm_band mp"
  obtain ok q n where g: "grow_bands mem (b_band ?mp) (queues st a) (sd_cnt st) = (ok, q, n)" by (metis prod_cases3)
  have b: "b_band ?mp \<le> 255" using assms(2) by simp
  note G = grow_bands_ok [OF st_okD [OF assms(1)] b g]
  have sh: "qshape q = qshape (queues st a)" by (rule qshape_grow [OF st_okD [OF assms(1)] b g])
  have u: "now_holds a (msgs_at st a) st ((upd_queue a q st)\<lparr>sd_cnt := n\<rparr>)"
    using now_holdsI [OF assms(1), of q a] G sh by (simp add: now_holds_def)
  show ?thesis
  proof (cases ok)
    case True
    then have m: "msg_ok (q_nband q) ?mp" using G norm_band_ok assms(2) by blast
    let ?A = "take k (msgs_at st a)" and ?B = "drop k (msgs_at st a)"
    have M: "msgs_ok (q_nband q) (msgs_at st a)" using G q_okD(1) [of q] by simp
    have qL: "q_msgs q = ?A @ ?B" using G by simp
    have len: "length ?A = k" using assms(4) by (auto simp: insq_fits_def split: if_splits)
    have fr: "m_addr ?mp \<notin> m_addr ` set (q_msgs q)" using G assms(3) by simp
    have o1: "(\<forall>x \<in> set ?A. prio ?mp \<le> prio x) \<and> (\<forall>x \<in> set ?B. prio x \<le> prio ?mp) \<and>
        (b_band ?mp \<noteq> 0 \<longrightarrow> ends_ok (insq_ends k (msgs_at st a)) ?mp (in_band (b_band ?mp) ?A) (in_band (b_band ?mp) ?B))"
    proof (cases "k < length (msgs_at st a)")
      case True
      have L: "msgs_at st a = ?A @ msgs_at st a ! k # drop (Suc k) (msgs_at st a)" by (rule id_take_nth_drop [OF True])
      have B: "?B = msgs_at st a ! k # drop (Suc k) (msgs_at st a)" by (rule Cons_nth_drop_Suc [OF True, symmetric])
      have M2: "msgs_ok (q_nband q) (?A @ msgs_at st a ! k # drop (Suc k) (msgs_at st a))" using M L by simp
      have o: "\<forall>x \<in> set ?A. prio ?mp \<le> prio x" "\<forall>x \<in> set ?B. prio x \<le> prio ?mp"
        unfolding B using insq_order [OF M L m] False assms(4) len True by (auto simp: insq_fits_def)
      then show ?thesis using insq_ends_ok [OF M2 m refl] unfolding len L [symmetric] B by auto
    next
      case at_end: False
      then have k: "k = length (msgs_at st a)" and last: "msgs_at st a \<noteq> [] \<and> db_type ?mp \<ge> QPCTL \<longrightarrow> db_type (last (msgs_at st a)) \<ge> QPCTL"
        and ib: "b_band ?mp \<noteq> 0 \<longrightarrow> in_band (b_band ?mp) (msgs_at st a) = []" using assms(4) by (auto simp: insq_fits_def)
      show ?thesis using insq_order_end [OF M m _ last] False ib insq_ends_end by (simp add: k)
    qed
    let ?q1 = "put_at k (insq_ends k (msgs_at st a)) ?mp q"
    have q1: "q_ok ?q1" "q_msgs ?q1 = insert_at k ?mp (msgs_at st a)"
      using put_at_ok [OF _ m fr qL, of "insq_ends k (msgs_at st a)"] o1 G unfolding len by (auto simp: insert_at_def)
    let ?st1 = "(upd_queue a q st)\<lparr>sd_cnt := n\<rparr>"
    have h: "now_holds a (insert_at k ?mp (msgs_at st a)) st (upd_queue a ?q1 ?st1)"
      using now_holds_trans [OF u] now_holdsI [of ?st1 ?q1 a] q1 u by (simp add: now_holds_def)
    then have "now_holds a (insert_at k ?mp (msgs_at st a)) st (qenable a (upd_queue a ?q1 ?st1))"
      by (rule now_holds_keep) (use h in \<open>simp_all add: now_holds_def qenable_ok\<close>)
    then show ?thesis using h assms(5) False g True by (auto simp: insq_def Let_def split: if_splits)
  next
    case f: False
    then show ?thesis using u assms(5) False g by (simp add: insq_def Let_def)
  qed
qed

section \<open>The operations that move no message\<close>

definition quiet :: "strstate \<Rightarrow> strstate \<Rightarrow> bool" where
  "quiet st st' \<longleftrightarrow> st_ok st' \<and> shape st' = shape st \<and> (\<forall>b. msgs_at st' b = msgs_at st b)"

lemma quiet_upd: "st_ok st \<Longrightarrow> q_ok q \<Longrightarrow> qshape q = qshape (queues st a) \<Longrightarrow> q_msgs q = msgs_at st a \<Longrightarrow> quiet st (upd_queue a q st)"
  by (simp add: quiet_def st_ok_upd shape_upd)

lemma quiet_flag:
  "st_ok st \<Longrightarrow> f AND QREADR = q_flag (queues st a) AND QREADR \<Longrightarrow> quiet st (upd_queue a ((queues st a)\<lparr>q_flag := f\<rparr>) st)"
  by (rule quiet_upd) (simp_all add: qshape_flag st_okD)

lemma quiet_band_flag:
  assumes "st_ok st" "0 < pri" "pri \<le> q_nband (queues st a)"
  shows "quiet st (upd_queue a (set_band pri ((band_of (queues st a) pri)\<lparr>qb_flag := f\<rparr>) (queues st a)) st)"
  by (rule quiet_upd [OF assms(1) q_ok_set_flag [OF st_okD [OF assms(1)] assms(2,3)]]) simp_all

lemma quiet_refl: "st_ok st \<Longrightarrow> quiet st st"
  by (simp add: quiet_def)

lemma canput_quiet: "st_ok st \<Longrightarrow> canput a st = Some (r, st') \<Longrightarrow> quiet st st'"
  by (auto simp: canput_def Let_def quiet_refl quiet_flag split: option.splits if_splits)

lemma bcanput_quiet: "st_ok st \<Longrightarrow> bcanput a pri st = Some (r, st') \<Longrightarrow> quiet st st'"
  using quiet_band_flag [of st pri] by (auto simp: bcanput_def Let_def quiet_refl quiet_flag split: option.splits if_splits)

lemma grow_quiet:
  assumes "st_ok st" "pri \<le> 255" "grow_bands mem pri (queues st a) (sd_cnt st) = (ok, q, n)"
  shows "quiet st ((upd_queue a q st)\<lparr>sd_cnt := n\<rparr>)"
  using grow_bands_ok [OF st_okD [OF assms(1)] assms(2,3)] qshape_grow [OF st_okD [OF assms(1)] assms(2,3)]
    quiet_upd [OF assms(1), of q a] by (auto simp: quiet_def)

lemma quiet_trans: "quiet st st1 \<Longrightarrow> quiet st1 st2 \<Longrightarrow> quiet st st2"
  by (simp add: quiet_def)

lemma strqset_quiet:
  assumes "st_ok st" "pri \<le> 255" "strqset mem a what pri val st = (e, st')"
  shows "quiet st st'"
proof (cases "what = QBAD")
  case True
  then show ?thesis using assms quiet_refl by (simp add: strqset_def)
next
  case False
  obtain ok q n where g: "grow_bands mem pri (queues st a) (sd_cnt st) = (ok, q, n)" by (metis prod_cases3)
  let ?st1 = "(upd_queue a q st)\<lparr>sd_cnt := n\<rparr>"
  have q1: "quiet st ?st1" by (rule grow_quiet [OF assms(1,2) g])
  then have ok1: "st_ok ?st1" by (simp add: quiet_def)
  have qq: "q_ok q" using st_okD [OF ok1, of a] by simp
  have wm: "q_ok (q\<lparr>q_hiwat := w\<rparr>)" "q_ok (q\<lparr>q_lowat := w\<rparr>)" "q_ok (q\<lparr>q_maxpsz := v\<rparr>)" "q_ok (q\<lparr>q_minpsz := v\<rparr>)" for w v
    using qq by (simp_all add: q_ok_def)
  have norm: "quiet ?st1 (upd_queue a q2 ?st1)" if "strqset_norm what val q = (e2, q2)" for e2 q2
    by (intro quiet_upd [OF ok1]) (use that qq wm in \<open>auto simp: strqset_norm_def qshape_def split: qfields.splits\<close>)
  have band: "quiet ?st1 (upd_queue a (set_band pri b2 q) ?st1)" if "strqset_band what val (band_of q pri) = (e2, b2)" "0 < pri" "ok" for e2 b2
  proof (rule quiet_upd [OF ok1])
    have "pri \<le> q_nband q" using grow_bands_ok [OF st_okD [OF assms(1)] assms(2) g] that(3) by simp
    moreover have "\<forall>F. band_ok F b2 = band_ok F (band_of q pri)"
      using that(1) by (auto simp: strqset_band_def band_ok_def split: qfields.splits)
    ultimately show "q_ok (set_band pri b2 q)" using qq that(2) by (auto simp: q_ok_def set_band_def nth_list_update)
  qed simp_all
  show ?thesis
    using assms(3) False g q1 quiet_trans [OF q1] norm band
    by (auto simp: strqset_def Let_def split: if_splits prod.splits)
qed

lemma strqget_quiet:
  assumes "st_ok st" "pri \<le> 255" "strqget mem a what pri st = (v, st')"
  shows "quiet st st'"
proof -
  obtain ok q n where g: "grow_bands mem pri (queues st a) (sd_cnt st) = (ok, q, n)" by (metis prod_cases3)
  then show ?thesis using assms(3) grow_quiet [OF assms(1,2) g] quiet_refl [OF assms(1)]
    by (auto simp: strqget_def Let_def split: if_splits)
qed

section \<open>Sequences of operations\<close>

inductive strq_step :: "(nat \<Rightarrow> bool) \<Rightarrow> strstate \<Rightarrow> strstate \<Rightarrow> bool" for mem :: "nat \<Rightarrow> bool" where
  put: "\<lbrakk>b_band bp \<le> 255; m_addr bp \<notin> m_addr ` set (msgs_at st a); putq mem a bp st = Some (r, st')\<rbrakk> \<Longrightarrow> strq_step mem st st'"
| putb: "\<lbrakk>b_band bp \<le> 255; m_addr bp \<notin> m_addr ` set (msgs_at st a); putbq mem a bp st = Some (r, st')\<rbrakk> \<Longrightarrow> strq_step mem st st'"
| ins: "\<lbrakk>b_band mp \<le> 255; m_addr mp \<notin> m_addr ` set (msgs_at st a); insq_fits k mp (msgs_at st a);
     insq mem a k mp st = (r, st')\<rbrakk> \<Longrightarrow> strq_step mem st st'"
| get: "getq mem a st = Some (r, st') \<Longrightarrow> strq_step mem st st'"
| rmv: "k < length (msgs_at st a) \<Longrightarrow> rmvq mem a k st = Some st' \<Longrightarrow> strq_step mem st st'"
| flush: "flushq mem a flag st = Some st' \<Longrightarrow> strq_step mem st st'"
| flushb: "flushband mem a pri flag st = Some st' \<Longrightarrow> strq_step mem st st'"
| can: "canput a st = Some (r, st') \<Longrightarrow> strq_step mem st st'"
| bcan: "bcanput a pri st = Some (r, st') \<Longrightarrow> strq_step mem st st'"
| enab: "strq_step mem st (qenable a st)"
| noen: "strq_step mem st (noenable a st)"
| enok: "strq_step mem st (enableok a st)"
| qset: "pri \<le> 255 \<Longrightarrow> strqset mem a what pri val st = (e, st') \<Longrightarrow> strq_step mem st st'"
| qget: "pri \<le> 255 \<Longrightarrow> strqget mem a what pri st = (v, st') \<Longrightarrow> strq_step mem st st'"

inductive strq_reach :: "(nat \<Rightarrow> bool) \<Rightarrow> strstate \<Rightarrow> strstate \<Rightarrow> bool" for mem :: "nat \<Rightarrow> bool" and st0 :: strstate where
  start: "strq_reach mem st0 st0"
| step: "strq_reach mem st0 st \<Longrightarrow> strq_step mem st st' \<Longrightarrow> strq_reach mem st0 st'"

lemma holds_keeps: "now_holds a L st st' \<Longrightarrow> st_ok st' \<and> shape st' = shape st"
  by (simp add: now_holds_def)

lemma quiet_keeps: "quiet st st' \<Longrightarrow> st_ok st' \<and> shape st' = shape st"
  by (simp add: quiet_def)

lemma flushband_keeps:
  assumes "st_ok st" "walks_end st" "flushband mem a pri flag st = Some st'"
  shows "st_ok st' \<and> shape st' = shape st"
proof -
  consider "pri > q_nband (queues st a)" | "pri = 0" | "0 < pri" "pri \<le> q_nband (queues st a)" by linarith
  then show ?thesis
  proof cases
    case 1
    then show ?thesis using assms by (simp add: flushband_def)
  next
    case 2
    then show ?thesis using flushband_zero_ok [OF assms(1,2), of mem a flag] assms(3) by (auto simp: now_holds_def)
  next
    case 3
    then show ?thesis using flushband_pri_ok [OF assms(1,2) 3, of mem flag] assms(3) by (auto simp: now_holds_def)
  qed
qed

lemma strq_step_keeps:
  "strq_step mem st st' \<Longrightarrow> st_ok st \<Longrightarrow> walks_end st \<Longrightarrow> st_ok st' \<and> shape st' = shape st"
proof (induction rule: strq_step.induct)
  case (put bp st a r st')
  then show ?case using putq_ok [of st bp a mem] holds_keeps by fastforce
next
  case (putb bp st a r st')
  then show ?case using putbq_ok [of st bp a mem] holds_keeps by fastforce
next
  case (ins mp st a k r st')
  then show ?case using insq_ok [of st mp a k mem r st'] holds_keeps by blast
next
  case (get a st r st')
  then show ?case using getq_ok [of st mem a] by (auto simp: now_holds_def)
next
  case (rmv k st a st')
  then show ?case using rmvq_ok [of st k a mem] by (auto simp: now_holds_def)
next
  case (flush a flag st st')
  then show ?case using flushq_ok [of st mem a flag] by (auto simp: now_holds_def)
next
  case (enab st a)
  then show ?case by (simp add: qenable_ok)
next
  case (noen st a)
  then show ?case using quiet_keeps [OF quiet_flag [of st _ a]] by (simp add: noenable_def)
next
  case (enok st a)
  then show ?case using quiet_keeps [OF quiet_flag [of st _ a]] by (simp add: enableok_def)
qed (auto dest: flushband_keeps canput_quiet bcanput_quiet strqset_quiet strqget_quiet quiet_keeps)

lemma strq_reach_keeps:
  "strq_reach mem st0 st \<Longrightarrow> st_ok st0 \<Longrightarrow> walks_end st0 \<Longrightarrow> st_ok st \<and> walks_end st"
proof (induction rule: strq_reach.induct)
  case (step st st')
  then show ?case using strq_step_keeps [OF step(2)] walks_end_shape [of st' st] by blast
qed simp

section \<open>A stream as an example\<close>

text \<open>A stream head at 10 and 11 and a module at 20 and 21; the write queue of the module holds three messages.\<close>

definition ex_queue :: "nat option \<Rightarrow> u32 \<Rightarrow> queue" where
  "ex_queue nxt fl = \<lparr>q_msgs = [], q_next = nxt, q_srvp = True, q_count = 0, q_flag = fl, q_minpsz = 0, q_maxpsz = 512,
     q_hiwat = 100, q_lowat = 50, q_bandp = []\<rparr>"

definition ex_msg :: "nat \<Rightarrow> nat \<Rightarrow> nat \<Rightarrow> u32 \<Rightarrow> strmsg" where
  "ex_msg a ty band n = \<lparr>m_addr = a, db_type = ty, b_band = band, b_flag = 0, m_sizes = [n]\<rparr>"

definition ex_wq :: queue where
  "ex_wq = (ex_queue None (QWANTW OR QFULL))\<lparr>q_msgs := [ex_msg 1 0x86 0 2, ex_msg 2 0 1 30, ex_msg 3 0 0 90],
     q_count := 92, q_bandp := [\<lparr>qb_count = 30, qb_first = Some 2, qb_last = Some 2, qb_hiwat = 100, qb_lowat = 50, qb_flag = 0\<rparr>]\<rparr>"

definition ex_str :: strstate where
  "ex_str = \<lparr>queues = (\<lambda>a. if a = 21 then ex_wq else if a = 11 then ex_queue (Some 21) 0 else if a = 20 then ex_queue (Some 10) QREADR
       else if a = 10 then ex_queue None QREADR else ex_queue None 0),
     qrun = [], qrunflag = False, sd_cnt = 1, freed = []\<rparr>"

lemma ex_str_ok: "st_ok ex_str"
  by (simp add: st_ok_def ex_str_def ex_wq_def ex_queue_def ex_msg_def q_ok_def msgs_ok_def msg_ok_def in_order_def prio_def
      in_band_def bytes_def msize_def band_ok_def first_addr_def last_addr_def QPCTL_def)

lemma ex_str_ends: "walks_end ex_str"
proof -
  have "\<exists>rank :: nat \<Rightarrow> nat. \<forall>a b. backq ex_str a = Some b \<longrightarrow> rank b < rank a"
    by (rule exI [of _ "\<lambda>x. if x \<in> {21, 10, 12} then 1 else 0"])
       (auto simp: backq_def OTHERQ_def ex_str_def ex_wq_def ex_queue_def q_flag_defs split: if_splits)
  moreover have "\<exists>rank :: nat \<Rightarrow> nat. \<forall>a b. q_next (queues ex_str a) = Some b \<longrightarrow> rank b < rank a"
    by (rule exI [of _ "\<lambda>x. if x \<in> {11, 20} then 1 else 0"]) (auto simp: ex_str_def ex_wq_def ex_queue_def split: if_splits)
  ultimately show ?thesis unfolding walks_end_def by blast
qed

section \<open>The properties\<close>

definition of_prio :: "nat \<Rightarrow> strmsg list \<Rightarrow> strmsg list" where
  "of_prio p L = filter (\<lambda>m. prio m = p) L"

lemma prio_norm [simp]: "prio (norm_band bp) = prio bp"
  by (auto simp: prio_def norm_band_def queclass_cases QPCTL_num)

lemma of_prio_split: "of_prio p L = of_prio p (take k L) @ of_prio p (drop k L)"
  by (simp add: of_prio_def flip: filter_append)

lemma of_prio_behind:
  assumes "in_order L"
  shows "of_prio p (insert_at (behind bp L) bp L) = of_prio p L @ (if p = prio bp then [bp] else [])"
proof -
  have "of_prio (prio bp) (drop (behind bp L) L) = []"
    using take_behind [OF assms] by (fastforce simp: filter_empty_conv of_prio_def)
  then show ?thesis using of_prio_split [of p L "behind bp L"] by (auto simp: of_prio_def insert_at_def)
qed

lemma of_prio_front:
  "of_prio p (insert_at (in_front bp L) bp L) = (if p = prio bp then [bp] else []) @ of_prio p L"
proof -
  have "of_prio (prio bp) (take (in_front bp L) L) = []"
    by (auto simp: filter_empty_conv in_front_def of_prio_def dest: set_takeWhileD simp flip: takeWhile_eq_take)
  then show ?thesis using of_prio_split [of p L "in_front bp L"] by (auto simp: of_prio_def insert_at_def)
qed

lemma now_holds_order: "now_holds a L st st' \<Longrightarrow> in_order (msgs_at st' a) \<and> msgs_at st' a = L \<and> (\<forall>b. b \<noteq> a \<longrightarrow> msgs_at st' b = msgs_at st b)"
  using q_okD(1) [of "queues st' a"] by (simp add: now_holds_def st_ok_def msgs_ok_def)

text \<open>
  C9: \<^verbatim>\<open>putq\<close> on queues in order always returns. If it returns 1 the message (in band 0 if it has high priority) is the
  last of its priority, the messages of every priority keep their order, and the queue is again by falling priority;
  if it returns 0, which needs a band that could not be allocated, the messages are as before. No other queue changes
  its messages. \<^verbatim>\<open>putbq\<close> does the same with the message as the first of its priority. Either fails only when the band of the
  message does not exist and \<^verbatim>\<open>kmem_zalloc\<close> finds no memory for the next band.
\<close>

theorem putq_fifo:
  assumes "st_ok st" and "b_band bp \<le> 255" and "m_addr bp \<notin> m_addr ` set (msgs_at st a)"
  shows "(\<exists>r st'. putq mem a bp st = Some (r, st') \<and> in_order (msgs_at st' a)
       \<and> (\<forall>p. of_prio p (msgs_at st' a) = of_prio p (msgs_at st a) @ (if r \<and> p = prio bp then [norm_band bp] else []))
       \<and> (\<forall>b. b \<noteq> a \<longrightarrow> msgs_at st' b = msgs_at st b)
       \<and> (\<not> r \<longrightarrow> q_nband (queues st a) < b_band (norm_band bp) \<and> \<not> mem (sd_cnt st')))
     \<and> (\<exists>r st'. putbq mem a bp st = Some (r, st') \<and> in_order (msgs_at st' a)
       \<and> (\<forall>p. of_prio p (msgs_at st' a) = (if r \<and> p = prio bp then [norm_band bp] else []) @ of_prio p (msgs_at st a))
       \<and> (\<forall>b. b \<noteq> a \<longrightarrow> msgs_at st' b = msgs_at st b)
       \<and> (\<not> r \<longrightarrow> q_nband (queues st a) < b_band (norm_band bp) \<and> \<not> mem (sd_cnt st')))"
proof -
  have o1: "in_order (msgs_at st a)" using now_holds_order [OF now_holds_same [OF assms(1)]] by blast
  obtain r st' where p: "putq mem a bp st = Some (r, st')"
    "now_holds a (if r then insert_at (behind (norm_band bp) (msgs_at st a)) (norm_band bp) (msgs_at st a) else msgs_at st a) st st'"
    "b_band (norm_band bp) \<le> q_nband (queues st a) \<longrightarrow> r" "\<not> r \<longrightarrow> \<not> mem (sd_cnt st')" using putq_ok [OF assms] by blast
  obtain r2 st2 where p2: "putbq mem a bp st = Some (r2, st2)"
    "now_holds a (if r2 then insert_at (in_front (norm_band bp) (msgs_at st a)) (norm_band bp) (msgs_at st a) else msgs_at st a) st st2"
    "b_band (norm_band bp) \<le> q_nband (queues st a) \<longrightarrow> r2" "\<not> r2 \<longrightarrow> \<not> mem (sd_cnt st2)" using putbq_ok [OF assms] by blast
  note h = now_holds_order [OF p(2)] and h2 = now_holds_order [OF p2(2)]
  have "\<forall>p. of_prio p (msgs_at st' a) = of_prio p (msgs_at st a) @ (if r \<and> p = prio bp then [norm_band bp] else [])"
    using h of_prio_behind [OF o1, of _ "norm_band bp"] by auto
  moreover have "\<forall>p. of_prio p (msgs_at st2 a) = (if r2 \<and> p = prio bp then [norm_band bp] else []) @ of_prio p (msgs_at st a)"
    using h2 of_prio_front [of _ "norm_band bp" "msgs_at st a"] by auto
  moreover have "\<not> r \<longrightarrow> q_nband (queues st a) < b_band (norm_band bp) \<and> \<not> mem (sd_cnt st')"
    "\<not> r2 \<longrightarrow> q_nband (queues st a) < b_band (norm_band bp) \<and> \<not> mem (sd_cnt st2)" using p(3,4) p2(3,4) by auto
  ultimately show ?thesis using p(1) p2(1) h h2 by blast
qed

theorem putq_fifo_witness:
  "\<exists>st'. putq (\<lambda>n. True) 21 (ex_msg 4 0 1 5) ex_str = Some (True, st') \<and> of_prio 1 (msgs_at st' 21) = [ex_msg 2 0 1 30, ex_msg 4 0 1 5]"
proof -
  have fr: "b_band (ex_msg 4 0 1 5) \<le> 255" "m_addr (ex_msg 4 0 1 5) \<notin> m_addr ` set (msgs_at ex_str 21)"
    by (simp_all add: ex_msg_def ex_str_def ex_wq_def)
  have "norm_band (ex_msg 4 0 1 5) = ex_msg 4 0 1 5" "prio (ex_msg 4 0 1 5) = 1" "q_nband (queues ex_str 21) = 1" "b_band (ex_msg 4 0 1 5) = 1"
    "of_prio 1 (msgs_at ex_str 21) = [ex_msg 2 0 1 30]"
    by (simp_all add: ex_msg_def norm_band_def queclass_def prio_def ex_str_def ex_wq_def of_prio_def q_flag_defs)
  then show ?thesis using putq_fifo [OF ex_str_ok fr, of "\<lambda>n. True"] by fastforce
qed

text \<open>
  The shortcuts of \<^verbatim>\<open>putq\<close> and \<^verbatim>\<open>putbq\<close> are right: on messages in order, with the structure of the band counting and
  delimiting its messages, the place they find by looking at the last message of the queue, at the ends of the band or
  by two loops is the one the definition of the order gives: behind all messages of the same or a higher priority, and
  in front of all of the same or a lower priority.
\<close>

theorem putq_places_reference:
  assumes "place_ok qbp n bp L"
  shows "putq_place qbp bp L = Some (length (takeWhile (\<lambda>m. prio m \<ge> prio bp) L))
    \<and> putbq_place qbp bp L = Some (length (takeWhile (\<lambda>m. prio m > prio bp) L))"
  using putq_place_eq [OF assms] putbq_place_eq [OF assms] by (simp add: behind_def in_front_def)

theorem putq_places_reference_witness:
  "putq_place None (ex_msg 4 0 0 5) (msgs_at ex_str 21) = Some 3 \<and> putbq_place None (ex_msg 4 0 0 5) (msgs_at ex_str 21) = Some 2"
proof -
  have "place_ok None 1 (ex_msg 4 0 0 5) (msgs_at ex_str 21)"
    using q_okD(1) [OF st_okD [OF ex_str_ok], of 21]
    by (simp add: place_ok_def msg_ok_def ex_msg_def ex_str_def ex_wq_def)
  from putq_places_reference [OF this] show ?thesis
    by (simp add: ex_msg_def ex_str_def ex_wq_def prio_def q_flag_defs)
qed

text \<open>
  C6: In every state reached from queues in order by the queue operations \<^verbatim>\<open>putq\<close>, \<^verbatim>\<open>putbq\<close>, \<^verbatim>\<open>getq\<close>, \<^verbatim>\<open>rmvq\<close>, \<^verbatim>\<open>flushq\<close>,
  \<^verbatim>\<open>flushband\<close>, \<^verbatim>\<open>canput\<close>, \<^verbatim>\<open>bcanput\<close>, \<^verbatim>\<open>qenable\<close>, \<^verbatim>\<open>noenable\<close>, \<^verbatim>\<open>enableok\<close>, \<^verbatim>\<open>strqset\<close> and \<^verbatim>\<open>strqget\<close> in any sequence, and by \<^verbatim>\<open>insq\<close>
  where it fits the order (\<open>insq_fits\<close>: it does not check the class of the message, and at the end of a queue behind messages
  of its own band it is wrong, see \<open>insq_stale_last\<close>), every queue is ordered by priority, the byte counts of the queue and of each band are those of their messages, and
  \<^verbatim>\<open>qb_first\<close> and \<^verbatim>\<open>qb_last\<close> are the first and the last message of the band.
\<close>

theorem strq_invariant:
  assumes "strq_reach mem st0 st" and "st_ok st0" and "walks_end st0"
  shows "q_ok (queues st a)"
  using strq_reach_keeps [OF assms] by (blast intro: st_okD)

theorem strq_invariant_witness: "q_ok (queues (noenable 21 ex_str) 21)"
  by (rule strq_invariant [OF strq_reach.step [OF strq_reach.start strq_step.noen] ex_str_ok ex_str_ends])

text \<open>
  C18: In every state reached from queues in order by the queue operations, with \<^verbatim>\<open>insq\<close> only where it fits the order
  (\<open>insq_fits\<close>), the operations that walk pointers come to an end and follow none that leads nowhere: \<^verbatim>\<open>getq\<close>,
  \<^verbatim>\<open>rmvq\<close> of a message on the queue, \<^verbatim>\<open>flushq\<close>, \<^verbatim>\<open>flushband\<close>, \<^verbatim>\<open>putq\<close>, \<^verbatim>\<open>putbq\<close>, \<^verbatim>\<open>canput\<close> and \<^verbatim>\<open>bcanput\<close>. (After an \<^verbatim>\<open>insq\<close> that
  does not fit they may, see \<open>insq_stale_last\<close>.)
\<close>

theorem strq_ops_complete:
  assumes "strq_reach mem st0 st" and "st_ok st0" and "walks_end st0"
  shows "getq mem a st \<noteq> None \<and> flushq mem a flag st \<noteq> None \<and> flushband mem a pri flag st \<noteq> None
    \<and> canput a st \<noteq> None \<and> bcanput a pri st \<noteq> None \<and> (k < length (msgs_at st a) \<longrightarrow> rmvq mem a k st \<noteq> None)
    \<and> (b_band bp \<le> 255 \<and> m_addr bp \<notin> m_addr ` set (msgs_at st a) \<longrightarrow> putq mem a bp st \<noteq> None \<and> putbq mem a bp st \<noteq> None)"
proof -
  have k: "st_ok st" "walks_end st" using strq_reach_keeps [OF assms] by auto
  have "flushband mem a pri flag st \<noteq> None"
  proof (cases "pri = 0 \<or> pri > q_nband (queues st a)")
    case True
    then show ?thesis using flushband_zero_ok [OF k, of mem a flag] by (auto simp: flushband_def)
  next
    case False
    then show ?thesis using flushband_pri_ok [OF k, of pri a mem flag] by auto
  qed
  moreover have "canput a st \<noteq> None" "bcanput a pri st \<noteq> None"
    using next_srv_ends [OF k(2), of a] by (auto simp: canput_def bcanput_def Let_def)
  moreover have "getq mem a st \<noteq> None" using getq_ok [OF k, of mem a] by auto
  moreover have "flushq mem a flag st \<noteq> None" using flushq_ok [OF k, of mem a flag] by auto
  moreover have "k < length (msgs_at st a) \<longrightarrow> rmvq mem a k st \<noteq> None" using rmvq_ok [OF k, of _ a mem] by auto
  moreover have "b_band bp \<le> 255 \<and> m_addr bp \<notin> m_addr ` set (msgs_at st a) \<longrightarrow> putq mem a bp st \<noteq> None \<and> putbq mem a bp st \<noteq> None"
    using putq_ok [OF k(1), of bp a mem] putbq_ok [OF k(1), of bp a mem] by auto
  ultimately show ?thesis by blast
qed

theorem strq_ops_complete_witness: "getq (\<lambda>n. True) 21 ex_str \<noteq> None"
  using strq_ops_complete [OF strq_reach.start ex_str_ok ex_str_ends, of "\<lambda>n. True" 21] by blast

text \<open>
  A message taken by \<^verbatim>\<open>getq\<close> and given back by \<^verbatim>\<open>putbq\<close> leaves the queue with the same messages in the same order,
  and with the same byte counts.
\<close>

theorem getq_putbq_roundtrip:
  assumes "st_ok st" and "walks_end st" and "msgs_at st a = bp # rest" and "b_flag bp AND MSGNOGET = 0"
    and "getq mem a st = Some (m, st1)" and "putbq mem a bp st1 = Some (r, st2)" and "r"
  shows "m = Some bp \<and> msgs_at st1 a = rest \<and> msgs_at st2 a = msgs_at st a \<and> q_count (queues st2 a) = q_count (queues st a)"
proof -
  have g: "m = Some bp" "now_holds a rest st st1" using getq_ok [OF assms(1,2), of mem a] assms(3-5) by auto
  have M: "msgs_ok (q_nband (queues st a)) (bp # rest)" using q_okD(1) [OF st_okD [OF assms(1)], of a] assms(3) by simp
  have fr: "b_band bp \<le> 255" "m_addr bp \<notin> m_addr ` set (msgs_at st1 a)" and s1: "st_ok st1" "msgs_at st1 a = rest"
    using M g(2) band_255 [OF st_okD [OF assms(1)], of bp a] assms(3) by (auto simp: now_holds_def)
  have nb: "norm_band bp = bp" using M by (auto simp: norm_band_def msg_ok_def queclass_cases QPCTL_num split: if_splits)
  have "in_front bp rest = 0" using M by (cases rest) (auto simp: in_front_def)
  then have h: "now_holds a (bp # rest) st1 st2"
    using putbq_ok [OF s1(1) fr, of mem] assms(6,7) s1(2) nb by (auto simp: insert_at_def)
  then have "q_ok (queues st2 a)" "msgs_at st2 a = bp # rest" by (auto simp: now_holds_def st_ok_def)
  then show ?thesis using g s1 assms(3) q_okD(2) [of "queues st2 a"] q_okD(2) [OF st_okD [OF assms(1)], of a] by simp
qed

theorem getq_putbq_roundtrip_witness:
  "\<exists>m st1 st2. getq (\<lambda>n. True) 21 ex_str = Some (m, st1) \<and> putbq (\<lambda>n. True) 21 (ex_msg 1 0x86 0 2) st1 = Some (True, st2)
     \<and> msgs_at st2 21 = msgs_at ex_str 21"
proof -
  let ?bp = "ex_msg 1 0x86 0 2" and ?mem = "\<lambda>n :: nat. True"
  have L: "msgs_at ex_str 21 = ?bp # [ex_msg 2 0 1 30, ex_msg 3 0 0 90]" "b_flag ?bp AND MSGNOGET = 0"
    by (simp_all add: ex_str_def ex_wq_def ex_msg_def)
  obtain m st1 where g: "getq ?mem 21 ex_str = Some (m, st1)" "now_holds 21 [ex_msg 2 0 1 30, ex_msg 3 0 0 90] ex_str st1"
    using getq_ok [OF ex_str_ok ex_str_ends, of ?mem 21] L by auto
  have "b_band ?bp \<le> 255" "m_addr ?bp \<notin> m_addr ` set (msgs_at st1 21)" "st_ok st1" "b_band (norm_band ?bp) = 0"
    using g(2) by (auto simp: now_holds_def ex_msg_def norm_band_def)
  then obtain st2 where "putbq ?mem 21 ?bp st1 = Some (True, st2)" using putbq_ok [of st1 ?bp 21 ?mem] by auto
  then show ?thesis using getq_putbq_roundtrip [OF ex_str_ok ex_str_ends L g(1)] g(1) by blast
qed

text \<open>
  C22: \<^verbatim>\<open>flushq\<close> keeps exactly the messages that are not data (none, when told to flush all), in their order, and frees the
  others; \<^verbatim>\<open>flushband\<close> takes off the queue and frees exactly the messages of its band that qualify, for band 0 none of high priority, and keeps all
  others in order. Neither touches the messages of another queue.
\<close>

theorem flush_exact:
  assumes "st_ok st" and "walks_end st"
  shows "(\<exists>st'. flushq mem a flag st = Some st' \<and> freed st' = freed st @ filter (\<lambda>m. flag \<or> datamsg (db_type m)) (msgs_at st a)
       \<and> (\<forall>b. msgs_at st' b = (if b = a then filter (\<lambda>m. \<not> (flag \<or> datamsg (db_type m))) (msgs_at st a) else msgs_at st b)))
     \<and> (\<exists>st'. flushband mem a pri flag st = Some st'
       \<and> freed st' = freed st @ filter (\<lambda>m. b_band m = pri \<and> (flag \<or> datamsg (db_type m)) \<and> (pri = 0 \<longrightarrow> db_type m < QPCTL)) (msgs_at st a)
       \<and> (\<forall>b. msgs_at st' b = (if b = a then
            filter (\<lambda>m. \<not> (b_band m = pri \<and> (flag \<or> datamsg (db_type m)) \<and> (pri = 0 \<longrightarrow> db_type m < QPCTL))) (msgs_at st a)
          else msgs_at st b)))"
proof -
  have A: "\<exists>st'. flushq mem a flag st = Some st' \<and> freed st' = freed st @ filter (\<lambda>m. flag \<or> datamsg (db_type m)) (msgs_at st a)
       \<and> (\<forall>b. msgs_at st' b = (if b = a then filter (\<lambda>m. \<not> (flag \<or> datamsg (db_type m))) (msgs_at st a) else msgs_at st b))"
    using flushq_ok [OF assms, of mem a flag] unfolding now_holds_def by blast
  let ?F = "\<lambda>m. b_band m = pri \<and> (flag \<or> datamsg (db_type m)) \<and> (pri = 0 \<longrightarrow> db_type m < QPCTL)"
  have "\<exists>st'. flushband mem a pri flag st = Some st' \<and> now_holds a (filter (\<lambda>m. \<not> ?F m) (msgs_at st a)) st st'
      \<and> freed st' = freed st @ filter ?F (msgs_at st a)"
  proof -
    consider (none) "pri > q_nband (queues st a)" | (zero) "pri = 0" | (band) "0 < pri" "pri \<le> q_nband (queues st a)" by linarith
    then show ?thesis
    proof cases
      case none
      then have "b_band m < pri" if "m \<in> set (msgs_at st a)" for m
        using q_okD(1) [OF st_okD [OF assms(1)], of a] that by (fastforce simp: msgs_ok_def msg_ok_def)
      then have "filter (\<lambda>m. \<not> ?F m) (msgs_at st a) = msgs_at st a" "filter ?F (msgs_at st a) = []"
        by (auto simp: filter_id_conv filter_empty_conv)
      then show ?thesis using none now_holds_same [OF assms(1), of a] by (simp add: flushband_def)
    next
      case zero
      have "filter (\<lambda>m. \<not> ?F m) (msgs_at st a) = filter (\<lambda>m. \<not> (goes 0 flag m \<and> db_type m < QPCTL)) (msgs_at st a)"
        "filter ?F (msgs_at st a) = filter (\<lambda>m. goes 0 flag m \<and> db_type m < QPCTL) (msgs_at st a)"
        using zero by (intro filter_cong refl, auto simp: goes_def)+
      then show ?thesis using flushband_zero_ok [OF assms, of mem a flag] zero by simp
    next
      case band
      then have "filter (\<lambda>m. \<not> ?F m) (msgs_at st a) = filter (\<lambda>m. \<not> goes pri flag m) (msgs_at st a)"
        "filter ?F (msgs_at st a) = filter (goes pri flag) (msgs_at st a)" by (intro filter_cong refl, auto simp: goes_def)+
      then show ?thesis using flushband_pri_ok [OF assms band, of mem flag] by simp
    qed
  qed
  then show ?thesis using A unfolding now_holds_def by blast
qed

theorem flush_exact_witness:
  "\<exists>st'. flushq (\<lambda>n. True) 21 False ex_str = Some st' \<and> msgs_at st' 21 = [ex_msg 1 0x86 0 2]"
proof -
  obtain st' where "flushq (\<lambda>n. True) 21 False ex_str = Some st'"
    "msgs_at st' 21 = filter (\<lambda>m. \<not> (False \<or> datamsg (db_type m))) (msgs_at ex_str 21)"
    using conjunct1 [OF flush_exact [OF ex_str_ok ex_str_ends, of "\<lambda>n. True" 21 False 0]] by (metis (mono_tags, lifting))
  moreover have "filter (\<lambda>m. \<not> (False \<or> datamsg (db_type m))) (msgs_at ex_str 21) = [ex_msg 1 0x86 0 2]"
    by (simp add: ex_str_def ex_wq_def ex_msg_def datamsg_def)
  ultimately show ?thesis by simp
qed

section \<open>Flow control\<close>

lemma back_srv_shape:
  assumes "walks_end st" "shape st' = shape st"
  shows "back_srv st' qo = back_srv st qo"
proof -
  obtain rank :: "nat \<Rightarrow> nat" where r: "\<And>a b. backq st a = Some b \<Longrightarrow> rank b < rank a" using assms(1) by (auto simp: walks_end_def)
  have b: "backq st' = backq st" by (rule backq_shape [OF assms(2)])
  have s: "q_srvp (queues st' c) = q_srvp (queues st c)" for c using fun_cong [OF assms(2), of c] by (simp add: shape_def)
  have "back_srv st' (Some a) = back_srv st (Some a)" for a
  proof (induction "rank a" arbitrary: a rule: less_induct)
    case less
    show ?case
    proof (cases "backq st a")
      case None
      then show ?thesis by (simp add: b s back_srv.simps [of _ "Some a"] back_srv.simps [of _ None])
    next
      case (Some c)
      then show ?thesis using less [OF r [OF Some]] by (simp add: b s back_srv.simps [of _ "Some a"])
    qed
  qed
  then show ?thesis by (cases qo) (simp_all add: back_srv.simps [of _ None])
qed

definition wants :: "queue \<Rightarrow> nat \<Rightarrow> bool" where
  "wants q pri \<longleftrightarrow> (if pri = 0 then q_flag q AND QWANTW \<noteq> 0 else qb_flag (band_of q pri) AND QB_WANTW \<noteq> 0)"

definition low_after :: "strmsg \<Rightarrow> queue \<Rightarrow> bool" where
  "low_after bp q \<longleftrightarrow> (if b_band bp = 0 then q_count q - msize bp \<le> q_lowat q
     else qb_count (band_of q (b_band bp)) - msize bp \<le> qb_lowat (band_of q (b_band bp)))"

lemma getq_take_enab:
  assumes "q_ok q" "q_msgs q = bp # rest" "wants q (b_band bp)" "low_after bp q" "getq_take q = Some (q1, e)"
  shows "e"
proof -
  have "b_band bp \<le> q_nband q" using q_okD(1) [OF assms(1)] assms(2) by (simp add: msg_ok_def)
  then show ?thesis using assms(2-5)
    by (auto simp: getq_take_def account_def norm_sub_def band_sub_def set_band_def wants_def low_after_def Let_def split: if_splits)
qed

lemma qenable_flag: "q_srvp (queues st b) \<Longrightarrow> q_flag (queues (qenable b st) b) AND QENAB \<noteq> 0"
proof -
  have "(f OR QENAB) AND QENAB \<noteq> 0" for f :: u32
    by (simp add: bit.conj_disj_distrib2 QENAB_def)
  then show "q_srvp (queues st b) \<Longrightarrow> ?thesis" by (simp add: qenable_def Let_def)
qed

lemma qenable_run: "q_srvp (queues st b) \<Longrightarrow> q_flag (queues st b) AND QENAB = 0 \<Longrightarrow> b \<in> set (qrun (qenable b st))"
  by (simp add: qenable_def Let_def)

lemma setqback_run [simp]: "qrun (setqback mem b pri st) = qrun st"
  by (simp add: setqback_def Let_def split: prod.splits)

text \<open>
  C27: A writer that found a band full is woken: when somebody waits to write to the band of the message taken by \<^verbatim>\<open>getq\<close>
  and the message takes its byte count to the low water mark or below, the nearest queue behind with a service
  procedure is put on the list of queues to run, unless it is on it already.
\<close>

theorem getq_backenables:
  assumes "st_ok st" and "walks_end st" and "msgs_at st a = bp # rest" and "b_flag bp AND MSGNOGET = 0"
    and "wants (queues st a) (b_band bp)" and "low_after bp (queues st a)"
    and "back_srv st (backq st a) = Some (Some b)" and "b \<noteq> a" and "q_flag (queues st b) AND QENAB = 0"
  shows "\<exists>st'. getq mem a st = Some (Some bp, st') \<and> b \<in> set (qrun st')"
proof -
  note q = st_okD [OF assms(1), of a]
  obtain q1 e where g: "getq_take (queues st a) = Some (q1, e)" "q_ok q1" "q_msgs q1 = rest" by (rule getq_take_ok [OF q assms(3)])
  have e: "e" by (rule getq_take_enab [OF q assms(3,5,6) g(1)])
  let ?st1 = "upd_queue a q1 st"
  have sh: "shape ?st1 = shape st" by (rule shape_upd [OF qshape_getq [OF g(1)]])
  have bs: "back_srv ?st1 (backq ?st1 a) = Some (Some b)"
    using back_srv_shape [OF assms(2) sh] backq_shape [OF sh] assms(7) by simp
  have "q_srvp (queues st b)" using back_srv_ends [OF assms(2), of "backq st a"] assms(7) by auto
  then have "b \<in> set (qrun (qenable b ?st1))" using assms(8,9) by (intro qenable_run) auto
  then show ?thesis using assms(3,4) g(1) e bs by (simp add: getq_def backenable_def)
qed

theorem getq_backenables_witness: "\<exists>st'. getq (\<lambda>n. True) 21 ((ex_str)\<lparr>queues := (queues ex_str)(21 := ex_wq\<lparr>q_lowat := 95\<rparr>)\<rparr>) = Some (Some (ex_msg 1 0x86 0 2), st') \<and> 11 \<in> set (qrun st')"
proof -
  let ?st = "(ex_str)\<lparr>queues := (queues ex_str)(21 := ex_wq\<lparr>q_lowat := 95\<rparr>)\<rparr>"
  have sh: "shape ?st = shape ex_str" by (auto simp: shape_def fun_eq_iff ex_str_def)
  have "q_ok (ex_wq\<lparr>q_lowat := 95\<rparr>)" using st_okD [OF ex_str_ok, of 21] by (simp add: ex_str_def q_ok_def)
  then have ok: "st_ok ?st" using ex_str_ok by (simp add: st_ok_def)
  have en: "walks_end ?st" using ex_str_ends walks_end_shape [OF sh] by simp
  show ?thesis
    by (rule getq_backenables [OF ok en, where rest = "[ex_msg 2 0 1 30, ex_msg 3 0 0 90]"])
       (simp_all add: ex_str_def ex_wq_def ex_msg_def ex_queue_def wants_def low_after_def msize_def q_flag_defs
         backq_def OTHERQ_def back_srv.simps)
qed

section \<open>Fields, and \<^verbatim>\<open>insq\<close> at the end\<close>

lemma grow_bands_done: "pri \<le> q_nband q \<Longrightarrow> grow_bands mem pri q n = (True, q, n)"
  by (subst grow_bands.simps) simp

text \<open>
  What \<^verbatim>\<open>strqset\<close> stores in a water mark of a queue or of one of its bands, \<^verbatim>\<open>strqget\<close> reads back, modulo the width of the
  field; the counts, the ends and the flags are refused with \<^verbatim>\<open>EPERM\<close>, and no message moves.
\<close>

theorem strqset_strqget_roundtrip:
  assumes "st_ok st" and "pri \<le> 255" and "what = QHIWAT \<or> what = QLOWAT" and "strqset mem a what pri val st = (None, st1)"
  shows "fst (strqget mem a what pri st1) = Inr (UVal (of_int val)) \<and> (\<forall>b. msgs_at st1 b = msgs_at st b)"
proof -
  obtain ok q n where g: "grow_bands mem pri (queues st a) (sd_cnt st) = (ok, q, n)" by (metis prod_cases3)
  note G = grow_bands_ok [OF st_okD [OF assms(1)] assms(2) g]
  have ok: "ok" using assms(3,4) g by (auto simp: strqset_def Let_def split: if_splits)
  have le: "pri \<le> q_nband q" using G ok by simp
  have m: "\<forall>b. msgs_at st1 b = msgs_at st b" using strqset_quiet [OF assms(1,2,4)] by (simp add: quiet_def)
  show ?thesis
  proof (cases "pri = 0")
    case True
    then have "queues st1 a = (if what = QHIWAT then q\<lparr>q_hiwat := of_int val\<rparr> else q\<lparr>q_lowat := of_int val\<rparr>)"
      using assms(3,4) g ok by (auto simp: strqset_def strqset_norm_def Let_def split: if_splits)
    then show ?thesis using True assms(3) m by (auto simp: strqget_def grow_bands_done strqget_norm_def)
  next
    case False
    then have "queues st1 a = set_band pri (if what = QHIWAT then (band_of q pri)\<lparr>qb_hiwat := of_int val\<rparr> else (band_of q pri)\<lparr>qb_lowat := of_int val\<rparr>) q"
      using assms(3,4) g ok by (auto simp: strqset_def strqset_band_def Let_def split: if_splits)
    then have "grow_bands mem pri (queues st1 a) (sd_cnt st1) = (True, queues st1 a, sd_cnt st1)"
      "band_of (queues st1 a) pri = (if what = QHIWAT then (band_of q pri)\<lparr>qb_hiwat := of_int val\<rparr> else (band_of q pri)\<lparr>qb_lowat := of_int val\<rparr>)"
      using le False by (simp_all add: grow_bands_done set_band_def)
    then show ?thesis using False assms(3) m by (auto simp: strqget_def strqget_band_def)
  qed
qed

theorem strqset_strqget_roundtrip_witness:
  "\<exists>st1. strqset (\<lambda>n. True) 21 QHIWAT 1 4096 ex_str = (None, st1) \<and> fst (strqget (\<lambda>n. True) 21 QHIWAT 1 st1) = Inr (UVal 4096)"
proof -
  have "grow_bands (\<lambda>n. True) 1 (queues ex_str 21) (sd_cnt ex_str) = (True, queues ex_str 21, sd_cnt ex_str)"
    by (rule grow_bands_done) (simp add: ex_str_def ex_wq_def)
  then obtain st1 where "strqset (\<lambda>n. True) 21 QHIWAT 1 4096 ex_str = (None, st1)"
    by (auto simp: strqset_def strqset_band_def)
  with strqset_strqget_roundtrip [OF ex_str_ok _ _ this] show ?thesis by auto
qed

text \<open>
  C33: Whenever \<^verbatim>\<open>insq\<close> adds an ordinary message at the end of a queue in order, behind the only message \<open>m\<close> of its band, the
  message becomes the last one of the queue, but \<^verbatim>\<open>qb_last\<close> of the band stays at \<open>m\<close>. When then \<open>m\<close> is removed (nobody waiting to
  write to the band), \<^verbatim>\<open>qb_first\<close> names the new message and \<^verbatim>\<open>qb_last\<close> is null, and every \<^verbatim>\<open>putq\<close> of a message of the band
  follows the null pointer.
\<close>

theorem insq_stale_last:
  assumes "q_ok (queues st a)" and "msgs_at st a = A @ [m]" and "0 < b_band m" and "in_band (b_band m) A = []"
    and "db_type mp < QPCTL" and "b_band mp = b_band m" and "m_addr mp \<noteq> m_addr m"
    and "qb_flag (band_of (queues st a) (b_band m)) AND QB_WANTW = 0" and "db_type bp < QPCTL" and "b_band bp = b_band m"
  shows "\<exists>st1 st2. insq mem a (length (msgs_at st a)) mp st = (True, st1) \<and> msgs_at st1 a = A @ [m, mp]
     \<and> qb_last (band_of (queues st1 a) (b_band m)) = Some (m_addr m)
     \<and> rmvq mem a (length A) st1 = Some st2 \<and> msgs_at st2 a = A @ [mp]
     \<and> qb_first (band_of (queues st2 a) (b_band m)) = Some (m_addr mp) \<and> qb_last (band_of (queues st2 a) (b_band m)) = None
     \<and> putq mem a bp st2 = None"
proof -
  let ?i = "b_band m" and ?q = "queues st a"
  have i: "0 < ?i" "?i - 1 < q_nband ?q" "?i \<le> q_nband ?q"
    using assms(2,3) q_okD(1) [OF assms(1)] by (auto simp: msgs_ok_append msg_ok_def)
  have bd: "qb_first (band_of ?q ?i) = Some (m_addr m)" "qb_last (band_of ?q ?i) = Some (m_addr m)"
    using q_okD(3) [OF assms(1) i(1,3)] assms(2,4) by (simp_all add: band_ok_def first_addr_def last_addr_def)
  have nb: "norm_band mp = mp" "norm_band bp = bp" using assms(5,9) by (simp_all add: norm_band_def queclass_cases QPCTL_num)
  define q1 where "q1 = put_at (Suc (length A)) (insq_ends (Suc (length A)) (A @ [m])) mp ?q"
  have b1: "band_of q1 ?i = band_add mp (band_of ?q ?i)" and q1: "q_msgs q1 = A @ [m, mp]" "q_nband q1 = q_nband ?q"
    using assms(2,3,6) bd i by (simp_all add: q1_def put_at_def set_band_def insq_ends_def insert_at_def Let_def)
  have e1: "qb_first (band_of q1 ?i) = Some (m_addr m)" "qb_last (band_of q1 ?i) = Some (m_addr m)"
    "qb_flag (band_of q1 ?i) AND QB_WANTW = 0"
    unfolding b1 using bd assms(8) by (auto simp: band_add_def Let_def bit.conj_disj_distrib2 QB_FULL_def QB_WANTW_def)
  have g: "grow_bands mem ?i ?q (sd_cnt st) = (True, ?q, sd_cnt st)" using i(3) by (rule grow_bands_done)
  have bad: "\<not> insq_badord (Suc (length A)) mp (A @ [m])" using assms(6) by (simp add: insq_badord_def)
  define st1 where "st1 = snd (insq mem a (length (msgs_at st a)) mp st)"
  have s1: "insq mem a (length (msgs_at st a)) mp st = (True, st1)"
    using g bad assms(2,6) nb by (simp add: insq_def Let_def st1_def)
  have fields: "q_msgs (queues st1 a) = A @ [m, mp]" "q_bandp (queues st1 a) = q_bandp q1"
    using g bad assms(2,6) nb q1 unfolding st1_def by (simp_all add: insq_def Let_def q1_def [symmetric] qenable_def)
  define b2 where "b2 = (band_of q1 ?i)\<lparr>qb_first := Some (m_addr mp), qb_last := None\<rparr>"
  obtain q2 where r: "rmvq_queue (length A) (queues st1 a) = Some (q2, False)" "q_msgs q2 = A @ [mp]"
      "q_bandp q2 = (q_bandp q1)[?i - 1 := band_sub m b2]"
  proof -
    have rf: "rm_first (length A) (A @ [m, mp]) = Some (m_addr mp)" using assms(6) by (simp add: rm_first_def nth_append)
    have rl: "rm_last (length A) (A @ [m, mp]) = None"
    proof -
      have "b_band (A ! (length A - 1)) \<noteq> ?i" if "0 < length A"
        using assms(4) that nth_mem [of "length A - 1" A] by (simp add: in_band_empty)
      then show ?thesis by (cases "A = []") (simp_all add: rm_last_def nth_append)
    qed
    show thesis
      by (rule that [of "fst (the (rmvq_queue (length A) (queues st1 a)))"])
        (use fields i q1(2) e1 assms(3,7) rf rl in \<open>simp_all add: rmvq_queue_def Let_def account_def set_band_def b2_def nth_append band_sub_def\<close>)
  qed
  define st2 where "st2 = upd_queue a q2 st1"
  have s2: "rmvq mem a (length A) st1 = Some st2" using r(1) by (simp add: rmvq_def st2_def Let_def)
  have e2: "qb_first (band_of (queues st2 a) ?i) = Some (m_addr mp)" "qb_last (band_of (queues st2 a) ?i) = None" "q_nband (queues st2 a) = q_nband ?q"
    using r(3) i q1(2) by (simp_all add: st2_def b2_def band_sub_def Let_def)
  have "putq mem a bp st2 = None"
    unfolding putq_def put_gen_def Let_def nb assms(10)
    using grow_bands_done [of ?i "queues st2 a" mem "sd_cnt st2"] i e2 r(2) assms(3)
    by (simp add: putq_place_def st2_def find_pos_None [THEN iffD2])
  then show ?thesis using s1 s2 fields(1) e1(2) fields(2) e2(1,2) r(2) by (intro exI [of _ st1] exI [of _ st2]) (simp add: st2_def)
qed

definition ex_end :: strstate where
  "ex_end = upd_queue 21 (ex_wq\<lparr>q_msgs := [ex_msg 1 0x86 0 2, ex_msg 2 0 1 30], q_count := 2\<rparr>) ex_str"

lemma ex_end_flag: "qb_flag (band_of (queues ex_end 21) (b_band (ex_msg 2 0 1 30))) AND QB_WANTW = 0"
  by (simp add: ex_end_def ex_wq_def ex_queue_def ex_msg_def)

theorem insq_stale_last_witness:
  "\<exists>st1 st2. insq (\<lambda>n. True) 21 2 (ex_msg 8 0 1 5) ex_end = (True, st1) \<and> rmvq (\<lambda>n. True) 21 1 st1 = Some st2
     \<and> map m_addr (msgs_at st2 21) = [1, 8] \<and> putq (\<lambda>n. True) 21 (ex_msg 9 0 1 5) st2 = None"
proof -
  have q: "queues ex_end 21 = ex_wq\<lparr>q_msgs := [ex_msg 1 0x86 0 2, ex_msg 2 0 1 30], q_count := 2\<rparr>" by (simp add: ex_end_def)
  have "q_ok (queues ex_end 21)"
    by (simp add: q ex_wq_def ex_queue_def ex_msg_def q_ok_def msgs_ok_def msg_ok_def in_order_def prio_def
      in_band_def bytes_def msize_def band_ok_def first_addr_def last_addr_def QPCTL_def)
  moreover have m: "msgs_at ex_end 21 = [ex_msg 1 0x86 0 2] @ [ex_msg 2 0 1 30]" by (simp add: q)
  ultimately have "\<exists>st1 st2. insq (\<lambda>n. True) 21 (length (msgs_at ex_end 21)) (ex_msg 8 0 1 5) ex_end = (True, st1)
     \<and> rmvq (\<lambda>n. True) 21 (length [ex_msg 1 0x86 0 2]) st1 = Some st2 \<and> msgs_at st2 21 = [ex_msg 1 0x86 0 2] @ [ex_msg 8 0 1 5]
     \<and> putq (\<lambda>n. True) 21 (ex_msg 9 0 1 5) st2 = None"
    using insq_stale_last [of ex_end 21 "[ex_msg 1 0x86 0 2]" "ex_msg 2 0 1 30" "ex_msg 8 0 1 5" "ex_msg 9 0 1 5" "\<lambda>n. True", OF _ m]
      ex_end_flag by (elim meta_impE) (simp_all add: ex_msg_def in_band_def QPCTL_num, blast)
  then show ?thesis unfolding m by (elim exE conjE) (intro exI conjI, simp_all add: ex_msg_def numeral_2_eq_2)
qed

end
