(* ===== verification/Strmsg.thy ===== *)
theory Strmsg
  imports Kernel_Prelude
begin

text \<open>
  STREAMS message blocks: \<^verbatim>\<open>uts/i386/io/stream.c\<close> from \<^verbatim>\<open>allocb\<close> to \<^verbatim>\<open>msgdsize\<close>, with \<^verbatim>\<open>xmsgsize\<close>, \<^verbatim>\<open>xmsgalloc\<close> and
  \<^verbatim>\<open>xmdballoc\<close> of \<^verbatim>\<open>os/strsubr.c\<close>.

  Message headers and data headers live at addresses. A triplet (\<^verbatim>\<open>struct mdbblock\<close>) has one address for its message
  header and its data header; a message header allocated by \<^verbatim>\<open>dupb\<close> stands alone. \<^verbatim>\<open>b_datap\<close> is the address of the
  triplet whose data header it points to. The buffer of a data header is the list of its bytes from \<^verbatim>\<open>db_base\<close> to \<^verbatim>\<open>db_lim\<close>,
  \<^verbatim>\<open>b_rptr\<close> and \<^verbatim>\<open>b_wptr\<close> are positions in it, \<open>db_align\<close> is the distance of \<^verbatim>\<open>db_base\<close> from a word boundary, \<open>db_sep\<close> says that
  the buffer is not the one inside the triplet and \<open>db_frtn\<close> is \<^verbatim>\<open>db_frtnp\<close>: the null pointer, or a free routine structure whose
  \<^verbatim>\<open>free_func\<close> is or is not set. The free lists are lists of addresses (the chains over \<^verbatim>\<open>b_next\<close>); new addresses are
  counted up. \<open>mem\<close> tells which requests for memory are served. Buffers given to \<^verbatim>\<open>kmem_free\<close> and calls of a free routine
  are recorded in \<open>released\<close>. \<^verbatim>\<open>b_next\<close> and \<^verbatim>\<open>b_prev\<close> outside the free lists belong to the queues, the \<^verbatim>\<open>strst\<close> counters are left out.
\<close>

section \<open>Data\<close>

datatype iswhat = MDBBLK | NOT_M | NOT_D | XCONN

record mblk =
  b_cont :: "nat option"
  b_rptr :: nat
  b_wptr :: nat
  b_datap :: nat
  b_band :: nat
  b_flag :: u32

record datab =
  db_bytes :: "u8 list"
  db_align :: nat
  db_sep :: bool
  db_frtn :: "bool option"
  db_ref :: nat   \<comment> \<open>\<^verbatim>\<open>unsigned char\<close>\<close>
  db_type :: nat
  db_iswhat :: iswhat
  db_size :: int
  db_msgaddr :: nat

record msgheap =
  mblks :: "nat \<Rightarrow> mblk"
  dblks :: "nat \<Rightarrow> datab"
  mdbfreelist :: "nat list"
  msgfreelist :: "nat list"
  brk :: nat   \<comment> \<open>the next new address\<close>
  reqs :: nat   \<comment> \<open>requests for memory so far\<close>
  released :: "(nat \<times> bool) list"   \<comment> \<open>whose buffer, and whether by its free routine\<close>
  Strcount :: int

definition M_DATA :: nat where "M_DATA = 0"

text \<open>\<^verbatim>\<open>128 - sizeof(struct mbinfo) - sizeof(struct dbinfo)\<close>\<close>

definition FASTBUF :: nat where "FASTBUF = 128 - 36 - 28"

abbreviation data_of :: "msgheap \<Rightarrow> nat \<Rightarrow> datab" where
  "data_of st h \<equiv> dblks st (b_datap (mblks st h))"

text \<open>\<^verbatim>\<open>b_wptr - b_rptr\<close>, which the code asserts is not negative.\<close>

definition bsize :: "msgheap \<Rightarrow> nat \<Rightarrow> nat" where
  "bsize st h = b_wptr (mblks st h) - b_rptr (mblks st h)"

definition set_mblk :: "nat \<Rightarrow> (mblk \<Rightarrow> mblk) \<Rightarrow> msgheap \<Rightarrow> msgheap" where
  "set_mblk h f st = st\<lparr>mblks := (mblks st)(h := f (mblks st h))\<rparr>"

definition set_dblk :: "nat \<Rightarrow> (datab \<Rightarrow> datab) \<Rightarrow> msgheap \<Rightarrow> msgheap" where
  "set_dblk t f st = st\<lparr>dblks := (dblks st)(t := f (dblks st t))\<rparr>"

definition FREEMDBBLOCK :: "nat \<Rightarrow> msgheap \<Rightarrow> msgheap" where
  "FREEMDBBLOCK t st = st\<lparr>mdbfreelist := t # mdbfreelist st\<rparr>"

definition FREEMSGBLOCK :: "nat \<Rightarrow> msgheap \<Rightarrow> msgheap" where
  "FREEMSGBLOCK h st = st\<lparr>msgfreelist := h # msgfreelist st\<rparr>"

section \<open>Allocation\<close>

text \<open>\<^verbatim>\<open>ALLOCMDBBLOCK\<close> or \<^verbatim>\<open>xmdballoc\<close>, \<^verbatim>\<open>ALLOCMSGBLOCK\<close> or \<^verbatim>\<open>xmsgalloc\<close>.\<close>

definition new_mdb :: "(nat \<Rightarrow> bool) \<Rightarrow> msgheap \<Rightarrow> nat option \<times> msgheap" where
  "new_mdb mem st =
     (case mdbfreelist st of
        t # ts \<Rightarrow> (Some t, st\<lparr>mdbfreelist := ts\<rparr>)
      | [] \<Rightarrow>
          if mem (reqs st) then
            (Some (brk st), st\<lparr>brk := brk st + 1, reqs := reqs st + 1, Strcount := Strcount st + 128\<rparr>)
          else (None, st\<lparr>reqs := reqs st + 1\<rparr>))"

definition new_msg :: "(nat \<Rightarrow> bool) \<Rightarrow> msgheap \<Rightarrow> nat option \<times> msgheap" where
  "new_msg mem st =
     (case msgfreelist st of
        h # hs \<Rightarrow> (Some h, st\<lparr>msgfreelist := hs\<rparr>)
      | [] \<Rightarrow>
          if mem (reqs st) then
            (Some (brk st), st\<lparr>brk := brk st + 1, reqs := reqs st + 1, Strcount := Strcount st + 36\<rparr>)
          else (None, st\<lparr>reqs := reqs st + 1\<rparr>))"

text \<open>The contents of a new buffer are not specified by the source; they are zero here.\<close>

definition new_data :: "nat \<Rightarrow> int \<Rightarrow> datab" where
  "new_data t sz =
     \<lparr>db_bytes = replicate (if sz > int FASTBUF then nat sz else FASTBUF) 0, db_align = 0, db_sep = (sz > int FASTBUF),
      db_frtn = None, db_ref = 1, db_type = M_DATA, db_iswhat = MDBBLK, db_size = (if sz = 0 then 4 else sz),
      db_msgaddr = t\<rparr>"

definition new_header :: "nat \<Rightarrow> mblk" where
  "new_header t = \<lparr>b_cont = None, b_rptr = 0, b_wptr = 0, b_datap = t, b_band = 0, b_flag = 0\<rparr>"

definition allocb :: "(nat \<Rightarrow> bool) \<Rightarrow> int \<Rightarrow> msgheap \<Rightarrow> nat option \<times> msgheap" where
  "allocb mem sz st =
     (case new_mdb mem st of
        (None, st1) \<Rightarrow> (None, st1)
      | (Some t, st1) \<Rightarrow>
          (let st2 = st1\<lparr>mblks := (mblks st1)(t := new_header t), dblks := (dblks st1)(t := new_data t sz)\<rparr> in
           if \<not> sz > int FASTBUF then (Some t, st2)
           else if mem (reqs st2) then (Some t, st2\<lparr>reqs := reqs st2 + 1, Strcount := Strcount st2 + sz\<rparr>)
           else (None, FREEMDBBLOCK t (st2\<lparr>reqs := reqs st2 + 1\<rparr>))))"

text \<open>
  \<^verbatim>\<open>esballoc\<close> with a buffer of the caller's, its distance from a word boundary, and the free routine; both may be null
  pointers.
\<close>

definition esballoc :: "(nat \<Rightarrow> bool) \<Rightarrow> (u8 list \<times> nat) option \<Rightarrow> bool option \<Rightarrow> msgheap \<Rightarrow> nat option \<times> msgheap" where
  "esballoc mem base fr_rtn st =
     (case (base, fr_rtn) of
        (Some (buf, align), Some func) \<Rightarrow>
          (case allocb mem (-1) st of
             (None, st1) \<Rightarrow> (None, st1)
           | (Some t, st1) \<Rightarrow>
               (Some t, set_dblk t (\<lambda>d. d\<lparr>db_frtn := Some func, db_bytes := buf, db_align := align, db_sep := True,
                                      db_size := int (length buf)\<rparr>) st1))
      | _ \<Rightarrow> (None, st))"

section \<open>Freeing\<close>

text \<open>\<^verbatim>\<open>freeb\<close>, and the macro \<^verbatim>\<open>_FREEB\<close>.\<close>

definition drop_header :: "nat \<Rightarrow> msgheap \<Rightarrow> msgheap" where
  "drop_header h st =
     (if db_msgaddr (data_of st h) \<noteq> h then FREEMSGBLOCK h st
      else if db_iswhat (dblks st h) = NOT_D then FREEMDBBLOCK h st
      else set_dblk h (\<lambda>d. d\<lparr>db_iswhat := NOT_M\<rparr>) st)"

definition drop_ref :: "nat \<Rightarrow> msgheap \<Rightarrow> msgheap" where
  "drop_ref t st = set_dblk t (\<lambda>d. d\<lparr>db_ref := (db_ref d + 255) mod 256\<rparr>) st"

text \<open>A buffer outside the triplet goes back to where it came from.\<close>

definition release_buf :: "nat \<Rightarrow> msgheap \<Rightarrow> msgheap" where
  "release_buf t st =
     (if db_sep (dblks st t) then
        (case db_frtn (dblks st t) of
           None \<Rightarrow> st\<lparr>released := released st @ [(t, False)], Strcount := Strcount st - int (length (db_bytes (dblks st t)))\<rparr>
         | Some func \<Rightarrow> if func then st\<lparr>released := released st @ [(t, True)]\<rparr> else st)
      else st)"

definition drop_data :: "nat \<Rightarrow> msgheap \<Rightarrow> msgheap" where
  "drop_data t st =
     (let st1 = release_buf t st
      in if db_iswhat (dblks st1 t) = NOT_M then FREEMDBBLOCK t st1
         else set_dblk t (\<lambda>d. d\<lparr>db_iswhat := NOT_D\<rparr>) st1)"

definition freeb :: "nat \<Rightarrow> msgheap \<Rightarrow> msgheap" where
  "freeb h st =
     (let t = b_datap (mblks st h); st1 = drop_ref t (drop_header h st)
      in if db_ref (dblks st1 t) > 0 then st1 else drop_data t st1)"

text \<open>The blocks of a message along \<^verbatim>\<open>b_cont\<close>.\<close>

partial_function (option) blocks :: "msgheap \<Rightarrow> nat option \<Rightarrow> nat list option" where
  "blocks st ho = (case ho of None \<Rightarrow> Some [] | Some h \<Rightarrow> Option.bind (blocks st (b_cont (mblks st h))) (\<lambda>bs. Some (h # bs)))"

partial_function (option) freemsg :: "nat option \<Rightarrow> msgheap \<Rightarrow> msgheap option" where
  "freemsg ho st = (case ho of None \<Rightarrow> Some st | Some h \<Rightarrow> freemsg (b_cont (mblks st h)) (freeb h st))"

section \<open>Duplicating and copying\<close>

definition dupb :: "(nat \<Rightarrow> bool) \<Rightarrow> nat \<Rightarrow> msgheap \<Rightarrow> nat option \<times> msgheap" where
  "dupb mem bp st =
     (case new_msg mem st of
        (None, st1) \<Rightarrow> (None, st1)
      | (Some n, st1) \<Rightarrow>
          (Some n,
           set_dblk (b_datap (mblks st bp)) (\<lambda>d. d\<lparr>db_ref := (db_ref d + 1) mod 256\<rparr>)
             (st1\<lparr>mblks := (mblks st1)(n := (mblks st1 bp)\<lparr>b_cont := None\<rparr>)\<rparr>)))"

text \<open>The loops of \<^verbatim>\<open>dupmsg\<close> and \<^verbatim>\<open>copymsg\<close> over the blocks behind the first.\<close>

fun dup_rest :: "(nat \<Rightarrow> msgheap \<Rightarrow> nat option \<times> msgheap) \<Rightarrow> nat \<Rightarrow> nat \<Rightarrow> nat list \<Rightarrow> msgheap \<Rightarrow> (nat option \<times> msgheap) option" where
  "dup_rest dup head nbp [] st = Some (Some head, st)"
| "dup_rest dup head nbp (b # bs) st =
     (case dup b st of
        (None, st1) \<Rightarrow> map_option (Pair None) (freemsg (Some head) (set_mblk nbp (\<lambda>m. m\<lparr>b_cont := None\<rparr>) st1))
      | (Some n, st1) \<Rightarrow> dup_rest dup head n bs (set_mblk nbp (\<lambda>m. m\<lparr>b_cont := Some n\<rparr>) st1))"

definition dup_all :: "(nat \<Rightarrow> msgheap \<Rightarrow> nat option \<times> msgheap) \<Rightarrow> nat option \<Rightarrow> msgheap \<Rightarrow> (nat option \<times> msgheap) option" where
  "dup_all dup bp st =
     (case blocks st bp of
        None \<Rightarrow> None
      | Some [] \<Rightarrow> Some (None, st)
      | Some (b # bs) \<Rightarrow>
          (case dup b st of
             (None, st1) \<Rightarrow> Some (None, st1)
           | (Some n, st1) \<Rightarrow> dup_rest dup n n bs st1))"

definition dupmsg :: "(nat \<Rightarrow> bool) \<Rightarrow> nat option \<Rightarrow> msgheap \<Rightarrow> (nat option \<times> msgheap) option" where
  "dupmsg mem = dup_all (dupb mem)"

text \<open>
  \<^verbatim>\<open>copyb\<close> copies whole words: from the word boundary below \<^verbatim>\<open>b_rptr\<close> in the old buffer to the word boundary below \<^verbatim>\<open>b_rptr\<close> in
  the new one. What it reads outside the old buffer is \<open>outside\<close>, by the distance from \<^verbatim>\<open>db_base\<close>; what it writes beyond
  the end of the new one lies in the word the allocator rounds up to.
\<close>

definition straln :: "nat \<Rightarrow> nat" where
  "straln a = a - a mod 4"

definition copy_bytes :: "(int \<Rightarrow> u8) \<Rightarrow> datab \<Rightarrow> nat \<Rightarrow> nat \<Rightarrow> u8 list \<Rightarrow> u8 list" where
  "copy_bytes outside d r w new =
     map (\<lambda>j. if straln r \<le> j \<and> j < straln (w + 3) then
                (let i = int j - int (straln r) + int (straln (db_align d + r)) - int (db_align d)
                 in if 0 \<le> i \<and> i < int (length (db_bytes d)) then db_bytes d ! nat i else outside i)
              else new ! j) [0..<length new]"

definition copyb :: "(nat \<Rightarrow> bool) \<Rightarrow> (int \<Rightarrow> u8) \<Rightarrow> nat \<Rightarrow> msgheap \<Rightarrow> nat option \<times> msgheap" where
  "copyb mem outside bp st =
     (let d = data_of st bp; m = mblks st bp in
      case allocb mem (int (length (db_bytes d))) st of
        (None, st1) \<Rightarrow> (None, st1)
      | (Some n, st1) \<Rightarrow>
          (Some n,
           set_dblk n (\<lambda>nd. nd\<lparr>db_type := db_type d, db_bytes := copy_bytes outside d (b_rptr m) (b_wptr m) (db_bytes nd)\<rparr>)
             (set_mblk n (\<lambda>nm. nm\<lparr>b_flag := b_flag m, b_band := b_band m, b_rptr := b_rptr m, b_wptr := b_wptr m\<rparr>) st1)))"

definition copymsg :: "(nat \<Rightarrow> bool) \<Rightarrow> (int \<Rightarrow> u8) \<Rightarrow> nat option \<Rightarrow> msgheap \<Rightarrow> (nat option \<times> msgheap) option" where
  "copymsg mem outside = dup_all (copyb mem outside)"

section \<open>Linking\<close>

definition linkb :: "nat \<Rightarrow> nat \<Rightarrow> msgheap \<Rightarrow> msgheap option" where
  "linkb mp bp st =
     (case blocks st (Some mp) of
        None \<Rightarrow> None
      | Some bs \<Rightarrow> Some (set_mblk (last bs) (\<lambda>m. m\<lparr>b_cont := Some bp\<rparr>) st))"

definition unlinkb :: "nat \<Rightarrow> msgheap \<Rightarrow> nat option \<times> msgheap" where
  "unlinkb bp st = (b_cont (mblks st bp), set_mblk bp (\<lambda>m. m\<lparr>b_cont := None\<rparr>) st)"

text \<open>\<^verbatim>\<open>rmvb\<close>; \<open>Inl\<close> stands for the return value -1.\<close>

fun rmvb_loop :: "nat \<Rightarrow> nat \<Rightarrow> nat option \<Rightarrow> nat list \<Rightarrow> msgheap \<Rightarrow> (unit + nat option) \<times> msgheap" where
  "rmvb_loop mp bp lastp [] st = (Inl (), st)"
| "rmvb_loop mp bp lastp (tmp # bs) st =
     (if tmp = bp then
        (case lastp of
           Some l \<Rightarrow>
             (Inr (Some mp), set_mblk tmp (\<lambda>m. m\<lparr>b_cont := None\<rparr>) (set_mblk l (\<lambda>m. m\<lparr>b_cont := b_cont (mblks st tmp)\<rparr>) st))
         | None \<Rightarrow> (Inr (b_cont (mblks st tmp)), set_mblk tmp (\<lambda>m. m\<lparr>b_cont := None\<rparr>) st))
      else rmvb_loop mp bp (Some tmp) bs st)"

definition rmvb :: "nat \<Rightarrow> nat \<Rightarrow> msgheap \<Rightarrow> ((unit + nat option) \<times> msgheap) option" where
  "rmvb mp bp st = map_option (\<lambda>bs. rmvb_loop mp bp None bs st) (blocks st (Some mp))"

section \<open>Sizes\<close>

definition msgdsize :: "nat option \<Rightarrow> msgheap \<Rightarrow> nat option" where
  "msgdsize bp st = map_option (\<lambda>bs. sum_list (map (\<lambda>b. if db_type (data_of st b) = M_DATA then bsize st b else 0) bs)) (blocks st bp)"

text \<open>\<^verbatim>\<open>xmsgsize\<close>: the bytes of the blocks of the type of the first, or of the last.\<close>

definition run_size :: "msgheap \<Rightarrow> nat list \<Rightarrow> nat" where
  "run_size st bs =
     (case bs of [] \<Rightarrow> 0 | b # _ \<Rightarrow> sum_list (map (bsize st) (takeWhile (\<lambda>x. db_type (data_of st x) = db_type (data_of st b)) bs)))"

definition xmsgsize :: "nat \<Rightarrow> bool \<Rightarrow> msgheap \<Rightarrow> nat option" where
  "xmsgsize mp fromhead st =
     map_option (\<lambda>bs. run_size st (if fromhead then bs else rev bs)) (blocks st (Some mp))"

section \<open>\<^verbatim>\<open>adjmsg\<close>\<close>

fun trim_head :: "nat \<Rightarrow> nat list \<Rightarrow> msgheap \<Rightarrow> msgheap option" where
  "trim_head 0 bs st = Some st"
| "trim_head (Suc len) [] st = None"
| "trim_head (Suc len) (b # bs) st =
     (let n = min (bsize st b) (Suc len) in trim_head (Suc len - n) bs (set_mblk b (\<lambda>m. m\<lparr>b_rptr := b_rptr m + n\<rparr>) st))"

text \<open>The loop from the tail looks for the block before \<^verbatim>\<open>endbp\<close> each time: it takes the blocks in reverse.\<close>

fun trim_tail :: "nat \<Rightarrow> nat list \<Rightarrow> msgheap \<Rightarrow> msgheap option" where
  "trim_tail 0 bs st = Some st"
| "trim_tail (Suc len) [] st = None"
| "trim_tail (Suc len) (b # bs) st =
     (let n = min (bsize st b) (Suc len) in trim_tail (Suc len - n) bs (set_mblk b (\<lambda>m. m\<lparr>b_wptr := b_wptr m - n\<rparr>) st))"

text \<open>
  \<open>- len\<close> is an \<^verbatim>\<open>int\<close> again, so the smallest \<^verbatim>\<open>int\<close> stays what it is and is below every size; \<^verbatim>\<open>min\<close> of the kernel compares
  unsigned numbers, so the loops take it for 2147483648 bytes.
\<close>

definition adjmsg :: "nat \<Rightarrow> int \<Rightarrow> msgheap \<Rightarrow> (bool \<times> msgheap) option" where
  "adjmsg mp len st =
     (let fromhead = (len \<ge> 0); m = (if fromhead then len else to_long (- len)); n = nat (m mod 4294967296) in
      case (xmsgsize mp fromhead st, blocks st (Some mp)) of
        (Some sz, Some bs) \<Rightarrow>
          if int sz < m then Some (False, st)
          else map_option (Pair True) (if fromhead then trim_head n bs st else trim_tail n (rev bs) st)
      | _ \<Rightarrow> None)"

section \<open>\<^verbatim>\<open>pullupmsg\<close>\<close>

text \<open>
  The copying loop over the blocks \<open>bs\<close> of the message \<open>mp\<close>: the bytes taken, and the block it stops at. The blocks used up
  are freed, the first excepted.
\<close>

fun pull_loop :: "nat \<Rightarrow> nat \<Rightarrow> nat list \<Rightarrow> msgheap \<Rightarrow> u8 list \<times> nat option \<times> msgheap" where
  "pull_loop mp len [] st = ([], None, st)"
| "pull_loop mp len (bp # bs) st =
     (if len = 0 then ([], Some bp, st)
      else
        (let n = min (bsize st bp) len;
             got = take n (drop (b_rptr (mblks st bp)) (db_bytes (data_of st bp)));
             st1 = set_mblk bp (\<lambda>m. m\<lparr>b_rptr := b_rptr m + n\<rparr>) st in
         if b_wptr (mblks st1 bp) \<noteq> b_rptr (mblks st1 bp) then (got, Some bp, st1)
         else
           (case pull_loop mp (len - n) bs (if bp \<noteq> mp then freeb bp st1 else st1) of
              (got2, rest, st2) \<Rightarrow> (got @ got2, rest, st2))))"

definition put_bytes :: "u8 list \<Rightarrow> u8 list \<Rightarrow> u8 list" where
  "put_bytes got buf = got @ drop (length got) buf"

text \<open>A shared data block: the data goes to the buffer of a new triplet, whose data header \<open>mp\<close> takes over.\<close>

definition pull_fix :: "nat \<Rightarrow> nat \<Rightarrow> bool \<Rightarrow> msgheap \<Rightarrow> msgheap" where
  "pull_fix mp n trip st =
     (let st1 = (if trip then
                   (let st' = set_dblk n (\<lambda>d. d\<lparr>db_msgaddr := mp\<rparr>) st in
                    if db_iswhat (dblks st' mp) \<noteq> NOT_D then set_dblk mp (\<lambda>d. d\<lparr>db_iswhat := XCONN\<rparr>) st' else st')
                 else st)
      in set_mblk mp (\<lambda>m. m\<lparr>b_datap := n\<rparr>) (set_dblk n (\<lambda>d. d\<lparr>db_iswhat := NOT_M\<rparr>) st1))"

definition pull_shared :: "(nat \<Rightarrow> bool) \<Rightarrow> nat \<Rightarrow> nat \<Rightarrow> nat list \<Rightarrow> msgheap \<Rightarrow> bool \<times> msgheap" where
  "pull_shared mem mp len bs st =
     (let t = b_datap (mblks st mp) in
      case allocb mem (int len) st of
        (None, st1) \<Rightarrow> (False, st1)
      | (Some n, st1) \<Rightarrow>
          (let st2 = drop_ref t (set_dblk n (\<lambda>d. d\<lparr>db_type := db_type (dblks st1 t)\<rparr>) st1);
               (got, rest, st3) = pull_loop mp len bs st2;
               st4 = set_mblk n (\<lambda>m. m\<lparr>b_wptr := length got, b_band := b_band (mblks st3 mp), b_flag := b_flag (mblks st3 mp)\<rparr>)
                       (set_dblk n (\<lambda>d. d\<lparr>db_bytes := put_bytes got (db_bytes d)\<rparr>) st3);
               st5 = pull_fix mp n (db_msgaddr (dblks st4 t) = mp) st4
           in (True, set_mblk mp (\<lambda>m. m\<lparr>b_rptr := 0, b_wptr := length got, b_cont := rest\<rparr>) st5)))"

text \<open>A data block of one's own: only the buffer is replaced. \<^verbatim>\<open>kmem_alloc\<close> gives nothing for a length of 0.\<close>

definition pull_own :: "(nat \<Rightarrow> bool) \<Rightarrow> nat \<Rightarrow> nat \<Rightarrow> nat list \<Rightarrow> msgheap \<Rightarrow> bool \<times> msgheap" where
  "pull_own mem mp len bs st =
     (if len = 0 \<or> \<not> mem (reqs st) then (False, st\<lparr>reqs := reqs st + 1\<rparr>)
      else
        (let t = b_datap (mblks st mp);
             st1 = set_dblk t (\<lambda>d. d\<lparr>db_size := int len\<rparr>) (st\<lparr>reqs := reqs st + 1, Strcount := Strcount st + int len\<rparr>);
             (got, rest, st2) = pull_loop mp len bs st1;
             st3 = release_buf t (set_mblk mp (\<lambda>m. m\<lparr>b_cont := rest\<rparr>) st2);
             st4 = set_dblk t (\<lambda>d. d\<lparr>db_bytes := put_bytes got (replicate len 0), db_align := 0,
                                db_frtn := (if db_sep d then None else db_frtn d), db_sep := True\<rparr>) st3
         in (True, set_mblk mp (\<lambda>m. m\<lparr>b_rptr := 0, b_wptr := length got\<rparr>) st4)))"

definition str_aligned :: "msgheap \<Rightarrow> nat \<Rightarrow> bool" where
  "str_aligned st mp \<longleftrightarrow> (db_align (data_of st mp) + b_rptr (mblks st mp)) mod 4 = 0"

text \<open>How many bytes \<^verbatim>\<open>pullupmsg\<close> has to move: none and done, too many, or this many.\<close>

datatype pull_len = PullDone | PullFail | PullLen nat

definition pull_plan :: "nat \<Rightarrow> int \<Rightarrow> msgheap \<Rightarrow> nat list \<Rightarrow> pull_len" where
  "pull_plan mp len st bs =
     (if len = -1 then
        (if b_cont (mblks st mp) = None then (if str_aligned st mp then PullDone else PullLen (bsize st mp))
         else PullLen (run_size st bs))
      else if int (bsize st mp) \<ge> len then (if str_aligned st mp then PullDone else PullLen (bsize st mp))
      else if int (run_size st bs) < len then PullFail
      else PullLen (nat len))"

definition pullupmsg :: "(nat \<Rightarrow> bool) \<Rightarrow> nat \<Rightarrow> int \<Rightarrow> msgheap \<Rightarrow> (bool \<times> msgheap) option" where
  "pullupmsg mem mp len st =
     (case blocks st (Some mp) of
        None \<Rightarrow> None
      | Some bs \<Rightarrow>
          (case pull_plan mp len st bs of
             PullDone \<Rightarrow> Some (True, st)
           | PullFail \<Rightarrow> Some (False, st)
           | PullLen n \<Rightarrow>
               Some (if db_ref (data_of st mp) > 1 then pull_shared mem mp n bs st else pull_own mem mp n bs st)))"

end
