(* ===== verification/Strmsg_Inv.thy ===== *)
theory Strmsg_Inv
  imports Strmsg
begin

text \<open>
  The message heap stays consistent: every operation of \<^verbatim>\<open>io/stream.c\<close> on message blocks keeps the reference counts equal to
  the number of message headers in use, the status of every triplet true, the free lists free of what is in use and
  complete, and \<^verbatim>\<open>Strcount\<close> equal to the memory in use.
\<close>

section \<open>The invariant\<close>

text \<open>
  \<open>T\<close> holds the addresses of the triplets, the other addresses below \<open>brk\<close> are message headers of their own; \<open>H\<close> holds the
  message headers in use.
\<close>

definition refs :: "nat set \<Rightarrow> msgheap \<Rightarrow> nat \<Rightarrow> nat set" where
  "refs H st t = {h \<in> H. b_datap (mblks st h) = t}"

definition buf_mem :: "datab \<Rightarrow> int" where
  "buf_mem d = (if db_sep d \<and> db_frtn d = None then int (length (db_bytes d)) else 0)"

text \<open>A buffer with a free routine is not the one of the triplet.\<close>

definition frtn_ok :: "datab \<Rightarrow> bool" where
  "frtn_ok d \<longleftrightarrow> db_frtn d = None \<or> db_sep d"

lemma frtn_ok_simps [simp]:
  "frtn_ok (d\<lparr>db_ref := r\<rparr>) = frtn_ok d" "frtn_ok (d\<lparr>db_iswhat := w\<rparr>) = frtn_ok d" "frtn_ok (d\<lparr>db_type := y\<rparr>) = frtn_ok d"
  "frtn_ok (d\<lparr>db_msgaddr := a\<rparr>) = frtn_ok d" "frtn_ok (d\<lparr>db_bytes := bs\<rparr>) = frtn_ok d" "frtn_ok (d\<lparr>db_size := k\<rparr>) = frtn_ok d"
  by (simp_all add: frtn_ok_def)

definition triplet_ok :: "nat set \<Rightarrow> msgheap \<Rightarrow> nat \<Rightarrow> bool" where
  "triplet_ok H st t \<longleftrightarrow>
     (t \<in> H \<or> refs H st t \<noteq> {} \<longrightarrow>
        db_ref (dblks st t) = card (refs H st t) \<and> db_ref (dblks st t) < 256 \<and>
        (db_iswhat (dblks st t) = NOT_M \<longleftrightarrow> t \<notin> H) \<and> (db_iswhat (dblks st t) = NOT_D \<longleftrightarrow> refs H st t = {}) \<and>
        frtn_ok (dblks st t))"

definition header_ok :: "nat set \<Rightarrow> msgheap \<Rightarrow> nat \<Rightarrow> bool" where
  "header_ok T st h \<longleftrightarrow>
     b_datap (mblks st h) \<in> T \<and> db_msgaddr (data_of st h) \<in> T \<and> (db_msgaddr (data_of st h) = h \<longleftrightarrow> h \<in> T)"

definition mem_in_use :: "nat set \<Rightarrow> nat set \<Rightarrow> msgheap \<Rightarrow> int" where
  "mem_in_use T H st =
     128 * int (card T) + 36 * int (brk st - card T) + (\<Sum>t \<in> T. if refs H st t \<noteq> {} then buf_mem (dblks st t) else 0)"

definition msgs_ok :: "nat set \<Rightarrow> nat set \<Rightarrow> msgheap \<Rightarrow> bool" where
  "msgs_ok T H st \<longleftrightarrow>
     T \<subseteq> {..<brk st} \<and> H \<subseteq> {..<brk st} \<and>
     distinct (mdbfreelist st) \<and> set (mdbfreelist st) = {t \<in> T. t \<notin> H \<and> refs H st t = {}} \<and>
     distinct (msgfreelist st) \<and> set (msgfreelist st) = {..<brk st} - T - H \<and>
     (\<forall>h \<in> H. header_ok T st h) \<and> (\<forall>t \<in> T. triplet_ok H st t) \<and> Strcount st = mem_in_use T H st"

lemma msgs_okD:
  assumes "msgs_ok T H st"
  shows "T \<subseteq> {..<brk st}" and "H \<subseteq> {..<brk st}" and "distinct (mdbfreelist st)"
    and "set (mdbfreelist st) = {t \<in> T. t \<notin> H \<and> refs H st t = {}}" and "distinct (msgfreelist st)"
    and "set (msgfreelist st) = {..<brk st} - T - H" and "h \<in> H \<Longrightarrow> header_ok T st h" and "t \<in> T \<Longrightarrow> triplet_ok H st t"
    and "Strcount st = mem_in_use T H st" and "finite T" and "finite H" and "card T \<le> brk st"
proof -
  show sub: "T \<subseteq> {..<brk st}" and "H \<subseteq> {..<brk st}" and "distinct (mdbfreelist st)"
    and "set (mdbfreelist st) = {t \<in> T. t \<notin> H \<and> refs H st t = {}}" and "distinct (msgfreelist st)"
    and "set (msgfreelist st) = {..<brk st} - T - H" and "h \<in> H \<Longrightarrow> header_ok T st h" and "t \<in> T \<Longrightarrow> triplet_ok H st t"
    and "Strcount st = mem_in_use T H st"
    using assms unfolding msgs_ok_def by blast+
  then show "finite T" and "finite H" by (auto intro: finite_subset)
  show "card T \<le> brk st" using card_mono [OF _ sub] by simp
qed

text \<open>The invariant reads only a part of the heap.\<close>

definition same_frame :: "nat set \<Rightarrow> nat set \<Rightarrow> msgheap \<Rightarrow> msgheap \<Rightarrow> bool" where
  "same_frame T H st st' \<longleftrightarrow>
     brk st' = brk st \<and> mdbfreelist st' = mdbfreelist st \<and> msgfreelist st' = msgfreelist st \<and> Strcount st' = Strcount st \<and>
     (\<forall>h \<in> H. b_datap (mblks st' h) = b_datap (mblks st h)) \<and>
     (\<forall>t \<in> T. t \<in> H \<or> refs H st t \<noteq> {} \<longrightarrow> db_ref (dblks st' t) = db_ref (dblks st t) \<and> db_iswhat (dblks st' t) = db_iswhat (dblks st t) \<and>
        db_msgaddr (dblks st' t) = db_msgaddr (dblks st t) \<and> buf_mem (dblks st' t) = buf_mem (dblks st t) \<and>
        (frtn_ok (dblks st t) \<longrightarrow> frtn_ok (dblks st' t)))"

lemma same_frame_refs: "same_frame T H st st' \<Longrightarrow> refs H st' = refs H st"
  by (auto simp: same_frame_def refs_def fun_eq_iff)

lemma msgs_ok_frame:
  assumes ok: "msgs_ok T H st" and f: "same_frame T H st st'"
  shows "msgs_ok T H st'"
proof -
  note r = same_frame_refs [OF f]
  have h: "header_ok T st' h" if "h \<in> H" for h
  proof -
    have "refs H st (b_datap (mblks st h)) \<noteq> {}" using that by (auto simp: refs_def)
    then show ?thesis using msgs_okD(7) [OF ok that] f that by (auto simp: header_ok_def same_frame_def)
  qed
  have t: "triplet_ok H st' t" if "t \<in> T" for t
    using msgs_okD(8) [OF ok that] f that by (auto simp: triplet_ok_def same_frame_def r)
  have m: "mem_in_use T H st' = mem_in_use T H st"
    using f by (auto simp: mem_in_use_def same_frame_def r intro!: sum.cong)
  show ?thesis using ok f h t unfolding msgs_ok_def m r by (auto simp: same_frame_def)
qed

lemma set_mblk_frame: "(\<And>m. b_datap (f m) = b_datap m) \<Longrightarrow> same_frame T H st (set_mblk h f st)"
  by (auto simp: same_frame_def set_mblk_def)

lemma set_dblk_frame:
  "(\<And>d. db_ref (f d) = db_ref d \<and> db_iswhat (f d) = db_iswhat d \<and> db_msgaddr (f d) = db_msgaddr d \<and> buf_mem (f d) = buf_mem d \<and> frtn_ok (f d) = frtn_ok d)
     \<Longrightarrow> same_frame T H st (set_dblk h f st)"
  by (auto simp: same_frame_def set_dblk_def)

lemma same_frame_trans: "\<lbrakk>same_frame T H st st'; same_frame T H st' st''\<rbrakk> \<Longrightarrow> same_frame T H st st''"
  using same_frame_refs [of T H st st'] by (simp add: same_frame_def)

section \<open>Freeing a block\<close>

text \<open>What \<^verbatim>\<open>freeb\<close> does to the heap, in terms of the header and its data.\<close>

lemma header_refs:
  assumes ok: "msgs_ok T H st" and h: "h \<in> H" and t: "t = b_datap (mblks st h)"
  shows "t \<in> T" and "h \<in> refs H st t" and "db_ref (dblks st t) = card (refs H st t)" and "db_ref (dblks st t) < 256"
    and "0 < db_ref (dblks st t)" and "db_iswhat (dblks st t) \<noteq> NOT_D" and "finite (refs H st t)"
    and "db_msgaddr (dblks st t) = h \<longleftrightarrow> h \<in> T" and "db_msgaddr (dblks st t) \<in> T"
    and "frtn_ok (dblks st t)"
proof -
  show tT: "t \<in> T" and "db_msgaddr (dblks st t) = h \<longleftrightarrow> h \<in> T" and "db_msgaddr (dblks st t) \<in> T"
    using msgs_okD(7) [OF ok h] t by (auto simp: header_ok_def)
  show hr: "h \<in> refs H st t" using h t by (simp add: refs_def)
  show fin: "finite (refs H st t)" using msgs_okD(11) [OF ok] by (simp add: refs_def)
  from msgs_okD(8) [OF ok tT] hr
  show "db_ref (dblks st t) = card (refs H st t)" and "db_ref (dblks st t) < 256" and "db_iswhat (dblks st t) \<noteq> NOT_D"
    and "frtn_ok (dblks st t)"
    by (auto simp: triplet_ok_def)
  then show "0 < db_ref (dblks st t)" using hr fin by (auto simp: card_gt_0_iff)
qed

lemma iswhat_live:
  assumes "msgs_ok T H st" and "h \<in> H" and "h \<in> T"
  shows "db_iswhat (dblks st h) \<noteq> NOT_M" and "db_iswhat (dblks st h) = NOT_D \<longleftrightarrow> refs H st h = {}"
  using msgs_okD(8) [OF assms(1,3)] assms(2) by (auto simp: triplet_ok_def)

definition last_ref :: "msgheap \<Rightarrow> nat \<Rightarrow> bool" where
  "last_ref st h \<longleftrightarrow> db_ref (data_of st h) = 1"

definition what_after :: "nat set \<Rightarrow> msgheap \<Rightarrow> nat \<Rightarrow> nat \<Rightarrow> iswhat" where
  "what_after T st h u =
     (let w = (if u = h \<and> h \<in> T \<and> db_iswhat (dblks st h) \<noteq> NOT_D then NOT_M else db_iswhat (dblks st u))
      in if u = b_datap (mblks st h) \<and> last_ref st h \<and> w \<noteq> NOT_M then NOT_D else w)"

lemma drop_mod: "\<lbrakk>0 < r; r < 256\<rbrakk> \<Longrightarrow> (r + 255) mod 256 = r - (1::nat)"
  by (cases r) auto

named_theorems heap_fields \<open>the fields of the heap after a step of \<^verbatim>\<open>freeb\<close>\<close>

lemma release_buf_fields [heap_fields]:
  "mblks (release_buf t st) = mblks st" "dblks (release_buf t st) = dblks st" "brk (release_buf t st) = brk st"
  "msgfreelist (release_buf t st) = msgfreelist st" "mdbfreelist (release_buf t st) = mdbfreelist st"
  "Strcount (release_buf t st) = Strcount st - buf_mem (dblks st t)"
  by (auto simp: release_buf_def buf_mem_def split: option.split)

lemma drop_data_fields [heap_fields]:
  "mblks (drop_data t st) = mblks st" "brk (drop_data t st) = brk st" "msgfreelist (drop_data t st) = msgfreelist st"
  "mdbfreelist (drop_data t st) = (if db_iswhat (dblks st t) = NOT_M then [t] else []) @ mdbfreelist st"
  "Strcount (drop_data t st) = Strcount st - buf_mem (dblks st t)"
  "dblks (drop_data t st) =
     (\<lambda>u. (dblks st u)\<lparr>db_iswhat := if u = t \<and> db_iswhat (dblks st t) \<noteq> NOT_M then NOT_D else db_iswhat (dblks st u)\<rparr>)"
  by (auto simp: drop_data_def FREEMDBBLOCK_def set_dblk_def Let_def heap_fields)

lemma drop_ref_fields [heap_fields]:
  "mblks (drop_ref t st) = mblks st" "brk (drop_ref t st) = brk st" "msgfreelist (drop_ref t st) = msgfreelist st"
  "mdbfreelist (drop_ref t st) = mdbfreelist st" "Strcount (drop_ref t st) = Strcount st"
  "dblks (drop_ref t st) = (dblks st)(t := (dblks st t)\<lparr>db_ref := (db_ref (dblks st t) + 255) mod 256\<rparr>)"
  by (auto simp: drop_ref_def set_dblk_def)

lemma drop_header_fields [heap_fields]:
  "mblks (drop_header h st) = mblks st" "brk (drop_header h st) = brk st" "Strcount (drop_header h st) = Strcount st"
  "msgfreelist (drop_header h st) = (if db_msgaddr (data_of st h) = h then [] else [h]) @ msgfreelist st"
  "mdbfreelist (drop_header h st) =
     (if db_msgaddr (data_of st h) = h \<and> db_iswhat (dblks st h) = NOT_D then [h] else []) @ mdbfreelist st"
  "dblks (drop_header h st) =
     (\<lambda>u. (dblks st u)\<lparr>db_iswhat := if u = h \<and> db_msgaddr (data_of st h) = h \<and> db_iswhat (dblks st h) \<noteq> NOT_D then NOT_M
                                   else db_iswhat (dblks st u)\<rparr>)"
  by (auto simp: drop_header_def FREEMDBBLOCK_def FREEMSGBLOCK_def set_dblk_def)

lemma freeb_fields:
  assumes ok: "msgs_ok T H st" and h: "h \<in> H" and t: "t = b_datap (mblks st h)"
  shows "mblks (freeb h st) = mblks st" and "brk (freeb h st) = brk st"
    and "msgfreelist (freeb h st) = (if h \<in> T then [] else [h]) @ msgfreelist st"
    and "mdbfreelist (freeb h st) =
           (if last_ref st h \<and> what_after T st h t = NOT_M then [t] else []) @
           (if h \<in> T \<and> db_iswhat (dblks st h) = NOT_D then [h] else []) @ mdbfreelist st"
    and "Strcount (freeb h st) = Strcount st - (if last_ref st h then buf_mem (dblks st t) else 0)"
    and "dblks (freeb h st) = (\<lambda>u. (dblks st u)\<lparr>db_ref := db_ref (dblks st u) - (if u = t then 1 else 0),
                                                db_iswhat := what_after T st h u\<rparr>)"
proof -
  note r = header_refs [OF ok h t]
  have ref: "db_ref (dblks (drop_ref t (drop_header h st)) t) = db_ref (dblks st t) - 1"
    using drop_mod [OF r(5,4)] by (simp add: heap_fields)
  have one: "db_ref (dblks st t) - 1 = 0 \<longleftrightarrow> last_ref st h" using r(5) t by (auto simp: last_ref_def)
  have fb: "freeb h st = (if last_ref st h then drop_data t (drop_ref t (drop_header h st)) else drop_ref t (drop_header h st))"
    using ref one by (auto simp: freeb_def Let_def t [symmetric])
  note f = heap_fields t [symmetric] r(8) drop_mod [OF r(5,4)]
  show "mblks (freeb h st) = mblks st" and "brk (freeb h st) = brk st"
    and "msgfreelist (freeb h st) = (if h \<in> T then [] else [h]) @ msgfreelist st"
    by (simp_all add: fb f)
  show "mdbfreelist (freeb h st) =
           (if last_ref st h \<and> what_after T st h t = NOT_M then [t] else []) @
           (if h \<in> T \<and> db_iswhat (dblks st h) = NOT_D then [h] else []) @ mdbfreelist st"
    by (simp add: fb f what_after_def Let_def)
  show "Strcount (freeb h st) = Strcount st - (if last_ref st h then buf_mem (dblks st t) else 0)"
    by (simp add: fb f buf_mem_def)
  show "dblks (freeb h st) = (\<lambda>u. (dblks st u)\<lparr>db_ref := db_ref (dblks st u) - (if u = t then 1 else 0),
                                                db_iswhat := what_after T st h u\<rparr>)"
  proof (rule ext)
    fix u
    show "dblks (freeb h st) u = (dblks st u)\<lparr>db_ref := db_ref (dblks st u) - (if u = t then 1 else 0),
                                                db_iswhat := what_after T st h u\<rparr>"
      by (cases "last_ref st h"; cases "u = t") (simp_all add: fb f what_after_def Let_def)
  qed
qed

lemma last_ref_iff:
  assumes ok: "msgs_ok T H st" and h: "h \<in> H" and t: "t = b_datap (mblks st h)"
  shows "last_ref st h \<longleftrightarrow> refs H st t = {h}"
proof -
  have "last_ref st h \<longleftrightarrow> card (refs H st t) = 1" using header_refs(3) [OF assms] by (simp add: last_ref_def t)
  also have "\<dots> \<longleftrightarrow> refs H st t = {h}" using header_refs(2) [OF assms] by (metis card_1_singletonE is_singletonI is_singleton_altdef singletonD)
  finally show ?thesis .
qed

lemma refs_freeb:
  assumes ok: "msgs_ok T H st" and h: "h \<in> H"
  shows "refs (H - {h}) (freeb h st) u = refs H st u - {h}"
  using freeb_fields(1) [OF ok h refl] by (auto simp: refs_def)

lemma what_after_target:
  assumes ok: "msgs_ok T H st" and h: "h \<in> H" and t: "t = b_datap (mblks st h)"
  shows "what_after T st h t = NOT_M \<longleftrightarrow> t \<notin> H - {h}" and "what_after T st h t = NOT_D \<longleftrightarrow> last_ref st h \<and> t \<in> H - {h}"
proof -
  note r = header_refs [OF ok h t]
  have "db_iswhat (dblks st t) = NOT_M \<longleftrightarrow> t \<notin> H"
    using msgs_okD(8) [OF ok r(1)] r(2) by (auto simp: triplet_ok_def)
  with r(1,6) show "what_after T st h t = NOT_M \<longleftrightarrow> t \<notin> H - {h}"
    and "what_after T st h t = NOT_D \<longleftrightarrow> last_ref st h \<and> t \<in> H - {h}"
    using t h by (auto simp: what_after_def Let_def)
qed

lemma what_after_other:
  assumes ok: "msgs_ok T H st" and h: "h \<in> H" and u: "u \<noteq> b_datap (mblks st h)"
  shows "what_after T st h u = (if u = h \<and> h \<in> T \<and> refs H st h \<noteq> {} then NOT_M else db_iswhat (dblks st u))"
  using iswhat_live(2) [OF ok h] u by (auto simp: what_after_def Let_def)

lemma freeb_triplet:
  assumes ok: "msgs_ok T H st" and h: "h \<in> H" and u: "u \<in> T"
  shows "triplet_ok (H - {h}) (freeb h st) u"
proof (cases "u = b_datap (mblks st h)")
  case True
  note r = header_refs [OF ok h True]
  have "card (refs H st u - {h}) = card (refs H st u) - 1" using r(2) by (simp add: card_Diff_singleton)
  moreover have "last_ref st h \<longleftrightarrow> refs H st u - {h} = {}" using last_ref_iff [OF ok h True] r(2) by auto
  ultimately show ?thesis
    unfolding triplet_ok_def refs_freeb [OF ok h] freeb_fields(6) [OF ok h True]
    using r(3,4,10) what_after_target [OF ok h True] by auto
next
  case False
  then have same: "refs H st u - {h} = refs H st u" by (auto simp: refs_def)
  note tr = msgs_okD(8) [OF ok u, unfolded triplet_ok_def]
  show ?thesis
    unfolding triplet_ok_def refs_freeb [OF ok h] freeb_fields(6) [OF ok h refl] same what_after_other [OF ok h False]
    by (insert tr h u False, cases "u = h", simp, auto)
qed

lemma freeb_mem:
  assumes ok: "msgs_ok T H st" and h: "h \<in> H"
  shows "Strcount (freeb h st) = mem_in_use T (H - {h}) (freeb h st)"
proof -
  define t where t: "t = b_datap (mblks st h)"
  note r = header_refs [OF ok h t]
  let ?g = "\<lambda>u. if refs H st u \<noteq> {} then buf_mem (dblks st u) else 0"
  let ?g' = "\<lambda>u. if refs H st u - {h} \<noteq> {} then buf_mem (dblks st u) else 0"
  have b: "buf_mem (dblks (freeb h st) u) = buf_mem (dblks st u)" for u
    by (simp add: freeb_fields(6) [OF ok h t] buf_mem_def)
  have other: "?g' u = ?g u" if "u \<noteq> t" for u
  proof -
    have "refs H st u - {h} = refs H st u" using that t by (auto simp: refs_def)
    then show ?thesis by simp
  qed
  have "sum ?g T = ?g t + sum ?g (T - {t})" using msgs_okD(10) [OF ok] r(1) by (simp add: sum.remove)
  moreover have "sum ?g' T = ?g' t + sum ?g' (T - {t})" using msgs_okD(10) [OF ok] r(1) by (simp add: sum.remove)
  moreover have "sum ?g' (T - {t}) = sum ?g (T - {t})" by (intro sum.cong refl other) auto
  moreover have "?g t = buf_mem (dblks st t)" using r(2) by auto
  moreover have "?g' t = (if last_ref st h then 0 else buf_mem (dblks st t))" using last_ref_iff [OF ok h t] r(2) by auto
  ultimately have "sum ?g' T = sum ?g T - (if last_ref st h then buf_mem (dblks st t) else 0)" by simp
  then show ?thesis
    using msgs_okD(9) [OF ok] unfolding freeb_fields(2,5) [OF ok h t] mem_in_use_def refs_freeb [OF ok h] b by linarith
qed

lemma freeb_ok:
  assumes ok: "msgs_ok T H st" and h: "h \<in> H"
  shows "msgs_ok T (H - {h}) (freeb h st)"
proof -
  define t where t: "t = b_datap (mblks st h)"
  note r = header_refs [OF ok h t] and f = freeb_fields [OF ok h t] and d = msgs_okD [OF ok]
  have rf: "refs H st u - {h} = refs H st u" if "u \<noteq> t" for u using that t by (auto simp: refs_def)
  have last: "last_ref st h \<longleftrightarrow> refs H st t - {h} = {}" using last_ref_iff [OF ok h t] r(2) by auto
  have free: "set (mdbfreelist (freeb h st)) = {u \<in> T. u \<notin> H - {h} \<and> refs H st u - {h} = {}}"
  proof -
    have n1: "set (if last_ref st h \<and> what_after T st h t = NOT_M then [t] else []) = {u \<in> T. u = t \<and> u \<notin> H - {h} \<and> refs H st u - {h} = {}}"
      using what_after_target(1) [OF ok h t] last r(1) by auto
    have n2: "set (if h \<in> T \<and> db_iswhat (dblks st h) = NOT_D then [h] else []) = {u \<in> T. u = h \<and> h \<noteq> t \<and> refs H st u = {}}"
      using iswhat_live(2) [OF ok h] r(2) by auto
    have "u \<in> {u \<in> T. u \<notin> H - {h} \<and> refs H st u - {h} = {}} \<longleftrightarrow>
      u \<in> {u \<in> T. u = t \<and> u \<notin> H - {h} \<and> refs H st u - {h} = {}} \<union> ({u \<in> T. u = h \<and> h \<noteq> t \<and> refs H st u = {}} \<union> set (mdbfreelist st))" for u
      using d(4) r(2) h rf [of u] by (cases "u = t") auto
    then show ?thesis unfolding f(4) set_append n1 n2 by blast
  qed
  have dist: "distinct (mdbfreelist (freeb h st))"
    using d(3,4) r(2,6) h unfolding f(4) by auto
  have hd: "header_ok T (freeb h st) k" if "k \<in> H - {h}" for k
    using d(7) [of k] that by (auto simp: header_ok_def f(1,6))
  have msg: "set (msgfreelist (freeb h st)) = {..<brk st} - T - (H - {h})" and "distinct (msgfreelist (freeb h st))"
    using d(2,5,6) h unfolding f(3) by auto
  then show ?thesis
    using free dist hd freeb_triplet [OF ok h] freeb_mem [OF ok h] d(1,2)
    unfolding msgs_ok_def refs_freeb [OF ok h] f(2) by blast
qed

section \<open>Allocation\<close>

lemma FREEMDBBLOCK_fields:
  "mblks (FREEMDBBLOCK t st) = mblks st" "dblks (FREEMDBBLOCK t st) = dblks st" "brk (FREEMDBBLOCK t st) = brk st"
  "refs H (FREEMDBBLOCK t st) = refs H st" "Strcount (FREEMDBBLOCK t st) = Strcount st"
  by (auto simp: FREEMDBBLOCK_def refs_def fun_eq_iff)

lemma free_again:
  assumes "msgs_ok T H (FREEMDBBLOCK t st)"
  shows "t \<in> T" and "t \<notin> H" and "refs H st t = {}" and "t \<notin> set (mdbfreelist st)"
proof -
  have "set (t # mdbfreelist st) = {u \<in> T. u \<notin> H \<and> refs H st u = {}}" and "distinct (t # mdbfreelist st)"
    using msgs_okD(3,4) [OF assms] by (simp_all add: FREEMDBBLOCK_def refs_def)
  then show "t \<in> T" and "t \<notin> H" and "refs H st t = {}" and "t \<notin> set (mdbfreelist st)" by auto
qed

lemma new_mdb_None:
  assumes "msgs_ok T H st" and "new_mdb mem st = (None, st1)"
  shows "msgs_ok T H st1"
  using assms
  by (auto simp: new_mdb_def same_frame_def split: list.splits if_splits intro!: msgs_ok_frame [OF assms(1)])

lemma new_mdb_Some:
  assumes ok: "msgs_ok T H st" and new: "new_mdb mem st = (Some t, st1)"
  shows "\<exists>T'. msgs_ok T' H (FREEMDBBLOCK t st1)"
proof (cases "mdbfreelist st")
  case Nil
  then have t: "t = brk st" and st1: "st1 = st\<lparr>brk := brk st + 1, reqs := reqs st + 1, Strcount := Strcount st + 128\<rparr>"
    using new by (auto simp: new_mdb_def split: if_splits)
  note d = msgs_okD [OF ok]
  let ?s = "FREEMDBBLOCK t st1"
  have fresh: "t \<notin> T" "t \<notin> H" using d(1,2) t by auto
  have r: "refs H ?s = refs H st" by (auto simp: refs_def st1 FREEMDBBLOCK_def fun_eq_iff)
  have ds: "dblks ?s = dblks st" by (simp add: st1 FREEMDBBLOCK_def)
  have none: "refs H st t = {}" using d(7) fresh by (auto simp: refs_def header_ok_def)
  have hd: "header_ok (insert t T) ?s h" if "h \<in> H" for h
    using d(7) [OF that] that fresh by (auto simp: header_ok_def st1 FREEMDBBLOCK_def)
  have tr: "triplet_ok H ?s u" if "u \<in> insert t T" for u
    using d(8) [of u] that none fresh r by (auto simp: triplet_ok_def) (simp_all add: st1 FREEMDBBLOCK_def)
  have mem: "Strcount ?s = mem_in_use (insert t T) H ?s"
    using d(9,10,12) fresh none unfolding mem_in_use_def r ds by (simp add: st1 FREEMDBBLOCK_def)
  have "msgs_ok (insert t T) H ?s"
    unfolding msgs_ok_def r using d(1-6) Nil fresh none hd tr mem by (auto simp: st1 FREEMDBBLOCK_def t)
  then show ?thesis ..
next
  case (Cons u us)
  then have "FREEMDBBLOCK t st1 = st" using new by (auto simp: new_mdb_def FREEMDBBLOCK_def)
  with ok show ?thesis by auto
qed

text \<open>The triplet \<open>t\<close>, once taken, is filled in.\<close>

definition fill :: "nat \<Rightarrow> int \<Rightarrow> msgheap \<Rightarrow> msgheap" where
  "fill t sz st = st\<lparr>mblks := (mblks st)(t := new_header t), dblks := (dblks st)(t := new_data t sz)\<rparr>"

lemma allocb_eq:
  "allocb mem sz st =
     (case new_mdb mem st of
        (None, st1) \<Rightarrow> (None, st1)
      | (Some t, st1) \<Rightarrow>
          if \<not> sz > int FASTBUF then (Some t, fill t sz st1)
          else if mem (reqs st1) then (Some t, (fill t sz st1)\<lparr>reqs := reqs st1 + 1, Strcount := Strcount st1 + sz\<rparr>)
          else (None, FREEMDBBLOCK t ((fill t sz st1)\<lparr>reqs := reqs st1 + 1\<rparr>)))"
  by (simp add: allocb_def fill_def Let_def split: prod.split option.split)

lemma fill_free:
  assumes "msgs_ok T H (FREEMDBBLOCK t st)"
  shows "msgs_ok T H (FREEMDBBLOCK t ((fill t sz st)\<lparr>reqs := n\<rparr>))"
proof (rule msgs_ok_frame [OF assms])
  have "refs H (FREEMDBBLOCK t st) t = {}" using free_again(3) [OF assms] by (simp add: refs_def FREEMDBBLOCK_def)
  then show "same_frame T H (FREEMDBBLOCK t st) (FREEMDBBLOCK t ((fill t sz st)\<lparr>reqs := n\<rparr>))"
    using free_again(2) [OF assms] by (auto simp: same_frame_def FREEMDBBLOCK_def fill_def)
qed

lemma refs_fill:
  assumes "msgs_ok T H (FREEMDBBLOCK t st)"
  shows "refs (insert t H) (fill t sz st) u = (if u = t then {t} else refs H st u)"
  using free_again(2,3) [OF assms] by (auto simp: refs_def fill_def new_header_def)

lemma fill_mem:
  assumes ok: "msgs_ok T H (FREEMDBBLOCK t st)"
  shows "mem_in_use T (insert t H) (fill t sz st) = Strcount st + buf_mem (new_data t sz)"
proof -
  note d = msgs_okD [OF ok] and f = free_again [OF ok]
  let ?g = "\<lambda>u. if refs H st u \<noteq> {} then buf_mem (dblks st u) else 0"
  let ?g' = "\<lambda>u. if (if u = t then {t} else refs H st u) \<noteq> {} then buf_mem (dblks (fill t sz st) u) else 0"
  have "sum ?g T = ?g t + sum ?g (T - {t})" using d(10) f(1) by (simp add: sum.remove)
  moreover have "sum ?g' T = ?g' t + sum ?g' (T - {t})" using d(10) f(1) by (simp add: sum.remove)
  moreover have "sum ?g' (T - {t}) = sum ?g (T - {t})" by (intro sum.cong refl) (auto simp: fill_def)
  moreover have "?g t = 0" using f(3) by simp
  moreover have "?g' t = buf_mem (new_data t sz)" by (simp add: fill_def)
  moreover have "Strcount st = 128 * int (card T) + 36 * int (brk st - card T) + sum ?g T"
    using d(9) unfolding mem_in_use_def FREEMDBBLOCK_fields .
  moreover have "brk (fill t sz st) = brk st" by (simp add: fill_def)
  ultimately show ?thesis unfolding mem_in_use_def refs_fill [OF ok] by simp
qed

lemma fill_ok:
  assumes ok: "msgs_ok T H (FREEMDBBLOCK t st)" and c: "Strcount st' = Strcount st + buf_mem (new_data t sz)"
    and st': "st' = (fill t sz st)\<lparr>reqs := reqs st', Strcount := Strcount st'\<rparr>"
  shows "msgs_ok T (insert t H) st'"
proof -
  note d = msgs_okD [OF ok] and f = free_again [OF ok]
  have fl: "mblks st' = (mblks st)(t := new_header t)" "dblks st' = (dblks st)(t := new_data t sz)" "brk st' = brk st"
    "mdbfreelist st' = mdbfreelist st" "msgfreelist st' = msgfreelist st"
    by (subst st'; simp add: fill_def)+
  have r: "refs (insert t H) st' = refs (insert t H) (fill t sz st)"
    by (rule ext) (simp add: refs_def fl fill_def)
  have hd: "header_ok T st' h" if "h \<in> insert t H" for h
  proof (cases "h = t")
    case False
    with that have "h \<in> H" by simp
    with f(3) have "b_datap (mblks st h) \<noteq> t" by (auto simp: refs_def)
    with d(7) [OF \<open>h \<in> H\<close>] False show ?thesis by (simp add: header_ok_def fl FREEMDBBLOCK_def)
  qed (use f(1) in \<open>simp add: header_ok_def fl new_header_def new_data_def\<close>)
  have tr: "triplet_ok (insert t H) st' u" if "u \<in> T" for u
    using d(8) [OF that] f(2) unfolding triplet_ok_def r refs_fill [OF ok]
    by (cases "u = t") (auto simp: fl new_data_def FREEMDBBLOCK_def refs_def frtn_ok_def)
  have fr: "set (mdbfreelist st) = {u \<in> T. u \<notin> insert t H \<and> (if u = t then {t} else refs H st u) = {}}"
    using d(3,4) f by (auto simp: FREEMDBBLOCK_def refs_def)
  have eq: "dblks st' = dblks (fill t sz st)" "brk st' = brk (fill t sz st)" by (simp_all add: fl fill_def)
  have m: "Strcount st' = mem_in_use T (insert t H) st'"
    using fill_mem [OF ok, of sz] c unfolding mem_in_use_def r eq by linarith
  show ?thesis
    unfolding msgs_ok_def r refs_fill [OF ok] using d(1-6) f(1,2,4) fr hd tr m
    by (auto simp: fl FREEMDBBLOCK_def)
qed

lemma allocb_ok:
  assumes ok: "msgs_ok T H st"
  shows "allocb mem sz st = (Some t, st') \<Longrightarrow> t \<notin> H \<and> (\<exists>T'. t \<in> T' \<and> msgs_ok T' (insert t H) st')"
    and "allocb mem sz st = (None, st') \<Longrightarrow> \<exists>T'. msgs_ok T' H st'"
proof -
  show "t \<notin> H \<and> (\<exists>T'. t \<in> T' \<and> msgs_ok T' (insert t H) st')" if a: "allocb mem sz st = (Some t, st')"
  proof -
    obtain st1 where n: "new_mdb mem st = (Some t, st1)"
      using a by (auto simp: allocb_eq split: prod.splits option.splits if_splits)
    then obtain T' where T': "msgs_ok T' H (FREEMDBBLOCK t st1)" using new_mdb_Some [OF ok] by blast
    have "buf_mem (new_data t sz) = (if sz > int FASTBUF then sz else 0)" by (auto simp: buf_mem_def new_data_def)
    then have "msgs_ok T' (insert t H) st'"
      using a n by (auto simp: allocb_eq fill_def split: if_splits intro!: fill_ok [OF T', of _ sz])
    with free_again [OF T'] show ?thesis by blast
  qed
  show "\<exists>T'. msgs_ok T' H st'" if a: "allocb mem sz st = (None, st')"
  proof (cases "new_mdb mem st")
    case (Pair o1 st1)
    show ?thesis
    proof (cases o1)
      case None
      with a Pair new_mdb_None [OF ok] show ?thesis by (auto simp: allocb_eq)
    next
      case (Some t)
      with a Pair have "st' = FREEMDBBLOCK t ((fill t sz st1)\<lparr>reqs := reqs st1 + 1\<rparr>)"
        by (auto simp: allocb_eq split: if_splits)
      with new_mdb_Some [OF ok, of mem t st1] Pair Some show ?thesis by (auto dest: fill_free)
    qed
  qed
qed

lemma allocb_Some:
  assumes "allocb mem sz st = (Some t, st')"
  shows "mblks st' = (mblks st)(t := new_header t)" and "dblks st' = (dblks st)(t := new_data t sz)"
    and "msgfreelist st' = msgfreelist st"
  using assms by (auto simp: allocb_eq new_mdb_def fill_def split: prod.splits option.splits if_splits list.splits)

lemma esballoc_ok:
  assumes ok: "msgs_ok T H st"
  shows "esballoc mem base fr st = (Some t, st') \<Longrightarrow> t \<notin> H \<and> (\<exists>T'. msgs_ok T' (insert t H) st')"
    and "esballoc mem base fr st = (None, st') \<Longrightarrow> \<exists>T'. msgs_ok T' H st'"
proof -
  show "t \<notin> H \<and> (\<exists>T'. msgs_ok T' (insert t H) st')" if e: "esballoc mem base fr st = (Some t, st')"
  proof -
    obtain buf al func st1 where a: "allocb mem (- 1) st = (Some t, st1)"
      and st': "st' = set_dblk t (\<lambda>d. d\<lparr>db_frtn := Some func, db_bytes := buf, db_align := al, db_sep := True,
                                      db_size := int (length buf)\<rparr>) st1"
      using e by (auto simp: esballoc_def split: option.splits prod.splits)
    obtain T' where t: "t \<notin> H" and T': "msgs_ok T' (insert t H) st1" using allocb_ok(1) [OF ok a] by blast
    have "same_frame T' (insert t H) st1 st'"
      by (auto simp: same_frame_def st' set_dblk_def allocb_Some(2) [OF a] buf_mem_def new_data_def frtn_ok_def)
    with T' t show ?thesis by (blast intro: msgs_ok_frame)
  qed
  show "\<exists>T'. msgs_ok T' H st'" if "esballoc mem base fr st = (None, st')"
    using that allocb_ok(2) [OF ok] ok by (auto simp: esballoc_def split: option.splits prod.splits)
qed

section \<open>Duplicating a block\<close>

lemma new_msg_None:
  assumes "msgs_ok T H st" and "new_msg mem st = (None, st1)"
  shows "msgs_ok T H st1"
  using assms
  by (auto simp: new_msg_def same_frame_def split: list.splits if_splits intro!: msgs_ok_frame [OF assms(1)])

text \<open>A message header taken but not filled in yet can be given back.\<close>

lemma new_msg_Some:
  assumes ok: "msgs_ok T H st" and new: "new_msg mem st = (Some n, st1)"
  shows "msgs_ok T H (FREEMSGBLOCK n st1)" and "mblks st1 = mblks st" and "dblks st1 = dblks st"
proof -
  show "msgs_ok T H (FREEMSGBLOCK n st1)"
  proof (cases "msgfreelist st")
    case Nil
    note d = msgs_okD [OF ok]
    let ?s = "FREEMSGBLOCK n st1"
    have n: "n = brk st" and st1: "st1 = st\<lparr>brk := brk st + 1, reqs := reqs st + 1, Strcount := Strcount st + 36\<rparr>"
      using new Nil by (auto simp: new_msg_def split: if_splits)
    have f: "mblks ?s = mblks st" "dblks ?s = dblks st" "refs H ?s = refs H st" "brk ?s = brk st + 1"
      "Strcount ?s = Strcount st + 36" "mdbfreelist ?s = mdbfreelist st" "msgfreelist ?s = n # msgfreelist st"
      by (auto simp: FREEMSGBLOCK_def st1 refs_def fun_eq_iff)
    have "Strcount ?s = mem_in_use T H ?s"
      using d(9,12) unfolding mem_in_use_def f by (simp add: Suc_diff_le)
    moreover have "header_ok T ?s h" if "h \<in> H" for h using d(7) [OF that] by (simp add: header_ok_def f)
    moreover have "triplet_ok H ?s t" if "t \<in> T" for t using d(8) [OF that] unfolding triplet_ok_def f .
    moreover have "n \<notin> T \<union> H \<and> n \<notin> set (msgfreelist st)" using d(1,2,6) n by auto
    ultimately show ?thesis
      unfolding msgs_ok_def f using d(1-6) n by auto
  next
    case (Cons u us)
    then have "FREEMSGBLOCK n st1 = st" using new by (auto simp: new_msg_def FREEMSGBLOCK_def)
    with ok show ?thesis by simp
  qed
qed (use new in \<open>auto simp: new_msg_def split: list.splits if_splits\<close>)

lemma dup_ok:
  assumes ok: "msgs_ok T H (FREEMSGBLOCK n st)" and b: "b \<in> H" and t: "t = b_datap (mblks st b)"
    and m: "b_datap m = t" and r: "db_ref (dblks st t) < 255"
    and st': "st' = set_dblk t (\<lambda>d. d\<lparr>db_ref := (db_ref d + 1) mod 256\<rparr>) (st\<lparr>mblks := (mblks st)(n := m)\<rparr>)"
  shows "n \<notin> H \<and> msgs_ok T (insert n H) st'"
proof -
  note d = msgs_okD [OF ok]
  have g: "mblks (FREEMSGBLOCK n st) = mblks st" "dblks (FREEMSGBLOCK n st) = dblks st"
    "refs H (FREEMSGBLOCK n st) = refs H st" "brk (FREEMSGBLOCK n st) = brk st"
    "mdbfreelist (FREEMSGBLOCK n st) = mdbfreelist st" "msgfreelist (FREEMSGBLOCK n st) = n # msgfreelist st"
    "Strcount (FREEMSGBLOCK n st) = Strcount st"
    by (auto simp: FREEMSGBLOCK_def refs_def fun_eq_iff)
  note d = d [unfolded g]
  note h = header_refs [OF ok b, unfolded g, OF t]
  have n: "n \<notin> H" "n \<notin> T" "n < brk st" using d(6) by auto
  have f: "mblks st' = (mblks st)(n := m)" "brk st' = brk st" "mdbfreelist st' = mdbfreelist st"
    "msgfreelist st' = msgfreelist st" "Strcount st' = Strcount st"
    by (simp_all add: st' set_dblk_def)
  have f': "dblks st' = (dblks st)(t := (dblks st t)\<lparr>db_ref := db_ref (dblks st t) + 1\<rparr>)"
    using r by (simp add: st' set_dblk_def)
  have rf: "refs (insert n H) st' u = (if u = t then insert n (refs H st t) else refs H st u)" for u
    using n(1) m by (auto simp: refs_def f)
  have ne: "refs (insert n H) st' u \<noteq> {} \<longleftrightarrow> refs H st u \<noteq> {}" for u using h(2) by (auto simp: rf)
  have bm: "buf_mem (dblks st' u) = buf_mem (dblks st u)" for u by (cases "u = t") (auto simp: f' buf_mem_def)
  have mem: "Strcount st' = mem_in_use T (insert n H) st'"
    using d(9) unfolding mem_in_use_def g f ne bm .
  have "n \<notin> refs H st t" using n(1) by (simp add: refs_def)
  then have card: "card (insert n (refs H st t)) = card (refs H st t) + 1" using h(7) by simp
  have tr: "triplet_ok (insert n H) st' u" if "u \<in> T" for u
  proof -
    note x = d(8) [OF that, unfolded triplet_ok_def g]
    show ?thesis
      unfolding triplet_ok_def rf f'
      by (insert x n that h(2,3) r card, cases "u = t", auto)
  qed
  have hd: "header_ok T st' k" if "k \<in> insert n H" for k
  proof (cases "k = n")
    case True
    with h(9) m n(2) h(1) show ?thesis by (auto simp: header_ok_def f f')
  next
    case False
    with that d(7) [of k] show ?thesis by (auto simp: header_ok_def f f' g)
  qed
  show ?thesis
    unfolding msgs_ok_def f using d(1-6) n ne hd tr mem [unfolded f(5)] by auto
qed

lemma dupb_ok:
  assumes ok: "msgs_ok T H st" and b: "b \<in> H"
  shows "\<lbrakk>db_ref (data_of st b) < 255; dupb mem b st = (Some n, st')\<rbrakk> \<Longrightarrow> n \<notin> H \<and> msgs_ok T (insert n H) st'"
    and "dupb mem b st = (None, st') \<Longrightarrow> msgs_ok T H st'"
proof -
  show "n \<notin> H \<and> msgs_ok T (insert n H) st'" if r: "db_ref (data_of st b) < 255" and d: "dupb mem b st = (Some n, st')"
  proof -
    obtain st1 where n: "new_msg mem st = (Some n, st1)"
      and st': "st' = set_dblk (b_datap (mblks st b)) (\<lambda>d. d\<lparr>db_ref := (db_ref d + 1) mod 256\<rparr>)
                        (st1\<lparr>mblks := (mblks st1)(n := (mblks st1 b)\<lparr>b_cont := None\<rparr>)\<rparr>)"
      using d by (auto simp: dupb_def split: prod.splits option.splits)
    note s = new_msg_Some [OF ok n]
    show ?thesis by (rule dup_ok [OF s(1) b refl _ _ st' [folded s(2)]]) (use r in \<open>simp_all add: s\<close>)
  qed
  show "msgs_ok T H st'" if "dupb mem b st = (None, st')"
    using that new_msg_None [OF ok] by (auto simp: dupb_def split: prod.splits option.splits)
qed

section \<open>Freeing a whole message\<close>

lemma freeb_mblks [simp]: "mblks (freeb h st) = mblks st"
  by (simp add: freeb_def Let_def heap_fields)

lemma freeb_bytes [simp]: "db_bytes (dblks (freeb h st) u) = db_bytes (dblks st u)"
  by (simp add: freeb_def Let_def heap_fields)

lemma blocks_None [simp]: "blocks st None = Some []"
  by (simp add: blocks.simps [of st None])

lemma blocks_Cons: "blocks st (Some h) = Some bs \<longleftrightarrow> (\<exists>cs. bs = h # cs \<and> blocks st (b_cont (mblks st h)) = Some cs)"
  by (auto simp: blocks.simps [of st "Some h"] bind_eq_Some_conv)

text \<open>The blocks of a message are what following \<^verbatim>\<open>b_cont\<close> visits.\<close>

fun chain :: "(nat \<Rightarrow> mblk) \<Rightarrow> nat option \<Rightarrow> nat list \<Rightarrow> bool" where
  "chain m p [] \<longleftrightarrow> p = None"
| "chain m p (h # hs) \<longleftrightarrow> p = Some h \<and> chain m (b_cont (m h)) hs"

lemma blocks_chain: "blocks st p = Some bs \<longleftrightarrow> chain (mblks st) p bs"
proof (induction bs arbitrary: p)
  case Nil
  show ?case by (cases p) (auto simp: blocks_Cons)
next
  case (Cons b bs)
  show ?case by (cases p) (auto simp: blocks_Cons Cons.IH)
qed

lemma chain_unique: "\<lbrakk>chain m p bs; chain m p cs\<rbrakk> \<Longrightarrow> bs = cs"
proof (induction bs arbitrary: p cs)
  case Nil
  then show ?case by (cases cs) auto
next
  case (Cons b bs)
  then show ?case by (cases cs) auto
qed

lemma chain_distinct: "chain m p bs \<Longrightarrow> distinct bs"
proof (induction bs arbitrary: p)
  case (Cons b bs)
  have "b \<notin> set bs"
  proof
    assume "b \<in> set bs"
    then obtain us vs where "bs = us @ b # vs" by (meson split_list)
    moreover have "chain m q (us @ b # vs) \<Longrightarrow> chain m (b_cont (m b)) vs" for q us by (induction us arbitrary: q) auto
    ultimately have "chain m (b_cont (m b)) vs" and "chain m (b_cont (m b)) bs" using Cons.prems by auto
    then have "vs = bs" by (rule chain_unique)
    with \<open>bs = us @ b # vs\<close> show False by simp
  qed
  with Cons show ?case by auto
qed simp

lemma freemsg_fold: "blocks st p = Some bs \<Longrightarrow> freemsg p st = Some (fold freeb bs st)"
proof (induction bs arbitrary: p st)
  case Nil
  then show ?case by (cases p) (auto simp: blocks_chain freemsg.simps [of None])
next
  case (Cons b bs)
  then have "p = Some b" and "chain (mblks st) (b_cont (mblks st b)) bs" by (auto simp: blocks_chain)
  then show ?case using Cons.IH [of "freeb b st"] by (simp add: blocks_chain freemsg.simps [of "Some b"])
qed

lemma fold_freeb_ok: "\<lbrakk>msgs_ok T H st; set bs \<subseteq> H; distinct bs\<rbrakk> \<Longrightarrow> msgs_ok T (H - set bs) (fold freeb bs st)"
proof (induction bs arbitrary: H st)
  case (Cons b bs)
  then have "msgs_ok T (H - {b} - set bs) (fold freeb bs (freeb b st))"
    by (intro Cons.IH freeb_ok) auto
  then show ?case by (simp add: Diff_insert2 [of H b "set bs"])
qed simp

lemma freemsg_ok:
  assumes "msgs_ok T H st" and "blocks st p = Some bs" and "set bs \<subseteq> H"
  shows "\<exists>st'. freemsg p st = Some st' \<and> msgs_ok T (H - set bs) st'"
  using freemsg_fold [OF assms(2)] fold_freeb_ok [OF assms(1,3)] assms(2) chain_distinct blocks_chain by metis

end
