(* ===== verification/Strmsg_Pull.thy ===== *)
theory Strmsg_Pull
  imports Strmsg_Inv
begin

text \<open>
  \<^verbatim>\<open>pullupmsg\<close> keeps the message heap consistent. Its two branches copy and free blocks while the heap is not consistent: the
  reference counts, the headers or \<^verbatim>\<open>Strcount\<close> are adjusted only at the end. A \<^emph>\<open>view\<close> of the heap makes the pending adjustments;
  the loop keeps the view consistent because every step of it commutes with making them.
\<close>

section \<open>The copying loop under a view\<close>

abbreviation advance :: "nat \<Rightarrow> nat \<Rightarrow> msgheap \<Rightarrow> msgheap" where
  "advance b k \<equiv> set_mblk b (\<lambda>m. m\<lparr>b_rptr := b_rptr m + k\<rparr>)"

definition block_bytes :: "msgheap \<Rightarrow> nat \<Rightarrow> nat \<Rightarrow> u8 list" where
  "block_bytes st b k = take k (drop (b_rptr (mblks st b)) (db_bytes (data_of st b)))"

lemma pull_loop_Cons:
  "pull_loop mp len (b # bs) st =
     (let k = min (bsize st b) len in
      if len = 0 then ([], Some b, st)
      else if b_wptr (mblks st b) \<noteq> b_rptr (mblks st b) + k then (block_bytes st b k, Some b, advance b k st)
      else (let r = pull_loop mp (len - k) bs (if b \<noteq> mp then freeb b (advance b k st) else advance b k st)
            in (block_bytes st b k @ fst r, snd r)))"
  by (simp add: Let_def block_bytes_def set_mblk_def split: prod.split)

declare pull_loop.simps(2) [simp del]

lemma pull_loop_length: "length (fst (pull_loop mp len bs st)) \<le> len"
proof (induction bs arbitrary: len st)
  case (Cons b bs)
  define k where "k = min (bsize st b) len"
  have "length (block_bytes st b k) \<le> k" by (simp only: block_bytes_def length_take min.cobounded2)
  moreover have "k \<le> len" by (simp add: k_def)
  ultimately have "length (block_bytes st b k) \<le> len"
    and "length (block_bytes st b k) + length (fst (pull_loop mp (len - k) bs s)) \<le> len" for s
    using Cons.IH [of "len - k" s] by linarith+
  then show ?case unfolding pull_loop_Cons k_def [symmetric] Let_def by simp
qed simp

definition first_of :: "nat list \<Rightarrow> nat option" where
  "first_of bs = (case bs of [] \<Rightarrow> None | b # _ \<Rightarrow> Some b)"

locale loop_view =
  fixes g :: "msgheap \<Rightarrow> msgheap" and Q :: "msgheap \<Rightarrow> bool" and B :: "nat set"
  assumes view_freeb: "\<lbrakk>Q st; b \<in> B\<rbrakk> \<Longrightarrow> g (freeb b st) = freeb b (g st)"
    and Q_freeb: "\<lbrakk>Q st; b \<in> B\<rbrakk> \<Longrightarrow> Q (freeb b st)"
    and view_advance: "\<lbrakk>Q st; b \<in> B\<rbrakk> \<Longrightarrow> g (advance b k st) = advance b k (g st)"
    and Q_advance: "\<lbrakk>Q st; b \<in> B\<rbrakk> \<Longrightarrow> Q (advance b k st)"
begin

lemma loop_ok:
  assumes "msgs_ok T H (g st)" and "Q st" and "set bs \<subseteq> B \<inter> H" and "distinct bs" and "mp \<notin> set bs"
    and "pull_loop mp len bs st = (got, rest, st')"
  shows "\<exists>us vs. bs = us @ vs \<and> rest = first_of vs \<and> Q st' \<and> msgs_ok T (H - set us) (g st')"
  using assms
proof (induction bs arbitrary: len st got H)
  case Nil
  then show ?case by (auto simp: first_of_def)
next
  case (Cons b bs)
  define k where "k = min (bsize st b) len"
  let ?s = "advance b k st"
  have b: "b \<in> B" "b \<in> H" "b \<noteq> mp" and q: "Q ?s" using Cons.prems Q_advance by auto
  have ok: "msgs_ok T H (g ?s)"
    unfolding view_advance [OF Cons.prems(2) b(1)] by (rule msgs_ok_frame [OF Cons.prems(1) set_mblk_frame]) simp
  note step = Cons.prems(6) [unfolded pull_loop_Cons Let_def, folded k_def]
  show ?case
  proof (cases "len = 0 \<or> b_wptr (mblks st b) \<noteq> b_rptr (mblks st b) + k")
    case True
    then have "rest = Some b" and "st' = st \<or> st' = ?s" using step by (auto split: if_splits)
    with ok q Cons.prems(1,2) show ?thesis by (intro exI [of _ "[]"] exI [of _ "b # bs"]) (auto simp: first_of_def)
  next
    case False
    obtain got2 where r: "pull_loop mp (len - k) bs (freeb b ?s) = (got2, rest, st')"
      using step False b(3) by (cases "pull_loop mp (len - k) bs (freeb b ?s)") auto
    have "msgs_ok T (H - {b}) (g (freeb b ?s))" unfolding view_freeb [OF q b(1)] by (rule freeb_ok [OF ok b(2)])
    moreover have "set bs \<subseteq> B \<inter> (H - {b})" "distinct bs" "mp \<notin> set bs" using Cons.prems(3-5) by auto
    ultimately obtain us vs where *: "bs = us @ vs" "rest = first_of vs" "Q st'" "msgs_ok T (H - {b} - set us) (g st')"
      using Cons.IH [OF _ Q_freeb [OF q b(1)] _ _ _ r] by blast
    then show ?thesis
      by (intro exI [of _ "b # us"] exI [of _ vs]) (simp add: Diff_insert2 [of H b "set us"])
  qed
qed

text \<open>The head block is not freed, and stays where it is when there is nothing to copy.\<close>

lemma head_ok:
  assumes ok: "\<And>k. msgs_ok T H (g (advance mp k st)) \<and> Q (advance mp k st)" and st: "msgs_ok T H (g st)" "Q st"
    and bs: "set bs \<subseteq> B \<inter> H" "distinct bs" "mp \<notin> set bs" and loop: "pull_loop mp len (mp # bs) st = (got, rest, st')"
  shows "\<exists>us vs. bs = us @ vs \<and> (rest = first_of vs \<or> us = [] \<and> rest = Some mp) \<and> Q st' \<and> msgs_ok T (H - set us) (g st')"
proof -
  define k where "k = min (bsize st mp) len"
  note step = loop [unfolded pull_loop_Cons Let_def, folded k_def]
  show ?thesis
  proof (cases "len = 0 \<or> b_wptr (mblks st mp) \<noteq> b_rptr (mblks st mp) + k")
    case True
    then have "rest = Some mp" and "st' = st \<or> st' = advance mp k st" using step by (auto split: if_splits)
    with ok [of k] st show ?thesis by (intro exI [of _ "[]"] exI [of _ bs]) auto
  next
    case False
    obtain got2 where r: "pull_loop mp (len - k) bs (advance mp k st) = (got2, rest, st')"
      using step False by (cases "pull_loop mp (len - k) bs (advance mp k st)") auto
    show ?thesis using loop_ok [OF _ _ bs r] ok [of k] by blast
  qed
qed

end

section \<open>The views\<close>

text \<open>\<open>pull_fix\<close> as one change of every data header, by itself.\<close>

definition fix_data :: "nat \<Rightarrow> nat \<Rightarrow> bool \<Rightarrow> nat \<Rightarrow> datab \<Rightarrow> datab" where
  "fix_data mp n trip u d =
     (if u = n then d\<lparr>db_msgaddr := (if trip then mp else db_msgaddr d), db_iswhat := NOT_M\<rparr>
      else if u = mp \<and> trip \<and> db_iswhat d \<noteq> NOT_D then d\<lparr>db_iswhat := XCONN\<rparr> else d)"

lemma pull_fix_eq:
  assumes "mp \<noteq> n"
  shows "pull_fix mp n trip st =
           st\<lparr>mblks := (mblks st)(mp := (mblks st mp)\<lparr>b_datap := n\<rparr>), dblks := (\<lambda>u. fix_data mp n trip u (dblks st u))\<rparr>"
proof -
  have "dblks (pull_fix mp n trip st) u = fix_data mp n trip u (dblks st u)" for u
    using assms by (auto simp: pull_fix_def fix_data_def set_dblk_def set_mblk_def Let_def)
  then have "dblks (pull_fix mp n trip st) = (\<lambda>u. fix_data mp n trip u (dblks st u))" ..
  moreover have "pull_fix mp n trip st =
      st\<lparr>mblks := (mblks st)(mp := (mblks st mp)\<lparr>b_datap := n\<rparr>), dblks := dblks (pull_fix mp n trip st)\<rparr>"
    by (simp add: pull_fix_def set_dblk_def set_mblk_def Let_def)
  ultimately show ?thesis by simp
qed

lemma fix_data_simps [simp]:
  "db_ref (fix_data mp n trip u d) = db_ref d" "db_sep (fix_data mp n trip u d) = db_sep d"
  "db_frtn (fix_data mp n trip u d) = db_frtn d" "frtn_ok (fix_data mp n trip u d) = frtn_ok d" "db_align (fix_data mp n trip u d) = db_align d"
  "db_bytes (fix_data mp n trip u d) = db_bytes d"
  "fix_data mp n trip u (d\<lparr>db_ref := r\<rparr>) = (fix_data mp n trip u d)\<lparr>db_ref := r\<rparr>"
  "u \<noteq> n \<Longrightarrow> db_msgaddr (fix_data mp n trip u d) = db_msgaddr d"
  "u \<noteq> n \<Longrightarrow> fix_data mp n trip u (d\<lparr>db_iswhat := NOT_D\<rparr>) = (fix_data mp n trip u d)\<lparr>db_iswhat := NOT_D\<rparr>"
  "\<lbrakk>u \<noteq> n; u \<noteq> mp\<rbrakk> \<Longrightarrow> fix_data mp n trip u d = d"
  by (simp_all add: fix_data_def frtn_ok_def)

lemma fix_data_NOT_M:
  "\<lbrakk>u \<noteq> n; u = mp \<longrightarrow> db_iswhat d \<noteq> NOT_M\<rbrakk> \<Longrightarrow> db_iswhat (fix_data mp n trip u d) = NOT_M \<longleftrightarrow> db_iswhat d = NOT_M"
  by (simp add: fix_data_def)

lemma pull_fix_drop_header:
  assumes "mp \<noteq> n" and "b \<noteq> mp" and "b \<noteq> n" and "b_datap (mblks st b) \<noteq> n"
  shows "pull_fix mp n trip (drop_header b st) = drop_header b (pull_fix mp n trip st)"
  using assms
  by (auto simp: pull_fix_eq drop_header_def FREEMSGBLOCK_def FREEMDBBLOCK_def set_dblk_def fun_eq_iff)

lemma pull_fix_drop_ref:
  assumes "mp \<noteq> n"
  shows "pull_fix mp n trip (drop_ref t st) = drop_ref t (pull_fix mp n trip st)"
  using assms by (auto simp: pull_fix_eq drop_ref_def set_dblk_def fun_eq_iff)

lemma pull_fix_release:
  assumes "mp \<noteq> n"
  shows "pull_fix mp n trip (release_buf t st) = release_buf t (pull_fix mp n trip st)"
  using assms by (auto simp: pull_fix_eq release_buf_def split: option.split)

lemma pull_fix_drop_data:
  assumes "mp \<noteq> n" and "t \<noteq> n" and "t = mp \<longrightarrow> db_iswhat (dblks st t) \<noteq> NOT_M"
  shows "pull_fix mp n trip (drop_data t st) = drop_data t (pull_fix mp n trip st)"
proof -
  have w: "db_iswhat (dblks (pull_fix mp n trip st) t) = NOT_M \<longleftrightarrow> db_iswhat (dblks st t) = NOT_M"
    using fix_data_NOT_M [OF assms(2), of mp "dblks st t" trip] assms(1,3) by (simp add: pull_fix_eq)
  have f: "pull_fix mp n trip (FREEMDBBLOCK t s) = FREEMDBBLOCK t (pull_fix mp n trip s)" for s
    using assms(1) by (simp add: pull_fix_eq FREEMDBBLOCK_def)
  have d: "pull_fix mp n trip (set_dblk t (\<lambda>d. d\<lparr>db_iswhat := NOT_D\<rparr>) s) = set_dblk t (\<lambda>d. d\<lparr>db_iswhat := NOT_D\<rparr>) (pull_fix mp n trip s)" for s
    using assms(1,2) by (auto simp: pull_fix_eq set_dblk_def fun_eq_iff)
  show ?thesis
    using w by (simp add: drop_data_def Let_def f d pull_fix_release [OF assms(1)] heap_fields)
qed

lemma pull_fix_freeb:
  assumes "mp \<noteq> n" and "b \<noteq> mp" and "b \<noteq> n" and "b_datap (mblks st b) \<noteq> n"
    and "b_datap (mblks st b) = mp \<longrightarrow> db_iswhat (dblks st mp) \<noteq> NOT_M"
  shows "pull_fix mp n trip (freeb b st) = freeb b (pull_fix mp n trip st)"
proof -
  define t where "t = b_datap (mblks st b)"
  define s where "s = drop_ref t (drop_header b st)"
  have t: "b_datap (mblks (pull_fix mp n trip st) b) = t" using assms(1,2) by (simp add: pull_fix_eq t_def)
  have s: "pull_fix mp n trip s = drop_ref t (drop_header b (pull_fix mp n trip st))"
    by (simp add: s_def pull_fix_drop_ref [OF assms(1)] pull_fix_drop_header [OF assms(1-4)])
  have r: "db_ref (dblks (pull_fix mp n trip s) t) = db_ref (dblks s t)" using assms(1) by (simp add: pull_fix_eq)
  have "t \<noteq> n" and "t = mp \<longrightarrow> db_iswhat (dblks s t) \<noteq> NOT_M"
    using assms(2,4,5) by (auto simp: s_def heap_fields t_def)
  note d = pull_fix_drop_data [OF assms(1) this]
  show ?thesis
    unfolding freeb_def t t_def [symmetric] Let_def s [symmetric] s_def [symmetric] r by (simp add: d)
qed

lemma pull_fix_advance:
  "\<lbrakk>mp \<noteq> n; b \<noteq> mp\<rbrakk> \<Longrightarrow> pull_fix mp n trip (advance b k st) = advance b k (pull_fix mp n trip st)"
  by (auto simp: pull_fix_eq set_mblk_def fun_eq_iff)

text \<open>Memory already counted for a buffer that is not in place yet.\<close>

definition pending :: "int \<Rightarrow> msgheap \<Rightarrow> msgheap" where
  "pending c st = st\<lparr>Strcount := Strcount st - c\<rparr>"

lemma pending_freeb: "pending c (freeb b st) = freeb b (pending c st)"
proof -
  have 1: "pending c (drop_header h s) = drop_header h (pending c s)" for h s
    by (simp add: pending_def drop_header_def FREEMSGBLOCK_def FREEMDBBLOCK_def set_dblk_def)
  have 2: "pending c (drop_ref t s) = drop_ref t (pending c s)" for t s by (simp add: pending_def drop_ref_def set_dblk_def)
  have 3: "pending c (release_buf t s) = release_buf t (pending c s)" for t s
    by (simp add: pending_def release_buf_def split: option.split)
  have 4: "pending c (drop_data t s) = drop_data t (pending c s)" for t s
    unfolding drop_data_def Let_def 3 [symmetric]
    by (simp add: pending_def FREEMDBBLOCK_def set_dblk_def)
  have p: "mblks (pending c s) = mblks s" "dblks (pending c s) = dblks s" for s by (simp_all add: pending_def)
  show ?thesis
    unfolding freeb_def Let_def p 1 [symmetric] 2 [symmetric] 4 [symmetric] by simp
qed

definition pull_pre :: "nat \<Rightarrow> nat \<Rightarrow> nat set \<Rightarrow> msgheap \<Rightarrow> bool" where
  "pull_pre mp n B st \<longleftrightarrow> mp \<noteq> n \<and> (\<forall>b \<in> B. b_datap (mblks st b) \<noteq> n \<and> (b_datap (mblks st b) = mp \<longrightarrow> db_iswhat (dblks st mp) \<noteq> NOT_M))"

lemma freeb_iswhat: "\<lbrakk>b \<noteq> u; db_iswhat (dblks st u) \<noteq> NOT_M\<rbrakk> \<Longrightarrow> db_iswhat (dblks (freeb b st) u) \<noteq> NOT_M"
  by (auto simp: freeb_def Let_def heap_fields)

interpretation shared: loop_view "pull_fix mp n trip" "pull_pre mp n B" "B - {mp, n}" for mp n trip B
proof
  fix st b k assume pre: "pull_pre mp n B st" and b: "b \<in> B - {mp, n}"
  show "pull_pre mp n B (freeb b st)" using pre b freeb_iswhat [of b mp st] unfolding pull_pre_def by simp
  show "pull_fix mp n trip (freeb b st) = freeb b (pull_fix mp n trip st)"
    using pre b by (intro pull_fix_freeb) (auto simp: pull_pre_def)
  show "pull_fix mp n trip (advance b k st) = advance b k (pull_fix mp n trip st)"
    using pre b by (intro pull_fix_advance) (auto simp: pull_pre_def)
  show "pull_pre mp n B (advance b k st)" using pre by (simp add: pull_pre_def set_mblk_def)
qed

interpretation own: loop_view "pending c" "\<lambda>_. True" UNIV for c
  by unfold_locales (simp_all add: pending_freeb, simp add: pending_def set_mblk_def)

section \<open>Taking over a new data header\<close>

lemma refs_only: "\<lbrakk>refs (insert n H) s n = {n}; n \<notin> H; k \<in> H\<rbrakk> \<Longrightarrow> b_datap (mblks s k) \<noteq> n"
proof
  assume r: "refs (insert n H) s n = {n}" and n: "n \<notin> H" and k: "k \<in> H" and b: "b_datap (mblks s k) = n"
  have "k \<in> refs (insert n H) s n" using k b by (simp add: refs_def)
  with r n k show False by simp
qed

lemma switch_ok:
  assumes ok: "msgs_ok T (insert n H) s" and n: "n \<in> T" "n \<notin> H" "refs (insert n H) s n = {n}"
    and mp: "mp \<in> H" and t: "t = b_datap (mblks s mp)" and ref: "db_ref (dblks s t) > 1" and na: "db_msgaddr (dblks s n) = n"
  shows "msgs_ok T H (pull_fix mp n (db_msgaddr (dblks s t) = mp) (drop_ref t s))"
proof -
  define trip where "trip = (db_msgaddr (dblks s t) = mp)"
  define s' where "s' = pull_fix mp n trip (drop_ref t s)"
  have ne: "mp \<noteq> n" and mpI: "mp \<in> insert n H" using mp n(2) by auto
  note d = msgs_okD [OF ok] and h = header_refs [OF ok mpI t]
  have tn: "t \<noteq> n" using h(2) n(3) ne by auto
  define d' where "d' u = fix_data mp n trip u ((dblks s u)\<lparr>db_ref := db_ref (dblks s u) - (if u = t then 1 else 0)\<rparr>)" for u
  have f: "mblks s' = (mblks s)(mp := (mblks s mp)\<lparr>b_datap := n\<rparr>)" "brk s' = brk s" "mdbfreelist s' = mdbfreelist s"
    "msgfreelist s' = msgfreelist s" "Strcount s' = Strcount s" "dblks s' = d'"
  proof -
    show "mblks s' = (mblks s)(mp := (mblks s mp)\<lparr>b_datap := n\<rparr>)" "brk s' = brk s" "mdbfreelist s' = mdbfreelist s"
      "msgfreelist s' = msgfreelist s" "Strcount s' = Strcount s"
      by (simp_all add: s'_def pull_fix_eq [OF ne] heap_fields)
    have "dblks s' u = d' u" for u
      using drop_mod [OF h(5,4)] by (cases "u = t") (simp_all add: s'_def d'_def pull_fix_eq [OF ne] heap_fields)
    then show "dblks s' = d'" ..
  qed
  have rf: "refs H s' u = (if u = n then {mp} else refs (insert n H) s u - {mp})" for u
  proof -
    have at_n: "k \<in> insert n H \<and> b_datap (mblks s k) = n \<longleftrightarrow> k = n" for k
      using n(3) unfolding refs_def by blast
    show ?thesis
    proof (rule set_eqI)
      fix k
      show "k \<in> refs H s' u \<longleftrightarrow> k \<in> (if u = n then {mp} else refs (insert n H) s u - {mp})"
        using at_n [of k] mp n(2) by (cases "k = mp"; cases "u = n") (auto simp: refs_def f)
    qed
  qed
  have card: "card (refs (insert n H) s t - {mp}) = card (refs (insert n H) s t) - 1"
    using h(2) by (simp add: card_Diff_singleton)
  have some: "refs (insert n H) s t - {mp} \<noteq> {}" using card h(3) ref by (metis card.empty less_numeral_extra(3) zero_less_diff)
  have same: "refs (insert n H) s u - {mp} = refs (insert n H) s u" if "u \<noteq> t" for u using that t by (auto simp: refs_def)
  have ne_iff: "refs H s' u \<noteq> {} \<longleftrightarrow> refs (insert n H) s u \<noteq> {}" for u
    using rf same some n(3) by (cases "u = t") auto
  have bm: "buf_mem (d' u) = buf_mem (dblks s u)" for u by (simp add: d'_def buf_mem_def)
  have mem: "Strcount s' = mem_in_use T H s'"
    using d(9) unfolding mem_in_use_def f ne_iff bm .
  have tr: "triplet_ok H s' u" if "u \<in> T" for u
  proof -
    note x = d(8) [OF that, unfolded triplet_ok_def]
    consider "u = n" | "u = t" "u \<noteq> n" | "u \<noteq> t" "u \<noteq> n" by blast
    then show ?thesis
    proof cases
      case 1
      then show ?thesis using x n(2,3) tn by (simp add: triplet_ok_def rf f d'_def fix_data_def)
    next
      case 2
      then show ?thesis
        unfolding triplet_ok_def rf f using x h(2-5) ref card some mp
        by (auto simp: d'_def fix_data_def)
    next
      case 3
      then show ?thesis
        unfolding triplet_ok_def rf f same [OF 3(1)]
        by (insert 3 x mp, cases "u = mp") (auto simp: d'_def fix_data_def)
    qed
  qed
  have hd: "header_ok T s' k" if k: "k \<in> H" for k
  proof (cases "k = mp")
    case True
    then show ?thesis using n(1) na ne h(8,9) by (auto simp: header_ok_def f d'_def fix_data_def trip_def)
  next
    case False
    have "b_datap (mblks s k) \<noteq> n" by (rule refs_only [OF n(3,2) k])
    with False d(7) [of k] k show ?thesis by (simp add: header_ok_def f d'_def)
  qed
  have "msgs_ok T H s'"
    unfolding msgs_ok_def f(2-4) using d(1-6) n ne_iff hd tr mem by auto
  then show ?thesis by (simp add: s'_def trip_def)
qed

lemma allocb_refs:
  assumes ok: "msgs_ok T H st" and a: "allocb mem sz st = (Some n, st1)"
  shows "n \<notin> H" and "\<exists>T'. n \<in> T' \<and> msgs_ok T' (insert n H) st1 \<and> refs (insert n H) st1 n = {n}"
proof -
  obtain T' where T': "n \<notin> H" "n \<in> T'" "msgs_ok T' (insert n H) st1" using allocb_ok(1) [OF ok a] by blast
  note h = header_refs [OF T'(3), of n n]
  have "b_datap (mblks st1 n) = n" "db_ref (dblks st1 n) = 1"
    by (simp_all add: allocb_Some [OF a] new_header_def new_data_def)
  then have "last_ref st1 n" by (simp add: last_ref_def)
  then have "refs (insert n H) st1 n = {n}"
    using last_ref_iff [OF T'(3), of n n] \<open>b_datap (mblks st1 n) = n\<close> by simp
  with T' show "n \<notin> H" and "\<exists>T'. n \<in> T' \<and> msgs_ok T' (insert n H) st1 \<and> refs (insert n H) st1 n = {n}" by blast+
qed

section \<open>The two branches\<close>

definition pulled :: "nat \<Rightarrow> nat list \<Rightarrow> nat set \<Rightarrow> msgheap \<Rightarrow> bool" where
  "pulled mp cs H st \<longleftrightarrow>
     (\<exists>T us vs. cs = us @ vs \<and> msgs_ok T (H - set us) st \<and>
        (b_cont (mblks st mp) = first_of vs \<or> us = [] \<and> b_cont (mblks st mp) = Some mp))"

lemma loop_dblks:
  "pull_loop mp len bs st = (got, rest, st') \<Longrightarrow>
     db_bytes (dblks st' u) = db_bytes (dblks st u) \<and> db_msgaddr (dblks st' u) = db_msgaddr (dblks st u) \<and>
     db_sep (dblks st' u) = db_sep (dblks st u) \<and> db_frtn (dblks st' u) = db_frtn (dblks st u) \<and>
     db_align (dblks st' u) = db_align (dblks st u) \<and> b_datap (mblks st' h) = b_datap (mblks st h)"
proof (induction bs arbitrary: len st got)
  case (Cons b bs)
  define k where "k = min (bsize st b) len"
  note step = Cons.prems [unfolded pull_loop_Cons Let_def, folded k_def]
  have f: "db_bytes (dblks (freeb x s) u) = db_bytes (dblks s u) \<and> db_msgaddr (dblks (freeb x s) u) = db_msgaddr (dblks s u) \<and>
     db_sep (dblks (freeb x s) u) = db_sep (dblks s u) \<and> db_frtn (dblks (freeb x s) u) = db_frtn (dblks s u) \<and>
     db_align (dblks (freeb x s) u) = db_align (dblks s u)" for x s
    by (simp add: freeb_def Let_def heap_fields)
  have a: "dblks (advance b k st) = dblks st" "b_datap (mblks (advance b k st) h) = b_datap (mblks st h)"
    by (simp_all add: set_mblk_def)
  let ?s = "if b \<noteq> mp then freeb b (advance b k st) else advance b k st"
  show ?case
  proof (cases "len = 0 \<or> b_wptr (mblks st b) \<noteq> b_rptr (mblks st b) + k")
    case True
    then show ?thesis using step a by (auto split: if_splits)
  next
    case False
    then obtain got2 where "pull_loop mp (len - k) bs ?s = (got2, rest, st')"
      using step by (cases "pull_loop mp (len - k) bs ?s") auto
    from Cons.IH [OF this] a f [of b "advance b k st"] show ?thesis by (auto split: if_splits)
  qed
qed simp

lemma pull_shared_ok:
  assumes ok: "msgs_ok T H st" and bs: "set (mp # cs) \<subseteq> H" "distinct (mp # cs)"
    and ref: "db_ref (data_of st mp) > 1" and p: "pull_shared mem mp len (mp # cs) st = (r, st')"
  shows "if r then pulled mp cs H st' else \<exists>T. msgs_ok T H st'"
proof -
  define t where "t = b_datap (mblks st mp)"
  obtain an st1 where a: "allocb mem (int len) st = (an, st1)" by (metis prod.exhaust)
  show ?thesis
  proof (cases an)
    case None
    with p a have "\<not> r" "st' = st1" by (auto simp: pull_shared_def Let_def)
    with allocb_ok(2) [OF ok a [unfolded None]] show ?thesis by auto
  next
    case (Some n)
    note a = a [unfolded Some]
    note al = allocb_Some [OF a]
    obtain T' where T': "n \<notin> H" "n \<in> T'" "msgs_ok T' (insert n H) st1" "refs (insert n H) st1 n = {n}"
      using allocb_refs [OF ok a] by blast
    define s1 where "s1 = set_dblk n (\<lambda>d. d\<lparr>db_type := db_type (dblks st1 t)\<rparr>) st1"
    define s2 where "s2 = drop_ref t s1"
    obtain got rest s3 where loop: "pull_loop mp len (mp # cs) s2 = (got, rest, s3)" by (metis prod_cases3)
    define trip where "trip = (db_msgaddr (dblks s1 t) = mp)"
    define s4 where "s4 = set_mblk n (\<lambda>m. m\<lparr>b_wptr := length got, b_band := b_band (mblks s3 mp), b_flag := b_flag (mblks s3 mp)\<rparr>)
                       (set_dblk n (\<lambda>d. d\<lparr>db_bytes := put_bytes got (db_bytes d)\<rparr>) s3)"
    have mp: "mp \<in> H" "mp \<noteq> n" using bs(1) T'(1) by auto
    have h1: "mblks s1 = mblks st1" "refs (insert n H) s1 = refs (insert n H) st1"
      by (auto simp: s1_def set_dblk_def refs_def fun_eq_iff)
    have ok1: "msgs_ok T' (insert n H) s1"
      unfolding s1_def by (rule msgs_ok_frame [OF T'(3) set_dblk_frame]) (simp add: buf_mem_def)
    have at_n: "k \<in> H \<Longrightarrow> b_datap (mblks s1 k) \<noteq> n" for k
      unfolding h1 by (rule refs_only [OF T'(4,1)])
    have t: "b_datap (mblks s1 mp) = t" "t \<noteq> n" using mp at_n [OF mp(1)] al(1) by (auto simp: h1 t_def)
    have "db_ref (dblks s1 t) > 1" using ref t(2) al(2) by (simp add: s1_def set_dblk_def t_def)
    moreover have "db_msgaddr (dblks s1 n) = n" by (simp add: s1_def set_dblk_def al(2) new_data_def)
    ultimately have ok2: "msgs_ok T' H (pull_fix mp n trip s2)"
      unfolding s2_def trip_def using switch_ok [OF ok1 T'(2,1) _ mp(1) t(1) [symmetric]] T'(4) h1(2) by simp
    have "b_datap (mblks s1 b) \<noteq> n \<and> (b_datap (mblks s1 b) = mp \<longrightarrow> db_iswhat (dblks s2 mp) \<noteq> NOT_M)" if "b \<in> set cs" for b
    proof -
      have b: "b \<in> insert n H" "b \<in> H" using that bs(1) by auto
      have "b_datap (mblks s1 b) = mp \<longrightarrow> db_iswhat (dblks s1 mp) \<noteq> NOT_M"
        using iswhat_live(1) [OF ok1, of mp] header_refs(1) [OF ok1 b(1) refl] mp(1) by auto
      with at_n [OF b(2)] show ?thesis by (auto simp: s2_def heap_fields)
    qed
    then have pre: "pull_pre mp n (set cs) s2" using mp(2) by (simp add: pull_pre_def s2_def heap_fields)
    have adv: "msgs_ok T' H (pull_fix mp n trip (advance mp k s2)) \<and> pull_pre mp n (set cs) (advance mp k s2)" for k
      using pre msgs_ok_frame [OF ok2, of "pull_fix mp n trip (advance mp k s2)"]
      by (simp add: pull_pre_def same_frame_def pull_fix_eq [OF mp(2)] set_mblk_def)
    have csB: "set cs \<subseteq> (set cs - {mp, n}) \<inter> H" using bs T'(1) by auto
    obtain us vs where split: "cs = us @ vs" "rest = first_of vs \<or> us = [] \<and> rest = Some mp"
      and ok3: "msgs_ok T' (H - set us) (pull_fix mp n trip s3)"
      using shared.head_ok [OF adv ok2 pre csB _ _ loop] bs(2) by auto
    note fr = loop_dblks [OF loop]
    have "db_msgaddr (dblks s4 t) = mp \<longleftrightarrow> trip"
      using fr by (simp add: s4_def set_mblk_def set_dblk_def trip_def s2_def heap_fields)
    then have st': "r" "st' = set_mblk mp (\<lambda>m. m\<lparr>b_rptr := 0, b_wptr := length got, b_cont := rest\<rparr>) (pull_fix mp n trip s4)"
      using p a loop by (auto simp: pull_shared_def Let_def t_def [symmetric] s1_def [symmetric] s2_def [symmetric] s4_def [symmetric])
    have "db_bytes (dblks s3 n) = db_bytes (new_data n (int len))"
      using fr by (simp add: s2_def s1_def heap_fields set_dblk_def al(2) t(2) [symmetric])
    moreover have "length got \<le> len" using pull_loop_length [of mp len "mp # cs" s2] loop by simp
    ultimately have "length (put_bytes got (db_bytes (dblks s3 n))) = length (db_bytes (dblks s3 n))"
      by (auto simp: put_bytes_def new_data_def)
    then have "same_frame T' (H - set us) (pull_fix mp n trip s3) st'"
      using T'(1) by (auto simp: same_frame_def st'(2) pull_fix_eq [OF mp(2)] set_mblk_def set_dblk_def s4_def fix_data_def buf_mem_def)
    from msgs_ok_frame [OF ok3 this] show ?thesis
      using split st' unfolding pulled_def by (auto simp: set_mblk_def)
  qed
qed

lemma mem_in_use_change:
  assumes "finite T" and "t \<in> T" and "refs H st = refs H w" and "refs H w t \<noteq> {}" and "brk st = brk w"
    and "\<And>u. u \<noteq> t \<Longrightarrow> buf_mem (dblks st u) = buf_mem (dblks w u)"
  shows "mem_in_use T H st = mem_in_use T H w + buf_mem (dblks st t) - buf_mem (dblks w t)"
proof -
  let ?g = "\<lambda>s u. if refs H w u \<noteq> {} then buf_mem (dblks s u) else 0"
  have split: "sum (?g s) T = ?g s t + sum (?g s) (T - {t})" for s using assms(1,2) by (simp add: sum.remove)
  moreover have "sum (?g st) (T - {t}) = sum (?g w) (T - {t})" using assms(6) by (intro sum.cong refl) auto
  ultimately have "sum (?g st) T = sum (?g w) T + buf_mem (dblks st t) - buf_mem (dblks w t)" 
    using split [of st] split [of w] assms(4) by simp
  then show ?thesis unfolding mem_in_use_def assms(3,5) by linarith
qed

text \<open>A new buffer for a data header that is in use.\<close>

lemma rebuffer_ok:
  assumes ok: "msgs_ok T H w" and mp: "mp \<in> H" and t: "t = b_datap (mblks w mp)"
    and m: "\<And>k. b_datap (mblks st k) = b_datap (mblks w k)"
    and d: "dblks st = (dblks w)(t := d')" "db_ref d' = db_ref (dblks w t)" "db_iswhat d' = db_iswhat (dblks w t)"
      "db_msgaddr d' = db_msgaddr (dblks w t)" "frtn_ok d'"
    and f: "brk st = brk w" "mdbfreelist st = mdbfreelist w" "msgfreelist st = msgfreelist w"
    and c: "Strcount st = Strcount w + buf_mem d' - buf_mem (dblks w t)"
  shows "msgs_ok T H st"
proof -
  note x = msgs_okD [OF ok] and h = header_refs [OF ok mp t]
  have r: "refs H st = refs H w" by (simp add: refs_def m fun_eq_iff)
  have "mem_in_use T H st = mem_in_use T H w + buf_mem (dblks st t) - buf_mem (dblks w t)"
    using h(2) by (intro mem_in_use_change [OF x(10) h(1) r _ f(1)]) (auto simp: d(1))
  then have "Strcount st = mem_in_use T H st" using c x(9) by (simp add: d(1))
  moreover have "header_ok T st k" if "k \<in> H" for k
    using x(7) [OF that] d(4) by (auto simp: header_ok_def m d(1))
  moreover have "triplet_ok H st u" if "u \<in> T" for u
    using x(8) [OF that] d(2-5) by (cases "u = t") (auto simp: triplet_ok_def r d(1))
  ultimately show ?thesis unfolding msgs_ok_def r f using x(1-6) by blast
qed

lemma pull_own_ok:
  assumes ok: "msgs_ok T H st" and bs: "set (mp # cs) \<subseteq> H" "distinct (mp # cs)"
    and p: "pull_own mem mp len (mp # cs) st = (r, st')"
  shows "if r then pulled mp cs H st' else msgs_ok T H st'"
proof (cases "len \<noteq> 0 \<and> mem (reqs st)")
  case False
  then have "\<not> r" "st' = st\<lparr>reqs := reqs st + 1\<rparr>" using p by (auto simp: pull_own_def)
  with msgs_ok_frame [OF ok, of st'] show ?thesis by (simp add: same_frame_def)
next
  case True
  define t where "t = b_datap (mblks st mp)"
  define s1 where "s1 = set_dblk t (\<lambda>d. d\<lparr>db_size := int len\<rparr>) (st\<lparr>reqs := reqs st + 1, Strcount := Strcount st + int len\<rparr>)"
  obtain got rest s2 where loop: "pull_loop mp len (mp # cs) s1 = (got, rest, s2)" by (metis prod_cases3)
  have st': "r" "st' = set_mblk mp (\<lambda>m. m\<lparr>b_rptr := 0, b_wptr := length got\<rparr>)
      (set_dblk t (\<lambda>d. d\<lparr>db_bytes := put_bytes got (replicate len 0), db_align := 0,
                        db_frtn := (if db_sep d then None else db_frtn d), db_sep := True\<rparr>)
        (release_buf t (set_mblk mp (\<lambda>m. m\<lparr>b_cont := rest\<rparr>) s2)))"
    using p True loop unfolding pull_own_def Let_def t_def [symmetric] s1_def [symmetric] by simp_all
  have ok1: "msgs_ok T H (pending (int len) s1)"
    by (rule msgs_ok_frame [OF ok]) (auto simp: same_frame_def s1_def pending_def set_dblk_def buf_mem_def)
  have adv: "msgs_ok T H (pending (int len) (advance mp k s1)) \<and> True" for k
    using msgs_ok_frame [OF ok1, of "pending (int len) (advance mp k s1)"]
    by (simp add: same_frame_def pending_def set_mblk_def)
  have csB: "set cs \<subseteq> UNIV \<inter> H" using bs(1) by auto
  obtain us vs where split: "cs = us @ vs" "rest = first_of vs \<or> us = [] \<and> rest = Some mp"
    and ok2: "msgs_ok T (H - set us) (pending (int len) s2)"
    using own.head_ok [OF adv ok1 TrueI csB _ _ loop] bs(2) by auto
  let ?w = "pending (int len) s2"
  have mp: "mp \<in> H - set us" using bs split(1) by auto
  have t: "t = b_datap (mblks ?w mp)" using loop_dblks [OF loop] by (simp add: pending_def s1_def set_dblk_def t_def)
  have fr: "frtn_ok (dblks s2 t)" using header_refs(10) [OF ok2 mp t] by (simp add: pending_def)
  have "length got \<le> len" using pull_loop_length [of mp len "mp # cs" s1] loop by simp
  then have len: "length (put_bytes got (replicate len 0)) = len" by (simp add: put_bytes_def)
  have "msgs_ok T (H - set us) st'"
    by (rule rebuffer_ok [OF ok2 mp t, where d' = "(dblks s2 t)\<lparr>db_bytes := put_bytes got (replicate len 0), db_align := 0,
                             db_frtn := (if db_sep (dblks s2 t) then None else db_frtn (dblks s2 t)), db_sep := True\<rparr>"])
       (use fr len in \<open>auto simp: st'(2) set_mblk_def set_dblk_def pending_def heap_fields frtn_ok_def buf_mem_def\<close>)
  moreover have "b_cont (mblks st' mp) = rest" by (simp add: st'(2) set_mblk_def set_dblk_def heap_fields)
  ultimately have "pulled mp cs H st'" unfolding pulled_def using split by blast
  then show ?thesis using st'(1) by simp
qed

lemma pulledI: "\<lbrakk>msgs_ok T (H - set us) st; cs = us @ vs; b_cont (mblks st mp) = first_of vs\<rbrakk> \<Longrightarrow> pulled mp cs H st"
  unfolding pulled_def by blast

lemma pullupmsg_ok:
  assumes ok: "msgs_ok T H st" and bs: "blocks st (Some mp) = Some (mp # cs)" "set (mp # cs) \<subseteq> H"
    and p: "pullupmsg mem mp len st = Some (r, st')"
  shows "if r then pulled mp cs H st' else \<exists>T. msgs_ok T H st'"
proof -
  have dist: "distinct (mp # cs)" using bs(1) chain_distinct blocks_chain by metis
  show ?thesis
  proof (cases "pull_plan mp len st (mp # cs)")
    case PullDone
    then have "r" "st' = st" using p bs(1) by (auto simp: pullupmsg_def)
    moreover have "b_cont (mblks st mp) = first_of cs" using bs(1) by (cases cs) (auto simp: blocks_chain first_of_def)
    ultimately show ?thesis using pulledI [of T H "[]" st cs cs mp] ok by simp
  next
    case PullFail
    then have "\<not> r" "st' = st" using p bs(1) by (auto simp: pullupmsg_def)
    with ok show ?thesis by auto
  next
    case (PullLen n)
    then show ?thesis
      using p bs(1) pull_shared_ok [OF ok bs(2) dist] pull_own_ok [OF ok bs(2) dist]
      by (cases "db_ref (data_of st mp) > 1"; cases r) (fastforce simp: pullupmsg_def)+
  qed
qed

section \<open>Copying a block\<close>

lemma copyb_ok:
  assumes ok: "msgs_ok T H st"
  shows "copyb mem outside b st = (Some n, st') \<Longrightarrow> n \<notin> H \<and> (\<exists>T'. msgs_ok T' (insert n H) st')"
    and "copyb mem outside b st = (None, st') \<Longrightarrow> \<exists>T'. msgs_ok T' H st'"
proof -
  let ?len = "int (length (db_bytes (data_of st b)))"
  show "n \<notin> H \<and> (\<exists>T'. msgs_ok T' (insert n H) st')" if c: "copyb mem outside b st = (Some n, st')"
  proof -
    define f where "f nm = nm\<lparr>b_flag := b_flag (mblks st b), b_band := b_band (mblks st b), b_rptr := b_rptr (mblks st b),
                            b_wptr := b_wptr (mblks st b)\<rparr>" for nm :: mblk
    define h where "h nd = nd\<lparr>db_type := db_type (data_of st b),
                            db_bytes := copy_bytes outside (data_of st b) (b_rptr (mblks st b)) (b_wptr (mblks st b)) (db_bytes nd)\<rparr>" for nd :: datab
    obtain st1 where a: "allocb mem ?len st = (Some n, st1)" and st': "st' = set_dblk n h (set_mblk n f st1)"
      using c unfolding copyb_def Let_def f_def h_def by (auto split: prod.splits option.splits)
    obtain T' where T': "n \<notin> H" "msgs_ok T' (insert n H) st1" using allocb_ok(1) [OF ok a] by blast
    have "same_frame T' (insert n H) st1 (set_mblk n f st1)" by (rule set_mblk_frame) (simp add: f_def)
    moreover have "same_frame T' (insert n H) (set_mblk n f st1) st'"
      unfolding st' by (rule set_dblk_frame) (simp add: h_def buf_mem_def copy_bytes_def frtn_ok_def)
    ultimately have "same_frame T' (insert n H) st1 st'" by (rule same_frame_trans)
    with T' show ?thesis by (blast intro: msgs_ok_frame)
  qed
  show "\<exists>T'. msgs_ok T' H st'" if "copyb mem outside b st = (None, st')"
    using that allocb_ok(2) [OF ok] by (auto simp: copyb_def Let_def split: prod.splits option.splits)
qed

end
