(* ===== verification/Strmsg_Data.thy ===== *)
theory Strmsg_Data
  imports Strmsg_Pull
begin

text \<open>
  What the operations on messages do to the data: the bytes of a block from \<^verbatim>\<open>b_rptr\<close> to \<^verbatim>\<open>b_wptr\<close>, the data of a message, and
  their preservation by \<^verbatim>\<open>pullupmsg\<close> and \<^verbatim>\<open>adjmsg\<close>.
\<close>

section \<open>Data of a message\<close>

definition blk_data :: "msgheap \<Rightarrow> nat \<Rightarrow> u8 list" where
  "blk_data st b = block_bytes st b (bsize st b)"

definition msg_data :: "msgheap \<Rightarrow> nat list \<Rightarrow> u8 list" where
  "msg_data st bs = concat (map (blk_data st) bs)"

text \<open>The assertions of the code on the pointers of a block.\<close>

definition wf_blk :: "msgheap \<Rightarrow> nat \<Rightarrow> bool" where
  "wf_blk st b \<longleftrightarrow> b_rptr (mblks st b) \<le> b_wptr (mblks st b) \<and> b_wptr (mblks st b) \<le> length (db_bytes (data_of st b))"

lemma length_blk_data: "wf_blk st b \<Longrightarrow> length (blk_data st b) = bsize st b"
  by (auto simp: blk_data_def block_bytes_def wf_blk_def bsize_def)

lemma msg_data_simps [simp]:
  "msg_data st [] = []" "msg_data st (b # bs) = blk_data st b @ msg_data st bs" "msg_data st (bs @ cs) = msg_data st bs @ msg_data st cs"
  by (simp_all add: msg_data_def)

lemma length_msg_data: "\<forall>b \<in> set bs. wf_blk st b \<Longrightarrow> length (msg_data st bs) = sum_list (map (bsize st) bs)"
  by (induction bs) (auto simp: length_blk_data)

text \<open>Two heaps agree on a block.\<close>

definition same_blk :: "msgheap \<Rightarrow> msgheap \<Rightarrow> nat \<Rightarrow> bool" where
  "same_blk st st' b \<longleftrightarrow> mblks st' b = mblks st b \<and> db_bytes (dblks st' (b_datap (mblks st b))) = db_bytes (data_of st b)"

lemma same_blkD: "same_blk st st' b \<Longrightarrow> blk_data st' b = blk_data st b \<and> (wf_blk st' b \<longleftrightarrow> wf_blk st b) \<and> bsize st' b = bsize st b"
  by (simp add: same_blk_def blk_data_def block_bytes_def wf_blk_def bsize_def)

lemma same_blk_trans: "\<lbrakk>same_blk st st' b; same_blk st' st'' b\<rbrakk> \<Longrightarrow> same_blk st st'' b"
  by (simp add: same_blk_def)

lemma msg_data_cong: "\<forall>b \<in> set bs. same_blk st st' b \<Longrightarrow> msg_data st' bs = msg_data st bs"
  by (induction bs) (auto dest: same_blkD)

lemma block_bytes_take: "k \<le> bsize st b \<Longrightarrow> block_bytes st b k = take k (blk_data st b)"
  by (simp add: block_bytes_def blk_data_def min_absorb1)

lemma advance_data:
  "k \<le> bsize st b \<Longrightarrow> blk_data (advance b k st) b = drop k (blk_data st b)"
  by (simp add: blk_data_def block_bytes_def bsize_def set_mblk_def drop_take add.commute)

lemma advance_other: "h \<noteq> b \<Longrightarrow> same_blk st (advance b k st) h"
  by (simp add: same_blk_def set_mblk_def)

lemma freeb_same: "same_blk st (freeb b st) h"
  by (simp add: same_blk_def)

section \<open>The loop of \<^verbatim>\<open>pullupmsg\<close>\<close>

lemma pull_loop_conts:
  "pull_loop mp len bs st = (got, rest, st') \<Longrightarrow>
     b_cont (mblks st' h) = b_cont (mblks st h) \<and> (h \<notin> set bs \<longrightarrow> same_blk st st' h)"
proof (induction bs arbitrary: len st got)
  case Nil
  then show ?case by (simp add: same_blk_def)
next
  case (Cons b bs)
  define k where "k = min (bsize st b) len"
  note step = Cons.prems [unfolded pull_loop_Cons Let_def, folded k_def]
  let ?s = "if b \<noteq> mp then freeb b (advance b k st) else advance b k st"
  have a: "b_cont (mblks (advance b k st) h) = b_cont (mblks st h)" by (simp add: set_mblk_def)
  have o: "h \<noteq> b \<longrightarrow> same_blk st (advance b k st) h \<and> same_blk st ?s h"
    using advance_other [of h b st k] same_blk_trans [OF advance_other [of h b st k] freeb_same] by auto
  show ?case
  proof (cases "len = 0 \<or> b_wptr (mblks st b) \<noteq> b_rptr (mblks st b) + k")
    case True
    then have "st' = st \<or> st' = advance b k st" using step by (auto split: if_splits)
    with a o show ?thesis by (auto simp: same_blk_def)
  next
    case False
    then obtain got2 where "pull_loop mp (len - k) bs ?s = (got2, rest, st')"
      using step by (cases "pull_loop mp (len - k) bs ?s") auto
    note ih = Cons.IH [OF this]
    have "b_cont (mblks ?s h) = b_cont (mblks st h)" using a by auto
    with ih o show ?thesis by (auto intro: same_blk_trans)
  qed
qed

lemma pull_loop_data:
  assumes "pull_loop mp len bs st = (got, rest, st')" and "mp \<notin> set bs" and "distinct bs"
    and "\<forall>b \<in> set bs. wf_blk st b" and "len \<le> length (msg_data st bs)"
  shows "\<exists>us vs. bs = us @ vs \<and> rest = first_of vs \<and> length got = len \<and> got @ msg_data st' vs = msg_data st bs"
  using assms
proof (induction bs arbitrary: len st got)
  case Nil
  then show ?case by (auto simp: first_of_def)
next
  case (Cons b bs)
  define k where "k = min (bsize st b) len"
  note step = Cons.prems(1) [unfolded pull_loop_Cons Let_def, folded k_def]
  have wf: "wf_blk st b" and kb: "k \<le> bsize st b" using Cons.prems(4) by (auto simp: k_def)
  note lb = length_blk_data [OF wf]
  have res: "b_wptr (mblks st b) = b_rptr (mblks st b) + k \<longleftrightarrow> k = bsize st b"
    using wf kb by (auto simp: wf_blk_def bsize_def)
  have oth: "\<forall>c \<in> set bs. same_blk st (advance b k st) c" using Cons.prems(3) by (auto intro: advance_other)
  consider "len = 0" | "0 < len" "k \<noteq> bsize st b" | "0 < len" "k = bsize st b" by blast
  then show ?case
  proof cases
    case 1
    then show ?thesis using step by (intro exI [of _ "[]"] exI [of _ "b # bs"]) (auto simp: first_of_def)
  next
    case 2
    then have "got = take len (blk_data st b)" "rest = Some b" "st' = advance b len st" "len \<le> bsize st b" "k = len"
      using step res block_bytes_take [OF kb] by (auto simp: k_def min_def split: if_splits)
    then show ?thesis
      using advance_data [of len st b] msg_data_cong [OF oth] lb
      by (intro exI [of _ "[]"] exI [of _ "b # bs"]) (auto simp: first_of_def)
  next
    case 3
    let ?s = "freeb b (advance b k st)"
    obtain got2 where r: "pull_loop mp (len - k) bs ?s = (got2, rest, st')" and got: "got = blk_data st b @ got2"
      using step res 3 Cons.prems(2) block_bytes_take [OF kb] lb
      by (cases "pull_loop mp (len - k) bs ?s") auto
    have same: "\<forall>c \<in> set bs. same_blk st ?s c" using oth same_blk_trans [OF _ freeb_same] by blast
    have md: "msg_data ?s bs = msg_data st bs" by (rule msg_data_cong [OF same])
    have "\<forall>c \<in> set bs. wf_blk ?s c" using same Cons.prems(4) by (auto dest: same_blkD)
    moreover have "len - k \<le> length (msg_data ?s bs)" using Cons.prems(5) lb 3(2) unfolding md by simp
    ultimately obtain us vs where *: "bs = us @ vs" "rest = first_of vs" "length got2 = len - k" "got2 @ msg_data st' vs = msg_data ?s bs"
      using Cons.IH [OF r] Cons.prems(2,3) by auto
    have "length got = len" using *(3) got lb 3(2) by (simp add: k_def)
    then show ?thesis
      using * got md by (intro exI [of _ "b # us"] exI [of _ vs]) simp
  qed
qed

lemma pull_head_data:
  assumes loop: "pull_loop mp len (mp # cs) st = (got, rest, st')" and dist: "distinct (mp # cs)"
    and wf: "\<forall>b \<in> set (mp # cs). wf_blk st b" and len: "0 < len" "bsize st mp \<le> len" "len \<le> length (msg_data st (mp # cs))"
  shows "\<exists>us vs. cs = us @ vs \<and> rest = first_of vs \<and> length got = len \<and> got @ msg_data st' vs = msg_data st (mp # cs)"
proof -
  define k where "k = bsize st mp"
  have k: "min (bsize st mp) len = k" using len(2) by (simp add: k_def)
  have wfm: "wf_blk st mp" using wf by simp
  note lb = length_blk_data [OF wfm]
  have "b_wptr (mblks st mp) = b_rptr (mblks st mp) + k" using wfm by (simp add: k_def wf_blk_def bsize_def)
  then obtain got2 where r: "pull_loop mp (len - k) cs (advance mp k st) = (got2, rest, st')"
    and got: "got = blk_data st mp @ got2"
    using loop len(1) by (cases "pull_loop mp (len - k) cs (advance mp k st)") (auto simp: pull_loop_Cons Let_def k blk_data_def k_def)
  have same: "\<forall>c \<in> set cs. same_blk st (advance mp k st) c" using dist by (auto intro: advance_other)
  have md: "msg_data (advance mp k st) cs = msg_data st cs" by (rule msg_data_cong [OF same])
  have "\<forall>c \<in> set cs. wf_blk (advance mp k st) c" using same wf by (auto dest: same_blkD)
  moreover have "len - k \<le> length (msg_data (advance mp k st) cs)" using len(3) lb unfolding md by (simp add: k_def)
  ultimately obtain us vs where *: "cs = us @ vs" "rest = first_of vs" "length got2 = len - k"
      "got2 @ msg_data st' vs = msg_data (advance mp k st) cs"
    using pull_loop_data [OF r] dist by auto
  have "length got = len" using *(3) got lb len(2) by (simp add: k_def)
  with * got md show ?thesis by (intro exI [of _ us] exI [of _ vs]) simp
qed

lemma chain_suffix: "chain m p (us @ vs) \<Longrightarrow> chain m (first_of vs) vs"
proof (induction us arbitrary: p)
  case Nil
  then show ?case by (cases vs) (auto simp: first_of_def)
qed auto

lemma chain_cong: "\<lbrakk>chain m p bs; \<forall>b \<in> set bs. b_cont (m' b) = b_cont (m b)\<rbrakk> \<Longrightarrow> chain m' p bs"
  by (induction bs arbitrary: p) auto

text \<open>What the two branches leave behind.\<close>

lemma pull_finish:
  assumes chain: "chain (mblks st) (Some mp) (mp # us @ vs)" and dist: "distinct (mp # us @ vs)"
    and mp: "b_cont (mblks st' mp) = first_of vs" "b_rptr (mblks st' mp) = 0" "b_wptr (mblks st' mp) = length got"
    and dat: "db_bytes (data_of st' mp) = put_bytes got old" "db_align (data_of st' mp) = 0"
    and vs: "\<forall>h \<in> set vs. same_blk st3 st' h \<and> b_cont (mblks st' h) = b_cont (mblks st h)"
  shows "blocks st' (Some mp) = Some (mp # vs) \<and> msg_data st' (mp # vs) = got @ msg_data st3 vs \<and> str_aligned st' mp \<and>
         bsize st' mp = length got"
proof -
  have "chain (mblks st) (b_cont (mblks st mp)) (us @ vs)" using chain by simp
  then have "chain (mblks st) (first_of vs) vs" by (rule chain_suffix)
  then have "chain (mblks st') (Some mp) (mp # vs)" using chain_cong mp(1) vs by simp
  moreover have "msg_data st' vs = msg_data st3 vs" using vs by (intro msg_data_cong) auto
  moreover have "blk_data st' mp = got" by (simp add: blk_data_def block_bytes_def bsize_def mp dat put_bytes_def)
  ultimately show ?thesis by (simp add: blocks_chain str_aligned_def bsize_def mp dat)
qed

lemma pull_own_data:
  assumes ok: "msgs_ok T H st" and bs: "set (mp # cs) \<subseteq> H" "chain (mblks st) (Some mp) (mp # cs)"
    and wf: "\<forall>b \<in> set (mp # cs). wf_blk st b" and len: "0 < len" "bsize st mp \<le> len" "len \<le> length (msg_data st (mp # cs))"
    and ref: "\<not> db_ref (data_of st mp) > 1" and p: "pull_own mem mp len (mp # cs) st = (True, st')"
  shows "\<exists>us vs. cs = us @ vs \<and> blocks st' (Some mp) = Some (mp # vs) \<and> msg_data st' (mp # vs) = msg_data st (mp # cs) \<and>
           str_aligned st' mp \<and> bsize st' mp = len"
proof -
  define t where "t = b_datap (mblks st mp)"
  define s1 where "s1 = set_dblk t (\<lambda>d. d\<lparr>db_size := int len\<rparr>) (st\<lparr>reqs := reqs st + 1, Strcount := Strcount st + int len\<rparr>)"
  obtain got rest s2 where loop: "pull_loop mp len (mp # cs) s1 = (got, rest, s2)" by (metis prod_cases3)
  have mem: "len \<noteq> 0" "mem (reqs st)" using len(1) p by (simp, cases "mem (reqs st)", simp_all add: pull_own_def)
  have st': "st' = set_mblk mp (\<lambda>m. m\<lparr>b_rptr := 0, b_wptr := length got\<rparr>)
      (set_dblk t (\<lambda>d. d\<lparr>db_bytes := put_bytes got (replicate len 0), db_align := 0,
                        db_frtn := (if db_sep d then None else db_frtn d), db_sep := True\<rparr>)
        (release_buf t (set_mblk mp (\<lambda>m. m\<lparr>b_cont := rest\<rparr>) s2)))"
    using p mem loop unfolding pull_own_def Let_def t_def [symmetric] s1_def [symmetric] by simp
  have dist: "distinct (mp # cs)" by (rule chain_distinct [OF bs(2)])
  have same: "same_blk st s1 b" for b by (simp add: same_blk_def s1_def set_dblk_def)
  have md: "msg_data s1 (mp # cs) = msg_data st (mp # cs)" using same by (intro msg_data_cong) simp
  have "\<forall>b \<in> set (mp # cs). wf_blk s1 b" "bsize s1 mp \<le> len" using wf len(2) same_blkD [OF same] by auto
  from pull_head_data [OF loop dist this(1) len(1) this(2) len(3) [folded md]]
  obtain us vs where *: "cs = us @ vs" "rest = first_of vs" "length got = len" "got @ msg_data s2 vs = msg_data st (mp # cs)"
    unfolding md by blast
  have alone: "refs H st t = {mp}"
  proof -
    have "mp \<in> H" using bs(1) by simp
    with header_refs(5) [OF ok this t_def] ref have "last_ref st mp" by (simp add: last_ref_def t_def)
    with last_ref_iff [OF ok \<open>mp \<in> H\<close> t_def] show ?thesis by simp
  qed
  have ne: "b_datap (mblks s2 h) \<noteq> t" if "h \<in> set vs" for h
  proof -
    have "h \<in> H" "h \<noteq> mp" using that bs(1) dist *(1) by auto
    then have "b_datap (mblks st h) \<noteq> t" using alone by (auto simp: refs_def)
    then show ?thesis using loop_dblks [OF loop, of _ h] by (simp add: s1_def set_dblk_def)
  qed
  have "same_blk s2 st' h \<and> b_cont (mblks st' h) = b_cont (mblks st h)" if "h \<in> set vs" for h
    using ne [OF that] that dist *(1) pull_loop_conts [OF loop, of h]
    by (auto simp: same_blk_def st' set_mblk_def set_dblk_def heap_fields s1_def)
  moreover have "t = b_datap (mblks s2 mp)" using loop_dblks [OF loop] by (simp add: s1_def set_dblk_def t_def)
  ultimately have "blocks st' (Some mp) = Some (mp # vs) \<and> msg_data st' (mp # vs) = got @ msg_data s2 vs \<and>
      str_aligned st' mp \<and> bsize st' mp = length got"
    using bs(2) dist *(1,2) by (intro pull_finish [of st]) (auto simp: st' set_mblk_def set_dblk_def heap_fields)
  with * show ?thesis by auto
qed

lemma pull_shared_data:
  assumes ok: "msgs_ok T H st" and bs: "set (mp # cs) \<subseteq> H" "chain (mblks st) (Some mp) (mp # cs)"
    and wf: "\<forall>b \<in> set (mp # cs). wf_blk st b" and len: "0 < len" "bsize st mp \<le> len" "len \<le> length (msg_data st (mp # cs))"
    and p: "pull_shared mem mp len (mp # cs) st = (True, st')"
  shows "\<exists>us vs. cs = us @ vs \<and> blocks st' (Some mp) = Some (mp # vs) \<and> msg_data st' (mp # vs) = msg_data st (mp # cs) \<and>
           str_aligned st' mp \<and> bsize st' mp = len"
proof -
  define t where "t = b_datap (mblks st mp)"
  obtain n st1 where a: "allocb mem (int len) st = (Some n, st1)"
    using p by (auto simp: pull_shared_def Let_def split: prod.splits option.splits)
  note al = allocb_Some [OF a]
  obtain T' where n: "n \<notin> H" "refs (insert n H) st1 n = {n}" using allocb_refs [OF ok a] by blast
  define s1 where "s1 = set_dblk n (\<lambda>d. d\<lparr>db_type := db_type (dblks st1 t)\<rparr>) st1"
  define s2 where "s2 = drop_ref t s1"
  obtain got rest s3 where loop: "pull_loop mp len (mp # cs) s2 = (got, rest, s3)" by (metis prod_cases3)
  define s4 where "s4 = set_mblk n (\<lambda>m. m\<lparr>b_wptr := length got, b_band := b_band (mblks s3 mp), b_flag := b_flag (mblks s3 mp)\<rparr>)
                     (set_dblk n (\<lambda>d. d\<lparr>db_bytes := put_bytes got (db_bytes d)\<rparr>) s3)"
  define trip where "trip \<longleftrightarrow> db_msgaddr (dblks s4 t) = mp"
  have st': "st' = set_mblk mp (\<lambda>m. m\<lparr>b_rptr := 0, b_wptr := length got, b_cont := rest\<rparr>) (pull_fix mp n trip s4)"
    using p a loop unfolding pull_shared_def Let_def t_def [symmetric] trip_def
    by (simp add: s1_def [symmetric] s2_def [symmetric] s4_def [symmetric])
  have dist: "distinct (mp # cs)" by (rule chain_distinct [OF bs(2)])
  have nb: "b \<noteq> n" "b_datap (mblks st b) \<noteq> n" if "b \<in> set (mp # cs)" for b
  proof -
    have "b \<in> H" using that bs(1) by auto
    with n(1) show "b \<noteq> n" by auto
    with refs_only [OF n(2,1) \<open>b \<in> H\<close>] show "b_datap (mblks st b) \<noteq> n" by (simp add: al(1))
  qed
  have same: "\<forall>b \<in> set (mp # cs). same_blk st s2 b"
    using nb by (auto simp: same_blk_def s2_def s1_def heap_fields set_dblk_def al(1,2))
  have md: "msg_data s2 (mp # cs) = msg_data st (mp # cs)" by (rule msg_data_cong [OF same])
  have "\<forall>b \<in> set (mp # cs). wf_blk s2 b" "bsize s2 mp \<le> len" using wf len(2) same by (auto dest: same_blkD)
  from pull_head_data [OF loop dist this(1) len(1) this(2) len(3) [folded md]]
  obtain us vs where *: "cs = us @ vs" "rest = first_of vs" "length got = len" "got @ msg_data s3 vs = msg_data st (mp # cs)"
    unfolding md by blast
  have mpn: "mp \<noteq> n" using nb(1) by simp
  have d3: "b_datap (mblks s3 h) = b_datap (mblks st1 h)" for h
    using loop_dblks [OF loop, of _ h] by (simp add: s2_def s1_def heap_fields set_dblk_def)
  have "same_blk s3 st' h \<and> b_cont (mblks st' h) = b_cont (mblks st h)" if "h \<in> set vs" for h
  proof -
    have h: "h \<noteq> n" "h \<noteq> mp" "b_datap (mblks s3 h) \<noteq> n" using nb [of h] that *(1) dist d3 [of h] by (auto simp: al(1))
    have c: "b_cont (mblks s3 h) = b_cont (mblks st h)"
      using pull_loop_conts [OF loop, of h] h(1) by (simp add: s2_def s1_def heap_fields set_dblk_def al(1))
    show ?thesis using h c by (simp add: same_blk_def st' pull_fix_eq [OF mpn] set_mblk_def s4_def set_dblk_def)
  qed
  moreover have "db_align (dblks s3 n) = 0"
    using loop_dblks [OF loop, of n] by (auto simp: s2_def s1_def heap_fields set_dblk_def al(2) new_data_def)
  ultimately have "blocks st' (Some mp) = Some (mp # vs) \<and> msg_data st' (mp # vs) = got @ msg_data s3 vs \<and>
      str_aligned st' mp \<and> bsize st' mp = length got"
    using bs(2) dist *(1,2) mpn
    by (intro pull_finish [of st]) (auto simp: st' pull_fix_eq [OF mpn] set_mblk_def s4_def set_dblk_def)
  with * show ?thesis by auto
qed

lemma run_size_bounds:
  assumes "\<forall>b \<in> set bs. wf_blk st b"
  shows "run_size st bs \<le> length (msg_data st bs)" and "bs = b # cs \<Longrightarrow> bsize st b \<le> run_size st bs"
proof -
  have tw: "sum_list (map f (takeWhile P xs)) \<le> sum_list (map f xs)" for P and f :: "nat \<Rightarrow> nat" and xs
    by (induction xs) auto
  have "run_size st bs \<le> sum_list (map (bsize st) bs)"
    using tw by (cases bs) (simp_all only: run_size_def list.case)
  then show "run_size st bs \<le> length (msg_data st bs)" by (simp add: length_msg_data [OF assms])
  show "bs = b # cs \<Longrightarrow> bsize st b \<le> run_size st bs" by (simp add: run_size_def)
qed

text \<open>What \<^verbatim>\<open>pullupmsg\<close> sets out to move is in the message, and covers its first block.\<close>

lemma pull_plan_len:
  assumes plan: "pull_plan mp len st (mp # cs) = PullLen n" and wf: "\<forall>b \<in> set (mp # cs). wf_blk st b"
  shows "bsize st mp \<le> n" and "n \<le> length (msg_data st (mp # cs))"
    and "len \<le> int n"
proof -
  note r = run_size_bounds [OF wf] 
  have b: "bsize st mp \<le> run_size st (mp # cs)" by (rule r(2)) simp
  have "bsize st mp \<le> n \<and> n \<le> run_size st (mp # cs) \<and> len \<le> int n"
    using plan b by (auto simp: pull_plan_def split: if_splits)
  with r(1) show "bsize st mp \<le> n" and "n \<le> length (msg_data st (mp # cs))" and "len \<le> int n" by auto
qed

section \<open>\<^verbatim>\<open>adjmsg\<close>\<close>

lemma advance_wf: "\<lbrakk>wf_blk st b; k \<le> bsize st b\<rbrakk> \<Longrightarrow> wf_blk (advance b k st) b"
  by (auto simp: wf_blk_def bsize_def set_mblk_def)

lemma trim_tail_runs_off:
  "\<lbrakk>distinct bs; sum_list (map (bsize st) bs) < n\<rbrakk> \<Longrightarrow> trim_tail n bs st = None"
proof (induction n bs st rule: trim_tail.induct)
  case (3 len b bs st)
  define k where "k = min (bsize st b) (Suc len)"
  let ?s = "set_mblk b (\<lambda>m. m\<lparr>b_wptr := b_wptr m - k\<rparr>) st"
  have k: "k = bsize st b" using 3(3) by (auto simp: k_def)
  have "map (bsize ?s) bs = map (bsize st) bs" using 3(2) by (auto simp: bsize_def set_mblk_def)
  then have "sum_list (map (bsize ?s) bs) < Suc len - k" using 3(3) k by (simp only: list.map sum_list.Cons)
  then have "trim_tail (Suc len - k) bs ?s = None" using 3(1) [OF k_def] 3(2) by simp
  then show ?case by (simp add: Let_def k_def)
qed auto

lemma trim_head_data:
  assumes "distinct bs" and "\<forall>b \<in> set bs. wf_blk st b" and "n \<le> length (msg_data st bs)"
  shows "\<exists>st'. trim_head n bs st = Some st' \<and> msg_data st' bs = drop n (msg_data st bs) \<and>
           dblks st' = dblks st \<and> (\<forall>h. b_cont (mblks st' h) = b_cont (mblks st h)) \<and> (\<forall>h. h \<notin> set bs \<longrightarrow> same_blk st st' h)"
  using assms
proof (induction n bs st rule: trim_head.induct)
  case (3 len b bs st)
  define k where "k = min (bsize st b) (Suc len)"
  let ?s = "advance b k st"
  have wf: "wf_blk st b" and kb: "k \<le> bsize st b" using 3 by (auto simp: k_def)
  note lb = length_blk_data [OF wf]
  have same: "\<forall>c \<in> set bs. same_blk st ?s c" using 3(2) by (auto intro: advance_other)
  have md: "msg_data ?s bs = msg_data st bs" by (rule msg_data_cong [OF same])
  have "Suc len - k \<le> length (msg_data ?s bs)" using 3(4) lb unfolding md by (simp add: k_def)
  moreover have "\<forall>c \<in> set bs. wf_blk ?s c" using same 3(3) by (auto dest: same_blkD)
  ultimately obtain st' where st': "trim_head (Suc len - k) bs ?s = Some st'" "msg_data st' bs = drop (Suc len - k) (msg_data ?s bs)"
      "dblks st' = dblks ?s" "\<forall>h. b_cont (mblks st' h) = b_cont (mblks ?s h)" "\<forall>h. h \<notin> set bs \<longrightarrow> same_blk ?s st' h"
    using 3(1) [OF k_def] 3(2) by auto
  have b: "blk_data st' b = drop k (blk_data st b)"
    using same_blkD [of ?s st' b] st'(5) 3(2) advance_data [OF kb] by simp
  have "drop k (blk_data st b) @ drop (Suc len - k) (msg_data st bs) = drop (Suc len) (blk_data st b @ msg_data st bs)"
    using lb by (auto simp: k_def min_def)
  moreover have "h \<noteq> b \<longrightarrow> h \<notin> set bs \<longrightarrow> same_blk st st' h" for h
    using st'(5) advance_other same_blk_trans by blast
  ultimately show ?case
    using st' b md by (auto simp: Let_def k_def [symmetric]) (auto simp: set_mblk_def)
qed (auto simp: same_blk_def)

abbreviation cut :: "nat \<Rightarrow> nat \<Rightarrow> msgheap \<Rightarrow> msgheap" where
  "cut b k \<equiv> set_mblk b (\<lambda>m. m\<lparr>b_wptr := b_wptr m - k\<rparr>)"

lemma cut_data:
  assumes "wf_blk st b" and "k \<le> bsize st b"
  shows "blk_data (cut b k st) b = take (bsize st b - k) (blk_data st b)"
  using assms by (simp add: blk_data_def block_bytes_def bsize_def set_mblk_def wf_blk_def min_absorb1 add.commute)

lemma cut_other: "h \<noteq> b \<Longrightarrow> same_blk st (cut b k st) h"
  by (simp add: same_blk_def set_mblk_def)

lemma trim_tail_data:
  assumes "distinct bs" and "\<forall>b \<in> set bs. wf_blk st b" and "n \<le> length (msg_data st (rev bs))"
  shows "\<exists>st'. trim_tail n bs st = Some st' \<and>
           msg_data st' (rev bs) = take (length (msg_data st (rev bs)) - n) (msg_data st (rev bs)) \<and>
           dblks st' = dblks st \<and> (\<forall>h. b_cont (mblks st' h) = b_cont (mblks st h)) \<and> (\<forall>h. h \<notin> set bs \<longrightarrow> same_blk st st' h)"
  using assms
proof (induction n bs st rule: trim_tail.induct)
  case (3 len b bs st)
  define k where "k = min (bsize st b) (Suc len)"
  let ?s = "cut b k st"
  have wf: "wf_blk st b" and kb: "k \<le> bsize st b" using 3 by (auto simp: k_def)
  note lb = length_blk_data [OF wf]
  have same: "\<forall>c \<in> set (rev bs). same_blk st ?s c" using 3(2) by (auto intro: cut_other)
  have md: "msg_data ?s (rev bs) = msg_data st (rev bs)" by (rule msg_data_cong [OF same])
  have "Suc len - k \<le> length (msg_data ?s (rev bs))" using 3(4) lb unfolding md by (simp add: k_def)
  moreover have "\<forall>c \<in> set bs. wf_blk ?s c" using same 3(3) by (auto dest: same_blkD)
  ultimately obtain st' where st': "trim_tail (Suc len - k) bs ?s = Some st'"
      "msg_data st' (rev bs) = take (length (msg_data ?s (rev bs)) - (Suc len - k)) (msg_data ?s (rev bs))"
      "dblks st' = dblks ?s" "\<forall>h. b_cont (mblks st' h) = b_cont (mblks ?s h)" "\<forall>h. h \<notin> set bs \<longrightarrow> same_blk ?s st' h"
    using 3(1) [OF k_def] 3(2) by auto
  have b: "blk_data st' b = take (bsize st b - k) (blk_data st b)"
    using same_blkD [of ?s st' b] st'(5) 3(2) cut_data [OF wf kb] by simp
  let ?D = "msg_data st (rev bs)"
  have "take (length ?D - (Suc len - k)) ?D @ take (bsize st b - k) (blk_data st b) =
      take (length (?D @ blk_data st b) - Suc len) (?D @ blk_data st b)"
    using lb 3(4) by (auto simp: k_def min_def)
  moreover have "h \<noteq> b \<longrightarrow> h \<notin> set bs \<longrightarrow> same_blk st st' h" for h
    using st'(5) cut_other same_blk_trans by blast
  ultimately show ?case
    using st' b md by (auto simp: Let_def k_def [symmetric]) (auto simp: set_mblk_def)
qed (auto simp: same_blk_def)

end
