(* ===== verification/Strmsg_Props.thy ===== *)
theory Strmsg_Props
  imports Strmsg_Data
begin

text \<open>
  The message heap under any sequence of calls: the step relation over the operations of \<^verbatim>\<open>io/stream.c\<close>, its reachable
  heaps, and the properties of the message blocks.
\<close>

section \<open>Reachable heaps\<close>

definition empty_heap :: "mblk \<Rightarrow> datab \<Rightarrow> msgheap" where
  "empty_heap m d = \<lparr>mblks = (\<lambda>_. m), dblks = (\<lambda>_. d), mdbfreelist = [], msgfreelist = [], brk = 0, reqs = 0, released = [],
                     Strcount = 0\<rparr>"

abbreviation add :: "nat option \<Rightarrow> nat set \<Rightarrow> nat set" where
  "add r H \<equiv> (case r of None \<Rightarrow> H | Some n \<Rightarrow> insert n H)"

text \<open>
  \<open>H\<close> holds the headers handed out and not freed yet. A caller frees, copies and duplicates blocks it holds, a message all
  of whose blocks it holds, and duplicates a block only while its data header has fewer than 255 references. It writes into the buffers of the blocks it holds and
  sets their pointers, types and flags. \<^verbatim>\<open>pullupmsg\<close> frees the blocks it empties; a call after which the message has no end
  (\<open>pullupmsg_empty_loops\<close>) is no step.
\<close>

inductive msg_step :: "nat set \<Rightarrow> msgheap \<Rightarrow> nat set \<Rightarrow> msgheap \<Rightarrow> bool" where
  alloc: "allocb mem sz st = (r, st') \<Longrightarrow> msg_step H st (add r H) st'"
| esb: "esballoc mem base fr st = (r, st') \<Longrightarrow> msg_step H st (add r H) st'"
| dup: "\<lbrakk>b \<in> H; db_ref (data_of st b) < 255; dupb mem b st = (r, st')\<rbrakk> \<Longrightarrow> msg_step H st (add r H) st'"
| copy: "\<lbrakk>b \<in> H; copyb mem outside b st = (r, st')\<rbrakk> \<Longrightarrow> msg_step H st (add r H) st'"
| client: "\<lbrakk>b \<in> H; length bs = length (db_bytes (data_of st b))\<rbrakk> \<Longrightarrow>
    msg_step H st H (set_mblk b (\<lambda>m. m\<lparr>b_rptr := r, b_wptr := w, b_band := bd, b_flag := fl\<rparr>)
                       (set_dblk (b_datap (mblks st b)) (\<lambda>d. d\<lparr>db_bytes := bs, db_type := ty\<rparr>) st))"
| free: "b \<in> H \<Longrightarrow> msg_step H st (H - {b}) (freeb b st)"
| free_msg: "\<lbrakk>blocks st p = Some bs; set bs \<subseteq> H; freemsg p st = Some st'\<rbrakk> \<Longrightarrow> msg_step H st (H - set bs) st'"
| link: "linkb mp bp st = Some st' \<Longrightarrow> msg_step H st H st'"
| unlink: "unlinkb bp st = (r, st') \<Longrightarrow> msg_step H st H st'"
| remove: "rmvb mp bp st = Some (r, st') \<Longrightarrow> msg_step H st H st'"
| adjust: "adjmsg mp len st = Some (r, st') \<Longrightarrow> msg_step H st H st'"
| pull: "\<lbrakk>blocks st (Some mp) = Some (mp # us @ vs); set (mp # us @ vs) \<subseteq> H; pullupmsg mem mp len st = Some (True, st');
          b_cont (mblks st' mp) = first_of vs\<rbrakk> \<Longrightarrow> msg_step H st (H - set us) st'"
| pull_fails: "\<lbrakk>blocks st (Some mp) = Some bs; set bs \<subseteq> H; pullupmsg mem mp len st = Some (False, st')\<rbrakk> \<Longrightarrow> msg_step H st H st'"

inductive msg_reach :: "nat set \<Rightarrow> msgheap \<Rightarrow> bool" where
  init: "msg_reach {} (empty_heap m d)"
| step: "\<lbrakk>msg_reach H st; msg_step H st H' st'\<rbrakk> \<Longrightarrow> msg_reach H' st'"

section \<open>Every step keeps the heap consistent\<close>

lemma empty_ok: "msgs_ok {} {} (empty_heap m d)"
  by (simp add: msgs_ok_def empty_heap_def mem_in_use_def)

lemma linkb_frame: "linkb mp bp st = Some st' \<Longrightarrow> same_frame T H st st'"
  by (auto simp: linkb_def split: option.splits intro!: set_mblk_frame)

lemma unlinkb_frame: "unlinkb bp st = (r, st') \<Longrightarrow> same_frame T H st st'"
  by (auto simp: unlinkb_def intro!: set_mblk_frame)

lemma rmvb_loop_frame: "rmvb_loop mp bp lastp bs st = (r, st') \<Longrightarrow> same_frame T H st st'"
proof (induction mp bp lastp bs st rule: rmvb_loop.induct)
  case (1 mp bp lastp st)
  then show ?case by (simp add: same_frame_def)
next
  case (2 mp bp lastp tmp bs st)
  then show ?case
    by (auto split: if_splits option.splits intro!: same_frame_trans [OF set_mblk_frame set_mblk_frame] set_mblk_frame)
qed

lemma advance_frame: "same_frame T H st (advance b k st)"
  by (rule set_mblk_frame) simp

lemma cut_frame: "same_frame T H st (cut b k st)"
  by (rule set_mblk_frame) simp

lemma trim_head_frame: "trim_head n bs st = Some st' \<Longrightarrow> same_frame T H st st'"
proof (induction n bs st rule: trim_head.induct)
  case (3 len b bs st)
  then show ?case by (auto simp: Let_def intro: same_frame_trans [OF advance_frame])
qed (auto simp: same_frame_def)

lemma trim_tail_frame: "trim_tail n bs st = Some st' \<Longrightarrow> same_frame T H st st'"
proof (induction n bs st rule: trim_tail.induct)
  case (3 len b bs st)
  then show ?case by (auto simp: Let_def intro: same_frame_trans [OF cut_frame])
qed (auto simp: same_frame_def)

lemma adjmsg_frame: "adjmsg mp len st = Some (r, st') \<Longrightarrow> same_frame T H st st'"
  by (auto simp: adjmsg_def Let_def split: option.splits if_splits dest: trim_head_frame trim_tail_frame)
     (simp_all add: same_frame_def)

lemma first_of_split:
  assumes "us @ vs = us' @ vs'" and "first_of vs = first_of vs'" and "distinct (us @ vs)"
  shows "us = us'"
proof -
  have *: "ws = []" if "xs = ws @ ys" "first_of xs = first_of ys" "distinct xs" for xs ys ws :: "nat list"
  proof (cases ws)
    case (Cons w ws')
    with that(1,2) have "first_of ys = Some w" by (simp add: first_of_def)
    then have "w \<in> set ys" by (cases ys) (simp_all add: first_of_def)
    with that(1,3) Cons show ?thesis by simp
  qed
  have d: "distinct vs" "distinct vs'" using assms(3) assms(3) [unfolded assms(1)] by simp_all
  from assms(1) obtain ws where "us' = us @ ws \<and> vs = ws @ vs' \<or> us = us' @ ws \<and> vs' = ws @ vs"
    by (auto simp: append_eq_append_conv2)
  then show ?thesis
  proof
    assume w: "us' = us @ ws \<and> vs = ws @ vs'"
    then have "ws = []" using * [of vs ws vs'] assms(2) d(1) by blast
    with w show ?thesis by simp
  next
    assume w: "us = us' @ ws \<and> vs' = ws @ vs"
    then have "ws = []" using * [of vs' ws vs] assms(2) [symmetric] d(2) by blast
    with w show ?thesis by simp
  qed
qed

lemma pull_step_ok:
  assumes ok: "msgs_ok T H st" and bs: "blocks st (Some mp) = Some (mp # us @ vs)" "set (mp # us @ vs) \<subseteq> H"
    and p: "pullupmsg mem mp len st = Some (True, st')" and c: "b_cont (mblks st' mp) = first_of vs"
  shows "\<exists>T. msgs_ok T (H - set us) st'"
proof -
  have d: "distinct (mp # us @ vs)" using bs(1) chain_distinct blocks_chain by metis
  obtain T us' vs' where *: "us @ vs = us' @ vs'" "msgs_ok T (H - set us') st'"
      "b_cont (mblks st' mp) = first_of vs' \<or> us' = [] \<and> b_cont (mblks st' mp) = Some mp"
    using pullupmsg_ok [OF ok bs p] by (auto simp: pulled_def)
  have "first_of vs \<noteq> Some mp" using d by (cases vs) (auto simp: first_of_def)
  then have "us = us'" using first_of_split [OF *(1)] *(3) c d by auto
  with *(2) show ?thesis by blast
qed

lemma msg_step_ok: "\<lbrakk>msg_step H st H' st'; msgs_ok T H st\<rbrakk> \<Longrightarrow> \<exists>T. msgs_ok T H' st'"
proof (induction rule: msg_step.induct)
  case (alloc mem sz st r st' H)
  then show ?case using allocb_ok [of T H st mem sz] by (cases r) auto
next
  case (esb mem base fr st r st' H)
  then show ?case using esballoc_ok [of T H st mem base fr] by (cases r) auto
next
  case (dup b H st mem r st')
  then show ?case using dupb_ok [of T H st b mem] by (cases r) auto
next
  case (copy b H mem outside st r st')
  then show ?case using copyb_ok [of T H st mem outside b] by (cases r) auto
next
  case (client b H bs st r w bd fl ty)
  then have "same_frame T H st (set_dblk (b_datap (mblks st b)) (\<lambda>d. d\<lparr>db_bytes := bs, db_type := ty\<rparr>) st)"
    by (auto simp: same_frame_def set_dblk_def buf_mem_def)
  note f = this
  show ?case
    by (rule exI [of _ T], rule msgs_ok_frame [OF client.prems same_frame_trans [OF f set_mblk_frame]]) simp
next
  case (free b H st)
  then show ?case using freeb_ok by blast
next
  case (free_msg st p bs H st')
  then show ?case using freemsg_ok [of T H st p bs] by auto
next
  case (link mp bp st st' H)
  then show ?case using msgs_ok_frame [OF link.prems linkb_frame] by blast
next
  case (unlink bp st r st' H)
  then show ?case using msgs_ok_frame [OF unlink.prems unlinkb_frame] by blast
next
  case (remove mp bp st r st' H)
  then have "\<exists>bs. rmvb_loop mp bp None bs st = (r, st')" by (auto simp: rmvb_def)
  then show ?case using msgs_ok_frame [OF remove.prems rmvb_loop_frame] by blast
next
  case (adjust mp len st r st' H)
  then show ?case using msgs_ok_frame [OF adjust.prems adjmsg_frame] by blast
next
  case (pull st mp us vs H mem len st')
  then show ?case using pull_step_ok by blast
next
  case (pull_fails st mp bs H mem len st')
  then obtain cs where bs: "bs = mp # cs" by (auto simp: blocks_Cons)
  with pull_fails show ?case using pullupmsg_ok [of T H st mp cs mem len False st'] by simp
qed

lemma reach_ok: "msg_reach H st \<Longrightarrow> \<exists>T. msgs_ok T H st"
proof (induction rule: msg_reach.induct)
  case (init m d)
  then show ?case using empty_ok by blast
next
  case (step H st H' st')
  then show ?case using msg_step_ok by blast
qed

section \<open>Properties\<close>

definition msgs_consistent :: "nat set \<Rightarrow> msgheap \<Rightarrow> bool" where
  "msgs_consistent H st \<longleftrightarrow>
     (\<forall>h \<in> H. db_ref (data_of st h) = card {k \<in> H. b_datap (mblks st k) = b_datap (mblks st h)}) \<and>
     (\<forall>h \<in> H. h \<notin> set (mdbfreelist st) \<union> set (msgfreelist st) \<and> b_datap (mblks st h) \<notin> set (mdbfreelist st)) \<and>
     distinct (mdbfreelist st) \<and> distinct (msgfreelist st) \<and>
     (\<forall>a < brk st. a \<in> H \<union> set (mdbfreelist st) \<union> set (msgfreelist st) \<or> (\<exists>h \<in> H. b_datap (mblks st h) = a))"

lemma msgs_ok_consistent:
  assumes ok: "msgs_ok T H st"
  shows "msgs_consistent H st"
proof -
  note d = msgs_okD [OF ok]
  have "db_ref (data_of st h) = card {k \<in> H. b_datap (mblks st k) = b_datap (mblks st h)}" if "h \<in> H" for h
    using header_refs(3) [OF ok that refl] by (simp add: refs_def)
  moreover have "h \<notin> set (mdbfreelist st) \<union> set (msgfreelist st) \<and> b_datap (mblks st h) \<notin> set (mdbfreelist st)" if "h \<in> H" for h
    using header_refs(2) [OF ok that refl] that unfolding d(4,6) by auto
  moreover have "a \<in> H \<union> set (mdbfreelist st) \<union> set (msgfreelist st) \<or> (\<exists>h \<in> H. b_datap (mblks st h) = a)" if "a < brk st" for a
    using that unfolding d(4,6) by (auto simp: refs_def)
  ultimately show ?thesis unfolding msgs_consistent_def using d(3,5) by blast
qed

text \<open>C5: In every heap reached from the empty one by the calls of \<open>msg_step\<close> (\<^verbatim>\<open>dupb\<close> only of a data header with fewer than 255
  references, since the count is an \<^verbatim>\<open>unsigned char\<close>, see \<open>dupb_wraps\<close>; a \<^verbatim>\<open>pullupmsg\<close> that succeeds only when it leaves the message
  with an end, see \<open>pullupmsg_empty_loops\<close>) the reference count of a data header is the number of message headers in use that point to it, no
  header or data header in use is on a free list, the free lists have no duplicates, and every header that is not in use is on
  its free list: nothing is freed twice, freed early or lost; \<^verbatim>\<open>Strcount\<close> is the memory of all headers and buffers.\<close>

theorem strmsg_consistent:
  assumes "msg_reach H st"
  shows "msgs_consistent H st \<and> (\<exists>T. set (mdbfreelist st) \<subseteq> T \<and> T \<inter> set (msgfreelist st) = {} \<and> Strcount st = mem_in_use T H st)"
proof -
  obtain T where ok: "msgs_ok T H st" using reach_ok [OF assms] by blast
  then have "set (mdbfreelist st) \<subseteq> T" "T \<inter> set (msgfreelist st) = {}" "Strcount st = mem_in_use T H st"
    using msgs_okD [OF ok] by auto
  with msgs_ok_consistent [OF ok] show ?thesis by blast
qed

text \<open>\<^verbatim>\<open>freeb\<close> gives a buffer back exactly when the block is the last one that refers to it, to where the buffer came from, and
  leaves links and data of every other block in use as they were.\<close>

theorem freeb_releases_last:
  assumes "msg_reach H st" and "h \<in> H"
  shows "released (freeb h st) = released st @
           (if (\<forall>k \<in> H. b_datap (mblks st k) = b_datap (mblks st h) \<longrightarrow> k = h) \<and> db_sep (data_of st h) \<and>
               db_frtn (data_of st h) \<noteq> Some False
            then [(b_datap (mblks st h), db_frtn (data_of st h) \<noteq> None)] else []) \<and>
         (\<forall>k \<in> H - {h}. b_cont (mblks (freeb h st) k) = b_cont (mblks st k) \<and> blk_data (freeb h st) k = blk_data st k)"
proof -
  obtain T where ok: "msgs_ok T H st" using reach_ok [OF assms(1)] by blast
  define t where "t = b_datap (mblks st h)"
  note r = header_refs [OF ok assms(2) t_def] and last = last_ref_iff [OF ok assms(2) t_def]
  have sole: "(\<forall>k \<in> H. b_datap (mblks st k) = t \<longrightarrow> k = h) \<longleftrightarrow> last_ref st h"
    using last r(2) by (auto simp: refs_def)
  have rel: "released (release_buf t s) = released s @
      (if db_sep (dblks s t) \<and> db_frtn (dblks s t) \<noteq> Some False then [(t, db_frtn (dblks s t) \<noteq> None)] else [])" for s
    by (auto simp: release_buf_def split: option.split)
  have hd: "released (drop_ref t (drop_header h s)) = released s" for s
    by (simp add: drop_ref_def drop_header_def FREEMSGBLOCK_def FREEMDBBLOCK_def set_dblk_def)
  have dd: "released (drop_data t s) = released (release_buf t s)" for s
    by (simp add: drop_data_def Let_def FREEMDBBLOCK_def set_dblk_def)
  have keep: "db_sep (dblks (drop_ref t (drop_header h st)) t) = db_sep (dblks st t)"
    "db_frtn (dblks (drop_ref t (drop_header h st)) t) = db_frtn (dblks st t)"
    "db_ref (dblks (drop_ref t (drop_header h st)) t) = db_ref (dblks st t) - 1"
    using drop_mod [OF r(5,4)] by (simp_all add: heap_fields)
  have "db_ref (dblks st t) - 1 > 0 \<longleftrightarrow> \<not> last_ref st h" using r(5) by (auto simp: last_ref_def t_def)
  then have "released (freeb h st) = released st @
      (if last_ref st h \<and> db_sep (dblks st t) \<and> db_frtn (dblks st t) \<noteq> Some False then [(t, db_frtn (dblks st t) \<noteq> None)] else [])"
    unfolding freeb_def Let_def t_def [symmetric] keep by (simp add: dd rel hd keep)
  then show ?thesis unfolding t_def [symmetric] sole using same_blkD [OF freeb_same] by simp
qed

text \<open>C13: In the heaps of \<open>msg_reach\<close> a \<^verbatim>\<open>pullupmsg\<close> that succeeds, on a message in use with its pointers in order and with something to
  pull up (a positive length, a first block that is not empty, or for -1 some byte in the first run of blocks; see
  \<open>pullupmsg_empty_loops\<close> for what happens otherwise), keeps the data of the message byte for byte, puts at least \<open>len\<close>
  bytes (for -1 the whole run of blocks of the first block's type) into the first block, aligned, and drops from the message
  only blocks it has emptied.\<close>

theorem pullupmsg_keeps_data:
  assumes "msg_reach H st" and "blocks st (Some mp) = Some bs" and "set bs \<subseteq> H" and "\<forall>b \<in> set bs. wf_blk st b"
    and "pullupmsg mem mp len st = Some (True, st')" and "0 < len \<or> 0 < bsize st mp \<or> len = -1 \<and> 0 < run_size st bs"
  shows "\<exists>us vs. bs = mp # us @ vs \<and> blocks st' (Some mp) = Some (mp # vs) \<and> msg_data st' (mp # vs) = msg_data st bs \<and>
           str_aligned st' mp \<and> len \<le> int (bsize st' mp) \<and> (len = -1 \<longrightarrow> bsize st' mp = run_size st bs)"
proof -
  obtain T where ok: "msgs_ok T H st" using reach_ok [OF assms(1)] by blast
  obtain cs where bs: "bs = mp # cs" using assms(2) by (auto simp: blocks_Cons)
  have ch: "chain (mblks st) (Some mp) (mp # cs)" using assms(2) by (simp add: blocks_chain bs)
  have H: "set (mp # cs) \<subseteq> H" and wf: "\<forall>b \<in> set (mp # cs). wf_blk st b" using assms(3,4) bs by simp_all
  have run1: "cs = [] \<Longrightarrow> run_size st (mp # cs) = bsize st mp" by (simp add: run_size_def)
  show ?thesis
  proof (cases "pull_plan mp len st (mp # cs)")
    case PullDone
    then have st': "st' = st" and al: "str_aligned st mp" "len = -1 \<and> cs = [] \<or> len \<noteq> -1 \<and> len \<le> int (bsize st mp)"
      using assms(2,5) bs ch by (cases cs; auto simp: pullupmsg_def pull_plan_def split: if_splits)+
    then show ?thesis using assms(2) bs run1 by (intro exI [of _ "[]"] exI [of _ cs]) auto
  next
    case PullFail
    then show ?thesis using assms(2,5) bs by (simp add: pullupmsg_def)
  next
    case (PullLen n)
    note n = pull_plan_len [OF PullLen wf]
    have one: "len = -1 \<Longrightarrow> n = run_size st (mp # cs)"
      using PullLen run1 ch by (cases cs) (auto simp: pull_plan_def split: if_splits)
    then have pos: "0 < n" using n(1,3) assms(6) bs by auto
    have "if db_ref (data_of st mp) > 1 then pull_shared mem mp n (mp # cs) st = (True, st')
          else pull_own mem mp n (mp # cs) st = (True, st')"
      using assms(2,5) bs PullLen by (auto simp: pullupmsg_def split: if_splits)
    then have "\<exists>us vs. cs = us @ vs \<and> blocks st' (Some mp) = Some (mp # vs) \<and>
        msg_data st' (mp # vs) = msg_data st (mp # cs) \<and> str_aligned st' mp \<and> bsize st' mp = n"
      using pull_shared_data [OF ok H ch wf pos n(1,2)] pull_own_data [OF ok H ch wf pos n(1,2)]
      by (cases "db_ref (data_of st mp) > 1") metis+
    then obtain us vs where "cs = us @ vs" "blocks st' (Some mp) = Some (mp # vs)" "msg_data st' (mp # vs) = msg_data st (mp # cs)"
        "str_aligned st' mp" "bsize st' mp = n"
      by blast
    then show ?thesis using n(3) one bs by (intro exI [of _ us] exI [of _ vs]) auto
  qed
qed

text \<open>C34: For every \<^verbatim>\<open>int\<close> but the smallest, \<^verbatim>\<open>adjmsg\<close> takes exactly the bytes asked for off the head or the tail of a message whose
  pointers are in order and returns 1, or, when the run of blocks of one type there is shorter, returns 0 and changes nothing. For the
  smallest \<^verbatim>\<open>int\<close>, whose negation is itself, it does not refuse but walks off the front of the message, whatever is in it (a message
  cannot have 2147483648 bytes).\<close>

theorem adjmsg_exact:
  assumes "blocks st (Some mp) = Some bs" and "\<forall>b \<in> set bs. wf_blk st b" and "- 2147483648 \<le> len" and "len \<le> 2147483647"
    and "length (msg_data st bs) < 2147483648"
  shows "if len = - 2147483648 then adjmsg mp len st = None
         else \<exists>r st'. adjmsg mp len st = Some (r, st') \<and>
           (r \<longleftrightarrow> \<bar>len\<bar> \<le> int (run_size st (if len \<ge> 0 then bs else rev bs))) \<and> (\<not> r \<longrightarrow> st' = st) \<and>
           (r \<longrightarrow> blocks st' (Some mp) = Some bs \<and> dblks st' = dblks st \<and>
              msg_data st' bs =
                (if len \<ge> 0 then drop (nat len) (msg_data st bs) else take (length (msg_data st bs) - nat (- len)) (msg_data st bs)))"
proof -
  have dist: "distinct bs" using assms(1) chain_distinct blocks_chain by metis
  let ?n = "nat \<bar>len\<bar>" and ?run = "run_size st (if len \<ge> 0 then bs else rev bs)"
  consider (min) "len = - 2147483648" | (less) "len \<noteq> - 2147483648" "?run < ?n" | (trim) "len \<noteq> - 2147483648" "\<not> ?run < ?n" by blast
  then show ?thesis
  proof cases
    case min
    have "trim_tail 2147483648 (rev bs) st = None"
      using dist assms(5) by (intro trim_tail_runs_off) (simp_all add: length_msg_data [OF assms(2)] rev_map [symmetric])
    then show ?thesis using min assms(1) by (simp add: adjmsg_def xmsgsize_def to_long_def Let_def)
  next
    case less
    then have m: "to_long (- len) = - len" using assms(3,4) by (intro to_long_id) auto
    have "adjmsg mp len st = Some (False, st)"
      using less m assms(1) by (auto simp: adjmsg_def xmsgsize_def Let_def split: if_splits)
    with less show ?thesis by auto
  next
    case trim
    note False = trim(2)
    have m: "to_long (- len) = - len" "len \<ge> 0 \<Longrightarrow> len mod 4294967296 = len" "len < 0 \<Longrightarrow> - len mod 4294967296 = - len"
      using assms(3,4) trim(1) by (auto intro!: to_long_id)
    have "run_size st bs \<le> length (msg_data st bs)" "run_size st (rev bs) \<le> length (msg_data st bs)"
      using run_size_bounds(1) [OF assms(2)] run_size_bounds(1) [of "rev bs" st] assms(2) length_msg_data [of bs st]
        length_msg_data [of "rev bs" st]
      by (auto simp: rev_map [symmetric])
    with False have n: "?n \<le> length (msg_data st bs)" by (auto split: if_splits)
    have "\<exists>st'. (if len \<ge> 0 then trim_head ?n bs st else trim_tail ?n (rev bs) st) = Some st' \<and> dblks st' = dblks st \<and>
        (\<forall>h. b_cont (mblks st' h) = b_cont (mblks st h)) \<and> msg_data st' bs =
          (if len \<ge> 0 then drop ?n (msg_data st bs) else take (length (msg_data st bs) - ?n) (msg_data st bs))"
      using trim_head_data [OF dist assms(2) n] trim_tail_data [of "rev bs" st ?n] dist assms(2) n by auto
    then obtain st' where st': "(if len \<ge> 0 then trim_head ?n bs st else trim_tail ?n (rev bs) st) = Some st'" "dblks st' = dblks st"
        "\<forall>h. b_cont (mblks st' h) = b_cont (mblks st h)" "msg_data st' bs =
          (if len \<ge> 0 then drop ?n (msg_data st bs) else take (length (msg_data st bs) - ?n) (msg_data st bs))" by blast
    have "adjmsg mp len st = Some (True, st')"
      using False st'(1) assms(1) m by (auto simp: adjmsg_def xmsgsize_def Let_def split: if_splits)
    moreover have "blocks st' (Some mp) = Some bs" using assms(1) chain_cong st'(3) by (simp add: blocks_chain)
    ultimately show ?thesis using trim st'(2,4) unfolding if_not_P [OF trim(1)] by (intro exI [of _ True] exI [of _ st']) auto
  qed
qed

section \<open>Witnesses\<close>

text \<open>Two blocks of a message, the second with a header duplicated.\<close>

definition blank_mblk :: mblk where "blank_mblk = \<lparr>b_cont = None, b_rptr = 0, b_wptr = 0, b_datap = 0, b_band = 0, b_flag = 0\<rparr>"

definition blank_datab :: datab where
  "blank_datab = \<lparr>db_bytes = [], db_align = 0, db_sep = False, db_frtn = None, db_ref = 0, db_type = 0, db_iswhat = MDBBLK,
                  db_size = 0, db_msgaddr = 0\<rparr>"

definition heap1 :: msgheap where "heap1 = snd (allocb (\<lambda>_. True) 100 (empty_heap blank_mblk blank_datab))"
definition heap2 :: msgheap where "heap2 = snd (dupb (\<lambda>_. True) 0 heap1)"

lemma heap1_reach: "msg_reach {0} heap1" and heap1_ref: "db_ref (data_of heap1 0) = 1" "db_sep (data_of heap1 0)" "db_frtn (data_of heap1 0) = None"
proof -
  have a: "allocb (\<lambda>_. True) 100 (empty_heap blank_mblk blank_datab) = (Some 0, heap1)"
    by (simp add: heap1_def allocb_eq new_mdb_def empty_heap_def FASTBUF_def)
  show "msg_reach {0} heap1" using msg_reach.step [OF msg_reach.init msg_step.alloc [OF a]] by simp
  show "db_ref (data_of heap1 0) = 1" "db_sep (data_of heap1 0)" "db_frtn (data_of heap1 0) = None"
    using allocb_Some [OF a] by (simp_all add: new_header_def new_data_def FASTBUF_def)
qed

lemma heap2_reach: "msg_reach {0, 1} heap2"
proof -
  have "dupb (\<lambda>_. True) 0 heap1 = (Some 1, heap2)"
    by (simp add: heap2_def dupb_def new_msg_def heap1_def allocb_eq new_mdb_def empty_heap_def FASTBUF_def fill_def)
  from msg_reach.step [OF heap1_reach msg_step.dup [OF _ _ this]] heap1_ref(1)
  show ?thesis by (simp add: insert_commute)
qed

theorem strmsg_consistent_witness: "msg_reach {0, 1} heap2 \<and> msgs_consistent {0, 1} heap2"
  using strmsg_consistent [OF heap2_reach] heap2_reach by blast

theorem freeb_releases_last_witness: "released (freeb 0 heap1) = released heap1 @ [(b_datap (mblks heap1 0), False)]"
  using freeb_releases_last [OF heap1_reach, of 0] heap1_ref by simp

text \<open>A message of two blocks with caller's buffers, the bytes 1 2 and 3.\<close>

definition heap3 :: msgheap where
  "heap3 = snd (esballoc (\<lambda>_. True) (Some ([1, 2], 1)) (Some True) (empty_heap blank_mblk blank_datab))"
definition heap4 :: msgheap where "heap4 = snd (esballoc (\<lambda>_. True) (Some ([3], 0)) (Some True) heap3)"

definition filled :: "nat \<Rightarrow> nat \<Rightarrow> msgheap \<Rightarrow> msgheap" where
  "filled b n st = set_mblk b (\<lambda>m. m\<lparr>b_rptr := 0, b_wptr := n, b_band := 0, b_flag := 0\<rparr>)
     (set_dblk (b_datap (mblks st b)) (\<lambda>d. d\<lparr>db_bytes := db_bytes (data_of st b), db_type := 0\<rparr>) st)"

definition heap5 :: msgheap where "heap5 = set_mblk 0 (\<lambda>m. m\<lparr>b_cont := Some 1\<rparr>) (filled 1 1 (filled 0 2 heap4))"

lemmas heap_defs = heap4_def heap3_def esballoc_def allocb_eq new_mdb_def empty_heap_def FASTBUF_def fill_def set_dblk_def set_mblk_def
  filled_def new_header_def new_data_def M_DATA_def

lemma heap4_reach: "msg_reach {0, 1} heap4"
proof -
  have "esballoc (\<lambda>_. True) (Some ([1, 2], 1)) (Some True) (empty_heap blank_mblk blank_datab) = (Some 0, heap3)"
    and b: "esballoc (\<lambda>_. True) (Some ([3], 0)) (Some True) heap3 = (Some 1, heap4)"
    by (simp_all add: heap_defs)
  from msg_reach.step [OF msg_reach.init msg_step.esb [OF this(1)]] have "msg_reach {0} heap3" by simp
  from msg_reach.step [OF this msg_step.esb [OF b]] show ?thesis by (simp add: insert_commute)
qed

lemma heap5_fields:
  "mblks heap5 0 = \<lparr>b_cont = Some 1, b_rptr = 0, b_wptr = 2, b_datap = 0, b_band = 0, b_flag = 0\<rparr>"
  "mblks heap5 (Suc 0) = \<lparr>b_cont = None, b_rptr = 0, b_wptr = 1, b_datap = 1, b_band = 0, b_flag = 0\<rparr>"
  "db_bytes (dblks heap5 0) = [1, 2]" "db_bytes (dblks heap5 (Suc 0)) = [3]" "db_ref (dblks heap5 0) = 1"
  "db_type (dblks heap5 0) = 0" "db_type (dblks heap5 (Suc 0)) = 0"
  by (simp_all add: heap5_def heap_defs)

lemma heap5_reach: "msg_reach {0, 1} heap5"
proof -
  have f: "msg_reach {0, 1} (filled b n st)" if "msg_reach {0, 1} st" "b \<in> {0, 1}" for b n st
    unfolding filled_def by (rule msg_reach.step [OF that(1) msg_step.client [OF that(2)]]) simp
  let ?s = "filled 1 1 (filled 0 2 heap4)"
  have "chain (mblks ?s) (Some 0) [0]" by (simp add: heap_defs)
  then have "blocks ?s (Some 0) = Some [0]" unfolding blocks_chain .
  then have "linkb 0 1 ?s = Some heap5" by (simp add: linkb_def heap5_def)
  from msg_reach.step [OF f [OF f [OF heap4_reach]] msg_step.link [OF this]] show ?thesis by simp
qed

lemma heap5_blocks: "blocks heap5 (Some 0) = Some [0, 1]"
  unfolding blocks_chain by (simp add: heap5_fields)

lemma heap5_wf: "\<forall>b \<in> set [0, 1]. wf_blk heap5 b"
  by (simp add: wf_blk_def heap5_fields)

lemma heap5_run: "run_size heap5 [0, 1] = 3" "run_size heap5 [1, 0] = 3" "msg_data heap5 [0, 1] = [1, 2, 3]"
  by (simp_all add: run_size_def bsize_def heap5_fields blk_data_def block_bytes_def)

theorem pullupmsg_keeps_data_witness:
  "\<exists>st' vs. pullupmsg (\<lambda>_. True) 0 (-1) heap5 = Some (True, st') \<and> blocks st' (Some 0) = Some (0 # vs) \<and>
     msg_data st' (0 # vs) = [1, 2, 3] \<and> bsize st' 0 = 3"
proof -
  have "pull_plan 0 (-1) heap5 [0, 1] = PullLen 3" by (simp add: pull_plan_def heap5_fields heap5_run [unfolded One_nat_def])
  then have "\<exists>st'. pullupmsg (\<lambda>_. True) 0 (-1) heap5 = Some (True, st')"
    by (auto simp: pullupmsg_def heap5_blocks heap5_fields pull_own_def Let_def split: prod.split)
  then obtain st' where p: "pullupmsg (\<lambda>_. True) 0 (-1) heap5 = Some (True, st')" ..
  from pullupmsg_keeps_data [OF heap5_reach heap5_blocks _ heap5_wf p] heap5_run p show ?thesis by auto
qed

theorem adjmsg_exact_witness: "\<exists>st'. adjmsg 0 (-2) heap5 = Some (True, st') \<and> msg_data st' [0, 1] = [1]"
proof -
  have len: "length (msg_data heap5 [0, 1]) < 2147483648" by (simp only: heap5_run(3) length_Cons list.size)
  obtain r st' where a: "adjmsg 0 (-2) heap5 = Some (r, st')" and r: "r"
    and d: "msg_data st' [0, 1] = take (length (msg_data heap5 [0, 1]) - 2) (msg_data heap5 [0, 1])"
    using adjmsg_exact [OF heap5_blocks heap5_wf, of "-2"] len heap5_run(2) by auto
  from d have "msg_data st' [0, 1] = [1]" unfolding heap5_run(3) by (simp only: length_Cons list.size) simp
  with a r show ?thesis by auto
qed

section \<open>Observations\<close>

text \<open>The reference count is an \<^verbatim>\<open>unsigned char\<close> and \<^verbatim>\<open>dupb\<close> does not look at it: the 256th reference makes it 0.\<close>

lemma dupb_wraps:
  assumes "dupb mem b st = (Some n, st')" and "db_ref (data_of st b) = 255" and "n \<noteq> b"
  shows "db_ref (data_of st' b) = 0 \<and> b_datap (mblks st' n) = b_datap (mblks st' b)"
  using assms
  by (auto simp: dupb_def new_msg_def set_dblk_def split: prod.splits option.splits list.splits if_splits)

text \<open>
  When the blocks in front of a message whose first data block is shared are empty, \<^verbatim>\<open>pullupmsg\<close> with length -1 has nothing to
  copy: its loop stops at the first block, which becomes its own continuation, and it returns 1. The message has no end then.
\<close>

lemma chain_loops: "b_cont (m p) = Some p \<Longrightarrow> \<not> chain m (Some p) bs"
  by (induction bs) auto

lemma pullupmsg_empty_loops:
  assumes "blocks st (Some mp) = Some (mp # c # cs)" and "run_size st (mp # c # cs) = 0" and "db_ref (data_of st mp) > 1"
    and "allocb mem 0 st = (Some n, st1)"
  shows "\<exists>st'. pullupmsg mem mp (-1) st = Some (True, st') \<and> b_cont (mblks st' mp) = Some mp \<and> blocks st' (Some mp) = None"
proof -
  have "pull_plan mp (-1) st (mp # c # cs) = PullLen 0"
    using assms(1,2) by (simp add: pull_plan_def blocks_chain)
  then have "\<exists>st'. pullupmsg mem mp (-1) st = Some (True, st') \<and> b_cont (mblks st' mp) = Some mp"
    using assms(1,3,4) by (simp add: pullupmsg_def pull_shared_def pull_loop_Cons Let_def set_mblk_def)
  moreover have "blocks st' (Some mp) = None" if "b_cont (mblks st' mp) = Some mp" for st'
    using chain_loops [of "mblks st'" mp] that by (cases "blocks st' (Some mp)") (simp_all add: blocks_chain)
  ultimately show ?thesis by blast
qed

text \<open>
  \<^verbatim>\<open>copyb\<close> copies the data when the old buffer is aligned. A buffer that came with \<^verbatim>\<open>esballoc\<close> need not be, and then the copy has the
  bytes in the wrong place.
\<close>

lemma copyb_copies:
  assumes "copyb mem outside b st = (Some n, st')" and "wf_blk st b" and "db_align (data_of st b) mod 4 = 0"
    and "b_rptr (mblks st b) < b_wptr (mblks st b)"
  shows "blk_data st' n = blk_data st b"
proof -
  define d r w where "d = data_of st b" and "r = b_rptr (mblks st b)" and "w = b_wptr (mblks st b)"
  obtain st1 where al: "allocb mem (int (length (db_bytes d))) st = (Some n, st1)"
    using assms(1) by (auto simp: copyb_def Let_def d_def split: prod.splits option.splits)
  note a = allocb_Some [OF al]
  obtain k where k: "db_bytes (dblks st1 n) = replicate k 0" "length (db_bytes d) \<le> k"
    using a(2) by (auto simp: new_data_def)
  have st': "b_rptr (mblks st' n) = r \<and> b_wptr (mblks st' n) = w \<and> b_datap (mblks st' n) = n \<and>
      db_bytes (dblks st' n) = copy_bytes outside d r w (replicate k 0)"
    using assms(1) al a(1) k(1) by (auto simp: copyb_def Let_def d_def r_def w_def set_mblk_def set_dblk_def new_header_def)
  have wf: "r \<le> w" "w \<le> length (db_bytes d)" using assms(2) by (simp_all add: wf_blk_def d_def r_def w_def)
  have s: "straln (db_align d + r) = db_align d + straln r"
    using assms(3) by (simp add: straln_def d_def mod_add_left_eq [symmetric, of "db_align (data_of st b)"])
  have lo: "straln r \<le> r" "w \<le> straln (w + 3)" by (simp_all add: straln_def)
  have "copy_bytes outside d r w (replicate k 0) ! j = db_bytes d ! j" if "r \<le> j" "j < w" for j
    using that wf lo k(2) by (simp add: copy_bytes_def s)
  then have "take (w - r) (drop r (copy_bytes outside d r w (replicate k 0))) = take (w - r) (drop r (db_bytes d))"
    using wf k(2) by (intro nth_equalityI) (auto simp: copy_bytes_def)
  then show ?thesis using st' by (simp add: blk_data_def block_bytes_def bsize_def d_def r_def w_def)
qed

lemma copyb_misplaces:
  "blk_data (snd (copyb (\<lambda>_. True) (\<lambda>_. 9) 0 (filled 0 2 heap3))) 1 = [9, 1]" and "blk_data (filled 0 2 heap3) 0 = [1, 2]"
  by (simp_all add: copyb_def heap_defs Let_def blk_data_def block_bytes_def bsize_def copy_bytes_def straln_def
      take_map take_upt numeral_2_eq_2)

end
