(* ===== verification/Callout.thy ===== *)
theory Callout
  imports Kernel_Prelude "HOL-Library.Multiset"
begin

text \<open>
  The callout table of \<^verbatim>\<open>os/clock.c\<close>: \<^verbatim>\<open>timeout\<close>, \<^verbatim>\<open>ttimeout\<close>, \<^verbatim>\<open>untimeout\<close> and \<^verbatim>\<open>timein\<close> over a table kept as a heap by
  \<^verbatim>\<open>heap_up\<close> and \<^verbatim>\<open>heap_down\<close>.

  The table is the list of its entries; those from 0 to \<^verbatim>\<open>calllimit\<close> are pending. A function to be called and its argument are
  addresses. What a function does when it is called, to the table and to the rest of the world, is the parameter \<open>run\<close>.
\<close>

section \<open>State\<close>

record callo =
  c_time :: int
  c_id :: int
  c_arg :: nat
  c_func :: nat

record clkstate =
  callout :: "callo list"
  calllimit :: int
  timeid :: int
  lbolt :: int

section \<open>Operations\<close>

text \<open>Moving the place for an entry due at \<open>t\<close> up from \<open>j\<close>, or down, until the entry may stay there.\<close>

fun heap_up :: "int \<Rightarrow> nat \<Rightarrow> callo list \<Rightarrow> nat \<times> callo list" where
  "heap_up t j cs =
     (if j = 0 then (0, cs)
      else
        (let k = (j - 1) div 2; p1 = cs ! k in
         if c_time p1 > t then heap_up t k (cs[j := p1]) else (j, cs)))"

function heap_down :: "int \<Rightarrow> int \<Rightarrow> nat \<Rightarrow> callo list \<Rightarrow> nat \<times> callo list" where
  "heap_down lim t j cs =
     (let k = 1 + 2 * j in
      if int k > lim then (j, cs)
      else
        (let k' = (if int k < lim \<and> c_time (cs ! (k + 1)) < c_time (cs ! k) then k + 1 else k) in
         if c_time (cs ! k') \<ge> t then (j, cs) else heap_down lim t k' (cs[j := cs ! k'])))"
  by pat_completeness auto
termination by (relation "measure (\<lambda>(lim, t, j, cs). nat (lim + 1 - int j))") (auto simp: Let_def split: if_splits)

declare heap_up.simps [simp del] heap_down.simps [simp del]

text \<open>\<open>None\<close> is the panic on overflow.\<close>

definition timeout :: "nat \<Rightarrow> nat \<Rightarrow> int \<Rightarrow> clkstate \<Rightarrow> (int \<times> clkstate) option" where
  "timeout func arg tim st =
     (let t = to_long (lbolt st + tim); j = calllimit st + 1 in
      if j = int (length (callout st)) then None
      else
        (case heap_up t (nat j) (callout st) of
           (j', cs) \<Rightarrow>
             (let new_id = to_long (timeid st + 1) in
              Some (new_id, st\<lparr>callout := cs[j' := \<lparr>c_time = t, c_id = new_id, c_arg = arg, c_func = func\<rparr>],
                                calllimit := j, timeid := new_id\<rparr>))))"

definition ttimeout :: "nat \<Rightarrow> nat \<Rightarrow> int \<Rightarrow> clkstate \<Rightarrow> (int \<times> clkstate) option" where
  "ttimeout func arg tim st =
     (if calllimit st + 1 = int (length (callout st)) then Some (-1, st) else timeout func arg tim st)"

definition untimeout :: "int \<Rightarrow> clkstate \<Rightarrow> int \<times> clkstate" where
  "untimeout ident st =
     (case find_pos (\<lambda>p. c_id p = ident) (take (nat (calllimit st + 1)) (callout st)) of
        None \<Rightarrow> (-1, st)
      | Some f \<Rightarrow>
          (let pend = callout st ! nat (calllimit st); lim = calllimit st - 1; st1 = st\<lparr>calllimit := lim\<rparr> in
           if int f = calllimit st then (int f, st1)
           else if lim \<ge> 0 then
             (let t = c_time pend;
                  (j, cs) = (if f > 0 \<and> c_time (callout st ! ((f - 1) div 2)) > t then heap_up t f (callout st)
                             else heap_down lim t f (callout st))
              in (int f, st1\<lparr>callout := cs[j := pend]\<rparr>))
           else (int f, st1)))"

text \<open>One turn of the loop of \<^verbatim>\<open>timein\<close>: the first entry, taken off the table.\<close>

definition take_first :: "clkstate \<Rightarrow> callo \<times> clkstate" where
  "take_first st =
     (let svcall = hd (callout st); plast = callout st ! nat (calllimit st); lim = calllimit st - 1; st1 = st\<lparr>calllimit := lim\<rparr> in
      if lim \<ge> 0 then
        (case heap_down lim (c_time plast) 0 (callout st) of (j, cs) \<Rightarrow> (svcall, st1\<lparr>callout := cs[j := plast]\<rparr>))
      else (svcall, st1))"

partial_function (option) timein :: "(callo \<Rightarrow> clkstate \<times> 'w \<Rightarrow> clkstate \<times> 'w) \<Rightarrow> clkstate \<times> 'w \<Rightarrow> (clkstate \<times> 'w) option" where
  "timein run s =
     (if calllimit (fst s) \<ge> 0 \<and> c_time (hd (callout (fst s))) \<le> lbolt (fst s) then
        timein run (run (fst (take_first (fst s))) (snd (take_first (fst s)), snd s))
      else Some s)"

section \<open>The heap\<close>

definition pending :: "clkstate \<Rightarrow> callo multiset" where
  "pending st = mset (take (nat (calllimit st + 1)) (callout st))"

definition heap_at :: "callo list \<Rightarrow> nat \<Rightarrow> nat \<Rightarrow> bool" where
  "heap_at cs n i \<longleftrightarrow> (0 < i \<and> i < n \<longrightarrow> c_time (cs ! ((i - 1) div 2)) \<le> c_time (cs ! i))"

definition clk_ok :: "clkstate \<Rightarrow> bool" where
  "clk_ok st \<longleftrightarrow> -1 \<le> calllimit st \<and> calllimit st < int (length (callout st)) \<and>
     (\<forall>i. heap_at (callout st) (nat (calllimit st + 1)) i)"

lemma heap_root: "\<lbrakk>\<forall>i. heap_at cs n i; i < n\<rbrakk> \<Longrightarrow> c_time (cs ! 0) \<le> c_time (cs ! i)"
proof (induction i rule: less_induct)
  case (less i)
  show ?case
  proof (cases "i = 0")
    case False
    then have "(i - 1) div 2 < i" by simp
    with less have "c_time (cs ! 0) \<le> c_time (cs ! ((i - 1) div 2))" by simp
    moreover have "c_time (cs ! ((i - 1) div 2)) \<le> c_time (cs ! i)" using less.prems False by (auto simp: heap_at_def)
    ultimately show ?thesis by simp
  qed simp
qed

text \<open>Moving the place from \<open>j\<close> to \<open>k\<close> exchanges, for any entry put there, the entries at \<open>j\<close> and \<open>k\<close>.\<close>

lemma hole_move_mset:
  assumes "j < n" and "k < n" and "n \<le> length cs" and "j \<noteq> k"
  shows "mset (take n (cs[j := cs ! k, k := x])) = mset (take n (cs[j := x]))"
proof -
  let ?A = "take n (cs[j := x])"
  have "take n (cs[j := cs ! k, k := x]) = ?A[j := ?A ! k, k := ?A ! j]"
    using assms by (simp add: take_update_swap)
  moreover have "mset (?A[j := ?A ! k, k := ?A ! j]) = mset ?A"
    using assms by (intro mset_swap) simp_all
  ultimately show ?thesis by simp
qed

section \<open>\<^verbatim>\<open>heap_up\<close> and \<^verbatim>\<open>heap_down\<close>\<close>

lemma par_less: "0 < i \<Longrightarrow> (i - 1) div 2 < (i :: nat)"
  by simp

text \<open>The table with \<open>x\<close> put at \<open>j\<close> is a heap but for \<open>x\<close> and what is above it.\<close>

definition heap_but_up :: "callo list \<Rightarrow> nat \<Rightarrow> nat \<Rightarrow> bool" where
  "heap_but_up cs n j \<longleftrightarrow>
     (\<forall>i. i \<noteq> j \<longrightarrow> heap_at cs n i) \<and>
     (\<forall>i. 0 < i \<and> i < n \<and> (i - 1) div 2 = j \<and> 0 < j \<longrightarrow> c_time (cs ! ((j - 1) div 2)) \<le> c_time (cs ! i))"

lemma heap_up_ok:
  assumes "heap_up t j cs = (j', cs')" and "c_time x = t" and "j < n" and "n \<le> length cs" and "heap_but_up (cs[j := x]) n j"
  shows "j' < n \<and> length cs' = length cs \<and> (\<forall>i. heap_at (cs'[j' := x]) n i) \<and>
         mset (take n (cs'[j' := x])) = mset (take n (cs[j := x])) \<and> (\<forall>i \<ge> n. cs' ! i = cs ! i)"
  using assms
proof (induction t j cs arbitrary: j' cs' rule: heap_up.induct)
  case (1 t j cs)
  let ?k = "(j - 1) div 2"
  show ?case
  proof (cases "j = 0 \<or> \<not> c_time (cs ! ?k) > t")
    case True
    then have r: "j' = j" "cs' = cs" using 1(2) by (auto simp: heap_up.simps [of t j] Let_def split: if_splits)
    have "heap_at (cs[j := x]) n i" for i
    proof (cases "i = j")
      case True
      have "j \<noteq> 0 \<Longrightarrow> ?k \<noteq> j" by simp
      with True \<open>j = 0 \<or> \<not> c_time (cs ! ?k) > t\<close> 1(3-5) show ?thesis by (auto simp: heap_at_def)
    qed (use 1(6) in \<open>simp add: heap_but_up_def\<close>)
    with r 1(4) show ?thesis by simp
  next
    case False
    then have k: "?k < j" "?k < n" "j < length cs" "?k < length cs" using 1(4,5) by auto
    have rec: "heap_up t ?k (cs[j := cs ! ?k]) = (j', cs')" using 1(2) False by (simp add: heap_up.simps [of t j] Let_def)
    let ?B = "cs[j := cs ! ?k, ?k := x]"
    let ?A = "cs[j := x]"
    have A: "?A ! i = (if i = j then x else cs ! i)" and B: "?B ! i = (if i = ?k then x else if i = j then cs ! ?k else cs ! i)" for i
      using k by (simp_all add: nth_list_update)
    have old: "0 < i \<Longrightarrow> i < n \<Longrightarrow> i \<noteq> j \<Longrightarrow> c_time (?A ! ((i - 1) div 2)) \<le> c_time (?A ! i)"
      and kids: "0 < i \<and> i < n \<and> (i - 1) div 2 = j \<and> 0 < j \<Longrightarrow> c_time (?A ! ?k) \<le> c_time (?A ! i)" for i
      using 1(6) unfolding heap_but_up_def heap_at_def by blast+
    have lt: "c_time x < c_time (cs ! ?k)" using False 1(3) by simp
    have "heap_but_up ?B n ?k"
      unfolding heap_but_up_def
    proof (intro conjI allI impI)
      fix i assume "i \<noteq> ?k"
      show "heap_at ?B n i"
        unfolding heap_at_def
      proof
        assume i: "0 < i \<and> i < n"
        consider "i = j" | "i \<noteq> j" "(i - 1) div 2 = j" | "i \<noteq> j" "(i - 1) div 2 = ?k" | "i \<noteq> j" "(i - 1) div 2 \<noteq> j" "(i - 1) div 2 \<noteq> ?k"
          by blast
        then show "c_time (?B ! ((i - 1) div 2)) \<le> c_time (?B ! i)"
        proof cases
          case 1
          then show ?thesis using lt k(1) unfolding B by simp
        next
          case 2
          then show ?thesis using kids [of i] i k(1) \<open>i \<noteq> ?k\<close> unfolding B A by auto
        next
          case 3
          then show ?thesis using old [of i] i lt k(1) \<open>i \<noteq> ?k\<close> unfolding B A by simp
        next
          case 4
          then show ?thesis using old [of i] i \<open>i \<noteq> ?k\<close> unfolding B A by simp
        qed
      qed
    next
      fix i assume i: "0 < i \<and> i < n \<and> (i - 1) div 2 = ?k \<and> 0 < ?k"
      have p: "(?k - 1) div 2 < ?k" "i \<noteq> ?k" using par_less [of ?k] par_less [of i] i by simp_all
      have up: "c_time (cs ! ((?k - 1) div 2)) \<le> c_time (cs ! ?k)" using old [of ?k] i k p(1) unfolding A by simp
      have "c_time (cs ! ?k) \<le> c_time (?B ! i)" using old [of i] i k(1) p(2) unfolding A B by (cases "i = j") simp_all
      with up show "c_time (?B ! ((?k - 1) div 2)) \<le> c_time (?B ! i)" using p(1) k(1) unfolding B [of "(?k - 1) div 2"] by simp
    qed
    then have "j' < n \<and> length cs' = length (cs[j := cs ! ?k]) \<and> (\<forall>i. heap_at (cs'[j' := x]) n i) \<and>
        mset (take n (cs'[j' := x])) = mset (take n ?B) \<and> (\<forall>i \<ge> n. cs' ! i = cs[j := cs ! ?k] ! i)"
      using 1(1) [OF _ refl refl _ rec] False 1(3,5) k by simp
    then show ?thesis using hole_move_mset [of j n ?k cs x] k 1(4,5) by simp
  qed
qed

text \<open>And a heap but for \<open>x\<close> and what is below it.\<close>

definition heap_but_down :: "callo list \<Rightarrow> nat \<Rightarrow> nat \<Rightarrow> bool" where
  "heap_but_down cs n j \<longleftrightarrow>
     (\<forall>i. (i - 1) div 2 \<noteq> j \<or> i = 0 \<longrightarrow> heap_at cs n i) \<and>
     (\<forall>i. 0 < i \<and> i < n \<and> (i - 1) div 2 = j \<and> 0 < j \<longrightarrow> c_time (cs ! ((j - 1) div 2)) \<le> c_time (cs ! i))"

text \<open>The child of \<open>j\<close> that \<open>heap_down\<close> looks at is the least one.\<close>

definition least_child :: "nat \<Rightarrow> nat \<Rightarrow> callo list \<Rightarrow> nat" where
  "least_child n j cs =
     (let k = 1 + 2 * j in if k + 1 < n \<and> c_time (cs ! (k + 1)) < c_time (cs ! k) then k + 1 else k)"

lemma least_child:
  assumes "1 + 2 * j < n"
  shows "least_child n j cs < n" and "(least_child n j cs - 1) div 2 = j" and "j < least_child n j cs"
    and "\<lbrakk>0 < i; i < n; (i - 1) div 2 = j\<rbrakk> \<Longrightarrow> c_time (cs ! least_child n j cs) \<le> c_time (cs ! i)"
proof -
  show "least_child n j cs < n" and "(least_child n j cs - 1) div 2 = j" and "j < least_child n j cs"
    using assms by (auto simp: least_child_def Let_def)
  show "c_time (cs ! least_child n j cs) \<le> c_time (cs ! i)" if "0 < i" "i < n" "(i - 1) div 2 = j"
  proof -
    have "i = 1 + 2 * j \<or> i = 1 + 2 * j + 1" using that by presburger
    then show ?thesis using that(2) by (auto simp: least_child_def Let_def)
  qed
qed

lemma heap_down_eq:
  "heap_down (int n - 1) t j cs =
     (if 1 + 2 * j < n \<and> c_time (cs ! least_child n j cs) < t
      then heap_down (int n - 1) t (least_child n j cs) (cs[j := cs ! least_child n j cs]) else (j, cs))"
proof -
  have "int (1 + 2 * j) > int n - 1 \<longleftrightarrow> \<not> 1 + 2 * j < n" and "int (1 + 2 * j) < int n - 1 \<longleftrightarrow> 1 + 2 * j + 1 < n" by auto
  then show ?thesis
    by (subst heap_down.simps) (simp only: Let_def least_child_def [unfolded Let_def, symmetric], auto)
qed

lemma heap_down_ok:
  assumes "heap_down (int n - 1) t j cs = (j', cs')" and "c_time x = t" and "j < n" and "n \<le> length cs"
    and "heap_but_down (cs[j := x]) n j"
  shows "j' < n \<and> length cs' = length cs \<and> (\<forall>i. heap_at (cs'[j' := x]) n i) \<and>
         mset (take n (cs'[j' := x])) = mset (take n (cs[j := x])) \<and> (\<forall>i \<ge> n. cs' ! i = cs ! i)"
  using assms
proof (induction "n - j" arbitrary: j cs rule: less_induct)
  case less
  let ?A = "cs[j := x]" and ?k = "least_child n j cs"
  have old: "0 < i \<Longrightarrow> i < n \<Longrightarrow> (i - 1) div 2 \<noteq> j \<Longrightarrow> c_time (?A ! ((i - 1) div 2)) \<le> c_time (?A ! i)"
    and kids: "0 < i \<and> i < n \<and> (i - 1) div 2 = j \<and> 0 < j \<Longrightarrow> c_time (?A ! ((j - 1) div 2)) \<le> c_time (?A ! i)" for i
    using less(6) unfolding heap_but_down_def heap_at_def by blast+
  have A: "?A ! i = (if i = j then x else cs ! i)" for i using less(4,5) by (simp add: nth_list_update)
  show ?case
  proof (cases "1 + 2 * j < n \<and> c_time (cs ! ?k) < t")
    case False
    then have r: "j' = j" "cs' = cs" using less(2) heap_down_eq [of n t j cs] by (auto split: if_splits)
    have "heap_at ?A n i" for i
      unfolding heap_at_def
    proof
      assume i: "0 < i \<and> i < n"
      show "c_time (?A ! ((i - 1) div 2)) \<le> c_time (?A ! i)"
      proof (cases "(i - 1) div 2 = j")
        case True
        then have "1 + 2 * j < n" "i \<noteq> j" using i par_less [of i] by auto
        with False i True show ?thesis using least_child(4) [of j n i cs] less(3) unfolding A by auto
      qed (use old i in simp)
    qed
    with r less(4) show ?thesis by auto
  next
    case True
    note k = least_child [OF conjunct1 [OF True], where cs = cs]
    have kl: "?k < length cs" "j < length cs" "?k \<noteq> j" using k less(5) by auto
    let ?B = "cs[j := cs ! ?k, ?k := x]"
    have B: "?B ! i = (if i = ?k then x else if i = j then cs ! ?k else cs ! i)" for i
      using kl by (simp add: nth_list_update)
    have lt: "c_time (cs ! ?k) < c_time x" using True less(3) by simp
    have "heap_but_down ?B n ?k"
      unfolding heap_but_down_def
    proof (intro conjI allI impI)
      fix i assume ni: "(i - 1) div 2 \<noteq> ?k \<or> i = 0"
      show "heap_at ?B n i"
        unfolding heap_at_def
      proof
        assume i: "0 < i \<and> i < n"
        note p = par_less [OF conjunct1 [OF i]]
        consider "(i - 1) div 2 = j" | "i = j" | "(i - 1) div 2 \<noteq> j" "i \<noteq> j" by blast
        then show "c_time (?B ! ((i - 1) div 2)) \<le> c_time (?B ! i)"
        proof cases
          case 1
          then have "c_time (cs ! ?k) \<le> c_time (cs ! i)" "i \<noteq> j" using k(4) [of i] i p by auto
          then show ?thesis using 1 lt kl(3) unfolding B by auto
        next
          case 2
          then have "c_time (cs ! ((j - 1) div 2)) \<le> c_time (cs ! ?k)"
            using kids [of ?k] k i p kl(3) unfolding A by auto
          then show ?thesis using 2 p k(3) kl(3) unfolding B by simp
        next
          case 3
          then have "i \<noteq> ?k" using k(2) by blast
          with 3 show ?thesis using old [of i] i ni unfolding A B by simp
        qed
      qed
    next
      fix i assume i: "0 < i \<and> i < n \<and> (i - 1) div 2 = ?k \<and> 0 < ?k"
      then have ne: "i \<noteq> ?k" "i \<noteq> j" "?k \<noteq> j" using par_less [of i] k(3) by auto
      have "c_time (cs ! ?k) \<le> c_time (cs ! i)" using old [of i] i ne unfolding A by simp
      then show "c_time (?B ! ((?k - 1) div 2)) \<le> c_time (?B ! i)" using ne k(2) unfolding B by simp
    qed
    moreover have "heap_down (int n - 1) t ?k (cs[j := cs ! ?k]) = (j', cs')" using less(2) heap_down_eq [of n t j cs] True by simp
    ultimately have "j' < n \<and> length cs' = length (cs[j := cs ! ?k]) \<and> (\<forall>i. heap_at (cs'[j' := x]) n i) \<and>
        mset (take n (cs'[j' := x])) = mset (take n ?B) \<and> (\<forall>i \<ge> n. cs' ! i = cs[j := cs ! ?k] ! i)"
      using less(1) [of ?k "cs[j := cs ! ?k]"] less(3-5) k(1,3) by simp
    then show ?thesis using hole_move_mset [of j n ?k cs x] k(1) kl less(4,5) by auto
  qed
qed

section \<open>The operations on a heap\<close>

lemma heap_leq: "\<lbrakk>\<forall>i. heap_at cs n i; 0 < i; i < n\<rbrakk> \<Longrightarrow> c_time (cs ! ((i - 1) div 2)) \<le> c_time (cs ! i)"
  by (simp add: heap_at_def)

lemma insert_ok:
  assumes heap: "\<forall>i. heap_at cs n i" and n: "n < length cs" and up: "heap_up (c_time x) n cs = (j, cs')"
  shows "j < Suc n \<and> length cs' = length cs \<and> (\<forall>i. heap_at (cs'[j := x]) (Suc n) i) \<and>
         mset (take (Suc n) (cs'[j := x])) = add_mset x (mset (take n cs))"
proof -
  have A: "(cs[n := x]) ! i = (if i = n then x else cs ! i)" for i using n by (simp add: nth_list_update)
  have "heap_but_up (cs[n := x]) (Suc n) n"
    unfolding heap_but_up_def
  proof (intro conjI allI impI)
    show "heap_at (cs[n := x]) (Suc n) i" if "i \<noteq> n" for i
      unfolding heap_at_def
    proof
      assume "0 < i \<and> i < Suc n"
      then show "c_time (cs[n := x] ! ((i - 1) div 2)) \<le> c_time (cs[n := x] ! i)"
        using heap_leq [OF heap, of i] that par_less [of i] unfolding A by auto
    qed
    show "c_time (cs[n := x] ! ((n - 1) div 2)) \<le> c_time (cs[n := x] ! i)"
      if "0 < i \<and> i < Suc n \<and> (i - 1) div 2 = n \<and> 0 < n" for i
      using that par_less [of i] by auto
  qed
  moreover have "mset (take (Suc n) (cs[n := x])) = add_mset x (mset (take n cs))"
    using n by (simp add: take_Suc_conv_app_nth)
  ultimately show ?thesis using heap_up_ok [OF up refl, of "Suc n"] n by simp
qed

lemma delete_last: "n < length cs \<Longrightarrow> mset (take (Suc n) cs) = add_mset (cs ! n) (mset (take n cs))"
  by (simp add: take_Suc_conv_app_nth)

text \<open>The last of \<open>n + 1\<close> entries takes the place of the one at \<open>f\<close>.\<close>

lemma replace_mset:
  assumes "f < n" and "n < length cs"
  shows "add_mset (cs ! f) (mset (take n (cs[f := cs ! n]))) = mset (take (Suc n) cs)"
proof -
  have "take n (cs[f := cs ! n]) = (take n cs)[f := cs ! n]" by (simp add: take_update_swap)
  then have "mset (take n (cs[f := cs ! n])) = add_mset (cs ! n) (mset (take n cs) - {#cs ! f#})"
    using assms by (simp add: mset_update)
  moreover have "cs ! f \<in># mset (take n cs)" using assms by (auto simp: in_set_conv_nth)
  ultimately show ?thesis using assms delete_last [of n cs] by simp
qed

lemma delete_ok:
  assumes heap: "\<forall>i. heap_at cs (Suc n) i" and n: "n < length cs" and f: "f < n"
    and r: "(j, cs') = (if f > 0 \<and> c_time (cs ! ((f - 1) div 2)) > c_time (cs ! n) then heap_up (c_time (cs ! n)) f cs
                        else heap_down (int n - 1) (c_time (cs ! n)) f cs)"
  shows "j < n \<and> length cs' = length cs \<and> (\<forall>i. heap_at (cs'[j := cs ! n]) n i) \<and>
         add_mset (cs ! f) (mset (take n (cs'[j := cs ! n]))) = mset (take (Suc n) cs)"
proof -
  let ?x = "cs ! n"
  have fl: "f < length cs" "n \<le> length cs" using f n by auto
  have A: "(cs[f := ?x]) ! i = (if i = f then ?x else cs ! i)" for i using fl by (simp add: nth_list_update)
  have old: "c_time (cs ! ((i - 1) div 2)) \<le> c_time (cs ! i)" if "0 < i" "i < n" for i using heap_leq [OF heap, of i] that by simp
  have kids: "c_time (cs[f := ?x] ! ((f - 1) div 2)) \<le> c_time (cs[f := ?x] ! i)"
    if i: "0 < i \<and> i < n \<and> (i - 1) div 2 = f \<and> 0 < f" for i
    using order_trans [OF old [of f] old [of i, unfolded conjunct1 [OF conjunct2 [OF conjunct2 [OF i]]]]] i f par_less [of f] par_less [of i]
    unfolding A by auto
  show ?thesis
  proof (cases "f > 0 \<and> c_time (cs ! ((f - 1) div 2)) > c_time ?x")
    case True
    have "heap_at (cs[f := ?x]) n i" if "i \<noteq> f" for i
      unfolding heap_at_def
    proof
      assume i: "0 < i \<and> i < n"
      show "c_time (cs[f := ?x] ! ((i - 1) div 2)) \<le> c_time (cs[f := ?x] ! i)"
      proof (cases "(i - 1) div 2 = f")
        case par: True
        then show ?thesis using old [of i] old [of f] i that True f unfolding A by auto
      qed (use old [of i] i that in \<open>simp add: A\<close>)
    qed
    then have "heap_but_up (cs[f := ?x]) n f" unfolding heap_but_up_def using kids by blast
    with r True heap_up_ok [OF _ refl f fl(2), where j' = j and cs' = cs'] have "j < n \<and> length cs' = length cs \<and> (\<forall>i. heap_at (cs'[j := ?x]) n i) \<and>
        mset (take n (cs'[j := ?x])) = mset (take n (cs[f := ?x]))" by simp
    then show ?thesis using replace_mset [OF f n] by simp
  next
    case False
    have "heap_at (cs[f := ?x]) n i" if "(i - 1) div 2 \<noteq> f \<or> i = 0" for i
      unfolding heap_at_def
    proof
      assume i: "0 < i \<and> i < n"
      then show "c_time (cs[f := ?x] ! ((i - 1) div 2)) \<le> c_time (cs[f := ?x] ! i)"
        using old [of i] that False unfolding A by auto
    qed
    then have "heap_but_down (cs[f := ?x]) n f" unfolding heap_but_down_def using kids by blast
    with r False heap_down_ok [OF _ refl f fl(2), where j' = j and cs' = cs'] have "j < n \<and> length cs' = length cs \<and> (\<forall>i. heap_at (cs'[j := ?x]) n i) \<and>
        mset (take n (cs'[j := ?x])) = mset (take n (cs[f := ?x]))" by auto
    then show ?thesis using replace_mset [OF f n] by simp
  qed
qed

end
