(* ===== verification/Callout_Props.thy ===== *)
theory Callout_Props
  imports Callout
begin

text \<open>
  The callout table as a set of requests: \<open>timeout\<close> adds one, \<open>untimeout\<close> takes one out, \<open>timein\<close> makes the calls that are
  due, the earliest first, and leaves none.
\<close>

section \<open>Every operation keeps the heap and changes the pending requests by one entry\<close>

lemma clk_okD:
  assumes "clk_ok st"
  shows "nat (calllimit st + 1) \<le> length (callout st)" and "\<forall>i. heap_at (callout st) (nat (calllimit st + 1)) i"
    and "int (nat (calllimit st + 1)) = calllimit st + 1"
  using assms by (auto simp: clk_ok_def)

lemma timeout_step:
  assumes ok: "clk_ok st" and t: "timeout func arg tim st = Some (i, st')"
  shows "clk_ok st' \<and> length (callout st') = length (callout st) \<and> lbolt st' = lbolt st \<and> i = to_long (timeid st + 1) \<and>
         timeid st' = i \<and>
         pending st' = add_mset \<lparr>c_time = to_long (lbolt st + tim), c_id = i, c_arg = arg, c_func = func\<rparr> (pending st)"
proof -
  define n where "n = nat (calllimit st + 1)"
  define x where "x = \<lparr>c_time = to_long (lbolt st + tim), c_id = to_long (timeid st + 1), c_arg = arg, c_func = func\<rparr>"
  note d = clk_okD [OF ok, folded n_def]
  obtain j cs where up: "heap_up (c_time x) n (callout st) = (j, cs)" by fastforce
  have ne: "calllimit st + 1 \<noteq> int (length (callout st))" using t by (auto simp: timeout_def Let_def)
  then have n: "n < length (callout st)" using d(1,3) by linarith
  have st': "i = to_long (timeid st + 1)" "st' = st\<lparr>callout := cs[j := x], calllimit := calllimit st + 1, timeid := to_long (timeid st + 1)\<rparr>"
    using t ne up by (auto simp: timeout_def Let_def x_def n_def)
  note ins = insert_ok [OF d(2) n up]
  have n': "nat (calllimit st' + 1) = Suc n" using d(3) by (simp add: st'(2))
  have "clk_ok st'" unfolding clk_ok_def n' using ins n d(3) by (auto simp: st'(2))
  moreover have "pending st' = add_mset x (pending st)"
    unfolding pending_def n' using ins by (simp add: st'(2) n_def)
  ultimately show ?thesis using ins st' by (simp add: x_def)
qed

lemma untimeout_step:
  assumes ok: "clk_ok st" and u: "untimeout ident st = (f, st')"
  shows "clk_ok st' \<and> length (callout st') = length (callout st) \<and> lbolt st' = lbolt st \<and> timeid st' = timeid st \<and>
         (if f = -1 then st' = st \<and> (\<forall>p \<in># pending st. c_id p \<noteq> ident)
          else \<exists>p. c_id p = ident \<and> pending st = add_mset p (pending st'))"
proof -
  define n where "n = nat (calllimit st + 1)"
  note d = clk_okD [OF ok, folded n_def]
  show ?thesis
  proof (cases "find_pos (\<lambda>p. c_id p = ident) (take n (callout st))")
    case None
    then have "f = -1" "st' = st" using u by (simp_all add: untimeout_def n_def)
    with None ok show ?thesis by (simp add: find_pos_None pending_def n_def)
  next
    case (Some k)
    then have k: "k < n" "c_id (callout st ! k) = ident" using find_pos_Some [OF Some] d(1) by auto
    obtain m where m: "n = Suc m" using k(1) by (cases n) auto
    have lim: "calllimit st = int m" and n1: "nat (int m + 1) = Suc m" using d(3) m by simp_all
    have len: "m < length (callout st)" using d(1) m by simp
    note d2 = d(2) [unfolded m]
    show ?thesis
    proof (cases "k = m")
      case True
      then have st': "f = int m" "st' = st\<lparr>calllimit := int m - 1\<rparr>" using u Some by (auto simp: untimeout_def n_def lim Let_def)
      have "heap_at (callout st) m i" for i using d2 by (auto simp: heap_at_def)
      then have "clk_ok st'" using len by (simp add: clk_ok_def st')
      moreover have "pending st = add_mset (callout st ! k) (pending st')"
        using delete_last [OF len] True by (simp add: pending_def st' lim n1)
      ultimately show ?thesis using st' k(2) by auto
    next
      case False
      with k m have km: "k < m" by simp
      obtain j cs where r: "(j, cs) = (if k > 0 \<and> c_time (callout st ! ((k - 1) div 2)) > c_time (callout st ! m)
          then heap_up (c_time (callout st ! m)) k (callout st) else heap_down (int m - 1) (c_time (callout st ! m)) k (callout st))"
        by (metis prod.exhaust)
      have st': "f = int k" "st' = st\<lparr>calllimit := int m - 1, callout := cs[j := callout st ! m]\<rparr>"
        using u Some km r [symmetric] by (auto simp: untimeout_def n_def lim Let_def)
      note del = delete_ok [OF d2 len km r]
      have "clk_ok st'" using del len by (auto simp: clk_ok_def st')
      moreover have "pending st = add_mset (callout st ! k) (pending st')" using del by (simp add: pending_def st' lim n1)
      ultimately show ?thesis using st' del k(2) by auto
    qed
  qed
qed

lemma take_first_step:
  assumes ok: "clk_ok st" and some: "calllimit st \<ge> 0" and t: "take_first st = (p, st')"
  shows "clk_ok st' \<and> length (callout st') = length (callout st) \<and> lbolt st' = lbolt st \<and> timeid st' = timeid st \<and>
         p = hd (callout st) \<and> pending st = add_mset p (pending st') \<and> (\<forall>q \<in># pending st. c_time p \<le> c_time q)"
proof -
  define m where "m = nat (calllimit st)"
  have lim: "calllimit st = int m" using some by (simp add: m_def)
  have n: "nat (calllimit st + 1) = Suc m" using lim by simp
  note d = clk_okD [OF ok, unfolded n]
  have len: "m < length (callout st)" using d(1) by simp
  have h: "hd (callout st) = callout st ! 0" using len by (cases "callout st") auto
  have least: "\<forall>q \<in># pending st. c_time (callout st ! 0) \<le> c_time q"
    using heap_root [OF d(2)] d(1) unfolding pending_def n by (auto simp: in_set_conv_nth)
  show ?thesis
  proof (cases "m = 0")
    case True
    then have st': "p = callout st ! 0" "st' = st\<lparr>calllimit := - 1\<rparr>" using t h by (simp_all add: take_first_def lim Let_def)
    have "clk_ok st'" by (simp add: clk_ok_def st' heap_at_def)
    moreover have "pending st = add_mset p (pending st')"
      using delete_last [of 0 "callout st"] len True by (simp add: pending_def st' lim)
    ultimately show ?thesis using least st' h by simp
  next
    case False
    obtain j cs where r: "heap_down (int m - 1) (c_time (callout st ! m)) 0 (callout st) = (j, cs)" by fastforce
    have st': "p = callout st ! 0" "st' = st\<lparr>calllimit := int m - 1, callout := cs[j := callout st ! m]\<rparr>"
      using t h r False by (simp_all add: take_first_def lim Let_def)
    have "(j, cs) = (if 0 > (0 :: nat) \<and> c_time (callout st ! ((0 - 1) div 2)) > c_time (callout st ! m)
          then heap_up (c_time (callout st ! m)) 0 (callout st) else heap_down (int m - 1) (c_time (callout st ! m)) 0 (callout st))"
      using r by simp
    note del = delete_ok [OF d(2) len _ this]
    have "clk_ok st'" using del len False by (auto simp: clk_ok_def st')
    moreover have "pending st = add_mset p (pending st')" using del False n by (simp add: pending_def st' lim)
    ultimately show ?thesis using least st' h del False by simp
  qed
qed

lemma timeout_None:
  assumes "clk_ok st"
  shows "timeout func arg tim st = None \<longleftrightarrow> size (pending st) = length (callout st)"
proof -
  have "timeout func arg tim st = None \<longleftrightarrow> calllimit st + 1 = int (length (callout st))"
    by (simp add: timeout_def Let_def split: prod.split)
  moreover have "size (pending st) = nat (calllimit st + 1)" using clk_okD(1) [OF assms] by (simp add: pending_def)
  ultimately show ?thesis using clk_okD(3) [OF assms] by (metis nat_int)
qed

section \<open>Reachable tables\<close>

inductive clk_reach :: "clkstate \<Rightarrow> bool" where
  init: "clk_reach \<lparr>callout = cs, calllimit = -1, timeid = 0, lbolt = now\<rparr>"
| timeout: "\<lbrakk>clk_reach st; timeout func arg tim st = Some (i, st')\<rbrakk> \<Longrightarrow> clk_reach st'"
| ttimeout: "\<lbrakk>clk_reach st; ttimeout func arg tim st = Some (i, st')\<rbrakk> \<Longrightarrow> clk_reach st'"
| untimeout: "\<lbrakk>clk_reach st; untimeout ident st = (f, st')\<rbrakk> \<Longrightarrow> clk_reach st'"
| call: "\<lbrakk>clk_reach st; calllimit st \<ge> 0; take_first st = (p, st')\<rbrakk> \<Longrightarrow> clk_reach st'"
| tick: "clk_reach st \<Longrightarrow> clk_reach (st\<lparr>lbolt := now\<rparr>)"

lemma clk_reach_ok: "clk_reach st \<Longrightarrow> clk_ok st"
proof (induction rule: clk_reach.induct)
  case (init cs now)
  then show ?case by (simp add: clk_ok_def heap_at_def)
next
  case (timeout st func arg tim i st')
  then show ?case using timeout_step by blast
next
  case (ttimeout st func arg tim i st')
  then show ?case using timeout_step [of st func arg tim i st'] by (auto simp: ttimeout_def split: if_splits)
next
  case (untimeout st ident f st')
  then show ?case using untimeout_step by blast
next
  case (call st p st')
  then show ?case using take_first_step by blast
next
  case (tick st now)
  then show ?case by (simp add: clk_ok_def)
qed

text \<open>C35: The callout table is a set of requests: \<^verbatim>\<open>timeout\<close> adds exactly the request it is given, with a panic exactly when the
  table is full; \<^verbatim>\<open>untimeout\<close> takes out one request with the identifier it is given, or returns -1 and changes nothing when
  there is none; a \<^verbatim>\<open>timeout\<close> with a fresh identifier followed by its \<^verbatim>\<open>untimeout\<close> leaves the requests as they were.\<close>

theorem callout_is_set_of_requests:
  assumes "clk_reach st"
  shows "(timeout func arg tim st = None \<longleftrightarrow> size (pending st) = length (callout st)) \<and>
         (\<forall>i st1. timeout func arg tim st = Some (i, st1) \<longrightarrow>
            pending st1 = add_mset \<lparr>c_time = to_long (lbolt st + tim), c_id = i, c_arg = arg, c_func = func\<rparr> (pending st) \<and>
            ((\<forall>p \<in># pending st. c_id p \<noteq> i) \<longrightarrow>
               fst (untimeout i st1) \<noteq> -1 \<and> pending (snd (untimeout i st1)) = pending st)) \<and>
         (let (f, st2) = untimeout ident st in
            if f = -1 then st2 = st \<and> (\<forall>p \<in># pending st. c_id p \<noteq> ident)
            else \<exists>p. c_id p = ident \<and> pending st = add_mset p (pending st2))"
proof (intro conjI allI impI)
  note ok = clk_reach_ok [OF assms]
  show "timeout func arg tim st = None \<longleftrightarrow> size (pending st) = length (callout st)" by (rule timeout_None [OF ok])
  fix i st1 assume t: "timeout func arg tim st = Some (i, st1)"
  let ?p = "\<lparr>c_time = to_long (lbolt st + tim), c_id = i, c_arg = arg, c_func = func\<rparr>"
  note s = timeout_step [OF ok t]
  then show add: "pending st1 = add_mset ?p (pending st)" by blast
  assume fresh: "\<forall>p \<in># pending st. c_id p \<noteq> i"
  obtain f st2 where u: "untimeout i st1 = (f, st2)" by fastforce
  note us = untimeout_step [OF conjunct1 [OF s] u]
  have f: "f \<noteq> -1" using us add by (auto split: if_splits)
  then obtain p where p: "c_id p = i" "add_mset ?p (pending st) = add_mset p (pending st2)" using us add by auto
  have "p = ?p"
  proof (rule ccontr)
    assume "p \<noteq> ?p"
    moreover have "p \<in># add_mset ?p (pending st)" unfolding p(2) by simp
    ultimately have "p \<in># pending st" by auto
    with fresh p(1) show False by blast
  qed
  with p(2) u f show "fst (untimeout i st1) \<noteq> -1" and "pending (snd (untimeout i st1)) = pending st" by simp_all
next
  show "let (f, st2) = untimeout ident st in
      if f = -1 then st2 = st \<and> (\<forall>p \<in># pending st. c_id p \<noteq> ident)
      else \<exists>p. c_id p = ident \<and> pending st = add_mset p (pending st2)"
    using untimeout_step [OF clk_reach_ok [OF assms], of ident] by (cases "untimeout ident st") auto
qed

section \<open>\<^verbatim>\<open>timein\<close>\<close>

definition due :: "clkstate \<Rightarrow> callo \<Rightarrow> bool" where
  "due st p \<longleftrightarrow> c_time p \<le> lbolt st"

abbreviation due_calls :: "clkstate \<Rightarrow> callo multiset" where
  "due_calls st \<equiv> filter_mset (due st) (pending st)"

text \<open>The test of the loop asks whether any request is due.\<close>

lemma loop_test:
  assumes ok: "clk_ok st"
  shows "calllimit st \<ge> 0 \<and> c_time (hd (callout st)) \<le> lbolt st \<longleftrightarrow> due_calls st \<noteq> {#}"
proof (cases "calllimit st \<ge> 0")
  case True
  obtain p st' where t: "take_first st = (p, st')" by fastforce
  note s = take_first_step [OF ok True t]
  then have p: "hd (callout st) \<in># pending st" "\<forall>q \<in># pending st. c_time (hd (callout st)) \<le> c_time q" by auto
  show ?thesis
  proof
    assume "calllimit st \<ge> 0 \<and> c_time (hd (callout st)) \<le> lbolt st"
    with p(1) have "hd (callout st) \<in># due_calls st" by (simp add: due_def)
    then show "due_calls st \<noteq> {#}" by auto
  next
    assume "due_calls st \<noteq> {#}"
    then obtain q where "q \<in># pending st" "c_time q \<le> lbolt st" by (auto simp: filter_mset_eq_conv due_def)
    with p(2) True show "calllimit st \<ge> 0 \<and> c_time (hd (callout st)) \<le> lbolt st" by fastforce
  qed
next
  case False
  then show ?thesis by (simp add: pending_def)
qed

text \<open>
  What is asked of the functions called: they may use the table themselves, and do anything elsewhere, but they keep the table
  a heap, leave the clock alone and make no more requests that are due at once than they take back.
\<close>

definition good_run :: "(callo \<Rightarrow> clkstate \<times> 'w \<Rightarrow> clkstate \<times> 'w) \<Rightarrow> bool" where
  "good_run run \<longleftrightarrow>
     (\<forall>p st w st' w'. clk_ok st \<and> run p (st, w) = (st', w') \<longrightarrow>
        clk_ok st' \<and> lbolt st' = lbolt st \<and> size (due_calls st') \<le> size (due_calls st))"

lemma timein_turn:
  assumes ok: "clk_ok st" and due: "due_calls st \<noteq> {#}"
  shows "\<exists>p st1. take_first st = (p, st1) \<and> timein run (st, w) = timein run (run p (st1, w)) \<and> clk_ok st1 \<and> lbolt st1 = lbolt st \<and>
           pending st = add_mset p (pending st1) \<and> due st p \<and> (\<forall>q \<in># pending st. c_time p \<le> c_time q)"
proof -
  obtain p st1 where t: "take_first st = (p, st1)" by fastforce
  have c: "calllimit st \<ge> 0 \<and> c_time (hd (callout st)) \<le> lbolt st" using loop_test [OF ok] due by blast
  note s = take_first_step [OF ok conjunct1 [OF c] t]
  have "timein run (st, w) = timein run (run p (st1, w))" using c t by (subst timein.simps) simp
  with s c t show ?thesis by (auto simp: due_def)
qed

lemma timein_stop: "\<lbrakk>clk_ok st; due_calls st = {#}\<rbrakk> \<Longrightarrow> timein run (st, w) = Some (st, w)"
  using loop_test [of st] by (subst timein.simps) auto

text \<open>C36: \<^verbatim>\<open>timein\<close> comes to an end and leaves no request that is due, whatever the functions it calls do to the table within reason;
  in particular they may call \<^verbatim>\<open>timeout\<close> and \<^verbatim>\<open>untimeout\<close>.\<close>

theorem timein_completes:
  assumes "clk_reach st" and "good_run run"
  shows "\<exists>st' w'. timein run (st, w) = Some (st', w') \<and> lbolt st' = lbolt st \<and> (\<forall>p \<in># pending st'. lbolt st < c_time p)"
proof -
  have "\<exists>st' w'. timein run (st, w) = Some (st', w') \<and> lbolt st' = lbolt st \<and> (\<forall>p \<in># pending st'. lbolt st < c_time p)"
    if "clk_ok st" for st w
    using that
  proof (induction "size (due_calls st)" arbitrary: st w rule: less_induct)
    case less
    show ?case
    proof (cases "due_calls st = {#}")
      case True
      then have "\<forall>p \<in># pending st. lbolt st < c_time p" by (auto simp: due_def not_le)
      then show ?thesis using timein_stop [OF less.prems True, of run w] by (intro exI [of _ st] exI [of _ w]) simp
    next
      case False
      obtain p st1 where t: "timein run (st, w) = timein run (run p (st1, w))" "clk_ok st1" "lbolt st1 = lbolt st"
          "pending st = add_mset p (pending st1)" "due st p"
        using timein_turn [OF less.prems False, of run w] by auto
      obtain st2 w2 where r: "run p (st1, w) = (st2, w2)" by fastforce
      have g: "clk_ok st2" "lbolt st2 = lbolt st1" "size (due_calls st2) \<le> size (due_calls st1)"
        using assms(2) [unfolded good_run_def, rule_format, OF conjI [OF t(2) r]] by simp_all
      have "due st1 = due st" using t(3) by (simp add: due_def fun_eq_iff)
      then have "size (due_calls st1) < size (due_calls st)" using t(4,5) by simp
      then show ?thesis using less.hyps [of st2 w2] g t(1,3) r by simp
    qed
  qed
  then show ?thesis using clk_reach_ok [OF assms(1)] by blast
qed

text \<open>C37: When the functions called leave the table alone, \<^verbatim>\<open>timein\<close> calls exactly the functions whose time has come, each once and
  in the order of their times, and keeps exactly the other requests.\<close>

theorem timein_calls_in_order:
  assumes "clk_reach st"
  shows "\<exists>st' calls. timein (\<lambda>p (s, w). (s, f p w)) (st, w) = Some (st', fold f calls w) \<and>
           mset calls = due_calls st \<and> sorted (map c_time calls) \<and> pending st' = filter_mset (\<lambda>p. \<not> due st p) (pending st)"
proof -
  let ?run = "\<lambda>p (s, w). (s, f p w)"
  have "\<exists>st' calls. timein ?run (st, w) = Some (st', fold f calls w) \<and> mset calls = due_calls st \<and>
      sorted (map c_time calls) \<and> pending st' = filter_mset (\<lambda>p. \<not> due st p) (pending st)" if "clk_ok st" for st w
    using that
  proof (induction "size (due_calls st)" arbitrary: st w rule: less_induct)
    case less
    show ?case
    proof (cases "due_calls st = {#}")
      case True
      have "filter_mset (\<lambda>p. \<not> due st p) (pending st) = pending st" using True by (auto simp: filter_mset_eq_conv)
      then show ?thesis using timein_stop [OF less.prems True, of ?run w] True by (intro exI [of _ st] exI [of _ "[]"]) simp
    next
      case False
      obtain p st1 where t: "timein ?run (st, w) = timein ?run (st1, f p w)" "clk_ok st1" "lbolt st1 = lbolt st"
          "pending st = add_mset p (pending st1)" "due st p" "\<forall>q \<in># pending st. c_time p \<le> c_time q"
        using timein_turn [OF less.prems False, of ?run w] by auto
      have d: "due st1 = due st" using t(3) by (simp add: due_def fun_eq_iff)
      have "size (due_calls st1) < size (due_calls st)" using t(4,5) d by simp
      then obtain st' calls where ih: "timein ?run (st1, f p w) = Some (st', fold f calls (f p w))" "mset calls = due_calls st1"
          "sorted (map c_time calls)" "pending st' = filter_mset (\<lambda>p. \<not> due st1 p) (pending st1)"
        using less.hyps [OF _ t(2), of "f p w"] by blast
      have "\<forall>q \<in> set calls. c_time p \<le> c_time q"
      proof
        fix q assume "q \<in> set calls"
        then have "q \<in># due_calls st1" unfolding ih(2) [symmetric] by simp
        with t(4,6) show "c_time p \<le> c_time q" by simp
      qed
      then have "sorted (map c_time (p # calls))" using ih(3) by simp
      then show ?thesis
        using t(1,4,5) ih d by (intro exI [of _ st'] exI [of _ "p # calls"]) simp
    qed
  qed
  then show ?thesis using clk_reach_ok [OF assms] by blast
qed

section \<open>Witnesses\<close>

definition no_callo :: callo where "no_callo = \<lparr>c_time = 0, c_id = 0, c_arg = 0, c_func = 0\<rparr>"

lemma two_requests:
  "\<exists>st. clk_reach st \<and> length (callout st) = 2 \<and> lbolt st = 10 \<and>
     pending st = {#\<lparr>c_time = 5, c_id = 1, c_arg = 0, c_func = 7\<rparr>, \<lparr>c_time = 3, c_id = 2, c_arg = 0, c_func = 8\<rparr>#}"
proof -
  let ?s = "\<lparr>callout = [no_callo, no_callo], calllimit = -1, timeid = 0, lbolt = 0\<rparr>"
  have r0: "clk_reach ?s" by (rule clk_reach.init)
  have p0: "pending ?s = {#}" by (simp add: pending_def)
  have id: "to_long 5 = 5" "to_long 3 = 3" "to_long 1 = 1" "to_long 2 = 2" by (simp_all add: to_long_def)
  obtain i st1 where t1: "timeout 7 0 5 ?s = Some (i, st1)"
    using timeout_None [OF clk_reach_ok [OF r0], of 7 0 5] p0 by auto
  note s1 = timeout_step [OF clk_reach_ok [OF r0] t1]
  have r1: "clk_reach st1" by (rule clk_reach.timeout [OF r0 t1])
  have p1: "pending st1 = {#\<lparr>c_time = 5, c_id = 1, c_arg = 0, c_func = 7\<rparr>#}" "length (callout st1) = 2" "lbolt st1 = 0" "timeid st1 = 1"
    using s1 p0 by (simp_all add: id)
  obtain j st2 where t2: "timeout 8 0 3 st1 = Some (j, st2)"
    using timeout_None [OF clk_reach_ok [OF r1], of 8 0 3] p1 by auto
  note s2 = timeout_step [OF clk_reach_ok [OF r1] t2]
  have "clk_reach (st2\<lparr>lbolt := 10\<rparr>)" by (rule clk_reach.tick [OF clk_reach.timeout [OF r1 t2]])
  moreover have "pending (st2\<lparr>lbolt := 10\<rparr>) = pending st2" by (simp add: pending_def)
  ultimately show ?thesis using s2 p1 by (intro exI [of _ "st2\<lparr>lbolt := 10\<rparr>"]) (simp add: id add_mset_commute)
qed

theorem callout_is_set_of_requests_witness: "\<exists>st. clk_reach st \<and> size (pending st) = 2 \<and> timeout 9 0 1 st = None"
proof -
  obtain st where st: "clk_reach st" "length (callout st) = 2" "size (pending st) = 2" using two_requests by fastforce
  then show ?thesis using callout_is_set_of_requests [OF st(1), of 9 0 1] by auto
qed

theorem timein_completes_witness:
  "\<exists>st st'. clk_reach st \<and> size (pending st) = 2 \<and> timein (\<lambda>p s. s) (st, ()) = Some (st', ()) \<and> (\<forall>p \<in># pending st'. 10 < c_time p)"
proof -
  obtain st where st: "clk_reach st" "lbolt st = 10" "size (pending st) = 2" using two_requests by fastforce
  have "good_run (\<lambda>p s. s :: clkstate \<times> unit)" by (simp add: good_run_def)
  from timein_completes [OF st(1) this, of "()"] st show ?thesis by auto
qed

theorem timein_calls_in_order_witness:
  "\<exists>st st'. clk_reach st \<and> timein (\<lambda>p (s, w). (s, w @ [c_time p])) (st, []) = Some (st', [3, 5]) \<and> pending st' = {#}"
proof -
  obtain st where st: "clk_reach st" "lbolt st = 10"
      "pending st = {#\<lparr>c_time = 5, c_id = 1, c_arg = 0, c_func = 7\<rparr>, \<lparr>c_time = 3, c_id = 2, c_arg = 0, c_func = 8\<rparr>#}"
    using two_requests by blast
  obtain st' calls where c: "timein (\<lambda>p (s, w). (s, w @ [c_time p])) (st, []) = Some (st', fold (\<lambda>p w. w @ [c_time p]) calls [])"
      "mset calls = due_calls st" "sorted (map c_time calls)" "pending st' = filter_mset (\<lambda>p. \<not> due st p) (pending st)"
    using timein_calls_in_order [OF st(1), of "\<lambda>p w. w @ [c_time p]" "[]"] by blast
  have "fold (\<lambda>p w. w @ [c_time p]) ps acc = acc @ map c_time ps" for ps :: "callo list" and acc by (induction ps arbitrary: acc) auto
  moreover have "mset (map c_time calls) = mset [5, 3]" using c(2) st by (simp add: due_def mset_map)
  then have "map c_time calls = sort [5, 3]" using c(3) by (metis properties_for_sort)
  ultimately show ?thesis using st c by (intro exI [of _ st] exI [of _ st']) (simp add: due_def)
qed

end
