(* ===== verification/In_cksum.thy ===== *)
theory In_cksum
  imports Strmsg_Data
begin

text \<open>
  The Internet checksum, \<^verbatim>\<open>netinet/in_cksum.c\<close>, over the messages of \<^verbatim>\<open>io/stream.c\<close>, as compiled for the i386 and for
  a length that is not negative, and its equality with the one's complement sum of the data as sixteen-bit words. The routine adds whole words where they lie on
  even addresses, whatever the lengths and addresses of the blocks, and keeps its sum with the bytes exchanged while it has
  seen an odd number of bytes.
\<close>

section \<open>The code\<close>

text \<open>\<^verbatim>\<open>sum += *(ushort *) w\<close> for \<^verbatim>\<open>nwords\<close> words; the i386 stores the low byte first.\<close>

fun add_words :: "u8 list \<Rightarrow> u32 \<Rightarrow> u32" where
  "add_words (a # b # bs) s = add_words bs (s + (ucast a + push_bit 8 (ucast b)))"
| "add_words bs s = s"

definition fold_once :: "u32 \<Rightarrow> u32" where
  "fold_once s = (s AND 0xffff) + drop_bit 16 s"

definition swap_bytes :: "u32 \<Rightarrow> u32" where
  "swap_bytes s = push_bit 8 (s AND 0xff) OR drop_bit 8 s"

lemma low16: "(s :: u32) AND 0xffff = take_bit 16 s"
  by (simp add: take_bit_eq_mask mask_eq_exp_minus_1)

lemma unat_low16: "unat ((s :: u32) AND 0xffff) = unat s mod 65536"
  unfolding low16 by (simp add: unsigned_take_bit_eq) (simp add: take_bit_eq_mod)

lemma unat_high16: "unat (drop_bit 16 (s :: u32)) = unat s div 65536"
  by (simp add: drop_bit_eq_div unat_div)

lemma unat_fold_once: "unat (fold_once s) = unat s mod 65536 + unat s div 65536"
proof -
  have "unat s < 2 ^ 32" using unsigned_less [of s] by simp
  then have "unat s mod 65536 + unat s div 65536 < 2 ^ 32" by simp
  then show ?thesis by (simp add: fold_once_def unat_plus_nowrap unat_low16 unat_high16)
qed

text \<open>\<^verbatim>\<open>while (sum & ~0xffff)\<close>.\<close>

lemma above16: "(s :: u32) AND NOT 0xffff \<noteq> 0 \<longleftrightarrow> 65536 \<le> unat s"
proof -
  have m: "(0xffff :: u32) = mask 16" by (simp add: mask_eq_exp_minus_1)
  have b: "bit (s AND NOT (mask 16)) n \<longleftrightarrow> bit s n \<and> 16 \<le> n" for n
    using bit_imp_le_length [of s n] by (auto simp: bit_simps)
  have "s AND NOT (mask 16) = 0 \<longleftrightarrow> drop_bit 16 s = 0"
  proof
    assume z: "s AND NOT (mask 16) = 0"
    have "\<not> bit s (16 + n)" for n using b [of "16 + n"] unfolding z by simp
    then show "drop_bit 16 s = 0" by (intro bit_eqI) (simp only: bit_drop_bit_eq o_def, simp)
  next
    assume z: "drop_bit 16 s = 0"
    have "\<not> bit s n" if "16 \<le> n" for n
      using arg_cong [OF z, of "\<lambda>w. bit w (n - 16)"] that by (simp only: bit_drop_bit_eq o_def) simp
    then show "s AND NOT (mask 16) = 0" by (intro bit_eqI) (simp only: b, auto)
  qed
  then have "s AND NOT 0xffff = 0 \<longleftrightarrow> drop_bit 16 s = 0" unfolding m .
  also have "\<dots> \<longleftrightarrow> unat s div 65536 = 0" using unat_high16 [of s] by (metis unat_eq_zero)
  also have "\<dots> \<longleftrightarrow> \<not> 65536 \<le> unat s" by (auto simp: div_eq_0_iff)
  finally show ?thesis by blast
qed

function fold_sum :: "u32 \<Rightarrow> u32" where
  "fold_sum s = (if s AND NOT 0xffff \<noteq> 0 then fold_sum (fold_once s) else s)"
  by pat_completeness auto
termination
proof (relation "measure unat")
  fix s :: u32 assume "s AND NOT 0xffff \<noteq> 0"
  then have "65536 \<le> unat s" unfolding above16 .
  then have "unat s mod 65536 + unat s div 65536 < unat s" using div_mult_mod_eq [of "unat s" 65536] by linarith
  then show "(fold_once s, s) \<in> measure unat" by (simp add: unat_fold_once)
qed simp

declare fold_sum.simps [simp del]

text \<open>A byte on its own, at an odd address or at the odd end of a block.\<close>

definition add_byte :: "u8 \<Rightarrow> u32 \<Rightarrow> u32" where
  "add_byte b s = swap_bytes (fold_once (s + ucast b))"

text \<open>
  The loop over the blocks: the length left, the sum, and whether its bytes are exchanged. The address of \<^verbatim>\<open>b_rptr\<close> is odd
  when \<open>db_align\<close> and \<^verbatim>\<open>b_rptr\<close> together are.
\<close>

fun cksum_blocks :: "msgheap \<Rightarrow> nat list \<Rightarrow> nat \<Rightarrow> u32 \<Rightarrow> bool \<Rightarrow> nat \<times> u32 \<times> bool" where
  "cksum_blocks st [] len s fswap = (len, s, fswap)"
| "cksum_blocks st (mp # bs) len s fswap =
     (if len = 0 then (len, s, fswap)
      else
        (let mlen = min len (bsize st mp);
             w = block_bytes st mp mlen;
             odd_addr = odd (db_align (data_of st mp) + b_rptr (mblks st mp)) \<and> mlen \<noteq> 0;
             (s1, f1, w1) = (if odd_addr then (add_byte (hd w) s, \<not> fswap, tl w) else (s, fswap, w));
             s2 = fold_sum (add_words w1 s1);
             (s3, f3) = (if odd (length w1) then (add_byte (last w1) s2, \<not> f1) else (s2, f1))
         in cksum_blocks st bs (len - mlen) s3 f3))"

text \<open>\<open>None\<close> is the panic on a message that is too short.\<close>

definition in_cksum :: "nat \<Rightarrow> nat \<Rightarrow> msgheap \<Rightarrow> u16 option" where
  "in_cksum mp len st =
     (case blocks st (Some mp) of
        None \<Rightarrow> None
      | Some bs \<Rightarrow>
          (case cksum_blocks st bs len 0 False of
             (len', s, fswap) \<Rightarrow>
               if len' \<noteq> 0 then None
               else Some (ucast (NOT (if fswap then swap_bytes s else s)))))"

section \<open>The reference\<close>

text \<open>The bytes as words, low byte first, added as numbers; and the one's complement sum of sixteen bits.\<close>

definition bytes_sum :: "u8 list \<Rightarrow> nat" where
  "bytes_sum bs = (\<Sum>i < length bs. unat (bs ! i) * 256 ^ (i mod 2))"

definition ones_sum :: "nat \<Rightarrow> nat" where
  "ones_sum n = (if n = 0 then 0 else (n - 1) mod 65535 + 1)"

section \<open>Arithmetic modulo 65535\<close>

lemma parts_zero: "m mod 65536 + m div 65536 = 0 \<longleftrightarrow> m = (0 :: nat)"
  using div_mult_mod_eq [of m 65536] by (cases "m div 65536 = 0") simp_all

lemma parts_zero': "256 * (m mod 256) + m div 256 = 0 \<longleftrightarrow> m = (0 :: nat)"
  using div_mult_mod_eq [of m 256] by (cases "m div 256 = 0") simp_all

lemma fold_mod: "(m mod 65536 + m div 65536) mod 65535 = m mod (65535 :: nat)"
proof -
  have "m = 65535 * (m div 65536) + (m mod 65536 + m div 65536)" using div_mult_mod_eq [of m 65536] by linarith
  then show ?thesis by (metis mod_mult_self4)
qed

lemma swap_mod: "(256 * (m mod 256) + m div 256) mod 65535 = 256 * m mod (65535 :: nat)"
proof -
  have "256 * m = 65535 * (m div 256) + (256 * (m mod 256) + m div 256)" using div_mult_mod_eq [of m 256] by linarith
  then show ?thesis by (metis mod_mult_self4)
qed

lemma mod_256_twice: "256 * (256 * m) mod 65535 = m mod (65535 :: nat)"
proof -
  have "256 * (256 * m) = 65535 * m + m" by simp
  then show ?thesis by (metis mod_mult_self4)
qed

lemma unat_swap_bytes:
  assumes "unat s < 65536"
  shows "unat (swap_bytes s) = 256 * (unat s mod 256) + unat s div 256"
proof -
  have m: "(0xff :: u32) = mask 8" by (simp add: mask_eq_exp_minus_1)
  have hi: "\<not> bit s n" if "16 \<le> n" for n
  proof -
    have "take_bit 16 s = s" using assms by (simp add: word_unat_eq_iff unsigned_take_bit_eq) (simp add: take_bit_eq_mod)
    then have "bit s n \<longleftrightarrow> bit (take_bit 16 s) n" by simp
    with that show ?thesis by (simp only: bit_take_bit_iff) simp
  qed
  have disj: "\<not> bit (push_bit 8 (s AND 0xff)) n \<or> \<not> bit (drop_bit 8 s) n" for n
    using hi [of "8 + n"] unfolding m by (simp only: bit_push_bit_iff bit_drop_bit_eq o_def) auto
  have a: "unat (push_bit 8 (s AND 0xff)) = 256 * (unat s mod 256)"
  proof -
    have "unat (s AND 0xff) = unat s mod 256"
      unfolding m by (simp add: take_bit_eq_mask [symmetric] unsigned_take_bit_eq) (simp add: take_bit_eq_mod)
    then show ?thesis by (simp add: push_bit_eq_mult unat_mult_lem [THEN iffD1])
  qed
  have b: "unat (drop_bit 8 s) = unat s div 256" by (simp add: drop_bit_eq_div unat_div)
  have "swap_bytes s = push_bit 8 (s AND 0xff) + drop_bit 8 s"
    unfolding swap_bytes_def using disj by (intro disjunctive_add [symmetric])
  moreover have "256 * (unat s mod 256) + unat s div 256 < 2 ^ 32" using assms by simp
  ultimately show ?thesis
    using unat_plus_nowrap [of "push_bit 8 (s AND 0xff)" "drop_bit 8 s", unfolded a b] by simp
qed

section \<open>The sum represents the data\<close>

fun bsum :: "bool \<Rightarrow> u8 list \<Rightarrow> nat" where
  "bsum f [] = 0"
| "bsum f (b # bs) = unat b * (if f then 256 else 1) + bsum (\<not> f) bs"

lemma bsum_append: "bsum f (xs @ ys) = bsum f xs + bsum (f \<noteq> odd (length xs)) ys"
proof (induction xs arbitrary: f)
  case (Cons x xs)
  then show ?case by (cases f; cases "even (length xs)") simp_all
qed simp

text \<open>Before \<open>s\<close> is folded, and after.\<close>

definition rep :: "u32 \<Rightarrow> bool \<Rightarrow> nat \<Rightarrow> bool" where
  "rep s f v \<longleftrightarrow> (unat s = 0 \<longleftrightarrow> v = 0) \<and> unat s mod 65535 = (if f then 256 * v else v) mod 65535"

lemma fold_once_rep: "rep s f v \<Longrightarrow> rep (fold_once s) f v"
  unfolding rep_def unat_fold_once fold_mod parts_zero .

lemma fold_sum_rep: "rep s f v \<Longrightarrow> rep (fold_sum s) f v \<and> unat (fold_sum s) < 65536"
proof (induction s rule: fold_sum.induct)
  case (1 s)
  then show ?case using above16 [of s] fold_once_rep by (subst (1 2) fold_sum.simps) auto
qed

lemma unat_byte: "unat (ucast (b :: u8) :: u32) = unat b"
proof -
  have "unat b < 2 ^ LENGTH(8)" by (rule unsigned_less)
  then show ?thesis by (simp add: unsigned_ucast_eq take_bit_eq_mod)
qed

lemma times_256_cong: "a mod 65535 = b mod (65535 :: nat) \<Longrightarrow> 256 * a mod 65535 = 256 * b mod 65535"
  by (metis mod_mult_right_eq)

lemma add_byte_rep:
  assumes r: "rep s f v" and s: "unat s < 65536"
  shows "rep (add_byte b s) (\<not> f) (v + unat b * (if f then 256 else 1)) \<and> unat (add_byte b s) < 65536"
proof -
  define m c where "m = unat s + unat b" and "c = m mod 65536 + m div 65536"
  have b: "unat b < 256" using unsigned_less [of b] by simp
  have "unat (s + ucast b) = m" using s b by (simp add: unat_plus_nowrap m_def unat_byte)
  then have fc: "unat (fold_once (s + ucast b)) = c" by (simp add: unat_fold_once c_def)
  have m: "m < 65792" using s b by (simp add: m_def)
  have c: "c < 65536" "c = 0 \<longleftrightarrow> m = 0" "c mod 65535 = m mod 65535"
  proof -
    have "m div 65536 < 2" "m mod 65536 < 65536" using m by (simp_all add: div_less_iff_less_mult)
    then show "c < 65536" unfolding c_def using div_mult_mod_eq [of m 65536] m by linarith
    show "c = 0 \<longleftrightarrow> m = 0" unfolding c_def by (rule parts_zero)
    show "c mod 65535 = m mod 65535" by (simp add: c_def fold_mod)
  qed
  have u: "unat (add_byte b s) = 256 * (c mod 256) + c div 256"
    using unat_swap_bytes [of "fold_once (s + ucast b)"] c(1) fc by (simp add: add_byte_def)
  have "c div 256 < 256" "c mod 256 < 256" using c(1) by (simp_all add: div_less_iff_less_mult)
  then have lt: "unat (add_byte b s) < 65536" unfolding u by linarith
  have z: "unat (add_byte b s) = 0 \<longleftrightarrow> m = 0" unfolding u using c(2) parts_zero' [of c] by simp
  have e: "unat (add_byte b s) mod 65535 = 256 * m mod 65535" unfolding u swap_mod by (rule times_256_cong [OF c(3)])
  have "256 * m mod 65535 = (if \<not> f then 256 * (v + unat b) else v + unat b * 256) mod 65535"
  proof (cases f)
    case False
    then have "m mod 65535 = (v + unat b) mod 65535" using r by (simp add: rep_def m_def) (metis mod_add_left_eq)
    from times_256_cong [OF this] False show ?thesis by simp
  next
    case True
    then have "m mod 65535 = (256 * v + unat b) mod 65535" using r by (simp add: rep_def m_def) (metis mod_add_left_eq)
    from times_256_cong [OF this] have "256 * m mod 65535 = (256 * (256 * v) + 256 * unat b) mod 65535"
      unfolding distrib_left .
    also have "\<dots> = (v + 256 * unat b) mod 65535" by (rule mod_add_cong [OF mod_256_twice refl])
    finally show ?thesis using True by (simp add: mult.commute)
  qed
  with e have "unat (add_byte b s) mod 65535 = (if \<not> f then 256 * (v + unat b) else v + unat b * 256) mod 65535" by (rule trans)
  moreover have "m = 0 \<longleftrightarrow> v + unat b * (if f then 256 else 1) = 0" using r by (simp add: rep_def m_def)
  ultimately show ?thesis using lt z unfolding rep_def by (cases f) simp_all
qed

section \<open>One block\<close>

lemma bsum_even: "even n \<Longrightarrow> bsum f xs = bsum f (take n xs) + bsum f (drop n xs)"
  using bsum_append [of f "take n xs" "drop n xs"] by (cases "n \<le> length xs") auto

text \<open>The sum of words does not wrap while at most 65536 words are added to a folded sum.\<close>

lemma unat_word: "unat (ucast (a :: u8) + push_bit 8 (ucast b) :: u32) = unat a + 256 * unat (b :: u8)"
proof -
  have l: "unat a < 256" "unat b < 256" using unsigned_less [of a] unsigned_less [of b] by simp_all
  have "unat (push_bit 8 (ucast b :: u32)) = 256 * unat b"
    using l by (simp add: push_bit_eq_mult unat_mult_lem [THEN iffD1] unat_byte)
  then show ?thesis using l by (simp add: unat_plus_nowrap unat_byte)
qed

lemma add_words_rep:
  assumes "rep s f v" and "unat s + 65535 * (length w div 2) < 2 ^ 32"
  shows "rep (add_words w s) f (v + bsum f (take (2 * (length w div 2)) w))"
  using assms
proof (induction w s arbitrary: v rule: add_words.induct)
  case (1 a b bs s)
  define x where "x = unat a + 256 * unat b"
  have "unat a < 256" "unat b < 256" by (use unsigned_less [of a] in simp, use unsigned_less [of b] in simp)
  then have l: "x \<le> 65535" unfolding x_def by linarith
  have h: "length (a # b # bs) div 2 = Suc (length bs div 2)" by simp
  have "unat (s + (ucast a + push_bit 8 (ucast b))) = unat s + x"
    using 1(3) l unfolding h by (simp add: unat_plus_nowrap unat_word x_def)
  note u = this
  have "256 * (unat a * 256 + unat b) mod 65535 = x mod 65535"
    using mod_add_cong [OF mod_256_twice [of "unat a"] refl, of "256 * unat b"] by (simp add: x_def algebra_simps)
  then have "x mod 65535 = (if f then 256 * (unat a * 256 + unat b) else unat a + unat b * 256) mod 65535"
    by (simp add: x_def mult.commute)
  moreover have "unat s mod 65535 = (if f then 256 * v else v) mod 65535" using 1(2) by (simp add: rep_def)
  ultimately have "(unat s + x) mod 65535 = ((if f then 256 * v else v) + (if f then 256 * (unat a * 256 + unat b) else unat a + unat b * 256)) mod 65535"
    by (intro mod_add_cong)
  then have "rep (s + (ucast a + push_bit 8 (ucast b))) f (v + bsum f [a, b])"
    using 1(2) unfolding rep_def u by (auto simp: x_def distrib_left)
  from 1(1) [OF this] show ?case using 1(3) l unfolding u h by (simp add: add.assoc)
qed simp_all

text \<open>The words of a block and the byte after them.\<close>

definition even_part :: "u8 list \<Rightarrow> u32 \<Rightarrow> bool \<Rightarrow> u32 \<times> bool" where
  "even_part w s f = (let s2 = fold_sum (add_words w s) in if odd (length w) then (add_byte (last w) s2, \<not> f) else (s2, f))"

lemma even_part_rep:
  assumes "rep s f v" and "unat s < 65536" and "length w \<le> 131072"
  shows "rep (fst (even_part w s f)) (snd (even_part w s f)) (v + bsum f w) \<and> unat (fst (even_part w s f)) < 65536 \<and>
         snd (even_part w s f) = (f \<noteq> odd (length w))"
proof -
  let ?n = "2 * (length w div 2)"
  have "length w div 2 \<le> 65536" using assms(3) by simp
  then have "unat s + 65535 * (length w div 2) < 2 ^ 32" using assms(2) by simp
  from fold_sum_rep [OF add_words_rep [OF assms(1) this]]
  have r: "rep (fold_sum (add_words w s)) f (v + bsum f (take ?n w))" "unat (fold_sum (add_words w s)) < 65536" by simp_all
  show ?thesis
  proof (cases "odd (length w)")
    case True
    then have "w = take ?n w @ [last w]"
      by (metis append_butlast_last_id butlast_conv_take even_Suc_div_two list.size(3) odd_Suc_minus_one odd_two_times_div_two_nat even_zero)
    then have "bsum f w = bsum f (take ?n w) + bsum f [last w]"
      using bsum_append [of f "take ?n w" "[last w]"] by simp
    then show ?thesis using add_byte_rep [OF r, of "last w"] True by (simp add: even_part_def Let_def add.assoc)
  next
    case False
    then show ?thesis using r by (simp add: even_part_def Let_def)
  qed
qed

definition block_sum :: "bool \<Rightarrow> u8 list \<Rightarrow> u32 \<Rightarrow> bool \<Rightarrow> u32 \<times> bool" where
  "block_sum odd_addr w s f = (if odd_addr then even_part (tl w) (add_byte (hd w) s) (\<not> f) else even_part w s f)"

lemma cksum_blocks_Cons:
  "cksum_blocks st (mp # bs) len s f =
     (if len = 0 then (len, s, f)
      else
        (let mlen = min len (bsize st mp);
             (s3, f3) = block_sum (odd (db_align (data_of st mp) + b_rptr (mblks st mp)) \<and> mlen \<noteq> 0) (block_bytes st mp mlen) s f
         in cksum_blocks st bs (len - mlen) s3 f3))"
  by (simp add: block_sum_def even_part_def Let_def split: prod.splits)

lemma block_sum_rep:
  assumes r: "rep s f v" and s: "unat s < 65536" and w: "length w \<le> 131072" and o: "odd_addr \<longrightarrow> w \<noteq> []"
  shows "rep (fst (block_sum odd_addr w s f)) (snd (block_sum odd_addr w s f)) (v + bsum f w) \<and>
         unat (fst (block_sum odd_addr w s f)) < 65536 \<and> snd (block_sum odd_addr w s f) = (f \<noteq> odd (length w))"
proof (cases odd_addr)
  case True
  then obtain b w' where w': "w = b # w'" using o by (cases w) auto
  note a = add_byte_rep [OF r s, of b]
  have e: "block_sum odd_addr (b # w') s f = even_part w' (add_byte b s) (\<not> f)" using True by (simp add: block_sum_def)
  have "length w' \<le> 131072" using w w' by simp
  from even_part_rep [OF conjunct1 [OF a] conjunct2 [OF a] this] show ?thesis
    unfolding w' e by (cases f) (auto simp: add.assoc)
next
  case False
  then have e: "block_sum odd_addr w s f = even_part w s f" by (simp add: block_sum_def)
  show ?thesis unfolding e by (rule even_part_rep [OF r s w])
qed

section \<open>The blocks of a message\<close>

lemma cksum_blocks_rep:
  assumes "cksum_blocks st bs len s f = (len', s', f')" and "rep s f v" and "unat s < 65536"
    and "\<forall>b \<in> set bs. wf_blk st b \<and> bsize st b \<le> 131072"
  shows "len' = len - length (msg_data st bs) \<and> rep s' f' (v + bsum f (take len (msg_data st bs))) \<and> unat s' < 65536"
  using assms
proof (induction bs arbitrary: len s f v)
  case (Cons b bs)
  show ?case
  proof (cases "len = 0")
    case False
    define k where "k = min len (bsize st b)"
    define w where "w = block_bytes st b k"
    have lb: "length (blk_data st b) = bsize st b" using Cons.prems(4) by (simp add: length_blk_data)
    have w: "w = take len (blk_data st b)" using block_bytes_take [of k st b] lb by (simp add: w_def k_def min_def)
    have lw: "length w = k" using lb by (simp add: w k_def)
    have k: "length w \<le> 131072" using Cons.prems(4) unfolding lw k_def by (intro min.coboundedI2) simp
    define oa where "oa = (odd (db_align (data_of st b) + b_rptr (mblks st b)) \<and> k \<noteq> 0)"
    obtain s3 f3 where b3: "block_sum oa w s f = (s3, f3)" by (cases "block_sum oa w s f")
    have "oa \<longrightarrow> w \<noteq> []" using lw by (auto simp: oa_def)
    from block_sum_rep [OF Cons.prems(2,3) k this]
    have r: "rep s3 f3 (v + bsum f w)" "unat s3 < 65536" "f3 = (f \<noteq> odd (length w))" unfolding b3 by auto
    have step: "cksum_blocks st bs (len - k) s3 f3 = (len', s', f')"
      using Cons.prems(1) False b3 unfolding cksum_blocks_Cons Let_def oa_def w_def k_def by simp
    have "\<forall>b \<in> set bs. wf_blk st b \<and> bsize st b \<le> 131072" using Cons.prems(4) by simp
    note ih = Cons.IH [OF step r(1,2) this]
    have kl: "len - k = len - bsize st b" by (simp add: k_def)
    have "bsum f (take len (msg_data st (b # bs))) = bsum f w + bsum f3 (take (len - k) (msg_data st bs))"
      using bsum_append [of f w] r(3) by (simp add: w kl lb)
    then show ?thesis using ih by (simp add: lb kl add.assoc)
  qed (use Cons.prems in simp)
qed simp

lemma bytes_sum_bsum: "bytes_sum bs = bsum False bs"
proof -
  have "(\<Sum>i < length bs. unat (bs ! i) * 256 ^ ((i + n) mod 2)) = bsum (odd n) bs" for n
  proof (induction bs arbitrary: n)
    case (Cons b bs)
    have "256 ^ (n mod 2) = (if odd n then 256 else 1 :: nat)" by (simp add: odd_iff_mod_2_eq_one)
    then show ?case using Cons [of "Suc n"] unfolding length_Cons sum.lessThan_Suc_shift by simp
  qed simp
  from this [of 0] show ?thesis by (simp add: bytes_sum_def)
qed

lemma rep_ones_sum:
  assumes "rep s False v" and "unat s < 65536"
  shows "unat s = ones_sum v"
proof (cases "v = 0")
  case False
  then have s: "0 < unat s" "unat s mod 65535 = v mod 65535" using assms(1) by (auto simp: rep_def)
  have *: "(m - 1) mod 65535 = (if m mod 65535 = 0 then 65534 else m mod 65535 - 1)" if "0 < m" for m :: nat
    using that mod_Suc [of "m - 1" 65535] by (cases m) auto
  have "unat s - 1 < 65535" using assms(2) by linarith
  then have "unat s = (unat s - 1) mod 65535 + 1" using s(1) by simp
  also have "(unat s - 1) mod 65535 = (v - 1) mod 65535"
    unfolding * [OF s(1)] s(2) using * [of v] False by simp
  finally show ?thesis using False by (simp add: ones_sum_def)
qed (use assms in \<open>simp add: rep_def ones_sum_def\<close>)

section \<open>The checksum\<close>

lemma finish_sum:
  assumes "rep s f v" and "unat s < 65536"
  shows "ucast (NOT (if f then swap_bytes s else s)) = (of_nat (65535 - ones_sum v) :: u16)"
proof -
  define u where "u = (if f then swap_bytes s else s)"
  have u: "rep u False v" "unat u < 65536"
  proof -
    have "unat s mod 256 < 256" "unat s div 256 < 256" using assms(2) by (simp_all add: div_less_iff_less_mult)
    then have lt: "256 * (unat s mod 256) + unat s div 256 < 65536" by linarith
    have "rep (swap_bytes s) False v" if f
    proof -
      have "unat s mod 65535 = 256 * v mod 65535" using assms(1) that by (simp add: rep_def)
      from times_256_cong [OF this] have "256 * unat s mod 65535 = v mod 65535" unfolding mod_256_twice .
      then show ?thesis using assms parts_zero' [of "unat s"] unfolding rep_def unat_swap_bytes [OF assms(2)] swap_mod by simp
    qed
    then show "rep u False v" using assms(1) by (cases f) (simp_all add: u_def)
    show "unat u < 65536" using assms(2) lt unat_swap_bytes [OF assms(2)] by (simp add: u_def)
  qed
  have e: "unat u = ones_sum v" by (rule rep_ones_sum [OF u])
  have "u = of_nat (ones_sum v)" unfolding e [symmetric] by simp
  then have c: "ucast u = (of_nat (ones_sum v) :: u16)" by (simp add: unsigned_of_nat word_of_nat_eq_iff)
  have "(ucast (NOT u) :: u16) = NOT (ucast u)" by (intro bit_eqI) (simp add: bit_simps)
  also have "\<dots> = - 1 - of_nat (ones_sum v)" unfolding c by (simp add: not_eq_complement)
  also have "\<dots> = of_nat (65535 - ones_sum v)" using u(2) e by (simp add: of_nat_diff)
  finally show ?thesis by (simp add: u_def)
qed

text \<open>C38: The checksum of a message is the complement of the one's complement sum of its first \<^verbatim>\<open>len\<close> bytes as sixteen-bit words,
  however the bytes are divided into blocks and wherever the blocks lie; and it panics exactly when there are not as many.\<close>

theorem in_cksum_exact:
  assumes "blocks st (Some mp) = Some bs" and "\<forall>b \<in> set bs. wf_blk st b \<and> bsize st b \<le> 131072"
  shows "in_cksum mp len st =
           (if len \<le> length (msg_data st bs) then Some (of_nat (65535 - ones_sum (bytes_sum (take len (msg_data st bs))))) else None)"
proof -
  obtain len' s f where c: "cksum_blocks st bs len 0 False = (len', s, f)" by (cases "cksum_blocks st bs len 0 False")
  have "rep 0 False 0" by (simp add: rep_def)
  from cksum_blocks_rep [OF c this _ assms(2)]
  have r: "len' = len - length (msg_data st bs)" "rep s f (bsum False (take len (msg_data st bs)))" "unat s < 65536" by simp_all
  show ?thesis using assms(1) c r(1) finish_sum [OF r(2,3)] by (simp add: in_cksum_def bytes_sum_bsum)
qed

lemma ones_sum_complement: "ones_sum (v + (65535 - ones_sum v)) = 65535"
proof -
  define n where "n = 65535 - ones_sum v"
  have "(v - 1) mod 65535 < 65535" by simp
  then have le: "ones_sum v \<le> 65535" by (simp only: ones_sum_def split: if_split) auto
  have "(ones_sum v) mod 65535 = v mod 65535"
    by (cases v) (simp_all add: ones_sum_def mod_Suc_eq)
  then have "(v + n) mod 65535 = (ones_sum v + n) mod 65535" by (metis mod_add_left_eq)
  also have "\<dots> = 0" using le by (simp add: n_def)
  finally have z: "(v + n) mod 65535 = 0" .
  have p: "0 < v + n" by (auto simp: n_def ones_sum_def)
  then have "(v + n - 1) mod 65535 + 1 = 65535"
    using z mod_Suc [of "v + n - 1" 65535] by (auto split: if_splits)
  with p show ?thesis unfolding n_def [symmetric] by (simp add: ones_sum_def)
qed

lemma bytes_sum_update:
  assumes "k < length ds" and "unat (ds ! k) = 0"
  shows "bytes_sum (ds[k := b]) = bytes_sum ds + unat b * 256 ^ (k mod 2)"
proof -
  have s: "bytes_sum xs = unat (xs ! k) * 256 ^ (k mod 2) + (\<Sum>i \<in> {..<length ds} - {k}. unat (xs ! i) * 256 ^ (i mod 2))"
    if "length xs = length ds" for xs :: "u8 list"
    unfolding bytes_sum_def that using assms(1) by (intro sum.remove) simp_all
  have "(\<Sum>i \<in> {..<length ds} - {k}. unat (ds[k := b] ! i) * 256 ^ (i mod 2)) =
        (\<Sum>i \<in> {..<length ds} - {k}. unat (ds ! i) * 256 ^ (i mod 2))" by (rule sum.cong) auto
  then show ?thesis using s [of ds] s [of "ds[k := b]"] assms by simp
qed

text \<open>A datagram whose checksum, computed while the two bytes of its checksum field were zero, has been stored in that field, at an even
  offset, has the checksum zero when the receiver verifies it, in whatever blocks it arrives.\<close>

theorem in_cksum_verifies:
  assumes sent: "blocks st (Some mp) = Some bs" "\<forall>b \<in> set bs. wf_blk st b \<and> bsize st b \<le> 131072" "take len (msg_data st bs) = ds"
    and field: "even k" "Suc k < length ds" "ds ! k = 0" "ds ! Suc k = 0"
    and sum: "in_cksum mp len st = Some c"
    and received: "blocks st' (Some mp') = Some bs'" "\<forall>b \<in> set bs'. wf_blk st' b \<and> bsize st' b \<le> 131072"
      "take len (msg_data st' bs') = ds[k := ucast c, Suc k := ucast (drop_bit 8 c)]"
  shows "in_cksum mp' len st' = Some 0"
proof -
  note e = in_cksum_exact [OF sent(1,2), of len, unfolded sent(3)] in_cksum_exact [OF received(1,2), of len]
  have len: "len \<le> length (msg_data st bs)" using sum e(1) by (simp split: if_splits)
  then have "length (take len (msg_data st' bs')) = len" unfolding received(3) using sent(3) by auto
  then have len': "len \<le> length (msg_data st' bs')" by simp
  define n where "n = 65535 - ones_sum (bytes_sum ds)"
  have c: "c = of_nat n" using sum e(1) len by (simp add: n_def)
  have u: "unat c = n" by (simp add: c n_def unat_of_nat)
  have lo: "unat (ucast c :: u8) = n mod 256" using u by (simp add: unsigned_ucast_eq take_bit_eq_mod)
  have hi: "unat (ucast (drop_bit 8 c) :: u8) = n div 256"
    using u by (simp add: unsigned_ucast_eq take_bit_eq_mod drop_bit_eq_div unat_div n_def)
  have "bytes_sum (ds[k := ucast c, Suc k := ucast (drop_bit 8 c)]) = bytes_sum ds + n mod 256 + (n div 256) * 256"
    using bytes_sum_update [of k ds "ucast c"] bytes_sum_update [of "Suc k" "ds[k := ucast c]" "ucast (drop_bit 8 c)"] field lo hi
    by (simp add: mod_2_eq_odd)
  also have "\<dots> = bytes_sum ds + n" by simp
  finally have "bytes_sum (take len (msg_data st' bs')) = bytes_sum ds + n" unfolding received(3) .
  then show ?thesis using e(2) len' ones_sum_complement [of "bytes_sum ds"] by (simp add: n_def)
qed

section \<open>Witnesses\<close>

text \<open>A packet in two blocks, the second at an odd address.\<close>

definition pkt_heap :: "u8 list \<Rightarrow> u8 list \<Rightarrow> msgheap" where
  "pkt_heap xs ys =
     \<lparr>mblks = (\<lambda>b. if b = 0 then \<lparr>b_cont = Some 1, b_rptr = 0, b_wptr = length xs, b_datap = 0, b_band = 0, b_flag = 0\<rparr>
                   else \<lparr>b_cont = None, b_rptr = 0, b_wptr = length ys, b_datap = 1, b_band = 0, b_flag = 0\<rparr>),
      dblks = (\<lambda>t. \<lparr>db_bytes = (if t = 0 then xs else ys), db_align = t, db_sep = False, db_frtn = None, db_ref = 1, db_type = 0,
                    db_iswhat = MDBBLK, db_size = 4, db_msgaddr = t\<rparr>),
      mdbfreelist = [], msgfreelist = [], brk = 2, reqs = 2, released = [], Strcount = 256\<rparr>"

lemma pkt_heap:
  "blocks (pkt_heap xs ys) (Some 0) = Some [0, 1]" "msg_data (pkt_heap xs ys) [0, 1] = xs @ ys"
  "\<lbrakk>length xs \<le> 131072; length ys \<le> 131072\<rbrakk> \<Longrightarrow> \<forall>b \<in> set [0, 1]. wf_blk (pkt_heap xs ys) b \<and> bsize (pkt_heap xs ys) b \<le> 131072"
  by (simp_all add: blocks_chain pkt_heap_def blk_data_def block_bytes_def bsize_def wf_blk_def)

theorem in_cksum_exact_witness:
  "in_cksum 0 5 (pkt_heap [1, 2, 0] [0, 5]) = Some 65017 \<and> in_cksum 0 6 (pkt_heap [1, 2, 0] [0, 5]) = None"
  using in_cksum_exact [OF pkt_heap(1) pkt_heap(3), of "[1, 2, 0]" "[0, 5]"] unfolding pkt_heap(2)
  by (simp_all add: bytes_sum_bsum ones_sum_def)

theorem in_cksum_verifies_witness: "in_cksum 0 5 (pkt_heap [1] [2, 249, 253, 5]) = Some 0"
proof -
  have "in_cksum 0 5 (pkt_heap [1, 2, 0] [0, 5]) = Some 65017"
    using in_cksum_exact [OF pkt_heap(1) pkt_heap(3), of "[1, 2, 0]" "[0, 5]"] unfolding pkt_heap(2)
    by (simp add: bytes_sum_bsum ones_sum_def)
  from in_cksum_verifies [OF pkt_heap(1) pkt_heap(3) _ _ _ _ _ this pkt_heap(1) pkt_heap(3), of "[1, 2, 0, 0, 5]" 2 "[1]" "[2, 249, 253, 5]"]
  show ?thesis unfolding pkt_heap(2) by (simp add: drop_bit_eq_div)
qed

end
