(* ===== verification/Bitmap.thy ===== *)
theory Bitmap
  imports Kernel_Prelude
begin

text \<open>
  Bit maps: \<^verbatim>\<open>os/bitmap.c\<close> and \<^verbatim>\<open>sys/bitmap.h\<close>. A map is the list of its words; a fault is a read behind its end.
\<close>

section \<open>The code\<close>

definition BT_BIW :: "nat \<Rightarrow> u32" where
  "BT_BIW i = push_bit (i mod 32) 1"

definition BT_TEST :: "u32 list \<Rightarrow> nat \<Rightarrow> bool" where
  "BT_TEST bm i \<longleftrightarrow> bm ! (i div 32) AND BT_BIW i \<noteq> 0"

definition BT_SET :: "u32 list \<Rightarrow> nat \<Rightarrow> u32 list" where
  "BT_SET bm i = bm[i div 32 := bm ! (i div 32) OR BT_BIW i]"

definition BT_CLEAR :: "u32 list \<Rightarrow> nat \<Rightarrow> u32 list" where
  "BT_CLEAR bm i = bm[i div 32 := bm ! (i div 32) AND NOT (BT_BIW i)]"

text \<open>\<open>None\<close> is a fault.\<close>

function avail_word :: "u32 list \<Rightarrow> nat \<Rightarrow> nat \<Rightarrow> nat option" where
  "avail_word bm maxword wx =
     (if wx > maxword then Some wx
      else if wx \<ge> length bm then None
      else if bm ! wx \<noteq> NOT 0 then Some wx
      else avail_word bm maxword (wx + 1))"
  by pat_completeness auto
termination by (relation "measure (\<lambda>(bm, maxword, wx). Suc maxword - wx)") auto

function avail_bit :: "u32 \<Rightarrow> nat \<Rightarrow> nat \<Rightarrow> nat option" where
  "avail_bit w maxbit bx =
     (if bx > maxbit then None
      else if w AND push_bit bx 1 = 0 then Some bx
      else avail_bit w maxbit (bx + 1))"
  by pat_completeness auto
termination by (relation "measure (\<lambda>(w, maxbit, bx). Suc maxbit - bx)") auto

declare avail_word.simps [simp del] avail_bit.simps [simp del]

text \<open>\<^verbatim>\<open>nbits\<close> is unsigned.\<close>

definition bt_availbit :: "u32 list \<Rightarrow> u32 \<Rightarrow> int option" where
  "bt_availbit bm nbits =
     (let n = unat (nbits - 1); maxword = n div 32 in
      case avail_word bm maxword 0 of
        None \<Rightarrow> None
      | Some wx \<Rightarrow>
          if wx \<le> maxword then
            (case avail_bit (bm ! wx) (if wx = maxword then n mod 32 else 31) 0 of
               Some bx \<Rightarrow> Some (int (push_bit 5 wx OR bx))
             | None \<Rightarrow> Some (-1))
          else Some (-1))"

text \<open>The search for the highest bit of a word that is not zero.\<close>

definition high_bit :: "u32 \<Rightarrow> nat" where
  "high_bit w =
     (if w AND 0xffff0000 \<noteq> 0 then
        if w AND 0xff000000 \<noteq> 0 then
          if w AND 0xf0000000 \<noteq> 0 then
            if w AND 0xc0000000 \<noteq> 0 then (if w AND 0x80000000 \<noteq> 0 then 31 else 30)
            else if w AND 0x20000000 \<noteq> 0 then 29 else 28
          else if w AND 0x0c000000 \<noteq> 0 then (if w AND 0x08000000 \<noteq> 0 then 27 else 26)
          else if w AND 0x02000000 \<noteq> 0 then 25 else 24
        else if w AND 0x00f00000 \<noteq> 0 then
          if w AND 0x00c00000 \<noteq> 0 then (if w AND 0x00800000 \<noteq> 0 then 23 else 22)
          else if w AND 0x00200000 \<noteq> 0 then 21 else 20
        else if w AND 0x000c0000 \<noteq> 0 then (if w AND 0x00080000 \<noteq> 0 then 19 else 18)
        else if w AND 0x00020000 \<noteq> 0 then 17 else 16
      else if w AND 0x0000ff00 \<noteq> 0 then
        if w AND 0x0000f000 \<noteq> 0 then
          if w AND 0x0000c000 \<noteq> 0 then (if w AND 0x00008000 \<noteq> 0 then 15 else 14)
          else if w AND 0x00002000 \<noteq> 0 then 13 else 12
        else if w AND 0x00000c00 \<noteq> 0 then (if w AND 0x00000800 \<noteq> 0 then 11 else 10)
        else if w AND 0x00000200 \<noteq> 0 then 9 else 8
      else if w AND 0x000000f0 \<noteq> 0 then
        if w AND 0x000000c0 \<noteq> 0 then (if w AND 0x00000080 \<noteq> 0 then 7 else 6)
        else if w AND 0x00000020 \<noteq> 0 then 5 else 4
      else if w AND 0x0000000c \<noteq> 0 then (if w AND 0x00000008 \<noteq> 0 then 3 else 2)
      else if w AND 0x00000002 \<noteq> 0 then 1 else 0)"

fun bt_gethighbit :: "u32 list \<Rightarrow> nat \<Rightarrow> int" where
  "bt_gethighbit mapp wx =
     (if mapp ! wx = 0 then (if wx = 0 then -1 else bt_gethighbit mapp (wx - 1))
      else int (push_bit 5 wx OR high_bit (mapp ! wx)))"

declare bt_gethighbit.simps [simp del]

text \<open>\<^verbatim>\<open>for (; inx < nbits; inx++) if (BT_TEST(bitmap, inx) == want) break;\<close>\<close>

function bt_scan :: "u32 list \<Rightarrow> bool \<Rightarrow> nat \<Rightarrow> nat \<Rightarrow> nat" where
  "bt_scan bm want nbits inx =
     (if inx < nbits then (if BT_TEST bm inx = want then inx else bt_scan bm want nbits (inx + 1)) else inx)"
  by pat_completeness auto
termination by (relation "measure (\<lambda>(bm, want, nbits, inx). nbits - inx)") auto

declare bt_scan.simps [simp del]

definition bt_range :: "u32 list \<Rightarrow> nat \<Rightarrow> nat \<Rightarrow> (nat \<times> nat) option" where
  "bt_range bm pos1 nbits =
     (let inx = bt_scan bm True nbits pos1 in
      if inx = nbits then None else Some (inx, bt_scan bm False nbits inx - 1))"

section \<open>Bits of a map\<close>

definition bt_bit :: "u32 list \<Rightarrow> nat \<Rightarrow> bool" where
  "bt_bit bm i \<longleftrightarrow> bit (bm ! (i div 32)) (i mod 32)"

lemma and_exp: "(w :: u32) AND push_bit n 1 \<noteq> 0 \<longleftrightarrow> bit w n"
  by (simp add: bit_iff_and_push_bit_not_eq_0)

lemma BT_TEST_bit: "BT_TEST bm i \<longleftrightarrow> bt_bit bm i"
  unfolding BT_TEST_def BT_BIW_def bt_bit_def by (rule and_exp)

lemma BT_SET_bit [simp]: "i div 32 < length bm \<Longrightarrow> bt_bit (BT_SET bm i) j \<longleftrightarrow> j = i \<or> bt_bit bm j"
  by (cases "j div 32 = i div 32")
    (auto simp: bt_bit_def BT_SET_def BT_BIW_def nth_list_update bit_simps, metis div_mult_mod_eq)

lemma BT_CLEAR_bit [simp]: "i div 32 < length bm \<Longrightarrow> bt_bit (BT_CLEAR bm i) j \<longleftrightarrow> j \<noteq> i \<and> bt_bit bm j"
  by (cases "j div 32 = i div 32")
    (auto simp: bt_bit_def BT_CLEAR_def BT_BIW_def nth_list_update bit_simps, metis div_mult_mod_eq)

lemma length_BT [simp]: "length (BT_SET bm i) = length bm" "length (BT_CLEAR bm i) = length bm"
  by (simp_all add: BT_SET_def BT_CLEAR_def)

lemma index_or: "b < 32 \<Longrightarrow> push_bit 5 w OR b = 32 * w + (b :: nat)"
proof -
  assume b: "b < 32"
  have "push_bit 5 w OR b = push_bit 5 w + b"
  proof (rule disjunctive_add [symmetric])
    fix n
    show "\<not> bit (push_bit 5 w) n \<or> \<not> bit b n"
    proof (cases "n < 5")
      case False
      have "take_bit 5 b = b" using b by (simp add: take_bit_nat_eq_self_iff)
      then have "\<not> bit b n" using False bit_take_bit_iff [of 5 b n] by simp
      then show ?thesis ..
    qed (simp add: bit_simps)
  qed
  then show ?thesis by (simp add: push_bit_eq_mult mult.commute)
qed

section \<open>The highest bit\<close>

text \<open>A test of the bits from \<open>lo\<close> up to \<open>hi\<close>, in a word that has none above.\<close>

lemma mask_test:
  assumes m: "m = mask hi AND NOT (mask lo)" and le: "hi \<le> 32" and w: "unat (w :: u32) < 2 ^ hi"
  shows "w AND m \<noteq> 0 \<longleftrightarrow> 2 ^ lo \<le> unat w"
proof -
  have "take_bit hi w = w" using w le by (simp add: word_unat_eq_iff unsigned_take_bit_eq) (simp add: take_bit_nat_eq_self_iff)
  then have "bit w n \<longleftrightarrow> n < hi \<and> bit w n" for n using bit_take_bit_iff [of hi w n] by simp
  then have "w AND m = w AND NOT (mask lo)" unfolding m by (intro bit_eqI) (auto simp: bit_simps)
  also have "\<dots> = push_bit lo (drop_bit lo w)" by (intro bit_eqI) (auto simp: bit_simps)
  also have "\<dots> \<noteq> 0 \<longleftrightarrow> drop_bit lo w \<noteq> 0"
  proof -
    have "bit (push_bit lo (drop_bit lo w)) n \<longleftrightarrow> lo \<le> n \<and> bit (drop_bit lo w) (n - lo)" for n
      using bit_imp_le_length [of w n] by (auto simp: bit_simps)
    then have "drop_bit lo w = 0" if "push_bit lo (drop_bit lo w) = 0"
      using that by (intro bit_eqI) (metis add_diff_cancel_left' bit_0_eq bot_apply le_add1)
    then show ?thesis by auto
  qed
  also have "\<dots> \<longleftrightarrow> unat w div 2 ^ lo \<noteq> 0" unfolding word_unat_eq_iff unat_drop_bit_eq by (simp add: drop_bit_eq_div)
  also have "\<dots> \<longleftrightarrow> 2 ^ lo \<le> unat w" by (auto simp: div_eq_0_iff)
  finally show ?thesis .
qed

lemmas mask_tests =
  mask_test [where hi = 32 and lo = 16 and m = "0xffff0000"] mask_test [where hi = 32 and lo = 24 and m = "0xff000000"]
  mask_test [where hi = 32 and lo = 28 and m = "0xf0000000"] mask_test [where hi = 32 and lo = 30 and m = "0xc0000000"]
  mask_test [where hi = 32 and lo = 31 and m = "0x80000000"] mask_test [where hi = 30 and lo = 29 and m = "0x20000000"]
  mask_test [where hi = 28 and lo = 26 and m = "0x0c000000"] mask_test [where hi = 28 and lo = 27 and m = "0x08000000"]
  mask_test [where hi = 26 and lo = 25 and m = "0x02000000"] mask_test [where hi = 24 and lo = 20 and m = "0x00f00000"]
  mask_test [where hi = 24 and lo = 22 and m = "0x00c00000"] mask_test [where hi = 24 and lo = 23 and m = "0x00800000"]
  mask_test [where hi = 22 and lo = 21 and m = "0x00200000"] mask_test [where hi = 20 and lo = 18 and m = "0x000c0000"]
  mask_test [where hi = 20 and lo = 19 and m = "0x00080000"] mask_test [where hi = 18 and lo = 17 and m = "0x00020000"]
  mask_test [where hi = 16 and lo = 8 and m = "0x0000ff00"] mask_test [where hi = 16 and lo = 12 and m = "0x0000f000"]
  mask_test [where hi = 16 and lo = 14 and m = "0x0000c000"] mask_test [where hi = 16 and lo = 15 and m = "0x00008000"]
  mask_test [where hi = 14 and lo = 13 and m = "0x00002000"] mask_test [where hi = 12 and lo = 10 and m = "0x00000c00"]
  mask_test [where hi = 12 and lo = 11 and m = "0x00000800"] mask_test [where hi = 10 and lo = 9 and m = "0x00000200"]
  mask_test [where hi = 8 and lo = 4 and m = "0x000000f0"] mask_test [where hi = 8 and lo = 6 and m = "0x000000c0"]
  mask_test [where hi = 8 and lo = 7 and m = "0x00000080"] mask_test [where hi = 6 and lo = 5 and m = "0x00000020"]
  mask_test [where hi = 4 and lo = 2 and m = "0x0000000c"] mask_test [where hi = 4 and lo = 3 and m = "0x00000008"]
  mask_test [where hi = 2 and lo = 1 and m = "0x00000002"]

lemmas tests = mask_tests [simplified mask_eq_exp_minus_1, simplified]

lemma high_bit_range: "w \<noteq> 0 \<Longrightarrow> 2 ^ high_bit w \<le> unat w \<and> unat w < 2 ^ Suc (high_bit w)"
proof -
  assume "w \<noteq> 0"
  then have n: "0 < unat w" by (simp add: unat_gt_0)
  have l: "unat w < 4294967296" using unsigned_less [of w] by simp
  define n where "n = unat w"
  note t = tests [of w, folded n_def]
  show ?thesis
    unfolding high_bit_def n_def [symmetric] using n [folded n_def] l [folded n_def] by (simp only: t cong: if_cong) simp
qed

lemma bit_unat: "bit (w :: u32) n \<longleftrightarrow> odd (unat w div 2 ^ n)"
  using bit_iff_odd [of "unat w" n] by (simp add: bit_unsigned_iff)

lemma high_bit_highest: "w \<noteq> 0 \<Longrightarrow> bit w (high_bit w) \<and> (\<forall>n > high_bit w. \<not> bit w n)"
proof (intro conjI allI impI)
  assume "w \<noteq> 0"
  note r = high_bit_range [OF this]
  have "unat w div 2 ^ high_bit w = 1"
    using r by (intro div_nat_eqI) (simp_all add: mult.commute)
  then show "bit w (high_bit w)" by (simp add: bit_unat)
  fix n assume "high_bit w < n"
  then have "2 ^ Suc (high_bit w) \<le> (2 :: nat) ^ n" by (intro power_increasing) simp_all
  with r have "unat w div 2 ^ n = 0" by simp
  then show "\<not> bit w n" by (simp add: bit_unat)
qed

lemma high_bit_less: "w \<noteq> 0 \<Longrightarrow> high_bit w < 32"
  using high_bit_highest [of w] bit_imp_le_length [of w "high_bit w"] by simp

lemma gethighbit:
  "bt_gethighbit bm wx =
     (let S = {i. i < 32 * Suc wx \<and> bt_bit bm i} in if S = {} then -1 else int (Max S))"
proof (induction wx rule: less_induct)
  case (less wx)
  define S where "S w = {i. i < 32 * Suc w \<and> bt_bit bm i}" for w
  show ?case
  proof (cases "bm ! wx = 0")
    case True
    have top: "\<not> bt_bit bm i" if "i div 32 = wx" for i using True that by (simp add: bt_bit_def)
    show ?thesis
    proof (cases "wx = 0")
      case True
      then have "S 0 = {}" using top by (auto simp: S_def)
      then show ?thesis using \<open>bm ! wx = 0\<close> True by (simp add: bt_gethighbit.simps [of bm 0] S_def)
    next
      case False
      have "S wx = S (wx - 1)"
      proof (rule set_eqI)
        fix i
        have "i div 32 = wx \<or> i < 32 * Suc (wx - 1)" if "i < 32 * Suc wx" using that False by auto
        then show "i \<in> S wx \<longleftrightarrow> i \<in> S (wx - 1)" using top [of i] False by (auto simp: S_def)
      qed
      then show ?thesis using less.IH [of "wx - 1"] False \<open>bm ! wx = 0\<close>
        unfolding bt_gethighbit.simps [of bm wx] S_def [symmetric] by simp
    qed
  next
    case False
    define b where "b = high_bit (bm ! wx)"
    have b: "b < 32" "bit (bm ! wx) b" "\<forall>n > b. \<not> bit (bm ! wx) n"
      using high_bit_less [OF False] high_bit_highest [OF False] by (simp_all add: b_def)
    have on: "32 * wx + b \<in> S wx" using b(1,2) by (simp add: S_def bt_bit_def)
    have "i \<le> 32 * wx + b" if "i \<in> S wx" for i
    proof (cases "i div 32 = wx")
      case True
      then have "i mod 32 \<le> b" using that b(3) by (auto simp: S_def bt_bit_def not_less [symmetric])
      then show ?thesis using True div_mult_mod_eq [of i 32] by linarith
    next
      case False
      have "i div 32 < Suc wx" using that by (intro less_mult_imp_div_less) (simp add: S_def)
      with False have "i div 32 < wx" by simp
      then show ?thesis by (simp add: div_less_iff_less_mult)
    qed
    then have "Max (S wx) = 32 * wx + b" using on by (intro Max_eqI) (auto simp: S_def)
    then show ?thesis
      unfolding bt_gethighbit.simps [of bm wx] S_def [symmetric] Let_def using False on index_or [OF b(1), of wx] by (auto simp: b_def)
  qed
qed

section \<open>Free bits and runs\<close>

lemma avail_word:
  assumes "maxword < length bm"
  shows "wx \<le> Suc maxword \<Longrightarrow>
    \<exists>wx'. avail_word bm maxword wx = Some wx' \<and> wx \<le> wx' \<and> wx' \<le> Suc maxword \<and> (\<forall>i. wx \<le> i \<and> i < wx' \<longrightarrow> bm ! i = NOT 0) \<and>
          (wx' \<le> maxword \<longrightarrow> bm ! wx' \<noteq> NOT 0)"
proof (induction "Suc maxword - wx" arbitrary: wx)
  case 0
  then show ?case by (subst avail_word.simps) auto
next
  case (Suc n)
  then have le: "wx \<le> maxword" by simp
  show ?case
  proof (cases "bm ! wx = NOT 0")
    case True
    have eq: "avail_word bm maxword wx = avail_word bm maxword (wx + 1)"
      using True le assms by (subst avail_word.simps) simp
    have "n = Suc maxword - (wx + 1)" "wx + 1 \<le> Suc maxword" using Suc(2) le by simp_all
    from Suc(1) [OF this] obtain wx' where "avail_word bm maxword (wx + 1) = Some wx'" "wx + 1 \<le> wx'" "wx' \<le> Suc maxword"
        "\<forall>i. wx + 1 \<le> i \<and> i < wx' \<longrightarrow> bm ! i = NOT 0" "wx' \<le> maxword \<longrightarrow> bm ! wx' \<noteq> NOT 0" by blast
    moreover have "wx \<le> i \<Longrightarrow> i = wx \<or> wx + 1 \<le> i" for i by linarith
    ultimately show ?thesis unfolding eq using True by (intro exI [of _ wx']) auto
  next
    case False
    then show ?thesis using le assms by (subst avail_word.simps) auto
  qed
qed

lemma avail_bit:
  "bx \<le> Suc maxbit \<Longrightarrow>
     (case avail_bit w maxbit bx of
        Some b \<Rightarrow> bx \<le> b \<and> b \<le> maxbit \<and> \<not> bit w b \<and> (\<forall>i. bx \<le> i \<and> i < b \<longrightarrow> bit w i)
      | None \<Rightarrow> \<forall>i. bx \<le> i \<and> i \<le> maxbit \<longrightarrow> bit w i)"
proof (induction "Suc maxbit - bx" arbitrary: bx)
  case 0
  then show ?case by (subst avail_bit.simps) auto
next
  case (Suc n)
  then have le: "bx \<le> maxbit" by simp
  show ?case
  proof (cases "bit w bx")
    case True
    then have eq: "avail_bit w maxbit bx = avail_bit w maxbit (bx + 1)"
      using le and_exp [of w bx] by (subst avail_bit.simps) simp
    have "n = Suc maxbit - (bx + 1)" "bx + 1 \<le> Suc maxbit" using Suc(2) le by simp_all
    note ih = Suc(1) [OF this]
    have "bx \<le> i \<Longrightarrow> i = bx \<or> bx + 1 \<le> i" for i by linarith
    then show ?thesis unfolding eq using ih True by (auto split: option.splits)
  next
    case False
    then have "avail_bit w maxbit bx = Some bx" using le and_exp [of w bx] by (subst avail_bit.simps) simp
    with False le show ?thesis by auto
  qed
qed

text \<open>\<^verbatim>\<open>bt_availbit\<close> returns the first bit that is off among the first \<^verbatim>\<open>nbits\<close>, or -1 when all are on.\<close>

lemma bt_availbit_first:
  assumes n: "0 < nbits" "unat nbits \<le> 32 * length bm"
  shows "bt_availbit bm nbits =
           Some (if \<forall>i < unat nbits. bt_bit bm i then -1 else int (LEAST i. \<not> bt_bit bm i))"
proof -
  define m where "m = unat (nbits - 1)"
  have m: "unat nbits = Suc m"
  proof -
    have "unat nbits \<noteq> 0" using n(1) by (simp add: word_less_nat_alt)
    moreover have "1 \<le> nbits" using n(1) by (simp add: word_le_nat_alt word_less_nat_alt)
    ultimately show ?thesis by (simp add: m_def unat_minus_nowrap)
  qed
  define mw where "mw = m div 32"
  have mw: "mw < length bm" using n(2) unfolding m mw_def by (intro less_mult_imp_div_less) simp
  obtain wx where wx: "avail_word bm mw 0 = Some wx" "wx \<le> Suc mw" "\<forall>i < wx. bm ! i = NOT 0" "wx \<le> mw \<longrightarrow> bm ! wx \<noteq> NOT 0"
    using avail_word [OF mw, of 0] by auto
  have full: "bt_bit bm i" if "i div 32 < wx" for i
    using wx(3) that by (simp add: bt_bit_def bit_simps)
  have n_div: "i div 32 \<le> mw" if "i < unat nbits" for i
    using that unfolding m mw_def by (intro div_le_mono) simp
  show ?thesis
  proof (cases "wx \<le> mw")
    case False
    then have "\<forall>i < unat nbits. bt_bit bm i" using full n_div by (metis le_trans not_le)
    then show ?thesis using wx(1) False by (simp add: bt_availbit_def m_def [symmetric] mw_def [symmetric] Let_def)
  next
    case True
    define mb where "mb = (if wx = mw then m mod 32 else 31)"
    have mb: "mb < 32" by (simp add: mb_def)
    note ab = avail_bit [of 0 mb "bm ! wx", simplified]
    have res: "bt_availbit bm nbits = (case avail_bit (bm ! wx) mb 0 of Some bx \<Rightarrow> Some (int (push_bit 5 wx OR bx)) | None \<Rightarrow> Some (-1))"
      using wx(1) True by (simp add: bt_availbit_def m_def [symmetric] mw_def [symmetric] mb_def Let_def)
    show ?thesis
    proof (cases "avail_bit (bm ! wx) mb 0")
      case (Some b)
      then have b: "b \<le> mb" "\<not> bit (bm ! wx) b" "\<forall>i < b. bit (bm ! wx) i" using ab by auto
      have off: "\<not> bt_bit bm (32 * wx + b)" using b(1,2) mb by (simp add: bt_bit_def)
      have "bt_bit bm i" if "i < 32 * wx + b" for i
      proof (cases "i div 32 = wx")
        case True
        then have "i mod 32 < b" using that div_mult_mod_eq [of i 32] by linarith
        with b(3) True show ?thesis by (simp add: bt_bit_def)
      next
        case False
        have "i div 32 < Suc wx" using that b(1) mb by (intro less_mult_imp_div_less) simp
        with False show ?thesis by (intro full) simp
      qed
      then have least: "(LEAST i. \<not> bt_bit bm i) = 32 * wx + b" using off by (intro Least_equality) (auto simp: not_less [symmetric])
      have "32 * wx + b < unat nbits"
      proof (cases "wx = mw")
        case True
        then have "b \<le> m mod 32" "wx = m div 32" using b(1) by (simp_all add: mb_def mw_def)
        then show ?thesis using mult_div_mod_eq [of 32 m] unfolding m by linarith
      next
        case False
        then have "Suc wx \<le> m div 32" using True by (simp add: mw_def)
        then have "32 * Suc wx \<le> m" by (metis div_times_less_eq_dividend le_trans mult.commute mult_le_mono2)
        then show ?thesis using b(1) mb unfolding m by simp
      qed
      with off have "\<not> (\<forall>i < unat nbits. bt_bit bm i)" by blast
      then show ?thesis using res Some index_or [of b wx] b(1) mb by (simp add: least)
    next
      case None
      then have on: "\<forall>i \<le> mb. bit (bm ! wx) i" using ab by simp
      have "wx = mw"
      proof (rule ccontr)
        assume "wx \<noteq> mw"
        then have "bm ! wx = NOT 0" using on by (intro bit_eqI) (simp add: mb_def bit_simps)
        with wx(4) True show False by simp
      qed
      have "bt_bit bm i" if i: "i < unat nbits" for i
      proof (cases "i div 32 = mw")
        case True
        then have "i mod 32 \<le> m mod 32"
          using i div_mult_mod_eq [of i 32] div_mult_mod_eq [of m 32] unfolding m mw_def by linarith
        then show ?thesis using on \<open>wx = mw\<close> True by (simp add: bt_bit_def mb_def)
      next
        case False
        then show ?thesis using n_div [OF i] \<open>wx = mw\<close> by (intro full) simp
      qed
      then show ?thesis using res None by simp
    qed
  qed
qed

text \<open>\<^verbatim>\<open>bt_range\<close> finds the first run of bits that are on from \<^verbatim>\<open>pos1\<close> below \<^verbatim>\<open>nbits\<close>.\<close>

lemma bt_scan:
  "\<lbrakk>inx \<le> nbits; e = bt_scan bm want nbits inx\<rbrakk> \<Longrightarrow>
     inx \<le> e \<and> e \<le> nbits \<and> (\<forall>i. inx \<le> i \<and> i < e \<longrightarrow> bt_bit bm i \<noteq> want) \<and> (e < nbits \<longrightarrow> bt_bit bm e = want)"
proof (induction bm want nbits inx rule: bt_scan.induct)
  case (1 bm want nbits inx)
  show ?case
  proof (cases "inx < nbits \<and> BT_TEST bm inx \<noteq> want")
    case True
    then have "e = bt_scan bm want nbits (inx + 1)" using 1(3) by (simp add: bt_scan.simps [of bm want nbits inx])
    note ih = 1(1) [OF _ _ _ this]
    have "inx \<le> i \<Longrightarrow> i = inx \<or> inx + 1 \<le> i" for i by linarith
    then show ?thesis using ih True BT_TEST_bit by auto
  next
    case False
    then have "e = inx" using 1(3) by (auto simp: bt_scan.simps [of bm want nbits inx])
    then show ?thesis using False 1(2) BT_TEST_bit by auto
  qed
qed

lemma bt_range_run:
  assumes "pos1 \<le> nbits"
  shows "case bt_range bm pos1 nbits of
           None \<Rightarrow> \<forall>i. pos1 \<le> i \<and> i < nbits \<longrightarrow> \<not> bt_bit bm i
         | Some (a, b) \<Rightarrow> pos1 \<le> a \<and> a \<le> b \<and> b < nbits \<and> (\<forall>i. pos1 \<le> i \<and> i < a \<longrightarrow> \<not> bt_bit bm i) \<and>
             (\<forall>i. a \<le> i \<and> i \<le> b \<longrightarrow> bt_bit bm i) \<and> (b + 1 < nbits \<longrightarrow> \<not> bt_bit bm (b + 1))"
proof -
  define a e where "a = bt_scan bm True nbits pos1" and "e = bt_scan bm False nbits a"
  note A = bt_scan [OF assms a_def]
  note E = bt_scan [OF conjunct1 [OF conjunct2 [OF A]] e_def]
  have "a < e" if "a < nbits" using A E that by (metis le_neq_implies_less)
  then show ?thesis using A E by (auto simp: bt_range_def Let_def a_def [symmetric] e_def [symmetric])
qed

text \<open>C40: \<^verbatim>\<open>bt_gethighbit\<close> returns the highest bit that is on in the words up to \<^verbatim>\<open>wx\<close>, and -1 when they are all zero.\<close>

theorem bt_gethighbit_highest:
  "bt_gethighbit bm wx =
     (let S = {i. i < 32 * Suc wx \<and> bt_bit bm i} in if S = {} then -1 else int (Max S))"
  by (rule gethighbit)

end
