(* ===== verification/Disp.thy ===== *)
theory Disp
  imports Bitmap "HOL-Library.Monad_Syntax"
begin

text \<open>
  The data of process scheduling and the dispatcher queues of \<^verbatim>\<open>disp/disp.c\<close>.

  Processes live at addresses. The dispatcher queues, one per global priority, and the sleep queues of \<^verbatim>\<open>os/slp.c\<close> are chains over
  the same field \<^verbatim>\<open>p_link\<close>, with pointers to their ends. The class data of a process (\<^verbatim>\<open>tsproc_t\<close>, \<^verbatim>\<open>rtproc_t\<close>) have the address of
  the process, since a process has one of each class at most; so \<^verbatim>\<open>ts_procp\<close>, \<^verbatim>\<open>ts_pprip\<close> and the like need no fields. An operation
  returns \<open>None\<close> when it would use an index outside an array, follow a null pointer or never end.
\<close>

section \<open>State\<close>

datatype pstat = SSLEEP | SRUN | SZOMB | SSTOP | SIDL | SONPROC | SXBRK

text \<open>The table of class functions \<^verbatim>\<open>p_clfuncs\<close> points to.\<close>

datatype clfuncs = Sys | Ts | Rt

record proc =
  p_stat :: pstat
  p_flag :: u32
  p_pri :: int
  p_link :: "nat option"
  p_wchan :: u32
  p_clfuncs :: clfuncs
  p_parent :: u32        \<comment> \<open>the address of the parent as a sleep channel\<close>
  p_signalled :: bool    \<comment> \<open>\<^verbatim>\<open>p_whystop == PR_SIGNALLED\<close>\<close>

record dispq =
  dq_first :: "nat option"
  dq_last :: "nat option"
  dq_sruncnt :: int

record sleepq =
  sq_first :: "nat option"
  sq_last :: "nat option"

record tsdpent =
  ts_globpri :: int
  ts_quantum :: int
  ts_tqexp :: int
  ts_slpret :: int
  ts_maxwait :: int
  ts_lwait :: int

record tsproc =
  ts_timeleft :: int
  ts_cpupri :: int
  ts_uprilim :: int
  ts_upri :: int
  ts_umdpri :: int
  ts_nice :: int
  ts_kpri :: bool    \<comment> \<open>the bits \<^verbatim>\<open>TSKPRI\<close>, \<^verbatim>\<open>TSBACKQ\<close> and \<^verbatim>\<open>TSFORK\<close> of \<^verbatim>\<open>ts_flags\<close>\<close>
  ts_backq :: bool
  ts_forked :: bool
  ts_dispwait :: int

record rtdpent =
  rt_globpri :: int
  rt_quantum :: int

record rtproc =
  rt_pquantum :: int
  rt_timeleft :: int
  rt_pri :: int
  rt_ran :: bool   \<comment> \<open>the bits \<^verbatim>\<open>RTRAN\<close> and \<^verbatim>\<open>RTBACKQ\<close> of \<^verbatim>\<open>rt_flags\<close>\<close>
  rt_backq :: bool

text \<open>\<open>ts_plist\<close> and \<open>rt_plist\<close> are the lists behind the dummy heads \<^verbatim>\<open>ts_plisthead\<close> and \<^verbatim>\<open>rt_plisthead\<close>.\<close>

record sched =
  procs :: "nat \<Rightarrow> proc"
  dispqs :: "dispq list"
  dqactmap :: "u32 list"
  sleepqs :: "sleepq list"
  srunprocs :: int
  maxrunpri :: int
  curproc :: nat
  curpri :: int
  runrun :: int
  kprunrun :: int
  npwakecnt :: int
  runin :: int
  runout :: int
  ts_plist :: "nat list"
  rt_plist :: "nat list"
  tsprocs :: "nat \<Rightarrow> tsproc"
  rtprocs :: "nat \<Rightarrow> rtproc"
  ts_dptbl :: "tsdpent list"
  rt_dptbl :: "rtdpent list"
  tspexists :: int

text \<open>The constants of the configuration.\<close>

record schedconf =
  ts_kmdpris :: "int list"
  ts_maxupri :: int
  ts_maxumdpri :: int
  ts_maxkmdpri :: int
  rt_maxpri :: int
  v_maxsyspri :: int
  proc_sched :: nat

abbreviation (input) flag_on :: "u32 \<Rightarrow> u32 \<Rightarrow> bool" where "flag_on f w \<equiv> f AND w \<noteq> 0"

definition SSYS :: u32 where "SSYS = 0x1"
definition SLOAD :: u32 where "SLOAD = 0x10"
definition SLOCK :: u32 where "SLOCK = 0x20"
definition SPROCIO :: u32 where "SPROCIO = 0x400"
definition SUSWAP :: u32 where "SUSWAP = 0x40000"
definition SSWLOCKS :: u32 where "SSWLOCKS = 0x10000000"
definition SXSTART :: u32 where "SXSTART = 0x20000000"
definition SPSTART :: u32 where "SPSTART = 0x40000000"
definition SNWAKE :: u32 where "SNWAKE = 0x8"

definition set_proc :: "nat \<Rightarrow> (proc \<Rightarrow> proc) \<Rightarrow> sched \<Rightarrow> sched" where
  "set_proc p f st = st\<lparr>procs := (procs st)(p := f (procs st p))\<rparr>"

definition set_dq :: "nat \<Rightarrow> (dispq \<Rightarrow> dispq) \<Rightarrow> sched \<Rightarrow> sched" where
  "set_dq i f st = st\<lparr>dispqs := (dispqs st)[i := f (dispqs st ! i)]\<rparr>"

definition nth_opt :: "'a list \<Rightarrow> int \<Rightarrow> 'a option" where
  "nth_opt xs i = (if 0 \<le> i \<and> i < int (length xs) then Some (xs ! nat i) else None)"

definition array_nat :: "'a list \<Rightarrow> int \<Rightarrow> nat option" where
  "array_nat xs i = (if 0 \<le> i \<and> i < int (length xs) then Some (nat i) else None)"

section \<open>The dispatcher queues\<close>

text \<open>\<^verbatim>\<open>(pp->p_flag & (SLOAD|SPROCIO)) == SLOAD || (pp->p_flag & SSYS)\<close>: loaded, so that it may run.\<close>

definition loaded :: "proc \<Rightarrow> bool" where
  "loaded p \<longleftrightarrow> p_flag p AND (SLOAD OR SPROCIO) = SLOAD \<or> flag_on (p_flag p) SSYS"

definition dq_sruninc :: "int \<Rightarrow> sched \<Rightarrow> sched option" where
  "dq_sruninc pri st =
     do {
       i \<leftarrow> array_nat (dispqs st) pri;
       let st1 = set_dq i (\<lambda>dq. dq\<lparr>dq_sruncnt := dq_sruncnt dq + 1\<rparr>) (st\<lparr>srunprocs := srunprocs st + 1\<rparr>);
       if dq_sruncnt (dispqs st1 ! i) = 1 then
         do {
           _ \<leftarrow> array_nat (dqactmap st1) (int (i div 32));
           Some (st1\<lparr>dqactmap := BT_SET (dqactmap st1) i, maxrunpri := (if pri > maxrunpri st1 then pri else maxrunpri st1)\<rparr>)
         }
       else Some st1
     }"

definition dq_srundec :: "int \<Rightarrow> sched \<Rightarrow> sched option" where
  "dq_srundec pri st =
     do {
       i \<leftarrow> array_nat (dispqs st) pri;
       let st1 = set_dq i (\<lambda>dq. dq\<lparr>dq_sruncnt := dq_sruncnt dq - 1\<rparr>) (st\<lparr>srunprocs := srunprocs st - 1\<rparr>);
       if dq_sruncnt (dispqs st1 ! i) = 0 then
         do {
           _ \<leftarrow> array_nat (dqactmap st1) (int (i div 32));
           let map = BT_CLEAR (dqactmap st1) i;
           Some (st1\<lparr>dqactmap := map,
                     maxrunpri := (if srunprocs st1 = 0 then -1
                                   else if pri = maxrunpri st1 then bt_gethighbit map (i div 32) else maxrunpri st1)\<rparr>)
         }
       else Some st1
     }"

definition setbackdq :: "nat \<Rightarrow> sched \<Rightarrow> sched option" where
  "setbackdq pp st =
     do {
       let ppri = p_pri (procs st pp);
       i \<leftarrow> array_nat (dispqs st) ppri;
       let st1 = set_proc pp (\<lambda>p. p\<lparr>p_link := None\<rparr>) st;
       let st2 = (case dq_last (dispqs st ! i) of
                    None \<Rightarrow> set_dq i (\<lambda>dq. dq\<lparr>dq_first := Some pp, dq_last := Some pp\<rparr>) st1
                  | Some l \<Rightarrow> set_dq i (\<lambda>dq. dq\<lparr>dq_last := Some pp\<rparr>) (set_proc l (\<lambda>p. p\<lparr>p_link := Some pp\<rparr>) st1));
       if loaded (procs st2 pp) then dq_sruninc ppri st2 else Some st2
     }"

definition setfrontdq :: "nat \<Rightarrow> sched \<Rightarrow> sched option" where
  "setfrontdq pp st =
     do {
       let ppri = p_pri (procs st pp);
       i \<leftarrow> array_nat (dispqs st) ppri;
       let st2 = (case dq_first (dispqs st ! i) of
                    None \<Rightarrow> set_dq i (\<lambda>dq. dq\<lparr>dq_first := Some pp, dq_last := Some pp\<rparr>) (set_proc pp (\<lambda>p. p\<lparr>p_link := None\<rparr>) st)
                  | Some f \<Rightarrow> set_dq i (\<lambda>dq. dq\<lparr>dq_first := Some pp\<rparr>) (set_proc pp (\<lambda>p. p\<lparr>p_link := Some f\<rparr>) st));
       if loaded (procs st2 pp) then dq_sruninc ppri st2 else Some st2
     }"

text \<open>The walk along \<^verbatim>\<open>p_link\<close> to a process, with the one before it; \<open>None\<close> inside is the end of the chain.\<close>

partial_function (option) link_find :: "(nat \<Rightarrow> proc) \<Rightarrow> (nat \<Rightarrow> bool) \<Rightarrow> nat option \<Rightarrow> nat option \<Rightarrow> (nat option \<times> nat option) option" where
  "link_find ps stop prp rp =
     (if rp = None \<or> stop (the rp) then Some (prp, rp) else link_find ps stop rp (p_link (ps (the rp))))"

text \<open>Taking \<open>pp\<close>, which is behind \<open>prp\<close>, off the queue.\<close>

definition dq_unlink :: "nat \<Rightarrow> nat option \<Rightarrow> nat \<Rightarrow> sched \<Rightarrow> sched" where
  "dq_unlink i prp pp st =
     (let next = p_link (procs st pp) in
      case prp of
        None \<Rightarrow> set_dq i (\<lambda>dq. dq\<lparr>dq_first := next, dq_last := (if next = None then None else dq_last dq)\<rparr>) st
      | Some r \<Rightarrow>
          set_dq i (\<lambda>dq. dq\<lparr>dq_last := (if next = None then Some r else dq_last dq)\<rparr>) (set_proc r (\<lambda>p. p\<lparr>p_link := next\<rparr>) st))"

definition dispdeq :: "nat \<Rightarrow> sched \<Rightarrow> (bool \<times> sched) option" where
  "dispdeq pp st =
     do {
       let ppri = p_pri (procs st pp);
       i \<leftarrow> array_nat (dispqs st) ppri;
       (prp, rp) \<leftarrow> link_find (procs st) (\<lambda>r. r = pp) None (dq_first (dispqs st ! i));
       case rp of
         None \<Rightarrow> Some (False, st)
       | Some r \<Rightarrow>
           do {
             let st1 = dq_unlink i prp r st;
             st2 \<leftarrow> (if loaded (procs st1 r) then dq_srundec ppri st1 else Some st1);
             Some (True, st2)
           }
     }"

section \<open>The switch\<close>

text \<open>
  What \<^verbatim>\<open>pswtch\<close> does to the queues: the first loaded process of the queue \<^verbatim>\<open>maxrunpri\<close> is taken off and becomes the current
  one.
\<close>

definition pswtch_pick :: "sched \<Rightarrow> sched option" where
  "pswtch_pick st =
     do {
       let st1 = st\<lparr>runrun := 0, kprunrun := 0, npwakecnt := 0\<rparr>;
       i \<leftarrow> array_nat (dispqs st1) (maxrunpri st1);
       (rp, pp) \<leftarrow> link_find (procs st1) (\<lambda>p. loaded (procs st1 p)) None (dq_first (dispqs st1 ! i));
       p \<leftarrow> pp;
       st2 \<leftarrow> dq_srundec (maxrunpri st1) (dq_unlink i rp p st1);
       let st3 = set_proc p (\<lambda>q. q\<lparr>p_stat := SONPROC\<rparr>) st2;
       Some (st3\<lparr>curpri := p_pri (procs st3 p), curproc := p\<rparr>)
     }"

text \<open>
  The wait for a process that can run. The parameters are \<^verbatim>\<open>runqueues\<close>, with \<open>None\<close> when \<^verbatim>\<open>qrunflag\<close> is off, and what interrupts do
  while the processor is idle.
\<close>

partial_function (option) pswtch_wait ::
  "schedconf \<Rightarrow> (sched \<Rightarrow> sched option) \<Rightarrow> (sched \<Rightarrow> sched) \<Rightarrow> sched \<Rightarrow> sched option" where
  "pswtch_wait cf runqs idle st =
     (if maxrunpri st = -1 then
        (case runqs st of
           Some st1 \<Rightarrow> pswtch_wait cf runqs idle st1
         | None \<Rightarrow> pswtch_wait cf runqs idle (idle (st\<lparr>curpri := 0, curproc := proc_sched cf\<rparr>)))
      else Some st)"

definition pswtch :: "schedconf \<Rightarrow> (sched \<Rightarrow> sched option) \<Rightarrow> (sched \<Rightarrow> sched) \<Rightarrow> sched \<Rightarrow> sched option" where
  "pswtch cf runqs idle st =
     do {
       let st1 = (if p_stat (procs st (curproc st)) = SONPROC then set_proc (curproc st) (\<lambda>p. p\<lparr>p_stat := SRUN\<rparr>) st else st);
       st2 \<leftarrow> pswtch_wait cf runqs idle st1;
       pswtch_pick st2
     }"

definition dispinit :: "int list \<Rightarrow> sched \<Rightarrow> sched" where
  "dispinit cl_maxglobpris st =
     (let maxglobpri = foldl max (-1) cl_maxglobpris; n = nat (maxglobpri + 1) in
      st\<lparr>dispqs := replicate n \<lparr>dq_first = None, dq_last = None, dq_sruncnt = 0\<rparr>, dqactmap := replicate (n div 32 + 1) 0,
         srunprocs := 0, maxrunpri := -1\<rparr>)"

end
