(* ===== verification/Disp_Queues.thy ===== *)
theory Disp_Queues
  imports Disp "HOL-Library.Multiset"
begin

text \<open>
  The dispatcher queues as one list of processes per priority. The chains over \<^verbatim>\<open>p_link\<close> are related to lists, the counts, the bit
  map and \<^verbatim>\<open>maxrunpri\<close> to the number of loaded processes on each list; every operation of the dispatcher is the operation on
  lists one expects.
\<close>

section \<open>Chains\<close>

text \<open>The path from a pointer over a list of processes to another pointer.\<close>

abbreviation path :: "(nat \<Rightarrow> proc) \<Rightarrow> nat option \<Rightarrow> nat list \<Rightarrow> nat option \<Rightarrow> bool" where
  "path ps \<equiv> lpath (\<lambda>x. p_link (ps x))"

lemmas path_append = lpath_append [of "\<lambda>x. p_link (ps x)" for ps]
lemmas path_cong = lpath_cong [of _ "\<lambda>x. p_link (ps' x)" "\<lambda>x. p_link (ps x)" for ps' ps]
lemmas path_hd = lpath_hd [of "\<lambda>x. p_link (ps x)" for ps]
lemmas path_unique = lpath_unique [of "\<lambda>x. p_link (ps x)" for ps]
lemmas path_distinct = lpath_distinct [of "\<lambda>x. p_link (ps x)" for ps]

lemma link_find_simps [simp]:
  "link_find ps stop prp None = Some (prp, None)"
  "link_find ps stop prp (Some r) = (if stop r then Some (prp, Some r) else link_find ps stop (Some r) (p_link (ps r)))"
  by (simp_all add: link_find.simps [of ps stop prp])

text \<open>The walk finds the first process on the chain with the property.\<close>

lemma link_find_prev:
  "\<lbrakk>path ps p (us @ x # vs) None; stop x; \<forall>u \<in> set us. \<not> stop u\<rbrakk> \<Longrightarrow>
     link_find ps stop prp p = Some (if us = [] then prp else last_opt us, Some x)"
  by (induction us arbitrary: p prp) auto

lemma link_find_Some:
  "\<lbrakk>path ps p (us @ x # vs) None; stop x; \<forall>u \<in> set us. \<not> stop u\<rbrakk> \<Longrightarrow> link_find ps stop None p = Some (last_opt us, Some x)"
  using link_find_prev [of ps p us x vs stop None] by simp

lemma link_find_None:
  "\<lbrakk>path ps p xs None; \<forall>x \<in> set xs. \<not> stop x\<rbrakk> \<Longrightarrow> \<exists>q. link_find ps stop prp p = Some (q, None)"
  by (induction xs arbitrary: p prp) auto

section \<open>Queues\<close>

text \<open>A chain with the pointers to its ends.\<close>

definition linkq :: "(nat \<Rightarrow> proc) \<Rightarrow> nat option \<Rightarrow> nat option \<Rightarrow> nat list \<Rightarrow> bool" where
  "linkq ps f l xs \<longleftrightarrow> path ps f xs None \<and> l = last_opt xs"

lemma linkq_cong: "\<forall>x \<in> set xs. p_link (ps' x) = p_link (ps x) \<Longrightarrow> linkq ps' f l xs = linkq ps f l xs"
  using path_cong [of xs ps' ps f None] by (simp add: linkq_def)

lemma linkq_distinct: "linkq ps f l xs \<Longrightarrow> distinct xs"
  by (auto simp: linkq_def path_distinct)

lemma linkq_empty: "linkq ps f l xs \<Longrightarrow> (f = None \<longleftrightarrow> xs = []) \<and> (l = None \<longleftrightarrow> xs = [])"
  by (cases xs) (auto simp: linkq_def last_opt_def)

lemma linkq_push:
  assumes "linkq ps f l xs" and "x \<notin> set xs" and "p_link (ps' x) = f" and "\<forall>y \<in> set xs. p_link (ps' y) = p_link (ps y)"
  shows "linkq ps' (Some x) (if f = None then Some x else l) (x # xs)"
  using assms linkq_cong [OF assms(4)] linkq_empty [OF assms(1)] by (auto simp: linkq_def)

lemma linkq_append:
  assumes "linkq ps f l xs" and "x \<notin> set xs" and "p_link (ps' x) = None"
    and "\<forall>y \<in> set xs. p_link (ps' y) = (if Some y = l then Some x else p_link (ps y))"
  shows "linkq ps' (if l = None then Some x else f) (Some x) (xs @ [x])"
proof (cases xs rule: rev_cases)
  case (snoc us y)
  have d: "distinct xs" by (rule linkq_distinct [OF assms(1)])
  have l: "l = Some y" and u: "path ps f us (Some y)" using assms(1) by (simp_all add: linkq_def snoc path_append)
  have "\<forall>z \<in> set us. p_link (ps' z) = p_link (ps z)" using assms(4) d by (auto simp: snoc l)
  then have "path ps' f us (Some y)" using u path_cong [of us ps' ps] by simp
  moreover have "p_link (ps' y) = Some x" using assms(4) by (simp add: snoc l)
  ultimately show ?thesis using assms(3) by (simp add: linkq_def snoc path_append l last_opt_append)
qed (use assms in \<open>auto simp: linkq_def\<close>)

text \<open>Taking a process off: at the head, or behind another one.\<close>

lemma linkq_behead:
  assumes "linkq ps f l (x # vs)" shows "linkq ps (p_link (ps x)) (if p_link (ps x) = None then None else l) vs"
proof -
  have "p_link (ps x) = None \<longleftrightarrow> vs = []" using assms by (cases vs) (auto simp: linkq_def)
  then show ?thesis using assms by (auto simp: linkq_def)
qed

lemma linkq_remove:
  assumes "linkq ps f l (us @ r # x # vs)" and "p_link (ps' r) = p_link (ps x)"
    and "\<forall>y \<in> set (us @ vs). p_link (ps' y) = p_link (ps y)"
  shows "linkq ps' f (if p_link (ps x) = None then Some r else l) (us @ r # vs)"
proof -
  have p: "path ps f us (Some r)" "path ps (p_link (ps x)) vs None" "l = last_opt (us @ r # x # vs)"
    using assms(1) by (auto simp: linkq_def path_append)
  have "p_link (ps x) = None \<longleftrightarrow> vs = []" using p(2) by (cases vs) auto
  moreover have "path ps' f us (Some r)" "path ps' (p_link (ps x)) vs None"
    using p(1,2) assms(3) path_cong [of us ps' ps] path_cong [of vs ps' ps] by simp_all
  ultimately show ?thesis using assms(2) p(3) by (auto simp: linkq_def path_append last_opt_append)
qed

section \<open>The counts of loaded processes\<close>

text \<open>\<open>c i\<close> loaded processes at priority \<open>i\<close>.\<close>

definition top_ok :: "(nat \<Rightarrow> nat) \<Rightarrow> int \<Rightarrow> bool" where
  "top_ok c m \<longleftrightarrow> (m = -1 \<and> (\<forall>i. c i = 0)) \<or> (0 \<le> m \<and> 0 < c (nat m) \<and> (\<forall>j. m < int j \<longrightarrow> c j = 0))"

definition counts_ok :: "(nat \<Rightarrow> nat) \<Rightarrow> sched \<Rightarrow> bool" where
  "counts_ok c st \<longleftrightarrow>
     length (dispqs st) \<le> 32 * length (dqactmap st) \<and>
     (\<forall>i < length (dispqs st). dq_sruncnt (dispqs st ! i) = int (c i)) \<and>
     (\<forall>i \<ge> length (dispqs st). c i = 0) \<and>
     (\<forall>i < 32 * length (dqactmap st). bt_bit (dqactmap st) i \<longleftrightarrow> 0 < c i) \<and>
     srunprocs st = int (\<Sum>i < length (dispqs st). c i) \<and>
     top_ok c (maxrunpri st)"

lemma counts_okD:
  assumes "counts_ok c st"
  shows "length (dispqs st) \<le> 32 * length (dqactmap st)"
    and "\<And>i. i < length (dispqs st) \<Longrightarrow> dq_sruncnt (dispqs st ! i) = int (c i)"
    and "\<And>i. length (dispqs st) \<le> i \<Longrightarrow> c i = 0"
    and "\<And>i. i < 32 * length (dqactmap st) \<Longrightarrow> bt_bit (dqactmap st) i \<longleftrightarrow> 0 < c i"
    and "srunprocs st = int (\<Sum>i < length (dispqs st). c i)"
    and "top_ok c (maxrunpri st)"
  using assms by (auto simp: counts_ok_def)

lemma counts_index: "\<lbrakk>counts_ok c st; i < length (dispqs st)\<rbrakk> \<Longrightarrow> i div 32 < length (dqactmap st)"
  using counts_okD(1) by (intro less_mult_imp_div_less) (simp add: mult.commute less_le_trans)

lemma sum_upd: "(i :: nat) < n \<Longrightarrow> (\<Sum>j < n. (c(i := k)) j) + c i = (\<Sum>j < n. c j) + (k :: nat)"
proof -
  assume i: "i < n"
  have "sum f {..<n} = f i + sum f ({..<n} - {i})" for f :: "nat \<Rightarrow> nat" using i by (intro sum.remove) simp_all
  note s = this [of "c(i := k)"] this [of c]
  have "sum (c(i := k)) ({..<n} - {i}) = sum c ({..<n} - {i})" by (intro sum.cong) auto
  with s show ?thesis by simp
qed

text \<open>What the counting leaves alone.\<close>

definition rest :: "sched \<Rightarrow> sched" where
  "rest st = st\<lparr>dispqs := [], dqactmap := [], srunprocs := 0, maxrunpri := 0\<rparr>"

definition same_queues :: "sched \<Rightarrow> sched \<Rightarrow> bool" where
  "same_queues st st' \<longleftrightarrow>
     length (dispqs st') = length (dispqs st) \<and>
     (\<forall>i. dq_first (dispqs st' ! i) = dq_first (dispqs st ! i) \<and> dq_last (dispqs st' ! i) = dq_last (dispqs st ! i)) \<and>
     rest st' = rest st"

lemma rest_procs: "rest st' = rest st \<Longrightarrow> procs st' = procs st"
  by (drule arg_cong [where f = procs]) (simp add: rest_def)

lemma set_dq_simps [simp]:
  "dispqs (set_dq i f st) = (dispqs st)[i := f (dispqs st ! i)]" "procs (set_dq i f st) = procs st"
  "procs (set_proc p g st) = (procs st)(p := g (procs st p))" "dispqs (set_proc p g st) = dispqs st"
  "dqactmap (set_dq i f st) = dqactmap st" "srunprocs (set_dq i f st) = srunprocs st" "maxrunpri (set_dq i f st) = maxrunpri st"
  "dqactmap (set_proc p g st) = dqactmap st" "srunprocs (set_proc p g st) = srunprocs st" "maxrunpri (set_proc p g st) = maxrunpri st"
  by (simp_all add: set_dq_def set_proc_def)

lemma sruninc_ok:
  assumes ok: "counts_ok c st" and i: "i < length (dispqs st)"
  shows "\<exists>st'. dq_sruninc (int i) st = Some st' \<and> counts_ok (c(i := Suc (c i))) st' \<and> same_queues st st'"
proof -
  note d = counts_okD [OF ok]
  let ?c = "c(i := Suc (c i))"
  define st1 where "st1 = set_dq i (\<lambda>dq. dq\<lparr>dq_sruncnt := dq_sruncnt dq + 1\<rparr>) (st\<lparr>srunprocs := srunprocs st + 1\<rparr>)"
  define st' where "st' = (if c i = 0 then st1\<lparr>dqactmap := BT_SET (dqactmap st1) i, maxrunpri := max (int i) (maxrunpri st1)\<rparr> else st1)"
  have r: "dq_sruninc (int i) st = Some st'"
    using i d(2) [OF i] counts_index [OF ok i] by (simp add: dq_sruninc_def array_nat_def Let_def st'_def st1_def max_def)
  have top: "top_ok ?c (maxrunpri st')"
  proof (cases "c i = 0")
    case True
    then have m: "maxrunpri st' = max (int i) (maxrunpri st)" by (simp add: st'_def st1_def)
    have "?c j = 0" if "max (int i) (maxrunpri st) < int j" for j using that d(6) by (auto simp: top_ok_def)
    moreover have "0 < ?c (nat (max (int i) (maxrunpri st)))" using d(6) by (auto simp: top_ok_def max_def)
    moreover have "0 \<le> max (int i) (maxrunpri st)" by simp
    ultimately show ?thesis unfolding m top_ok_def by blast
  next
    case False
    have "m < int j \<Longrightarrow> \<forall>j. m < int j \<longrightarrow> c j = 0 \<Longrightarrow> ?c j = 0" for m j using False by (metis fun_upd_apply)
    then show ?thesis using False d(6) by (auto simp: top_ok_def st'_def st1_def)
  qed
  have map: "bt_bit (dqactmap st') j \<longleftrightarrow> 0 < ?c j" if "j < 32 * length (dqactmap st')" for j
    using that d(4) counts_index [OF ok i] by (auto simp: st'_def st1_def split: if_splits)
  have sum: "srunprocs st' = int (\<Sum>i < length (dispqs st'). ?c i)"
  proof -
    have "(\<Sum>j < length (dispqs st). ?c j) = Suc (\<Sum>j < length (dispqs st). c j)"
      using sum_upd [OF i, of c "Suc (c i)"] by (simp del: fun_upd_apply)
    moreover have "srunprocs st' = srunprocs st + 1" "length (dispqs st') = length (dispqs st)" by (simp_all add: st'_def st1_def)
    ultimately show ?thesis unfolding d(5) by (simp del: fun_upd_apply of_nat_sum)
  qed
  have "counts_ok ?c st'"
    unfolding counts_ok_def using top map sum d(1-3) i by (auto simp: st'_def st1_def nth_list_update)
  moreover have "same_queues st st'"
    using i by (auto simp: same_queues_def st'_def st1_def nth_list_update set_dq_def rest_def)
  ultimately show ?thesis using r by blast
qed

lemma srundec_ok:
  assumes ok: "counts_ok c st" and i: "i < length (dispqs st)" and c: "0 < c i"
  shows "\<exists>st'. dq_srundec (int i) st = Some st' \<and> counts_ok (c(i := c i - 1)) st' \<and> same_queues st st'"
proof -
  note d = counts_okD [OF ok]
  let ?c = "c(i := c i - 1)"
  define st1 where "st1 = set_dq i (\<lambda>dq. dq\<lparr>dq_sruncnt := dq_sruncnt dq - 1\<rparr>) (st\<lparr>srunprocs := srunprocs st - 1\<rparr>)"
  define map where "map = BT_CLEAR (dqactmap st) i"
  define m where "m = (if srunprocs st - 1 = 0 then -1 else if int i = maxrunpri st then bt_gethighbit map (i div 32) else maxrunpri st)"
  define st' where "st' = (if c i = 1 then st1\<lparr>dqactmap := map, maxrunpri := m\<rparr> else st1)"
  have r: "dq_srundec (int i) st = Some st'"
    using i d(2) [OF i] counts_index [OF ok i] by (simp add: dq_srundec_def array_nat_def Let_def st'_def st1_def map_def m_def)
  note ix = counts_index [OF ok i]
  have mapb: "bt_bit map j \<longleftrightarrow> j \<noteq> i \<and> bt_bit (dqactmap st) j" for j using ix by (simp add: map_def)
  have sum: "srunprocs st - 1 = int (\<Sum>i < length (dispqs st). ?c i)"
  proof -
    have "1 \<le> (\<Sum>j < length (dispqs st). c j)" using i c member_le_sum [of i "{..<length (dispqs st)}" c] by simp
    moreover have "(\<Sum>j < length (dispqs st). ?c j) = (\<Sum>j < length (dispqs st). c j) - 1"
      using sum_upd [OF i, of c "c i - 1"] c by (simp del: fun_upd_apply)
    ultimately show ?thesis unfolding d(5) by (simp del: fun_upd_apply of_nat_sum)
  qed
  have top: "top_ok ?c (maxrunpri st')"
  proof (cases "c i = 1")
    case False
    have "?c j = 0 \<longleftrightarrow> c j = 0" for j using False c by simp
    then show ?thesis using False d(6) c by (auto simp: top_ok_def st'_def st1_def)
  next
    case True
    then have m: "maxrunpri st' = m" by (simp add: st'_def)
    have top: "0 \<le> maxrunpri st" "0 < c (nat (maxrunpri st))" "\<forall>j. maxrunpri st < int j \<longrightarrow> c j = 0"
      using d(6) c by (auto simp: top_ok_def)
    consider "srunprocs st - 1 = 0" | "srunprocs st - 1 \<noteq> 0" "int i = maxrunpri st" | "srunprocs st - 1 \<noteq> 0" "int i \<noteq> maxrunpri st" by blast
    then show ?thesis
    proof cases
      case 1
      then have "(\<Sum>j < length (dispqs st). ?c j) = 0" unfolding sum by (simp del: fun_upd_apply of_nat_sum)
      then have "\<forall>j < length (dispqs st). ?c j = 0" by (simp del: fun_upd_apply)
      then have "?c j = 0" for j using d(3) [of j] by (cases "j < length (dispqs st)") auto
      then show ?thesis unfolding m using 1 by (simp add: top_ok_def m_def del: fun_upd_apply)
    next
      case 2
      define S where "S = {j. j < 32 * Suc (i div 32) \<and> bt_bit map j}"
      have below: "?c j = 0" if "i \<le> j" for j using top(3) 2(2) True that by (cases "j = i") auto
      have mod32: "i mod 32 < 32" by simp
      have S: "j \<in> S \<longleftrightarrow> 0 < ?c j" for j
      proof (cases "j < i")
        case True
        then have "j < 32 * Suc (i div 32)" using mult_div_mod_eq [of 32 i] mod32 unfolding mult_Suc_right by linarith
        moreover have "j < 32 * length (dqactmap st)" using True i d(1) by linarith
        ultimately show ?thesis using True d(4) [of j] by (simp add: S_def mapb)
      next
        case False
        have "j < 32 * Suc (i div 32) \<Longrightarrow> j < 32 * length (dqactmap st)"
          using mult_le_mono2 [OF Suc_leI [OF ix], of 32] by (meson less_le_trans)
        then show ?thesis using False d(4) [of j] below [of j] by (auto simp: S_def mapb split: if_splits)
      qed
      have "S \<noteq> {}"
      proof
        assume "S = {}"
        then have "?c j = 0" for j using S [of j] by blast
        then have "srunprocs st - 1 = 0" unfolding sum by (simp del: fun_upd_apply)
        with 2(1) show False ..
      qed
      moreover have fin: "finite S" by (simp add: S_def)
      ultimately have Max: "Max S \<in> S" "\<And>j. j \<in> S \<Longrightarrow> j \<le> Max S" by simp_all
      have m': "m = int (Max S)" using 2 \<open>S \<noteq> {}\<close> gethighbit [of map "i div 32"] by (simp add: m_def Let_def S_def)
      have "0 < ?c (Max S)" using Max(1) S by blast
      moreover have "?c j = 0" if "int (Max S) < int j" for j using S [of j] Max(2) [of j] that by auto
      ultimately show ?thesis unfolding m m' by (simp add: top_ok_def)
    next
      case 3
      then have m': "m = maxrunpri st" by (simp add: m_def)
      have "0 < ?c (nat (maxrunpri st))" using top(1,2) 3(2) by auto
      moreover have "?c j = 0" if "maxrunpri st < int j" for j using top(3) that True by (cases "j = i") auto
      ultimately show ?thesis unfolding m m' using top(1) by (simp add: top_ok_def)
    qed
  qed
  have bits: "bt_bit (dqactmap st') j \<longleftrightarrow> 0 < ?c j" if "j < 32 * length (dqactmap st')" for j
    using that d(4) [of j] c mapb [of j] by (auto simp: st'_def st1_def map_def split: if_splits)
  have "counts_ok ?c st'"
    unfolding counts_ok_def using top bits sum d(1-3) i c by (auto simp: st'_def st1_def map_def nth_list_update of_nat_diff)
  moreover have "same_queues st st'"
    using i by (auto simp: same_queues_def st'_def st1_def nth_list_update set_dq_def rest_def)
  ultimately show ?thesis using r by blast
qed

section \<open>The queues as lists\<close>

text \<open>Every queue is the list \<open>Q i\<close>, of processes of the priority \<open>i\<close>.\<close>

definition queues_ok :: "sched \<Rightarrow> (nat \<Rightarrow> nat list) \<Rightarrow> bool" where
  "queues_ok st Q \<longleftrightarrow>
     (\<forall>i < length (dispqs st). linkq (procs st) (dq_first (dispqs st ! i)) (dq_last (dispqs st ! i)) (Q i)) \<and>
     (\<forall>i \<ge> length (dispqs st). Q i = []) \<and>
     (\<forall>i. \<forall>p \<in> set (Q i). p_pri (procs st p) = int i)"

definition loaded_cnt :: "sched \<Rightarrow> (nat \<Rightarrow> nat list) \<Rightarrow> nat \<Rightarrow> nat" where
  "loaded_cnt st Q i = length (filter (\<lambda>p. loaded (procs st p)) (Q i))"

definition disp_rel :: "sched \<Rightarrow> (nat \<Rightarrow> nat list) \<Rightarrow> bool" where
  "disp_rel st Q \<longleftrightarrow> queues_ok st Q \<and> counts_ok (loaded_cnt st Q) st"

text \<open>The operations change the links of some processes and the fields of the dispatcher, nothing else.\<close>

definition disp_frame :: "nat set \<Rightarrow> sched \<Rightarrow> sched \<Rightarrow> bool" where
  "disp_frame A st st' \<longleftrightarrow>
     length (dispqs st') = length (dispqs st) \<and>
     rest st' = rest (st\<lparr>procs := procs st'\<rparr>) \<and>
     (\<forall>p. procs st' p = (procs st p)\<lparr>p_link := p_link (procs st' p)\<rparr>) \<and>
     (\<forall>p. p \<notin> A \<longrightarrow> p_link (procs st' p) = p_link (procs st p))"

lemma disp_frame_refl: "disp_frame A st st"
  by (simp add: disp_frame_def)

lemma disp_frame_mono: "\<lbrakk>disp_frame A st st'; A \<subseteq> B\<rbrakk> \<Longrightarrow> disp_frame B st st'"
  unfolding disp_frame_def by blast

lemma disp_frame_same:
  assumes "disp_frame A st st1" and "same_queues st1 st'"
  shows "disp_frame A st st'"
  using assms rest_procs [of st' st1] by (auto simp: disp_frame_def same_queues_def)

lemma disp_frameD:
  assumes "disp_frame A st st'"
  shows "length (dispqs st') = length (dispqs st)" "sleepqs st' = sleepqs st" "curproc st' = curproc st" "curpri st' = curpri st"
    "runrun st' = runrun st" "kprunrun st' = kprunrun st" "npwakecnt st' = npwakecnt st" "runin st' = runin st" "runout st' = runout st"
    "ts_plist st' = ts_plist st" "rt_plist st' = rt_plist st" "tsprocs st' = tsprocs st" "rtprocs st' = rtprocs st"
    "ts_dptbl st' = ts_dptbl st" "rt_dptbl st' = rt_dptbl st"
proof -
  have r: "rest st' = rest (st\<lparr>procs := procs st'\<rparr>)" using assms by (simp add: disp_frame_def)
  show "length (dispqs st') = length (dispqs st)" using assms by (simp add: disp_frame_def)
  show "sleepqs st' = sleepqs st" "curproc st' = curproc st" "curpri st' = curpri st"
    "runrun st' = runrun st" "kprunrun st' = kprunrun st" "npwakecnt st' = npwakecnt st" "runin st' = runin st" "runout st' = runout st"
    "ts_plist st' = ts_plist st" "rt_plist st' = rt_plist st" "tsprocs st' = tsprocs st" "rtprocs st' = rtprocs st"
    "ts_dptbl st' = ts_dptbl st" "rt_dptbl st' = rt_dptbl st"
    using arg_cong [OF r, of sleepqs] arg_cong [OF r, of curproc] arg_cong [OF r, of curpri] arg_cong [OF r, of runrun]
      arg_cong [OF r, of kprunrun] arg_cong [OF r, of npwakecnt] arg_cong [OF r, of runin] arg_cong [OF r, of runout]
      arg_cong [OF r, of ts_plist] arg_cong [OF r, of rt_plist] arg_cong [OF r, of tsprocs] arg_cong [OF r, of rtprocs]
      arg_cong [OF r, of ts_dptbl] arg_cong [OF r, of rt_dptbl]
    by (simp_all add: rest_def)
qed

lemma disp_frame_proc:
  assumes "disp_frame A st st'"
  shows "p_stat (procs st' p) = p_stat (procs st p)" "p_flag (procs st' p) = p_flag (procs st p)" "p_pri (procs st' p) = p_pri (procs st p)"
    "p_wchan (procs st' p) = p_wchan (procs st p)" "p_clfuncs (procs st' p) = p_clfuncs (procs st p)"
    "loaded (procs st' p) = loaded (procs st p)" "p \<notin> A \<Longrightarrow> p_link (procs st' p) = p_link (procs st p)"
proof -
  have e: "procs st' p = (procs st p)\<lparr>p_link := p_link (procs st' p)\<rparr>" using assms by (simp add: disp_frame_def)
  show "p_stat (procs st' p) = p_stat (procs st p)" "p_flag (procs st' p) = p_flag (procs st p)" "p_pri (procs st' p) = p_pri (procs st p)"
    "p_wchan (procs st' p) = p_wchan (procs st p)" "p_clfuncs (procs st' p) = p_clfuncs (procs st p)"
    "loaded (procs st' p) = loaded (procs st p)"
    by (subst e, simp add: loaded_def)+
  show "p \<notin> A \<Longrightarrow> p_link (procs st' p) = p_link (procs st p)" using assms by (simp add: disp_frame_def)
qed

text \<open>The order in which the queue and the counts are changed.\<close>

lemma queues_okD:
  assumes "queues_ok st Q"
  shows "i < length (dispqs st) \<Longrightarrow> linkq (procs st) (dq_first (dispqs st ! i)) (dq_last (dispqs st ! i)) (Q i)"
    and "length (dispqs st) \<le> i \<Longrightarrow> Q i = []" and "p \<in> set (Q i) \<Longrightarrow> p_pri (procs st p) = int i"
  using assms by (auto simp: queues_ok_def)

lemma queues_disjoint: "\<lbrakk>queues_ok st Q; p \<in> set (Q i); p \<in> set (Q j)\<rbrakk> \<Longrightarrow> i = j"
  using queues_okD(3) [of st Q p i] queues_okD(3) [of st Q p j] by simp

lemma queues_index: "\<lbrakk>queues_ok st Q; p \<in> set (Q i)\<rbrakk> \<Longrightarrow> i < length (dispqs st)"
  using queues_okD(2) [of st Q i] by (cases "i < length (dispqs st)") auto

lemma queues_ok_upd:
  assumes q: "queues_ok st Q" and i: "i < length (dispqs st)" and f: "disp_frame A st st'"
    and new: "linkq (procs st') (dq_first (dispqs st' ! i)) (dq_last (dispqs st' ! i)) xs" "\<forall>p \<in> set xs. p_pri (procs st p) = int i"
    and old: "\<And>j. j \<noteq> i \<Longrightarrow> dq_first (dispqs st' ! j) = dq_first (dispqs st ! j) \<and> dq_last (dispqs st' ! j) = dq_last (dispqs st ! j)"
      "\<And>j. j \<noteq> i \<Longrightarrow> A \<inter> set (Q j) = {}"
  shows "queues_ok st' (Q(i := xs))"
  unfolding queues_ok_def
proof (intro conjI allI impI ballI)
  fix j assume j: "j < length (dispqs st')"
  show "linkq (procs st') (dq_first (dispqs st' ! j)) (dq_last (dispqs st' ! j)) ((Q(i := xs)) j)"
  proof (cases "j = i")
    case False
    have "\<forall>p \<in> set (Q j). p_link (procs st' p) = p_link (procs st p)" using disp_frame_proc(7) [OF f] old(2) [OF False] by blast
    then show ?thesis using queues_okD(1) [OF q, of j] linkq_cong [of "Q j" "procs st'" "procs st"] j old(1) [OF False] disp_frameD(1) [OF f] False by simp
  qed (use new(1) in simp)
next
  fix j assume "length (dispqs st') \<le> j"
  then show "(Q(i := xs)) j = []" using queues_okD(2) [OF q, of j] i disp_frameD(1) [OF f] by auto
next
  fix j p assume "p \<in> set ((Q(i := xs)) j)"
  then show "p_pri (procs st' p) = int j" using queues_okD(3) [OF q, of p j] new(2) disp_frame_proc(3) [OF f, of p] by (cases "j = i") auto
qed

lemma queues_ok_same:
  assumes "queues_ok st Q" and "same_queues st st'"
  shows "queues_ok st' Q"
  using assms rest_procs [of st' st] by (simp add: queues_ok_def same_queues_def)

lemma counts_ok_cong:
  assumes "counts_ok c st" and "length (dispqs st') = length (dispqs st)" "dqactmap st' = dqactmap st" "srunprocs st' = srunprocs st"
    "maxrunpri st' = maxrunpri st" "\<And>i. i < length (dispqs st) \<Longrightarrow> dq_sruncnt (dispqs st' ! i) = dq_sruncnt (dispqs st ! i)"
  shows "counts_ok c st'"
  using assms by (simp add: counts_ok_def)

lemma disp_frame_set_dq: "disp_frame A st st1 \<Longrightarrow> disp_frame A st (set_dq i f st1)"
  by (simp add: disp_frame_def) (simp add: rest_def set_dq_def)

lemma disp_frame_link: "\<lbrakk>disp_frame A st st1; x \<in> A\<rbrakk> \<Longrightarrow> disp_frame A st (set_proc x (\<lambda>p. p\<lparr>p_link := q\<rparr>) st1)"
proof -
  assume f: "disp_frame A st st1" and x: "x \<in> A"
  let ?s = "set_proc x (\<lambda>p. p\<lparr>p_link := q\<rparr>) st1"
  have "rest ?s = (rest st1)\<lparr>procs := procs ?s\<rparr>" by (simp add: rest_def set_proc_def)
  moreover have "rest st1 = rest (st\<lparr>procs := procs st1\<rparr>)" using f by (simp add: disp_frame_def)
  ultimately have "rest ?s = rest (st\<lparr>procs := procs ?s\<rparr>)" by (simp add: rest_def)
  moreover have e: "procs st1 p = (procs st p)\<lparr>p_link := p_link (procs st1 p)\<rparr>" for p using f unfolding disp_frame_def by blast
  have "(procs st1 x)\<lparr>p_link := q\<rparr> = (procs st x)\<lparr>p_link := q\<rparr>" by (subst e) simp
  then have "procs ?s p = (procs st p)\<lparr>p_link := p_link (procs ?s p)\<rparr>" for p using e [of p] by (cases "p = x") simp_all
  ultimately show ?thesis using f x by (simp add: disp_frame_def)
qed

lemma counts_set_dq: "\<lbrakk>counts_ok c st; \<And>d. dq_sruncnt (f d) = dq_sruncnt d\<rbrakk> \<Longrightarrow> counts_ok c (set_dq i f st)"
  by (rule counts_ok_cong, assumption) (simp_all, metis nth_list_update_eq nth_list_update_neq list_update_beyond not_less)

lemma counts_set_proc: "counts_ok c st \<Longrightarrow> counts_ok c (set_proc x g st)"
  by (rule counts_ok_cong, assumption) simp_all

section \<open>The operations\<close>

lemma loaded_cnt_cong:
  "\<lbrakk>\<And>p. loaded (procs st' p) = loaded (procs st p); \<And>j. mset (Q' j) = mset (Q j)\<rbrakk> \<Longrightarrow> loaded_cnt st' Q' = loaded_cnt st Q"
  by (rule ext) (simp add: loaded_cnt_def, metis mset_filter size_mset)

lemma loaded_cnt_add:
  assumes "\<And>p. loaded (procs st' p) = loaded (procs st p)" and "mset xs = add_mset pp (mset (Q i))"
  shows "loaded_cnt st' (Q(i := xs)) = (if loaded (procs st pp) then (loaded_cnt st Q)(i := Suc (loaded_cnt st Q i)) else loaded_cnt st Q)"
proof -
  have "length (filter (\<lambda>p. loaded (procs st p)) xs) =
      (if loaded (procs st pp) then Suc (length (filter (\<lambda>p. loaded (procs st p)) (Q i))) else length (filter (\<lambda>p. loaded (procs st p)) (Q i)))"
    using arg_cong [OF assms(2), of "\<lambda>M. size (filter_mset (\<lambda>p. loaded (procs st p)) M)"]
    by (simp del: mset_filter add: mset_filter [symmetric])
  then show ?thesis using assms(1) by (auto simp: loaded_cnt_def fun_eq_iff)
qed

lemma insert_count:
  assumes c: "counts_ok (loaded_cnt st Q) st2" and q: "queues_ok st2 (Q(i := xs))" and f: "disp_frame A st st2"
    and i: "i < length (dispqs st)" and xs: "mset xs = add_mset pp (mset (Q i))"
  shows "\<exists>st'. (if loaded (procs st2 pp) then dq_sruninc (int i) st2 else Some st2) = Some st' \<and> disp_rel st' (Q(i := xs)) \<and> disp_frame A st st'"
proof (cases "loaded (procs st pp)")
  case True
  obtain st' where st': "dq_sruninc (int i) st2 = Some st'" "counts_ok ((loaded_cnt st Q)(i := Suc (loaded_cnt st Q i))) st'" "same_queues st2 st'"
    using sruninc_ok [OF c, of i] i disp_frameD(1) [OF f] by auto
  have f': "disp_frame A st st'" by (rule disp_frame_same [OF f st'(3)])
  have "loaded_cnt st' (Q(i := xs)) = (loaded_cnt st Q)(i := Suc (loaded_cnt st Q i))"
    using loaded_cnt_add [of st' st xs pp Q i] disp_frame_proc(6) [OF f'] xs True by simp
  then have "disp_rel st' (Q(i := xs))" using st'(2) queues_ok_same [OF q st'(3)] by (simp add: disp_rel_def)
  then show ?thesis using True st'(1) f' disp_frame_proc(6) [OF f] by simp
next
  case False
  have "loaded_cnt st2 (Q(i := xs)) = loaded_cnt st Q"
    using loaded_cnt_add [of st2 st xs pp Q i] disp_frame_proc(6) [OF f] xs False by simp
  then have "disp_rel st2 (Q(i := xs))" using c q by (simp add: disp_rel_def)
  then show ?thesis using False f disp_frame_proc(6) [OF f] by simp
qed

lemma disp_relD: "disp_rel st Q \<Longrightarrow> queues_ok st Q \<and> counts_ok (loaded_cnt st Q) st"
  by (simp add: disp_rel_def)

lemma setbackdq_ok:
  assumes rel: "disp_rel st Q" and pri: "p_pri (procs st pp) = int i" "i < length (dispqs st)" and off: "\<forall>j. pp \<notin> set (Q j)"
  shows "\<exists>st'. setbackdq pp st = Some st' \<and> disp_rel st' (Q(i := Q i @ [pp])) \<and> disp_frame (insert pp (set (Q i))) st st'"
proof -
  note q = conjunct1 [OF disp_relD [OF rel]] and c = conjunct2 [OF disp_relD [OF rel]]
  define st1 where "st1 = set_proc pp (\<lambda>p. p\<lparr>p_link := None\<rparr>) st"
  define st2 where "st2 = (case dq_last (dispqs st ! i) of
      None \<Rightarrow> set_dq i (\<lambda>dq. dq\<lparr>dq_first := Some pp, dq_last := Some pp\<rparr>) st1
    | Some l \<Rightarrow> set_dq i (\<lambda>dq. dq\<lparr>dq_last := Some pp\<rparr>) (set_proc l (\<lambda>p. p\<lparr>p_link := Some pp\<rparr>) st1))"
  have op: "setbackdq pp st = (if loaded (procs st2 pp) then dq_sruninc (int i) st2 else Some st2)"
    unfolding st2_def st1_def using pri by (simp add: setbackdq_def array_nat_def Let_def)
  note lq = queues_okD(1) [OF q pri(2)]
  have l: "l \<in> set (Q i)" if "dq_last (dispqs st ! i) = Some l" for l
  proof -
    have "last_opt (Q i) = Some l" using lq that unfolding linkq_def by simp
    from last_optD [OF this] show ?thesis by auto
  qed
  have f: "disp_frame (insert pp (set (Q i))) st st2"
    unfolding st2_def st1_def using l
    by (cases "dq_last (dispqs st ! i)") (auto intro!: disp_frame_set_dq disp_frame_link disp_frame_refl)
  have ends: "dq_first (dispqs st2 ! i) = (if dq_last (dispqs st ! i) = None then Some pp else dq_first (dispqs st ! i))"
      "dq_last (dispqs st2 ! i) = Some pp"
    using pri(2) by (auto simp: st2_def st1_def split: option.splits)
  have lk: "p_link (procs st2 pp) = None" "\<forall>y \<in> set (Q i). p_link (procs st2 y) = (if Some y = dq_last (dispqs st ! i) then Some pp else p_link (procs st y))"
    using l off by (auto simp: st2_def st1_def split: option.splits)
  have "linkq (procs st2) (dq_first (dispqs st2 ! i)) (dq_last (dispqs st2 ! i)) (Q i @ [pp])"
    unfolding ends using off lk by (intro linkq_append [OF lq]) simp_all
  moreover have "insert pp (set (Q i)) \<inter> set (Q j) = {}" if "j \<noteq> i" for j
    using off queues_disjoint [OF q] that by blast
  ultimately have q2: "queues_ok st2 (Q(i := Q i @ [pp]))"
    using pri queues_okD(3) [OF q] by (intro queues_ok_upd [OF q pri(2) f]) (auto simp: st2_def st1_def split: option.splits)
  have "counts_ok (loaded_cnt st Q) st2"
    unfolding st2_def st1_def using c by (cases "dq_last (dispqs st ! i)") (auto intro!: counts_set_dq counts_set_proc)
  from insert_count [OF this q2 f pri(2)] show ?thesis unfolding op by simp
qed

lemma setfrontdq_ok:
  assumes rel: "disp_rel st Q" and pri: "p_pri (procs st pp) = int i" "i < length (dispqs st)" and off: "\<forall>j. pp \<notin> set (Q j)"
  shows "\<exists>st'. setfrontdq pp st = Some st' \<and> disp_rel st' (Q(i := pp # Q i)) \<and> disp_frame (insert pp (set (Q i))) st st'"
proof -
  note q = conjunct1 [OF disp_relD [OF rel]] and c = conjunct2 [OF disp_relD [OF rel]]
  define st2 where "st2 = (case dq_first (dispqs st ! i) of
      None \<Rightarrow> set_dq i (\<lambda>dq. dq\<lparr>dq_first := Some pp, dq_last := Some pp\<rparr>) (set_proc pp (\<lambda>p. p\<lparr>p_link := None\<rparr>) st)
    | Some f \<Rightarrow> set_dq i (\<lambda>dq. dq\<lparr>dq_first := Some pp\<rparr>) (set_proc pp (\<lambda>p. p\<lparr>p_link := Some f\<rparr>) st))"
  have op: "setfrontdq pp st = (if loaded (procs st2 pp) then dq_sruninc (int i) st2 else Some st2)"
    unfolding st2_def using pri by (simp add: setfrontdq_def array_nat_def Let_def)
  note lq = queues_okD(1) [OF q pri(2)]
  have f: "disp_frame (insert pp (set (Q i))) st st2"
    unfolding st2_def by (cases "dq_first (dispqs st ! i)") (auto intro!: disp_frame_set_dq disp_frame_link disp_frame_refl)
  have ends: "dq_first (dispqs st2 ! i) = Some pp"
      "dq_last (dispqs st2 ! i) = (if dq_first (dispqs st ! i) = None then Some pp else dq_last (dispqs st ! i))"
    using pri(2) by (auto simp: st2_def split: option.splits)
  have lk: "p_link (procs st2 pp) = dq_first (dispqs st ! i)" "\<forall>y \<in> set (Q i). p_link (procs st2 y) = p_link (procs st y)"
    using off by (auto simp: st2_def split: option.splits)
  have "linkq (procs st2) (dq_first (dispqs st2 ! i)) (dq_last (dispqs st2 ! i)) (pp # Q i)"
    unfolding ends using off lk by (intro linkq_push [OF lq]) simp_all
  moreover have "insert pp (set (Q i)) \<inter> set (Q j) = {}" if "j \<noteq> i" for j
    using off queues_disjoint [OF q] that by blast
  ultimately have q2: "queues_ok st2 (Q(i := pp # Q i))"
    using pri queues_okD(3) [OF q] by (intro queues_ok_upd [OF q pri(2) f]) (auto simp: st2_def split: option.splits)
  have "counts_ok (loaded_cnt st Q) st2"
    unfolding st2_def using c by (cases "dq_first (dispqs st ! i)") (auto intro!: counts_set_dq counts_set_proc)
  from insert_count [OF this q2 f pri(2)] show ?thesis unfolding op by simp
qed

lemma unlink_ok:
  assumes q: "queues_ok st Q" and i: "i < length (dispqs st)" and Q: "Q i = us @ x # vs"
  shows "queues_ok (dq_unlink i (last_opt us) x st) (Q(i := us @ vs)) \<and> disp_frame (set (Q i)) st (dq_unlink i (last_opt us) x st) \<and>
         (counts_ok c st \<longrightarrow> counts_ok c (dq_unlink i (last_opt us) x st))"
proof -
  define st' where "st' = dq_unlink i (last_opt us) x st"
  note lq = queues_okD(1) [OF q i]
  have d: "distinct (Q i)" by (rule linkq_distinct [OF lq])
  have f: "disp_frame (set (Q i)) st st'" and cnt: "counts_ok c st \<longrightarrow> counts_ok c st'"
    and old: "\<And>j. j \<noteq> i \<Longrightarrow> dq_first (dispqs st' ! j) = dq_first (dispqs st ! j) \<and> dq_last (dispqs st' ! j) = dq_last (dispqs st ! j)"
    using last_optD [of us] unfolding st'_def
    by (cases "last_opt us"; auto simp: dq_unlink_def Let_def Q intro!: disp_frame_set_dq disp_frame_link disp_frame_refl counts_set_dq counts_set_proc)+
  have "linkq (procs st') (dq_first (dispqs st' ! i)) (dq_last (dispqs st' ! i)) (us @ vs)"
  proof (cases us rule: rev_cases)
    case Nil
    then show ?thesis using linkq_behead [of "procs st" "dq_first (dispqs st ! i)" "dq_last (dispqs st ! i)" x vs] lq i Q
      by (simp add: st'_def dq_unlink_def Let_def)
  next
    case (snoc ws r)
    have "linkq (procs st) (dq_first (dispqs st ! i)) (dq_last (dispqs st ! i)) (ws @ r # x # vs)" using lq Q snoc by simp
    from linkq_remove [OF this, of "procs st'"] show ?thesis
      using d i unfolding Q snoc st'_def by (auto simp: dq_unlink_def Let_def)
  qed
  moreover have "set (Q i) \<inter> set (Q j) = {}" if "j \<noteq> i" for j using queues_disjoint [OF q] that by blast
  ultimately have "queues_ok st' (Q(i := us @ vs))"
    using queues_okD(3) [OF q] old Q by (intro queues_ok_upd [OF q i f]) auto
  then show ?thesis using f cnt unfolding st'_def by blast
qed

lemma remove_count:
  assumes c: "counts_ok (loaded_cnt st Q) st1" and q: "queues_ok st1 (Q(i := us @ vs))" and f: "disp_frame A st st1"
    and i: "i < length (dispqs st)" and Q: "Q i = us @ x # vs"
  shows "\<exists>st'. (if loaded (procs st1 x) then dq_srundec (int i) st1 else Some st1) = Some st' \<and>
           disp_rel st' (Q(i := us @ vs)) \<and> disp_frame A st st'"
proof (cases "loaded (procs st x)")
  case True
  then have pos: "0 < loaded_cnt st Q i" by (simp add: loaded_cnt_def Q)
  obtain st' where st': "dq_srundec (int i) st1 = Some st'" "counts_ok ((loaded_cnt st Q)(i := loaded_cnt st Q i - 1)) st'" "same_queues st1 st'"
    using srundec_ok [OF c, of i] pos i disp_frameD(1) [OF f] by auto
  have f': "disp_frame A st st'" by (rule disp_frame_same [OF f st'(3)])
  have "loaded_cnt st' (Q(i := us @ vs)) = (loaded_cnt st Q)(i := loaded_cnt st Q i - 1)"
    using disp_frame_proc(6) [OF f'] True by (auto simp: loaded_cnt_def Q fun_eq_iff)
  then have "disp_rel st' (Q(i := us @ vs))" using st'(2) queues_ok_same [OF q st'(3)] by (simp add: disp_rel_def)
  then show ?thesis using True st'(1) f' disp_frame_proc(6) [OF f] by simp
next
  case False
  have "loaded_cnt st1 (Q(i := us @ vs)) = loaded_cnt st Q"
    using disp_frame_proc(6) [OF f] False by (auto simp: loaded_cnt_def Q fun_eq_iff)
  then have "disp_rel st1 (Q(i := us @ vs))" using c q by (simp add: disp_rel_def)
  then show ?thesis using False f disp_frame_proc(6) [OF f] by simp
qed

text \<open>\<open>dispdeq\<close> takes the process off its queue, or finds that it is on none.\<close>

lemma dispdeq_ok:
  assumes rel: "disp_rel st Q" and pri: "p_pri (procs st pp) = int i" "i < length (dispqs st)"
  shows "\<exists>st'. dispdeq pp st = Some (pp \<in> set (Q i), st') \<and> disp_rel st' (Q(i := remove1 pp (Q i))) \<and> disp_frame (set (Q i)) st st'"
proof -
  note q = conjunct1 [OF disp_relD [OF rel]] and c = conjunct2 [OF disp_relD [OF rel]]
  note lq = queues_okD(1) [OF q pri(2)]
  then have path: "path (procs st) (dq_first (dispqs st ! i)) (Q i) None" by (simp add: linkq_def)
  show ?thesis
  proof (cases "pp \<in> set (Q i)")
    case False
    from link_find_None [OF path, of "\<lambda>r. r = pp" None] False obtain r where
      "link_find (procs st) (\<lambda>r. r = pp) None (dq_first (dispqs st ! i)) = Some (r, None)" by blast
    then have "dispdeq pp st = Some (False, st)" using pri by (simp add: dispdeq_def array_nat_def Let_def)
    then show ?thesis using False rel by (simp add: remove1_idem disp_frame_refl)
  next
    case True
    then obtain us vs where Q: "Q i = us @ pp # vs" "pp \<notin> set us" by (meson split_list_first)
    have find: "link_find (procs st) (\<lambda>r. r = pp) None (dq_first (dispqs st ! i)) = Some (last_opt us, Some pp)"
      using path Q(2) unfolding Q(1) by (intro link_find_Some) auto
    define st1 where "st1 = dq_unlink i (last_opt us) pp st"
    note u = unlink_ok [OF q pri(2) Q(1), of "loaded_cnt st Q", folded st1_def]
    obtain st' where st': "(if loaded (procs st1 pp) then dq_srundec (int i) st1 else Some st1) = Some st'"
        "disp_rel st' (Q(i := us @ vs))" "disp_frame (set (Q i)) st st'"
      using remove_count [of st Q st1 i us vs "set (Q i)" pp] u c pri(2) Q(1) by blast
    then have "dispdeq pp st = Some (True, st')"
      using pri find by (simp add: dispdeq_def array_nat_def Let_def st1_def split: if_splits)
    moreover have "remove1 pp (Q i) = us @ vs" using Q by (simp add: remove1_append)
    ultimately show ?thesis using True st' by simp
  qed
qed

text \<open>The switch takes the first loaded process of the highest priority that has one.\<close>

lemma pswtch_pick_ok:
  assumes rel: "disp_rel st Q" and some: "maxrunpri st \<noteq> -1"
  shows "\<exists>i us p vs st'. pswtch_pick st = Some st' \<and> maxrunpri st = int i \<and> i < length (dispqs st) \<and> Q i = us @ p # vs \<and>
           loaded (procs st p) \<and> (\<forall>u \<in> set us. \<not> loaded (procs st u)) \<and> (\<forall>j > i. \<forall>r \<in> set (Q j). \<not> loaded (procs st r)) \<and>
           (\<exists>st1. disp_rel st1 (Q(i := us @ vs)) \<and> disp_frame (set (Q i)) (st\<lparr>runrun := 0, kprunrun := 0, npwakecnt := 0\<rparr>) st1 \<and>
              st' = (set_proc p (\<lambda>q. q\<lparr>p_stat := SONPROC\<rparr>) st1)\<lparr>curpri := p_pri (procs st p), curproc := p\<rparr>)"
proof -
  note q = conjunct1 [OF disp_relD [OF rel]] and c = conjunct2 [OF disp_relD [OF rel]]
  have top: "0 \<le> maxrunpri st" "0 < loaded_cnt st Q (nat (maxrunpri st))" "\<forall>j. maxrunpri st < int j \<longrightarrow> loaded_cnt st Q j = 0"
    using counts_okD(6) [OF c] some by (auto simp: top_ok_def)
  define i where "i = nat (maxrunpri st)"
  have mi: "maxrunpri st = int i" using top(1) by (simp add: i_def)
  have i: "i < length (dispqs st)" using counts_okD(3) [OF c, of i] top(2) by (cases "i < length (dispqs st)") (auto simp: i_def)
  have "\<exists>p \<in> set (Q i). loaded (procs st p)" using top(2) unfolding i_def [symmetric] loaded_cnt_def by (auto simp: filter_empty_conv)
  then obtain us p vs where Q: "Q i = us @ p # vs" "loaded (procs st p)" "\<forall>u \<in> set us. \<not> loaded (procs st u)" by (rule find_split)
  have path: "path (procs st) (dq_first (dispqs st ! i)) (us @ p # vs) None" using queues_okD(1) [OF q i] Q(1) by (simp add: linkq_def)
  define s0 where "s0 = st\<lparr>runrun := 0, kprunrun := 0, npwakecnt := 0\<rparr>"
  have find: "link_find (procs s0) (\<lambda>p. loaded (procs s0 p)) None (dq_first (dispqs s0 ! i)) = Some (last_opt us, Some p)"
    using link_find_Some [OF path Q(2,3)] by (simp add: s0_def)
  have q0: "queues_ok s0 Q" and c0: "counts_ok (loaded_cnt s0 Q) s0"
    using q c counts_ok_cong [OF c, of s0] by (simp_all add: queues_ok_def s0_def loaded_cnt_def [abs_def])
  have i0: "i < length (dispqs s0)" using i by (simp add: s0_def)
  define s1 where "s1 = dq_unlink i (last_opt us) p s0"
  note u = unlink_ok [OF q0 i0 Q(1), of "loaded_cnt s0 Q", folded s1_def]
  obtain s2 where s2: "(if loaded (procs s1 p) then dq_srundec (int i) s1 else Some s1) = Some s2"
      "disp_rel s2 (Q(i := us @ vs))" "disp_frame (set (Q i)) s0 s2"
    using remove_count [of s0 Q s1 i us vs "set (Q i)" p] u c0 i0 Q(1) by blast
  have "loaded (procs s1 p)" using disp_frame_proc(6) [of "set (Q i)" s0 s1 p] u Q(2) by (simp add: s0_def)
  then have dec: "dq_srundec (int i) s1 = Some s2" using s2(1) by simp
  have pri: "p_pri (procs s2 p) = p_pri (procs st p)" using disp_frame_proc(3) [OF s2(3), of p] by (simp add: s0_def)
  have "pswtch_pick st = Some ((set_proc p (\<lambda>q. q\<lparr>p_stat := SONPROC\<rparr>) s2)\<lparr>curpri := p_pri (procs st p), curproc := p\<rparr>)"
    using find dec i mi pri unfolding pswtch_pick_def s0_def [symmetric] Let_def s1_def by (simp add: array_nat_def s0_def)
  moreover have "\<forall>j > i. \<forall>r \<in> set (Q j). \<not> loaded (procs st r)"
    using top(3) unfolding mi by (auto simp: loaded_cnt_def filter_empty_conv)
  ultimately show ?thesis using mi i Q s2(2,3) unfolding s0_def by blast
qed

end
