(* ===== verification/Ts.thy ===== *)
theory Ts
  imports Disp Ipc Callout "HOL-Library.Signed_Division"
begin

text \<open>
  The time-sharing class, \<^verbatim>\<open>disp/ts.c\<close>. Operations on a process that the kernel calls through \<^verbatim>\<open>p_clfuncs\<close>, the update of all
  processes once a second, and the parameters of \<^verbatim>\<open>priocntl\<close>.
\<close>

definition TS_NOCHANGE :: int where "TS_NOCHANGE = -32768"
definition NZERO :: int where "NZERO = 20"
definition PMASK :: u32 where "PMASK = 0x7f"
definition HZ :: int where "HZ = 100"

definition to_char :: "int \<Rightarrow> int" where
  "to_char v = (v + 128) mod 256 - 128"

definition set_ts :: "nat \<Rightarrow> (tsproc \<Rightarrow> tsproc) \<Rightarrow> sched \<Rightarrow> sched" where
  "set_ts p f st = st\<lparr>tsprocs := (tsprocs st)(p := f (tsprocs st p))\<rparr>"

definition tsmedumdpri :: "schedconf \<Rightarrow> int" where
  "tsmedumdpri cf = ts_maxumdpri cf div 2"

definition TS_NEWUMDPRI :: "schedconf \<Rightarrow> tsproc \<Rightarrow> tsproc" where
  "TS_NEWUMDPRI cf t =
     (let u = to_short (ts_cpupri t + ts_upri t) in
      t\<lparr>ts_umdpri := (if u > ts_maxumdpri cf then ts_maxumdpri cf else if u < 0 then 0 else u)\<rparr>)"

text \<open>\<^verbatim>\<open>ts_dptbl[tsumdpri]\<close>, and the quantum of that level.\<close>

definition ts_level :: "nat \<Rightarrow> sched \<Rightarrow> tsdpent option" where
  "ts_level p st = nth_opt (ts_dptbl st) (ts_umdpri (tsprocs st p))"

definition ts_newquantum :: "nat \<Rightarrow> sched \<Rightarrow> sched option" where
  "ts_newquantum p st = do { d \<leftarrow> ts_level p st; Some (set_ts p (\<lambda>t. t\<lparr>ts_timeleft := ts_quantum d\<rparr>) st) }"

section \<open>Priorities\<close>

text \<open>The process moves to the priority of its user mode level, as in \<^verbatim>\<open>ts_enterclass\<close> and \<^verbatim>\<open>ts_parmsset\<close>.\<close>

definition ts_resetpri :: "nat \<Rightarrow> sched \<Rightarrow> sched option" where
  "ts_resetpri p st =
     (if p = curproc st then
        do {
          d \<leftarrow> ts_level p st;
          let st1 = (set_proc p (\<lambda>q. q\<lparr>p_pri := ts_globpri d\<rparr>) st)\<lparr>curpri := ts_globpri d\<rparr>;
          if ts_globpri d > maxrunpri st1 then ts_newquantum p st1
          else Some ((set_ts p (\<lambda>t. t\<lparr>ts_backq := True\<rparr>) st1)\<lparr>runrun := runrun st1 + 1\<rparr>)
        }
      else
        do {
          (wasonq, st1) \<leftarrow> dispdeq p st;
          d \<leftarrow> ts_level p st1;
          let st2 = set_proc p (\<lambda>q. q\<lparr>p_pri := ts_globpri d\<rparr>) st1;
          if wasonq then
            do {
              let st3 = (if ts_globpri d > curpri st2 then st2\<lparr>runrun := runrun st2 + 1\<rparr> else st2);
              st4 \<leftarrow> ts_newquantum p st3;
              setbackdq p st4
            }
          else Some (set_ts p (\<lambda>t. t\<lparr>ts_backq := True\<rparr>) st2)
        })"

definition ts_preempt :: "nat \<Rightarrow> sched \<Rightarrow> sched option" where
  "ts_preempt p st =
     (let t = tsprocs st p in
      if ts_backq t \<and> \<not> ts_kpri t \<and> \<not> ts_forked t then
        do {
          st1 \<leftarrow> ts_newquantum p st;
          setbackdq p (set_ts p (\<lambda>t. t\<lparr>ts_dispwait := 0, ts_backq := False\<rparr>) st1)
        }
      else if ts_backq t \<and> ts_kpri t \<and> \<not> ts_forked t then
        setbackdq p (set_ts p (\<lambda>t. t\<lparr>ts_backq := False\<rparr>) st)
      else if ts_backq t \<and> \<not> ts_kpri t \<and> ts_forked t then
        setbackdq p (set_ts p (\<lambda>t. t\<lparr>ts_dispwait := 0, ts_backq := False, ts_forked := False\<rparr>) st)
      else setfrontdq p st)"

definition ts_setrun :: "nat \<Rightarrow> sched \<Rightarrow> sched option" where
  "ts_setrun p st =
     do {
       st1 \<leftarrow> (if \<not> ts_kpri (tsprocs st p) then
                 do { s \<leftarrow> ts_newquantum p st; Some (set_ts p (\<lambda>t. t\<lparr>ts_dispwait := 0\<rparr>) s) }
               else Some st);
       setbackdq p (set_ts p (\<lambda>t. t\<lparr>ts_backq := False, ts_forked := False\<rparr>) st1)
     }"

definition ts_sleep :: "schedconf \<Rightarrow> nat \<Rightarrow> u32 \<Rightarrow> sched \<Rightarrow> sched option" where
  "ts_sleep cf p disp st =
     do {
       let st1 = set_ts p (\<lambda>t. t\<lparr>ts_kpri := True\<rparr>) st;
       pri \<leftarrow> nth_opt (ts_kmdpris cf) (ts_maxkmdpri cf - int (unat (disp AND PMASK)));
       Some (set_proc p (\<lambda>q. q\<lparr>p_pri := pri\<rparr>) st1)
     }"

definition ts_wakeup :: "nat \<Rightarrow> sched \<Rightarrow> sched option" where
  "ts_wakeup p st = setbackdq p (set_ts p (\<lambda>t. t\<lparr>ts_backq := False, ts_forked := False\<rparr>) st)"

definition ts_forkret :: "nat \<Rightarrow> nat option \<Rightarrow> sched \<Rightarrow> sched option" where
  "ts_forkret c parent st =
     do {
       st1 \<leftarrow> setbackdq c st;
       Some (case parent of
               None \<Rightarrow> st1
             | Some p \<Rightarrow> (set_ts p (\<lambda>t. t\<lparr>ts_backq := True, ts_forked := True\<rparr>) st1)\<lparr>runrun := runrun st1 + 1\<rparr>)
     }"

text \<open>The end of a time slice.\<close>

definition ts_tick :: "schedconf \<Rightarrow> nat \<Rightarrow> sched \<Rightarrow> sched option" where
  "ts_tick cf p st =
     (if ts_kpri (tsprocs st p) then Some st
      else
        do {
          let st1 = set_ts p (\<lambda>t. t\<lparr>ts_timeleft := to_long (ts_timeleft t - 1)\<rparr>) st;
          if ts_timeleft (tsprocs st1 p) = 0 then
            do {
              (wasonq, st2) \<leftarrow> dispdeq p st1;
              d \<leftarrow> nth_opt (ts_dptbl st2) (ts_cpupri (tsprocs st2 p));
              let st3 = set_ts p (\<lambda>t. TS_NEWUMDPRI cf (t\<lparr>ts_cpupri := ts_tqexp d\<rparr>)) st2;
              e \<leftarrow> ts_level p st3;
              let st4 = (set_proc p (\<lambda>q. q\<lparr>p_pri := ts_globpri e\<rparr>) st3)\<lparr>curpri := ts_globpri e\<rparr>;
              let st5 = set_ts p (\<lambda>t. t\<lparr>ts_dispwait := 0\<rparr>) st4;
              st6 \<leftarrow> (if wasonq then do { s \<leftarrow> ts_newquantum p st5; setbackdq p s }
                      else Some (set_ts p (\<lambda>t. t\<lparr>ts_backq := True\<rparr>) st5));
              Some (st6\<lparr>runrun := runrun st6 + 1\<rparr>)
            }
          else Some st1
        })"

text \<open>The return to user mode after a sleep.\<close>

definition ts_trapret :: "schedconf \<Rightarrow> nat \<Rightarrow> sched \<Rightarrow> sched option" where
  "ts_trapret cf p st =
     (if \<not> ts_kpri (tsprocs st p) then Some st
      else
        do {
          d \<leftarrow> nth_opt (ts_dptbl st) (ts_cpupri (tsprocs st p));
          let st1 = set_ts p (\<lambda>t. (TS_NEWUMDPRI cf (t\<lparr>ts_cpupri := ts_slpret d\<rparr>))\<lparr>ts_kpri := False\<rparr>) st;
          e \<leftarrow> ts_level p st1;
          let st2 = (set_proc p (\<lambda>q. q\<lparr>p_pri := ts_globpri e\<rparr>) st1)\<lparr>curpri := ts_globpri e\<rparr>;
          let st3 = set_ts p (\<lambda>t. t\<lparr>ts_timeleft := ts_quantum e, ts_dispwait := 0\<rparr>) st2;
          Some (if npwakecnt st3 = 0 \<and> curpri st3 < maxrunpri st3 then st3\<lparr>runrun := runrun st3 + 1\<rparr> else st3)
        })"

text \<open>One turn of the loop of \<^verbatim>\<open>ts_update\<close>.\<close>

definition ts_update1 :: "schedconf \<Rightarrow> nat \<Rightarrow> sched \<Rightarrow> sched option" where
  "ts_update1 cf p st =
     (let q = procs st p in
      if ts_kpri (tsprocs st p) then Some st
      else if (p_stat q \<noteq> SRUN \<and> p_stat q \<noteq> SONPROC) \<or> flag_on (p_flag q) SPROCIO then Some st
      else
        do {
          let st1 = set_ts p (\<lambda>t. t\<lparr>ts_dispwait := to_short (ts_dispwait t + 1)\<rparr>) st;
          d \<leftarrow> ts_level p st1;
          if ts_dispwait (tsprocs st1 p) \<le> ts_maxwait d then Some st1
          else
            do {
              e \<leftarrow> nth_opt (ts_dptbl st1) (ts_cpupri (tsprocs st1 p));
              let st2 = set_ts p (\<lambda>t. (TS_NEWUMDPRI cf (t\<lparr>ts_cpupri := ts_lwait e\<rparr>))\<lparr>ts_dispwait := 0\<rparr>) st1;
              (wasonq, st3) \<leftarrow> dispdeq p st2;
              g \<leftarrow> ts_level p st3;
              let st4 = set_proc p (\<lambda>q. q\<lparr>p_pri := ts_globpri g\<rparr>) (if p = curproc st3 then st3\<lparr>curpri := ts_globpri g\<rparr> else st3);
              if wasonq then do { s \<leftarrow> ts_newquantum p st4; setbackdq p s }
              else Some (set_ts p (\<lambda>t. t\<lparr>ts_backq := True\<rparr>) st4)
            }
        })"

fun ts_update_loop :: "schedconf \<Rightarrow> nat list \<Rightarrow> sched \<Rightarrow> sched option" where
  "ts_update_loop cf [] st = Some st"
| "ts_update_loop cf (p # ps) st = do { st1 \<leftarrow> ts_update1 cf p st; ts_update_loop cf ps st1 }"

text \<open>It asks for its next call; \<open>upd\<close> is its own address.\<close>

definition ts_update :: "schedconf \<Rightarrow> nat \<Rightarrow> sched \<times> clkstate \<Rightarrow> (sched \<times> clkstate) option" where
  "ts_update cf upd = (\<lambda>(st, clk).
     do {
       st1 \<leftarrow> ts_update_loop cf (ts_plist st) st;
       (_, clk1) \<leftarrow> timeout upd 0 HZ clk;
       Some (st1\<lparr>runrun := runrun st1 + 1\<rparr>, clk1)
     })"

section \<open>Joining and leaving the class\<close>

record tsparms =
  tp_uprilim :: int
  tp_upri :: int

text \<open>\<open>mem\<close> tells whether there is memory for the class data. The result is the error number.\<close>

definition ts_enterclass ::
  "schedconf \<Rightarrow> nat \<Rightarrow> bool \<Rightarrow> tsparms option \<Rightarrow> nat \<Rightarrow> cred option \<Rightarrow> sched \<times> clkstate \<Rightarrow> (errno option \<times> sched \<times> clkstate) option" where
  "ts_enterclass cf upd mem parms p reqcr = (\<lambda>(st, clk).
     if \<not> mem then Some (Some ENOMEM, st, clk)
     else
       do {
         t \<leftarrow> (case parms of
                 None \<Rightarrow>
                   Some (Inr ((tsprocs st p)\<lparr>ts_uprilim := 0, ts_upri := 0, ts_nice := 20, ts_umdpri := tsmedumdpri cf,
                                           ts_cpupri := tsmedumdpri cf\<rparr>))
               | Some tp \<Rightarrow>
                   (let reqtsuprilim = (if tp_uprilim tp = TS_NOCHANGE then 0 else tp_uprilim tp) in
                    if (case reqcr of None \<Rightarrow> False | Some cr \<Rightarrow> reqtsuprilim > 0 \<and> \<not> suser cr) then Some (Inl EPERM)
                    else
                      (let reqtsupri = (if tp_upri tp = TS_NOCHANGE then reqtsuprilim
                                        else if tp_upri tp > reqtsuprilim then reqtsuprilim else tp_upri tp) in
                       if ts_maxupri cf = 0 then None
                       else
                         Some (Inr (TS_NEWUMDPRI cf
                           ((tsprocs st p)\<lparr>ts_uprilim := reqtsuprilim, ts_upri := reqtsupri,
                                           ts_nice := to_char (20 - (20 * reqtsupri) sdiv ts_maxupri cf),
                                           ts_cpupri := tsmedumdpri cf\<rparr>))))));
         case t of
           Inl e \<Rightarrow> Some (Some e, st, clk)
         | Inr t \<Rightarrow>
             do {
               let st1 = (set_ts p (\<lambda>_. t\<lparr>ts_dispwait := 0, ts_kpri := False, ts_backq := False, ts_forked := False\<rparr>) st)
                           \<lparr>ts_plist := p # ts_plist st\<rparr>;
               st2 \<leftarrow> ts_resetpri p st1;
               if tspexists st2 = 0 then
                 do {
                   (_, clk1) \<leftarrow> timeout upd 0 HZ clk;
                   Some (None, st2\<lparr>tspexists := tspexists st2 + 1\<rparr>, clk1)
                 }
               else Some (None, st2, clk)
             }
       })"

definition ts_exitclass :: "nat \<Rightarrow> sched \<Rightarrow> sched" where
  "ts_exitclass p st = st\<lparr>ts_plist := remove1 p (ts_plist st)\<rparr>"

definition ts_fork :: "nat \<Rightarrow> nat \<Rightarrow> sched \<Rightarrow> sched option" where
  "ts_fork p c st =
     do {
       d \<leftarrow> ts_level p st;
       Some ((set_ts c (\<lambda>_. (tsprocs st p)\<lparr>ts_timeleft := ts_quantum d, ts_dispwait := 0, ts_backq := False\<rparr>) st)
               \<lparr>ts_plist := c # ts_plist st\<rparr>)
     }"

section \<open>Parameters\<close>

definition ts_getglobpri :: "schedconf \<Rightarrow> tsparms \<Rightarrow> sched \<Rightarrow> int option" where
  "ts_getglobpri cf tp st =
     (let tspri = tsmedumdpri cf + tp_upri tp;
          lvl = (if tspri > ts_maxumdpri cf then ts_maxumdpri cf else if tspri < 0 then 0 else tspri)
      in map_option ts_globpri (nth_opt (ts_dptbl st) lvl))"

definition ts_parmsget :: "nat \<Rightarrow> sched \<Rightarrow> tsparms" where
  "ts_parmsget p st = \<lparr>tp_uprilim = ts_uprilim (tsprocs st p), tp_upri = ts_upri (tsprocs st p)\<rparr>"

text \<open>\<open>targ\<close> is the class data of the target when it is a time-sharing process.\<close>

definition ts_parmsin :: "schedconf \<Rightarrow> tsparms \<Rightarrow> cred option \<Rightarrow> tsproc option \<Rightarrow> errno option" where
  "ts_parmsin cf tp reqcr targ =
     (if (tp_uprilim tp > ts_maxupri cf \<or> tp_uprilim tp < - ts_maxupri cf) \<and> tp_uprilim tp \<noteq> TS_NOCHANGE then Some EINVAL
      else if (tp_upri tp > ts_maxupri cf \<or> tp_upri tp < - ts_maxupri cf) \<and> tp_upri tp \<noteq> TS_NOCHANGE then Some EINVAL
      else
        (case reqcr of
           None \<Rightarrow> None
         | Some cr \<Rightarrow>
             if tp_uprilim tp = TS_NOCHANGE then None
             else
               (case targ of
                  Some t \<Rightarrow> if tp_uprilim tp > ts_uprilim t \<and> \<not> suser cr then Some EPERM else None
                | None \<Rightarrow> if tp_uprilim tp > 0 \<and> \<not> suser cr then Some EPERM else None)))"

definition ts_parmsset :: "schedconf \<Rightarrow> tsparms \<Rightarrow> nat \<Rightarrow> cred option \<Rightarrow> sched \<Rightarrow> (errno option \<times> sched) option" where
  "ts_parmsset cf tp p reqcr st =
     (let t = tsprocs st p;
          reqtsuprilim = (if tp_uprilim tp = TS_NOCHANGE then ts_uprilim t else tp_uprilim tp);
          upri = (if tp_upri tp = TS_NOCHANGE then ts_upri t else tp_upri tp);
          reqtsupri = (if upri > reqtsuprilim then reqtsuprilim else upri)
      in
      if (case reqcr of None \<Rightarrow> False | Some cr \<Rightarrow> reqtsuprilim > ts_uprilim t \<and> \<not> suser cr) then Some (Some EPERM, st)
      else if ts_maxupri cf = 0 then None
      else
        (let nice = to_char (20 - (tp_upri tp * 20) sdiv ts_maxupri cf);
             st1 = set_ts p (\<lambda>t. (TS_NEWUMDPRI cf (t\<lparr>ts_uprilim := reqtsuprilim, ts_upri := reqtsupri\<rparr>))
                                   \<lparr>ts_nice := (if nice = 40 then 39 else nice)\<rparr>) st
         in
         if ts_kpri (tsprocs st1 p) then Some (None, st1)
         else
           do {
             st2 \<leftarrow> ts_resetpri p (set_ts p (\<lambda>t. t\<lparr>ts_dispwait := 0\<rparr>) st1);
             Some (None, st2)
           }))"

definition ts_donice :: "schedconf \<Rightarrow> nat \<Rightarrow> int \<Rightarrow> sched \<Rightarrow> (int \<times> sched) option" where
  "ts_donice cf p incr st =
     (let incr' = (if incr > 2 * NZERO - 1 then 2 * NZERO - 1 else incr);
          n = ts_nice (tsprocs st p) + incr';
          newnice = (if n \<ge> 2 * NZERO then 2 * NZERO - 1 else if n < 0 then 0 else n);
          pri = to_short (- ((newnice - NZERO) * ts_maxupri cf) sdiv NZERO)
      in
      do {
        (_, st1) \<leftarrow> ts_parmsset cf \<lparr>tp_uprilim = pri, tp_upri = pri\<rparr> p None st;
        Some (newnice - NZERO, set_ts p (\<lambda>t. t\<lparr>ts_nice := to_char newnice\<rparr>) st1)
      })"

definition ts_proccmp :: "nat \<Rightarrow> nat \<Rightarrow> sched \<Rightarrow> int" where
  "ts_proccmp p q st = ts_upri (tsprocs st p) - ts_upri (tsprocs st q)"

section \<open>Swapping\<close>

fun ts_swapin_loop :: "sched \<Rightarrow> nat list \<Rightarrow> nat option \<Rightarrow> int \<Rightarrow> bool \<Rightarrow> nat option \<times> bool" where
  "ts_swapin_loop st [] retpp maxpri runflag = (if maxpri = -1 then None else retpp, runflag)"
| "ts_swapin_loop st (p # ps) retpp maxpri runflag =
     (let q = procs st p in
      if flag_on (p_flag q) SUSWAP then ts_swapin_loop st ps retpp maxpri runflag
      else if p_stat q = SRUN then
        if p_flag q AND SLOAD = 0 then
          if p_pri q > maxpri then ts_swapin_loop st ps (Some p) (p_pri q) runflag else ts_swapin_loop st ps retpp maxpri runflag
        else ts_swapin_loop st ps retpp maxpri True
      else ts_swapin_loop st ps retpp maxpri runflag)"

definition ts_swapin :: "sched \<Rightarrow> nat option \<times> bool" where
  "ts_swapin st = ts_swapin_loop st (ts_plist st) None (-1) False"

fun ts_swapout_loop :: "sched \<Rightarrow> nat option \<Rightarrow> nat list \<Rightarrow> nat option \<Rightarrow> int \<Rightarrow> int \<Rightarrow> nat option" where
  "ts_swapout_loop st jl [] retpp minspri minrpri = retpp"
| "ts_swapout_loop st jl (p # ps) retpp minspri minrpri =
     (let q = procs st p in
      if p_stat q = SZOMB then ts_swapout_loop st jl ps retpp minspri minrpri
      else if p_flag q AND (SLOAD OR SSYS OR SLOCK OR SUSWAP OR SPROCIO OR SSWLOCKS) \<noteq> SLOAD then
        ts_swapout_loop st jl ps retpp minspri minrpri
      else if Some p = jl then ts_swapout_loop st jl ps retpp minspri minrpri
      else if (p_stat q = SSLEEP \<or> p_stat q = SSTOP) \<and> p_pri q < minspri then ts_swapout_loop st jl ps (Some p) (p_pri q) minrpri
      else if retpp = None \<and> p_stat q = SRUN \<and> p_pri q < minrpri then ts_swapout_loop st jl ps (Some p) minspri (p_pri q)
      else ts_swapout_loop st jl ps retpp minspri minrpri)"

text \<open>\<open>maxglob\<close> is \<^verbatim>\<open>ts_maxglobpri\<close>, computed by \<^verbatim>\<open>ts_init\<close>.\<close>

definition ts_maxglobpri :: "schedconf \<Rightarrow> sched \<Rightarrow> int" where
  "ts_maxglobpri cf st = max (ts_kmdpris cf ! nat (ts_maxkmdpri cf)) (ts_globpri (ts_dptbl st ! nat (ts_maxumdpri cf)))"

definition ts_swapout :: "schedconf \<Rightarrow> nat option \<Rightarrow> sched \<Rightarrow> nat option" where
  "ts_swapout cf jl st = ts_swapout_loop st jl (ts_plist st) None (ts_maxglobpri cf st + 1) (ts_maxglobpri cf st + 1)"

section \<open>Administration\<close>

datatype ts_cmd = TS_GETDPSIZE | TS_GETDPTBL | TS_SETDPTBL | TS_OTHERCMD

definition ts_entry_ok :: "schedconf \<Rightarrow> tsdpent \<Rightarrow> bool" where
  "ts_entry_ok cf d \<longleftrightarrow>
     \<not> ts_quantum d \<le> 0 \<and> \<not> (ts_tqexp d > ts_maxumdpri cf \<or> ts_tqexp d < 0) \<and>
     \<not> (ts_slpret d > ts_maxumdpri cf \<or> ts_slpret d < 0) \<and> \<not> ts_maxwait d < 0 \<and> \<not> (ts_lwait d > ts_maxumdpri cf \<or> ts_lwait d < 0)"

text \<open>
  The arguments: the structure of the caller, or \<open>None\<close> for a fault of \<^verbatim>\<open>copyin\<close>; its table; whether the copies to the caller succeed.
  The result: an error, or the entries and the count copied out.
\<close>

definition ts_admin ::
  "schedconf \<Rightarrow> (ts_cmd \<times> int) option \<Rightarrow> tsdpent list option \<Rightarrow> bool \<Rightarrow> bool \<Rightarrow> cred \<Rightarrow> sched \<Rightarrow> (errno + tsdpent list \<times> int) \<times> sched" where
  "ts_admin cf arg tbl out1 out2 cr st =
     (case arg of
        None \<Rightarrow> (Inl EFAULT, st)
      | Some (cmd, ndpents) \<Rightarrow>
          (let n = ts_maxumdpri cf + 1 in
           case cmd of
             TS_GETDPSIZE \<Rightarrow> if out1 then (Inr ([], n), st) else (Inl EFAULT, st)
           | TS_GETDPTBL \<Rightarrow>
               (let k = (if ndpents < 0 then n else min ndpents n) in
                if out1 \<and> out2 then (Inr (take (nat k) (ts_dptbl st), k), st) else (Inl EFAULT, st))
           | TS_SETDPTBL \<Rightarrow>
               if \<not> suser cr then (Inl EPERM, st)
               else if ndpents \<noteq> n then (Inl EINVAL, st)
               else
                 (case tbl of
                    None \<Rightarrow> (Inl EFAULT, st)
                  | Some tmp \<Rightarrow>
                      if \<not> list_all (ts_entry_ok cf) tmp then (Inl EINVAL, st)
                      else
                        (Inr ([], n),
                         st\<lparr>ts_dptbl := map (\<lambda>(old, new). new\<lparr>ts_globpri := ts_globpri old\<rparr>) (zip (ts_dptbl st) tmp)\<rparr>))
           | TS_OTHERCMD \<Rightarrow> (Inl EINVAL, st)))"

end
