(* ===== verification/Rt.thy ===== *)
theory Rt
  imports Ts
begin

text \<open>
  The real-time class, \<^verbatim>\<open>disp/rt.c\<close>, the system class, \<^verbatim>\<open>disp/sysclass.c\<close>, and the calls through \<^verbatim>\<open>p_clfuncs\<close> of \<^verbatim>\<open>sys/class.h\<close>.
\<close>

definition RT_NOCHANGE :: int where "RT_NOCHANGE = -1"
definition RT_TQINF :: int where "RT_TQINF = -2"
definition RT_TQDEF :: int where "RT_TQDEF = -3"

definition set_rt :: "nat \<Rightarrow> (rtproc \<Rightarrow> rtproc) \<Rightarrow> sched \<Rightarrow> sched" where
  "set_rt p f st = st\<lparr>rtprocs := (rtprocs st)(p := f (rtprocs st p))\<rparr>"

definition rt_level :: "nat \<Rightarrow> sched \<Rightarrow> rtdpent option" where
  "rt_level p st = nth_opt (rt_dptbl st) (rt_pri (rtprocs st p))"

text \<open>\<^verbatim>\<open>runrun++; kprunrun++\<close>\<close>

definition bump_krun :: "sched \<Rightarrow> sched" where
  "bump_krun st = st\<lparr>runrun := runrun st + 1, kprunrun := kprunrun st + 1\<rparr>"

section \<open>Scheduling\<close>

definition rt_preempt :: "nat \<Rightarrow> sched \<Rightarrow> sched option" where
  "rt_preempt p st =
     (let st1 = (if p = curproc st then set_rt p (\<lambda>r. r\<lparr>rt_ran := True\<rparr>) st else st) in
      if rt_backq (rtprocs st1 p) then
        setbackdq p (set_rt p (\<lambda>r. r\<lparr>rt_timeleft := rt_pquantum r, rt_backq := False\<rparr>) st1)
      else setfrontdq p st1)"

definition rt_enqueue :: "nat \<Rightarrow> sched \<Rightarrow> sched option" where
  "rt_enqueue p st =
     do {
       st1 \<leftarrow> setbackdq p (set_rt p (\<lambda>r. r\<lparr>rt_timeleft := rt_pquantum r, rt_backq := False\<rparr>) st);
       Some (if p_pri (procs st1 p) > curpri st1 then bump_krun st1 else st1)
     }"

definition rt_setrun :: "nat \<Rightarrow> sched \<Rightarrow> sched option" where
  "rt_setrun = rt_enqueue"

definition rt_wakeup :: "nat \<Rightarrow> sched \<Rightarrow> sched option" where
  "rt_wakeup = rt_enqueue"

definition rt_sleep :: "nat \<Rightarrow> sched \<Rightarrow> sched" where
  "rt_sleep p st = set_rt p (\<lambda>r. r\<lparr>rt_ran := True\<rparr>) st"

definition rt_stop :: "nat \<Rightarrow> sched \<Rightarrow> sched" where
  "rt_stop p st = (if p = curproc st then set_rt p (\<lambda>r. r\<lparr>rt_ran := True\<rparr>) st else st)"

definition rt_tick :: "nat \<Rightarrow> sched \<Rightarrow> sched" where
  "rt_tick p st =
     (if rt_pquantum (rtprocs st p) \<noteq> RT_TQINF then
        (let st1 = set_rt p (\<lambda>r. r\<lparr>rt_timeleft := to_long (rt_timeleft r - 1)\<rparr>) st in
         if rt_timeleft (rtprocs st1 p) = 0 then bump_krun (set_rt p (\<lambda>r. r\<lparr>rt_backq := True\<rparr>) st1) else st1)
      else st)"

definition rt_forkret :: "nat \<Rightarrow> sched \<Rightarrow> sched option" where
  "rt_forkret c st = setbackdq c st"

section \<open>Joining and leaving the class\<close>

record rtkparms =
  rk_pri :: int
  rk_tqntm :: int

text \<open>
  The process is brought into memory first: \<open>memlow\<close> and \<open>swapinub\<close> are what the functions of these names return, \<open>mem\<close> tells
  whether there is memory for the class data.
\<close>

definition rt_load :: "bool \<Rightarrow> bool \<Rightarrow> nat \<Rightarrow> sched \<Rightarrow> (errno option \<times> sched) option" where
  "rt_load memlow swapinub p st =
     (let q = procs st p in
      if p_flag q AND SLOAD = 0 then
        if memlow then Some (Some ENOMEM, st)
        else if flag_on (p_flag q) SUSWAP then Some (Some EAGAIN, st)
        else if \<not> swapinub then Some (Some ENOMEM, st)
        else
          do {
            let st1 = set_proc p (\<lambda>q. q\<lparr>p_flag := p_flag q OR SLOAD\<rparr>) st;
            st2 \<leftarrow> (if p_stat q = SRUN \<and> p_flag q AND (SLOAD OR SPROCIO) = 0 then dq_sruninc (p_pri q) st1 else Some st1);
            Some (None, st2)
          }
      else Some (None, st))"

definition rt_resetpri :: "nat \<Rightarrow> sched \<Rightarrow> sched option" where
  "rt_resetpri p st =
     do {
       d \<leftarrow> rt_level p st;
       if p = curproc st then
         (let st1 = (set_proc p (\<lambda>q. q\<lparr>p_pri := rt_globpri d\<rparr>) st)\<lparr>curpri := rt_globpri d\<rparr> in
          Some (if rt_globpri d > maxrunpri st1 then set_rt p (\<lambda>r. r\<lparr>rt_timeleft := rt_pquantum r\<rparr>) st1
                else bump_krun (set_rt p (\<lambda>r. r\<lparr>rt_backq := True\<rparr>) st1)))
       else
         do {
           (wasonq, st1) \<leftarrow> dispdeq p st;
           let st2 = set_proc p (\<lambda>q. q\<lparr>p_pri := rt_globpri d\<rparr>) st1;
           if wasonq then
             setbackdq p (set_rt p (\<lambda>r. r\<lparr>rt_timeleft := rt_pquantum r\<rparr>) (if rt_globpri d > curpri st2 then bump_krun st2 else st2))
           else Some (set_rt p (\<lambda>r. r\<lparr>rt_backq := True\<rparr>) st2)
         }
     }"

definition rt_enterclass ::
  "bool \<Rightarrow> bool \<Rightarrow> bool \<Rightarrow> rtkparms option \<Rightarrow> nat \<Rightarrow> cred option \<Rightarrow> sched \<Rightarrow> (errno option \<times> sched) option" where
  "rt_enterclass memlow swapinub mem parms p reqcr st =
     (if (case reqcr of None \<Rightarrow> False | Some cr \<Rightarrow> \<not> suser cr) then Some (Some EPERM, st)
      else
        do {
          (e, st1) \<leftarrow> rt_load memlow swapinub p st;
          if e \<noteq> None then Some (e, st1)
          else if \<not> mem then Some (Some ENOMEM, st1)
          else
            do {
              (pri, qntm) \<leftarrow>
                (case parms of
                   None \<Rightarrow> do { d \<leftarrow> nth_opt (rt_dptbl st1) 0; Some (0, rt_quantum d) }
                 | Some rk \<Rightarrow>
                     (let pri = (if rk_pri rk = RT_NOCHANGE then 0 else rk_pri rk) in
                      if rk_tqntm rk = RT_TQINF then Some (pri, RT_TQINF)
                      else if rk_tqntm rk = RT_TQDEF \<or> rk_tqntm rk = RT_NOCHANGE then
                        do { d \<leftarrow> nth_opt (rt_dptbl st1) pri; Some (pri, rt_quantum d) }
                      else Some (pri, rk_tqntm rk)));
              st2 \<leftarrow> rt_resetpri p ((set_rt p (\<lambda>r. r\<lparr>rt_pri := pri, rt_pquantum := qntm, rt_ran := False, rt_backq := False\<rparr>) st1)
                                    \<lparr>rt_plist := p # rt_plist st1\<rparr>);
              Some (None, st2)
            }
        })"

definition rt_exitclass :: "nat \<Rightarrow> sched \<Rightarrow> sched" where
  "rt_exitclass p st = st\<lparr>rt_plist := remove1 p (rt_plist st)\<rparr>"

definition rt_fork :: "nat \<Rightarrow> nat \<Rightarrow> sched \<Rightarrow> sched" where
  "rt_fork p c st =
     (set_rt c (\<lambda>_. (rtprocs st p)\<lparr>rt_timeleft := rt_pquantum (rtprocs st p), rt_backq := False\<rparr>) st)\<lparr>rt_plist := c # rt_plist st\<rparr>"

section \<open>Parameters\<close>

definition rt_getglobpri :: "rtkparms \<Rightarrow> sched \<Rightarrow> int option" where
  "rt_getglobpri rk st = map_option rt_globpri (nth_opt (rt_dptbl st) (rk_pri rk))"

definition rt_parmsget :: "nat \<Rightarrow> sched \<Rightarrow> rtkparms" where
  "rt_parmsget p st = \<lparr>rk_pri = rt_pri (rtprocs st p), rk_tqntm = rt_pquantum (rtprocs st p)\<rparr>"

text \<open>\<open>reqrt\<close> says that the caller is in the real-time class.\<close>

definition rt_parmsset :: "rtkparms \<Rightarrow> nat \<Rightarrow> bool \<Rightarrow> cred option \<Rightarrow> sched \<Rightarrow> (errno option \<times> sched) option" where
  "rt_parmsset rk p reqrt reqcr st =
     (if (case reqcr of None \<Rightarrow> False | Some cr \<Rightarrow> \<not> reqrt \<and> \<not> suser cr) then Some (Some EPERM, st)
      else
        do {
          st1 \<leftarrow>
            (if rk_pri rk \<noteq> RT_NOCHANGE then
               do {
                 let s1 = set_rt p (\<lambda>r. r\<lparr>rt_pri := rk_pri rk\<rparr>) st;
                 d \<leftarrow> rt_level p s1;
                 if p = curproc s1 then
                   (let s2 = (set_proc p (\<lambda>q. q\<lparr>p_pri := rt_globpri d\<rparr>) s1)\<lparr>curpri := rt_globpri d\<rparr> in
                    Some (if rt_globpri d \<le> maxrunpri s2 then bump_krun (set_rt p (\<lambda>r. r\<lparr>rt_backq := True\<rparr>) s2) else s2))
                 else
                   do {
                     (wasonq, s2) \<leftarrow> dispdeq p s1;
                     let s3 = set_proc p (\<lambda>q. q\<lparr>p_pri := rt_globpri d\<rparr>) s2;
                     if wasonq then setbackdq p (if rt_globpri d > curpri s3 then bump_krun s3 else s3)
                     else Some (set_rt p (\<lambda>r. r\<lparr>rt_backq := True\<rparr>) s3)
                   }
               }
             else Some st);
          st2 \<leftarrow>
            (if rk_tqntm rk = RT_TQINF then Some (set_rt p (\<lambda>r. r\<lparr>rt_pquantum := RT_TQINF\<rparr>) st1)
             else if rk_tqntm rk = RT_TQDEF then
               do { d \<leftarrow> rt_level p st1; Some (set_rt p (\<lambda>r. r\<lparr>rt_pquantum := rt_quantum d, rt_timeleft := rt_quantum d\<rparr>) st1) }
             else if rk_tqntm rk \<noteq> RT_NOCHANGE then
               Some (set_rt p (\<lambda>r. r\<lparr>rt_pquantum := rk_tqntm rk, rt_timeleft := rk_tqntm rk\<rparr>) st1)
             else Some st1);
          Some (None, st2)
        })"

definition rt_proccmp :: "nat \<Rightarrow> nat \<Rightarrow> sched \<Rightarrow> int" where
  "rt_proccmp p q st = rt_pri (rtprocs st p) - rt_pri (rtprocs st q)"

section \<open>Swapping\<close>

definition rt_swapin :: "sched \<Rightarrow> bool" where
  "rt_swapin st \<longleftrightarrow> list_ex (\<lambda>p. p_stat (procs st p) = SRUN) (rt_plist st)"

fun rt_swapout_loop :: "sched \<Rightarrow> nat list \<Rightarrow> nat option \<Rightarrow> int \<Rightarrow> nat option \<times> int" where
  "rt_swapout_loop st [] minpripp minpri = (minpripp, minpri)"
| "rt_swapout_loop st (p # ps) minpripp minpri =
     (let q = procs st p; r = rtprocs st p in
      if p_stat q = SZOMB \<or> p_stat q = SIDL then rt_swapout_loop st ps minpripp minpri
      else if \<not> rt_ran r then rt_swapout_loop st ps minpripp minpri
      else if flag_on (p_flag q) (SSYS OR SLOCK OR SPROCIO OR SSWLOCKS) then rt_swapout_loop st ps minpripp minpri
      else if rt_pri r < minpri then rt_swapout_loop st ps (Some p) (rt_pri r)
      else rt_swapout_loop st ps minpripp minpri)"

definition rt_swapout :: "schedconf \<Rightarrow> sched \<Rightarrow> nat option \<times> sched" where
  "rt_swapout cf st =
     (case rt_swapout_loop st (rt_plist st) None (rt_maxpri cf + 1) of
        (minpripp, minpri) \<Rightarrow>
          if minpri = rt_maxpri cf + 1 then (None, st)
          else (case minpripp of
                  None \<Rightarrow> (None, st)
                | Some p \<Rightarrow> (Some p, set_rt p (\<lambda>r. r\<lparr>rt_ran := False\<rparr>) st)))"

section \<open>The calls by class\<close>

text \<open>\<^verbatim>\<open>sys_setrun\<close>, \<^verbatim>\<open>sys_wakeup\<close> and \<^verbatim>\<open>sys_forkret\<close> are \<open>setbackdq\<close>, \<^verbatim>\<open>sys_preempt\<close> is \<open>setfrontdq\<close>.\<close>

definition sys_sleep :: "schedconf \<Rightarrow> nat \<Rightarrow> u32 \<Rightarrow> sched \<Rightarrow> sched" where
  "sys_sleep cf p disp st = set_proc p (\<lambda>q. q\<lparr>p_pri := v_maxsyspri cf - int (unat (disp AND PMASK))\<rparr>) st"

definition CL_PREEMPT :: "nat \<Rightarrow> sched \<Rightarrow> sched option" where
  "CL_PREEMPT p st = (case p_clfuncs (procs st p) of Sys \<Rightarrow> setfrontdq p st | Ts \<Rightarrow> ts_preempt p st | Rt \<Rightarrow> rt_preempt p st)"

definition CL_SETRUN :: "nat \<Rightarrow> sched \<Rightarrow> sched option" where
  "CL_SETRUN p st = (case p_clfuncs (procs st p) of Sys \<Rightarrow> setbackdq p st | Ts \<Rightarrow> ts_setrun p st | Rt \<Rightarrow> rt_setrun p st)"

definition CL_WAKEUP :: "nat \<Rightarrow> sched \<Rightarrow> sched option" where
  "CL_WAKEUP p st = (case p_clfuncs (procs st p) of Sys \<Rightarrow> setbackdq p st | Ts \<Rightarrow> ts_wakeup p st | Rt \<Rightarrow> rt_wakeup p st)"

definition CL_SLEEP :: "schedconf \<Rightarrow> nat \<Rightarrow> u32 \<Rightarrow> sched \<Rightarrow> sched option" where
  "CL_SLEEP cf p disp st =
     (case p_clfuncs (procs st p) of Sys \<Rightarrow> Some (sys_sleep cf p disp st) | Ts \<Rightarrow> ts_sleep cf p disp st | Rt \<Rightarrow> Some (rt_sleep p st))"

definition CL_TICK :: "schedconf \<Rightarrow> nat \<Rightarrow> sched \<Rightarrow> sched option" where
  "CL_TICK cf p st = (case p_clfuncs (procs st p) of Sys \<Rightarrow> Some st | Ts \<Rightarrow> ts_tick cf p st | Rt \<Rightarrow> Some (rt_tick p st))"

definition CL_TRAPRET :: "schedconf \<Rightarrow> nat \<Rightarrow> sched \<Rightarrow> sched option" where
  "CL_TRAPRET cf p st = (case p_clfuncs (procs st p) of Ts \<Rightarrow> ts_trapret cf p st | _ \<Rightarrow> Some st)"

definition CL_FORKRET :: "nat \<Rightarrow> nat option \<Rightarrow> sched \<Rightarrow> sched option" where
  "CL_FORKRET c parent st =
     (case p_clfuncs (procs st c) of Sys \<Rightarrow> setbackdq c st | Ts \<Rightarrow> ts_forkret c parent st | Rt \<Rightarrow> rt_forkret c st)"

definition CL_STOP :: "nat \<Rightarrow> sched \<Rightarrow> sched" where
  "CL_STOP p st = (case p_clfuncs (procs st p) of Rt \<Rightarrow> rt_stop p st | _ \<Rightarrow> st)"

end
