(* ===== verification/Sched_Inv.thy ===== *)
theory Sched_Inv
  imports Disp_Queues Rt
begin

text \<open>
  What the scheduling classes do to the dispatcher queues. An operation of a class puts a process that is on no queue on one, or
  moves a process that may be on one; the locales \<open>enqueues\<close> and \<open>requeues\<close> are these two contracts and are interpreted on the
  operations of the three classes. Priorities stay inside the tables.
\<close>

section \<open>Updates that do not touch the queues\<close>

definition onq :: "(nat \<Rightarrow> nat list) \<Rightarrow> nat set" where
  "onq Q = (\<Union>i. set (Q i))"

lemma onq_iff: "p \<in> onq Q \<longleftrightarrow> (\<exists>i. p \<in> set (Q i))"
  by (simp add: onq_def)

lemma onq_upd: "set xs = insert p (set (Q i)) \<Longrightarrow> onq (Q(i := xs)) = insert p (onq Q)"
  by (auto simp: onq_def split: if_splits)

lemma onq_remove:
  assumes "queues_ok st Q" and "p_pri (procs st p) = int i" and "distinct (Q i)"
  shows "onq (Q(i := remove1 p (Q i))) = onq Q - {p}"
  using assms queues_okD(3) [OF assms(1), of p] by (auto simp: onq_def split: if_splits)

lemma disp_rel_cong:
  assumes rel: "disp_rel st Q"
    and d: "dispqs st' = dispqs st" "dqactmap st' = dqactmap st" "srunprocs st' = srunprocs st" "maxrunpri st' = maxrunpri st"
    and p: "\<And>p. p \<in> onq Q \<Longrightarrow> p_link (procs st' p) = p_link (procs st p) \<and> p_pri (procs st' p) = p_pri (procs st p) \<and>
             loaded (procs st' p) = loaded (procs st p)"
  shows "disp_rel st' Q"
proof -
  note q = conjunct1 [OF disp_relD [OF rel]] and c = conjunct2 [OF disp_relD [OF rel]]
  have "loaded_cnt st' Q i = loaded_cnt st Q i" for i
    unfolding loaded_cnt_def using p by (intro arg_cong [where f = length] filter_cong refl) (auto simp: onq_iff)
  then have "loaded_cnt st' Q = loaded_cnt st Q" ..
  then have cnt: "counts_ok (loaded_cnt st' Q) st'" using counts_ok_cong [OF c, of st'] d by simp
  have "linkq (procs st') (dq_first (dispqs st' ! i)) (dq_last (dispqs st' ! i)) (Q i)" if "i < length (dispqs st)" for i
    using queues_okD(1) [OF q that] linkq_cong [of "Q i" "procs st'" "procs st"] p d(1) by (auto simp: onq_iff)
  moreover have "p_pri (procs st' x) = p_pri (procs st x)" if "x \<in> set (Q i)" for x i using p that onq_iff by blast
  ultimately have "queues_ok st' Q" using q unfolding queues_ok_def d(1) by simp
  with cnt show ?thesis by (simp add: disp_rel_def)
qed

lemma set_ts_simps [simp]:
  "procs (set_ts p f st) = procs st" "dispqs (set_ts p f st) = dispqs st" "dqactmap (set_ts p f st) = dqactmap st"
  "srunprocs (set_ts p f st) = srunprocs st" "maxrunpri (set_ts p f st) = maxrunpri st" "sleepqs (set_ts p f st) = sleepqs st"
  "curproc (set_ts p f st) = curproc st" "curpri (set_ts p f st) = curpri st" "runrun (set_ts p f st) = runrun st"
  "ts_dptbl (set_ts p f st) = ts_dptbl st" "rt_dptbl (set_ts p f st) = rt_dptbl st" "ts_plist (set_ts p f st) = ts_plist st"
  "rt_plist (set_ts p f st) = rt_plist st" "rtprocs (set_ts p f st) = rtprocs st" "npwakecnt (set_ts p f st) = npwakecnt st"
  "tsprocs (set_ts p f st) = (tsprocs st)(p := f (tsprocs st p))" "runout (set_ts p f st) = runout st" "runin (set_ts p f st) = runin st"
  "tspexists (set_ts p f st) = tspexists st"
  by (simp_all add: set_ts_def)

lemma set_rt_simps [simp]:
  "procs (set_rt p g st) = procs st" "dispqs (set_rt p g st) = dispqs st" "dqactmap (set_rt p g st) = dqactmap st"
  "srunprocs (set_rt p g st) = srunprocs st" "maxrunpri (set_rt p g st) = maxrunpri st" "sleepqs (set_rt p g st) = sleepqs st"
  "curproc (set_rt p g st) = curproc st" "curpri (set_rt p g st) = curpri st" "runrun (set_rt p g st) = runrun st"
  "ts_dptbl (set_rt p g st) = ts_dptbl st" "rt_dptbl (set_rt p g st) = rt_dptbl st" "ts_plist (set_rt p g st) = ts_plist st"
  "rt_plist (set_rt p g st) = rt_plist st" "tsprocs (set_rt p g st) = tsprocs st" "npwakecnt (set_rt p g st) = npwakecnt st"
  "rtprocs (set_rt p g st) = (rtprocs st)(p := g (rtprocs st p))" "runout (set_rt p g st) = runout st" "runin (set_rt p g st) = runin st"
  by (simp_all add: set_rt_def)

lemma set_proc_simps [simp]:
  "sleepqs (set_proc p h st) = sleepqs st" "curproc (set_proc p h st) = curproc st" "curpri (set_proc p h st) = curpri st"
  "runrun (set_proc p h st) = runrun st" "ts_dptbl (set_proc p h st) = ts_dptbl st" "rt_dptbl (set_proc p h st) = rt_dptbl st"
  "ts_plist (set_proc p h st) = ts_plist st" "rt_plist (set_proc p h st) = rt_plist st" "tsprocs (set_proc p h st) = tsprocs st"
  "rtprocs (set_proc p h st) = rtprocs st" "npwakecnt (set_proc p h st) = npwakecnt st" "runout (set_proc p h st) = runout st"
  "runin (set_proc p h st) = runin st" "kprunrun (set_proc p h st) = kprunrun st" "tspexists (set_proc p h st) = tspexists st"
  by (simp_all add: set_proc_def)

lemma bump_krun_simps [simp]:
  "procs (bump_krun st) = procs st" "dispqs (bump_krun st) = dispqs st" "dqactmap (bump_krun st) = dqactmap st"
  "srunprocs (bump_krun st) = srunprocs st" "maxrunpri (bump_krun st) = maxrunpri st" "sleepqs (bump_krun st) = sleepqs st"
  "curproc (bump_krun st) = curproc st" "curpri (bump_krun st) = curpri st" "ts_dptbl (bump_krun st) = ts_dptbl st"
  "rt_dptbl (bump_krun st) = rt_dptbl st" "ts_plist (bump_krun st) = ts_plist st" "rt_plist (bump_krun st) = rt_plist st"
  "tsprocs (bump_krun st) = tsprocs st" "rtprocs (bump_krun st) = rtprocs st" "runout (bump_krun st) = runout st"
  by (simp_all add: bump_krun_def)

section \<open>Priorities inside the tables\<close>

definition conf_ok :: "schedconf \<Rightarrow> tsdpent list \<Rightarrow> rtdpent list \<Rightarrow> nat \<Rightarrow> bool" where
  "conf_ok cf tst rtt n \<longleftrightarrow>
     0 \<le> ts_maxumdpri cf \<and> ts_maxumdpri cf \<le> 32767 \<and> int (length tst) = ts_maxumdpri cf + 1 \<and>
     (\<forall>d \<in> set tst. ts_entry_ok cf d \<and> 0 \<le> ts_globpri d \<and> ts_globpri d < int n) \<and>
     0 < ts_maxupri cf \<and> ts_maxupri cf \<le> 32767 \<and>
     int (length (ts_kmdpris cf)) = ts_maxkmdpri cf + 1 \<and> (\<forall>g \<in> set (ts_kmdpris cf). 0 \<le> g \<and> g < int n) \<and>
     0 \<le> rt_maxpri cf \<and> int (length rtt) = rt_maxpri cf + 1 \<and> (\<forall>d \<in> set rtt. 0 \<le> rt_globpri d \<and> rt_globpri d < int n) \<and>
     v_maxsyspri cf < int n"

definition ts_ok :: "schedconf \<Rightarrow> tsproc \<Rightarrow> bool" where
  "ts_ok cf t \<longleftrightarrow> 0 \<le> ts_umdpri t \<and> ts_umdpri t \<le> ts_maxumdpri cf \<and> 0 \<le> ts_cpupri t \<and> ts_cpupri t \<le> ts_maxumdpri cf"

definition rt_ok :: "schedconf \<Rightarrow> rtproc \<Rightarrow> bool" where
  "rt_ok cf r \<longleftrightarrow> 0 \<le> rt_pri r \<and> rt_pri r \<le> rt_maxpri cf"

definition cls_ok :: "schedconf \<Rightarrow> sched \<Rightarrow> bool" where
  "cls_ok cf st \<longleftrightarrow>
     conf_ok cf (ts_dptbl st) (rt_dptbl st) (length (dispqs st)) \<and>
     (\<forall>p. 0 \<le> p_pri (procs st p) \<and> p_pri (procs st p) < int (length (dispqs st))) \<and>
     (\<forall>p. p_clfuncs (procs st p) = Ts \<longrightarrow> ts_ok cf (tsprocs st p)) \<and>
     (\<forall>p. p_clfuncs (procs st p) = Rt \<longrightarrow> rt_ok cf (rtprocs st p))"

lemma newumdpri_ok: "\<lbrakk>0 \<le> ts_maxumdpri cf; 0 \<le> ts_cpupri t; ts_cpupri t \<le> ts_maxumdpri cf\<rbrakk> \<Longrightarrow> ts_ok cf (TS_NEWUMDPRI cf t)"
  by (simp add: ts_ok_def TS_NEWUMDPRI_def Let_def)

lemma newumdpri_simps [simp]:
  "ts_cpupri (TS_NEWUMDPRI cf t) = ts_cpupri t" "ts_upri (TS_NEWUMDPRI cf t) = ts_upri t" "ts_uprilim (TS_NEWUMDPRI cf t) = ts_uprilim t"
  "ts_kpri (TS_NEWUMDPRI cf t) = ts_kpri t" "ts_dispwait (TS_NEWUMDPRI cf t) = ts_dispwait t" "ts_timeleft (TS_NEWUMDPRI cf t) = ts_timeleft t"
  by (simp_all add: TS_NEWUMDPRI_def Let_def)

text \<open>An entry of the table at a level of the class.\<close>

lemma ts_entry:
  assumes "conf_ok cf tst rtt n" and "0 \<le> i" and "i \<le> ts_maxumdpri cf"
  shows "\<exists>d. nth_opt tst i = Some d \<and> ts_entry_ok cf d \<and> 0 \<le> ts_globpri d \<and> ts_globpri d < int n"
  using assms by (auto simp: conf_ok_def nth_opt_def)

lemma rt_entry:
  assumes "conf_ok cf tst rtt n" and "0 \<le> i" and "i \<le> rt_maxpri cf"
  shows "\<exists>d. nth_opt rtt i = Some d \<and> 0 \<le> rt_globpri d \<and> rt_globpri d < int n"
  using assms by (auto simp: conf_ok_def nth_opt_def)

section \<open>The contracts\<close>

text \<open>What an operation of a class leaves alone: it changes the links of the processes \<open>A\<close> only, and no status.\<close>

definition sframe :: "nat set \<Rightarrow> sched \<Rightarrow> sched \<Rightarrow> bool" where
  "sframe A st st' \<longleftrightarrow>
     length (dispqs st') = length (dispqs st) \<and> sleepqs st' = sleepqs st \<and> curproc st' = curproc st \<and> runout st' = runout st \<and>
     ts_plist st' = ts_plist st \<and>
     (\<forall>q. p_stat (procs st' q) = p_stat (procs st q) \<and> p_wchan (procs st' q) = p_wchan (procs st q) \<and>
          p_clfuncs (procs st' q) = p_clfuncs (procs st q) \<and> p_flag (procs st' q) = p_flag (procs st q)) \<and>
     (\<forall>q. q \<notin> A \<longrightarrow> p_link (procs st' q) = p_link (procs st q))"

lemma sframe_refl: "sframe A st st"
  by (simp add: sframe_def)

lemma sframeD:
  assumes "sframe A st st'"
  shows "length (dispqs st') = length (dispqs st)" "sleepqs st' = sleepqs st" "curproc st' = curproc st" "runout st' = runout st"
    "ts_plist st' = ts_plist st" "p_stat (procs st' q) = p_stat (procs st q)" "p_wchan (procs st' q) = p_wchan (procs st q)"
    "p_clfuncs (procs st' q) = p_clfuncs (procs st q)" "p_flag (procs st' q) = p_flag (procs st q)"
    "q \<notin> A \<Longrightarrow> p_link (procs st' q) = p_link (procs st q)"
  using assms by (auto simp: sframe_def)

lemma sframe_trans: "\<lbrakk>sframe A st st1; sframe B st1 st2; B \<subseteq> A\<rbrakk> \<Longrightarrow> sframe A st st2"
  unfolding sframe_def by (metis subsetD)

lemma disp_sframe: "disp_frame A st st' \<Longrightarrow> sframe A st st'"
  unfolding sframe_def using disp_frameD [of A st st'] disp_frame_proc [of A st st'] by simp

lemma disp_cls_ok: "\<lbrakk>cls_ok cf st; disp_frame A st st'\<rbrakk> \<Longrightarrow> cls_ok cf st'"
  unfolding cls_ok_def using disp_frameD [of A st st'] disp_frame_proc [of A st st'] by simp

lemma setback_enq:
  assumes rel: "disp_rel st Q" and ok: "cls_ok cf st" and off: "p \<notin> onq Q"
  shows "\<exists>st' Q'. setbackdq p st = Some st' \<and> disp_rel st' Q' \<and> onq Q' = insert p (onq Q) \<and> disp_frame (insert p (onq Q)) st st'"
proof -
  obtain i where i: "p_pri (procs st p) = int i" "i < length (dispqs st)"
    using ok unfolding cls_ok_def by (metis nonneg_int_cases of_nat_less_iff)
  from setbackdq_ok [OF rel i] off obtain st' where st': "setbackdq p st = Some st'" "disp_rel st' (Q(i := Q i @ [p]))"
      "disp_frame (insert p (set (Q i))) st st'" by (auto simp: onq_iff)
  moreover have "onq (Q(i := Q i @ [p])) = insert p (onq Q)" by (rule onq_upd) simp
  moreover have "disp_frame (insert p (onq Q)) st st'" by (rule disp_frame_mono [OF st'(3)]) (auto simp: onq_iff)
  ultimately show ?thesis by blast
qed

lemma setfront_enq:
  assumes rel: "disp_rel st Q" and ok: "cls_ok cf st" and off: "p \<notin> onq Q"
  shows "\<exists>st' Q'. setfrontdq p st = Some st' \<and> disp_rel st' Q' \<and> onq Q' = insert p (onq Q) \<and> disp_frame (insert p (onq Q)) st st'"
proof -
  obtain i where i: "p_pri (procs st p) = int i" "i < length (dispqs st)"
    using ok unfolding cls_ok_def by (metis nonneg_int_cases of_nat_less_iff)
  from setfrontdq_ok [OF rel i] off obtain st' where st': "setfrontdq p st = Some st'" "disp_rel st' (Q(i := p # Q i))"
      "disp_frame (insert p (set (Q i))) st st'" by (auto simp: onq_iff)
  moreover have "onq (Q(i := p # Q i)) = insert p (onq Q)" by (rule onq_upd) simp
  moreover have "disp_frame (insert p (onq Q)) st st'" by (rule disp_frame_mono [OF st'(3)]) (auto simp: onq_iff)
  ultimately show ?thesis by blast
qed

lemma dispdeq_deq:
  assumes rel: "disp_rel st Q" and ok: "cls_ok cf st"
  shows "\<exists>st' Q'. dispdeq p st = Some (p \<in> onq Q, st') \<and> disp_rel st' Q' \<and> onq Q' = onq Q - {p} \<and> disp_frame (onq Q) st st'"
proof -
  obtain i where i: "p_pri (procs st p) = int i" "i < length (dispqs st)"
    using ok unfolding cls_ok_def by (metis nonneg_int_cases of_nat_less_iff)
  note q = conjunct1 [OF disp_relD [OF rel]]
  from dispdeq_ok [OF rel i] obtain st' where st': "dispdeq p st = Some (p \<in> set (Q i), st')" "disp_rel st' (Q(i := remove1 p (Q i)))"
      "disp_frame (set (Q i)) st st'" by blast
  have "p \<in> set (Q i) \<longleftrightarrow> p \<in> onq Q" using queues_okD(3) [OF q, of p] i(1) by (auto simp: onq_iff)
  moreover have "onq (Q(i := remove1 p (Q i))) = onq Q - {p}"
    by (rule onq_remove [OF q i(1)]) (rule linkq_distinct [OF queues_okD(1) [OF q i(2)]])
  moreover have "disp_frame (onq Q) st st'" by (rule disp_frame_mono [OF st'(3)]) (auto simp: onq_iff)
  ultimately show ?thesis using st' by auto
qed

text \<open>An operation puts a process that is on no queue on one, or keeps the set of the processes on the queues.\<close>

definition queued :: "schedconf \<Rightarrow> (nat \<Rightarrow> nat list) \<Rightarrow> nat \<Rightarrow> sched \<Rightarrow> sched option \<Rightarrow> bool" where
  "queued cf Q p st r \<longleftrightarrow>
     (\<exists>st' Q'. r = Some st' \<and> disp_rel st' Q' \<and> onq Q' = insert p (onq Q) \<and> cls_ok cf st' \<and> sframe (insert p (onq Q)) st st')"

definition moved :: "schedconf \<Rightarrow> (nat \<Rightarrow> nat list) \<Rightarrow> sched \<Rightarrow> sched option \<Rightarrow> bool" where
  "moved cf Q st r \<longleftrightarrow> (\<exists>st' Q'. r = Some st' \<and> disp_rel st' Q' \<and> onq Q' = onq Q \<and> cls_ok cf st' \<and> sframe (onq Q) st st')"

locale enqueues =
  fixes cf :: schedconf and enq :: "nat \<Rightarrow> sched \<Rightarrow> sched option" and cl :: "clfuncs set"
  assumes enq: "\<lbrakk>disp_rel st Q; cls_ok cf st; p \<notin> onq Q; p_clfuncs (procs st p) \<in> cl\<rbrakk> \<Longrightarrow> queued cf Q p st (enq p st)"

locale requeues =
  fixes cf :: schedconf and req :: "nat \<Rightarrow> sched \<Rightarrow> sched option" and cl :: "clfuncs set"
  assumes req: "\<lbrakk>disp_rel st Q; cls_ok cf st; p_clfuncs (procs st p) \<in> cl\<rbrakk> \<Longrightarrow> moved cf Q st (req p st)"

section \<open>Steps inside the operations\<close>

named_theorems quiet \<open>updates that keep the queues, the invariant of the classes and the frame\<close>

lemma disp_rel_fields [quiet]:
  "disp_rel (st\<lparr>curpri := a\<rparr>) Q = disp_rel st Q" "disp_rel (st\<lparr>runrun := a\<rparr>) Q = disp_rel st Q"
  "disp_rel (st\<lparr>kprunrun := a\<rparr>) Q = disp_rel st Q" "disp_rel (st\<lparr>npwakecnt := a\<rparr>) Q = disp_rel st Q"
  "disp_rel (st\<lparr>runout := a\<rparr>) Q = disp_rel st Q" "disp_rel (st\<lparr>runin := a\<rparr>) Q = disp_rel st Q"
  "disp_rel (st\<lparr>ts_plist := l\<rparr>) Q = disp_rel st Q" "disp_rel (st\<lparr>rt_plist := l\<rparr>) Q = disp_rel st Q"
  "disp_rel (st\<lparr>tspexists := a\<rparr>) Q = disp_rel st Q" "disp_rel (set_ts p f st) Q = disp_rel st Q" "disp_rel (set_rt p g st) Q = disp_rel st Q"
  "disp_rel (bump_krun st) Q = disp_rel st Q" "disp_rel (st\<lparr>curproc := p\<rparr>) Q = disp_rel st Q" "disp_rel (st\<lparr>sleepqs := sq\<rparr>) Q = disp_rel st Q"
  "disp_rel (st\<lparr>ts_dptbl := tt\<rparr>) Q = disp_rel st Q" "disp_rel (st\<lparr>rt_dptbl := rr\<rparr>) Q = disp_rel st Q"
  by (simp_all add: disp_rel_def queues_ok_def counts_ok_def loaded_cnt_def [abs_def])

lemma cls_ok_fields [quiet]:
  "cls_ok cf (st\<lparr>curpri := a\<rparr>) = cls_ok cf st" "cls_ok cf (st\<lparr>runrun := a\<rparr>) = cls_ok cf st"
  "cls_ok cf (st\<lparr>kprunrun := a\<rparr>) = cls_ok cf st" "cls_ok cf (st\<lparr>npwakecnt := a\<rparr>) = cls_ok cf st"
  "cls_ok cf (st\<lparr>runout := a\<rparr>) = cls_ok cf st" "cls_ok cf (st\<lparr>runin := a\<rparr>) = cls_ok cf st"
  "cls_ok cf (st\<lparr>ts_plist := l\<rparr>) = cls_ok cf st" "cls_ok cf (st\<lparr>rt_plist := l\<rparr>) = cls_ok cf st"
  "cls_ok cf (st\<lparr>tspexists := a\<rparr>) = cls_ok cf st" "cls_ok cf (bump_krun st) = cls_ok cf st"
  "cls_ok cf (st\<lparr>curproc := p\<rparr>) = cls_ok cf st" "cls_ok cf (st\<lparr>sleepqs := sq\<rparr>) = cls_ok cf st"
  by (simp_all add: cls_ok_def)

lemma sframe_fields [quiet]:
  "sframe A st (st1\<lparr>curpri := a\<rparr>) = sframe A st st1" "sframe A st (st1\<lparr>runrun := a\<rparr>) = sframe A st st1"
  "sframe A st (st1\<lparr>kprunrun := a\<rparr>) = sframe A st st1" "sframe A st (st1\<lparr>npwakecnt := a\<rparr>) = sframe A st st1"
  "sframe A st (st1\<lparr>runin := a\<rparr>) = sframe A st st1" "sframe A st (st1\<lparr>tspexists := a\<rparr>) = sframe A st st1"
  "sframe A st (st1\<lparr>rt_plist := l\<rparr>) = sframe A st st1"
  "sframe A st (set_ts p f st1) = sframe A st st1" "sframe A st (set_rt p g st1) = sframe A st st1" "sframe A st (bump_krun st1) = sframe A st st1"
  "sframe A st (set_proc p (\<lambda>q. q\<lparr>p_pri := a\<rparr>) st1) = sframe A st st1"
  by (auto simp: sframe_def)

lemma cls_ok_ts:
  "\<lbrakk>cls_ok cf st; p_clfuncs (procs st p) = Ts \<Longrightarrow> ts_ok cf (tsprocs st p) \<Longrightarrow> ts_ok cf (f (tsprocs st p))\<rbrakk> \<Longrightarrow> cls_ok cf (set_ts p f st)"
  by (auto simp: cls_ok_def)

lemma cls_ok_rt:
  "\<lbrakk>cls_ok cf st; p_clfuncs (procs st p) = Rt \<Longrightarrow> rt_ok cf (rtprocs st p) \<Longrightarrow> rt_ok cf (g (rtprocs st p))\<rbrakk> \<Longrightarrow> cls_ok cf (set_rt p g st)"
  by (auto simp: cls_ok_def)

lemma cls_ok_ts_flags [quiet]:
  "cls_ok cf (set_ts p (\<lambda>t. t\<lparr>ts_backq := a\<rparr>) st) = cls_ok cf st" "cls_ok cf (set_ts p (\<lambda>t. t\<lparr>ts_dispwait := b\<rparr>) st) = cls_ok cf st"
  "cls_ok cf (set_ts p (\<lambda>t. t\<lparr>ts_timeleft := b\<rparr>) st) = cls_ok cf st" "cls_ok cf (set_ts p (\<lambda>t. t\<lparr>ts_kpri := a\<rparr>) st) = cls_ok cf st"
  "cls_ok cf (set_ts p (\<lambda>t. t\<lparr>ts_backq := a, ts_forked := c\<rparr>) st) = cls_ok cf st"
  "cls_ok cf (set_ts p (\<lambda>t. t\<lparr>ts_dispwait := b, ts_backq := a\<rparr>) st) = cls_ok cf st"
  "cls_ok cf (set_ts p (\<lambda>t. t\<lparr>ts_dispwait := b, ts_backq := a, ts_forked := c\<rparr>) st) = cls_ok cf st"
  "cls_ok cf (set_ts p (\<lambda>t. t\<lparr>ts_timeleft := e, ts_dispwait := b\<rparr>) st) = cls_ok cf st"
  "cls_ok cf (set_ts p (\<lambda>t. t\<lparr>ts_timeleft := h t\<rparr>) st) = cls_ok cf st" "cls_ok cf (set_ts p (\<lambda>t. t\<lparr>ts_dispwait := h t\<rparr>) st) = cls_ok cf st"
  "cls_ok cf (set_ts p (\<lambda>t. t\<lparr>ts_nice := h t\<rparr>) st) = cls_ok cf st"
  by (auto simp: cls_ok_def ts_ok_def split: if_splits)

lemma cls_ok_rt_flags [quiet]:
  "cls_ok cf (set_rt p (\<lambda>r. r\<lparr>rt_ran := a\<rparr>) st) = cls_ok cf st" "cls_ok cf (set_rt p (\<lambda>r. r\<lparr>rt_backq := a\<rparr>) st) = cls_ok cf st"
  "cls_ok cf (set_rt p (\<lambda>r. r\<lparr>rt_timeleft := h r\<rparr>) st) = cls_ok cf st"
  "cls_ok cf (set_rt p (\<lambda>r. r\<lparr>rt_timeleft := h r, rt_backq := a\<rparr>) st) = cls_ok cf st"
  "cls_ok cf (set_rt p (\<lambda>r. r\<lparr>rt_pquantum := b\<rparr>) st) = cls_ok cf st"
  "cls_ok cf (set_rt p (\<lambda>r. r\<lparr>rt_pquantum := b, rt_timeleft := e\<rparr>) st) = cls_ok cf st"
  by (auto simp: cls_ok_def rt_ok_def split: if_splits)

lemma cls_ok_pri: "\<lbrakk>cls_ok cf st; 0 \<le> a; a < int (length (dispqs st))\<rbrakk> \<Longrightarrow> cls_ok cf (set_proc p (\<lambda>q. q\<lparr>p_pri := a\<rparr>) st)"
  by (auto simp: cls_ok_def)

lemma disp_rel_pri: "\<lbrakk>disp_rel st Q; p \<notin> onq Q\<rbrakk> \<Longrightarrow> disp_rel (set_proc p (\<lambda>q. q\<lparr>p_pri := a\<rparr>) st) Q"
  by (erule disp_rel_cong) auto

lemma disp_rel_stat: "disp_rel st Q \<Longrightarrow> disp_rel (set_proc p (\<lambda>q. q\<lparr>p_stat := s\<rparr>) st) Q"
  by (erule disp_rel_cong) (auto simp: loaded_def)

lemma cls_okD:
  assumes "cls_ok cf st"
  shows "conf_ok cf (ts_dptbl st) (rt_dptbl st) (length (dispqs st))" "p_clfuncs (procs st p) = Ts \<Longrightarrow> ts_ok cf (tsprocs st p)"
    "p_clfuncs (procs st p) = Rt \<Longrightarrow> rt_ok cf (rtprocs st p)"
  using assms by (auto simp: cls_ok_def)

lemma ts_level_ok:
  assumes "cls_ok cf st" and "ts_ok cf (tsprocs st p)"
  shows "\<exists>d. ts_level p st = Some d \<and> ts_entry_ok cf d \<and> 0 \<le> ts_globpri d \<and> ts_globpri d < int (length (dispqs st))"
  using ts_entry [OF cls_okD(1) [OF assms(1)]] assms(2) by (simp add: ts_level_def ts_ok_def)

lemma rt_level_ok:
  assumes "cls_ok cf st" and "rt_ok cf (rtprocs st p)"
  shows "\<exists>d. rt_level p st = Some d \<and> 0 \<le> rt_globpri d \<and> rt_globpri d < int (length (dispqs st))"
  using rt_entry [OF cls_okD(1) [OF assms(1)]] assms(2) by (simp add: rt_level_def rt_ok_def)

lemma ts_cpu_entry:
  assumes "cls_ok cf st" and "ts_ok cf (tsprocs st p)"
  shows "\<exists>d. nth_opt (ts_dptbl st) (ts_cpupri (tsprocs st p)) = Some d \<and> ts_entry_ok cf d"
  using ts_entry [OF cls_okD(1) [OF assms(1)]] assms(2) by (fastforce simp: ts_ok_def)

text \<open>Taking a process off, giving it a priority and, when it was on a queue, putting it back.\<close>

lemma movedI: "\<lbrakk>disp_rel st' Q1; onq Q1 = onq Q; cls_ok cf st'; sframe (onq Q) st st'\<rbrakk> \<Longrightarrow> moved cf Q st (Some st')"
  unfolding moved_def by blast

lemma moved_back:
  assumes "disp_rel st1 Q1" and "onq Q1 = onq Q - {p}" and "p \<in> onq Q" and "cls_ok cf st1" and "sframe (onq Q) st st1"
  shows "moved cf Q st (setbackdq p st1)"
proof -
  have off: "p \<notin> onq Q1" using assms(2) by simp
  obtain st' Q' where *: "setbackdq p st1 = Some st'" "disp_rel st' Q'" "onq Q' = insert p (onq Q1)" "disp_frame (insert p (onq Q1)) st1 st'"
    using setback_enq [OF assms(1,4) off] by blast
  have "insert p (onq Q1) = onq Q" using assms(2,3) by auto
  then show ?thesis using * sframe_trans [OF assms(5) disp_sframe] disp_cls_ok [OF assms(4)] unfolding moved_def by auto
qed

lemma moved_mono: "\<lbrakk>moved cf Q st1 r; sframe (onq Q) st st1\<rbrakk> \<Longrightarrow> moved cf Q st r"
  unfolding moved_def using sframe_trans by blast

lemma queued_back:
  assumes "disp_rel st Q" and "cls_ok cf st" and "p \<notin> onq Q" and "sframe (insert p (onq Q)) st0 st"
  shows "queued cf Q p st0 (setbackdq p st)"
  using setback_enq [OF assms(1-3)] disp_cls_ok [OF assms(2)] sframe_trans [OF assms(4) disp_sframe] unfolding queued_def by blast

lemma queued_front:
  assumes "disp_rel st Q" and "cls_ok cf st" and "p \<notin> onq Q" and "sframe (insert p (onq Q)) st0 st"
  shows "queued cf Q p st0 (setfrontdq p st)"
  using setfront_enq [OF assms(1-3)] disp_cls_ok [OF assms(2)] sframe_trans [OF assms(4) disp_sframe] unfolding queued_def by blast

lemma moved_bind:
  assumes "moved cf Q st r" and "\<And>st' Q'. \<lbrakk>disp_rel st' Q'; onq Q' = onq Q; cls_ok cf st'; sframe (onq Q) st st'\<rbrakk> \<Longrightarrow> moved cf Q' st' (f st')"
  shows "moved cf Q st (r \<bind> f)"
proof -
  obtain st' Q' where s: "r = Some st'" "disp_rel st' Q'" "onq Q' = onq Q" "cls_ok cf st'" "sframe (onq Q) st st'"
    using assms(1) unfolding moved_def by blast
  have "moved cf Q' st' (f st')" by (rule assms(2) [OF s(2-5)])
  then show ?thesis using s sframe_trans [OF s(5)] unfolding moved_def by auto
qed

lemma queued_map:
  assumes "queued cf Q p st r"
    and "\<And>st' Q'. \<lbrakk>disp_rel st' Q'; onq Q' = insert p (onq Q); cls_ok cf st'; sframe (insert p (onq Q)) st st'\<rbrakk> \<Longrightarrow>
           disp_rel (f st') Q' \<and> cls_ok cf (f st') \<and> sframe (insert p (onq Q)) st (f st')"
  shows "queued cf Q p st (r \<bind> (\<lambda>s. Some (f s)))"
  using assms unfolding queued_def by (elim exE conjE) auto

text \<open>A sequence of operations that keep the set of the processes on the queues.\<close>

context requeues begin

lemma req_bind:
  assumes "moved cf Q st r" and "p_clfuncs (procs st p) \<in> cl"
  shows "moved cf Q st (r \<bind> req p)"
  by (rule moved_bind [OF assms(1)]) (rule req; simp add: assms(2) sframeD(8))

fun req_all :: "nat list \<Rightarrow> sched \<Rightarrow> sched option" where
  "req_all [] st = Some st"
| "req_all (p # ps) st = do { st1 \<leftarrow> req p st; req_all ps st1 }"

lemma req_all_ok:
  "\<lbrakk>disp_rel st Q; cls_ok cf st; \<forall>p \<in> set ps. p_clfuncs (procs st p) \<in> cl\<rbrakk> \<Longrightarrow> moved cf Q st (req_all ps st)"
proof (induction ps arbitrary: st Q)
  case Nil
  then show ?case by (simp add: movedI sframe_refl)
next
  case (Cons p ps)
  have "moved cf Q st (req p st)" using Cons.prems by (intro req) simp_all
  then show ?case unfolding req_all.simps
    by (rule moved_bind) (rule Cons.IH; simp add: Cons.prems sframeD(8))
qed

end

end
