(* ===== verification/Sched_Class.thy ===== *)
theory Sched_Class
  imports Sched_Inv
begin

text \<open>
  The operations of the three classes keep the contracts of \<open>Sched_Inv\<close>: those that make a process runnable or preempt one put it on a
  queue, all others keep the queues as sets. The calls through \<^verbatim>\<open>p_clfuncs\<close> inherit the contracts.
\<close>

section \<open>Time-sharing\<close>

lemma ts_level_ts:
  "\<lbrakk>cls_ok cf st; p_clfuncs (procs st p) = Ts\<rbrakk> \<Longrightarrow>
     \<exists>d. ts_level p st = Some d \<and> ts_entry_ok cf d \<and> 0 \<le> ts_globpri d \<and> ts_globpri d < int (length (dispqs st))"
  using ts_level_ok cls_okD(2) by blast

lemma ts_preempt_ok:
  assumes "disp_rel st Q" "cls_ok cf st" "p \<notin> onq Q" "p_clfuncs (procs st p) = Ts"
  shows "queued cf Q p st (ts_preempt p st)"
proof -
  obtain d where d: "ts_level p st = Some d" using ts_level_ts assms by blast
  show ?thesis
    unfolding ts_preempt_def Let_def ts_newquantum_def
    by (simp add: d, intro conjI impI) (rule queued_back queued_front; simp add: assms quiet sframe_refl)+
qed

lemma ts_setrun_ok:
  assumes "disp_rel st Q" "cls_ok cf st" "p \<notin> onq Q" "p_clfuncs (procs st p) = Ts"
  shows "queued cf Q p st (ts_setrun p st)"
proof -
  obtain d where d: "ts_level p st = Some d" using ts_level_ts assms by blast
  show ?thesis
    unfolding ts_setrun_def ts_newquantum_def
    by (simp add: d, intro conjI impI) (rule queued_back; simp add: assms quiet sframe_refl)+
qed

lemma ts_wakeup_ok:
  assumes "disp_rel st Q" "cls_ok cf st" "p \<notin> onq Q"
  shows "queued cf Q p st (ts_wakeup p st)"
  unfolding ts_wakeup_def by (rule queued_back; simp add: assms quiet sframe_refl)

interpretation tsp: enqueues cf ts_preempt "{Ts}" for cf by unfold_locales (simp add: ts_preempt_ok)

interpretation tsr: enqueues cf ts_setrun "{Ts}" for cf by unfold_locales (simp add: ts_setrun_ok)

interpretation tsw: enqueues cf ts_wakeup "{Ts}" for cf by unfold_locales (rule ts_wakeup_ok)

text \<open>The last lines of the operations that move a process: with a quantum to the back of its queue, or marked to go there.\<close>

lemma ts_replace:
  assumes rel: "disp_rel st1 Q1" and on: "onq Q1 = onq Q - {p}" and ok: "cls_ok cf st1" and fr: "sframe (onq Q) st st1"
    and cl: "p_clfuncs (procs st1 p) = Ts"
  shows "p \<in> onq Q \<Longrightarrow> moved cf Q st (do { s \<leftarrow> ts_newquantum p st1; setbackdq p s })"
    and "p \<notin> onq Q \<Longrightarrow> moved cf Q st (Some (set_ts p (\<lambda>t. t\<lparr>ts_backq := True\<rparr>) st1))"
proof -
  obtain d where d: "ts_level p st1 = Some d" using ts_level_ts ok cl by blast
  show "moved cf Q st (do { s \<leftarrow> ts_newquantum p st1; setbackdq p s })" if "p \<in> onq Q"
    unfolding ts_newquantum_def by (simp add: d) (rule moved_back [OF _ on that]; simp add: assms quiet)
  show "moved cf Q st (Some (set_ts p (\<lambda>t. t\<lparr>ts_backq := True\<rparr>) st1))" if "p \<notin> onq Q"
    using that by (intro movedI [where ?Q1.0 = Q1]) (simp_all add: quiet assms)
qed

lemma ts_resetpri_ok:
  assumes rel: "disp_rel st Q" and ok: "cls_ok cf st" and cl: "p_clfuncs (procs st p) = Ts" and cur: "p = curproc st \<longrightarrow> p \<notin> onq Q"
  shows "moved cf Q st (ts_resetpri p st)"
proof (cases "p = curproc st")
  case True
  obtain d where d: "ts_level p st = Some d" "0 \<le> ts_globpri d" "ts_globpri d < int (length (dispqs st))" using ts_level_ts ok cl by blast
  define st1 where "st1 = (set_proc p (\<lambda>q. q\<lparr>p_pri := ts_globpri d\<rparr>) st)\<lparr>curpri := ts_globpri d\<rparr>"
  have s1: "disp_rel st1 Q" "cls_ok cf st1" "sframe (onq Q) st st1" "ts_level p st1 = Some d"
    using assms True d by (simp_all add: st1_def disp_rel_pri cls_ok_pri sframe_refl quiet ts_level_def)
  have "ts_resetpri p st =
      Some (if ts_globpri d > maxrunpri st1 then set_ts p (\<lambda>t. t\<lparr>ts_timeleft := ts_quantum d\<rparr>) st1
            else (set_ts p (\<lambda>t. t\<lparr>ts_backq := True\<rparr>) st1)\<lparr>runrun := runrun st1 + 1\<rparr>)"
    using True d(1) s1(4) unfolding ts_resetpri_def ts_newquantum_def Let_def st1_def by simp
  moreover have "moved cf Q st (Some (set_ts p (\<lambda>t. t\<lparr>ts_timeleft := ts_quantum d\<rparr>) st1))"
    "moved cf Q st (Some ((set_ts p (\<lambda>t. t\<lparr>ts_backq := True\<rparr>) st1)\<lparr>runrun := runrun st1 + 1\<rparr>))"
    by (rule movedI [where ?Q1.0 = Q]; simp add: s1 quiet)+
  ultimately show ?thesis by simp
next
  case False
  obtain st1 Q1 where deq: "dispdeq p st = Some (p \<in> onq Q, st1)" "disp_rel st1 Q1" "onq Q1 = onq Q - {p}" "disp_frame (onq Q) st st1"
    using dispdeq_deq [OF rel ok] by blast
  have ok1: "cls_ok cf st1" by (rule disp_cls_ok [OF ok deq(4)])
  have cl1: "p_clfuncs (procs st1 p) = Ts" using cl disp_frame_proc(5) [OF deq(4)] by simp
  obtain d where d: "ts_level p st1 = Some d" "0 \<le> ts_globpri d" "ts_globpri d < int (length (dispqs st1))" using ts_level_ts ok1 cl1 by blast
  define st2 where "st2 = set_proc p (\<lambda>q. q\<lparr>p_pri := ts_globpri d\<rparr>) st1"
  define st3 where "st3 = (if ts_globpri d > curpri st2 then st2\<lparr>runrun := runrun st2 + 1\<rparr> else st2)"
  have s2: "disp_rel st2 Q1" "cls_ok cf st2" "sframe (onq Q) st st2" "p_clfuncs (procs st2 p) = Ts"
    using deq ok1 d cl1 disp_sframe [OF deq(4)] by (simp_all add: st2_def disp_rel_pri cls_ok_pri quiet)
  then have s3: "disp_rel st3 Q1" "cls_ok cf st3" "sframe (onq Q) st st3" "p_clfuncs (procs st3 p) = Ts"
    by (simp_all add: st3_def quiet)
  have "ts_resetpri p st = (if p \<in> onq Q then do { s \<leftarrow> ts_newquantum p st3; setbackdq p s } else Some (set_ts p (\<lambda>t. t\<lparr>ts_backq := True\<rparr>) st2))"
    using False deq(1) d(1) by (simp add: ts_resetpri_def Let_def st2_def st3_def)
  then show ?thesis using ts_replace [OF s3(1) deq(3) s3(2,3,4)] ts_replace [OF s2(1) deq(3) s2(2,3,4)] by simp
qed

lemma ts_tick_ok:
  assumes rel: "disp_rel st Q" and ok: "cls_ok cf st" and cl: "p_clfuncs (procs st p) = Ts"
  shows "moved cf Q st (ts_tick cf p st)"
proof -
  define st1 where "st1 = set_ts p (\<lambda>t. t\<lparr>ts_timeleft := to_long (ts_timeleft t - 1)\<rparr>) st"
  have s1: "disp_rel st1 Q" "cls_ok cf st1" "sframe (onq Q) st st1" "p_clfuncs (procs st1 p) = Ts"
    using assms by (simp_all add: st1_def sframe_refl quiet)
  consider "ts_kpri (tsprocs st p)" | "\<not> ts_kpri (tsprocs st p)" "ts_timeleft (tsprocs st1 p) \<noteq> 0"
    | "\<not> ts_kpri (tsprocs st p)" "ts_timeleft (tsprocs st1 p) = 0" by blast
  then show ?thesis
  proof cases
    case 1
    then show ?thesis using movedI [OF rel refl ok sframe_refl] by (simp add: ts_tick_def)
  next
    case 2
    then show ?thesis using movedI [OF s1(1) refl s1(2,3)] by (simp add: ts_tick_def Let_def st1_def)
  next
    case 3
    obtain st2 Q2 where deq: "dispdeq p st1 = Some (p \<in> onq Q, st2)" "disp_rel st2 Q2" "onq Q2 = onq Q - {p}" "disp_frame (onq Q) st1 st2"
      using dispdeq_deq [OF s1(1,2)] by blast
    have s2: "cls_ok cf st2" "p_clfuncs (procs st2 p) = Ts" "sframe (onq Q) st st2"
      using disp_cls_ok [OF s1(2) deq(4)] s1(4) disp_frame_proc(5) [OF deq(4)] sframe_trans [OF s1(3) disp_sframe [OF deq(4)] order_refl] by simp_all
    obtain d where d: "nth_opt (ts_dptbl st2) (ts_cpupri (tsprocs st2 p)) = Some d" "ts_entry_ok cf d"
      using ts_cpu_entry [OF s2(1) cls_okD(2) [OF s2(1,2)]] by blast
    define st3 where "st3 = set_ts p (\<lambda>t. TS_NEWUMDPRI cf (t\<lparr>ts_cpupri := ts_tqexp d\<rparr>)) st2"
    have "ts_ok cf (TS_NEWUMDPRI cf (t\<lparr>ts_cpupri := ts_tqexp d\<rparr>))" for t
      using d(2) cls_okD(1) [OF s2(1)] by (intro newumdpri_ok) (simp_all add: ts_entry_ok_def conf_ok_def)
    then have s3: "disp_rel st3 Q2" "cls_ok cf st3" "sframe (onq Q) st st3" "p_clfuncs (procs st3 p) = Ts"
      using deq s2 by (simp_all add: st3_def cls_ok_ts quiet)
    obtain e where e: "ts_level p st3 = Some e" "0 \<le> ts_globpri e" "ts_globpri e < int (length (dispqs st3))" using ts_level_ts s3(2,4) by blast
    define st4 where "st4 = (set_proc p (\<lambda>q. q\<lparr>p_pri := ts_globpri e\<rparr>) st3)\<lparr>curpri := ts_globpri e\<rparr>"
    define st5 where "st5 = set_ts p (\<lambda>t. t\<lparr>ts_dispwait := 0\<rparr>) st4"
    have s5: "disp_rel st5 Q2" "cls_ok cf st5" "sframe (onq Q) st st5" "p_clfuncs (procs st5 p) = Ts"
      using s3 e deq(3) by (simp_all add: st5_def st4_def disp_rel_pri cls_ok_pri quiet)
    define r where "r = (if p \<in> onq Q then do { s \<leftarrow> ts_newquantum p st5; setbackdq p s } else Some (set_ts p (\<lambda>t. t\<lparr>ts_backq := True\<rparr>) st5))"
    have mv: "moved cf Q st r" using ts_replace [OF s5(1) deq(3) s5(2,3,4)] by (simp add: r_def)
    then obtain st6 Q6 where s6: "r = Some st6" "disp_rel st6 Q6" "onq Q6 = onq Q" "cls_ok cf st6" "sframe (onq Q) st st6" unfolding moved_def by blast
    have "ts_tick cf p st = Some (st6\<lparr>runrun := runrun st6 + 1\<rparr>)"
    proof -
      have "ts_tick cf p st = do { s \<leftarrow> r; Some (s\<lparr>runrun := runrun s + 1\<rparr>) }"
        using 3 deq(1) d(1) e(1) unfolding ts_tick_def Let_def st1_def [symmetric] by (simp add: r_def st5_def st4_def st3_def del: set_ts_simps)
      then show ?thesis using s6(1) by simp
    qed
    then show ?thesis using s6 by (auto intro!: movedI simp: quiet)
  qed
qed

text \<open>The return to user mode: the process is the current one, on no queue.\<close>

lemma ts_slpret_ok:
  assumes "cls_ok cf st" and "p_clfuncs (procs st p) = Ts"
  shows "\<exists>d. nth_opt (ts_dptbl st) (ts_cpupri (tsprocs st p)) = Some d \<and> ts_entry_ok cf d \<and>
           (\<forall>t. ts_ok cf (TS_NEWUMDPRI cf (t\<lparr>ts_cpupri := ts_slpret d\<rparr>)) \<and> ts_ok cf (TS_NEWUMDPRI cf (t\<lparr>ts_cpupri := ts_lwait d\<rparr>)))"
proof -
  obtain d where d: "nth_opt (ts_dptbl st) (ts_cpupri (tsprocs st p)) = Some d" "ts_entry_ok cf d"
    using ts_cpu_entry [OF assms(1) cls_okD(2) [OF assms]] by blast
  moreover have "0 \<le> ts_maxumdpri cf" using cls_okD(1) [OF assms(1)] by (simp add: conf_ok_def)
  ultimately show ?thesis by (auto intro!: newumdpri_ok simp: ts_entry_ok_def)
qed

lemma ts_trapret_ok:
  assumes rel: "disp_rel st Q" and ok: "cls_ok cf st" and cl: "p_clfuncs (procs st p) = Ts" and off: "p \<notin> onq Q"
  shows "moved cf Q st (ts_trapret cf p st)"
proof (cases "ts_kpri (tsprocs st p)")
  case False
  then show ?thesis using movedI [OF rel refl ok sframe_refl] by (simp add: ts_trapret_def)
next
  case True
  obtain d where d: "nth_opt (ts_dptbl st) (ts_cpupri (tsprocs st p)) = Some d" "\<And>t. ts_ok cf (TS_NEWUMDPRI cf (t\<lparr>ts_cpupri := ts_slpret d\<rparr>))"
    using ts_slpret_ok [OF ok cl] by blast
  define st1 where "st1 = set_ts p (\<lambda>t. (TS_NEWUMDPRI cf (t\<lparr>ts_cpupri := ts_slpret d\<rparr>))\<lparr>ts_kpri := False\<rparr>) st"
  have "ts_ok cf ((TS_NEWUMDPRI cf (t\<lparr>ts_cpupri := ts_slpret d\<rparr>))\<lparr>ts_kpri := False\<rparr>)" for t using d(2) [of t] by (simp add: ts_ok_def)
  then have s1: "disp_rel st1 Q" "cls_ok cf st1" "sframe (onq Q) st st1" "p_clfuncs (procs st1 p) = Ts"
    using assms by (simp_all add: st1_def cls_ok_ts quiet sframe_refl)
  obtain e where e: "ts_level p st1 = Some e" "0 \<le> ts_globpri e" "ts_globpri e < int (length (dispqs st1))" using ts_level_ts s1(2,4) by blast
  define st2 where "st2 = (set_proc p (\<lambda>q. q\<lparr>p_pri := ts_globpri e\<rparr>) st1)\<lparr>curpri := ts_globpri e\<rparr>"
  define st3 where "st3 = set_ts p (\<lambda>t. t\<lparr>ts_timeleft := ts_quantum e, ts_dispwait := 0\<rparr>) st2"
  have s3: "disp_rel st3 Q" "cls_ok cf st3" "sframe (onq Q) st st3"
    using s1 e off by (simp_all add: st3_def st2_def disp_rel_pri cls_ok_pri quiet)
  have "ts_trapret cf p st = Some (if npwakecnt st3 = 0 \<and> curpri st3 < maxrunpri st3 then st3\<lparr>runrun := runrun st3 + 1\<rparr> else st3)"
    using True d(1) e(1) unfolding ts_trapret_def Let_def by (simp add: st3_def st2_def st1_def del: set_ts_simps)
  then show ?thesis by (auto intro!: movedI [where ?Q1.0 = Q] simp: s3 quiet)
qed

lemma ts_update1_ok:
  assumes rel: "disp_rel st Q" and ok: "cls_ok cf st" and cl: "p_clfuncs (procs st p) = Ts"
  shows "moved cf Q st (ts_update1 cf p st)"
proof -
  define st1 where "st1 = set_ts p (\<lambda>t. t\<lparr>ts_dispwait := to_short (ts_dispwait t + 1)\<rparr>) st"
  have s1: "disp_rel st1 Q" "cls_ok cf st1" "sframe (onq Q) st st1" "p_clfuncs (procs st1 p) = Ts"
    using assms by (simp_all add: st1_def sframe_refl quiet)
  obtain d where d: "ts_level p st1 = Some d" using ts_level_ts s1(2,4) by blast
  have skip: "moved cf Q st (Some st)" "moved cf Q st (Some st1)" using movedI rel ok sframe_refl s1 by blast+
  let ?off = "ts_kpri (tsprocs st p) \<or> (p_stat (procs st p) \<noteq> SRUN \<and> p_stat (procs st p) \<noteq> SONPROC) \<or> flag_on (p_flag (procs st p)) SPROCIO"
  show ?thesis
  proof (cases "?off \<or> ts_dispwait (tsprocs st1 p) \<le> ts_maxwait d")
    case True
    then have "ts_update1 cf p st = Some st \<or> ts_update1 cf p st = Some st1"
      using d unfolding ts_update1_def Let_def st1_def [symmetric] by auto
    then show ?thesis using skip by auto
  next
    case False
    obtain e where e: "nth_opt (ts_dptbl st1) (ts_cpupri (tsprocs st1 p)) = Some e" "\<And>t. ts_ok cf (TS_NEWUMDPRI cf (t\<lparr>ts_cpupri := ts_lwait e\<rparr>))"
      using ts_slpret_ok [OF s1(2,4)] by blast
    define st2 where "st2 = set_ts p (\<lambda>t. (TS_NEWUMDPRI cf (t\<lparr>ts_cpupri := ts_lwait e\<rparr>))\<lparr>ts_dispwait := 0\<rparr>) st1"
    have "ts_ok cf ((TS_NEWUMDPRI cf (t\<lparr>ts_cpupri := ts_lwait e\<rparr>))\<lparr>ts_dispwait := 0\<rparr>)" for t using e(2) [of t] by (simp add: ts_ok_def)
    then have s2: "disp_rel st2 Q" "cls_ok cf st2" "sframe (onq Q) st st2" "p_clfuncs (procs st2 p) = Ts"
      using s1 by (simp_all add: st2_def cls_ok_ts quiet)
    obtain st3 Q3 where deq: "dispdeq p st2 = Some (p \<in> onq Q, st3)" "disp_rel st3 Q3" "onq Q3 = onq Q - {p}" "disp_frame (onq Q) st2 st3"
      using dispdeq_deq [OF s2(1,2)] by blast
    have s3: "cls_ok cf st3" "p_clfuncs (procs st3 p) = Ts" "sframe (onq Q) st st3"
      using disp_cls_ok [OF s2(2) deq(4)] s2(4) disp_frame_proc(5) [OF deq(4)] sframe_trans [OF s2(3) disp_sframe [OF deq(4)] order_refl] by simp_all
    obtain g where g: "ts_level p st3 = Some g" "0 \<le> ts_globpri g" "ts_globpri g < int (length (dispqs st3))" using ts_level_ts s3(1,2) by blast
    define st4 where "st4 = set_proc p (\<lambda>q. q\<lparr>p_pri := ts_globpri g\<rparr>) (if p = curproc st3 then st3\<lparr>curpri := ts_globpri g\<rparr> else st3)"
    have s4: "disp_rel st4 Q3" "cls_ok cf st4" "sframe (onq Q) st st4" "p_clfuncs (procs st4 p) = Ts"
      using s3 g deq by (cases "p = curproc st3"; simp add: st4_def disp_rel_pri cls_ok_pri quiet)+
    have "ts_update1 cf p st = (if p \<in> onq Q then do { s \<leftarrow> ts_newquantum p st4; setbackdq p s } else Some (set_ts p (\<lambda>t. t\<lparr>ts_backq := True\<rparr>) st4))"
    proof -
      have "\<not> ts_kpri (tsprocs st p)" "\<not> ts_dispwait (tsprocs st1 p) \<le> ts_maxwait d" "p_flag (procs st p) AND SPROCIO = 0" using False by simp_all
      moreover have "\<not> (p_stat (procs st p) \<noteq> SRUN \<and> p_stat (procs st p) \<noteq> SONPROC)" using False by blast
      ultimately show ?thesis
        using d e(1) deq(1) g(1) unfolding ts_update1_def Let_def st1_def [symmetric]
        by (simp only: simp_thms if_False if_True bind.bind_lunit prod.case st2_def [symmetric] st4_def [symmetric])
    qed
    then show ?thesis using ts_replace [OF s4(1) deq(3) s4(2,3,4)] by simp
  qed
qed

interpretation tst: requeues cf "ts_tick cf" "{Ts}" for cf by unfold_locales (simp add: ts_tick_ok)

interpretation tsu: requeues cf "ts_update1 cf" "{Ts}" for cf by unfold_locales (simp add: ts_update1_ok)

lemma ts_update_loop_all: "ts_update_loop cf ps = tsu.req_all cf ps"
proof (induction ps)
  case (Cons p ps)
  show ?case by (rule ext) (simp add: Cons.IH)
qed (rule ext, simp)

lemma ts_update_loop_ok:
  "\<lbrakk>disp_rel st Q; cls_ok cf st; \<forall>p \<in> set ps. p_clfuncs (procs st p) = Ts\<rbrakk> \<Longrightarrow> moved cf Q st (ts_update_loop cf ps st)"
  unfolding ts_update_loop_all by (rule tsu.req_all_ok) simp_all

lemma ts_parmsset_ok:
  assumes rel: "disp_rel st Q" and ok: "cls_ok cf st" and cl: "p_clfuncs (procs st p) = Ts" and cur: "p = curproc st \<longrightarrow> p \<notin> onq Q"
  shows "moved cf Q st (map_option snd (ts_parmsset cf tp p reqcr st))"
proof -
  have pos: "ts_maxupri cf \<noteq> 0" "0 \<le> ts_maxumdpri cf" using cls_okD(1) [OF ok] by (simp_all add: conf_ok_def)
  have stay: "moved cf Q st (Some st)" by (rule movedI [OF rel refl ok sframe_refl])
  define t where "t = tsprocs st p"
  define lim where "lim = (if tp_uprilim tp = TS_NOCHANGE then ts_uprilim t else tp_uprilim tp)"
  define u where "u = (if tp_upri tp = TS_NOCHANGE then ts_upri t else tp_upri tp)"
  define pri where "pri = (if u > lim then lim else u)"
  define nice where "nice = to_char (20 - (tp_upri tp * 20) sdiv ts_maxupri cf)"
  define st1 where "st1 = set_ts p (\<lambda>t. (TS_NEWUMDPRI cf (t\<lparr>ts_uprilim := lim, ts_upri := pri\<rparr>))\<lparr>ts_nice := (if nice = 40 then 39 else nice)\<rparr>) st"
  have "ts_ok cf ((TS_NEWUMDPRI cf (t\<lparr>ts_uprilim := lim, ts_upri := pri\<rparr>))\<lparr>ts_nice := n\<rparr>)" for n
    using newumdpri_ok [of cf "t\<lparr>ts_uprilim := lim, ts_upri := pri\<rparr>"] pos cls_okD(2) [OF ok cl] by (simp add: ts_ok_def t_def)
  then have s1: "disp_rel st1 Q" "cls_ok cf st1" "sframe (onq Q) st st1" "p_clfuncs (procs st1 p) = Ts" "curproc st1 = curproc st"
    using rel ok cl by (simp_all add: st1_def cls_ok_ts quiet sframe_refl t_def)
  define st2 where "st2 = set_ts p (\<lambda>t. t\<lparr>ts_dispwait := 0\<rparr>) st1"
  have "moved cf Q st2 (ts_resetpri p st2)" by (rule ts_resetpri_ok) (use s1 cur in \<open>simp_all add: st2_def quiet\<close>)
  moreover have "sframe (onq Q) st st2" using s1(3) by (simp add: st2_def quiet)
  ultimately have reset: "moved cf Q st (ts_resetpri p st2)" by (rule moved_mono)
  have op: "ts_parmsset cf tp p reqcr st =
      (if (case reqcr of None \<Rightarrow> False | Some cr \<Rightarrow> lim > ts_uprilim t \<and> \<not> suser cr) then Some (Some EPERM, st)
       else if ts_kpri (tsprocs st1 p) then Some (None, st1) else map_option (Pair None) (ts_resetpri p st2))"
    using pos(1) unfolding ts_parmsset_def Let_def t_def [symmetric] lim_def [symmetric] u_def [symmetric] pri_def [symmetric] nice_def [symmetric]
      st1_def [symmetric] st2_def [symmetric] by (cases "ts_resetpri p st2") simp_all
  show ?thesis unfolding op using stay reset movedI [OF s1(1) refl s1(2,3)] by (cases "ts_resetpri p st2") (simp_all split del: option.split)
qed

section \<open>Real-time\<close>

lemma rt_level_rt:
  "\<lbrakk>cls_ok cf st; p_clfuncs (procs st p) = Rt\<rbrakk> \<Longrightarrow> \<exists>d. rt_level p st = Some d \<and> 0 \<le> rt_globpri d \<and> rt_globpri d < int (length (dispqs st))"
  using rt_level_ok cls_okD(3) by blast

lemma rt_preempt_ok:
  assumes "disp_rel st Q" "cls_ok cf st" "p \<notin> onq Q"
  shows "queued cf Q p st (rt_preempt p st)"
proof -
  define st1 where "st1 = (if p = curproc st then set_rt p (\<lambda>r. r\<lparr>rt_ran := True\<rparr>) st else st)"
  have "disp_rel st1 Q" "cls_ok cf st1" "sframe (insert p (onq Q)) st st1" using assms by (auto simp: st1_def quiet sframe_refl)
  then show ?thesis
    unfolding rt_preempt_def Let_def st1_def [symmetric] by (simp add: assms queued_back queued_front quiet)
qed

lemma rt_enqueue_ok:
  assumes "disp_rel st Q" "cls_ok cf st" "p \<notin> onq Q"
  shows "queued cf Q p st (rt_enqueue p st)"
  unfolding rt_enqueue_def
  by (rule queued_map, rule queued_back) (simp_all add: assms quiet sframe_refl)

lemma rt_tick_ok:
  assumes "disp_rel st Q" "cls_ok cf st"
  shows "moved cf Q st (Some (rt_tick p st))"
  unfolding rt_tick_def Let_def by (rule movedI [where ?Q1.0 = Q]) (simp_all add: assms quiet sframe_refl)

interpretation rtp: enqueues cf rt_preempt "{Rt}" for cf by unfold_locales (simp add: rt_preempt_ok)

interpretation rte: enqueues cf rt_enqueue "{Rt}" for cf by unfold_locales (simp add: rt_enqueue_ok)

text \<open>A new priority: the process moves to the back of its new queue, or is marked to go there.\<close>

lemma rt_newpri_ok:
  assumes rel: "disp_rel st Q" and ok: "cls_ok cf st" and cl: "p_clfuncs (procs st p) = Rt" and cur: "p = curproc st \<longrightarrow> p \<notin> onq Q"
    and d: "0 \<le> g" "g < int (length (dispqs st))"
  shows "moved cf Q st
           (if p = curproc st then
              (let s2 = (set_proc p (\<lambda>q. q\<lparr>p_pri := g\<rparr>) st)\<lparr>curpri := g\<rparr> in
               Some (if g \<le> maxrunpri s2 then bump_krun (set_rt p (\<lambda>r. r\<lparr>rt_backq := True\<rparr>) s2) else s2))
            else
              do {
                (wasonq, s2) \<leftarrow> dispdeq p st;
                let s3 = set_proc p (\<lambda>q. q\<lparr>p_pri := g\<rparr>) s2;
                if wasonq then setbackdq p (if g > curpri s3 then bump_krun s3 else s3)
                else Some (set_rt p (\<lambda>r. r\<lparr>rt_backq := True\<rparr>) s3)
              })"
proof (cases "p = curproc st")
  case True
  define s2 where "s2 = (set_proc p (\<lambda>q. q\<lparr>p_pri := g\<rparr>) st)\<lparr>curpri := g\<rparr>"
  have s2: "disp_rel s2 Q" "cls_ok cf s2" "sframe (onq Q) st s2"
    using assms True by (simp_all add: s2_def disp_rel_pri cls_ok_pri quiet sframe_refl)
  then have "moved cf Q st (Some (if g \<le> maxrunpri s2 then bump_krun (set_rt p (\<lambda>r. r\<lparr>rt_backq := True\<rparr>) s2) else s2))"
    by (intro movedI [where ?Q1.0 = Q]) (simp_all add: quiet)
  then show ?thesis using True unfolding Let_def s2_def [symmetric] by simp
next
  case False
  obtain s2 Q2 where deq: "dispdeq p st = Some (p \<in> onq Q, s2)" "disp_rel s2 Q2" "onq Q2 = onq Q - {p}" "disp_frame (onq Q) st s2"
    using dispdeq_deq [OF rel ok] by blast
  define s3 where "s3 = set_proc p (\<lambda>q. q\<lparr>p_pri := g\<rparr>) s2"
  have s3: "disp_rel s3 Q2" "cls_ok cf s3" "sframe (onq Q) st s3"
    using deq d disp_cls_ok [OF ok deq(4)] disp_sframe [OF deq(4)] disp_frameD(1) [OF deq(4)] by (simp_all add: s3_def disp_rel_pri cls_ok_pri quiet)
  have "moved cf Q st (setbackdq p (if g > curpri s3 then bump_krun s3 else s3))" if "p \<in> onq Q"
    by (rule moved_back [OF _ deq(3) that]) (simp_all add: s3 quiet)
  moreover have "moved cf Q st (Some (set_rt p (\<lambda>r. r\<lparr>rt_backq := True\<rparr>) s3))" if "p \<notin> onq Q"
    using that by (intro movedI [where ?Q1.0 = Q2]) (simp_all add: s3 deq(3) quiet)
  ultimately show ?thesis using False unfolding Let_def deq(1) by (cases "p \<in> onq Q") (simp_all only: if_False if_True bind.bind_lunit prod.case s3_def [symmetric] simp_thms)
qed

lemma rt_parmsset_ok:
  assumes rel: "disp_rel st Q" and ok: "cls_ok cf st" and cl: "p_clfuncs (procs st p) = Rt" and cur: "p = curproc st \<longrightarrow> p \<notin> onq Q"
    and pri: "rk_pri rk = RT_NOCHANGE \<or> (0 \<le> rk_pri rk \<and> rk_pri rk \<le> rt_maxpri cf)"
  shows "moved cf Q st (map_option snd (rt_parmsset rk p reqrt reqcr st))"
proof -
  define s1 where "s1 = set_rt p (\<lambda>r. r\<lparr>rt_pri := rk_pri rk\<rparr>) st"
  define r1 where "r1 = (if rk_pri rk \<noteq> RT_NOCHANGE then
               do {
                 d \<leftarrow> rt_level p s1;
                 if p = curproc s1 then
                   (let s2 = (set_proc p (\<lambda>q. q\<lparr>p_pri := rt_globpri d\<rparr>) s1)\<lparr>curpri := rt_globpri d\<rparr> in
                    Some (if rt_globpri d \<le> maxrunpri s2 then bump_krun (set_rt p (\<lambda>r. r\<lparr>rt_backq := True\<rparr>) s2) else s2))
                 else
                   do {
                     (wasonq, s2) \<leftarrow> dispdeq p s1;
                     let s3 = set_proc p (\<lambda>q. q\<lparr>p_pri := rt_globpri d\<rparr>) s2;
                     if wasonq then setbackdq p (if rt_globpri d > curpri s3 then bump_krun s3 else s3)
                     else Some (set_rt p (\<lambda>r. r\<lparr>rt_backq := True\<rparr>) s3)
                   }
               }
             else Some st)"
  define r2 where "r2 s = (if rk_tqntm rk = RT_TQINF then Some (set_rt p (\<lambda>r. r\<lparr>rt_pquantum := RT_TQINF\<rparr>) s)
             else if rk_tqntm rk = RT_TQDEF then
               do { d \<leftarrow> rt_level p s; Some (set_rt p (\<lambda>r. r\<lparr>rt_pquantum := rt_quantum d, rt_timeleft := rt_quantum d\<rparr>) s) }
             else if rk_tqntm rk \<noteq> RT_NOCHANGE then
               Some (set_rt p (\<lambda>r. r\<lparr>rt_pquantum := rk_tqntm rk, rt_timeleft := rk_tqntm rk\<rparr>) s)
             else Some s)" for s
  have stay: "moved cf Q st (Some st)" by (rule movedI [OF rel refl ok sframe_refl])
  have "moved cf Q st r1"
  proof (cases "rk_pri rk = RT_NOCHANGE")
    case False
    with pri have "rt_ok cf (r\<lparr>rt_pri := rk_pri rk\<rparr>)" for r by (simp add: rt_ok_def)
    then have a: "disp_rel s1 Q" "cls_ok cf s1" "sframe (onq Q) st s1" "p_clfuncs (procs s1 p) = Rt" "curproc s1 = curproc st"
      using rel ok cl by (simp_all add: s1_def cls_ok_rt quiet sframe_refl)
    obtain d where d: "rt_level p s1 = Some d" "0 \<le> rt_globpri d" "rt_globpri d < int (length (dispqs s1))" using rt_level_rt a(2,4) by blast
    have "p = curproc s1 \<longrightarrow> p \<notin> onq Q" using cur a(5) by simp
    from moved_mono [OF rt_newpri_ok [OF a(1,2,4) this d(2,3)] a(3)] show ?thesis
      using False unfolding r1_def d(1) bind.bind_lunit by (simp only: not_False_eq_True simp_thms if_True)
  qed (simp add: r1_def stay)
  moreover have "moved cf Q' s (r2 s)" if s: "disp_rel s Q'" "cls_ok cf s" "sframe (onq Q) st s" for s Q'
  proof -
    have "p_clfuncs (procs s p) = Rt" using cl sframeD(8) [OF s(3)] by simp
    then obtain d where "rt_level p s = Some d" using rt_level_rt s(2) by blast
    then show ?thesis unfolding r2_def
      by (simp, intro conjI impI) (rule movedI [where ?Q1.0 = Q']; simp add: s quiet sframe_refl)+
  qed
  ultimately have r: "moved cf Q st (r1 \<bind> r2)" by (intro moved_bind)
  have "rt_parmsset rk p reqrt reqcr st =
      (if (case reqcr of None \<Rightarrow> False | Some cr \<Rightarrow> \<not> reqrt \<and> \<not> suser cr) then Some (Some EPERM, st) else map_option (Pair None) (r1 \<bind> r2))"
    unfolding rt_parmsset_def Let_def r1_def s1_def r2_def
    by (intro if_cong refl) (simp add: map_option_bind comp_def option.case_eq_if)
  with stay r show ?thesis by (cases "r1 \<bind> r2") (simp_all split del: option.split)
qed

section \<open>The calls by class\<close>

lemma clfuncs_all: "c \<in> {Sys, Ts, Rt}"
  by (cases c) simp_all

lemma CL_SETRUN_ok: "\<lbrakk>disp_rel st Q; cls_ok cf st; p \<notin> onq Q\<rbrakk> \<Longrightarrow> queued cf Q p st (CL_SETRUN p st)"
  by (cases "p_clfuncs (procs st p)") (simp_all add: CL_SETRUN_def queued_back ts_setrun_ok rt_setrun_def rt_enqueue_ok sframe_refl)

lemma CL_WAKEUP_ok: "\<lbrakk>disp_rel st Q; cls_ok cf st; p \<notin> onq Q\<rbrakk> \<Longrightarrow> queued cf Q p st (CL_WAKEUP p st)"
  by (cases "p_clfuncs (procs st p)") (simp_all add: CL_WAKEUP_def queued_back ts_wakeup_ok rt_wakeup_def rt_enqueue_ok sframe_refl)

lemma CL_PREEMPT_ok: "\<lbrakk>disp_rel st Q; cls_ok cf st; p \<notin> onq Q\<rbrakk> \<Longrightarrow> queued cf Q p st (CL_PREEMPT p st)"
  by (cases "p_clfuncs (procs st p)") (simp_all add: CL_PREEMPT_def queued_front ts_preempt_ok rt_preempt_ok sframe_refl)

lemma CL_TICK_ok: "\<lbrakk>disp_rel st Q; cls_ok cf st\<rbrakk> \<Longrightarrow> moved cf Q st (CL_TICK cf p st)"
  by (cases "p_clfuncs (procs st p)") (simp_all add: CL_TICK_def movedI sframe_refl ts_tick_ok rt_tick_ok)

lemma CL_TRAPRET_ok: "\<lbrakk>disp_rel st Q; cls_ok cf st; p \<notin> onq Q\<rbrakk> \<Longrightarrow> moved cf Q st (CL_TRAPRET cf p st)"
  by (cases "p_clfuncs (procs st p)") (simp_all add: CL_TRAPRET_def movedI sframe_refl ts_trapret_ok)

lemma ts_forkret_ok:
  assumes "disp_rel st Q" "cls_ok cf st" "c \<notin> onq Q"
  shows "queued cf Q c st (ts_forkret c parent st)"
proof -
  let ?f = "\<lambda>s. case parent of None \<Rightarrow> s
    | Some p \<Rightarrow> (set_ts p (\<lambda>t. t\<lparr>ts_backq := True, ts_forked := True\<rparr>) s)\<lparr>runrun := runrun s + 1\<rparr>"
  have "queued cf Q c st (setbackdq c st)" using assms by (intro queued_back) (simp_all add: sframe_refl)
  then have "queued cf Q c st (setbackdq c st \<bind> (\<lambda>s. Some (?f s)))"
  proof (rule queued_map)
    fix st' Q' assume "disp_rel st' Q'" "cls_ok cf st'" "sframe (insert c (onq Q)) st st'"
    then show "disp_rel (?f st') Q' \<and> cls_ok cf (?f st') \<and> sframe (insert c (onq Q)) st (?f st')"
      by (cases parent) (simp_all add: quiet)
  qed
  then show ?thesis by (simp add: ts_forkret_def)
qed

lemma CL_FORKRET_ok: "\<lbrakk>disp_rel st Q; cls_ok cf st; c \<notin> onq Q\<rbrakk> \<Longrightarrow> queued cf Q c st (CL_FORKRET c parent st)"
  by (cases "p_clfuncs (procs st c)") (simp_all add: CL_FORKRET_def queued_back ts_forkret_ok rt_forkret_def sframe_refl)

lemma ts_donice_ok:
  assumes rel: "disp_rel st Q" and ok: "cls_ok cf st" and cl: "p_clfuncs (procs st p) = Ts" and cur: "p = curproc st \<longrightarrow> p \<notin> onq Q"
  shows "moved cf Q st (map_option snd (ts_donice cf p incr st))"
proof -
  define n where "n = (let incr' = (if incr > 2 * NZERO - 1 then 2 * NZERO - 1 else incr); n = ts_nice (tsprocs st p) + incr'
    in if n \<ge> 2 * NZERO then 2 * NZERO - 1 else if n < 0 then 0 else n)"
  define pri where "pri = to_short (- ((n - NZERO) * ts_maxupri cf) sdiv NZERO)"
  obtain st1 Q1 where s: "map_option snd (ts_parmsset cf \<lparr>tp_uprilim = pri, tp_upri = pri\<rparr> p None st) = Some st1" "disp_rel st1 Q1"
      "onq Q1 = onq Q" "cls_ok cf st1" "sframe (onq Q) st st1"
    using ts_parmsset_ok [OF assms, of "\<lparr>tp_uprilim = pri, tp_upri = pri\<rparr>" None] unfolding moved_def by blast
  have "map_option snd (ts_donice cf p incr st) = Some (set_ts p (\<lambda>t. t\<lparr>ts_nice := to_char n\<rparr>) st1)"
    using s(1) unfolding ts_donice_def Let_def pri_def n_def by auto
  moreover have "cls_ok cf (set_ts p (\<lambda>t. t\<lparr>ts_nice := to_char n\<rparr>) st1)"
    using s(4) by (auto simp: cls_ok_def ts_ok_def)
  moreover have "disp_rel (set_ts p (\<lambda>t. t\<lparr>ts_nice := to_char n\<rparr>) st1) Q1" "sframe (onq Q) st (set_ts p (\<lambda>t. t\<lparr>ts_nice := to_char n\<rparr>) st1)"
    using s(2,5) by (simp_all add: quiet)
  ultimately show ?thesis using s(3) unfolding moved_def by blast
qed

interpretation cls: enqueues cf CL_SETRUN "{Sys, Ts, Rt}" for cf by unfold_locales (rule CL_SETRUN_ok)

interpretation clw: enqueues cf CL_WAKEUP "{Sys, Ts, Rt}" for cf by unfold_locales (rule CL_WAKEUP_ok)

interpretation clp: enqueues cf CL_PREEMPT "{Sys, Ts, Rt}" for cf by unfold_locales (rule CL_PREEMPT_ok)

interpretation clf: enqueues cf "\<lambda>c. CL_FORKRET c parent" "{Sys, Ts, Rt}" for cf parent by unfold_locales (rule CL_FORKRET_ok)

interpretation clt: requeues cf "CL_TICK cf" "{Sys, Ts, Rt}" for cf by unfold_locales (rule CL_TICK_ok)

text \<open>The priority a sleeping process gets is inside the tables when the caller's is.\<close>

definition disp_ok :: "schedconf \<Rightarrow> u32 \<Rightarrow> bool" where
  "disp_ok cf disp \<longleftrightarrow> int (unat (disp AND PMASK)) \<le> ts_maxkmdpri cf \<and> int (unat (disp AND PMASK)) \<le> v_maxsyspri cf"

lemma CL_SLEEP_ok:
  assumes rel: "disp_rel st Q" and ok: "cls_ok cf st" and off: "p \<notin> onq Q" and disp: "disp_ok cf disp"
  shows "moved cf Q st (CL_SLEEP cf p disp st)"
proof -
  note c = cls_okD(1) [OF ok, unfolded conf_ok_def]
  define k where "k = int (unat (disp AND PMASK))"
  have k: "0 \<le> k" "k \<le> ts_maxkmdpri cf" "k \<le> v_maxsyspri cf" using disp by (simp_all add: k_def disp_ok_def)
  show ?thesis
  proof (cases "p_clfuncs (procs st p)")
    case Sys
    have "moved cf Q st (Some (set_proc p (\<lambda>q. q\<lparr>p_pri := v_maxsyspri cf - k\<rparr>) st))"
      by (rule movedI [where ?Q1.0 = Q]) (use c k in \<open>simp_all add: rel ok off disp_rel_pri cls_ok_pri quiet sframe_refl\<close>)
    then show ?thesis using Sys by (simp add: CL_SLEEP_def sys_sleep_def k_def)
  next
    case Ts
    define st1 where "st1 = set_ts p (\<lambda>t. t\<lparr>ts_kpri := True\<rparr>) st"
    have s1: "disp_rel st1 Q" "cls_ok cf st1" "sframe (onq Q) st st1" "dispqs st1 = dispqs st"
      using rel ok by (simp_all add: st1_def quiet sframe_refl)
    define g where "g = ts_kmdpris cf ! nat (ts_maxkmdpri cf - k)"
    have "nat (ts_maxkmdpri cf - k) < length (ts_kmdpris cf)" using c k by linarith
    then have g: "nth_opt (ts_kmdpris cf) (ts_maxkmdpri cf - k) = Some g" "0 \<le> g" "g < int (length (dispqs st))"
      using c k by (auto simp: nth_opt_def g_def)
    have "moved cf Q st (Some (set_proc p (\<lambda>q. q\<lparr>p_pri := g\<rparr>) st1))"
      by (rule movedI [where ?Q1.0 = Q]) (use s1 g off in \<open>simp_all add: disp_rel_pri cls_ok_pri quiet\<close>)
    then show ?thesis using Ts g(1) by (simp add: CL_SLEEP_def ts_sleep_def Let_def k_def st1_def)
  next
    case Rt
    then show ?thesis by (simp add: CL_SLEEP_def rt_sleep_def) (rule movedI [OF _ refl]; simp add: rel ok quiet sframe_refl)
  qed
qed

end
