(* ===== verification/Slp.thy ===== *)
theory Slp
  imports Rt
begin

text \<open>
  Sleeping and waking, \<^verbatim>\<open>os/slp.c\<close>, and the switch as the kernel calls it. A process that sleeps is on the sleep queue its channel
  hashes to, a chain over the same field \<^verbatim>\<open>p_link\<close> as the dispatcher queues.
\<close>

definition NSLEEPQ :: nat where "NSLEEPQ = 64"

text \<open>\<^verbatim>\<open>((int)X >> 3) & (NSLEEPQ - 1)\<close>\<close>

definition sqhash :: "u32 \<Rightarrow> nat" where
  "sqhash chan = unat (drop_bit 3 chan AND 63)"

definition set_sq :: "nat \<Rightarrow> (sleepq \<Rightarrow> sleepq) \<Rightarrow> sched \<Rightarrow> sched" where
  "set_sq i f st = st\<lparr>sleepqs := (sleepqs st)[i := f (sleepqs st ! i)]\<rparr>"

section \<open>Going to sleep\<close>

text \<open>The current process goes to the back of the sleep queue of the channel.\<close>

definition sleep_enq :: "nat \<Rightarrow> u32 \<Rightarrow> sched \<Rightarrow> sched option" where
  "sleep_enq pp chan st =
     do {
       let st1 = set_proc pp (\<lambda>p. p\<lparr>p_stat := SSLEEP, p_wchan := chan\<rparr>) st;
       i \<leftarrow> array_nat (sleepqs st1) (int (sqhash chan));
       let sq = sleepqs st1 ! i;
       st2 \<leftarrow> (if sq_first sq = None then Some (set_sq i (\<lambda>sq. sq\<lparr>sq_first := Some pp, sq_last := Some pp\<rparr>) st1)
               else
                 do {
                   l \<leftarrow> sq_last sq;
                   Some (set_sq i (\<lambda>sq. sq\<lparr>sq_last := Some pp\<rparr>) (set_proc l (\<lambda>p. p\<lparr>p_link := Some pp\<rparr>) st1))
                 });
       Some (set_proc pp (\<lambda>p. p\<lparr>p_link := None\<rparr>) st2)
     }"

text \<open>The sleep that no signal ends, up to the switch.\<close>

definition sleep_nosig :: "schedconf \<Rightarrow> nat \<Rightarrow> u32 \<Rightarrow> u32 \<Rightarrow> sched \<Rightarrow> sched option" where
  "sleep_nosig cf pp chan disp st =
     do {
       st1 \<leftarrow> sleep_enq pp chan st;
       CL_SLEEP cf pp disp (set_proc pp (\<lambda>p. p\<lparr>p_flag := p_flag p OR SNWAKE\<rparr>) st1)
     }"

definition sq_unlink :: "nat \<Rightarrow> nat option \<Rightarrow> nat \<Rightarrow> sched \<Rightarrow> sched" where
  "sq_unlink i prp rp st =
     (let next = p_link (procs st rp) in
      case prp of
        None \<Rightarrow> set_sq i (\<lambda>sq. sq\<lparr>sq_first := next, sq_last := (if next = None then None else sq_last sq)\<rparr>) st
      | Some r \<Rightarrow>
          set_sq i (\<lambda>sq. sq\<lparr>sq_last := (if next = None then Some r else sq_last sq)\<rparr>) (set_proc r (\<lambda>p. p\<lparr>p_link := next\<rparr>) st))"

definition unsleep :: "nat \<Rightarrow> sched \<Rightarrow> sched option" where
  "unsleep pp st =
     (if p_wchan (procs st pp) \<noteq> 0 then
        do {
          i \<leftarrow> array_nat (sleepqs st) (int (sqhash (p_wchan (procs st pp))));
          (prp, rp) \<leftarrow> link_find (procs st) (\<lambda>r. r = pp) None (sq_first (sleepqs st ! i));
          r \<leftarrow> rp;
          Some (set_proc pp (\<lambda>p. p\<lparr>p_wchan := 0\<rparr>) (sq_unlink i prp r st))
        }
      else Some st)"

section \<open>Waking\<close>

text \<open>
  \<^verbatim>\<open>setrun\<close> and \<^verbatim>\<open>wakeprocs\<close> call each other, always as the last thing they do: \<^verbatim>\<open>setrun\<close> wakes the parent of a traced process, and
  either sets the swapper running. Each part returns the call it ends with, and \<open>run_call\<close> follows the calls.
\<close>

datatype slpcall = Setrun nat | Wakeprocs u32 bool

definition setrun1 :: "schedconf \<Rightarrow> nat \<Rightarrow> sched \<Rightarrow> (slpcall option \<times> sched) option" where
  "setrun1 cf pp st =
     do {
       let s = p_stat (procs st pp);
       if s = SRUN then Some (None, st)
       else
         do {
           st1 \<leftarrow> (if s = SSLEEP \<or> s = SSTOP then unsleep pp st else Some st);
           let f = p_flag (procs st1 pp);
           if s = SSTOP \<and> f AND (SXSTART OR SPSTART) \<noteq> SXSTART OR SPSTART then
             Some (if flag_on f SPSTART \<and> p_signalled (procs st1 pp) then Some (Wakeprocs (p_parent (procs st1 pp)) True) else None, st1)
           else
             do {
               st2 \<leftarrow> CL_SETRUN pp (set_proc pp (\<lambda>p. p\<lparr>p_stat := SRUN, p_signalled := False\<rparr>) st1);
               Some (if p_flag (procs st2 pp) AND SLOAD = 0 then
                       (if runout st2 > 0 then (Some (Setrun (proc_sched cf)), st2\<lparr>runout := 0\<rparr>) else (None, st2))
                     else (None, if p_pri (procs st2 pp) > curpri st2 then st2\<lparr>runrun := 1\<rparr> else st2))
             }
         }
     }"

text \<open>
  The loop of \<^verbatim>\<open>wakeprocs\<close>: \<open>rp\<close> is the last process kept, whose link (or the head of the queue) is \<^verbatim>\<open>*plinkp\<close>. The result tells whether
  the swapper has to be woken.
\<close>

partial_function (option) wake_loop :: "nat \<Rightarrow> u32 \<Rightarrow> bool \<Rightarrow> nat option \<Rightarrow> bool \<Rightarrow> sched \<Rightarrow> (nat option \<times> bool \<times> sched) option" where
  "wake_loop i chan prmpt rp runsched st =
     (let p = (case rp of None \<Rightarrow> sq_first (sleepqs st ! i) | Some r \<Rightarrow> p_link (procs st r)) in
      if p = None then Some (rp, runsched, st)
      else
        (let pp = the p in
         if p_wchan (procs st pp) = chan then
           (let next = p_link (procs st pp);
                st1 = set_proc pp (\<lambda>q. q\<lparr>p_wchan := 0\<rparr>) st;
                st2 = (case rp of None \<Rightarrow> set_sq i (\<lambda>sq. sq\<lparr>sq_first := next\<rparr>) st1 | Some r \<Rightarrow> set_proc r (\<lambda>q. q\<lparr>p_link := next\<rparr>) st1)
            in
            if p_stat (procs st2 pp) = SSLEEP then
              do {
                let st3 = set_proc pp (\<lambda>q. q\<lparr>p_stat := SRUN\<rparr>) st2;
                st4 \<leftarrow> CL_WAKEUP pp (if prmpt then st3 else st3\<lparr>npwakecnt := npwakecnt st3 + 1\<rparr>);
                if p_flag (procs st4 pp) AND SLOAD = 0 then wake_loop i chan prmpt rp (runsched \<or> runout st4 > 0) st4
                else
                  wake_loop i chan prmpt rp runsched
                    (if p_pri (procs st4 pp) > curpri st4 \<and> prmpt then st4\<lparr>runrun := 1\<rparr> else st4)
              }
            else wake_loop i chan prmpt rp runsched st2)
         else wake_loop i chan prmpt (Some pp) runsched st))"

definition wakeprocs1 :: "schedconf \<Rightarrow> u32 \<Rightarrow> bool \<Rightarrow> sched \<Rightarrow> (slpcall option \<times> sched) option" where
  "wakeprocs1 cf chan prmpt st =
     do {
       i \<leftarrow> array_nat (sleepqs st) (int (sqhash chan));
       (rp, runsched, st1) \<leftarrow> wake_loop i chan prmpt None False st;
       let st2 = set_sq i (\<lambda>sq. sq\<lparr>sq_last := rp\<rparr>) st1;
       Some (if runsched then (Some (Setrun (proc_sched cf)), st2\<lparr>runout := 0\<rparr>) else (None, st2))
     }"

definition run_call1 :: "schedconf \<Rightarrow> slpcall \<Rightarrow> sched \<Rightarrow> (slpcall option \<times> sched) option" where
  "run_call1 cf c st = (case c of Setrun pp \<Rightarrow> setrun1 cf pp st | Wakeprocs chan prmpt \<Rightarrow> wakeprocs1 cf chan prmpt st)"

partial_function (option) run_call :: "schedconf \<Rightarrow> slpcall \<Rightarrow> sched \<Rightarrow> sched option" where
  "run_call cf c st =
     do {
       (next, st1) \<leftarrow> run_call1 cf c st;
       case next of None \<Rightarrow> Some st1 | Some c' \<Rightarrow> run_call cf c' st1
     }"

definition setrun :: "schedconf \<Rightarrow> nat \<Rightarrow> sched \<Rightarrow> sched option" where
  "setrun cf pp st = run_call cf (Setrun pp) st"

definition wakeprocs :: "schedconf \<Rightarrow> u32 \<Rightarrow> bool \<Rightarrow> sched \<Rightarrow> sched option" where
  "wakeprocs cf chan prmpt st = run_call cf (Wakeprocs chan prmpt) st"

end
