(* ===== verification/Slp_Inv.thy ===== *)
theory Slp_Inv
  imports Sched_Class Slp
begin

text \<open>
  The invariant of scheduling: every process that is ready is on the dispatcher queue of its priority, every process with a wait
  channel is on the sleep queue the channel hashes to, and nothing else is on a queue. Sleeping, waking and the operations of the
  classes keep it.
\<close>

section \<open>Sleep queues as lists\<close>

text \<open>The queue \<open>i\<close> is the list \<open>W i\<close>; the pointer to its last process is right for the queues in \<open>L\<close>.\<close>

definition sleep_rel :: "nat set \<Rightarrow> sched \<Rightarrow> (nat \<Rightarrow> nat list) \<Rightarrow> bool" where
  "sleep_rel L st W \<longleftrightarrow>
     length (sleepqs st) = NSLEEPQ \<and>
     (\<forall>i < NSLEEPQ. path (procs st) (sq_first (sleepqs st ! i)) (W i) None \<and> (i \<in> L \<longrightarrow> sq_last (sleepqs st ! i) = last_opt (W i))) \<and>
     (\<forall>i p. p \<in> set (W i) \<longleftrightarrow> p_wchan (procs st p) \<noteq> 0 \<and> sqhash (p_wchan (procs st p)) = i) \<and>
     (\<forall>p. p_wchan (procs st p) \<noteq> 0 \<longrightarrow> p_stat (procs st p) = SSLEEP \<or> p_stat (procs st p) = SSTOP)"

lemma sqhash_less: "sqhash chan < NSLEEPQ"
proof -
  have "drop_bit 3 chan AND 63 < 64" using and_mask_less' [of 6 "drop_bit 3 chan"] by (simp add: mask_eq_exp_minus_1)
  then show ?thesis unfolding sqhash_def NSLEEPQ_def by (simp add: word_less_nat_alt)
qed

lemma sleep_relD:
  assumes "sleep_rel L st W"
  shows "length (sleepqs st) = NSLEEPQ" "i < NSLEEPQ \<Longrightarrow> path (procs st) (sq_first (sleepqs st ! i)) (W i) None"
    "\<lbrakk>i < NSLEEPQ; i \<in> L\<rbrakk> \<Longrightarrow> sq_last (sleepqs st ! i) = last_opt (W i)"
    "p \<in> set (W i) \<longleftrightarrow> p_wchan (procs st p) \<noteq> 0 \<and> sqhash (p_wchan (procs st p)) = i"
    "p_wchan (procs st p) \<noteq> 0 \<Longrightarrow> p_stat (procs st p) = SSLEEP \<or> p_stat (procs st p) = SSTOP"
  using assms by (auto simp: sleep_rel_def)

lemma sleep_rel_hash: "sleep_rel L st W \<Longrightarrow> p \<in> set (W i) \<Longrightarrow> i < NSLEEPQ"
  using sleep_relD(4) [of L st W p i] sqhash_less [of "p_wchan (procs st p)"] by auto

text \<open>Only the links, channels and states of the processes matter.\<close>

lemma sleep_rel_cong:
  assumes rel: "sleep_rel L st W" and sq: "sleepqs st' = sleepqs st"
    and p: "\<And>p. p_wchan (procs st' p) = p_wchan (procs st p)"
      "\<And>p. p_wchan (procs st p) \<noteq> 0 \<Longrightarrow> p_link (procs st' p) = p_link (procs st p) \<and> p_stat (procs st' p) = p_stat (procs st p)"
  shows "sleep_rel L st' W"
proof -
  have "path (procs st') q (W i) None = path (procs st) q (W i) None" for i q
    by (rule path_cong) (use p(2) sleep_relD(4) [OF rel] in blast)
  note path = this
  show ?thesis
    unfolding sleep_rel_def sq p(1)
  proof (intro conjI allI impI)
    show "length (sleepqs st) = NSLEEPQ" by (rule sleep_relD(1) [OF rel])
    show "path (procs st') (sq_first (sleepqs st ! i)) (W i) None" if "i < NSLEEPQ" for i
      unfolding path by (rule sleep_relD(2) [OF rel that])
    show "sq_last (sleepqs st ! i) = last_opt (W i)" if "i < NSLEEPQ" "i \<in> L" for i by (rule sleep_relD(3) [OF rel that])
    show "p \<in> set (W i) \<longleftrightarrow> p_wchan (procs st p) \<noteq> 0 \<and> sqhash (p_wchan (procs st p)) = i" for i p by (rule sleep_relD(4) [OF rel])
    show "p_stat (procs st' p) = SSLEEP \<or> p_stat (procs st' p) = SSTOP" if "p_wchan (procs st p) \<noteq> 0" for p
      unfolding conjunct2 [OF p(2) [OF that]] by (rule sleep_relD(5) [OF rel that])
  qed
qed

lemma sleep_rel_sframe: "\<lbrakk>sleep_rel L st W; sframe A st st'; \<forall>p \<in> A. p_wchan (procs st p) = 0\<rbrakk> \<Longrightarrow> sleep_rel L st' W"
  by (erule sleep_rel_cong) (use sframeD(2,6,7,10) [of A st st'] in blast)+

text \<open>Taking a process out of a chain: the pointer to it, in the head or in the process before it, goes to the next one.\<close>

lemma path_cut:
  assumes path: "path ps f (us @ x # vs) None"
    and link: "\<forall>y \<in> set (us @ vs). p_link (ps' y) = (if Some y = last_opt us then p_link (ps x) else p_link (ps y))"
  shows "path ps' (if us = [] then p_link (ps x) else f) (us @ vs) None"
proof (cases us rule: rev_cases)
  case Nil
  then have "path ps' (p_link (ps x)) vs None = path ps (p_link (ps x)) vs None" using link by (intro path_cong) simp
  then show ?thesis using path Nil by simp
next
  case (snoc ws r)
  have d: "distinct (us @ x # vs)" by (rule path_distinct [OF path])
  have l: "linkq ps f (last_opt (ws @ r # x # vs)) (ws @ r # x # vs)" using path snoc by (simp add: linkq_def)
  have "p_link (ps' r) = p_link (ps x)" "\<forall>y \<in> set (ws @ vs). p_link (ps' y) = p_link (ps y)" using link d by (auto simp: snoc)
  from linkq_remove [OF l this] show ?thesis by (simp add: linkq_def snoc)
qed

section \<open>The invariant\<close>

text \<open>The processes in \<open>R\<close> are between two states: they are on no queue.\<close>

definition sched_on :: "schedconf \<Rightarrow> nat set \<Rightarrow> nat set \<Rightarrow> sched \<Rightarrow> (nat \<Rightarrow> nat list) \<Rightarrow> (nat \<Rightarrow> nat list) \<Rightarrow> bool" where
  "sched_on cf L R st Q W \<longleftrightarrow>
     disp_rel st Q \<and> cls_ok cf st \<and> sleep_rel L st W \<and>
     (\<forall>p \<in> R. p \<notin> onq Q \<and> p_wchan (procs st p) = 0) \<and>
     (\<forall>p. p \<notin> R \<longrightarrow> (p_stat (procs st p) = SRUN \<longleftrightarrow> p \<in> onq Q) \<and> (p_stat (procs st p) = SSLEEP \<longrightarrow> p_wchan (procs st p) \<noteq> 0)) \<and>
     (\<forall>p. p_stat (procs st p) = SONPROC \<longrightarrow> p = curproc st) \<and>
     (\<forall>p \<in> set (ts_plist st). p_clfuncs (procs st p) = Ts)"

abbreviation "sched_inv cf \<equiv> sched_on cf UNIV {}"

lemma sched_onD:
  assumes "sched_on cf L R st Q W"
  shows "disp_rel st Q" "cls_ok cf st" "sleep_rel L st W" "p \<in> R \<Longrightarrow> p \<notin> onq Q" "p \<in> R \<Longrightarrow> p_wchan (procs st p) = 0"
    "p \<notin> R \<Longrightarrow> p_stat (procs st p) = SRUN \<longleftrightarrow> p \<in> onq Q" "\<lbrakk>p \<notin> R; p_stat (procs st p) = SSLEEP\<rbrakk> \<Longrightarrow> p_wchan (procs st p) \<noteq> 0"
    "p_stat (procs st p) = SONPROC \<Longrightarrow> p = curproc st" "p \<in> set (ts_plist st) \<Longrightarrow> p_clfuncs (procs st p) = Ts"
  using assms by (auto simp: sched_on_def)

lemma onq_no_wchan: "\<lbrakk>sched_on cf L R st Q W; p \<in> onq Q\<rbrakk> \<Longrightarrow> p_wchan (procs st p) = 0"
  using sched_onD(3) [of cf L R st Q W] sched_onD(4,6) [of cf L R st Q W p] sleep_relD(5) [of L st W p] by (cases "p \<in> R") auto

text \<open>Operations that keep the set of the processes on the dispatcher queues keep the invariant.\<close>

lemma sched_on_moved:
  assumes inv: "sched_on cf L R st Q W" and mv: "moved cf Q st r"
  shows "\<exists>st' Q'. r = Some st' \<and> sched_on cf L R st' Q' W \<and> sframe (onq Q) st st'"
proof -
  obtain st' Q' where s: "r = Some st'" "disp_rel st' Q'" "onq Q' = onq Q" "cls_ok cf st'" "sframe (onq Q) st st'"
    using mv unfolding moved_def by blast
  have "sleep_rel L st' W" using sleep_rel_sframe [OF sched_onD(3) [OF inv] s(5)] onq_no_wchan [OF inv] by blast
  then have "sched_on cf L R st' Q' W" using inv s sframeD [OF s(5)] by (simp add: sched_on_def)
  then show ?thesis using s by blast
qed

text \<open>A process made ready goes on a queue.\<close>

lemma sched_on_queued:
  assumes inv: "sched_on cf L {p} st Q W" and run: "p_stat (procs st p) = SRUN" and qu: "queued cf Q p st r"
  shows "\<exists>st' Q'. r = Some st' \<and> sched_on cf L {} st' Q' W \<and> sframe (insert p (onq Q)) st st'"
proof -
  obtain st' Q' where s: "r = Some st'" "disp_rel st' Q'" "onq Q' = insert p (onq Q)" "cls_ok cf st'" "sframe (insert p (onq Q)) st st'"
    using qu unfolding queued_def by blast
  have "sleep_rel L st' W" using sleep_rel_sframe [OF sched_onD(3) [OF inv] s(5)] onq_no_wchan [OF inv] sched_onD(5) [OF inv] by blast
  moreover have "(p_stat (procs st q) = SRUN \<longleftrightarrow> q \<in> onq Q') \<and> (p_stat (procs st q) = SSLEEP \<longrightarrow> p_wchan (procs st q) \<noteq> 0)" for q
    using sched_onD(6,7) [OF inv, of q] run s(3) by (cases "q = p") auto
  ultimately have "sched_on cf L {} st' Q' W" using s sched_onD(8,9) [OF inv] sframeD [OF s(5)] by (simp add: sched_on_def)
  then show ?thesis using s by blast
qed

text \<open>Into and out of the transition.\<close>

lemma sched_on_leave: "\<lbrakk>sched_on cf L {p} st Q W; p_stat (procs st p) \<noteq> SRUN; p_stat (procs st p) \<noteq> SSLEEP\<rbrakk> \<Longrightarrow> sched_on cf L {} st Q W"
  unfolding sched_on_def by auto

lemma sched_on_enter: "\<lbrakk>sched_on cf L {} st Q W; p \<notin> onq Q; p_wchan (procs st p) = 0\<rbrakk> \<Longrightarrow> sched_on cf L {p} st Q W"
  unfolding sched_on_def by auto

section \<open>Off a sleep queue\<close>

lemma set_sq_simps [simp]:
  "procs (set_sq i f st) = procs st" "dispqs (set_sq i f st) = dispqs st" "dqactmap (set_sq i f st) = dqactmap st"
  "srunprocs (set_sq i f st) = srunprocs st" "maxrunpri (set_sq i f st) = maxrunpri st" "curproc (set_sq i f st) = curproc st"
  "curpri (set_sq i f st) = curpri st" "runrun (set_sq i f st) = runrun st" "ts_dptbl (set_sq i f st) = ts_dptbl st"
  "rt_dptbl (set_sq i f st) = rt_dptbl st" "ts_plist (set_sq i f st) = ts_plist st" "rt_plist (set_sq i f st) = rt_plist st"
  "tsprocs (set_sq i f st) = tsprocs st" "rtprocs (set_sq i f st) = rtprocs st" "npwakecnt (set_sq i f st) = npwakecnt st"
  "runout (set_sq i f st) = runout st" "runin (set_sq i f st) = runin st"
  "sleepqs (set_sq i f st) = (sleepqs st)[i := f (sleepqs st ! i)]"
  by (simp_all add: set_sq_def)

text \<open>What the state is made of, apart from the processes and the sleep queues, is kept.\<close>

definition same_rest :: "sched \<Rightarrow> sched \<Rightarrow> bool" where
  "same_rest st st' \<longleftrightarrow>
     dispqs st' = dispqs st \<and> dqactmap st' = dqactmap st \<and> srunprocs st' = srunprocs st \<and> maxrunpri st' = maxrunpri st \<and>
     curproc st' = curproc st \<and> ts_plist st' = ts_plist st \<and> ts_dptbl st' = ts_dptbl st \<and> rt_dptbl st' = rt_dptbl st \<and>
     tsprocs st' = tsprocs st \<and> rtprocs st' = rtprocs st \<and> runout st' = runout st \<and>
     (\<forall>p. p_pri (procs st' p) = p_pri (procs st p) \<and> p_clfuncs (procs st' p) = p_clfuncs (procs st p))"

lemma same_rest_cls_ok: "same_rest st st' \<Longrightarrow> cls_ok cf st \<Longrightarrow> cls_ok cf st'"
  by (simp add: same_rest_def cls_ok_def)

lemma same_rest_disp:
  assumes "same_rest st st'" and "disp_rel st Q"
    and "\<And>p. p \<in> onq Q \<Longrightarrow> p_link (procs st' p) = p_link (procs st p) \<and> p_flag (procs st' p) = p_flag (procs st p)"
  shows "disp_rel st' Q"
  by (rule disp_rel_cong [OF assms(2)]) (use assms(1,3) in \<open>simp_all add: same_rest_def loaded_def\<close>)

lemma sched_on_cut:
  assumes inv: "sched_on cf L {} st Q W" and W: "W i = us @ x # vs" and rest: "same_rest st st'"
    and link: "\<And>q. p_link (procs st' q) = (if Some q = last_opt us then p_link (procs st x) else p_link (procs st q))"
    and proc: "\<And>q. p_wchan (procs st' q) = (if q = x then 0 else p_wchan (procs st q))"
      "\<And>q. p_stat (procs st' q) = p_stat (procs st q)" "\<And>q. p_flag (procs st' q) = p_flag (procs st q)"
    and sq: "length (sleepqs st') = length (sleepqs st)" "\<And>j. j \<noteq> i \<Longrightarrow> sleepqs st' ! j = sleepqs st ! j"
      "sq_first (sleepqs st' ! i) = (if us = [] then p_link (procs st x) else sq_first (sleepqs st ! i))"
      "i \<in> L \<Longrightarrow> sq_last (sleepqs st' ! i) = last_opt (us @ vs)"
  shows "sched_on cf L {x} st' Q (W(i := us @ vs))"
proof -
  note rel = sched_onD(3) [OF inv]
  have mem: "q \<in> set (W i)" if "Some q = last_opt us" for q using last_optD [OF that [symmetric]] W by auto
  have i: "i < NSLEEPQ" by (rule sleep_rel_hash [OF rel, of x]) (simp add: W)
  have d: "distinct (us @ x # vs)" using path_distinct [OF sleep_relD(2) [OF rel i]] W by simp
  have nq: "p_link (procs st' q) = p_link (procs st q)" if "q \<notin> set (W i)" for q using link [of q] mem that by auto
  have x: "x \<notin> onq Q" using onq_no_wchan [OF inv, of x] sleep_relD(4) [OF rel, of x i] W by auto
  have "disp_rel st' Q"
  proof (rule same_rest_disp [OF rest sched_onD(1) [OF inv]], intro conjI)
    fix q assume "q \<in> onq Q"
    then have "q \<notin> set (W i)" using onq_no_wchan [OF inv, of q] sleep_relD(4) [OF rel, of q i] by auto
    then show "p_link (procs st' q) = p_link (procs st q)" by (rule nq)
    show "p_flag (procs st' q) = p_flag (procs st q)" by (rule proc(3))
  qed
  moreover have "cls_ok cf st'" by (rule same_rest_cls_ok [OF rest sched_onD(2) [OF inv]])
  moreover have "sleep_rel L st' (W(i := us @ vs))"
    unfolding sleep_rel_def
  proof (intro conjI allI impI)
    show "length (sleepqs st') = NSLEEPQ" using sq(1) sleep_relD(1) [OF rel] by simp
    fix j assume j: "j < NSLEEPQ"
    show "path (procs st') (sq_first (sleepqs st' ! j)) ((W(i := us @ vs)) j) None"
    proof (cases "j = i")
      case True
      have "path (procs st) (sq_first (sleepqs st ! i)) (us @ x # vs) None" using sleep_relD(2) [OF rel i] W by simp
      from path_cut [OF this, of "procs st'"] show ?thesis using link sq(3) True by simp
    next
      case False
      have "q \<notin> set (W i)" if "q \<in> set (W j)" for q
        using that False sleep_relD(4) [OF rel, of q j] sleep_relD(4) [OF rel, of q i] by simp
      then have "\<forall>q \<in> set (W j). p_link (procs st' q) = p_link (procs st q)" using nq by blast
      then show ?thesis using sleep_relD(2) [OF rel j] path_cong [of "W j" "procs st'" "procs st"] sq(2) [OF False] False by simp
    qed
    show "sq_last (sleepqs st' ! j) = last_opt ((W(i := us @ vs)) j)" if "j \<in> L"
      using sq(2,4) that sleep_relD(3) [OF rel j that] by (cases "j = i") simp_all
  next
    fix j q
    have "q \<in> set ((W(i := us @ vs)) j) \<longleftrightarrow> q \<in> set (W j) \<and> q \<noteq> x"
    proof (cases "j = i")
      case False
      have "x \<in> set (W i)" by (simp add: W)
      with False have "x \<notin> set (W j)" unfolding sleep_relD(4) [OF rel] by simp
      then show ?thesis using False by auto
    qed (use d W in auto)
    then show "q \<in> set ((W(i := us @ vs)) j) \<longleftrightarrow> p_wchan (procs st' q) \<noteq> 0 \<and> sqhash (p_wchan (procs st' q)) = j"
      unfolding proc(1) sleep_relD(4) [OF rel] by (cases "q = x") simp_all
  next
    fix q assume "p_wchan (procs st' q) \<noteq> 0"
    then have "p_wchan (procs st q) \<noteq> 0" unfolding proc(1) by (simp split: if_splits)
    then show "p_stat (procs st' q) = SSLEEP \<or> p_stat (procs st' q) = SSTOP" unfolding proc(2) by (rule sleep_relD(5) [OF rel])
  qed
  ultimately show ?thesis
    using sched_onD(6,7) [OF inv] sched_onD(8,9) [OF inv] x rest unfolding sched_on_def same_rest_def proc(1,2) by simp
qed

text \<open>What the callers of these operations need besides.\<close>

definition kept :: "sched \<Rightarrow> sched \<Rightarrow> bool" where
  "kept st st' \<longleftrightarrow> runout st' = runout st \<and> curproc st' = curproc st \<and>
     (\<forall>q. p_flag (procs st' q) = p_flag (procs st q) \<and> p_clfuncs (procs st' q) = p_clfuncs (procs st q))"

lemma kept_refl: "kept st st"
  by (simp add: kept_def)

lemma kept_trans: "\<lbrakk>kept st st1; kept st1 st2\<rbrakk> \<Longrightarrow> kept st st2"
  by (simp add: kept_def)

lemma sframe_kept: "sframe A st st' \<Longrightarrow> kept st st'"
  using sframeD [of A st st'] by (simp add: kept_def)

lemma unsleep_ok:
  assumes inv: "sched_inv cf st Q W" and stat: "p_stat (procs st p) = SSLEEP \<or> p_stat (procs st p) = SSTOP"
  shows "\<exists>st' W'. unsleep p st = Some st' \<and> sched_on cf UNIV {p} st' Q W' \<and> kept st st' \<and>
           (\<forall>q. p_stat (procs st' q) = p_stat (procs st q) \<and> p_wchan (procs st' q) = (if q = p then 0 else p_wchan (procs st q))) \<and>
           (\<forall>j. removeAll p (W' j) = removeAll p (W j))"
proof (cases "p_wchan (procs st p) = 0")
  case True
  have "p \<notin> onq Q" using sched_onD(6) [OF inv, of p] stat by auto
  then have "sched_on cf UNIV {p} st Q W" using sched_on_enter [OF inv] True by blast
  moreover have "unsleep p st = Some st" using True by (simp add: unsleep_def)
  ultimately show ?thesis using True kept_refl by auto
next
  case False
  note rel = sched_onD(3) [OF inv]
  define i where "i = sqhash (p_wchan (procs st p))"
  have i: "i < NSLEEPQ" unfolding i_def by (rule sqhash_less)
  have "p \<in> set (W i)" unfolding sleep_relD(4) [OF rel] using False by (simp add: i_def)
  then obtain us vs where W: "W i = us @ p # vs" "p \<notin> set us" by (meson split_list_first)
  have path: "path (procs st) (sq_first (sleepqs st ! i)) (us @ p # vs) None" using sleep_relD(2) [OF rel i] W(1) by simp
  have find: "link_find (procs st) (\<lambda>r. r = p) None (sq_first (sleepqs st ! i)) = Some (last_opt us, Some p)"
    using W(2) by (intro link_find_Some [OF path]) auto
  define st' where "st' = set_proc p (\<lambda>p. p\<lparr>p_wchan := 0\<rparr>) (sq_unlink i (last_opt us) p st)"
  have op: "unsleep p st = Some st'"
    using False find i sleep_relD(1) [OF rel] by (simp add: unsleep_def i_def [symmetric] array_nat_def st'_def)
  have nxt: "p_link (procs st p) = None \<longleftrightarrow> vs = []" using path path_hd [of "procs st" "p_link (procs st p)" vs] by (auto simp: path_append split: list.splits)
  have l: "last_opt us \<noteq> Some p" using last_optD [of us p] W(2) by auto
  have same: "same_rest st st'" "kept st st'"
    by (auto simp: st'_def sq_unlink_def Let_def same_rest_def kept_def split: option.splits)
  have fld: "p_link (procs st' q) = (if Some q = last_opt us then p_link (procs st p) else p_link (procs st q))"
    "p_wchan (procs st' q) = (if q = p then 0 else p_wchan (procs st q))" "p_stat (procs st' q) = p_stat (procs st q)"
    "p_flag (procs st' q) = p_flag (procs st q)" for q
    using l by (auto simp: st'_def sq_unlink_def Let_def split: option.splits)
  have sq: "length (sleepqs st') = length (sleepqs st)" "\<And>j. j \<noteq> i \<Longrightarrow> sleepqs st' ! j = sleepqs st ! j"
    "sq_first (sleepqs st' ! i) = (if us = [] then p_link (procs st p) else sq_first (sleepqs st ! i))"
    "sq_last (sleepqs st' ! i) = last_opt (us @ vs)"
    using i sleep_relD(1) [OF rel] sleep_relD(3) [OF rel i UNIV_I] nxt W(1)
    by (auto simp: st'_def sq_unlink_def Let_def last_opt_append split: option.splits)
  have "sched_on cf UNIV {p} st' Q (W(i := us @ vs))"
    by (rule sched_on_cut [OF inv W(1) same(1) fld(1-4) sq]) simp_all
  moreover have "removeAll p ((W(i := us @ vs)) j) = removeAll p (W j)" for j using W(1) by simp
  ultimately show ?thesis using op same(2) fld by blast
qed

section \<open>Made ready\<close>

text \<open>A process in transition may get another state, other flags and another link.\<close>

lemma sched_on_set:
  assumes inv: "sched_on cf L {p} st Q W" and f: "p_pri (f (procs st p)) = p_pri (procs st p)" "p_clfuncs (f (procs st p)) = p_clfuncs (procs st p)"
    "p_wchan (f (procs st p)) = 0" "p_stat (f (procs st p)) = SONPROC \<longrightarrow> p = curproc st"
  shows "sched_on cf L {p} (set_proc p f st) Q W"
proof -
  note d = sched_onD [OF inv]
  have p: "p \<notin> onq Q" "p_wchan (procs st p) = 0" using d(4,5) [of p] by simp_all
  have "disp_rel (set_proc p f st) Q" by (rule disp_rel_cong [OF d(1)]) (use p in auto)
  moreover have "cls_ok cf (set_proc p f st)" using d(2) f(1,2) by (simp add: cls_ok_def)
  moreover have "sleep_rel L (set_proc p f st) W" by (rule sleep_rel_cong [OF d(3)]) (use p f(3) in auto)
  moreover have "q = curproc st" if "p_stat (procs (set_proc p f st) q) = SONPROC" for q
    using that f(4) d(8) [of q] by (cases "q = p") simp_all
  moreover have "p_clfuncs (procs (set_proc p f st) q) = Ts" if "q \<in> set (ts_plist st)" for q
    using d(9) [OF that] f(2) by (cases "q = p") simp_all
  ultimately show ?thesis using d(6,7) p f(3) unfolding sched_on_def by simp
qed

lemma sched_on_fields [quiet]:
  "sched_on cf L R (st\<lparr>runrun := a\<rparr>) Q W = sched_on cf L R st Q W" "sched_on cf L R (st\<lparr>runout := a\<rparr>) Q W = sched_on cf L R st Q W"
  "sched_on cf L R (st\<lparr>npwakecnt := a\<rparr>) Q W = sched_on cf L R st Q W" "sched_on cf L R (st\<lparr>curpri := a\<rparr>) Q W = sched_on cf L R st Q W"
  by (simp_all add: sched_on_def sleep_rel_def quiet)

text \<open>The state of \<open>p\<close> becomes \<open>SRUN\<close> and it is put on a dispatcher queue.\<close>

context enqueues begin

lemma ready:
  assumes inv: "sched_on cf L {p} st Q W" and run: "p_stat (procs st p) = SRUN" and cl: "p_clfuncs (procs st p) \<in> cl"
  shows "\<exists>st' Q'. enq p st = Some st' \<and> sched_on cf L {} st' Q' W \<and> kept st st' \<and>
           (\<forall>q. p_stat (procs st' q) = p_stat (procs st q) \<and> p_wchan (procs st' q) = p_wchan (procs st q))"
proof -
  have "queued cf Q p st (enq p st)" by (rule enq [OF sched_onD(1,2) [OF inv] _ cl]) (simp add: sched_onD(4) [OF inv])
  from sched_on_queued [OF inv run this] show ?thesis using sframe_kept sframeD(6,7) by blast
qed

end

lemma setrun1_ok:
  assumes inv: "sched_inv cf st Q W"
  shows "\<exists>c st' Q' W'. setrun1 cf p st = Some (c, st') \<and> sched_inv cf st' Q' W' \<and> curproc st' = curproc st \<and>
           (\<forall>q. q \<noteq> p \<longrightarrow> p_stat (procs st' q) = p_stat (procs st q) \<and> p_wchan (procs st' q) = p_wchan (procs st q)) \<and>
           (p_stat (procs st p) \<noteq> SSTOP \<longrightarrow> p_stat (procs st' p) = SRUN) \<and> (\<forall>j. removeAll p (W' j) = removeAll p (W j)) \<and>
           (case c of
              None \<Rightarrow> True
            | Some (Setrun _) \<Rightarrow> 0 < runout st \<and> runout st' = 0
            | Some (Wakeprocs _ _) \<Rightarrow> runout st' = runout st \<and> p_stat (procs st p) = SSTOP)"
proof (cases "p_stat (procs st p) = SRUN")
  case True
  then show ?thesis using inv by (auto simp: setrun1_def)
next
  case False
  let ?s = "p_stat (procs st p)"
  have "\<exists>st1 W1. (if ?s = SSLEEP \<or> ?s = SSTOP then unsleep p st else Some st) = Some st1 \<and> sched_on cf UNIV {p} st1 Q W1 \<and> kept st st1 \<and>
      (\<forall>q. p_stat (procs st1 q) = p_stat (procs st q) \<and> p_wchan (procs st1 q) = (if q = p then 0 else p_wchan (procs st q))) \<and>
      (\<forall>j. removeAll p (W1 j) = removeAll p (W j))"
  proof (cases "?s = SSLEEP \<or> ?s = SSTOP")
    case True
    then show ?thesis using unsleep_ok [OF inv True] by simp
  next
    case other: False
    have w: "p_wchan (procs st p) = 0" using sleep_relD(5) [OF sched_onD(3) [OF inv]] other by blast
    moreover have "p \<notin> onq Q" using sched_onD(6) [OF inv, of p] False by simp
    ultimately have "sched_on cf UNIV {p} st Q W" by (intro sched_on_enter [OF inv])
    then show ?thesis using other w kept_refl by auto
  qed
  then obtain st1 W1 where s1: "(if ?s = SSLEEP \<or> ?s = SSTOP then unsleep p st else Some st) = Some st1" "sched_on cf UNIV {p} st1 Q W1"
      "kept st st1" "\<And>q. p_stat (procs st1 q) = p_stat (procs st q)" "\<And>q. p_wchan (procs st1 q) = (if q = p then 0 else p_wchan (procs st q))"
      "\<forall>j. removeAll p (W1 j) = removeAll p (W j)" by blast
  show ?thesis
  proof (cases "?s = SSTOP \<and> p_flag (procs st1 p) AND (SXSTART OR SPSTART) \<noteq> SXSTART OR SPSTART")
    case True
    then have "setrun1 cf p st = Some (if flag_on (p_flag (procs st1 p)) SPSTART \<and> p_signalled (procs st1 p)
        then Some (Wakeprocs (p_parent (procs st1 p)) True) else None, st1)"
      using s1(1) by (simp add: setrun1_def Let_def)
    moreover have "sched_inv cf st1 Q W1" using sched_on_leave [OF s1(2)] s1(4) True by simp
    ultimately show ?thesis using s1(3-6) True by (auto simp: kept_def)
  next
    case go: False
    define st2 where "st2 = set_proc p (\<lambda>p. p\<lparr>p_stat := SRUN, p_signalled := False\<rparr>) st1"
    have "sched_on cf UNIV {p} st2 Q W1" unfolding st2_def by (rule sched_on_set [OF s1(2)]) (simp_all add: s1(5))
    from cls.ready [OF this _ clfuncs_all] obtain st3 Q3 where s3: "CL_SETRUN p st2 = Some st3" "sched_inv cf st3 Q3 W1" "kept st2 st3"
        "\<And>q. p_stat (procs st3 q) = p_stat (procs st2 q)" "\<And>q. p_wchan (procs st3 q) = p_wchan (procs st2 q)"
      by (auto simp: st2_def)
    have k: "runout st3 = runout st" "curproc st3 = curproc st" using s3(3) s1(3) by (simp_all add: kept_def st2_def)
    have "setrun1 cf p st = Some (if p_flag (procs st3 p) AND SLOAD = 0 then
                       (if runout st3 > 0 then (Some (Setrun (proc_sched cf)), st3\<lparr>runout := 0\<rparr>) else (None, st3))
                     else (None, if p_pri (procs st3 p) > curpri st3 then st3\<lparr>runrun := 1\<rparr> else st3))"
      unfolding setrun1_def Let_def if_not_P [OF False] s1(1) bind.bind_lunit if_not_P [OF go] s3(1) [unfolded st2_def] by (rule refl)
    moreover have "p_stat (procs st3 q) = (if q = p then SRUN else p_stat (procs st q))" "q \<noteq> p \<Longrightarrow> p_wchan (procs st3 q) = p_wchan (procs st q)" for q
      using s3(4,5) [of q] s1(4,5) [of q] by (simp_all add: st2_def)
    moreover have "sched_inv cf (st3\<lparr>runout := 0\<rparr>) Q3 W1" "sched_inv cf (st3\<lparr>runrun := 1\<rparr>) Q3 W1" using s3(2) by (simp_all add: quiet)
    ultimately show ?thesis using s3(2) k s1(6) by auto
  qed
qed

section \<open>Woken\<close>

lemma path_after:
  "path ps f (us @ xs) None \<Longrightarrow>
     (case last_opt us of None \<Rightarrow> f | Some r \<Rightarrow> p_link (ps r)) = (case xs of [] \<Rightarrow> None | x # _ \<Rightarrow> Some x)"
  by (cases us rule: rev_cases) (auto simp: path_append dest: path_hd)

text \<open>Those of \<open>xs\<close> that wait for \<open>chan\<close> have been woken.\<close>

definition woken :: "u32 \<Rightarrow> nat set \<Rightarrow> sched \<Rightarrow> sched \<Rightarrow> bool" where
  "woken chan A st st' \<longleftrightarrow>
     (\<forall>q. p_wchan (procs st' q) = (if q \<in> A \<and> p_wchan (procs st q) = chan then 0 else p_wchan (procs st q)) \<and>
          p_stat (procs st' q) = (if q \<in> A \<and> p_wchan (procs st q) = chan \<and> p_stat (procs st q) = SSLEEP then SRUN else p_stat (procs st q)))"

lemma woken_Cons:
  assumes "woken chan {x} st st1" and "woken chan A st1 st'" and "x \<notin> A"
  shows "woken chan (insert x A) st st'"
  unfolding woken_def
proof (intro allI)
  fix q
  show "p_wchan (procs st' q) = (if q \<in> insert x A \<and> p_wchan (procs st q) = chan then 0 else p_wchan (procs st q)) \<and>
      p_stat (procs st' q) = (if q \<in> insert x A \<and> p_wchan (procs st q) = chan \<and> p_stat (procs st q) = SSLEEP then SRUN else p_stat (procs st q))"
    using assms(1,2) [unfolded woken_def, rule_format, of q] assms(3) by (cases "q = x") simp_all
qed

text \<open>One turn of the loop, when the queue goes on with \<open>x\<close>.\<close>

lemma wake_loop_hit:
  assumes "(case rp of None \<Rightarrow> sq_first (sleepqs st ! i) | Some r \<Rightarrow> p_link (procs st r)) = Some x" and "p_wchan (procs st x) = chan"
    and "st2 = (case rp of
        None \<Rightarrow> set_sq i (\<lambda>sq. sq\<lparr>sq_first := p_link (procs st x)\<rparr>) (set_proc x (\<lambda>q. q\<lparr>p_wchan := 0\<rparr>) st)
      | Some r \<Rightarrow> set_proc r (\<lambda>q. q\<lparr>p_link := p_link (procs st x)\<rparr>) (set_proc x (\<lambda>q. q\<lparr>p_wchan := 0\<rparr>) st))"
    and "st3 = set_proc x (\<lambda>q. q\<lparr>p_stat := SRUN\<rparr>) st2"
  shows "wake_loop i chan prmpt rp rs st =
     (if p_stat (procs st2 x) = SSLEEP then
        do {
          st4 \<leftarrow> CL_WAKEUP x (if prmpt then st3 else st3\<lparr>npwakecnt := npwakecnt st3 + 1\<rparr>);
          if p_flag (procs st4 x) AND SLOAD = 0 then wake_loop i chan prmpt rp (rs \<or> runout st4 > 0) st4
          else wake_loop i chan prmpt rp rs (if p_pri (procs st4 x) > curpri st4 \<and> prmpt then st4\<lparr>runrun := 1\<rparr> else st4)
        }
      else wake_loop i chan prmpt rp rs st2)"
  unfolding assms(3,4) by (subst wake_loop.simps) (simp only: assms(1,2) Let_def option.sel option.distinct if_False if_True simp_thms refl)

lemma wake_step:
  assumes inv: "sched_on cf (UNIV - {i}) {} st Q W" and W: "W i = us @ x # vs" and chan: "p_wchan (procs st x) = chan"
  shows "\<exists>st' Q'. sched_on cf (UNIV - {i}) {} st' Q' (W(i := us @ vs)) \<and> kept st st' \<and> woken chan {x} st st' \<and>
           (\<exists>run. (run \<longrightarrow> runout st > 0) \<and>
              wake_loop i chan prmpt (last_opt us) rs st = wake_loop i chan prmpt (last_opt us) (rs \<or> run) st')"
proof -
  note rel = sched_onD(3) [OF inv]
  have xW: "x \<in> set (W i)" by (simp add: W)
  have i: "i < NSLEEPQ" by (rule sleep_rel_hash [OF rel xW])
  have path: "path (procs st) (sq_first (sleepqs st ! i)) (us @ x # vs) None" using sleep_relD(2) [OF rel i] W by simp
  have nxt: "(case last_opt us of None \<Rightarrow> sq_first (sleepqs st ! i) | Some r \<Rightarrow> p_link (procs st r)) = Some x" using path_after [OF path] by simp
  have l: "last_opt us \<noteq> Some x" using last_optD [of us x] path_distinct [OF path] by auto
  define st2 where "st2 = (case last_opt us of
        None \<Rightarrow> set_sq i (\<lambda>sq. sq\<lparr>sq_first := p_link (procs st x)\<rparr>) (set_proc x (\<lambda>q. q\<lparr>p_wchan := 0\<rparr>) st)
      | Some r \<Rightarrow> set_proc r (\<lambda>q. q\<lparr>p_link := p_link (procs st x)\<rparr>) (set_proc x (\<lambda>q. q\<lparr>p_wchan := 0\<rparr>) st))"
  have same: "same_rest st st2" "kept st st2"
    by (auto simp: st2_def same_rest_def kept_def split: option.splits)
  have fld: "p_link (procs st2 q) = (if Some q = last_opt us then p_link (procs st x) else p_link (procs st q))"
    "p_wchan (procs st2 q) = (if q = x then 0 else p_wchan (procs st q))" "p_stat (procs st2 q) = p_stat (procs st q)"
    "p_flag (procs st2 q) = p_flag (procs st q)" for q
    using l by (auto simp: st2_def split: option.splits)
  have sq: "length (sleepqs st2) = length (sleepqs st)" "\<And>j. j \<noteq> i \<Longrightarrow> sleepqs st2 ! j = sleepqs st ! j"
    "sq_first (sleepqs st2 ! i) = (if us = [] then p_link (procs st x) else sq_first (sleepqs st ! i))"
    using i sleep_relD(1) [OF rel] by (auto simp: st2_def split: option.splits)
  have inv2: "sched_on cf (UNIV - {i}) {x} st2 Q (W(i := us @ vs))"
    by (rule sched_on_cut [OF inv W same(1) fld(1-4) sq]) simp_all
  have w: "p_wchan (procs st x) \<noteq> 0" using xW unfolding sleep_relD(4) [OF rel] by simp
  show ?thesis
  proof (cases "p_stat (procs st x) = SSLEEP")
    case False
    then have "p_stat (procs st x) = SSTOP" using sleep_relD(5) [OF rel w] by simp
    then have "sched_on cf (UNIV - {i}) {} st2 Q (W(i := us @ vs))" using fld(3) by (intro sched_on_leave [OF inv2]) simp_all
    moreover have "woken chan {x} st st2" using fld(2,3) chan False by (simp add: woken_def)
    moreover have "wake_loop i chan prmpt (last_opt us) rs st = wake_loop i chan prmpt (last_opt us) (rs \<or> False) st2"
      unfolding wake_loop_hit [OF nxt chan st2_def refl] fld(3) using False by simp
    ultimately show ?thesis using same(2) by (intro exI [of _ st2] exI [of _ Q] conjI exI [of _ False]) simp_all
  next
    case True
    define st3 where "st3 = set_proc x (\<lambda>q. q\<lparr>p_stat := SRUN\<rparr>) st2"
    define st3' where "st3' = (if prmpt then st3 else st3\<lparr>npwakecnt := npwakecnt st3 + 1\<rparr>)"
    have "sched_on cf (UNIV - {i}) {x} st3 Q (W(i := us @ vs))" unfolding st3_def by (rule sched_on_set [OF inv2]) (simp_all add: fld(2))
    then have inv3: "sched_on cf (UNIV - {i}) {x} st3' Q (W(i := us @ vs))" by (simp add: st3'_def quiet)
    have "p_stat (procs st3' x) = SRUN" by (simp add: st3'_def st3_def)
    from clw.ready [OF inv3 this clfuncs_all] obtain st4 Q4 where s4: "CL_WAKEUP x st3' = Some st4"
        "sched_on cf (UNIV - {i}) {} st4 Q4 (W(i := us @ vs))" "kept st3' st4"
        "\<And>q. p_stat (procs st4 q) = p_stat (procs st3' q)" "\<And>q. p_wchan (procs st4 q) = p_wchan (procs st3' q)" by blast
    define st5 where "st5 = (if p_flag (procs st4 x) AND SLOAD \<noteq> 0 \<and> p_pri (procs st4 x) > curpri st4 \<and> prmpt then st4\<lparr>runrun := 1\<rparr> else st4)"
    have p3: "p_stat (procs st3' q) = (if q = x then SRUN else p_stat (procs st2 q))" "p_wchan (procs st3' q) = p_wchan (procs st2 q)" for q
      by (simp_all add: st3'_def st3_def)
    have k: "kept st st4" using same(2) s4(3) by (simp add: kept_def st3'_def st3_def)
    then have r: "runout st4 = runout st" by (simp add: kept_def)
    define run where "run \<longleftrightarrow> p_flag (procs st4 x) AND SLOAD = 0 \<and> runout st > 0"
    have "wake_loop i chan prmpt (last_opt us) rs st = wake_loop i chan prmpt (last_opt us) (rs \<or> run) st5"
      unfolding wake_loop_hit [OF nxt chan st2_def st3_def] st3'_def [symmetric] s4(1) fld(3) using True by (simp add: run_def st5_def r)
    moreover have "sched_on cf (UNIV - {i}) {} st5 Q4 (W(i := us @ vs))" using s4(2) by (simp add: st5_def quiet)
    moreover have "kept st st5" using k by (simp add: st5_def kept_def)
    moreover have "woken chan {x} st st5"
      unfolding woken_def using s4(4,5) p3 fld(2,3) True chan by (simp add: st5_def)
    ultimately show ?thesis by (intro exI [of _ st5] exI [of _ Q4] conjI exI [of _ run]) (simp_all add: run_def)
  qed
qed

lemma wake_loop_ok:
  "\<lbrakk>sched_on cf (UNIV - {i}) {} st Q W; W i = us @ xs; \<forall>u \<in> set us. p_wchan (procs st u) \<noteq> chan; i < NSLEEPQ\<rbrakk> \<Longrightarrow>
     \<exists>st' Q' rs'.
       wake_loop i chan prmpt (last_opt us) rs st = Some (last_opt (us @ filter (\<lambda>p. p_wchan (procs st p) \<noteq> chan) xs), rs', st') \<and> (rs' \<longrightarrow> rs \<or> runout st > 0) \<and>
       sched_on cf (UNIV - {i}) {} st' Q' (W(i := us @ filter (\<lambda>p. p_wchan (procs st p) \<noteq> chan) xs)) \<and> kept st st' \<and> woken chan (set xs) st st'"
proof (induction xs arbitrary: us st Q W rs)
  case Nil
  have "path (procs st) (sq_first (sleepqs st ! i)) (us @ []) None" using sleep_relD(2) [OF sched_onD(3) [OF Nil(1)] Nil(4)] Nil(2) by simp
  from path_after [OF this] have "wake_loop i chan prmpt (last_opt us) rs st = Some (last_opt us, rs, st)" by (subst wake_loop.simps) simp
  moreover have "W(i := us) = W" using fun_upd_triv [of W i] Nil(2) by simp
  ultimately show ?case
    unfolding filter.simps(1) append_Nil2 using Nil(1) kept_refl [of st]
    by (intro exI [of _ st] exI [of _ Q] exI [of _ rs] conjI) (simp_all add: woken_def)
next
  case (Cons x vs)
  have path: "path (procs st) (sq_first (sleepqs st ! i)) (us @ x # vs) None"
    using sleep_relD(2) [OF sched_onD(3) [OF Cons.prems(1)] Cons.prems(4)] Cons.prems(2) by simp
  note d = path_distinct [OF path]
  show ?case
  proof (cases "p_wchan (procs st x) = chan")
    case False
    have eq: "wake_loop i chan prmpt (last_opt us) rs st = wake_loop i chan prmpt (last_opt (us @ [x])) rs st"
      using False path_after [OF path] by (subst wake_loop.simps) simp
    have "W i = (us @ [x]) @ vs" "\<forall>u \<in> set (us @ [x]). p_wchan (procs st u) \<noteq> chan" using Cons.prems(2,3) False by simp_all
    from Cons.IH [OF Cons.prems(1) this Cons.prems(4), of rs, folded eq]
    have IH: "\<exists>st' Q' rs'.
       wake_loop i chan prmpt (last_opt us) rs st = Some (last_opt (us @ x # filter (\<lambda>p. p_wchan (procs st p) \<noteq> chan) vs), rs', st') \<and> (rs' \<longrightarrow> rs \<or> runout st > 0) \<and>
       sched_on cf (UNIV - {i}) {} st' Q' (W(i := us @ x # filter (\<lambda>p. p_wchan (procs st p) \<noteq> chan) vs)) \<and> kept st st' \<and> woken chan (set vs) st st'"
      by (simp only: append_assoc append_Cons append_Nil)
    have "woken chan (set (x # vs)) st st' = woken chan (set vs) st st'" for st' unfolding woken_def using False by (intro arg_cong [where f = All] ext) auto
    with IH show ?thesis using False by (simp only: filter.simps simp_thms if_True)
  next
    case True
    from wake_step [OF Cons.prems(1,2) True, of prmpt rs] obtain st1 Q1 run where s1: "sched_on cf (UNIV - {i}) {} st1 Q1 (W(i := us @ vs))"
        "kept st st1" "woken chan {x} st st1" "run \<longrightarrow> runout st > 0"
        "wake_loop i chan prmpt (last_opt us) rs st = wake_loop i chan prmpt (last_opt us) (rs \<or> run) st1" by blast
    have w: "p_wchan (procs st1 q) = p_wchan (procs st q)" if "q \<noteq> x" for q using s1(3) that by (simp add: woken_def)
    have "\<forall>u \<in> set us. p_wchan (procs st1 u) \<noteq> chan" using Cons.prems(3) w d by (metis disjoint_iff distinct_append list.set_intros(1))
    from Cons.IH [OF s1(1) fun_upd_same this Cons.prems(4), of "rs \<or> run", unfolded fun_upd_upd]
    obtain st' Q' rs' where s':
      "wake_loop i chan prmpt (last_opt us) (rs \<or> run) st1 = Some (last_opt (us @ filter (\<lambda>p. p_wchan (procs st1 p) \<noteq> chan) vs), rs', st') \<and> (rs' \<longrightarrow> (rs \<or> run) \<or> runout st1 > 0) \<and>
       sched_on cf (UNIV - {i}) {} st' Q' (W(i := us @ filter (\<lambda>p. p_wchan (procs st1 p) \<noteq> chan) vs)) \<and> kept st1 st' \<and> woken chan (set vs) st1 st'" by blast
    have "filter (\<lambda>p. p_wchan (procs st1 p) \<noteq> chan) vs = filter (\<lambda>p. p_wchan (procs st p) \<noteq> chan) (x # vs)"
    proof -
      have "p_wchan (procs st1 p) = p_wchan (procs st p)" if "p \<in> set vs" for p using that d by (intro w) auto
      then show ?thesis using True by (simp cong: filter_cong)
    qed
    note s'' = s' [unfolded this]
    have "woken chan (set (x # vs)) st st'" using woken_Cons [OF s1(3), of "set vs" st'] s'' d by (simp add: Let_def)
    moreover have "kept st st'" using kept_trans [OF s1(2)] s'' by simp
    moreover have "runout st1 = runout st" using s1(2) by (simp add: kept_def)
    moreover have "rs' \<longrightarrow> (rs \<or> run) \<or> runout st1 > 0" using s'' by blast
    ultimately have "rs' \<longrightarrow> rs \<or> runout st > 0" "kept st st'" "woken chan (set (x # vs)) st st'" using s1(4) by auto
    then show ?thesis unfolding s1(5) using s'' by blast
  qed
qed

end
