(* ===== verification/Sched_Wake.thy ===== *)
theory Sched_Wake
  imports Slp_Inv
begin

text \<open>
  Waking as a whole: \<^verbatim>\<open>wakeprocs\<close> wakes the sleepers of a channel and no others, and the calls \<^verbatim>\<open>setrun\<close> and \<^verbatim>\<open>wakeprocs\<close> make of
  each other come to an end.
\<close>

lemma sched_on_mono: "\<lbrakk>sched_on cf L R st Q W; L' \<subseteq> L\<rbrakk> \<Longrightarrow> sched_on cf L' R st Q W"
  unfolding sched_on_def sleep_rel_def by blast

text \<open>The pointer to the last process, set at the end of the loop.\<close>

lemma sched_on_last:
  assumes inv: "sched_on cf (UNIV - {i}) {} st Q W" and i: "i < NSLEEPQ"
  shows "sched_inv cf (set_sq i (\<lambda>sq. sq\<lparr>sq_last := last_opt (W i)\<rparr>) st) Q W"
proof -
  let ?st = "set_sq i (\<lambda>sq. sq\<lparr>sq_last := last_opt (W i)\<rparr>) st"
  note d = sched_onD [OF inv] and r = sleep_relD [OF sched_onD(3) [OF inv]]
  have rest: "same_rest st ?st" by (simp add: same_rest_def)
  have "disp_rel ?st Q" by (rule same_rest_disp [OF rest d(1)]) simp
  moreover have "cls_ok cf ?st" by (rule same_rest_cls_ok [OF rest d(2)])
  moreover have "sleep_rel UNIV ?st W"
    unfolding sleep_rel_def
  proof (intro conjI allI impI)
    fix j assume j: "j < NSLEEPQ"
    show "path (procs ?st) (sq_first (sleepqs ?st ! j)) (W j) None" using r(2) [OF j] r(1) i by (cases "j = i") simp_all
    show "sq_last (sleepqs ?st ! j) = last_opt (W j)" using r(3) [OF j] r(1) i by (cases "j = i") simp_all
  next
    show "p \<in> set (W j) \<longleftrightarrow> p_wchan (procs ?st p) \<noteq> 0 \<and> sqhash (p_wchan (procs ?st p)) = j" for j p using r(4) by simp
    show "p_stat (procs ?st p) = SSLEEP \<or> p_stat (procs ?st p) = SSTOP" if "p_wchan (procs ?st p) \<noteq> 0" for p using r(5) [of p] that by simp
  qed (simp add: r(1))
  ultimately show ?thesis using d(6-9) unfolding sched_on_def by simp
qed

lemma woken_UNIV:
  assumes inv: "sched_inv cf st Q W" and w: "woken chan (set (W (sqhash chan))) st st'"
  shows "woken chan UNIV st st'"
  unfolding woken_def
proof (intro allI)
  fix q
  note w' = w [unfolded woken_def, rule_format, of q]
  show "p_wchan (procs st' q) = (if q \<in> UNIV \<and> p_wchan (procs st q) = chan then 0 else p_wchan (procs st q)) \<and>
      p_stat (procs st' q) = (if q \<in> UNIV \<and> p_wchan (procs st q) = chan \<and> p_stat (procs st q) = SSLEEP then SRUN else p_stat (procs st q))"
  proof (cases "q \<in> set (W (sqhash chan))")
    case True
    then show ?thesis using w' by simp
  next
    case False
    then have "p_wchan (procs st q) = chan \<longrightarrow> chan = 0" using sleep_relD(4) [OF sched_onD(3) [OF inv], of q "sqhash chan"] by auto
    moreover have "p_wchan (procs st q) = 0 \<longrightarrow> p_stat (procs st q) \<noteq> SSLEEP" using sched_onD(7) [OF inv, of q] by auto
    ultimately show ?thesis using w' False by auto
  qed
qed

lemma wakeprocs1_ok:
  assumes inv: "sched_inv cf st Q W"
  shows "\<exists>c st' Q'. wakeprocs1 cf chan prmpt st = Some (c, st') \<and>
           sched_inv cf st' Q' (W(sqhash chan := filter (\<lambda>p. p_wchan (procs st p) \<noteq> chan) (W (sqhash chan)))) \<and>
           curproc st' = curproc st \<and> woken chan UNIV st st' \<and>
           (c = None \<and> runout st' = runout st \<or> c = Some (Setrun (proc_sched cf)) \<and> 0 < runout st \<and> runout st' = 0)"
proof -
  define i where "i = sqhash chan"
  have i: "i < NSLEEPQ" unfolding i_def by (rule sqhash_less)
  define ys where "ys = filter (\<lambda>p. p_wchan (procs st p) \<noteq> chan) (W i)"
  have "sched_on cf (UNIV - {i}) {} st Q W" by (rule sched_on_mono [OF inv]) simp
  from wake_loop_ok [OF this _ _ i, of "[]" "W i" chan prmpt False, folded ys_def]
  obtain st1 Q1 rs where s1: "wake_loop i chan prmpt None False st = Some (last_opt ys, rs, st1)" "rs \<longrightarrow> runout st > 0"
      "sched_on cf (UNIV - {i}) {} st1 Q1 (W(i := ys))" "kept st st1" "woken chan (set (W i)) st st1" by auto
  define st2 where "st2 = set_sq i (\<lambda>sq. sq\<lparr>sq_last := last_opt ys\<rparr>) st1"
  have s2: "sched_inv cf st2 Q1 (W(i := ys))" using sched_on_last [OF s1(3) i] by (simp add: st2_def)
  have k: "curproc st2 = curproc st" "runout st2 = runout st" using s1(4) by (simp_all add: kept_def st2_def)
  have "woken chan UNIV st st1" using woken_UNIV [OF inv] s1(5) by (simp add: i_def)
  then have w: "woken chan UNIV st st2" "woken chan UNIV st (st2\<lparr>runout := 0\<rparr>)" by (simp_all add: woken_def st2_def)
  have op: "wakeprocs1 cf chan prmpt st = Some (if rs then (Some (Setrun (proc_sched cf)), st2\<lparr>runout := 0\<rparr>) else (None, st2))"
    using s1(1) i sleep_relD(1) [OF sched_onD(3) [OF inv]] by (simp add: wakeprocs1_def i_def [symmetric] array_nat_def st2_def)
  have "sched_inv cf (st2\<lparr>runout := 0\<rparr>) Q1 (W(i := ys))" using s2 by (simp add: quiet)
  then show ?thesis unfolding i_def [symmetric] ys_def [symmetric] op using s2 k w s1(2) by (cases rs) auto
qed

section \<open>The chain of calls ends\<close>

definition call_measure :: "slpcall \<Rightarrow> sched \<Rightarrow> nat" where
  "call_measure c st = (if 0 < runout st then 2 else 0) + (case c of Setrun _ \<Rightarrow> 1 | Wakeprocs _ _ \<Rightarrow> 0)"

lemma run_call1_ok:
  assumes "sched_inv cf st Q W"
  shows "\<exists>c' st' Q' W'. run_call1 cf c st = Some (c', st') \<and> sched_inv cf st' Q' W' \<and> curproc st' = curproc st \<and>
           (\<forall>d. c' = Some d \<longrightarrow> call_measure d st' < call_measure c st)"
proof (cases c)
  case (Setrun p)
  from setrun1_ok [OF assms, of p] obtain c' st' Q' W' where s: "setrun1 cf p st = Some (c', st')" "sched_inv cf st' Q' W'"
      "curproc st' = curproc st" "case c' of None \<Rightarrow> True | Some (Setrun _) \<Rightarrow> 0 < runout st \<and> runout st' = 0
            | Some (Wakeprocs _ _) \<Rightarrow> runout st' = runout st \<and> p_stat (procs st p) = SSTOP" by blast
  have "call_measure d st' < call_measure c st" if "c' = Some d" for d
    using s(4) Setrun that by (cases d) (simp_all add: call_measure_def)
  with s show ?thesis by (auto simp: run_call1_def Setrun)
next
  case (Wakeprocs chan prmpt)
  from wakeprocs1_ok [OF assms, of chan prmpt] obtain c' st' Q' where s: "wakeprocs1 cf chan prmpt st = Some (c', st')"
      "sched_inv cf st' Q' (W(sqhash chan := filter (\<lambda>p. p_wchan (procs st p) \<noteq> chan) (W (sqhash chan))))" "curproc st' = curproc st"
      "c' = None \<and> runout st' = runout st \<or> c' = Some (Setrun (proc_sched cf)) \<and> 0 < runout st \<and> runout st' = 0" by blast
  have "\<forall>d. c' = Some d \<longrightarrow> call_measure d st' < call_measure c st" using s(4) Wakeprocs by (auto simp: call_measure_def)
  moreover have "run_call1 cf c st = Some (c', st')" using s(1) by (simp add: run_call1_def Wakeprocs)
  ultimately show ?thesis using s(2,3) by blast
qed

lemma run_call_ok:
  "sched_inv cf st Q W \<Longrightarrow> \<exists>st' Q' W'. run_call cf c st = Some st' \<and> sched_inv cf st' Q' W' \<and> curproc st' = curproc st"
proof (induction "call_measure c st" arbitrary: c st Q W rule: less_induct)
  case less
  from run_call1_ok [OF less.prems, of c] obtain c' st' Q' W' where s: "run_call1 cf c st = Some (c', st')" "sched_inv cf st' Q' W'"
      "curproc st' = curproc st" "\<forall>d. c' = Some d \<longrightarrow> call_measure d st' < call_measure c st" by blast
  have eq: "run_call cf c st = (case c' of None \<Rightarrow> Some st' | Some d \<Rightarrow> run_call cf d st')" by (subst run_call.simps) (simp add: s(1))
  show ?case
  proof (cases c')
    case None
    then show ?thesis using eq s(2,3) by auto
  next
    case (Some d)
    then have "call_measure d st' < call_measure c st" using s(4) by simp
    from less.hyps [OF this s(2)] show ?thesis using eq Some s(3) by simp
  qed
qed

lemma setrun_ok: "sched_inv cf st Q W \<Longrightarrow> \<exists>st' Q' W'. setrun cf p st = Some st' \<and> sched_inv cf st' Q' W' \<and> curproc st' = curproc st"
  unfolding setrun_def by (rule run_call_ok)

lemma wakeprocs_ok: "sched_inv cf st Q W \<Longrightarrow> \<exists>st' Q' W'. wakeprocs cf chan prmpt st = Some st' \<and> sched_inv cf st' Q' W' \<and> curproc st' = curproc st"
  unfolding wakeprocs_def by (rule run_call_ok)

text \<open>
  All sleepers of the channel are ready after \<^verbatim>\<open>wakeprocs\<close>, the sleep queues hold exactly the others, and but for the swapper no other
  process has changed its state.
\<close>

lemma filter_other_hash:
  assumes "sched_inv cf st Q W" and "i \<noteq> sqhash chan"
  shows "filter (\<lambda>p. p_wchan (procs st p) \<noteq> chan) (W i) = W i"
  using sleep_relD(4) [OF sched_onD(3) [OF assms(1)], of _ i] assms(2) by (auto simp: filter_id_conv)

lemma wakeprocs_woken:
  assumes inv: "sched_inv cf st Q W" and swapper: "p_stat (procs st (proc_sched cf)) \<noteq> SSTOP"
  shows "\<exists>st' Q' W'. wakeprocs cf chan prmpt st = Some st' \<and> sched_inv cf st' Q' W' \<and>
           (\<forall>p. p_stat (procs st p) = SSLEEP \<and> p_wchan (procs st p) = chan \<longrightarrow> p_stat (procs st' p) = SRUN) \<and>
           (\<forall>i. removeAll (proc_sched cf) (W' i) = removeAll (proc_sched cf) (filter (\<lambda>p. p_wchan (procs st p) \<noteq> chan) (W i))) \<and>
           (\<forall>p. p \<noteq> proc_sched cf \<longrightarrow>
              p_wchan (procs st' p) = (if p_wchan (procs st p) = chan then 0 else p_wchan (procs st p)) \<and>
              p_stat (procs st' p) = (if p_wchan (procs st p) = chan \<and> p_stat (procs st p) = SSLEEP then SRUN else p_stat (procs st p)))"
proof -
  let ?W = "W(sqhash chan := filter (\<lambda>p. p_wchan (procs st p) \<noteq> chan) (W (sqhash chan)))"
  have W: "?W i = filter (\<lambda>p. p_wchan (procs st p) \<noteq> chan) (W i)" for i
    using filter_other_hash [OF inv, of i chan] by simp
  from wakeprocs1_ok [OF inv, of chan prmpt] obtain c st1 Q1 where s1: "wakeprocs1 cf chan prmpt st = Some (c, st1)" "sched_inv cf st1 Q1 ?W"
      "woken chan UNIV st st1" "c = None \<or> c = Some (Setrun (proc_sched cf)) \<and> runout st1 = 0" by blast
  have op: "wakeprocs cf chan prmpt st = (case c of None \<Rightarrow> Some st1 | Some d \<Rightarrow> run_call cf d st1)"
    unfolding wakeprocs_def by (subst run_call.simps) (simp add: run_call1_def s1(1))
  note w = s1(3) [unfolded woken_def, simplified]
  show ?thesis
  proof (cases c)
    case None
    then have "wakeprocs cf chan prmpt st = Some st1" using op by simp
    moreover have "\<forall>i. removeAll (proc_sched cf) (?W i) = removeAll (proc_sched cf) (filter (\<lambda>p. p_wchan (procs st p) \<noteq> chan) (W i))"
      unfolding W by simp
    ultimately show ?thesis using s1(2) w by (intro exI [of _ st1] exI [of _ Q1] exI [of _ ?W] conjI) (assumption | simp)+
  next
    case (Some d)
    let ?p = "proc_sched cf"
    have d: "d = Setrun ?p" "runout st1 = 0" using Some s1(4) by simp_all
    have "p_stat (procs st1 ?p) \<noteq> SSTOP" using w [rule_format, of ?p] swapper by auto
    with setrun1_ok [OF s1(2), of ?p] obtain c' st2 Q2 W2 where s2: "setrun1 cf ?p st1 = Some (c', st2)" "sched_inv cf st2 Q2 W2"
        "\<forall>q. q \<noteq> ?p \<longrightarrow> p_stat (procs st2 q) = p_stat (procs st1 q) \<and> p_wchan (procs st2 q) = p_wchan (procs st1 q)"
        "p_stat (procs st2 ?p) = SRUN" "case c' of None \<Rightarrow> True | Some (Setrun _) \<Rightarrow> 0 < runout st1 \<and> runout st2 = 0
            | Some (Wakeprocs _ _) \<Rightarrow> runout st2 = runout st1 \<and> p_stat (procs st1 ?p) = SSTOP"
        "\<forall>j. removeAll ?p (W2 j) = removeAll ?p (?W j)" by blast
    have "c' = None" using s2(5) d(2) \<open>p_stat (procs st1 ?p) \<noteq> SSTOP\<close> by (auto split: option.splits slpcall.splits)
    then have "run_call cf d st1 = Some st2" by (subst run_call.simps) (simp add: run_call1_def d(1) s2(1))
    then have op2: "wakeprocs cf chan prmpt st = Some st2" using op Some by simp
    have "p_stat (procs st2 p) = SRUN" if "p_stat (procs st p) = SSLEEP \<and> p_wchan (procs st p) = chan" for p
      using s2(3,4) w that by (cases "p = ?p") simp_all
    moreover have "\<forall>i. removeAll ?p (W2 i) = removeAll ?p (filter (\<lambda>p. p_wchan (procs st p) \<noteq> chan) (W i))"
      using s2(6) unfolding W .
    ultimately show ?thesis using op2 s2(2,3) w by (intro exI [of _ st2] exI [of _ Q2] exI [of _ W2] conjI) (assumption | simp)+
  qed
qed

end
