(* ===== verification/Sched_Step.thy ===== *)
theory Sched_Step
  imports Sched_Wake
begin

text \<open>
  Scheduling as a machine: the steps the kernel makes between two interrupts, with the conditions under which it makes them. The
  invariant holds in every state the machine reaches, and no step faults.
\<close>

section \<open>Going to sleep\<close>

lemma sched_on_flag:
  assumes inv: "sched_inv cf st Q W" and off: "p \<notin> onq Q"
  shows "sched_inv cf (set_proc p (\<lambda>q. q\<lparr>p_flag := p_flag q OR f\<rparr>) st) Q W"
proof -
  let ?st = "set_proc p (\<lambda>q. q\<lparr>p_flag := p_flag q OR f\<rparr>) st"
  note d = sched_onD [OF inv]
  have rest: "same_rest st ?st" by (simp add: same_rest_def)
  have "disp_rel ?st Q" by (rule same_rest_disp [OF rest d(1)]) (use off in auto)
  moreover have "cls_ok cf ?st" by (rule same_rest_cls_ok [OF rest d(2)])
  moreover have "sleep_rel UNIV ?st W" by (rule sleep_rel_cong [OF d(3)]) simp_all
  ultimately show ?thesis using d(6-9) unfolding sched_on_def by simp
qed

lemma sleep_enq_ok:
  assumes inv: "sched_inv cf st Q W" and on: "p_stat (procs st p) = SONPROC" and chan: "chan \<noteq> 0"
  shows "\<exists>st'. sleep_enq p chan st = Some st' \<and> sched_inv cf st' Q (W(sqhash chan := W (sqhash chan) @ [p])) \<and>
           (\<forall>q. p_stat (procs st' q) = (if q = p then SSLEEP else p_stat (procs st q)) \<and>
                p_wchan (procs st' q) = (if q = p then chan else p_wchan (procs st q))) \<and> curproc st' = curproc st"
proof -
  note d = sched_onD [OF inv] and r = sleep_relD [OF sched_onD(3) [OF inv]]
  define i where "i = sqhash chan"
  have i: "i < NSLEEPQ" unfolding i_def by (rule sqhash_less)
  have w: "p_wchan (procs st p) = 0" using r(5) [of p] on by auto
  have off: "p \<notin> onq Q" "p \<notin> set (W j)" for j using d(6) [of p] on w r(4) [of p j] by auto
  have lq: "linkq (procs st) (sq_first (sleepqs st ! i)) (sq_last (sleepqs st ! i)) (W i)" using r(2,3) [OF i] by (simp add: linkq_def)
  note e = linkq_empty [OF lq]
  have l: "l \<in> set (W i)" if "sq_last (sleepqs st ! i) = Some l" for l
    using that r(3) [OF i UNIV_I] last_optD [of "W i" l] by auto
  define st1 where "st1 = set_proc p (\<lambda>p. p\<lparr>p_stat := SSLEEP, p_wchan := chan\<rparr>) st"
  define st2 where "st2 = (case sq_last (sleepqs st ! i) of
      None \<Rightarrow> set_sq i (\<lambda>sq. sq\<lparr>sq_first := Some p, sq_last := Some p\<rparr>) st1
    | Some l \<Rightarrow> set_sq i (\<lambda>sq. sq\<lparr>sq_last := Some p\<rparr>) (set_proc l (\<lambda>q. q\<lparr>p_link := Some p\<rparr>) st1))"
  define st' where "st' = set_proc p (\<lambda>p. p\<lparr>p_link := None\<rparr>) st2"
  have op: "sleep_enq p chan st = Some st'"
  proof -
    have "sleepqs st1 = sleepqs st" by (simp add: st1_def)
    moreover have "array_nat (sleepqs st) (int i) = Some i" using i r(1) by (simp add: array_nat_def)
    ultimately show ?thesis
      unfolding sleep_enq_def Let_def st1_def [symmetric] i_def [symmetric] using e
      by (cases "sq_last (sleepqs st ! i)") (auto simp: st'_def st2_def)
  qed
  have rest: "same_rest st st'" by (auto simp: st'_def st2_def st1_def same_rest_def split: option.splits)
  have fld: "p_stat (procs st' q) = (if q = p then SSLEEP else p_stat (procs st q))"
    "p_wchan (procs st' q) = (if q = p then chan else p_wchan (procs st q))" "p_flag (procs st' q) = p_flag (procs st q)"
    "p_link (procs st' q) = (if q = p then None else if Some q = sq_last (sleepqs st ! i) then Some p else p_link (procs st q))" for q
    using l off(2) [of i] by (auto simp: st'_def st2_def st1_def split: option.splits)
  have sq: "length (sleepqs st') = length (sleepqs st)" "j \<noteq> i \<Longrightarrow> sleepqs st' ! j = sleepqs st ! j"
    "sq_first (sleepqs st' ! i) = (if sq_last (sleepqs st ! i) = None then Some p else sq_first (sleepqs st ! i))"
    "sq_last (sleepqs st' ! i) = Some p" for j
    using i r(1) by (auto simp: st'_def st2_def st1_def split: option.splits)
  have keep: "p_link (procs st' q) = p_link (procs st q)" if "q \<notin> set (W i)" "q \<noteq> p" for q using fld(4) [of q] l that by auto
  have "disp_rel st' Q"
  proof (rule same_rest_disp [OF rest d(1)], intro conjI)
    fix q assume q: "q \<in> onq Q"
    then have "q \<notin> set (W i)" "q \<noteq> p" using onq_no_wchan [OF inv q] r(4) [of q i] off(1) by auto
    then show "p_link (procs st' q) = p_link (procs st q)" by (rule keep)
    show "p_flag (procs st' q) = p_flag (procs st q)" by (rule fld(3))
  qed
  moreover have "cls_ok cf st'" by (rule same_rest_cls_ok [OF rest d(2)])
  moreover have "sleep_rel UNIV st' (W(i := W i @ [p]))"
    unfolding sleep_rel_def
  proof (intro conjI allI impI)
    show "length (sleepqs st') = NSLEEPQ" using sq(1) r(1) by simp
    fix j assume j: "j < NSLEEPQ"
    show "path (procs st') (sq_first (sleepqs st' ! j)) ((W(i := W i @ [p])) j) None"
    proof (cases "j = i")
      case True
      have "linkq (procs st') (sq_first (sleepqs st' ! i)) (Some p) (W i @ [p])"
        unfolding sq(3) using off(2) [of i] fld(4) by (intro linkq_append [OF lq]) auto
      then show ?thesis using True by (simp add: linkq_def)
    next
      case False
      have "q \<notin> set (W i) \<and> q \<noteq> p" if "q \<in> set (W j)" for q using that False r(4) [of q j] r(4) [of q i] off(2) [of j] by auto
      then have "\<forall>q \<in> set (W j). p_link (procs st' q) = p_link (procs st q)" using keep by blast
      then show ?thesis using r(2) [OF j] path_cong [of "W j" "procs st'" "procs st"] sq(2) [OF False] False by simp
    qed
    show "sq_last (sleepqs st' ! j) = last_opt ((W(i := W i @ [p])) j)" using sq(2,4) r(3) [OF j UNIV_I] by (cases "j = i") simp_all
  next
    fix j q
    show "q \<in> set ((W(i := W i @ [p])) j) \<longleftrightarrow> p_wchan (procs st' q) \<noteq> 0 \<and> sqhash (p_wchan (procs st' q)) = j"
      unfolding fld(2) using r(4) [of q j] off(2) [of j] chan by (cases "q = p"; cases "j = i") (simp_all add: i_def [symmetric])
  next
    fix q assume "p_wchan (procs st' q) \<noteq> 0"
    then show "p_stat (procs st' q) = SSLEEP \<or> p_stat (procs st' q) = SSTOP"
      unfolding fld(1,2) using r(5) [of q] by (cases "q = p") simp_all
  qed
  moreover have "(p_stat (procs st' q) = SRUN \<longleftrightarrow> q \<in> onq Q) \<and> (p_stat (procs st' q) = SSLEEP \<longrightarrow> p_wchan (procs st' q) \<noteq> 0)" for q
    unfolding fld(1,2) using d(6,7) [of q] off(1) chan by (cases "q = p") simp_all
  moreover have "q = curproc st'" if "p_stat (procs st' q) = SONPROC" for q
    using that d(8) [of q] rest unfolding fld(1) by (simp add: same_rest_def split: if_splits)
  moreover have "p_clfuncs (procs st' q) = Ts" if "q \<in> set (ts_plist st')" for q
    using that d(9) rest by (simp add: same_rest_def)
  ultimately have "sched_inv cf st' Q (W(i := W i @ [p]))" unfolding sched_on_def by simp
  then show ?thesis using op fld(1,2) rest unfolding i_def by (auto simp: same_rest_def)
qed

lemma sleep_nosig_ok:
  assumes inv: "sched_inv cf st Q W" and on: "p_stat (procs st p) = SONPROC" and chan: "chan \<noteq> 0" and disp: "disp_ok cf disp"
  shows "\<exists>st' Q'. sleep_nosig cf p chan disp st = Some st' \<and> sched_inv cf st' Q' (W(sqhash chan := W (sqhash chan) @ [p])) \<and>
           p_stat (procs st' p) = SSLEEP \<and> p_wchan (procs st' p) = chan \<and> curproc st' = curproc st"
proof -
  obtain st1 where s1: "sleep_enq p chan st = Some st1" "sched_inv cf st1 Q (W(sqhash chan := W (sqhash chan) @ [p]))"
      "p_stat (procs st1 p) = SSLEEP" "p_wchan (procs st1 p) = chan" "curproc st1 = curproc st"
    using sleep_enq_ok [OF inv on chan] by auto
  have off: "p \<notin> onq Q" using sched_onD(6) [OF s1(2), of p] s1(3) by simp
  define st2 where "st2 = set_proc p (\<lambda>q. q\<lparr>p_flag := p_flag q OR SNWAKE\<rparr>) st1"
  have s2: "sched_inv cf st2 Q (W(sqhash chan := W (sqhash chan) @ [p]))" unfolding st2_def by (rule sched_on_flag [OF s1(2) off])
  from sched_on_moved [OF s2 CL_SLEEP_ok [OF sched_onD(1,2) [OF s2] off disp]] obtain st3 Q3 where
    s3: "CL_SLEEP cf p disp st2 = Some st3" "sched_inv cf st3 Q3 (W(sqhash chan := W (sqhash chan) @ [p]))" "sframe (onq Q) st2 st3" by blast
  have "sleep_nosig cf p chan disp st = Some st3" using s1(1) s3(1) by (simp add: sleep_nosig_def st2_def)
  then show ?thesis using s3(2) sframeD(3,6,7) [OF s3(3)] s1(3-5) by (auto simp: st2_def)
qed

section \<open>The switch\<close>

lemma pswtch_pick_inv:
  assumes inv: "sched_inv cf st Q W" and some: "maxrunpri st \<noteq> -1" and cur: "p_stat (procs st (curproc st)) \<noteq> SONPROC"
  shows "\<exists>st' Q'. pswtch_pick st = Some st' \<and> sched_inv cf st' Q' W \<and> p_stat (procs st' (curproc st')) = SONPROC"
proof -
  note d = sched_onD [OF inv]
  define s0 where "s0 = st\<lparr>runrun := 0, kprunrun := 0, npwakecnt := 0\<rparr>"
  from pswtch_pick_ok [OF d(1) some] obtain i us p vs st' st1 where s: "pswtch_pick st = Some st'" "i < length (dispqs st)" "Q i = us @ p # vs"
      "disp_rel st1 (Q(i := us @ vs))" "disp_frame (set (Q i)) s0 st1"
      "st' = (set_proc p (\<lambda>q. q\<lparr>p_stat := SONPROC\<rparr>) st1)\<lparr>curpri := p_pri (procs st p), curproc := p\<rparr>"
    unfolding s0_def by blast
  have q: "queues_ok st Q" using disp_relD [OF d(1)] by simp
  have dist: "distinct (Q i)" by (rule linkq_distinct [OF queues_okD(1) [OF q s(2)]])
  have pr: "p_pri (procs st p) = int i" using queues_okD(3) [OF q, of p i] s(3) by simp
  have rm: "us @ vs = remove1 p (Q i)" using dist s(3) by (simp add: remove1_append)
  have onq': "onq (Q(i := us @ vs)) = onq Q - {p}" unfolding rm by (rule onq_remove [OF q pr dist])
  have "p \<in> set (Q i)" using s(3) by simp
  then have p: "p \<in> onq Q" unfolding onq_iff by blast
  have fr: "sframe (onq Q) st st1"
  proof -
    have "sframe (set (Q i)) s0 st1" by (rule disp_sframe [OF s(5)])
    moreover have "set (Q i) \<subseteq> onq Q" by (auto simp: onq_iff)
    moreover have "sframe (onq Q) st s0" by (simp add: s0_def sframe_def)
    ultimately show ?thesis by (metis sframe_trans)
  qed
  note f = sframeD [OF fr]
  have "cls_ok cf s0" using d(2) by (simp add: s0_def cls_ok_def)
  then have "cls_ok cf st1" by (rule disp_cls_ok [OF _ s(5)])
  then have "cls_ok cf st'" unfolding s(6) by (simp add: cls_ok_def)
  moreover have "disp_rel st' (Q(i := us @ vs))"
    unfolding s(6) quiet by (rule disp_rel_stat [OF s(4)])
  moreover have "sleep_rel UNIV st1 W" by (rule sleep_rel_sframe [OF d(3) fr]) (use onq_no_wchan [OF inv] in blast)
  then have "sleep_rel UNIV st' W"
    by (rule sleep_rel_cong) (use onq_no_wchan [OF inv p] f(7) [of p] in \<open>auto simp: s(6)\<close>)
  moreover have "(p_stat (procs st' x) = SRUN \<longleftrightarrow> x \<in> onq (Q(i := us @ vs))) \<and> (p_stat (procs st' x) = SSLEEP \<longrightarrow> p_wchan (procs st' x) \<noteq> 0)" for x
    using d(6,7) [of x] f(6,7) [of x] unfolding onq' s(6) by (cases "x = p") simp_all
  moreover have "x = curproc st'" if "p_stat (procs st' x) = SONPROC" for x
    using that cur d(8) [of x] f(6) [of x] unfolding s(6) by (cases "x = p") auto
  moreover have "p_clfuncs (procs st' x) = Ts" if "x \<in> set (ts_plist st')" for x
    using that d(9) [of x] f(5,8) unfolding s(6) by (cases "x = p") simp_all
  ultimately have "sched_inv cf st' (Q(i := us @ vs)) W" unfolding sched_on_def by simp
  then show ?thesis using s(1) by (auto simp: s(6))
qed

text \<open>The current process gives up the processor: it goes on a queue, and \<^verbatim>\<open>pswtch\<close> begins by making it ready.\<close>

definition give_up :: "sched \<Rightarrow> sched option" where
  "give_up st =
     do {
       st1 \<leftarrow> CL_PREEMPT (curproc st) st;
       Some (set_proc (curproc st1) (\<lambda>p. p\<lparr>p_stat := SRUN\<rparr>) st1)
     }"

lemma give_up_ok:
  assumes inv: "sched_inv cf st Q W" and on: "p_stat (procs st (curproc st)) = SONPROC"
  shows "\<exists>st' Q'. give_up st = Some st' \<and> sched_inv cf st' Q' W"
proof -
  note d = sched_onD [OF inv]
  let ?p = "curproc st"
  have off: "?p \<notin> onq Q" "p_wchan (procs st ?p) = 0" using d(6) [of ?p] on sleep_relD(5) [OF d(3), of ?p] by auto
  from CL_PREEMPT_ok [OF d(1,2) off(1)] obtain st1 Q1 where s: "CL_PREEMPT ?p st = Some st1" "disp_rel st1 Q1" "onq Q1 = insert ?p (onq Q)"
      "cls_ok cf st1" "sframe (insert ?p (onq Q)) st st1" unfolding queued_def by blast
  note f = sframeD [OF s(5)]
  define st' where "st' = set_proc ?p (\<lambda>p. p\<lparr>p_stat := SRUN\<rparr>) st1"
  have op: "give_up st = Some st'" using s(1) f(3) by (simp add: give_up_def st'_def)
  have "disp_rel st' Q1" unfolding st'_def by (rule disp_rel_stat [OF s(2)])
  moreover have "cls_ok cf st'" using s(4) by (simp add: st'_def cls_ok_def)
  moreover have "sleep_rel UNIV st1 W" by (rule sleep_rel_sframe [OF d(3) s(5)]) (use onq_no_wchan [OF inv] off(2) in blast)
  then have "sleep_rel UNIV st' W" by (rule sleep_rel_cong) (use off(2) f(7) [of ?p] in \<open>auto simp: st'_def\<close>)
  moreover have "(p_stat (procs st' x) = SRUN \<longleftrightarrow> x \<in> onq Q1) \<and> (p_stat (procs st' x) = SSLEEP \<longrightarrow> p_wchan (procs st' x) \<noteq> 0)" for x
    using d(6,7) [of x] f(6,7) [of x] s(3) unfolding st'_def by (cases "x = ?p") simp_all
  moreover have "x = curproc st'" if "p_stat (procs st' x) = SONPROC" for x
    using that d(8) [of x] f(3) f(6) [of x] unfolding st'_def by (cases "x = ?p") auto
  moreover have "p_clfuncs (procs st' x) = Ts" if "x \<in> set (ts_plist st')" for x
    using that d(9) [of x] f(5) f(8) [of x] unfolding st'_def by (cases "x = ?p") simp_all
  ultimately have "sched_inv cf st' Q1 W" unfolding sched_on_def by simp
  then show ?thesis using op by blast
qed

text \<open>The end of \<^verbatim>\<open>newproc\<close> in the parent: the child, with its class data set up, becomes ready and goes on a queue.\<close>

definition newproc_ready :: "nat \<Rightarrow> nat option \<Rightarrow> sched \<Rightarrow> sched option" where
  "newproc_ready c parent st = CL_FORKRET c parent (set_proc c (\<lambda>p. p\<lparr>p_stat := SRUN\<rparr>) st)"

lemma newproc_ready_ok:
  assumes inv: "sched_inv cf st Q W" and idl: "p_stat (procs st c) = SIDL"
  shows "\<exists>st' Q'. newproc_ready c parent st = Some st' \<and> sched_inv cf st' Q' W \<and> p_stat (procs st' c) = SRUN"
proof -
  note d = sched_onD [OF inv]
  have off: "c \<notin> onq Q" "p_wchan (procs st c) = 0" using d(6) [of c] idl sleep_relD(5) [OF d(3), of c] by auto
  define st1 where "st1 = set_proc c (\<lambda>p. p\<lparr>p_stat := SRUN\<rparr>) st"
  have s1: "sched_on cf UNIV {c} st1 Q W"
    unfolding st1_def by (rule sched_on_set [OF sched_on_enter [OF inv off]]) (simp_all add: off)
  have "p_stat (procs st1 c) = SRUN" by (simp add: st1_def)
  from clf.ready [OF s1 this clfuncs_all, of parent] obtain st' Q' where "CL_FORKRET c parent st1 = Some st'" "sched_inv cf st' Q' W"
      "\<forall>q. p_stat (procs st' q) = p_stat (procs st1 q)" by blast
  then show ?thesis by (auto simp: newproc_ready_def st1_def)
qed

end
