(* ===== verification/Sched_Machine.thy ===== *)
theory Sched_Machine
  imports Sched_Step
begin

text \<open>The machine and what holds in the states it reaches.\<close>

section \<open>Events\<close>

text \<open>
  A clock tick and the once-a-second update of the time-sharing class; the return of the current process to user mode, its sleep and
  its preemption; the switch, or a turn of the idle loop when no process can run; a wakeup, a process set running, a process the
  current one has created made ready; and changes of the parameters of a time-sharing or a real-time process, and of its nice value.
  Joining and leaving a class, stops by signals and swapping are no events. It is the duty of the caller of \<^verbatim>\<open>sleep\<close> to pass a
  priority inside \<^verbatim>\<open>ts_kmdpris\<close> (\<open>disp_ok\<close>), and \<^verbatim>\<open>rt_parmsin\<close> sees to it that the priority of a real-time process is inside its table.
\<close>

datatype event =
    Tick | Update | Trapret | Block u32 u32 | Preempt | Switch | Idle | Wake u32 bool | Run nat | Fork nat |
    Parms tsparms nat "cred option" | RtParms rtkparms nat bool "cred option" | Nice nat int

definition running :: "sched \<Rightarrow> bool" where
  "running st \<longleftrightarrow> p_stat (procs st (curproc st)) = SONPROC"

fun enabled :: "schedconf \<Rightarrow> event \<Rightarrow> sched \<Rightarrow> bool" where
  "enabled cf Tick st \<longleftrightarrow> True"
| "enabled cf Update st \<longleftrightarrow> True"
| "enabled cf Trapret st \<longleftrightarrow> running st"
| "enabled cf (Block chan disp) st \<longleftrightarrow> running st \<and> chan \<noteq> 0 \<and> disp_ok cf disp"
| "enabled cf Preempt st \<longleftrightarrow> running st"
| "enabled cf Switch st \<longleftrightarrow> \<not> running st \<and> maxrunpri st \<noteq> -1"
| "enabled cf Idle st \<longleftrightarrow> \<not> running st \<and> maxrunpri st = -1"
| "enabled cf (Wake chan prmpt) st \<longleftrightarrow> True"
| "enabled cf (Run p) st \<longleftrightarrow> True"
| "enabled cf (Fork c) st \<longleftrightarrow> running st \<and> p_stat (procs st c) = SIDL"
| "enabled cf (RtParms rk p reqrt cr) st \<longleftrightarrow> p_clfuncs (procs st p) = Rt \<and> (p = curproc st \<longrightarrow> running st) \<and>
     (rk_pri rk = RT_NOCHANGE \<or> 0 \<le> rk_pri rk \<and> rk_pri rk \<le> rt_maxpri cf)"
| "enabled cf (Nice p incr) st \<longleftrightarrow> p_clfuncs (procs st p) = Ts \<and> (p = curproc st \<longrightarrow> running st)"
| "enabled cf (Parms tp p cr) st \<longleftrightarrow> p_clfuncs (procs st p) = Ts \<and> (p = curproc st \<longrightarrow> running st)"

fun perform :: "schedconf \<Rightarrow> event \<Rightarrow> sched \<Rightarrow> sched option" where
  "perform cf Tick st = CL_TICK cf (curproc st) st"
| "perform cf Update st = ts_update_loop cf (ts_plist st) st"
| "perform cf Trapret st = CL_TRAPRET cf (curproc st) st"
| "perform cf (Block chan disp) st = sleep_nosig cf (curproc st) chan disp st"
| "perform cf Preempt st = give_up st"
| "perform cf Switch st = pswtch_pick st"
| "perform cf Idle st = Some (st\<lparr>curpri := 0, curproc := proc_sched cf\<rparr>)"
| "perform cf (Wake chan prmpt) st = wakeprocs cf chan prmpt st"
| "perform cf (Run p) st = setrun cf p st"
| "perform cf (Fork c) st = newproc_ready c (Some (curproc st)) st"
| "perform cf (RtParms rk p reqrt cr) st = map_option snd (rt_parmsset rk p reqrt cr st)"
| "perform cf (Nice p incr) st = map_option snd (ts_donice cf p incr st)"
| "perform cf (Parms tp p cr) st = map_option snd (ts_parmsset cf tp p cr st)"

inductive sched_reach :: "schedconf \<Rightarrow> sched \<Rightarrow> sched \<Rightarrow> bool" for cf where
  start: "sched_reach cf st st"
| step: "\<lbrakk>sched_reach cf st0 st; enabled cf ev st; perform cf ev st = Some st'\<rbrakk> \<Longrightarrow> sched_reach cf st0 st'"

section \<open>Every event keeps the invariant\<close>

lemma running_off: "\<lbrakk>sched_inv cf st Q W; running st\<rbrakk> \<Longrightarrow> curproc st \<notin> onq Q"
  using sched_onD(6) [of cf UNIV "{}" st Q W "curproc st"] by (simp add: running_def)

text \<open>An operation that moves processes between the queues.\<close>

lemma moved_inv: "\<lbrakk>sched_inv cf st Q W; moved cf Q st r\<rbrakk> \<Longrightarrow> \<exists>st' Q' W'. r = Some st' \<and> sched_inv cf st' Q' W'"
  using sched_on_moved by blast

lemma idle_inv: "\<lbrakk>sched_inv cf st Q W; \<not> running st\<rbrakk> \<Longrightarrow> sched_inv cf (st\<lparr>curpri := 0, curproc := p\<rparr>) Q W"
  unfolding sched_on_def running_def sleep_rel_def by (auto simp: quiet)

lemma perform_ok:
  assumes inv: "sched_inv cf st Q W" and en: "enabled cf ev st"
  shows "\<exists>st' Q' W'. perform cf ev st = Some st' \<and> sched_inv cf st' Q' W'"
proof -
  note d = sched_onD [OF inv]
  show ?thesis
  proof (cases ev)
    case Tick
    then show ?thesis using moved_inv [OF inv CL_TICK_ok [OF d(1,2)]] by simp
  next
    case Update
    have "\<forall>p \<in> set (ts_plist st). p_clfuncs (procs st p) = Ts" using d(9) by blast
    from moved_inv [OF inv ts_update_loop_ok [OF d(1,2) this]] show ?thesis using Update by simp
  next
    case Trapret
    then have "curproc st \<notin> onq Q" using running_off [OF inv] en by simp
    from moved_inv [OF inv CL_TRAPRET_ok [OF d(1,2) this]] show ?thesis using Trapret by simp
  next
    case (Block chan disp)
    then show ?thesis using sleep_nosig_ok [OF inv, of "curproc st" chan disp] en by (auto simp: running_def)
  next
    case Preempt
    then show ?thesis using give_up_ok [OF inv] en by (auto simp: running_def)
  next
    case Switch
    then show ?thesis using pswtch_pick_inv [OF inv] en by (auto simp: running_def)
  next
    case Idle
    then show ?thesis using idle_inv [OF inv] en by auto
  next
    case (Wake chan prmpt)
    then show ?thesis using wakeprocs_ok [OF inv, of chan prmpt] by auto
  next
    case (Run p)
    then show ?thesis using setrun_ok [OF inv, of p] by auto
  next
    case (Fork c)
    then show ?thesis using newproc_ready_ok [OF inv, of c "Some (curproc st)"] en by auto
  next
    case (RtParms rk p reqrt cr)
    then have "p_clfuncs (procs st p) = Rt" "p = curproc st \<longrightarrow> p \<notin> onq Q" "rk_pri rk = RT_NOCHANGE \<or> (0 \<le> rk_pri rk \<and> rk_pri rk \<le> rt_maxpri cf)"
      using en running_off [OF inv] by auto
    from moved_inv [OF inv rt_parmsset_ok [OF d(1,2) this]] show ?thesis using RtParms by simp
  next
    case (Nice p incr)
    then have "p_clfuncs (procs st p) = Ts" "p = curproc st \<longrightarrow> p \<notin> onq Q" using en running_off [OF inv] by auto
    from moved_inv [OF inv ts_donice_ok [OF d(1,2) this]] show ?thesis using Nice by simp
  next
    case (Parms tp p cr)
    then have "p_clfuncs (procs st p) = Ts" "p = curproc st \<longrightarrow> p \<notin> onq Q" using en running_off [OF inv] by auto
    from moved_inv [OF inv ts_parmsset_ok [OF d(1,2) this]] show ?thesis using Parms by simp
  qed
qed

lemma reach_inv: "\<lbrakk>sched_reach cf st0 st; \<exists>Q W. sched_inv cf st0 Q W\<rbrakk> \<Longrightarrow> \<exists>Q W. sched_inv cf st Q W"
proof (induction rule: sched_reach.induct)
  case (step st0 st ev st')
  then show ?case using perform_ok by fastforce
qed

section \<open>The start\<close>

text \<open>After \<^verbatim>\<open>dispinit\<close> the invariant holds, when no process is ready or asleep yet.\<close>

definition at_rest :: "schedconf \<Rightarrow> sched \<Rightarrow> bool" where
  "at_rest cf st \<longleftrightarrow>
     sleepqs st = replicate NSLEEPQ \<lparr>sq_first = None, sq_last = None\<rparr> \<and>
     (\<forall>p. p_wchan (procs st p) = 0 \<and> p_stat (procs st p) \<noteq> SRUN \<and> p_stat (procs st p) \<noteq> SSLEEP \<and>
          (p_stat (procs st p) = SONPROC \<longrightarrow> p = curproc st)) \<and>
     (\<forall>p \<in> set (ts_plist st). p_clfuncs (procs st p) = Ts)"

lemma dispinit_inv:
  assumes rest: "at_rest cf st" and ok: "cls_ok cf (dispinit maxs st)"
  shows "sched_inv cf (dispinit maxs st) (\<lambda>_. []) (\<lambda>_. [])"
proof -
  let ?st = "dispinit maxs st"
  obtain n where n: "dispqs ?st = replicate n \<lparr>dq_first = None, dq_last = None, dq_sruncnt = 0\<rparr>" "dqactmap ?st = replicate (n div 32 + 1) 0"
      "srunprocs ?st = 0" "maxrunpri ?st = -1" "procs ?st = procs st" "sleepqs ?st = sleepqs st" "curproc ?st = curproc st" "ts_plist ?st = ts_plist st"
    by (simp add: dispinit_def Let_def)
  have bits: "\<not> bt_bit (replicate (n div 32 + 1) 0) i" if "i < 32 * (n div 32 + 1)" for i
  proof -
    have "i div 32 < n div 32 + 1" using that by (intro less_mult_imp_div_less) simp
    then show ?thesis unfolding bt_bit_def by (subst nth_replicate) simp_all
  qed
  have "n < 32 * (n div 32 + 1)" by (simp add: mult.commute dividend_less_div_times)
  then have "counts_ok (loaded_cnt ?st (\<lambda>_. [])) ?st" using n bits by (simp add: counts_ok_def loaded_cnt_def top_ok_def)
  moreover have "queues_ok ?st (\<lambda>_. [])" using n by (simp add: queues_ok_def linkq_def)
  ultimately have "disp_rel ?st (\<lambda>_. [])" by (simp add: disp_rel_def)
  moreover have "sleep_rel UNIV ?st (\<lambda>_. [])" using rest n by (simp add: sleep_rel_def at_rest_def)
  ultimately show ?thesis using ok rest n by (auto simp: sched_on_def at_rest_def onq_def)
qed

end
