(* ===== verification/Sched_Aging.thy ===== *)
theory Sched_Aging
  imports Sched_Machine
begin

text \<open>
  The once-a-second update keeps time-sharing processes from starving: a process that has been ready at its user mode priority for
  longer than the table allows gets the level the table gives for it.
\<close>

section \<open>What the update does to one process\<close>

text \<open>The parts of the state the update of another process leaves alone.\<close>

definition same_ts :: "nat \<Rightarrow> sched \<Rightarrow> sched \<Rightarrow> bool" where
  "same_ts p st st' \<longleftrightarrow>
     tsprocs st' p = tsprocs st p \<and> p_pri (procs st' p) = p_pri (procs st p) \<and> ts_dptbl st' = ts_dptbl st"

lemma same_ts_refl: "same_ts p st st"
  by (simp add: same_ts_def)

lemma same_ts_trans: "\<lbrakk>same_ts p st st1; same_ts p st1 st2\<rbrakk> \<Longrightarrow> same_ts p st st2"
  by (simp add: same_ts_def)

lemma disp_frame_same_ts: "disp_frame A st st' \<Longrightarrow> same_ts p st st'"
  using disp_frameD(12,14) [of A st st'] disp_frame_proc(3) [of A st st' p] by (simp add: same_ts_def)

lemma setback_same_ts:
  assumes "disp_rel st Q" "cls_ok cf st" "q \<notin> onq Q" "setbackdq q st = Some st'"
  shows "same_ts p st st'"
  using setback_enq [OF assms(1-3)] assms(4) disp_frame_same_ts by auto

text \<open>One turn of the update for \<open>q\<close>, when its wait has become too long.\<close>

definition waits :: "nat \<Rightarrow> sched \<Rightarrow> bool" where
  "waits p st \<longleftrightarrow> \<not> ts_kpri (tsprocs st p) \<and> (p_stat (procs st p) = SRUN \<or> p_stat (procs st p) = SONPROC) \<and> p_flag (procs st p) AND SPROCIO = 0"

lemma ts_update1_cases:
  assumes rel: "disp_rel st Q" and ok: "cls_ok cf st" and cl: "p_clfuncs (procs st q) = Ts" and r: "ts_update1 cf q st = Some st'"
    and d: "ts_level q st = Some d"
  shows "(\<not> waits q st \<longrightarrow> st' = st) \<and>
         (waits q st \<and> to_short (ts_dispwait (tsprocs st q) + 1) \<le> ts_maxwait d \<longrightarrow>
            st' = set_ts q (\<lambda>t. t\<lparr>ts_dispwait := to_short (ts_dispwait t + 1)\<rparr>) st) \<and>
         (waits q st \<and> \<not> to_short (ts_dispwait (tsprocs st q) + 1) \<le> ts_maxwait d \<longrightarrow>
            (\<exists>e g. nth_opt (ts_dptbl st) (ts_cpupri (tsprocs st q)) = Some e \<and> ts_cpupri (tsprocs st' q) = ts_lwait e \<and>
               ts_umdpri (tsprocs st' q) = ts_umdpri (TS_NEWUMDPRI cf ((tsprocs st q)\<lparr>ts_cpupri := ts_lwait e\<rparr>)) \<and>
               ts_dispwait (tsprocs st' q) = 0 \<and> ts_level q st' = Some g \<and> p_pri (procs st' q) = ts_globpri g)) \<and>
         (\<forall>p. p \<noteq> q \<longrightarrow> same_ts p st st')"
proof -
  define st1 where "st1 = set_ts q (\<lambda>t. t\<lparr>ts_dispwait := to_short (ts_dispwait t + 1)\<rparr>) st"
  have s1: "disp_rel st1 Q" "cls_ok cf st1" "p_clfuncs (procs st1 q) = Ts" using rel ok cl by (simp_all add: st1_def quiet)
  have d1: "ts_level q st1 = Some d" using d by (simp add: ts_level_def st1_def)
  show ?thesis
  proof (cases "waits q st \<and> \<not> to_short (ts_dispwait (tsprocs st q) + 1) \<le> ts_maxwait d")
    case False
    then have "\<not> waits q st \<and> st' = st \<or> waits q st \<and> st' = st1"
      using r d1 unfolding ts_update1_def Let_def st1_def [symmetric] waits_def by (auto simp: st1_def split: if_splits)
    then show ?thesis using False by (auto simp: st1_def same_ts_def)
  next
    case True
    obtain e where e: "nth_opt (ts_dptbl st1) (ts_cpupri (tsprocs st1 q)) = Some e" "\<And>t. ts_ok cf (TS_NEWUMDPRI cf (t\<lparr>ts_cpupri := ts_lwait e\<rparr>))"
      using ts_slpret_ok [OF s1(2,3)] by blast
    define st2 where "st2 = set_ts q (\<lambda>t. (TS_NEWUMDPRI cf (t\<lparr>ts_cpupri := ts_lwait e\<rparr>))\<lparr>ts_dispwait := 0\<rparr>) st1"
    have "ts_ok cf ((TS_NEWUMDPRI cf (t\<lparr>ts_cpupri := ts_lwait e\<rparr>))\<lparr>ts_dispwait := 0\<rparr>)" for t using e(2) [of t] by (simp add: ts_ok_def)
    then have s2: "disp_rel st2 Q" "cls_ok cf st2" "p_clfuncs (procs st2 q) = Ts" using s1 by (simp_all add: st2_def cls_ok_ts quiet)
    obtain st3 Q3 where deq: "dispdeq q st2 = Some (q \<in> onq Q, st3)" "disp_rel st3 Q3" "onq Q3 = onq Q - {q}" "disp_frame (onq Q) st2 st3"
      using dispdeq_deq [OF s2(1,2)] by blast
    have s3: "cls_ok cf st3" "p_clfuncs (procs st3 q) = Ts" using disp_cls_ok [OF s2(2) deq(4)] s2(3) disp_frame_proc(5) [OF deq(4)] by simp_all
    obtain g where g: "ts_level q st3 = Some g" "0 \<le> ts_globpri g" "ts_globpri g < int (length (dispqs st3))" using ts_level_ts s3 by blast
    define st4 where "st4 = set_proc q (\<lambda>q. q\<lparr>p_pri := ts_globpri g\<rparr>) (if q = curproc st3 then st3\<lparr>curpri := ts_globpri g\<rparr> else st3)"
    define st5 where "st5 = set_ts q (\<lambda>t. t\<lparr>ts_timeleft := ts_quantum g\<rparr>) st4"
    have s4: "disp_rel st4 Q3" "cls_ok cf st4" using s3 g deq by (cases "q = curproc st3"; simp add: st4_def disp_rel_pri cls_ok_pri quiet)+
    have "ts_level q st4 = Some g" using g(1) by (cases "q = curproc st3") (simp_all add: ts_level_def st4_def)
    then have nq: "ts_newquantum q st4 = Some st5" by (simp add: ts_newquantum_def st5_def)
    have off: "q \<notin> onq Q3" using deq(3) by simp
    have r': "Some st' = (if q \<in> onq Q then setbackdq q st5 else Some (set_ts q (\<lambda>t. t\<lparr>ts_backq := True\<rparr>) st4))"
    proof -
      have "\<not> ts_kpri (tsprocs st q)" "\<not> ts_dispwait (tsprocs st1 q) \<le> ts_maxwait d" "p_flag (procs st q) AND SPROCIO = 0"
        using True by (simp_all add: waits_def st1_def)
      moreover have "\<not> (p_stat (procs st q) \<noteq> SRUN \<and> p_stat (procs st q) \<noteq> SONPROC)" using True by (simp add: waits_def)
      ultimately show ?thesis
        using r d1 e(1) deq(1) g(1) nq unfolding ts_update1_def Let_def st1_def [symmetric]
        by (simp only: simp_thms if_False if_True bind.bind_lunit prod.case st2_def [symmetric] st4_def [symmetric])
    qed
    have t2: "tsprocs st2 q = (TS_NEWUMDPRI cf ((tsprocs st q)\<lparr>ts_dispwait := to_short (ts_dispwait (tsprocs st q) + 1), ts_cpupri := ts_lwait e\<rparr>))\<lparr>ts_dispwait := 0\<rparr>"
      by (simp add: st2_def st1_def)
    have t3: "tsprocs st3 q = tsprocs st2 q" "ts_dptbl st3 = ts_dptbl st" using disp_frameD(12,14) [OF deq(4)] by (simp_all add: st2_def st1_def)
    have mid: "\<exists>t. (t = ts_timeleft_update (\<lambda>_. ts_quantum g) (tsprocs st3 q) \<or> t = ts_backq_update (\<lambda>_. True) (tsprocs st3 q)) \<and> tsprocs st' q = t \<and>
        p_pri (procs st' q) = ts_globpri g \<and> ts_dptbl st' = ts_dptbl st"
    proof (cases "q \<in> onq Q")
      case True
      then have "setbackdq q st5 = Some st'" using r' by simp
      moreover have "disp_rel st5 Q3" "cls_ok cf st5" using s4 by (simp_all add: st5_def quiet)
      ultimately have "same_ts q st5 st'" using setback_same_ts off by blast
      then show ?thesis using t3(2) by (simp add: same_ts_def st5_def st4_def)
    next
      case False
      then show ?thesis using r' t3(2) by (simp add: st4_def)
    qed
    have other: "same_ts p st st'" if "p \<noteq> q" for p
    proof -
      have "same_ts p st st2" using that by (simp add: same_ts_def st2_def st1_def)
      moreover have "same_ts p st2 st3" by (rule disp_frame_same_ts [OF deq(4)])
      moreover have "same_ts p st3 st4" using that by (simp add: same_ts_def st4_def)
      ultimately have s: "same_ts p st st4" by (metis same_ts_trans)
      show ?thesis
      proof (cases "q \<in> onq Q")
        case True
        then have "setbackdq q st5 = Some st'" using r' by simp
        moreover have "disp_rel st5 Q3" "cls_ok cf st5" using s4 by (simp_all add: st5_def quiet)
        ultimately have "same_ts p st5 st'" using setback_same_ts off by blast
        moreover have "same_ts p st4 st5" using that by (simp add: same_ts_def st5_def)
        ultimately show ?thesis using s by (metis same_ts_trans)
      next
        case False
        then show ?thesis using r' s that by (simp add: same_ts_def)
      qed
    qed
    have e': "nth_opt (ts_dptbl st) (ts_cpupri (tsprocs st q)) = Some e" using e(1) by (simp add: st1_def)
    have u: "ts_umdpri (TS_NEWUMDPRI cf ((tsprocs st q)\<lparr>ts_dispwait := x, ts_cpupri := y\<rparr>)) = ts_umdpri (TS_NEWUMDPRI cf ((tsprocs st q)\<lparr>ts_cpupri := y\<rparr>))" for x y
      by (simp add: TS_NEWUMDPRI_def Let_def)
    have "ts_umdpri (tsprocs st' q) = ts_umdpri (tsprocs st3 q)" "ts_cpupri (tsprocs st' q) = ts_cpupri (tsprocs st3 q)"
      "ts_dispwait (tsprocs st' q) = ts_dispwait (tsprocs st3 q)" "p_pri (procs st' q) = ts_globpri g" "ts_dptbl st' = ts_dptbl st3" using mid t3(2) by auto
    moreover from this have "ts_level q st' = Some g" using g(1) by (simp add: ts_level_def)
    ultimately show ?thesis using True e' other t3(1) t2 u by auto
  qed
qed

section \<open>The update of all\<close>

lemma ts_update_loop_append: "ts_update_loop cf (ps @ qs) st = ts_update_loop cf ps st \<bind> ts_update_loop cf qs"
proof (induction ps arbitrary: st)
  case (Cons p ps)
  then show ?case by (cases "ts_update1 cf p st") simp_all
qed simp

lemma ts_update_loop_other:
  "\<lbrakk>disp_rel st Q; cls_ok cf st; \<forall>q \<in> set ps. p_clfuncs (procs st q) = Ts; p \<notin> set ps; ts_update_loop cf ps st = Some st'\<rbrakk> \<Longrightarrow> same_ts p st st'"
proof (induction ps arbitrary: st Q)
  case Nil
  then show ?case by (simp add: same_ts_refl)
next
  case (Cons q ps)
  have cl: "p_clfuncs (procs st q) = Ts" using Cons.prems(3) by simp
  obtain st1 Q1 where s1: "ts_update1 cf q st = Some st1" "disp_rel st1 Q1" "cls_ok cf st1" "sframe (onq Q) st st1"
    using ts_update1_ok [OF Cons.prems(1,2) cl] unfolding moved_def by blast
  obtain d where "ts_level q st = Some d" using ts_level_ts [OF Cons.prems(2) cl] by blast
  from ts_update1_cases [OF Cons.prems(1,2) cl s1(1) this] have "same_ts p st st1" using Cons.prems(4) by auto
  moreover have "same_ts p st1 st'"
    using Cons.prems(3,4,5) s1(1) sframeD(8) [OF s1(4)] by (intro Cons.IH [OF s1(2,3)]) simp_all
  ultimately show ?case by (rule same_ts_trans)
qed

text \<open>What one call of the update does to a process that waits.\<close>

definition aged :: "schedconf \<Rightarrow> nat \<Rightarrow> tsdpent \<Rightarrow> sched \<Rightarrow> sched \<Rightarrow> bool" where
  "aged cf p d st st' \<longleftrightarrow>
     (to_short (ts_dispwait (tsprocs st p) + 1) \<le> ts_maxwait d \<longrightarrow>
        tsprocs st' p = (tsprocs st p)\<lparr>ts_dispwait := to_short (ts_dispwait (tsprocs st p) + 1)\<rparr> \<and> ts_dptbl st' = ts_dptbl st) \<and>
     (\<not> to_short (ts_dispwait (tsprocs st p) + 1) \<le> ts_maxwait d \<longrightarrow>
        (\<exists>e g. nth_opt (ts_dptbl st) (ts_cpupri (tsprocs st p)) = Some e \<and> ts_cpupri (tsprocs st' p) = ts_lwait e \<and>
           ts_umdpri (tsprocs st' p) = ts_umdpri (TS_NEWUMDPRI cf ((tsprocs st p)\<lparr>ts_cpupri := ts_lwait e\<rparr>)) \<and>
           ts_dispwait (tsprocs st' p) = 0 \<and> ts_level p st' = Some g \<and> p_pri (procs st' p) = ts_globpri g))"

lemma ts_update_loop_aged:
  assumes inv: "sched_inv cf st Q W" and dist: "distinct (ts_plist st)" and p: "p \<in> set (ts_plist st)" and w: "waits p st"
    and d: "ts_level p st = Some d"
  shows "\<exists>st' Q' W'. ts_update_loop cf (ts_plist st) st = Some st' \<and> sched_inv cf st' Q' W' \<and> aged cf p d st st' \<and>
           sframe (onq Q) st st'"
proof -
  note i = sched_onD [OF inv]
  obtain us vs where ps: "ts_plist st = us @ p # vs" using p by (meson split_list)
  have cl: "p_clfuncs (procs st q) = Ts" if "q \<in> set (us @ p # vs)" for q using i(9) [of q] that ps by simp
  obtain sa Qa where a: "ts_update_loop cf us st = Some sa" "disp_rel sa Qa" "onq Qa = onq Q" "cls_ok cf sa" "sframe (onq Q) st sa"
    using ts_update_loop_ok [OF i(1,2), of us] cl unfolding moved_def by auto
  have sa: "same_ts p st sa" using dist ps cl by (intro ts_update_loop_other [OF i(1,2) _ _ a(1)]) auto
  have cla: "p_clfuncs (procs sa p) = Ts" using cl sframeD(8) [OF a(5)] by simp
  obtain sb Qb where b: "ts_update1 cf p sa = Some sb" "disp_rel sb Qb" "onq Qb = onq Q" "cls_ok cf sb" "sframe (onq Q) sa sb"
    using ts_update1_ok [OF a(2,4) cla] a(3) unfolding moved_def by auto
  obtain sc Qc where c: "ts_update_loop cf vs sb = Some sc" "disp_rel sc Qc" "onq Qc = onq Q" "cls_ok cf sc" "sframe (onq Q) sb sc"
    using ts_update_loop_ok [OF b(2,4), of vs] cl sframeD(8) [OF a(5)] sframeD(8) [OF b(5)] b(3) unfolding moved_def by auto
  have sc: "same_ts p sb sc"
    using dist ps cl sframeD(8) [OF a(5)] sframeD(8) [OF b(5)] by (intro ts_update_loop_other [OF b(2,4) _ _ c(1)]) auto
  have da: "ts_level p sa = Some d" using d sa by (simp add: ts_level_def same_ts_def)
  have wa: "waits p sa" using w sa sframeD(6,9) [OF a(5)] by (simp add: waits_def same_ts_def)
  note u = ts_update1_cases [OF a(2,4) cla b(1) da]
  have ab: "aged cf p d sa sb"
    unfolding aged_def
  proof (intro conjI impI)
    assume "to_short (ts_dispwait (tsprocs sa p) + 1) \<le> ts_maxwait d"
    then have "sb = set_ts p (\<lambda>t. t\<lparr>ts_dispwait := to_short (ts_dispwait t + 1)\<rparr>) sa" using u wa by blast
    then show "tsprocs sb p = (tsprocs sa p)\<lparr>ts_dispwait := to_short (ts_dispwait (tsprocs sa p) + 1)\<rparr>" "ts_dptbl sb = ts_dptbl sa" by simp_all
  qed (use u wa in blast)
  have "aged cf p d st sc"
    using ab sa sc unfolding aged_def same_ts_def ts_level_def by simp
  moreover have "ts_update_loop cf (ts_plist st) st = Some sc" unfolding ps ts_update_loop_append a(1) by (simp add: b(1) c(1))
  moreover have "sframe (onq Q) st sc" by (rule sframe_trans [OF sframe_trans [OF a(5) b(5)] c(5)]) simp_all
  moreover from this have "moved cf Q st (Some sc)" by (rule movedI [OF c(2,3,4)])
  then have "\<exists>Q' W'. sched_inv cf sc Q' W'" using sched_on_moved [OF inv] by blast
  ultimately show ?thesis by blast
qed

text \<open>Calls of the update one after another.\<close>

fun ts_seconds :: "schedconf \<Rightarrow> nat \<Rightarrow> sched \<Rightarrow> sched option" where
  "ts_seconds cf 0 st = Some st"
| "ts_seconds cf (Suc n) st = do { st1 \<leftarrow> ts_update_loop cf (ts_plist st) st; ts_seconds cf n st1 }"

lemma ts_seconds_raise:
  "\<lbrakk>sched_inv cf st Q W; distinct (ts_plist st); p \<in> set (ts_plist st); waits p st; ts_level p st = Some d;
    nth_opt (ts_dptbl st) (ts_cpupri (tsprocs st p)) = Some e;
    0 \<le> ts_dispwait (tsprocs st p); ts_maxwait d < 32767; n = nat (ts_maxwait d - ts_dispwait (tsprocs st p)); ts_dispwait (tsprocs st p) \<le> ts_maxwait d\<rbrakk> \<Longrightarrow>
     \<exists>st' g. ts_seconds cf (Suc n) st = Some st' \<and> ts_cpupri (tsprocs st' p) = ts_lwait e \<and> ts_dispwait (tsprocs st' p) = 0 \<and>
       ts_umdpri (tsprocs st' p) = max 0 (min (ts_maxumdpri cf) (to_short (ts_lwait e + ts_upri (tsprocs st p)))) \<and>
       ts_level p st' = Some g \<and> p_pri (procs st' p) = ts_globpri g \<and> p_stat (procs st' p) = p_stat (procs st p)"
proof (induction n arbitrary: st Q W)
  case 0
  from ts_update_loop_aged [OF 0(1-5)] obtain st' where s: "ts_update_loop cf (ts_plist st) st = Some st'" "aged cf p d st st'" "sframe (onq Q) st st'" by blast
  have "\<not> to_short (ts_dispwait (tsprocs st p) + 1) \<le> ts_maxwait d" using 0 by (simp add: to_short_id)
  moreover have "0 \<le> ts_maxumdpri cf" using cls_okD(1) [OF sched_onD(2) [OF 0(1)]] by (simp add: conf_ok_def)
  then have "ts_umdpri (TS_NEWUMDPRI cf (t\<lparr>ts_cpupri := ts_lwait e\<rparr>)) = max 0 (min (ts_maxumdpri cf) (to_short (ts_lwait e + ts_upri t)))" for t
    by (simp add: TS_NEWUMDPRI_def Let_def)
  ultimately show ?case using s(1,2) 0(6) sframeD(6) [OF s(3)] unfolding aged_def by auto
next
  case (Suc n)
  note P = Suc.prems
  from ts_update_loop_aged [OF P(1-5)] obtain st1 Q1 W1 where s: "ts_update_loop cf (ts_plist st) st = Some st1" "sched_inv cf st1 Q1 W1"
      "aged cf p d st st1" "sframe (onq Q) st st1" by blast
  have "to_short (ts_dispwait (tsprocs st p) + 1) = ts_dispwait (tsprocs st p) + 1" using P(7,8,9,10) by (intro to_short_id) simp_all
  moreover have "ts_dispwait (tsprocs st p) + 1 \<le> ts_maxwait d" using P(9) by linarith
  ultimately have t: "tsprocs st1 p = (tsprocs st p)\<lparr>ts_dispwait := ts_dispwait (tsprocs st p) + 1\<rparr>" "ts_dptbl st1 = ts_dptbl st"
    using s(3) unfolding aged_def by simp_all
  have w: "waits p st1" using P(4) t(1) sframeD(6,9) [OF s(4)] by (simp add: waits_def)
  have l: "ts_level p st1 = Some d" using P(5) t by (simp add: ts_level_def)
  have n: "n = nat (ts_maxwait d - ts_dispwait (tsprocs st1 p))" "ts_dispwait (tsprocs st1 p) \<le> ts_maxwait d"
    using P(9) t(1) by (simp_all add: nat_diff_distrib' nat_add_distrib)
  have pl: "distinct (ts_plist st1)" "p \<in> set (ts_plist st1)" using P(2,3) sframeD(5) [OF s(4)] by simp_all
  have c: "nth_opt (ts_dptbl st1) (ts_cpupri (tsprocs st1 p)) = Some e" "0 \<le> ts_dispwait (tsprocs st1 p)" using P(6,7) t by simp_all
  have u: "ts_upri (tsprocs st1 p) = ts_upri (tsprocs st p)" using t(1) by simp
  from Suc.IH [OF s(2) pl w l c P(8) n] show ?case
    unfolding u ts_seconds.simps(2) [of cf "Suc n"] s(1) bind.bind_lunit sframeD(6) [OF s(4)] .
qed

end
