(* ===== verification/Sched_Swap.thy ===== *)
theory Sched_Swap
  imports Ts
begin

text \<open>
  Which process the time-sharing class nominates to be swapped out: the sleeping or stopped process of the lowest priority, as the
  comment says; but when there is none, the first ready process on the list, whatever its priority.
\<close>

text \<open>A process that may be swapped out, and how it counts.\<close>

definition swappable :: "sched \<Rightarrow> nat option \<Rightarrow> nat \<Rightarrow> bool" where
  "swappable st jl p \<longleftrightarrow>
     p_stat (procs st p) \<noteq> SZOMB \<and> p_flag (procs st p) AND (SLOAD OR SSYS OR SLOCK OR SUSWAP OR SPROCIO OR SSWLOCKS) = SLOAD \<and> Some p \<noteq> jl"

definition resting :: "sched \<Rightarrow> nat option \<Rightarrow> nat \<Rightarrow> bool" where
  "resting st jl p \<longleftrightarrow> swappable st jl p \<and> (p_stat (procs st p) = SSLEEP \<or> p_stat (procs st p) = SSTOP)"

definition swap_ready :: "sched \<Rightarrow> nat option \<Rightarrow> nat \<Rightarrow> bool" where
  "swap_ready st jl p \<longleftrightarrow> swappable st jl p \<and> p_stat (procs st p) = SRUN"

lemma swapout_step:
  "ts_swapout_loop st jl (p # ps) retpp minspri minrpri =
     (if resting st jl p \<and> p_pri (procs st p) < minspri then ts_swapout_loop st jl ps (Some p) (p_pri (procs st p)) minrpri
      else if swap_ready st jl p \<and> retpp = None \<and> p_pri (procs st p) < minrpri then ts_swapout_loop st jl ps (Some p) minspri (p_pri (procs st p))
      else ts_swapout_loop st jl ps retpp minspri minrpri)"
  by (auto simp: resting_def swap_ready_def swappable_def Let_def)

lemmas swapout_simps = swapout_step ts_swapout_loop.simps(1)

lemma arg_min_skip: "f r \<le> f x \<Longrightarrow> arg_min_list f (r # x # xs) = arg_min_list f (r # xs)" for f :: "'a \<Rightarrow> int"
proof (cases xs)
  case (Cons y ys)
  assume "f r \<le> f x"
  then show ?thesis unfolding Cons by (auto simp: Let_def)
qed simp

lemma arg_min_le: "f (arg_min_list f (x # xs)) \<le> f x" for f :: "'a \<Rightarrow> int"
  by (cases xs) (auto simp: Let_def)

text \<open>After a resting process has been found, only resting processes of lower priorities count.\<close>

lemma swapout_resting:
  "ts_swapout_loop st jl ps (Some r) (p_pri (procs st r)) m = Some (arg_min_list (\<lambda>p. p_pri (procs st p)) (r # filter (resting st jl) ps))"
proof (induction ps arbitrary: r)
  case (Cons x ps)
  show ?case
  proof (cases "resting st jl x")
    case True
    show ?thesis
    proof (cases "p_pri (procs st x) < p_pri (procs st r)")
      case less: True
      have "p_pri (procs st (arg_min_list (\<lambda>p. p_pri (procs st p)) (x # filter (resting st jl) ps))) < p_pri (procs st r)"
        using arg_min_le [of "\<lambda>p. p_pri (procs st p)" x "filter (resting st jl) ps"] less by linarith
      then show ?thesis using True less Cons.IH [of x] by (simp add: swapout_step Let_def del: ts_swapout_loop.simps)
    next
      case False
      then show ?thesis using True Cons.IH [of r] arg_min_skip [of "\<lambda>p. p_pri (procs st p)" r x]
        by (simp add: swapout_step del: ts_swapout_loop.simps arg_min_list.simps)
    qed
  next
    case False
    then show ?thesis using Cons.IH [of r] by (simp add: swapout_step del: ts_swapout_loop.simps arg_min_list.simps)
  qed
qed simp

lemma swapout_ready:
  "\<forall>p. p_pri (procs st p) < m \<Longrightarrow>
     ts_swapout_loop st jl ps (Some r) m k =
       Some (if filter (resting st jl) ps = [] then r else arg_min_list (\<lambda>p. p_pri (procs st p)) (filter (resting st jl) ps))"
proof (induction ps)
  case (Cons x ps)
  then show ?case using swapout_resting [of st jl ps x k] by (simp add: swapout_step del: ts_swapout_loop.simps arg_min_list.simps)
qed simp

lemma swapout_any:
  "\<forall>p. p_pri (procs st p) < m \<Longrightarrow>
     ts_swapout_loop st jl ps None m m =
       (if filter (resting st jl) ps \<noteq> [] then Some (arg_min_list (\<lambda>p. p_pri (procs st p)) (filter (resting st jl) ps))
        else case filter (swap_ready st jl) ps of [] \<Rightarrow> None | r # _ \<Rightarrow> Some r)"
proof (induction ps)
  case (Cons x ps)
  have "resting st jl x \<Longrightarrow> \<not> swap_ready st jl x" by (auto simp: resting_def swap_ready_def)
  then show ?case
    using Cons swapout_resting [of st jl ps x m] swapout_ready [OF Cons.prems, of jl ps x "p_pri (procs st x)"]
    by (simp add: swapout_step del: ts_swapout_loop.simps arg_min_list.simps)
qed simp

end
