(* ===== verification/Sched_Props.thy ===== *)
theory Sched_Props
  imports Sched_Aging Sched_Swap
begin

text \<open>
  The properties of process scheduling. The examples run on two time-sharing processes and four priorities, as \<^verbatim>\<open>dispinit\<close> leaves
  them: process 1 runs, process 2 is being created.
\<close>

section \<open>An example state\<close>

definition demo_cf :: schedconf where
  "demo_cf = \<lparr>ts_kmdpris = [2], ts_maxupri = 20, ts_maxumdpri = 1, ts_maxkmdpri = 0, rt_maxpri = 0, v_maxsyspri = 2, proc_sched = 0\<rparr>"

definition demo_proc :: "pstat \<Rightarrow> int \<Rightarrow> proc" where
  "demo_proc s pri = \<lparr>p_stat = s, p_flag = SLOAD, p_pri = pri, p_link = None, p_wchan = 0, p_clfuncs = Ts, p_parent = 0, p_signalled = False\<rparr>"

definition demo0 :: sched where
  "demo0 = \<lparr>procs = (\<lambda>_. demo_proc SZOMB 0)(1 := demo_proc SONPROC 0, 2 := demo_proc SIDL 1), dispqs = [], dqactmap = [],
     sleepqs = replicate NSLEEPQ \<lparr>sq_first = None, sq_last = None\<rparr>, srunprocs = 0, maxrunpri = -1, curproc = 1, curpri = 0, runrun = 0,
     kprunrun = 0, npwakecnt = 0, runin = 0, runout = 0, ts_plist = [1, 2], rt_plist = [],
     tsprocs = (\<lambda>_. \<lparr>ts_timeleft = 10, ts_cpupri = 0, ts_uprilim = 0, ts_upri = 0, ts_umdpri = 0, ts_nice = 20, ts_kpri = False, ts_backq = False,
                     ts_forked = False, ts_dispwait = 0\<rparr>),
     rtprocs = (\<lambda>_. \<lparr>rt_pquantum = 10, rt_timeleft = 10, rt_pri = 0, rt_ran = False, rt_backq = False\<rparr>),
     ts_dptbl = [\<lparr>ts_globpri = 0, ts_quantum = 10, ts_tqexp = 0, ts_slpret = 1, ts_maxwait = 5, ts_lwait = 1\<rparr>,
                 \<lparr>ts_globpri = 1, ts_quantum = 5, ts_tqexp = 0, ts_slpret = 1, ts_maxwait = 0, ts_lwait = 1\<rparr>],
     rt_dptbl = [\<lparr>rt_globpri = 3, rt_quantum = 10\<rparr>], tspexists = 1\<rparr>"

definition demo :: sched where
  "demo = dispinit [3] demo0"

lemma demo_rest: "at_rest demo_cf demo0"
  by (simp add: at_rest_def demo0_def demo_proc_def)

lemma demo_ok: "cls_ok demo_cf demo"
  by (simp add: cls_ok_def conf_ok_def ts_ok_def rt_ok_def ts_entry_ok_def demo_def demo0_def demo_cf_def demo_proc_def dispinit_def Let_def)

lemma demo_inv: "sched_inv demo_cf demo (\<lambda>_. []) (\<lambda>_. [])"
  unfolding demo_def by (rule dispinit_inv [OF demo_rest demo_ok [unfolded demo_def]])

lemma demo_running: "running demo" "p_stat (procs demo 1) = SONPROC" "curproc demo = 1"
  by (simp_all add: running_def demo_def demo0_def demo_proc_def dispinit_def Let_def)

lemma demo_disp: "disp_ok demo_cf 0"
  by (simp add: disp_ok_def demo_cf_def)

section \<open>The queues\<close>

text \<open>
  C11: The dispatcher's operations on its linked queues, counts and bit map implement the operations on one list of processes per priority:
  \<^verbatim>\<open>setbackdq\<close> appends, \<^verbatim>\<open>setfrontdq\<close> puts in front, \<^verbatim>\<open>dispdeq\<close> removes and tells whether the process was on its queue.
\<close>

theorem disp_queues_refine:
  assumes "disp_rel st Q" and "p_pri (procs st p) = int i" and "i < length (dispqs st)"
  shows "((\<forall>j. p \<notin> set (Q j)) \<longrightarrow>
            (\<exists>st'. setbackdq p st = Some st' \<and> disp_rel st' (Q(i := Q i @ [p]))) \<and>
            (\<exists>st'. setfrontdq p st = Some st' \<and> disp_rel st' (Q(i := p # Q i)))) \<and>
         (\<exists>st'. dispdeq p st = Some (p \<in> set (Q i), st') \<and> disp_rel st' (Q(i := remove1 p (Q i))))"
  using setbackdq_ok [OF assms] setfrontdq_ok [OF assms] dispdeq_ok [OF assms] by blast

theorem disp_queues_refine_witness:
  "\<exists>st'. setbackdq 2 demo = Some st' \<and> disp_rel st' ((\<lambda>_. [])(1 := [2]))"
proof -
  have "disp_rel demo (\<lambda>_. [])" by (rule sched_onD(1) [OF demo_inv])
  moreover have "p_pri (procs demo 2) = int 1" "1 < length (dispqs demo)"
    by (simp_all add: demo_def demo0_def demo_proc_def dispinit_def Let_def)
  ultimately show ?thesis using disp_queues_refine [of demo "\<lambda>_. []" 2 1] by simp
qed

lemma rest_eqD:
  "rest st1 = rest st \<Longrightarrow> st1 = st\<lparr>dispqs := dispqs st1, dqactmap := dqactmap st1, srunprocs := srunprocs st1, maxrunpri := maxrunpri st1\<rparr>"
  by (cases st1; cases st) (simp add: rest_def)

lemma proc_stat_link:
  fixes X A :: proc
  assumes "X = A\<lparr>p_stat := s, p_link := p_link X\<rparr>"
  shows "X = A\<lparr>p_link := p_link X, p_stat := s\<rparr>" and "X\<lparr>p_stat := t\<rparr> = A\<lparr>p_link := p_link X, p_stat := t\<rparr>"
  using assms by (cases X; cases A; simp)+

text \<open>
  C10: When some process can run (\<^verbatim>\<open>maxrunpri\<close> is not -1), \<^verbatim>\<open>pswtch\<close> gives the processor to the first process in memory on the queue of
  the highest priority that has one, and takes it off its queue, leaving all queues otherwise as they are. It makes the old process ready
  if that was running, clears \<^verbatim>\<open>runrun\<close>, \<^verbatim>\<open>kprunrun\<close> and \<^verbatim>\<open>npwakecnt\<close> and sets \<^verbatim>\<open>curpri\<close> and \<^verbatim>\<open>curproc\<close>; but for the dispatcher's
  queues, counts and bit map, and the links of the processes on that queue, it changes nothing else.
\<close>

theorem pswtch_runs_best:
  assumes "disp_rel st Q" and "maxrunpri st \<noteq> -1"
  shows "\<exists>i us p vs st'. pswtch cf runqs idle st = Some st' \<and> Q i = us @ p # vs \<and> loaded (procs st p) \<and> (\<forall>u \<in> set us. \<not> loaded (procs st u)) \<and>
           (\<forall>j > i. \<forall>r \<in> set (Q j). \<not> loaded (procs st r)) \<and> disp_rel st' (Q(i := us @ vs)) \<and>
           (\<forall>q. procs st' q = (procs st q)\<lparr>p_link := p_link (procs st' q),
              p_stat := (if q = p then SONPROC else if q = curproc st \<and> p_stat (procs st q) = SONPROC then SRUN else p_stat (procs st q))\<rparr> \<and>
              (q \<notin> set (Q i) \<longrightarrow> p_link (procs st' q) = p_link (procs st q))) \<and>
           st' = st\<lparr>procs := procs st', dispqs := dispqs st', dqactmap := dqactmap st', srunprocs := srunprocs st', maxrunpri := maxrunpri st',
                    runrun := 0, kprunrun := 0, npwakecnt := 0, curpri := int i, curproc := p\<rparr>"
proof -
  define s0 where "s0 = (if p_stat (procs st (curproc st)) = SONPROC then set_proc (curproc st) (\<lambda>p. p\<lparr>p_stat := SRUN\<rparr>) st else st)"
  have rel: "disp_rel s0 Q" using assms(1) by (simp add: s0_def disp_rel_stat)
  have max: "maxrunpri s0 \<noteq> -1" using assms(2) by (simp add: s0_def)
  have s0: "s0 = st\<lparr>procs := procs s0\<rparr>" by (simp add: s0_def set_proc_def)
  have p0: "procs s0 q = (procs st q)\<lparr>p_stat := (if q = curproc st \<and> p_stat (procs st q) = SONPROC then SRUN else p_stat (procs st q))\<rparr>"
    "loaded (procs s0 q) = loaded (procs st q)" for q
    by (cases "p_stat (procs st (curproc st)) = SONPROC"; cases "q = curproc st"; simp add: s0_def loaded_def)+
  from pswtch_pick_ok [OF rel max] obtain i us p vs st' st1 where
    s: "pswtch_pick s0 = Some st'" "i < length (dispqs s0)" "Q i = us @ p # vs" "loaded (procs s0 p)" "\<forall>u \<in> set us. \<not> loaded (procs s0 u)"
      "\<forall>j > i. \<forall>r \<in> set (Q j). \<not> loaded (procs s0 r)" "disp_rel st1 (Q(i := us @ vs))"
      "disp_frame (set (Q i)) (s0\<lparr>runrun := 0, kprunrun := 0, npwakecnt := 0\<rparr>) st1"
      "st' = (set_proc p (\<lambda>q. q\<lparr>p_stat := SONPROC\<rparr>) st1)\<lparr>curpri := p_pri (procs s0 p), curproc := p\<rparr>" by blast
  have op: "pswtch cf runqs idle st = Some st'"
    unfolding pswtch_def Let_def s0_def [symmetric] using max s(1) by (simp add: pswtch_wait.simps)
  have pri: "p_pri (procs s0 p) = int i" using queues_okD(3) [OF conjunct1 [OF disp_relD [OF rel]], of p i] s(3) by simp
  have rel': "disp_rel st' (Q(i := us @ vs))" unfolding s(9) quiet by (rule disp_rel_stat [OF s(7)])
  have fr: "procs st1 q = (procs s0 q)\<lparr>p_link := p_link (procs st1 q)\<rparr>" "q \<notin> set (Q i) \<Longrightarrow> p_link (procs st1 q) = p_link (procs s0 q)" for q
    using s(8) by (simp_all add: disp_frame_def)
  have procs: "procs st' q = (procs st q)\<lparr>p_link := p_link (procs st' q),
      p_stat := (if q = p then SONPROC else if q = curproc st \<and> p_stat (procs st q) = SONPROC then SRUN else p_stat (procs st q))\<rparr>"
    "q \<notin> set (Q i) \<Longrightarrow> p_link (procs st' q) = p_link (procs st q)" for q
  proof -
    have "procs st1 q = (procs st q)\<lparr>p_stat := (if q = curproc st \<and> p_stat (procs st q) = SONPROC then SRUN else p_stat (procs st q)), p_link := p_link (procs st1 q)\<rparr>"
      by (rule trans [OF fr(1)]) (simp only: p0(1))
    note e = proc_stat_link [OF this]
    have x: "procs st' q = (if q = p then (procs st1 q)\<lparr>p_stat := SONPROC\<rparr> else procs st1 q)" "p_link (procs st' q) = p_link (procs st1 q)"
      by (simp_all add: s(9))
    have eq: "procs st' q = (procs st q)\<lparr>p_link := p_link (procs st1 q), p_stat := (if q = p then SONPROC else if q = curproc st \<and> p_stat (procs st q) = SONPROC then SRUN else p_stat (procs st q))\<rparr>"
    proof (cases "q = p")
      case True
      from x(1) True have "procs st' q = (procs st1 q)\<lparr>p_stat := SONPROC\<rparr>" by simp
      also note e(2)
      finally show ?thesis using True by simp
    next
      case False
      from x(1) False have "procs st' q = procs st1 q" by simp
      also note e(1)
      finally show ?thesis using False by simp
    qed
    then show "procs st' q = (procs st q)\<lparr>p_link := p_link (procs st' q), p_stat := (if q = p then SONPROC else if q = curproc st \<and> p_stat (procs st q) = SONPROC then SRUN else p_stat (procs st q))\<rparr>"
      unfolding x(2) .
    show "q \<notin> set (Q i) \<Longrightarrow> p_link (procs st' q) = p_link (procs st q)" using fr(2) [of q] by (cases "q = p") (simp_all add: s(9) p0(1))
  qed
  have "rest st1 = rest (s0\<lparr>runrun := 0, kprunrun := 0, npwakecnt := 0, procs := procs st1\<rparr>)" using s(8) by (simp add: disp_frame_def)
  from rest_eqD [OF this] have "st1 = st\<lparr>runrun := 0, kprunrun := 0, npwakecnt := 0, procs := procs st1, dispqs := dispqs st1,
      dqactmap := dqactmap st1, srunprocs := srunprocs st1, maxrunpri := maxrunpri st1\<rparr>" by (subst (asm) s0) simp
  then have st': "st' = st\<lparr>procs := procs st', dispqs := dispqs st', dqactmap := dqactmap st', srunprocs := srunprocs st', maxrunpri := maxrunpri st',
      runrun := 0, kprunrun := 0, npwakecnt := 0, curpri := int i, curproc := p\<rparr>"
    unfolding s(9) pri by (cases st1; cases st) (simp add: set_proc_def)
  have ld: "loaded (procs st p)" "\<forall>u \<in> set us. \<not> loaded (procs st u)" "\<forall>j > i. \<forall>r \<in> set (Q j). \<not> loaded (procs st r)"
    unfolding p0(2) [symmetric] by (fact s(4-6))+
  have all: "\<forall>q. procs st' q = (procs st q)\<lparr>p_link := p_link (procs st' q),
        p_stat := (if q = p then SONPROC else if q = curproc st \<and> p_stat (procs st q) = SONPROC then SRUN else p_stat (procs st q))\<rparr> \<and>
      (q \<notin> set (Q i) \<longrightarrow> p_link (procs st' q) = p_link (procs st q))"
    by (intro allI conjI impI procs)
  show ?thesis
    by (rule exI [of _ i], rule exI [of _ us], rule exI [of _ p], rule exI [of _ vs], rule exI [of _ st'], intro conjI op s(3) ld rel' all st')
qed

theorem pswtch_runs_best_witness:
  "\<exists>st1 st'. setbackdq 2 demo = Some st1 \<and> pswtch demo_cf (\<lambda>_. None) id st1 = Some st' \<and> curproc st' = 2 \<and> p_stat (procs st' 1) = SRUN"
proof -
  have pri: "p_pri (procs demo 2) = int 1" "1 < length (dispqs demo)" "loaded (procs demo 2)"
    by (simp_all add: demo_def demo0_def demo_proc_def dispinit_def Let_def loaded_def SLOAD_def SPROCIO_def)
  from setbackdq_ok [OF sched_onD(1) [OF demo_inv] pri(1,2)] obtain st1 where s: "setbackdq 2 demo = Some st1"
      "disp_rel st1 ((\<lambda>_. [])(1 := [2]))" "disp_frame {2} demo st1" by auto
  have "loaded_cnt st1 ((\<lambda>_. [])(1 := [2])) 1 = 1" using disp_frame_proc(6) [OF s(3)] pri(3) by (simp add: loaded_cnt_def)
  then have "maxrunpri st1 \<noteq> -1" using counts_okD(6) [OF conjunct2 [OF disp_relD [OF s(2)]]] by (auto simp: top_ok_def)
  from pswtch_runs_best [OF s(2) this, of demo_cf "\<lambda>_. None" id] obtain i us p vs st' where
    w: "pswtch demo_cf (\<lambda>_. None) id st1 = Some st'" "((\<lambda>_. [])(1 := [2])) (i :: nat) = us @ p # vs"
      "\<forall>q. procs st' q = (procs st1 q)\<lparr>p_link := p_link (procs st' q),
         p_stat := (if q = p then SONPROC else if q = curproc st1 \<and> p_stat (procs st1 q) = SONPROC then SRUN else p_stat (procs st1 q))\<rparr>"
      "st' = st1\<lparr>procs := procs st', dispqs := dispqs st', dqactmap := dqactmap st', srunprocs := srunprocs st', maxrunpri := maxrunpri st',
         runrun := 0, kprunrun := 0, npwakecnt := 0, curpri := int i, curproc := p\<rparr>" by blast
  have p: "p = 2" using w(2) by (auto split: if_splits simp: Cons_eq_append_conv)
  have c: "curproc st' = p" by (subst w(4)) simp
  have "p_stat (procs st' 1) = (if 1 = curproc st1 \<and> p_stat (procs st1 1) = SONPROC then SRUN else p_stat (procs st1 1))"
    using arg_cong [where f = p_stat, OF w(3) [rule_format, of 1]] p by simp
  then show ?thesis using s(1) w(1) p c demo_running(2,3) disp_frame_proc(1) [OF s(3), of 1] disp_frameD(3) [OF s(3)] by simp
qed

section \<open>The machine\<close>

text \<open>
  C3: In every state scheduling reaches from \<^verbatim>\<open>dispinit\<close>, through ticks, updates, sleeps, wakeups, preemptions, switches, new processes and
  changes of parameters, the ready processes are those on the dispatcher queues, each on one queue only, that of its priority; the processes that wait
  for a channel are those on the sleep queues, each on the queue of its channel; and one process at most is running.
\<close>

theorem sched_reach_sound:
  assumes "at_rest cf st0" and "cls_ok cf (dispinit maxs st0)" and "sched_reach cf (dispinit maxs st0) st"
  shows "\<exists>Q W. disp_rel st Q \<and> sleep_rel UNIV st W \<and>
           (\<forall>p. p_stat (procs st p) = SRUN \<longleftrightarrow> p \<in> set (Q (nat (p_pri (procs st p))))) \<and>
           (\<forall>i. distinct (Q i) \<and> (\<forall>p \<in> set (Q i). p_pri (procs st p) = int i \<and> p_stat (procs st p) = SRUN)) \<and>
           (\<forall>p. p_stat (procs st p) = SSLEEP \<longrightarrow> p \<in> set (W (sqhash (p_wchan (procs st p))))) \<and>
           (\<forall>i. \<forall>p \<in> set (W i). p_stat (procs st p) = SSLEEP \<or> p_stat (procs st p) = SSTOP) \<and>
           (\<forall>p q. p_stat (procs st p) = SONPROC \<and> p_stat (procs st q) = SONPROC \<longrightarrow> p = q)"
proof -
  obtain Q W where inv: "sched_inv cf st Q W" using reach_inv [OF assms(3)] dispinit_inv [OF assms(1,2)] by blast
  note d = sched_onD [OF inv] and q = conjunct1 [OF disp_relD [OF sched_onD(1) [OF inv]]] and r = sleep_relD [OF sched_onD(3) [OF inv]]
  have pri: "p_pri (procs st p) = int i" if "p \<in> set (Q i)" for p i by (rule queues_okD(3) [OF q that])
  have run: "p_stat (procs st p) = SRUN \<longleftrightarrow> p \<in> set (Q (nat (p_pri (procs st p))))" for p
    using d(6) [of p] pri [of p] unfolding onq_iff by auto
  have dist: "distinct (Q i)" for i
    using linkq_distinct [OF queues_okD(1) [OF q, of i]] queues_okD(2) [OF q, of i] by (cases "i < length (dispqs st)") auto
  have on: "p_pri (procs st p) = int i \<and> p_stat (procs st p) = SRUN" if "p \<in> set (Q i)" for p i using pri [OF that] run [of p] that by simp
  have sl: "p \<in> set (W (sqhash (p_wchan (procs st p))))" if "p_stat (procs st p) = SSLEEP" for p using d(7) [of p] that r(4) [of p] by simp
  have st: "p_stat (procs st p) = SSLEEP \<or> p_stat (procs st p) = SSTOP" if "p \<in> set (W i)" for p i using r(4,5) [of p] that by blast
  have one: "p = q" if "p_stat (procs st p) = SONPROC \<and> p_stat (procs st q) = SONPROC" for p q using d(8) that by metis
  show ?thesis
    by (intro exI [of _ Q] exI [of _ W] conjI allI ballI impI) (rule d(1) d(3) run dist conjunct1 [OF on] conjunct2 [OF on] sl st one; assumption?)+
qed

theorem sched_reach_sound_witness:
  "\<exists>st. sched_reach demo_cf demo st \<and> p_stat (procs st 1) = SSLEEP \<and>
     (\<exists>Q W. disp_rel st Q \<and> sleep_rel UNIV st W \<and> 1 \<in> set (W (sqhash (p_wchan (procs st 1)))))"
proof -
  obtain st where st: "sleep_nosig demo_cf 1 8 0 demo = Some st" "p_stat (procs st 1) = SSLEEP"
    using sleep_nosig_ok [OF demo_inv demo_running(2) _ demo_disp, of 8] by auto
  have "enabled demo_cf (Block 8 0) demo" "perform demo_cf (Block 8 0) demo = Some st"
    unfolding perform.simps enabled.simps demo_running(3) using st(1) demo_running(1) demo_disp by simp_all
  then have "sched_reach demo_cf demo st" by (rule sched_reach.step [OF sched_reach.start])
  with sched_reach_sound [OF demo_rest demo_ok [unfolded demo_def], of st] st show ?thesis unfolding demo_def [symmetric] by metis
qed

text \<open>
  C4: No event of the machine faults: in a state it reaches, the clock tick of the current process, the update of the time-sharing class,
  the return to user mode, a sleep whose priority is inside \<^verbatim>\<open>ts_kmdpris\<close> (the caller's duty, \<^verbatim>\<open>ts_sleep\<close> does not check it), a preemption,
  the switch, the idle loop, \<^verbatim>\<open>wakeprocs\<close>, \<^verbatim>\<open>setrun\<close>, the end of \<^verbatim>\<open>newproc\<close>, \<^verbatim>\<open>ts_parmsset\<close>, \<^verbatim>\<open>ts_donice\<close> and \<^verbatim>\<open>rt_parmsset\<close> with a priority of the
  table have a result, so they use no index outside an array, follow no null pointer and come to an end; and all priorities stay inside
  the tables.
\<close>

theorem sched_no_fault:
  assumes "at_rest cf st0" and "cls_ok cf (dispinit maxs st0)" and "sched_reach cf (dispinit maxs st0) st" and "enabled cf ev st"
  shows "\<exists>st'. perform cf ev st = Some st' \<and> cls_ok cf st' \<and> sched_reach cf (dispinit maxs st0) st'"
proof -
  obtain Q W where "sched_inv cf st Q W" using reach_inv [OF assms(3)] dispinit_inv [OF assms(1,2)] by blast
  from perform_ok [OF this assms(4)] obtain st' Q' W' where s: "perform cf ev st = Some st'" "sched_inv cf st' Q' W'" by blast
  have "sched_reach cf (dispinit maxs st0) st'" by (rule sched_reach.step [OF assms(3,4) s(1)])
  then show ?thesis using s(1) sched_onD(2) [OF s(2)] by blast
qed

theorem sched_no_fault_witness:
  "\<exists>st. perform demo_cf (Wake 8 True) demo = Some st \<and> cls_ok demo_cf st"
  using sched_no_fault [OF demo_rest demo_ok [unfolded demo_def] sched_reach.start, of "Wake 8 True"] unfolding demo_def [symmetric] by auto

section \<open>Waking\<close>

text \<open>
  C12: \<^verbatim>\<open>wakeprocs\<close>, when the swapper is not stopped, makes every sleeper on the channel ready and puts it on the dispatcher queue of its
  priority, takes it and the stopped processes that wait for the channel off their sleep queue, leaving the sleep queues otherwise as
  they are and in their order, and changes the state and the wait channel of no other process. (The swapper, which it may set running, is
  left out of account.) Queues, counts and sleep queues are consistent afterwards.
\<close>

theorem wakeprocs_wakes:
  assumes "sched_inv cf st Q W" and "p_stat (procs st (proc_sched cf)) \<noteq> SSTOP"
  shows "\<exists>st' Q' W'. wakeprocs cf chan prmpt st = Some st' \<and> sched_inv cf st' Q' W' \<and>
           (\<forall>p. p_stat (procs st p) = SSLEEP \<and> p_wchan (procs st p) = chan \<longrightarrow>
              p_stat (procs st' p) = SRUN \<and> p \<in> set (Q' (nat (p_pri (procs st' p))))) \<and>
           (\<forall>i. removeAll (proc_sched cf) (W' i) = removeAll (proc_sched cf) (filter (\<lambda>p. p_wchan (procs st p) \<noteq> chan) (W i))) \<and>
           (\<forall>p. p \<noteq> proc_sched cf \<longrightarrow>
              p_wchan (procs st' p) = (if p_wchan (procs st p) = chan then 0 else p_wchan (procs st p)) \<and>
              p_stat (procs st' p) = (if p_wchan (procs st p) = chan \<and> p_stat (procs st p) = SSLEEP then SRUN else p_stat (procs st p)))"
proof -
  from wakeprocs_woken [OF assms, of chan prmpt] obtain st' Q' W' where s: "wakeprocs cf chan prmpt st = Some st'" "sched_inv cf st' Q' W'"
      "\<forall>p. p_stat (procs st p) = SSLEEP \<and> p_wchan (procs st p) = chan \<longrightarrow> p_stat (procs st' p) = SRUN"
      "\<forall>i. removeAll (proc_sched cf) (W' i) = removeAll (proc_sched cf) (filter (\<lambda>p. p_wchan (procs st p) \<noteq> chan) (W i))"
      "\<forall>p. p \<noteq> proc_sched cf \<longrightarrow>
         p_wchan (procs st' p) = (if p_wchan (procs st p) = chan then 0 else p_wchan (procs st p)) \<and>
         p_stat (procs st' p) = (if p_wchan (procs st p) = chan \<and> p_stat (procs st p) = SSLEEP then SRUN else p_stat (procs st p))" by blast
  have "p \<in> set (Q' (nat (p_pri (procs st' p))))" if "p_stat (procs st' p) = SRUN" for p
    using that sched_onD(6) [OF s(2), of p] queues_okD(3) [OF conjunct1 [OF disp_relD [OF sched_onD(1) [OF s(2)]]], of p]
    unfolding onq_iff by auto
  with s(3) have "\<forall>p. p_stat (procs st p) = SSLEEP \<and> p_wchan (procs st p) = chan \<longrightarrow>
      p_stat (procs st' p) = SRUN \<and> p \<in> set (Q' (nat (p_pri (procs st' p))))" by blast
  then show ?thesis using s(1,2,4,5) by blast
qed

theorem wakeprocs_wakes_witness:
  "\<exists>st1 st2. sleep_enq 1 8 demo = Some st1 \<and> p_stat (procs st1 1) = SSLEEP \<and> wakeprocs demo_cf 8 True st1 = Some st2 \<and>
     p_stat (procs st2 1) = SRUN \<and> p_stat (procs st2 2) = SIDL"
proof -
  obtain st1 where s: "sleep_enq 1 8 demo = Some st1" "sched_inv demo_cf st1 (\<lambda>_. []) ((\<lambda>_. [])(sqhash 8 := [1]))"
      "\<forall>q. p_stat (procs st1 q) = (if q = 1 then SSLEEP else p_stat (procs demo q)) \<and> p_wchan (procs st1 q) = (if q = 1 then 8 else p_wchan (procs demo q))"
    using sleep_enq_ok [OF demo_inv demo_running(2), of 8] by auto
  have old: "p_stat (procs demo 0) = SZOMB" "p_stat (procs demo 2) = SIDL" "p_wchan (procs demo 2) = 0"
    by (simp_all add: demo_def demo0_def demo_proc_def dispinit_def Let_def)
  have "p_stat (procs st1 (proc_sched demo_cf)) \<noteq> SSTOP" "proc_sched demo_cf = 0" using s(3) old by (simp_all add: demo_cf_def)
  with wakeprocs_wakes [OF s(2), of 8 True] obtain st2 where w: "wakeprocs demo_cf 8 True st1 = Some st2"
      "\<forall>p. p_stat (procs st1 p) = SSLEEP \<and> p_wchan (procs st1 p) = 8 \<longrightarrow> p_stat (procs st2 p) = SRUN"
      "\<forall>p. p \<noteq> 0 \<longrightarrow> p_stat (procs st2 p) = (if p_wchan (procs st1 p) = 8 \<and> p_stat (procs st1 p) = SSLEEP then SRUN else p_stat (procs st1 p))" by auto
  show ?thesis using s(1,3) w(1) w(2) [rule_format, of 1] w(3) [rule_format, of 2] old by (intro exI [of _ st1] exI [of _ st2]) simp
qed

text \<open>
  C21: \<^verbatim>\<open>setrun\<close> and \<^verbatim>\<open>wakeprocs\<close>, which call each other, return: a chain of the calls has four links at most.
\<close>

theorem setrun_wakeprocs_end:
  assumes "sched_inv cf st Q W"
  shows "(\<exists>st'. setrun cf p st = Some st') \<and> (\<exists>st'. wakeprocs cf chan prmpt st = Some st')"
  using setrun_ok [OF assms] wakeprocs_ok [OF assms] by blast

theorem setrun_wakeprocs_end_witness: "\<exists>st'. setrun demo_cf 2 demo = Some st'"
  using setrun_wakeprocs_end [OF demo_inv] by blast

section \<open>Ageing\<close>

text \<open>
  C20: No time-sharing process starves at its level: one that stays ready at its user mode priority, through updates with nothing in
  between, gets the level \<^verbatim>\<open>ts_lwait\<close> of the table with the update in which its wait first exceeds \<^verbatim>\<open>ts_maxwait\<close> seconds; its user mode
  priority becomes the sum of that level and of its user priority, cut to the range of the table, and its global priority the one of
  the table for it.
\<close>

theorem ts_update_raises:
  assumes "sched_inv cf st Q W" and "distinct (ts_plist st)" and "p \<in> set (ts_plist st)" and "waits p st" and "ts_level p st = Some d"
    and "nth_opt (ts_dptbl st) (ts_cpupri (tsprocs st p)) = Some e" and "0 \<le> ts_dispwait (tsprocs st p)" and "ts_maxwait d < 32767"
    and "ts_dispwait (tsprocs st p) \<le> ts_maxwait d"
  shows "\<exists>st' g. ts_seconds cf (Suc (nat (ts_maxwait d - ts_dispwait (tsprocs st p)))) st = Some st' \<and>
           ts_cpupri (tsprocs st' p) = ts_lwait e \<and> ts_dispwait (tsprocs st' p) = 0 \<and>
           ts_umdpri (tsprocs st' p) = max 0 (min (ts_maxumdpri cf) (to_short (ts_lwait e + ts_upri (tsprocs st p)))) \<and>
           nth_opt (ts_dptbl st') (ts_umdpri (tsprocs st' p)) = Some g \<and> p_pri (procs st' p) = ts_globpri g \<and> p_stat (procs st' p) = p_stat (procs st p)"
  using ts_seconds_raise [OF assms(1-8) refl assms(9)] unfolding ts_level_def by blast

theorem ts_update_raises_witness:
  "\<exists>st'. ts_seconds demo_cf 6 demo = Some st' \<and> ts_cpupri (tsprocs demo 1) = 0 \<and> ts_cpupri (tsprocs st' 1) = 1"
proof -
  have "ts_plist demo = [1, 2]" "waits 1 demo" "ts_dispwait (tsprocs demo 1) = 0" "ts_cpupri (tsprocs demo 1) = 0"
    "ts_level 1 demo = Some (ts_dptbl demo ! 0)" "nth_opt (ts_dptbl demo) (ts_cpupri (tsprocs demo 1)) = Some (ts_dptbl demo ! 0)"
    "ts_maxwait (ts_dptbl demo ! 0) = 5" "ts_lwait (ts_dptbl demo ! 0) = 1"
    by (simp_all add: demo_def demo0_def demo_proc_def dispinit_def Let_def waits_def ts_level_def nth_opt_def SLOAD_def SPROCIO_def)
  note facts = this
  have "Suc (nat (ts_maxwait (ts_dptbl demo ! 0) - ts_dispwait (tsprocs demo 1))) = 6" unfolding facts by simp
  with ts_update_raises [OF demo_inv _ _ facts(2,5,6)] facts show ?thesis by (auto simp del: ts_seconds.simps)
qed

section \<open>Where the class disagrees with its comments\<close>

lemma dispdeq_tsprocs: "dispdeq p st = Some (b, st') \<Longrightarrow> tsprocs st' = tsprocs st"
  by (auto simp: dispdeq_def dq_srundec_def dq_unlink_def set_dq_def set_proc_def Let_def array_nat_def
      split: bind_splits option.splits if_splits)

lemma setbackdq_tsprocs: "setbackdq p st = Some st' \<Longrightarrow> tsprocs st' = tsprocs st"
  by (auto simp: setbackdq_def dq_sruninc_def set_dq_def set_proc_def Let_def array_nat_def
      split: bind_splits option.splits if_splits)

lemma ts_resetpri_keeps:
  "ts_resetpri p st = Some st' \<Longrightarrow> ts_upri (tsprocs st' p) = ts_upri (tsprocs st p) \<and> ts_nice (tsprocs st' p) = ts_nice (tsprocs st p)"
  by (auto simp: ts_resetpri_def ts_newquantum_def Let_def dest!: dispdeq_tsprocs setbackdq_tsprocs split: bind_splits if_splits)

lemma ts_parmsset_sets:
  assumes "ts_parmsset cf \<lparr>tp_uprilim = lim, tp_upri = u\<rparr> p cr st = Some (None, st')" and "lim \<noteq> TS_NOCHANGE" and "u \<noteq> TS_NOCHANGE" and "lim \<le> u"
  shows "ts_upri (tsprocs st' p) = lim"
    and "ts_nice (tsprocs st' p) = (let nice = to_char (20 - (u * 20) sdiv ts_maxupri cf) in if nice = 40 then 39 else nice)"
  using assms by (auto simp: ts_parmsset_def Let_def split: bind_splits if_splits option.splits dest!: ts_resetpri_keeps)



text \<open>
  \<^verbatim>\<open>ts_swapout\<close> nominates the first of the sleeping and stopped processes of the lowest priority; when there is none, it nominates
  the first ready process on the list, which need not be the one of the lowest priority that the comment promises.
\<close>

theorem ts_swapout_nominates:
  assumes "\<forall>p. p_pri (procs st p) \<le> ts_maxglobpri cf st"
  shows "ts_swapout cf jl st =
           (if filter (resting st jl) (ts_plist st) \<noteq> []
            then Some (arg_min_list (\<lambda>p. p_pri (procs st p)) (filter (resting st jl) (ts_plist st)))
            else case filter (swap_ready st jl) (ts_plist st) of [] \<Rightarrow> None | r # _ \<Rightarrow> Some r)"
  unfolding ts_swapout_def using assms by (intro swapout_any) force

theorem ts_swapout_nominates_witness:
  "\<exists>st. p_stat (procs st 1) = SRUN \<and> p_stat (procs st 2) = SRUN \<and> p_pri (procs st 2) < p_pri (procs st 1) \<and>
     swap_ready st None 2 \<and> ts_swapout demo_cf None st = Some 1"
proof -
  define st where "st = demo\<lparr>procs := (\<lambda>_. demo_proc SZOMB 0)(1 := demo_proc SRUN 1, 2 := demo_proc SRUN 0)\<rparr>"
  have p: "procs st 1 = demo_proc SRUN 1" "procs st 2 = demo_proc SRUN 0" "ts_plist st = [1, 2]" "ts_maxglobpri demo_cf st = 2"
    by (simp_all add: st_def demo_def demo0_def dispinit_def Let_def ts_maxglobpri_def demo_cf_def)
  have all: "\<forall>q. p_pri (procs st q) \<le> ts_maxglobpri demo_cf st" unfolding p(4) by (simp add: st_def demo_proc_def)
  have f: "resting st None 1 = False" "resting st None 2 = False" "swap_ready st None 1" "swap_ready st None 2"
    using p(1,2) by (simp_all add: resting_def swap_ready_def swappable_def demo_proc_def SLOAD_def SSYS_def SLOCK_def SUSWAP_def SPROCIO_def SSWLOCKS_def)
  show ?thesis using ts_swapout_nominates [OF all, of None] f p by (intro exI [of _ st]) (simp add: demo_proc_def)
qed

end
