(* ===== verification/Clist.thy ===== *)
theory Clist
  imports Kernel_Prelude "HOL-Library.Monad_Syntax"
begin

text \<open>
  Character lists: \<^verbatim>\<open>io/clist.c\<close> with the structures of \<^verbatim>\<open>sys/tty.h\<close>. The blocks are the array \<^verbatim>\<open>cfree\<close>, a pointer to one is its
  index or \<open>None\<close> for \<^verbatim>\<open>NULL\<close>; a list is named by the terminal it belongs to. \<open>None\<close> as a result stands for a null pointer that is
  followed or an index outside \<^verbatim>\<open>c_data\<close>, so that their absence is a theorem.
\<close>

section \<open>The data\<close>

definition CLSIZE :: nat where "CLSIZE = 64"

record cblock =
  c_next :: "nat option"
  c_first :: u8
  c_last :: u8
  c_data :: "u8 list"

text \<open>\<^verbatim>\<open>c_cc\<close> is an \<^verbatim>\<open>int\<close>; it counts characters that lie in memory.\<close>

record clist =
  c_cc :: int
  c_cf :: "nat option"
  c_cl :: "nat option"

text \<open>\<open>free_next\<close> is the \<^verbatim>\<open>c_next\<close> of \<^verbatim>\<open>struct chead\<close>.\<close>

record chead =
  free_next :: "nat option"
  c_size :: int
  c_flag :: int

text \<open>The three lists in a \<^verbatim>\<open>struct tty\<close>, and those of other drivers.\<close>

datatype clq = RawQ nat | CanQ nat | OutQ nat | OtherQ nat

text \<open>\<open>cwoken\<close> counts the calls of \<^verbatim>\<open>wakeup(&cfreelist)\<close>.\<close>

record cstate =
  cfree :: "nat \<Rightarrow> cblock option"
  cfreelist :: chead
  cfreecnt :: int
  clists :: "clq \<Rightarrow> clist"
  cwoken :: nat

section \<open>Steps that several operations share\<close>

definition set_block :: "nat \<Rightarrow> cblock \<Rightarrow> cstate \<Rightarrow> cstate" where
  "set_block bp cb s = s\<lparr>cfree := (cfree s)(bp \<mapsto> cb)\<rparr>"

definition set_list :: "clq \<Rightarrow> clist \<Rightarrow> cstate \<Rightarrow> cstate" where
  "set_list p l s = s\<lparr>clists := (clists s)(p := l)\<rparr>"

text \<open>\<^verbatim>\<open>if ((p->c_cf = bp->c_next) == NULL) p->c_cl = NULL;\<close>\<close>

definition unlink_first :: "clq \<Rightarrow> cblock \<Rightarrow> cstate \<Rightarrow> cstate" where
  "unlink_first p cb s =
     (let l = clists s p in
      set_list p (l\<lparr>c_cf := c_next cb, c_cl := (if c_next cb = None then None else c_cl l)\<rparr>) s)"

text \<open>\<^verbatim>\<open>bp->c_next = cfreelist.c_next; cfreelist.c_next = bp;\<close>\<close>

definition link_free :: "nat \<Rightarrow> cblock \<Rightarrow> cstate \<Rightarrow> cstate" where
  "link_free bp cb s =
     (set_block bp (cb\<lparr>c_next := free_next (cfreelist s)\<rparr>) s)\<lparr>cfreelist := (cfreelist s)\<lparr>free_next := Some bp\<rparr>\<rparr>"

text \<open>\<^verbatim>\<open>if (cfreelist.c_flag) { cfreelist.c_flag = 0; wakeup(&cfreelist); }\<close>\<close>

definition wake_free :: "cstate \<Rightarrow> cstate" where
  "wake_free s =
     (if c_flag (cfreelist s) \<noteq> 0 then s\<lparr>cfreelist := (cfreelist s)\<lparr>c_flag := 0\<rparr>, cwoken := cwoken s + 1\<rparr> else s)"

text \<open>
  The block a character is appended to: the last one when it is not full, else one from the free list linked behind it. The
  result without a block stands for an empty free list.
\<close>

definition put_block :: "clq \<Rightarrow> cstate \<Rightarrow> (nat option \<times> cstate) option" where
  "put_block p s =
     do {
       let l = clists s p;
       full \<leftarrow> (case c_cl l of None \<Rightarrow> Some True
                | Some bp \<Rightarrow> map_option (\<lambda>cb. uint (c_last cb) = c_size (cfreelist s)) (cfree s bp));
       if \<not> full then Some (c_cl l, s)
       else case free_next (cfreelist s) of
         None \<Rightarrow> Some (None, s)
       | Some bp \<Rightarrow>
           do {
             cb \<leftarrow> cfree s bp;
             let s1 = s\<lparr>cfreelist := (cfreelist s)\<lparr>free_next := c_next cb\<rparr>\<rparr>;
             let s2 = set_block bp (cb\<lparr>c_next := None, c_first := 0, c_last := 0\<rparr>) s1;
             case c_cl l of
               None \<Rightarrow> Some (Some bp, set_list p (l\<lparr>c_cf := Some bp, c_cl := Some bp\<rparr>) s2)
             | Some obp \<Rightarrow>
                 do {
                   ocb \<leftarrow> cfree s2 obp;
                   Some (Some bp, set_list p (l\<lparr>c_cl := Some bp\<rparr>) (set_block obp (ocb\<lparr>c_next := Some bp\<rparr>) s2))
                 }
           }
     }"

section \<open>Single characters\<close>

definition getc :: "clq \<Rightarrow> cstate \<Rightarrow> (int \<times> cstate) option" where
  "getc p s =
     (let l = clists s p in
      if c_cc l > 0 then
        do {
          let s1 = set_list p (l\<lparr>c_cc := c_cc l - 1\<rparr>) s;
          bp \<leftarrow> c_cf l;
          cb \<leftarrow> cfree s bp;
          if unat (c_first cb) < length (c_data cb) then
            do {
              let c = uint (c_data cb ! unat (c_first cb));
              let cb1 = cb\<lparr>c_first := c_first cb + 1\<rparr>;
              if c_first cb1 = c_last cb1 then Some (c, wake_free (link_free bp cb1 (unlink_first p cb1 s1)))
              else Some (c, set_block bp cb1 s1)
            }
          else None
        }
      else Some (-1, s))"

definition putc :: "int \<Rightarrow> clq \<Rightarrow> cstate \<Rightarrow> (int \<times> cstate) option" where
  "putc c p s =
     do {
       (r, s1) \<leftarrow> put_block p s;
       case r of
         None \<Rightarrow> Some (-1, s1)
       | Some bp \<Rightarrow>
           do {
             cb \<leftarrow> cfree s1 bp;
             if unat (c_last cb) < length (c_data cb) then
               do {
                 let cb1 = cb\<lparr>c_data := (c_data cb)[unat (c_last cb) := word_of_int c], c_last := c_last cb + 1\<rparr>;
                 let l = clists s1 p;
                 Some (0, set_list p (l\<lparr>c_cc := c_cc l + 1\<rparr>) (set_block bp cb1 s1))
               }
             else None
           }
     }"

section \<open>Blocks\<close>

definition getcf :: "cstate \<Rightarrow> (nat option \<times> cstate) option" where
  "getcf s =
     (case free_next (cfreelist s) of
        None \<Rightarrow> Some (None, s)
      | Some bp \<Rightarrow>
          do {
            cb \<leftarrow> cfree s bp;
            let s1 = s\<lparr>cfreelist := (cfreelist s)\<lparr>free_next := c_next cb\<rparr>\<rparr>;
            Some (Some bp, set_block bp (cb\<lparr>c_next := None, c_first := 0, c_last := word_of_int (c_size (cfreelist s))\<rparr>) s1)
          })"

definition putcf :: "nat \<Rightarrow> cstate \<Rightarrow> cstate option" where
  "putcf bp s = map_option (\<lambda>cb. wake_free (link_free bp cb s)) (cfree s bp)"

definition getcb :: "clq \<Rightarrow> cstate \<Rightarrow> (nat option \<times> cstate) option" where
  "getcb p s =
     (let l = clists s p in
      case c_cf l of
        None \<Rightarrow> Some (None, s)
      | Some bp \<Rightarrow>
          do {
            cb \<leftarrow> cfree s bp;
            let s1 = set_list p (l\<lparr>c_cc := c_cc l - (uint (c_last cb) - uint (c_first cb))\<rparr>) s;
            Some (Some bp, unlink_first p cb s1)
          })"

definition putcb :: "nat \<Rightarrow> clq \<Rightarrow> cstate \<Rightarrow> cstate option" where
  "putcb bp p s =
     do {
       let l = clists s p;
       s1 \<leftarrow> (case c_cl l of
                 None \<Rightarrow> Some (set_list p (l\<lparr>c_cf := Some bp, c_cl := Some bp\<rparr>) s)
               | Some obp \<Rightarrow>
                   map_option (\<lambda>ocb. set_list p (l\<lparr>c_cl := Some bp\<rparr>) (set_block obp (ocb\<lparr>c_next := Some bp\<rparr>) s)) (cfree s obp));
       cb \<leftarrow> cfree s1 bp;
       let l1 = clists s1 p;
       Some (set_list p (l1\<lparr>c_cc := c_cc l1 + (uint (c_last cb) - uint (c_first cb))\<rparr>) (set_block bp (cb\<lparr>c_next := None\<rparr>) s1))
     }"

section \<open>Several characters\<close>

text \<open>The bytes between two indices of a block; \<open>None\<close> when they are out of order or outside.\<close>

definition block_part :: "cblock \<Rightarrow> nat \<Rightarrow> nat \<Rightarrow> u8 list option" where
  "block_part cb i n = (if i + n \<le> length (c_data cb) then Some (take n (drop i (c_data cb))) else None)"

text \<open>The loop of \<^verbatim>\<open>getcbp\<close>: \<open>n\<close> bytes are still asked for, \<open>out\<close> has been copied.\<close>

partial_function (option) getcbp_loop :: "clq \<Rightarrow> nat \<Rightarrow> u8 list \<Rightarrow> cstate \<Rightarrow> (u8 list \<times> cstate) option" where
  "getcbp_loop p n out s =
     (if n = 0 \<or> c_cf (clists s p) = None then Some (out, s)
      else
        do {
          bp \<leftarrow> c_cf (clists s p);
          cb \<leftarrow> cfree s bp;
          let on = unat (c_last cb) - unat (c_first cb);
          if c_last cb < c_first cb then None
          else if on \<le> n then
            do {
              op \<leftarrow> block_part cb (unat (c_first cb)) on;
              getcbp_loop p (n - on) (out @ op) (link_free bp cb (unlink_first p cb s))
            }
          else
            do {
              op \<leftarrow> block_part cb (unat (c_first cb)) n;
              Some (out @ op, set_block bp (cb\<lparr>c_first := c_first cb + of_nat n\<rparr>) s)
            }
        })"

definition getcbp :: "clq \<Rightarrow> nat \<Rightarrow> cstate \<Rightarrow> (u8 list \<times> cstate) option" where
  "getcbp p n s =
     do {
       (out, s1) \<leftarrow> getcbp_loop p n [] s;
       let l = clists s1 p;
       Some (out, set_list p (l\<lparr>c_cc := c_cc l - int (length out)\<rparr>) s1)
     }"

text \<open>\<^verbatim>\<open>bcopy(cp, &bp->c_data[bp->c_last], n); bp->c_last += n;\<close>\<close>

definition block_fill :: "nat \<Rightarrow> u8 list \<Rightarrow> cstate \<Rightarrow> cstate option" where
  "block_fill bp bs s =
     do {
       cb \<leftarrow> cfree s bp;
       let i = unat (c_last cb);
       if i + length bs \<le> length (c_data cb) then
         Some (set_block bp (cb\<lparr>c_data := take i (c_data cb) @ bs @ drop (i + length bs) (c_data cb),
                               c_last := c_last cb + of_nat (length bs)\<rparr>) s)
       else None
     }"

text \<open>The loop of \<^verbatim>\<open>putcbp\<close>; the bytes that found no room are left over.\<close>

partial_function (option) putcbp_loop :: "clq \<Rightarrow> u8 list \<Rightarrow> cstate \<Rightarrow> (u8 list \<times> cstate) option" where
  "putcbp_loop p cp s =
     (if cp = [] then Some (cp, s)
      else
        do {
          (r, s1) \<leftarrow> put_block p s;
          if r = None then Some (cp, s1)
          else
            do {
              bp \<leftarrow> r;
              cb \<leftarrow> cfree s1 bp;
              let on = nat (c_size (cfreelist s1) - uint (c_last cb));
              if c_size (cfreelist s1) < uint (c_last cb) then None
              else if on \<le> length cp then
                do {
                  s2 \<leftarrow> block_fill bp (take on cp) s1;
                  putcbp_loop p (drop on cp) s2
                }
              else map_option (Pair []) (block_fill bp cp s1)
            }
        })"

definition putcbp :: "clq \<Rightarrow> u8 list \<Rightarrow> cstate \<Rightarrow> (nat \<times> cstate) option" where
  "putcbp p cp s =
     do {
       (rest, s1) \<leftarrow> putcbp_loop p cp s;
       let n = length cp - length rest;
       let l = clists s1 p;
       Some (n, set_list p (l\<lparr>c_cc := c_cc l + int n\<rparr>) s1)
     }"

section \<open>Initialisation\<close>

definition BOUND :: int where "BOUND = 0x10000"

definition nextbound :: "int \<Rightarrow> int" where
  "nextbound x = x div BOUND * BOUND + BOUND"

text \<open>
  \<open>mem\<close> is the memory that \<^verbatim>\<open>kseg\<close> finds and \<open>phys\<close> the physical address of \<^verbatim>\<open>c_data\<close> of each block, which is not negative; \<open>None\<close> is
  the panic.
\<close>

definition cinit_block :: "(nat \<Rightarrow> int) \<Rightarrow> nat \<Rightarrow> cstate \<Rightarrow> cstate" where
  "cinit_block phys n s =
     (case cfree s n of
        None \<Rightarrow> s
      | Some cp \<Rightarrow>
          if phys n + int CLSIZE \<le> nextbound (phys n) then (link_free n cp s)\<lparr>cfreecnt := cfreecnt s + 1\<rparr> else s)"

definition cinit :: "nat \<Rightarrow> (nat \<Rightarrow> cblock) option \<Rightarrow> (nat \<Rightarrow> int) \<Rightarrow> cstate \<Rightarrow> cstate option" where
  "cinit v_clist mem phys s =
     do {
       m \<leftarrow> mem;
       let s1 = fold (cinit_block phys) [0..<v_clist] (s\<lparr>cfree := (\<lambda>n. if n < v_clist then Some (m n) else None)\<rparr>);
       Some (s1\<lparr>cfreelist := (cfreelist s1)\<lparr>c_size := int CLSIZE\<rparr>\<rparr>)
     }"

end
