(* ===== verification/Clist_Queue.thy ===== *)
theory Clist_Queue
  imports Clist
begin

text \<open>
  Character lists as queues of bytes: the invariant that gives every block one place, the text of a list, and the effect of
  every operation on both.
\<close>

section \<open>The invariant\<close>

definition cb_text :: "cblock \<Rightarrow> u8 list" where
  "cb_text cb = take (unat (c_last cb) - unat (c_first cb)) (drop (unat (c_first cb)) (c_data cb))"

definition next_of :: "cstate \<Rightarrow> nat \<Rightarrow> nat option" where
  "next_of s a = (case cfree s a of None \<Rightarrow> None | Some cb \<Rightarrow> c_next cb)"

definition blk :: "cstate \<Rightarrow> nat \<Rightarrow> u8 list" where
  "blk s a = (case cfree s a of None \<Rightarrow> [] | Some cb \<Rightarrow> cb_text cb)"

definition text_of :: "cstate \<Rightarrow> nat list \<Rightarrow> u8 list" where
  "text_of s xs = concat (map (blk s) xs)"

text \<open>A block that holds characters.\<close>

definition filled :: "cblock \<Rightarrow> bool" where
  "filled cb \<longleftrightarrow> c_first cb < c_last cb \<and> unat (c_last cb) \<le> CLSIZE \<and> length (c_data cb) = CLSIZE"

text \<open>A list with its blocks; \<open>n\<close> is by how much \<^verbatim>\<open>c_cc\<close> is ahead, which it is only within \<^verbatim>\<open>getcbp\<close> and \<^verbatim>\<open>putcbp\<close>.\<close>

definition list_ok :: "int \<Rightarrow> cstate \<Rightarrow> clq \<Rightarrow> nat list \<Rightarrow> bool" where
  "list_ok n s p xs \<longleftrightarrow>
     lpath (next_of s) (c_cf (clists s p)) xs None \<and> c_cl (clists s p) = last_opt xs \<and>
     (\<forall>a \<in> set xs. \<exists>cb. cfree s a = Some cb \<and> filled cb) \<and> c_cc (clists s p) = int (length (text_of s xs)) + n"

text \<open>
  The blocks \<open>U\<close> are those on the free list \<open>fl\<close>, those of the lists and those \<open>h\<close> that were handed out, each in one place.
\<close>

definition lens :: "nat set \<Rightarrow> (nat \<Rightarrow> cblock option) \<Rightarrow> bool" where
  "lens U m \<longleftrightarrow> (\<forall>a \<in> U. \<exists>cb. m a = Some cb \<and> length (c_data cb) = CLSIZE)"

definition cl_rel :: "nat set \<Rightarrow> nat list \<Rightarrow> (clq \<Rightarrow> nat list) \<Rightarrow> nat set \<Rightarrow> (clq \<Rightarrow> int) \<Rightarrow> cstate \<Rightarrow> bool" where
  "cl_rel U fl ls h n s \<longleftrightarrow>
     c_size (cfreelist s) = int CLSIZE \<and> lens U (cfree s) \<and> lpath (next_of s) (free_next (cfreelist s)) fl None \<and> (\<forall>p. list_ok (n p) s p (ls p)) \<and>
     set fl \<union> (\<Union>p. set (ls p)) \<union> h = U \<and> (\<forall>p. set (ls p) \<inter> (set fl \<union> h) = {}) \<and> set fl \<inter> h = {} \<and>
     (\<forall>p q. p \<noteq> q \<longrightarrow> set (ls p) \<inter> set (ls q) = {})"

definition texts :: "cstate \<Rightarrow> (clq \<Rightarrow> nat list) \<Rightarrow> clq \<Rightarrow> u8 list" where
  "texts s ls p = text_of s (ls p)"

lemma cl_relD:
  assumes "cl_rel U fl ls h n s"
  shows "c_size (cfreelist s) = 64" "lens U (cfree s)"
    "lpath (next_of s) (free_next (cfreelist s)) fl None" "list_ok (n p) s p (ls p)"
    "set fl \<union> (\<Union>p. set (ls p)) \<union> h = U" "set (ls p) \<inter> (set fl \<union> h) = {}" "set fl \<inter> h = {}"
    "p \<noteq> q \<Longrightarrow> set (ls p) \<inter> set (ls q) = {}"
  using assms unfolding cl_rel_def CLSIZE_def by simp_all

lemma lens_upd [simp]: "\<lbrakk>lens U m; length (c_data cb) = CLSIZE\<rbrakk> \<Longrightarrow> lens U (m(a \<mapsto> cb))"
  by (simp add: lens_def)

lemma lensD: "\<lbrakk>lens U m; a \<in> U\<rbrakk> \<Longrightarrow> \<exists>cb. m a = Some cb \<and> length (c_data cb) = CLSIZE"
  by (simp add: lens_def)

lemma list_okD:
  assumes "list_ok n s p xs"
  shows "lpath (next_of s) (c_cf (clists s p)) xs None" "c_cl (clists s p) = last_opt xs"
    "a \<in> set xs \<Longrightarrow> \<exists>cb. cfree s a = Some cb \<and> filled cb" "c_cc (clists s p) = int (length (text_of s xs)) + n" "distinct xs"
  using assms unfolding list_ok_def by (auto intro: lpath_distinct)

lemma text_of_simps [simp]: "text_of s [] = []" "text_of s (a # xs) = blk s a @ text_of s xs" "text_of s (xs @ ys) = text_of s xs @ text_of s ys"
  by (simp_all add: text_of_def)

lemma text_of_cong: "\<forall>a \<in> set xs. cfree s' a = cfree s a \<Longrightarrow> text_of s' xs = text_of s xs"
  unfolding text_of_def by (intro arg_cong [where f = concat] map_cong refl) (simp add: blk_def)

lemma next_of_path_cong: "\<forall>a \<in> set xs. cfree s' a = cfree s a \<Longrightarrow> lpath (next_of s') p xs q = lpath (next_of s) p xs q"
  by (rule lpath_cong) (simp add: next_of_def)

lemma list_ok_cong:
  "\<lbrakk>\<forall>a \<in> set xs. cfree s' a = cfree s a; clists s' p = clists s p\<rbrakk> \<Longrightarrow> list_ok n s' p xs = list_ok n s p xs"
  unfolding list_ok_def using text_of_cong [of xs s' s] next_of_path_cong [of xs s' s] by simp

text \<open>What an operation on the list \<open>p\<close> has to show.\<close>

lemma cl_rel_step:
  assumes rel: "cl_rel U fl ls h n s"
    and sz: "c_size (cfreelist s') = c_size (cfreelist s)"
    and others: "\<forall>q. q \<noteq> p \<longrightarrow> clists s' q = clists s q" "\<forall>a. a \<notin> set (ls p) \<union> set fl \<union> h \<longrightarrow> cfree s' a = cfree s a"
    and U: "lens U (cfree s')"
    and fl: "lpath (next_of s') (free_next (cfreelist s')) fl' None"
    and p: "list_ok m s' p xs"
    and places: "set fl' \<union> set xs \<union> h' = set fl \<union> set (ls p) \<union> h" "set xs \<inter> (set fl' \<union> h') = {}" "set fl' \<inter> h' = {}"
  shows "cl_rel U fl' (ls(p := xs)) h' (n(p := m)) s' \<and> texts s' (ls(p := xs)) = (texts s ls)(p := text_of s' xs)"
proof -
  note d = cl_relD [OF rel]
  have same: "\<forall>a \<in> set (ls q). cfree s' a = cfree s a" if "q \<noteq> p" for q
    using others(2) d(6) [of q] d(8) [OF that] by blast
  have q: "list_ok (n q) s' q (ls q)" "text_of s' (ls q) = text_of s (ls q)" if "q \<noteq> p" for q
    using list_ok_cong [OF same [OF that] others(1) [rule_format, OF that]] d(4) [of q] text_of_cong [OF same [OF that]] by simp_all
  have dj: "set (ls q) \<inter> (set fl' \<union> set xs \<union> h') = {}" if "q \<noteq> p" for q
    unfolding places(1) using d(6) [of q] d(8) [OF that] by blast
  have "cl_rel U fl' (ls(p := xs)) h' (n(p := m)) s'"
    unfolding cl_rel_def
  proof (intro conjI allI ballI impI)
    show "c_size (cfreelist s') = int CLSIZE" using sz d(1) by (simp add: CLSIZE_def)
    show "list_ok ((n(p := m)) q) s' q ((ls(p := xs)) q)" for q using p q by (cases "q = p") simp_all
    have split: "(\<Union>q. f q) = f p \<union> (\<Union>q \<in> - {p}. f q)" for f :: "clq \<Rightarrow> nat set"
    proof -
      have u: "UNIV = insert p (- {p})" by auto
      show ?thesis by (subst u) (simp only: UN_insert)
    qed
    have "(\<Union>q \<in> - {p}. set ((ls(p := xs)) q)) = (\<Union>q \<in> - {p}. set (ls q))" by (rule SUP_cong) simp_all
    then show "set fl' \<union> (\<Union>q. set ((ls(p := xs)) q)) \<union> h' = U" using d(5) places(1) split [of "\<lambda>q. set (ls q)"] split [of "\<lambda>q. set ((ls(p := xs)) q)"] by (simp add: Un_ac) (metis Un_assoc Un_left_commute)
    show "set ((ls(p := xs)) q) \<inter> (set fl' \<union> h') = {}" for q using dj [of q] places(2) by (cases "q = p") auto
    show "set ((ls(p := xs)) q) \<inter> set ((ls(p := xs)) r) = {}" if "q \<noteq> r" for q r
      using that dj [of q] dj [of r] d(8) [OF that] by (cases "q = p"; cases "r = p") auto
  qed (fact fl places(3) U)+
  moreover have "texts s' (ls(p := xs)) = (texts s ls)(p := text_of s' xs)"
    using q(2) by (auto simp: texts_def fun_eq_iff)
  ultimately show ?thesis ..
qed

section \<open>The shared steps\<close>

lemma set_simps [simp]:
  "cfree (set_block a cb s) = (cfree s)(a \<mapsto> cb)" "cfreelist (set_block a cb s) = cfreelist s" "clists (set_block a cb s) = clists s"
  "cfree (set_list p l s) = cfree s" "cfreelist (set_list p l s) = cfreelist s" "clists (set_list p l s) = (clists s)(p := l)"
  "cwoken (set_block a cb s) = cwoken s" "cwoken (set_list p l s) = cwoken s"
  by (simp_all add: set_block_def set_list_def)

lemma next_of_set [simp]:
  "next_of (set_block a cb s) = (next_of s)(a := c_next cb)" "next_of (set_list p l s) = next_of s"
  "next_of (s\<lparr>cfreelist := f\<rparr>) = next_of s" "next_of (s\<lparr>cwoken := w\<rparr>) = next_of s"
  by (auto simp: next_of_def)

lemma wake_free_simps [simp]:
  "cfree (wake_free s) = cfree s" "clists (wake_free s) = clists s" "free_next (cfreelist (wake_free s)) = free_next (cfreelist s)"
  "c_size (cfreelist (wake_free s)) = c_size (cfreelist s)" "next_of (wake_free s) = next_of s"
  by (simp_all add: wake_free_def)

lemma link_free_simps [simp]:
  "cfree (link_free a cb s) = (cfree s)(a \<mapsto> cb\<lparr>c_next := free_next (cfreelist s)\<rparr>)" "clists (link_free a cb s) = clists s"
  "free_next (cfreelist (link_free a cb s)) = Some a" "c_size (cfreelist (link_free a cb s)) = c_size (cfreelist s)"
  "next_of (link_free a cb s) = (next_of s)(a := free_next (cfreelist s))" "c_flag (cfreelist (link_free a cb s)) = c_flag (cfreelist s)"
  by (simp_all add: link_free_def)

lemma unlink_first_simps [simp]:
  "cfree (unlink_first p cb s) = cfree s" "cfreelist (unlink_first p cb s) = cfreelist s" "next_of (unlink_first p cb s) = next_of s"
  "clists (unlink_first p cb s) =
     (clists s)(p := (clists s p)\<lparr>c_cf := c_next cb, c_cl := (if c_next cb = None then None else c_cl (clists s p))\<rparr>)"
  by (simp_all add: unlink_first_def Let_def)

lemma filled_bounds: "filled cb \<Longrightarrow> unat (c_first cb) < unat (c_last cb) \<and> unat (c_last cb) \<le> 64 \<and> length (c_data cb) = 64"
  by (simp add: filled_def CLSIZE_def word_less_nat_alt)

lemma length_cb_text: "filled cb \<Longrightarrow> length (cb_text cb) = unat (c_last cb) - unat (c_first cb)"
  using filled_bounds [of cb] by (simp add: cb_text_def) arith

lemma cb_text_nonempty: "filled cb \<Longrightarrow> cb_text cb \<noteq> []"
  using length_cb_text [of cb] filled_bounds [of cb] by auto

lemma cb_text_Cons:
  assumes "filled cb"
  shows "cb_text cb = c_data cb ! unat (c_first cb) # take (unat (c_last cb) - Suc (unat (c_first cb))) (drop (Suc (unat (c_first cb))) (c_data cb))"
proof -
  note b = filled_bounds [OF assms]
  have "drop (unat (c_first cb)) (c_data cb) = c_data cb ! unat (c_first cb) # drop (Suc (unat (c_first cb))) (c_data cb)"
    using b by (intro Cons_nth_drop_Suc [symmetric]) simp
  moreover have "unat (c_last cb) - unat (c_first cb) = Suc (unat (c_last cb) - Suc (unat (c_first cb)))" using b by (simp only: Suc_diff_Suc)
  ultimately show ?thesis by (simp add: cb_text_def)
qed

lemma text_of_empty: "list_ok n s p xs \<Longrightarrow> text_of s xs = [] \<longleftrightarrow> xs = []"
proof (cases xs)
  case (Cons a ys)
  assume "list_ok n s p xs"
  from list_okD(3) [OF this, of a] Cons obtain cb where "cfree s a = Some cb" "filled cb" by auto
  then show ?thesis using cb_text_nonempty by (simp add: Cons blk_def)
qed simp

text \<open>The list without its first block, and the count that goes with it.\<close>

lemma list_ok_block: "list_ok n s p (b # bs) \<Longrightarrow> \<exists>cb. cfree s b = Some cb \<and> filled cb"
  using list_okD(3) [of n s p "b # bs" b] by simp

lemma list_ok_first:
  assumes "list_ok n s p (b # bs)" and "cfree s b = Some cb"
  shows "filled cb" "c_cf (clists s p) = Some b" "lpath (next_of s) (c_next cb) bs None" "c_next cb = None \<longleftrightarrow> bs = []"
    "b \<notin> set bs" "c_cc (clists s p) = int (length (cb_text cb)) + int (length (text_of s bs)) + n"
proof -
  note d = list_okD [OF assms(1)]
  show "filled cb" using d(3) [of b] assms(2) by auto
  show path: "lpath (next_of s) (c_next cb) bs None" using d(1) assms(2) by (simp add: next_of_def)
  then show "c_next cb = None \<longleftrightarrow> bs = []" by (cases bs) auto
qed (use list_okD [OF assms(1)] assms(2) in \<open>simp_all add: blk_def\<close>)

lemma list_ok_rest:
  assumes ok: "list_ok n s p (b # bs)" and cb: "cfree s b = Some cb"
    and l: "clists s' p = \<lparr>c_cc = int (length (text_of s bs)) + m, c_cf = c_next cb,
                         c_cl = (if c_next cb = None then None else c_cl (clists s p))\<rparr>"
    and s': "\<forall>a \<in> set bs. cfree s' a = cfree s a"
  shows "list_ok m s' p bs"
proof -
  note d = list_okD [OF ok]
  note path = list_ok_first(3,4) [OF ok cb]
  show ?thesis
    unfolding list_ok_def l
  proof (intro conjI ballI)
    show "\<exists>c. cfree s' a = Some c \<and> filled c" if "a \<in> set bs" for a using d(3) [of a] s' that by simp
    show "c_cl \<lparr>c_cc = int (length (text_of s bs)) + m, c_cf = c_next cb, c_cl = (if c_next cb = None then None else c_cl (clists s p))\<rparr> = last_opt bs"
      using d(2) path(2) by (simp add: last_opt_def)
  qed (use path(1) text_of_cong [OF s'] next_of_path_cong [OF s'] in simp_all)
qed

section \<open>Single characters\<close>

text \<open>What is left of a filled block when its first character is taken.\<close>

lemma filled_step:
  assumes "filled cb" and c: "cb' = cb\<lparr>c_first := c_first cb + 1\<rparr>"
  shows "cb_text cb = c_data cb ! unat (c_first cb) # cb_text cb'" "c_first cb + 1 = c_last cb \<Longrightarrow> cb_text cb' = []"
    "c_first cb + 1 \<noteq> c_last cb \<Longrightarrow> filled cb'" "unat (c_first cb) < length (c_data cb)"
proof -
  note b = filled_bounds [OF assms(1)]
  have u: "unat (c_first cb + 1) = Suc (unat (c_first cb))" using b by (simp add: unat_plus_nowrap)
  show "cb_text cb = c_data cb ! unat (c_first cb) # cb_text cb'" using cb_text_Cons [OF assms(1)] by (simp add: cb_text_def c u)
  show "cb_text cb' = []" if "c_first cb + 1 = c_last cb" using that by (simp add: cb_text_def c)
  show "filled cb'" if "c_first cb + 1 \<noteq> c_last cb"
  proof -
    have "unat (c_first cb + 1) \<noteq> unat (c_last cb)" using that by (simp add: word_unat_eq_iff)
    then have "Suc (unat (c_first cb)) < unat (c_last cb)" using b u by simp
    then show ?thesis using assms(1) u by (simp add: filled_def c word_less_nat_alt)
  qed
  show "unat (c_first cb) < length (c_data cb)" using b by simp
qed

lemma getc_ok:
  assumes rel: "cl_rel U fl ls h n s" and n: "n p = 0"
  shows "if texts s ls p = [] then getc p s = Some (-1, s)
         else \<exists>s' fl' ls'. getc p s = Some (uint (hd (texts s ls p)), s') \<and> cl_rel U fl' ls' h n s' \<and>
                texts s' ls' = (texts s ls)(p := tl (texts s ls p))"
proof -
  note d = cl_relD [OF rel]
  note ok = d(4) [of p, unfolded n]
  show ?thesis
  proof (cases "ls p")
    case Nil
    then have "texts s ls p = []" "c_cc (clists s p) = 0" using list_okD(4) [OF ok] by (simp_all add: texts_def)
    then show ?thesis by (simp add: getc_def)
  next
    case (Cons b bs)
    note ok = ok [unfolded Cons]
    from list_ok_block [OF ok] obtain cb where cb: "cfree s b = Some cb" "filled cb" by blast
    note f = list_ok_first [OF ok cb(1)]
    define cb1 where "cb1 = cb\<lparr>c_first := c_first cb + 1\<rparr>"
    note st = filled_step [OF cb(2) cb1_def]
    have tx: "texts s ls p = c_data cb ! unat (c_first cb) # cb_text cb1 @ text_of s bs"
      using st(1) cb(1) by (simp add: texts_def Cons blk_def)
    have cc: "c_cc (clists s p) > 0" using f(6) st(1) by simp
    have b: "b \<notin> set fl" "b \<notin> h" "set bs \<inter> (set fl \<union> h) = {}" "set fl \<inter> h = {}" using d(6) [of p] d(7) Cons by auto
    have len: "length (c_data cb1) = CLSIZE" using cb(2) by (simp add: cb1_def filled_def)
    have res: "getc p s = (if c_first cb + 1 = c_last cb
        then Some (uint (hd (texts s ls p)), wake_free (link_free b cb1 (unlink_first p cb1 (set_list p ((clists s p)\<lparr>c_cc := c_cc (clists s p) - 1\<rparr>) s))))
        else Some (uint (hd (texts s ls p)), set_block b cb1 (set_list p ((clists s p)\<lparr>c_cc := c_cc (clists s p) - 1\<rparr>) s)))"
      using cc f(2) cb(1) st(4) tx by (simp add: getc_def Let_def cb1_def)
    show ?thesis
    proof (cases "c_first cb + 1 = c_last cb")
      case True
      define s' where "s' = wake_free (link_free b cb1 (unlink_first p cb1 (set_list p ((clists s p)\<lparr>c_cc := c_cc (clists s p) - 1\<rparr>) s)))"
      have nx: "c_next cb1 = c_next cb" by (simp add: cb1_def)
      have "list_ok 0 s' p bs"
        by (rule list_ok_rest [OF ok cb(1)]) (use f(5,6) st(1,2) True nx in \<open>auto simp: s'_def\<close>)
      moreover have "text_of s' bs = text_of s bs" by (rule text_of_cong) (use f(5) in \<open>auto simp: s'_def\<close>)
      moreover have "lpath (next_of s') (free_next (cfreelist s')) (b # fl) None"
        using d(3) b(1) by (simp add: s'_def)
      ultimately have "cl_rel U (b # fl) (ls(p := bs)) h (n(p := 0)) s' \<and> texts s' (ls(p := bs)) = (texts s ls)(p := text_of s bs)"
        using cl_rel_step [OF rel, of s' p "b # fl" 0 bs h] d(2) len b f(5) Cons by (simp add: s'_def Int_Un_distrib)
      then show ?thesis using res True tx st(2) n by (auto simp: s'_def fun_upd_idem)
    next
      case False
      define s' where "s' = set_block b cb1 (set_list p ((clists s p)\<lparr>c_cc := c_cc (clists s p) - 1\<rparr>) s)"
      have "text_of s' bs = text_of s bs" by (rule text_of_cong) (use f(5) in \<open>auto simp: s'_def\<close>)
      then have t': "text_of s' (b # bs) = cb_text cb1 @ text_of s bs" by (simp add: s'_def blk_def)
      have "next_of s' = next_of s" using cb(1) by (auto simp: s'_def cb1_def next_of_def)
      then have "list_ok 0 s' p (b # bs)" "lpath (next_of s') (free_next (cfreelist s')) fl None"
        using list_okD [OF ok] st(1) st(3) [OF False] t' d(3) f(6) unfolding list_ok_def by (auto simp: s'_def)
      then have "cl_rel U fl (ls(p := b # bs)) h (n(p := 0)) s' \<and> texts s' (ls(p := b # bs)) = (texts s ls)(p := cb_text cb1 @ text_of s bs)"
        using cl_rel_step [OF rel, of s' p fl 0 "b # bs" h] d(2) len b f(5) Cons t' by (simp add: s'_def Int_Un_distrib)
      then show ?thesis using res False tx n by (auto simp: s'_def fun_upd_idem)
    qed
  qed
qed

section \<open>Appending\<close>

text \<open>Bytes added to a block.\<close>

lemma fill_block:
  assumes b: "unat (c_first cb) \<le> unat (c_last cb)" "length (c_data cb) = CLSIZE" and bs: "bs \<noteq> []" "unat (c_last cb) + length bs \<le> 64"
    and c: "cb' = cb\<lparr>c_data := take (unat (c_last cb)) (c_data cb) @ bs @ drop (unat (c_last cb) + length bs) (c_data cb),
                    c_last := c_last cb + of_nat (length bs)\<rparr>"
  shows "filled cb' \<and> cb_text cb' = cb_text cb @ bs"
proof -
  let ?i = "unat (c_first cb)" and ?j = "unat (c_last cb)"
  have "unat (of_nat (length bs) :: u8) = length bs" using bs(2) by (simp add: unat_of_nat)
  then have u: "unat (c_last cb') = ?j + length bs" using bs(2) by (simp add: c unat_plus_nowrap)
  have n: "0 < length bs" using bs(1) by simp
  have "?i < ?j + length bs" using b(1) n by linarith
  then have "filled cb'" using b(2) bs(2) u by (simp add: filled_def c word_less_nat_alt CLSIZE_def)
  moreover have "cb_text cb' = cb_text cb @ bs"
  proof -
    have j: "length (take ?j (c_data cb)) = ?j" using b(2) bs(2) by (simp add: CLSIZE_def)
    have "drop ?i (c_data cb') = drop ?i (take ?j (c_data cb)) @ bs @ drop (?j + length bs) (c_data cb)" using j b(1) by (simp add: c)
    moreover have "length (drop ?i (take ?j (c_data cb))) = ?j - ?i" using j by simp
    moreover have "?j + length bs - ?i = (?j - ?i) + length bs" using b(1) by simp
    ultimately have "cb_text cb' = drop ?i (take ?j (c_data cb)) @ bs" using u by (simp add: cb_text_def c)
    then show ?thesis by (simp add: cb_text_def drop_take)
  qed
  ultimately show ?thesis ..
qed

text \<open>\<open>put_block\<close> fails only without a free block, and what it finds can be filled.\<close>

definition fits :: "clq \<Rightarrow> (nat \<times> cblock \<times> cstate) \<Rightarrow> (u8 list \<Rightarrow> cstate \<Rightarrow> bool) \<Rightarrow> bool" where
  "fits p r P = (case r of (bp, cb, s1) \<Rightarrow>
     cfree s1 bp = Some cb \<and> unat (c_last cb) < 64 \<and> c_size (cfreelist s1) = 64 \<and>
     (\<forall>bs. bs \<noteq> [] \<and> unat (c_last cb) + length bs \<le> 64 \<longrightarrow> (\<exists>s2. block_fill bp bs s1 = Some s2 \<and> P bs s2)))"

lemma put_block_ok:
  assumes rel: "cl_rel U fl ls h n s"
  shows "put_block p s = Some (None, s) \<and> fl = [] \<or>
    (\<exists>bp cb s1. put_block p s = Some (Some bp, s1) \<and>
       fits p (bp, cb, s1) (\<lambda>bs s2. \<exists>fl' ls'. cl_rel U fl' ls' h (n(p := n p - int (length bs))) s2 \<and>
                                 texts s2 ls' = (texts s ls)(p := texts s ls p @ bs)))"
    (is "?fail \<or> (\<exists>bp cb s1. _ \<and> fits p (bp, cb, s1) ?P)")
proof -
  note d = cl_relD [OF rel]
  note ok = d(4) [of p]
  note lk = list_okD [OF ok]
  have tail: "\<exists>us cb. ls p = us @ [b] \<and> cfree s b = Some cb \<and> filled cb" if "c_cl (clists s p) = Some b" for b
    using that lk(2,3) last_optD [of "ls p" b] by (metis in_set_conv_decomp)
  define full where "full = (case c_cl (clists s p) of None \<Rightarrow> True | Some b \<Rightarrow> uint (c_last (the (cfree s b))) = 64)"
  have fl: "(case c_cl (clists s p) of None \<Rightarrow> Some True
            | Some bp \<Rightarrow> map_option (\<lambda>cb. uint (c_last cb) = c_size (cfreelist s)) (cfree s bp)) = Some full"
    using tail d(1) by (auto simp: full_def split: option.splits)
  show ?thesis
  proof (cases full)
    case False
    then obtain b where b: "c_cl (clists s p) = Some b" by (auto simp: full_def split: option.splits)
    from tail [OF this] obtain us cb where us: "ls p = us @ [b]" "cfree s b = Some cb" "filled cb" by blast
    have "uint (c_last cb) \<noteq> 64" using False b us(2) by (simp add: full_def)
    then have "unat (c_last cb) \<noteq> 64" by (metis of_nat_numeral uint_nat)
    then have c: "unat (c_last cb) < 64" "unat (c_first cb) < unat (c_last cb)" "length (c_data cb) = CLSIZE"
      using filled_bounds [OF us(3)] by (simp_all add: CLSIZE_def)
    have bu: "b \<notin> set us" "b \<notin> set fl" "b \<notin> h" "set us \<inter> (set fl \<union> h) = {}" using lk(5) d(6) [of p] us(1) by auto
    have "fits p (b, cb, s) ?P"
      unfolding fits_def prod.case
    proof (intro conjI allI impI)
      fix bs :: "u8 list" assume bs: "bs \<noteq> [] \<and> unat (c_last cb) + length bs \<le> 64"
      define cb' where "cb' = cb\<lparr>c_data := take (unat (c_last cb)) (c_data cb) @ bs @ drop (unat (c_last cb) + length bs) (c_data cb),
                    c_last := c_last cb + of_nat (length bs)\<rparr>"
      have f: "filled cb'" "cb_text cb' = cb_text cb @ bs" using fill_block [OF _ c(3) _ _ cb'_def] c(2) bs by simp_all
      define s2 where "s2 = set_block b cb' s"
      have "block_fill b bs s = Some s2" using us(2) bs c(3) by (simp add: block_fill_def Let_def s2_def cb'_def CLSIZE_def)
      moreover have "text_of s2 us = text_of s us" by (rule text_of_cong) (use bu in \<open>auto simp: s2_def\<close>)
      then have tx: "text_of s2 (us @ [b]) = texts s ls p @ bs" using f us(1,2) by (simp add: texts_def s2_def blk_def)
      have nx: "next_of s2 = next_of s" using us(2) by (auto simp: s2_def cb'_def next_of_def)
      have "list_ok (n p - int (length bs)) s2 p (us @ [b])"
        unfolding list_ok_def nx tx
      proof (intro conjI ballI)
        show "\<exists>c. cfree s2 a = Some c \<and> filled c" if "a \<in> set (us @ [b])" for a
          using that lk(3) [of a] us(1) f(1) bu(1) by (auto simp: s2_def)
        show "c_cc (clists s2 p) = int (length (texts s ls p @ bs)) + (n p - int (length bs))" using lk(4) by (simp add: s2_def texts_def)
      qed (use lk(1,2) us(1) in \<open>simp_all add: s2_def\<close>)
      then have "cl_rel U fl (ls(p := us @ [b])) h (n(p := n p - int (length bs))) s2 \<and> texts s2 (ls(p := us @ [b])) = (texts s ls)(p := texts s ls p @ bs)"
        using cl_rel_step [OF rel, of s2 p fl _ "us @ [b]" h] d(2,3,7) f(1) bu us(1) nx tx by (simp add: s2_def filled_def Int_Un_distrib)
      ultimately show "\<exists>s2. block_fill b bs s = Some s2 \<and> ?P bs s2" by blast
    qed (use us c d(1) in simp_all)
    moreover have "put_block p s = Some (Some b, s)" by (simp only: put_block_def Let_def fl) (simp add: False b)
    ultimately show ?thesis by blast
  next
    case True
    show ?thesis
    proof (cases fl)
      case Nil
      then have "free_next (cfreelist s) = None" using d(3) by simp
      then have "put_block p s = Some (None, s)" by (simp only: put_block_def Let_def fl) (simp add: True)
      then show ?thesis using Nil by simp
    next
      case (Cons b fl1)
      have b: "b \<in> U" "b \<notin> set fl1" "b \<notin> set (ls p)" "b \<notin> h" "set (ls p) \<inter> (set fl1 \<union> h) = {}" "set fl1 \<inter> h = {}"
        using Cons d(5) d(6) [of p] d(7) lpath_distinct [OF d(3)] by auto
      from lensD [OF d(2) b(1)] obtain cb where cb: "cfree s b = Some cb" "length (c_data cb) = CLSIZE" by blast
      have free: "free_next (cfreelist s) = Some b" "lpath (next_of s) (c_next cb) fl1 None" using d(3) Cons cb(1) by (simp_all add: next_of_def)
      define cb0 where "cb0 = cb\<lparr>c_next := None, c_first := 0, c_last := 0\<rparr>"
      define s0 where "s0 = set_block b cb0 (s\<lparr>cfreelist := (cfreelist s)\<lparr>free_next := c_next cb\<rparr>\<rparr>)"
      have fits: "fits p (b, cb1, s1) ?P"
        if s1: "cfree s1 b = Some cb1" "c_last cb1 = 0" "c_first cb1 = 0" "c_next cb1 = None" "length (c_data cb1) = CLSIZE"
          "lens U (cfree s1)" "\<forall>a. a \<noteq> b \<and> Some a \<noteq> last_opt (ls p) \<longrightarrow> cfree s1 a = cfree s a"
          "\<forall>a \<in> set (ls p). blk s1 a = blk s a \<and> (\<exists>c. cfree s1 a = Some c \<and> filled c)"
          "lpath (next_of s1) (c_cf (clists s1 p)) (ls p @ [b]) None" "c_cl (clists s1 p) = Some b" "c_cc (clists s1 p) = c_cc (clists s p)"
          "\<forall>q. q \<noteq> p \<longrightarrow> clists s1 q = clists s q" "free_next (cfreelist s1) = c_next cb" "c_size (cfreelist s1) = 64" for s1 cb1
        unfolding fits_def prod.case
      proof (intro conjI allI impI)
        fix bs :: "u8 list" assume bs: "bs \<noteq> [] \<and> unat (c_last cb1) + length bs \<le> 64"
        define cb' where "cb' = cb1\<lparr>c_data := take (unat (c_last cb1)) (c_data cb1) @ bs @ drop (unat (c_last cb1) + length bs) (c_data cb1),
                      c_last := c_last cb1 + of_nat (length bs)\<rparr>"
        have f: "filled cb'" "cb_text cb' = bs" using fill_block [OF _ s1(5) _ _ cb'_def] s1(2,3) bs by (simp_all add: cb_text_def)
        define s2 where "s2 = set_block b cb' s1"
        have "block_fill b bs s1 = Some s2" using s1(1,5) bs by (simp add: block_fill_def Let_def s2_def cb'_def CLSIZE_def)
        moreover have "map (blk s2) (ls p) = map (blk s) (ls p)" using b(3) s1(8) by (auto simp: s2_def blk_def)
        then have "text_of s2 (ls p) = text_of s (ls p)" by (simp only: text_of_def)
        then have tx: "text_of s2 (ls p @ [b]) = texts s ls p @ bs" using f(2) by (simp add: texts_def s2_def blk_def)
        have nx: "next_of s2 = next_of s1" using s1(1) by (auto simp: s2_def cb'_def next_of_def)
        have "list_ok (n p - int (length bs)) s2 p (ls p @ [b])"
          unfolding list_ok_def nx tx
        proof (intro conjI ballI)
          show "\<exists>c. cfree s2 a = Some c \<and> filled c" if "a \<in> set (ls p @ [b])" for a using that s1(8) f(1) by (auto simp: s2_def)
          show "c_cc (clists s2 p) = int (length (texts s ls p @ bs)) + (n p - int (length bs))" using lk(4) s1(11) by (simp add: s2_def texts_def)
        qed (use s1(9,10) in \<open>simp_all add: s2_def\<close>)
        moreover have "lpath (next_of s2) (free_next (cfreelist s2)) fl1 None"
        proof -
          have "\<forall>a \<in> set fl1. cfree s1 a = cfree s a" using s1(7) b(2,5) last_optD [of "ls p"] by (metis Int_Un_distrib Un_empty disjoint_iff in_set_conv_decomp)
          then show ?thesis using free(2) next_of_path_cong [of fl1 s1 s] s1(13) nx by (simp add: s2_def)
        qed
        moreover have "\<forall>a. a \<notin> set (ls p) \<union> set fl \<union> h \<longrightarrow> cfree s2 a = cfree s a"
          using s1(7) last_optD [of "ls p"] Cons by (auto simp: s2_def) (metis in_set_conv_decomp)
        ultimately have "cl_rel U fl1 (ls(p := ls p @ [b])) h (n(p := n p - int (length bs))) s2 \<and> texts s2 (ls(p := ls p @ [b])) = (texts s ls)(p := texts s ls p @ bs)"
          using cl_rel_step [OF rel, of s2 p fl1 _ "ls p @ [b]" h] d(1) f(1) b Cons tx s1(6,12,14) by (simp add: s2_def filled_def Int_Un_distrib)
        then show "\<exists>s2. block_fill b bs s1 = Some s2 \<and> ?P bs s2" using \<open>block_fill b bs s1 = Some s2\<close> by blast
      qed (use s1 in simp_all)
      have put: "put_block p s = (case c_cl (clists s p) of
            None \<Rightarrow> Some (Some b, set_list p ((clists s p)\<lparr>c_cf := Some b, c_cl := Some b\<rparr>) s0)
          | Some obp \<Rightarrow> do { ocb \<leftarrow> cfree s0 obp; Some (Some b, set_list p ((clists s p)\<lparr>c_cl := Some b\<rparr>) (set_block obp (ocb\<lparr>c_next := Some b\<rparr>) s0)) })"
        unfolding s0_def cb0_def by (simp only: put_block_def Let_def fl) (simp add: True free(1) cb(1))
      show ?thesis
      proof (cases "ls p" rule: rev_cases)
        case Nil
        define s1 where "s1 = set_list p ((clists s p)\<lparr>c_cf := Some b, c_cl := Some b\<rparr>) s0"
        have "put_block p s = Some (Some b, s1)" using put lk(2) Nil by (simp add: s1_def)
        moreover have "fits p (b, cb0, s1) ?P"
          by (rule fits) (use cb d(1,2) Nil in \<open>simp_all add: s1_def s0_def cb0_def\<close>)
        ultimately show ?thesis by blast
      next
        case (snoc us o')
        then obtain ocb where o: "cfree s o' = Some ocb" "filled ocb" using lk(3) [of o'] by auto
        have ob: "o' \<noteq> b" "o' \<notin> set us" using b(3) snoc lk(5) by auto
        define s1 where "s1 = set_list p ((clists s p)\<lparr>c_cl := Some b\<rparr>) (set_block o' (ocb\<lparr>c_next := Some b\<rparr>) s0)"
        have "put_block p s = Some (Some b, s1)" using put lk(2) snoc o(1) ob(1) by (simp add: s1_def s0_def)
        moreover have "fits p (b, cb0, s1) ?P"
        proof (rule fits)
          have "filled (ocb\<lparr>c_next := Some b\<rparr>)" "cb_text (ocb\<lparr>c_next := Some b\<rparr>) = cb_text ocb" using o(2) by (simp_all add: filled_def cb_text_def)
          then show "\<forall>a \<in> set (ls p). blk s1 a = blk s a \<and> (\<exists>c. cfree s1 a = Some c \<and> filled c)"
            using lk(3) b(3) o(1) by (auto simp: s1_def s0_def blk_def)
          have "next_of s1 = (next_of s)(o' := Some b, b := None)" using ob(1) by (auto simp: s1_def s0_def cb0_def fun_eq_iff)
          moreover have "lpath ((next_of s)(o' := Some b, b := None)) (c_cf (clists s p)) (us @ [o', b]) None"
            by (rule lpath_snoc) (use lk(1) b(3) snoc in simp_all)
          ultimately show "lpath (next_of s1) (c_cf (clists s1 p)) (ls p @ [b]) None" using snoc by (simp add: s1_def)
        qed (use cb d(1,2) o ob snoc in \<open>simp_all add: s1_def s0_def cb0_def filled_def\<close>)
        ultimately show ?thesis by blast
      qed
    qed
  qed
qed

text \<open>Setting \<^verbatim>\<open>c_cc\<close> afterwards.\<close>

lemma count_later:
  assumes rel: "cl_rel U fl ls h n s" and m: "m = n p + k"
  shows "cl_rel U fl ls h (n(p := m)) (set_list p ((clists s p)\<lparr>c_cc := c_cc (clists s p) + k\<rparr>) s) \<and>
    texts (set_list p ((clists s p)\<lparr>c_cc := c_cc (clists s p) + k\<rparr>) s) ls = texts s ls" (is "cl_rel U fl ls h _ ?s \<and> _")
proof -
  note d = cl_relD [OF rel]
  have t: "text_of ?s (ls p) = text_of s (ls p)" by (rule text_of_cong) simp
  then have "list_ok m ?s p (ls p)" using d(4) [of p] m by (simp add: list_ok_def)
  then show ?thesis using cl_rel_step [OF rel, of ?s p fl m "ls p" h] d(2,3,7) d(6) [of p] t
    by (simp add: fun_upd_idem texts_def)
qed

lemma putc_ok:
  assumes rel: "cl_rel U fl ls h n s" and n: "n p = 0"
  shows "putc c p s = Some (-1, s) \<and> fl = [] \<or>
    (\<exists>s' fl' ls'. putc c p s = Some (0, s') \<and> cl_rel U fl' ls' h n s' \<and> texts s' ls' = (texts s ls)(p := texts s ls p @ [word_of_int c]))"
proof -
  consider (fail) "put_block p s = Some (None, s)" "fl = []"
    | (ok) bp cb s1 where "put_block p s = Some (Some bp, s1)"
       "fits p (bp, cb, s1) (\<lambda>bs s2. \<exists>fl' ls'. cl_rel U fl' ls' h (n(p := n p - int (length bs))) s2 \<and> texts s2 ls' = (texts s ls)(p := texts s ls p @ bs))"
    using put_block_ok [OF rel, of p] by blast
  then show ?thesis
  proof cases
    case fail
    then show ?thesis by (simp add: putc_def)
  next
    case ok
    let ?c = "word_of_int c :: u8"
    have cb: "cfree s1 bp = Some cb" "unat (c_last cb) < 64" using ok(2) by (simp_all add: fits_def)
    from ok(2) cb(2) obtain s2 fl' ls' where s2: "block_fill bp [?c] s1 = Some s2" "cl_rel U fl' ls' h (n(p := n p - 1)) s2"
        "texts s2 ls' = (texts s ls)(p := texts s ls p @ [?c])"
      unfolding fits_def prod.case by (auto dest!: spec [of _ "[?c]"])
    have len: "unat (c_last cb) < length (c_data cb)" using s2(1) cb(1) by (simp add: block_fill_def Let_def split: if_splits)
    define cb1 where "cb1 = cb\<lparr>c_data := (c_data cb)[unat (c_last cb) := ?c], c_last := c_last cb + 1\<rparr>"
    have "s2 = set_block bp cb1 s1" using s2(1) cb(1) len by (simp add: block_fill_def Let_def cb1_def upd_conv_take_nth_drop)
    moreover define s' where "s' = set_list p ((clists s2 p)\<lparr>c_cc := c_cc (clists s2 p) + 1\<rparr>) s2"
    ultimately have "putc c p s = Some (0, s')" using ok(1) cb(1) len by (simp add: putc_def Let_def cb1_def)
    moreover have "cl_rel U fl' ls' h (n(p := 0)) s'" "texts s' ls' = texts s2 ls'"
      using count_later [OF s2(2), of 0 p 1] n by (simp_all add: s'_def)
    ultimately show ?thesis using s2(3) n by (metis fun_upd_triv)
  qed
qed

section \<open>Blocks\<close>

lemma free_first:
  assumes rel: "cl_rel U fl ls h n s"
  shows "free_next (cfreelist s) = None \<longleftrightarrow> fl = []"
    "fl = b # fl1 \<Longrightarrow> \<exists>cb. free_next (cfreelist s) = Some b \<and> cfree s b = Some cb \<and> length (c_data cb) = CLSIZE \<and>
       lpath (next_of s) (c_next cb) fl1 None \<and> b \<notin> set fl1 \<and> b \<notin> h \<and> b \<notin> set (ls p) \<and> set fl1 \<inter> h = {} \<and> set (ls p) \<inter> (set fl1 \<union> h) = {}"
proof -
  note d = cl_relD [OF rel]
  show "free_next (cfreelist s) = None \<longleftrightarrow> fl = []" using d(3) by (cases fl) auto
  assume fl: "fl = b # fl1"
  then have "b \<in> U" using d(5) by auto
  from lensD [OF d(2) this] obtain cb where cb: "cfree s b = Some cb" "length (c_data cb) = CLSIZE" by blast
  show "\<exists>cb. free_next (cfreelist s) = Some b \<and> cfree s b = Some cb \<and> length (c_data cb) = CLSIZE \<and>
       lpath (next_of s) (c_next cb) fl1 None \<and> b \<notin> set fl1 \<and> b \<notin> h \<and> b \<notin> set (ls p) \<and> set fl1 \<inter> h = {} \<and> set (ls p) \<inter> (set fl1 \<union> h) = {}"
    using cb d(3,7) d(6) [of p] fl lpath_distinct [OF d(3)] by (intro exI [of _ cb]) (auto simp: next_of_def)
qed

text \<open>A block changes from the free list to the caller, or back; the lists stay as they are.\<close>

lemma cl_rel_lists:
  assumes rel: "cl_rel U fl ls h n s" and sz: "c_size (cfreelist s') = c_size (cfreelist s)" and ls: "clists s' = clists s"
    and a: "\<forall>a. a \<notin> set fl \<union> h \<longrightarrow> cfree s' a = cfree s a" and U: "lens U (cfree s')"
    and fl: "lpath (next_of s') (free_next (cfreelist s')) fl' None" and places: "set fl' \<union> h' = set fl \<union> h" "set fl' \<inter> h' = {}"
  shows "cl_rel U fl' ls h' n s' \<and> texts s' ls = texts s ls"
proof -
  note d = cl_relD [OF rel]
  obtain p :: clq where True by simp
  have same: "\<forall>a \<in> set (ls p). cfree s' a = cfree s a" using a d(6) [of p] by blast
  have "list_ok (n p) s' p (ls p)" "text_of s' (ls p) = text_of s (ls p)"
    using list_ok_cong [OF same] text_of_cong [OF same] ls d(4) [of p] by simp_all
  then have "cl_rel U fl' (ls(p := ls p)) h' (n(p := n p)) s' \<and> texts s' (ls(p := ls p)) = (texts s ls)(p := text_of s (ls p))"
    using cl_rel_step [OF rel sz, of p fl' "n p" "ls p" h'] ls a U fl places d(6) [of p] by (simp add: Un_ac) blast
  then show ?thesis by (simp add: texts_def fun_upd_idem)
qed

lemma getcf_ok:
  assumes rel: "cl_rel U fl ls h n s"
  shows "fl = [] \<and> getcf s = Some (None, s) \<or>
    (\<exists>b s' fl'. fl = b # fl' \<and> getcf s = Some (Some b, s') \<and> cl_rel U fl' ls (insert b h) n s' \<and> texts s' ls = texts s ls \<and>
      (\<exists>cb. cfree s' b = Some cb \<and> c_first cb = 0 \<and> c_last cb = 64 \<and> c_next cb = None \<and> length (c_data cb) = CLSIZE))"
proof (cases fl)
  case Nil
  then show ?thesis using free_first(1) [OF rel] by (simp add: getcf_def)
next
  case (Cons b fl')
  note d = cl_relD [OF rel]
  from free_first(2) [OF rel Cons] obtain cb where cb: "free_next (cfreelist s) = Some b" "cfree s b = Some cb"
    "length (c_data cb) = CLSIZE" "lpath (next_of s) (c_next cb) fl' None" "b \<notin> set fl'" "b \<notin> h" "set fl' \<inter> h = {}" by blast
  define s' where "s' = set_block b (cb\<lparr>c_next := None, c_first := 0, c_last := 64\<rparr>) (s\<lparr>cfreelist := (cfreelist s)\<lparr>free_next := c_next cb\<rparr>\<rparr>)"
  have "getcf s = Some (Some b, s')" using cb(1,2) d(1) by (simp add: getcf_def Let_def s'_def)
  moreover have "cl_rel U fl' ls (insert b h) n s' \<and> texts s' ls = texts s ls"
    by (rule cl_rel_lists [OF rel]) (use cb d(2) Cons in \<open>auto simp: s'_def\<close>)
  moreover have "\<exists>cb. cfree s' b = Some cb \<and> c_first cb = 0 \<and> c_last cb = 64 \<and> c_next cb = None \<and> length (c_data cb) = CLSIZE"
    using cb(3) by (simp add: s'_def)
  ultimately show ?thesis using Cons by blast
qed

lemma putcf_ok:
  assumes rel: "cl_rel U fl ls h n s" and b: "b \<in> h"
  shows "\<exists>s'. putcf b s = Some s' \<and> cl_rel U (b # fl) ls (h - {b}) n s' \<and> texts s' ls = texts s ls"
proof -
  note d = cl_relD [OF rel]
  have "b \<in> U" "b \<notin> set fl" using b d(5,7) by auto
  with lensD [OF d(2)] obtain cb where cb: "cfree s b = Some cb" "length (c_data cb) = CLSIZE" by blast
  define s' where "s' = wake_free (link_free b cb s)"
  have "cl_rel U (b # fl) ls (h - {b}) n s' \<and> texts s' ls = texts s ls"
    by (rule cl_rel_lists [OF rel]) (use cb d(2,3,7) b \<open>b \<notin> set fl\<close> in \<open>auto simp: s'_def\<close>)
  then show ?thesis using cb(1) by (simp add: putcf_def s'_def)
qed

lemma getcb_ok:
  assumes rel: "cl_rel U fl ls h n s" and n: "n p = 0"
  shows "if texts s ls p = [] then getcb p s = Some (None, s)
         else \<exists>b bs s'. ls p = b # bs \<and> getcb p s = Some (Some b, s') \<and> cl_rel U fl (ls(p := bs)) (insert b h) n s' \<and>
                blk s' b = blk s b \<and> blk s b \<noteq> [] \<and> texts s ls p = blk s b @ texts s' (ls(p := bs)) p \<and>
                texts s' (ls(p := bs)) = (texts s ls)(p := texts s' (ls(p := bs)) p)"
proof (cases "ls p")
  case Nil
  then have "texts s ls p = []" "c_cf (clists s p) = None" using list_okD(1) [OF cl_relD(4) [OF rel, of p]] by (simp_all add: texts_def)
  then show ?thesis by (simp add: getcb_def)
next
  case (Cons b bs)
  note d = cl_relD [OF rel]
  note ok = d(4) [of p, unfolded n Cons]
  from list_ok_block [OF ok] obtain cb where cb: "cfree s b = Some cb" "filled cb" by blast
  note f = list_ok_first [OF ok cb(1)]
  define s' where "s' = unlink_first p cb (set_list p ((clists s p)\<lparr>c_cc := c_cc (clists s p) - (uint (c_last cb) - uint (c_first cb))\<rparr>) s)"
  have g: "getcb p s = Some (Some b, s')" using f(2) cb(1) by (simp add: getcb_def Let_def s'_def)
  have "int (length (cb_text cb)) = uint (c_last cb) - uint (c_first cb)"
    using length_cb_text [OF cb(2)] filled_bounds [OF cb(2)] by (simp add: of_nat_diff)
  then have "list_ok 0 s' p bs" by (intro list_ok_rest [OF ok cb(1)]) (use f(6) in \<open>simp_all add: s'_def\<close>)
  moreover have t: "text_of s' bs = text_of s bs" by (rule text_of_cong) (simp add: s'_def)
  ultimately have "cl_rel U fl (ls(p := bs)) (insert b h) (n(p := 0)) s' \<and> texts s' (ls(p := bs)) = (texts s ls)(p := text_of s bs)"
    using cl_rel_step [OF rel, of s' p fl 0 bs "insert b h"] d(2,3,7) d(6) [of p] f(5) Cons by (simp add: s'_def Int_Un_distrib)
  moreover have "blk s' b = cb_text cb" "blk s b = cb_text cb" using cb(1) by (simp_all add: s'_def blk_def)
  ultimately show ?thesis using g n t cb_text_nonempty [OF cb(2)] Cons by (simp add: texts_def fun_upd_idem)
qed

lemma putcb_ok:
  assumes rel: "cl_rel U fl ls h n s" and n: "n p = 0" and b: "b \<in> h" "cfree s b = Some cb" "filled cb"
  shows "\<exists>s'. putcb b p s = Some s' \<and> cl_rel U fl (ls(p := ls p @ [b])) (h - {b}) n s' \<and>
           texts s' (ls(p := ls p @ [b])) = (texts s ls)(p := texts s ls p @ cb_text cb)"
proof -
  note d = cl_relD [OF rel]
  note ok = d(4) [of p, unfolded n]
  note lk = list_okD [OF ok]
  have nb: "b \<notin> set (ls p)" "b \<notin> set fl" "set (ls p) \<inter> (set fl \<union> (h - {b})) = {}" using b(1) d(6) [of p] d(7) by auto
  define cb' where "cb' = cb\<lparr>c_next := None\<rparr>"
  have f: "filled cb'" "cb_text cb' = cb_text cb" using b(3) by (simp_all add: cb'_def filled_def cb_text_def)
  have len: "int (length (cb_text cb)) = uint (c_last cb) - uint (c_first cb)"
    using length_cb_text [OF b(3)] filled_bounds [OF b(3)] by (simp add: of_nat_diff)
  have step: "\<exists>s'. putcb b p s = Some s' \<and> cl_rel U fl (ls(p := ls p @ [b])) (h - {b}) n s' \<and>
           texts s' (ls(p := ls p @ [b])) = (texts s ls)(p := texts s ls p @ cb_text cb)"
    if "putcb b p s = Some s'" "cfree s' b = Some cb'" "lens U (cfree s')" "cfreelist s' = cfreelist s"
      "\<forall>a \<in> set (ls p). blk s' a = blk s a \<and> (\<exists>c. cfree s' a = Some c \<and> filled c)" "\<forall>a. a \<notin> insert b (set (ls p)) \<longrightarrow> cfree s' a = cfree s a"
      "lpath (next_of s') (c_cf (clists s' p)) (ls p @ [b]) None" "c_cl (clists s' p) = Some b" "\<forall>q. q \<noteq> p \<longrightarrow> clists s' q = clists s q"
      "c_cc (clists s' p) = c_cc (clists s p) + (uint (c_last cb) - uint (c_first cb))" for s'
  proof -
    note blocks = that(5) and b' = that(2)
    have "map (blk s') (ls p) = map (blk s) (ls p)" using that(5) by simp
    then have "text_of s' (ls p) = text_of s (ls p)" by (simp only: text_of_def)
    then have t: "text_of s' (ls p @ [b]) = texts s ls p @ cb_text cb" using f(2) that(2) by (simp add: texts_def blk_def)
    have "list_ok 0 s' p (ls p @ [b])"
      unfolding list_ok_def t
    proof (intro conjI ballI)
      show "\<exists>c. cfree s' a = Some c \<and> filled c" if "a \<in> set (ls p @ [b])" for a
        using that blocks f(1) b' by (cases "a = b") simp_all
      show "c_cc (clists s' p) = int (length (texts s ls p @ cb_text cb)) + 0" using that(10) lk(4) len by (simp add: texts_def)
    qed (use that(7,8) in simp_all)
    moreover have "\<forall>a \<in> set fl. cfree s' a = cfree s a"
    proof
      fix a assume "a \<in> set fl"
      then have "a \<notin> insert b (set (ls p))" using nb(2,3) by auto
      then show "cfree s' a = cfree s a" using that(6) by simp
    qed
    then have "lpath (next_of s') (free_next (cfreelist s')) fl None" using d(3) that(4) next_of_path_cong by metis
    moreover have "\<forall>a. a \<notin> set (ls p) \<union> set fl \<union> h \<longrightarrow> cfree s' a = cfree s a"
    proof (intro allI impI)
      fix a assume "a \<notin> set (ls p) \<union> set fl \<union> h"
      then have "a \<notin> insert b (set (ls p))" using b(1) by auto
      then show "cfree s' a = cfree s a" using that(6) by simp
    qed
    moreover have "set fl \<union> set (ls p @ [b]) \<union> (h - {b}) = set fl \<union> set (ls p) \<union> h" using b(1) by auto
    moreover have "set (ls p @ [b]) \<inter> (set fl \<union> (h - {b})) = {}" "set fl \<inter> (h - {b}) = {}" using nb d(7) by auto
    ultimately have "cl_rel U fl (ls(p := ls p @ [b])) (h - {b}) (n(p := 0)) s' \<and>
        texts s' (ls(p := ls p @ [b])) = (texts s ls)(p := texts s ls p @ cb_text cb)"
      using cl_rel_step [OF rel, of s' p fl 0 "ls p @ [b]" "h - {b}"] that(3,4,9) t by simp
    then show ?thesis using that(1) n by (auto simp: fun_upd_idem)
  qed
  show ?thesis
  proof (cases "ls p" rule: rev_cases)
    case Nil
    define s' where "s' = set_list p ((clists s p)\<lparr>c_cf := Some b, c_cl := Some b, c_cc := c_cc (clists s p) + (uint (c_last cb) - uint (c_first cb))\<rparr>) (set_block b cb' s)"
    have "putcb b p s = Some s'" using lk(2) Nil b(2)
      by (simp add: putcb_def Let_def s'_def cb'_def) (simp add: set_list_def set_block_def)
    then show ?thesis by (rule step) (use f d(2) Nil in \<open>simp_all add: s'_def filled_def cb'_def\<close>)
  next
    case (snoc us o')
    then obtain ocb where o: "cfree s o' = Some ocb" "filled ocb" using lk(3) [of o'] by auto
    have ob: "o' \<noteq> b" "o' \<notin> set us" "b \<notin> set us" using nb(1) snoc lk(5) by auto
    define s' where "s' = set_list p ((clists s p)\<lparr>c_cl := Some b, c_cc := c_cc (clists s p) + (uint (c_last cb) - uint (c_first cb))\<rparr>)
      (set_block b cb' (set_block o' (ocb\<lparr>c_next := Some b\<rparr>) s))"
    have "putcb b p s = Some s'" using lk(2) snoc b(2) o(1) ob(1)
      by (simp add: putcb_def Let_def s'_def cb'_def) (simp add: set_list_def set_block_def)
    then show ?thesis
    proof (rule step)
      have "filled (ocb\<lparr>c_next := Some b\<rparr>)" "cb_text (ocb\<lparr>c_next := Some b\<rparr>) = cb_text ocb" using o(2) by (simp_all add: filled_def cb_text_def)
      then show "\<forall>a \<in> set (ls p). blk s' a = blk s a \<and> (\<exists>c. cfree s' a = Some c \<and> filled c)"
        using lk(3) nb(1) o(1) by (auto simp: s'_def blk_def)
      have "next_of s' = (next_of s)(o' := Some b, b := None)" by (simp add: s'_def cb'_def)
      moreover have "lpath ((next_of s)(o' := Some b, b := None)) (c_cf (clists s p)) (us @ [o', b]) None"
        by (rule lpath_snoc) (use lk(1) nb(1) snoc in simp_all)
      ultimately show "lpath (next_of s') (c_cf (clists s' p)) (ls p @ [b]) None" using snoc by (simp add: s'_def)
    qed (use f d(2) o ob snoc in \<open>simp_all add: s'_def filled_def cb'_def\<close>)
  qed
qed

end
