(* ===== verification/Clist_Props.thy ===== *)
theory Clist_Props
  imports Clist_Queue
begin

text \<open>
  Character lists: \<^verbatim>\<open>getcbp\<close> and \<^verbatim>\<open>putcbp\<close> on the text of a list, the machine whose events are the operations, and the properties.
\<close>

section \<open>Several characters\<close>

lemma block_part_text: "filled cb \<Longrightarrow> n \<le> unat (c_last cb) - unat (c_first cb) \<Longrightarrow> block_part cb (unat (c_first cb)) n = Some (take n (cb_text cb))"
  using filled_bounds [of cb] by (auto simp: block_part_def cb_text_def min_def)

text \<open>A block from which the first \<open>k\<close> bytes were taken.\<close>

lemma filled_skip:
  assumes f: "filled cb" and k: "k < unat (c_last cb) - unat (c_first cb)" and c: "cb' = cb\<lparr>c_first := c_first cb + of_nat k\<rparr>"
  shows "filled cb'" "cb_text cb' = drop k (cb_text cb)"
proof -
  note b = filled_bounds [OF f]
  have lt: "unat (c_first cb) + k < unat (c_last cb)" using k by linarith
  then have "unat (of_nat k :: u8) = k" using b by (simp add: unat_of_nat)
  then have u: "unat (c_first cb') = unat (c_first cb) + k" using b lt by (simp add: c unat_plus_nowrap)
  then have "unat (c_first cb') < unat (c_last cb')" using lt by (simp add: c)
  then show "filled cb'" using f by (simp add: filled_def c word_less_nat_alt)
  show "cb_text cb' = drop k (cb_text cb)" using u by (simp add: cb_text_def c drop_take add.commute)
qed

lemma woken_simps [simp]:
  "cwoken (link_free a cb s) = cwoken s" "cwoken (unlink_first p cb s) = cwoken s"
  by (simp_all add: link_free_def unlink_first_def Let_def)

lemma getcbp_loop_ok:
  assumes "cl_rel U fl ls h n s"
  shows "\<exists>s' fl' ls'. getcbp_loop p m out s = Some (out @ take m (texts s ls p), s') \<and>
           cl_rel U fl' ls' h (n(p := n p + int (min m (length (texts s ls p))))) s' \<and>
           texts s' ls' = (texts s ls)(p := drop m (texts s ls p)) \<and>
           length fl' + length (ls' p) = length fl + length (ls p) \<and> cwoken s' = cwoken s \<and> c_flag (cfreelist s') = c_flag (cfreelist s)"
  using assms
proof (induction "ls p" arbitrary: m out s fl ls n)
  case Nil
  note rel = Nil(2)
  have "texts s ls p = []" "c_cf (clists s p) = None"
    using list_okD(1) [OF cl_relD(4) [OF rel, of p]] Nil(1) by (simp_all add: texts_def flip: Nil(1))
  then show ?case using rel by (subst getcbp_loop.simps) (auto simp: fun_upd_idem)
next
  case (Cons b bs)
  note rel = Cons(3)
  note d = cl_relD [OF rel]
  note ok = d(4) [of p, folded Cons(2)]
  from list_ok_block [OF ok] obtain cb where cb: "cfree s b = Some cb" "filled cb" by blast
  note f = list_ok_first [OF ok cb(1)]
  let ?on = "unat (c_last cb) - unat (c_first cb)"
  have on: "length (cb_text cb) = ?on" by (rule length_cb_text [OF cb(2)])
  have le: "\<not> c_last cb < c_first cb" using cb(2) by (auto simp: filled_def)
  have tx: "texts s ls p = cb_text cb @ text_of s bs" using cb(1) by (simp add: texts_def blk_def flip: Cons(2))
  consider "m = 0" | (block) "m \<noteq> 0" "?on \<le> m" | (part) "m \<noteq> 0" "m < ?on" by linarith
  then show ?case
  proof cases
    case 1
    then show ?thesis using rel by (subst getcbp_loop.simps) (auto simp: fun_upd_idem)
  next
    case block
    define s1 where "s1 = link_free b cb (unlink_first p cb s)"
    have step: "getcbp_loop p m out s = getcbp_loop p (m - ?on) (out @ cb_text cb) s1"
      using block f(2) cb(1) le block_part_text [OF cb(2), of ?on] on by (subst getcbp_loop.simps) (simp add: Let_def s1_def)
    have t: "text_of s1 bs = text_of s bs" by (rule text_of_cong) (use f(5) in \<open>auto simp: s1_def\<close>)
    have "list_ok (n p + int ?on) s1 p bs"
      by (rule list_ok_rest [OF ok cb(1)]) (use f(5,6) on in \<open>auto simp: s1_def\<close>)
    moreover have b: "b \<notin> set fl" "b \<notin> h" "set bs \<inter> (set fl \<union> h) = {}" "set fl \<inter> h = {}" using d(6) [of p] d(7) by (auto simp flip: Cons(2))
    moreover have "length (c_data cb) = CLSIZE" using cb(2) by (simp add: filled_def)
    ultimately have "cl_rel U (b # fl) (ls(p := bs)) h (n(p := n p + int ?on)) s1 \<and> texts s1 (ls(p := bs)) = (texts s ls)(p := text_of s bs)"
      using cl_rel_step [OF rel, of s1 p "b # fl" "n p + int ?on" bs h] d(2,3) f(5) t by (simp add: s1_def Int_Un_distrib flip: Cons(2))
    then have r1: "cl_rel U (b # fl) (ls(p := bs)) h (n(p := n p + int ?on)) s1" and t1: "texts s1 (ls(p := bs)) = (texts s ls)(p := text_of s bs)" by simp_all
    from Cons(1) [OF _ r1, of "m - ?on" "out @ cb_text cb"] obtain s' fl' ls' where
      s': "getcbp_loop p (m - ?on) (out @ cb_text cb) s1 = Some ((out @ cb_text cb) @ take (m - ?on) (texts s1 (ls(p := bs)) p), s')"
        "cl_rel U fl' ls' h ((n(p := n p + int ?on))(p := (n(p := n p + int ?on)) p + int (min (m - ?on) (length (texts s1 (ls(p := bs)) p))))) s'"
        "texts s' ls' = (texts s1 (ls(p := bs)))(p := drop (m - ?on) (texts s1 (ls(p := bs)) p))"
        "length fl' + length (ls' p) = length (b # fl) + length bs" "cwoken s' = cwoken s1" "c_flag (cfreelist s') = c_flag (cfreelist s1)" by auto
    have "cwoken s1 = cwoken s" "c_flag (cfreelist s1) = c_flag (cfreelist s)" by (simp_all add: s1_def)
    with s'(5,6) have wk: "cwoken s' = cwoken s" "c_flag (cfreelist s') = c_flag (cfreelist s)" by simp_all
    have cnt: "int ?on + int (min (m - ?on) (length (text_of s bs))) = int (min m (length (texts s ls p)))" using block on tx by (simp add: min_def) arith
    show ?thesis
      using s'(1,2,3,4) wk step t1 tx on block cnt by (intro exI [of _ s'] exI [of _ fl'] exI [of _ ls']) (simp add: add.assoc flip: Cons(2))
  next
    case part
    define cb1 where "cb1 = cb\<lparr>c_first := c_first cb + of_nat m\<rparr>"
    note sk = filled_skip [OF cb(2) part(2) cb1_def]
    define s1 where "s1 = set_block b cb1 s"
    have res: "getcbp_loop p m out s = Some (out @ take m (cb_text cb), s1)"
      using part f(2) cb(1) le block_part_text [OF cb(2), of m] by (subst getcbp_loop.simps) (simp add: Let_def s1_def cb1_def)
    have "text_of s1 bs = text_of s bs" by (rule text_of_cong) (use f(5) in \<open>auto simp: s1_def\<close>)
    then have t: "text_of s1 (b # bs) = drop m (texts s ls p)" using sk(2) tx part(2) on by (simp add: s1_def blk_def)
    have nx: "next_of s1 = next_of s" using cb(1) by (auto simp: s1_def cb1_def next_of_def)
    have "list_ok (n p + int m) s1 p (b # bs)"
      unfolding list_ok_def t nx
    proof (intro conjI ballI)
      show "\<exists>c. cfree s1 a = Some c \<and> filled c" if "a \<in> set (b # bs)" for a
        using that list_okD(3) [OF ok, of a] sk(1) by (cases "a = b") (simp_all add: s1_def)
      show "c_cc (clists s1 p) = int (length (drop m (texts s ls p))) + (n p + int m)" using f(6) tx part(2) on by (simp add: s1_def of_nat_diff)
    qed (use list_okD(1,2) [OF ok] in \<open>simp_all add: s1_def\<close>)
    moreover have "length (c_data cb1) = CLSIZE" using sk(1) by (simp add: filled_def)
    ultimately have "cl_rel U fl (ls(p := b # bs)) h (n(p := n p + int m)) s1 \<and> texts s1 (ls(p := b # bs)) = (texts s ls)(p := drop m (texts s ls p))"
      using cl_rel_step [OF rel, of s1 p fl "n p + int m" "b # bs" h] d(2,3,7) d(6) [of p] nx t
      by (simp add: s1_def flip: Cons(2))
    moreover have "min m (length (texts s ls p)) = m" "take m (texts s ls p) = take m (cb_text cb)" using part(2) on tx by simp_all
    moreover have "cwoken s1 = cwoken s" "c_flag (cfreelist s1) = c_flag (cfreelist s)" by (simp_all add: s1_def)
    ultimately show ?thesis using res
      by (intro exI [of _ s1] exI [of _ fl] exI [of _ "ls(p := b # bs)"]) (simp flip: Cons(2))
  qed
qed

lemma getcbp_ok:
  assumes rel: "cl_rel U fl ls h n s" and n: "n p = 0"
  shows "\<exists>s' fl' ls'. getcbp p m s = Some (take m (texts s ls p), s') \<and> cl_rel U fl' ls' h n s' \<and>
           texts s' ls' = (texts s ls)(p := drop m (texts s ls p)) \<and>
           length fl' + length (ls' p) = length fl + length (ls p) \<and> cwoken s' = cwoken s \<and> c_flag (cfreelist s') = c_flag (cfreelist s)"
proof -
  from getcbp_loop_ok [OF rel, of p m "[]"] n obtain s1 fl' ls' where
    s1: "getcbp_loop p m [] s = Some (take m (texts s ls p), s1)" "cl_rel U fl' ls' h (n(p := int (min m (length (texts s ls p))))) s1"
      "texts s1 ls' = (texts s ls)(p := drop m (texts s ls p))" "length fl' + length (ls' p) = length fl + length (ls p)"
      "cwoken s1 = cwoken s" "c_flag (cfreelist s1) = c_flag (cfreelist s)" by auto
  let ?k = "- int (min m (length (texts s ls p)))"
  define s' where "s' = set_list p ((clists s1 p)\<lparr>c_cc := c_cc (clists s1 p) + ?k\<rparr>) s1"
  have "getcbp p m s = Some (take m (texts s ls p), s')"
    using s1(1) by (simp add: getcbp_def Let_def min.commute s'_def)
  moreover have "cl_rel U fl' ls' h n s' \<and> texts s' ls' = texts s1 ls'"
    using count_later [OF s1(2), of 0 p ?k] n by (simp add: s'_def fun_upd_idem)
  moreover have "cwoken s' = cwoken s" "c_flag (cfreelist s') = c_flag (cfreelist s)" using s1(5,6) by (simp_all add: s'_def)
  ultimately show ?thesis using s1(3,4) by (intro exI [of _ s'] exI [of _ fl'] exI [of _ ls']) simp
qed

lemma putcbp_loop_ok:
  assumes "cl_rel U fl ls h n s"
  shows "\<exists>k s' fl' ls'. k \<le> length cp \<and> putcbp_loop p cp s = Some (drop k cp, s') \<and> (k < length cp \<longrightarrow> fl' = []) \<and>
           cl_rel U fl' ls' h (n(p := n p - int k)) s' \<and> texts s' ls' = (texts s ls)(p := texts s ls p @ take k cp)"
  using assms
proof (induction "length cp" arbitrary: cp s fl ls n rule: less_induct)
  case less
  note rel = less(2)
  have stop: ?case if "putcbp_loop p cp s = Some (cp, s)" "cp \<noteq> [] \<longrightarrow> fl = []"
    using that rel by (intro exI [of _ 0] exI [of _ s] exI [of _ fl] exI [of _ ls]) (auto simp: fun_upd_idem)
  show ?case
  proof (cases "cp = []")
    case True
    then show ?thesis by (intro stop) (simp_all add: putcbp_loop.simps [of p "[]"])
  next
    case False
    note ne = False
    consider (fail) "put_block p s = Some (None, s)" "fl = []"
      | (ok) bp cb s1 where "put_block p s = Some (Some bp, s1)"
         "fits p (bp, cb, s1) (\<lambda>bs s2. \<exists>fl' ls'. cl_rel U fl' ls' h (n(p := n p - int (length bs))) s2 \<and> texts s2 ls' = (texts s ls)(p := texts s ls p @ bs))"
      using put_block_ok [OF rel, of p] by blast
    then show ?thesis
    proof cases
      case fail
      have "putcbp_loop p cp s = Some (cp, s)" using ne fail(1) by (subst putcbp_loop.simps) simp
      then show ?thesis by (rule stop) (simp add: fail(2))
    next
      case ok
      have cb: "cfree s1 bp = Some cb" "unat (c_last cb) < 64" "c_size (cfreelist s1) = 64" using ok(2) by (simp_all add: fits_def)
      define on where "on = 64 - unat (c_last cb)"
      have gen: "nat (64 - int k) = 64 - k" "\<not> 64 < int k" "0 < 64 - k" "k + (64 - k) = 64" if "k < 64" for k :: nat using that by auto
      have on: "0 < on" "nat (64 - uint (c_last cb)) = on" "\<not> 64 < uint (c_last cb)" "unat (c_last cb) + on = 64"
        unfolding uint_nat [of "c_last cb"] on_def by (fact gen [OF cb(2)])+
      have fill: "\<exists>s2 fl' ls'. block_fill bp bs s1 = Some s2 \<and> cl_rel U fl' ls' h (n(p := n p - int (length bs))) s2 \<and> texts s2 ls' = (texts s ls)(p := texts s ls p @ bs)"
        if "bs \<noteq> []" "length bs \<le> on" for bs
        using ok(2) that on(4) unfolding fits_def prod.case by (auto dest!: spec [of _ bs])
      have step: "putcbp_loop p cp s = (if on \<le> length cp then do { s2 \<leftarrow> block_fill bp (take on cp) s1; putcbp_loop p (drop on cp) s2 }
          else map_option (Pair []) (block_fill bp cp s1))"
        using ne ok(1) cb(1,3) on(2,3) by (subst putcbp_loop.simps) (simp add: Let_def)
      show ?thesis
      proof (cases "on \<le> length cp")
        case True
        then have len: "length (take on cp) = on" by simp
        have "take on cp \<noteq> []" using on(1) ne by simp
        from fill [OF this, unfolded len] obtain s2 fl' ls' where
          s2: "block_fill bp (take on cp) s1 = Some s2" "cl_rel U fl' ls' h (n(p := n p - int on)) s2"
            "texts s2 ls' = (texts s ls)(p := texts s ls p @ take on cp)" by auto
        have "length (drop on cp) < length cp" using on(1) ne by simp
        from less(1) [OF this s2(2)] obtain k s' fl2 ls2 where
          k: "k \<le> length cp - on" "putcbp_loop p (drop on cp) s2 = Some (drop k (drop on cp), s')" "k < length cp - on \<longrightarrow> fl2 = []"
            "cl_rel U fl2 ls2 h (n(p := n p - int on - int k)) s'" "texts s' ls2 = (texts s2 ls')(p := texts s2 ls' p @ take k (drop on cp))" by auto
        have "putcbp_loop p cp s = Some (drop (on + k) cp, s')" using step True s2(1) k(2) by (simp add: add.commute)
        moreover have "texts s' ls2 = (texts s ls)(p := texts s ls p @ take (on + k) cp)" using k(5) s2(3) by (simp add: take_add)
        ultimately show ?thesis using k(1,3,4) True
          by (intro exI [of _ "on + k"] exI [of _ s'] exI [of _ fl2] exI [of _ ls2]) (simp add: diff_diff_eq)
      next
        case False
        with fill [OF ne] obtain s2 fl' ls' where "block_fill bp cp s1 = Some s2" "cl_rel U fl' ls' h (n(p := n p - int (length cp))) s2"
            "texts s2 ls' = (texts s ls)(p := texts s ls p @ cp)" by auto
        then show ?thesis using step False by (intro exI [of _ "length cp"] exI [of _ s2] exI [of _ fl'] exI [of _ ls']) simp
      qed
    qed
  qed
qed

lemma putcbp_ok:
  assumes rel: "cl_rel U fl ls h n s" and n: "n p = 0"
  shows "\<exists>k s' fl' ls'. k \<le> length cp \<and> putcbp p cp s = Some (k, s') \<and> (k < length cp \<longrightarrow> fl' = []) \<and> cl_rel U fl' ls' h n s' \<and>
           texts s' ls' = (texts s ls)(p := texts s ls p @ take k cp)"
proof -
  from putcbp_loop_ok [OF rel, of cp p] n obtain k s1 fl' ls' where
    s1: "k \<le> length cp" "putcbp_loop p cp s = Some (drop k cp, s1)" "k < length cp \<longrightarrow> fl' = []" "cl_rel U fl' ls' h (n(p := - int k)) s1"
      "texts s1 ls' = (texts s ls)(p := texts s ls p @ take k cp)" by auto
  define s' where "s' = set_list p ((clists s1 p)\<lparr>c_cc := c_cc (clists s1 p) + int k\<rparr>) s1"
  have "putcbp p cp s = Some (k, s')" using s1(1,2) by (simp add: putcbp_def Let_def s'_def)
  moreover have "cl_rel U fl' ls' h n s' \<and> texts s' ls' = texts s1 ls'"
    using count_later [OF s1(4), of 0 p "int k"] n by (simp add: s'_def fun_upd_idem)
  ultimately show ?thesis using s1(1,3,5) by auto
qed

section \<open>The text of a list, computed\<close>

partial_function (option) chain_of :: "cstate \<Rightarrow> nat option \<Rightarrow> nat list option" where
  "chain_of s p =
     (if p = None then Some []
      else do { cb \<leftarrow> cfree s (the p); xs \<leftarrow> chain_of s (c_next cb); Some (the p # xs) })"

definition free_chain :: "cstate \<Rightarrow> nat list option" where
  "free_chain s = chain_of s (free_next (cfreelist s))"

definition contents :: "cstate \<Rightarrow> clq \<Rightarrow> u8 list" where
  "contents s p = (case chain_of s (c_cf (clists s p)) of None \<Rightarrow> [] | Some xs \<Rightarrow> text_of s xs)"

lemma chain_of_path: "\<lbrakk>lpath (next_of s) p xs None; \<forall>a \<in> set xs. cfree s a \<noteq> None\<rbrakk> \<Longrightarrow> chain_of s p = Some xs"
proof (induction xs arbitrary: p)
  case (Cons a xs)
  then obtain cb where "cfree s a = Some cb" by auto
  with Cons show ?case by (subst chain_of.simps) (auto simp: next_of_def)
qed (simp add: chain_of.simps)

lemma cl_rel_chains:
  assumes rel: "cl_rel U fl ls h n s"
  shows "free_chain s = Some fl" "chain_of s (c_cf (clists s p)) = Some (ls p)" "contents s = texts s ls"
proof -
  note d = cl_relD [OF rel]
  have "\<forall>a \<in> set fl. cfree s a \<noteq> None" using lensD [OF d(2)] d(5) by fastforce
  then show "free_chain s = Some fl" unfolding free_chain_def by (rule chain_of_path [OF d(3)])
  show l: "chain_of s (c_cf (clists s p)) = Some (ls p)" for p
    using list_okD(3) [OF d(4) [of p]] by (intro chain_of_path [OF list_okD(1) [OF d(4) [of p]]]) fastforce
  show "contents s = texts s ls" by (simp add: contents_def texts_def fun_eq_iff l)
qed

section \<open>The machine\<close>

text \<open>
  The events are the operations, what a driver does to a block it holds, and \<^verbatim>\<open>cfreelist.c_flag = 1\<close> by a driver that waits for a
  free block. The set \<open>h\<close> has the blocks that \<^verbatim>\<open>getcf\<close> and \<^verbatim>\<open>getcb\<close> handed out and that were not put back.
\<close>

datatype clevent =
    GetC clq | PutC int clq | GetCF | PutCF nat | GetCB clq | PutCB nat clq | GetCBP clq nat | PutCBP clq "u8 list"
  | Fill nat cblock | WantFree

datatype clres = Char int | Block "nat option" | Bytes "u8 list" | Count nat | Done

definition block_filled :: "cstate \<Rightarrow> nat \<Rightarrow> bool" where
  "block_filled s b \<longleftrightarrow> (case cfree s b of None \<Rightarrow> False | Some cb \<Rightarrow> filled cb)"

fun cl_enabled :: "clevent \<Rightarrow> nat set \<Rightarrow> cstate \<Rightarrow> bool" where
  "cl_enabled (PutCF b) h s \<longleftrightarrow> b \<in> h"
| "cl_enabled (PutCB b p) h s \<longleftrightarrow> b \<in> h \<and> block_filled s b"
| "cl_enabled (Fill b cb) h s \<longleftrightarrow> b \<in> h \<and> length (c_data cb) = CLSIZE"
| "cl_enabled ev h s \<longleftrightarrow> True"

fun cl_perform :: "clevent \<Rightarrow> nat set \<Rightarrow> cstate \<Rightarrow> (clres \<times> nat set \<times> cstate) option" where
  "cl_perform (GetC p) h s = map_option (\<lambda>(c, s'). (Char c, h, s')) (getc p s)"
| "cl_perform (PutC c p) h s = map_option (\<lambda>(c, s'). (Char c, h, s')) (putc c p s)"
| "cl_perform GetCF h s = map_option (\<lambda>(b, s'). (Block b, h \<union> set_option b, s')) (getcf s)"
| "cl_perform (PutCF b) h s = map_option (\<lambda>s'. (Done, h - {b}, s')) (putcf b s)"
| "cl_perform (GetCB p) h s = map_option (\<lambda>(b, s'). (Block b, h \<union> set_option b, s')) (getcb p s)"
| "cl_perform (PutCB b p) h s = map_option (\<lambda>s'. (Done, h - {b}, s')) (putcb b p s)"
| "cl_perform (GetCBP p n) h s = map_option (\<lambda>(bs, s'). (Bytes bs, h, s')) (getcbp p n s)"
| "cl_perform (PutCBP p bs) h s = map_option (\<lambda>(k, s'). (Count k, h, s')) (putcbp p bs s)"
| "cl_perform (Fill b cb) h s = Some (Done, h, set_block b cb s)"
| "cl_perform WantFree h s = Some (Done, h, s\<lparr>cfreelist := (cfreelist s)\<lparr>c_flag := 1\<rparr>\<rparr>)"

inductive cl_reach :: "cstate \<Rightarrow> nat set \<Rightarrow> cstate \<Rightarrow> bool" for s0 where
  start: "cl_reach s0 {} s0"
| step: "\<lbrakk>cl_reach s0 h s; cl_enabled ev h s; cl_perform ev h s = Some (r, h', s')\<rbrakk> \<Longrightarrow> cl_reach s0 h' s'"

text \<open>The zeroed storage before \<^verbatim>\<open>cinit\<close>, and the blocks it keeps: those that do not cross a 64K boundary.\<close>

definition cl_zero :: cstate where
  "cl_zero = \<lparr>cfree = (\<lambda>_. None), cfreelist = \<lparr>free_next = None, c_size = 0, c_flag = 0\<rparr>, cfreecnt = 0,
             clists = (\<lambda>_. \<lparr>c_cc = 0, c_cf = None, c_cl = None\<rparr>), cwoken = 0\<rparr>"

definition usable :: "nat \<Rightarrow> (nat \<Rightarrow> int) \<Rightarrow> nat set" where
  "usable v_clist phys = {n \<in> {..<v_clist}. phys n + int CLSIZE \<le> nextbound (phys n)}"

section \<open>What each event does\<close>

text \<open>
  Over the texts \<open>f\<close> before and \<open>g\<close> after: a list is a queue of bytes. \<open>B\<close> and \<open>B'\<close> are the texts of single blocks before and
  after, \<open>full\<close> says that no block is free afterwards.
\<close>

fun cl_spec :: "clevent \<Rightarrow> (nat \<Rightarrow> u8 list) \<Rightarrow> (clq \<Rightarrow> u8 list) \<Rightarrow> clres \<Rightarrow> (nat \<Rightarrow> u8 list) \<Rightarrow> (clq \<Rightarrow> u8 list) \<Rightarrow> bool \<Rightarrow> bool" where
  "cl_spec (GetC p) B f r B' g full \<longleftrightarrow>
     (if f p = [] then r = Char (-1) \<and> g = f else r = Char (uint (hd (f p))) \<and> g = f(p := tl (f p)))"
| "cl_spec (PutC c p) B f r B' g full \<longleftrightarrow>
     r = Char 0 \<and> g = f(p := f p @ [word_of_int c]) \<or> r = Char (-1) \<and> g = f \<and> full"
| "cl_spec (GetCB p) B f r B' g full \<longleftrightarrow>
     (if f p = [] then r = Block None \<and> g = f
      else \<exists>b. r = Block (Some b) \<and> B' b \<noteq> [] \<and> f p = B' b @ g p \<and> g = f(p := g p))"
| "cl_spec (PutCB b p) B f r B' g full \<longleftrightarrow> r = Done \<and> g = f(p := f p @ B b)"
| "cl_spec (GetCBP p n) B f r B' g full \<longleftrightarrow> r = Bytes (take n (f p)) \<and> g = f(p := drop n (f p))"
| "cl_spec (PutCBP p bs) B f r B' g full \<longleftrightarrow>
     (\<exists>k \<le> length bs. r = Count k \<and> g = f(p := f p @ take k bs) \<and> (k < length bs \<longrightarrow> full))"
| "cl_spec GetCF B f r B' g full \<longleftrightarrow> g = f \<and> (r = Block None \<and> full \<or> (\<exists>b. r = Block (Some b)))"
| "cl_spec (PutCF b) B f r B' g full \<longleftrightarrow> r = Done \<and> g = f"
| "cl_spec (Fill b cb) B f r B' g full \<longleftrightarrow> r = Done \<and> g = f"
| "cl_spec WantFree B f r B' g full \<longleftrightarrow> r = Done \<and> g = f"

definition cl_inv :: "nat set \<Rightarrow> nat set \<Rightarrow> cstate \<Rightarrow> bool" where
  "cl_inv U h s \<longleftrightarrow> (\<exists>fl ls. cl_rel U fl ls h (\<lambda>_. 0) s)"

text \<open>From a fact about blocks and texts to one about what is computed from the state.\<close>

definition cl_good :: "nat set \<Rightarrow> clevent \<Rightarrow> nat set \<Rightarrow> cstate \<Rightarrow> bool" where
  "cl_good U ev h s \<longleftrightarrow>
     (\<exists>r h' s'. cl_perform ev h s = Some (r, h', s') \<and> cl_inv U h' s' \<and>
        cl_spec ev (blk s) (contents s) r (blk s') (contents s') (free_chain s' = Some []))"

lemma cl_goodI:
  assumes rel: "cl_rel U fl ls h (\<lambda>_. 0) s" and p: "cl_perform ev h s = Some (r, h', s')" and rel': "cl_rel U fl' ls' h' (\<lambda>_. 0) s'"
    and sp: "cl_spec ev (blk s) (texts s ls) r (blk s') (texts s' ls') (fl' = [])"
  shows "cl_good U ev h s"
  unfolding cl_good_def cl_inv_def
  using p rel' sp cl_rel_chains(1,3) [OF rel'] cl_rel_chains(3) [OF rel] by auto

lemma cl_good_all:
  assumes inv: "cl_inv U h s" and en: "cl_enabled ev h s"
  shows "cl_good U ev h s"
proof -
  from inv obtain fl ls where rel: "cl_rel U fl ls h (\<lambda>_. 0) s" by (auto simp: cl_inv_def)
  note good = cl_goodI [OF rel]
  show ?thesis
  proof (cases ev)
    case (GetC p)
    show ?thesis
    proof (cases "texts s ls p = []")
      case True
      then show ?thesis using getc_ok [OF rel, of p] rel by (intro good [where r = "Char (-1)"]) (auto simp: GetC)
    next
      case False
      with getc_ok [OF rel, of p] obtain s' fl' ls' where
        g: "getc p s = Some (uint (hd (texts s ls p)), s')" "cl_rel U fl' ls' h (\<lambda>_. 0) s'" "texts s' ls' = (texts s ls)(p := tl (texts s ls p))" by auto
      show ?thesis by (rule good [OF _ g(2), where r = "Char (uint (hd (texts s ls p)))"]) (use g False in \<open>simp_all add: GetC\<close>)
    qed
  next
    case (PutC c p)
    from putc_ok [OF rel refl, of c p] show ?thesis
    proof (elim disjE exE conjE)
      assume "putc c p s = Some (-1, s)" "fl = []"
      then show ?thesis using rel by (intro good [where r = "Char (-1)"]) (auto simp: PutC)
    next
      fix s' fl' ls' assume g: "putc c p s = Some (0, s')" "cl_rel U fl' ls' h (\<lambda>_. 0) s'" "texts s' ls' = (texts s ls)(p := texts s ls p @ [word_of_int c])"
      show ?thesis by (rule good [OF _ g(2), where r = "Char 0"]) (use g in \<open>simp_all add: PutC\<close>)
    qed
  next
    case GetCF
    from getcf_ok [OF rel] show ?thesis
    proof (elim disjE exE conjE)
      assume "fl = []" "getcf s = Some (None, s)"
      then show ?thesis using rel by (intro good [where r = "Block None"]) (auto simp: GetCF)
    next
      fix b s' fl' assume g: "getcf s = Some (Some b, s')" "cl_rel U fl' ls (insert b h) (\<lambda>_. 0) s'" "texts s' ls = texts s ls"
      show ?thesis by (rule good [OF _ g(2), where r = "Block (Some b)"]) (use g in \<open>simp_all add: GetCF\<close>)
    qed
  next
    case (PutCF b)
    with putcf_ok [OF rel, of b] en obtain s' where
      g: "putcf b s = Some s'" "cl_rel U (b # fl) ls (h - {b}) (\<lambda>_. 0) s'" "texts s' ls = texts s ls" by auto
    show ?thesis by (rule good [OF _ g(2), where r = Done]) (use g in \<open>simp_all add: PutCF\<close>)
  next
    case (GetCB p)
    show ?thesis
    proof (cases "texts s ls p = []")
      case True
      then show ?thesis using getcb_ok [OF rel, of p] rel by (intro good [where r = "Block None"]) (auto simp: GetCB)
    next
      case False
      with getcb_ok [OF rel, of p] obtain b bs s' where
        g: "getcb p s = Some (Some b, s')" "cl_rel U fl (ls(p := bs)) (insert b h) (\<lambda>_. 0) s'" "blk s' b = blk s b" "blk s b \<noteq> []"
          "texts s ls p = blk s b @ texts s' (ls(p := bs)) p" "texts s' (ls(p := bs)) = (texts s ls)(p := texts s' (ls(p := bs)) p)" by auto
      show ?thesis by (rule good [OF _ g(2), where r = "Block (Some b)"]) (use g False in \<open>simp_all add: GetCB\<close>)
    qed
  next
    case (PutCB b p)
    with en obtain cb where cb: "b \<in> h" "cfree s b = Some cb" "filled cb" by (auto simp: block_filled_def split: option.splits)
    from putcb_ok [OF rel _ cb, of p] obtain s' where g: "putcb b p s = Some s'" "cl_rel U fl (ls(p := ls p @ [b])) (h - {b}) (\<lambda>_. 0) s'"
        "texts s' (ls(p := ls p @ [b])) = (texts s ls)(p := texts s ls p @ cb_text cb)" by auto
    show ?thesis by (rule good [OF _ g(2), where r = Done]) (use g cb in \<open>simp_all add: PutCB blk_def\<close>)
  next
    case (GetCBP p m)
    from getcbp_ok [OF rel refl, of p m] obtain s' fl' ls' where g: "getcbp p m s = Some (take m (texts s ls p), s')" "cl_rel U fl' ls' h (\<lambda>_. 0) s'"
        "texts s' ls' = (texts s ls)(p := drop m (texts s ls p))" by auto
    show ?thesis by (rule good [OF _ g(2), where r = "Bytes (take m (texts s ls p))"]) (use g in \<open>simp_all add: GetCBP\<close>)
  next
    case (PutCBP p bs)
    from putcbp_ok [OF rel refl, of bs p] obtain k s' fl' ls' where g: "k \<le> length bs" "putcbp p bs s = Some (k, s')" "k < length bs \<longrightarrow> fl' = []"
        "cl_rel U fl' ls' h (\<lambda>_. 0) s'" "texts s' ls' = (texts s ls)(p := texts s ls p @ take k bs)" by auto
    show ?thesis by (rule good [OF _ g(4), where r = "Count k"]) (use g in \<open>auto simp: PutCBP\<close>)
  next
    case (Fill b cb)
    note d = cl_relD [OF rel]
    have b: "b \<in> h" "b \<notin> set fl" using en d(7) by (auto simp: Fill)
    have "cl_rel U fl ls h (\<lambda>_. 0) (set_block b cb s) \<and> texts (set_block b cb s) ls = texts s ls"
      by (rule cl_rel_lists [OF rel]) (use d(2,3,7) b en in \<open>auto simp: Fill\<close>)
    then show ?thesis by (intro good [where r = Done and s' = "set_block b cb s" and fl' = fl and ls' = ls and h' = h]) (auto simp: Fill)
  next
    case WantFree
    note d = cl_relD [OF rel]
    have "cl_rel U fl ls h (\<lambda>_. 0) (s\<lparr>cfreelist := (cfreelist s)\<lparr>c_flag := 1\<rparr>\<rparr>) \<and> texts (s\<lparr>cfreelist := (cfreelist s)\<lparr>c_flag := 1\<rparr>\<rparr>) ls = texts s ls"
      by (rule cl_rel_lists [OF rel]) (use d(2,3,7) in auto)
    then show ?thesis by (intro good [where r = Done and s' = "s\<lparr>cfreelist := (cfreelist s)\<lparr>c_flag := 1\<rparr>\<rparr>" and fl' = fl and ls' = ls and h' = h]) (auto simp: WantFree)
  qed
qed

section \<open>The initial state\<close>

lemma cinit_blocks:
  assumes k: "k \<le> v" and m: "\<forall>n < v. cfree s0 n = Some (m n)" "free_next (cfreelist s0) = None"
  shows "let s = fold (cinit_block phys) [0..<k] s0; fl = rev (filter (\<lambda>n. n \<in> usable v phys) [0..<k]) in
           (\<forall>n < v. \<exists>cb. cfree s n = Some cb \<and> c_data cb = c_data (m n)) \<and> lpath (next_of s) (free_next (cfreelist s)) fl None \<and>
           clists s = clists s0"
  using k
proof (induction k)
  case 0
  then show ?case using m by simp
next
  case (Suc k)
  define s where "s = fold (cinit_block phys) [0..<k] s0"
  define fl where "fl = rev (filter (\<lambda>n. n \<in> usable v phys) [0..<k])"
  have ih: "\<forall>n < v. \<exists>cb. cfree s n = Some cb \<and> c_data cb = c_data (m n)" "lpath (next_of s) (free_next (cfreelist s)) fl None" "clists s = clists s0"
    using Suc by (simp_all add: Let_def s_def fl_def)
  have kv: "k < v" using Suc(2) by simp
  with ih(1) obtain cb where cb: "cfree s k = Some cb" "c_data cb = c_data (m k)" by blast
  have step: "fold (cinit_block phys) [0..<Suc k] s0 = (if k \<in> usable v phys then (link_free k cb s)\<lparr>cfreecnt := cfreecnt s + 1\<rparr> else s)"
    using cb(1) kv by (simp add: s_def [symmetric] cinit_block_def usable_def)
  have fl': "rev (filter (\<lambda>n. n \<in> usable v phys) [0..<Suc k]) = (if k \<in> usable v phys then k # fl else fl)" by (simp add: fl_def)
  have nx: "next_of (t\<lparr>cfreecnt := c\<rparr>) = next_of t" for t c by (auto simp: next_of_def)
  have "k \<notin> set fl" by (simp add: fl_def)
  then show ?case unfolding Let_def step fl' using ih cb(2) by (auto simp: nx)
qed

lemma cinit_inv:
  assumes init: "cinit v (Some m) phys cl_zero = Some s0" and len: "\<forall>n < v. length (c_data (m n)) = CLSIZE"
  shows "cl_inv (usable v phys) {} s0"
proof -
  define z where "z = cl_zero\<lparr>cfree := (\<lambda>n. if n < v then Some (m n) else None)\<rparr>"
  define s where "s = fold (cinit_block phys) [0..<v] z"
  define fl where "fl = rev (filter (\<lambda>n. n \<in> usable v phys) [0..<v])"
  have s0: "s0 = s\<lparr>cfreelist := (cfreelist s)\<lparr>c_size := int CLSIZE\<rparr>\<rparr>" using init by (simp add: cinit_def Let_def s_def z_def)
  have b: "\<forall>n < v. \<exists>cb. cfree s n = Some cb \<and> c_data cb = c_data (m n)" "lpath (next_of s) (free_next (cfreelist s)) fl None" "clists s = clists z"
    using cinit_blocks [of v v z m phys] by (simp_all add: Let_def s_def fl_def z_def cl_zero_def)
  have fl: "set fl = usable v phys" by (auto simp: fl_def usable_def)
  have "cl_rel (usable v phys) fl (\<lambda>_. []) {} (\<lambda>_. 0) s0"
    unfolding cl_rel_def
  proof (intro conjI allI impI)
    show "lens (usable v phys) (cfree s0)" using b(1) len by (fastforce simp: lens_def usable_def s0)
    show "list_ok 0 s0 p []" for p using b(3) by (simp add: list_ok_def s0 z_def cl_zero_def)
    show "lpath (next_of s0) (free_next (cfreelist s0)) fl None" using b(2) by (simp add: s0)
  qed (simp_all add: fl s0)
  then show ?thesis unfolding cl_inv_def by blast
qed

lemma cl_reach_inv:
  assumes init: "cl_inv U {} s0" and reach: "cl_reach s0 h s"
  shows "cl_inv U h s"
  using reach
proof induction
  case (step h s ev r h' s')
  from cl_good_all [OF step(4,2)] step(3) show ?case by (auto simp: cl_good_def)
qed (rule init)

section \<open>The properties\<close>

text \<open>
  C23: From \<^verbatim>\<open>cinit\<close> on, a character list is a queue of bytes under every operation. Each returns, and follows no null pointer:
  \<^verbatim>\<open>getc\<close> takes the first character, or returns -1 exactly when there is none, \<^verbatim>\<open>putc\<close> appends one, \<^verbatim>\<open>getcb\<close> and \<^verbatim>\<open>putcb\<close> take
  off and append the text of a block, \<^verbatim>\<open>getcbp\<close> takes the first \<open>n\<close> characters or all, and \<^verbatim>\<open>putcbp\<close> appends as many as it says. No
  other list changes. \<^verbatim>\<open>putc\<close>, \<^verbatim>\<open>getcf\<close> and \<^verbatim>\<open>putcbp\<close> give up only when no block is free.
\<close>

theorem clist_is_byte_queue:
  assumes "cinit v (Some m) phys cl_zero = Some s0" and "\<forall>n < v. length (c_data (m n)) = CLSIZE" and "cl_reach s0 h s"
    and "cl_enabled ev h s"
  shows "\<exists>r h' s'. cl_perform ev h s = Some (r, h', s') \<and>
           cl_spec ev (blk s) (contents s) r (blk s') (contents s') (free_chain s' = Some [])"
  using cl_good_all [OF cl_reach_inv [OF cinit_inv [OF assms(1,2)] assms(3)] assms(4)] unfolding cl_good_def by blast

text \<open>A small instance: three blocks, the second of which would cross a 64K boundary.\<close>

definition wit_mem :: "nat \<Rightarrow> cblock" where
  "wit_mem n = \<lparr>c_next = None, c_first = 0, c_last = 0, c_data = replicate 64 0\<rparr>"

definition wit_phys :: "nat \<Rightarrow> int" where
  "wit_phys n = 65400 + 72 * int n"

definition wit_init :: cstate where
  "wit_init = the (cinit 3 (Some wit_mem) wit_phys cl_zero)"

lemma wit_cinit: "cinit 3 (Some wit_mem) wit_phys cl_zero = Some wit_init" "\<forall>n < 3. length (c_data (wit_mem n)) = CLSIZE"
  by (simp_all add: wit_init_def cinit_def Let_def wit_mem_def CLSIZE_def)

theorem clist_is_byte_queue_witness:
  "\<exists>r h' s'. cl_perform (PutCBP (RawQ 0) [104, 105]) {} wit_init = Some (r, h', s') \<and>
     cl_spec (PutCBP (RawQ 0) [104, 105]) (blk wit_init) (contents wit_init) r (blk s') (contents s') (free_chain s' = Some [])"
  by (rule clist_is_byte_queue [OF wit_cinit cl_reach.start]) simp

text \<open>
  C24: No character block is ever lost or in two places: each block that \<^verbatim>\<open>cinit\<close> kept is on the free list, on one character list
  or with the driver it was handed to. The chains end and have no block twice, \<^verbatim>\<open>c_cl\<close> points to the last block, \<^verbatim>\<open>c_cc\<close> is the
  number of characters on the list, and a list without characters has no blocks.
\<close>

theorem clist_blocks_kept:
  assumes "cinit v (Some m) phys cl_zero = Some s0" and "\<forall>n < v. length (c_data (m n)) = CLSIZE" and "cl_reach s0 h s"
  shows "\<exists>fl ls. free_chain s = Some fl \<and> set fl \<union> (\<Union>p. set (ls p)) \<union> h = usable v phys \<and> distinct fl \<and> set fl \<inter> h = {} \<and>
    (\<forall>p. chain_of s (c_cf (clists s p)) = Some (ls p) \<and> c_cl (clists s p) = last_opt (ls p) \<and> c_cc (clists s p) = int (length (contents s p)) \<and>
         (contents s p = [] \<longleftrightarrow> ls p = []) \<and> distinct (ls p) \<and> set (ls p) \<inter> (set fl \<union> h) = {} \<and> (\<forall>q. p \<noteq> q \<longrightarrow> set (ls p) \<inter> set (ls q) = {}))"
proof -
  from cl_reach_inv [OF cinit_inv [OF assms(1,2)] assms(3)] obtain fl ls where rel: "cl_rel (usable v phys) fl ls h (\<lambda>_. 0) s"
    by (auto simp: cl_inv_def)
  note d = cl_relD [OF rel]
  have tx: "contents s p = text_of s (ls p)" for p using cl_rel_chains(3) [OF rel] by (simp add: texts_def)
  show ?thesis
  proof (intro exI conjI allI impI)
    show "free_chain s = Some fl" "chain_of s (c_cf (clists s p)) = Some (ls p)" for p using cl_rel_chains [OF rel] by simp_all
    show "distinct fl" using d(3) by (rule lpath_distinct)
    show "c_cc (clists s p) = int (length (contents s p))" for p using list_okD(4) [OF d(4) [of p]] tx by simp
    show "contents s p = [] \<longleftrightarrow> ls p = []" for p using text_of_empty [OF d(4) [of p]] tx by simp
    show "distinct (ls p)" for p using list_okD(5) [OF d(4)] .
    show "c_cl (clists s p) = last_opt (ls p)" for p using list_okD(2) [OF d(4)] .
  qed (fact d(5-8))+
qed

theorem clist_blocks_kept_witness:
  "\<exists>fl ls. free_chain wit_init = Some fl \<and> set fl \<union> (\<Union>p. set (ls p)) \<union> {} = usable 3 wit_phys \<and> distinct fl \<and> set fl \<inter> {} = {} \<and>
    (\<forall>p. chain_of wit_init (c_cf (clists wit_init p)) = Some (ls p) \<and> c_cl (clists wit_init p) = last_opt (ls p) \<and>
         c_cc (clists wit_init p) = int (length (contents wit_init p)) \<and>
         (contents wit_init p = [] \<longleftrightarrow> ls p = []) \<and> distinct (ls p) \<and> set (ls p) \<inter> (set fl \<union> {}) = {} \<and> (\<forall>q. p \<noteq> q \<longrightarrow> set (ls p) \<inter> set (ls q) = {}))"
  by (rule clist_blocks_kept [OF wit_cinit cl_reach.start])

text \<open>
  A block that \<^verbatim>\<open>getcbp\<close> frees wakes nobody: a driver that waits with \<^verbatim>\<open>cfreelist.c_flag\<close> set sleeps on although there is a free block,
  where \<^verbatim>\<open>getc\<close> and \<^verbatim>\<open>putcf\<close> would clear the flag and wake it.
\<close>

theorem getcbp_wakes_nobody:
  assumes inv: "cl_inv U h s" and fl: "free_chain s = Some []" and p: "contents s p \<noteq> []" "length (contents s p) \<le> n"
  shows "\<exists>s'. getcbp p n s = Some (contents s p, s') \<and> free_chain s' \<noteq> Some [] \<and>
    c_flag (cfreelist s') = c_flag (cfreelist s) \<and> cwoken s' = cwoken s"
proof -
  from inv obtain fl ls where rel: "cl_rel U fl ls h (\<lambda>_. 0) s" by (auto simp: cl_inv_def)
  note c = cl_rel_chains [OF rel]
  have "fl = []" using c(1) fl by simp
  moreover from getcbp_ok [OF rel refl, of p n] obtain s' fl' ls' where
    g: "getcbp p n s = Some (take n (texts s ls p), s')" "cl_rel U fl' ls' h (\<lambda>_. 0) s'" "texts s' ls' = (texts s ls)(p := drop n (texts s ls p))"
      "length fl' + length (ls' p) = length fl + length (ls p)" "cwoken s' = cwoken s" "c_flag (cfreelist s') = c_flag (cfreelist s)" by auto
  have "texts s' ls' p = []" using g(3) p(2) c(3) by simp
  then have "ls' p = []" using text_of_empty [OF cl_relD(4) [OF g(2), of p]] by (simp add: texts_def)
  moreover have "ls p \<noteq> []" using p(1) c(3) by (auto simp: texts_def)
  ultimately have "free_chain s' \<noteq> Some []" using cl_rel_chains(1) [OF g(2)] g(4) by auto
  then show ?thesis using g(1,5,6) p(2) c(3) by auto
qed

end
