(* ===== verification/Spec2Isabelle.thy ===== *)
theory Spec2Isabelle
  imports Sem_Sets Msg_Props Flock_Dead Strq_Props Strmsg_Props Callout_Props In_cksum Sched_Props Clist_Props
begin

text \<open>
  A verification of kernel facilities of UNIX System V Release 4 for the i386, from the C source under
  \<^verbatim>\<open>src/uts/i386\<close>. Paths below are relative to that directory.

  \<^bold>\<open>The program and the part modelled.\<close> The tree is an operating system kernel: machine start-up, traps and
  memory management, processes and scheduling, file systems, STREAMS with the network protocols, device drivers,
  and the facilities the system calls offer on top of them. The development covers facilities that are the
  kernel's own logic on its own data: the resource map allocator, the System V inter-process communication
  (common code, semaphores, messages), record locks on files, the message blocks and message queues of STREAMS with the
  Internet checksum over them, the table of timed calls, character lists, bit maps, and process scheduling with sleeping and waking. They meet in the following way. \<^verbatim>\<open>semget\<close> and \<^verbatim>\<open>msgget\<close> find or make a table entry with \<^verbatim>\<open>ipcget\<close>, every other call checks it
  with \<^verbatim>\<open>ipcaccess\<close>, which asks the credentials; \<^verbatim>\<open>semget\<close> takes the semaphores of a set, and \<^verbatim>\<open>msgsnd\<close> the text
  of a message, from a resource map with \<^verbatim>\<open>rmalloc\<close>, and \<^verbatim>\<open>IPC_RMID\<close> and \<^verbatim>\<open>msgrcv\<close> give it back with \<^verbatim>\<open>rmfree\<close>;
  process exit takes back semaphore operations and releases record locks; a caller that has to wait sleeps on a channel and is
  put back on its dispatcher queue by \<^verbatim>\<open>wakeprocs\<close> through its scheduling class, and the time-sharing class asks for its update with
  \<^verbatim>\<open>timeout\<close>.

  \<^bold>\<open>The theories.\<close>

  \<^item> \<open>Kernel_Prelude\<close>: the machine types, the error numbers, the wrap-around of \<^verbatim>\<open>short\<close> and \<^verbatim>\<open>long\<close>, and the lemmas
    on words and lists that the others share.
  \<^item> \<open>Rmap\<close>: \<^verbatim>\<open>os/malloc.c\<close>, \<^verbatim>\<open>sys/map.h\<close>. A resource map is the array of its slots, as \<open>slot\<close> records; \<open>rmalloc\<close>,
    \<open>rmfree\<close> and \<open>mapinit\<close> follow the C loops over it. The locale \<open>unit_pool\<close> is what the users of a map rely on, a
    set of free units from which disjoint blocks are taken and given back, and is interpreted on these functions.
    Shown: first fit, exact effect of a free with coalescing, and that a free undoes an allocation.
  \<^item> \<open>Ipc\<close>: \<^verbatim>\<open>os/ipc.c\<close>, \<^verbatim>\<open>sys/ipc.h\<close> and the tests of \<^verbatim>\<open>os/cred.c\<close>. Shown: the complete behaviour of \<open>ipcget\<close>, that it
    keeps keys unique, and the permission classes of \<open>ipcaccess\<close>.
  \<^item> \<open>Sem\<close>: all of \<^verbatim>\<open>os/sem.c\<close>. The state is the record \<open>semstate\<close> (the tables \<^verbatim>\<open>sema\<close> and \<^verbatim>\<open>sem\<close>, the map, the undo
    structures and the sleepers woken). \<open>semop\<close> runs to its return or its next sleep; \<open>semop_resume\<close>, \<open>semop_intr_n\<close> and
    \<open>semop_intr_z\<close> go on from there, so that calls interleave exactly at the points where they do in the kernel.
    \<open>Sem_Atomic\<close>: \<open>semop\<close> is all or nothing. \<open>Sem_Exit\<close>: \<open>semexit\<close> takes back what was done with \<^verbatim>\<open>SEM_UNDO\<close>, \<open>semunrm\<close>
    removes exactly its entries. \<open>Sem_Sets\<close>: the invariant of the facility over the step relation \<open>sem_step\<close>, that
    the calls complete, and a check that a resumed \<open>semop\<close> leaves out. A sleeper may go on with any list of operations, as the code
    copies it in again; a list that leaves \<^verbatim>\<open>sem[]\<close> is the explicit fault \<open>SemFault\<close> and no step. The invariant is for \<^verbatim>\<open>SEMMSL\<close> up
    to 65535, above which \<^verbatim>\<open>sem_nsems\<close>, an unsigned short, is cut.
  \<^item> \<open>Msg\<close>: all of \<^verbatim>\<open>os/msg.c\<close>; the state \<open>msgstate\<close> has the queues, headers, the text pool and its map. \<open>Msg_Queue\<close>: the
    invariant and the abstraction to a list of typed messages per queue, which message is selected. \<open>Msg_Props\<close>:
    \<open>msgsnd\<close> and \<open>msgrcv\<close> refine appending to and removing from that list, the invariant over \<open>msg_step\<close>, and what \<open>msgctl\<close>
    and \<open>msgget\<close> leave alone.
  \<^item> \<open>Flock\<close>: all of \<^verbatim>\<open>os/flock.c\<close>. The locks of a file and the sleeping requests are chains of \<open>filock\<close> records, a pointer
    into one is a position. \<open>reclock\<close> runs to its return or sleep and \<open>reclock_resume\<close> goes on, \<open>None\<close> if its entry is gone. \<open>Flock_Adjust\<close>: the scan of
    \<open>flckadj\<close> through its thirteen regions against sets of bytes. \<open>Flock_Props\<close>: \<open>blocked\<close>, and chains without
    conflicts. \<open>Flock_Calls\<close>: the refinement of \<open>reclock\<close> to a table of bytes per owner, mutual exclusion over the step
    relation \<open>fl_step\<close>, errors, clean-up. \<open>Flock_Dead\<close>: the deadlock search ends and is exact; over the machine
    \<open>wait_reach\<close> of calls, wake-ups and exits on all files, in which no owner makes a request while one of its is recorded, no cycle of
    waits is ever made; the arithmetic of ranges, and locks lost by a request that fails.
  \<^item> \<open>Strq\<close>: the queue operations of \<^verbatim>\<open>io/stream.c\<close>, with \<^verbatim>\<open>setqback\<close> of \<^verbatim>\<open>os/strsubr.c\<close>. Queues live at addresses in
    \<open>strstate\<close>, each with its list of messages, its bands with counts and end pointers, and flags; the run list is a list
    of addresses. \<open>Strq_Order\<close>: the order of a queue and the places \<open>putq\<close> and \<open>putbq\<close> find. \<open>Strq_Ops\<close>: every
    operation on one queue keeps the invariant; the locale \<open>put_op\<close> is the contract \<open>putq\<close> and \<open>putbq\<close> share and
    is interpreted on both. \<open>Strq_State\<close>: the operations on the state, with back-enabling and the walks along a stream.
    \<open>Strq_Props\<close>: order, invariant over \<open>strq_step\<close>, completeness, flushing, flow control, and an error of \<open>insq\<close>, for which
    \<open>strq_step\<close> has \<^verbatim>\<open>insq\<close> at the end of a queue only when no message of the band is there.
  \<^item> \<open>Strmsg\<close>: the message blocks of \<^verbatim>\<open>io/stream.c\<close>, with \<^verbatim>\<open>xmsgsize\<close>, \<^verbatim>\<open>xmsgalloc\<close> and \<^verbatim>\<open>xmdballoc\<close> of \<^verbatim>\<open>os/strsubr.c\<close>. The
    heap \<open>msgheap\<close> maps addresses to message headers and data headers, a triplet having one address for both; a buffer is
    the list of its bytes. \<open>Strmsg_Inv\<close>: the invariant of the heap (reference counts, status of the triplets, free lists,
    memory in use) and its preservation by allocation, freeing and duplication. \<open>Strmsg_Pull\<close>: the same for \<open>pullupmsg\<close>; the
    locale \<open>loop_view\<close> is what its copying loop needs of a pending adjustment of the heap and is interpreted on the two its
    branches make. \<open>Strmsg_Data\<close>: the data of a message and what the operations do to it. \<open>Strmsg_Props\<close>: the invariant
    over \<open>msg_step\<close>, the exact effects of \<open>pullupmsg\<close>, \<open>adjmsg\<close> and \<open>freeb\<close>, and observations on errors: the reference count that
    wraps with the 256th \<^verbatim>\<open>dupb\<close>, \<^verbatim>\<open>pullupmsg\<close> with nothing to pull up, which makes a message without end (\<open>msg_step\<close> has neither), and
    \<^verbatim>\<open>adjmsg\<close> with the smallest \<^verbatim>\<open>int\<close>.
  \<^item> \<open>In_cksum\<close>: \<^verbatim>\<open>netinet/in_cksum.c\<close> over these messages, equal to the one's complement sum of the data whatever the
    blocks, and zero over a datagram that holds its checksum.
  \<^item> \<open>Callout\<close>: the callout table of \<^verbatim>\<open>os/clock.c\<close>, an array of \<open>callo\<close> records kept as a heap by their times. \<open>Callout_Props\<close>:
    the table as a multiset of requests over \<open>clk_reach\<close>, and that \<open>timein\<close> makes the calls that are due, in order, and ends.
  \<^item> \<open>Bitmap\<close>: \<^verbatim>\<open>os/bitmap.c\<close>, \<^verbatim>\<open>sys/bitmap.h\<close>: the binary search for the highest bit against the maximum of the set of bits, the
    first free bit, and runs of bits.
  \<^item> \<open>Clist\<close>: \<^verbatim>\<open>io/clist.c\<close>, the character lists of the terminals, over the array of blocks \<^verbatim>\<open>cfree\<close> and the free list; a pointer is an
    index. \<open>Clist_Queue\<close>: the invariant that gives every block one place, and the effect of each operation on the text of a list.
    \<open>Clist_Props\<close>: \<^verbatim>\<open>getcbp\<close> and \<^verbatim>\<open>putcbp\<close>, the machine \<open>cl_reach\<close> from \<^verbatim>\<open>cinit\<close>, a list as a queue of bytes, the blocks conserved, and that
    \<^verbatim>\<open>getcbp\<close> wakes no driver that waits for a block. A driver may write the blocks it holds; \<^verbatim>\<open>putcb\<close> takes one that has characters.
  \<^item> \<open>Disp\<close>, \<open>Ts\<close>, \<open>Rt\<close>, \<open>Slp\<close>: process scheduling. The record \<open>sched\<close> has the processes, the dispatcher queues with their counts
    and bit map, the sleep queues and the data of the classes. \<open>Disp\<close> is \<^verbatim>\<open>disp/disp.c\<close> with \<^verbatim>\<open>pswtch\<close>, \<open>Ts\<close> and \<open>Rt\<close> are
    the time-sharing, real-time and system classes (\<^verbatim>\<open>disp/ts.c\<close>, \<^verbatim>\<open>disp/rt.c\<close>, \<^verbatim>\<open>disp/sysclass.c\<close>) with the calls by class of
    \<^verbatim>\<open>sys/class.h\<close>, \<open>Slp\<close> is \<^verbatim>\<open>os/slp.c\<close>. Every operation returns \<open>None\<close> where the code would leave an array, follow a null
    pointer or not end.
  \<^item> \<open>Disp_Queues\<close>: the chains over \<^verbatim>\<open>p_link\<close> as lists, one per priority, the counts and \<^verbatim>\<open>maxrunpri\<close>; the operations refine those on
    lists. \<open>Sched_Inv\<close>: what an operation of a class may do to the queues, as the locales \<open>enqueues\<close> and \<open>requeues\<close>;
    \<open>Sched_Class\<close> interprets them on the operations of the classes and on the calls by class. \<open>Slp_Inv\<close>, \<open>Sched_Wake\<close>: the invariant
    that ties the state of a process to its queue, over sleeping and waking; \<^verbatim>\<open>setrun\<close> and \<^verbatim>\<open>wakeprocs\<close> call each other and end.
    \<open>Sched_Step\<close>, \<open>Sched_Machine\<close>: sleep, preemption and switch, and the machine whose steps are the events of scheduling: ticks and
    updates, return to user mode, sleep, preemption, switch, idle turns, wakeups, processes set running or created, changes of
    parameters and nice values. Joining and leaving a class, stops and swapping are modelled but no events.
    \<open>Sched_Aging\<close>: the update that raises waiting processes. \<open>Sched_Swap\<close>: the nomination of processes to be swapped out.
    \<open>Sched_Props\<close>: the properties.

  \<^bold>\<open>Conventions.\<close> A C \<^verbatim>\<open>struct\<close> is a record with the field names of the source, an unsigned integer is a word
  of its width, a \<^verbatim>\<open>short\<close> or \<^verbatim>\<open>long\<close> whose overflow matters is an integer reduced by \<open>to_short\<close> or \<open>to_long\<close>. The kernel does
  not preempt itself, so code between two sleeps is one step; processor levels (\<^verbatim>\<open>splstr\<close>) only keep interrupts out of
  such a step and have no counterpart. Where the C code would use a pointer that leads nowhere, or loop for ever, the
  model returns \<open>None\<close> or an explicit fault, and theorems show when this does not happen. Loops that may not end are
  \<^verbatim>\<open>partial_function\<close>s, all others are total with a measure; no fuel is used.

  \<^bold>\<open>Parameters.\<close> Code outside these files enters as an argument: whether memory is found (\<open>mem\<close>), what
  \<^verbatim>\<open>VOP_GETATTR\<close> reports, whether a copy between user and kernel space succeeds, the time, the tuneable limits, the XENIX
  flags of a process, what interrupts and \<^verbatim>\<open>runqueues\<close> do while \<^verbatim>\<open>pswtch\<close> idles, whether memory is low and a u-block can be brought in, the memory and the
  physical addresses \<^verbatim>\<open>cinit\<close> gets (not negative), what a driver writes into a character block.

  \<^bold>\<open>Not modelled.\<close> Device drivers and the protocol modules (hardware and wire formats); memory management, traps and
  start-up (hardware state); file systems; the creation (but for its last step) and exit of processes, signals, and so the sleep a signal may end; a
  page fault that sleeps inside \<^verbatim>\<open>copyin\<close> or \<^verbatim>\<open>copyout\<close>, which are taken as one step with the call; a checksum over a negative length; of
  scheduling the system call \<^verbatim>\<open>priocntl\<close> and the parameters of the real-time class in the user's format; within STREAMS the
  scheduler \<^verbatim>\<open>queuerun\<close> and the stream head; the tools for building the
  system, which are not part of the running program.
\<close>

end
